(* ===== verification/Prelude.thy ===== *)
theory Prelude
  imports Main "HOL-Library.Word"
begin

unbundle bit_operations_syntax

text \<open>
  Shared ground of the development: the C integer types the program uses, the
  result type in which a failed \<^verbatim>\<open>pony_assert\<close> is a value, and the generic
  facts on words and lists that the component theories rest on.
\<close>

section \<open>Machine types and faults\<close>

type_synonym uint8_t = "8 word"
type_synonym uint32_t = "32 word"
type_synonym uint64_t = "64 word"

text \<open>
  A \<^verbatim>\<open>pony_assert\<close> that fails stops the program.  An operation that contains
  one returns \<open>Inl Assert_fail\<close> on that branch and \<open>Inr v\<close> when it returns \<open>v\<close>;
  an operation that follows a \<^verbatim>\<open>NULL\<close> pointer returns \<open>Inl Null_deref\<close>, and one that reads outside an
  array or touches memory it does not own returns \<open>Inl Bad_access\<close>.  A loop whose
  bound is not visible in its text runs on fuel and returns \<open>Inl Out_of_fuel\<close> when it has none
  left, which the theorems about it rule out.
\<close>

datatype fault = Assert_fail | Null_deref | Bad_access | Out_of_fuel

type_synonym 'a res = "fault + 'a"

definition pony_assert :: "bool \<Rightarrow> 'a res \<Rightarrow> 'a res" where
  "pony_assert b k = (if b then k else Inl Assert_fail)"

definition res_bind :: "'a res \<Rightarrow> ('a \<Rightarrow> 'b res) \<Rightarrow> 'b res" where
  "res_bind m f = (case m of Inl e \<Rightarrow> Inl e | Inr a \<Rightarrow> f a)"

definition arr_get :: "'a list \<Rightarrow> nat \<Rightarrow> 'a res" where
  "arr_get xs i = (if i < length xs then Inr (xs ! i) else Inl Bad_access)"

lemma arr_get_in [simp]: "i < length xs \<Longrightarrow> arr_get xs i = Inr (xs ! i)"
  by (simp add: arr_get_def)

lemma pony_assert_simps [simp]:
  "pony_assert True k = k" "pony_assert False k = Inl Assert_fail"
  by (simp_all add: pony_assert_def)

lemma res_bind_simps [simp]:
  "res_bind (Inr a) f = f a" "res_bind (Inl e) f = Inl e"
  by (simp_all add: res_bind_def)

section \<open>64-bit words as naturals\<close>

lemma unat_u64_bound: "unat (w :: uint64_t) < 2 ^ 64"
  using unsigned_less [of w] by simp

lemma unat_u64_less: "unat (w :: uint64_t) < 18446744073709551616"
  using unat_u64_bound [of w] by simp

lemma unat_push_bit_u64: "unat (push_bit n (w :: uint64_t)) = unat w * 2 ^ n mod 2 ^ 64"
  by (subst unsigned_push_bit_eq) (simp add: take_bit_eq_mod push_bit_eq_mult)

lemma unat_drop_bit_u64: "unat (drop_bit n (w :: uint64_t)) = unat w div 2 ^ n"
  by (subst unsigned_drop_bit_eq)
    (simp add: drop_bit_eq_div take_bit_nat_eq_self [OF unat_u64_bound])

lemma unat_exp_u64: "n < 64 \<Longrightarrow> unat (2 ^ n :: uint64_t) = 2 ^ n"
  using unat_push_bit_u64 [of n 1] power_strict_increasing [of n 64 "2 :: nat"] by simp

lemma unat_of_nat_u64: "n < 2 ^ 64 \<Longrightarrow> unat (of_nat n :: uint64_t) = n"
  by (simp add: unat_of_nat)

section \<open>Collections of facts\<close>

named_theorems cap_tables \<open>the capability tables, unfolded for evaluation\<close>
named_theorems lexint_abs \<open>what each lexint operation does to the 128-bit value\<close>

end
