(* ===== verification/Tokens.thy ===== *)
theory Tokens
  imports Prelude
begin

text \<open>
  The token identifiers (\<^verbatim>\<open>token_id\<close> of \<^verbatim>\<open>src/libponyc/ast/token.h\<close>) that the type
  component switches on, and abstract syntax trees as the type component reads
  them.  All other token identifiers of the enumeration reach only the
  \<^verbatim>\<open>default\<close> branches of that code; they are the values \<open>TK_OTHER n\<close>.
\<close>

datatype token_id =
    TK_NONE
  | TK_EPHEMERAL
  | TK_ALIASED
  | TK_ISO
  | TK_TRN
  | TK_REF
  | TK_VAL
  | TK_BOX
  | TK_TAG
  | TK_NHB
  | TK_CAP_READ
  | TK_CAP_SEND
  | TK_CAP_SHARE
  | TK_CAP_ALIAS
  | TK_CAP_ANY
  | TK_UNIONTYPE
  | TK_ISECTTYPE
  | TK_TUPLETYPE
  | TK_NOMINAL
  | TK_TYPEPARAMREF
  | TK_TYPEALIASREF
  | TK_ARROW
  | TK_THIS
  | TK_THISTYPE
  | TK_LAMBDATYPE
  | TK_BARELAMBDATYPE
  | TK_FUNTYPE
  | TK_INFERTYPE
  | TK_ERRORTYPE
  | TK_DONTCARETYPE
  | TK_PRIMITIVE
  | TK_FUN
  | TK_OTHER nat

text \<open>
  An abstract syntax tree is a token and its children in order.  The accessors
  return \<open>None\<close> where the C ones return \<^verbatim>\<open>NULL\<close>.
\<close>

datatype ast = AST (ast_id: token_id) (ast_children: "ast list")

fun ast_childidx :: "ast \<Rightarrow> nat \<Rightarrow> ast option" where
  "ast_childidx (AST _ cs) idx = (if idx < length cs then Some (cs ! idx) else None)"

definition ast_setchildid :: "ast \<Rightarrow> nat \<Rightarrow> token_id \<Rightarrow> ast" where
  "ast_setchildid t idx tk =
     (case ast_childidx t idx of
        None \<Rightarrow> t
      | Some c \<Rightarrow> AST (ast_id t) ((ast_children t)[idx := AST tk (ast_children c)]))"

end
