(* ===== verification/Cap.thy ===== *)
theory Cap
  imports Tokens
begin

text \<open>
  The reference capability component of the type checker,
  \<^verbatim>\<open>src/libponyc/type/cap.c\<close>: aliasing, the three sub-capability relations, local
  compatibility, viewpoint adaptation and the recovery checks, each a table on
  \<open>token_id\<close>, and the operations that read or rewrite the capabilities of a type's
  syntax tree.  A switch of the source is a chain of tests in the source's order.
  The compiler is built with assertions on, so a failed assertion is
  \<open>Inl Assert_fail\<close>.
\<close>

section \<open>Aliasing\<close>

definition cap_aliasing :: "token_id \<Rightarrow> token_id \<Rightarrow> token_id \<times> token_id" where
  "cap_aliasing cap eph =
     (if eph = TK_EPHEMERAL then
        (if cap \<in> {TK_ISO, TK_TRN, TK_CAP_SEND, TK_CAP_ANY} then (cap, eph)
         else (cap, TK_NONE))
      else if eph = TK_ALIASED then
        (if cap = TK_ISO then TK_TAG
         else if cap = TK_TRN then TK_BOX
         else if cap = TK_CAP_SEND then TK_CAP_SHARE
         else if cap = TK_CAP_ANY then TK_CAP_ALIAS
         else cap, TK_NONE)
      else (cap, eph))"

section \<open>Sub-capability relations\<close>

definition is_cap_sub_cap ::
  "token_id \<Rightarrow> token_id \<Rightarrow> token_id \<Rightarrow> token_id \<Rightarrow> bool res" where
  "is_cap_sub_cap sub0 subalias0 super0 supalias0 =
     (let (sub, subalias) = cap_aliasing sub0 subalias0;
          (super, supalias) = cap_aliasing super0 supalias0
      in if supalias = TK_EPHEMERAL \<and> subalias \<noteq> TK_EPHEMERAL then Inr False
      else if super = TK_TAG then Inr True
      else if subalias = TK_EPHEMERAL \<and> sub = TK_ISO then Inr (super \<noteq> TK_NHB)
      else if subalias = TK_EPHEMERAL \<and> sub = TK_TRN \<and>
        super \<in> {TK_TRN, TK_REF, TK_VAL, TK_BOX, TK_CAP_READ, TK_CAP_SHARE, TK_CAP_ALIAS}
        then Inr True
      else if subalias = TK_EPHEMERAL \<and> sub = TK_TRN \<and>
        super \<in> {TK_ISO, TK_NHB, TK_CAP_SEND, TK_CAP_ANY} then Inr False
      else if subalias = TK_EPHEMERAL \<and> sub = TK_TRN then Inl Assert_fail
      else if sub = TK_ISO then Inr (super = TK_ISO)
      else if sub = TK_TRN then Inr (super \<in> {TK_TRN, TK_BOX})
      else if sub = TK_REF then Inr (super \<in> {TK_REF, TK_BOX})
      else if sub = TK_NHB then
        Inr (super \<in> {TK_NHB, TK_BOX, TK_VAL, TK_REF, TK_CAP_READ, TK_CAP_SHARE, TK_CAP_ALIAS})
      else if sub = TK_VAL then Inr (super \<in> {TK_VAL, TK_BOX, TK_CAP_SHARE})
      else if sub \<in> {TK_BOX, TK_CAP_READ} then Inr (super = TK_BOX)
      else Inr False)"

definition is_cap_sub_cap_constraint ::
  "token_id \<Rightarrow> token_id \<Rightarrow> token_id \<Rightarrow> token_id \<Rightarrow> bool" where
  "is_cap_sub_cap_constraint sub0 subalias0 super0 supalias0 =
     (let (sub, subalias) = cap_aliasing sub0 subalias0;
          (super, supalias) = cap_aliasing super0 supalias0
      in if supalias = TK_EPHEMERAL \<and> subalias \<noteq> TK_EPHEMERAL then False
      else if sub = super \<or> super = TK_CAP_ANY then True
      else if super = TK_CAP_READ then sub \<in> {TK_REF, TK_VAL, TK_BOX, TK_NHB}
      else if super = TK_CAP_SHARE then sub \<in> {TK_VAL, TK_TAG, TK_NHB}
      else if super = TK_CAP_SEND then
        sub \<in> {TK_ISO, TK_VAL, TK_TAG, TK_NHB, TK_CAP_SHARE}
      else if super = TK_CAP_ALIAS then
        sub \<in> {TK_REF, TK_VAL, TK_BOX, TK_TAG, TK_NHB, TK_CAP_READ, TK_CAP_SHARE}
      else False)"

definition is_cap_sub_cap_bound ::
  "token_id \<Rightarrow> token_id \<Rightarrow> token_id \<Rightarrow> token_id \<Rightarrow> bool res" where
  "is_cap_sub_cap_bound sub0 subalias0 super0 supalias0 =
     (let (sub, subalias) = cap_aliasing sub0 subalias0;
          (super, supalias) = cap_aliasing super0 supalias0
      in if supalias = TK_EPHEMERAL \<and> subalias \<noteq> TK_EPHEMERAL then Inr False
      else if sub = super \<or> super = TK_TAG then Inr True
      else if subalias = TK_EPHEMERAL \<and> sub = TK_ISO then Inr (super \<noteq> TK_NHB)
      else if subalias = TK_EPHEMERAL \<and> sub = TK_TRN \<and>
        super \<in> {TK_TRN, TK_REF, TK_VAL, TK_BOX, TK_CAP_READ, TK_CAP_SHARE, TK_CAP_ALIAS}
        then Inr True
      else if subalias = TK_EPHEMERAL \<and> sub = TK_TRN \<and>
        super \<in> {TK_ISO, TK_NHB, TK_CAP_SEND, TK_CAP_ANY} then Inr False
      else if subalias = TK_EPHEMERAL \<and> sub = TK_TRN then Inl Assert_fail
      else if sub = TK_ISO then Inr (super = TK_ISO)
      else if sub = TK_TRN then Inr (super \<in> {TK_TRN, TK_BOX})
      else if sub = TK_REF then Inr (super = TK_BOX)
      else if sub = TK_NHB then
        Inr (super \<in> {TK_BOX, TK_REF, TK_VAL, TK_CAP_READ, TK_CAP_SHARE, TK_CAP_ALIAS})
      else if sub = TK_VAL then Inr (super \<in> {TK_BOX, TK_CAP_SHARE})
      else if sub = TK_CAP_READ then Inr (super \<in> {TK_BOX, TK_CAP_SHARE, TK_CAP_ALIAS})
      else if sub = TK_CAP_SEND then
        Inr (super \<in> {TK_CAP_READ, TK_CAP_SHARE, TK_CAP_ALIAS, TK_CAP_ANY})
      else if sub = TK_CAP_ALIAS then Inr (super \<in> {TK_CAP_READ, TK_CAP_SHARE})
      else if sub = TK_CAP_ANY then
        Inr (super \<in> {TK_CAP_READ, TK_CAP_SHARE, TK_CAP_SEND, TK_CAP_ALIAS})
      else Inr False)"

section \<open>Local compatibility\<close>

definition is_cap_compat_cap ::
  "token_id \<Rightarrow> token_id \<Rightarrow> token_id \<Rightarrow> token_id \<Rightarrow> bool" where
  "is_cap_compat_cap left_cap0 left_eph0 right_cap0 right_eph0 =
     (let (left_cap, left_eph) = cap_aliasing left_cap0 left_eph0;
          (right_cap, right_eph) = cap_aliasing right_cap0 right_eph0
      in if left_cap = TK_TAG \<or> right_cap = TK_TAG then True
      else if left_cap = TK_CAP_ANY then
        (if right_cap = TK_CAP_ANY then left_eph = TK_NONE \<and> right_eph = TK_NONE
         else right_cap = TK_CAP_ALIAS)
      else if left_cap = TK_ISO then
        right_cap = TK_ISO \<and> left_eph = TK_NONE \<and> right_eph = TK_NONE
      else if left_cap = TK_TRN then
        (if right_cap = TK_TRN then left_eph = TK_NONE \<and> right_eph = TK_NONE
         else right_cap = TK_BOX)
      else if left_cap = TK_REF then right_cap \<in> {TK_REF, TK_BOX}
      else if left_cap = TK_VAL then right_cap \<in> {TK_VAL, TK_BOX, TK_CAP_SHARE}
      else if left_cap = TK_BOX then
        right_cap \<in> {TK_TRN, TK_REF, TK_VAL, TK_BOX, TK_CAP_READ, TK_CAP_SHARE, TK_CAP_ALIAS}
      else if left_cap = TK_NHB then right_cap \<in> {TK_NHB, TK_CAP_SHARE}
      else if left_cap = TK_CAP_READ then right_cap \<in> {TK_CAP_READ, TK_BOX}
      else if left_cap = TK_CAP_ALIAS then right_cap \<in> {TK_CAP_ANY, TK_CAP_ALIAS, TK_BOX}
      else if left_cap = TK_CAP_SEND then False
      else if left_cap = TK_CAP_SHARE then
        right_cap \<in> {TK_VAL, TK_BOX, TK_NHB, TK_CAP_SHARE}
      else False)"

section \<open>Viewpoint adaptation\<close>

text \<open>
  The right capability and its modifier are updated in place: the result is the
  returned truth value with the two tokens as they are left behind.
\<close>

definition cap_view_upper ::
  "token_id \<Rightarrow> token_id \<Rightarrow> token_id \<Rightarrow> token_id \<Rightarrow> (bool \<times> token_id \<times> token_id) res" where
  "cap_view_upper left_cap0 left_eph0 right_cap0 right_eph0 =
     (let (left_cap, left_eph) = cap_aliasing left_cap0 left_eph0;
          (right_cap, right_eph) = cap_aliasing right_cap0 right_eph0
      in if left_cap \<in> {TK_TAG, TK_CAP_SEND, TK_CAP_SHARE, TK_CAP_ALIAS, TK_CAP_ANY}
        then Inr (False, right_cap, right_eph)
      else if right_cap = TK_TAG then Inr (True, right_cap, right_eph)
      else if left_cap = TK_ISO then
        (if right_cap \<in> {TK_ISO, TK_CAP_SEND} then
           Inr (True, right_cap, if left_eph = TK_EPHEMERAL then TK_EPHEMERAL else right_eph)
         else if right_cap \<in> {TK_VAL, TK_CAP_SHARE} then Inr (True, right_cap, right_eph)
         else Inr (True, TK_TAG, TK_NONE))
      else if left_cap = TK_TRN then
        (if right_cap \<in> {TK_ISO, TK_CAP_SEND} then
           Inr (True, right_cap, if left_eph = TK_EPHEMERAL then TK_EPHEMERAL else right_eph)
         else if right_cap \<in> {TK_VAL, TK_CAP_SHARE} then Inr (True, right_cap, right_eph)
         else if right_cap \<in> {TK_CAP_ALIAS, TK_CAP_ANY} then Inr (True, TK_TAG, TK_NONE)
         else Inr (True, TK_BOX, TK_NONE))
      else if left_cap \<in> {TK_REF, TK_NHB} then Inr (True, right_cap, right_eph)
      else if left_cap = TK_VAL then
        (if right_cap \<in> {TK_CAP_SEND, TK_CAP_SHARE, TK_CAP_ALIAS, TK_CAP_ANY}
         then Inr (True, TK_CAP_SHARE, TK_NONE)
         else Inr (True, TK_VAL, TK_NONE))
      else if left_cap \<in> {TK_BOX, TK_CAP_READ} then
        (if right_cap = TK_ISO then Inr (True, TK_TAG, TK_NONE)
         else if right_cap \<in> {TK_VAL, TK_CAP_SHARE} then Inr (True, right_cap, TK_NONE)
         else if right_cap \<in> {TK_CAP_SEND, TK_CAP_ALIAS, TK_CAP_ANY}
         then Inr (True, TK_TAG, TK_NONE)
         else Inr (True, TK_BOX, TK_NONE))
      else Inl Assert_fail)"

definition cap_view_lower ::
  "token_id \<Rightarrow> token_id \<Rightarrow> token_id \<Rightarrow> token_id \<Rightarrow> (bool \<times> token_id \<times> token_id) res" where
  "cap_view_lower left_cap0 left_eph0 right_cap0 right_eph0 =
     (let (left_cap, left_eph) = cap_aliasing left_cap0 left_eph0;
          (right_cap, right_eph) = cap_aliasing right_cap0 right_eph0;
          through = (if left_eph = TK_EPHEMERAL then TK_EPHEMERAL else right_eph)
      in if left_cap \<in> {TK_TAG, TK_CAP_SEND, TK_CAP_SHARE, TK_CAP_ALIAS, TK_CAP_ANY}
        then Inr (False, right_cap, right_eph)
      else if right_cap = TK_TAG then Inr (True, right_cap, right_eph)
      else if left_cap = TK_ISO then
        (if right_cap \<in> {TK_ISO, TK_CAP_SEND} then Inr (True, right_cap, through)
         else if right_cap \<in> {TK_VAL, TK_CAP_SHARE} then Inr (True, right_cap, right_eph)
         else if right_cap \<in> {TK_CAP_READ, TK_CAP_ALIAS, TK_CAP_ANY}
         then Inr (True, TK_CAP_SEND, through)
         else Inr (True, TK_TAG, TK_NONE))
      else if left_cap = TK_TRN then
        (if right_cap \<in> {TK_ISO, TK_CAP_SEND} then Inr (True, right_cap, through)
         else if right_cap \<in> {TK_VAL, TK_CAP_SHARE} then Inr (True, right_cap, right_eph)
         else if right_cap \<in> {TK_CAP_READ, TK_CAP_ALIAS} then Inr (True, TK_VAL, TK_NONE)
         else if right_cap = TK_CAP_ANY then Inr (True, TK_ISO, through)
         else Inr (True, TK_BOX, TK_NONE))
      else if left_cap \<in> {TK_REF, TK_NHB} then Inr (True, right_cap, right_eph)
      else if left_cap = TK_VAL then
        (if right_cap \<in> {TK_CAP_SEND, TK_CAP_SHARE, TK_CAP_ALIAS, TK_CAP_ANY}
         then Inr (True, TK_CAP_SHARE, TK_NONE)
         else Inr (True, TK_VAL, TK_NONE))
      else if left_cap = TK_BOX then
        (if right_cap = TK_ISO then Inr (True, TK_TAG, TK_NONE)
         else if right_cap \<in> {TK_VAL, TK_CAP_SHARE} then Inr (True, right_cap, TK_NONE)
         else if right_cap = TK_CAP_SEND then Inr (True, TK_CAP_SHARE, TK_NONE)
         else if right_cap \<in> {TK_CAP_READ, TK_CAP_ALIAS, TK_CAP_ANY}
         then Inr (True, TK_VAL, TK_NONE)
         else Inr (True, TK_BOX, TK_NONE))
      else if left_cap = TK_CAP_READ then
        (if right_cap = TK_ISO then Inr (True, TK_CAP_SEND, right_eph)
         else if right_cap = TK_REF then Inr (True, TK_CAP_READ, right_eph)
         else if right_cap = TK_BOX then Inr (True, TK_VAL, right_eph)
         else Inr (True, right_cap, right_eph))
      else Inl Assert_fail)"

section \<open>Recovery, sendability and isolation\<close>

datatype direction = WRITE | EXTRACT

definition cap_safetomove :: "token_id \<Rightarrow> token_id \<Rightarrow> direction \<Rightarrow> bool" where
  "cap_safetomove into cap direction =
     (if into = TK_ISO then
        cap \<in> {TK_ISO, TK_VAL, TK_TAG, TK_CAP_SEND, TK_CAP_SHARE}
      else if into \<in> {TK_TRN, TK_VAL} then
        (if cap \<in> {TK_ISO, TK_VAL, TK_TAG, TK_CAP_SEND, TK_CAP_SHARE} then True
         else if cap = TK_TRN then direction = WRITE
         else if cap = TK_BOX then direction = EXTRACT
         else False)
      else into \<in> {TK_REF, TK_NHB})"

definition cap_sendable :: "token_id \<Rightarrow> bool" where
  "cap_sendable cap \<longleftrightarrow>
     cap \<in> {TK_ISO, TK_VAL, TK_TAG, TK_NHB, TK_CAP_SEND, TK_CAP_SHARE}"

definition cap_mutable :: "token_id \<Rightarrow> bool res" where
  "cap_mutable cap =
     (if cap \<in> {TK_VAL, TK_BOX, TK_TAG, TK_CAP_SEND, TK_CAP_SHARE, TK_CAP_READ,
                TK_CAP_ALIAS, TK_CAP_ANY} then Inr False
      else if cap \<in> {TK_ISO, TK_TRN, TK_REF, TK_NHB} then Inr True
      else Inl Assert_fail)"

text \<open>
  A capability mutation maps the two tokens and says whether it changed them.
\<close>

type_synonym cap_mutation = "token_id \<Rightarrow> token_id \<Rightarrow> bool \<times> token_id \<times> token_id"

definition unisolated_mod :: cap_mutation where
  "unisolated_mod cap eph =
     (if eph = TK_EPHEMERAL then (False, cap, eph)
      else if cap \<in> {TK_ISO, TK_TRN, TK_NHB} then (True, TK_REF, eph)
      else (False, cap, eph))"

definition unisolated_cap :: "token_id \<Rightarrow> token_id \<Rightarrow> token_id" where
  "unisolated_cap cap eph = fst (snd (unisolated_mod cap eph))"

section \<open>Capabilities of a type's syntax tree\<close>

text \<open>
  The capability is the child of a nominal type, type parameter reference or alias
  reference at a fixed position, and its modifier is the next sibling.
\<close>

definition cap_fetch :: "ast \<Rightarrow> nat res" where
  "cap_fetch type =
     (if ast_id type = TK_NOMINAL then Inr 3
      else if ast_id type = TK_TYPEPARAMREF then Inr 1
      else if ast_id type = TK_TYPEALIASREF then Inr 2
      else Inl Assert_fail)"

definition cap_and_eph :: "ast \<Rightarrow> (nat \<times> token_id \<times> token_id) res" where
  "cap_and_eph type =
     res_bind (cap_fetch type) (\<lambda>i.
       case (ast_childidx type i, ast_childidx type (i + 1)) of
         (Some cap, Some eph) \<Rightarrow> Inr (i, ast_id cap, ast_id eph)
       | _ \<Rightarrow> Inl Null_deref)"

definition cap_single :: "ast \<Rightarrow> token_id res" where
  "cap_single type =
     res_bind (cap_and_eph type) (\<lambda>(_, tcap, teph). Inr (fst (cap_aliasing tcap teph)))"

text \<open>
  \<open>cap_dispatch\<close> and \<open>modified_cap\<close> follow alias references through
  \<^verbatim>\<open>typealias_unfold\<close>, the parameter \<open>unfold\<close> (\<open>None\<close> for \<^verbatim>\<open>NULL\<close>).  Each call
  down the tree spends one unit of \<open>fuel\<close>, so that an alias cycle is \<open>None\<close>.
\<close>

definition dispatch_union_step :: "token_id \<Rightarrow> token_id \<Rightarrow> token_id res" where
  "dispatch_union_step cap child_cap =
     res_bind (is_cap_sub_cap cap TK_NONE child_cap TK_NONE) (\<lambda>b.
       if b then Inr child_cap
       else res_bind (is_cap_sub_cap child_cap TK_NONE cap TK_NONE) (\<lambda>b'.
         if b' then Inr cap else Inr TK_BOX))"

definition dispatch_isect_step :: "token_id \<Rightarrow> token_id \<Rightarrow> token_id res" where
  "dispatch_isect_step cap child_cap =
     res_bind (is_cap_sub_cap child_cap TK_NONE cap TK_NONE) (\<lambda>b.
       Inr (if b then child_cap else cap))"

fun cap_dispatch :: "(ast \<Rightarrow> ast option) \<Rightarrow> nat \<Rightarrow> ast \<Rightarrow> token_id res option"
and cap_dispatch_children ::
  "(ast \<Rightarrow> ast option) \<Rightarrow> nat \<Rightarrow> (token_id \<Rightarrow> token_id \<Rightarrow> token_id res) \<Rightarrow> token_id \<Rightarrow>
   ast list \<Rightarrow> token_id res option" where
  "cap_dispatch unfold 0 type = None"
| "cap_dispatch unfold (Suc fuel) type =
     (if ast_id type \<in> {TK_UNIONTYPE, TK_ISECTTYPE} then
        (case ast_children type of
           [] \<Rightarrow> Some (Inl Null_deref)
         | child # rest \<Rightarrow>
             (case cap_dispatch unfold fuel child of
                None \<Rightarrow> None
              | Some (Inl e) \<Rightarrow> Some (Inl e)
              | Some (Inr cap) \<Rightarrow>
                  cap_dispatch_children unfold fuel
                    (if ast_id type = TK_UNIONTYPE then dispatch_union_step
                     else dispatch_isect_step) cap rest))
      else if ast_id type = TK_NOMINAL then Some (cap_single type)
      else if ast_id type = TK_TYPEALIASREF then
        (case unfold type of
           None \<Rightarrow> Some (Inr TK_NONE)
         | Some unfolded \<Rightarrow> cap_dispatch unfold fuel unfolded)
      else Some (Inl Assert_fail))"
| "cap_dispatch_children unfold fuel step cap [] = Some (Inr cap)"
| "cap_dispatch_children unfold fuel step cap (child # rest) =
     (case cap_dispatch unfold fuel child of
        None \<Rightarrow> None
      | Some (Inl e) \<Rightarrow> Some (Inl e)
      | Some (Inr child_cap) \<Rightarrow>
          (case step cap child_cap of
             Inl e \<Rightarrow> Some (Inl e)
           | Inr cap' \<Rightarrow> cap_dispatch_children unfold fuel step cap' rest))"

definition modified_cap_single :: "ast \<Rightarrow> cap_mutation \<Rightarrow> ast res" where
  "modified_cap_single type mutation =
     res_bind (cap_and_eph type) (\<lambda>(i, cap_token, eph_token).
       case mutation cap_token eph_token of
         (True, cap', eph') \<Rightarrow>
           Inr (ast_setchildid (ast_setchildid type i cap') (i + 1) eph')
       | (False, _, _) \<Rightarrow> Inr type)"

text \<open>
  The result of \<open>modified_cap\<close> is a tree, \<open>None\<close> for \<^verbatim>\<open>NULL\<close>; appending \<^verbatim>\<open>NULL\<close> to a
  tree fails an assertion of \<^verbatim>\<open>ast_append\<close>.
\<close>

fun modified_cap ::
  "(ast \<Rightarrow> ast option) \<Rightarrow> nat \<Rightarrow> ast \<Rightarrow> cap_mutation \<Rightarrow> ast option res option"
and modified_cap_children ::
  "(ast \<Rightarrow> ast option) \<Rightarrow> nat \<Rightarrow> ast list \<Rightarrow> cap_mutation \<Rightarrow> ast list res option" where
  "modified_cap unfold 0 type mutation = None"
| "modified_cap unfold (Suc fuel) type mutation =
     (let id = ast_id type in
      if id \<in> {TK_UNIONTYPE, TK_ISECTTYPE, TK_TUPLETYPE} then
        (case modified_cap_children unfold fuel (ast_children type) mutation of
           None \<Rightarrow> None
         | Some (Inl e) \<Rightarrow> Some (Inl e)
         | Some (Inr cs) \<Rightarrow> Some (Inr (Some (AST id cs))))
      else if id \<in> {TK_NOMINAL, TK_TYPEPARAMREF} then
        Some (res_bind (modified_cap_single type mutation) (\<lambda>t. Inr (Some t)))
      else if id = TK_TYPEALIASREF then
        (case unfold type of
           None \<Rightarrow> Some (Inr None)
         | Some unfolded \<Rightarrow> modified_cap unfold fuel unfolded mutation)
      else if id = TK_ARROW then
        (case ast_children type of
           left # right # _ \<Rightarrow>
             (case modified_cap_children unfold fuel [left, right] mutation of
                None \<Rightarrow> None
              | Some (Inl e) \<Rightarrow> Some (Inl e)
              | Some (Inr cs) \<Rightarrow> Some (Inr (Some (AST TK_ARROW cs))))
         | _ \<Rightarrow> Some (Inl Null_deref))
      else if id \<in> {TK_ISO, TK_TRN, TK_VAL, TK_REF, TK_BOX, TK_TAG} then
        (case mutation id TK_NONE of
           (True, cap, eph) \<Rightarrow>
             Some (pony_assert (eph = TK_NONE) (Inr (Some (AST cap (ast_children type)))))
         | (False, _, _) \<Rightarrow> Some (Inr (Some type)))
      else if id \<in> {TK_THIS, TK_THISTYPE, TK_LAMBDATYPE, TK_BARELAMBDATYPE, TK_FUNTYPE,
                    TK_INFERTYPE, TK_ERRORTYPE, TK_DONTCARETYPE} then Some (Inr (Some type))
      else Some (Inl Assert_fail))"
| "modified_cap_children unfold fuel [] mutation = Some (Inr [])"
| "modified_cap_children unfold fuel (child # rest) mutation =
     (case modified_cap unfold fuel child mutation of
        None \<Rightarrow> None
      | Some (Inl e) \<Rightarrow> Some (Inl e)
      | Some (Inr None) \<Rightarrow> Some (Inl Assert_fail)
      | Some (Inr (Some t)) \<Rightarrow>
          (case modified_cap_children unfold fuel rest mutation of
             None \<Rightarrow> None
           | Some (Inl e) \<Rightarrow> Some (Inl e)
           | Some (Inr ts) \<Rightarrow> Some (Inr (t # ts))))"

definition unisolated :: "(ast \<Rightarrow> ast option) \<Rightarrow> nat \<Rightarrow> ast \<Rightarrow> ast option res option" where
  "unisolated unfold fuel type = modified_cap unfold fuel type unisolated_mod"

text \<open>The receiver capability, from the type checker's frame.\<close>

record typecheck_frame =
  frame_type :: ast
  frame_method :: "ast option"

definition cap_for_this :: "typecheck_frame \<Rightarrow> token_id res" where
  "cap_for_this frame =
     (if ast_id (frame_type frame) = TK_PRIMITIVE then Inr TK_VAL
      else case frame_method frame of
        None \<Rightarrow> Inr TK_REF
      | Some method \<Rightarrow>
          if ast_id method = TK_FUN then
            (case ast_childidx method 0 of
               None \<Rightarrow> Inl Null_deref
             | Some cap \<Rightarrow> Inr (ast_id cap))
          else Inr TK_REF)"

section \<open>The capability lattice\<close>

text \<open>
  What the tables are meant to compute.  A generic capability stands for a set of
  concrete ones; a concrete capability is one of the seven, where \<^verbatim>\<open>iso\<close> and
  \<^verbatim>\<open>trn\<close> may be ephemeral.  The subtyping of concrete capabilities is the
  reflexive transitive closure of the twelve edges of the lattice.
\<close>

datatype kcap = Iso_eph | Iso | Trn_eph | Trn | Ref | Val | Box | Tag | Nhb

inductive cap_edge :: "kcap \<Rightarrow> kcap \<Rightarrow> bool" where
  "cap_edge Iso_eph Iso"
| "cap_edge Iso_eph Trn_eph"
| "cap_edge Trn_eph Trn"
| "cap_edge Trn_eph Ref"
| "cap_edge Trn_eph Val"
| "cap_edge Nhb Ref"
| "cap_edge Nhb Val"
| "cap_edge Trn Box"
| "cap_edge Ref Box"
| "cap_edge Val Box"
| "cap_edge Box Tag"
| "cap_edge Iso Tag"

definition cap_below :: "kcap \<Rightarrow> kcap \<Rightarrow> bool" where
  "cap_below = cap_edge\<^sup>*\<^sup>*"

text \<open>The concrete capabilities above a given one, for evaluation.\<close>

fun above :: "kcap \<Rightarrow> kcap list" where
  "above Iso_eph = [Iso_eph, Iso, Trn_eph, Trn, Ref, Val, Box, Tag]"
| "above Iso = [Iso, Tag]"
| "above Trn_eph = [Trn_eph, Trn, Ref, Val, Box, Tag]"
| "above Trn = [Trn, Box, Tag]"
| "above Ref = [Ref, Box, Tag]"
| "above Val = [Val, Box, Tag]"
| "above Box = [Box, Tag]"
| "above Tag = [Tag]"
| "above Nhb = [Nhb, Ref, Val, Box, Tag]"

text \<open>
  \<open>concrete\<close> reads a pair of tokens as a concrete capability (no element when it is not
  one) and \<open>instances\<close> lists the concrete capabilities that a pair stands for, with
  the sets the comments of \<^verbatim>\<open>cap.c\<close> give.
\<close>

definition concrete :: "token_id \<Rightarrow> token_id \<Rightarrow> kcap list" where
  "concrete cap eph =
     (if cap = TK_ISO then (if eph = TK_EPHEMERAL then [Iso_eph] else [Iso])
      else if cap = TK_TRN then (if eph = TK_EPHEMERAL then [Trn_eph] else [Trn])
      else if cap = TK_REF then [Ref] else if cap = TK_VAL then [Val]
      else if cap = TK_BOX then [Box] else if cap = TK_TAG then [Tag]
      else if cap = TK_NHB then [Nhb] else [])"

definition instances :: "token_id \<Rightarrow> token_id \<Rightarrow> kcap list" where
  "instances cap eph =
     (let (c, e) = cap_aliasing cap eph in
      if c = TK_CAP_READ then [Ref, Val, Box]
      else if c = TK_CAP_SHARE then [Val, Tag]
      else if c = TK_CAP_SEND then concrete TK_ISO e @ [Val, Tag]
      else if c = TK_CAP_ALIAS then [Ref, Val, Box, Tag]
      else if c = TK_CAP_ANY then concrete TK_ISO e @ concrete TK_TRN e @ [Ref, Val, Box, Tag]
      else concrete c e)"

definition single_caps :: "token_id list" where
  "single_caps = [TK_ISO, TK_TRN, TK_REF, TK_VAL, TK_BOX, TK_TAG, TK_NHB]"

definition generic_caps :: "token_id list" where
  "generic_caps = [TK_CAP_READ, TK_CAP_SEND, TK_CAP_SHARE, TK_CAP_ALIAS, TK_CAP_ANY]"

definition rcaps :: "token_id list" where
  "rcaps = single_caps @ generic_caps"

definition modifiers :: "token_id list" where
  "modifiers = [TK_NONE, TK_EPHEMERAL, TK_ALIASED]"

lemma above_step: "cap_edge b c \<Longrightarrow> b \<in> set (above a) \<Longrightarrow> c \<in> set (above a)"
  by (cases a) (auto elim: cap_edge.cases)

lemma cap_below_refl [simp]: "cap_below a a"
  by (simp add: cap_below_def)

lemma cap_below_trans: "cap_below a b \<Longrightarrow> cap_below b c \<Longrightarrow> cap_below a c"
  by (simp add: cap_below_def)

lemma cap_below_edge: "cap_edge a b \<Longrightarrow> cap_below b c \<Longrightarrow> cap_below a c"
  by (simp add: cap_below_def converse_rtranclp_into_rtranclp)

lemma above_below: "b \<in> set (above a) \<Longrightarrow> cap_below a b"
proof -
  note e = cap_edge.intros [THEN cap_below_edge, OF cap_below_refl]
  have mid: "cap_below Trn Tag" "cap_below Ref Tag" "cap_below Val Tag"
    by (rule cap_below_trans [OF e(8) e(11)] cap_below_trans [OF e(9) e(11)]
        cap_below_trans [OF e(10) e(11)])+
  have low: "cap_below Nhb Box" "cap_below Nhb Tag" "cap_below Trn_eph Box" "cap_below Trn_eph Tag"
    by (rule cap_below_trans [OF e(6) e(9)] cap_below_trans [OF e(6) mid(2)]
        cap_below_trans [OF e(4) e(9)] cap_below_trans [OF e(4) mid(2)])+
  have top: "cap_below Iso_eph b" if "cap_below Trn_eph b" for b
    using e(2) that by (rule cap_below_trans)
  show "b \<in> set (above a) \<Longrightarrow> cap_below a b"
    by (cases a) (auto simp: e mid low top)
qed

lemma cap_below_iff: "cap_below a b \<longleftrightarrow> b \<in> set (above a)"
proof
  have "cap_edge\<^sup>*\<^sup>* a b \<Longrightarrow> b \<in> set (above a)"
  proof (induction rule: rtranclp_induct)
    case base
    show ?case by (cases a) simp_all
  next
    case (step y z)
    then show ?case by (blast intro: above_step)
  qed
  then show "cap_below a b \<Longrightarrow> b \<in> set (above a)"
    by (simp add: cap_below_def)
qed (rule above_below)

lemma cap_below_code [code]: "cap_below a b = List.member (above a) b"
  by (simp add: cap_below_iff)

text \<open>
  The shape of the relation on capability pairs: a relation on concrete
  capabilities, lifted to all pairs of instances.  A transitive relation lifts to
  a transitive one because no pair is without instances.
\<close>

locale lifted_order =
  fixes below :: "'a \<Rightarrow> 'a \<Rightarrow> bool"
    and inst :: "'c \<Rightarrow> 'a list"
    and carrier :: "'c set"
  assumes below_trans: "below x y \<Longrightarrow> below y z \<Longrightarrow> below x z"
    and inst_nonempty: "c \<in> carrier \<Longrightarrow> inst c \<noteq> []"
begin

lemma lifted_trans:
  assumes "b \<in> carrier"
    and "\<forall>x\<in>set (inst a). \<forall>y\<in>set (inst b). below x y"
    and "\<forall>y\<in>set (inst b). \<forall>z\<in>set (inst c). below y z"
  shows "\<forall>x\<in>set (inst a). \<forall>z\<in>set (inst c). below x z"
proof -
  from inst_nonempty [OF assms(1)] obtain y where "y \<in> set (inst b)"
    by (cases "inst b") auto
  with assms(2,3) show ?thesis by (blast intro: below_trans)
qed

end

definition cap_pairs :: "(token_id \<times> token_id) set" where
  "cap_pairs = set (List.product rcaps modifiers)"

lemma instances_nonempty: "\<forall>c\<in>set rcaps. \<forall>e\<in>set modifiers. instances c e \<noteq> []"
  by code_simp

interpretation capo: lifted_order cap_below "\<lambda>(c, e). instances c e" cap_pairs
  by unfold_locales
    (auto simp: cap_pairs_def instances_nonempty intro: cap_below_trans)

section \<open>What the tables compute\<close>

lemma sub_cap_table:
  "\<forall>sub\<in>set rcaps. \<forall>a\<in>set modifiers. \<forall>super\<in>set rcaps. \<forall>b\<in>set modifiers.
     is_cap_sub_cap sub a super b =
       Inr (\<forall>x\<in>set (instances sub a). \<forall>y\<in>set (instances super b). cap_below x y)"
  by code_simp

definition members :: "token_id \<Rightarrow> token_id \<Rightarrow> token_id list" where
  "members cap eph =
     (let c = fst (cap_aliasing cap eph) in
      if c = TK_CAP_READ then [TK_REF, TK_VAL, TK_BOX, TK_NHB]
      else if c = TK_CAP_SHARE then [TK_VAL, TK_TAG, TK_NHB]
      else if c = TK_CAP_SEND then [TK_ISO, TK_VAL, TK_TAG, TK_NHB]
      else if c = TK_CAP_ALIAS then [TK_REF, TK_VAL, TK_BOX, TK_TAG, TK_NHB]
      else if c = TK_CAP_ANY then single_caps
      else [c])"

lemma constraint_table:
  "\<forall>sub\<in>set rcaps. \<forall>a\<in>set modifiers. \<forall>super\<in>set rcaps. \<forall>b\<in>set modifiers.
     is_cap_sub_cap_constraint sub a super b =
       ((snd (cap_aliasing super b) = TK_EPHEMERAL \<longrightarrow> snd (cap_aliasing sub a) = TK_EPHEMERAL) \<and>
        (\<forall>m\<in>set (members sub a). m \<in> set (members super b)))"
  by code_simp

definition is_generic :: "token_id \<Rightarrow> token_id \<Rightarrow> bool" where
  "is_generic cap eph = (fst (cap_aliasing cap eph) \<in> set generic_caps)"

lemma bound_table:
  "\<forall>sub\<in>set rcaps. \<forall>a\<in>set modifiers. \<forall>super\<in>set rcaps. \<forall>b\<in>set modifiers.
     is_cap_sub_cap_bound sub a super b =
       (if is_generic sub a \<and> is_generic super b then
          Inr ((snd (cap_aliasing super b) = TK_EPHEMERAL \<longrightarrow>
                snd (cap_aliasing sub a) = TK_EPHEMERAL) \<and>
               (\<forall>y\<in>set (instances super b).
                  \<exists>x\<in>set (instances (fst (cap_aliasing sub a)) TK_EPHEMERAL). cap_below x y))
        else is_cap_sub_cap sub a super b)"
  by code_simp

lemma compat_table:
  "\<forall>a\<in>set rcaps. \<forall>e\<in>set modifiers. \<forall>b\<in>set rcaps. \<forall>f\<in>set modifiers.
     is_cap_compat_cap a e b f = is_cap_compat_cap b f a e"
  by code_simp

lemma compat_up_table:
  "\<forall>a\<in>set single_caps. \<forall>e\<in>set modifiers. \<forall>b\<in>set single_caps. \<forall>f\<in>set modifiers.
     \<forall>c\<in>set rcaps. \<forall>g\<in>set modifiers.
     (a = TK_NHB \<or> \<not> is_cap_compat_cap a e b f \<or> is_cap_sub_cap b f c g \<noteq> Inr True \<or>
     is_cap_compat_cap a e c g)"
  by code_simp

lemma compat_chain_table:
  "\<forall>a\<in>set single_caps. \<forall>b\<in>set single_caps.
     is_cap_compat_cap a TK_NONE b TK_NONE \<longrightarrow>
     is_cap_sub_cap a TK_NONE b TK_NONE = Inr True \<or> is_cap_sub_cap b TK_NONE a TK_NONE = Inr True"
  by code_simp

fun tokens_of :: "kcap \<Rightarrow> token_id \<times> token_id" where
  "tokens_of Iso_eph = (TK_ISO, TK_EPHEMERAL)"
| "tokens_of Iso = (TK_ISO, TK_NONE)"
| "tokens_of Trn_eph = (TK_TRN, TK_EPHEMERAL)"
| "tokens_of Trn = (TK_TRN, TK_NONE)"
| "tokens_of Ref = (TK_REF, TK_NONE)"
| "tokens_of Val = (TK_VAL, TK_NONE)"
| "tokens_of Box = (TK_BOX, TK_NONE)"
| "tokens_of Tag = (TK_TAG, TK_NONE)"
| "tokens_of Nhb = (TK_NHB, TK_NONE)"

text \<open>
  What a field of capability \<open>r\<close> is seen as through an origin \<open>l\<close>, from the lattice and the promises of the origin.  Nothing is seen
  through \<^verbatim>\<open>tag\<close>, and a \<^verbatim>\<open>tag\<close> stays one.  Through \<^verbatim>\<open>ref\<close> a field is what it is, and through \<^verbatim>\<open>val\<close> all that can be read is \<^verbatim>\<open>val\<close>.  A
  \<^verbatim>\<open>box\<close> may be an alias of either, so its view is the least one above both.  What is read through an \<^verbatim>\<open>iso\<close> must not
  break its isolation: the view is the least capability above that of the field that can be sent to another
  actor.  A \<^verbatim>\<open>trn\<close> may become \<^verbatim>\<open>val\<close>: the view is the least one above that of the field that does not write, or is isolated.  A
  field keeps its value when it is read, so it counts as stored; but an isolated field of an ephemeral origin, or
  one that is ephemeral itself, is ephemeral.  As a field \<^verbatim>\<open>nhb\<close> counts as \<^verbatim>\<open>ref\<close>.
\<close>

definition kcaps :: "kcap list" where
  "kcaps = [Iso_eph, Iso, Trn_eph, Trn, Ref, Val, Box, Tag, Nhb]"

definition least_cap :: "(kcap \<Rightarrow> bool) \<Rightarrow> kcap option" where
  "least_cap P = find (\<lambda>k. P k \<and> list_all (\<lambda>k'. P k' \<longrightarrow> cap_below k k') kcaps) kcaps"

fun stored :: "kcap \<Rightarrow> kcap" where
  "stored Iso_eph = Iso"
| "stored Trn_eph = Trn"
| "stored Nhb = Ref"
| "stored k = k"

definition sent_safe :: "kcap \<Rightarrow> bool" where
  "sent_safe k \<longleftrightarrow> k \<in> {Iso, Val, Tag}"

definition write_safe :: "kcap \<Rightarrow> bool" where
  "write_safe k \<longleftrightarrow> k \<in> {Iso, Val, Box, Tag}"

definition isolated :: "kcap \<Rightarrow> kcap \<Rightarrow> kcap \<Rightarrow> kcap" where
  "isolated l r k = (if k = Iso \<and> (l \<in> {Iso_eph, Trn_eph} \<or> r = Iso_eph) then Iso_eph else k)"

definition field_view :: "kcap \<Rightarrow> kcap \<Rightarrow> kcap option" where
  "field_view l r =
     (if l = Tag then None
      else if r = Tag then Some Tag
      else if l \<in> {Iso, Iso_eph} then map_option (isolated l r) (least_cap (\<lambda>k. cap_below (stored r) k \<and> sent_safe k))
      else if l \<in> {Trn, Trn_eph} then map_option (isolated l r) (least_cap (\<lambda>k. cap_below (stored r) k \<and> write_safe k))
      else if l \<in> {Ref, Nhb} then Some r
      else if l = Val then Some Val
      else least_cap (\<lambda>k. cap_below (stored r) k \<and> cap_below Val k))"

definition bounded_by :: "kcap option \<Rightarrow> token_id \<Rightarrow> token_id \<Rightarrow> bool" where
  "bounded_by v c e = (case v of None \<Rightarrow> False | Some k \<Rightarrow> list_ex (cap_below k) (instances c e))"

lemma view_upper_table:
  "\<forall>lc\<in>set rcaps. \<forall>le\<in>set modifiers. \<forall>rc\<in>set rcaps. \<forall>re\<in>set modifiers.
     (case cap_view_upper lc le rc re of
        Inr (True, c, e) \<Rightarrow>
          (\<forall>l\<in>set (instances lc le). \<forall>r\<in>set (instances rc re). bounded_by (field_view l r) c e \<and>
            (length (instances lc le) = 1 \<and> length (instances rc re) = 1 \<longrightarrow> map Some (instances c e) = [field_view l r]))
      | Inr (False, _, _) \<Rightarrow> Tag \<in> set (instances lc le)
      | Inl _ \<Rightarrow> False)"
  by code_simp

lemma view_lower_table:
  "\<forall>lc\<in>set single_caps. \<forall>le\<in>set modifiers. \<forall>rc\<in>set single_caps. \<forall>re\<in>set modifiers.
     cap_view_lower lc le rc re = cap_view_upper lc le rc re"
  by code_simp

lemma view_sendable_table:
  "\<forall>le\<in>set modifiers. \<forall>rc\<in>set rcaps. \<forall>re\<in>set modifiers.
     case cap_view_upper TK_ISO le rc re of Inr (True, c, _) \<Rightarrow> cap_sendable c | _ \<Rightarrow> True"
  by code_simp

lemma view_readonly_table:
  "\<forall>lc\<in>set [TK_VAL, TK_BOX, TK_CAP_READ]. \<forall>le\<in>set modifiers. \<forall>rc\<in>set rcaps. \<forall>re\<in>set modifiers.
     case cap_view_upper lc le rc re of
       Inr (True, c, _) \<Rightarrow> cap_mutable c = Inr False | _ \<Rightarrow> False"
  by code_simp

section \<open>Dispatch and rewriting of type trees\<close>

fun ast_depth :: "ast \<Rightarrow> nat" where
  "ast_depth (AST _ cs) = Suc (fold max (map ast_depth cs) 0)"

text \<open>
  A dispatchable type: unions and intersections with at least one member, over
  nominal types that carry a concrete capability and a modifier.
\<close>

definition has_cap :: "ast \<Rightarrow> nat \<Rightarrow> bool" where
  "has_cap t i =
     (case (ast_childidx t i, ast_childidx t (i + 1)) of
        (Some cap, Some eph) \<Rightarrow> ast_id cap \<in> set single_caps \<and> ast_id eph \<in> set modifiers
      | _ \<Rightarrow> False)"

fun dispatchable :: "ast \<Rightarrow> bool" where
  "dispatchable (AST tk cs) =
     (if tk \<in> {TK_UNIONTYPE, TK_ISECTTYPE} then cs \<noteq> [] \<and> list_all dispatchable cs
      else tk = TK_NOMINAL \<and> has_cap (AST tk cs) 3)"

lemma fold_max_ge: "x \<in> set xs \<Longrightarrow> x \<le> fold max xs (a::nat)"
  and fold_max_ge_init: "a \<le> fold max xs (a::nat)"
proof -
  have *: "a \<le> fold max xs a" for a :: nat and xs
    by (induction xs arbitrary: a) (auto intro: le_trans [OF max.cobounded2])
  show "a \<le> fold max xs (a::nat)" by (rule *)
  show "x \<in> set xs \<Longrightarrow> x \<le> fold max xs (a::nat)"
    by (induction xs arbitrary: a) (auto intro: le_trans [OF max.cobounded1 *])
qed

lemma ast_depth_child: "c \<in> set cs \<Longrightarrow> ast_depth c < ast_depth (AST tk cs)"
  by (simp add: less_Suc_eq_le fold_max_ge)

lemma aliasing_single_table:
  "\<forall>c\<in>set single_caps. \<forall>e\<in>set modifiers. fst (cap_aliasing c e) \<in> set single_caps"
  by code_simp

lemma dispatch_step_table:
  "\<forall>a\<in>set single_caps. \<forall>b\<in>set single_caps.
     (case dispatch_union_step a b of Inr c \<Rightarrow> c \<in> set single_caps | Inl _ \<Rightarrow> False) \<and>
     (case dispatch_isect_step a b of Inr c \<Rightarrow> c \<in> set single_caps | Inl _ \<Rightarrow> False)"
  by code_simp

lemma cap_single_dispatchable:
  assumes "has_cap t 3" and "ast_id t = TK_NOMINAL"
  shows "\<exists>c\<in>set single_caps. cap_single t = Inr c"
  using assms aliasing_single_table
  by (auto simp: has_cap_def cap_single_def cap_and_eph_def cap_fetch_def split: option.splits)

lemma dispatch_children_total:
  assumes "\<forall>t\<in>set ts. \<exists>c\<in>set single_caps. cap_dispatch unfold fuel t = Some (Inr c)"
    and "step = dispatch_union_step \<or> step = dispatch_isect_step"
    and "a \<in> set single_caps"
  shows "\<exists>c\<in>set single_caps. cap_dispatch_children unfold fuel step a ts = Some (Inr c)"
  using assms(1,3)
proof (induction ts arbitrary: a)
  case Nil
  then show ?case by simp
next
  case (Cons t ts)
  then obtain c where c: "c \<in> set single_caps" "cap_dispatch unfold fuel t = Some (Inr c)"
    by auto
  from assms(2) dispatch_step_table Cons.prems(2) c(1)
  obtain d where d: "step a c = Inr d" "d \<in> set single_caps"
    by (fastforce split: sum.splits)
  from Cons.IH [of d] Cons.prems(1) c d show ?case by simp
qed

lemma cap_dispatch_total_aux:
  "dispatchable t \<Longrightarrow> ast_depth t \<le> fuel \<Longrightarrow>
   \<exists>c\<in>set single_caps. cap_dispatch unfold fuel t = Some (Inr c)"
proof (induction fuel arbitrary: t)
  case 0
  then show ?case by (cases t) simp
next
  case (Suc fuel)
  obtain tk cs where t: "t = AST tk cs" by (cases t)
  show ?case
  proof (cases "tk \<in> {TK_UNIONTYPE, TK_ISECTTYPE}")
    case True
    with Suc.prems t obtain u us where cs: "cs = u # us" and ok: "\<forall>v\<in>set cs. dispatchable v"
      by (cases cs) (auto simp: list_all_iff)
    have "\<exists>c\<in>set single_caps. cap_dispatch unfold fuel v = Some (Inr c)" if "v \<in> set cs" for v
      using Suc.IH [of v] ok that ast_depth_child [OF that, of tk] Suc.prems(2) t by auto
    then have all: "\<forall>v\<in>set cs. \<exists>c\<in>set single_caps. cap_dispatch unfold fuel v = Some (Inr c)"
      by blast
    then obtain c where c: "c \<in> set single_caps" "cap_dispatch unfold fuel u = Some (Inr c)"
      using cs by auto
    from dispatch_children_total [of us unfold fuel "if tk = TK_UNIONTYPE then dispatch_union_step
      else dispatch_isect_step" c] all c cs True t show ?thesis by auto
  next
    case False
    with Suc.prems t cap_single_dispatchable [of t] show ?thesis by auto
  qed
qed

abbreviation sub_none :: "token_id \<Rightarrow> token_id \<Rightarrow> bool" where
  "sub_none a b \<equiv> is_cap_sub_cap a TK_NONE b TK_NONE = Inr True"

lemma sub_none_trans:
  assumes "a \<in> set rcaps" "b \<in> set rcaps" "c \<in> set rcaps" "sub_none a b" "sub_none b c"
  shows "sub_none a c"
proof -
  have m: "TK_NONE \<in> set modifiers" by (simp add: modifiers_def)
  then have "(b, TK_NONE) \<in> cap_pairs" using assms(2) by (simp add: cap_pairs_def)
  then show ?thesis
    using capo.lifted_trans [of "(b, TK_NONE)" "(a, TK_NONE)" "(c, TK_NONE)"] assms m sub_cap_table
    by simp
qed

lemma single_rcaps: "a \<in> set single_caps \<Longrightarrow> a \<in> set rcaps"
  by (simp add: rcaps_def)

lemma sub_none_single_trans:
  "a \<in> set single_caps \<Longrightarrow> b \<in> set single_caps \<Longrightarrow> c \<in> set single_caps \<Longrightarrow>
   sub_none a b \<Longrightarrow> sub_none b c \<Longrightarrow> sub_none a c"
  by (blast intro: sub_none_trans single_rcaps)

lemma sub_none_refl: "\<forall>a\<in>set single_caps. sub_none a a"
  by code_simp

lemma isect_step_table:
  "\<forall>a\<in>set single_caps. \<forall>b\<in>set single_caps. sub_none a b \<or> sub_none b a \<longrightarrow>
     dispatch_isect_step a b \<in> {Inr a, Inr b} \<and>
     (\<forall>c\<in>{a, b}. dispatch_isect_step a b = Inr c \<longrightarrow> sub_none c a \<and> sub_none c b)"
  by code_simp

lemma union_step_table:
  "\<forall>a\<in>set (remove1 TK_ISO single_caps). \<forall>b\<in>set (remove1 TK_ISO single_caps).
     case dispatch_union_step a b of
       Inr c \<Rightarrow> c \<in> set (remove1 TK_ISO single_caps) \<and> sub_none a c \<and> sub_none b c
     | Inl _ \<Rightarrow> False"
  by code_simp

lemma dispatch_isect_children:
  assumes "\<forall>t\<in>set ts. cap_dispatch unfold fuel t = Some (Inr (f t)) \<and> f t \<in> set single_caps"
    and "a \<in> set single_caps"
    and "\<forall>x\<in>insert a (f ` set ts). \<forall>y\<in>insert a (f ` set ts). sub_none x y \<or> sub_none y x"
  shows "\<exists>c\<in>insert a (f ` set ts).
    cap_dispatch_children unfold fuel dispatch_isect_step a ts = Some (Inr c) \<and>
    (\<forall>d\<in>insert a (f ` set ts). sub_none c d)"
  using assms
proof (induction ts arbitrary: a)
  case Nil
  then show ?case using sub_none_refl by simp
next
  case (Cons t ts)
  have ft: "f t \<in> set single_caps" and cmp: "sub_none a (f t) \<or> sub_none (f t) a"
    using Cons.prems(1,3) by auto
  from isect_step_table Cons.prems(2) ft cmp obtain m where
    m: "m \<in> {a, f t}" "dispatch_isect_step a (f t) = Inr m" "sub_none m a" "sub_none m (f t)"
    by blast
  have ms: "m \<in> set single_caps" using m(1) Cons.prems(2) ft by auto
  have "\<forall>x\<in>insert m (f ` set ts). \<forall>y\<in>insert m (f ` set ts). sub_none x y \<or> sub_none y x"
    using Cons.prems(3) m(1) by fastforce
  with Cons.IH [of m] Cons.prems(1) ms obtain c where
    c: "c \<in> insert m (f ` set ts)"
      "cap_dispatch_children unfold fuel dispatch_isect_step m ts = Some (Inr c)"
      "\<forall>d\<in>insert m (f ` set ts). sub_none c d"
    by auto
  have cs: "c \<in> set single_caps" using c(1) ms Cons.prems(1) by auto
  have "sub_none c a" "sub_none c (f t)"
    using sub_none_single_trans [OF cs ms] Cons.prems(2) ft c(3) m(3,4) by auto
  with c m(1,2) Cons.prems(1) show ?case by auto
qed

lemma dispatch_union_children:
  assumes "\<forall>t\<in>set ts. cap_dispatch unfold fuel t = Some (Inr (f t)) \<and>
      f t \<in> set (remove1 TK_ISO single_caps)"
    and "a \<in> set (remove1 TK_ISO single_caps)"
  shows "\<exists>c\<in>set single_caps.
    cap_dispatch_children unfold fuel dispatch_union_step a ts = Some (Inr c) \<and>
    (\<forall>d\<in>insert a (f ` set ts). sub_none d c)"
  using assms
proof (induction ts arbitrary: a)
  case Nil
  then show ?case using sub_none_refl set_remove1_subset [of TK_ISO single_caps] by auto
next
  case (Cons t ts)
  have sub: "x \<in> set (remove1 TK_ISO single_caps) \<Longrightarrow> x \<in> set single_caps" for x
    using set_remove1_subset [of TK_ISO single_caps] by auto
  have ft: "f t \<in> set (remove1 TK_ISO single_caps)" using Cons.prems(1) by simp
  from union_step_table Cons.prems(2) ft obtain m where
    m: "dispatch_union_step a (f t) = Inr m" "m \<in> set (remove1 TK_ISO single_caps)"
      "sub_none a m" "sub_none (f t) m"
    by (fastforce split: sum.splits)
  from Cons.IH [of m] Cons.prems(1) m(2) obtain c where
    c: "c \<in> set single_caps"
      "cap_dispatch_children unfold fuel dispatch_union_step m ts = Some (Inr c)"
      "\<forall>d\<in>insert m (f ` set ts). sub_none d c"
    by auto
  have "sub_none a c" "sub_none (f t) c"
    using sub_none_single_trans [OF _ sub [OF m(2)] c(1)] sub Cons.prems(2) ft m(3,4) c(3) by auto
  with c m(1) Cons.prems(1) show ?case by auto
qed

text \<open>
  What a type dispatches to, in the lattice: a union to the least upper bound of what its members do, when none of these is \<^verbatim>\<open>iso\<close>, an
  intersection to the one of its members that is below the others, and an alias to what it unfolds to.
\<close>

definition lub_cap :: "kcap list \<Rightarrow> kcap \<Rightarrow> bool" where
  "lub_cap ks k \<longleftrightarrow> (\<forall>m\<in>set ks. cap_below m k) \<and> (\<forall>u. (\<forall>m\<in>set ks. cap_below m u) \<longrightarrow> cap_below k u)"

abbreviation tok :: "kcap \<Rightarrow> token_id" where
  "tok k \<equiv> fst (tokens_of k)"

inductive dispatches :: "(ast \<Rightarrow> ast option) \<Rightarrow> ast \<Rightarrow> kcap \<Rightarrow> bool" for unfold where
  dispatches_nominal: "ast_id t = TK_NOMINAL \<Longrightarrow> cap_and_eph t = Inr (i, c, e) \<Longrightarrow> c \<in> set single_caps \<Longrightarrow> e \<in> set modifiers \<Longrightarrow>
    concrete (fst (cap_aliasing c e)) TK_NONE = [k] \<Longrightarrow> dispatches unfold t k"
| dispatches_union: "cs \<noteq> [] \<Longrightarrow> list_all2 (dispatches unfold) cs ks \<Longrightarrow> Iso \<notin> set ks \<Longrightarrow> lub_cap ks k \<Longrightarrow>
    dispatches unfold (AST TK_UNIONTYPE cs) k"
| dispatches_isect: "list_all2 (dispatches unfold) cs ks \<Longrightarrow> k \<in> set ks \<Longrightarrow> \<forall>m\<in>set ks. cap_below k m \<Longrightarrow>
    dispatches unfold (AST TK_ISECTTYPE cs) k"
| dispatches_alias: "ast_id t = TK_TYPEALIASREF \<Longrightarrow> unfold t = Some u \<Longrightarrow> dispatches unfold u k \<Longrightarrow> dispatches unfold t k"

definition plain_caps :: "kcap list" where
  "plain_caps = [Iso, Trn, Ref, Val, Box, Tag, Nhb]"

lemma plain_sub: "\<forall>a\<in>set plain_caps. \<forall>b\<in>set plain_caps. is_cap_sub_cap (tok a) TK_NONE (tok b) TK_NONE = Inr (cap_below a b)"
  by code_simp

lemma plain_concrete: "\<forall>c\<in>set single_caps. \<forall>k\<in>set (concrete c TK_NONE). k \<in> set plain_caps \<and> tok k = c"
  by code_simp

lemma plain_union:
  "\<forall>a\<in>set plain_caps. \<forall>b\<in>set plain_caps. a = Iso \<or> b = Iso \<or>
     (\<exists>c\<in>set plain_caps. c \<noteq> Iso \<and> dispatch_union_step (tok a) (tok b) = Inr (tok c) \<and> cap_below a c \<and> cap_below b c \<and>
       (\<forall>u\<in>set kcaps. cap_below a u \<longrightarrow> cap_below b u \<longrightarrow> cap_below c u))"
  by code_simp

lemma kcaps_all: "k \<in> set kcaps"
  by (cases k) (simp_all add: kcaps_def)

lemma cap_below_antisym: "cap_below a b \<Longrightarrow> cap_below b a \<Longrightarrow> a = b"
  unfolding cap_below_iff by (cases a; cases b) simp_all

lemma lub_unique: "lub_cap ks k \<Longrightarrow> lub_cap ks k' \<Longrightarrow> k = k'"
  unfolding lub_cap_def by (blast intro: cap_below_antisym)

lemma union_step:
  assumes "a \<in> set plain_caps" "a \<noteq> Iso" "k \<in> set plain_caps" "k \<noteq> Iso"
  obtains b where "b \<in> set plain_caps" "b \<noteq> Iso" "dispatch_union_step (tok a) (tok k) = Inr (tok b)" "cap_below a b" "cap_below k b"
    "\<And>u. cap_below a u \<Longrightarrow> cap_below k u \<Longrightarrow> cap_below b u"
proof -
  from plain_union [THEN bspec, OF assms(1), THEN bspec, OF assms(3)] assms(2,4) obtain b where
    "b \<in> set plain_caps" "b \<noteq> Iso" "dispatch_union_step (tok a) (tok k) = Inr (tok b)" "cap_below a b" "cap_below k b"
    and "\<forall>u\<in>set kcaps. cap_below a u \<longrightarrow> cap_below k u \<longrightarrow> cap_below b u" by auto
  thus ?thesis using that kcaps_all by blast
qed

lemma dispatch_union_fold:
  assumes "list_all2 (\<lambda>t k. cap_dispatch unfold fuel t = Some (Inr (tok k)) \<and> k \<in> set plain_caps \<and> k \<noteq> Iso) ts ks"
    and "a \<in> set plain_caps" "a \<noteq> Iso"
  shows "\<exists>c\<in>set plain_caps. cap_dispatch_children unfold fuel dispatch_union_step (tok a) ts = Some (Inr (tok c)) \<and> lub_cap (a # ks) c"
  using assms
proof (induction ts ks arbitrary: a rule: list_all2_induct)
  case Nil
  thus ?case by (auto simp: lub_cap_def)
next
  case (Cons t ts k ks)
  obtain b where b: "b \<in> set plain_caps" "b \<noteq> Iso" "dispatch_union_step (tok a) (tok k) = Inr (tok b)" "cap_below a b" "cap_below k b"
    "\<And>u. cap_below a u \<Longrightarrow> cap_below k u \<Longrightarrow> cap_below b u"
    using union_step [OF Cons.prems, of k] Cons.hyps(1) by blast
  obtain c where c: "c \<in> set plain_caps" "cap_dispatch_children unfold fuel dispatch_union_step (tok b) ts = Some (Inr (tok c))" "lub_cap (b # ks) c"
    using Cons.IH [OF b(1,2)] by blast
  have "lub_cap (a # k # ks) c"
    unfolding lub_cap_def
  proof (intro conjI allI impI)
    show "\<forall>m\<in>set (a # k # ks). cap_below m c" using c(3) b(4,5) cap_below_trans unfolding lub_cap_def by auto
    fix u assume "\<forall>m\<in>set (a # k # ks). cap_below m u"
    thus "cap_below c u" using c(3) b(6) unfolding lub_cap_def by simp
  qed
  thus ?case using Cons.hyps(1) b(3) c(1,2) by auto
qed

lemma dispatch_isect_fold:
  assumes "list_all2 (\<lambda>t k. cap_dispatch unfold fuel t = Some (Inr (tok k)) \<and> k \<in> set plain_caps) ts ks"
    and "a \<in> set plain_caps" and "k \<in> set (a # ks)" and "\<forall>m\<in>set (a # ks). cap_below k m"
  shows "cap_dispatch_children unfold fuel dispatch_isect_step (tok a) ts = Some (Inr (tok k))"
  using assms
proof (induction ts ks arbitrary: a rule: list_all2_induct)
  case Nil
  thus ?case by simp
next
  case (Cons t ts m ks)
  have step: "dispatch_isect_step (tok a) (tok m) = Inr (tok (if cap_below m a then m else a))"
    using plain_sub Cons.hyps(1) Cons.prems(1) by (simp add: dispatch_isect_step_def)
  let ?b = "if cap_below m a then m else a"
  have "k = a \<Longrightarrow> cap_below m a \<Longrightarrow> k = m" "k = m \<Longrightarrow> cap_below m a" using Cons.prems(3) cap_below_antisym by auto
  hence "k \<in> set (?b # ks)" using Cons.prems(2) by auto
  moreover have "?b \<in> set plain_caps" "\<forall>x\<in>set (?b # ks). cap_below k x" using Cons.hyps(1) Cons.prems(1,3) by auto
  ultimately show ?case using Cons.IH [of ?b] Cons.hyps(1) step by simp
qed

lemma enough_fuel:
  assumes "list_all2 (\<lambda>t k. \<exists>n. \<forall>fuel\<ge>n. P fuel t k) ts ks"
  shows "\<exists>n. \<forall>fuel\<ge>n. list_all2 (P (fuel :: nat)) ts ks"
  using assms
proof (induction ts ks rule: list_all2_induct)
  case (Cons t ts k ks)
  then obtain n m where "\<forall>fuel\<ge>n. P fuel t k" "\<forall>fuel\<ge>m. list_all2 (P fuel) ts ks" by blast
  thus ?case by (intro exI [of _ "max n m"]) simp
qed simp

lemma dispatch_children_start:
  assumes "cap_dispatch unfold fuel t = Some (Inr c)" and "tk \<in> {TK_UNIONTYPE, TK_ISECTTYPE}"
  shows "cap_dispatch unfold (Suc fuel) (AST tk (t # ts)) =
    cap_dispatch_children unfold fuel (if tk = TK_UNIONTYPE then dispatch_union_step else dispatch_isect_step) c ts"
  using assms by auto

lemma dispatches_dispatch:
  "dispatches unfold t k \<Longrightarrow> k \<in> set plain_caps \<and> (\<exists>n. \<forall>fuel\<ge>n. cap_dispatch unfold fuel t = Some (Inr (tok k)))"
proof (induction rule: dispatches.induct)
  case (dispatches_nominal t i c e k)
  hence "fst (cap_aliasing c e) \<in> set single_caps" using aliasing_single_table by blast
  hence k: "k \<in> set plain_caps \<and> tok k = fst (cap_aliasing c e)" using plain_concrete dispatches_nominal(5) by fastforce
  have "cap_dispatch unfold (Suc fuel) t = Some (Inr (tok k))" for fuel
    using dispatches_nominal(1,2) k by (simp add: cap_single_def)
  thus ?case using k by (metis Suc_le_D)
next
  case (dispatches_union cs ks k)
  then obtain t ts a ms where cs: "cs = t # ts" "ks = a # ms" by (cases cs; cases ks) auto
  let ?P = "\<lambda>fuel t k. cap_dispatch unfold fuel t = Some (Inr (tok k)) \<and> k \<in> set plain_caps \<and> k \<noteq> Iso"
  have "list_all2 (\<lambda>t k. \<exists>n. \<forall>fuel\<ge>n. ?P fuel t k) cs ks"
    using dispatches_union.IH dispatches_union.hyps(2) by (fastforce simp: list_all2_conv_all_nth in_set_conv_nth)
  then obtain n where n: "\<forall>fuel\<ge>n. list_all2 (?P fuel) cs ks" using enough_fuel [of ?P cs ks] by blast
  have "k \<in> set plain_caps \<and> cap_dispatch unfold (Suc fuel) (AST TK_UNIONTYPE cs) = Some (Inr (tok k))" if "n \<le> fuel" for fuel
  proof -
    have a: "cap_dispatch unfold fuel t = Some (Inr (tok a))" "a \<in> set plain_caps" "a \<noteq> Iso" "list_all2 (?P fuel) ts ms" using n that cs by auto
    from dispatch_union_fold [OF a(4,2,3)] obtain c where c: "c \<in> set plain_caps"
      "cap_dispatch_children unfold fuel dispatch_union_step (tok a) ts = Some (Inr (tok c))" "lub_cap ks c" using cs by auto
    have "c = k" using c(3) dispatches_union.hyps(3) by (rule lub_unique)
    thus ?thesis using c dispatch_children_start [OF a(1), of TK_UNIONTYPE ts] cs by simp
  qed
  thus ?case by (metis Suc_le_D Suc_le_mono order_refl)
next
  case (dispatches_isect cs ks k)
  then obtain t ts a ms where cs: "cs = t # ts" "ks = a # ms" by (cases cs; cases ks) auto
  let ?P = "\<lambda>fuel t k. cap_dispatch unfold fuel t = Some (Inr (tok k)) \<and> k \<in> set plain_caps"
  have "list_all2 (\<lambda>t k. \<exists>n. \<forall>fuel\<ge>n. ?P fuel t k) cs ks"
    using dispatches_isect.IH by (fastforce simp: list_all2_conv_all_nth)
  then obtain n where n: "\<forall>fuel\<ge>n. list_all2 (?P fuel) cs ks" using enough_fuel [of ?P cs ks] by blast
  have "cap_dispatch unfold (Suc fuel) (AST TK_ISECTTYPE cs) = Some (Inr (tok k))" if "n \<le> fuel" for fuel
  proof -
    have a: "cap_dispatch unfold fuel t = Some (Inr (tok a))" "a \<in> set plain_caps" "list_all2 (?P fuel) ts ms" using n that cs by auto
    thus ?thesis using dispatch_isect_fold [OF a(3,2)] dispatches_isect.hyps dispatch_children_start [OF a(1), of TK_ISECTTYPE ts] cs by simp
  qed
  moreover have "k \<in> set plain_caps" using dispatches_isect.IH dispatches_isect.hyps(1) by (auto simp: list_all2_conv_all_nth in_set_conv_nth)
  ultimately show ?case by (metis Suc_le_D Suc_le_mono)
next
  case (dispatches_alias t u k)
  then obtain n where n: "\<forall>fuel\<ge>n. cap_dispatch unfold fuel u = Some (Inr (tok k))" by blast
  have "cap_dispatch unfold (Suc fuel) t = Some (Inr (tok k))" if "n \<le> fuel" for fuel using n that dispatches_alias(1,2) by simp
  thus ?case using dispatches_alias.IH by (metis Suc_le_D Suc_le_mono)
qed

text \<open>
  The outermost capability pairs of a type, left to right, and the types that
  \<open>modified_cap\<close> can rewrite without unfolding an alias.
\<close>

fun outer_caps :: "ast \<Rightarrow> (token_id \<times> token_id) list" where
  "outer_caps (AST tk cs) =
     (if tk \<in> {TK_UNIONTYPE, TK_ISECTTYPE, TK_TUPLETYPE} then concat (map outer_caps cs)
      else case cap_and_eph (AST tk cs) of Inr (_, c, e) \<Rightarrow> [(c, e)] | Inl _ \<Rightarrow> [])"

fun rewritable :: "ast \<Rightarrow> bool" where
  "rewritable (AST tk cs) =
     (if tk \<in> {TK_UNIONTYPE, TK_ISECTTYPE, TK_TUPLETYPE} then list_all rewritable cs
      else tk = TK_NOMINAL \<and> 5 \<le> length cs \<or> tk = TK_TYPEPARAMREF \<and> 3 \<le> length cs)"

definition faithful_mutation :: "cap_mutation \<Rightarrow> bool" where
  "faithful_mutation m \<longleftrightarrow> (\<forall>c e. \<not> fst (m c e) \<longrightarrow> snd (m c e) = (c, e))"

lemma cap_and_eph_rewritable:
  assumes "tk = TK_NOMINAL \<and> 5 \<le> length cs \<or> tk = TK_TYPEPARAMREF \<and> 3 \<le> length cs"
  shows "\<exists>i. (tk = TK_NOMINAL \<and> i = 3 \<or> tk = TK_TYPEPARAMREF \<and> i = 1) \<and> i + 1 < length cs \<and>
    cap_and_eph (AST tk cs) = Inr (i, ast_id (cs ! i), ast_id (cs ! (i + 1)))"
  using assms by (auto simp: cap_and_eph_def cap_fetch_def)

lemma modified_cap_single_outer:
  assumes leaf: "tk = TK_NOMINAL \<and> 5 \<le> length cs \<or> tk = TK_TYPEPARAMREF \<and> 3 \<le> length cs"
    and m: "faithful_mutation m"
  shows "\<exists>cs'. modified_cap_single (AST tk cs) m = Inr (AST tk cs') \<and> length cs' = length cs \<and>
    outer_caps (AST tk cs') = map (\<lambda>(c, e). snd (m c e)) (outer_caps (AST tk cs))"
proof -
  from cap_and_eph_rewritable [OF leaf] obtain i where
    i: "tk = TK_NOMINAL \<and> i = 3 \<or> tk = TK_TYPEPARAMREF \<and> i = 1" "i + 1 < length cs"
    and eq: "cap_and_eph (AST tk cs) = Inr (i, ast_id (cs ! i), ast_id (cs ! (i + 1)))"
    by blast
  obtain ch c' e' where mut: "m (ast_id (cs ! i)) (ast_id (cs ! (i + 1))) = (ch, c', e')"
    by (metis prod_cases3)
  show ?thesis
  proof (cases ch)
    case True
    with i eq mut show ?thesis
      by (auto simp: modified_cap_single_def ast_setchildid_def cap_and_eph_def cap_fetch_def)
  next
    case False
    with m mut have "c' = ast_id (cs ! i)" "e' = ast_id (cs ! (i + 1))"
      by (metis faithful_mutation_def fst_conv snd_conv)+
    with False i eq mut show ?thesis
      by (auto simp: modified_cap_single_def)
  qed
qed

lemma modified_cap_children_outer:
  assumes "\<forall>t\<in>set ts. \<exists>t'. modified_cap unfold fuel t m = Some (Inr (Some t')) \<and>
      outer_caps t' = map (\<lambda>(c, e). snd (m c e)) (outer_caps t)"
  shows "\<exists>ts'. modified_cap_children unfold fuel ts m = Some (Inr ts') \<and>
      concat (map outer_caps ts') = map (\<lambda>(c, e). snd (m c e)) (concat (map outer_caps ts))"
  using assms by (induction ts) fastforce+

lemma modified_cap_outer:
  assumes "faithful_mutation m"
  shows "rewritable t \<Longrightarrow> ast_depth t \<le> fuel \<Longrightarrow>
    \<exists>t'. modified_cap unfold fuel t m = Some (Inr (Some t')) \<and>
      outer_caps t' = map (\<lambda>(c, e). snd (m c e)) (outer_caps t)"
proof (induction fuel arbitrary: t)
  case 0
  then show ?case by (cases t) simp
next
  case (Suc fuel)
  obtain tk cs where t: "t = AST tk cs" by (cases t)
  show ?case
  proof (cases "tk \<in> {TK_UNIONTYPE, TK_ISECTTYPE, TK_TUPLETYPE}")
    case True
    have "\<exists>u'. modified_cap unfold fuel u m = Some (Inr (Some u')) \<and>
        outer_caps u' = map (\<lambda>(c, e). snd (m c e)) (outer_caps u)" if "u \<in> set cs" for u
      using Suc.IH [of u] Suc.prems t True that ast_depth_child [OF that, of tk]
      by (auto simp: list_all_iff)
    then obtain cs' where "modified_cap_children unfold fuel cs m = Some (Inr cs')"
      "concat (map outer_caps cs') = map (\<lambda>(c, e). snd (m c e)) (concat (map outer_caps cs))"
      using modified_cap_children_outer [of cs unfold fuel m] by blast
    with True t show ?thesis by (auto simp: Let_def)
  next
    case False
    with Suc.prems(1) t have
      leaf: "tk = TK_NOMINAL \<and> 5 \<le> length cs \<or> tk = TK_TYPEPARAMREF \<and> 3 \<le> length cs"
      by (simp split: if_splits)
    from modified_cap_single_outer [OF leaf assms] obtain cs' where
      "modified_cap_single (AST tk cs) m = Inr (AST tk cs')"
      "outer_caps (AST tk cs') = map (\<lambda>(c, e). snd (m c e)) (outer_caps (AST tk cs))"
      by blast
    with leaf t show ?thesis by (auto simp: Let_def)
  qed
qed

lemma unisolated_mod_faithful: "faithful_mutation unisolated_mod"
  by (simp add: faithful_mutation_def unisolated_mod_def)

section \<open>Properties\<close>

text \<open>
  C34: on the twelve reference capabilities with any modifier, \<open>is_cap_sub_cap\<close>
  answers without failing, and it answers true exactly when every instance of the
  sub capability lies below every instance of the super capability in the lattice.
\<close>

theorem sub_cap_instances:
  assumes "sub \<in> set rcaps" "a \<in> set modifiers" "super \<in> set rcaps" "b \<in> set modifiers"
  shows "is_cap_sub_cap sub a super b =
    Inr (\<forall>x\<in>set (instances sub a). \<forall>y\<in>set (instances super b). cap_below x y)"
  using assms sub_cap_table by blast

theorem sub_cap_instances_witness:
  "is_cap_sub_cap TK_TRN TK_EPHEMERAL TK_CAP_SHARE TK_NONE = Inr True \<and>
   cap_below Trn_eph Val \<and> cap_below Trn_eph Tag"
proof -
  have v: "is_cap_sub_cap TK_TRN TK_EPHEMERAL TK_CAP_SHARE TK_NONE = Inr True"
    by code_simp
  have "TK_TRN \<in> set rcaps" "TK_EPHEMERAL \<in> set modifiers" "TK_CAP_SHARE \<in> set rcaps"
    "TK_NONE \<in> set modifiers" by code_simp+
  from sub_cap_instances [OF this] v show ?thesis
    by (simp add: instances_def cap_aliasing_def concrete_def)
qed

text \<open>
  Sub-capability is transitive across aliasing, ephemerality and generic
  capabilities.
\<close>

lemma sub_cap_trans:
  assumes "a \<in> set rcaps" "e \<in> set modifiers" "b \<in> set rcaps" "f \<in> set modifiers"
    "c \<in> set rcaps" "g \<in> set modifiers"
    and "is_cap_sub_cap a e b f = Inr True" "is_cap_sub_cap b f c g = Inr True"
  shows "is_cap_sub_cap a e c g = Inr True"
proof -
  have "(b, f) \<in> cap_pairs" using assms(3,4) by (simp add: cap_pairs_def)
  then show ?thesis
    using capo.lifted_trans [of "(b, f)" "(a, e)" "(c, g)"] assms sub_cap_table by simp
qed

text \<open>
  The constraint relation is membership.  A capability satisfies a constraint
  exactly when every capability it may be is one the constraint admits (where the
  code also admits \<^verbatim>\<open>nhb\<close> to every generic constraint), and an ephemeral constraint
  is met by ephemeral capabilities only.
\<close>

lemma constraint_membership:
  assumes "sub \<in> set rcaps" "a \<in> set modifiers" "super \<in> set rcaps" "b \<in> set modifiers"
  shows "is_cap_sub_cap_constraint sub a super b \<longleftrightarrow>
    (snd (cap_aliasing super b) = TK_EPHEMERAL \<longrightarrow> snd (cap_aliasing sub a) = TK_EPHEMERAL) \<and>
    set (members sub a) \<subseteq> set (members super b)"
  using assms constraint_table by blast

text \<open>
  The bound relation between type parameters is \<open>is_cap_sub_cap\<close> unless both sides
  are generic; for two generic capabilities every instance of the super side lies
  above some instance of the sub side, where the code takes the instances of the
  sub side as ephemeral.
\<close>

lemma bound_instances:
  assumes "sub \<in> set rcaps" "a \<in> set modifiers" "super \<in> set rcaps" "b \<in> set modifiers"
  shows "is_cap_sub_cap_bound sub a super b =
    (if is_generic sub a \<and> is_generic super b then
       Inr ((snd (cap_aliasing super b) = TK_EPHEMERAL \<longrightarrow>
             snd (cap_aliasing sub a) = TK_EPHEMERAL) \<and>
            (\<forall>y\<in>set (instances super b).
               \<exists>x\<in>set (instances (fst (cap_aliasing sub a)) TK_EPHEMERAL). cap_below x y))
     else is_cap_sub_cap sub a super b)"
  using assms bound_table by blast

text \<open>
  The rule that the header file states for two generic capabilities, with the
  sub side's own instances, is not the one computed: \<^verbatim>\<open>#send\<close> is accepted under the
  bound \<^verbatim>\<open>#read\<close> although no instance of \<^verbatim>\<open>#send\<close> lies below \<^verbatim>\<open>ref\<close>.
\<close>

lemma bound_not_as_documented:
  "is_cap_sub_cap_bound TK_CAP_SEND TK_NONE TK_CAP_READ TK_NONE = Inr True \<and>
   Ref \<in> set (instances TK_CAP_READ TK_NONE) \<and>
   \<not> (\<exists>x\<in>set (instances TK_CAP_SEND TK_NONE). cap_below x Ref)"
  by code_simp

text \<open>
  Local compatibility is symmetric.
\<close>

lemma compat_symmetric:
  assumes "a \<in> set rcaps" "e \<in> set modifiers" "b \<in> set rcaps" "f \<in> set modifiers"
  shows "is_cap_compat_cap a e b f = is_cap_compat_cap b f a e"
  using assms compat_table by blast

text \<open>
  Compatibility survives a cast to a super capability.  A concrete capability
  other than \<^verbatim>\<open>nhb\<close> that is compatible with another concrete capability is compatible
  with everything that capability may be used as.
\<close>

lemma compat_upward:
  assumes "a \<in> set single_caps" "e \<in> set modifiers" "b \<in> set single_caps" "f \<in> set modifiers"
    "c \<in> set rcaps" "g \<in> set modifiers" "a \<noteq> TK_NHB"
    and "is_cap_compat_cap a e b f" "is_cap_sub_cap b f c g = Inr True"
  shows "is_cap_compat_cap a e c g"
  using assms compat_up_table by blast

text \<open>
  C35: the upper view fails no assertion, and it is refused exactly when the left side may be \<^verbatim>\<open>tag\<close>.  When both sides are single
  capabilities, it is what a field is seen as according to the lattice and the promises of the origin; when
  one of them stands for several, the view of every instance of the right side through every instance of the left side
  lies below some instance of the result.
\<close>

theorem view_upper_bounds:
  assumes "lc \<in> set rcaps" "le \<in> set modifiers" "rc \<in> set rcaps" "re \<in> set modifiers"
  shows "case cap_view_upper lc le rc re of
      Inr (True, c, e) \<Rightarrow>
        (\<forall>l\<in>set (instances lc le). \<forall>r\<in>set (instances rc re). bounded_by (field_view l r) c e \<and>
          (length (instances lc le) = 1 \<and> length (instances rc re) = 1 \<longrightarrow> map Some (instances c e) = [field_view l r]))
    | Inr (False, _, _) \<Rightarrow> Tag \<in> set (instances lc le)
    | Inl _ \<Rightarrow> False"
  using assms view_upper_table by blast

theorem view_upper_bounds_witness:
  "cap_view_upper TK_ISO TK_NONE TK_REF TK_NONE = Inr (True, TK_TAG, TK_NONE) \<and> field_view Iso Ref = Some Tag"
proof -
  have m: "TK_ISO \<in> set rcaps" "TK_NONE \<in> set modifiers" "TK_REF \<in> set rcaps"
    "TK_NONE \<in> set modifiers" by code_simp+
  have v: "cap_view_upper TK_ISO TK_NONE TK_REF TK_NONE = Inr (True, TK_TAG, TK_NONE)"
    by code_simp
  have i: "instances TK_ISO TK_NONE = [Iso]" "instances TK_REF TK_NONE = [Ref]" "instances TK_TAG TK_NONE = [Tag]"
    by code_simp+
  from view_upper_bounds [OF m] v i show ?thesis by simp
qed

text \<open>
  Isolation and immutability survive a read.  What is read through an \<^verbatim>\<open>iso\<close> can
  be sent to another actor, and what is read through \<^verbatim>\<open>val\<close>, \<^verbatim>\<open>box\<close> or \<^verbatim>\<open>#read\<close>
  cannot be written.
\<close>

lemma view_safe:
  assumes "rc \<in> set rcaps" "re \<in> set modifiers" "le \<in> set modifiers"
  shows "(\<forall>c e. cap_view_upper TK_ISO le rc re = Inr (True, c, e) \<longrightarrow> cap_sendable c) \<and>
    (\<forall>lc\<in>{TK_VAL, TK_BOX, TK_CAP_READ}. \<exists>c e.
       cap_view_upper lc le rc re = Inr (True, c, e) \<and> cap_mutable c = Inr False)"
proof -
  have "cap_view_upper TK_ISO le rc re = Inr (True, c, e) \<Longrightarrow> cap_sendable c" for c e
    using assms view_sendable_table by fastforce
  moreover have "\<exists>c e. cap_view_upper lc le rc re = Inr (True, c, e) \<and> cap_mutable c = Inr False"
    if "lc \<in> {TK_VAL, TK_BOX, TK_CAP_READ}" for lc
  proof -
    have "case cap_view_upper lc le rc re of
        Inr (True, c, _) \<Rightarrow> cap_mutable c = Inr False | _ \<Rightarrow> False"
      using assms that view_readonly_table by auto
    then show ?thesis by (auto split: sum.splits prod.splits bool.splits)
  qed
  ultimately show ?thesis by blast
qed

text \<open>
  The lower view agrees with the upper view on concrete capabilities, but for
  generic ones it is not the lower bound its header promises: \<^verbatim>\<open>trn\<close> read through
  \<^verbatim>\<open>#read\<close> gives \<^verbatim>\<open>trn\<close>, which does not lie below \<^verbatim>\<open>val\<close>, the view through \<^verbatim>\<open>val\<close>.
\<close>

lemma view_lower_concrete_and_generic:
  "(\<forall>lc\<in>set single_caps. \<forall>le\<in>set modifiers. \<forall>rc\<in>set single_caps. \<forall>re\<in>set modifiers.
      cap_view_lower lc le rc re = cap_view_upper lc le rc re) \<and>
   cap_view_lower TK_CAP_READ TK_NONE TK_TRN TK_NONE = Inr (True, TK_TRN, TK_NONE) \<and>
   Val \<in> set (instances TK_CAP_READ TK_NONE) \<and>
   cap_view_upper TK_VAL TK_NONE TK_TRN TK_NONE = Inr (True, TK_VAL, TK_NONE) \<and>
   is_cap_sub_cap TK_TRN TK_NONE TK_VAL TK_NONE = Inr False"
  using view_lower_table by (intro conjI) (assumption | code_simp)+

text \<open>
  Dispatch is total: for a type built from unions and intersections over nominal types with a concrete capability, fuel
  equal to the depth of the type is enough.
\<close>

lemma cap_dispatch_total:
  assumes "dispatchable t" "ast_depth t \<le> fuel"
  shows "\<exists>c\<in>set single_caps. cap_dispatch unfold fuel t = Some (Inr c)"
  using assms by (rule cap_dispatch_total_aux)

text \<open>
  C36: dispatch computes the bounds of the lattice.  With enough fuel, the dispatch capability of a union of members that do not
  dispatch to \<^verbatim>\<open>iso\<close> is the least upper bound of theirs, that of an intersection one of whose members dispatches to
  a capability below the others is this one, and that of an alias reference is that of the type it unfolds to, at any depth.
\<close>

theorem cap_dispatch_lattice:
  assumes "dispatches unfold t k"
  shows "\<exists>n. \<forall>fuel\<ge>n. cap_dispatch unfold fuel t = Some (Inr (fst (tokens_of k)))"
  using dispatches_dispatch [OF assms] by blast

definition nominal_of :: "token_id \<Rightarrow> ast" where
  "nominal_of cap = AST TK_NOMINAL
     [AST TK_NONE [], AST TK_NONE [], AST TK_NONE [], AST cap [], AST TK_NONE []]"

lemma dispatches_nominal_of:
  "c \<in> set single_caps \<Longrightarrow> concrete (fst (cap_aliasing c TK_NONE)) TK_NONE = [k] \<Longrightarrow> dispatches unfold (nominal_of c) k"
  by (rule dispatches_nominal [of _ 3 c TK_NONE]) (simp_all add: nominal_of_def cap_and_eph_def cap_fetch_def modifiers_def)

theorem cap_dispatch_lattice_witness:
  "\<exists>n. cap_dispatch (\<lambda>_. None) n (AST TK_UNIONTYPE [nominal_of TK_REF, AST TK_ISECTTYPE [nominal_of TK_BOX, nominal_of TK_VAL]]) =
     Some (Inr TK_BOX)"
proof -
  let ?d = "dispatches (\<lambda>_. None)"
  have n: "?d (nominal_of TK_REF) Ref" "?d (nominal_of TK_BOX) Box" "?d (nominal_of TK_VAL) Val"
    by (rule dispatches_nominal_of, simp_all add: single_caps_def concrete_def cap_aliasing_def)+
  have "?d (AST TK_ISECTTYPE [nominal_of TK_BOX, nominal_of TK_VAL]) Val"
    by (rule dispatches_isect [of _ _ "[Box, Val]"]) (use n in \<open>simp_all add: cap_below_iff\<close>)
  moreover have "lub_cap [Ref, Val] Box"
    unfolding lub_cap_def cap_below_iff by auto
  ultimately have "?d (AST TK_UNIONTYPE [nominal_of TK_REF, AST TK_ISECTTYPE [nominal_of TK_BOX, nominal_of TK_VAL]]) Box"
    using n(1) by (intro dispatches_union [of _ _ "[Ref, Val]"]) simp_all
  from cap_dispatch_lattice [OF this] show ?thesis by (metis fst_conv order_refl tokens_of.simps(7))
qed

text \<open>
  The dispatch capability of an intersection whose members dispatch to pairwise
  compatible concrete capabilities is the capability of one of its members and lies
  below all of them.
\<close>

lemma cap_dispatch_isect_least:
  assumes "cs \<noteq> []"
    and "\<forall>t\<in>set cs. cap_dispatch unfold fuel t = Some (Inr (f t)) \<and> f t \<in> set single_caps"
    and "\<forall>t\<in>set cs. \<forall>u\<in>set cs. is_cap_compat_cap (f t) TK_NONE (f u) TK_NONE"
  shows "\<exists>c\<in>f ` set cs. cap_dispatch unfold (Suc fuel) (AST TK_ISECTTYPE cs) = Some (Inr c) \<and>
    (\<forall>t\<in>set cs. is_cap_sub_cap c TK_NONE (f t) TK_NONE = Inr True)"
proof -
  from assms(1) obtain t ts where cs: "cs = t # ts" by (cases cs) auto
  have eq: "insert (f t) (f ` set ts) = f ` set cs" using cs by simp
  have "\<forall>x\<in>f ` set cs. \<forall>y\<in>f ` set cs. sub_none x y \<or> sub_none y x"
    using assms(2,3) compat_chain_table by blast
  with dispatch_isect_children [of ts unfold fuel f "f t"] assms(2) cs eq show ?thesis by fastforce
qed

text \<open>
  The dispatch capability of a union lies above the capability of every member,
  when no member dispatches to \<^verbatim>\<open>iso\<close>.
\<close>

lemma cap_dispatch_union_upper:
  assumes "cs \<noteq> []"
    and "\<forall>t\<in>set cs. cap_dispatch unfold fuel t = Some (Inr (f t)) \<and>
      f t \<in> set (remove1 TK_ISO single_caps)"
  shows "\<exists>c\<in>set single_caps. cap_dispatch unfold (Suc fuel) (AST TK_UNIONTYPE cs) = Some (Inr c) \<and>
    (\<forall>t\<in>set cs. is_cap_sub_cap (f t) TK_NONE c TK_NONE = Inr True)"
proof -
  from assms(1) obtain t ts where cs: "cs = t # ts" by (cases cs) auto
  with dispatch_union_children [of ts unfold fuel f "f t"] assms(2) show ?thesis by fastforce
qed

text \<open>
  Rewriting a type's capabilities returns for every type without alias
  references, with fuel equal to its depth, and changes the outermost capability
  pairs exactly as the mutation does; \<open>unisolated\<close> leaves no isolated capability that is not
  ephemeral.
\<close>

lemma unisolated_outer:
  assumes "rewritable t" "ast_depth t \<le> fuel"
  shows "\<exists>t'. unisolated unfold fuel t = Some (Inr (Some t')) \<and>
    outer_caps t' = map (\<lambda>(c, e). (unisolated_cap c e, e)) (outer_caps t) \<and>
    (\<forall>(c, e)\<in>set (outer_caps t'). e = TK_EPHEMERAL \<or> c \<notin> {TK_ISO, TK_TRN, TK_NHB})"
proof -
  have "snd (unisolated_mod c e) = (unisolated_cap c e, e)" for c e
    by (simp add: unisolated_cap_def unisolated_mod_def)
  with modified_cap_outer [OF unisolated_mod_faithful assms, of unfold]
  obtain t' where "unisolated unfold fuel t = Some (Inr (Some t'))"
    "outer_caps t' = map (\<lambda>(c, e). (unisolated_cap c e, e)) (outer_caps t)"
    by (auto simp: unisolated_def)
  then show ?thesis
    by (auto simp: unisolated_cap_def unisolated_mod_def split: if_splits)
qed

text \<open>
  Rewriting a bare capability, as on the left of an arrow type, returns for six
  of the seven capabilities the parser accepts there and fails an assertion on \<^verbatim>\<open>nhb\<close>.
\<close>

lemma unisolated_bare_caps:
  "(\<forall>c\<in>set (remove1 TK_NHB single_caps).
      unisolated unfold (Suc fuel) (AST c []) =
        Some (Inr (Some (AST (unisolated_cap c TK_NONE) [])))) \<and>
   unisolated unfold (Suc fuel) (AST TK_NHB []) = Some (Inl Assert_fail)"
  by (simp add: unisolated_def unisolated_cap_def unisolated_mod_def single_caps_def Let_def)

end
