(* ===== verification/Lexint.thy ===== *)
theory Lexint
  imports Prelude
begin

text \<open>
  The lexer's 128-bit integers, \<^verbatim>\<open>src/libponyc/ast/lexint.c\<close>: a pair of 64-bit words
  with wrap-around arithmetic, and the reference each operation implements, the
  natural number the pair stands for.
\<close>

section \<open>Representation and operations\<close>

record lexint_t =
  low :: uint64_t
  high :: uint64_t

definition lexint_zero :: lexint_t where
  "lexint_zero = \<lparr>low = 0, high = 0\<rparr>"

definition lexint_cmp :: "lexint_t \<Rightarrow> lexint_t \<Rightarrow> int" where
  "lexint_cmp a b =
     (if high a > high b then 1
      else if high a < high b then -1
      else if low a > low b then 1
      else if low a < low b then -1
      else 0)"

definition lexint_cmp64 :: "lexint_t \<Rightarrow> uint64_t \<Rightarrow> int" where
  "lexint_cmp64 a b =
     (if high a > 0 then 1
      else if low a > b then 1
      else if low a < b then -1
      else 0)"

definition lexint_shl :: "lexint_t \<Rightarrow> uint64_t \<Rightarrow> lexint_t" where
  "lexint_shl a b =
     (if b \<ge> 128 then \<lparr>low = 0, high = 0\<rparr>
      else if b > 64 then \<lparr>low = 0, high = push_bit (unat (b - 64)) (low a)\<rparr>
      else if b = 64 then \<lparr>low = 0, high = low a\<rparr>
      else if b > 0 then
        \<lparr>low = push_bit (unat b) (low a),
         high = push_bit (unat b) (high a) + drop_bit (unat (64 - b)) (low a)\<rparr>
      else \<lparr>low = low a, high = high a\<rparr>)"

definition lexint_shr :: "lexint_t \<Rightarrow> uint64_t \<Rightarrow> lexint_t" where
  "lexint_shr a b =
     (if b \<ge> 128 then \<lparr>low = 0, high = 0\<rparr>
      else if b > 64 then \<lparr>low = drop_bit (unat (b - 64)) (high a), high = 0\<rparr>
      else if b = 64 then \<lparr>low = high a, high = 0\<rparr>
      else if b > 0 then
        \<lparr>low = push_bit (unat (64 - b)) (high a) + drop_bit (unat b) (low a),
         high = drop_bit (unat b) (high a)\<rparr>
      else \<lparr>low = low a, high = high a\<rparr>)"

text \<open>
  In \<open>lexint_testbit\<close> and \<open>lexint_setbit\<close> a bit number of 128 or more would be a C shift
  by at least the width; both are called with bit numbers below 128 only.
\<close>

definition lexint_testbit :: "lexint_t \<Rightarrow> uint8_t \<Rightarrow> uint64_t" where
  "lexint_testbit a b =
     (if b \<ge> 64 then drop_bit (unat (b - 64)) (high a) AND 1
      else drop_bit (unat b) (low a) AND 1)"

definition lexint_setbit :: "lexint_t \<Rightarrow> uint8_t \<Rightarrow> lexint_t" where
  "lexint_setbit a b =
     (if b \<ge> 64 then a\<lparr>high := high a OR push_bit (unat (b - 64)) 1\<rparr>
      else a\<lparr>low := low a OR push_bit (unat b) 1\<rparr>)"

definition lexint_add :: "lexint_t \<Rightarrow> lexint_t \<Rightarrow> lexint_t" where
  "lexint_add a b =
     \<lparr>low = low a + low b,
      high = high a + high b + (if low a + low b < low a then 1 else 0)\<rparr>"

definition lexint_add64 :: "lexint_t \<Rightarrow> uint64_t \<Rightarrow> lexint_t" where
  "lexint_add64 a b =
     \<lparr>low = low a + b, high = high a + (if low a + b < low a then 1 else 0)\<rparr>"

definition lexint_sub :: "lexint_t \<Rightarrow> lexint_t \<Rightarrow> lexint_t" where
  "lexint_sub a b =
     \<lparr>low = low a - low b,
      high = high a - high b - (if low a - low b > low a then 1 else 0)\<rparr>"

definition lexint_sub64 :: "lexint_t \<Rightarrow> uint64_t \<Rightarrow> lexint_t" where
  "lexint_sub64 a b =
     \<lparr>low = low a - b, high = high a - (if low a - b > low a then 1 else 0)\<rparr>"

function lexint_mul64_loop :: "lexint_t \<Rightarrow> lexint_t \<Rightarrow> uint64_t \<Rightarrow> lexint_t" where
  "lexint_mul64_loop ret t b =
     (if b > 0 then
        lexint_mul64_loop (if b AND 1 \<noteq> 0 then lexint_add ret t else ret)
          (lexint_shl t 1) (drop_bit 1 b)
      else ret)"
  by pat_completeness auto
termination
proof (relation "measure (\<lambda>(ret, t, b). unat b)")
  fix ret t :: lexint_t and b :: uint64_t
  assume "b > 0"
  then have "unat b > 0" by (simp add: unat_gt_0)
  then show "((if b AND 1 \<noteq> 0 then lexint_add ret t else ret, lexint_shl t 1, drop_bit 1 b),
      ret, t, b) \<in> measure (\<lambda>(ret, t, b). unat b)"
    by (simp add: drop_bit_eq_div unat_div)
qed simp

declare lexint_mul64_loop.simps [simp del]

definition lexint_mul64 :: "lexint_t \<Rightarrow> uint64_t \<Rightarrow> lexint_t" where
  "lexint_mul64 a b = lexint_mul64_loop lexint_zero a b"

definition lexint_mul :: "lexint_t \<Rightarrow> lexint_t \<Rightarrow> lexint_t res" where
  "lexint_mul a b = pony_assert (high b = 0) (Inr (lexint_mul64 a (low b)))"

lemma uint8_countdown: "i < (255 :: uint8_t) \<Longrightarrow> unat i < unat (i + 1)"
  by (simp add: word_less_nat_alt unat_word_ariths)

function lexint_div64_loop ::
  "lexint_t \<Rightarrow> uint64_t \<Rightarrow> uint8_t \<Rightarrow> lexint_t \<Rightarrow> lexint_t \<Rightarrow> lexint_t" where
  "lexint_div64_loop orig b i r ret =
     (if i < 255 then
        (let r1 = lexint_shl r 1;
             t = lexint_shr orig (ucast i);
             r2 = r1\<lparr>low := low r1 OR (low t AND 1)\<rparr>
         in if lexint_cmp64 r2 b \<ge> 0
            then lexint_div64_loop orig b (i - 1) (lexint_sub64 r2 b) (lexint_setbit ret i)
            else lexint_div64_loop orig b (i - 1) r2 ret)
      else ret)"
  by pat_completeness auto
termination
  by (relation "measure (\<lambda>(orig, b, i, r, ret). unat (i + 1))") (auto simp: uint8_countdown)

declare lexint_div64_loop.simps [simp del]

definition lexint_div64 :: "lexint_t \<Rightarrow> uint64_t \<Rightarrow> lexint_t" where
  "lexint_div64 a b =
     (if b = 0 then lexint_zero
      else if b = 1 then a
      else lexint_div64_loop a b 127 lexint_zero lexint_zero)"

definition lexint_div :: "lexint_t \<Rightarrow> lexint_t \<Rightarrow> lexint_t res" where
  "lexint_div a b = pony_assert (high b = 0) (Inr (lexint_div64 a (low b)))"

text \<open>The character code is a C \<^verbatim>\<open>int\<close>, widened with its sign to 64 bits.\<close>

definition lexint_char :: "lexint_t \<Rightarrow> 32 word \<Rightarrow> lexint_t" where
  "lexint_char i c =
     \<lparr>low = push_bit 8 (low i) OR scast c,
      high = push_bit 8 (high i) OR drop_bit 56 (low i)\<rparr>"

text \<open>\<open>lexint_accum\<close> returns the truth value and the integer as it is left behind.\<close>

definition lexint_accum :: "lexint_t \<Rightarrow> uint64_t \<Rightarrow> uint64_t \<Rightarrow> bool \<times> lexint_t" where
  "lexint_accum i digit base =
     (let v2 = lexint_mul64 i base;
          v3 = lexint_div64 v2 base
      in if lexint_cmp v3 i \<noteq> 0 then (False, i)
      else let v2' = lexint_add64 v2 digit
      in if lexint_cmp v2' i < 0 then (False, i)
      else (True, v2'))"

definition clz_step :: "nat \<Rightarrow> nat \<Rightarrow> nat \<times> uint64_t \<Rightarrow> nat \<times> uint64_t" where
  "clz_step s k cn =
     (if drop_bit s (snd cn) = 0 then (fst cn + k, push_bit k (snd cn)) else cn)"

definition count_leading_zeros :: "uint64_t \<Rightarrow> nat" where
  "count_leading_zeros n =
     (if n = 0 then 64
      else fst (clz_step 63 1 (clz_step 62 2 (clz_step 60 4 (clz_step 56 8
             (clz_step 48 16 (clz_step 32 32 (0, n))))))))"

text \<open>The bits of the IEEE double that \<^verbatim>\<open>lexint_double\<close> returns.\<close>

definition lexint_double :: "lexint_t \<Rightarrow> uint64_t" where
  "lexint_double i =
     (if low i = 0 \<and> high i = 0 then 0
      else
        let sig_bit_count =
              (if high i = 0 then 64 - count_leading_zeros (low i)
               else 128 - count_leading_zeros (high i));
            exponent = of_nat sig_bit_count - 1;
            (exponent, mantissa) =
              (if sig_bit_count \<le> 53 then (exponent, push_bit (53 - sig_bit_count) (low i))
               else
                 let m = (if sig_bit_count = 54 then push_bit 1 (low i)
                          else if sig_bit_count > 55 then
                            let t = lexint_shr i (of_nat (sig_bit_count - 55));
                                t' = lexint_shl t (of_nat (sig_bit_count - 55))
                            in if lexint_cmp t' i \<noteq> 0 then low t OR 1 else low t
                          else low i);
                     m = (if m AND 4 \<noteq> 0 then m OR 1 else m);
                     m = drop_bit 2 (m + 1)
                 in if m AND push_bit 53 1 \<noteq> 0 then (exponent + 1, drop_bit 1 m)
                    else (exponent, m))
        in push_bit 52 (exponent + 1023) OR (mantissa AND 0xFFFFFFFFFFFFF))"

definition lexint_and :: "lexint_t \<Rightarrow> lexint_t \<Rightarrow> lexint_t" where
  "lexint_and a b = a\<lparr>high := high a AND high b, low := low a AND low b\<rparr>"

definition lexint_and64 :: "lexint_t \<Rightarrow> uint64_t \<Rightarrow> lexint_t" where
  "lexint_and64 a b = a\<lparr>high := 0, low := low a AND b\<rparr>"

definition lexint_or :: "lexint_t \<Rightarrow> lexint_t \<Rightarrow> lexint_t" where
  "lexint_or a b = a\<lparr>high := high a OR high b, low := low a OR low b\<rparr>"

definition lexint_or64 :: "lexint_t \<Rightarrow> uint64_t \<Rightarrow> lexint_t" where
  "lexint_or64 a b = a\<lparr>high := high a, low := low a OR b\<rparr>"

definition lexint_xor :: "lexint_t \<Rightarrow> lexint_t \<Rightarrow> lexint_t" where
  "lexint_xor a b = a\<lparr>high := high a XOR high b, low := low a XOR low b\<rparr>"

definition lexint_xor64 :: "lexint_t \<Rightarrow> uint64_t \<Rightarrow> lexint_t" where
  "lexint_xor64 a b = a\<lparr>high := high a, low := low a XOR b\<rparr>"

definition lexint_not :: "lexint_t \<Rightarrow> lexint_t" where
  "lexint_not src = src\<lparr>high := NOT (high src), low := NOT (low src)\<rparr>"

section \<open>The value of a pair\<close>

definition lexval :: "lexint_t \<Rightarrow> nat" where
  "lexval a = unat (high a) * 2 ^ 64 + unat (low a)"

lemma lexval_bound: "lexval a < 2 ^ 128"
proof -
  have "unat (high a) + 1 \<le> 2 ^ 64" "unat (low a) < 2 ^ 64"
    using unat_u64_bound [of "high a"] unat_u64_bound [of "low a"] by linarith+
  then have "lexval a < (unat (high a) + 1) * 2 ^ 64" by (simp add: lexval_def)
  also have "\<dots> \<le> 2 ^ 64 * 2 ^ 64"
    using \<open>unat (high a) + 1 \<le> 2 ^ 64\<close> by (rule mult_le_mono1)
  finally show ?thesis by simp
qed

lemma pair_value:
  assumes "x = q * 2 ^ 64 + l" "(l :: nat) < 2 ^ 64" "unat (high a) = q mod 2 ^ 64" "unat (low a) = l"
  shows "lexval a = x mod 2 ^ 128"
proof -
  have "x mod (2 ^ 64 * 2 ^ 64) = 2 ^ 64 * (x div 2 ^ 64 mod 2 ^ 64) + x mod 2 ^ 64"
    by (rule mod_mult2_eq)
  moreover have "x div 2 ^ 64 = q" "x mod 2 ^ 64 = l"
    using assms(1,2) by (simp_all add: div_mult_self3)
  ultimately show ?thesis using assms(3,4) by (simp add: lexval_def)
qed

lemma nat_carry:
  assumes "x < M" "y < (M :: nat)"
  shows "(x + y) mod M < x \<longleftrightarrow> M \<le> x + y"
    and "(x + y) div M = (if M \<le> x + y then 1 else 0)"
proof -
  have "M \<le> x + y \<Longrightarrow> (x + y) mod M = x + y - M \<and> (x + y) div M = 1"
    using assms by (simp add: le_mod_geq le_div_geq)
  with assms show "(x + y) mod M < x \<longleftrightarrow> M \<le> x + y"
    and "(x + y) div M = (if M \<le> x + y then 1 else 0)"
    by (cases "M \<le> x + y"; simp)+
qed

lemma carry_u64: "(a :: uint64_t) + b < a \<longleftrightarrow> 2 ^ 64 \<le> unat a + unat b"
  using nat_carry(1) [OF unat_u64_bound unat_u64_bound, of a b]
  by (simp add: word_less_nat_alt unat_word_ariths)

lemma borrow_u64: "(a :: uint64_t) - b > a \<longleftrightarrow> unat a < unat b"
  using unat_u64_less [of b]
  by (auto simp: word_less_nat_alt unat_sub_if')

lemma lexint_add_value [lexint_abs]:
  "lexval (lexint_add a b) = (lexval a + lexval b) mod 2 ^ 128"
proof (rule pair_value)
  let ?s = "unat (low a) + unat (low b)"
  show "lexval a + lexval b =
    (unat (high a) + unat (high b) + ?s div 2 ^ 64) * 2 ^ 64 + ?s mod 2 ^ 64"
    by (simp add: lexval_def algebra_simps)
  have c: "?s div 2 ^ 64 = (if low a + low b < low a then 1 else 0)"
    using nat_carry(2) [OF unat_u64_bound unat_u64_bound, of "low a" "low b"]
    by (simp add: carry_u64)
  show "unat (high (lexint_add a b)) =
    (unat (high a) + unat (high b) + ?s div 2 ^ 64) mod 2 ^ 64"
    unfolding c by (simp add: lexint_add_def unat_word_ariths mod_simps)
qed (simp_all add: lexint_add_def unat_word_ariths)

lemma lexint_add64_value [lexint_abs]:
  "lexval (lexint_add64 a b) = (lexval a + unat b) mod 2 ^ 128"
proof -
  have "lexint_add64 a b = lexint_add a \<lparr>low = b, high = 0\<rparr>"
    by (simp add: lexint_add64_def lexint_add_def)
  then show ?thesis by (simp add: lexint_add_value) (simp add: lexval_def)
qed

lemma lexint_eq_iff: "a = b \<longleftrightarrow> lexval a = lexval b"
proof
  assume "lexval a = lexval b"
  then have "lexval a div 2 ^ 64 = lexval b div 2 ^ 64" "lexval a mod 2 ^ 64 = lexval b mod 2 ^ 64"
    by simp_all
  then have "unat (high a) = unat (high b)" "unat (low a) = unat (low b)"
    by (simp_all add: lexval_def unat_u64_less)
  then show "a = b" by (cases a; cases b) (simp add: word_unat_eq_iff)
qed simp

lemma lexint_sub_add: "lexint_add (lexint_sub a b) b = a"
proof -
  have "low a - low b + low b < low a - low b \<longleftrightarrow> low a - low b > low a" by simp
  then show ?thesis by (simp add: lexint_sub_def lexint_add_def)
qed

lemma lexint_sub_value [lexint_abs]:
  "lexval (lexint_sub a b) = (lexval a + 2 ^ 128 - lexval b) mod 2 ^ 128"
proof -
  let ?x = "lexval (lexint_sub a b)"
  have "(?x + lexval b) mod 2 ^ 128 = lexval a"
    using lexint_add_value [of "lexint_sub a b" b] by (simp add: lexint_sub_add)
  moreover have "?x < 2 ^ 128" "lexval b < 2 ^ 128" by (rule lexval_bound)+
  ultimately show ?thesis using nat_carry(2) [of ?x "2 ^ 128" "lexval b"]
    by (cases "2 ^ 128 \<le> ?x + lexval b") (auto simp: le_mod_geq)
qed

lemma lexint_sub64_value:
  assumes "unat b \<le> lexval a"
  shows "lexval (lexint_sub64 a b) = lexval a - unat b"
proof -
  have "lexint_sub64 a b = lexint_sub a \<lparr>low = b, high = 0\<rparr>"
    by (simp add: lexint_sub64_def lexint_sub_def)
  moreover have "lexval \<lparr>low = b, high = 0\<rparr> = unat b" by (simp add: lexval_def)
  ultimately show ?thesis
    using assms lexval_bound [of a] by (simp add: lexint_sub_value le_mod_geq)
qed

lemma word_cmp_nat: "a < b \<longleftrightarrow> unat a < unat (b :: uint64_t)"
  by (simp add: word_less_nat_alt)

lemma lexval_less_iff:
  "lexval a < lexval b \<longleftrightarrow> high a < high b \<or> high a = high b \<and> low a < low b"
proof -
  have "unat (low a) < 2 ^ 64" "unat (low b) < 2 ^ 64" by (rule unat_u64_bound)+
  then have "high a < high b \<Longrightarrow> lexval a < lexval b" for a b
  proof -
    assume "high a < high b"
    then have "(unat (high a) + 1) * 2 ^ 64 \<le> unat (high b) * 2 ^ 64"
      by (intro mult_le_mono1) (simp add: word_cmp_nat)
    then show "lexval a < lexval b"
      using unat_u64_less [of "low a"] by (simp add: lexval_def algebra_simps)
  qed
  then show ?thesis
    by (cases "high a" "high b" rule: linorder_cases) (auto simp: lexval_def word_cmp_nat dest: order.asym)
qed

lemma lexint_cmp_value:
  "lexint_cmp a b = (if lexval a > lexval b then 1 else if lexval a < lexval b then -1 else 0)"
  by (auto simp: lexint_cmp_def lexval_less_iff)

lemma lexint_cmp64_value:
  "lexint_cmp64 a b = (if lexval a > unat b then 1 else if lexval a < unat b then -1 else 0)"
proof -
  have "lexint_cmp64 a b = lexint_cmp a \<lparr>low = b, high = 0\<rparr>"
    by (auto simp: lexint_cmp64_def lexint_cmp_def)
  then show ?thesis by (simp add: lexint_cmp_value) (simp add: lexval_def)
qed

lemma pow_split: "k \<le> n \<Longrightarrow> (2 :: nat) ^ n = 2 ^ k * 2 ^ (n - k)"
  by (simp flip: power_add)

lemma pow_split': "k \<le> n \<Longrightarrow> (2 :: nat) ^ n = 2 ^ (n - k) * 2 ^ k"
  by (simp flip: power_add)

lemma div_pow_split:
  assumes nk: "n \<le> k"
  shows "(l :: nat) * 2 ^ n = (l div 2 ^ (k - n)) * 2 ^ k + l * 2 ^ n mod 2 ^ k"
proof -
  have k: "(2 :: nat) ^ k = 2 ^ (k - n) * 2 ^ n" using assms(1) by (rule pow_split')
  have "l * 2 ^ n mod 2 ^ k = (l mod 2 ^ (k - n)) * 2 ^ n"
    unfolding k by (rule mod_mult_mult2)
  then have "(l div 2 ^ (k - n)) * 2 ^ k + l * 2 ^ n mod 2 ^ k =
      (l div 2 ^ (k - n) * 2 ^ (k - n) + l mod 2 ^ (k - n)) * 2 ^ n"
    by (simp only: k distrib_right mult.assoc)
  then show ?thesis by (simp only: div_mult_mod_eq)
qed

lemma add_high_part:
  assumes "n \<le> k" "(l :: nat) < 2 ^ k"
  shows "(h * 2 ^ n + l div 2 ^ (k - n)) mod 2 ^ k = h * 2 ^ n mod 2 ^ k + l div 2 ^ (k - n)"
proof -
  have k: "(2 :: nat) ^ k = 2 ^ (k - n) * 2 ^ n" using assms(1) by (rule pow_split')
  have q: "l div 2 ^ (k - n) < 2 ^ n"
    using assms(2) by (simp add: k less_mult_imp_div_less mult.commute)
  have "h * 2 ^ n mod 2 ^ k = (h mod 2 ^ (k - n)) * 2 ^ n"
    unfolding k by (rule mod_mult_mult2)
  also have "\<dots> + l div 2 ^ (k - n) < 2 ^ k"
  proof -
    have "(h mod 2 ^ (k - n) + 1) * 2 ^ n \<le> 2 ^ (k - n) * 2 ^ n"
      by (intro mult_le_mono1) (simp add: Suc_leI)
    with q show ?thesis by (simp add: k algebra_simps)
  qed
  finally show ?thesis
    by (metis mod_add_left_eq mod_less)
qed

lemma lexint_shl_value [lexint_abs]:
  "lexval (lexint_shl a b) = (lexval a * 2 ^ unat b) mod 2 ^ 128"
proof -
  let ?n = "unat b"
  consider "?n \<ge> 128" | "?n < 128" "?n > 64" | "?n = 64" | "?n < 64" "?n > 0" | "?n = 0"
    by linarith
  then show ?thesis
  proof cases
    case 1
    then have "(2 :: nat) ^ ?n = 2 ^ 128 * 2 ^ (?n - 128)" by (rule pow_split)
    with 1 show ?thesis by (simp add: lexint_shl_def lexval_def word_le_nat_alt)
  next
    case 2
    then have u: "unat (b - 64) = ?n - 64" by (simp add: unat_sub word_le_nat_alt)
    have e: "(2 :: nat) ^ ?n = 2 ^ (?n - 64) * 2 ^ 64" using 2 by (intro pow_split') simp
    let ?q = "unat (high a) * 2 ^ (?n - 64) * 2 ^ 64 + unat (low a) * 2 ^ (?n - 64)"
    have sh: "lexint_shl a b = \<lparr>low = 0, high = push_bit (?n - 64) (low a)\<rparr>"
      using 2 u by (simp add: lexint_shl_def word_le_nat_alt word_less_nat_alt)
    show ?thesis
    proof (rule pair_value)
      show "lexval a * 2 ^ ?n = ?q * 2 ^ 64 + 0"
        unfolding lexval_def e by (simp only: distrib_right distrib_left mult.assoc mult.commute mult.left_commute add_0_right)
      show "unat (high (lexint_shl a b)) = ?q mod 2 ^ 64"
        unfolding sh by (simp only: lexint_t.select_convs unat_push_bit_u64 mod_mult_self3)
    qed (simp_all add: sh)
  next
    case 3
    then have "b = 64" by (simp add: word_unat_eq_iff)
    then show ?thesis
      by (intro pair_value [where q = "unat (high a) * 2 ^ 64 + unat (low a)" and l = 0])
        (simp_all add: lexint_shl_def lexval_def unat_u64_less)
  next
    case 4
    have u: "unat (64 - b) = 64 - ?n" using 4 by (simp add: unat_sub word_le_nat_alt)
    let ?q = "unat (high a) * 2 ^ ?n + unat (low a) div 2 ^ (64 - ?n)"
    let ?l = "unat (low a) * 2 ^ ?n mod 2 ^ 64"
    have sh: "lexint_shl a b = \<lparr>low = push_bit ?n (low a),
        high = push_bit ?n (high a) + drop_bit (64 - ?n) (low a)\<rparr>"
      using 4 u by (simp add: lexint_shl_def word_le_nat_alt word_less_nat_alt word_unat_eq_iff)
    show ?thesis
    proof (rule pair_value)
      show "lexval a * 2 ^ ?n = ?q * 2 ^ 64 + ?l"
        using div_pow_split [of ?n 64 "unat (low a)"] 4 by (simp add: lexval_def algebra_simps)
      show "unat (high (lexint_shl a b)) = ?q mod 2 ^ 64"
        by (simp add: sh unat_word_ariths unat_push_bit_u64 unat_drop_bit_u64 mod_simps)
    qed (simp_all add: sh unat_push_bit_u64)
  next
    case 5
    then have "b = 0" by (simp add: unat_eq_0)
    with lexval_bound [of a] show ?thesis by (simp add: lexint_shl_def lexval_def)
  qed
qed

lemma lexint_shr_value [lexint_abs]: "lexval (lexint_shr a b) = lexval a div 2 ^ unat b"
proof -
  let ?n = "unat b"
  consider "?n \<ge> 128" | "?n < 128" "?n > 64" | "?n = 64" | "?n < 64" "?n > 0" | "?n = 0"
    by linarith
  then show ?thesis
  proof cases
    case 1
    then have "lexval a < 2 ^ ?n"
      using lexval_bound [of a] power_increasing [of 128 ?n "2 :: nat"] by linarith
    with 1 show ?thesis by (simp add: lexint_shr_def lexval_def word_le_nat_alt)
  next
    case 2
    then have u: "unat (b - 64) = ?n - 64" by (simp add: unat_sub word_le_nat_alt)
    have "(2 :: nat) ^ ?n = 2 ^ 64 * 2 ^ (?n - 64)" using 2 by (intro pow_split) simp
    then have "lexval a div 2 ^ ?n = unat (high a) div 2 ^ (?n - 64)"
      by (simp add: div_mult2_eq lexval_def unat_u64_less)
    with 2 u show ?thesis
      by (simp add: lexint_shr_def lexval_def word_le_nat_alt word_less_nat_alt unat_drop_bit_u64)
  next
    case 3
    then have "b = 64" by (simp add: word_unat_eq_iff)
    then show ?thesis by (simp add: lexint_shr_def lexval_def unat_u64_less)
  next
    case 4
    have u: "unat (64 - b) = 64 - ?n" using 4 by (simp add: unat_sub word_le_nat_alt)
    let ?h = "unat (high a)" and ?l = "unat (low a)"
    have sh: "lexint_shr a b = \<lparr>low = push_bit (64 - ?n) (high a) + drop_bit ?n (low a),
        high = drop_bit ?n (high a)\<rparr>"
      using 4 u by (simp add: lexint_shr_def word_le_nat_alt word_less_nat_alt word_unat_eq_iff)
    have lo: "unat (push_bit (64 - ?n) (high a) + drop_bit ?n (low a)) =
        ?h * 2 ^ (64 - ?n) mod 2 ^ 64 + ?l div 2 ^ ?n"
      using add_high_part [of "64 - ?n" 64 ?l ?h] 4 unat_u64_bound [of "low a"]
      by (simp add: unat_word_ariths unat_push_bit_u64 unat_drop_bit_u64 mod_simps)
    have e: "(2 :: nat) ^ 64 = 2 ^ (64 - ?n) * 2 ^ ?n" using 4 by (intro pow_split') simp
    have "lexval a = (?h * 2 ^ (64 - ?n)) * 2 ^ ?n + ?l"
      unfolding lexval_def e by (simp only: mult.assoc)
    then have "lexval a div 2 ^ ?n = ?h * 2 ^ (64 - ?n) + ?l div 2 ^ ?n"
      by simp
    also have "\<dots> = ?h div 2 ^ ?n * 2 ^ 64 + ?h * 2 ^ (64 - ?n) mod 2 ^ 64 + ?l div 2 ^ ?n"
      using div_pow_split [of "64 - ?n" 64 ?h] 4 by simp
    finally show ?thesis
      by (simp add: sh lo lexval_def unat_drop_bit_u64)
  next
    case 5
    then have "b = 0" by (simp add: unat_eq_0)
    then show ?thesis by (simp add: lexint_shr_def lexval_def)
  qed
qed

section \<open>Multiplication and division\<close>

lemma lexval_zero [simp]: "lexval lexint_zero = 0"
  by (simp add: lexval_def lexint_zero_def)

lemma unat_and_one: "unat ((b :: uint64_t) AND 1) = unat b mod 2"
  by (simp add: and_one_eq unat_mod)

lemma and_one_nonzero: "(b :: uint64_t) AND 1 \<noteq> 0 \<longleftrightarrow> unat b mod 2 = 1"
  using unat_and_one [of b] by (auto simp: word_unat_eq_iff)

lemma mod_linear: "(x + (y mod M) * z) mod M = (x mod M + y * z) mod (M :: nat)"
  by (metis mod_add_left_eq mod_add_right_eq mod_mult_left_eq)

lemma lexint_mul64_loop_value:
  "lexval (lexint_mul64_loop ret t b) = (lexval ret + lexval t * unat b) mod 2 ^ 128"
proof (induction ret t b rule: lexint_mul64_loop.induct)
  case (1 ret t b)
  show ?case
  proof (cases "b > 0")
    case True
    let ?r = "if b AND 1 \<noteq> 0 then lexint_add ret t else ret"
    have half: "unat (drop_bit (Suc 0) b) = unat b div 2" by (simp add: unat_drop_bit_u64)
    have dbl: "lexval (lexint_shl t 1) = lexval t * 2 mod 2 ^ 128" by (simp add: lexint_shl_value)
    have r: "lexval ?r mod 2 ^ 128 = (lexval ret + lexval t * (unat b mod 2)) mod 2 ^ 128"
      using and_one_nonzero [of b] by (auto simp: lexint_add_value)
    have "lexval (lexint_mul64_loop ret t b) =
        (lexval ?r + lexval (lexint_shl t 1) * (unat b div 2)) mod 2 ^ 128"
      using "1.IH" [OF True] True by (simp add: lexint_mul64_loop.simps [of ret t b] half)
    also have "\<dots> = (lexval ?r mod 2 ^ 128 + lexval t * 2 * (unat b div 2)) mod 2 ^ 128"
      by (simp only: dbl mod_linear)
    also have "\<dots> = (lexval ret + lexval t * (2 * (unat b div 2) + unat b mod 2)) mod 2 ^ 128"
      by (simp only: r mod_add_left_eq) (simp only: distrib_left mult.assoc ac_simps)
    finally show ?thesis by (simp only: mult_div_mod_eq)
  next
    case False
    then have "b = 0" using word_neq_0_conv by blast
    then show ?thesis
      using lexval_bound [of ret] by (simp add: lexint_mul64_loop.simps [of ret t 0])
  qed
qed

lemma lexint_mul64_value [lexint_abs]:
  "lexval (lexint_mul64 a b) = (lexval a * unat b) mod 2 ^ 128"
  by (simp add: lexint_mul64_def lexint_mul64_loop_value)

lemma odd_div_pow:
  "odd ((h * 2 ^ 64 + l) div 2 ^ n) \<longleftrightarrow>
     (if n < 64 then odd ((l :: nat) div 2 ^ n) else odd ((h + l div 2 ^ 64) div 2 ^ (n - 64)))"
proof (cases "n < 64")
  case True
  then have e: "(2 :: nat) ^ 64 = 2 ^ (64 - n) * 2 ^ n" by (intro pow_split') simp
  have "(h * 2 ^ 64 + l) div 2 ^ n = h * 2 ^ (64 - n) + l div 2 ^ n"
    unfolding e by (simp flip: mult.assoc)
  with True show ?thesis by simp
next
  case False
  then have e: "(2 :: nat) ^ n = 2 ^ 64 * 2 ^ (n - 64)" by (intro pow_split) simp
  show ?thesis using False unfolding e by (simp add: div_mult2_eq)
qed

lemma odd_unat_div: "odd (unat (w :: uint64_t) div 2 ^ n) \<longleftrightarrow> bit w n"
proof -
  have "odd (unat w div 2 ^ n) \<longleftrightarrow> bit (unat w) n" by (simp add: bit_iff_odd)
  then show ?thesis by (simp add: bit_unsigned_iff)
qed

lemma bit_lexval:
  "bit (lexval a) n \<longleftrightarrow> (if n < 64 then bit (low a) n else bit (high a) (n - 64))"
proof -
  have "bit (lexval a) n \<longleftrightarrow> odd (lexval a div 2 ^ n)" by (simp add: bit_iff_odd)
  then show ?thesis
    unfolding lexval_def odd_div_pow by (simp add: unat_u64_less odd_unat_div)
qed

lemma unat_or_bit:
  assumes "n < 64" "\<not> bit (w :: uint64_t) n"
  shows "unat (w OR 2 ^ n) = unat w + 2 ^ n"
proof -
  have "unat (w OR 2 ^ n) = set_bit n (unat w)"
    using assms by (simp add: unsigned_or_eq unat_exp_u64 set_bit_eq_or)
  with assms show ?thesis by (simp add: set_bit_eq bit_unsigned_iff)
qed

lemma uint8_ge_64: "(64 :: uint8_t) \<le> b \<longleftrightarrow> 64 \<le> unat b"
  by (simp add: word_le_nat_alt)

lemma uint8_top: "\<not> i < (255 :: uint8_t) \<Longrightarrow> i = 255"
  using unsigned_less [of i, where 'a = nat] by (simp add: word_less_nat_alt word_unat_eq_iff)

lemma lexint_setbit_value:
  assumes "unat b < 128" "\<not> bit (lexval a) (unat b)"
  shows "lexval (lexint_setbit a b) = lexval a + 2 ^ unat b"
proof (cases "unat b < 64")
  case True
  with assms have "\<not> bit (low a) (unat b)" by (simp add: bit_lexval)
  with True show ?thesis
    by (simp add: lexint_setbit_def uint8_ge_64 unat_or_bit lexval_def)
next
  case False
  then have u: "unat (b - 64) = unat b - 64" by (simp add: unat_sub word_le_nat_alt)
  have e: "(2 :: nat) ^ unat b = 2 ^ (unat b - 64) * 2 ^ 64"
    using False by (intro pow_split') simp
  from False assms have "\<not> bit (high a) (unat b - 64)" by (simp add: bit_lexval)
  with False assms(1) u show ?thesis
    unfolding e by (simp add: lexint_setbit_def uint8_ge_64 unat_or_bit lexval_def algebra_simps)
qed

lemma shift_in_bit:
  assumes "lexval r < 2 ^ 64"
  shows "lexval ((lexint_shl r 1)\<lparr>low := low (lexint_shl r 1) OR (w AND 1)\<rparr>) =
    2 * lexval r + unat w mod 2"
proof -
  let ?s = "lexint_shl r 1"
  have v: "lexval ?s = 2 * lexval r"
    using assms by (simp add: lexint_shl_value)
  have "even (lexval ?s)" by (simp add: v)
  then have "even (unat (low ?s))" by (simp add: lexval_def)
  then have "\<not> bit (low ?s) 0" using odd_unat_div [of "low ?s" 0] by simp
  then have "unat (low ?s OR (w AND 1)) = unat (low ?s) + unat w mod 2"
    using unat_or_bit [of 0 "low ?s"] unat_and_one [of w]
    by (cases "w AND 1 = 0") (auto simp: and_one_eq)
  then show ?thesis using v by (simp add: lexval_def)
qed

lemma div_pow_Suc: "(V :: nat) div 2 ^ k = 2 * (V div 2 ^ Suc k) + V div 2 ^ k mod 2"
  by (metis div_mult2_eq mult_div_mod_eq power_Suc2)

lemma lexval_mod_2: "unat (low a) mod 2 = lexval a mod 2"
  by (simp add: lexval_def mod2_eq_if)

lemma long_division_step:
  assumes B: "0 < (B :: nat)" and W: "W = 2 * q + d" and r2: "r2 = 2 * (q mod B) + d" and d: "d < 2"
  shows "B \<le> r2 \<Longrightarrow> r2 - B = W mod B"
    and "B \<le> r2 \<Longrightarrow> q div B * 2 ^ Suc k + 2 ^ k = W div B * 2 ^ k"
    and "\<not> B \<le> r2 \<Longrightarrow> r2 = W mod B"
    and "\<not> B \<le> r2 \<Longrightarrow> q div B * 2 ^ Suc k = W div B * 2 ^ k"
proof -
  have W': "W = r2 + 2 * (q div B) * B"
  proof -
    have "2 * q = 2 * (q mod B) + 2 * (q div B) * B"
      using mult_div_mod_eq [of B q] by (metis add.commute distrib_left mult.assoc mult.commute)
    then show ?thesis unfolding W r2 by simp
  qed
  have lt: "q mod B < B" using B by simp
  have ge: "W div B = 2 * (q div B) + 1 \<and> W mod B = r2 - B" if "B \<le> r2"
  proof -
    have s: "r2 - B < B" using lt d by (simp add: r2)
    have "W = (r2 - B) + (2 * (q div B) + 1) * B" using W' that by simp
    then show ?thesis using B s by (simp only: div_mult_self1 mod_mult_self1) simp
  qed
  have less: "W div B = 2 * (q div B) \<and> W mod B = r2" if "\<not> B \<le> r2"
    using that unfolding W' by simp
  show "B \<le> r2 \<Longrightarrow> r2 - B = W mod B"
    and "B \<le> r2 \<Longrightarrow> q div B * 2 ^ Suc k + 2 ^ k = W div B * 2 ^ k"
    and "\<not> B \<le> r2 \<Longrightarrow> r2 = W mod B"
    and "\<not> B \<le> r2 \<Longrightarrow> q div B * 2 ^ Suc k = W div B * 2 ^ k"
    using ge less by (simp_all add: algebra_simps)
qed

lemma lexint_div64_loop_value:
  assumes "b \<noteq> 0"
    and "lexval r = lexval orig div 2 ^ unat (i + 1) mod unat b"
    and "lexval ret = lexval orig div 2 ^ unat (i + 1) div unat b * 2 ^ unat (i + 1)"
    and "i < 128 \<or> i = 255"
  shows "lexval (lexint_div64_loop orig b i r ret) = lexval orig div unat b"
  using assms
proof (induction orig b i r ret rule: lexint_div64_loop.induct)
  case (1 orig b i r ret)
  show ?case
  proof (cases "i < 255")
    case False
    then have "i = 255" by (rule uint8_top)
    then have "unat (i + 1) = 0" by simp
    with "1.prems"(3) False show ?thesis by (simp add: lexint_div64_loop.simps [of orig b i r ret])
  next
    case True
    let ?V = "lexval orig" and ?B = "unat b" and ?k = "unat i"
    have i: "unat i < 128" "unat (i + 1) = Suc ?k" "i - 1 + 1 = i"
      using True "1.prems"(4) by (auto simp: word_less_nat_alt unat_word_ariths)
    have i': "i - 1 < 128 \<or> i - 1 = 255"
      using i(1) by (cases "i = 0") (auto simp: word_less_nat_alt unat_sub_if' Suc_le_eq unat_gt_0)
    let ?q = "?V div 2 ^ Suc ?k"
    let ?r2 = "(lexint_shl r 1)\<lparr>low := low (lexint_shl r 1) OR
        (low (lexint_shr orig (ucast i)) AND 1)\<rparr>"
    have B: "0 < ?B" "?B < 2 ^ 64" using "1.prems"(1) by (simp_all add: unat_gt_0 unat_u64_less)
    have r: "lexval r = ?q mod ?B" and ret: "lexval ret = ?q div ?B * 2 ^ Suc ?k"
      using "1.prems"(2,3) i(2) by simp_all
    have rB: "lexval r < ?B" using B(1) by (simp add: r)
    have bitk: "unat (low (lexint_shr orig (ucast i))) mod 2 = ?V div 2 ^ ?k mod 2"
    proof -
      have "lexval (lexint_shr orig (ucast i)) = ?V div 2 ^ ?k"
        using i(1) by (simp add: lexint_shr_value unsigned_ucast_eq take_bit_nat_eq_self)
      then show ?thesis by (metis lexval_mod_2)
    qed
    have r2: "lexval ?r2 = 2 * (?q mod ?B) + ?V div 2 ^ ?k mod 2"
      using shift_in_bit [of r "low (lexint_shr orig (ucast i))"] rB B(2) r bitk by simp
    have Vk: "?V div 2 ^ ?k = 2 * ?q + ?V div 2 ^ ?k mod 2" by (rule div_pow_Suc)
    have d: "?V div 2 ^ ?k mod 2 < 2" by simp
    note step = long_division_step [OF B(1) Vk r2 d]
    show ?thesis
    proof (cases "?B \<le> lexval ?r2")
      case ge: True
      have c: "0 \<le> lexint_cmp64 ?r2 b" using ge by (simp add: lexint_cmp64_value)
      have clear: "\<not> bit (lexval ret) ?k" by (simp add: ret bit_iff_odd mult.commute [of _ "2 ^ _"])
      have "lexval (lexint_div64_loop orig b (i - 1) (lexint_sub64 ?r2 b) (lexint_setbit ret i)) =
          ?V div ?B"
      proof (rule "1.IH"(1) [OF True refl refl refl c "1.prems"(1) _ _ i'])
        show "lexval (lexint_sub64 ?r2 b) = ?V div 2 ^ unat (i - 1 + 1) mod ?B"
          using step(1) ge by (simp add: i(3) lexint_sub64_value)
        show "lexval (lexint_setbit ret i) = ?V div 2 ^ unat (i - 1 + 1) div ?B * 2 ^ unat (i - 1 + 1)"
          unfolding i(3) lexint_setbit_value [OF i(1) clear] ret by (rule step(2) [OF ge])
      qed
      with True c show ?thesis by (simp add: lexint_div64_loop.simps [of orig b i r ret] Let_def)
    next
      case lt: False
      then have c: "\<not> 0 \<le> lexint_cmp64 ?r2 b" by (simp add: lexint_cmp64_value)
      have "lexval (lexint_div64_loop orig b (i - 1) ?r2 ret) = ?V div ?B"
      proof (rule "1.IH"(2) [OF True refl refl refl c "1.prems"(1) _ _ i'])
        show "lexval ?r2 = ?V div 2 ^ unat (i - 1 + 1) mod ?B"
          using step(3) lt by (simp add: i(3))
        show "lexval ret = ?V div 2 ^ unat (i - 1 + 1) div ?B * 2 ^ unat (i - 1 + 1)"
          using step(4) lt by (simp add: i(3) ret)
      qed
      with True c show ?thesis by (simp add: lexint_div64_loop.simps [of orig b i r ret] Let_def)
    qed
  qed
qed

lemma lexint_div64_value [lexint_abs]:
  "lexval (lexint_div64 a b) = (if b = 0 then 0 else lexval a div unat b)"
proof -
  have "lexval (lexint_div64_loop a b 127 lexint_zero lexint_zero) = lexval a div unat b" if "b \<noteq> 0"
    using that lexval_bound [of a] by (intro lexint_div64_loop_value) simp_all
  then show ?thesis by (simp add: lexint_div64_def)
qed

lemma no_overflow_iff:
  fixes v base :: nat
  assumes "0 < base" "base < 2 ^ 64" "v < 2 ^ 128"
  shows "v * base mod 2 ^ 128 div base = v \<longleftrightarrow> v * base < 2 ^ 128"
proof
  assume eq: "v * base mod 2 ^ 128 div base = v"
  show "v * base < 2 ^ 128"
  proof (rule ccontr)
    assume "\<not> v * base < 2 ^ 128"
    then have q: "1 \<le> v * base div 2 ^ 128" by (simp add: Suc_le_eq div_greater_zero_iff)
    have "v * base = v * base div 2 ^ 128 * 2 ^ 128 + v * base mod 2 ^ 128" by simp
    then have "v * base mod 2 ^ 128 + 2 ^ 128 \<le> v * base"
      using mult_le_mono1 [OF q, of "2 ^ 128"] by linarith
    then have "v * base mod 2 ^ 128 + base < v * base" using assms(2) by simp
    then have "v * base mod 2 ^ 128 < (v - 1) * base" by (simp add: algebra_simps)
    then have "v * base mod 2 ^ 128 div base < v - 1" by (simp add: div_less_iff_less_mult assms(1))
    with eq show False by simp
  qed
qed (use assms(1) in simp)

lemma lexint_accum_value:
  assumes "0 < base" "base \<le> 2 ^ 63"
  shows "if lexval i * unat base + unat digit < 2 ^ 128
    then fst (lexint_accum i digit base) \<and>
      lexval (snd (lexint_accum i digit base)) = lexval i * unat base + unat digit
    else lexint_accum i digit base = (False, i)"
proof -
  let ?v = "lexval i" and ?b = "unat base" and ?d = "unat digit"
  have b: "0 < ?b" "?b \<le> 2 ^ 63"
    using assms by (simp_all add: unat_gt_0 word_le_nat_alt)
  then have b64: "?b < 2 ^ 64" by simp
  have d: "?d < 2 ^ 64" by (rule unat_u64_bound)
  have nz: "base \<noteq> 0" using assms(1) by auto
  have v2: "lexval (lexint_mul64 i base) = ?v * ?b mod 2 ^ 128" by (rule lexint_mul64_value)
  have chk: "lexint_cmp (lexint_div64 (lexint_mul64 i base) base) i = 0 \<longleftrightarrow> ?v * ?b < 2 ^ 128"
    using no_overflow_iff [OF b(1) b64 lexval_bound, of i] nz
    by (simp add: lexint_cmp_value lexint_div64_value v2) linarith
  show ?thesis
  proof (cases "?v * ?b < 2 ^ 128")
    case False
    then show ?thesis using chk by (simp add: lexint_accum_def Let_def)
  next
    case True
    let ?w = "lexint_add64 (lexint_mul64 i base) digit"
    have w: "lexval ?w = (?v * ?b + ?d) mod 2 ^ 128"
      using True by (simp add: lexint_add64_value v2)
    have "lexint_cmp ?w i < 0 \<longleftrightarrow> \<not> ?v * ?b + ?d < 2 ^ 128"
    proof (cases "?v * ?b + ?d < 2 ^ 128")
      case True
      have "?v * 1 \<le> ?v * ?b" using b(1) by (intro mult_le_mono2) linarith
      then have "\<not> ?v * ?b + ?d < ?v" by linarith
      with True show ?thesis by (simp add: lexint_cmp_value w)
    next
      case False
      then have "lexval ?w = ?v * ?b + ?d - 2 ^ 128"
        using True d by (simp add: w le_mod_geq)
      then have small: "lexval ?w < 2 ^ 64" using True d by simp
      have "2 ^ 64 * 2 ^ 63 \<le> ?v * ?b" using False d by simp
      also have "\<dots> \<le> ?v * 2 ^ 63" using b(2) by simp
      finally have "2 ^ 64 \<le> ?v" by simp
      with small False show ?thesis by (simp add: lexint_cmp_value)
    qed
    with chk True w show ?thesis by (auto simp: lexint_accum_def Let_def)
  qed
qed

section \<open>Bitwise operations and leading zeros\<close>

lemma lexint_and_value [lexint_abs]: "lexval (lexint_and a b) = lexval a AND lexval b"
  by (rule bit_eqI) (auto simp: bit_lexval bit_and_iff lexint_and_def)

lemma lexint_or_value [lexint_abs]: "lexval (lexint_or a b) = lexval a OR lexval b"
  by (rule bit_eqI) (auto simp: bit_lexval bit_or_iff lexint_or_def)

lemma lexint_xor_value [lexint_abs]: "lexval (lexint_xor a b) = lexval a XOR lexval b"
  by (rule bit_eqI) (auto simp: bit_lexval bit_xor_iff lexint_xor_def)

lemma bit_lexval_not:
  "bit (lexval (lexint_not a)) n \<longleftrightarrow> n < 128 \<and> \<not> bit (lexval a) n"
  by (auto simp: bit_lexval lexint_not_def bit_not_iff)

lemma clz_step_inv:
  fixes n :: nat
  assumes "unat (snd cm) = n * 2 ^ fst cm" "2 ^ (64 - 2 * k) \<le> unat (snd cm)" "2 * k \<le> 64"
    and "cm' = clz_step (64 - k) k cm"
  shows "unat (snd cm') = n * 2 ^ fst cm' \<and> 2 ^ (64 - k) \<le> unat (snd cm')"
proof (cases "unat (snd cm) < 2 ^ (64 - k)")
  case True
  have e: "(2 :: nat) ^ 64 = 2 ^ (64 - k) * 2 ^ k" using assms(3) by (intro pow_split') simp
  have z: "drop_bit (64 - k) (snd cm) = 0"
    using True by (simp add: word_unat_eq_iff unat_drop_bit_u64)
  have "unat (snd cm) * 2 ^ k < 2 ^ 64" unfolding e using True by simp
  then have "unat (push_bit k (snd cm)) = unat (snd cm) * 2 ^ k"
    by (simp add: unat_push_bit_u64)
  moreover have "(2 :: nat) ^ (64 - k) = 2 ^ (64 - 2 * k) * 2 ^ k"
    using assms(3) pow_split' [of k "64 - k"] by (simp add: mult_2)
  ultimately show ?thesis
    using assms z by (simp add: clz_step_def power_add)
next
  case False
  then have "unat (drop_bit (64 - k) (snd cm)) \<noteq> 0"
    by (simp add: unat_drop_bit_u64 div_eq_0_iff)
  then have "drop_bit (64 - k) (snd cm) \<noteq> 0" by auto
  with False assms show ?thesis by (simp add: clz_step_def)
qed

lemma count_leading_zeros_value:
  assumes "n \<noteq> 0"
  shows "2 ^ 63 \<le> unat n * 2 ^ count_leading_zeros n \<and> unat n * 2 ^ count_leading_zeros n < 2 ^ 64"
proof -
  define s1 where "s1 = clz_step 32 32 (0, n)"
  define s2 where "s2 = clz_step 48 16 s1"
  define s3 where "s3 = clz_step 56 8 s2"
  define s4 where "s4 = clz_step 60 4 s3"
  define s5 where "s5 = clz_step 62 2 s4"
  define s6 where "s6 = clz_step 63 1 s5"
  have n: "1 \<le> unat n" using assms by (simp add: Suc_le_eq unat_gt_0)
  have 1: "unat (snd s1) = unat n * 2 ^ fst s1 \<and> 2 ^ 32 \<le> unat (snd s1)"
    using clz_step_inv [of "(0, n)" "unat n" 32 s1] n by (simp add: s1_def)
  have 2: "unat (snd s2) = unat n * 2 ^ fst s2 \<and> 2 ^ 48 \<le> unat (snd s2)"
    using clz_step_inv [of s1 "unat n" 16 s2] 1 by (simp add: s2_def)
  have 3: "unat (snd s3) = unat n * 2 ^ fst s3 \<and> 2 ^ 56 \<le> unat (snd s3)"
    using clz_step_inv [of s2 "unat n" 8 s3] 2 by (simp add: s3_def)
  have 4: "unat (snd s4) = unat n * 2 ^ fst s4 \<and> 2 ^ 60 \<le> unat (snd s4)"
    using clz_step_inv [of s3 "unat n" 4 s4] 3 by (simp add: s4_def)
  have 5: "unat (snd s5) = unat n * 2 ^ fst s5 \<and> 2 ^ 62 \<le> unat (snd s5)"
    using clz_step_inv [of s4 "unat n" 2 s5] 4 by (simp add: s5_def)
  have 6: "unat (snd s6) = unat n * 2 ^ fst s6 \<and> 2 ^ 63 \<le> unat (snd s6)"
    using clz_step_inv [of s5 "unat n" 1 s6] 5 by (simp add: s6_def)
  have "count_leading_zeros n = fst s6"
    using assms by (simp add: count_leading_zeros_def s1_def s2_def s3_def s4_def s5_def s6_def)
  with 6 unat_u64_bound [of "snd s6"] show ?thesis by simp
qed

lemma count_leading_zeros_iff:
  assumes "n \<noteq> 0"
  shows "2 ^ 63 \<le> unat n * 2 ^ k \<and> unat n * 2 ^ k < 2 ^ 64 \<longleftrightarrow> k = count_leading_zeros n"
proof
  assume k: "2 ^ 63 \<le> unat n * 2 ^ k \<and> unat n * 2 ^ k < 2 ^ 64"
  let ?c = "count_leading_zeros n"
  have c: "2 ^ 63 \<le> unat n * 2 ^ ?c \<and> unat n * 2 ^ ?c < 2 ^ 64"
    by (rule count_leading_zeros_value [OF assms])
  have less: False if "i < j" "2 ^ 63 \<le> unat n * 2 ^ i" "unat n * 2 ^ j < 2 ^ 64" for i j
  proof -
    have "2 * (unat n * 2 ^ i) = unat n * 2 ^ Suc i" by simp
    also have "\<dots> \<le> unat n * 2 ^ j"
      using that(1) by (intro mult_le_mono2 power_increasing) auto
    finally have "2 * (unat n * 2 ^ i) \<le> unat n * 2 ^ j" .
    moreover have "(2 :: nat) ^ 64 = 2 * 2 ^ 63" by simp
    ultimately show False using that(2,3) by linarith
  qed
  show "k = ?c" using less [of k ?c] less [of ?c k] k c by (metis linorder_neqE_nat)
qed (use count_leading_zeros_value [OF assms] in simp)

section \<open>Rounding to a double\<close>

definition round_half_even :: "nat \<Rightarrow> nat \<Rightarrow> nat" where
  "round_half_even x s =
     (let q = x div 2 ^ s; r = x mod 2 ^ s
      in if 2 * r < 2 ^ s \<or> 2 * r = 2 ^ s \<and> even q then q else q + 1)"

text \<open>The value of a normal IEEE double of exponent at least 0, times \<open>2 ^ 52\<close>.\<close>

definition double_scaled :: "uint64_t \<Rightarrow> nat" where
  "double_scaled d = (2 ^ 52 + unat d mod 2 ^ 52) * 2 ^ (unat d div 2 ^ 52 - 1023)"

lemma round_half_even_scale: "round_half_even (v * 2 ^ j) (s + j) = round_half_even v s"
proof -
  have "v * 2 ^ j div 2 ^ (s + j) = v div 2 ^ s" "v * 2 ^ j mod 2 ^ (s + j) = v mod 2 ^ s * 2 ^ j"
    by (simp_all add: power_add mod_mult_mult2)
  then show ?thesis
    by (simp add: round_half_even_def Let_def power_add flip: mult.assoc)
qed

lemma round_half_even_0 [simp]: "round_half_even v 0 = v"
  by (simp add: round_half_even_def)

lemma round_half_even_bounds:
  assumes "a * 2 ^ s \<le> v" "v < b * 2 ^ s"
  shows "a \<le> round_half_even v s \<and> round_half_even v s \<le> b"
proof -
  have "a \<le> v div 2 ^ s" using assms(1) by (simp add: less_eq_div_iff_mult_less_eq)
  moreover have "v div 2 ^ s < b" using assms(2) by (simp add: div_less_iff_less_mult)
  ultimately show ?thesis by (auto simp: round_half_even_def Let_def)
qed

lemma round_half_even_sticky:
  assumes "m = (if v mod 2 ^ k \<noteq> 0 then v div 2 ^ k OR 1 else v div 2 ^ k)"
  shows "round_half_even m 2 = round_half_even v (k + 2)"
proof -
  define q r t where "q = v div 2 ^ k div 4" and "r = v div 2 ^ k mod 4" and "t = v mod 2 ^ k"
  have t: "t < 2 ^ k" by (simp add: t_def)
  have v: "v div 2 ^ k = 4 * q + r" and r: "r < 4" by (simp_all add: q_def r_def)
  have "v div 2 ^ (k + 2) = q" by (simp add: q_def power_add mult.commute flip: div_mult2_eq)
  moreover have vm: "v mod 2 ^ (k + 2) = 2 ^ k * r + t"
    using mod_mult2_eq [of v "2 ^ k" 4] by (simp add: r_def t_def power_add mult.commute)
  moreover define r' where "r' = (if t \<noteq> 0 \<and> even r then r + 1 else r)"
  moreover have "m = 4 * q + r'"
    using v unfolding assms t_def [symmetric] r'_def or_one_eq by auto
  moreover have "r' < 4" using r by (auto simp: r'_def elim!: evenE) 
  moreover have "2 * (2 ^ k * r + t) < 2 ^ (k + 2) \<longleftrightarrow> r' < 2"
    "2 * (2 ^ k * r + t) = 2 ^ (k + 2) \<longleftrightarrow> r' = 2"
  proof -
    consider "r = 0" | "r = 1" | "r = 2" | "r = 3" using r by linarith
    then show "2 * (2 ^ k * r + t) < 2 ^ (k + 2) \<longleftrightarrow> r' < 2"
      "2 * (2 ^ k * r + t) = 2 ^ (k + 2) \<longleftrightarrow> r' = 2"
      using t by (cases; auto simp: r'_def)+
  qed
  ultimately show ?thesis
    by (auto simp: round_half_even_def Let_def)
qed

lemma unat_or_one: "unat (m OR 1 :: uint64_t) = (if even (unat m) then unat m + 1 else unat m)"
proof -
  have "unat (m OR 1) = unat m OR 1" by (simp only: unsigned_or_eq unsigned_1)
  then show ?thesis by (simp only: or_one_eq) simp
qed

lemma round_half_even_4:
  "r < 4 \<Longrightarrow> round_half_even (4 * q + r) 2 = (if r < 2 \<or> r = 2 \<and> even q then q else q + 1)"
  by (auto simp: round_half_even_def Let_def)

lemma round_quarter:
  assumes "(r :: nat) < 4"
  shows "(if odd q \<and> even r then 4 * q + r + 2 else 4 * q + r + 1) div 4 =
    (if r < 2 \<or> r = 2 \<and> even q then q else q + 1)"
proof -
  have d: "(4 * q + k) div 4 = q + k div 4" for k by simp
  consider "r = 0" | "r = 1" | "r = 2" | "r = 3" using assms by linarith
  then show ?thesis
    by cases (simp_all only: if_distrib [of "\<lambda>x. x div 4"] add.assoc d, simp_all)
qed

lemma round_step_value:
  assumes "unat (m :: uint64_t) < 2 ^ 55"
  shows "unat (drop_bit 2 ((if m AND 4 \<noteq> 0 then m OR 1 else m) + 1)) = round_half_even (unat m) 2"
proof -
  have b: "m AND 4 \<noteq> 0 \<longleftrightarrow> odd (unat m div 4)"
    using odd_unat_div [of m 2] bit_iff_and_push_bit_not_eq_0 [of m 2] by simp
  define q r where "q = unat m div 4" and "r = unat m mod 4"
  have m: "unat m = 4 * q + r" and r: "r < 4" by (simp_all add: q_def r_def)
  have ov: "unat (x + 1) = unat x + 1" if "unat x < 2 ^ 56" for x :: uint64_t
    using that by (simp add: unat_word_ariths)
  have w: "unat ((if m AND 4 \<noteq> 0 then m OR 1 else m) + 1) =
      (if odd q \<and> even r then 4 * q + r + 2 else 4 * q + r + 1)"
    using assms b [folded q_def] m ov [of m] ov [of "m OR 1"] by (auto simp: unat_or_one)
  show ?thesis
    unfolding unat_drop_bit_u64 w m round_half_even_4 [OF r] by (simp add: round_quarter [OF r])
qed

lemma pack_value:
  assumes "unat (e :: uint64_t) \<le> 128"
  shows "unat (push_bit 52 (e + 1023) OR (m AND 0xFFFFFFFFFFFFF)) =
    (unat e + 1023) * 2 ^ 52 + unat m mod 2 ^ 52"
proof -
  have e: "unat (e + 1023) = unat e + 1023" using assms by (simp add: unat_word_ariths)
  have mask: "(0xFFFFFFFFFFFFF :: uint64_t) = mask 52" by (simp add: mask_eq_exp_minus_1)
  have "push_bit 52 (e + 1023) OR take_bit 52 m = push_bit 52 (e + 1023) + take_bit 52 m"
    by (rule disjunctive_add [symmetric]) (simp add: bit_simps)
  moreover have "unat (push_bit 52 (e + 1023)) = (unat e + 1023) * 2 ^ 52"
    unfolding unat_push_bit_u64 e using assms by simp
  moreover have "unat (take_bit 52 m) = unat m mod 2 ^ 52"
    by (rule trans [OF unsigned_take_bit_eq take_bit_eq_mod])
  moreover have "unat m mod 2 ^ 52 < 2 ^ 52" by simp
  ultimately show ?thesis
    using assms unfolding mask take_bit_eq_mask [symmetric]
    by (simp add: unat_word_ariths)
qed

lemma div_mod_pack:
  "(x * 2 ^ 52 + y mod 2 ^ 52) mod 2 ^ 52 = y mod 2 ^ 52"
  "(x * 2 ^ 52 + y mod 2 ^ 52) div 2 ^ 52 = (x :: nat)"
  by simp_all

lemma double_scaled_pack:
  assumes "unat (e :: uint64_t) \<le> 128"
  shows "double_scaled (push_bit 52 (e + 1023) OR (m AND 0xFFFFFFFFFFFFF)) =
    (2 ^ 52 + unat m mod 2 ^ 52) * 2 ^ unat e"
  unfolding double_scaled_def pack_value [OF assms] div_mod_pack by simp


lemma lexval_high_0: "high i = 0 \<Longrightarrow> unat (low i) = lexval i"
  by (simp add: lexval_def)

lemma sig_bits_low:
  assumes "n \<noteq> 0" "2 ^ k \<le> unat n" "unat n < 2 ^ Suc k"
  shows "64 - count_leading_zeros n = Suc k"
proof -
  have "k < 64" using assms(2) unat_u64_bound [of n] power_increasing_iff [of "2 :: nat" 64 k]
    by (metis linorder_not_less order_le_less_trans one_less_numeral_iff semiring_norm(76))
  then have e: "(2 :: nat) ^ 63 = 2 ^ k * 2 ^ (63 - k)" "(2 :: nat) ^ 64 = 2 ^ Suc k * 2 ^ (63 - k)"
    using pow_split [of k 63] pow_split [of "Suc k" 64] by (simp_all del: power_Suc)
  have "63 - k = count_leading_zeros n"
    using count_leading_zeros_iff [OF assms(1), of "63 - k"] assms(2,3) unfolding e by simp
  with \<open>k < 64\<close> show ?thesis by simp
qed


lemma sig_bit_count_value:
  assumes "2 ^ k \<le> lexval i" "lexval i < 2 ^ Suc k"
  shows "(if high i = 0 then 64 - count_leading_zeros (low i)
          else 128 - count_leading_zeros (high i)) = Suc k"
proof (cases "high i = 0")
  case True
  then have "low i \<noteq> 0" using assms(1) by (auto simp: lexval_def)
  with True assms show ?thesis
    using sig_bits_low [of "low i" k] by (simp add: lexval_high_0)
next
  case False
  have l: "unat (low i) < 2 ^ 64" by (rule unat_u64_bound)
  have "1 \<le> unat (high i)" using False by (simp add: Suc_le_eq unat_gt_0)
  then have "2 ^ 64 \<le> lexval i" by (simp add: lexval_def)
  then have "(2 :: nat) ^ 64 < 2 ^ Suc k" using assms(2) by (rule order_le_less_trans)
  then have k: "64 \<le> k" using power_less_imp_less_exp [of "2 :: nat" 64 "Suc k"] by simp
  have "2 ^ (k - 64) \<le> lexval i div 2 ^ 64"
    using assms(1) pow_split' [of 64 k] k by (simp add: less_eq_div_iff_mult_less_eq)
  moreover have "lexval i div 2 ^ 64 < 2 ^ Suc (k - 64)"
    using assms(2) pow_split' [of 64 "Suc k"] k Suc_diff_Suc [of 63 k]
    by (simp add: div_less_iff_less_mult del: power_Suc)
  moreover have "lexval i div 2 ^ 64 = unat (high i)" using l by (simp add: lexval_def)
  ultimately have "64 - count_leading_zeros (high i) = Suc (k - 64)"
    using False by (intro sig_bits_low) simp_all
  with k False show ?thesis by simp
qed

lemma lexint_double_unfold:
  assumes "2 ^ k \<le> lexval i" "lexval i < 2 ^ Suc k"
  shows "lexint_double i =
    (let (exponent, mantissa) =
       (if Suc k \<le> 53 then (of_nat k, push_bit (53 - Suc k) (low i))
        else
          let m = (if Suc k = 54 then push_bit 1 (low i)
                   else if Suc k > 55 then
                     let t = lexint_shr i (of_nat (Suc k - 55));
                         t' = lexint_shl t (of_nat (Suc k - 55))
                     in if lexint_cmp t' i \<noteq> 0 then low t OR 1 else low t
                   else low i);
              m = (if m AND 4 \<noteq> 0 then m OR 1 else m);
              m = drop_bit 2 (m + 1)
          in if m AND push_bit 53 1 \<noteq> 0 then (of_nat k + 1, drop_bit 1 m)
             else (of_nat k, m))
     in push_bit 52 (exponent + 1023) OR (mantissa AND 0xFFFFFFFFFFFFF))"
proof -
  have "\<not> (low i = 0 \<and> high i = 0)" using assms(1) by (auto simp: lexval_def)
  moreover have "of_nat (Suc k) - 1 = (of_nat k :: uint64_t)" by simp
  ultimately show ?thesis
    unfolding lexint_double_def sig_bit_count_value [OF assms] Let_def by (simp only: if_False)
qed


lemma low_value: "lexval i < 2 ^ 64 \<Longrightarrow> unat (low i) = lexval i"
  by (cases "unat (high i) = 0") (simp_all add: lexval_def)

lemma mantissa_55_value:
  assumes "2 ^ k \<le> lexval i" "lexval i < 2 ^ Suc k" "53 \<le> k"
    and "m = (if Suc k = 54 then push_bit 1 (low i)
              else if Suc k > 55 then
                let t = lexint_shr i (of_nat (Suc k - 55));
                    t' = lexint_shl t (of_nat (Suc k - 55))
                in if lexint_cmp t' i \<noteq> 0 then low t OR 1 else low t
              else low i)"
  shows "unat m < 2 ^ 55 \<and> round_half_even (unat m) 2 = round_half_even (lexval i) (k - 52)"
proof -
  have low: "unat (low i) = lexval i" if "k < 64"
    using assms(2) that power_increasing [of "Suc k" 64 "2 :: nat"] by (intro low_value) linarith
  consider "k = 53" | "k = 54" | "55 \<le> k" using assms(3) by linarith
  then show ?thesis
  proof cases
    case 1
    then have "m = push_bit 1 (low i)" using assms(4) by simp
    then have "unat m = lexval i * 2 ^ 1"
      using assms(2) 1 low by (simp only: unat_push_bit_u64) simp
    then show ?thesis
      using assms(2) 1 round_half_even_scale [of "lexval i" 1 1, unfolded one_add_one] by simp
  next
    case 2
    then show ?thesis using assms(2,4) by (simp add: low)
  next
    case 3
    define j where "j = k - 54"
    define t where "t = lexint_shr i (of_nat j)"
    have k: "k = j + 54" using 3 by (simp add: j_def)
    have "(2 :: nat) ^ k < 2 ^ 128" using assms(1) lexval_bound [of i] by (rule order_le_less_trans)
    then have "k < 128" by (rule power_less_imp_less_exp [rotated]) simp
    then have uj: "unat (of_nat j :: uint64_t) = j" by (simp add: j_def unat_of_nat_u64)
    have t: "lexval t = lexval i div 2 ^ j" by (simp add: t_def lexint_shr_value uj)
    have tb: "lexval t < 2 ^ 55"
      using assms(2) by (simp add: t k div_less_iff_less_mult power_add)
    then have tl: "unat (low t) = lexval t" by (intro low_value) simp
    have "lexval (lexint_shl t (of_nat j)) = lexval i div 2 ^ j * 2 ^ j"
      using lexval_bound [of i] order_le_less_trans [OF div_times_less_eq_dividend]
      by (simp add: lexint_shl_value uj t)
    then have "lexint_cmp (lexint_shl t (of_nat j)) i \<noteq> 0 \<longleftrightarrow> lexval i mod 2 ^ j \<noteq> 0"
      using div_mult_mod_eq [of "lexval i" "2 ^ j"] by (simp add: lexint_cmp_value)
    then have m: "unat m = (if lexval i mod 2 ^ j \<noteq> 0 then lexval i div 2 ^ j OR 1 else lexval i div 2 ^ j)"
      using 3 assms(4) tl t by (simp add: Let_def unsigned_or_eq t_def [symmetric] k)
    have "unat m < 2 ^ 55" using tb unfolding m t or_one_eq by (auto elim!: evenE)
    moreover have "k - 52 = j + 2" by (simp add: k)
    ultimately show ?thesis using round_half_even_sticky [OF m] by simp
  qed
qed


lemma lexint_double_small:
  assumes "2 ^ k \<le> lexval i" "lexval i < 2 ^ Suc k" "k < 53"
  shows "\<exists>e m. lexint_double i = push_bit 52 (e + 1023) OR (m AND 0xFFFFFFFFFFFFF) \<and>
    unat e \<le> 128 \<and> 2 ^ 52 \<le> unat m \<and> unat m < 2 ^ 53 \<and>
    unat m * 2 ^ unat e = round_half_even (lexval i * 2 ^ 52) k * 2 ^ k"
proof -
  let ?e = "of_nat k :: uint64_t" and ?m = "push_bit (52 - k) (low i)"
  have "lexval i < 2 ^ 64"
    using assms(2,3) power_increasing [of "Suc k" 64 "2 :: nat"] by linarith
  then have low: "unat (low i) = lexval i" by (rule low_value)
  have e: "unat ?e = k" using assms(3) by (simp add: unat_of_nat_u64)
  have p: "(2 :: nat) ^ 52 = 2 ^ k * 2 ^ (52 - k)" "(2 :: nat) ^ 53 = 2 ^ Suc k * 2 ^ (52 - k)"
    using assms(3) pow_split [of k 52] pow_split [of "Suc k" 53] by (simp_all del: power_Suc)
  have up: "lexval i * 2 ^ (52 - k) < 2 ^ 53" unfolding p using assms(2) by simp
  then have m: "unat ?m = lexval i * 2 ^ (52 - k)" by (simp add: unat_push_bit_u64 low)
  have "2 ^ 52 \<le> unat ?m" unfolding p m using assms(1) by simp
  moreover have "round_half_even (lexval i * 2 ^ 52) k = unat ?m"
    using round_half_even_scale [of "lexval i * 2 ^ (52 - k)" k 0]
    unfolding m p(1) by (simp add: mult.assoc mult.commute [of "2 ^ k"])
  moreover have "lexint_double i = push_bit 52 (?e + 1023) OR (?m AND 0xFFFFFFFFFFFFF)"
    using assms(3) unfolding lexint_double_unfold [OF assms(1,2)] by simp
  ultimately show ?thesis using e up m assms(3) by (intro exI [of _ ?e] exI [of _ ?m]) simp
qed

lemma lexint_double_large:
  assumes "2 ^ k \<le> lexval i" "lexval i < 2 ^ Suc k" "53 \<le> k" "k < 128"
  shows "\<exists>e m. lexint_double i = push_bit 52 (e + 1023) OR (m AND 0xFFFFFFFFFFFFF) \<and>
    unat e \<le> 128 \<and> 2 ^ 52 \<le> unat m \<and> unat m < 2 ^ 53 \<and>
    unat m * 2 ^ unat e = round_half_even (lexval i * 2 ^ 52) k * 2 ^ k"
proof -
  define m where "m = (if Suc k = 54 then push_bit 1 (low i)
              else if Suc k > 55 then
                let t = lexint_shr i (of_nat (Suc k - 55));
                    t' = lexint_shl t (of_nat (Suc k - 55))
                in if lexint_cmp t' i \<noteq> 0 then low t OR 1 else low t
              else low i)"
  define r where "r = drop_bit 2 ((if m AND 4 \<noteq> 0 then m OR 1 else m) + 1)"
  let ?e = "of_nat k :: uint64_t"
  have e: "unat ?e = k" "unat (?e + 1) = Suc k"
    using assms(4) by (simp_all add: unat_of_nat_u64 unat_word_ariths)
  have "unat r = round_half_even (lexval i) (k - 52)"
    using mantissa_55_value [OF assms(1-3) m_def] round_step_value [of m] by (simp add: r_def)
  also have "\<dots> = round_half_even (lexval i * 2 ^ 52) k"
    using round_half_even_scale [of "lexval i" 52 "k - 52"] assms(3) by simp
  finally have r: "unat r = round_half_even (lexval i * 2 ^ 52) k" .
  have "2 ^ 52 \<le> unat r \<and> unat r \<le> 2 ^ 53"
    unfolding r by (rule round_half_even_bounds) (use assms(1,2) in simp_all)
  then consider "2 ^ 52 \<le> unat r" "unat r < 2 ^ 53" | "unat r = 2 ^ 53" by linarith
  moreover have c: "r AND push_bit 53 1 \<noteq> 0 \<longleftrightarrow> odd (unat r div 2 ^ 53)"
    unfolding odd_unat_div bit_iff_and_push_bit_not_eq_0 by simp
  have d: "lexint_double i = (if odd (unat r div 2 ^ 53)
      then push_bit 52 (?e + 1 + 1023) OR (drop_bit 1 r AND 0xFFFFFFFFFFFFF)
      else push_bit 52 (?e + 1023) OR (r AND 0xFFFFFFFFFFFFF))"
    using assms(3) unfolding lexint_double_unfold [OF assms(1,2)] m_def [symmetric] c [symmetric]
    by (simp add: r_def Let_def)
  ultimately show ?thesis
  proof cases
    case 1
    then show ?thesis using d e assms(4) r by (intro exI [of _ ?e] exI [of _ r]) simp
  next
    case 2
    then have "unat (drop_bit 1 r) = 2 ^ 52" by (simp only: unat_drop_bit_u64) simp
    with 2 show ?thesis using d e assms(4) r
      by (intro exI [of _ "?e + 1"] exI [of _ "drop_bit 1 r"]) simp
  qed
qed

section \<open>Properties\<close>

text \<open>
  C39: The operations are arithmetic on naturals below \<open>2 ^ 128\<close>: sums, differences, products and
  left shifts wrap at 128 bits, right shifts and quotients are exact, and dividing by zero gives
  zero, without an error.
\<close>

theorem lexint_arithmetic:
  "lexval (lexint_add a b) = (lexval a + lexval b) mod 2 ^ 128 \<and>
   lexval (lexint_sub a b) = (lexval a + (2 ^ 128 - lexval b)) mod 2 ^ 128 \<and>
   lexval (lexint_mul64 a n) = lexval a * unat n mod 2 ^ 128 \<and>
   lexval (lexint_div64 a n) = lexval a div unat n \<and>
   lexval (lexint_shl a n) = lexval a * 2 ^ unat n mod 2 ^ 128 \<and>
   lexval (lexint_shr a n) = lexval a div 2 ^ unat n"
  using lexval_bound [of b] by (simp add: lexint_abs)

text \<open>
  C37: Accumulating a digit of a literal in a base of at most \<open>2 ^ 63\<close> succeeds exactly when the
  new value fits in 128 bits, and then stores it; otherwise the integer is left as it was.
\<close>

theorem lexint_accum_exact:
  assumes "0 < base" "base \<le> 2 ^ 63"
  shows "let v = lexval i * unat base + unat digit; (ok, i') = lexint_accum i digit base
         in ok = (v < 2 ^ 128) \<and> lexval i' = (if v < 2 ^ 128 then v else lexval i)"
  using lexint_accum_value [OF assms, of i digit]
  by (cases "lexint_accum i digit base") (auto simp: Let_def split: if_splits)

theorem lexint_accum_exact_witness:
  "lexval (snd (lexint_accum \<lparr>low = 2 ^ 63, high = 0\<rparr> 9 10)) = 10 * 2 ^ 63 + 9 \<and>
   \<not> fst (lexint_accum \<lparr>low = 0, high = 2 ^ 63\<rparr> 9 10)"
  using lexint_accum_exact [of 10 "\<lparr>low = 2 ^ 63, high = 0\<rparr>" 9]
    lexint_accum_exact [of 10 "\<lparr>low = 0, high = 2 ^ 63\<rparr>" 9]
  by (simp add: lexval_def Let_def case_prod_beta)

text \<open>
  C38: The bits \<open>lexint_double\<close> returns for a positive integer are a normal double, and its value is
  the integer rounded to 53 significant bits, to nearest with ties to even.
\<close>

theorem lexint_double_nearest_even:
  assumes "2 ^ k \<le> lexval i" "lexval i < 2 ^ Suc k"
  shows "1023 \<le> unat (lexint_double i) div 2 ^ 52 \<and>
    double_scaled (lexint_double i) = round_half_even (lexval i * 2 ^ 52) k * 2 ^ k"
proof -
  have "(2 :: nat) ^ k < 2 ^ 128" using assms(1) lexval_bound [of i] by (rule order_le_less_trans)
  then have k: "k < 128" by (rule power_less_imp_less_exp [rotated]) simp
  then obtain e m where d: "lexint_double i = push_bit 52 (e + 1023) OR (m AND 0xFFFFFFFFFFFFF)"
    and e: "unat e \<le> 128"
    and v: "2 ^ 52 \<le> unat m" "unat m < 2 ^ 53"
      "unat m * 2 ^ unat e = round_half_even (lexval i * 2 ^ 52) k * 2 ^ k"
    using lexint_double_small [OF assms] lexint_double_large [OF assms] linorder_not_le [of 53 k]
    by metis
  have "unat m mod 2 ^ 52 = unat m - 2 ^ 52" using v(1,2) by (simp add: mod_if)
  then show ?thesis
    using v pack_value [OF e, of m] unfolding d double_scaled_pack [OF e] by simp
qed


theorem lexint_double_nearest_even_witness:
  "double_scaled (lexint_double \<lparr>low = 2 ^ 53 + 1, high = 1\<rparr>) =
   round_half_even ((2 ^ 64 + 2 ^ 53 + 1) * 2 ^ 52) 64 * 2 ^ 64"
  using lexint_double_nearest_even [of 64 "\<lparr>low = 2 ^ 53 + 1, high = 1\<rparr>"]
  by (simp add: lexval_def)

end
