(* ===== verification/Hashfun.thy ===== *)
theory Hashfun
  imports Prelude
begin

text \<open>
  The hash functions of \<^verbatim>\<open>src/libponyrt/ds/fun.c\<close> on a 64-bit, little-endian target: SipHash-2-4 and
  its 32-bit variant on byte strings, the integer mixers used for pointers and sizes, and the
  rounding to a power of two that sizes the hash tables.
\<close>

section \<open>Byte strings\<close>

definition le_word64 :: "uint8_t list \<Rightarrow> uint64_t" where
  "le_word64 bs = foldr (\<lambda>b acc. ucast b OR push_bit 8 acc) (take 8 bs) 0"

definition le_word32 :: "uint8_t list \<Rightarrow> uint32_t" where
  "le_word32 bs = foldr (\<lambda>b acc. ucast b OR push_bit 8 acc) (take 4 bs) 0"

definition the_key :: "uint8_t list" where
  "the_key = [0xFE, 0x09, 0xD3, 0x22, 0x6B, 0x9C, 0x10, 0x8A,
              0xE1, 0x35, 0x72, 0xB5, 0xCC, 0x3F, 0x92, 0x9F]"

section \<open>The 32-bit variant\<close>

definition ROTL32 :: "uint32_t \<Rightarrow> nat \<Rightarrow> uint32_t" where
  "ROTL32 x b = push_bit b x OR drop_bit (32 - b) x"

type_synonym sip32 = "uint32_t \<times> uint32_t \<times> uint32_t \<times> uint32_t"

definition SIPROUND32 :: "sip32 \<Rightarrow> sip32" where
  "SIPROUND32 v =
     (let (v0, v1, v2, v3) = v;
          v0 = v0 + v1; v1 = ROTL32 v1 5; v1 = v1 XOR v0; v0 = ROTL32 v0 16;
          v2 = v2 + v3; v3 = ROTL32 v3 8; v3 = v3 XOR v2;
          v0 = v0 + v3; v3 = ROTL32 v3 7; v3 = v3 XOR v0;
          v2 = v2 + v1; v1 = ROTL32 v1 13; v1 = v1 XOR v2; v2 = ROTL32 v2 16
      in (v0, v1, v2, v3))"

definition halfsip_block :: "uint32_t \<Rightarrow> sip32 \<Rightarrow> sip32" where
  "halfsip_block m v =
     (let (v0, v1, v2, v3) = v;
          (v0, v1, v2, v3) = SIPROUND32 (SIPROUND32 (v0, v1, v2, v3 XOR m))
      in (v0 XOR m, v1, v2, v3))"

fun halfsip_blocks :: "nat \<Rightarrow> uint8_t list \<Rightarrow> sip32 \<Rightarrow> sip32" where
  "halfsip_blocks 0 bs v = v"
| "halfsip_blocks (Suc n) bs v = halfsip_blocks n (drop 4 bs) (halfsip_block (le_word32 bs) v)"

definition halfsiphash24 :: "uint8_t list \<Rightarrow> uint8_t list \<Rightarrow> uint32_t" where
  "halfsiphash24 key bs =
     (let len = length bs;
          k0 = le_word32 key;
          k1 = le_word32 (drop 4 key);
          b = push_bit 24 (of_nat len :: uint32_t);
          v = (k0 XOR 0x736f6d65, k1 XOR 0x646f7261, k0 XOR 0x6c796765, k1 XOR 0x74656462);
          v = halfsip_blocks (len div 4) bs v;
          tail = drop (len - len mod 4) bs;
          b = (if len AND 3 \<ge> 3 then b OR push_bit 16 (ucast (tail ! 2)) else b);
          b = (if len AND 3 \<ge> 2 then b OR push_bit 8 (ucast (tail ! 1)) else b);
          b = (if len AND 3 \<ge> 1 then b OR ucast (tail ! 0) else b);
          (v0, v1, v2, v3) = halfsip_block b v;
          (v0, v1, v2, v3) =
            SIPROUND32 (SIPROUND32 (SIPROUND32 (SIPROUND32 (v0, v1, v2 XOR 0xff, v3))))
      in v0 XOR v1 XOR v2 XOR v3)"

section \<open>SipHash-2-4\<close>

definition ROTL64 :: "uint64_t \<Rightarrow> nat \<Rightarrow> uint64_t" where
  "ROTL64 x b = push_bit b x OR drop_bit (64 - b) x"

type_synonym sip64 = "uint64_t \<times> uint64_t \<times> uint64_t \<times> uint64_t"

definition SIPROUND64 :: "sip64 \<Rightarrow> sip64" where
  "SIPROUND64 v =
     (let (v0, v1, v2, v3) = v;
          v0 = v0 + v1; v1 = ROTL64 v1 13; v1 = v1 XOR v0; v0 = ROTL64 v0 32;
          v2 = v2 + v3; v3 = ROTL64 v3 16; v3 = v3 XOR v2;
          v0 = v0 + v3; v3 = ROTL64 v3 21; v3 = v3 XOR v0;
          v2 = v2 + v1; v1 = ROTL64 v1 17; v1 = v1 XOR v2; v2 = ROTL64 v2 32
      in (v0, v1, v2, v3))"

definition sip_block :: "uint64_t \<Rightarrow> sip64 \<Rightarrow> sip64" where
  "sip_block m v =
     (let (v0, v1, v2, v3) = v;
          (v0, v1, v2, v3) = SIPROUND64 (SIPROUND64 (v0, v1, v2, v3 XOR m))
      in (v0 XOR m, v1, v2, v3))"

fun sip_blocks :: "nat \<Rightarrow> uint8_t list \<Rightarrow> sip64 \<Rightarrow> sip64" where
  "sip_blocks 0 bs v = v"
| "sip_blocks (Suc n) bs v = sip_blocks n (drop 8 bs) (sip_block (le_word64 bs) v)"

definition siphash24 :: "uint8_t list \<Rightarrow> uint8_t list \<Rightarrow> uint64_t" where
  "siphash24 key bs =
     (let len = length bs;
          k0 = le_word64 key;
          k1 = le_word64 (drop 8 key);
          b = push_bit 56 (of_nat len :: uint64_t);
          v = (k0 XOR 0x736f6d6570736575, k1 XOR 0x646f72616e646f6d,
               k0 XOR 0x6c7967656e657261, k1 XOR 0x7465646279746573);
          v = sip_blocks (len div 8) bs v;
          tail = drop (len - len mod 8) bs;
          b = (if len AND 7 \<ge> 7 then b OR push_bit 48 (ucast (tail ! 6)) else b);
          b = (if len AND 7 \<ge> 6 then b OR push_bit 40 (ucast (tail ! 5)) else b);
          b = (if len AND 7 \<ge> 5 then b OR push_bit 32 (ucast (tail ! 4)) else b);
          b = (if len AND 7 \<ge> 4 then b OR push_bit 24 (ucast (tail ! 3)) else b);
          b = (if len AND 7 \<ge> 3 then b OR push_bit 16 (ucast (tail ! 2)) else b);
          b = (if len AND 7 \<ge> 2 then b OR push_bit 8 (ucast (tail ! 1)) else b);
          b = (if len AND 7 \<ge> 1 then b OR ucast (tail ! 0) else b);
          (v0, v1, v2, v3) = sip_block b v;
          (v0, v1, v2, v3) =
            SIPROUND64 (SIPROUND64 (SIPROUND64 (SIPROUND64 (v0, v1, v2 XOR 0xff, v3))))
      in v0 XOR v1 XOR v2 XOR v3)"

text \<open>A C string is the bytes before its terminator, so \<^verbatim>\<open>strlen\<close> is the length of the list.\<close>

definition ponyint_hash_block :: "uint8_t list \<Rightarrow> uint64_t" where
  "ponyint_hash_block p = siphash24 the_key p"

definition ponyint_hash_block64 :: "uint8_t list \<Rightarrow> uint64_t" where
  "ponyint_hash_block64 p = siphash24 the_key p"

definition ponyint_hash_str_custom_key32 :: "uint8_t list \<Rightarrow> uint8_t list \<Rightarrow> uint32_t" where
  "ponyint_hash_str_custom_key32 key str = halfsiphash24 key str"

definition ponyint_hash_str_custom_key64 :: "uint8_t list \<Rightarrow> uint8_t list \<Rightarrow> uint64_t" where
  "ponyint_hash_str_custom_key64 key str = siphash24 key str"

definition ponyint_hash_str :: "uint8_t list \<Rightarrow> uint64_t" where
  "ponyint_hash_str str = siphash24 the_key str"

section \<open>Integers\<close>

definition ponyint_hash_int64 :: "uint64_t \<Rightarrow> uint64_t" where
  "ponyint_hash_int64 key =
     (let key = NOT key + push_bit 21 key;
          key = key XOR drop_bit 24 key;
          key = (key + push_bit 3 key) + push_bit 8 key;
          key = key XOR drop_bit 14 key;
          key = (key + push_bit 2 key) + push_bit 4 key;
          key = key XOR drop_bit 28 key
      in key + push_bit 31 key)"

definition ponyint_hash_int32 :: "uint32_t \<Rightarrow> uint32_t" where
  "ponyint_hash_int32 key =
     (let key = NOT key + push_bit 15 key;
          key = key XOR drop_bit 12 key;
          key = key + push_bit 2 key;
          key = key XOR drop_bit 4 key;
          key = (key + push_bit 3 key) + push_bit 11 key
      in key XOR drop_bit 16 key)"

definition ponyint_hash_ptr :: "uint64_t \<Rightarrow> uint64_t" where
  "ponyint_hash_ptr p = ponyint_hash_int64 p"

definition ponyint_hash_size :: "uint64_t \<Rightarrow> uint64_t" where
  "ponyint_hash_size key = ponyint_hash_int64 key"

text \<open>The compiler builtin behind \<^verbatim>\<open>__pony_clzzu\<close>, on its 64-bit branch.\<close>

definition pony_clzzu :: "uint64_t \<Rightarrow> nat" where
  "pony_clzzu x = length (takeWhile Not (map (bit x) (rev [0..<64])))"

definition ponyint_next_pow2 :: "uint64_t \<Rightarrow> uint64_t" where
  "ponyint_next_pow2 i =
     (let i = i - 1;
          n = (if i = 0 then 64 else pony_clzzu i)
      in push_bit (if n = 0 then 0 else 64 - n) 1)"

section \<open>The mixers are injective\<close>

lemma mult_unit_inj: "c * d = 1 \<Longrightarrow> a * c = b * c \<Longrightarrow> a = (b :: 'a :: comm_semiring_1)"
  by (metis mult.assoc mult.right_neutral)

lemma xorshift_inj:
  assumes "0 < k" "x XOR drop_bit k x = y XOR drop_bit k (y :: 'a :: len word)"
  shows "x = y"
proof (rule bit_word_eqI)
  fix n
  assume "n < LENGTH('a)"
  have "bit x m = bit y m" if "LENGTH('a) - m = d" for d m
    using that
  proof (induction d arbitrary: m rule: less_induct)
    case (less d)
    show ?case
    proof (cases "m < LENGTH('a)")
      case True
      then have "bit x (k + m) = bit y (k + m)"
        using less.IH [of "LENGTH('a) - (k + m)" "k + m"] less.prems assms(1) by simp
      moreover have "bit (x XOR drop_bit k x) m = bit (y XOR drop_bit k y) m"
        by (simp only: assms(2))
      ultimately show ?thesis using True by (auto simp: bit_xor_iff bit_drop_bit_eq)
    next
      case False
      then show ?thesis by (auto dest: bit_imp_le_length)
    qed
  qed
  then show "bit x n = bit y n" by simp
qed

lemma push_bit_mult: "push_bit n (w :: 'a :: len word) = w * 2 ^ n"
  by (rule push_bit_eq_mult)

lemma not_plus_push: "NOT (k :: 'a :: len word) + push_bit n k = k * (2 ^ n - 1) - 1"
  by (simp add: not_eq_complement push_bit_mult algebra_simps)

lemma shift_sum: "(k :: 'a :: len word) + push_bit m k = k * (1 + 2 ^ m)"
  "(k + push_bit m k) + push_bit n k = k * (1 + 2 ^ m + 2 ^ n)"
  by (simp_all only: push_bit_mult distrib_left mult_1_right)

lemma mult_inj: "(c :: 'a :: len word) * d = 1 \<Longrightarrow> inj (\<lambda>k. k * c)"
  by (rule injI) (rule mult_unit_inj)

lemma mult_pred_inj: "(c :: 'a :: len word) * d = 1 \<Longrightarrow> inj (\<lambda>k. k * c - 1)"
  by (rule injI) (auto intro: mult_unit_inj)

lemma xorshift_inj_fun: "0 < n \<Longrightarrow> inj (\<lambda>k :: 'a :: len word. k XOR drop_bit n k)"
  by (rule injI) (rule xorshift_inj)

lemma ponyint_hash_int64_steps:
  "ponyint_hash_int64 =
     (\<lambda>k. k * (1 + 2 ^ 31)) \<circ> (\<lambda>k. k XOR drop_bit 28 k) \<circ> (\<lambda>k. k * (1 + 2 ^ 2 + 2 ^ 4)) \<circ>
     (\<lambda>k. k XOR drop_bit 14 k) \<circ> (\<lambda>k. k * (1 + 2 ^ 3 + 2 ^ 8)) \<circ> (\<lambda>k. k XOR drop_bit 24 k) \<circ>
     (\<lambda>k. k * (2 ^ 21 - 1) - 1)"
  unfolding ponyint_hash_int64_def not_plus_push shift_sum(2)
  unfolding shift_sum(1) Let_def by (simp only: comp_def)

lemma ponyint_hash_int32_steps:
  "ponyint_hash_int32 =
     (\<lambda>k. k XOR drop_bit 16 k) \<circ> (\<lambda>k. k * (1 + 2 ^ 3 + 2 ^ 11)) \<circ> (\<lambda>k. k XOR drop_bit 4 k) \<circ>
     (\<lambda>k. k * (1 + 2 ^ 2)) \<circ> (\<lambda>k. k XOR drop_bit 12 k) \<circ> (\<lambda>k. k * (2 ^ 15 - 1) - 1)"
  unfolding ponyint_hash_int32_def not_plus_push shift_sum(2)
  unfolding shift_sum(1) Let_def by (simp only: comp_def)

lemma hash_int64_units:
  "(1 + 2 ^ 31) * 4611686016279904257 = (1 :: uint64_t)"
  "(1 + 2 ^ 2 + 2 ^ 4) * 14933078535860113213 = (1 :: uint64_t)"
  "(1 + 2 ^ 3 + 2 ^ 8) * 15244667743933553977 = (1 :: uint64_t)"
  "(2 ^ 21 - 1) * 9223367638806167551 = (1 :: uint64_t)"
  by simp_all

lemma hash_int32_units:
  "(1 + 2 ^ 3 + 2 ^ 11) * 3369993785 = (1 :: uint32_t)"
  "(1 + 2 ^ 2) * 3435973837 = (1 :: uint32_t)"
  "(2 ^ 15 - 1) * 3221192703 = (1 :: uint32_t)"
  by simp_all

lemma ponyint_hash_int64_inj: "inj ponyint_hash_int64"
  unfolding ponyint_hash_int64_steps
  by (intro inj_compose xorshift_inj_fun mult_inj [OF hash_int64_units(1)]
      mult_inj [OF hash_int64_units(2)] mult_inj [OF hash_int64_units(3)]
      mult_pred_inj [OF hash_int64_units(4)]) simp_all

lemma ponyint_hash_int32_inj: "inj ponyint_hash_int32"
  unfolding ponyint_hash_int32_steps
  by (intro inj_compose xorshift_inj_fun mult_inj [OF hash_int32_units(1)]
      mult_inj [OF hash_int32_units(2)] mult_pred_inj [OF hash_int32_units(3)]) simp_all

section \<open>Rounding up to a power of two\<close>

lemma leading_zeros_rev:
  assumes "P m" "m < n" "\<And>i. m < i \<Longrightarrow> i < n \<Longrightarrow> \<not> P i"
  shows "length (takeWhile Not (map P (rev [0..<n]))) = n - Suc m"
  using assms
proof (induction n)
  case (Suc n)
  then show ?case by (cases "m = n") auto
qed simp

lemma highest_bit:
  assumes "(x :: uint64_t) \<noteq> 0"
  obtains m where "m < 64" "bit x m" "\<And>i. m < i \<Longrightarrow> \<not> bit x i" "2 ^ m \<le> unat x" "unat x < 2 ^ Suc m"
proof -
  define B where "B = {i. bit x i}"
  have le: "i < 64" if "bit x i" for i using bit_imp_le_length [OF that] by simp
  have fin: "finite B" using le by (auto simp: B_def intro: finite_subset [of _ "{..<64}"])
  have "B \<noteq> {}" using assms by (auto simp: B_def bit_eq_iff)
  define m where "m = Max B"
  have "m \<in> B" unfolding m_def using fin \<open>B \<noteq> {}\<close> by (rule Max_in)
  then have m: "bit x m" "m < 64" using le by (auto simp: B_def)
  have up: "\<not> bit x i" if "m < i" for i
    using Max_ge [OF fin, of i] that unfolding m_def [symmetric] by (auto simp: B_def)
  have "bit (unat x) m" using m by (simp add: bit_unsigned_iff)
  then have "odd (unat x div 2 ^ m)" by (rule iffD1 [OF bit_iff_odd])
  then have "0 < unat x div 2 ^ m" by (rule odd_pos)
  then have "2 ^ m \<le> unat x" by (simp add: div_greater_zero_iff)
  moreover have "take_bit (Suc m) x = x"
    by (rule bit_word_eqI) (use up linorder_neqE_nat in \<open>auto simp: bit_take_bit_iff less_Suc_eq\<close>)
  then have "take_bit (Suc m) (unat x) = unat x" by (metis unsigned_take_bit_eq)
  then have "unat x < 2 ^ Suc m" by (simp only: take_bit_nat_eq_self_iff)
  ultimately show ?thesis using that m up by blast
qed

lemma ponyint_next_pow2_value:
  assumes "1 < i" "i \<le> 2 ^ 63"
  obtains m where "m < 63" "ponyint_next_pow2 i = 2 ^ Suc m"
    "2 ^ m < unat i" "unat i \<le> 2 ^ Suc m"
proof -
  have u: "unat (i - 1) = unat i - 1" "1 < unat i" "unat i \<le> 2 ^ 63"
    using assms by (simp_all add: unat_sub_if' word_less_nat_alt word_le_nat_alt)
  then have nz: "i - 1 \<noteq> 0" by auto
  then obtain m where m: "m < 64" "bit (i - 1) m" "\<And>j. m < j \<Longrightarrow> \<not> bit (i - 1) j"
      "2 ^ m \<le> unat (i - 1)" "unat (i - 1) < 2 ^ Suc m"
    by (rule highest_bit) blast
  have "(2 :: nat) ^ m < 2 ^ 63" using m(4) u by linarith
  then have m63: "m < 63" by (rule power_less_imp_less_exp [rotated]) simp
  have "pony_clzzu (i - 1) = 63 - m"
    unfolding pony_clzzu_def using leading_zeros_rev [of "bit (i - 1)" m 64] m by simp
  then have "ponyint_next_pow2 i = 2 ^ Suc m"
    using nz m63 by (simp add: ponyint_next_pow2_def push_bit_eq_mult)
  with m63 m(4,5) u that show ?thesis by auto
qed

section \<open>Properties\<close>

text \<open>
  Neither integer mixer loses information: distinct pointers and distinct sizes have distinct
  hashes on both word sizes, so a collision in a table comes from its mask only.
\<close>

lemma hash_int_injective: "inj ponyint_hash_int64 \<and> inj ponyint_hash_int32"
  using ponyint_hash_int64_inj ponyint_hash_int32_inj by blast

text \<open>
  From 1 to \<open>2 ^ 63\<close>, \<open>ponyint_next_pow2\<close> is the least power of two that is not below its argument.
\<close>

lemma next_pow2_least:
  assumes "1 \<le> i" "i \<le> 2 ^ 63"
  shows "\<exists>k. unat (ponyint_next_pow2 i) = 2 ^ k \<and> unat i \<le> 2 ^ k \<and> 2 ^ k < 2 * unat i"
proof (cases "i = 1")
  case True
  then show ?thesis by (intro exI [of _ 0]) (simp add: ponyint_next_pow2_def)
next
  case False
  with assms(1) have "1 < i" by simp
  then obtain m where "m < 63" "ponyint_next_pow2 i = 2 ^ Suc m" "2 ^ m < unat i" "unat i \<le> 2 ^ Suc m"
    using assms(2) by (rule ponyint_next_pow2_value)
  then have "unat (ponyint_next_pow2 i) = 2 ^ Suc m" "2 ^ Suc m < 2 * unat i"
    using unat_exp_u64 [of "Suc m"] by (simp_all del: power_Suc, simp)
  with \<open>unat i \<le> 2 ^ Suc m\<close> show ?thesis by blast
qed

end
