(* ===== verification/Hashmap.thy ===== *)
theory Hashmap
  imports Hashfun
begin

text \<open>
  The hash table of the runtime, \<^verbatim>\<open>src/libponyrt/ds/hash.c\<close>: open addressing with linear probing, robin
  hood insertion, backward-shift deletion, and a bitmap of the occupied buckets that iteration scans
  a word at a time.  Every other container of the garbage collector is an instance of it.

  Counts, sizes and bucket indices are naturals.  A table that exists has fewer than \<open>2 ^ 60\<close> buckets
  of 16 bytes, so their sums and the eightfold growth do not wrap around; the one place that wraps by
  design, the iterator's start value, is written out.  Hashes are 64-bit words.
\<close>

section \<open>Representation\<close>

definition HASHMAP_BEGIN :: nat where
  "HASHMAP_BEGIN = 2 ^ 64 - 1"

definition HASHMAP_UNKNOWN :: nat where
  "HASHMAP_UNKNOWN = 2 ^ 64 - 1"

definition HASHMAP_BITMAP_TYPE_BITS :: nat where
  "HASHMAP_BITMAP_TYPE_BITS = 6"

definition HASHMAP_BITMAP_TYPE_SIZE :: nat where
  "HASHMAP_BITMAP_TYPE_SIZE = push_bit HASHMAP_BITMAP_TYPE_BITS 1"

definition HASHMAP_BITMAP_TYPE_MASK :: nat where
  "HASHMAP_BITMAP_TYPE_MASK = HASHMAP_BITMAP_TYPE_SIZE - 1"

definition MIN_HASHMAP_SIZE :: nat where
  "MIN_HASHMAP_SIZE = 8"

text \<open>A bucket holds a pointer to an element, \<open>None\<close> for \<^verbatim>\<open>NULL\<close>.\<close>

record 'a hashmap_entry_t =
  he_ptr :: "'a option"
  he_hash :: uint64_t

record 'a hashmap_t =
  hm_count :: nat
  hm_size :: nat
  hm_bitmap :: "uint64_t list"
  hm_buckets :: "'a hashmap_entry_t list"

definition HASHMAP_INIT :: "'a hashmap_t" where
  "HASHMAP_INIT = \<lparr>hm_count = 0, hm_size = 0, hm_bitmap = [], hm_buckets = []\<rparr>"

text \<open>
  The bitmap and the buckets are one allocation, the bitmap first.  Buckets of a new table are not
  initialised, and the iterator may fetch a word past the last bitmap word, which is then bucket
  memory; neither value is ever used.  \<open>fresh_bucket\<close> and the 0 below stand for them.
\<close>

definition fresh_bucket :: "'a hashmap_entry_t" where
  "fresh_bucket = \<lparr>he_ptr = None, he_hash = 0\<rparr>"

definition bitmap_word :: "uint64_t list \<Rightarrow> nat \<Rightarrow> uint64_t" where
  "bitmap_word bm k = (if k < length bm then bm ! k else 0)"

definition bucket :: "'a hashmap_entry_t list \<Rightarrow> nat \<Rightarrow> 'a hashmap_entry_t" where
  "bucket bs i = (if i < length bs then bs ! i else fresh_bucket)"

text \<open>The test, set and clear of one bit, with the source's \<^verbatim>\<open>ib_index\<close> and \<^verbatim>\<open>ib_offset\<close>.\<close>

definition ib_index :: "nat \<Rightarrow> nat" where
  "ib_index index = drop_bit HASHMAP_BITMAP_TYPE_BITS index"

definition ib_offset :: "nat \<Rightarrow> nat" where
  "ib_offset index = index AND HASHMAP_BITMAP_TYPE_MASK"

definition bitmap_test :: "uint64_t list \<Rightarrow> nat \<Rightarrow> bool" where
  "bitmap_test bm i \<longleftrightarrow> bitmap_word bm (ib_index i) AND push_bit (ib_offset i) 1 \<noteq> 0"

definition bitmap_set :: "uint64_t list \<Rightarrow> nat \<Rightarrow> uint64_t list" where
  "bitmap_set bm i = bm[ib_index i := bitmap_word bm (ib_index i) OR push_bit (ib_offset i) 1]"

definition bitmap_clear :: "uint64_t list \<Rightarrow> nat \<Rightarrow> uint64_t list" where
  "bitmap_clear bm i = bm[ib_index i := bitmap_word bm (ib_index i) AND NOT (push_bit (ib_offset i) 1)]"

section \<open>Probing\<close>

definition get_probe_length :: "'a hashmap_t \<Rightarrow> uint64_t \<Rightarrow> nat \<Rightarrow> nat \<Rightarrow> nat" where
  "get_probe_length m h current msk =
     (current + hm_size m - (unat h AND msk)) AND msk"

text \<open>
  The out-parameters of \<^verbatim>\<open>search\<close> are returned with the element: position, probe length, and the
  probe length of the element in the way, which is passed through unless the search stops at one.
  A set bit comes with a pointer, so the comparison never sees \<^verbatim>\<open>NULL\<close>.
\<close>

fun search_loop ::
  "'a hashmap_t \<Rightarrow> 'a \<Rightarrow> uint64_t \<Rightarrow> ('a \<Rightarrow> 'a \<Rightarrow> bool) \<Rightarrow> nat \<Rightarrow> nat \<Rightarrow> nat \<Rightarrow> nat \<Rightarrow> nat
   \<Rightarrow> 'a option \<times> nat \<times> nat \<times> nat" where
  "search_loop m key h cmp msk 0 index p_length oi = (None, hm_size m, p_length, oi)"
| "search_loop m key h cmp msk (Suc n) index p_length oi =
     (if \<not> bitmap_test (hm_bitmap m) index then (None, index, p_length, oi)
      else
        let elem_hash = he_hash (bucket (hm_buckets m) index);
            oi_p_length = get_probe_length m elem_hash index msk
        in if p_length > oi_p_length then (None, index, p_length, oi_p_length)
        else
          case he_ptr (bucket (hm_buckets m) index) of
            Some elem \<Rightarrow>
              if h = elem_hash \<and> cmp key elem then (Some elem, index, p_length, oi)
              else search_loop m key h cmp msk n ((index + 1) AND msk) (p_length + 1) oi
          | None \<Rightarrow> search_loop m key h cmp msk n ((index + 1) AND msk) (p_length + 1) oi)"

definition search ::
  "'a hashmap_t \<Rightarrow> 'a \<Rightarrow> uint64_t \<Rightarrow> ('a \<Rightarrow> 'a \<Rightarrow> bool) \<Rightarrow> nat \<Rightarrow> nat
   \<Rightarrow> 'a option \<times> nat \<times> nat \<times> nat" where
  "search m key h cmp probe_length oi_probe_length =
     (let msk = hm_size m - 1
      in search_loop m key h cmp msk (msk + 1)
           (((unat h AND msk) + probe_length) AND msk) probe_length oi_probe_length)"

definition ponyint_hashmap_get ::
  "'a hashmap_t \<Rightarrow> 'a \<Rightarrow> uint64_t \<Rightarrow> ('a \<Rightarrow> 'a \<Rightarrow> bool) \<Rightarrow> nat \<Rightarrow> 'a option \<times> nat" where
  "ponyint_hashmap_get m key h cmp pos =
     (if hm_count m = 0 then (None, pos)
      else let (elem, pos', probe_length, oi_probe_length) = search m key h cmp 0 0
           in (elem, pos'))"

section \<open>Iteration\<close>

text \<open>The compiler builtin behind \<^verbatim>\<open>__pony_ffszu\<close>: one plus the lowest set bit, or 0.\<close>

definition pony_ffszu :: "uint64_t \<Rightarrow> nat" where
  "pony_ffszu x = (case find (bit x) [0..<64] of None \<Rightarrow> 0 | Some n \<Rightarrow> Suc n)"

fun hashmap_next_loop ::
  "nat \<Rightarrow> uint64_t list \<Rightarrow> nat \<Rightarrow> 'a hashmap_entry_t list \<Rightarrow> nat \<Rightarrow> nat \<Rightarrow> nat \<Rightarrow> uint64_t
   \<Rightarrow> ('a option \<times> nat) res" where
  "hashmap_next_loop 0 bm sz bs index ibi ibo ib = Inl Out_of_fuel"
| "hashmap_next_loop (Suc n) bm sz bs index ibi ibo ib =
     (if index < sz then
        let ffs_offset = pony_ffszu ib
        in if ffs_offset = 0 then
             hashmap_next_loop n bm sz bs (index + (HASHMAP_BITMAP_TYPE_SIZE - ibo)) (ibi + 1) 0
               (bitmap_word bm (ibi + 1))
           else
             let index = index + (ffs_offset - 1)
             in pony_assert (he_ptr (bucket bs index) \<noteq> None)
                  (Inr (he_ptr (bucket bs index), index))
      else Inr (None, sz))"

definition ponyint_hashmap_next ::
  "nat \<Rightarrow> nat \<Rightarrow> uint64_t list \<Rightarrow> nat \<Rightarrow> 'a hashmap_entry_t list \<Rightarrow> ('a option \<times> nat) res" where
  "ponyint_hashmap_next i count bm sz bs =
     (if count = 0 then Inr (None, i)
      else let index = (i + 1) mod 2 ^ 64
           in hashmap_next_loop (sz + 1) bm sz bs index (ib_index index) (ib_offset index)
                (drop_bit (ib_offset index) (bitmap_word bm (ib_index index))))"

section \<open>Insertion and growth\<close>

definition bitmap_words :: "nat \<Rightarrow> nat" where
  "bitmap_words sz =
     drop_bit HASHMAP_BITMAP_TYPE_BITS sz + (if sz AND HASHMAP_BITMAP_TYPE_MASK = 0 then 0 else 1)"

definition ponyint_hashmap_init :: "nat \<Rightarrow> 'a hashmap_t" where
  "ponyint_hashmap_init size0 =
     (let sz = push_bit 1 size0;
          sz = (if sz < MIN_HASHMAP_SIZE then MIN_HASHMAP_SIZE
                  else unat (ponyint_next_pow2 (of_nat sz)))
      in \<lparr>hm_count = 0, hm_size = sz, hm_bitmap = replicate (bitmap_words sz) 0,
          hm_buckets = replicate sz fresh_bucket\<rparr>)"

text \<open>
  \<^verbatim>\<open>resize\<close>, \<^verbatim>\<open>ponyint_hashmap_put\<close> and \<^verbatim>\<open>shift_put\<close> call each other.  \<open>resize\<close> takes the put
  function as an argument, \<open>shift_put\<close> the resize function, and the recursion is closed below.
\<close>

fun resize_copy ::
  "nat \<Rightarrow> ('a hashmap_t \<Rightarrow> 'a \<Rightarrow> uint64_t \<Rightarrow> ('a option \<times> 'a hashmap_t) res)
   \<Rightarrow> 'a hashmap_t \<Rightarrow> nat \<Rightarrow> 'a hashmap_t \<Rightarrow> 'a hashmap_t res" where
  "resize_copy 0 put old i m = Inl Out_of_fuel"
| "resize_copy (Suc n) put old i m =
     res_bind (ponyint_hashmap_next i (hm_count old) (hm_bitmap old) (hm_size old) (hm_buckets old))
       (\<lambda>(curr, i').
          case curr of
            None \<Rightarrow> Inr m
          | Some e \<Rightarrow>
              res_bind (put m e (he_hash (bucket (hm_buckets old) i')))
                (\<lambda>(old_elem, m'). resize_copy n put old i' m'))"

definition resize ::
  "('a hashmap_t \<Rightarrow> 'a \<Rightarrow> uint64_t \<Rightarrow> ('a option \<times> 'a hashmap_t) res)
   \<Rightarrow> 'a hashmap_t \<Rightarrow> 'a hashmap_t res" where
  "resize put m =
     (let s = hm_size m;
          c = hm_count m;
          sz = (if s < MIN_HASHMAP_SIZE then MIN_HASHMAP_SIZE else push_bit 3 s);
          new = \<lparr>hm_count = 0, hm_size = sz, hm_bitmap = replicate (bitmap_words sz) 0,
                 hm_buckets = replicate sz fresh_bucket\<rparr>
      in res_bind (resize_copy (c + 1) put m HASHMAP_BEGIN new)
           (\<lambda>m'. pony_assert (hm_count m' = c) (Inr m')))"

text \<open>Storing into a bucket, and taking an empty bucket, with the growth that may follow.\<close>

definition store :: "'a hashmap_t \<Rightarrow> nat \<Rightarrow> 'a \<Rightarrow> uint64_t \<Rightarrow> 'a hashmap_t" where
  "store m pos entry h =
     m\<lparr>hm_buckets := (hm_buckets m)[pos := \<lparr>he_ptr = Some entry, he_hash = h\<rparr>]\<rparr>"

definition occupy ::
  "('a hashmap_t \<Rightarrow> 'a hashmap_t res) \<Rightarrow> 'a hashmap_t \<Rightarrow> nat \<Rightarrow> 'a \<Rightarrow> uint64_t \<Rightarrow> 'a hashmap_t res" where
  "occupy grow m pos entry h =
     (let m = store m pos entry h;
          m = m\<lparr>hm_count := hm_count m + 1, hm_bitmap := bitmap_set (hm_bitmap m) pos\<rparr>
      in if push_bit 1 (hm_count m) > hm_size m then grow m else Inr m)"

fun shift_put_loop ::
  "nat \<Rightarrow> ('a hashmap_t \<Rightarrow> 'a hashmap_t res) \<Rightarrow> ('a \<Rightarrow> 'a \<Rightarrow> bool)
   \<Rightarrow> 'a hashmap_t \<Rightarrow> 'a option \<Rightarrow> 'a \<Rightarrow> uint64_t \<Rightarrow> nat \<Rightarrow> nat \<Rightarrow> 'a hashmap_t res" where
  "shift_put_loop 0 grow cmp m elem ci_entry ci_hash pos oi_probe_length = Inl Out_of_fuel"
| "shift_put_loop (Suc n) grow cmp m elem ci_entry ci_hash pos oi_probe_length =
     pony_assert (pos < hm_size m)
       (if elem = None \<and> bitmap_test (hm_bitmap m) pos then
          (case he_ptr (bucket (hm_buckets m) pos) of
             None \<Rightarrow> Inl Null_deref
           | Some oi_entry \<Rightarrow>
               let oi_hash = he_hash (bucket (hm_buckets m) pos);
                   m = store m pos ci_entry ci_hash;
                   (elem, pos', probe_length, oi_probe_length') =
                     search m oi_entry oi_hash cmp oi_probe_length oi_probe_length
               in shift_put_loop n grow cmp m elem oi_entry oi_hash pos' oi_probe_length')
        else if elem = None then occupy grow m pos ci_entry ci_hash
        else Inr (store m pos ci_entry ci_hash))"

definition shift_put ::
  "('a hashmap_t \<Rightarrow> 'a hashmap_t res) \<Rightarrow> ('a \<Rightarrow> 'a \<Rightarrow> bool)
   \<Rightarrow> 'a hashmap_t \<Rightarrow> 'a \<Rightarrow> uint64_t \<Rightarrow> nat \<Rightarrow> nat \<Rightarrow> nat \<Rightarrow> 'a option \<Rightarrow> 'a hashmap_t res" where
  "shift_put grow cmp m entry h index pl oi_pl e =
     pony_assert (pl > oi_pl \<or> pl = oi_pl \<and> pl = 0)
       (shift_put_loop (hm_size m + 1) grow cmp m e entry h index oi_pl)"

definition hashmap_put_with ::
  "('a hashmap_t \<Rightarrow> 'a hashmap_t res) \<Rightarrow> ('a \<Rightarrow> 'a \<Rightarrow> bool)
   \<Rightarrow> 'a hashmap_t \<Rightarrow> 'a \<Rightarrow> uint64_t \<Rightarrow> ('a option \<times> 'a hashmap_t) res" where
  "hashmap_put_with grow cmp m entry h =
     (let m = (if hm_size m = 0 then ponyint_hashmap_init 4 else m);
          (elem, pos, probe_length, oi_probe_length) = search m entry h cmp 0 0
      in res_bind (shift_put grow cmp m entry h pos probe_length oi_probe_length elem)
           (\<lambda>m'. Inr (elem, m')))"

text \<open>
  \<open>hashmap_put_nest n\<close> is \<^verbatim>\<open>ponyint_hashmap_put\<close> with at most \<open>n\<close> calls of it on the stack.  Two are
  enough: a table that has just grown is far from half full, so the insertions of \<^verbatim>\<open>resize\<close>
  never grow it again.
\<close>

fun hashmap_put_nest ::
  "nat \<Rightarrow> ('a \<Rightarrow> 'a \<Rightarrow> bool) \<Rightarrow> 'a hashmap_t \<Rightarrow> 'a \<Rightarrow> uint64_t \<Rightarrow> ('a option \<times> 'a hashmap_t) res" where
  "hashmap_put_nest 0 cmp m entry h = Inl Out_of_fuel"
| "hashmap_put_nest (Suc n) cmp m entry h =
     hashmap_put_with (resize (hashmap_put_nest n cmp)) cmp m entry h"

definition ponyint_hashmap_put ::
  "('a \<Rightarrow> 'a \<Rightarrow> bool) \<Rightarrow> 'a hashmap_t \<Rightarrow> 'a \<Rightarrow> uint64_t \<Rightarrow> ('a option \<times> 'a hashmap_t) res" where
  "ponyint_hashmap_put cmp = hashmap_put_nest 2 cmp"

definition hashmap_resize :: "('a \<Rightarrow> 'a \<Rightarrow> bool) \<Rightarrow> 'a hashmap_t \<Rightarrow> 'a hashmap_t res" where
  "hashmap_resize cmp = resize (hashmap_put_nest 1 cmp)"

definition ponyint_hashmap_putindex ::
  "('a \<Rightarrow> 'a \<Rightarrow> bool) \<Rightarrow> 'a hashmap_t \<Rightarrow> 'a \<Rightarrow> uint64_t \<Rightarrow> nat \<Rightarrow> 'a hashmap_t res" where
  "ponyint_hashmap_putindex cmp m entry h pos =
     (if pos = HASHMAP_UNKNOWN then
        res_bind (ponyint_hashmap_put cmp m entry h) (\<lambda>(elem, m'). Inr m')
      else
        let m = (if hm_size m = 0 then ponyint_hashmap_init 4 else m)
        in pony_assert (pos < hm_size m)
             (if \<not> bitmap_test (hm_bitmap m) pos then
                occupy (hashmap_resize cmp) m pos entry h
              else
                let msk = hm_size m - 1;
                    oi_hash = he_hash (bucket (hm_buckets m) pos);
                    oi_probe_length = get_probe_length m oi_hash pos msk;
                    ci_probe_length = get_probe_length m h pos msk
                in if ci_probe_length > oi_probe_length then
                     shift_put (hashmap_resize cmp) cmp m entry h pos ci_probe_length
                       oi_probe_length None
                   else
                     res_bind (ponyint_hashmap_put cmp m entry h) (\<lambda>(elem, m'). Inr m')))"

section \<open>Removal\<close>

definition clear_bucket :: "'a hashmap_t \<Rightarrow> nat \<Rightarrow> 'a hashmap_t" where
  "clear_bucket m pos =
     m\<lparr>hm_buckets := (hm_buckets m)[pos := (bucket (hm_buckets m) pos)\<lparr>he_ptr := None\<rparr>],
         hm_count := hm_count m - 1,
         hm_bitmap := bitmap_clear (hm_bitmap m) pos\<rparr>"

fun shift_delete_loop :: "nat \<Rightarrow> nat \<Rightarrow> 'a hashmap_t \<Rightarrow> nat \<Rightarrow> ('a hashmap_t \<times> nat) res" where
  "shift_delete_loop 0 msk m pos = Inl Out_of_fuel"
| "shift_delete_loop (Suc n) msk m pos =
     (let next_pos = (pos + 1) AND msk;
          ni_hash = he_hash (bucket (hm_buckets m) next_pos)
      in if bitmap_test (hm_bitmap m) next_pos \<and> get_probe_length m ni_hash next_pos msk \<noteq> 0
         then shift_delete_loop n msk
                (m\<lparr>hm_buckets := (hm_buckets m)[pos := bucket (hm_buckets m) next_pos]\<rparr>) next_pos
         else Inr (m, pos))"

definition shift_delete :: "'a hashmap_t \<Rightarrow> nat \<Rightarrow> 'a hashmap_t res" where
  "shift_delete m index =
     pony_assert (index < hm_size m)
       (res_bind (shift_delete_loop (hm_size m) (hm_size m - 1) m index)
          (\<lambda>(m', pos). Inr (clear_bucket m' pos)))"

definition ponyint_hashmap_remove ::
  "('a \<Rightarrow> 'a \<Rightarrow> bool) \<Rightarrow> 'a hashmap_t \<Rightarrow> 'a \<Rightarrow> uint64_t \<Rightarrow> ('a option \<times> 'a hashmap_t) res" where
  "ponyint_hashmap_remove cmp m entry h =
     (if hm_count m = 0 then Inr (None, m)
      else let (elem, pos, probe_length, oi_probe_length) = search m entry h cmp 0 0
           in if elem \<noteq> None then res_bind (shift_delete m pos) (\<lambda>m'. Inr (elem, m'))
              else Inr (elem, m))"

definition ponyint_hashmap_removeindex :: "'a hashmap_t \<Rightarrow> nat \<Rightarrow> 'a hashmap_t res" where
  "ponyint_hashmap_removeindex m index =
     (if hm_size m \<le> index then Inr m
      else if bitmap_test (hm_bitmap m) index then shift_delete m index
      else Inr m)"

definition ponyint_hashmap_clearindex :: "'a hashmap_t \<Rightarrow> nat \<Rightarrow> 'a hashmap_t" where
  "ponyint_hashmap_clearindex m index =
     (if hm_size m \<le> index then m
      else if \<not> bitmap_test (hm_bitmap m) index then m
      else clear_bucket m index)"

section \<open>Repair after clearing\<close>

fun optimize_item_loop ::
  "('a \<Rightarrow> 'a \<Rightarrow> bool) \<Rightarrow> 'a \<Rightarrow> uint64_t \<Rightarrow> nat \<Rightarrow> nat \<Rightarrow> nat \<Rightarrow> 'a hashmap_t \<Rightarrow> nat
   \<Rightarrow> (nat \<times> 'a hashmap_t) res" where
  "optimize_item_loop cmp entry h old_index msk 0 m index = Inr (0, m)"
| "optimize_item_loop cmp entry h old_index msk (Suc n) m index =
     (if index = old_index then Inr (0, m)
      else if \<not> bitmap_test (hm_bitmap m) index \<or>
        get_probe_length m h index msk >
          get_probe_length m (he_hash (bucket (hm_buckets m) index)) index msk
      then res_bind
             (ponyint_hashmap_putindex cmp (ponyint_hashmap_clearindex m old_index) entry h index)
             (\<lambda>m'. Inr (1, m'))
      else optimize_item_loop cmp entry h old_index msk n m ((index + 1) AND msk))"

definition optimize_item ::
  "('a \<Rightarrow> 'a \<Rightarrow> bool) \<Rightarrow> 'a hashmap_t \<Rightarrow> nat \<Rightarrow> (nat \<times> 'a hashmap_t) res" where
  "optimize_item cmp m old_index =
     (let msk = hm_size m - 1;
          b = bucket (hm_buckets m) old_index
      in case he_ptr b of
           None \<Rightarrow> Inl Null_deref
         | Some entry \<Rightarrow>
             optimize_item_loop cmp entry (he_hash b) old_index msk (msk + 1) m
               (unat (he_hash b) AND msk))"

fun optimize_pass ::
  "nat \<Rightarrow> ('a \<Rightarrow> 'a \<Rightarrow> bool) \<Rightarrow> 'a hashmap_t \<Rightarrow> nat \<Rightarrow> nat \<Rightarrow> (nat \<times> 'a hashmap_t) res" where
  "optimize_pass 0 cmp m i count = Inl Out_of_fuel"
| "optimize_pass (Suc n) cmp m i count =
     res_bind (ponyint_hashmap_next i (hm_count m) (hm_bitmap m) (hm_size m) (hm_buckets m))
       (\<lambda>(elem, i').
          if elem \<noteq> None then
            res_bind (optimize_item cmp m i') (\<lambda>(d, m'). optimize_pass n cmp m' i' (count + d))
          else Inr (count, m))"

text \<open>Every pass visits strictly growing indices, so a pass has fuel for each bucket; passes have \<open>fuel\<close>.\<close>

fun ponyint_hashmap_optimize ::
  "nat \<Rightarrow> ('a \<Rightarrow> 'a \<Rightarrow> bool) \<Rightarrow> 'a hashmap_t \<Rightarrow> 'a hashmap_t res" where
  "ponyint_hashmap_optimize 0 cmp m = Inl Out_of_fuel"
| "ponyint_hashmap_optimize (Suc fuel) cmp m =
     res_bind (optimize_pass (hm_size m + 1) cmp m HASHMAP_BEGIN 0)
       (\<lambda>(count, m'). if count > 0 then ponyint_hashmap_optimize fuel cmp m' else Inr m')"

section \<open>Whole-table operations\<close>

fun destroy_loop :: "nat \<Rightarrow> ('s \<Rightarrow> 'a \<Rightarrow> 's) \<Rightarrow> 'a hashmap_t \<Rightarrow> nat \<Rightarrow> 's \<Rightarrow> 's res" where
  "destroy_loop 0 free_elem m i s = Inl Out_of_fuel"
| "destroy_loop (Suc n) free_elem m i s =
     res_bind (ponyint_hashmap_next i (hm_count m) (hm_bitmap m) (hm_size m) (hm_buckets m))
       (\<lambda>(curr, i'). case curr of None \<Rightarrow> Inr s | Some e \<Rightarrow> destroy_loop n free_elem m i' (free_elem s e))"

text \<open>\<open>free_elem\<close> is \<open>None\<close> for a \<^verbatim>\<open>NULL\<close> function; what it does is a change of a state \<open>'s\<close>.\<close>

definition ponyint_hashmap_destroy ::
  "('s \<Rightarrow> 'a \<Rightarrow> 's) option \<Rightarrow> 'a hashmap_t \<Rightarrow> 's \<Rightarrow> ('a hashmap_t \<times> 's) res" where
  "ponyint_hashmap_destroy free_elem m s =
     res_bind (case free_elem of None \<Rightarrow> Inr s
               | Some f \<Rightarrow> destroy_loop (hm_count m + 1) f m HASHMAP_BEGIN s)
       (\<lambda>s'. Inr (HASHMAP_INIT, s'))"

definition ponyint_hashmap_size :: "'a hashmap_t \<Rightarrow> nat" where
  "ponyint_hashmap_size m = hm_count m"

definition ponyint_hashmap_mem_size :: "'a hashmap_t \<Rightarrow> nat" where
  "ponyint_hashmap_mem_size m = bitmap_words (hm_size m) * 8 + hm_size m * 16"

section \<open>Bitmap laws\<close>

lemma nat_and_mask: "(x :: nat) AND (2 ^ k - 1) = x mod 2 ^ k"
  by (simp only: mask_eq_exp_minus_1 [symmetric] take_bit_eq_mask [symmetric] take_bit_eq_mod)

lemmas bitmap_consts = HASHMAP_BITMAP_TYPE_BITS_def HASHMAP_BITMAP_TYPE_MASK_def
  HASHMAP_BITMAP_TYPE_SIZE_def

lemma ib_simps [simp]: "ib_index i = i div 64" "ib_offset i = i mod 64"
  using nat_and_mask [of i 6]
  by (simp_all add: ib_index_def ib_offset_def bitmap_consts drop_bit_eq_div)

lemma bitmap_test_iff:
  "bitmap_test bm i \<longleftrightarrow> i div 64 < length bm \<and> bit (bm ! (i div 64)) (i mod 64)"
  by (simp add: bitmap_test_def bitmap_word_def bit_iff_and_push_bit_not_eq_0)

lemma same_bit: "i div 64 = j div 64 \<and> i mod 64 = j mod 64 \<longleftrightarrow> i = (j :: nat)"
  by (metis div_mult_mod_eq)

lemma bitmap_test_set [simp]:
  assumes "i div 64 < length bm"
  shows "bitmap_test (bitmap_set bm i) j \<longleftrightarrow> j = i \<or> bitmap_test bm j"
proof -
  have "bit (w OR push_bit (i mod 64) 1) (j mod 64) \<longleftrightarrow> bit w (j mod 64) \<or> i mod 64 = j mod 64"
    for w :: uint64_t
    by (auto simp: bit_or_iff push_bit_eq_mult bit_exp_iff)
  then show ?thesis
    using assms same_bit [of i j]
    by (auto simp: bitmap_test_iff bitmap_set_def bitmap_word_def nth_list_update)
qed

lemma bitmap_test_clear [simp]:
  assumes "i div 64 < length bm"
  shows "bitmap_test (bitmap_clear bm i) j \<longleftrightarrow> j \<noteq> i \<and> bitmap_test bm j"
proof -
  have "bit (w AND NOT (push_bit (i mod 64) 1)) (j mod 64) \<longleftrightarrow> bit w (j mod 64) \<and> i mod 64 \<noteq> j mod 64"
    for w :: uint64_t
    by (auto simp: bit_and_iff bit_not_iff push_bit_eq_mult bit_exp_iff)
  then show ?thesis
    using assms same_bit [of i j]
    by (auto simp: bitmap_test_iff bitmap_clear_def bitmap_word_def nth_list_update)
qed

lemma bitmap_lengths [simp]:
  "length (bitmap_set bm i) = length bm" "length (bitmap_clear bm i) = length bm"
  by (simp_all add: bitmap_set_def bitmap_clear_def)

lemma bitmap_test_zero [simp]: "\<not> bitmap_test (replicate n 0) i"
  by (simp add: bitmap_test_iff)

lemma bitmap_words_covers: "i < n \<Longrightarrow> i div 64 < bitmap_words n"
proof -
  assume "i < n"
  have w: "bitmap_words n = n div 64 + (if n mod 64 = 0 then 0 else 1)"
    using nat_and_mask [of n 6] by (simp add: bitmap_words_def bitmap_consts drop_bit_eq_div)
  show ?thesis
  proof (cases "n mod 64 = 0")
    case True
    then have "n = 64 * (n div 64)" by auto
    with \<open>i < n\<close> have "i < n div 64 * 64" by simp
    then show ?thesis using w True by (simp add: div_less_iff_less_mult)
  next
    case False
    with \<open>i < n\<close> show ?thesis using w div_le_mono [of i n 64] by simp
  qed
qed

section \<open>Distances around the table\<close>

text \<open>How far bucket \<open>i\<close> is, going up, from the home bucket of hash \<open>h\<close> in a table of \<open>N\<close> buckets.\<close>

definition dist :: "nat \<Rightarrow> uint64_t \<Rightarrow> nat \<Rightarrow> nat" where
  "dist N h i = (i + N - unat h mod N) mod N"

definition home_plus :: "nat \<Rightarrow> uint64_t \<Rightarrow> nat \<Rightarrow> nat" where
  "home_plus N h q = (unat h mod N + q) mod N"

definition before :: "nat \<Rightarrow> nat \<Rightarrow> nat" where
  "before N i = (i + N - 1) mod N"

lemma dist_less [simp]: "0 < N \<Longrightarrow> dist N h i < N"
  by (simp add: dist_def)

lemma home_plus_less [simp]: "0 < N \<Longrightarrow> home_plus N h q < N"
  by (simp add: home_plus_def)

lemma before_less [simp]: "0 < N \<Longrightarrow> before N i < N"
  by (simp add: before_def)

lemma dist_home_plus: "0 < N \<Longrightarrow> dist N h (home_plus N h q) = q mod N"
proof -
  assume N: "0 < N"
  let ?a = "unat h mod N"
  have a: "?a < N" using N by simp
  have "dist N h (home_plus N h q) = ((?a + q) mod N + (N - ?a)) mod N"
    using a by (simp add: dist_def home_plus_def)
  also have "\<dots> = (?a + q + (N - ?a)) mod N" by (rule mod_add_left_eq)
  also have "?a + q + (N - ?a) = q + N" using a by simp
  finally show ?thesis by simp
qed

lemma home_plus_dist: "i < N \<Longrightarrow> home_plus N h (dist N h i) = i"
proof -
  assume i: "i < N"
  then have N: "0 < N" by simp
  let ?a = "unat h mod N"
  have a: "?a < N" using N by simp
  have "home_plus N h (dist N h i) = (?a + (i + (N - ?a))) mod N"
    using a by (simp add: dist_def home_plus_def mod_add_right_eq)
  also have "?a + (i + (N - ?a)) = i + N" using a by simp
  finally show ?thesis using i by simp
qed

lemma home_plus_add: "(home_plus N h q + j) mod N = home_plus N h (q + j)"
  by (simp add: home_plus_def mod_simps add.assoc)

lemma home_plus_Suc: "(home_plus N h q + 1) mod N = home_plus N h (Suc q)"
  by (simp add: home_plus_def mod_Suc_eq)

lemma before_home_plus: "0 < N \<Longrightarrow> before N (home_plus N h (Suc q)) = home_plus N h q"
proof -
  assume N: "0 < N"
  let ?a = "unat h mod N"
  have "before N (home_plus N h (Suc q)) = ((?a + Suc q) mod N + (N - 1)) mod N"
    using N by (simp add: before_def home_plus_def)
  also have "\<dots> = (?a + Suc q + (N - 1)) mod N" by (rule mod_add_left_eq)
  also have "?a + Suc q + (N - 1) = ?a + q + N" using N by simp
  finally show ?thesis by (simp add: home_plus_def)
qed

lemma before_next: "i < N \<Longrightarrow> before N ((i + 1) mod N) = i"
  using before_home_plus [of N h "dist N h i" for h] home_plus_Suc [of N h "dist N h i" for h]
    home_plus_dist [of i N] by (metis gr_zeroI not_less0)

lemma next_before: "i < N \<Longrightarrow> (before N i + 1) mod N = i"
  by (simp add: before_def mod_simps)

lemma dist_next:
  assumes "i < N"
  shows "dist N h ((i + 1) mod N) = Suc (dist N h i) mod N"
  using dist_home_plus [of N h "Suc (dist N h i)"] home_plus_Suc [of N h "dist N h i"]
    home_plus_dist [OF assms, of h] assms by (metis gr_zeroI not_less0)

lemma dist_pos_before:
  assumes "i < N" "0 < dist N h i"
  shows "dist N h i = Suc (dist N h (before N i))"
proof -
  have "0 < N" using assms by simp
  have "dist N h i = Suc (dist N h (before N i)) mod N"
    using dist_next [of "before N i" N h] next_before [OF assms(1)] \<open>0 < N\<close> by simp
  moreover have "Suc (dist N h (before N i)) \<le> N" using \<open>0 < N\<close> by (simp add: Suc_le_eq)
  ultimately show ?thesis using assms(2) by (metis le_neq_implies_less mod_less mod_self not_less0)
qed

section \<open>Invariant\<close>

definition slot :: "'a hashmap_t \<Rightarrow> nat \<Rightarrow> 'a option" where
  "slot m i = (if bitmap_test (hm_bitmap m) i then he_ptr (bucket (hm_buckets m) i) else None)"

definition hm_entries :: "'a hashmap_t \<Rightarrow> 'a set" where
  "hm_entries m = ran (slot m)"

text \<open>
  Memory layout: a power-of-two number of buckets, a bit for each, a pointer and the hash of its
  element behind every set bit, and \<open>hm_count\<close> set bits.
\<close>

definition hm_shape :: "('a \<Rightarrow> uint64_t) \<Rightarrow> 'a hashmap_t \<Rightarrow> bool" where
  "hm_shape hf m \<longleftrightarrow>
     (\<exists>k. 3 \<le> k \<and> k < 61 \<and> hm_size m = 2 ^ k) \<and>
     length (hm_bitmap m) = bitmap_words (hm_size m) \<and>
     length (hm_buckets m) = hm_size m \<and>
     (\<forall>i. bitmap_test (hm_bitmap m) i \<longrightarrow>
        i < hm_size m \<and> (\<exists>x. bucket (hm_buckets m) i = \<lparr>he_ptr = Some x, he_hash = hf x\<rparr>)) \<and>
     hm_count m = card {i. bitmap_test (hm_bitmap m) i}"

text \<open>
  Robin hood order: an element that is not in its home bucket follows an element that is at most one
  step less far from its own home.
\<close>

definition placed :: "('a \<Rightarrow> uint64_t) \<Rightarrow> nat \<Rightarrow> (nat \<Rightarrow> 'a option) \<Rightarrow> nat \<Rightarrow> uint64_t \<Rightarrow> bool" where
  "placed hf N t i h \<longleftrightarrow>
     dist N h i = 0 \<or>
     (\<exists>y. t (before N i) = Some y \<and> dist N h i \<le> Suc (dist N (hf y) (before N i)))"

definition robin_hood :: "('a \<Rightarrow> uint64_t) \<Rightarrow> nat \<Rightarrow> (nat \<Rightarrow> 'a option) \<Rightarrow> bool" where
  "robin_hood hf N t \<longleftrightarrow> (\<forall>i<N. \<forall>x. t i = Some x \<longrightarrow> placed hf N t i (hf x))"

definition keys_distinct :: "('a \<Rightarrow> 'k) \<Rightarrow> (nat \<Rightarrow> 'a option) \<Rightarrow> bool" where
  "keys_distinct key t \<longleftrightarrow>
     (\<forall>i j x y. t i = Some x \<longrightarrow> t j = Some y \<longrightarrow> key x = key y \<longrightarrow> i = j)"

definition hm_ordered :: "('a \<Rightarrow> 'k) \<Rightarrow> ('a \<Rightarrow> uint64_t) \<Rightarrow> 'a hashmap_t \<Rightarrow> bool" where
  "hm_ordered key hf m \<longleftrightarrow>
     hm_shape hf m \<and> robin_hood hf (hm_size m) (slot m) \<and> keys_distinct key (slot m)"

definition hm_inv :: "('a \<Rightarrow> 'k) \<Rightarrow> ('a \<Rightarrow> uint64_t) \<Rightarrow> 'a hashmap_t \<Rightarrow> bool" where
  "hm_inv key hf m \<longleftrightarrow> hm_ordered key hf m \<and> 2 * hm_count m \<le> hm_size m"

definition hm_valid :: "('a \<Rightarrow> 'k) \<Rightarrow> ('a \<Rightarrow> uint64_t) \<Rightarrow> 'a hashmap_t \<Rightarrow> bool" where
  "hm_valid key hf m \<longleftrightarrow> m = HASHMAP_INIT \<or> hm_inv key hf m"

section \<open>The layout under stores\<close>

lemma shape_size:
  assumes "hm_shape hf m"
  shows "8 \<le> hm_size m" "0 < hm_size m" "hm_size m < 2 ^ 61"
proof -
  obtain k where k: "3 \<le> k" "k < 61" "hm_size m = 2 ^ k" using assms by (auto simp: hm_shape_def)
  have "(2 :: nat) ^ 3 \<le> 2 ^ k" using k(1) by (rule power_increasing) simp
  then show "8 \<le> hm_size m" "0 < hm_size m" using k by simp_all
  show "hm_size m < 2 ^ 61" unfolding k(3) using k(2) by (rule power_strict_increasing) simp
qed

lemma shape_and_mask: "hm_shape hf m \<Longrightarrow> x AND (hm_size m - Suc 0) = x mod hm_size m"
  unfolding hm_shape_def using nat_and_mask [of x] by (metis One_nat_def)

lemma shape_probe: "hm_shape hf m \<Longrightarrow> get_probe_length m h i (hm_size m - Suc 0) = dist (hm_size m) h i"
  by (simp add: get_probe_length_def shape_and_mask dist_def)

lemma shape_at:
  assumes "hm_shape hf m" "bitmap_test (hm_bitmap m) i"
  obtains x where "bucket (hm_buckets m) i = \<lparr>he_ptr = Some x, he_hash = hf x\<rparr>" "i < hm_size m"
    "slot m i = Some x"
  using assms by (auto simp: hm_shape_def slot_def)

lemma shape_test:
  assumes "hm_shape hf m"
  shows "bitmap_test (hm_bitmap m) i \<longleftrightarrow> (\<exists>x. slot m i = Some x)"
  by (cases "bitmap_test (hm_bitmap m) i")
    (auto elim: shape_at [OF assms], simp add: slot_def)

lemma shape_bucket:
  assumes "hm_shape hf m" "slot m i = Some x"
  shows "bucket (hm_buckets m) i = \<lparr>he_ptr = Some x, he_hash = hf x\<rparr>" "i < hm_size m"
  using shape_at [OF assms(1), of i] shape_test [OF assms(1), of i] assms(2) by (metis option.inject)+

lemmas shape_slot_less = shape_bucket(2)

lemma shape_bit_index: "hm_shape hf m \<Longrightarrow> i < hm_size m \<Longrightarrow> i div 64 < length (hm_bitmap m)"
  using bitmap_words_covers by (auto simp: hm_shape_def)

lemma shape_finite: "hm_shape hf m \<Longrightarrow> finite {i. bitmap_test (hm_bitmap m) i}"
  by (rule finite_subset [of _ "{..<hm_size m}"]) (auto simp: hm_shape_def)

lemma shape_count: "hm_shape hf m \<Longrightarrow> hm_count m = card (dom (slot m))"
proof -
  assume a: "hm_shape hf m"
  have "dom (slot m) = {i. bitmap_test (hm_bitmap m) i}"
    by (auto simp: dom_def shape_test [OF a])
  with a show ?thesis by (simp add: hm_shape_def)
qed

lemma bucket_update [simp]:
  "pos < length bs \<Longrightarrow> bucket (bs[pos := b]) i = (if i = pos then b else bucket bs i)"
  by (simp add: bucket_def nth_list_update)

lemma store_fields [simp]:
  "hm_size (store m pos e h) = hm_size m" "hm_count (store m pos e h) = hm_count m"
  "hm_bitmap (store m pos e h) = hm_bitmap m"
  by (simp_all add: store_def)

lemma shape_store:
  assumes "hm_shape hf m" "slot m pos \<noteq> None"
  shows "hm_shape hf (store m pos e (hf e)) \<and> slot (store m pos e (hf e)) = (slot m)(pos \<mapsto> e)"
proof -
  have "pos < length (hm_buckets m)" "bitmap_test (hm_bitmap m) pos"
    using assms shape_slot_less [OF assms(1)] by (auto simp: hm_shape_def slot_def split: if_splits)
  then show ?thesis
    using assms(1) by (auto simp: hm_shape_def store_def slot_def fun_eq_iff)
qed

definition take_slot :: "'a hashmap_t \<Rightarrow> nat \<Rightarrow> 'a \<Rightarrow> uint64_t \<Rightarrow> 'a hashmap_t" where
  "take_slot m pos e h =
     (store m pos e h)\<lparr>hm_count := hm_count m + 1, hm_bitmap := bitmap_set (hm_bitmap m) pos\<rparr>"

lemma take_slot_fields [simp]:
  "hm_size (take_slot m pos e h) = hm_size m" "hm_count (take_slot m pos e h) = Suc (hm_count m)"
  by (simp_all add: take_slot_def)

lemma occupy_take_slot:
  "occupy grow m pos e h =
     (if 2 * Suc (hm_count m) > hm_size m then grow (take_slot m pos e h) else Inr (take_slot m pos e h))"
  by (simp add: occupy_def Let_def take_slot_def push_bit_eq_mult)

lemma shape_take_slot:
  assumes "hm_shape hf m" "slot m pos = None" "pos < hm_size m"
  shows "hm_shape hf (take_slot m pos e (hf e)) \<and> slot (take_slot m pos e (hf e)) = (slot m)(pos \<mapsto> e)"
proof -
  note ib = shape_bit_index [OF assms(1,3)]
  have np: "\<not> bitmap_test (hm_bitmap m) pos" using assms shape_test [OF assms(1), of pos] by simp
  have "{i. i = pos \<or> bitmap_test (hm_bitmap m) i} = insert pos {i. bitmap_test (hm_bitmap m) i}"
    by auto
  then have "card {i. i = pos \<or> bitmap_test (hm_bitmap m) i} = Suc (hm_count m)"
    using np shape_finite [OF assms(1)] assms(1) by (simp add: hm_shape_def)
  moreover have "pos < length (hm_buckets m)" using assms by (simp add: hm_shape_def)
  ultimately show ?thesis
    using assms ib by (auto simp: hm_shape_def take_slot_def store_def slot_def fun_eq_iff)
qed

lemma clear_bucket_fields [simp]:
  "hm_size (clear_bucket m pos) = hm_size m" "hm_count (clear_bucket m pos) = hm_count m - 1"
  by (simp_all add: clear_bucket_def)

lemma shape_clear:
  assumes "hm_shape hf m" "slot m pos = Some x"
  shows "hm_shape hf (clear_bucket m pos) \<and> slot (clear_bucket m pos) = (slot m)(pos := None)"
proof -
  have pos: "pos < hm_size m" using assms by (rule shape_slot_less)
  note ib = shape_bit_index [OF assms(1) pos]
  have "bitmap_test (hm_bitmap m) pos" using assms shape_test [OF assms(1), of pos] by simp
  moreover have "{i. i \<noteq> pos \<and> bitmap_test (hm_bitmap m) i} = {i. bitmap_test (hm_bitmap m) i} - {pos}"
    by auto
  ultimately have "card {i. i \<noteq> pos \<and> bitmap_test (hm_bitmap m) i} = hm_count m - 1"
    using shape_finite [OF assms(1)] assms(1) by (simp add: hm_shape_def)
  moreover have "pos < length (hm_buckets m)" using assms pos by (simp add: hm_shape_def)
  ultimately show ?thesis
    using assms(1) pos ib by (auto simp: hm_shape_def clear_bucket_def slot_def fun_eq_iff)
qed

lemma shape_new:
  assumes "3 \<le> k" "k < 61"
  shows "hm_shape hf \<lparr>hm_count = 0, hm_size = 2 ^ k, hm_bitmap = replicate (bitmap_words (2 ^ k)) 0,
                      hm_buckets = replicate (2 ^ k) fresh_bucket\<rparr>"
  using assms by (auto simp: hm_shape_def)

section \<open>Robin hood order under stores\<close>

lemma placed_update_occupied:
  assumes "placed hf N t i h" "t p = Some x" "dist N (hf x) p \<le> dist N (hf e) p"
  shows "placed hf N (t(p \<mapsto> e)) i h"
  using assms by (auto simp: placed_def)

lemma robin_hood_replace:
  assumes "robin_hood hf N t" "t p = Some x" "dist N (hf x) p \<le> dist N (hf e) p"
    and "placed hf N t p (hf e)"
  shows "robin_hood hf N (t(p \<mapsto> e))"
  unfolding robin_hood_def
proof (intro allI impI)
  fix i y
  assume "i < N" "(t(p \<mapsto> e)) i = Some y"
  then have "placed hf N t i (hf y)"
    using assms(1,4) by (cases "i = p") (auto simp: robin_hood_def)
  then show "placed hf N (t(p \<mapsto> e)) i (hf y)"
    using assms(2,3) by (rule placed_update_occupied)
qed

lemma robin_hood_fill:
  assumes "robin_hood hf N t" "t p = None" "placed hf N t p (hf e)"
  shows "robin_hood hf N (t(p \<mapsto> e))"
  unfolding robin_hood_def
proof (intro allI impI)
  fix i y
  assume i: "i < N" "(t(p \<mapsto> e)) i = Some y"
  then have "placed hf N t i (hf y)"
    using assms(1,3) by (cases "i = p") (auto simp: robin_hood_def)
  then show "placed hf N (t(p \<mapsto> e)) i (hf y)"
    using assms(2) by (auto simp: placed_def)
qed

lemma robin_hood_empty: "robin_hood hf N Map.empty"
  by (simp add: robin_hood_def)

text \<open>An element far from home has elements in all the buckets back to its home.\<close>

lemma robin_hood_back:
  assumes "robin_hood hf N t" "i < N" "t i = Some x" "d \<le> dist N (hf x) i"
  shows "\<exists>y. t (home_plus N (hf x) (dist N (hf x) i - d)) = Some y \<and>
    dist N (hf x) i - d \<le> dist N (hf y) (home_plus N (hf x) (dist N (hf x) i - d))"
  using assms(4)
proof (induction d)
  case 0
  then show ?case using assms(2,3) by (simp add: home_plus_dist)
next
  case (Suc d)
  let ?D = "dist N (hf x) i" and ?p = "home_plus N (hf x)"
  have N: "0 < N" using assms(2) by simp
  from Suc obtain y where y: "t (?p (?D - d)) = Some y" "?D - d \<le> dist N (hf y) (?p (?D - d))"
    by auto
  obtain q where q: "?D - d = Suc q" "?D - Suc d = q" using Suc.prems
    by (metis Suc_diff_le Suc_diff_Suc Suc_le_eq)
  have "placed hf N t (?p (Suc q)) (hf y)" using assms(1) y(1) q N by (simp add: robin_hood_def)
  then show ?case
    using y(2) q by (auto simp: placed_def before_home_plus [OF N])
qed

section \<open>Search\<close>

text \<open>The search goes past bucket \<open>home + q\<close>.\<close>

definition passes ::
  "('a \<Rightarrow> 'a \<Rightarrow> bool) \<Rightarrow> ('a \<Rightarrow> uint64_t) \<Rightarrow> 'a hashmap_t \<Rightarrow> 'a \<Rightarrow> uint64_t \<Rightarrow> nat \<Rightarrow> bool" where
  "passes cmp hf m k h q \<longleftrightarrow>
     (\<exists>x. slot m (home_plus (hm_size m) h q) = Some x \<and>
        q \<le> dist (hm_size m) (hf x) (home_plus (hm_size m) h q) \<and> \<not> (h = hf x \<and> cmp k x))"

definition search_stop ::
  "('a \<Rightarrow> uint64_t) \<Rightarrow> 'a hashmap_t \<Rightarrow> uint64_t \<Rightarrow> nat \<Rightarrow> nat \<Rightarrow> 'a option \<times> nat \<times> nat \<times> nat" where
  "search_stop hf m h oi r =
     (let p = home_plus (hm_size m) h r
      in case slot m p of
           None \<Rightarrow> (None, p, r, oi)
         | Some x \<Rightarrow>
             if r > dist (hm_size m) (hf x) p then (None, p, r, dist (hm_size m) (hf x) p)
             else (Some x, p, r, oi))"

lemma search_loop_stop:
  assumes "hm_shape hf m" "\<forall>q. p \<le> q \<and> q < r \<longrightarrow> passes cmp hf m k h q"
    and "\<not> passes cmp hf m k h r" "p \<le> r" "r < p + n"
  shows "search_loop m k h cmp (hm_size m - 1) n (home_plus (hm_size m) h p) p oi = search_stop hf m h oi r"
  using assms(2,4,5)
proof (induction n arbitrary: p)
  case (Suc n)
  let ?i = "home_plus (hm_size m) h p"
  note sh = assms(1)
  have nxt: "(?i + 1) AND (hm_size m - 1) = home_plus (hm_size m) h (Suc p)"
    using shape_and_mask [OF sh] home_plus_Suc [of "hm_size m" h p] by simp
  show ?case
  proof (cases "p = r")
    case True
    show ?thesis
    proof (cases "slot m ?i")
      case None
      then show ?thesis using True sh by (simp add: search_stop_def shape_test)
    next
      case (Some x)
      then show ?thesis
        using True assms(3) shape_bucket(1) [OF sh Some]
        by (auto simp: search_stop_def passes_def shape_test [OF sh] shape_probe [OF sh] Let_def)
    qed
  next
    case False
    then have "passes cmp hf m k h p" using Suc.prems by simp
    then obtain x where x: "slot m ?i = Some x" "p \<le> dist (hm_size m) (hf x) ?i"
        "\<not> (h = hf x \<and> cmp k x)"
      by (auto simp: passes_def)
    have "search_loop m k h cmp (hm_size m - 1) (Suc n) ?i p oi =
        search_loop m k h cmp (hm_size m - 1) n (home_plus (hm_size m) h (Suc p)) (Suc p) oi"
      using x shape_bucket(1) [OF sh x(1)] nxt
      by (auto simp: shape_test [OF sh] shape_probe [OF sh] Let_def)
    also have "\<dots> = search_stop hf m h oi r" by (rule Suc.IH) (use Suc.prems False in auto)
    finally show ?thesis .
  qed
qed simp

lemma search_stops:
  assumes "hm_shape hf m" "slot m e = None" "e < hm_size m"
  obtains r where "p \<le> r" "r < p + hm_size m"
    "\<forall>q. p \<le> q \<and> q < r \<longrightarrow> passes cmp hf m k h q" "\<not> passes cmp hf m k h r"
    "\<And>oi. search m k h cmp p oi = search_stop hf m h oi r"
proof -
  let ?N = "hm_size m"
  have N: "0 < ?N" using assms(3) by simp
  define d where "d = dist ?N h e"
  define q0 where "q0 = p + (d + ?N - p mod ?N) mod ?N"
  have "q0 mod ?N = d mod ?N"
  proof -
    have "(p + X mod ?N) mod ?N = (p mod ?N + X) mod ?N" for X by (simp add: mod_simps)
    then have "q0 mod ?N = (p mod ?N + (d + ?N - p mod ?N)) mod ?N" unfolding q0_def .
    also have "p mod ?N + (d + ?N - p mod ?N) = d + ?N"
      using mod_less_divisor [OF N, of p] by linarith
    finally show ?thesis by simp
  qed
  then have "home_plus ?N h q0 = e"
    using home_plus_dist [OF assms(3), of h] unfolding d_def home_plus_def
    by (metis mod_add_right_eq)
  then have q0: "\<not> passes cmp hf m k h q0" using assms(2) by (simp add: passes_def)
  have q0r: "p \<le> q0" "q0 < p + ?N" using N by (simp_all add: q0_def)
  define r where "r = (LEAST q. p \<le> q \<and> \<not> passes cmp hf m k h q)"
  have r: "p \<le> r \<and> \<not> passes cmp hf m k h r"
    unfolding r_def by (rule LeastI [of _ q0]) (simp add: q0 q0r)
  have "r \<le> q0" unfolding r_def by (rule Least_le) (simp add: q0 q0r)
  then have less: "r < p + ?N" using q0r by simp
  have all: "\<forall>q. p \<le> q \<and> q < r \<longrightarrow> passes cmp hf m k h q"
    unfolding r_def using not_less_Least by blast
  have "search m k h cmp p oi = search_stop hf m h oi r" for oi
    using search_loop_stop [OF assms(1) all, of ?N oi] r less N
    by (simp add: search_def Let_def home_plus_def shape_and_mask [OF assms(1)] del: search_loop.simps)
  with r less all that show ?thesis by blast
qed

lemma search_stop_less:
  assumes "hm_shape hf m" "robin_hood hf (hm_size m) (slot m)" "slot m e = None" "e < hm_size m"
    and "p \<le> r" "p < hm_size m" "\<forall>q. p \<le> q \<and> q < r \<longrightarrow> passes cmp hf m k h q"
  shows "r < hm_size m"
proof (rule ccontr)
  let ?N = "hm_size m"
  assume "\<not> r < ?N"
  then have "p \<le> ?N - 1 \<and> ?N - 1 < r" using assms(5,6) by linarith
  then have "passes cmp hf m k h (?N - 1)" using assms(7) by blast
  then obtain x where x: "slot m (home_plus ?N h (?N - 1)) = Some x"
      "?N - 1 \<le> dist ?N (hf x) (home_plus ?N h (?N - 1))"
    by (auto simp: passes_def)
  let ?i = "home_plus ?N h (?N - 1)" and ?e = "dist ?N (hf x) e"
  have N: "0 < ?N" using assms(4) by simp
  have D: "dist ?N (hf x) ?i = ?N - 1" using x(2) dist_less [OF N, of "hf x" ?i] by linarith
  have "?e \<le> ?N - 1" using dist_less [OF N, of "hf x" e] by linarith
  then have "?N - 1 - (?N - 1 - ?e) = ?e" by simp
  moreover have "\<exists>y. slot m (home_plus ?N (hf x) (?N - 1 - (?N - 1 - ?e))) = Some y"
    using robin_hood_back [OF assms(2) home_plus_less [OF N] x(1), of "?N - 1 - ?e"] unfolding D
    by (simp only: diff_le_self) blast
  ultimately show False using assms(3) home_plus_dist [OF assms(4), of "hf x"] by simp
qed

end
