(* ===== verification/Hashmap_Ops.thy ===== *)
theory Hashmap_Ops
  imports Hashmap
begin

text \<open>
  What the operations of \<^verbatim>\<open>src/libponyrt/ds/hash.c\<close> do to a valid table.  The locale \<open>hash_keyed\<close> is the
  contract between the table and its users, a comparison that compares keys and a hash that depends
  on the key only; every law of search, insertion, growth, removal and iteration is proved once in it.
\<close>

section \<open>Keyed tables\<close>

text \<open>An element of hash \<open>h\<close> may be put at \<open>p\<close>, where it finds the bucket empty or bumps a closer element.\<close>

definition may_enter :: "('a \<Rightarrow> uint64_t) \<Rightarrow> 'a hashmap_t \<Rightarrow> uint64_t \<Rightarrow> nat \<Rightarrow> nat \<Rightarrow> bool" where
  "may_enter hf m h p oi \<longleftrightarrow>
     p < hm_size m \<and> placed hf (hm_size m) (slot m) p h \<and>
     (\<forall>x. slot m p = Some x \<longrightarrow>
        dist (hm_size m) (hf x) p < dist (hm_size m) h p \<and> oi = dist (hm_size m) (hf x) p)"

text \<open>What the table relies on: the comparison compares keys, and equal keys have equal hashes.\<close>

locale hash_keyed =
  fixes key :: "'a \<Rightarrow> 'k" and cmp :: "'a \<Rightarrow> 'a \<Rightarrow> bool" and hf :: "'a \<Rightarrow> uint64_t"
  assumes cmp_key: "cmp a b \<longleftrightarrow> key a = key b"
    and hf_key: "key a = key b \<Longrightarrow> hf a = hf b"
begin

lemma ordered_parts:
  assumes "hm_ordered key hf m"
  shows "hm_shape hf m" "robin_hood hf (hm_size m) (slot m)" "keys_distinct key (slot m)"
  using assms by (simp_all add: hm_ordered_def)

lemma passes_iff:
  "passes cmp hf m k (hf k) q \<longleftrightarrow>
     (\<exists>x. slot m (home_plus (hm_size m) (hf k) q) = Some x \<and>
        q \<le> dist (hm_size m) (hf x) (home_plus (hm_size m) (hf k) q) \<and> key k \<noteq> key x)"
proof -
  have "hf k = hf x \<and> cmp k x \<longleftrightarrow> key k = key x" for x
    using hf_key [of k x] cmp_key [of k x] by blast
  then show ?thesis unfolding passes_def by simp
qed

text \<open>A search from the home bucket finds the element with the key, if there is one.\<close>

lemma search_finds:
  assumes ord: "hm_ordered key hf m" and e: "slot m e = None" "e < hm_size m"
    and x: "slot m i = Some x" "key x = key k"
  shows "search m k (hf k) cmp 0 oi = (Some x, i, dist (hm_size m) (hf x) i, oi)"
proof -
  let ?N = "hm_size m" and ?D = "dist (hm_size m) (hf x) i"
  note sh = ordered_parts(1) [OF ord] and rh = ordered_parts(2) [OF ord]
  have i: "i < ?N" using sh x(1) by (rule shape_slot_less)
  have hk: "hf k = hf x" using hf_key x(2) by metis
  have D: "?D < ?N" using i by simp
  have at: "home_plus ?N (hf k) ?D = i" unfolding hk by (rule home_plus_dist [OF i])
  obtain r where r: "r < 0 + ?N" "\<forall>q. 0 \<le> q \<and> q < r \<longrightarrow> passes cmp hf m k (hf k) q"
      "\<not> passes cmp hf m k (hf k) r" "\<And>oi. search m k (hf k) cmp 0 oi = search_stop hf m (hf k) oi r"
    using search_stops [OF sh e] by blast
  have "passes cmp hf m k (hf k) q" if q: "q < ?D" for q
  proof -
    obtain y where y: "slot m (home_plus ?N (hf x) q) = Some y"
        "q \<le> dist ?N (hf y) (home_plus ?N (hf x) q)"
      using robin_hood_back [OF rh i x(1), of "?D - q"] q by auto
    have "home_plus ?N (hf x) q \<noteq> i"
      using dist_home_plus [of ?N "hf x" q] q D by auto
    then have "key y \<noteq> key x"
      using ordered_parts(3) [OF ord] y(1) x(1) by (auto simp: keys_distinct_def)
    then show ?thesis unfolding passes_iff using y x(2) hk by auto
  qed
  then have "?D \<le> r" using r(3) not_less by blast
  moreover have "\<not> passes cmp hf m k (hf k) ?D" using at x by (auto simp: passes_iff)
  then have "\<not> ?D < r" using r(2) by blast
  ultimately have "r = ?D" by simp
  then show ?thesis using r(4) at x(1) by (simp add: search_stop_def)
qed

text \<open>A search for an absent key stops where the key may be inserted.\<close>

lemma search_misses:
  assumes ord: "hm_ordered key hf m" and e: "slot m e = None" "e < hm_size m"
    and absent: "\<forall>x \<in> hm_entries m. key x \<noteq> key k"
    and p: "p < hm_size m" "p = 0 \<or> passes cmp hf m k (hf k) p"
  obtains r oi' where "p \<le> r" "r < hm_size m" "passes cmp hf m k (hf k) p \<longrightarrow> p < r"
    "\<forall>q. p \<le> q \<and> q < r \<longrightarrow> passes cmp hf m k (hf k) q"
    "search m k (hf k) cmp p oi = (None, home_plus (hm_size m) (hf k) r, r, oi')"
    "may_enter hf m (hf k) (home_plus (hm_size m) (hf k) r) oi'"
    "slot m (home_plus (hm_size m) (hf k) r) = None \<longrightarrow> oi' = oi"
proof -
  let ?N = "hm_size m" and ?h = "home_plus (hm_size m) (hf k)"
  note sh = ordered_parts(1) [OF ord] and rh = ordered_parts(2) [OF ord]
  obtain r where r: "p \<le> r" "\<forall>q. p \<le> q \<and> q < r \<longrightarrow> passes cmp hf m k (hf k) q"
      "\<not> passes cmp hf m k (hf k) r" "\<And>oi. search m k (hf k) cmp p oi = search_stop hf m (hf k) oi r"
    using search_stops [OF sh e] by blast
  have rN: "r < ?N" by (rule search_stop_less [OF sh rh e r(1) p(1) r(2)])
  have N: "0 < ?N" using rN by simp
  have dr: "dist ?N (hf k) (?h r) = r" using dist_home_plus [OF N, of "hf k" r] rN by simp
  have far: "dist ?N (hf x) (?h r) < r" if "slot m (?h r) = Some x" for x
  proof -
    have "key k \<noteq> key x" using absent that by (auto simp: hm_entries_def ran_def)
    with that r(3) show ?thesis by (auto simp: passes_iff)
  qed
  define oi' where "oi' = (case slot m (?h r) of None \<Rightarrow> oi | Some x \<Rightarrow> dist ?N (hf x) (?h r))"
  have s: "search m k (hf k) cmp p oi = (None, ?h r, r, oi')"
    using r(4) far by (auto simp: search_stop_def oi'_def Let_def split: option.splits)
  have pr: "passes cmp hf m k (hf k) p \<Longrightarrow> p < r" using r(1,3) le_neq_implies_less by blast
  have "placed hf ?N (slot m) (?h r) (hf k)"
  proof (cases r)
    case 0
    then show ?thesis using dr by (simp add: placed_def)
  next
    case (Suc q)
    then have "p \<le> q" using pr p(2) by auto
    then have "passes cmp hf m k (hf k) q" using r(2) Suc by simp
    then show ?thesis
      using dr Suc before_home_plus [OF N, of "hf k" q] by (auto simp: passes_iff placed_def)
  qed
  then have "may_enter hf m (hf k) (?h r) oi'"
    using far dr N by (auto simp: may_enter_def oi'_def)
  with r(1,2) rN pr s that show ?thesis by (auto simp: oi'_def)
qed

end

section \<open>Insertion\<close>

context hash_keyed
begin

text \<open>The bumping loop hands elements on until one fits an empty bucket.\<close>

lemma entries_absent: "(\<forall>x \<in> hm_entries m. key x \<noteq> key c) \<Longrightarrow> slot m i = Some x \<Longrightarrow> key x \<noteq> key c"
  by (auto simp: hm_entries_def ran_def)

lemma ordered_bump:
  assumes ord: "hm_ordered key hf m" and absent: "\<forall>x \<in> hm_entries m. key x \<noteq> key c"
    and enter: "may_enter hf m (hf c) p oi" and x: "slot m p = Some x"
  defines "m' \<equiv> store m p c (hf c)"
  shows "hm_ordered key hf m'" "slot m' = (slot m)(p \<mapsto> c)"
    "\<forall>y \<in> hm_entries m'. key y \<noteq> key x" "insert x (hm_entries m') = insert c (hm_entries m)"
proof -
  note sh = ordered_parts(1) [OF ord] and rh = ordered_parts(2) [OF ord]
    and dk = ordered_parts(3) [OF ord]
  have s: "hm_shape hf m'" "slot m' = (slot m)(p \<mapsto> c)"
    using shape_store [OF sh, of p c] x by (simp_all add: m'_def)
  show "slot m' = (slot m)(p \<mapsto> c)" by (rule s(2))
  have sz: "hm_size m' = hm_size m" by (simp add: m'_def)
  have "robin_hood hf (hm_size m) ((slot m)(p \<mapsto> c))"
    using enter x by (intro robin_hood_replace [OF rh x]) (auto simp: may_enter_def)
  moreover have "keys_distinct key ((slot m)(p \<mapsto> c))"
    using dk entries_absent [OF absent] unfolding keys_distinct_def by (metis fun_upd_apply option.inject)
  ultimately show "hm_ordered key hf m'" using s sz by (simp add: hm_ordered_def)
  have "key y \<noteq> key x" if "y \<in> hm_entries m'" for y
    using that x dk entries_absent [OF absent, of p x] unfolding hm_entries_def ran_def s(2) keys_distinct_def
    by (auto split: if_splits)
  then show "\<forall>y \<in> hm_entries m'. key y \<noteq> key x" by blast
  show "insert x (hm_entries m') = insert c (hm_entries m)"
    using x unfolding hm_entries_def ran_def s(2) by (auto split: if_splits) (metis option.inject)
qed

lemma shift_put_loop_ok:
  assumes "hm_ordered key hf m" "\<forall>x \<in> hm_entries m. key x \<noteq> key c"
    and "may_enter hf m (hf c) p oi" "d < n" "slot m ((p + d) mod hm_size m) = None"
  shows "\<exists>m' p' c'. shift_put_loop n grow cmp m None c (hf c) p oi = occupy grow m' p' c' (hf c') \<and>
    hm_ordered key hf m' \<and> may_enter hf m' (hf c') p' 0 \<and> slot m' p' = None \<and>
    (\<forall>x \<in> hm_entries m'. key x \<noteq> key c') \<and> insert c' (hm_entries m') = insert c (hm_entries m) \<and>
    hm_size m' = hm_size m \<and> hm_count m' = hm_count m"
  using assms
proof (induction n arbitrary: m c p oi d)
  case (Suc n)
  note sh = ordered_parts(1) [OF Suc.prems(1)]
  have p: "p < hm_size m" using Suc.prems(3) by (simp add: may_enter_def)
  show ?case
  proof (cases "slot m p")
    case None
    have "may_enter hf m (hf c) p 0" using Suc.prems(3) None by (simp add: may_enter_def)
    moreover have "shift_put_loop (Suc n) grow cmp m None c (hf c) p oi = occupy grow m p c (hf c)"
      using p None by (simp add: shape_test [OF sh])
    ultimately show ?thesis using Suc.prems(1,2) None by blast
  next
    case (Some x)
    define m' where "m' = store m p c (hf c)"
    note b = ordered_bump [OF Suc.prems(1-3) Some, folded m'_def]
    have sz: "hm_size m' = hm_size m" "hm_count m' = hm_count m" by (simp_all add: m'_def)
    let ?N = "hm_size m"
    have N: "0 < ?N" using p by simp
    have oi: "oi = dist ?N (hf x) p" "oi < dist ?N (hf c) p" using Suc.prems(3) Some by (auto simp: may_enter_def)
    have at: "home_plus ?N (hf x) oi = p" unfolding oi(1) by (rule home_plus_dist [OF p])
    have d0: "d \<noteq> 0" using Suc.prems(5) Some p by (cases d) auto
    have dp: "(p + d) mod ?N \<noteq> p" using Suc.prems(5) Some by auto
    then have e: "slot m' ((p + d) mod ?N) = None" "(p + d) mod ?N < hm_size m'"
      using Suc.prems(5) N by (simp_all add: b(2) sz)
    have "key x \<noteq> key c" using entries_absent [OF Suc.prems(2) Some] .
    then have pass: "passes cmp hf m' x (hf x) oi"
      using at oi(2) unfolding passes_iff sz b(2) by simp
    have lt: "oi < hm_size m'" using oi(1) N sz by simp
    obtain r oi' where r0: "oi \<le> r" "r < hm_size m'" "passes cmp hf m' x (hf x) oi \<longrightarrow> oi < r"
        "\<forall>q. oi \<le> q \<and> q < r \<longrightarrow> passes cmp hf m' x (hf x) q"
        "search m' x (hf x) cmp oi oi = (None, home_plus (hm_size m') (hf x) r, r, oi')"
        "may_enter hf m' (hf x) (home_plus (hm_size m') (hf x) r) oi'"
      by (rule search_misses [OF b(1) e b(3) lt disjI2 [OF pass], of oi]) (rule that)
    note r = r0(1) r0(2) [unfolded sz] r0(3) [rule_format, OF pass] r0(4) r0(5,6) [unfolded sz]
    have e': "home_plus ?N (hf x) (oi + d) = (p + d) mod ?N"
      using home_plus_add [of ?N "hf x" oi d] at by simp
    have "r - oi \<le> d"
    proof (rule ccontr)
      assume "\<not> r - oi \<le> d"
      then have "passes cmp hf m' x (hf x) (oi + d)" using r(4) by simp
      then show False using e(1) e' by (simp add: passes_iff sz)
    qed
    then have "r + (d - (r - oi)) = oi + d" using r(1) by simp
    then have "slot m' ((home_plus ?N (hf x) r + (d - (r - oi))) mod hm_size m') = None"
      unfolding sz home_plus_add using e(1) e' by (simp add: add.commute)
    moreover have "d - (r - oi) < n" using Suc.prems(4) r(3) d0 by linarith
    ultimately obtain m2 p2 c2 where "shift_put_loop n grow cmp m' None x (hf x) (home_plus ?N (hf x) r) oi' =
        occupy grow m2 p2 c2 (hf c2)" "hm_ordered key hf m2" "may_enter hf m2 (hf c2) p2 0"
        "slot m2 p2 = None" "\<forall>x \<in> hm_entries m2. key x \<noteq> key c2"
        "insert c2 (hm_entries m2) = insert x (hm_entries m')" "hm_size m2 = hm_size m'"
        "hm_count m2 = hm_count m'"
      using Suc.IH [OF b(1,3) r(6)] by blast
    moreover have "shift_put_loop (Suc n) grow cmp m None c (hf c) p oi =
        shift_put_loop n grow cmp m' None x (hf x) (home_plus ?N (hf x) r) oi'"
      using p Some shape_bucket(1) [OF sh Some] r(5) by (simp add: shape_test [OF sh] Let_def m'_def)
    ultimately show ?thesis using b(4) sz by auto
  qed
qed simp

lemma ordered_take_slot:
  assumes ord: "hm_ordered key hf m" and absent: "\<forall>x \<in> hm_entries m. key x \<noteq> key c"
    and enter: "may_enter hf m (hf c) p oi" and n: "slot m p = None"
  shows "hm_ordered key hf (take_slot m p c (hf c))"
    "hm_entries (take_slot m p c (hf c)) = insert c (hm_entries m)"
proof -
  note sh = ordered_parts(1) [OF ord]
  have p: "p < hm_size m" "placed hf (hm_size m) (slot m) p (hf c)"
    using enter by (simp_all add: may_enter_def)
  note s = shape_take_slot [OF sh n p(1), of c]
  have "robin_hood hf (hm_size m) ((slot m)(p \<mapsto> c))"
    using ordered_parts(2) [OF ord] n p(2) by (rule robin_hood_fill)
  moreover have "keys_distinct key ((slot m)(p \<mapsto> c))"
    using ordered_parts(3) [OF ord] entries_absent [OF absent] unfolding keys_distinct_def
    by (metis fun_upd_apply option.inject)
  ultimately show "hm_ordered key hf (take_slot m p c (hf c))"
    using s by (simp add: hm_ordered_def)
  show "hm_entries (take_slot m p c (hf c)) = insert c (hm_entries m)"
    using s n by (simp add: hm_entries_def ran_map_upd)
qed

lemma ordered_replace:
  assumes ord: "hm_ordered key hf m" and x: "slot m p = Some x" and k: "key x = key c"
  shows "hm_ordered key hf (store m p c (hf c))"
    "hm_entries (store m p c (hf c)) = insert c {y \<in> hm_entries m. key y \<noteq> key c}"
proof -
  note sh = ordered_parts(1) [OF ord] and dk = ordered_parts(3) [OF ord]
  have s: "hm_shape hf (store m p c (hf c))" "slot (store m p c (hf c)) = (slot m)(p \<mapsto> c)"
    using shape_store [OF sh, of p c] x by simp_all
  have h: "hf c = hf x" using hf_key k by metis
  have "placed hf (hm_size m) (slot m) p (hf x)"
    using ordered_parts(2) [OF ord] x shape_slot_less [OF sh x] by (simp add: robin_hood_def)
  then have "robin_hood hf (hm_size m) ((slot m)(p \<mapsto> c))"
    using h by (intro robin_hood_replace [OF ordered_parts(2) [OF ord] x]) simp_all
  moreover have "keys_distinct key ((slot m)(p \<mapsto> c))"
    using dk x k unfolding keys_distinct_def by (metis fun_upd_apply option.inject)
  ultimately show "hm_ordered key hf (store m p c (hf c))" using s by (simp add: hm_ordered_def)
  have "key y = key c \<longleftrightarrow> i = p" if "slot m i = Some y" for i y
    using dk x k that unfolding keys_distinct_def by (metis option.inject)
  then show "hm_entries (store m p c (hf c)) = insert c {y \<in> hm_entries m. key y \<noteq> key c}"
    unfolding hm_entries_def ran_def s(2) by (auto split: if_splits)
qed

lemma ordered_has_room:
  assumes "hm_shape hf m" "hm_count m < hm_size m"
  obtains e where "e < hm_size m" "slot m e = None"
proof -
  have "dom (slot m) \<subseteq> {..<hm_size m}" using shape_slot_less [OF assms(1)] by auto
  moreover have "card (dom (slot m)) < card {..<hm_size m}"
    using assms shape_count [OF assms(1)] by simp
  ultimately have "dom (slot m) \<noteq> {..<hm_size m}" by auto
  with \<open>dom (slot m) \<subseteq> {..<hm_size m}\<close> obtain e where "e < hm_size m" "e \<notin> dom (slot m)" by blast
  with that show ?thesis by blast
qed

lemma put_present:
  assumes ord: "hm_ordered key hf m" and room: "hm_count m < hm_size m"
    and x: "slot m i = Some x" "key x = key e"
  shows "hashmap_put_with grow cmp m e (hf e) = Inr (Some x, store m i e (hf e))"
proof -
  note sh = ordered_parts(1) [OF ord]
  obtain j where "j < hm_size m" "slot m j = None" using ordered_has_room [OF sh room] .
  then have "search m e (hf e) cmp 0 0 = (Some x, i, dist (hm_size m) (hf x) i, 0)"
    using search_finds [OF ord _ _ x] by blast
  moreover have "i < hm_size m" using shape_slot_less [OF sh x(1)] .
  ultimately show ?thesis
    by (auto simp: hashmap_put_with_def Let_def shift_put_def pony_assert_def)
qed

lemma put_absent:
  assumes ord: "hm_ordered key hf m" and room: "hm_count m < hm_size m"
    and absent: "\<forall>x \<in> hm_entries m. key x \<noteq> key e"
  shows "\<exists>m'. hashmap_put_with grow cmp m e (hf e) =
      (if 2 * Suc (hm_count m) > hm_size m then res_bind (grow m') (\<lambda>m2. Inr (None, m2))
       else Inr (None, m')) \<and>
    hm_ordered key hf m' \<and> hm_entries m' = insert e (hm_entries m) \<and>
    hm_size m' = hm_size m \<and> hm_count m' = Suc (hm_count m)"
proof -
  note sh = ordered_parts(1) [OF ord]
  have N: "0 < hm_size m" using room by simp
  obtain j where j: "j < hm_size m" "slot m j = None" using ordered_has_room [OF sh room] .
  obtain r oi where r: "r < hm_size m"
      "search m e (hf e) cmp 0 0 = (None, home_plus (hm_size m) (hf e) r, r, oi)"
      "may_enter hf m (hf e) (home_plus (hm_size m) (hf e) r) oi"
      "slot m (home_plus (hm_size m) (hf e) r) = None \<longrightarrow> oi = 0"
    by (rule search_misses [OF ord j(2,1) absent N disjI1 [OF refl], of 0]) (rule that)
  let ?p = "home_plus (hm_size m) (hf e) r"
  have "dist (hm_size m) (hf e) ?p = r" using dist_home_plus [OF N, of "hf e" r] r(1) by simp
  then have a: "r > oi \<or> r = oi \<and> r = 0" using r(3,4) by (auto simp: may_enter_def)
  define d where "d = (j + hm_size m - ?p) mod hm_size m"
  have "?p + (j + hm_size m - ?p) = j + hm_size m"
    using home_plus_less [OF N, of "hf e" r] by linarith
  then have "(?p + d) mod hm_size m = j"
    unfolding d_def mod_add_right_eq using j(1) by simp
  then have "slot m ((?p + d) mod hm_size m) = None" "d < hm_size m + 1" 
    using j(2) N by (simp_all add: d_def less_Suc_eq)
  then obtain m' p' c' where l:
      "shift_put_loop (hm_size m + 1) grow cmp m None e (hf e) ?p oi = occupy grow m' p' c' (hf c')"
      "hm_ordered key hf m'" "may_enter hf m' (hf c') p' 0" "slot m' p' = None"
      "\<forall>x \<in> hm_entries m'. key x \<noteq> key c'" "insert c' (hm_entries m') = insert e (hm_entries m)"
      "hm_size m' = hm_size m" "hm_count m' = hm_count m"
    using shift_put_loop_ok [OF ord absent r(3)] by blast
  let ?m = "take_slot m' p' c' (hf c')"
  have "hashmap_put_with grow cmp m e (hf e) =
      res_bind (occupy grow m' p' c' (hf c')) (\<lambda>m2. Inr (None, m2))"
    using r(2) a l(1) N by (simp add: hashmap_put_with_def shift_put_def Let_def pony_assert_def del: shift_put_loop.simps)
  also have "\<dots> = (if 2 * Suc (hm_count m) > hm_size m then res_bind (grow ?m) (\<lambda>m2. Inr (None, m2))
       else Inr (None, ?m))"
    using l(7,8) by (simp add: occupy_take_slot)
  finally show ?thesis
    using ordered_take_slot [OF l(2,5,3,4)] l(6-8) by (intro exI [of _ ?m]) simp
qed

end

section \<open>Iteration\<close>

definition occ_list :: "'a hashmap_t \<Rightarrow> nat \<Rightarrow> nat list" where
  "occ_list m s = filter (\<lambda>j. slot m j \<noteq> None) [s..<hm_size m]"

lemma pony_ffszu_0: "pony_ffszu x = 0 \<longleftrightarrow> (\<forall>n<64. \<not> bit x n)"
  by (auto simp: pony_ffszu_def find_None_iff find_Some_iff split: option.splits)

lemma pony_ffszu_Suc: "pony_ffszu x = Suc k \<Longrightarrow> k < 64 \<and> bit x k \<and> (\<forall>n<k. \<not> bit x n)"
  by (auto simp: pony_ffszu_def find_Some_iff split: option.splits)

lemma filter_upt_skip:
  assumes "s \<le> t" "\<And>j. s \<le> j \<Longrightarrow> j < t \<Longrightarrow> \<not> P j"
  shows "filter P [s..<n] = filter P [t..<n]"
proof (cases "t \<le> n")
  case True
  have "[s..<n] = [s..<t] @ [t..<n]" using assms(1) True upt_add_eq_append [of s t "n - t"] by simp
  then show ?thesis using assms(2) by (simp add: filter_empty_conv)
next
  case False
  then show ?thesis using assms by (auto simp: filter_empty_conv)
qed

lemma filter_upt_hit:
  assumes "s \<le> j" "j < n" "P j" "\<And>k. s \<le> k \<Longrightarrow> k < j \<Longrightarrow> \<not> P k"
  shows "filter P [s..<n] = j # filter P [Suc j..<n]"
  using filter_upt_skip [of s j P n] assms by (simp add: upt_conv_Cons)

lemma word_scan:
  assumes "j < 64 - index mod 64"
  shows "bit (drop_bit (index mod 64) (bitmap_word bm (index div 64))) j \<longleftrightarrow> bitmap_test bm (index + j)"
proof -
  have "index mod 64 + j < 64" using assms by linarith
  then have "(index + j) div 64 = index div 64" "(index + j) mod 64 = index mod 64 + j"
    by (metis div_mult_mod_eq add.assoc div_mult_self3 div_less add.right_neutral mult.commute
        zero_neq_numeral, metis mod_add_left_eq mod_less)
  then show ?thesis
    by (simp add: bitmap_test_iff bitmap_word_def bit_drop_bit_eq)
qed

lemma word_scan_high:
  "64 - index mod 64 \<le> j \<Longrightarrow> \<not> bit (drop_bit (index mod 64) (w :: uint64_t)) j"
  by (auto simp: bit_drop_bit_eq dest: bit_imp_le_length)

lemma next_loop_spec:
  assumes "hm_shape hf m" "0 < n" "hm_size m < index + n"
  shows "hashmap_next_loop n (hm_bitmap m) (hm_size m) (hm_buckets m) index (index div 64) (index mod 64)
      (drop_bit (index mod 64) (bitmap_word (hm_bitmap m) (index div 64))) =
    (case occ_list m index of [] \<Rightarrow> Inr (None, hm_size m) | j # js \<Rightarrow> Inr (slot m j, j))"
  using assms(2,3)
proof (induction n arbitrary: index)
  case (Suc n)
  let ?ib = "drop_bit (index mod 64) (bitmap_word (hm_bitmap m) (index div 64))"
  note test = shape_test [OF assms(1)]
  show ?case
  proof (cases "index < hm_size m")
    case False
    then show ?thesis by (simp add: occ_list_def)
  next
    case True
    show ?thesis
    proof (cases "pony_ffszu ?ib")
      case 0
      define t where "t = index + (64 - index mod 64)"
      have "\<not> (slot m j \<noteq> None)" if "index \<le> j" "j < t" for j
        using that 0 word_scan [of "j - index" index "hm_bitmap m"] test [of j]
        by (auto simp: pony_ffszu_0 t_def)
      then have "occ_list m index = occ_list m t"
        unfolding occ_list_def by (intro filter_upt_skip) (simp_all add: t_def)
      moreover have "t = 64 * (index div 64 + 1)"
        using div_mult_mod_eq [of index 64] mod_less_divisor [of 64 index, OF zero_less_numeral]
        unfolding t_def by presburger
      then have "t div 64 = index div 64 + 1" "t mod 64 = 0" by simp_all
      moreover have "hm_size m < t + n" "0 < n"
        using Suc.prems True mod_less_divisor [of 64 index] by (simp_all add: t_def)
      ultimately show ?thesis
        using Suc.IH [of t] True 0
        by (simp add: Let_def bitmap_consts push_bit_eq_mult t_def [symmetric])
    next
      case (Suc k)
      note f = pony_ffszu_Suc [OF Suc]
      have k: "k < 64 - index mod 64" using f word_scan_high by (metis not_less)
      then obtain x where x: "slot m (index + k) = Some x"
        using f word_scan [OF k] test by blast
      have "slot m j = None" if "index \<le> j" "j < index + k" for j
      proof -
        have "j - index < k" "j - index < 64 - index mod 64" using that k by linarith+
        then show ?thesis
          using that f word_scan [of "j - index" index "hm_bitmap m"] test [of j] by (cases "slot m j") auto
      qed
      then have "occ_list m index = (index + k) # occ_list m (Suc (index + k))"
        unfolding occ_list_def using x shape_slot_less [OF assms(1) x]
        by (intro filter_upt_hit) auto
      then show ?thesis
        using True Suc x shape_bucket(1) [OF assms(1) x] by (simp add: Let_def)
    qed
  qed
qed simp

lemma next_spec:
  assumes "hm_shape hf m" "0 < hm_count m"
  shows "ponyint_hashmap_next i (hm_count m) (hm_bitmap m) (hm_size m) (hm_buckets m) =
    (case occ_list m ((i + 1) mod 2 ^ 64) of
       [] \<Rightarrow> Inr (None, hm_size m) | j # js \<Rightarrow> Inr (slot m j, j))"
  using next_loop_spec [OF assms(1), of "hm_size m + 1" "(i + 1) mod 2 ^ 64"] assms(2)
  by (simp add: ponyint_hashmap_next_def Let_def del: hashmap_next_loop.simps)

lemma occ_list_Cons:
  assumes "occ_list m s = j # js"
  shows "js = occ_list m (Suc j)" "j < hm_size m" "slot m j \<noteq> None" "s \<le> j"
proof -
  have "j \<in> set (occ_list m s)" by (simp add: assms)
  then show j: "j < hm_size m" "slot m j \<noteq> None" "s \<le> j" by (auto simp: occ_list_def)
  have "sorted_wrt (<) (occ_list m s)" unfolding occ_list_def by (rule sorted_wrt_filter) simp
  then have less: "k \<in> set js \<Longrightarrow> j < k" for k by (simp add: assms)
  have "slot m k = None" if "s \<le> k" "k < j" for k
  proof (rule ccontr)
    assume "slot m k \<noteq> None"
    then have "k \<in> set (occ_list m s)" using that j(1) by (simp add: occ_list_def)
    then have "k = j \<or> k \<in> set js" by (simp add: assms)
    with less [of k] that(2) show False by auto
  qed
  then have "occ_list m s = j # occ_list m (Suc j)"
    unfolding occ_list_def using j by (intro filter_upt_hit) auto
  with assms show "js = occ_list m (Suc j)" by simp
qed

lemma occ_list_all:
  assumes "hm_shape hf m"
  shows "set (occ_list m 0) = dom (slot m)" "length (occ_list m 0) = hm_count m" "distinct (occ_list m s)"
proof -
  show d: "distinct (occ_list m s)" for s by (simp add: occ_list_def)
  show s: "set (occ_list m 0) = dom (slot m)"
    using shape_slot_less [OF assms] by (auto simp: occ_list_def)
  show "length (occ_list m 0) = hm_count m"
    using distinct_card [OF d, of 0] by (simp add: s shape_count [OF assms])
qed

lemma HASHMAP_BEGIN_next [simp]: "(HASHMAP_BEGIN + 1) mod 2 ^ 64 = 0"
  by (simp add: HASHMAP_BEGIN_def)

section \<open>Growth\<close>

lemma new_table:
  assumes "3 \<le> k" "k < 61"
  defines "m \<equiv> \<lparr>hm_count = 0, hm_size = 2 ^ k, hm_bitmap = replicate (bitmap_words (2 ^ k)) 0,
                  hm_buckets = replicate (2 ^ k) fresh_bucket\<rparr>"
  shows "hm_inv key hf m \<and> hm_entries m = {}"
proof -
  have "slot m = Map.empty" by (rule ext) (simp add: slot_def m_def)
  then show ?thesis
    using shape_new [OF assms(1,2), of hf]
    by (simp add: hm_inv_def hm_ordered_def robin_hood_empty keys_distinct_def hm_entries_def m_def)
qed

lemma init_table:
  assumes "n \<le> 2 ^ 59" "m = ponyint_hashmap_init n"
  shows "hm_inv key hf m \<and> hm_entries m = {} \<and> hm_count m = 0 \<and> 2 * n \<le> hm_size m"
proof (cases "n < 4")
  case True
  then show ?thesis
    using new_table [of 3 key hf]
    by (simp add: assms(2) ponyint_hashmap_init_def MIN_HASHMAP_SIZE_def push_bit_eq_mult)
next
  case False
  let ?i = "of_nat (n * 2) :: uint64_t"
  have u: "unat ?i = n * 2" by (rule unat_of_nat_u64) (use assms in simp)
  have "1 < ?i" "?i \<le> 2 ^ 63" unfolding word_less_nat_alt word_le_nat_alt u using assms False by simp_all
  then obtain k where m: "k < 63" "ponyint_next_pow2 ?i = 2 ^ Suc k" "2 ^ k < unat ?i" "unat ?i \<le> 2 ^ Suc k"
    by (rule ponyint_next_pow2_value)
  have sz: "unat (ponyint_next_pow2 ?i) = 2 ^ Suc k"
    unfolding m(2) by (rule unat_exp_u64) (use m(1) in simp)
  have "(2 :: nat) ^ 3 \<le> 2 ^ Suc k" using m(4) u False by simp
  then have "3 \<le> Suc k" by (rule power_le_imp_le_exp [rotated]) simp
  moreover have "(2 :: nat) ^ k < 2 ^ 60" using m(3) u assms by simp
  then have "k < 60" by (rule power_less_imp_less_exp [rotated]) simp
  ultimately have t: "3 \<le> Suc k" "Suc k < 61" by simp_all
  have i: "m = \<lparr>hm_count = 0, hm_size = 2 ^ Suc k,
      hm_bitmap = replicate (bitmap_words (2 ^ Suc k)) 0, hm_buckets = replicate (2 ^ Suc k) fresh_bucket\<rparr>"
    using False sz by (simp add: assms(2) ponyint_hashmap_init_def MIN_HASHMAP_SIZE_def push_bit_eq_mult Let_def)
  show ?thesis
    using new_table [OF t, of key hf] m(4) u unfolding i by simp
qed

context hash_keyed
begin

lemma put_room:
  assumes inv: "hm_inv key hf m" and room: "2 * Suc (hm_count m) \<le> hm_size m"
    and absent: "\<forall>x \<in> hm_entries m. key x \<noteq> key e"
  shows "\<exists>m'. hashmap_put_with grow cmp m e (hf e) = Inr (None, m') \<and> hm_inv key hf m' \<and>
    hm_entries m' = insert e (hm_entries m) \<and> hm_size m' = hm_size m \<and> hm_count m' = Suc (hm_count m)"
proof -
  have "hm_ordered key hf m" "hm_count m < hm_size m" using inv room by (simp_all add: hm_inv_def)
  from put_absent [OF this absent, of grow] obtain m' where
    "hashmap_put_with grow cmp m e (hf e) = Inr (None, m')" "hm_ordered key hf m'"
    "hm_entries m' = insert e (hm_entries m)" "hm_size m' = hm_size m" "hm_count m' = Suc (hm_count m)"
    using room by (metis linorder_not_less)
  with room show ?thesis by (auto simp: hm_inv_def)
qed

lemma resize_copy_ok:
  assumes old: "hm_ordered key hf old" and L: "occ_list old ((i + 1) mod 2 ^ 64) = L" "length L < n"
    and new: "hm_inv key hf m" "2 * (hm_count m + length L) \<le> hm_size m"
    and absent: "\<forall>x \<in> hm_entries m. \<forall>j \<in> set L. \<forall>y. slot old j = Some y \<longrightarrow> key x \<noteq> key y"
    and c: "L \<noteq> [] \<longrightarrow> 0 < hm_count old"
  shows "\<exists>m'. resize_copy n (hashmap_put_with grow cmp) old i m = Inr m' \<and> hm_inv key hf m' \<and>
    hm_entries m' = hm_entries m \<union> {y. \<exists>j \<in> set L. slot old j = Some y} \<and>
    hm_size m' = hm_size m \<and> hm_count m' = hm_count m + length L"
  using L new absent c
proof (induction L arbitrary: i n m)
  case Nil
  then obtain n' where n: "n = Suc n'" by (cases n) auto
  have "ponyint_hashmap_next i (hm_count old) (hm_bitmap old) (hm_size old) (hm_buckets old) =
      Inr (None, if hm_count old = 0 then i else hm_size old)"
    using next_spec [OF ordered_parts(1) [OF old], of i] Nil.prems(1)
    by (cases "hm_count old = 0") (simp_all add: ponyint_hashmap_next_def)
  then show ?case using Nil.prems n by simp
next
  case (Cons j L)
  note sh = ordered_parts(1) [OF old]
  note j = occ_list_Cons [OF Cons.prems(1)]
  obtain n' where n: "n = Suc n'" "length L < n'" using Cons.prems(2) by (cases n) auto
  obtain y where y: "slot old j = Some y" using j(3) by auto
  have nx: "ponyint_hashmap_next i (hm_count old) (hm_bitmap old) (hm_size old) (hm_buckets old) =
      Inr (Some y, j)"
    using next_spec [OF sh, of i] Cons.prems(1,6) y by simp
  have "\<forall>x \<in> hm_entries m. key x \<noteq> key y" using Cons.prems(5) y by auto
  moreover have "2 * Suc (hm_count m) \<le> hm_size m" using Cons.prems(4) by simp
  ultimately obtain m1 where m1: "hashmap_put_with grow cmp m y (hf y) = Inr (None, m1)" "hm_inv key hf m1"
      "hm_entries m1 = insert y (hm_entries m)" "hm_size m1 = hm_size m" "hm_count m1 = Suc (hm_count m)"
    using put_room [OF Cons.prems(3)] by metis
  have "(j + 1) mod 2 ^ 64 = Suc j" using j(2) shape_size(3) [OF sh] by simp
  then have L: "occ_list old ((j + 1) mod 2 ^ 64) = L" using j(1) by simp
  have ab: "\<forall>x \<in> hm_entries m1. \<forall>i \<in> set L. \<forall>z. slot old i = Some z \<longrightarrow> key x \<noteq> key z"
  proof (intro ballI allI impI)
    fix x i z
    assume a: "x \<in> hm_entries m1" "i \<in> set L" "slot old i = Some z"
    have "distinct (j # L)" using occ_list_all(3) [OF sh] Cons.prems(1) by metis
    then have "i \<noteq> j" using a(2) by auto
    then have "key y \<noteq> key z"
      using ordered_parts(3) [OF old] y a(3) unfolding keys_distinct_def by blast
    then show "key x \<noteq> key z" using a Cons.prems(5) m1(3) by auto
  qed
  have "2 * (hm_count m1 + length L) \<le> hm_size m1" using Cons.prems(4) m1(4,5) by simp
  from Cons.IH [OF L n(2) m1(2) this ab] Cons.prems(6) obtain m' where m':
      "resize_copy n' (hashmap_put_with grow cmp) old j m1 = Inr m'" "hm_inv key hf m'"
      "hm_entries m' = hm_entries m1 \<union> {y. \<exists>j \<in> set L. slot old j = Some y}"
      "hm_size m' = hm_size m1" "hm_count m' = hm_count m1 + length L"
    by auto
  have "resize_copy n (hashmap_put_with grow cmp) old i m = Inr m'"
    using n(1) nx m1(1) m'(1) shape_bucket(1) [OF sh y] by simp
  moreover have "hm_entries m' = hm_entries m \<union> {z. \<exists>i \<in> set (j # L). slot old i = Some z}"
    using m'(3) m1(3) y by auto
  ultimately show ?case using m' m1 by (intro exI [of _ m']) simp
qed

lemma resize_ok:
  assumes ord: "hm_ordered key hf m" and sz: "hm_size m < 2 ^ 58" "hm_count m \<le> hm_size m"
  shows "\<exists>m'. resize (hashmap_put_with grow cmp) m = Inr m' \<and> hm_inv key hf m' \<and>
    hm_entries m' = hm_entries m \<and> hm_size m' = 8 * hm_size m \<and> hm_count m' = hm_count m"
proof -
  note sh = ordered_parts(1) [OF ord]
  obtain k where k: "3 \<le> k" "k < 61" "hm_size m = 2 ^ k" using sh by (auto simp: hm_shape_def)
  have "k < 58" using sz(1) unfolding k(3) by (rule power_less_imp_less_exp [rotated]) simp
  define new where "new = (\<lparr>hm_count = 0, hm_size = 2 ^ (k + 3),
    hm_bitmap = replicate (bitmap_words (2 ^ (k + 3))) 0,
    hm_buckets = replicate (2 ^ (k + 3)) fresh_bucket\<rparr> :: 'a hashmap_t)"
  have n: "hm_inv key hf new" "hm_entries new = {}"
    using new_table [of "k + 3" key hf] k(1) \<open>k < 58\<close> by (simp_all add: new_def)
  have s8: "push_bit 3 (hm_size m) = 2 ^ (k + 3)" "\<not> hm_size m < 8"
    using k(3) shape_size(1) [OF sh] by (simp_all add: push_bit_eq_mult power_add)
  have "occ_list m ((HASHMAP_BEGIN + 1) mod 2 ^ 64) = occ_list m 0"
    by (simp only: HASHMAP_BEGIN_next)
  moreover have "length (occ_list m 0) < hm_count m + 1" using occ_list_all(2) [OF sh] by simp
  moreover have "2 * (hm_count new + length (occ_list m 0)) \<le> hm_size new"
    using occ_list_all(2) [OF sh] sz(2) k(3) by (simp add: new_def power_add)
  moreover have "occ_list m 0 \<noteq> [] \<longrightarrow> 0 < hm_count m"
    unfolding occ_list_all(2) [OF sh, symmetric] by simp
  ultimately obtain m' where m':
      "resize_copy (hm_count m + 1) (hashmap_put_with grow cmp) m HASHMAP_BEGIN new = Inr m'"
      "hm_inv key hf m'" "hm_entries m' = hm_entries new \<union> {y. \<exists>j \<in> set (occ_list m 0). slot m j = Some y}"
      "hm_size m' = hm_size new" "hm_count m' = hm_count new + length (occ_list m 0)"
    using resize_copy_ok [OF ord _ _ n(1)] n(2) by blast
  have "resize (hashmap_put_with grow cmp) m = Inr m'"
    using m'(1,5) s8 occ_list_all(2) [OF sh] unfolding resize_def Let_def MIN_HASHMAP_SIZE_def
    by (simp add: new_def del: resize_copy.simps)
  moreover have "hm_entries m' = hm_entries m"
    unfolding m'(3) n(2) occ_list_all(1) [OF sh] by (auto simp: hm_entries_def ran_def)
  ultimately show ?thesis
    using m' k(3) occ_list_all(2) [OF sh] by (intro exI [of _ m']) (simp add: new_def power_add)
qed

end

section \<open>The operations on a valid table\<close>

lemma init_slot [simp]: "slot HASHMAP_INIT = Map.empty"
  by (auto simp: slot_def HASHMAP_INIT_def bitmap_test_iff fun_eq_iff)

lemma init_entries [simp]: "hm_entries HASHMAP_INIT = {}"
  by (simp add: hm_entries_def)

lemma next_pow2_8_range: "1 < (8 :: uint64_t)" "(8 :: uint64_t) \<le> 2 ^ 63"
  by simp_all

lemma init_4_size: "hm_size (ponyint_hashmap_init 4) = 8"
proof -
  obtain m where m: "ponyint_next_pow2 8 = 2 ^ Suc m" "2 ^ m < unat (8 :: uint64_t)" "unat (8 :: uint64_t) \<le> 2 ^ Suc m"
    using ponyint_next_pow2_value [of 8] by (metis (no_types) next_pow2_8_range)
  have "(2 :: nat) ^ m < 2 ^ 3" "(2 :: nat) ^ 3 \<le> 2 ^ Suc m" using m(2,3) by simp_all
  then have "m < 3" "3 \<le> Suc m"
    using power_less_imp_less_exp [of "2 :: nat" m 3] power_le_imp_le_exp [of "2 :: nat" 3 "Suc m"]
    by (simp_all del: power_Suc)
  then have "m = 2" by simp
  with m(1) show ?thesis
    by (simp add: ponyint_hashmap_init_def MIN_HASHMAP_SIZE_def push_bit_eq_mult)
qed

lemma entries_empty: "hm_shape hf m \<Longrightarrow> hm_count m = 0 \<Longrightarrow> hm_entries m = {}"
  using shape_count [of hf m] finite_subset [of "dom (slot m)" "{..<hm_size m}"] shape_slot_less [of hf m]
  by (auto simp: hm_entries_def ran_def dom_def subset_iff card_eq_0_iff)

context hash_keyed
begin

lemma entry_unique:
  assumes "hm_ordered key hf m" "slot m i = Some x" "y \<in> hm_entries m" "key y = key x"
  shows "y = x"
proof -
  obtain j where j: "slot m j = Some y" using assms(3) by (auto simp: hm_entries_def ran_def)
  then have "j = i" using ordered_parts(3) [OF assms(1)] assms(2,4) unfolding keys_distinct_def by blast
  with j assms(2) show ?thesis by simp
qed

lemma put_nest_inv:
  assumes inv: "hm_inv key hf m" and sz: "hm_size m < 2 ^ 58"
  shows "\<exists>old m'. ponyint_hashmap_put cmp m e (hf e) = Inr (old, m') \<and> hm_inv key hf m' \<and>
    hm_entries m' = insert e {x \<in> hm_entries m. key x \<noteq> key e} \<and>
    (\<forall>x. old = Some x \<longleftrightarrow> x \<in> hm_entries m \<and> key x = key e)"
proof -
  let ?grow = "resize (hashmap_put_with (resize (hashmap_put_nest 0 cmp)) cmp)"
  have p: "ponyint_hashmap_put cmp m e (hf e) = hashmap_put_with ?grow cmp m e (hf e)"
    by (simp add: ponyint_hashmap_put_def numeral_2_eq_2 fun_eq_iff)
       (simp add: fun_eq_iff [symmetric] hashmap_put_nest.simps(2) [abs_def])
  have ord: "hm_ordered key hf m" and half: "2 * hm_count m \<le> hm_size m" using inv by (simp_all add: hm_inv_def)
  note sh = ordered_parts(1) [OF ord]
  have room: "hm_count m < hm_size m" using half shape_size(2) [OF sh] by linarith
  show ?thesis
  proof (cases "\<exists>x \<in> hm_entries m. key x = key e")
    case True
    then obtain i x where x: "slot m i = Some x" "key x = key e" by (auto simp: hm_entries_def ran_def)
    have u: "y = x" if "y \<in> hm_entries m" "key y = key e" for y
      using entry_unique [OF ord x(1)] that x(2) by simp
    have "x \<in> hm_entries m" using x(1) by (auto simp: hm_entries_def ran_def)
    then have r: "\<forall>y. Some x = Some y \<longleftrightarrow> y \<in> hm_entries m \<and> key y = key e"
      unfolding option.inject using u x(2) by blast
    have "ponyint_hashmap_put cmp m e (hf e) = Inr (Some x, store m i e (hf e))"
      unfolding p by (rule put_present [OF ord room x])
    moreover have "hm_inv key hf (store m i e (hf e))"
      using ordered_replace(1) [OF ord x] half by (simp add: hm_inv_def)
    ultimately show ?thesis using ordered_replace(2) [OF ord x] r by blast
  next
    case False
    then have absent: "\<forall>x \<in> hm_entries m. key x \<noteq> key e" by blast
    then have f: "{x \<in> hm_entries m. key x \<noteq> key e} = hm_entries m" by blast
    from put_absent [OF ord room absent, of ?grow] obtain m1 where m1:
        "hashmap_put_with ?grow cmp m e (hf e) =
          (if 2 * Suc (hm_count m) > hm_size m then res_bind (?grow m1) (\<lambda>m2. Inr (None, m2))
           else Inr (None, m1))"
        "hm_ordered key hf m1" "hm_entries m1 = insert e (hm_entries m)"
        "hm_size m1 = hm_size m" "hm_count m1 = Suc (hm_count m)"
      by blast
    show ?thesis
    proof (cases "2 * Suc (hm_count m) > hm_size m")
      case True
      obtain m2 where m2: "?grow m1 = Inr m2" "hm_inv key hf m2" "hm_entries m2 = hm_entries m1"
        using resize_ok [OF m1(2), of "resize (hashmap_put_nest 0 cmp)"] sz room m1(4,5) by auto
      then have "ponyint_hashmap_put cmp m e (hf e) = Inr (None, m2)" using m1(1) True p by simp
      then show ?thesis using m2 m1(3) False f by auto
    next
      case False
      then have "ponyint_hashmap_put cmp m e (hf e) = Inr (None, m1)" "hm_inv key hf m1"
        using m1 p by (simp_all add: hm_inv_def)
      then show ?thesis using m1(3) absent f by auto
    qed
  qed
qed

lemma put_valid:
  assumes "hm_valid key hf m" "hm_size m < 2 ^ 58"
  shows "\<exists>old m'. ponyint_hashmap_put cmp m e (hf e) = Inr (old, m') \<and> hm_inv key hf m' \<and>
    hm_entries m' = insert e {x \<in> hm_entries m. key x \<noteq> key e} \<and>
    (\<forall>x. old = Some x \<longleftrightarrow> x \<in> hm_entries m \<and> key x = key e)"
proof (cases "hm_inv key hf m")
  case False
  then have m: "m = HASHMAP_INIT" using assms(1) by (simp add: hm_valid_def)
  define m0 where "m0 = (ponyint_hashmap_init 4 :: 'a hashmap_t)"
  have m0: "hm_inv key hf m0" "hm_entries m0 = {}" "hm_size m0 = 8"
    using init_table [of 4 m0 key hf] init_4_size by (simp_all add: m0_def)
  have "ponyint_hashmap_put cmp m e (hf e) = ponyint_hashmap_put cmp m0 e (hf e)"
    using m0(3) by (simp add: ponyint_hashmap_put_def numeral_2_eq_2 hashmap_put_with_def m HASHMAP_INIT_def m0_def)
  then show ?thesis using put_nest_inv [OF m0(1), of e] m0 m by simp
qed (use put_nest_inv assms in blast)

lemma get_valid:
  assumes "hm_valid key hf m"
  shows "fst (ponyint_hashmap_get m k (hf k) cmp pos) = Some x \<longleftrightarrow> x \<in> hm_entries m \<and> key x = key k"
proof (cases "hm_count m = 0")
  case True
  then have "hm_entries m = {}"
    using assms entries_empty [of hf m] by (auto simp: hm_valid_def hm_inv_def hm_ordered_def)
  with True show ?thesis by (simp add: ponyint_hashmap_get_def)
next
  case False
  then have ord: "hm_ordered key hf m" and half: "2 * hm_count m \<le> hm_size m"
    using assms by (auto simp: hm_valid_def hm_inv_def HASHMAP_INIT_def)
  note sh = ordered_parts(1) [OF ord]
  have "hm_count m < hm_size m" using half False by linarith
  then obtain j where j: "j < hm_size m" "slot m j = None" by (rule ordered_has_room [OF sh])
  show ?thesis
  proof (cases "\<exists>y \<in> hm_entries m. key y = key k")
    case True
    then obtain i y where y: "slot m i = Some y" "key y = key k" by (auto simp: hm_entries_def ran_def)
    have "y \<in> hm_entries m" using y(1) by (auto simp: hm_entries_def ran_def)
    moreover have "fst (ponyint_hashmap_get m k (hf k) cmp pos) = Some y"
      using False search_finds [OF ord j(2,1) y] by (simp add: ponyint_hashmap_get_def)
    ultimately show ?thesis using entry_unique [OF ord y(1), of x] y(2) by auto
  next
    case no: False
    then have absent: "\<forall>y \<in> hm_entries m. key y \<noteq> key k" by blast
    have N: "0 < hm_size m" using j(1) by simp
    obtain r oi where "search m k (hf k) cmp 0 0 = (None, home_plus (hm_size m) (hf k) r, r, oi)"
      by (rule search_misses [OF ord j(2,1) absent N disjI1 [OF refl], of 0]) (rule that)
    then show ?thesis using absent False by (auto simp: ponyint_hashmap_get_def)
  qed
qed

end

section \<open>Removal\<close>

lemma before_eq: "i < N \<Longrightarrow> before N i = p \<Longrightarrow> i = (p + 1) mod N"
  by (metis next_before)

lemma robin_hood_shift_back:
  assumes rh: "robin_hood hf N t" and N: "1 < N" "p < N" and x: "t p = Some x"
    and y: "t ((p + 1) mod N) = Some y" "0 < dist N (hf y) ((p + 1) mod N)"
  shows "robin_hood hf N (t(p \<mapsto> y))"
  unfolding robin_hood_def
proof (intro allI impI)
  fix i z
  assume i: "i < N" "(t(p \<mapsto> y)) i = Some z"
  let ?n = "(p + 1) mod N"
  have n: "?n < N" "before N ?n = p" using N before_next [of p N] by simp_all
  have bp: "before N p \<noteq> p"
  proof
    assume "before N p = p"
    then have "p = (p + 1) mod N" using before_eq [OF N(2)] by blast
    then show False using N by (cases "p + 1 = N") simp_all
  qed
  have yp: "dist N (hf y) ?n = Suc (dist N (hf y) p)" using dist_pos_before [OF n(1) y(2)] n(2) by simp
  have "placed hf N t ?n (hf y)" using rh n(1) y(1) by (simp add: robin_hood_def)
  then have "dist N (hf y) p \<le> dist N (hf x) p" using yp n(2) x by (auto simp: placed_def)
  moreover have "placed hf N t p (hf x)" using rh N(2) x by (simp add: robin_hood_def)
  ultimately have at_p: "placed hf N t p (hf y)" by (auto simp: placed_def)
  show "placed hf N (t(p \<mapsto> y)) i (hf z)"
  proof (cases "i = p")
    case True
    with i(2) at_p bp show ?thesis by (auto simp: placed_def)
  next
    case False
    show ?thesis
    proof (cases "i = ?n")
      case True
      then have "z = y" using i(2) False y(1) by simp
      then show ?thesis using True n(2) yp by (simp add: placed_def)
    next
      case nn: False
      then have "before N i \<noteq> p" using before_eq [OF i(1)] by blast
      moreover have "placed hf N t i (hf z)" using rh i False by (simp add: robin_hood_def)
      ultimately show ?thesis by (auto simp: placed_def)
    qed
  qed
qed

lemma robin_hood_clear:
  assumes rh: "robin_hood hf N t" and p: "p < N"
    and n: "\<And>y. t ((p + 1) mod N) = Some y \<Longrightarrow> dist N (hf y) ((p + 1) mod N) = 0"
  shows "robin_hood hf N (t(p := None))"
  unfolding robin_hood_def
proof (intro allI impI)
  fix i z
  assume i: "i < N" "(t(p := None)) i = Some z"
  then have z: "t i = Some z" "i \<noteq> p" by (auto split: if_splits)
  show "placed hf N (t(p := None)) i (hf z)"
  proof (cases "before N i = p")
    case True
    then have "i = (p + 1) mod N" by (rule before_eq [OF i(1)])
    then show ?thesis using n z(1) by (simp add: placed_def)
  next
    case False
    moreover have "placed hf N t i (hf z)" using rh i(1) z(1) by (simp add: robin_hood_def)
    ultimately show ?thesis by (auto simp: placed_def)
  qed
qed

lemma mem_ran_upd_None: "z \<in> ran (t(p := None)) \<longleftrightarrow> (\<exists>a. a \<noteq> p \<and> t a = Some z)"
  by (auto simp: ran_def)

lemma ran_shift_back:
  assumes "t n = Some y" "n \<noteq> p"
  shows "ran ((t(p \<mapsto> y))(n := None)) = ran (t(p := None))"
proof (rule set_eqI)
  fix z
  show "z \<in> ran ((t(p \<mapsto> y))(n := None)) \<longleftrightarrow> z \<in> ran (t(p := None))"
  proof
    assume "z \<in> ran ((t(p \<mapsto> y))(n := None))"
    then obtain a where a: "a \<noteq> n" "(t(p \<mapsto> y)) a = Some z" by (auto simp: mem_ran_upd_None)
    then show "z \<in> ran (t(p := None))"
      using assms by (cases "a = p") (auto simp: mem_ran_upd_None)
  next
    assume "z \<in> ran (t(p := None))"
    then obtain a where a: "a \<noteq> p" "t a = Some z" by (auto simp: mem_ran_upd_None)
    then have "if a = n then (t(p \<mapsto> y)) p = Some z else (t(p \<mapsto> y)) a = Some z"
      using assms by auto
    then show "z \<in> ran ((t(p \<mapsto> y))(n := None))"
      using assms(2) by (cases "a = n") (auto simp only: mem_ran_upd_None if_True if_False)
  qed
qed

lemma keys_distinct_shift_back:
  assumes "keys_distinct key (t(p := None))" "t n = Some y" "n \<noteq> p"
  shows "keys_distinct key ((t(p \<mapsto> y))(n := None))"
  unfolding keys_distinct_def
proof (intro allI impI)
  fix i j u v
  assume h: "((t(p \<mapsto> y))(n := None)) i = Some u" "((t(p \<mapsto> y))(n := None)) j = Some v" "key u = key v"
  let ?s = "\<lambda>i. if i = p then n else i"
  have "(t(p := None)) (?s i) = Some u" "(t(p := None)) (?s j) = Some v" "i \<noteq> n" "j \<noteq> n"
    using h(1,2) assms(2,3) by (auto split: if_splits)
  then have "?s i = ?s j" using assms(1) h(3) unfolding keys_distinct_def by blast
  then show "i = j" using \<open>i \<noteq> n\<close> \<open>j \<noteq> n\<close> by (auto split: if_splits)
qed

lemma shift_delete_loop_ok:
  assumes "hm_shape hf m" "robin_hood hf (hm_size m) (slot m)" "slot m p = Some x"
    and "keys_distinct key ((slot m)(p := None))"
    and "d < n" "slot m ((p + 1 + d) mod hm_size m) = None"
  shows "\<exists>m' p' x'. shift_delete_loop n (hm_size m - 1) m p = Inr (m', p') \<and> hm_shape hf m' \<and>
    robin_hood hf (hm_size m) ((slot m')(p' := None)) \<and> slot m' p' = Some x' \<and>
    keys_distinct key ((slot m')(p' := None)) \<and>
    ran ((slot m')(p' := None)) = ran ((slot m)(p := None)) \<and>
    hm_size m' = hm_size m \<and> hm_count m' = hm_count m"
  using assms
proof (induction n arbitrary: m p x d)
  case (Suc n)
  let ?N = "hm_size m" and ?q = "(p + 1) mod hm_size m"
  note sh = Suc.prems(1)
  have N: "8 \<le> ?N" by (rule shape_size(1) [OF sh])
  have p: "p < ?N" by (rule shape_slot_less [OF sh Suc.prems(3)])
  have q: "(p + 1) AND (?N - 1) = ?q" using shape_and_mask [OF sh, of "p + 1"] by simp
  have qp: "?q \<noteq> p" using N p by (cases "p + 1 = ?N") simp_all
  show ?case
  proof (cases "\<exists>y. slot m ?q = Some y \<and> dist ?N (hf y) ?q \<noteq> 0")
    case True
    then obtain y where y: "slot m ?q = Some y" "0 < dist ?N (hf y) ?q" by auto
    define m1 where "m1 = store m p y (hf y)"
    have s: "hm_shape hf m1" "slot m1 = (slot m)(p \<mapsto> y)"
      using shape_store [OF sh, of p y] Suc.prems(3) by (simp_all add: m1_def)
    have sz: "hm_size m1 = ?N" "hm_count m1 = hm_count m" by (simp_all add: m1_def)
    have rh: "robin_hood hf ?N (slot m1)"
      unfolding s(2) by (rule robin_hood_shift_back [OF Suc.prems(2) _ p Suc.prems(3) y]) (use N in simp)
    have kd: "keys_distinct key ((slot m1)(?q := None))"
      unfolding s(2) using Suc.prems(4) y(1) qp by (rule keys_distinct_shift_back)
    have d: "d \<noteq> 0" using Suc.prems(6) y(1) by (metis add.right_neutral option.distinct(1))
    have "slot m1 ?q = Some y" using y(1) qp s(2) by simp
    moreover have e: "(?q + 1 + (d - 1)) mod ?N = (p + 1 + d) mod ?N"
      using d mod_add_left_eq [of "p + 1" ?N d] by simp
    moreover have "(p + 1 + d) mod ?N \<noteq> p" using Suc.prems(3,6) by auto
    then have "slot m1 ((?q + 1 + (d - 1)) mod ?N) = None" unfolding e s(2) using Suc.prems(6) by simp
    moreover have "d - 1 < n" using Suc.prems(5) d by simp
    ultimately obtain m' p' x' where m': "shift_delete_loop n (?N - 1) m1 ?q = Inr (m', p')" "hm_shape hf m'"
        "robin_hood hf ?N ((slot m')(p' := None))" "slot m' p' = Some x'"
        "keys_distinct key ((slot m')(p' := None))"
        "ran ((slot m')(p' := None)) = ran ((slot m1)(?q := None))" "hm_size m' = ?N" "hm_count m' = hm_count m"
      using Suc.IH [of m1 ?q y "d - 1"] s(1) rh kd unfolding sz by blast
    have "shift_delete_loop (Suc n) (?N - 1) m p = Inr (m', p')"
      unfolding m'(1) [symmetric] using y shape_bucket(1) [OF sh y(1)] q
      by (simp add: Let_def shape_test [OF sh] shape_probe [OF sh] m1_def store_def)
    moreover have "ran ((slot m1)(?q := None)) = ran ((slot m)(p := None))"
      unfolding s(2) using y(1) qp by (rule ran_shift_back)
    ultimately show ?thesis using m'(2-8) by (metis (no_types))
  next
    case False
    then have "robin_hood hf ?N ((slot m)(p := None))"
      by (intro robin_hood_clear [OF Suc.prems(2) p]) auto
    moreover have "shift_delete_loop (Suc n) (?N - 1) m p = Inr (m, p)"
      using False q shape_bucket(1) [OF sh]
      by (auto simp: Let_def shape_test [OF sh] shape_probe [OF sh])
    ultimately show ?thesis using Suc.prems by blast
  qed
qed simp

context hash_keyed
begin

lemma shift_delete_ok:
  assumes inv: "hm_inv key hf m" and x: "slot m p = Some x"
  shows "\<exists>m'. shift_delete m p = Inr m' \<and> hm_inv key hf m' \<and> hm_entries m' = hm_entries m - {x} \<and>
    hm_size m' = hm_size m \<and> hm_count m' = hm_count m - 1"
proof -
  have ord: "hm_ordered key hf m" and half: "2 * hm_count m \<le> hm_size m" using inv by (simp_all add: hm_inv_def)
  note sh = ordered_parts(1) [OF ord] and dk = ordered_parts(3) [OF ord]
  let ?N = "hm_size m"
  have N: "0 < ?N" by (rule shape_size(2) [OF sh])
  have p: "p < ?N" by (rule shape_slot_less [OF sh x])
  have "hm_count m < ?N" using half N by linarith
  then obtain e where e: "e < ?N" "slot m e = None" by (rule ordered_has_room [OF sh])
  define d where "d = (e + ?N - (p + 1) mod ?N) mod ?N"
  have "(p + 1) mod ?N + (e + ?N - (p + 1) mod ?N) = e + ?N"
    using mod_less_divisor [OF N, of "p + 1"] by linarith
  then have "((p + 1) mod ?N + d) mod ?N = e" unfolding d_def mod_add_right_eq using e(1) by simp
  then have "slot m ((p + 1 + d) mod ?N) = None" using e(2) by (simp add: mod_simps)
  moreover have "d < ?N" using N by (simp add: d_def)
  moreover have "keys_distinct key ((slot m)(p := None))"
    using dk unfolding keys_distinct_def by (simp add: fun_upd_apply)
  ultimately obtain m' p' x' where m': "shift_delete_loop ?N (?N - 1) m p = Inr (m', p')" "hm_shape hf m'"
      "robin_hood hf ?N ((slot m')(p' := None))" "slot m' p' = Some x'"
      "keys_distinct key ((slot m')(p' := None))"
      "ran ((slot m')(p' := None)) = ran ((slot m)(p := None))" "hm_size m' = ?N" "hm_count m' = hm_count m"
    using shift_delete_loop_ok [OF sh ordered_parts(2) [OF ord] x] by blast
  note c = shape_clear [OF m'(2,4)]
  have "shift_delete m p = Inr (clear_bucket m' p')"
    using m'(1) p by (simp add: shift_delete_def)
  moreover have "hm_inv key hf (clear_bucket m' p')"
    using c m'(3,5,7,8) half by (simp add: hm_inv_def hm_ordered_def)
  moreover have "hm_entries (clear_bucket m' p') = hm_entries m - {x}"
  proof -
    have "x \<notin> ran ((slot m)(p := None))"
      using dk x unfolding keys_distinct_def ran_def by (auto split: if_splits)
    moreover have "insert x (ran ((slot m)(p := None))) = ran (slot m)"
      using x by (auto simp: mem_ran_upd_None ran_def) (metis option.inject)
    ultimately show ?thesis using c m'(6) by (auto simp: hm_entries_def)
  qed
  ultimately show ?thesis using m'(7,8) by auto
qed

lemma remove_valid:
  assumes "hm_valid key hf m"
  shows "\<exists>old m'. ponyint_hashmap_remove cmp m k (hf k) = Inr (old, m') \<and> hm_valid key hf m' \<and>
    hm_entries m' = {x \<in> hm_entries m. key x \<noteq> key k} \<and>
    (\<forall>x. old = Some x \<longleftrightarrow> x \<in> hm_entries m \<and> key x = key k)"
proof (cases "hm_count m = 0")
  case True
  then have "hm_entries m = {}"
    using assms entries_empty [of hf m] by (auto simp: hm_valid_def hm_inv_def hm_ordered_def)
  with True assms show ?thesis by (simp add: ponyint_hashmap_remove_def)
next
  case False
  then have inv: "hm_inv key hf m" using assms by (auto simp: hm_valid_def HASHMAP_INIT_def)
  then have ord: "hm_ordered key hf m" and half: "2 * hm_count m \<le> hm_size m"
    by (simp_all add: hm_inv_def)
  note sh = ordered_parts(1) [OF ord]
  have "hm_count m < hm_size m" using half False by linarith
  then obtain j where j: "j < hm_size m" "slot m j = None" by (rule ordered_has_room [OF sh])
  show ?thesis
  proof (cases "\<exists>y \<in> hm_entries m. key y = key k")
    case True
    then obtain i y where y: "slot m i = Some y" "key y = key k" by (auto simp: hm_entries_def ran_def)
    have ye: "y \<in> hm_entries m" using y(1) by (auto simp: hm_entries_def ran_def)
    obtain m' where m': "shift_delete m i = Inr m'" "hm_inv key hf m'" "hm_entries m' = hm_entries m - {y}"
      using shift_delete_ok [OF inv y(1)] by blast
    have "ponyint_hashmap_remove cmp m k (hf k) = Inr (Some y, m')"
      using False search_finds [OF ord j(2,1) y] m'(1) by (simp add: ponyint_hashmap_remove_def)
    moreover have "x = y \<longleftrightarrow> x \<in> hm_entries m \<and> key x = key k" for x
      using entry_unique [OF ord y(1), of x] y(2) ye by auto
    ultimately show ?thesis using m'(2,3) by (intro exI [of _ "Some y"] exI [of _ m']) (auto simp: hm_valid_def)
  next
    case no: False
    then have absent: "\<forall>y \<in> hm_entries m. key y \<noteq> key k" by blast
    have N: "0 < hm_size m" using j(1) by simp
    obtain r oi where "search m k (hf k) cmp 0 0 = (None, home_plus (hm_size m) (hf k) r, r, oi)"
      by (rule search_misses [OF ord j(2,1) absent N disjI1 [OF refl], of 0]) (rule that)
    then have "ponyint_hashmap_remove cmp m k (hf k) = Inr (None, m)"
      using False by (simp add: ponyint_hashmap_remove_def)
    then show ?thesis using absent assms by (intro exI [of _ None] exI [of _ m]) auto
  qed
qed

end

section \<open>Operations by index, and iteration\<close>

lemma option_eqI: "(\<And>x. a = Some x \<longleftrightarrow> b = Some x) \<Longrightarrow> a = b"
  by (cases a; cases b) auto

context hash_keyed
begin

lemma removeindex_valid:
  assumes "hm_valid key hf m"
  shows "\<exists>m'. ponyint_hashmap_removeindex m i = Inr m' \<and> hm_valid key hf m' \<and>
    hm_entries m' = {x \<in> hm_entries m. slot m i \<noteq> Some x}"
proof (cases "slot m i")
  case None
  have "ponyint_hashmap_removeindex m i = Inr m"
  proof (cases "hm_inv key hf m")
    case True
    then have "hm_shape hf m" by (simp add: hm_inv_def hm_ordered_def)
    then show ?thesis using None by (simp add: ponyint_hashmap_removeindex_def shape_test)
  next
    case False
    then show ?thesis
      using assms by (simp add: hm_valid_def ponyint_hashmap_removeindex_def HASHMAP_INIT_def)
  qed
  then show ?thesis using assms None by simp
next
  case (Some x)
  then have inv: "hm_inv key hf m" using assms by (auto simp: hm_valid_def)
  then have sh: "hm_shape hf m" by (simp add: hm_inv_def hm_ordered_def)
  have "i < hm_size m" by (rule shape_slot_less [OF sh Some])
  then have "ponyint_hashmap_removeindex m i = shift_delete m i"
    using Some by (simp add: ponyint_hashmap_removeindex_def shape_test [OF sh])
  then show ?thesis using shift_delete_ok [OF inv Some] Some by (auto simp: hm_valid_def)
qed

lemma putindex_put:
  assumes valid: "hm_valid key hf m" and k: "key e = key k"
    and get: "ponyint_hashmap_get m k (hf k) cmp HASHMAP_UNKNOWN = (None, pos)"
  shows "ponyint_hashmap_putindex cmp m e (hf e) pos =
    res_bind (ponyint_hashmap_put cmp m e (hf e)) (\<lambda>(elem, m'). Inr m')"
proof (cases "hm_count m = 0")
  case True
  then have "pos = HASHMAP_UNKNOWN" using get by (simp add: ponyint_hashmap_get_def)
  then show ?thesis by (simp add: ponyint_hashmap_putindex_def)
next
  case False
  then have inv: "hm_inv key hf m" using valid by (auto simp: hm_valid_def HASHMAP_INIT_def)
  then have ord: "hm_ordered key hf m" and half: "2 * hm_count m \<le> hm_size m"
    by (simp_all add: hm_inv_def)
  note sh = ordered_parts(1) [OF ord]
  have "hm_count m < hm_size m" using half False by linarith
  then obtain j where j: "j < hm_size m" "slot m j = None" by (rule ordered_has_room [OF sh])
  have he: "hf e = hf k" using hf_key k by metis
  have absent: "\<forall>y \<in> hm_entries m. key y \<noteq> key e"
    using get_valid [OF valid, of k HASHMAP_UNKNOWN] get k by auto
  have N: "0 < hm_size m" "hm_size m < 2 ^ 61" using shape_size [OF sh] by blast+
  obtain r oi where r: "r < hm_size m"
      "search m e (hf e) cmp 0 0 = (None, home_plus (hm_size m) (hf e) r, r, oi)"
      "may_enter hf m (hf e) (home_plus (hm_size m) (hf e) r) oi"
      "slot m (home_plus (hm_size m) (hf e) r) = None \<longrightarrow> oi = 0"
    by (rule search_misses [OF ord j(2,1) absent N(1) disjI1 [OF refl], of 0]) (rule that)
  have "search m k (hf k) cmp 0 0 = search m e (hf e) cmp 0 0"
  proof -
    have "cmp k = cmp e" using k by (auto simp: cmp_key fun_eq_iff)
    then have "search_loop m k h cmp msk n i p oi = search_loop m e h cmp msk n i p oi" for h msk n i p oi
      by (induction m k h cmp msk n i p oi rule: search_loop.induct)
        (auto simp: Let_def split: option.splits)
    then show ?thesis by (simp add: search_def he del: search_loop.simps)
  qed
  then have pos: "pos = home_plus (hm_size m) (hf e) r"
    using get r(2) False by (simp add: ponyint_hashmap_get_def)
  have pN: "pos < hm_size m" using pos N by simp
  then have nu: "pos \<noteq> HASHMAP_UNKNOWN" using N(2) by (simp add: HASHMAP_UNKNOWN_def)
  have dr: "dist (hm_size m) (hf e) pos = r"
    using dist_home_plus [OF N(1), of "hf e" r] r(1) pos by simp
  have asrt: "r > oi \<or> r = oi \<and> r = 0" using r(3,4) dr pos by (auto simp: may_enter_def)
  let ?g = "hashmap_resize cmp"
  have put: "res_bind (ponyint_hashmap_put cmp m e (hf e)) (\<lambda>(elem, m'). Inr m') =
      shift_put_loop (hm_size m + 1) ?g cmp m None e (hf e) pos oi"
  proof -
    have "ponyint_hashmap_put cmp m e (hf e) =
        res_bind (shift_put_loop (hm_size m + 1) ?g cmp m None e (hf e) pos oi) (\<lambda>m'. Inr (None, m'))"
      using N(1) r(2) asrt pos
      by (simp add: ponyint_hashmap_put_def numeral_2_eq_2 hashmap_put_with_def hashmap_resize_def
          shift_put_def pony_assert_def del: shift_put_loop.simps)
    then show ?thesis by (cases "shift_put_loop (hm_size m + 1) ?g cmp m None e (hf e) pos oi") simp_all
  qed
  show ?thesis
  proof (cases "slot m pos")
    case None
    then show ?thesis
      using pN nu N(1) put by (simp add: ponyint_hashmap_putindex_def shape_test [OF sh])
  next
    case (Some x)
    then have "oi = dist (hm_size m) (hf x) pos" "oi < r"
      using r(3) pos dr by (auto simp: may_enter_def)
    then show ?thesis
      using pN nu N(1) put Some shape_bucket(1) [OF sh Some] dr
      by (simp add: ponyint_hashmap_putindex_def shape_test [OF sh] shape_probe [OF sh] shift_put_def
          del: shift_put_loop.simps)
  qed
qed

end

lemma destroy_loop_fold:
  assumes sh: "hm_shape hf m" and L: "occ_list m ((i + 1) mod 2 ^ 64) = L" "length L < n"
    and c: "L \<noteq> [] \<longrightarrow> 0 < hm_count m"
  shows "destroy_loop n f m i s = Inr (foldl f s (map (\<lambda>j. the (slot m j)) L))"
  using L c
proof (induction L arbitrary: i n s)
  case Nil
  then obtain n' where n: "n = Suc n'" by (cases n) auto
  have "ponyint_hashmap_next i (hm_count m) (hm_bitmap m) (hm_size m) (hm_buckets m) =
      Inr (None, if hm_count m = 0 then i else hm_size m)"
    using next_spec [OF sh, of i] Nil.prems(1)
    by (cases "hm_count m = 0") (simp_all add: ponyint_hashmap_next_def)
  then show ?case using n by simp
next
  case (Cons j L)
  note j = occ_list_Cons [OF Cons.prems(1)]
  obtain n' where n: "n = Suc n'" "length L < n'" using Cons.prems(2) by (cases n) auto
  obtain y where y: "slot m j = Some y" using j(3) by auto
  have nx: "ponyint_hashmap_next i (hm_count m) (hm_bitmap m) (hm_size m) (hm_buckets m) = Inr (Some y, j)"
    using next_spec [OF sh, of i] Cons.prems(1,3) y by simp
  have "(j + 1) mod 2 ^ 64 = Suc j" using j(2) shape_size(3) [OF sh] by simp
  then have "occ_list m ((j + 1) mod 2 ^ 64) = L" using j(1) by simp
  then show ?case using Cons.IH [OF _ n(2)] Cons.prems(3) n(1) nx y by simp
qed

lemma occ_list_elements:
  assumes "hm_ordered key hf m"
  shows "distinct (map (\<lambda>j. the (slot m j)) (occ_list m 0))"
    "set (map (\<lambda>j. the (slot m j)) (occ_list m 0)) = hm_entries m"
proof -
  have sh: "hm_shape hf m" and dk: "keys_distinct key (slot m)"
    using assms by (simp_all add: hm_ordered_def)
  note o = occ_list_all [OF sh]
  have "inj_on (\<lambda>j. the (slot m j)) (dom (slot m))"
    using dk unfolding keys_distinct_def by (intro inj_onI) (metis domD option.sel)
  then show "distinct (map (\<lambda>j. the (slot m j)) (occ_list m 0))"
    by (simp add: distinct_map o(1,3))
  show "set (map (\<lambda>j. the (slot m j)) (occ_list m 0)) = hm_entries m"
    by (auto simp: o(1) hm_entries_def ran_def dom_def image_iff) (metis option.sel)
qed

lemma destroy_visits:
  assumes "hm_valid key hf m"
  shows "\<exists>xs. distinct xs \<and> set xs = hm_entries m \<and>
    ponyint_hashmap_destroy (Some f) m s = Inr (HASHMAP_INIT, foldl f s xs)"
proof (cases "hm_inv key hf m")
  case True
  then have ord: "hm_ordered key hf m" and sh: "hm_shape hf m" by (simp_all add: hm_inv_def hm_ordered_def)
  have "destroy_loop (hm_count m + 1) f m HASHMAP_BEGIN s =
      Inr (foldl f s (map (\<lambda>j. the (slot m j)) (occ_list m 0)))"
  proof (rule destroy_loop_fold [OF sh])
    show "occ_list m ((HASHMAP_BEGIN + 1) mod 2 ^ 64) = occ_list m 0" by (simp only: HASHMAP_BEGIN_next)
    show "length (occ_list m 0) < hm_count m + 1" using occ_list_all(2) [OF sh] by simp
    show "occ_list m 0 \<noteq> [] \<longrightarrow> 0 < hm_count m" unfolding occ_list_all(2) [OF sh, symmetric] by simp
  qed
  then have "ponyint_hashmap_destroy (Some f) m s =
      Inr (HASHMAP_INIT, foldl f s (map (\<lambda>j. the (slot m j)) (occ_list m 0)))"
    by (simp add: ponyint_hashmap_destroy_def del: destroy_loop.simps)
  then show ?thesis using occ_list_elements [OF ord] by blast
next
  case False
  then have "m = HASHMAP_INIT" using assms by (simp add: hm_valid_def)
  then have "hm_entries m = {}" "hm_count m = 0" by (simp, simp add: HASHMAP_INIT_def)
  then show ?thesis
    by (intro exI [of _ "[]"]) (simp add: ponyint_hashmap_destroy_def ponyint_hashmap_next_def)
qed

section \<open>Properties\<close>

text \<open>
  C31: Insertion into a valid table of fewer than \<open>2 ^ 58\<close> buckets returns: no assertion fails and
  neither the bumping loop nor the growth of the table runs on.  The table it leaves is valid, the
  result is the element with the same key that was there before, and afterwards the lookup of that
  key finds the new element while every other lookup finds what it found before.
\<close>

theorem hashmap_put_get:
  assumes "hash_keyed key cmp hf" "hm_valid key hf m" "hm_size m < 2 ^ 58"
  shows "\<exists>m'. ponyint_hashmap_put cmp m e (hf e) =
      Inr (fst (ponyint_hashmap_get m e (hf e) cmp pos), m') \<and>
    hm_valid key hf m' \<and>
    (\<forall>k. fst (ponyint_hashmap_get m' k (hf k) cmp pos) =
       (if key k = key e then Some e else fst (ponyint_hashmap_get m k (hf k) cmp pos)))"
proof -
  note g = hash_keyed.get_valid [OF assms(1)]
  obtain old m' where m': "ponyint_hashmap_put cmp m e (hf e) = Inr (old, m')" "hm_inv key hf m'"
      "hm_entries m' = insert e {x \<in> hm_entries m. key x \<noteq> key e}"
      "\<forall>x. old = Some x \<longleftrightarrow> x \<in> hm_entries m \<and> key x = key e"
    using hash_keyed.put_valid [OF assms] by blast
  have v: "hm_valid key hf m'" using m'(2) by (simp add: hm_valid_def)
  have "old = fst (ponyint_hashmap_get m e (hf e) cmp pos)"
    using m'(4) g [OF assms(2), of e pos] by (intro option_eqI) simp
  moreover have "fst (ponyint_hashmap_get m' k (hf k) cmp pos) =
      (if key k = key e then Some e else fst (ponyint_hashmap_get m k (hf k) cmp pos))" for k
    by (rule option_eqI) (auto simp: g [OF v] g [OF assms(2)] m'(3))
  ultimately show ?thesis using m'(1) v by blast
qed

text \<open>
  C32: Removal from a valid table returns the element with the key, leaves a valid table in which the
  key is absent, and changes no other lookup.
\<close>

theorem hashmap_remove_get:
  assumes "hash_keyed key cmp hf" "hm_valid key hf m"
  shows "\<exists>m'. ponyint_hashmap_remove cmp m e (hf e) =
      Inr (fst (ponyint_hashmap_get m e (hf e) cmp pos), m') \<and>
    hm_valid key hf m' \<and>
    (\<forall>k. fst (ponyint_hashmap_get m' k (hf k) cmp pos) =
       (if key k = key e then None else fst (ponyint_hashmap_get m k (hf k) cmp pos)))"
proof -
  note g = hash_keyed.get_valid [OF assms(1)]
  obtain old m' where m': "ponyint_hashmap_remove cmp m e (hf e) = Inr (old, m')" "hm_valid key hf m'"
      "hm_entries m' = {x \<in> hm_entries m. key x \<noteq> key e}"
      "\<forall>x. old = Some x \<longleftrightarrow> x \<in> hm_entries m \<and> key x = key e"
    using hash_keyed.remove_valid [OF assms] by blast
  have "old = fst (ponyint_hashmap_get m e (hf e) cmp pos)"
    using m'(4) g [OF assms(2), of e pos] by (intro option_eqI) simp
  moreover have "fst (ponyint_hashmap_get m' k (hf k) cmp pos) =
      (if key k = key e then None else fst (ponyint_hashmap_get m k (hf k) cmp pos))" for k
    by (rule option_eqI) (auto simp: g [OF m'(2)] g [OF assms(2)] m'(3))
  ultimately show ?thesis using m'(1,2) by blast
qed

text \<open>
  After a lookup that found nothing, putting an element with the sought key at the position the
  lookup reported is the same as a full insertion.
\<close>

lemma hashmap_putindex_put:
  assumes "hash_keyed key cmp hf" "hm_valid key hf m" "key e = key k"
    and "ponyint_hashmap_get m k (hf k) cmp HASHMAP_UNKNOWN = (None, pos)"
  shows "ponyint_hashmap_putindex cmp m e (hf e) pos =
    res_bind (ponyint_hashmap_put cmp m e (hf e)) (\<lambda>(elem, m'). Inr m')"
  using assms by (rule hash_keyed.putindex_put)

text \<open>
  Removing by index removes the element in that bucket and nothing else, and keeps the table valid.
\<close>

lemma hashmap_removeindex_entries:
  assumes "hash_keyed key cmp hf" "hm_valid key hf m"
  shows "\<exists>m'. ponyint_hashmap_removeindex m i = Inr m' \<and> hm_valid key hf m' \<and>
    hm_entries m' = {x \<in> hm_entries m. slot m i \<noteq> Some x}"
  using assms by (rule hash_keyed.removeindex_valid)

text \<open>
  C33: Iteration over a valid table, here that of \<open>ponyint_hashmap_destroy\<close>, ends and calls the
  function on every element exactly once.
\<close>

theorem hashmap_destroy_visits:
  assumes "hm_valid key hf m"
  shows "\<exists>xs. distinct xs \<and> set xs = hm_entries m \<and>
    ponyint_hashmap_destroy (Some f) m s = Inr (HASHMAP_INIT, foldl f s xs)"
  using assms by (rule destroy_visits)

text \<open>Pointers hashed by address are the simplest keyed table.\<close>

interpretation ptrs: hash_keyed "\<lambda>p :: uint64_t. p" "(=)" ponyint_hash_ptr
  by unfold_locales simp_all

lemma ptrs_valid_init: "hm_valid (\<lambda>p :: uint64_t. p) ponyint_hash_ptr HASHMAP_INIT"
  by (simp add: hm_valid_def)

lemma get_init [simp]: "ponyint_hashmap_get HASHMAP_INIT k h cmp pos = (None, pos)"
  by (simp add: ponyint_hashmap_get_def HASHMAP_INIT_def)

lemma ptrs_one:
  obtains m where "ponyint_hashmap_put (=) HASHMAP_INIT (0x1000 :: uint64_t) (ponyint_hash_ptr 0x1000) = Inr (None, m)"
    "hm_valid (\<lambda>p. p) ponyint_hash_ptr m" "hm_entries m = {0x1000}"
proof -
  have "hm_size (HASHMAP_INIT :: uint64_t hashmap_t) < 2 ^ 58" by (simp add: HASHMAP_INIT_def)
  from ptrs.put_valid [OF ptrs_valid_init this, of "0x1000"] obtain old m where
      "ponyint_hashmap_put (=) HASHMAP_INIT (0x1000 :: uint64_t) (ponyint_hash_ptr 0x1000) = Inr (old, m)"
      "hm_inv (\<lambda>p. p) ponyint_hash_ptr m" "hm_entries m = {0x1000}" "\<forall>x. old \<noteq> Some x"
    by auto
  moreover from this(4) have "old = None" by (cases old) auto
  ultimately show ?thesis using that by (simp add: hm_valid_def)
qed

theorem hashmap_put_get_witness:
  "\<exists>m'. ponyint_hashmap_put (=) HASHMAP_INIT (0x1000 :: uint64_t) (ponyint_hash_ptr 0x1000) = Inr (None, m') \<and>
    fst (ponyint_hashmap_get m' 0x1000 (ponyint_hash_ptr 0x1000) (=) 0) = Some 0x1000 \<and>
    fst (ponyint_hashmap_get m' 0x2000 (ponyint_hash_ptr 0x2000) (=) 0) = None"
proof -
  have "hm_size (HASHMAP_INIT :: uint64_t hashmap_t) < 2 ^ 58" by (simp add: HASHMAP_INIT_def)
  from hashmap_put_get [OF ptrs.hash_keyed_axioms ptrs_valid_init this, of "0x1000" 0]
  show ?thesis by auto
qed

theorem hashmap_remove_get_witness:
  "\<exists>m m'. ponyint_hashmap_put (=) HASHMAP_INIT (0x1000 :: uint64_t) (ponyint_hash_ptr 0x1000) = Inr (None, m) \<and>
    ponyint_hashmap_remove (=) m 0x1000 (ponyint_hash_ptr 0x1000) = Inr (Some 0x1000, m') \<and>
    fst (ponyint_hashmap_get m' 0x1000 (ponyint_hash_ptr 0x1000) (=) 0) = None"
proof -
  obtain m where m: "ponyint_hashmap_put (=) HASHMAP_INIT (0x1000 :: uint64_t) (ponyint_hash_ptr 0x1000) = Inr (None, m)"
      "hm_valid (\<lambda>p. p) ponyint_hash_ptr m" "hm_entries m = {0x1000}" by (rule ptrs_one)
  have "fst (ponyint_hashmap_get m 0x1000 (ponyint_hash_ptr 0x1000) (=) 0) = Some 0x1000"
    using ptrs.get_valid [OF m(2)] m(3) by simp
  with m(1) hashmap_remove_get [OF ptrs.hash_keyed_axioms m(2), of "0x1000" 0]
  show ?thesis by auto
qed

theorem hashmap_destroy_visits_witness:
  "\<exists>m. ponyint_hashmap_put (=) HASHMAP_INIT (0x1000 :: uint64_t) (ponyint_hash_ptr 0x1000) = Inr (None, m) \<and>
    ponyint_hashmap_destroy (Some (\<lambda>n p. n + 1)) m (0 :: nat) = Inr (HASHMAP_INIT, 1)"
proof -
  obtain m where m: "ponyint_hashmap_put (=) HASHMAP_INIT (0x1000 :: uint64_t) (ponyint_hash_ptr 0x1000) = Inr (None, m)"
      "hm_valid (\<lambda>p. p) ponyint_hash_ptr m" "hm_entries m = {0x1000}" by (rule ptrs_one)
  obtain xs where xs: "distinct xs" "set xs = hm_entries m"
      "ponyint_hashmap_destroy (Some (\<lambda>n p. n + 1)) m (0 :: nat) = Inr (HASHMAP_INIT, foldl (\<lambda>n p. n + 1) 0 xs)"
    using hashmap_destroy_visits [OF m(2), of "\<lambda>n p. n + 1" 0] by blast
  have "foldl (\<lambda>n p. n + 1) a xs = a + length xs" for a by (induction xs arbitrary: a) auto
  moreover have "length xs = 1" using distinct_card [OF xs(1)] xs(2) m(3) by simp
  ultimately show ?thesis using xs(3) m(1) by auto
qed

end
