(* ===== verification/Ponylist.thy ===== *)
theory Ponylist
  imports Prelude
begin

text \<open>
  The linked lists of \<^verbatim>\<open>src/libponyrt/ds/list.c\<close>, as programs on a store of cells, because appending and
  reversing change the cells they are given.  The theorems relate the store before and after each
  operation to the sequence of cells that a list head reaches.
\<close>

section \<open>Store and operations\<close>

text \<open>
  A cell is \<^verbatim>\<open>list_t\<close>: data and next.  A pointer is \<open>None\<close> for \<^verbatim>\<open>NULL\<close>; following it, or an address that
  holds no cell, is a fault.  \<open>POOL_ALLOC\<close> is the argument \<open>alloc\<close>, which chooses an address for a
  store.  The loops have fuel, which is enough when it exceeds the number of cells.
\<close>

type_synonym 'a cell = "'a option \<times> nat option"
type_synonym 'a store = "nat \<rightharpoonup> 'a cell"

definition deref :: "'a store \<Rightarrow> nat option \<Rightarrow> 'a cell res" where
  "deref h p =
     (case p of None \<Rightarrow> Inl Null_deref
      | Some l \<Rightarrow> (case h l of None \<Rightarrow> Inl Null_deref | Some c \<Rightarrow> Inr c))"

definition ponyint_list_pop :: "'a store \<Rightarrow> nat option \<Rightarrow> (nat option \<times> 'a option \<times> 'a store) res" where
  "ponyint_list_pop h list =
     res_bind (deref h list) (\<lambda>(d, nxt). Inr (nxt, d, h(the list := None)))"

definition ponyint_list_push ::
  "('a store \<Rightarrow> nat) \<Rightarrow> 'a store \<Rightarrow> nat option \<Rightarrow> 'a option \<Rightarrow> nat option \<times> 'a store" where
  "ponyint_list_push alloc h list d = (let l = alloc h in (Some l, h(l \<mapsto> (d, list))))"

fun list_last :: "nat \<Rightarrow> 'a store \<Rightarrow> nat \<Rightarrow> nat res" where
  "list_last 0 h p = Inl Out_of_fuel"
| "list_last (Suc n) h p =
     res_bind (deref h (Some p)) (\<lambda>(d, nxt). case nxt of None \<Rightarrow> Inr p | Some q \<Rightarrow> list_last n h q)"

definition ponyint_list_append ::
  "nat \<Rightarrow> ('a store \<Rightarrow> nat) \<Rightarrow> 'a store \<Rightarrow> nat option \<Rightarrow> 'a option \<Rightarrow> (nat option \<times> 'a store) res" where
  "ponyint_list_append fuel alloc h list d =
     (let l = alloc h; h = h(l \<mapsto> (d, None))
      in case list of
           None \<Rightarrow> Inr (Some l, h)
         | Some p0 \<Rightarrow>
             res_bind (list_last fuel h p0) (\<lambda>p.
               res_bind (deref h (Some p)) (\<lambda>(dp, nxt). Inr (list, h(p \<mapsto> (dp, Some l))))))"

definition ponyint_list_next :: "'a store \<Rightarrow> nat option \<Rightarrow> nat option res" where
  "ponyint_list_next h list = res_bind (deref h list) (\<lambda>(d, nxt). Inr nxt)"

fun list_length_loop :: "nat \<Rightarrow> 'a store \<Rightarrow> nat option \<Rightarrow> nat \<Rightarrow> nat res" where
  "list_length_loop 0 h list len = Inl Out_of_fuel"
| "list_length_loop (Suc n) h list len =
     (if list = None then Inr len
      else res_bind (deref h list) (\<lambda>(d, nxt). list_length_loop n h nxt (len + 1)))"

definition ponyint_list_length :: "nat \<Rightarrow> 'a store \<Rightarrow> nat option \<Rightarrow> nat res" where
  "ponyint_list_length fuel h list = list_length_loop fuel h list 0"

fun list_index_loop :: "nat \<Rightarrow> 'a store \<Rightarrow> nat option \<Rightarrow> int \<Rightarrow> int \<Rightarrow> nat option res" where
  "list_index_loop 0 h list i index = Inl Out_of_fuel"
| "list_index_loop (Suc n) h list i index =
     (if list \<noteq> None \<and> i < index then
        res_bind (deref h list) (\<lambda>(d, nxt). list_index_loop n h nxt (i + 1) index)
      else Inr list)"

definition ponyint_list_index :: "nat \<Rightarrow> 'a store \<Rightarrow> nat option \<Rightarrow> int \<Rightarrow> nat option res" where
  "ponyint_list_index fuel h list index =
     res_bind (if index < 0 then res_bind (ponyint_list_length fuel h list) (\<lambda>len. Inr (int len + index))
               else Inr index)
       (\<lambda>index. list_index_loop fuel h list 0 index)"

definition ponyint_list_data :: "'a store \<Rightarrow> nat option \<Rightarrow> 'a option res" where
  "ponyint_list_data h list = res_bind (deref h list) (\<lambda>(d, nxt). Inr d)"

fun ponyint_list_find ::
  "nat \<Rightarrow> 'a store \<Rightarrow> nat option \<Rightarrow> ('b \<Rightarrow> 'a option \<Rightarrow> bool) \<Rightarrow> 'b \<Rightarrow> 'a option res" where
  "ponyint_list_find 0 h list f d = Inl Out_of_fuel"
| "ponyint_list_find (Suc n) h list f d =
     (if list = None then Inr None
      else res_bind (deref h list) (\<lambda>(x, nxt). if f d x then Inr x else ponyint_list_find n h nxt f d))"

fun list_findindex_loop ::
  "nat \<Rightarrow> 'a store \<Rightarrow> nat option \<Rightarrow> ('b \<Rightarrow> 'a option \<Rightarrow> bool) \<Rightarrow> 'b \<Rightarrow> nat \<Rightarrow> int res" where
  "list_findindex_loop 0 h list f d index = Inl Out_of_fuel"
| "list_findindex_loop (Suc n) h list f d index =
     (if list = None then Inr (- 1)
      else res_bind (deref h list) (\<lambda>(x, nxt).
        if f d x then Inr (int index) else list_findindex_loop n h nxt f d (index + 1)))"

definition ponyint_list_findindex ::
  "nat \<Rightarrow> 'a store \<Rightarrow> nat option \<Rightarrow> ('b \<Rightarrow> 'a option \<Rightarrow> bool) \<Rightarrow> 'b \<Rightarrow> int res" where
  "ponyint_list_findindex fuel h list f d = list_findindex_loop fuel h list f d 0"

fun list_subset_loop ::
  "nat \<Rightarrow> nat \<Rightarrow> 'a store \<Rightarrow> nat option \<Rightarrow> nat option \<Rightarrow> ('a option \<Rightarrow> 'a option \<Rightarrow> bool) \<Rightarrow> bool res" where
  "list_subset_loop 0 fuel h a b f = Inl Out_of_fuel"
| "list_subset_loop (Suc n) fuel h a b f =
     (if a = None then Inr True
      else res_bind (deref h a) (\<lambda>(x, nxt).
        res_bind (ponyint_list_find fuel h b f x) (\<lambda>r.
          if r = None then Inr False else list_subset_loop n fuel h nxt b f)))"

definition ponyint_list_subset ::
  "nat \<Rightarrow> 'a store \<Rightarrow> nat option \<Rightarrow> nat option \<Rightarrow> ('a option \<Rightarrow> 'a option \<Rightarrow> bool) \<Rightarrow> bool res" where
  "ponyint_list_subset fuel h a b f = list_subset_loop fuel fuel h a b f"

fun ponyint_list_equals ::
  "nat \<Rightarrow> 'a store \<Rightarrow> nat option \<Rightarrow> nat option \<Rightarrow> ('a option \<Rightarrow> 'a option \<Rightarrow> bool) \<Rightarrow> bool res" where
  "ponyint_list_equals 0 h a b f = Inl Out_of_fuel"
| "ponyint_list_equals (Suc n) h a b f =
     (if a = None then Inr (b = None)
      else if b = None then Inr False
      else res_bind (deref h a) (\<lambda>(x, an). res_bind (deref h b) (\<lambda>(y, bn).
        if \<not> f x y then Inr False else ponyint_list_equals n h an bn f)))"

fun ponyint_list_reverse_loop ::
  "nat \<Rightarrow> 'a store \<Rightarrow> nat option \<Rightarrow> nat option \<Rightarrow> (nat option \<times> 'a store) res" where
  "ponyint_list_reverse_loop 0 h list to = Inl Out_of_fuel"
| "ponyint_list_reverse_loop (Suc n) h list to =
     (case list of
        None \<Rightarrow> Inr (to, h)
      | Some l \<Rightarrow>
          res_bind (deref h list) (\<lambda>(d, nxt). ponyint_list_reverse_loop n (h(l \<mapsto> (d, to))) nxt list))"

definition ponyint_list_reverse :: "nat \<Rightarrow> 'a store \<Rightarrow> nat option \<Rightarrow> (nat option \<times> 'a store) res" where
  "ponyint_list_reverse fuel h list = ponyint_list_reverse_loop fuel h list None"

fun list_map_loop ::
  "nat \<Rightarrow> ('a store \<Rightarrow> nat) \<Rightarrow> 'a store \<Rightarrow> nat option \<Rightarrow> ('a option \<Rightarrow> 'c \<Rightarrow> 'a option) \<Rightarrow> 'c
   \<Rightarrow> nat option \<Rightarrow> (nat option \<times> 'a store) res" where
  "list_map_loop 0 alloc h list f arg to = Inl Out_of_fuel"
| "list_map_loop (Suc n) alloc h list f arg to =
     (if list = None then Inr (to, h)
      else res_bind (deref h list) (\<lambda>(x, nxt).
        let r = f x arg;
            (to, h) = (if r \<noteq> None then ponyint_list_push alloc h to r else (to, h))
        in list_map_loop n alloc h nxt f arg to))"

definition ponyint_list_map ::
  "nat \<Rightarrow> ('a store \<Rightarrow> nat) \<Rightarrow> 'a store \<Rightarrow> nat option \<Rightarrow> ('a option \<Rightarrow> 'c \<Rightarrow> 'a option) \<Rightarrow> 'c
   \<Rightarrow> (nat option \<times> 'a store) res" where
  "ponyint_list_map fuel alloc h list f arg =
     res_bind (list_map_loop fuel alloc h list f arg None) (\<lambda>(to, h). ponyint_list_reverse fuel h to)"

fun ponyint_list_free ::
  "nat \<Rightarrow> 'a store \<Rightarrow> nat option \<Rightarrow> ('s \<Rightarrow> 'a option \<Rightarrow> 's) option \<Rightarrow> 's \<Rightarrow> ('a store \<times> 's) res" where
  "ponyint_list_free 0 h list f s = Inl Out_of_fuel"
| "ponyint_list_free (Suc n) h list f s =
     (case list of
        None \<Rightarrow> Inr (h, s)
      | Some l \<Rightarrow>
          res_bind (deref h list) (\<lambda>(d, nxt).
            ponyint_list_free n (h(l := None)) nxt f (case f of None \<Rightarrow> s | Some g \<Rightarrow> g s d)))"

section \<open>Sequences of cells\<close>

text \<open>\<open>lpath h p cs\<close>: following \<open>next\<close> from \<open>p\<close> reaches exactly the cells \<open>cs\<close>, addresses with data.\<close>

fun lpath :: "'a store \<Rightarrow> nat option \<Rightarrow> (nat \<times> 'a option) list \<Rightarrow> bool" where
  "lpath h p [] \<longleftrightarrow> p = None"
| "lpath h p ((l, d) # cs) \<longleftrightarrow>
     (p = Some l \<and> (case h l of None \<Rightarrow> False | Some (d', q) \<Rightarrow> d' = d \<and> lpath h q cs))"

definition list_at :: "'a store \<Rightarrow> nat option \<Rightarrow> (nat \<times> 'a option) list \<Rightarrow> bool" where
  "list_at h p cs \<longleftrightarrow> lpath h p cs \<and> distinct (map fst cs)"

lemma deref_simps [simp]:
  "deref h None = Inl Null_deref" "h l = Some c \<Longrightarrow> deref h (Some l) = Inr c"
  by (simp_all add: deref_def)

lemma lpath_Cons:
  "lpath h p (c # cs) \<longleftrightarrow> p = Some (fst c) \<and> (\<exists>q. h (fst c) = Some (snd c, q) \<and> lpath h q cs)"
  by (cases c) (auto split: option.splits)

lemma lpath_other [simp]: "l \<notin> set (map fst cs) \<Longrightarrow> lpath (h(l := c)) p cs = lpath h p cs"
  by (induction cs arbitrary: p) (auto simp: lpath_Cons)

lemma lpath_dom: "lpath h p cs \<Longrightarrow> l \<in> set (map fst cs) \<Longrightarrow> h l \<noteq> None"
  by (induction cs arbitrary: p) (auto simp: lpath_Cons)



section \<open>Reading a list\<close>

lemma list_length_loop_value:
  "lpath h p cs \<Longrightarrow> length cs < n \<Longrightarrow> list_length_loop n h p k = Inr (k + length cs)"
proof (induction cs arbitrary: n p k)
  case Nil
  then show ?case by (cases n) auto
next
  case (Cons c cs)
  then show ?case by (cases n) (auto simp: lpath_Cons)
qed

lemma ponyint_list_length_value:
  "lpath h p cs \<Longrightarrow> length cs < n \<Longrightarrow> ponyint_list_length n h p = Inr (length cs)"
  by (simp add: ponyint_list_length_def list_length_loop_value)

lemma ponyint_list_find_value:
  "lpath h p cs \<Longrightarrow> length cs < n \<Longrightarrow>
     ponyint_list_find n h p f d = Inr (case find (f d) (map snd cs) of None \<Rightarrow> None | Some x \<Rightarrow> x)"
proof (induction cs arbitrary: n p)
  case Nil
  then show ?case by (cases n) auto
next
  case (Cons c cs)
  then show ?case by (cases n) (auto simp: lpath_Cons)
qed

lemma list_findindex_loop_value:
  "lpath h p cs \<Longrightarrow> length cs < n \<Longrightarrow>
     list_findindex_loop n h p f d k =
       Inr (if list_ex (\<lambda>c. f d (snd c)) cs then int (k + length (takeWhile (\<lambda>c. \<not> f d (snd c)) cs)) else - 1)"
proof (induction cs arbitrary: n p k)
  case Nil
  then show ?case by (cases n) auto
next
  case (Cons c cs)
  then show ?case by (cases n) (auto simp: lpath_Cons)
qed

lemma list_index_loop_value:
  "lpath h p cs \<Longrightarrow> length cs < n \<Longrightarrow> i \<le> index \<Longrightarrow>
     list_index_loop n h p i index =
       Inr (if nat (index - i) < length cs then Some (fst (cs ! nat (index - i))) else None)"
proof (induction cs arbitrary: n p i)
  case Nil
  then show ?case by (cases n) auto
next
  case (Cons c cs)
  then obtain n' q where n: "n = Suc n'" and q: "p = Some (fst c)" "h (fst c) = Some (snd c, q)" "lpath h q cs"
    by (cases n) (auto simp: lpath_Cons)
  show ?case
  proof (cases "i < index")
    case True
    then have "nat (index - i) = Suc (nat (index - (i + 1)))" by simp
    then show ?thesis using Cons.IH [OF q(3), of n' "i + 1"] Cons.prems n q True by simp
  next
    case False
    then show ?thesis using Cons.prems n q by simp
  qed
qed

lemma ponyint_list_equals_value:
  "lpath h p cs \<Longrightarrow> lpath h q ds \<Longrightarrow> length cs < n \<Longrightarrow>
     ponyint_list_equals n h p q f = Inr (list_all2 f (map snd cs) (map snd ds))"
proof (induction cs arbitrary: n p q ds)
  case Nil
  then show ?case by (cases n; cases ds) (auto simp: lpath_Cons)
next
  case (Cons c cs)
  then show ?case by (cases n; cases ds) (auto simp: lpath_Cons)
qed

lemma list_subset_loop_value:
  assumes "lpath h q ds" "length ds < fuel"
  shows "lpath h p cs \<Longrightarrow> length cs < n \<Longrightarrow>
     list_subset_loop n fuel h p q f =
       Inr (\<forall>c \<in> set cs. \<exists>y. find (f (snd c)) (map snd ds) = Some (Some y))"
proof (induction cs arbitrary: n p)
  case Nil
  then show ?case by (cases n) auto
next
  case (Cons c cs)
  then show ?case
    using ponyint_list_find_value [OF assms, of f "snd c"]
    by (cases n) (auto simp: lpath_Cons split: option.splits)
qed

section \<open>Changing a list\<close>

lemma list_last_value:
  "lpath h (Some p) cs \<Longrightarrow> length cs \<le> n \<Longrightarrow> list_last n h p = Inr (fst (last cs))"
proof (induction cs arbitrary: n p)
  case (Cons c cs)
  then show ?case by (cases n; cases cs) (auto simp: lpath_Cons)
qed simp

lemma lpath_set_last:
  "lpath h p cs \<Longrightarrow> distinct (map fst cs) \<Longrightarrow> cs \<noteq> [] \<Longrightarrow> h l = Some (d, None) \<Longrightarrow> l \<notin> set (map fst cs) \<Longrightarrow>
     lpath (h(fst (last cs) \<mapsto> (snd (last cs), Some l))) p (cs @ [(l, d)])"
proof (induction cs arbitrary: p)
  case (Cons c cs)
  show ?case
  proof (cases "cs = []")
    case True
    then show ?thesis using Cons.prems by (auto simp: lpath_Cons)
  next
    case False
    then have "fst (last cs) \<in> set (map fst cs)" by simp
    moreover have "fst c \<notin> set (map fst cs)" using Cons.prems(2) by simp
    ultimately have "fst (last cs) \<noteq> fst c" by metis
    then show ?thesis using Cons False by (auto simp: lpath_Cons)
  qed
qed simp

lemma ponyint_list_append_value:
  assumes "list_at h p cs" "h (alloc h) = None" "length cs \<le> n"
  shows "\<exists>p' h'. ponyint_list_append n alloc h p d = Inr (p', h') \<and> list_at h' p' (cs @ [(alloc h, d)])"
proof (cases cs)
  case Nil
  then show ?thesis using assms by (simp add: ponyint_list_append_def list_at_def Let_def)
next
  case (Cons c cs')
  let ?h = "h(alloc h \<mapsto> (d, None))"
  have fresh: "alloc h \<notin> set (map fst cs)"
    using lpath_dom [of h p cs "alloc h"] assms(1,2) by (auto simp: list_at_def)
  then have path: "lpath ?h p cs" using assms(1) by (simp add: list_at_def)
  have p: "p = Some (fst c)" using assms(1) Cons by (simp add: list_at_def lpath_Cons)
  have "list_last n ?h (fst c) = Inr (fst (last cs))"
    using list_last_value path assms(3) unfolding p by blast
  moreover have "\<exists>q. ?h (fst (last cs)) = Some (snd (last cs), q)"
  proof -
    have "last cs \<in> set cs" using Cons by simp
    have "lpath g r es \<Longrightarrow> e \<in> set es \<Longrightarrow> \<exists>q. g (fst e) = Some (snd e, q)" for g r es and e :: "nat \<times> 'a option"
      by (induction es arbitrary: r) (auto simp: lpath_Cons)
    then show ?thesis using path \<open>last cs \<in> set cs\<close> by blast
  qed
  moreover have "lpath (?h(fst (last cs) \<mapsto> (snd (last cs), Some (alloc h)))) p (cs @ [(alloc h, d)])"
    using path assms(1) fresh Cons by (intro lpath_set_last) (auto simp: list_at_def)
  ultimately show ?thesis
    using p assms(1) fresh by (auto simp: ponyint_list_append_def list_at_def Let_def)
qed

lemma ponyint_list_reverse_loop_value:
  assumes "lpath h p cs" "lpath h t ds" "distinct (map fst (cs @ ds))" "length cs < n"
  shows "\<exists>p' h'. ponyint_list_reverse_loop n h p t = Inr (p', h') \<and> lpath h' p' (rev cs @ ds) \<and>
    (\<forall>l. l \<notin> set (map fst cs) \<longrightarrow> h' l = h l)"
  using assms
proof (induction cs arbitrary: n h p t ds)
  case Nil
  then show ?case by (cases n) auto
next
  case (Cons c cs)
  obtain n' q where n: "n = Suc n'" "length cs < n'"
    and q: "p = Some (fst c)" "h (fst c) = Some (snd c, q)" "lpath h q cs"
    using Cons.prems(1,4) by (cases n) (auto simp: lpath_Cons)
  let ?h = "h(fst c \<mapsto> (snd c, t))"
  have "fst c \<notin> set (map fst cs)" "fst c \<notin> set (map fst ds)" using Cons.prems(3) by auto
  then have "lpath ?h q cs" "lpath ?h p (c # ds)" using q Cons.prems(2) by (simp_all add: lpath_Cons)
  moreover have "distinct (map fst (cs @ c # ds))" using Cons.prems(3) by auto
  ultimately obtain p' h' where "ponyint_list_reverse_loop n' ?h q p = Inr (p', h')"
      "lpath h' p' (rev cs @ c # ds)" "\<forall>l. l \<notin> set (map fst cs) \<longrightarrow> h' l = ?h l"
    using Cons.IH [of ?h q p "c # ds" n'] n(2) by blast
  then show ?case using n(1) q by auto
qed

lemma ponyint_list_reverse_value:
  assumes "list_at h p cs" "length cs < n"
  shows "\<exists>p' h'. ponyint_list_reverse n h p = Inr (p', h') \<and> list_at h' p' (rev cs) \<and>
    (\<forall>l. l \<notin> set (map fst cs) \<longrightarrow> h' l = h l)"
  using ponyint_list_reverse_loop_value [of h p cs None "[]" n] assms
  by (auto simp: ponyint_list_reverse_def list_at_def rev_map [symmetric])


lemma lpath_frame: "lpath h p cs \<Longrightarrow> (\<And>l. h l \<noteq> None \<Longrightarrow> h' l = h l) \<Longrightarrow> lpath h' p cs"
  by (induction cs arbitrary: p) (auto simp: lpath_Cons)

definition fresh_alloc :: "('a store \<Rightarrow> nat) \<Rightarrow> bool" where
  "fresh_alloc alloc \<longleftrightarrow> (\<forall>h. finite (dom h) \<longrightarrow> h (alloc h) = None)"

definition map_results :: "('a option \<Rightarrow> 'c \<Rightarrow> 'a option) \<Rightarrow> 'c \<Rightarrow> (nat \<times> 'a option) list \<Rightarrow> 'a option list" where
  "map_results f arg cs = filter (\<lambda>r. r \<noteq> None) (map (\<lambda>c. f (snd c) arg) cs)"

lemma list_map_loop_value:
  assumes fresh: "fresh_alloc alloc"
    and "finite (dom h)" "lpath h p cs" "lpath h t ds" "distinct (map fst ds)" "length cs < n"
  shows "\<exists>t' h' es. list_map_loop n alloc h p f arg t = Inr (t', h') \<and> finite (dom h') \<and>
    (\<forall>l. h l \<noteq> None \<longrightarrow> h' l = h l) \<and> lpath h' t' (rev es @ ds) \<and> distinct (map fst (rev es @ ds)) \<and>
    (\<forall>l \<in> set (map fst es). h l = None) \<and> map snd es = map_results f arg cs"
  using assms(2-)
proof (induction cs arbitrary: n h p t ds)
  case Nil
  then show ?case by (cases n) (auto intro!: exI [of _ "[]"] simp: map_results_def)
next
  case (Cons c cs)
  obtain n' q where n: "n = Suc n'" "length cs < n'"
    and q: "p = Some (fst c)" "h (fst c) = Some (snd c, q)" "lpath h q cs"
    using Cons.prems(2,5) by (cases n) (auto simp: lpath_Cons)
  show ?case
  proof (cases "f (snd c) arg")
    case None
    then have "list_map_loop n alloc h p f arg t = list_map_loop n' alloc h q f arg t"
      using n(1) q by simp
    moreover have "map_results f arg (c # cs) = map_results f arg cs" using None by (simp add: map_results_def)
    ultimately show ?thesis using Cons.IH [OF Cons.prems(1) q(3) Cons.prems(3,4) n(2)] by simp
  next
    case (Some y)
    define l h1 where "l = alloc h" and "h1 = h(l \<mapsto> (Some y, t))"
    have l: "h l = None" unfolding l_def using fresh Cons.prems(1) by (simp add: fresh_alloc_def)
    have fr: "h1 k = h k" if "h k \<noteq> None" for k using that l by (auto simp: h1_def)
    have nd: "l \<notin> set (map fst ds)" using lpath_dom [OF Cons.prems(3)] l by blast
    have "lpath h1 q cs" using q(3) fr by (rule lpath_frame)
    moreover have "lpath h1 t ds" using Cons.prems(3) fr by (rule lpath_frame)
    moreover have "h1 l = Some (Some y, t)" by (simp add: h1_def)
    ultimately have "lpath h1 q cs" "lpath h1 (Some l) ((l, Some y) # ds)" by (simp_all add: lpath_Cons)
    moreover have "distinct (map fst ((l, Some y) # ds))" using nd Cons.prems(4) by simp
    moreover have "finite (dom h1)" using Cons.prems(1) by (simp add: h1_def)
    ultimately obtain t' h' es where r: "list_map_loop n' alloc h1 q f arg (Some l) = Inr (t', h')"
        "finite (dom h')" "\<forall>k. h1 k \<noteq> None \<longrightarrow> h' k = h1 k" "lpath h' t' (rev es @ (l, Some y) # ds)"
        "distinct (map fst (rev es @ (l, Some y) # ds))" "\<forall>k \<in> set (map fst es). h1 k = None"
        "map snd es = map_results f arg cs"
      using Cons.IH [of h1 q "Some l" "(l, Some y) # ds" n'] n(2) by blast
    have "list_map_loop n alloc h p f arg t = Inr (t', h')"
      using n(1) q Some r(1) by (simp add: ponyint_list_push_def Let_def l_def h1_def)
    moreover have "\<forall>k. h k \<noteq> None \<longrightarrow> h' k = h k" using r(3) fr by metis
    moreover have "\<forall>k \<in> set (map fst ((l, Some y) # es)). h k = None"
      using r(6) l fr by (auto simp del: not_None_eq) (metis fst_conv image_eqI)
    moreover have "map snd ((l, Some y) # es) = map_results f arg (c # cs)"
      using r(7) Some by (simp add: map_results_def)
    ultimately show ?thesis using r(2,4,5) by (intro exI [of _ t'] exI [of _ h'] exI [of _ "(l, Some y) # es"]) simp
  qed
qed

lemma ponyint_list_map_value:
  assumes fresh: "fresh_alloc alloc"
    and "finite (dom h)" "list_at h p cs" "length cs < n"
  shows "\<exists>p' h' es. ponyint_list_map n alloc h p f arg = Inr (p', h') \<and> list_at h' p' es \<and>
    map snd es = map_results f arg cs \<and> list_at h' p cs"
proof -
  obtain t h1 es where r: "list_map_loop n alloc h p f arg None = Inr (t, h1)"
      "\<forall>l. h l \<noteq> None \<longrightarrow> h1 l = h l" "lpath h1 t (rev es)" "distinct (map fst (rev es))"
      "\<forall>l \<in> set (map fst es). h l = None" "map snd es = map_results f arg cs"
    using list_map_loop_value [OF fresh assms(2), of p cs None "[]" n f arg] assms(3,4)
    by (auto simp: list_at_def)
  have "length es \<le> length cs"
    using arg_cong [OF r(6), of length] length_filter_le [of "\<lambda>r. r \<noteq> None" "map (\<lambda>c. f (snd c) arg) cs"]
    by (simp add: map_results_def)
  then obtain p' h' where v: "ponyint_list_reverse n h1 t = Inr (p', h')" "list_at h' p' es"
      "\<forall>l. l \<notin> set (map fst (rev es)) \<longrightarrow> h' l = h1 l"
    using ponyint_list_reverse_value [of h1 t "rev es" n] r(3,4) assms(4) by (auto simp: list_at_def)
  have "h' l = h l" if "h l \<noteq> None" for l
  proof -
    have "l \<notin> set (map fst (rev es))" using r(5) that by auto
    then show ?thesis using v(3) r(2) that by simp
  qed
  then have "list_at h' p cs" using assms(3) lpath_frame [of h p cs h'] by (simp add: list_at_def)
  then show ?thesis using r(1,6) v(1,2) by (auto simp: ponyint_list_map_def)
qed

lemma ponyint_list_free_value:
  assumes "list_at h p cs" "length cs < n"
  shows "ponyint_list_free n h p f s =
    Inr (h |` (- set (map fst cs)), case f of None \<Rightarrow> s | Some g \<Rightarrow> foldl g s (map snd cs))"
  using assms
proof (induction cs arbitrary: n h p s)
  case Nil
  then show ?case by (cases n) (auto simp: list_at_def split: option.splits)
next
  case (Cons c cs)
  obtain n' q where n: "n = Suc n'" "length cs < n'"
    and q: "p = Some (fst c)" "h (fst c) = Some (snd c, q)" "lpath h q cs"
    using Cons.prems by (cases n) (auto simp: lpath_Cons list_at_def)
  have d: "fst c \<notin> set (map fst cs)" "distinct (map fst cs)" using Cons.prems(1) by (auto simp: list_at_def)
  then have "list_at (h(fst c := None)) q cs" using q(3) by (simp add: list_at_def)
  moreover have "(h(fst c := None)) |` (- set (map fst cs)) = h |` (- set (map fst (c # cs)))"
    by (auto simp: restrict_map_def fun_eq_iff)
  ultimately have "ponyint_list_free n' (h(fst c := None)) q f s' = Inr (h |` (- set (map fst (c # cs))),
      case f of None \<Rightarrow> s' | Some g \<Rightarrow> foldl g s' (map snd cs))" for s'
    using Cons.IH [of "h(fst c := None)" q n' s'] n(2) by (simp only:)
  then show ?case using n(1) q by (simp split: option.splits)
qed

section \<open>Properties\<close>

text \<open>
  \<open>ponyint_list_map\<close> ends on every list, returns a list of the results that are not \<^verbatim>\<open>NULL\<close>, in the
  order of the elements, and leaves the list it reads as it was, although it builds the new list
  backwards and reverses its cells in place.
\<close>

lemma list_map_keeps_order:
  assumes "fresh_alloc alloc"
    and "finite (dom h)" "list_at h p cs" "length cs < n"
  shows "\<exists>p' h' es. ponyint_list_map n alloc h p f arg = Inr (p', h') \<and> list_at h' p' es \<and>
    map snd es = filter (\<lambda>r. r \<noteq> None) (map (\<lambda>c. f (snd c) arg) cs) \<and> list_at h' p cs"
  using ponyint_list_map_value [OF assms] by (simp add: map_results_def)

definition alloc_next :: "'a store \<Rightarrow> nat" where
  "alloc_next h = Suc (Max (insert 0 (dom h)))"

lemma alloc_next_fresh: "fresh_alloc alloc_next"
  unfolding fresh_alloc_def
proof (intro allI impI, rule ccontr)
  fix h :: "'a store"
  assume f: "finite (dom h)" and "h (alloc_next h) \<noteq> None"
  then have "alloc_next h \<in> insert 0 (dom h)" by auto
  then have "alloc_next h \<le> Max (insert 0 (dom h))" using f by (intro Max_ge) simp_all
  then show False by (simp add: alloc_next_def)
qed

end
