(* ===== verification/Gcmaps.thy ===== *)
theory Gcmaps
  imports Hashmap_Ops
begin

text \<open>
  The tables of the garbage collector: object maps, actor maps and delta maps
  (\<^verbatim>\<open>src/libponyrt/gc/objectmap.c\<close>, \<^verbatim>\<open>actormap.c\<close>, \<^verbatim>\<open>delta.c\<close>), instances of the hash table.  Each
  operation is given twice: on the hash table, as the code has it, and on the list of the elements,
  which is what the model of the collector uses.  The theorems show that the first implements the
  second.
\<close>

section \<open>Elements\<close>

text \<open>
  A type descriptor (\<^verbatim>\<open>pony_type_t\<close>) as far as the collector reads it: its trace function, if any,
  whether it has a dispatch function, which only actors have, and whether a value of the type may
  reach an actor.  \<open>'f\<close> stands for trace functions.
\<close>

record 'f pony_type_t =
  ty_trace :: "'f option"
  ty_dispatch :: bool
  ty_might_reference_actor :: bool

record 'f object_t =
  ob_address :: uint64_t
  ob_rc :: uint64_t
  ob_mark :: uint32_t
  ob_immutable :: bool
  ob_type :: "'f pony_type_t option"

record 'm actorref_t =
  ar_actor :: uint64_t
  ar_rc :: uint64_t
  ar_mark :: uint32_t
  ar_map :: 'm

record delta_t =
  de_actor :: uint64_t
  de_rc :: uint64_t

definition object_hash :: "'f object_t \<Rightarrow> uint64_t" where
  "object_hash obj = ponyint_hash_ptr (ob_address obj)"

definition object_cmp :: "'f object_t \<Rightarrow> 'f object_t \<Rightarrow> bool" where
  "object_cmp a b \<longleftrightarrow> ob_address a = ob_address b"

definition object_alloc :: "uint64_t \<Rightarrow> 'f pony_type_t option \<Rightarrow> uint32_t \<Rightarrow> 'f object_t" where
  "object_alloc address type mk =
     \<lparr>ob_address = address, ob_rc = 0, ob_mark = mk - 1, ob_immutable = False, ob_type = type\<rparr>"

definition actorref_hash :: "'m actorref_t \<Rightarrow> uint64_t" where
  "actorref_hash aref = ponyint_hash_ptr (ar_actor aref)"

definition actorref_cmp :: "'m actorref_t \<Rightarrow> 'm actorref_t \<Rightarrow> bool" where
  "actorref_cmp a b \<longleftrightarrow> ar_actor a = ar_actor b"

text \<open>A new reference is all zero, so its object map is an empty one.\<close>

definition actorref_alloc :: "'m \<Rightarrow> uint64_t \<Rightarrow> uint32_t \<Rightarrow> 'm actorref_t" where
  "actorref_alloc om actor mk = \<lparr>ar_actor = actor, ar_rc = 0, ar_mark = mk - 1, ar_map = om\<rparr>"

definition delta_hash :: "delta_t \<Rightarrow> uint64_t" where
  "delta_hash delta = ponyint_hash_ptr (de_actor delta)"

definition delta_cmp :: "delta_t \<Rightarrow> delta_t \<Rightarrow> bool" where
  "delta_cmp a b \<longleftrightarrow> de_actor a = de_actor b"

section \<open>Operations on the hash tables\<close>

type_synonym 'f objectmap_t = "'f object_t hashmap_t"
type_synonym 'f actormap_t = "'f objectmap_t actorref_t hashmap_t"
type_synonym deltamap_t = "delta_t hashmap_t"

text \<open>The key objects are on the C stack with only the compared field set.\<close>

definition ponyint_objectmap_getobject ::
  "'f objectmap_t \<Rightarrow> uint64_t \<Rightarrow> nat \<Rightarrow> 'f object_t option \<times> nat" where
  "ponyint_objectmap_getobject m address index =
     (let obj = object_alloc address None 0
      in ponyint_hashmap_get m obj (object_hash obj) object_cmp index)"

definition ponyint_objectmap_getorput ::
  "'f objectmap_t \<Rightarrow> uint64_t \<Rightarrow> 'f pony_type_t option \<Rightarrow> uint32_t \<Rightarrow> ('f object_t \<times> 'f objectmap_t) res" where
  "ponyint_objectmap_getorput m address type mk =
     (case ponyint_objectmap_getobject m address HASHMAP_UNKNOWN of
        (Some obj, index) \<Rightarrow> Inr (obj, m)
      | (None, index) \<Rightarrow>
          let obj = object_alloc address type mk
          in res_bind (ponyint_hashmap_putindex object_cmp m obj (object_hash obj) index)
               (\<lambda>m'. Inr (obj, m')))"

definition ponyint_actormap_getactor ::
  "'f actormap_t \<Rightarrow> uint64_t \<Rightarrow> nat \<Rightarrow> 'f objectmap_t actorref_t option \<times> nat" where
  "ponyint_actormap_getactor m actor index =
     (let key = actorref_alloc HASHMAP_INIT actor 0
      in ponyint_hashmap_get m key (actorref_hash key) actorref_cmp index)"

definition ponyint_actormap_getorput ::
  "'f actormap_t \<Rightarrow> uint64_t \<Rightarrow> uint32_t \<Rightarrow> ('f objectmap_t actorref_t \<times> 'f actormap_t) res" where
  "ponyint_actormap_getorput m actor mk =
     (case ponyint_actormap_getactor m actor HASHMAP_UNKNOWN of
        (Some aref, index) \<Rightarrow> Inr (aref, m)
      | (None, index) \<Rightarrow>
          let aref = actorref_alloc HASHMAP_INIT actor mk
          in res_bind (ponyint_hashmap_putindex actorref_cmp m aref (actorref_hash aref) index)
               (\<lambda>m'. Inr (aref, m')))"

text \<open>Writing a field of an element through the pointer a lookup returned.\<close>

definition poke :: "'a hashmap_t \<Rightarrow> nat \<Rightarrow> 'a \<Rightarrow> 'a hashmap_t" where
  "poke m pos e =
     m\<lparr>hm_buckets := (hm_buckets m)[pos := (bucket (hm_buckets m) pos)\<lparr>he_ptr := Some e\<rparr>]\<rparr>"

definition ponyint_deltamap_update ::
  "deltamap_t option \<Rightarrow> uint64_t \<Rightarrow> uint64_t \<Rightarrow> deltamap_t res" where
  "ponyint_deltamap_update m actor rc =
     (let delta = \<lparr>de_actor = actor, de_rc = rc\<rparr>
      in case m of
           None \<Rightarrow>
             res_bind (ponyint_hashmap_put delta_cmp (ponyint_hashmap_init 1) delta (delta_hash delta))
               (\<lambda>(old, m'). Inr m')
         | Some m \<Rightarrow>
             (case ponyint_hashmap_get m delta (delta_hash delta) delta_cmp HASHMAP_UNKNOWN of
                (Some d, index) \<Rightarrow> Inr (poke m index (d\<lparr>de_rc := rc\<rparr>))
              | (None, index) \<Rightarrow>
                  if index = HASHMAP_UNKNOWN then
                    res_bind (ponyint_hashmap_put delta_cmp m delta (delta_hash delta))
                      (\<lambda>(old, m'). Inr m')
                  else ponyint_hashmap_putindex delta_cmp m delta (delta_hash delta) index))"

section \<open>Operations on the elements\<close>

text \<open>
  The same maps as lists of elements with distinct keys.  The order of the list stands for the
  iteration order of the table.
\<close>

definition elems_get :: "('a \<Rightarrow> 'k) \<Rightarrow> 'a list \<Rightarrow> 'k \<Rightarrow> 'a option" where
  "elems_get key xs k = find (\<lambda>x. key x = k) xs"

definition elems_modify :: "('a \<Rightarrow> 'k) \<Rightarrow> 'a list \<Rightarrow> 'k \<Rightarrow> ('a \<Rightarrow> 'a) \<Rightarrow> 'a list" where
  "elems_modify key xs k f = map (\<lambda>x. if key x = k then f x else x) xs"

definition elems_getorput :: "('a \<Rightarrow> 'k) \<Rightarrow> 'a list \<Rightarrow> 'a \<Rightarrow> 'a list" where
  "elems_getorput key xs new = (if elems_get key xs (key new) = None then xs @ [new] else xs)"

definition deltas_update :: "delta_t list option \<Rightarrow> uint64_t \<Rightarrow> uint64_t \<Rightarrow> delta_t list" where
  "deltas_update ds actor rc =
     elems_modify de_actor
       (elems_getorput de_actor (case ds of None \<Rightarrow> [] | Some xs \<Rightarrow> xs) \<lparr>de_actor = actor, de_rc = rc\<rparr>)
       actor (\<lambda>d. d\<lparr>de_rc := rc\<rparr>)"

text \<open>A table represents a list when it is valid and holds the same elements.\<close>

definition represents :: "('a \<Rightarrow> 'k) \<Rightarrow> ('a \<Rightarrow> uint64_t) \<Rightarrow> 'a hashmap_t \<Rightarrow> 'a list \<Rightarrow> bool" where
  "represents key hf m xs \<longleftrightarrow> hm_valid key hf m \<and> hm_entries m = set xs \<and> distinct (map key xs)"

section \<open>The tables implement the lists\<close>

lemma elems_get_Some_iff:
  assumes "distinct (map key xs)"
  shows "elems_get key xs k = Some x \<longleftrightarrow> x \<in> set xs \<and> key x = k"
  using assms unfolding elems_get_def
  by (induction xs) (auto simp: image_iff)

lemma elems_get_None_iff: "elems_get key xs k = None \<longleftrightarrow> (\<forall>x \<in> set xs. key x \<noteq> k)"
  by (auto simp: elems_get_def find_None_iff)

context hash_keyed
begin

lemma get_represents:
  assumes "represents key hf m xs"
  shows "fst (ponyint_hashmap_get m k (hf k) cmp pos) = elems_get key xs (key k)"
  using assms get_valid [of m k pos] elems_get_Some_iff [of key xs "key k"]
  by (intro option_eqI) (simp add: represents_def)

lemma put_represents:
  assumes rep: "represents key hf m xs" and sz: "hm_size m < 2 ^ 58" and new: "elems_get key xs (key e) = None"
  shows "\<exists>m'. ponyint_hashmap_put cmp m e (hf e) = Inr (None, m') \<and> represents key hf m' (xs @ [e])"
proof -
  have absent: "\<forall>x \<in> set xs. key x \<noteq> key e" using new by (simp add: elems_get_None_iff)
  have v: "hm_valid key hf m" "hm_entries m = set xs" "distinct (map key xs)"
    using rep by (simp_all add: represents_def)
  obtain old m' where m': "ponyint_hashmap_put cmp m e (hf e) = Inr (old, m')" "hm_inv key hf m'"
      "hm_entries m' = insert e {x \<in> hm_entries m. key x \<noteq> key e}"
      "\<forall>x. old = Some x \<longleftrightarrow> x \<in> hm_entries m \<and> key x = key e"
    using put_valid [OF v(1) sz] by blast
  have "old = None" using m'(4) absent v(2) by (cases old) auto
  moreover have "hm_entries m' = set (xs @ [e])" using m'(3) absent v(2) by auto
  ultimately show ?thesis
    using m'(1,2) v(3) absent by (auto simp: represents_def hm_valid_def)
qed

lemma putindex_represents:
  assumes rep: "represents key hf m xs" and sz: "hm_size m < 2 ^ 58" and k: "key e = key k"
    and get: "ponyint_hashmap_get m k (hf k) cmp HASHMAP_UNKNOWN = (None, pos)"
  shows "\<exists>m'. ponyint_hashmap_putindex cmp m e (hf e) pos = Inr m' \<and> represents key hf m' (xs @ [e])"
proof -
  have "elems_get key xs (key e) = None" using get_represents [OF rep, of k HASHMAP_UNKNOWN] get k by simp
  moreover have "hm_valid key hf m" using rep by (simp add: represents_def)
  ultimately show ?thesis
    using put_represents [OF rep sz, of e] putindex_put [OF _ k get] by auto
qed

lemma get_or_put_represents:
  assumes rep: "represents key hf m xs" and sz: "hm_size m < 2 ^ 58" and k: "key new = key k"
  shows "\<exists>x m'. (case ponyint_hashmap_get m k (hf k) cmp HASHMAP_UNKNOWN of
      (Some obj, index) \<Rightarrow> Inr (obj, m)
    | (None, index) \<Rightarrow> res_bind (ponyint_hashmap_putindex cmp m new (hf new) index) (\<lambda>m'. Inr (new, m'))) =
      Inr (x, m') \<and>
    represents key hf m' (elems_getorput key xs new) \<and>
    elems_get key (elems_getorput key xs new) (key new) = Some x"
proof -
  obtain r pos where g: "ponyint_hashmap_get m k (hf k) cmp HASHMAP_UNKNOWN = (r, pos)" by fastforce
  have r: "r = elems_get key xs (key new)" using get_represents [OF rep, of k HASHMAP_UNKNOWN] g k by simp
  show ?thesis
  proof (cases r)
    case (Some x)
    then have "elems_getorput key xs new = xs" using r by (simp add: elems_getorput_def)
    moreover have "elems_get key xs (key new) = Some x" using r Some by simp
    ultimately show ?thesis using rep g [unfolded Some] by simp
  next
    case None
    then have e: "elems_getorput key xs new = xs @ [new]" using r by (simp add: elems_getorput_def)
    obtain m' where m': "ponyint_hashmap_putindex cmp m new (hf new) pos = Inr m'"
        "represents key hf m' (xs @ [new])"
      using putindex_represents [OF rep sz k] g None by blast
    then have "elems_get key (xs @ [new]) (key new) = Some new"
      by (subst elems_get_Some_iff) (simp_all add: represents_def)
    then show ?thesis using m' e g None by simp
  qed
qed

lemma get_index:
  assumes "hm_valid key hf m" "ponyint_hashmap_get m k (hf k) cmp pos = (Some x, i)"
  shows "hm_inv key hf m \<and> slot m i = Some x \<and> key x = key k"
proof -
  have x: "x \<in> hm_entries m" "key x = key k" using get_valid [OF assms(1), of k pos x] assms(2) by simp_all
  then obtain j where j: "slot m j = Some x" by (auto simp: hm_entries_def ran_def)
  have inv: "hm_inv key hf m" using assms(1) x(1) by (auto simp: hm_valid_def)
  then have ord: "hm_ordered key hf m" and half: "2 * hm_count m \<le> hm_size m" by (simp_all add: hm_inv_def)
  note sh = ordered_parts(1) [OF ord]
  have "hm_count m < hm_size m" using half shape_size(2) [OF sh] by linarith
  then obtain e where "e < hm_size m" "slot m e = None" by (rule ordered_has_room [OF sh])
  then have "search m k (hf k) cmp 0 0 = (Some x, j, dist (hm_size m) (hf x) j, 0)"
    using search_finds [OF ord _ _ j x(2)] by blast
  then have "i = j" using assms(2) by (auto simp: ponyint_hashmap_get_def split: if_splits)
  with inv j x(2) show ?thesis by simp
qed

lemma poke_represents:
  assumes rep: "represents key hf m xs" and get: "ponyint_hashmap_get m k (hf k) cmp pos = (Some x, i)"
    and f: "key (f x) = key x"
  shows "represents key hf (poke m i (f x)) (elems_modify key xs (key k) f)"
proof -
  have v: "hm_valid key hf m" "hm_entries m = set xs" "distinct (map key xs)"
    using rep by (simp_all add: represents_def)
  have i: "hm_inv key hf m" "slot m i = Some x" "key x = key k" using get_index [OF v(1) get] by blast+
  then have ord: "hm_ordered key hf m" and half: "2 * hm_count m \<le> hm_size m" by (simp_all add: hm_inv_def)
  note sh = ordered_parts(1) [OF ord]
  have "hf (f x) = hf x" using f by (rule hf_key)
  then have st: "poke m i (f x) = store m i (f x) (hf (f x))"
    using shape_bucket(1) [OF sh i(2)] by (simp add: poke_def store_def)
  have "x \<in> set xs" using i(2) v(2) by (auto simp: hm_entries_def ran_def)
  then have u: "y = x" if "y \<in> set xs" "key y = key k" for y
    using that v(3) i(3) by (metis distinct_map inj_onD)
  then have kx: "key y = key k \<longleftrightarrow> y = x" if "y \<in> set xs" for y using that i(3) by blast
  have em: "elems_modify key xs (key k) f = map (\<lambda>y. if y = x then f x else y) xs"
    unfolding elems_modify_def by (rule map_cong) (auto simp: kx)
  have "{y \<in> set xs. key y \<noteq> key (f x)} = set xs - {x}" using kx f i(3) by auto
  then have "insert (f x) {y \<in> set xs. key y \<noteq> key (f x)} = set (elems_modify key xs (key k) f)"
    unfolding em using \<open>x \<in> set xs\<close> by auto
  moreover have "map key (elems_modify key xs (key k) f) = map key xs"
    unfolding em using f by simp
  ultimately show ?thesis
    using ordered_replace [OF ord i(2) f [symmetric]] half v by (simp add: represents_def hm_valid_def hm_inv_def st)
qed

end

interpretation objmap: hash_keyed ob_address object_cmp object_hash
  by unfold_locales (simp_all add: object_cmp_def object_hash_def)

interpretation actmap: hash_keyed ar_actor actorref_cmp actorref_hash
  by unfold_locales (simp_all add: actorref_cmp_def actorref_hash_def)

interpretation delmap: hash_keyed de_actor delta_cmp delta_hash
  by unfold_locales (simp_all add: delta_cmp_def delta_hash_def)

lemma alloc_keys [simp]: "ob_address (object_alloc a t mk) = a" "ar_actor (actorref_alloc e b mk) = b"
  by (simp_all add: object_alloc_def actorref_alloc_def)

lemma objectmap_getorput_represents:
  assumes "represents ob_address object_hash m xs" "hm_size m < 2 ^ 58"
  shows "\<exists>x m'. ponyint_objectmap_getorput m a t mk = Inr (x, m') \<and>
    represents ob_address object_hash m' (elems_getorput ob_address xs (object_alloc a t mk)) \<and>
    elems_get ob_address (elems_getorput ob_address xs (object_alloc a t mk)) a = Some x"
  using objmap.get_or_put_represents [OF assms, of "object_alloc a t mk" "object_alloc a None 0"]
  unfolding ponyint_objectmap_getorput_def ponyint_objectmap_getobject_def Let_def by simp

lemma actormap_getorput_represents:
  assumes "represents ar_actor actorref_hash m xs" "hm_size m < 2 ^ 58"
  shows "\<exists>x m'. ponyint_actormap_getorput m a mk = Inr (x, m') \<and>
    represents ar_actor actorref_hash m' (elems_getorput ar_actor xs (actorref_alloc HASHMAP_INIT a mk)) \<and>
    elems_get ar_actor (elems_getorput ar_actor xs (actorref_alloc HASHMAP_INIT a mk)) a = Some x"
  using actmap.get_or_put_represents [OF assms, of "actorref_alloc HASHMAP_INIT a mk" "actorref_alloc HASHMAP_INIT a 0"]
  unfolding ponyint_actormap_getorput_def ponyint_actormap_getactor_def Let_def by simp

lemma elems_modify_new:
  "elems_get key xs (key new) = None \<Longrightarrow> elems_modify key (xs @ [new]) (key new) f = xs @ [f new]"
  by (auto simp: elems_modify_def elems_get_None_iff intro: map_idI)

lemma init_1_represents: "represents de_actor delta_hash (ponyint_hashmap_init 1) []"
  using init_table [of 1 "ponyint_hashmap_init 1" de_actor delta_hash]
  by (simp add: represents_def hm_valid_def)

lemma init_1_size: "hm_size (ponyint_hashmap_init 1 :: deltamap_t) < 2 ^ 58"
  by (simp add: ponyint_hashmap_init_def MIN_HASHMAP_SIZE_def push_bit_eq_mult)

lemma deltamap_update_represents:
  assumes "case m of None \<Rightarrow> xs = None
    | Some t \<Rightarrow> \<exists>ys. xs = Some ys \<and> represents de_actor delta_hash t ys \<and> hm_size t < 2 ^ 58"
  shows "\<exists>m'. ponyint_deltamap_update m a rc = Inr m' \<and>
    represents de_actor delta_hash m' (deltas_update xs a rc)"
proof -
  let ?d = "\<lparr>de_actor = a, de_rc = rc\<rparr>"
  have app: "deltas_update xs a rc = ys @ [?d]"
    if "elems_get de_actor ys a = None" "xs = Some ys \<or> xs = None \<and> ys = []" for ys
    using that elems_modify_new [of de_actor ys ?d "\<lambda>d. d\<lparr>de_rc := rc\<rparr>"]
    by (auto simp: deltas_update_def elems_getorput_def)
  show ?thesis
  proof (cases m)
    case None
    obtain m' where "ponyint_hashmap_put delta_cmp (ponyint_hashmap_init 1) ?d (delta_hash ?d) = Inr (None, m')"
        "represents de_actor delta_hash m' ([] @ [?d])"
      using delmap.put_represents [OF init_1_represents init_1_size, of ?d] by (auto simp: elems_get_def)
    then show ?thesis using None assms app [of "[]"]
      by (simp add: ponyint_deltamap_update_def elems_get_def)
  next
    case (Some t)
    then obtain ys where ys: "xs = Some ys" "represents de_actor delta_hash t ys" "hm_size t < 2 ^ 58"
      using assms by auto
    obtain r i where g: "ponyint_hashmap_get t ?d (delta_hash ?d) delta_cmp HASHMAP_UNKNOWN = (r, i)" by fastforce
    have r: "r = elems_get de_actor ys a" using delmap.get_represents [OF ys(2), of ?d HASHMAP_UNKNOWN] g by simp
    show ?thesis
    proof (cases r)
      case (Some d)
      have "deltas_update xs a rc = elems_modify de_actor ys a (\<lambda>d. d\<lparr>de_rc := rc\<rparr>)"
        using r [symmetric] Some ys(1) by (simp add: deltas_update_def elems_getorput_def)
      moreover have "represents de_actor delta_hash (poke t i (d\<lparr>de_rc := rc\<rparr>))
          (elems_modify de_actor ys (de_actor ?d) (\<lambda>d. d\<lparr>de_rc := rc\<rparr>))"
        using delmap.poke_represents [OF ys(2) g [unfolded Some], of "\<lambda>d. d\<lparr>de_rc := rc\<rparr>"] by simp
      ultimately show ?thesis
        using g Some \<open>m = Some t\<close> by (simp add: ponyint_deltamap_update_def)
    next
      case None
      then have n: "elems_get de_actor ys a = None" using r by simp
      obtain m1 where m1: "ponyint_hashmap_put delta_cmp t ?d (delta_hash ?d) = Inr (None, m1)"
          "represents de_actor delta_hash m1 (ys @ [?d])"
        using delmap.put_represents [OF ys(2,3), of ?d] n by auto
      obtain m2 where m2: "ponyint_hashmap_putindex delta_cmp t ?d (delta_hash ?d) i = Inr m2"
          "represents de_actor delta_hash m2 (ys @ [?d])"
        using delmap.putindex_represents [OF ys(2,3) refl g [unfolded None]] by blast
      show ?thesis
        using app [OF n] ys(1) g None \<open>m = Some t\<close> m1 m2
        by (cases "i = HASHMAP_UNKNOWN") (simp_all add: ponyint_deltamap_update_def)
    qed
  qed
qed

section \<open>Reading the lists after an update\<close>

lemma elems_get_modify:
  assumes "\<And>x. key (f x) = key x"
  shows "elems_get key (elems_modify key xs k f) j =
    (if j = k then map_option f (elems_get key xs k) else elems_get key xs j)"
  unfolding elems_get_def elems_modify_def by (induction xs) (auto simp: assms)

lemma elems_get_getorput:
  "elems_get key (elems_getorput key xs new) j =
    (if j = key new \<and> elems_get key xs j = None then Some new else elems_get key xs j)"
proof -
  have "find P (xs @ [new]) = (case find P xs of None \<Rightarrow> if P new then Some new else None | Some x \<Rightarrow> Some x)"
    for P by (induction xs) auto
  then show ?thesis by (auto simp: elems_getorput_def elems_get_def split: option.splits)
qed

lemma elems_keys_modify: "(\<And>x. key (f x) = key x) \<Longrightarrow> map key (elems_modify key xs k f) = map key xs"
  by (simp add: elems_modify_def)

lemma elems_distinct_getorput:
  "distinct (map key xs) \<Longrightarrow> distinct (map key (elems_getorput key xs new))"
  by (auto simp: elems_getorput_def elems_get_None_iff)

lemma deltas_update_get:
  "elems_get de_actor (deltas_update xs a rc) b =
    (if b = a then Some \<lparr>de_actor = a, de_rc = rc\<rparr> else elems_get de_actor (case xs of None \<Rightarrow> [] | Some ys \<Rightarrow> ys) b)"
proof -
  have key: "d\<lparr>de_rc := rc\<rparr> = \<lparr>de_actor = k, de_rc = rc\<rparr>" if "elems_get de_actor ys k = Some d" for ys d k
    using that unfolding elems_get_def by (induction ys) (auto split: if_splits)
  show ?thesis
    by (auto simp: deltas_update_def elems_get_modify elems_get_getorput split: option.splits dest: key)
qed

section \<open>Properties\<close>

lemma empty_represents: "represents key hf HASHMAP_INIT []"
  by (simp add: represents_def hm_valid_def)

text \<open>
  C40: The object map and the actor map of the collector implement finite maps from addresses to
  entries: looking an address up and adding a fresh entry when there is none, which is how every
  handler of the collector reaches its counters, never fails, returns the entry the map has for the
  address (the fresh one, with no references and not marked, if there was none) and leaves every
  other entry in the table, resizes included.
\<close>

theorem gc_maps_refine:
  assumes "represents ob_address object_hash om xs" "hm_size om < 2 ^ 58"
    "represents ar_actor actorref_hash am ys" "hm_size am < 2 ^ 58"
  shows "(\<exists>x om'. ponyint_objectmap_getorput om a t mk = Inr (x, om') \<and>
      represents ob_address object_hash om' (elems_getorput ob_address xs (object_alloc a t mk)) \<and>
      elems_get ob_address (elems_getorput ob_address xs (object_alloc a t mk)) a = Some x) \<and>
    (\<exists>y am'. ponyint_actormap_getorput am b mk = Inr (y, am') \<and>
      represents ar_actor actorref_hash am' (elems_getorput ar_actor ys (actorref_alloc HASHMAP_INIT b mk)) \<and>
      elems_get ar_actor (elems_getorput ar_actor ys (actorref_alloc HASHMAP_INIT b mk)) b = Some y)"
  using objectmap_getorput_represents [OF assms(1,2)] actormap_getorput_represents [OF assms(3,4)] by blast

theorem gc_maps_refine_witness:
  "\<exists>x (om' :: unit objectmap_t). ponyint_objectmap_getorput HASHMAP_INIT 4096 None 7 = Inr (x, om') \<and>
     represents ob_address object_hash om' [object_alloc 4096 None 7]"
proof -
  have "hm_size (HASHMAP_INIT :: 'a hashmap_t) < 2 ^ 58" by (simp add: HASHMAP_INIT_def)
  moreover have "elems_getorput ob_address [] (object_alloc 4096 None 7 :: unit object_t) = [object_alloc 4096 None 7]"
    by (simp add: elems_getorput_def elems_get_def)
  ultimately show ?thesis
    using gc_maps_refine [OF empty_represents _ empty_represents, of 4096 "None :: unit pony_type_t option" 7 8]
    by (auto simp: HASHMAP_INIT_def)
qed

text \<open>
  The table of reference count changes kept for the cycle detector implements a finite map from
  actors to counts: an update, of a table that may not exist yet, never fails and makes the new count
  the only one for the actor while every other actor keeps its count.
\<close>

lemma deltamap_update_refines:
  assumes "case m of None \<Rightarrow> xs = None
    | Some t \<Rightarrow> \<exists>ys. xs = Some ys \<and> represents de_actor delta_hash t ys \<and> hm_size t < 2 ^ 58"
  shows "\<exists>m'. ponyint_deltamap_update m a rc = Inr m' \<and>
    represents de_actor delta_hash m' (deltas_update xs a rc) \<and>
    (\<forall>b. elems_get de_actor (deltas_update xs a rc) b =
       (if b = a then Some \<lparr>de_actor = a, de_rc = rc\<rparr> else elems_get de_actor (case xs of None \<Rightarrow> [] | Some ys \<Rightarrow> ys) b))"
  using deltamap_update_represents [OF assms] deltas_update_get by blast

end
