(* ===== verification/Ponystack.thy ===== *)
theory Ponystack
  imports Prelude
begin

text \<open>
  The chunked stack of \<^verbatim>\<open>src/libponyrt/ds/stack.c\<close>, which the tracing of the garbage collector runs on,
  and the contract it gives its users: a list with the top first.
\<close>

section \<open>Chunks\<close>

definition STACK_COUNT :: nat where
  "STACK_COUNT = 62"

text \<open>
  A \<^verbatim>\<open>Stack\<close> pointer is the list of chunks along \<open>prev\<close>, the empty list for \<^verbatim>\<open>NULL\<close>.  An entry of a
  chunk that was never written is \<open>None\<close>.
\<close>

record 'a stack_chunk =
  st_index :: nat
  st_data :: "'a option list"

type_synonym 'a Stack = "'a stack_chunk list"

definition stack_new :: "'a Stack \<Rightarrow> 'a \<Rightarrow> 'a Stack" where
  "stack_new prev d = \<lparr>st_index = 1, st_data = (replicate STACK_COUNT None)[0 := Some d]\<rparr> # prev"

definition ponyint_stack_pop :: "'a Stack \<Rightarrow> ('a Stack \<times> 'a) res" where
  "ponyint_stack_pop stack =
     (case stack of
        [] \<Rightarrow> Inl Assert_fail
      | c # prev \<Rightarrow>
          let c = c\<lparr>st_index := st_index c - 1\<rparr>
          in case st_data c ! st_index c of
               None \<Rightarrow> Inl Null_deref
             | Some d \<Rightarrow> Inr (if st_index c = 0 then prev else c # prev, d))"

definition ponyint_stack_push :: "'a Stack \<Rightarrow> 'a \<Rightarrow> 'a Stack" where
  "ponyint_stack_push stack d =
     (case stack of
        [] \<Rightarrow> stack_new stack d
      | c # prev \<Rightarrow>
          if st_index c < STACK_COUNT
          then c\<lparr>st_data := (st_data c)[st_index c := Some d], st_index := st_index c + 1\<rparr> # prev
          else stack_new stack d)"

section \<open>The stack contract\<close>

text \<open>Popping until the stack is \<^verbatim>\<open>NULL\<close>, handing each element to a function.\<close>

fun pop_each :: "('s \<Rightarrow> ('s \<times> 'a) res) \<Rightarrow> 's \<Rightarrow> nat \<Rightarrow> ('t \<Rightarrow> 'a \<Rightarrow> 't) \<Rightarrow> 's \<Rightarrow> 't \<Rightarrow> 't res" where
  "pop_each pop nil 0 f s t = Inl Out_of_fuel"
| "pop_each pop nil (Suc n) f s t =
     (if s = nil then Inr t else res_bind (pop s) (\<lambda>(s', x). pop_each pop nil n f s' (f t x)))"

locale stack_adt =
  fixes nil :: 's and push :: "'s \<Rightarrow> 'a \<Rightarrow> 's" and pop :: "'s \<Rightarrow> ('s \<times> 'a) res"
    and elems :: "'s \<Rightarrow> 'a list" and ok :: "'s \<Rightarrow> bool"
  assumes nil_ok: "ok nil"
    and nil_iff: "ok s \<Longrightarrow> s = nil \<longleftrightarrow> elems s = []"
    and push_ok: "ok s \<Longrightarrow> ok (push s x)"
    and push_elems: "ok s \<Longrightarrow> elems (push s x) = x # elems s"
    and pop_ok: "ok s \<Longrightarrow> elems s = x # xs \<Longrightarrow> \<exists>s'. pop s = Inr (s', x) \<and> ok s' \<and> elems s' = xs"
begin

lemma pop_push: "ok s \<Longrightarrow> \<exists>s'. pop (push s x) = Inr (s', x) \<and> ok s' \<and> elems s' = elems s"
  using pop_ok [OF push_ok push_elems] by blast

lemma push_not_nil: "ok s \<Longrightarrow> push s x \<noteq> nil"
  using nil_iff [OF push_ok] push_elems by fastforce

lemma pop_each_all: "ok s \<Longrightarrow> length (elems s) < n \<Longrightarrow> pop_each pop nil n f s t = Inr (foldl f t (elems s))"
proof (induction "elems s" arbitrary: s n t)
  case Nil
  then show ?case using nil_iff [of s] by (cases n) auto
next
  case (Cons x xs)
  obtain n' where n: "n = Suc n'" using Cons.prems(2) by (cases n) auto
  obtain s' where s': "pop s = Inr (s', x)" "ok s'" "elems s' = xs"
    using pop_ok [OF Cons.prems(1)] Cons.hyps(2) by metis
  have "s \<noteq> nil" using nil_iff [OF Cons.prems(1)] Cons.hyps(2) by (metis list.discI)
  moreover have "length (elems s') < n'" using Cons.prems(2) n s'(3) Cons.hyps(2) [symmetric] by simp
  ultimately show ?case
    using Cons.hyps(1) [of s' n' "f t x"] s' n Cons.hyps(2) [symmetric] by simp
qed

lemma push_each_elems: "ok s \<Longrightarrow> ok (foldl push s xs) \<and> elems (foldl push s xs) = rev xs @ elems s"
  by (induction xs arbitrary: s) (simp_all add: push_ok push_elems)

end

section \<open>The chunked stack keeps the contract\<close>

definition chunk_elems :: "'a stack_chunk \<Rightarrow> 'a list" where
  "chunk_elems c = rev (map the (take (st_index c) (st_data c)))"

definition stack_elems :: "'a Stack \<Rightarrow> 'a list" where
  "stack_elems s = concat (map chunk_elems s)"

definition chunk_ok :: "'a stack_chunk \<Rightarrow> bool" where
  "chunk_ok c \<longleftrightarrow> length (st_data c) = STACK_COUNT \<and> 0 < st_index c \<and> st_index c \<le> STACK_COUNT \<and>
     list_all (\<lambda>d. d \<noteq> None) (take (st_index c) (st_data c))"

definition stack_ok :: "'a Stack \<Rightarrow> bool" where
  "stack_ok s \<longleftrightarrow> list_all chunk_ok s \<and> list_all (\<lambda>c. st_index c = STACK_COUNT) (tl s)"

lemma chunk_elems_nonempty: "chunk_ok c \<Longrightarrow> chunk_elems c \<noteq> []"
  by (auto simp: chunk_elems_def chunk_ok_def STACK_COUNT_def)

lemma chunk_new: "chunk_ok \<lparr>st_index = 1, st_data = (replicate STACK_COUNT None)[0 := Some d]\<rparr>"
  "chunk_elems \<lparr>st_index = 1, st_data = (replicate STACK_COUNT None)[0 := Some d]\<rparr> = [d]"
proof -
  have "(replicate STACK_COUNT None)[0 := Some d] = Some d # replicate 61 None"
    using replicate_Suc [of 61 "None :: 'a option"] by (simp add: STACK_COUNT_def)
  then show "chunk_ok \<lparr>st_index = 1, st_data = (replicate STACK_COUNT None)[0 := Some d]\<rparr>"
    "chunk_elems \<lparr>st_index = 1, st_data = (replicate STACK_COUNT None)[0 := Some d]\<rparr> = [d]"
    by (simp_all add: chunk_ok_def chunk_elems_def STACK_COUNT_def)
qed

lemma chunk_write:
  assumes "chunk_ok c" "st_index c < STACK_COUNT"
    and c'_def: "c' = c\<lparr>st_data := (st_data c)[st_index c := Some d], st_index := st_index c + 1\<rparr>"
  shows "chunk_ok c'" "chunk_elems c' = d # chunk_elems c"
proof -
  have "st_index c < length (st_data c)" using assms(1,2) by (simp add: chunk_ok_def)
  then have t: "take (st_index c + 1) ((st_data c)[st_index c := Some d]) = take (st_index c) (st_data c) @ [Some d]"
    by (simp add: take_Suc_conv_app_nth)
  then show "chunk_ok c'" using assms(1,2) by (simp add: chunk_ok_def c'_def)
  show "chunk_elems c' = d # chunk_elems c" using t by (simp add: chunk_elems_def c'_def)
qed

lemma chunk_read:
  assumes "chunk_ok c"
  obtains d where "st_data c ! (st_index c - 1) = Some d"
    "chunk_elems c = d # chunk_elems (c\<lparr>st_index := st_index c - 1\<rparr>)"
    "0 < st_index c - 1 \<longrightarrow> chunk_ok (c\<lparr>st_index := st_index c - 1\<rparr>)"
    "st_index c - 1 = 0 \<longrightarrow> chunk_elems (c\<lparr>st_index := st_index c - 1\<rparr>) = []"
proof -
  obtain k where k: "st_index c = Suc k" using assms by (cases "st_index c") (auto simp: chunk_ok_def)
  then have "k < length (st_data c)" using assms by (simp add: chunk_ok_def)
  then have t: "take (Suc k) (st_data c) = take k (st_data c) @ [st_data c ! k]"
    by (rule take_Suc_conv_app_nth)
  then obtain d where d: "st_data c ! k = Some d" using assms k by (auto simp: chunk_ok_def)
  show ?thesis
  proof (rule that)
    show "st_data c ! (st_index c - 1) = Some d" using k d by simp
    show "chunk_elems c = d # chunk_elems (c\<lparr>st_index := st_index c - 1\<rparr>)"
      using k t d by (simp add: chunk_elems_def)
    show "0 < st_index c - 1 \<longrightarrow> chunk_ok (c\<lparr>st_index := st_index c - 1\<rparr>)"
      using assms k t by (simp add: chunk_ok_def)
    show "st_index c - 1 = 0 \<longrightarrow> chunk_elems (c\<lparr>st_index := st_index c - 1\<rparr>) = []"
      by (simp add: chunk_elems_def)
  qed
qed

lemma chunk_full: "chunk_ok c \<Longrightarrow> \<not> st_index c < STACK_COUNT \<Longrightarrow> st_index c = STACK_COUNT"
  by (simp add: chunk_ok_def)

lemma stack_push_ok: "stack_ok s \<Longrightarrow> stack_ok (ponyint_stack_push s d)"
  using chunk_new(1) [of d] chunk_write(1) [OF _ _ refl] chunk_full
  by (cases s) (auto simp: stack_ok_def ponyint_stack_push_def stack_new_def)

lemma stack_push_elems: "stack_ok s \<Longrightarrow> stack_elems (ponyint_stack_push s d) = d # stack_elems s"
  using chunk_new(2) [of d] chunk_write(2) [OF _ _ refl]
  by (cases s) (auto simp: stack_ok_def ponyint_stack_push_def stack_new_def stack_elems_def)

lemma stack_pop_ok:
  assumes "stack_ok s" "stack_elems s = x # xs"
  shows "\<exists>s'. ponyint_stack_pop s = Inr (s', x) \<and> stack_ok s' \<and> stack_elems s' = xs"
proof -
  obtain c prev where s: "s = c # prev" using assms(2) by (cases s) (auto simp: stack_elems_def)
  have "chunk_ok c" using assms(1) s by (simp add: stack_ok_def)
  then obtain d where d: "st_data c ! (st_index c - 1) = Some d"
      "chunk_elems c = d # chunk_elems (c\<lparr>st_index := st_index c - 1\<rparr>)"
      "0 < st_index c - 1 \<longrightarrow> chunk_ok (c\<lparr>st_index := st_index c - 1\<rparr>)"
      "st_index c - 1 = 0 \<longrightarrow> chunk_elems (c\<lparr>st_index := st_index c - 1\<rparr>) = []"
    by (rule chunk_read)
  have x: "x = d" using assms(2) s d(2) by (simp add: stack_elems_def)
  show ?thesis
  proof (cases "st_index c - 1 = 0")
    case True
    have "stack_ok prev" using assms(1) s by (cases prev) (auto simp: stack_ok_def)
    then show ?thesis
      using True s d x assms(2) by (simp add: ponyint_stack_pop_def Let_def stack_elems_def)
  next
    case False
    then have "stack_ok (c\<lparr>st_index := st_index c - 1\<rparr> # prev)"
      using d(3) assms(1) s by (simp add: stack_ok_def)
    then show ?thesis
      using False s d(1,2) x assms(2) by (simp add: ponyint_stack_pop_def Let_def stack_elems_def)
  qed
qed

lemma stack_nil_iff: "stack_ok s \<Longrightarrow> s = [] \<longleftrightarrow> stack_elems s = []"
  using chunk_elems_nonempty by (cases s) (auto simp: stack_ok_def stack_elems_def)

interpretation pstack: stack_adt "[]" ponyint_stack_push ponyint_stack_pop stack_elems stack_ok
  by unfold_locales
    (simp_all add: stack_push_ok stack_push_elems stack_pop_ok stack_nil_iff, simp add: stack_ok_def)

section \<open>Properties\<close>

text \<open>
  The chunked stack is a stack across chunk boundaries: whatever list of elements is pushed onto
  a well-formed stack, popping until the stack is \<^verbatim>\<open>NULL\<close> ends, never fails an assertion and yields the
  elements in reverse order, then the ones that were there before.
\<close>

lemma stack_lifo:
  assumes "stack_ok s" "length xs + length (stack_elems s) < n"
  shows "pop_each ponyint_stack_pop [] n f (foldl ponyint_stack_push s xs) t =
    Inr (foldl f t (rev xs @ stack_elems s))"
  using pstack.push_each_elems [OF assms(1), of xs] assms(2)
    pstack.pop_each_all [of "foldl ponyint_stack_push s xs" n f t] by simp

end
