(* ===== verification/Gc.thy ===== *)
theory Gc
  imports Gcmaps Ponystack
begin

text \<open>
  The reference counting of the garbage collector, \<^verbatim>\<open>src/libponyrt/gc/gc.c\<close>, with the sweeps of
  \<^verbatim>\<open>objectmap.c\<close> and \<^verbatim>\<open>actormap.c\<close>.  An actor counts the references others hold to it and to its
  objects, and keeps a counter for every foreign actor and object it can reach.  A counter that would
  run out is topped up by an acquire message to the owner.  What the theorems show is the accounting:
  each handler moves exactly as many references between the counters, the pending acquires and the
  message being traced as it should.
\<close>

section \<open>State\<close>

definition GC_INC_MORE :: uint64_t where
  "GC_INC_MORE = 256"

definition GC_ACTOR_HEAP_EQUIV :: uint64_t where
  "GC_ACTOR_HEAP_EQUIV = 1024"

definition GC_IMMUT_HEAP_EQUIV :: uint64_t where
  "GC_IMMUT_HEAP_EQUIV = 1024"

type_synonym 'f objs = "'f object_t list"
type_synonym 'f aref = "'f objs actorref_t"

record 'f gc_t =
  gc_mark :: uint32_t
  gc_rc_mark :: uint32_t
  gc_rc :: uint64_t
  gc_local :: "'f objs"
  gc_foreign :: "'f aref list"
  gc_delta :: "delta_t list option"

datatype trace_kind = PONY_TRACE_MUTABLE | PONY_TRACE_IMMUTABLE | PONY_TRACE_OPAQUE

datatype 'f gcitem = Ptr uint64_t | Fn 'f

text \<open>The pair of functions \<open>trace_object\<close> and \<open>trace_actor\<close> that a round of tracing installs in the context.\<close>

datatype trace_fns = Trace_null | Trace_send | Trace_recv | Trace_mark | Trace_acquire | Trace_release

datatype msg_id = ACTORMSG_ACQUIRE | ACTORMSG_RELEASE

text \<open>
  The context of a scheduler thread, with what the collector reaches through \<open>current\<close>: the \<^verbatim>\<open>gc_t\<close> of
  the running actor, the apparent use of its heap, and the mark bits of the heap, a type \<open>'h\<close> left to
  \<^verbatim>\<open>mem/heap.c\<close>.  \<open>ctx_sent\<close> collects the messages \<^verbatim>\<open>pony_sendp\<close> was called with, and \<open>ctx_noblock\<close> is the
  runtime's setting that turns the cycle detector off.
\<close>

record ('f, 'h) pony_ctx_t =
  ctx_current :: uint64_t
  ctx_gc :: "'f gc_t"
  ctx_heap_used :: uint64_t
  ctx_heap :: 'h
  ctx_trace :: trace_fns
  ctx_acquire :: "'f aref list"
  ctx_stack :: "'f gcitem Stack"
  ctx_sent :: "(uint64_t \<times> msg_id \<times> 'f aref) list"
  ctx_noblock :: bool

section \<open>Maps of references\<close>

definition aref_get :: "'f aref list \<Rightarrow> uint64_t \<Rightarrow> 'f aref option" where
  "aref_get m a = elems_get ar_actor m a"

definition aref_getorput :: "'f aref list \<Rightarrow> uint64_t \<Rightarrow> uint32_t \<Rightarrow> 'f aref list" where
  "aref_getorput m a mk = elems_getorput ar_actor m (actorref_alloc [] a mk)"

definition aref_modify :: "'f aref list \<Rightarrow> uint64_t \<Rightarrow> ('f aref \<Rightarrow> 'f aref) \<Rightarrow> 'f aref list" where
  "aref_modify m a f = elems_modify ar_actor m a f"

definition obj_get :: "'f objs \<Rightarrow> uint64_t \<Rightarrow> 'f object_t option" where
  "obj_get m p = elems_get ob_address m p"

definition obj_getorput :: "'f objs \<Rightarrow> uint64_t \<Rightarrow> 'f pony_type_t option \<Rightarrow> uint32_t \<Rightarrow> 'f objs" where
  "obj_getorput m p t mk = elems_getorput ob_address m (object_alloc p t mk)"

definition obj_modify :: "'f objs \<Rightarrow> uint64_t \<Rightarrow> ('f object_t \<Rightarrow> 'f object_t) \<Rightarrow> 'f objs" where
  "obj_modify m p f = elems_modify ob_address m p f"

text \<open>An object of a reference: \<^verbatim>\<open>ponyint_actorref_getobject\<close> and \<^verbatim>\<open>ponyint_actorref_getorput\<close>.\<close>

definition aref_obj :: "'f aref list \<Rightarrow> uint64_t \<Rightarrow> uint64_t \<Rightarrow> 'f object_t option" where
  "aref_obj m a p = (case aref_get m a of None \<Rightarrow> None | Some r \<Rightarrow> obj_get (ar_map r) p)"

definition aref_obj_getorput ::
  "'f aref list \<Rightarrow> uint64_t \<Rightarrow> uint64_t \<Rightarrow> 'f pony_type_t option \<Rightarrow> uint32_t \<Rightarrow> 'f aref list" where
  "aref_obj_getorput m a p t mk = aref_modify m a (\<lambda>r. r\<lparr>ar_map := obj_getorput (ar_map r) p t mk\<rparr>)"

definition aref_obj_modify ::
  "'f aref list \<Rightarrow> uint64_t \<Rightarrow> uint64_t \<Rightarrow> ('f object_t \<Rightarrow> 'f object_t) \<Rightarrow> 'f aref list" where
  "aref_obj_modify m a p f = aref_modify m a (\<lambda>r. r\<lparr>ar_map := obj_modify (ar_map r) p f\<rparr>)"

section \<open>Helpers\<close>

definition might_reference_actor :: "'f pony_type_t option \<Rightarrow> bool" where
  "might_reference_actor t \<longleftrightarrow> (case t of None \<Rightarrow> False | Some d \<Rightarrow> ty_might_reference_actor d)"

definition acquire_actor :: "('f, 'h) pony_ctx_t \<Rightarrow> uint64_t \<Rightarrow> ('f, 'h) pony_ctx_t" where
  "acquire_actor ctx actor =
     ctx\<lparr>ctx_acquire := aref_modify (aref_getorput (ctx_acquire ctx) actor 0) actor
       (\<lambda>aref. aref\<lparr>ar_rc := ar_rc aref + GC_INC_MORE\<rparr>)\<rparr>"

text \<open>The type descriptor of an object is the first word of its memory, read by \<open>type_of\<close>.\<close>

definition acquire_object ::
  "(uint64_t \<Rightarrow> 'f pony_type_t option) \<Rightarrow> ('f, 'h) pony_ctx_t \<Rightarrow> uint64_t \<Rightarrow> uint64_t \<Rightarrow> bool \<Rightarrow> ('f, 'h) pony_ctx_t" where
  "acquire_object type_of ctx actor address immutable =
     (let m = aref_getorput (ctx_acquire ctx) actor 0;
          m = aref_obj_getorput m actor address (type_of address) 0
      in ctx\<lparr>ctx_acquire := aref_obj_modify m actor address
           (\<lambda>obj. obj\<lparr>ob_rc := ob_rc obj + GC_INC_MORE, ob_immutable := immutable\<rparr>)\<rparr>)"

definition recurse :: "('f, 'h) pony_ctx_t \<Rightarrow> uint64_t \<Rightarrow> 'f option \<Rightarrow> ('f, 'h) pony_ctx_t" where
  "recurse ctx p f =
     (case f of
        None \<Rightarrow> ctx
      | Some g \<Rightarrow> ctx\<lparr>ctx_stack := ponyint_stack_push (ponyint_stack_push (ctx_stack ctx) (Ptr p)) (Fn g)\<rparr>)"

text \<open>\<^verbatim>\<open>recurse(ctx, p, t->trace)\<close>.\<close>

definition recurse_type ::
  "('f, 'h) pony_ctx_t \<Rightarrow> uint64_t \<Rightarrow> 'f pony_type_t option \<Rightarrow> ('f, 'h) pony_ctx_t res" where
  "recurse_type ctx p t = (case t of None \<Rightarrow> Inl Null_deref | Some d \<Rightarrow> Inr (recurse ctx p (ty_trace d)))"

definition ponyint_heap_used :: "('f, 'h) pony_ctx_t \<Rightarrow> uint64_t \<Rightarrow> ('f, 'h) pony_ctx_t" where
  "ponyint_heap_used ctx n = ctx\<lparr>ctx_heap_used := ctx_heap_used ctx + n\<rparr>"

text \<open>\<^verbatim>\<open>gc->delta = ponyint_deltamap_update(gc->delta, actor, rc)\<close>, when the cycle detector is on.\<close>

definition update_delta :: "('f, 'h) pony_ctx_t \<Rightarrow> uint64_t \<Rightarrow> uint64_t \<Rightarrow> ('f, 'h) pony_ctx_t" where
  "update_delta ctx actor rc =
     (if \<not> ctx_noblock ctx
      then ctx\<lparr>ctx_gc := (ctx_gc ctx)\<lparr>gc_delta := Some (deltas_update (gc_delta (ctx_gc ctx)) actor rc)\<rparr>\<rparr>
      else ctx)"

section \<open>References to actors\<close>

definition send_local_actor :: "'f gc_t \<Rightarrow> 'f gc_t" where
  "send_local_actor gc =
     (if gc_rc_mark gc \<noteq> gc_mark gc then gc\<lparr>gc_rc_mark := gc_mark gc, gc_rc := gc_rc gc + 1\<rparr> else gc)"

definition recv_local_actor :: "'f gc_t \<Rightarrow> 'f gc_t res" where
  "recv_local_actor gc =
     (if gc_rc_mark gc \<noteq> gc_mark gc then
        pony_assert (gc_rc gc > 0) (Inr (gc\<lparr>gc_rc_mark := gc_mark gc, gc_rc := gc_rc gc - 1\<rparr>))
      else Inr gc)"

definition acquire_local_actor :: "'f gc_t \<Rightarrow> 'f gc_t" where
  "acquire_local_actor gc = gc\<lparr>gc_rc := gc_rc gc + 1\<rparr>"

definition release_local_actor :: "'f gc_t \<Rightarrow> 'f gc_t res" where
  "release_local_actor gc = pony_assert (gc_rc gc > 0) (Inr (gc\<lparr>gc_rc := gc_rc gc - 1\<rparr>))"

text \<open>
  The functions on a foreign actor get a pointer to its entry in the foreign map; here they get the
  actor and write the entry back.
\<close>

definition set_foreign :: "('f, 'h) pony_ctx_t \<Rightarrow> 'f aref list \<Rightarrow> ('f, 'h) pony_ctx_t" where
  "set_foreign ctx m = ctx\<lparr>ctx_gc := (ctx_gc ctx)\<lparr>gc_foreign := m\<rparr>\<rparr>"

definition foreign :: "('f, 'h) pony_ctx_t \<Rightarrow> 'f aref list" where
  "foreign ctx = gc_foreign (ctx_gc ctx)"

definition send_remote_actor :: "('f, 'h) pony_ctx_t \<Rightarrow> uint64_t \<Rightarrow> ('f, 'h) pony_ctx_t res" where
  "send_remote_actor ctx actor =
     (case aref_get (foreign ctx) actor of
        None \<Rightarrow> Inl Null_deref
      | Some aref \<Rightarrow>
          let mk = gc_mark (ctx_gc ctx)
          in if ar_mark aref = mk then Inr ctx
          else
            let rc = (if ar_rc aref \<le> 1 then ar_rc aref + (GC_INC_MORE - 1) else ar_rc aref - 1);
                ctx' = set_foreign ctx (aref_modify (foreign ctx) actor (\<lambda>r. r\<lparr>ar_mark := mk, ar_rc := rc\<rparr>));
                ctx' = (if ar_rc aref \<le> 1 then acquire_actor ctx' actor else ctx')
            in Inr (update_delta ctx' actor rc))"

definition recv_remote_actor :: "('f, 'h) pony_ctx_t \<Rightarrow> uint64_t \<Rightarrow> ('f, 'h) pony_ctx_t res" where
  "recv_remote_actor ctx actor =
     (case aref_get (foreign ctx) actor of
        None \<Rightarrow> Inl Null_deref
      | Some aref \<Rightarrow>
          let mk = gc_mark (ctx_gc ctx)
          in if ar_mark aref = mk then Inr ctx
          else
            let ctx' = (if ar_rc aref = 0 then ponyint_heap_used ctx GC_ACTOR_HEAP_EQUIV else ctx);
                rc = ar_rc aref + 1;
                ctx' = set_foreign ctx' (aref_modify (foreign ctx') actor (\<lambda>r. r\<lparr>ar_mark := mk, ar_rc := rc\<rparr>))
            in Inr (update_delta ctx' actor rc))"

definition mark_remote_actor :: "('f, 'h) pony_ctx_t \<Rightarrow> uint64_t \<Rightarrow> ('f, 'h) pony_ctx_t res" where
  "mark_remote_actor ctx actor =
     (case aref_get (foreign ctx) actor of
        None \<Rightarrow> Inl Null_deref
      | Some aref \<Rightarrow>
          let mk = gc_mark (ctx_gc ctx)
          in if ar_mark aref = mk then Inr ctx
          else
            let ctx' = ponyint_heap_used ctx GC_ACTOR_HEAP_EQUIV;
                ctx' = set_foreign ctx' (aref_modify (foreign ctx') actor (\<lambda>r. r\<lparr>ar_mark := mk\<rparr>))
            in if ar_rc aref = 0 then
                 let rc = ar_rc aref + GC_INC_MORE;
                     ctx' = set_foreign ctx' (aref_modify (foreign ctx') actor (\<lambda>r. r\<lparr>ar_rc := rc\<rparr>));
                     ctx' = acquire_actor ctx' actor
                 in Inr (update_delta ctx' actor rc)
               else Inr ctx')"

definition acq_or_rel_remote_actor :: "('f, 'h) pony_ctx_t \<Rightarrow> uint64_t \<Rightarrow> ('f, 'h) pony_ctx_t" where
  "acq_or_rel_remote_actor ctx actor =
     ctx\<lparr>ctx_acquire := aref_modify (aref_getorput (ctx_acquire ctx) actor 0) actor
       (\<lambda>aref. aref\<lparr>ar_rc := ar_rc aref + 1\<rparr>)\<rparr>"

section \<open>References to local objects\<close>

definition set_gc :: "('f, 'h) pony_ctx_t \<Rightarrow> 'f gc_t \<Rightarrow> ('f, 'h) pony_ctx_t" where
  "set_gc ctx gc = ctx\<lparr>ctx_gc := gc\<rparr>"

text \<open>
  The end of every handler of a local object: nothing more for an opaque one, otherwise record that it
  is immutable and trace its fields unless they can be neither mutable nor actors.
\<close>

definition trace_local ::
  "('f, 'h) pony_ctx_t \<Rightarrow> uint64_t \<Rightarrow> 'f pony_type_t option \<Rightarrow> trace_kind \<Rightarrow> bool \<Rightarrow> ('f, 'h) pony_ctx_t res" where
  "trace_local ctx p t mutability was_immutable =
     (if mutability = PONY_TRACE_OPAQUE then Inr ctx
      else
        let immutable = (mutability = PONY_TRACE_IMMUTABLE \<or> was_immutable);
            ctx' = (if mutability = PONY_TRACE_IMMUTABLE
                    then set_gc ctx ((ctx_gc ctx)\<lparr>gc_local := obj_modify (gc_local (ctx_gc ctx)) p
                           (\<lambda>obj. obj\<lparr>ob_immutable := True\<rparr>)\<rparr>)
                    else ctx)
        in if \<not> immutable \<or> might_reference_actor t then recurse_type ctx' p t else Inr ctx')"

definition send_local_object ::
  "('f, 'h) pony_ctx_t \<Rightarrow> uint64_t \<Rightarrow> 'f pony_type_t option \<Rightarrow> trace_kind \<Rightarrow> ('f, 'h) pony_ctx_t res" where
  "send_local_object ctx p t mutability =
     (let gc = ctx_gc ctx;
          gc = gc\<lparr>gc_local := obj_getorput (gc_local gc) p t (gc_mark gc)\<rparr>
      in case obj_get (gc_local gc) p of
           None \<Rightarrow> Inl Null_deref
         | Some obj \<Rightarrow>
             if ob_mark obj = gc_mark gc then Inr (set_gc ctx gc)
             else
               let gc = send_local_actor gc;
                   gc = gc\<lparr>gc_local := obj_modify (gc_local gc) p
                          (\<lambda>obj. obj\<lparr>ob_rc := ob_rc obj + 1, ob_mark := gc_mark gc\<rparr>)\<rparr>
               in trace_local (set_gc ctx gc) p t mutability (ob_immutable obj))"

definition recv_local_object ::
  "('f, 'h) pony_ctx_t \<Rightarrow> uint64_t \<Rightarrow> 'f pony_type_t option \<Rightarrow> trace_kind \<Rightarrow> ('f, 'h) pony_ctx_t res" where
  "recv_local_object ctx p t mutability =
     (let gc = ctx_gc ctx
      in case obj_get (gc_local gc) p of
           None \<Rightarrow> Inl Assert_fail
         | Some obj \<Rightarrow>
             if ob_mark obj = gc_mark gc then Inr ctx
             else
               res_bind (recv_local_actor gc) (\<lambda>gc.
                 let gc = gc\<lparr>gc_local := obj_modify (gc_local gc) p
                            (\<lambda>obj. obj\<lparr>ob_rc := ob_rc obj - 1, ob_mark := gc_mark gc\<rparr>)\<rparr>
                 in trace_local (set_gc ctx gc) p t mutability (ob_immutable obj)))"

text \<open>
  Marking sets bits of the heap: \<open>heap_mark\<close> marks an object and tells whether it was marked before,
  \<open>heap_mark_shallow\<close> marks it without its fields.
\<close>

definition mark_local_object ::
  "('h \<Rightarrow> uint64_t \<Rightarrow> bool \<times> 'h) \<Rightarrow> ('h \<Rightarrow> uint64_t \<Rightarrow> 'h)
   \<Rightarrow> ('f, 'h) pony_ctx_t \<Rightarrow> uint64_t \<Rightarrow> 'f pony_type_t option \<Rightarrow> trace_kind \<Rightarrow> ('f, 'h) pony_ctx_t res" where
  "mark_local_object heap_mark heap_mark_shallow ctx p t mutability =
     (if mutability \<noteq> PONY_TRACE_OPAQUE then
        let (marked, h) = heap_mark (ctx_heap ctx) p;
            ctx' = ctx\<lparr>ctx_heap := h\<rparr>
        in if \<not> marked then recurse_type ctx' p t else Inr ctx'
      else Inr (ctx\<lparr>ctx_heap := heap_mark_shallow (ctx_heap ctx) p\<rparr>))"

definition acquire_local_object ::
  "('f, 'h) pony_ctx_t \<Rightarrow> uint64_t \<Rightarrow> 'f pony_type_t option \<Rightarrow> trace_kind \<Rightarrow> ('f, 'h) pony_ctx_t res" where
  "acquire_local_object ctx p t mutability =
     (let gc = ctx_gc ctx;
          gc = gc\<lparr>gc_local := obj_getorput (gc_local gc) p t (gc_mark gc)\<rparr>
      in case obj_get (gc_local gc) p of
           None \<Rightarrow> Inl Null_deref
         | Some obj \<Rightarrow>
             if ob_mark obj = gc_mark gc then Inr (set_gc ctx gc)
             else
               let gc = acquire_local_actor gc;
                   gc = gc\<lparr>gc_local := obj_modify (gc_local gc) p
                          (\<lambda>obj. obj\<lparr>ob_rc := ob_rc obj + 1, ob_mark := gc_mark gc\<rparr>)\<rparr>
               in trace_local (set_gc ctx gc) p t mutability (ob_immutable obj))"

definition release_local_object ::
  "('f, 'h) pony_ctx_t \<Rightarrow> uint64_t \<Rightarrow> 'f pony_type_t option \<Rightarrow> trace_kind \<Rightarrow> ('f, 'h) pony_ctx_t res" where
  "release_local_object ctx p t mutability =
     (let gc = ctx_gc ctx
      in case obj_get (gc_local gc) p of
           None \<Rightarrow> Inl Assert_fail
         | Some obj \<Rightarrow>
             if ob_mark obj = gc_mark gc then Inr ctx
             else
               res_bind (release_local_actor gc) (\<lambda>gc.
                 let gc = gc\<lparr>gc_local := obj_modify (gc_local gc) p
                            (\<lambda>obj. obj\<lparr>ob_rc := ob_rc obj - 1, ob_mark := gc_mark gc\<rparr>)\<rparr>
                 in trace_local (set_gc ctx gc) p t mutability (ob_immutable obj)))"

section \<open>References to foreign objects\<close>

text \<open>Both lookups at the start of the handlers of a foreign object: the owner's entry, then the object's.\<close>

definition touch_foreign ::
  "('f, 'h) pony_ctx_t \<Rightarrow> uint64_t \<Rightarrow> uint64_t \<Rightarrow> 'f pony_type_t option \<Rightarrow> ('f, 'h) pony_ctx_t" where
  "touch_foreign ctx actor p t =
     (let mk = gc_mark (ctx_gc ctx)
      in set_foreign ctx (aref_obj_getorput (aref_getorput (foreign ctx) actor mk) actor p t mk))"

definition set_object ::
  "('f, 'h) pony_ctx_t \<Rightarrow> uint64_t \<Rightarrow> uint64_t \<Rightarrow> ('f object_t \<Rightarrow> 'f object_t) \<Rightarrow> ('f, 'h) pony_ctx_t" where
  "set_object ctx actor p f = set_foreign ctx (aref_obj_modify (foreign ctx) actor p f)"

definition send_remote_object ::
  "(uint64_t \<Rightarrow> 'f pony_type_t option) \<Rightarrow> ('f, 'h) pony_ctx_t \<Rightarrow> uint64_t \<Rightarrow> uint64_t
   \<Rightarrow> 'f pony_type_t option \<Rightarrow> trace_kind \<Rightarrow> ('f, 'h) pony_ctx_t res" where
  "send_remote_object type_of ctx actor p t mutability =
     (let mk = gc_mark (ctx_gc ctx);
          ctx = touch_foreign ctx actor p t
      in case aref_obj (foreign ctx) actor p of
           None \<Rightarrow> Inl Null_deref
         | Some obj \<Rightarrow>
             if ob_mark obj = mk then Inr ctx
             else
               res_bind (send_remote_actor ctx actor) (\<lambda>ctx.
                 let ctx = set_object ctx actor p (\<lambda>obj. obj\<lparr>ob_mark := mk\<rparr>);
                     (ctx, mutability) =
                       (if mutability = PONY_TRACE_IMMUTABLE \<and> \<not> ob_immutable obj \<and> ob_rc obj > 0 then
                          (acquire_object type_of
                             (set_object ctx actor p (\<lambda>obj. obj\<lparr>ob_rc := ob_rc obj + (GC_INC_MORE - 1),
                                ob_immutable := True\<rparr>)) actor p True,
                           PONY_TRACE_MUTABLE)
                        else if ob_rc obj \<le> 1 then
                          let immutable = (mutability = PONY_TRACE_IMMUTABLE \<or> ob_immutable obj)
                          in (acquire_object type_of
                                (set_object ctx actor p (\<lambda>obj. obj\<lparr>ob_immutable := immutable,
                                   ob_rc := ob_rc obj + (GC_INC_MORE - 1)\<rparr>)) actor p immutable,
                              mutability)
                        else (set_object ctx actor p (\<lambda>obj. obj\<lparr>ob_rc := ob_rc obj - 1\<rparr>), mutability))
                 in if mutability = PONY_TRACE_OPAQUE then Inr ctx
                    else if mutability = PONY_TRACE_MUTABLE \<or> might_reference_actor t
                    then recurse_type ctx p t
                    else Inr ctx))"

text \<open>\<open>chunk_size\<close> is what \<^verbatim>\<open>ponyint_heap_size\<close> returns for the chunk of the object.\<close>

definition recv_remote_object ::
  "('f, 'h) pony_ctx_t \<Rightarrow> uint64_t \<Rightarrow> uint64_t \<Rightarrow> 'f pony_type_t option \<Rightarrow> trace_kind \<Rightarrow> uint64_t
   \<Rightarrow> ('f, 'h) pony_ctx_t res" where
  "recv_remote_object ctx actor p t mutability chunk_size =
     (let mk = gc_mark (ctx_gc ctx);
          ctx = touch_foreign ctx actor p t
      in case aref_obj (foreign ctx) actor p of
           None \<Rightarrow> Inl Null_deref
         | Some obj \<Rightarrow>
             if ob_mark obj = mk then Inr ctx
             else
               res_bind (recv_remote_actor ctx actor) (\<lambda>ctx.
                 let ctx = (if ob_rc obj = 0 then
                              let ctx = ponyint_heap_used ctx chunk_size
                              in if mutability = PONY_TRACE_IMMUTABLE \<and> \<not> might_reference_actor t
                                 then ponyint_heap_used ctx GC_IMMUT_HEAP_EQUIV else ctx
                            else ctx);
                     ctx = set_object ctx actor p (\<lambda>obj. obj\<lparr>ob_rc := ob_rc obj + 1, ob_mark := mk\<rparr>)
                 in if mutability = PONY_TRACE_OPAQUE then Inr ctx
                    else
                      let immutable = (mutability = PONY_TRACE_IMMUTABLE \<or> ob_immutable obj);
                          ctx = (if mutability = PONY_TRACE_IMMUTABLE
                                 then set_object ctx actor p (\<lambda>obj. obj\<lparr>ob_immutable := True\<rparr>) else ctx)
                      in if \<not> immutable \<or> might_reference_actor t then recurse_type ctx p t else Inr ctx))"

definition mark_remote_object ::
  "(uint64_t \<Rightarrow> 'f pony_type_t option) \<Rightarrow> ('f, 'h) pony_ctx_t \<Rightarrow> uint64_t \<Rightarrow> uint64_t
   \<Rightarrow> 'f pony_type_t option \<Rightarrow> trace_kind \<Rightarrow> uint64_t \<Rightarrow> ('f, 'h) pony_ctx_t res" where
  "mark_remote_object type_of ctx actor p t mutability chunk_size =
     (let mk = gc_mark (ctx_gc ctx);
          ctx = touch_foreign ctx actor p t
      in case aref_obj (foreign ctx) actor p of
           None \<Rightarrow> Inl Null_deref
         | Some obj \<Rightarrow>
             if ob_mark obj = mk then Inr ctx
             else
               let ctx = ponyint_heap_used ctx chunk_size;
                   ctx = (if mutability = PONY_TRACE_IMMUTABLE \<and> \<not> might_reference_actor t
                          then ponyint_heap_used ctx GC_IMMUT_HEAP_EQUIV else ctx)
               in res_bind (mark_remote_actor ctx actor) (\<lambda>ctx.
                 let ctx = set_object ctx actor p (\<lambda>obj. obj\<lparr>ob_mark := mk\<rparr>);
                     (ctx, mutability) =
                       (if mutability = PONY_TRACE_IMMUTABLE \<and> \<not> ob_immutable obj \<and> ob_rc obj > 0 then
                          (acquire_object type_of
                             (set_object ctx actor p (\<lambda>obj. obj\<lparr>ob_rc := ob_rc obj + GC_INC_MORE,
                                ob_immutable := True\<rparr>)) actor p True,
                           PONY_TRACE_MUTABLE)
                        else if ob_rc obj = 0 then
                          let immutable = (mutability = PONY_TRACE_IMMUTABLE \<or> ob_immutable obj)
                          in (acquire_object type_of
                                (set_object ctx actor p (\<lambda>obj. obj\<lparr>ob_immutable := immutable,
                                   ob_rc := ob_rc obj + GC_INC_MORE\<rparr>)) actor p immutable,
                              mutability)
                        else (ctx, mutability))
                 in if mutability = PONY_TRACE_OPAQUE then Inr ctx
                    else if mutability = PONY_TRACE_MUTABLE \<or> might_reference_actor t
                    then recurse_type ctx p t
                    else Inr ctx))"

definition acq_or_rel_remote_object ::
  "('f, 'h) pony_ctx_t \<Rightarrow> uint64_t \<Rightarrow> uint64_t \<Rightarrow> 'f pony_type_t option \<Rightarrow> trace_kind \<Rightarrow> ('f, 'h) pony_ctx_t res" where
  "acq_or_rel_remote_object ctx actor p t mutability =
     (let mk = gc_mark (ctx_gc ctx);
          ctx = ctx\<lparr>ctx_acquire :=
                  aref_obj_getorput (aref_getorput (ctx_acquire ctx) actor 0) actor p t mk\<rparr>
      in case aref_obj (ctx_acquire ctx) actor p of
           None \<Rightarrow> Inl Null_deref
         | Some obj \<Rightarrow>
             if ob_mark obj = mk then Inr ctx
             else
               let ctx = acq_or_rel_remote_actor ctx actor;
                   ctx = ctx\<lparr>ctx_acquire := aref_obj_modify (ctx_acquire ctx) actor p
                           (\<lambda>obj. obj\<lparr>ob_rc := ob_rc obj + 1, ob_mark := mk\<rparr>)\<rparr>
               in if mutability = PONY_TRACE_OPAQUE then Inr ctx
                  else
                    let immutable = (mutability = PONY_TRACE_IMMUTABLE \<or> ob_immutable obj);
                        ctx = (if mutability = PONY_TRACE_IMMUTABLE
                               then ctx\<lparr>ctx_acquire := aref_obj_modify (ctx_acquire ctx) actor p
                                      (\<lambda>obj. obj\<lparr>ob_immutable := True\<rparr>)\<rparr> else ctx)
                    in if \<not> immutable \<or> might_reference_actor t then recurse_type ctx p t else Inr ctx)"

section \<open>Entry points of tracing\<close>

text \<open>
  \<open>pagemap\<close> gives the owner and the chunk size of an address, and nothing for memory that is not Pony's
  (\<^verbatim>\<open>ponyint_pagemap_get\<close>).
\<close>

definition trace_unmanaged ::
  "('f, 'h) pony_ctx_t \<Rightarrow> uint64_t \<Rightarrow> 'f pony_type_t option \<Rightarrow> trace_kind \<Rightarrow> ('f, 'h) pony_ctx_t res" where
  "trace_unmanaged ctx p t mutability =
     (if mutability \<noteq> PONY_TRACE_OPAQUE then recurse_type ctx p t else Inr ctx)"

definition ponyint_gc_sendobject ::
  "(uint64_t \<Rightarrow> (uint64_t \<times> uint64_t) option) \<Rightarrow> (uint64_t \<Rightarrow> 'f pony_type_t option)
   \<Rightarrow> ('f, 'h) pony_ctx_t \<Rightarrow> uint64_t \<Rightarrow> 'f pony_type_t option \<Rightarrow> trace_kind \<Rightarrow> ('f, 'h) pony_ctx_t res" where
  "ponyint_gc_sendobject pagemap type_of ctx p t mutability =
     (case pagemap p of
        None \<Rightarrow> trace_unmanaged ctx p t mutability
      | Some (actor, chunk_size) \<Rightarrow>
          if actor = ctx_current ctx then send_local_object ctx p t mutability
          else send_remote_object type_of ctx actor p t mutability)"

definition ponyint_gc_recvobject ::
  "(uint64_t \<Rightarrow> (uint64_t \<times> uint64_t) option)
   \<Rightarrow> ('f, 'h) pony_ctx_t \<Rightarrow> uint64_t \<Rightarrow> 'f pony_type_t option \<Rightarrow> trace_kind \<Rightarrow> ('f, 'h) pony_ctx_t res" where
  "ponyint_gc_recvobject pagemap ctx p t mutability =
     (case pagemap p of
        None \<Rightarrow> trace_unmanaged ctx p t mutability
      | Some (actor, chunk_size) \<Rightarrow>
          if actor = ctx_current ctx then recv_local_object ctx p t mutability
          else recv_remote_object ctx actor p t mutability chunk_size)"

definition ponyint_gc_markobject ::
  "(uint64_t \<Rightarrow> (uint64_t \<times> uint64_t) option) \<Rightarrow> (uint64_t \<Rightarrow> 'f pony_type_t option)
   \<Rightarrow> ('h \<Rightarrow> uint64_t \<Rightarrow> bool \<times> 'h) \<Rightarrow> ('h \<Rightarrow> uint64_t \<Rightarrow> 'h)
   \<Rightarrow> ('f, 'h) pony_ctx_t \<Rightarrow> uint64_t \<Rightarrow> 'f pony_type_t option \<Rightarrow> trace_kind \<Rightarrow> ('f, 'h) pony_ctx_t res" where
  "ponyint_gc_markobject pagemap type_of heap_mark heap_mark_shallow ctx p t mutability =
     (case pagemap p of
        None \<Rightarrow> trace_unmanaged ctx p t mutability
      | Some (actor, chunk_size) \<Rightarrow>
          if actor = ctx_current ctx
          then mark_local_object heap_mark heap_mark_shallow ctx p t mutability
          else mark_remote_object type_of ctx actor p t mutability chunk_size)"

definition ponyint_gc_acquireobject ::
  "(uint64_t \<Rightarrow> (uint64_t \<times> uint64_t) option)
   \<Rightarrow> ('f, 'h) pony_ctx_t \<Rightarrow> uint64_t \<Rightarrow> 'f pony_type_t option \<Rightarrow> trace_kind \<Rightarrow> ('f, 'h) pony_ctx_t res" where
  "ponyint_gc_acquireobject pagemap ctx p t mutability =
     (case pagemap p of
        None \<Rightarrow> trace_unmanaged ctx p t mutability
      | Some (actor, chunk_size) \<Rightarrow>
          if actor = ctx_current ctx then acquire_local_object ctx p t mutability
          else acq_or_rel_remote_object ctx actor p t mutability)"

definition ponyint_gc_releaseobject ::
  "(uint64_t \<Rightarrow> (uint64_t \<times> uint64_t) option)
   \<Rightarrow> ('f, 'h) pony_ctx_t \<Rightarrow> uint64_t \<Rightarrow> 'f pony_type_t option \<Rightarrow> trace_kind \<Rightarrow> ('f, 'h) pony_ctx_t res" where
  "ponyint_gc_releaseobject pagemap ctx p t mutability =
     (case pagemap p of
        None \<Rightarrow> trace_unmanaged ctx p t mutability
      | Some (actor, chunk_size) \<Rightarrow>
          if actor = ctx_current ctx then release_local_object ctx p t mutability
          else acq_or_rel_remote_object ctx actor p t mutability)"

text \<open>Looking the actor up in the foreign map, adding an entry if there is none.\<close>

definition touch_actor :: "('f, 'h) pony_ctx_t \<Rightarrow> uint64_t \<Rightarrow> ('f, 'h) pony_ctx_t" where
  "touch_actor ctx actor = set_foreign ctx (aref_getorput (foreign ctx) actor (gc_mark (ctx_gc ctx)))"

definition ponyint_gc_sendactor :: "('f, 'h) pony_ctx_t \<Rightarrow> uint64_t \<Rightarrow> ('f, 'h) pony_ctx_t res" where
  "ponyint_gc_sendactor ctx actor =
     (if actor = ctx_current ctx then Inr (set_gc ctx (send_local_actor (ctx_gc ctx)))
      else send_remote_actor (touch_actor ctx actor) actor)"

definition ponyint_gc_recvactor :: "('f, 'h) pony_ctx_t \<Rightarrow> uint64_t \<Rightarrow> ('f, 'h) pony_ctx_t res" where
  "ponyint_gc_recvactor ctx actor =
     (if actor = ctx_current ctx
      then res_bind (recv_local_actor (ctx_gc ctx)) (\<lambda>gc. Inr (set_gc ctx gc))
      else recv_remote_actor (touch_actor ctx actor) actor)"

definition ponyint_gc_markactor :: "('f, 'h) pony_ctx_t \<Rightarrow> uint64_t \<Rightarrow> ('f, 'h) pony_ctx_t res" where
  "ponyint_gc_markactor ctx actor =
     (if actor = ctx_current ctx then Inr ctx
      else mark_remote_actor (touch_actor ctx actor) actor)"

definition ponyint_gc_acquireactor :: "('f, 'h) pony_ctx_t \<Rightarrow> uint64_t \<Rightarrow> ('f, 'h) pony_ctx_t" where
  "ponyint_gc_acquireactor ctx actor =
     (if actor = ctx_current ctx then set_gc ctx (acquire_local_actor (ctx_gc ctx))
      else acq_or_rel_remote_actor ctx actor)"

definition ponyint_gc_releaseactor :: "('f, 'h) pony_ctx_t \<Rightarrow> uint64_t \<Rightarrow> ('f, 'h) pony_ctx_t res" where
  "ponyint_gc_releaseactor ctx actor =
     (if actor = ctx_current ctx
      then res_bind (release_local_actor (ctx_gc ctx)) (\<lambda>gc. Inr (set_gc ctx gc))
      else Inr (acq_or_rel_remote_actor ctx actor))"

definition ponyint_gc_createactor :: "('f, 'h) pony_ctx_t \<Rightarrow> uint64_t \<Rightarrow> ('f, 'h) pony_ctx_t" where
  "ponyint_gc_createactor ctx actor =
     (let ctx = touch_actor ctx actor;
          ctx = set_foreign ctx (aref_modify (foreign ctx) actor (\<lambda>r. r\<lparr>ar_rc := GC_INC_MORE\<rparr>));
          ctx = update_delta ctx actor GC_INC_MORE
      in ponyint_heap_used ctx GC_ACTOR_HEAP_EQUIV)"

section \<open>Draining the trace stack\<close>

text \<open>
  The trace functions are generated by the compiler; \<open>run\<close> calls one.  A trace may push more work, so
  the loop has fuel.
\<close>

fun ponyint_gc_handlestack ::
  "nat \<Rightarrow> ('f \<Rightarrow> ('f, 'h) pony_ctx_t \<Rightarrow> uint64_t \<Rightarrow> ('f, 'h) pony_ctx_t res)
   \<Rightarrow> ('f, 'h) pony_ctx_t \<Rightarrow> ('f, 'h) pony_ctx_t res" where
  "ponyint_gc_handlestack 0 run ctx = Inl Out_of_fuel"
| "ponyint_gc_handlestack (Suc n) run ctx =
     (if ctx_stack ctx = [] then Inr ctx
      else
        res_bind (ponyint_stack_pop (ctx_stack ctx)) (\<lambda>(s1, f).
          res_bind (ponyint_stack_pop s1) (\<lambda>(s2, p).
            case (f, p) of
              (Fn g, Ptr a) \<Rightarrow>
                res_bind (run g (ctx\<lparr>ctx_stack := s2\<rparr>) a) (ponyint_gc_handlestack n run)
            | _ \<Rightarrow> Inl Null_deref)))"

fun ponyint_gc_discardstack :: "nat \<Rightarrow> ('f, 'h) pony_ctx_t \<Rightarrow> ('f, 'h) pony_ctx_t res" where
  "ponyint_gc_discardstack 0 ctx = Inl Out_of_fuel"
| "ponyint_gc_discardstack (Suc n) ctx =
     (if ctx_stack ctx = [] then Inr ctx
      else
        res_bind (ponyint_stack_pop (ctx_stack ctx)) (\<lambda>(s1, f).
          res_bind (ponyint_stack_pop s1) (\<lambda>(s2, p).
            ponyint_gc_discardstack n (ctx\<lparr>ctx_stack := s2\<rparr>))))"

section \<open>Collection\<close>

fun markimmutable_loop ::
  "('h \<Rightarrow> uint64_t \<Rightarrow> bool \<times> 'h) \<Rightarrow> ('h \<Rightarrow> uint64_t \<Rightarrow> 'h)
   \<Rightarrow> 'f objs \<Rightarrow> ('f, 'h) pony_ctx_t \<Rightarrow> ('f, 'h) pony_ctx_t res" where
  "markimmutable_loop heap_mark heap_mark_shallow [] ctx = Inr ctx"
| "markimmutable_loop heap_mark heap_mark_shallow (obj # rest) ctx =
     (if ob_immutable obj \<and> ob_rc obj > 0 \<and> \<not> might_reference_actor (ob_type obj) then
        res_bind (mark_local_object heap_mark heap_mark_shallow ctx (ob_address obj) (ob_type obj)
                    PONY_TRACE_IMMUTABLE)
          (markimmutable_loop heap_mark heap_mark_shallow rest)
      else markimmutable_loop heap_mark heap_mark_shallow rest ctx)"

definition ponyint_gc_markimmutable ::
  "('h \<Rightarrow> uint64_t \<Rightarrow> bool \<times> 'h) \<Rightarrow> ('h \<Rightarrow> uint64_t \<Rightarrow> 'h)
   \<Rightarrow> ('f, 'h) pony_ctx_t \<Rightarrow> ('f, 'h) pony_ctx_t res" where
  "ponyint_gc_markimmutable heap_mark heap_mark_shallow ctx =
     markimmutable_loop heap_mark heap_mark_shallow (gc_local (ctx_gc ctx)) ctx"

text \<open>
  The sweeps clear elements while they iterate and repair the table afterwards; on the list of
  elements this is a pass that keeps some of them.
\<close>

fun ponyint_objectmap_sweep :: "('h \<Rightarrow> uint64_t \<Rightarrow> 'h) \<Rightarrow> 'f objs \<Rightarrow> 'h \<Rightarrow> 'f objs \<times> 'h" where
  "ponyint_objectmap_sweep heap_mark_shallow [] h = ([], h)"
| "ponyint_objectmap_sweep heap_mark_shallow (obj # rest) h =
     (if ob_rc obj > 0 then
        let (rest', h') = ponyint_objectmap_sweep heap_mark_shallow rest (heap_mark_shallow h (ob_address obj))
        in (obj # rest', h')
      else ponyint_objectmap_sweep heap_mark_shallow rest h)"

text \<open>The entry that stays, and the one to be released if objects were moved.\<close>

definition move_unmarked_objects :: "'f aref \<Rightarrow> uint32_t \<Rightarrow> 'f aref \<times> 'f aref option" where
  "move_unmarked_objects from mk =
     (if ar_map from = [] then (from, None)
      else
        let moved = filter (\<lambda>obj. ob_mark obj \<noteq> mk) (ar_map from)
        in if moved = [] then (from, None)
           else (from\<lparr>ar_map := filter (\<lambda>obj. ob_mark obj = mk) (ar_map from)\<rparr>,
                 Some (actorref_alloc moved (ar_actor from) mk)))"

text \<open>\<open>pendingdestroy\<close> is the flag of the target actor read by \<^verbatim>\<open>ponyint_actor_pendingdestroy\<close>.\<close>

definition send_release ::
  "(uint64_t \<Rightarrow> bool) \<Rightarrow> ('f, 'h) pony_ctx_t \<Rightarrow> 'f aref option \<Rightarrow> ('f, 'h) pony_ctx_t" where
  "send_release pendingdestroy ctx aref =
     (case aref of
        None \<Rightarrow> ctx
      | Some r \<Rightarrow>
          if pendingdestroy (ar_actor r) \<or> ar_rc r = 0 \<and> ar_map r = [] then ctx
          else ctx\<lparr>ctx_sent := ctx_sent ctx @ [(ar_actor r, ACTORMSG_RELEASE, r)]\<rparr>)"

fun actormap_sweep_loop ::
  "(uint64_t \<Rightarrow> bool) \<Rightarrow> uint32_t \<Rightarrow> bool \<Rightarrow> 'f aref list \<Rightarrow> delta_t list option \<Rightarrow> ('f, 'h) pony_ctx_t
   \<Rightarrow> 'f aref list \<times> delta_t list option \<times> ('f, 'h) pony_ctx_t" where
  "actormap_sweep_loop pendingdestroy mk noblock [] delta ctx = ([], delta, ctx)"
| "actormap_sweep_loop pendingdestroy mk noblock (aref # rest) delta ctx =
     (if ar_mark aref = mk then
        let (kept, release) = move_unmarked_objects aref mk;
            (rest', delta', ctx') =
              actormap_sweep_loop pendingdestroy mk noblock rest delta (send_release pendingdestroy ctx release)
        in (kept # rest', delta', ctx')
      else
        let delta = (if \<not> noblock then Some (deltas_update delta (ar_actor aref) 0) else delta)
        in actormap_sweep_loop pendingdestroy mk noblock rest delta
             (send_release pendingdestroy ctx (Some aref)))"

definition ponyint_actormap_sweep ::
  "(uint64_t \<Rightarrow> bool) \<Rightarrow> ('f, 'h) pony_ctx_t \<Rightarrow> ('f, 'h) pony_ctx_t" where
  "ponyint_actormap_sweep pendingdestroy ctx =
     (let gc = ctx_gc ctx;
          (foreign', delta', ctx') =
            actormap_sweep_loop pendingdestroy (gc_mark gc) (ctx_noblock ctx) (gc_foreign gc) (gc_delta gc) ctx
      in ctx'\<lparr>ctx_gc := (ctx_gc ctx')\<lparr>gc_foreign := foreign', gc_delta := delta'\<rparr>\<rparr>)"

definition ponyint_gc_sweep ::
  "(uint64_t \<Rightarrow> bool) \<Rightarrow> ('h \<Rightarrow> uint64_t \<Rightarrow> 'h) \<Rightarrow> ('f, 'h) pony_ctx_t \<Rightarrow> ('f, 'h) pony_ctx_t" where
  "ponyint_gc_sweep pendingdestroy heap_mark_shallow ctx =
     (let (objs, h) = ponyint_objectmap_sweep heap_mark_shallow (gc_local (ctx_gc ctx)) (ctx_heap ctx)
      in ponyint_actormap_sweep pendingdestroy
           (ctx\<lparr>ctx_heap := h, ctx_gc := (ctx_gc ctx)\<lparr>gc_local := objs\<rparr>\<rparr>))"

section \<open>Acquire and release messages\<close>

definition acquire_step :: "uint32_t \<Rightarrow> 'f objs \<Rightarrow> 'f object_t \<Rightarrow> 'f objs" where
  "acquire_step mk loc obj =
     obj_modify (obj_getorput loc (ob_address obj) (ob_type obj) mk) (ob_address obj)
       (\<lambda>l. l\<lparr>ob_rc := ob_rc l + ob_rc obj, ob_immutable := ob_immutable obj \<or> ob_immutable l\<rparr>)"

definition ponyint_gc_acquire :: "'f gc_t \<Rightarrow> 'f aref \<Rightarrow> bool \<times> 'f gc_t" where
  "ponyint_gc_acquire gc aref =
     (ar_rc aref > 0,
      gc\<lparr>gc_rc := gc_rc gc + ar_rc aref,
         gc_local := foldl (acquire_step (gc_mark gc)) (gc_local gc) (ar_map aref)\<rparr>)"

fun release_loop :: "'f objs \<Rightarrow> 'f objs \<Rightarrow> 'f objs res" where
  "release_loop [] loc = Inr loc"
| "release_loop (obj # rest) loc =
     (case obj_get loc (ob_address obj) of
        None \<Rightarrow> Inl Null_deref
      | Some l \<Rightarrow>
          pony_assert (ob_rc l \<ge> ob_rc obj)
            (release_loop rest (obj_modify loc (ob_address obj) (\<lambda>l. l\<lparr>ob_rc := ob_rc l - ob_rc obj\<rparr>))))"

definition ponyint_gc_release :: "'f gc_t \<Rightarrow> 'f aref \<Rightarrow> (bool \<times> 'f gc_t) res" where
  "ponyint_gc_release gc aref =
     pony_assert (gc_rc gc \<ge> ar_rc aref)
       (res_bind (release_loop (ar_map aref) (gc_local gc)) (\<lambda>loc.
          Inr (ar_rc aref > 0, gc\<lparr>gc_rc := gc_rc gc - ar_rc aref, gc_local := loc\<rparr>)))"

definition ponyint_gc_rc :: "'f gc_t \<Rightarrow> uint64_t" where
  "ponyint_gc_rc gc = gc_rc gc"

definition ponyint_gc_delta :: "'f gc_t \<Rightarrow> delta_t list option \<times> 'f gc_t" where
  "ponyint_gc_delta gc = (gc_delta gc, gc\<lparr>gc_delta := None\<rparr>)"

text \<open>Both sends empty the pending map, one message for each entry.\<close>

fun drain_acquire :: "msg_id \<Rightarrow> 'f aref list \<Rightarrow> ('f, 'h) pony_ctx_t \<Rightarrow> ('f, 'h) pony_ctx_t" where
  "drain_acquire msg [] ctx = ctx\<lparr>ctx_acquire := []\<rparr>"
| "drain_acquire msg (aref # rest) ctx =
     drain_acquire msg rest
       (ctx\<lparr>ctx_acquire := rest, ctx_sent := ctx_sent ctx @ [(ar_actor aref, msg, aref)]\<rparr>)"

definition ponyint_gc_sendacquire :: "('f, 'h) pony_ctx_t \<Rightarrow> ('f, 'h) pony_ctx_t res" where
  "ponyint_gc_sendacquire ctx =
     (let ctx' = drain_acquire ACTORMSG_ACQUIRE (ctx_acquire ctx) ctx
      in pony_assert (length (ctx_acquire ctx') = 0) (Inr ctx'))"

definition ponyint_gc_sendrelease :: "(uint64_t \<Rightarrow> bool) \<Rightarrow> ('f, 'h) pony_ctx_t \<Rightarrow> ('f, 'h) pony_ctx_t" where
  "ponyint_gc_sendrelease pendingdestroy ctx = ponyint_actormap_sweep pendingdestroy ctx"

definition ponyint_gc_sendrelease_manual :: "('f, 'h) pony_ctx_t \<Rightarrow> ('f, 'h) pony_ctx_t res" where
  "ponyint_gc_sendrelease_manual ctx =
     (let ctx' = drain_acquire ACTORMSG_RELEASE (ctx_acquire ctx) ctx
      in pony_assert (length (ctx_acquire ctx') = 0) (Inr ctx'))"

definition ponyint_gc_done :: "'f gc_t \<Rightarrow> 'f gc_t" where
  "ponyint_gc_done gc = gc\<lparr>gc_mark := gc_mark gc + 1\<rparr>"

definition ponyint_gc_destroy :: "'f gc_t \<Rightarrow> 'f gc_t" where
  "ponyint_gc_destroy gc = gc\<lparr>gc_local := [], gc_foreign := [], gc_delta := None\<rparr>"

end
