(* ===== verification/Gc_Account.thy ===== *)
theory Gc_Account
  imports Gc
begin

text \<open>
  The accounts of the reference counting: what each handler of \<^verbatim>\<open>gc.c\<close> does to the references an
  actor claims, to the acquires it still has to report and to the counts of the owner.  The handlers
  are described by what they do to the view of one actor and to the balance of one object; acquire and
  release messages and the sweep by the counts they carry.
\<close>

section \<open>Reading the maps after an update\<close>

lemma aref_get_modify [simp]:
  "(\<And>r. ar_actor (f r) = ar_actor r) \<Longrightarrow>
     aref_get (aref_modify m a f) b = (if b = a then map_option f (aref_get m a) else aref_get m b)"
  by (simp add: aref_get_def aref_modify_def elems_get_modify)

lemma aref_get_getorput [simp]:
  "aref_get (aref_getorput m a mk) b =
    (if b = a \<and> aref_get m a = None then Some (actorref_alloc [] a mk) else aref_get m b)"
  by (auto simp: aref_get_def aref_getorput_def elems_get_getorput)

lemma obj_get_modify [simp]:
  "(\<And>r. ob_address (f r) = ob_address r) \<Longrightarrow>
     obj_get (obj_modify m a f) b = (if b = a then map_option f (obj_get m a) else obj_get m b)"
  by (simp add: obj_get_def obj_modify_def elems_get_modify)

lemma obj_get_getorput [simp]:
  "obj_get (obj_getorput m a t mk) b =
    (if b = a \<and> obj_get m a = None then Some (object_alloc a t mk) else obj_get m b)"
  by (auto simp: obj_get_def obj_getorput_def elems_get_getorput)

lemma alloc_fields [simp]:
  "ar_rc (actorref_alloc e a mk) = 0" "ar_mark (actorref_alloc e a mk) = mk - 1"
  "ar_map (actorref_alloc e a mk) = e"
  "ob_rc (object_alloc p t mk) = 0" "ob_mark (object_alloc p t mk) = mk - 1"
  "\<not> ob_immutable (object_alloc p t mk)"
  by (simp_all add: actorref_alloc_def object_alloc_def)

lemma mark_pred_ne [simp]: "mk - 1 \<noteq> (mk :: uint32_t)"
  by simp

lemma aref_get_obj_ops [simp]:
  "aref_get (aref_obj_modify m a p f) b =
     (if b = a then map_option (\<lambda>r. r\<lparr>ar_map := obj_modify (ar_map r) p f\<rparr>) (aref_get m a) else aref_get m b)"
  "aref_get (aref_obj_getorput m a p t mk) b =
     (if b = a then map_option (\<lambda>r. r\<lparr>ar_map := obj_getorput (ar_map r) p t mk\<rparr>) (aref_get m a)
      else aref_get m b)"
  by (simp_all add: aref_obj_modify_def aref_obj_getorput_def)

lemma obj_get_Nil [simp]: "obj_get [] p = None"
  by (simp add: obj_get_def elems_get_def)

lemma aref_obj_ops [simp]:
  "(\<And>x. ob_address (f x) = ob_address x) \<Longrightarrow>
     aref_obj (aref_obj_modify m a p f) b q =
       (if b = a \<and> q = p then map_option f (aref_obj m a p) else aref_obj m b q)"
  "aref_get m a \<noteq> None \<Longrightarrow> aref_obj (aref_obj_getorput m a p t mk) b q =
     (if b = a \<and> q = p \<and> aref_obj m a p = None then Some (object_alloc p t mk) else aref_obj m b q)"
  "(\<And>r. ar_actor (g r) = ar_actor r) \<Longrightarrow> (\<And>r. ar_map (g r) = ar_map r) \<Longrightarrow>
     aref_obj (aref_modify m a g) b q = aref_obj m b q"
  "aref_obj (aref_getorput m a mk) b q = aref_obj m b q"
  by (auto simp: aref_obj_def split: option.splits)

lemma getorput_not_None [simp]: "aref_get (aref_getorput m a mk) a \<noteq> None"
  by simp

section \<open>Accounts\<close>

text \<open>
  The references to an actor, or to one of its objects, that an entry of a map stands for, and the
  balance of a context: what its foreign map claims less what its pending acquires still have to
  report to the owner.
\<close>

definition rc_of :: "'f aref list \<Rightarrow> uint64_t \<Rightarrow> uint64_t" where
  "rc_of m a = (case aref_get m a of None \<Rightarrow> 0 | Some r \<Rightarrow> ar_rc r)"

definition orc_of :: "'f aref list \<Rightarrow> uint64_t \<Rightarrow> uint64_t \<Rightarrow> uint64_t" where
  "orc_of m a p = (case aref_obj m a p of None \<Rightarrow> 0 | Some obj \<Rightarrow> ob_rc obj)"

definition actor_balance :: "('f, 'h) pony_ctx_t \<Rightarrow> uint64_t \<Rightarrow> uint64_t" where
  "actor_balance ctx a = rc_of (foreign ctx) a - rc_of (ctx_acquire ctx) a"

definition object_balance :: "('f, 'h) pony_ctx_t \<Rightarrow> uint64_t \<Rightarrow> uint64_t \<Rightarrow> uint64_t" where
  "object_balance ctx a p = orc_of (foreign ctx) a p - orc_of (ctx_acquire ctx) a p"

definition actor_marked :: "('f, 'h) pony_ctx_t \<Rightarrow> uint64_t \<Rightarrow> bool" where
  "actor_marked ctx a \<longleftrightarrow> map_option ar_mark (aref_get (foreign ctx) a) = Some (gc_mark (ctx_gc ctx))"

definition object_marked :: "('f, 'h) pony_ctx_t \<Rightarrow> uint64_t \<Rightarrow> uint64_t \<Rightarrow> bool" where
  "object_marked ctx a p \<longleftrightarrow> map_option ob_mark (aref_obj (foreign ctx) a p) = Some (gc_mark (ctx_gc ctx))"

definition actor_view :: "('f, 'h) pony_ctx_t \<Rightarrow> uint64_t \<Rightarrow> bool \<times> uint64_t \<times> uint64_t" where
  "actor_view ctx a = (actor_marked ctx a, rc_of (foreign ctx) a, rc_of (ctx_acquire ctx) a)"

text \<open>What a handler may not touch when it counts a foreign actor.\<close>

definition same_frame :: "('f, 'h) pony_ctx_t \<Rightarrow> ('f, 'h) pony_ctx_t \<Rightarrow> bool" where
  "same_frame c d \<longleftrightarrow> ctx_current d = ctx_current c \<and> ctx_heap d = ctx_heap c \<and> ctx_stack d = ctx_stack c \<and> ctx_trace d = ctx_trace c
     \<and> ctx_sent d = ctx_sent c \<and> ctx_noblock d = ctx_noblock c
     \<and> gc_mark (ctx_gc d) = gc_mark (ctx_gc c) \<and> gc_rc_mark (ctx_gc d) = gc_rc_mark (ctx_gc c)
     \<and> gc_rc (ctx_gc d) = gc_rc (ctx_gc c) \<and> gc_local (ctx_gc d) = gc_local (ctx_gc c)"

fun send_view :: "bool \<times> uint64_t \<times> uint64_t \<Rightarrow> bool \<times> uint64_t \<times> uint64_t" where
  "send_view (marked, rc, acq) =
     (if marked then (marked, rc, acq)
      else if rc \<le> 1 then (True, rc + (GC_INC_MORE - 1), acq + GC_INC_MORE)
      else (True, rc - 1, acq))"

fun recv_view :: "bool \<times> uint64_t \<times> uint64_t \<Rightarrow> bool \<times> uint64_t \<times> uint64_t" where
  "recv_view (marked, rc, acq) = (if marked then (marked, rc, acq) else (True, rc + 1, acq))"

fun mark_view :: "bool \<times> uint64_t \<times> uint64_t \<Rightarrow> bool \<times> uint64_t \<times> uint64_t" where
  "mark_view (marked, rc, acq) =
     (if marked then (marked, rc, acq)
      else if rc = 0 then (True, GC_INC_MORE, acq + GC_INC_MORE)
      else (True, rc, acq))"

text \<open>The accounts after each of these updates.\<close>

lemma rc_of_ops [simp]:
  "rc_of (aref_obj_modify m a p f) b = rc_of m b"
  "rc_of (aref_obj_getorput m a p t mk) b = rc_of m b"
  "rc_of (aref_getorput m a mk) b = rc_of m b"
  by (auto simp: rc_of_def split: option.splits)

lemma orc_of_ops [simp]:
  "(\<And>x. ob_address (f x) = ob_address x) \<Longrightarrow> orc_of (aref_obj_modify m a p f) b q =
     (if b = a \<and> q = p then (case aref_obj m a p of None \<Rightarrow> 0 | Some obj \<Rightarrow> ob_rc (f obj)) else orc_of m b q)"
  "aref_get m a \<noteq> None \<Longrightarrow> orc_of (aref_obj_getorput m a p t mk) b q = orc_of m b q"
  "(\<And>r. ar_actor (g r) = ar_actor r) \<Longrightarrow> (\<And>r. ar_map (g r) = ar_map r) \<Longrightarrow>
     orc_of (aref_modify m a g) b q = orc_of m b q"
  "orc_of (aref_getorput m a mk) b q = orc_of m b q"
  by (auto simp: orc_of_def split: option.splits)

lemma foreign_ops [simp]:
  "foreign (set_foreign ctx m) = m"
  "foreign (acquire_actor ctx a) = foreign ctx"
  "foreign (acquire_object ty ctx a p im) = foreign ctx"
  "foreign (update_delta ctx a rc) = foreign ctx"
  "foreign (ponyint_heap_used ctx n) = foreign ctx"
  "foreign (recurse ctx p f) = foreign ctx"
  by (simp_all add: foreign_def set_foreign_def acquire_actor_def acquire_object_def update_delta_def
      ponyint_heap_used_def recurse_def Let_def split: option.splits)

lemma ctx_acquire_ops [simp]:
  "ctx_acquire (set_foreign ctx m) = ctx_acquire ctx"
  "ctx_acquire (update_delta ctx a rc) = ctx_acquire ctx"
  "ctx_acquire (ponyint_heap_used ctx n) = ctx_acquire ctx"
  "ctx_acquire (recurse ctx p f) = ctx_acquire ctx"
  by (simp_all add: set_foreign_def update_delta_def ponyint_heap_used_def recurse_def split: option.splits)

lemma gc_mark_ops [simp]:
  "gc_mark (ctx_gc (set_foreign ctx m)) = gc_mark (ctx_gc ctx)"
  "gc_mark (ctx_gc (acquire_actor ctx a)) = gc_mark (ctx_gc ctx)"
  "gc_mark (ctx_gc (acquire_object ty ctx a p im)) = gc_mark (ctx_gc ctx)"
  "gc_mark (ctx_gc (update_delta ctx a rc)) = gc_mark (ctx_gc ctx)"
  "gc_mark (ctx_gc (ponyint_heap_used ctx n)) = gc_mark (ctx_gc ctx)"
  "gc_mark (ctx_gc (recurse ctx p f)) = gc_mark (ctx_gc ctx)"
  by (simp_all add: set_foreign_def acquire_actor_def acquire_object_def update_delta_def
      ponyint_heap_used_def recurse_def Let_def split: option.splits)

lemma pending_account [simp]:
  "rc_of (ctx_acquire (acquire_object ty ctx a p im)) b = rc_of (ctx_acquire ctx) b"
  "orc_of (ctx_acquire (acquire_object ty ctx a p im)) b q =
     orc_of (ctx_acquire ctx) b q + (if b = a \<and> q = p then GC_INC_MORE else 0)"
  "orc_of (ctx_acquire (acquire_actor ctx a)) b q = orc_of (ctx_acquire ctx) b q"
  by (auto simp: acquire_object_def acquire_actor_def Let_def orc_of_def split: option.splits)

lemma acquire_actor_account [simp]:
  "rc_of (ctx_acquire (acquire_actor ctx a)) b =
     rc_of (ctx_acquire ctx) b + (if b = a then GC_INC_MORE else 0)"
  by (auto simp: acquire_actor_def rc_of_def split: option.splits)

lemma same_frame_refl [simp]: "same_frame ctx ctx"
  by (simp add: same_frame_def)

lemma same_frame_ops [simp]:
  "same_frame ctx (set_foreign d m) = same_frame ctx d"
  "same_frame ctx (acquire_actor d a) = same_frame ctx d"
  "same_frame ctx (acquire_object ty d a p im) = same_frame ctx d"
  "same_frame ctx (update_delta d a rc) = same_frame ctx d"
  "same_frame ctx (ponyint_heap_used d n) = same_frame ctx d"
  by (simp_all add: same_frame_def set_foreign_def acquire_actor_def acquire_object_def update_delta_def
      ponyint_heap_used_def Let_def)

text \<open>Counting an actor leaves every object account alone.\<close>

definition same_objects :: "('f, 'h) pony_ctx_t \<Rightarrow> ('f, 'h) pony_ctx_t \<Rightarrow> bool" where
  "same_objects c d \<longleftrightarrow> aref_obj (foreign d) = aref_obj (foreign c)
     \<and> orc_of (ctx_acquire d) = orc_of (ctx_acquire c)
     \<and> (\<forall>b. aref_get (foreign d) b = None \<longleftrightarrow> aref_get (foreign c) b = None)"

text \<open>
  What every context keeps: the keys of both maps are distinct and no mark is ahead of the mark of the
  round, which is never zero (\<^verbatim>\<open>pony_create\<close> starts it at one).
\<close>

definition refs_ok :: "uint32_t \<Rightarrow> 'f aref list \<Rightarrow> bool" where
  "refs_ok mk m \<longleftrightarrow> distinct (map ar_actor m) \<and> (\<forall>r \<in> set m. ar_mark r \<le> mk)"

definition ctx_ok :: "('f, 'h) pony_ctx_t \<Rightarrow> bool" where
  "ctx_ok ctx \<longleftrightarrow> refs_ok (gc_mark (ctx_gc ctx)) (foreign ctx) \<and> distinct (map ar_actor (ctx_acquire ctx))
     \<and> 1 \<le> gc_mark (ctx_gc ctx) \<and> gc_rc_mark (ctx_gc ctx) \<le> gc_mark (ctx_gc ctx)"

lemma aref_distinct_ops [simp]:
  "(\<And>r. ar_actor (f r) = ar_actor r) \<Longrightarrow> map ar_actor (aref_modify m a f) = map ar_actor m"
  "distinct (map ar_actor m) \<Longrightarrow> distinct (map ar_actor (aref_getorput m a mk))"
  by (simp_all add: aref_modify_def elems_keys_modify aref_getorput_def elems_distinct_getorput)

lemma word_pred_le: "1 \<le> (x :: uint32_t) \<Longrightarrow> x - 1 \<le> x"
  by (simp add: word_le_nat_alt unat_sub_if')

lemma refs_ok_ops [simp]:
  "refs_ok mk m \<Longrightarrow> 1 \<le> mk \<Longrightarrow> refs_ok mk (aref_getorput m a mk)"
  "refs_ok mk m \<Longrightarrow> (\<And>r. ar_actor (f r) = ar_actor r) \<Longrightarrow> (\<And>r. ar_mark r \<le> mk \<Longrightarrow> ar_mark (f r) \<le> mk) \<Longrightarrow>
     refs_ok mk (aref_modify m a f)"
  by (auto simp: refs_ok_def aref_getorput_def elems_getorput_def elems_get_None_iff word_pred_le
      aref_modify_def elems_modify_def comp_def if_distrib cong: if_cong)

lemma ctx_ok_foreign [simp]: "ctx_ok ctx \<Longrightarrow> refs_ok (gc_mark (ctx_gc ctx)) (foreign ctx)"
  "ctx_ok ctx \<Longrightarrow> 1 \<le> gc_mark (ctx_gc ctx)"
  by (simp_all add: ctx_ok_def)

lemma ctx_ok_ops [simp]:
  "ctx_ok (update_delta ctx a rc) = ctx_ok ctx"
  "ctx_ok (ponyint_heap_used ctx n) = ctx_ok ctx"
  "ctx_ok ctx \<Longrightarrow> ctx_ok (acquire_actor ctx a)"
  "ctx_ok ctx \<Longrightarrow> refs_ok (gc_mark (ctx_gc ctx)) m \<Longrightarrow> ctx_ok (set_foreign ctx m)"
  by (simp_all add: ctx_ok_def foreign_def update_delta_def ponyint_heap_used_def acquire_actor_def set_foreign_def)

lemma send_remote_actor_view:
  assumes "aref_get (foreign ctx) a \<noteq> None"
  shows "\<exists>ctx'. send_remote_actor ctx a = Inr ctx' \<and> same_frame ctx ctx' \<and> same_objects ctx ctx' \<and>
    actor_view ctx' = (actor_view ctx)(a := send_view (actor_view ctx a)) \<and> (ctx_ok ctx \<longrightarrow> ctx_ok ctx')"
  using assms
  by (auto simp: send_remote_actor_def Let_def fun_eq_iff actor_view_def actor_marked_def rc_of_def [of "foreign ctx"]
      rc_of_def [of "aref_modify _ _ _"] same_objects_def)

lemma recv_remote_actor_view:
  assumes "aref_get (foreign ctx) a \<noteq> None"
  shows "\<exists>ctx'. recv_remote_actor ctx a = Inr ctx' \<and> same_frame ctx ctx' \<and> same_objects ctx ctx' \<and>
    actor_view ctx' = (actor_view ctx)(a := recv_view (actor_view ctx a)) \<and> (ctx_ok ctx \<longrightarrow> ctx_ok ctx')"
  using assms
  by (auto simp: recv_remote_actor_def Let_def fun_eq_iff actor_view_def actor_marked_def rc_of_def [of "foreign ctx"]
      rc_of_def [of "aref_modify _ _ _"] same_objects_def)

lemma mark_remote_actor_view:
  assumes "aref_get (foreign ctx) a \<noteq> None"
  shows "\<exists>ctx'. mark_remote_actor ctx a = Inr ctx' \<and> same_frame ctx ctx' \<and> same_objects ctx ctx' \<and>
    actor_view ctx' = (actor_view ctx)(a := mark_view (actor_view ctx a)) \<and> (ctx_ok ctx \<longrightarrow> ctx_ok ctx')"
  using assms
  by (auto simp: mark_remote_actor_def Let_def fun_eq_iff actor_view_def actor_marked_def rc_of_def [of "foreign ctx"]
      rc_of_def [of "aref_modify _ _ _"] same_objects_def)

text \<open>The entry points: the entry of the actor is made first if there is none.\<close>

lemma touch_actor_view [simp]:
  "actor_view (touch_actor ctx a) = actor_view ctx" "same_frame ctx (touch_actor ctx a)"
  "ctx_ok ctx \<Longrightarrow> ctx_ok (touch_actor ctx a)"
  by (auto simp: touch_actor_def actor_view_def actor_marked_def fun_eq_iff)

lemma touch_actor_entry: "aref_get (foreign (touch_actor ctx a)) a \<noteq> None"
  by (auto simp: touch_actor_def)

lemma same_frame_trans: "same_frame c d \<Longrightarrow> same_frame d e \<Longrightarrow> same_frame c e"
  by (simp add: same_frame_def)

lemma sendactor_view:
  assumes "a \<noteq> ctx_current ctx"
  shows "\<exists>ctx'. ponyint_gc_sendactor ctx a = Inr ctx' \<and> same_frame ctx ctx' \<and>
    actor_view ctx' = (actor_view ctx)(a := send_view (actor_view ctx a)) \<and> (ctx_ok ctx \<longrightarrow> ctx_ok ctx')"
proof -
  from send_remote_actor_view [OF touch_actor_entry [of ctx a]] show ?thesis
    using assms by (auto simp: ponyint_gc_sendactor_def intro: same_frame_trans [OF touch_actor_view(2)])
qed

lemma recvactor_view:
  assumes "a \<noteq> ctx_current ctx"
  shows "\<exists>ctx'. ponyint_gc_recvactor ctx a = Inr ctx' \<and> same_frame ctx ctx' \<and>
    actor_view ctx' = (actor_view ctx)(a := recv_view (actor_view ctx a)) \<and> (ctx_ok ctx \<longrightarrow> ctx_ok ctx')"
proof -
  from recv_remote_actor_view [OF touch_actor_entry [of ctx a]] show ?thesis
    using assms by (auto simp: ponyint_gc_recvactor_def intro: same_frame_trans [OF touch_actor_view(2)])
qed

lemma markactor_view:
  assumes "a \<noteq> ctx_current ctx"
  shows "\<exists>ctx'. ponyint_gc_markactor ctx a = Inr ctx' \<and> same_frame ctx ctx' \<and>
    actor_view ctx' = (actor_view ctx)(a := mark_view (actor_view ctx a)) \<and> (ctx_ok ctx \<longrightarrow> ctx_ok ctx')"
proof -
  from mark_remote_actor_view [OF touch_actor_entry [of ctx a]] show ?thesis
    using assms by (auto simp: ponyint_gc_markactor_def intro: same_frame_trans [OF touch_actor_view(2)])
qed

section \<open>Foreign objects\<close>

lemma touch_foreign_account [simp]:
  "actor_view (touch_foreign ctx a p t) = actor_view ctx"
  "ctx_acquire (touch_foreign ctx a p t) = ctx_acquire ctx"
  "orc_of (foreign (touch_foreign ctx a p t)) = orc_of (foreign ctx)"
  "gc_mark (ctx_gc (touch_foreign ctx a p t)) = gc_mark (ctx_gc ctx)"
  "aref_obj (foreign (touch_foreign ctx a p t)) b q =
     (if b = a \<and> q = p \<and> aref_obj (foreign ctx) a p = None
      then Some (object_alloc p t (gc_mark (ctx_gc ctx))) else aref_obj (foreign ctx) b q)"
  by (auto simp: touch_foreign_def Let_def actor_view_def actor_marked_def fun_eq_iff)

lemma touch_foreign_entry:
  "aref_get (foreign (touch_foreign ctx a p t)) a \<noteq> None"
  "\<exists>obj. aref_obj (foreign (touch_foreign ctx a p t)) a p = Some obj \<and> ob_rc obj = orc_of (foreign ctx) a p
     \<and> (ob_mark obj = gc_mark (ctx_gc ctx) \<longleftrightarrow> object_marked ctx a p)"
  by (auto simp: touch_foreign_def Let_def orc_of_def object_marked_def split: option.splits)

lemma set_object_account [simp]:
  "(\<And>x. ob_address (f x) = ob_address x) \<Longrightarrow> aref_obj (foreign (set_object ctx a p f)) b q =
     (if b = a \<and> q = p then map_option f (aref_obj (foreign ctx) a p) else aref_obj (foreign ctx) b q)"
  "actor_view (set_object ctx a p f) = actor_view ctx"
  "ctx_acquire (set_object ctx a p f) = ctx_acquire ctx"
  "gc_mark (ctx_gc (set_object ctx a p f)) = gc_mark (ctx_gc ctx)"
  "same_frame d (set_object ctx a p f) = same_frame d ctx"
  by (auto simp: set_object_def actor_view_def actor_marked_def fun_eq_iff option.map_comp comp_def
      option.map_id0 cong: option.map_cong)

lemma actor_view_ops [simp]:
  "actor_view (recurse ctx p f) = actor_view ctx"
  "actor_view (acquire_object ty ctx a p im) = actor_view ctx"
  "actor_view (ponyint_heap_used ctx n) = actor_view ctx"
  by (simp_all add: actor_view_def actor_marked_def fun_eq_iff)

text \<open>The accounts of one foreign object after a handler that changed its balance by \<open>n\<close>.\<close>

definition counted ::
  "('f, 'h) pony_ctx_t \<Rightarrow> uint64_t \<Rightarrow> uint64_t \<Rightarrow> uint64_t \<Rightarrow> ('f, 'h) pony_ctx_t \<Rightarrow> bool" where
  "counted ctx a p n d \<longleftrightarrow> object_marked d a p \<and>
     (\<forall>b q. object_balance d b q = object_balance ctx b q + (if b = a \<and> q = p then n else 0)) \<and>
     (orc_of (foreign ctx) a p < 2 ^ 63 \<longrightarrow> 1 \<le> orc_of (foreign d) a p)"

lemma orc_of_set_object [simp]:
  "(\<And>x. ob_address (f x) = ob_address x) \<Longrightarrow> orc_of (foreign (set_object ctx a p f)) b q =
     (if b = a \<and> q = p then (case aref_obj (foreign ctx) a p of None \<Rightarrow> 0 | Some obj \<Rightarrow> ob_rc (f obj))
      else orc_of (foreign ctx) b q)"
  by (simp add: orc_of_def split: option.splits)

lemma u64_top_up:
  "x < 2 ^ 63 \<Longrightarrow> (1 :: uint64_t) \<le> x + 255" "x < 2 ^ 63 \<Longrightarrow> (1 :: uint64_t) \<le> x + 256"
  "\<not> x \<le> 1 \<Longrightarrow> (1 :: uint64_t) \<le> x - 1" "x < 2 ^ 63 \<Longrightarrow> (1 :: uint64_t) \<le> x + 1"
  "x \<noteq> 0 \<Longrightarrow> (1 :: uint64_t) \<le> x"
  by (simp_all add: word_le_nat_alt word_less_nat_alt unat_word_ariths unat_sub_if' Suc_le_eq unat_gt_0)

text \<open>The state after the lookups and after the owner was counted, for any of the three ways to count it.\<close>

lemma object_prepared:
  assumes new: "\<not> object_marked ctx a p"
    and owner: "\<And>c. aref_get (foreign c) a \<noteq> None \<Longrightarrow> \<exists>c'. count c a = Inr c' \<and> same_frame c c' \<and>
      same_objects c c' \<and> actor_view c' = (actor_view c)(a := w (actor_view c a)) \<and> (ctx_ok c \<longrightarrow> ctx_ok c')"
  obtains obj c1 where "aref_obj (foreign (touch_foreign ctx a p t)) a p = Some obj"
    "ob_rc obj = orc_of (foreign ctx) a p" "ob_mark obj \<noteq> gc_mark (ctx_gc ctx)"
    "count (ponyint_heap_used (touch_foreign ctx a p t) n) a = Inr c1"
    "aref_obj (foreign c1) a p = Some obj" "orc_of (foreign c1) = orc_of (foreign ctx)"
    "orc_of (ctx_acquire c1) = orc_of (ctx_acquire ctx)" "gc_mark (ctx_gc c1) = gc_mark (ctx_gc ctx)"
    "actor_view c1 = (actor_view ctx)(a := w (actor_view ctx a))"
proof -
  let ?c0 = "ponyint_heap_used (touch_foreign ctx a p t) n"
  have r: "aref_get (foreign ?c0) a \<noteq> None" using touch_foreign_entry(1) [of ctx a p t] by simp
  obtain obj where obj: "aref_obj (foreign (touch_foreign ctx a p t)) a p = Some obj"
      "ob_rc obj = orc_of (foreign ctx) a p" "ob_mark obj \<noteq> gc_mark (ctx_gc ctx)"
    using touch_foreign_entry(2) new by blast
  obtain c1 where c1: "count ?c0 a = Inr c1" "same_frame ?c0 c1" "same_objects ?c0 c1"
      "actor_view c1 = (actor_view ctx)(a := w (actor_view ctx a))"
    using owner [OF r] by auto
  moreover have "gc_mark (ctx_gc c1) = gc_mark (ctx_gc ctx)" using c1(2) by (simp add: same_frame_def)
  moreover have "aref_obj (foreign c1) a p = Some obj" "orc_of (ctx_acquire c1) = orc_of (ctx_acquire ctx)"
      "orc_of (foreign c1) = orc_of (foreign ctx)"
    using c1(3) obj(1) touch_foreign_account(3) [of ctx a p t] by (auto simp: same_objects_def orc_of_def fun_eq_iff)
  ultimately show thesis using that obj by blast
qed

lemma heap_used_0 [simp]: "ponyint_heap_used ctx 0 = ctx"
  by (simp add: ponyint_heap_used_def)

lemmas object_account_defs = Let_def counted_def object_marked_def object_balance_def recurse_type_def
  GC_INC_MORE_def u64_top_up

lemma send_remote_object_account:
  assumes new: "\<not> object_marked ctx a p" and t: "m \<noteq> PONY_TRACE_OPAQUE \<longrightarrow> t \<noteq> None"
  shows "\<exists>ctx'. send_remote_object ty ctx a p t m = Inr ctx' \<and>
    actor_view ctx' = (actor_view ctx)(a := send_view (actor_view ctx a)) \<and> counted ctx a p (-1) ctx'"
proof -
  obtain obj c1 where facts: "aref_obj (foreign (touch_foreign ctx a p t)) a p = Some obj"
      "ob_rc obj = orc_of (foreign ctx) a p" "ob_mark obj \<noteq> gc_mark (ctx_gc ctx)"
      "send_remote_actor (touch_foreign ctx a p t) a = Inr c1"
      "aref_obj (foreign c1) a p = Some obj" "orc_of (foreign c1) = orc_of (foreign ctx)"
      "orc_of (ctx_acquire c1) = orc_of (ctx_acquire ctx)" "gc_mark (ctx_gc c1) = gc_mark (ctx_gc ctx)"
      "actor_view c1 = (actor_view ctx)(a := send_view (actor_view ctx a))"
    using object_prepared [of ctx a p send_remote_actor send_view t 0, OF new send_remote_actor_view,
      unfolded heap_used_0] by blast
  show ?thesis using facts t
    by (cases m; cases "ob_immutable obj"; cases "ob_rc obj > 0"; cases "ob_rc obj \<le> 1"; cases t)
      (simp_all add: send_remote_object_def object_account_defs del: touch_foreign_account(5))
qed


lemma recv_remote_object_account:
  assumes new: "\<not> object_marked ctx a p" and t: "m \<noteq> PONY_TRACE_OPAQUE \<longrightarrow> t \<noteq> None"
  shows "\<exists>ctx'. recv_remote_object ctx a p t m n = Inr ctx' \<and>
    actor_view ctx' = (actor_view ctx)(a := recv_view (actor_view ctx a)) \<and> counted ctx a p 1 ctx'"
proof -
  obtain obj c1 where facts: "aref_obj (foreign (touch_foreign ctx a p t)) a p = Some obj"
      "ob_rc obj = orc_of (foreign ctx) a p" "ob_mark obj \<noteq> gc_mark (ctx_gc ctx)"
      "recv_remote_actor (touch_foreign ctx a p t) a = Inr c1"
      "aref_obj (foreign c1) a p = Some obj" "orc_of (foreign c1) = orc_of (foreign ctx)"
      "orc_of (ctx_acquire c1) = orc_of (ctx_acquire ctx)" "gc_mark (ctx_gc c1) = gc_mark (ctx_gc ctx)"
      "actor_view c1 = (actor_view ctx)(a := recv_view (actor_view ctx a))"
    using object_prepared [of ctx a p recv_remote_actor recv_view t 0, OF new recv_remote_actor_view,
      unfolded heap_used_0] by blast
  show ?thesis using facts t
    by (cases m; cases "ob_immutable obj"; cases "ob_rc obj = 0"; cases t; cases "might_reference_actor t")
      (simp_all add: recv_remote_object_def object_account_defs del: touch_foreign_account(5))
qed

lemma mark_remote_object_account:
  assumes new: "\<not> object_marked ctx a p" and t: "m \<noteq> PONY_TRACE_OPAQUE \<longrightarrow> t \<noteq> None"
  shows "\<exists>ctx'. mark_remote_object ty ctx a p t m n = Inr ctx' \<and>
    actor_view ctx' = (actor_view ctx)(a := mark_view (actor_view ctx a)) \<and> counted ctx a p 0 ctx'"
proof -
  let ?n = "if m = PONY_TRACE_IMMUTABLE \<and> \<not> might_reference_actor t then n + GC_IMMUT_HEAP_EQUIV else n"
  obtain obj c1 where facts: "aref_obj (foreign (touch_foreign ctx a p t)) a p = Some obj"
      "ob_rc obj = orc_of (foreign ctx) a p" "ob_mark obj \<noteq> gc_mark (ctx_gc ctx)"
      "mark_remote_actor (ponyint_heap_used (touch_foreign ctx a p t) ?n) a = Inr c1"
      "aref_obj (foreign c1) a p = Some obj" "orc_of (foreign c1) = orc_of (foreign ctx)"
      "orc_of (ctx_acquire c1) = orc_of (ctx_acquire ctx)" "gc_mark (ctx_gc c1) = gc_mark (ctx_gc ctx)"
      "actor_view c1 = (actor_view ctx)(a := mark_view (actor_view ctx a))"
    using object_prepared [of ctx a p mark_remote_actor mark_view t ?n, OF new mark_remote_actor_view] by blast
  have add: "ponyint_heap_used (ponyint_heap_used c x) y = ponyint_heap_used c (x + y)" for c x y
    by (simp add: ponyint_heap_used_def add.assoc)
  show ?thesis using facts t
    by (cases m; cases "ob_immutable obj"; cases "ob_rc obj = 0"; cases t; cases "might_reference_actor t")
      (simp_all add: mark_remote_object_def object_account_defs add unat_gt_0 del: touch_foreign_account(5))
qed

section \<open>Local objects\<close>

definition local_rc :: "'f gc_t \<Rightarrow> uint64_t \<Rightarrow> uint64_t" where
  "local_rc gc p = (case obj_get (gc_local gc) p of None \<Rightarrow> 0 | Some obj \<Rightarrow> ob_rc obj)"

definition local_marked :: "'f gc_t \<Rightarrow> uint64_t \<Rightarrow> bool" where
  "local_marked gc p \<longleftrightarrow> map_option ob_mark (obj_get (gc_local gc) p) = Some (gc_mark gc)"

lemma trace_local_account:
  assumes "m \<noteq> PONY_TRACE_OPAQUE \<longrightarrow> t \<noteq> None"
  shows "\<exists>d. trace_local ctx p t m im = Inr d \<and> gc_rc (ctx_gc d) = gc_rc (ctx_gc ctx)
    \<and> local_rc (ctx_gc d) = local_rc (ctx_gc ctx) \<and> local_marked (ctx_gc d) = local_marked (ctx_gc ctx)
    \<and> gc_mark (ctx_gc d) = gc_mark (ctx_gc ctx) \<and> gc_rc_mark (ctx_gc d) = gc_rc_mark (ctx_gc ctx)
    \<and> ctx_current d = ctx_current ctx"
  using assms
  by (auto simp: trace_local_def Let_def set_gc_def recurse_type_def recurse_def local_rc_def local_marked_def
      fun_eq_iff option.map_comp comp_def option.map_id0 split: option.splits cong: option.map_cong)

lemma send_local_object_account:
  assumes "\<not> local_marked (ctx_gc ctx) p" "m \<noteq> PONY_TRACE_OPAQUE \<longrightarrow> t \<noteq> None"
  shows "\<exists>d. send_local_object ctx p t m = Inr d
    \<and> gc_rc (ctx_gc d) = (if gc_rc_mark (ctx_gc ctx) = gc_mark (ctx_gc ctx) then gc_rc (ctx_gc ctx) else gc_rc (ctx_gc ctx) + 1)
    \<and> local_rc (ctx_gc d) = (local_rc (ctx_gc ctx))(p := local_rc (ctx_gc ctx) p + 1)
    \<and> local_marked (ctx_gc d) = (local_marked (ctx_gc ctx))(p := True)
    \<and> gc_mark (ctx_gc d) = gc_mark (ctx_gc ctx) \<and> gc_rc_mark (ctx_gc d) = gc_mark (ctx_gc ctx)
    \<and> ctx_current d = ctx_current ctx"
proof -
  let ?gc = "ctx_gc ctx"
  let ?g1 = "send_local_actor (?gc\<lparr>gc_local := obj_getorput (gc_local ?gc) p t (gc_mark ?gc)\<rparr>)"
  let ?c = "set_gc ctx (?g1\<lparr>gc_local := obj_modify (gc_local ?g1) p (\<lambda>obj. obj\<lparr>ob_rc := ob_rc obj + 1, ob_mark := gc_mark ?g1\<rparr>)\<rparr>)"
  obtain obj where obj: "obj_get (obj_getorput (gc_local ?gc) p t (gc_mark ?gc)) p = Some obj"
      "ob_mark obj \<noteq> gc_mark ?gc" "ob_rc obj = local_rc ?gc p"
    using assms(1) by (cases "obj_get (gc_local ?gc) p") (auto simp: local_marked_def local_rc_def)
  have "send_local_object ctx p t m = trace_local ?c p t m (ob_immutable obj)"
    using obj by (simp add: send_local_object_def Let_def)
  moreover have "gc_rc (ctx_gc ?c) = (if gc_rc_mark ?gc = gc_mark ?gc then gc_rc ?gc else gc_rc ?gc + 1)"
      "local_rc (ctx_gc ?c) = (local_rc ?gc)(p := local_rc ?gc p + 1)"
      "local_marked (ctx_gc ?c) = (local_marked ?gc)(p := True)"
      "gc_mark (ctx_gc ?c) = gc_mark ?gc" "gc_rc_mark (ctx_gc ?c) = gc_mark ?gc" "ctx_current ?c = ctx_current ctx"
    using obj by (auto simp: send_local_actor_def set_gc_def local_rc_def local_marked_def fun_eq_iff)
  ultimately show ?thesis using trace_local_account [OF assms(2), of ?c p "ob_immutable obj"] by auto
qed

lemma recv_local_object_account:
  assumes "\<not> local_marked (ctx_gc ctx) p" "m \<noteq> PONY_TRACE_OPAQUE \<longrightarrow> t \<noteq> None"
    "obj_get (gc_local (ctx_gc ctx)) p \<noteq> None" "gc_rc_mark (ctx_gc ctx) \<noteq> gc_mark (ctx_gc ctx) \<longrightarrow> gc_rc (ctx_gc ctx) > 0"
  shows "\<exists>d. recv_local_object ctx p t m = Inr d
    \<and> gc_rc (ctx_gc d) = (if gc_rc_mark (ctx_gc ctx) = gc_mark (ctx_gc ctx) then gc_rc (ctx_gc ctx) else gc_rc (ctx_gc ctx) - 1)
    \<and> local_rc (ctx_gc d) = (local_rc (ctx_gc ctx))(p := local_rc (ctx_gc ctx) p - 1)
    \<and> local_marked (ctx_gc d) = (local_marked (ctx_gc ctx))(p := True)
    \<and> gc_mark (ctx_gc d) = gc_mark (ctx_gc ctx) \<and> gc_rc_mark (ctx_gc d) = gc_mark (ctx_gc ctx)
    \<and> ctx_current d = ctx_current ctx"
proof -
  let ?gc = "ctx_gc ctx"
  let ?g1 = "?gc\<lparr>gc_rc_mark := gc_mark ?gc, gc_rc := (if gc_rc_mark ?gc = gc_mark ?gc then gc_rc ?gc else gc_rc ?gc - 1)\<rparr>"
  let ?c = "set_gc ctx (?g1\<lparr>gc_local := obj_modify (gc_local ?g1) p (\<lambda>obj. obj\<lparr>ob_rc := ob_rc obj - 1, ob_mark := gc_mark ?g1\<rparr>)\<rparr>)"
  obtain obj where obj: "obj_get (gc_local ?gc) p = Some obj" "ob_mark obj \<noteq> gc_mark ?gc" "ob_rc obj = local_rc ?gc p"
    using assms(1,3) by (auto simp: local_marked_def local_rc_def)
  have "recv_local_actor ?gc = Inr ?g1"
    using assms(4) by (auto simp: recv_local_actor_def pony_assert_def)
  then have "recv_local_object ctx p t m = trace_local ?c p t m (ob_immutable obj)"
    using obj by (simp add: recv_local_object_def Let_def)
  moreover have "local_rc (ctx_gc ?c) = (local_rc ?gc)(p := local_rc ?gc p - 1)"
      "local_marked (ctx_gc ?c) = (local_marked ?gc)(p := True)"
      "gc_rc (ctx_gc ?c) = (if gc_rc_mark ?gc = gc_mark ?gc then gc_rc ?gc else gc_rc ?gc - 1)"
      "gc_mark (ctx_gc ?c) = gc_mark ?gc" "gc_rc_mark (ctx_gc ?c) = gc_mark ?gc" "ctx_current ?c = ctx_current ctx"
    using obj by (auto simp: set_gc_def local_rc_def local_marked_def fun_eq_iff)
  ultimately show ?thesis using trace_local_account [OF assms(2), of ?c p "ob_immutable obj"] by auto
qed

section \<open>Acquire and release messages\<close>

lemma obj_keys_ops [simp]:
  "(\<And>x. ob_address (f x) = ob_address x) \<Longrightarrow> map ob_address (obj_modify m p f) = map ob_address m"
  "distinct (map ob_address m) \<Longrightarrow> distinct (map ob_address (obj_getorput m p t mk))"
  by (simp_all add: obj_modify_def elems_keys_modify obj_getorput_def elems_distinct_getorput)

definition objs_rc :: "'f objs \<Rightarrow> uint64_t \<Rightarrow> uint64_t" where
  "objs_rc m p = (case obj_get m p of None \<Rightarrow> 0 | Some obj \<Rightarrow> ob_rc obj)"

lemma objs_rc_Cons [simp]:
  "objs_rc [] p = 0" "objs_rc (x # m) p = (if p = ob_address x then ob_rc x else objs_rc m p)"
  by (auto simp: objs_rc_def obj_get_def elems_get_def)

lemma objs_rc_notin: "p \<notin> ob_address ` set m \<Longrightarrow> objs_rc m p = 0"
  by (induction m) auto

lemma acquire_step_rc:
  "objs_rc (acquire_step mk loc obj) p = objs_rc loc p + (if p = ob_address obj then ob_rc obj else 0)"
  by (auto simp: acquire_step_def objs_rc_def split: option.splits)

lemma acquire_loop_rc:
  assumes "distinct (map ob_address objs)"
  shows "objs_rc (foldl (acquire_step mk) loc objs) p = objs_rc loc p + objs_rc objs p"
  using assms
  by (induction objs arbitrary: loc) (auto simp: acquire_step_rc objs_rc_notin)

lemma acquire_loop_keys:
  "obj_get (foldl (acquire_step mk) loc objs) p = None \<longleftrightarrow> obj_get loc p = None \<and> p \<notin> ob_address ` set objs"
  by (induction objs arbitrary: loc) (auto simp: acquire_step_def)

lemma release_loop_result:
  assumes "distinct (map ob_address objs)"
  shows "if \<forall>obj \<in> set objs. obj_get loc (ob_address obj) \<noteq> None \<and> ob_rc obj \<le> objs_rc loc (ob_address obj)
    then \<exists>loc'. release_loop objs loc = Inr loc' \<and> (\<forall>p. objs_rc loc' p = objs_rc loc p - objs_rc objs p)
    else \<exists>e. release_loop objs loc = Inl e"
  using assms
proof (induction objs arbitrary: loc)
  case Nil
  then show ?case by simp
next
  case (Cons obj rest)
  let ?loc = "obj_modify loc (ob_address obj) (\<lambda>l. l\<lparr>ob_rc := ob_rc l - ob_rc obj\<rparr>)"
  have rc: "objs_rc ?loc p = (if p = ob_address obj then objs_rc loc p - ob_rc obj else objs_rc loc p)"
    if "obj_get loc (ob_address obj) \<noteq> None" for p
    using that by (auto simp: objs_rc_def)
  have other: "ob_address x \<noteq> ob_address obj" if "x \<in> set rest" for x
    using that Cons.prems by (force simp: image_iff)
  have same: "(\<forall>x \<in> set rest. obj_get ?loc (ob_address x) \<noteq> None \<and> ob_rc x \<le> objs_rc ?loc (ob_address x))
      \<longleftrightarrow> (\<forall>x \<in> set rest. obj_get loc (ob_address x) \<noteq> None \<and> ob_rc x \<le> objs_rc loc (ob_address x))"
    by (intro ball_cong) (auto simp: objs_rc_def other)
  have "objs_rc rest (ob_address obj) = 0" using Cons.prems by (intro objs_rc_notin) simp
  then show ?case
    using Cons.IH [of ?loc] Cons.prems rc
    unfolding same
    by (cases "obj_get loc (ob_address obj)")
      (auto simp: pony_assert_def objs_rc_def [of loc "ob_address obj"] split: if_splits)
qed

lemma local_rc_objs: "local_rc gc p = objs_rc (gc_local gc) p"
  by (simp add: local_rc_def objs_rc_def)

lemma acquire_account:
  assumes "distinct (map ob_address (ar_map aref))"
  shows "gc_rc (snd (ponyint_gc_acquire gc aref)) = gc_rc gc + ar_rc aref"
    "local_rc (snd (ponyint_gc_acquire gc aref)) p = local_rc gc p + objs_rc (ar_map aref) p"
    "fst (ponyint_gc_acquire gc aref) \<longleftrightarrow> ar_rc aref > 0"
  using acquire_loop_rc [OF assms] by (simp_all add: ponyint_gc_acquire_def local_rc_objs)

text \<open>When a release succeeds, and what it leaves.\<close>

definition release_covered :: "'f gc_t \<Rightarrow> 'f aref \<Rightarrow> bool" where
  "release_covered gc aref \<longleftrightarrow> ar_rc aref \<le> gc_rc gc \<and>
     (\<forall>obj \<in> set (ar_map aref). obj_get (gc_local gc) (ob_address obj) \<noteq> None
        \<and> ob_rc obj \<le> local_rc gc (ob_address obj))"

lemma release_account:
  assumes "distinct (map ob_address (ar_map aref))"
  shows "if release_covered gc aref
    then \<exists>g. ponyint_gc_release gc aref = Inr (ar_rc aref > 0, g) \<and> gc_rc g = gc_rc gc - ar_rc aref
      \<and> (\<forall>p. local_rc g p = local_rc gc p - objs_rc (ar_map aref) p)
      \<and> gc_foreign g = gc_foreign gc \<and> gc_mark g = gc_mark gc \<and> gc_rc_mark g = gc_rc_mark gc
    else \<exists>e. ponyint_gc_release gc aref = Inl e"
  using release_loop_result [OF assms, of "gc_local gc"]
  by (auto simp: ponyint_gc_release_def release_covered_def local_rc_objs pony_assert_def split: if_splits)

lemma acquire_covers:
  assumes "unat (gc_rc gc) + unat (ar_rc aref) < 2 ^ 64" "distinct (map ob_address (ar_map aref))"
    "\<forall>obj \<in> set (ar_map aref). unat (local_rc gc (ob_address obj)) + unat (ob_rc obj) < 2 ^ 64"
  shows "release_covered (snd (ponyint_gc_acquire gc aref)) aref"
proof -
  have le: "y \<le> x + y" if "unat x + unat y < 2 ^ 64" for x y :: uint64_t
    using that by (simp add: word_le_nat_alt unat_add_lem [THEN iffD1])
  have "objs_rc (ar_map aref) (ob_address obj) = ob_rc obj" if "obj \<in> set (ar_map aref)" for obj
    using that assms(2) elems_get_Some_iff [of ob_address "ar_map aref" "ob_address obj" obj]
    by (simp add: objs_rc_def obj_get_def)
  then show ?thesis
    using assms le acquire_loop_keys [of "gc_mark gc" "gc_local gc" "ar_map aref"]
    by (auto simp: release_covered_def acquire_account ponyint_gc_acquire_def image_iff local_rc_objs
        acquire_loop_rc)
qed

section \<open>Sweeping the foreign map\<close>

type_synonym 'f gcmsg = "uint64_t \<times> msg_id \<times> 'f aref"

text \<open>What a list of messages acquires or releases for an actor, and for one of its objects.\<close>

definition msg_rc :: "msg_id \<Rightarrow> uint64_t \<Rightarrow> 'f gcmsg list \<Rightarrow> uint64_t" where
  "msg_rc k b msgs = sum_list (map (\<lambda>(to, m, r). if to = b \<and> m = k then ar_rc r else 0) msgs)"

definition msg_orc :: "msg_id \<Rightarrow> uint64_t \<Rightarrow> uint64_t \<Rightarrow> 'f gcmsg list \<Rightarrow> uint64_t" where
  "msg_orc k b p msgs = sum_list (map (\<lambda>(to, m, r). if to = b \<and> m = k then objs_rc (ar_map r) p else 0) msgs)"

lemma msg_rc_simps [simp]:
  "msg_rc k b [] = 0" "msg_rc k b ((to, m, r) # xs) = (if to = b \<and> m = k then ar_rc r else 0) + msg_rc k b xs"
  "msg_rc k b (xs @ ys) = msg_rc k b xs + msg_rc k b ys"
  "msg_orc k b p [] = 0"
  "msg_orc k b p ((to, m, r) # xs) = (if to = b \<and> m = k then objs_rc (ar_map r) p else 0) + msg_orc k b p xs"
  "msg_orc k b p (xs @ ys) = msg_orc k b p xs + msg_orc k b p ys"
  by (simp_all add: msg_rc_def msg_orc_def)

lemma aref_get_Cons [simp]:
  "aref_get [] b = None" "aref_get (r # m) b = (if b = ar_actor r then Some r else aref_get m b)"
  by (auto simp: aref_get_def elems_get_def)

lemma aref_get_None: "aref_get m b = None \<longleftrightarrow> b \<notin> ar_actor ` set m"
  by (induction m) auto

lemma orc_of_objs: "orc_of m b p = (case aref_get m b of None \<Rightarrow> 0 | Some r \<Rightarrow> objs_rc (ar_map r) p)"
  by (simp add: orc_of_def aref_obj_def objs_rc_def split: option.splits)

lemma objs_rc_partition:
  assumes "distinct (map ob_address m)"
  shows "objs_rc (filter (\<lambda>x. \<not> P x) m) p = objs_rc m p - objs_rc (filter P m) p"
  using assms
proof (induction m)
  case (Cons x m)
  have "objs_rc (filter Q m) (ob_address x) = 0" for Q using Cons.prems by (intro objs_rc_notin) auto
  then show ?case using Cons by simp
qed simp

text \<open>An entry that is kept hands its unmarked objects to the release message.\<close>

lemma move_unmarked_account:
  assumes "move_unmarked_objects r mk = (kept, release)" "distinct (map ob_address (ar_map r))"
  shows "ar_actor kept = ar_actor r" "ar_rc kept = ar_rc r" "ar_mark kept = ar_mark r"
    "\<forall>obj \<in> set (ar_map kept). ob_mark obj = mk"
    "distinct (map ob_address (ar_map kept))"
    "case release of None \<Rightarrow> objs_rc (ar_map kept) p = objs_rc (ar_map r) p
     | Some s \<Rightarrow> ar_actor s = ar_actor r \<and> ar_rc s = 0 \<and> ar_map s \<noteq> [] \<and>
         objs_rc (ar_map s) p = objs_rc (ar_map r) p - objs_rc (ar_map kept) p"
  using assms objs_rc_partition [OF assms(2), of "\<lambda>x. ob_mark x = mk" p]
  by (auto simp: move_unmarked_objects_def Let_def filter_empty_conv distinct_map_filter split: if_splits)

definition release_msg :: "(uint64_t \<Rightarrow> bool) \<Rightarrow> 'f aref option \<Rightarrow> 'f gcmsg list" where
  "release_msg pd release = (case release of None \<Rightarrow> []
     | Some s \<Rightarrow> if pd (ar_actor s) \<or> ar_rc s = 0 \<and> ar_map s = [] then [] else [(ar_actor s, ACTORMSG_RELEASE, s)])"

lemma send_release_msg: "send_release pd ctx release = ctx\<lparr>ctx_sent := ctx_sent ctx @ release_msg pd release\<rparr>"
  by (simp add: send_release_def release_msg_def split: option.splits)

text \<open>What the sweep keeps, what it sends and what it records for the cycle detector, in closed form.\<close>

definition sweep_kept :: "uint32_t \<Rightarrow> 'f aref list \<Rightarrow> 'f aref list" where
  "sweep_kept mk m = map (\<lambda>r. fst (move_unmarked_objects r mk)) (filter (\<lambda>r. ar_mark r = mk) m)"

definition sweep_sent :: "(uint64_t \<Rightarrow> bool) \<Rightarrow> uint32_t \<Rightarrow> 'f aref list \<Rightarrow> 'f gcmsg list" where
  "sweep_sent pd mk m =
     concat (map (\<lambda>r. release_msg pd (if ar_mark r = mk then snd (move_unmarked_objects r mk) else Some r)) m)"

definition sweep_delta :: "bool \<Rightarrow> uint32_t \<Rightarrow> 'f aref list \<Rightarrow> delta_t list option \<Rightarrow> delta_t list option" where
  "sweep_delta noblock mk m d = (if noblock then d
     else foldl (\<lambda>d r. Some (deltas_update d (ar_actor r) 0)) d (filter (\<lambda>r. ar_mark r \<noteq> mk) m))"

lemma sweep_loop:
  "actormap_sweep_loop pd mk nb m d ctx =
    (sweep_kept mk m, sweep_delta nb mk m d, ctx\<lparr>ctx_sent := ctx_sent ctx @ sweep_sent pd mk m\<rparr>)"
  by (induction m arbitrary: d ctx)
    (auto simp: sweep_kept_def sweep_sent_def sweep_delta_def send_release_msg split_def Let_def)

lemma move_unmarked_fields [simp]:
  "ar_actor (fst (move_unmarked_objects r mk)) = ar_actor r"
  "ar_rc (fst (move_unmarked_objects r mk)) = ar_rc r"
  "ar_mark (fst (move_unmarked_objects r mk)) = ar_mark r"
  by (simp_all add: move_unmarked_objects_def Let_def)

lemma release_msg_account:
  assumes "distinct (map ob_address (ar_map r))" "\<not> pd (ar_actor r)"
  shows "msg_rc ACTORMSG_RELEASE b (release_msg pd (if ar_mark r = mk then snd (move_unmarked_objects r mk) else Some r)) =
      (if b = ar_actor r \<and> ar_mark r \<noteq> mk then ar_rc r else 0)"
    "msg_orc ACTORMSG_RELEASE b p (release_msg pd (if ar_mark r = mk then snd (move_unmarked_objects r mk) else Some r)) =
      (if b = ar_actor r then objs_rc (ar_map r) p
         - (if ar_mark r = mk then objs_rc (ar_map (fst (move_unmarked_objects r mk))) p else 0) else 0)"
proof -
  obtain kept release where mv: "move_unmarked_objects r mk = (kept, release)" by fastforce
  note acc = move_unmarked_account [OF mv assms(1)]
  show "msg_rc ACTORMSG_RELEASE b (release_msg pd (if ar_mark r = mk then snd (move_unmarked_objects r mk) else Some r)) =
      (if b = ar_actor r \<and> ar_mark r \<noteq> mk then ar_rc r else 0)"
    using acc(6) assms(2) mv by (auto simp: release_msg_def split: option.splits)
  show "msg_orc ACTORMSG_RELEASE b p (release_msg pd (if ar_mark r = mk then snd (move_unmarked_objects r mk) else Some r)) =
      (if b = ar_actor r then objs_rc (ar_map r) p
         - (if ar_mark r = mk then objs_rc (ar_map (fst (move_unmarked_objects r mk))) p else 0) else 0)"
    using acc(6) [of p] assms(2) mv by (auto simp: release_msg_def split: option.splits)
qed

lemma release_msg_other:
  assumes "b \<noteq> ar_actor r"
  shows "msg_rc ACTORMSG_RELEASE b (release_msg pd (if ar_mark r = mk then snd (move_unmarked_objects r mk) else Some r)) = 0"
    "msg_orc ACTORMSG_RELEASE b p (release_msg pd (if ar_mark r = mk then snd (move_unmarked_objects r mk) else Some r)) = 0"
  using assms by (auto simp: release_msg_def move_unmarked_objects_def Let_def split: option.splits)

lemma sweep_kept_get:
  assumes "distinct (map ar_actor m)"
  shows "aref_get (sweep_kept mk m) b = (case aref_get m b of None \<Rightarrow> None
    | Some r \<Rightarrow> if ar_mark r = mk then Some (fst (move_unmarked_objects r mk)) else None)"
  using assms
  by (induction m) (auto simp: sweep_kept_def aref_get_None split: option.splits)

lemma sweep_sent_account:
  assumes "distinct (map ar_actor m)" "\<forall>r \<in> set m. distinct (map ob_address (ar_map r))" "\<not> pd b"
  shows "msg_rc ACTORMSG_RELEASE b (sweep_sent pd mk m) = rc_of m b - rc_of (sweep_kept mk m) b \<and>
    msg_orc ACTORMSG_RELEASE b p (sweep_sent pd mk m) = orc_of m b p - orc_of (sweep_kept mk m) b p"
  using assms(1,2)
proof (induction m)
  case (Cons r m)
  have nin: "aref_get m (ar_actor r) = None" using Cons.prems(1) by (simp add: aref_get_None)
  then have kept: "aref_get (sweep_kept mk m) (ar_actor r) = None" using Cons.prems(1) by (simp add: sweep_kept_get)
  show ?case
    using Cons.prems Cons.IH nin kept assms(3) 
      release_msg_account(1) [of r pd b mk] release_msg_other(1) [of b r pd mk]
      release_msg_account(2) [of r pd b p mk] release_msg_other(2) [of b r p pd mk]
    by (cases "b = ar_actor r") (auto simp: sweep_sent_def sweep_kept_def rc_of_def orc_of_objs)
qed (simp add: sweep_sent_def sweep_kept_def rc_of_def orc_of_objs)

section \<open>Properties\<close>

lemma send_balance:
  "send_view (False, rc, acq) = (k, rc', acq') \<Longrightarrow> k \<and> rc' - acq' = rc - acq - 1 \<and> 1 \<le> rc'"
  by (auto simp: GC_INC_MORE_def word_le_nat_alt unat_word_ariths unat_sub_if' split: if_splits)

lemma mark_balance:
  "mark_view (False, rc, acq) = (k, rc', acq') \<Longrightarrow> k \<and> rc' - acq' = rc - acq \<and> 1 \<le> rc'"
  using u64_top_up(5) [of rc] by (auto simp: GC_INC_MORE_def split: if_splits)

lemma view_parts:
  "actor_view ctx a = (actor_marked ctx a, rc_of (foreign ctx) a, rc_of (ctx_acquire ctx) a)"
  "actor_balance ctx a = fst (snd (actor_view ctx a)) - snd (snd (actor_view ctx a))"
  by (simp_all add: actor_view_def actor_balance_def)

text \<open>
  C26: On the first trace of a foreign actor in a round, sending its reference lowers the balance of
  the actor (claimed references less pending acquires) by exactly one, receiving raises it by one and
  marking leaves it, and no other actor's balance changes.  After a send or a mark the tracing actor still
  holds at least one reference, after a receive one more than before.  A second send in the same round after a
  send, a second receive after a receive and a second mark after a mark change no balance.
\<close>

theorem gc_actor_counts:
  assumes "a \<noteq> ctx_current ctx" "\<not> actor_marked ctx a"
  shows "\<exists>s r k s' r' k'. ponyint_gc_sendactor ctx a = Inr s \<and> ponyint_gc_recvactor ctx a = Inr r
    \<and> ponyint_gc_markactor ctx a = Inr k
    \<and> ponyint_gc_sendactor s a = Inr s' \<and> ponyint_gc_recvactor r a = Inr r' \<and> ponyint_gc_markactor k a = Inr k'
    \<and> actor_balance s = (actor_balance ctx)(a := actor_balance ctx a - 1)
    \<and> actor_balance r = (actor_balance ctx)(a := actor_balance ctx a + 1)
    \<and> actor_balance k = actor_balance ctx
    \<and> actor_balance s' = actor_balance s \<and> actor_balance r' = actor_balance r \<and> actor_balance k' = actor_balance k
    \<and> 1 \<le> rc_of (foreign s) a \<and> rc_of (foreign r) a = rc_of (foreign ctx) a + 1 \<and> 1 \<le> rc_of (foreign k) a"
proof -
  obtain s where s: "ponyint_gc_sendactor ctx a = Inr s" "same_frame ctx s"
      "actor_view s = (actor_view ctx)(a := send_view (actor_view ctx a))"
    using sendactor_view [OF assms(1)] by blast
  obtain r where r: "ponyint_gc_recvactor ctx a = Inr r" "same_frame ctx r"
      "actor_view r = (actor_view ctx)(a := recv_view (actor_view ctx a))"
    using recvactor_view [OF assms(1)] by blast
  obtain k where k: "ponyint_gc_markactor ctx a = Inr k" "same_frame ctx k"
      "actor_view k = (actor_view ctx)(a := mark_view (actor_view ctx a))"
    using markactor_view [OF assms(1)] by blast
  have cur: "a \<noteq> ctx_current s" "a \<noteq> ctx_current r" "a \<noteq> ctx_current k"
    using s(2) r(2) k(2) assms(1) by (simp_all add: same_frame_def)
  obtain s' where s': "ponyint_gc_sendactor s a = Inr s'" "actor_view s' = (actor_view s)(a := send_view (actor_view s a))"
    using sendactor_view [OF cur(1)] by blast
  obtain r' where r': "ponyint_gc_recvactor r a = Inr r'" "actor_view r' = (actor_view r)(a := recv_view (actor_view r a))"
    using recvactor_view [OF cur(2)] by blast
  obtain k' where k': "ponyint_gc_markactor k a = Inr k'" "actor_view k' = (actor_view k)(a := mark_view (actor_view k a))"
    using markactor_view [OF cur(3)] by blast
  obtain rc acq where v: "actor_view ctx a = (False, rc, acq)" using assms(2) by (simp add: actor_view_def)
  obtain m1 rc1 acq1 where v1: "send_view (False, rc, acq) = (m1, rc1, acq1)" by (metis prod_cases3)
  obtain m2 rc2 acq2 where v2: "mark_view (False, rc, acq) = (m2, rc2, acq2)" by (metis prod_cases3)
  note b1 = send_balance [OF v1] and b2 = mark_balance [OF v2]
  have bal: "actor_balance c b = fst (snd (actor_view c b)) - snd (snd (actor_view c b))" for c :: "('a, 'b) pony_ctx_t" and b
    by (rule view_parts(2))
  have rcof: "rc_of (foreign c) b = fst (snd (actor_view c b))" for c :: "('a, 'b) pony_ctx_t" and b
    by (simp add: actor_view_def)
  have sees: "actor_view s a = (True, rc1, acq1)" "actor_view r a = (True, rc + 1, acq)" "actor_view k a = (True, rc2, acq2)"
    using s(3) r(3) k(3) v v1 v2 b1 b2 by simp_all
  have vs: "actor_view s' = actor_view s" "actor_view r' = actor_view r" "actor_view k' = actor_view k"
    unfolding s'(2) r'(2) k'(2) by (rule fun_upd_idem, simp add: sees)+
  have same: "actor_balance s' = actor_balance s" "actor_balance r' = actor_balance r" "actor_balance k' = actor_balance k"
    by (rule ext, simp only: bal vs)+
  have first: "actor_balance s = (actor_balance ctx)(a := actor_balance ctx a - 1)"
    "actor_balance r = (actor_balance ctx)(a := actor_balance ctx a + 1)" "actor_balance k = actor_balance ctx"
    by (rule ext, use b1 b2 in \<open>simp add: bal s(3) r(3) k(3) v v1 v2 del: send_view.simps mark_view.simps\<close>)+
  have "1 \<le> rc_of (foreign s) a" "rc_of (foreign r) a = rc_of (foreign ctx) a + 1" "1 \<le> rc_of (foreign k) a"
    using b1 b2 by (simp_all add: rcof sees v)
  thus ?thesis using s(1) r(1) k(1) s'(1) r'(1) k'(1) same first by blast
qed

text \<open>A context with one foreign actor, for evaluation.\<close>

definition demo_ctx :: "uint64_t \<Rightarrow> (unit, unit) pony_ctx_t" where
  "demo_ctx rc = \<lparr>ctx_current = 8,
     ctx_gc = \<lparr>gc_mark = 5, gc_rc_mark = 4, gc_rc = 256, gc_local = [],
       gc_foreign = [\<lparr>ar_actor = 16, ar_rc = rc, ar_mark = 4, ar_map = []\<rparr>], gc_delta = None\<rparr>,
     ctx_heap_used = 0, ctx_heap = (), ctx_trace = Trace_null, ctx_acquire = [], ctx_stack = [], ctx_sent = [], ctx_noblock = False\<rparr>"

lemma demo_ctx_fields:
  "ctx_current (demo_ctx rc) = 8" "\<not> actor_marked (demo_ctx rc) 16" "\<not> object_marked (demo_ctx rc) 16 p"
  by (simp_all add: demo_ctx_def actor_marked_def object_marked_def foreign_def aref_obj_def)

theorem gc_actor_counts_witness:
  "\<exists>s r r'. ponyint_gc_sendactor (demo_ctx 1) 16 = Inr s \<and> ponyint_gc_recvactor (demo_ctx 1) 16 = Inr r \<and> ponyint_gc_recvactor r 16 = Inr r'
    \<and> actor_balance s 16 = actor_balance (demo_ctx 1) 16 - 1 \<and> 1 \<le> rc_of (foreign s) 16 \<and> actor_balance r' = actor_balance r"
proof -
  have "16 \<noteq> ctx_current (demo_ctx 1)" by (simp add: demo_ctx_fields)
  from gc_actor_counts [OF this demo_ctx_fields(2)] show ?thesis by (elim exE conjE) (auto simp: fun_eq_iff)
qed

text \<open>
  C27: On the first trace of a foreign object in a round, sending lowers the balance of the object by
  exactly one, receiving raises it by one and marking leaves it, whatever the kind of reference, also
  when an immutable send invents references; the owner is counted along the same way (its own count
  changes only if it was not traced before in the round), the object is marked and, unless a counter
  is past 2^63, the tracing actor keeps at least one reference to it.
\<close>

theorem gc_object_counts:
  assumes "pagemap p = Some (a, n)" "a \<noteq> ctx_current ctx" "\<not> object_marked ctx a p"
    "m \<noteq> PONY_TRACE_OPAQUE \<longrightarrow> t \<noteq> None"
  shows "\<exists>s r k. ponyint_gc_sendobject pagemap ty ctx p t m = Inr s \<and> ponyint_gc_recvobject pagemap ctx p t m = Inr r
    \<and> ponyint_gc_markobject pagemap ty hm hs ctx p t m = Inr k
    \<and> counted ctx a p (-1) s \<and> counted ctx a p 1 r \<and> counted ctx a p 0 k
    \<and> actor_view s = (actor_view ctx)(a := send_view (actor_view ctx a))
    \<and> actor_view r = (actor_view ctx)(a := recv_view (actor_view ctx a))
    \<and> actor_view k = (actor_view ctx)(a := mark_view (actor_view ctx a))"
  using send_remote_object_account [OF assms(3,4), of ty] recv_remote_object_account [OF assms(3,4), of n]
    mark_remote_object_account [OF assms(3,4), of ty n] assms(1,2)
  by (auto simp: ponyint_gc_sendobject_def ponyint_gc_recvobject_def ponyint_gc_markobject_def)

theorem gc_object_counts_witness:
  "\<exists>s. ponyint_gc_sendobject (\<lambda>p. Some (16, 32)) (\<lambda>p. None) (demo_ctx 1) 4096 None PONY_TRACE_OPAQUE = Inr s
    \<and> counted (demo_ctx 1) 16 4096 (-1) s"
  using gc_object_counts [of "\<lambda>p. Some (16, 32)" 4096 16 32 "demo_ctx 1" PONY_TRACE_OPAQUE None "\<lambda>p. None"
      "\<lambda>h p. (False, h)" "\<lambda>h p. h"] demo_ctx_fields by auto

text \<open>
  Sending a local object in one round and receiving it back in the next one restores the
  reference count of the object and of its owner, and leaves the counts of all other objects; in
  between both counts are one higher, so neither can be collected while the message is in flight.
\<close>

lemma gc_local_round_trip:
  assumes "pagemap p = Some (ctx_current ctx, n)" "\<not> local_marked (ctx_gc ctx) p"
    "gc_rc_mark (ctx_gc ctx) \<noteq> gc_mark (ctx_gc ctx)" "gc_rc (ctx_gc ctx) \<noteq> -1"
    "m \<noteq> PONY_TRACE_OPAQUE \<longrightarrow> t \<noteq> None"
  shows "\<exists>s r. ponyint_gc_sendobject pagemap ty ctx p t m = Inr s
    \<and> gc_rc (ctx_gc s) = gc_rc (ctx_gc ctx) + 1
    \<and> local_rc (ctx_gc s) = (local_rc (ctx_gc ctx))(p := local_rc (ctx_gc ctx) p + 1)
    \<and> ponyint_gc_recvobject pagemap (set_gc s (ponyint_gc_done (ctx_gc s))) p t m = Inr r
    \<and> gc_rc (ctx_gc r) = gc_rc (ctx_gc ctx) \<and> local_rc (ctx_gc r) = local_rc (ctx_gc ctx)"
proof -
  obtain s where s: "send_local_object ctx p t m = Inr s" "gc_rc (ctx_gc s) = gc_rc (ctx_gc ctx) + 1"
      "local_rc (ctx_gc s) = (local_rc (ctx_gc ctx))(p := local_rc (ctx_gc ctx) p + 1)"
      "local_marked (ctx_gc s) = (local_marked (ctx_gc ctx))(p := True)"
      "gc_rc_mark (ctx_gc s) = gc_mark (ctx_gc s)" "ctx_current s = ctx_current ctx"
    using send_local_object_account [OF assms(2,5)] assms(3) by auto
  let ?s = "set_gc s (ponyint_gc_done (ctx_gc s))"
  have fields: "gc_rc (ctx_gc ?s) = gc_rc (ctx_gc s)" "local_rc (ctx_gc ?s) = local_rc (ctx_gc s)"
      "gc_local (ctx_gc ?s) = gc_local (ctx_gc s)" "gc_rc_mark (ctx_gc ?s) \<noteq> gc_mark (ctx_gc ?s)"
      "ctx_current ?s = ctx_current ctx"
    using s(5,6) by (auto simp: set_gc_def ponyint_gc_done_def local_rc_def fun_eq_iff)
  have "local_marked (ctx_gc s) p" using s(4) by simp
  then have known: "obj_get (gc_local (ctx_gc ?s)) p \<noteq> None" "\<not> local_marked (ctx_gc ?s) p"
    by (auto simp: local_marked_def set_gc_def ponyint_gc_done_def)
  have "gc_rc (ctx_gc ?s) > 0" using s(2) fields(1) assms(4) by (metis add_eq_0_iff2 word_neq_0_conv)
  then obtain r where "recv_local_object ?s p t m = Inr r" "gc_rc (ctx_gc r) = gc_rc (ctx_gc ?s) - 1"
      "local_rc (ctx_gc r) = (local_rc (ctx_gc ?s))(p := local_rc (ctx_gc ?s) p - 1)"
    using recv_local_object_account [OF known(2) assms(5) known(1)] fields(4) by auto
  then show ?thesis using s fields assms(1)
    by (auto simp: ponyint_gc_sendobject_def ponyint_gc_recvobject_def fun_eq_iff)
qed

text \<open>
  C28: An acquire message adds exactly its counts to the owner and to each of its objects, also to
  objects the owner did not track; a release message with the same contents then succeeds and takes
  exactly the same counts away again, as long as no counter passes 2^64.
\<close>

theorem gc_acquire_release:
  assumes "distinct (map ob_address (ar_map aref))" "unat (gc_rc gc) + unat (ar_rc aref) < 2 ^ 64"
    "\<forall>obj \<in> set (ar_map aref). unat (local_rc gc (ob_address obj)) + unat (ob_rc obj) < 2 ^ 64"
  shows "gc_rc (snd (ponyint_gc_acquire gc aref)) = gc_rc gc + ar_rc aref
    \<and> (\<forall>p. local_rc (snd (ponyint_gc_acquire gc aref)) p = local_rc gc p + objs_rc (ar_map aref) p)
    \<and> (\<exists>g. ponyint_gc_release (snd (ponyint_gc_acquire gc aref)) aref = Inr (ar_rc aref > 0, g)
         \<and> gc_rc g = gc_rc gc \<and> (\<forall>p. local_rc g p = local_rc gc p))"
  using acquire_account [OF assms(1)] release_account [OF assms(1), of "snd (ponyint_gc_acquire gc aref)"]
    acquire_covers [OF assms(2,1,3)] by auto

definition demo_aref :: "unit aref" where
  "demo_aref = \<lparr>ar_actor = 8, ar_rc = 3, ar_mark = 0,
     ar_map = [\<lparr>ob_address = 4096, ob_rc = 7, ob_mark = 0, ob_immutable = True, ob_type = None\<rparr>]\<rparr>"

theorem gc_acquire_release_witness:
  "gc_rc (snd (ponyint_gc_acquire (ctx_gc (demo_ctx 1)) demo_aref)) = 259
    \<and> local_rc (snd (ponyint_gc_acquire (ctx_gc (demo_ctx 1)) demo_aref)) 4096 = 7
    \<and> (\<exists>g. ponyint_gc_release (snd (ponyint_gc_acquire (ctx_gc (demo_ctx 1)) demo_aref)) demo_aref = Inr (True, g)
         \<and> gc_rc g = 256)"
proof -
  have "gc_rc (ctx_gc (demo_ctx 1)) = 256" "local_rc (ctx_gc (demo_ctx 1)) 4096 = 0"
    by (simp_all add: demo_ctx_def local_rc_def)
  then show ?thesis
    using gc_acquire_release [of demo_aref "ctx_gc (demo_ctx 1)"] by (auto simp: demo_aref_def)
qed

text \<open>
  C29: A release message is refused, by a failed assertion or a NULL dereference, exactly when it
  takes more references to the owner or to one of its objects than the owner has recorded, or names
  an object the owner does not know; otherwise it succeeds and subtracts its counts.
\<close>

theorem gc_release_errors:
  assumes "distinct (map ob_address (ar_map aref))"
  shows "((\<exists>e. ponyint_gc_release gc aref = Inl e) \<longleftrightarrow> gc_rc gc < ar_rc aref
      \<or> (\<exists>obj \<in> set (ar_map aref). obj_get (gc_local gc) (ob_address obj) = None
           \<or> local_rc gc (ob_address obj) < ob_rc obj))
    \<and> (\<forall>b g. ponyint_gc_release gc aref = Inr (b, g) \<longrightarrow> (b \<longleftrightarrow> ar_rc aref > 0) \<and> gc_rc g = gc_rc gc - ar_rc aref
         \<and> (\<forall>p. local_rc g p = local_rc gc p - objs_rc (ar_map aref) p))"
proof -
  have "release_covered gc aref \<longleftrightarrow> \<not> (gc_rc gc < ar_rc aref
      \<or> (\<exists>obj \<in> set (ar_map aref). obj_get (gc_local gc) (ob_address obj) = None
           \<or> local_rc gc (ob_address obj) < ob_rc obj))"
    by (auto simp: release_covered_def not_less)
  then show ?thesis
    using release_account [OF assms, of gc] by (cases "release_covered gc aref") auto
qed

theorem gc_release_errors_witness:
  "\<exists>e. ponyint_gc_release (ctx_gc (demo_ctx 1)) demo_aref = Inl e"
proof -
  have "distinct (map ob_address (ar_map demo_aref))" 
    "\<exists>obj \<in> set (ar_map demo_aref). obj_get (gc_local (ctx_gc (demo_ctx 1))) (ob_address obj) = None"
    by (simp_all add: demo_aref_def demo_ctx_def)
  then show ?thesis using gc_release_errors [of demo_aref "ctx_gc (demo_ctx 1)"] by metis
qed

text \<open>
  C30: A sweep forgets exactly the foreign actors that were not traced in the round and the untraced
  objects of the others, and sends what it forgets back: for every actor that is not about to be
  destroyed, and each of its objects, the references in the release messages sent by the sweep plus
  the references still claimed are those claimed before.  Local objects stay exactly while others
  hold references to them.
\<close>

theorem gc_sweep_releases:
  assumes "distinct (map ar_actor (foreign ctx))" "\<forall>r \<in> set (foreign ctx). distinct (map ob_address (ar_map r))"
  shows "\<exists>msgs. ctx_sent (ponyint_gc_sweep pd hs ctx) = ctx_sent ctx @ msgs
    \<and> (\<forall>b. \<not> pd b \<longrightarrow> rc_of (foreign (ponyint_gc_sweep pd hs ctx)) b + msg_rc ACTORMSG_RELEASE b msgs = rc_of (foreign ctx) b)
    \<and> (\<forall>b p. \<not> pd b \<longrightarrow> orc_of (foreign (ponyint_gc_sweep pd hs ctx)) b p + msg_orc ACTORMSG_RELEASE b p msgs
         = orc_of (foreign ctx) b p)
    \<and> (\<forall>b. aref_get (foreign (ponyint_gc_sweep pd hs ctx)) b = None \<longleftrightarrow> \<not> actor_marked ctx b)
    \<and> (\<forall>r \<in> set (foreign (ponyint_gc_sweep pd hs ctx)). \<forall>obj \<in> set (ar_map r). ob_mark obj = gc_mark (ctx_gc ctx))
    \<and> gc_local (ctx_gc (ponyint_gc_sweep pd hs ctx)) = filter (\<lambda>obj. ob_rc obj > 0) (gc_local (ctx_gc ctx))"
proof -
  have loc: "fst (ponyint_objectmap_sweep hs xs h) = filter (\<lambda>obj. ob_rc obj > 0) xs" for xs h
    by (induction xs arbitrary: h) (auto simp: split_def Let_def)
  let ?mk = "gc_mark (ctx_gc ctx)" and ?m = "foreign ctx"
  have f: "foreign (ponyint_gc_sweep pd hs ctx) = sweep_kept ?mk ?m"
      "ctx_sent (ponyint_gc_sweep pd hs ctx) = ctx_sent ctx @ sweep_sent pd ?mk ?m"
      "gc_local (ctx_gc (ponyint_gc_sweep pd hs ctx)) = filter (\<lambda>obj. ob_rc obj > 0) (gc_local (ctx_gc ctx))"
    by (simp_all add: ponyint_gc_sweep_def ponyint_actormap_sweep_def sweep_loop foreign_def split_def Let_def loc)
  have "\<forall>r \<in> set (sweep_kept ?mk ?m). \<forall>obj \<in> set (ar_map r). ob_mark obj = ?mk"
    using assms(2) move_unmarked_account(4) [OF prod.collapse [symmetric]] by (auto simp: sweep_kept_def)
  moreover have "aref_get (sweep_kept ?mk ?m) b = None \<longleftrightarrow> \<not> actor_marked ctx b" for b
    by (simp add: sweep_kept_get [OF assms(1)] actor_marked_def split: option.splits)
  ultimately show ?thesis
    using sweep_sent_account [OF assms] unfolding f by auto
qed

theorem gc_sweep_releases_witness:
  "\<exists>msgs. ctx_sent (ponyint_gc_sweep (\<lambda>b. False) (\<lambda>h p. h) (demo_ctx 9)) = msgs
    \<and> rc_of (foreign (ponyint_gc_sweep (\<lambda>b. False) (\<lambda>h p. h) (demo_ctx 9))) 16 + msg_rc ACTORMSG_RELEASE 16 msgs = 9"
proof -
  have "foreign (demo_ctx 9) = [\<lparr>ar_actor = 16, ar_rc = 9, ar_mark = 4, ar_map = []\<rparr>]" "ctx_sent (demo_ctx 9) = []"
    by (simp_all add: demo_ctx_def foreign_def)
  then show ?thesis
    using gc_sweep_releases [of "demo_ctx 9" "\<lambda>b. False" "\<lambda>h p. h"] by (auto simp: rc_of_def)
qed

end
