(* ===== verification/Trace.thy ===== *)
theory Trace
  imports Gc_Account
begin

text \<open>
  The rounds of tracing of \<^verbatim>\<open>src/libponyrt/gc/trace.c\<close>: a round is opened for a purpose, which installs
  the pair of handlers, values are traced, and closing the round drains the stack, sends the pending
  messages and starts a new mark.  The theorems describe a whole round over a list of actors.
\<close>

section \<open>Operations\<close>

text \<open>
  What the collector calls outside of it: the page map, the type descriptor in the first word of an
  object, the mark bits of the heap, the flag of an actor about to be destroyed, and the compiled
  trace functions.
\<close>

record ('f, 'h) gc_env =
  en_pagemap :: "uint64_t \<Rightarrow> (uint64_t \<times> uint64_t) option"
  en_type :: "uint64_t \<Rightarrow> 'f pony_type_t option"
  en_heap_mark :: "'h \<Rightarrow> uint64_t \<Rightarrow> bool \<times> 'h"
  en_heap_mark_shallow :: "'h \<Rightarrow> uint64_t \<Rightarrow> 'h"
  en_pendingdestroy :: "uint64_t \<Rightarrow> bool"
  en_run :: "'f \<Rightarrow> ('f, 'h) pony_ctx_t \<Rightarrow> uint64_t \<Rightarrow> ('f, 'h) pony_ctx_t res"

definition open_round :: "trace_fns \<Rightarrow> ('f, 'h) pony_ctx_t \<Rightarrow> ('f, 'h) pony_ctx_t res" where
  "open_round fns ctx = pony_assert (ctx_stack ctx = []) (Inr (ctx\<lparr>ctx_trace := fns\<rparr>))"

definition pony_gc_send :: "('f, 'h) pony_ctx_t \<Rightarrow> ('f, 'h) pony_ctx_t res" where
  "pony_gc_send ctx = pony_assert (ctx_current ctx \<noteq> 0) (open_round Trace_send ctx)"

definition pony_gc_recv :: "('f, 'h) pony_ctx_t \<Rightarrow> ('f, 'h) pony_ctx_t res" where
  "pony_gc_recv ctx = pony_assert (ctx_current ctx \<noteq> 0) (open_round Trace_recv ctx)"

definition ponyint_gc_mark :: "('f, 'h) pony_ctx_t \<Rightarrow> ('f, 'h) pony_ctx_t res" where
  "ponyint_gc_mark ctx = open_round Trace_mark ctx"

definition pony_gc_acquire :: "('f, 'h) pony_ctx_t \<Rightarrow> ('f, 'h) pony_ctx_t res" where
  "pony_gc_acquire ctx = pony_assert (ctx_current ctx \<noteq> 0) (open_round Trace_acquire ctx)"

definition pony_gc_release :: "('f, 'h) pony_ctx_t \<Rightarrow> ('f, 'h) pony_ctx_t res" where
  "pony_gc_release ctx = pony_assert (ctx_current ctx \<noteq> 0) (open_round Trace_release ctx)"

definition ctx_done :: "('f, 'h) pony_ctx_t \<Rightarrow> ('f, 'h) pony_ctx_t" where
  "ctx_done ctx = set_gc ctx (ponyint_gc_done (ctx_gc ctx))"

text \<open>\<open>fuel\<close> bounds the entries of the trace stack that are handled.\<close>

definition pony_send_done :: "nat \<Rightarrow> ('f, 'h) gc_env \<Rightarrow> ('f, 'h) pony_ctx_t \<Rightarrow> ('f, 'h) pony_ctx_t res" where
  "pony_send_done fuel env ctx =
     pony_assert (ctx_current ctx \<noteq> 0)
       (res_bind (ponyint_gc_handlestack fuel (en_run env) ctx) (\<lambda>ctx.
          res_bind (ponyint_gc_sendacquire ctx) (\<lambda>ctx. Inr (ctx_done ctx))))"

definition pony_recv_done :: "nat \<Rightarrow> ('f, 'h) gc_env \<Rightarrow> ('f, 'h) pony_ctx_t \<Rightarrow> ('f, 'h) pony_ctx_t res" where
  "pony_recv_done fuel env ctx =
     pony_assert (ctx_current ctx \<noteq> 0)
       (res_bind (ponyint_gc_handlestack fuel (en_run env) ctx) (\<lambda>ctx. Inr (ctx_done ctx)))"

definition ponyint_mark_done :: "nat \<Rightarrow> ('f, 'h) gc_env \<Rightarrow> ('f, 'h) pony_ctx_t \<Rightarrow> ('f, 'h) pony_ctx_t res" where
  "ponyint_mark_done fuel env ctx =
     res_bind (ponyint_gc_markimmutable (en_heap_mark env) (en_heap_mark_shallow env) ctx) (\<lambda>ctx.
       res_bind (ponyint_gc_handlestack fuel (en_run env) ctx) (\<lambda>ctx.
         res_bind (ponyint_gc_sendacquire ctx) (\<lambda>ctx.
           Inr (ctx_done (ponyint_gc_sweep (en_pendingdestroy env) (en_heap_mark_shallow env) ctx)))))"

definition pony_acquire_done :: "nat \<Rightarrow> ('f, 'h) gc_env \<Rightarrow> ('f, 'h) pony_ctx_t \<Rightarrow> ('f, 'h) pony_ctx_t res" where
  "pony_acquire_done fuel env ctx =
     pony_assert (ctx_current ctx \<noteq> 0)
       (res_bind (ponyint_gc_handlestack fuel (en_run env) ctx) (\<lambda>ctx.
          res_bind (ponyint_gc_sendacquire ctx) (\<lambda>ctx. Inr (ctx_done ctx))))"

definition pony_release_done :: "nat \<Rightarrow> ('f, 'h) gc_env \<Rightarrow> ('f, 'h) pony_ctx_t \<Rightarrow> ('f, 'h) pony_ctx_t res" where
  "pony_release_done fuel env ctx =
     pony_assert (ctx_current ctx \<noteq> 0)
       (res_bind (ponyint_gc_handlestack fuel (en_run env) ctx) (\<lambda>ctx.
          res_bind (ponyint_gc_sendrelease_manual ctx) (\<lambda>ctx. Inr (ctx_done ctx))))"

definition pony_send_next :: "nat \<Rightarrow> ('f, 'h) gc_env \<Rightarrow> ('f, 'h) pony_ctx_t \<Rightarrow> ('f, 'h) pony_ctx_t res" where
  "pony_send_next fuel env ctx =
     pony_assert (ctx_current ctx \<noteq> 0)
       (res_bind (ponyint_gc_handlestack fuel (en_run env) ctx) (\<lambda>ctx. Inr (ctx_done ctx)))"

text \<open>Calls through the two function pointers of the context.\<close>

definition trace_object ::
  "('f, 'h) gc_env \<Rightarrow> ('f, 'h) pony_ctx_t \<Rightarrow> uint64_t \<Rightarrow> 'f pony_type_t option \<Rightarrow> trace_kind \<Rightarrow> ('f, 'h) pony_ctx_t res" where
  "trace_object env ctx p t m =
     (case ctx_trace ctx of
        Trace_null \<Rightarrow> Inl Null_deref
      | Trace_send \<Rightarrow> ponyint_gc_sendobject (en_pagemap env) (en_type env) ctx p t m
      | Trace_recv \<Rightarrow> ponyint_gc_recvobject (en_pagemap env) ctx p t m
      | Trace_mark \<Rightarrow> ponyint_gc_markobject (en_pagemap env) (en_type env) (en_heap_mark env) (en_heap_mark_shallow env) ctx p t m
      | Trace_acquire \<Rightarrow> ponyint_gc_acquireobject (en_pagemap env) ctx p t m
      | Trace_release \<Rightarrow> ponyint_gc_releaseobject (en_pagemap env) ctx p t m)"

definition trace_actor :: "('f, 'h) pony_ctx_t \<Rightarrow> uint64_t \<Rightarrow> ('f, 'h) pony_ctx_t res" where
  "trace_actor ctx a =
     (case ctx_trace ctx of
        Trace_null \<Rightarrow> Inl Null_deref
      | Trace_send \<Rightarrow> ponyint_gc_sendactor ctx a
      | Trace_recv \<Rightarrow> ponyint_gc_recvactor ctx a
      | Trace_mark \<Rightarrow> ponyint_gc_markactor ctx a
      | Trace_acquire \<Rightarrow> Inr (ponyint_gc_acquireactor ctx a)
      | Trace_release \<Rightarrow> ponyint_gc_releaseactor ctx a)"

definition pony_trace :: "('f, 'h) gc_env \<Rightarrow> ('f, 'h) pony_ctx_t \<Rightarrow> uint64_t \<Rightarrow> ('f, 'h) pony_ctx_t res" where
  "pony_trace env ctx p = trace_object env ctx p None PONY_TRACE_OPAQUE"

definition pony_traceknown ::
  "('f, 'h) gc_env \<Rightarrow> ('f, 'h) pony_ctx_t \<Rightarrow> uint64_t \<Rightarrow> 'f pony_type_t option \<Rightarrow> trace_kind \<Rightarrow> ('f, 'h) pony_ctx_t res" where
  "pony_traceknown env ctx p t m =
     (case t of
        None \<Rightarrow> Inl Null_deref
      | Some d \<Rightarrow> if ty_dispatch d then trace_actor ctx p else trace_object env ctx p t m)"

definition pony_traceunknown ::
  "('f, 'h) gc_env \<Rightarrow> ('f, 'h) pony_ctx_t \<Rightarrow> uint64_t \<Rightarrow> trace_kind \<Rightarrow> ('f, 'h) pony_ctx_t res" where
  "pony_traceunknown env ctx p m =
     (case en_type env p of
        None \<Rightarrow> Inl Null_deref
      | Some d \<Rightarrow> if ty_dispatch d then trace_actor ctx p else trace_object env ctx p (Some d) m)"

section \<open>Rounds over a list of actors\<close>

fun each :: "('c \<Rightarrow> 'a \<Rightarrow> 'c res) \<Rightarrow> 'c \<Rightarrow> 'a list \<Rightarrow> 'c res" where
  "each step c [] = Inr c"
| "each step c (a # as) = res_bind (step c a) (\<lambda>c. each step c as)"

text \<open>What the compiler emits around a message, or the runtime around a collection: open, trace, close.\<close>

definition send_round :: "nat \<Rightarrow> ('f, 'h) gc_env \<Rightarrow> ('f, 'h) pony_ctx_t \<Rightarrow> uint64_t list \<Rightarrow> ('f, 'h) pony_ctx_t res" where
  "send_round fuel env ctx as =
     res_bind (pony_gc_send ctx) (\<lambda>ctx. res_bind (each trace_actor ctx as) (pony_send_done fuel env))"

definition recv_round :: "nat \<Rightarrow> ('f, 'h) gc_env \<Rightarrow> ('f, 'h) pony_ctx_t \<Rightarrow> uint64_t list \<Rightarrow> ('f, 'h) pony_ctx_t res" where
  "recv_round fuel env ctx as =
     res_bind (pony_gc_recv ctx) (\<lambda>ctx. res_bind (each trace_actor ctx as) (pony_recv_done fuel env))"

definition mark_round :: "nat \<Rightarrow> ('f, 'h) gc_env \<Rightarrow> ('f, 'h) pony_ctx_t \<Rightarrow> uint64_t list \<Rightarrow> ('f, 'h) pony_ctx_t res" where
  "mark_round fuel env ctx as =
     res_bind (ponyint_gc_mark ctx) (\<lambda>ctx. res_bind (each trace_actor ctx as) (ponyint_mark_done fuel env))"

text \<open>A context whose tables hold counts of actors only.\<close>

definition plain :: "'f aref list \<Rightarrow> bool" where
  "plain m \<longleftrightarrow> (\<forall>r \<in> set m. ar_map r = [])"

definition ctx_plain :: "('f, 'h) pony_ctx_t \<Rightarrow> bool" where
  "ctx_plain ctx \<longleftrightarrow> plain (foreign ctx) \<and> plain (ctx_acquire ctx) \<and> gc_local (ctx_gc ctx) = []"

lemma plain_ops [simp]:
  "plain m \<Longrightarrow> plain (aref_getorput m a mk)"
  "plain m \<Longrightarrow> (\<And>r. ar_map (f r) = ar_map r) \<Longrightarrow> plain (aref_modify m a f)"
  by (auto simp: plain_def aref_getorput_def elems_getorput_def aref_modify_def elems_modify_def)

lemma ctx_plain_foreign [simp]: "ctx_plain ctx \<Longrightarrow> plain (foreign ctx)"
  by (simp add: ctx_plain_def)

lemma ctx_plain_ops [simp]:
  "ctx_plain (update_delta ctx a rc) = ctx_plain ctx"
  "ctx_plain (ponyint_heap_used ctx n) = ctx_plain ctx"
  "ctx_plain ctx \<Longrightarrow> ctx_plain (acquire_actor ctx a)"
  "ctx_plain ctx \<Longrightarrow> plain m \<Longrightarrow> ctx_plain (set_foreign ctx m)"
  by (simp_all add: ctx_plain_def foreign_def update_delta_def ponyint_heap_used_def acquire_actor_def set_foreign_def)

lemma actor_handlers_plain:
  "ctx_plain ctx \<Longrightarrow> ponyint_gc_sendactor ctx a = Inr c \<Longrightarrow> a \<noteq> ctx_current ctx \<Longrightarrow> ctx_plain c"
  "ctx_plain ctx \<Longrightarrow> ponyint_gc_recvactor ctx a = Inr c \<Longrightarrow> a \<noteq> ctx_current ctx \<Longrightarrow> ctx_plain c"
  "ctx_plain ctx \<Longrightarrow> ponyint_gc_markactor ctx a = Inr c \<Longrightarrow> a \<noteq> ctx_current ctx \<Longrightarrow> ctx_plain c"
  by (auto simp: ponyint_gc_sendactor_def send_remote_actor_def ponyint_gc_recvactor_def recv_remote_actor_def
      ponyint_gc_markactor_def mark_remote_actor_def touch_actor_def Let_def split: option.splits if_splits)

text \<open>
  The contract of a handler that counts actors: a foreign one changes its own view only, the running
  actor its own counter only, and counting twice in a round is counting once.
\<close>

locale counts_actors =
  fixes step :: "('f, 'h) pony_ctx_t \<Rightarrow> uint64_t \<Rightarrow> ('f, 'h) pony_ctx_t res"
    and fns :: trace_fns
    and view :: "bool \<times> uint64_t \<times> uint64_t \<Rightarrow> bool \<times> uint64_t \<times> uint64_t"
    and own :: "uint32_t \<Rightarrow> uint64_t \<times> uint32_t \<Rightarrow> uint64_t \<times> uint32_t"
    and allowed :: "uint32_t \<Rightarrow> uint64_t \<times> uint32_t \<Rightarrow> bool"
  assumes foreign_step: "\<And>ctx a. ctx_trace ctx = fns \<Longrightarrow> a \<noteq> ctx_current ctx \<Longrightarrow> \<exists>c. step ctx a = Inr c
      \<and> same_frame ctx c \<and> actor_view c = (actor_view ctx)(a := view (actor_view ctx a))
      \<and> (ctx_ok ctx \<longrightarrow> ctx_ok c) \<and> (ctx_plain ctx \<longrightarrow> ctx_plain c)"
    and own_step: "\<And>ctx gc. ctx_trace ctx = fns \<Longrightarrow> gc = ctx_gc ctx \<Longrightarrow>
      allowed (gc_mark gc) (gc_rc gc, gc_rc_mark gc) \<Longrightarrow>
      step ctx (ctx_current ctx) = Inr (set_gc ctx (gc
        \<lparr>gc_rc := fst (own (gc_mark gc) (gc_rc gc, gc_rc_mark gc)),
         gc_rc_mark := snd (own (gc_mark gc) (gc_rc gc, gc_rc_mark gc))\<rparr>))"
    and view_idem: "view (view v) = view v"
    and own_idem: "own mk (own mk x) = own mk x"
    and own_mark: "snd x \<le> mk \<Longrightarrow> snd (own mk x) \<le> mk"
    and own_allowed: "allowed mk x \<Longrightarrow> allowed mk (own mk x)"
begin

text \<open>What a round leaves of the context besides the counts.\<close>

lemma each_counts:
  assumes "ctx_trace ctx = fns"
    and "ctx_current ctx \<in> set as \<longrightarrow> allowed (gc_mark (ctx_gc ctx)) (gc_rc (ctx_gc ctx), gc_rc_mark (ctx_gc ctx))"
  shows "\<exists>c. each step ctx as = Inr c
    \<and> ctx_current c = ctx_current ctx \<and> ctx_heap c = ctx_heap ctx \<and> ctx_stack c = ctx_stack ctx \<and> ctx_trace c = fns
    \<and> ctx_sent c = ctx_sent ctx \<and> ctx_noblock c = ctx_noblock ctx
    \<and> gc_mark (ctx_gc c) = gc_mark (ctx_gc ctx) \<and> gc_local (ctx_gc c) = gc_local (ctx_gc ctx)
    \<and> (gc_rc (ctx_gc c), gc_rc_mark (ctx_gc c)) =
        (if ctx_current ctx \<in> set as then own (gc_mark (ctx_gc ctx)) (gc_rc (ctx_gc ctx), gc_rc_mark (ctx_gc ctx))
         else (gc_rc (ctx_gc ctx), gc_rc_mark (ctx_gc ctx)))
    \<and> (\<forall>b. actor_view c b = (if b \<in> set as \<and> b \<noteq> ctx_current ctx then view (actor_view ctx b) else actor_view ctx b))
    \<and> (ctx_ok ctx \<longrightarrow> ctx_ok c) \<and> (ctx_plain ctx \<longrightarrow> ctx_plain c)"
  using assms
proof (induction as arbitrary: ctx)
  case Nil
  then show ?case by simp
next
  case (Cons a as)
  let ?gc = "ctx_gc ctx"
  show ?case
  proof (cases "a = ctx_current ctx")
    case False
    obtain c where c: "step ctx a = Inr c" "same_frame ctx c"
        "actor_view c = (actor_view ctx)(a := view (actor_view ctx a))"
        "ctx_ok ctx \<longrightarrow> ctx_ok c" "ctx_plain ctx \<longrightarrow> ctx_plain c"
      using foreign_step [OF Cons.prems(1) False] by blast
    have f: "ctx_trace c = fns" "ctx_current c = ctx_current ctx" "gc_mark (ctx_gc c) = gc_mark ?gc"
        "gc_rc (ctx_gc c) = gc_rc ?gc" "gc_rc_mark (ctx_gc c) = gc_rc_mark ?gc" "gc_local (ctx_gc c) = gc_local ?gc"
        "ctx_heap c = ctx_heap ctx" "ctx_stack c = ctx_stack ctx" "ctx_sent c = ctx_sent ctx" "ctx_noblock c = ctx_noblock ctx"
      using c(2) Cons.prems(1) by (simp_all add: same_frame_def)
    show ?thesis using Cons.IH [OF f(1)] Cons.prems(2) False c(1,3-5) f(2-) by (auto simp: view_idem)
  next
    case True
    let ?x = "own (gc_mark ?gc) (gc_rc ?gc, gc_rc_mark ?gc)"
    let ?c = "set_gc ctx (?gc\<lparr>gc_rc := fst ?x, gc_rc_mark := snd ?x\<rparr>)"
    have al: "allowed (gc_mark ?gc) (gc_rc ?gc, gc_rc_mark ?gc)" using Cons.prems(2) True by simp
    have c: "step ctx a = Inr ?c" using own_step [OF Cons.prems(1) refl al] True by simp
    have f: "ctx_trace ?c = fns" "ctx_current ?c = ctx_current ctx" "gc_mark (ctx_gc ?c) = gc_mark ?gc"
        "(gc_rc (ctx_gc ?c), gc_rc_mark (ctx_gc ?c)) = ?x" "gc_local (ctx_gc ?c) = gc_local ?gc"
        "ctx_heap ?c = ctx_heap ctx" "ctx_stack ?c = ctx_stack ctx" "ctx_sent ?c = ctx_sent ctx" "ctx_noblock ?c = ctx_noblock ctx"
        "actor_view ?c = actor_view ctx" "ctx_plain ctx \<longrightarrow> ctx_plain ?c"
      using Cons.prems(1)
      by (simp_all add: set_gc_def actor_view_def actor_marked_def foreign_def fun_eq_iff ctx_plain_def)
    have ok: "ctx_ok ctx \<longrightarrow> ctx_ok ?c"
      using own_mark [of "(gc_rc ?gc, gc_rc_mark ?gc)" "gc_mark ?gc"] by (simp add: set_gc_def ctx_ok_def foreign_def)
    show ?thesis
      using Cons.IH [OF f(1)] own_allowed [OF al] f(2-) ok True c by (auto simp: own_idem)
  qed
qed

end

definition send_own :: "uint32_t \<Rightarrow> uint64_t \<times> uint32_t \<Rightarrow> uint64_t \<times> uint32_t" where
  "send_own mk x = (if snd x \<noteq> mk then (fst x + 1, mk) else x)"

definition recv_own :: "uint32_t \<Rightarrow> uint64_t \<times> uint32_t \<Rightarrow> uint64_t \<times> uint32_t" where
  "recv_own mk x = (if snd x \<noteq> mk then (fst x - 1, mk) else x)"

definition recv_allowed :: "uint32_t \<Rightarrow> uint64_t \<times> uint32_t \<Rightarrow> bool" where
  "recv_allowed mk x \<longleftrightarrow> (snd x \<noteq> mk \<longrightarrow> fst x > 0)"

interpretation sending: counts_actors trace_actor Trace_send send_view send_own "\<lambda>_ _. True"
proof (unfold_locales, goal_cases)
  case (1 ctx a)
  then show ?case
    using sendactor_view [OF 1(2)] actor_handlers_plain(1) [of ctx a] by (auto simp: trace_actor_def)
next
  case (2 ctx gc)
  then show ?case
    by (simp add: trace_actor_def ponyint_gc_sendactor_def send_local_actor_def send_own_def set_gc_def)
next
  case (3 v)
  then show ?case by (cases v) simp
qed (auto simp: send_own_def)

interpretation receiving: counts_actors trace_actor Trace_recv recv_view recv_own recv_allowed
proof (unfold_locales, goal_cases)
  case (1 ctx a)
  then show ?case
    using recvactor_view [OF 1(2)] actor_handlers_plain(2) [of ctx a] by (auto simp: trace_actor_def)
next
  case (2 ctx gc)
  then show ?case
    by (simp add: trace_actor_def ponyint_gc_recvactor_def recv_local_actor_def recv_own_def recv_allowed_def
        set_gc_def pony_assert_def)
next
  case (3 v)
  then show ?case by (cases v) simp
qed (auto simp: recv_own_def recv_allowed_def)

interpretation marking: counts_actors trace_actor Trace_mark mark_view "\<lambda>_ x. x" "\<lambda>_ _. True"
proof (unfold_locales, goal_cases)
  case (1 ctx a)
  then show ?case
    using markactor_view [OF 1(2)] actor_handlers_plain(3) [of ctx a] by (auto simp: trace_actor_def)
next
  case (2 ctx gc)
  then show ?case by (simp add: trace_actor_def ponyint_gc_markactor_def set_gc_def)
next
  case (3 v)
  then show ?case by (cases v) simp
qed auto

section \<open>Closing a round\<close>

lemma drain_acquire_result:
  "drain_acquire k m ctx = ctx\<lparr>ctx_acquire := [], ctx_sent := ctx_sent ctx @ map (\<lambda>r. (ar_actor r, k, r)) m\<rparr>"
  by (induction m arbitrary: ctx) simp_all

lemma sendacquire_result:
  "ponyint_gc_sendacquire ctx =
    Inr (ctx\<lparr>ctx_acquire := [], ctx_sent := ctx_sent ctx @ map (\<lambda>r. (ar_actor r, ACTORMSG_ACQUIRE, r)) (ctx_acquire ctx)\<rparr>)"
  by (simp add: ponyint_gc_sendacquire_def drain_acquire_result pony_assert_def)

lemma handlestack_empty: "ctx_stack ctx = [] \<Longrightarrow> ponyint_gc_handlestack (Suc n) run ctx = Inr ctx"
  by simp

lemma plain_Nil [simp]: "plain []"
  by (simp add: plain_def)

lemma aref_get_SomeD: "aref_get m b = Some r \<Longrightarrow> r \<in> set m \<and> ar_actor r = b"
  by (induction m) (auto split: if_splits)

text \<open>
  Between two rounds: nothing is pending, and every mark is behind the mark of the next round, so that
  each actor will be counted once.
\<close>

definition ctx_idle :: "('f, 'h) pony_ctx_t \<Rightarrow> bool" where
  "ctx_idle ctx \<longleftrightarrow> ctx_current ctx \<noteq> 0 \<and> ctx_stack ctx = [] \<and> ctx_acquire ctx = [] \<and> ctx_sent ctx = []
     \<and> ctx_plain ctx \<and> distinct (map ar_actor (foreign ctx))
     \<and> (\<forall>r \<in> set (foreign ctx). ar_mark r < gc_mark (ctx_gc ctx)) \<and> gc_rc_mark (ctx_gc ctx) < gc_mark (ctx_gc ctx)"

lemma idle_ok:
  assumes "ctx_idle ctx"
  shows "ctx_ok ctx" "\<not> actor_marked ctx b" "gc_rc_mark (ctx_gc ctx) \<noteq> gc_mark (ctx_gc ctx)"
proof -
  have "1 \<le> gc_mark (ctx_gc ctx)"
    using assms by (auto simp: ctx_idle_def word_le_nat_alt word_less_nat_alt)
  then show "ctx_ok ctx" using assms by (auto simp: ctx_idle_def ctx_ok_def refs_ok_def less_imp_le)
  show "\<not> actor_marked ctx b"
    using assms by (fastforce simp: ctx_idle_def actor_marked_def dest: aref_get_SomeD)
  show "gc_rc_mark (ctx_gc ctx) \<noteq> gc_mark (ctx_gc ctx)" using assms by (auto simp: ctx_idle_def)
qed

lemma idle_after_done:
  assumes "ctx_ok ctx" "ctx_plain ctx" "ctx_current ctx \<noteq> 0" "ctx_stack ctx = []" "ctx_acquire ctx = []"
    "unat (gc_mark (ctx_gc ctx)) < 2 ^ 32 - 1"
  shows "ctx_idle (ctx_done ctx\<lparr>ctx_sent := []\<rparr>)"
    "rc_of (foreign (ctx_done ctx)) = rc_of (foreign ctx)"
    "gc_rc (ctx_gc (ctx_done ctx)) = gc_rc (ctx_gc ctx)"
    "unat (gc_mark (ctx_gc (ctx_done ctx))) = Suc (unat (gc_mark (ctx_gc ctx)))"
proof -
  let ?mk = "gc_mark (ctx_gc ctx)"
  have mk: "unat (?mk + 1) = Suc (unat ?mk)" using assms(6) by (simp add: unat_word_ariths)
  then have lt: "x < ?mk + 1" if "x \<le> ?mk" for x using that by (simp add: word_less_nat_alt word_le_nat_alt)
  show "ctx_idle (ctx_done ctx\<lparr>ctx_sent := []\<rparr>)"
    using assms(1-5) lt
    by (auto simp: ctx_idle_def ctx_done_def set_gc_def ponyint_gc_done_def foreign_def ctx_plain_def ctx_ok_def refs_ok_def)
  show "rc_of (foreign (ctx_done ctx)) = rc_of (foreign ctx)" "gc_rc (ctx_gc (ctx_done ctx)) = gc_rc (ctx_gc ctx)"
    "unat (gc_mark (ctx_gc (ctx_done ctx))) = Suc (unat ?mk)"
    using mk by (simp_all add: ctx_done_def set_gc_def ponyint_gc_done_def foreign_def)
qed

section \<open>Whole rounds\<close>

text \<open>References to an actor carried by messages, as numbers.\<close>

definition carried :: "msg_id \<Rightarrow> uint64_t \<Rightarrow> 'f gcmsg list \<Rightarrow> nat" where
  "carried k b msgs = sum_list (map (\<lambda>(to, m, r). if to = b \<and> m = k then unat (ar_rc r) else 0) msgs)"

lemma carried_simps [simp]:
  "carried k b [] = 0"
  "carried k b ((to, m, r) # xs) = (if to = b \<and> m = k then unat (ar_rc r) else 0) + carried k b xs"
  "carried k b (xs @ ys) = carried k b xs + carried k b ys"
  by (simp_all add: carried_def)

lemma carried_map:
  assumes "distinct (map ar_actor m)"
  shows "carried k b (map (\<lambda>r. (ar_actor r, j, r)) m) = (if j = k then unat (rc_of m b) else 0)"
  using assms
proof (induction m)
  case (Cons r m)
  have "b = ar_actor r \<Longrightarrow> aref_get m b = None" using Cons.prems by (simp add: aref_get_None)
  then show ?case using Cons by (auto simp: rc_of_def)
qed (simp add: rc_of_def)

lemma sweep_plain:
  assumes "plain m"
  shows "sweep_kept mk m = filter (\<lambda>r. ar_mark r = mk) m"
    "sweep_sent (\<lambda>_. False) mk m =
      map (\<lambda>r. (ar_actor r, ACTORMSG_RELEASE, r)) (filter (\<lambda>r. ar_mark r \<noteq> mk \<and> ar_rc r \<noteq> 0) m)"
proof -
  have mv: "move_unmarked_objects r mk = (r, None)" if "r \<in> set m" for r
    using assms that by (simp add: plain_def move_unmarked_objects_def)
  show "sweep_kept mk m = filter (\<lambda>r. ar_mark r = mk) m"
    using mv by (auto simp: sweep_kept_def intro!: map_idI)
  show "sweep_sent (\<lambda>_. False) mk m =
      map (\<lambda>r. (ar_actor r, ACTORMSG_RELEASE, r)) (filter (\<lambda>r. ar_mark r \<noteq> mk \<and> ar_rc r \<noteq> 0) m)"
    using assms by (induction m) (auto simp: sweep_sent_def release_msg_def plain_def move_unmarked_objects_def)
qed

lemma rc_of_filter:
  assumes "distinct (map ar_actor m)"
  shows "aref_get (filter P m) b = (case aref_get m b of None \<Rightarrow> None | Some r \<Rightarrow> if P r then Some r else None)"
  using assms by (induction m) (auto simp: aref_get_None split: option.splits)

lemma carried_sweep:
  assumes "distinct (map ar_actor m)" "plain m"
  shows "carried ACTORMSG_RELEASE b (sweep_sent (\<lambda>_. False) mk m) + unat (rc_of (sweep_kept mk m) b) = unat (rc_of m b)"
    "carried ACTORMSG_ACQUIRE b (sweep_sent (\<lambda>_. False) mk m) = 0"
  using carried_map [of "filter (\<lambda>r. ar_mark r \<noteq> mk \<and> ar_rc r \<noteq> 0) m" _ b ACTORMSG_RELEASE] assms(1)
  by (auto simp: sweep_plain [OF assms(2)] rc_of_def rc_of_filter [OF assms(1)] distinct_map_filter split: option.splits)

context counts_actors
begin

lemma each_from_idle:
  assumes idle: "ctx_idle ctx"
    and own: "ctx_current ctx \<in> set as \<longrightarrow> allowed (gc_mark (ctx_gc ctx)) (gc_rc (ctx_gc ctx), gc_rc_mark (ctx_gc ctx))"
  obtains d where "each step (ctx\<lparr>ctx_trace := fns\<rparr>) as = Inr d" "ctx_current d = ctx_current ctx" "ctx_stack d = []"
    "ctx_sent d = []" "gc_mark (ctx_gc d) = gc_mark (ctx_gc ctx)"
    "gc_rc (ctx_gc d) = fst (if ctx_current ctx \<in> set as
        then own (gc_mark (ctx_gc ctx)) (gc_rc (ctx_gc ctx), gc_rc_mark (ctx_gc ctx)) else (gc_rc (ctx_gc ctx), 0))"
    "\<forall>b. actor_view d b = (if b \<in> set as \<and> b \<noteq> ctx_current ctx
        then view (False, rc_of (foreign ctx) b, 0) else (False, rc_of (foreign ctx) b, 0))"
    "ctx_ok d" "ctx_plain d"
proof -
  note ok = idle_ok [OF idle]
  let ?ctx = "ctx\<lparr>ctx_trace := fns\<rparr>"
  have v0: "actor_view ctx b = (False, rc_of (foreign ctx) b, 0)" for b
    using ok(2) idle by (simp add: actor_view_def ctx_idle_def rc_of_def [of "[]"])
  have same: "actor_view ?ctx = actor_view ctx" "ctx_ok ?ctx" "ctx_plain ?ctx" "ctx_stack ?ctx = []" "ctx_sent ?ctx = []"
      "ctx_current ?ctx = ctx_current ctx" "ctx_gc ?ctx = ctx_gc ctx" "ctx_trace ?ctx = fns"
    using ok(1) idle by (simp_all add: actor_view_def actor_marked_def fun_eq_iff foreign_def ctx_ok_def ctx_plain_def ctx_idle_def)
  obtain d where d: "each step ?ctx as = Inr d" "ctx_current d = ctx_current ctx" "ctx_stack d = []"
      "ctx_sent d = []" "gc_mark (ctx_gc d) = gc_mark (ctx_gc ctx)"
      "(gc_rc (ctx_gc d), gc_rc_mark (ctx_gc d)) = (if ctx_current ctx \<in> set as
         then own (gc_mark (ctx_gc ctx)) (gc_rc (ctx_gc ctx), gc_rc_mark (ctx_gc ctx))
         else (gc_rc (ctx_gc ctx), gc_rc_mark (ctx_gc ctx)))"
      "\<forall>b. actor_view d b = (if b \<in> set as \<and> b \<noteq> ctx_current ctx then view (actor_view ctx b) else actor_view ctx b)"
      "ctx_ok d" "ctx_plain d"
    using each_counts [OF same(8), of as] own unfolding same by (simp only: same(2,3) simp_thms) blast
  have "gc_rc (ctx_gc d) = fst (gc_rc (ctx_gc d), gc_rc_mark (ctx_gc d))" by simp
  then have rc: "gc_rc (ctx_gc d) = fst (if ctx_current ctx \<in> set as
      then own (gc_mark (ctx_gc ctx)) (gc_rc (ctx_gc ctx), gc_rc_mark (ctx_gc ctx)) else (gc_rc (ctx_gc ctx), 0))"
    unfolding d(6) by simp
  show thesis using that [OF d(1-5) rc] d(7-9) unfolding v0 by blast
qed

end

lemma ctx_view_rc: "actor_view d b = (m, rc, acq) \<Longrightarrow> rc_of (foreign d) b = rc \<and> rc_of (ctx_acquire d) b = acq \<and> actor_marked d b = m"
  by (auto simp: actor_view_def)

text \<open>Sending the pending acquires.\<close>

definition acquires_sent :: "('f, 'h) pony_ctx_t \<Rightarrow> ('f, 'h) pony_ctx_t" where
  "acquires_sent d = d\<lparr>ctx_acquire := [],
     ctx_sent := ctx_sent d @ map (\<lambda>r. (ar_actor r, ACTORMSG_ACQUIRE, r)) (ctx_acquire d)\<rparr>"

lemma acquires_sent_fields [simp]:
  "foreign (acquires_sent d) = foreign d" "ctx_gc (acquires_sent d) = ctx_gc d" "ctx_acquire (acquires_sent d) = []"
  "ctx_stack (acquires_sent d) = ctx_stack d" "ctx_current (acquires_sent d) = ctx_current d"
  "ctx_ok d \<Longrightarrow> ctx_ok (acquires_sent d)" "ctx_plain d \<Longrightarrow> ctx_plain (acquires_sent d)"
  by (simp_all add: acquires_sent_def foreign_def ctx_ok_def ctx_plain_def)

lemma acquires_sent_carried:
  assumes "ctx_ok d" "ctx_sent d = []"
  shows "carried ACTORMSG_ACQUIRE b (ctx_sent (acquires_sent d)) = unat (rc_of (ctx_acquire d) b)"
    "carried ACTORMSG_RELEASE b (ctx_sent (acquires_sent d)) = 0"
proof -
  have "distinct (map ar_actor (ctx_acquire d))" using assms(1) unfolding ctx_ok_def by blast
  then show "carried ACTORMSG_ACQUIRE b (ctx_sent (acquires_sent d)) = unat (rc_of (ctx_acquire d) b)"
    "carried ACTORMSG_RELEASE b (ctx_sent (acquires_sent d)) = 0"
    using assms(2) by (simp_all add: acquires_sent_def carried_map)
qed

text \<open>
  A round of sending, receiving or collecting from an idle context, with the marks below their limit:
  the new claims on every other actor, the own count, and what the messages sent by the round carry.
\<close>

lemma send_round_result:
  assumes idle: "ctx_idle ctx" and mk: "unat (gc_mark (ctx_gc ctx)) < 2 ^ 32 - 1"
  shows "\<exists>c. send_round (Suc n) env ctx as = Inr c \<and> ctx_idle (c\<lparr>ctx_sent := []\<rparr>) \<and> ctx_current c = ctx_current ctx
    \<and> unat (gc_mark (ctx_gc c)) = Suc (unat (gc_mark (ctx_gc ctx)))
    \<and> gc_rc (ctx_gc c) = gc_rc (ctx_gc ctx) + (if ctx_current ctx \<in> set as then 1 else 0)
    \<and> (\<forall>x \<in> set (ctx_sent c). fst (snd x) = ACTORMSG_ACQUIRE \<and> ar_map (snd (snd x)) = [])
    \<and> (\<forall>b. unat (rc_of (foreign c) b) + (if b \<in> set as \<and> b \<noteq> ctx_current ctx then 1 else 0)
        = unat (rc_of (foreign ctx) b) + carried ACTORMSG_ACQUIRE b (ctx_sent c)
        \<and> carried ACTORMSG_ACQUIRE b (ctx_sent c) \<le> (if b \<in> set as \<and> b \<noteq> ctx_current ctx then 256 else 0))"
proof -
  have own: "fst (send_own (gc_mark (ctx_gc ctx)) (gc_rc (ctx_gc ctx), gc_rc_mark (ctx_gc ctx))) = gc_rc (ctx_gc ctx) + 1"
    using idle_ok(3) [OF idle] by (simp add: send_own_def)
  obtain d where d: "each trace_actor (ctx\<lparr>ctx_trace := Trace_send\<rparr>) as = Inr d" "ctx_current d = ctx_current ctx"
      "ctx_stack d = []" "ctx_sent d = []" "gc_mark (ctx_gc d) = gc_mark (ctx_gc ctx)"
      and rc: "gc_rc (ctx_gc d) = fst (if ctx_current ctx \<in> set as
        then send_own (gc_mark (ctx_gc ctx)) (gc_rc (ctx_gc ctx), gc_rc_mark (ctx_gc ctx)) else (gc_rc (ctx_gc ctx), 0))"
      and vw: "\<forall>b. actor_view d b = (if b \<in> set as \<and> b \<noteq> ctx_current ctx
        then send_view (False, rc_of (foreign ctx) b, 0) else (False, rc_of (foreign ctx) b, 0))"
      and ok: "ctx_ok d" "ctx_plain d"
    by (rule sending.each_from_idle [OF idle, of as]) (simp, rule that)
  let ?c = "ctx_done (acquires_sent d)"
  have res: "send_round (Suc n) env ctx as = Inr ?c"
    using d(1-3) idle
    by (simp add: send_round_def pony_gc_send_def open_round_def pony_send_done_def handlestack_empty sendacquire_result
        pony_assert_def ctx_idle_def acquires_sent_def)
  have fin: "ctx_sent ?c = ctx_sent (acquires_sent d)" "ctx_current ?c = ctx_current ctx"
    using d(2) by (simp_all add: ctx_done_def set_gc_def)
  note dn = idle_after_done [of "acquires_sent d"]
  have idle': "ctx_idle (?c\<lparr>ctx_sent := []\<rparr>)" "rc_of (foreign ?c) = rc_of (foreign d)" "gc_rc (ctx_gc ?c) = gc_rc (ctx_gc d)"
      "unat (gc_mark (ctx_gc ?c)) = Suc (unat (gc_mark (ctx_gc ctx)))"
    using dn d(2,3,5) ok idle mk by (simp_all add: ctx_idle_def)
  have view: "rc_of (foreign d) b = fst (snd (actor_view d b))" "rc_of (ctx_acquire d) b = snd (snd (actor_view d b))" for b
    by (simp_all add: actor_view_def)
  have "unat (rc_of (foreign ?c) b) + (if b \<in> set as \<and> b \<noteq> ctx_current ctx then 1 else 0)
        = unat (rc_of (foreign ctx) b) + carried ACTORMSG_ACQUIRE b (ctx_sent ?c)
        \<and> carried ACTORMSG_ACQUIRE b (ctx_sent ?c) \<le> (if b \<in> set as \<and> b \<noteq> ctx_current ctx then 256 else 0)" for b
    using acquires_sent_carried [OF ok(1) d(4)]
    by (auto simp: fin idle'(2) view vw GC_INC_MORE_def word_le_nat_alt unat_word_ariths unat_sub_if')
  moreover have "\<forall>x \<in> set (ctx_sent ?c). fst (snd x) = ACTORMSG_ACQUIRE \<and> ar_map (snd (snd x)) = []"
    using d(4) ok(2) unfolding fin by (auto simp: acquires_sent_def ctx_plain_def plain_def)
  ultimately show ?thesis using res fin(2) idle' rc own by (intro exI [of _ ?c]) simp
qed

lemma recv_keeps_acquire:
  "ctx_trace ctx = Trace_recv \<Longrightarrow> each trace_actor ctx as = Inr d \<Longrightarrow> ctx_acquire d = ctx_acquire ctx"
proof (induction as arbitrary: ctx)
  case (Cons a as)
  from Cons.prems obtain c where c: "ponyint_gc_recvactor ctx a = Inr c" "each trace_actor c as = Inr d"
    by (cases "ponyint_gc_recvactor ctx a") (auto simp: trace_actor_def [of ctx a])
  have "ctx_trace c = ctx_trace ctx \<and> ctx_acquire c = ctx_acquire ctx"
    using c(1)
    by (auto simp: ponyint_gc_recvactor_def recv_local_actor_def recv_remote_actor_def set_gc_def Let_def pony_assert_def
        touch_actor_def set_foreign_def update_delta_def ponyint_heap_used_def split: if_splits option.splits)
  with Cons.IH [of c] c(2) Cons.prems(1) show ?case by simp
qed simp

lemma recv_round_result:
  assumes idle: "ctx_idle ctx" and mk: "unat (gc_mark (ctx_gc ctx)) < 2 ^ 32 - 1"
    and own: "ctx_current ctx \<in> set as \<longrightarrow> gc_rc (ctx_gc ctx) > 0"
    and room: "\<forall>b. unat (rc_of (foreign ctx) b) < 2 ^ 64 - 1"
  shows "\<exists>c. recv_round (Suc n) env ctx as = Inr c \<and> ctx_idle c \<and> ctx_current c = ctx_current ctx
    \<and> unat (gc_mark (ctx_gc c)) = Suc (unat (gc_mark (ctx_gc ctx)))
    \<and> gc_rc (ctx_gc c) = gc_rc (ctx_gc ctx) - (if ctx_current ctx \<in> set as then 1 else 0)
    \<and> (\<forall>b. unat (rc_of (foreign c) b) =
        unat (rc_of (foreign ctx) b) + (if b \<in> set as \<and> b \<noteq> ctx_current ctx then 1 else 0))"
proof -
  have own': "fst (recv_own (gc_mark (ctx_gc ctx)) (gc_rc (ctx_gc ctx), gc_rc_mark (ctx_gc ctx))) = gc_rc (ctx_gc ctx) - 1"
    using idle_ok(3) [OF idle] by (simp add: recv_own_def)
  obtain d where d: "each trace_actor (ctx\<lparr>ctx_trace := Trace_recv\<rparr>) as = Inr d" "ctx_current d = ctx_current ctx"
      "ctx_stack d = []" "ctx_sent d = []" "gc_mark (ctx_gc d) = gc_mark (ctx_gc ctx)"
      and rc: "gc_rc (ctx_gc d) = fst (if ctx_current ctx \<in> set as
        then recv_own (gc_mark (ctx_gc ctx)) (gc_rc (ctx_gc ctx), gc_rc_mark (ctx_gc ctx)) else (gc_rc (ctx_gc ctx), 0))"
      and vw: "\<forall>b. actor_view d b = (if b \<in> set as \<and> b \<noteq> ctx_current ctx
        then recv_view (False, rc_of (foreign ctx) b, 0) else (False, rc_of (foreign ctx) b, 0))"
      and ok: "ctx_ok d" "ctx_plain d"
    by (rule receiving.each_from_idle [OF idle, of as]) (use own in \<open>simp add: recv_allowed_def\<close>, rule that)
  let ?c = "ctx_done d"
  have acq: "ctx_acquire d = []" using recv_keeps_acquire [OF _ d(1)] idle by (simp add: ctx_idle_def)
  have res: "recv_round (Suc n) env ctx as = Inr ?c"
    using d(1-3) idle
    by (simp add: recv_round_def pony_gc_recv_def open_round_def pony_recv_done_def handlestack_empty pony_assert_def ctx_idle_def)
  have fin: "?c\<lparr>ctx_sent := []\<rparr> = ?c" "ctx_current ?c = ctx_current ctx"
    using d(2,4) by (simp_all add: ctx_done_def set_gc_def)
  have idle': "ctx_idle ?c" "rc_of (foreign ?c) = rc_of (foreign d)" "gc_rc (ctx_gc ?c) = gc_rc (ctx_gc d)"
      "unat (gc_mark (ctx_gc ?c)) = Suc (unat (gc_mark (ctx_gc ctx)))"
    using idle_after_done [of d, unfolded fin] ok d(2,3,5) acq idle mk by (simp_all add: ctx_idle_def)
  have view: "rc_of (foreign d) b = fst (snd (actor_view d b))" for b
    by (simp add: actor_view_def)
  have "unat (rc_of (foreign ?c) b) =
      unat (rc_of (foreign ctx) b) + (if b \<in> set as \<and> b \<noteq> ctx_current ctx then 1 else 0)" for b
    using room [rule_format, of b] by (auto simp: idle'(2) view vw unat_word_ariths)
  then show ?thesis using res fin(2) idle' rc own' by (intro exI [of _ ?c]) simp
qed

text \<open>A collection keeps the traced actors and gives the claims on all others back.\<close>

lemma plain_sweep:
  assumes "ctx_plain d" "ctx_ok d"
  shows "ponyint_gc_sweep (\<lambda>_. False) hs d = d\<lparr>
      ctx_sent := ctx_sent d @ sweep_sent (\<lambda>_. False) (gc_mark (ctx_gc d)) (foreign d),
      ctx_gc := (ctx_gc d)\<lparr>gc_foreign := filter (\<lambda>r. ar_mark r = gc_mark (ctx_gc d)) (foreign d),
        gc_delta := sweep_delta (ctx_noblock d) (gc_mark (ctx_gc d)) (foreign d) (gc_delta (ctx_gc d))\<rparr>\<rparr>"
  using assms(1)
  by (simp add: ponyint_gc_sweep_def ponyint_actormap_sweep_def sweep_loop sweep_plain foreign_def ctx_plain_def Let_def)

lemma mark_round_result:
  assumes idle: "ctx_idle ctx" and mk: "unat (gc_mark (ctx_gc ctx)) < 2 ^ 32 - 1"
    and env: "en_pendingdestroy env = (\<lambda>_. False)"
  shows "\<exists>c acqs rels. mark_round (Suc n) env ctx as = Inr c \<and> ctx_idle (c\<lparr>ctx_sent := []\<rparr>) \<and> ctx_current c = ctx_current ctx
    \<and> unat (gc_mark (ctx_gc c)) = Suc (unat (gc_mark (ctx_gc ctx))) \<and> gc_rc (ctx_gc c) = gc_rc (ctx_gc ctx)
    \<and> ctx_sent c = acqs @ rels
    \<and> (\<forall>x \<in> set acqs. fst (snd x) = ACTORMSG_ACQUIRE) \<and> (\<forall>x \<in> set rels. fst (snd x) = ACTORMSG_RELEASE)
    \<and> (\<forall>x \<in> set (ctx_sent c). ar_map (snd (snd x)) = [])
    \<and> (\<forall>b. unat (rc_of (foreign c) b) + carried ACTORMSG_RELEASE b (ctx_sent c)
          = unat (rc_of (foreign ctx) b) + carried ACTORMSG_ACQUIRE b (ctx_sent c)
        \<and> carried ACTORMSG_ACQUIRE b (ctx_sent c) \<le> (if b \<in> set as \<and> b \<noteq> ctx_current ctx then 256 else 0))"
proof -
  obtain d where d: "each trace_actor (ctx\<lparr>ctx_trace := Trace_mark\<rparr>) as = Inr d" "ctx_current d = ctx_current ctx"
      "ctx_stack d = []" "ctx_sent d = []" "gc_mark (ctx_gc d) = gc_mark (ctx_gc ctx)"
      and rc: "gc_rc (ctx_gc d) = fst (if ctx_current ctx \<in> set as
        then (gc_rc (ctx_gc ctx), gc_rc_mark (ctx_gc ctx)) else (gc_rc (ctx_gc ctx), 0))"
      and vw: "\<forall>b. actor_view d b = (if b \<in> set as \<and> b \<noteq> ctx_current ctx
        then mark_view (False, rc_of (foreign ctx) b, 0) else (False, rc_of (foreign ctx) b, 0))"
      and ok: "ctx_ok d" "ctx_plain d"
    by (rule marking.each_from_idle [OF idle, of as]) (simp, rule that)
  let ?e = "acquires_sent d" and ?mk = "gc_mark (ctx_gc d)"
  let ?s = "ponyint_gc_sweep (\<lambda>_. False) (en_heap_mark_shallow env) ?e"
  let ?c = "ctx_done ?s"
  have "gc_local (ctx_gc d) = []" using ok(2) by (simp add: ctx_plain_def)
  then have res: "mark_round (Suc n) env ctx as = Inr ?c"
    using d(1-3) idle env
    by (simp add: mark_round_def ponyint_gc_mark_def open_round_def ponyint_mark_done_def handlestack_empty
        sendacquire_result pony_assert_def ctx_idle_def acquires_sent_def ponyint_gc_markimmutable_def)
  have sw: "?s = ?e\<lparr>ctx_sent := ctx_sent ?e @ sweep_sent (\<lambda>_. False) ?mk (foreign d),
      ctx_gc := (ctx_gc d)\<lparr>gc_foreign := filter (\<lambda>r. ar_mark r = ?mk) (foreign d),
        gc_delta := sweep_delta (ctx_noblock ?e) ?mk (foreign d) (gc_delta (ctx_gc d))\<rparr>\<rparr>"
    using plain_sweep [of ?e] ok by simp
  have sok: "ctx_ok ?s" "ctx_plain ?s" "ctx_acquire ?s = []" "ctx_stack ?s = []" "ctx_current ?s = ctx_current ctx"
      "gc_mark (ctx_gc ?s) = ?mk" "gc_rc (ctx_gc ?s) = gc_rc (ctx_gc d)"
      "foreign ?s = sweep_kept ?mk (foreign d)"
      "ctx_sent ?s = ctx_sent ?e @ sweep_sent (\<lambda>_. False) ?mk (foreign d)"
    using ok d(2,3) sweep_plain(1) [of "foreign d" ?mk] unfolding sw
    by (auto simp: ctx_ok_def refs_ok_def ctx_plain_def plain_def foreign_def distinct_map_filter)
  have idle': "ctx_idle (?c\<lparr>ctx_sent := []\<rparr>)" "rc_of (foreign ?c) = rc_of (foreign ?s)" "gc_rc (ctx_gc ?c) = gc_rc (ctx_gc ?s)"
      "unat (gc_mark (ctx_gc ?c)) = Suc (unat (gc_mark (ctx_gc ctx)))"
    using idle_after_done [of ?s] sok d(5) idle mk by (simp_all add: ctx_idle_def)
  have fin: "ctx_sent ?c = ctx_sent ?s" "ctx_current ?c = ctx_current ctx"
    using sok(5) by (simp_all add: ctx_done_def set_gc_def)
  have dist: "distinct (map ar_actor (foreign d))" "plain (foreign d)"
    using ok unfolding ctx_ok_def refs_ok_def ctx_plain_def by blast+
  note car = acquires_sent_carried [OF ok(1) d(4)] carried_sweep [OF dist]
  have view: "rc_of (foreign d) b = fst (snd (actor_view d b))" "rc_of (ctx_acquire d) b = snd (snd (actor_view d b))" for b
    by (simp_all add: actor_view_def)
  have "unat (rc_of (foreign ?c) b) + carried ACTORMSG_RELEASE b (ctx_sent ?c)
        = unat (rc_of (foreign ctx) b) + carried ACTORMSG_ACQUIRE b (ctx_sent ?c)
      \<and> carried ACTORMSG_ACQUIRE b (ctx_sent ?c) \<le> (if b \<in> set as \<and> b \<noteq> ctx_current ctx then 256 else 0)" for b
    using car(1,2,4) [of b] car(3) [of b ?mk]
    by (cases "b \<in> set as"; cases "b = ctx_current ctx"; cases "rc_of (foreign ctx) b = 0")
      (simp_all add: fin idle'(2) sok(8,9) view vw GC_INC_MORE_def)
  moreover have "\<forall>x \<in> set (ctx_sent ?c). ar_map (snd (snd x)) = []"
    using ok(2) d(4) sweep_plain(2) [OF dist(2), of ?mk] unfolding fin sok(9)
    by (auto simp: acquires_sent_def ctx_plain_def plain_def)
  moreover have "\<forall>x \<in> set (ctx_sent ?e). fst (snd x) = ACTORMSG_ACQUIRE"
    using d(4) by (auto simp: acquires_sent_def)
  moreover have "\<forall>x \<in> set (sweep_sent (\<lambda>_. False) ?mk (foreign d)). fst (snd x) = ACTORMSG_RELEASE"
    using sweep_plain(2) [OF dist(2), of ?mk] by auto
  ultimately show ?thesis using res fin(2) idle' rc sok(7,9) fin(1)
    by (intro exI [of _ ?c] exI [of _ "ctx_sent ?e"] exI [of _ "sweep_sent (\<lambda>_. False) ?mk (foreign d)"]) simp
qed

text \<open>The mark of an actor is the same again after 2^32 rounds, so an entry not traced since counts as traced.\<close>

lemma gc_mark_wraps: "(ponyint_gc_done ^^ (2 ^ 32)) gc = gc"
proof -
  have "(ponyint_gc_done ^^ n) gc = gc\<lparr>gc_mark := gc_mark gc + of_nat n\<rparr>" for n
    by (induction n) (simp_all add: ponyint_gc_done_def algebra_simps)
  moreover have "(of_nat (2 ^ 32) :: uint32_t) = 0"
    by (simp add: unat_eq_0 [symmetric] unat_of_nat)
  ultimately show ?thesis by simp
qed

end
