(* ===== verification/Gc_Protocol.thy ===== *)
theory Gc_Protocol
  imports Trace
begin

text \<open>
  The protocol of the collector as a whole: actors that send, receive, collect and create, exchanging
  application messages and the acquire and release messages of \<^verbatim>\<open>gc.c\<close>.  The system is a step relation
  over the functions of \<^verbatim>\<open>trace.c\<close> and \<^verbatim>\<open>gc.c\<close>, and the theorems are about all its reachable states.

  Every actor has the context it runs with (contexts belong to scheduler threads in the code, and are
  idle whenever an actor is not running, so it does not matter which one it gets), a queue, and the
  messages of its current round that it has not pushed yet: pushing a message is a step of its own, so
  that other actors run between any two pushes.  Messages carry references to actors; the counts of
  objects are the subject of \<^verbatim>\<open>Gc_Account\<close>.  Handling a message is what \<^verbatim>\<open>handle_message\<close> in \<^verbatim>\<open>actor.c\<close> does for
  the application messages, acquires and releases, without the notices to the cycle detector.
\<close>

section \<open>The system\<close>

datatype 'f pmsg = App "uint64_t list" | Gcm msg_id "'f aref"

record ('f, 'h) sys =
  sy_alive :: "uint64_t set"
  sy_ctx :: "uint64_t \<Rightarrow> ('f, 'h) pony_ctx_t"
  sy_out :: "uint64_t \<Rightarrow> (uint64_t \<times> 'f pmsg) list"
  sy_box :: "uint64_t \<Rightarrow> 'f pmsg list"

definition gc_zero :: "'f gc_t" where
  "gc_zero = \<lparr>gc_mark = 0, gc_rc_mark = 0, gc_rc = 0, gc_local = [], gc_foreign = [], gc_delta = None\<rparr>"

definition ctx_new :: "bool \<Rightarrow> 'h \<Rightarrow> uint64_t \<Rightarrow> ('f, 'h) pony_ctx_t" where
  "ctx_new noblock h a = \<lparr>ctx_current = a, ctx_gc = ponyint_gc_done gc_zero, ctx_heap_used = 0, ctx_heap = h,
     ctx_trace = Trace_null, ctx_acquire = [], ctx_stack = [], ctx_sent = [], ctx_noblock = noblock\<rparr>"

text \<open>
  \<^verbatim>\<open>pony_create\<close>, as far as the collector goes: the counts of the new actor and the context of its creator
  (\<open>ctx_current\<close> 0 is \<^verbatim>\<open>NULL\<close>).
\<close>

definition pony_create :: "('f, 'h) pony_ctx_t \<Rightarrow> uint64_t \<Rightarrow> bool \<Rightarrow> 'f gc_t \<times> ('f, 'h) pony_ctx_t" where
  "pony_create ctx actor orphaned =
     (let gc = ponyint_gc_done gc_zero
      in if ctx_current ctx \<noteq> 0 \<and> \<not> orphaned
         then (gc\<lparr>gc_rc := GC_INC_MORE\<rparr>, ponyint_gc_createactor ctx actor)
         else (gc\<lparr>gc_rc := 0\<rparr>, ctx))"

definition sys_init :: "bool \<Rightarrow> 'h \<Rightarrow> uint64_t \<Rightarrow> ('f, 'h) sys" where
  "sys_init noblock h main = \<lparr>sy_alive = {main}, sy_ctx = ctx_new noblock h, sy_out = (\<lambda>_. []), sy_box = (\<lambda>_. [])\<rparr>"

definition outgoing :: "(uint64_t \<times> msg_id \<times> 'f aref) list \<Rightarrow> (uint64_t \<times> 'f pmsg) list" where
  "outgoing msgs = map (\<lambda>(to, m, r). (to, Gcm m r)) msgs"

inductive sys_step :: "('f, 'h) gc_env \<Rightarrow> ('f, 'h) sys \<Rightarrow> ('f, 'h) sys \<Rightarrow> bool" for env where
  Send: "x \<in> sy_alive s \<Longrightarrow> y \<in> sy_alive s \<Longrightarrow> set as \<subseteq> sy_alive s \<Longrightarrow> sy_out s x = [] \<Longrightarrow>
    send_round 1 env (sy_ctx s x) as = Inr c \<Longrightarrow>
    sys_step env s (s\<lparr>sy_ctx := (sy_ctx s)(x := c\<lparr>ctx_sent := []\<rparr>),
      sy_out := (sy_out s)(x := outgoing (ctx_sent c) @ [(y, App as)])\<rparr>)"
| Deliver: "sy_out s x = (to, m) # rest \<Longrightarrow>
    sys_step env s (s\<lparr>sy_out := (sy_out s)(x := rest), sy_box := (sy_box s)(to := sy_box s to @ [m])\<rparr>)"
| Recv: "y \<in> sy_alive s \<Longrightarrow> sy_out s y = [] \<Longrightarrow> sy_box s y = App as # rest \<Longrightarrow>
    recv_round 1 env (sy_ctx s y) as = Inr c \<Longrightarrow>
    sys_step env s (s\<lparr>sy_ctx := (sy_ctx s)(y := c), sy_box := (sy_box s)(y := rest)\<rparr>)"
| Acquire: "y \<in> sy_alive s \<Longrightarrow> sy_out s y = [] \<Longrightarrow> sy_box s y = Gcm ACTORMSG_ACQUIRE r # rest \<Longrightarrow>
    sys_step env s (s\<lparr>sy_ctx := (sy_ctx s)(y := set_gc (sy_ctx s y) (snd (ponyint_gc_acquire (ctx_gc (sy_ctx s y)) r))),
      sy_box := (sy_box s)(y := rest)\<rparr>)"
| Release: "y \<in> sy_alive s \<Longrightarrow> sy_out s y = [] \<Longrightarrow> sy_box s y = Gcm ACTORMSG_RELEASE r # rest \<Longrightarrow>
    ponyint_gc_release (ctx_gc (sy_ctx s y)) r = Inr (u, g) \<Longrightarrow>
    sys_step env s (s\<lparr>sy_ctx := (sy_ctx s)(y := set_gc (sy_ctx s y) g), sy_box := (sy_box s)(y := rest)\<rparr>)"
| Collect: "x \<in> sy_alive s \<Longrightarrow> sy_out s x = [] \<Longrightarrow> set as \<subseteq> sy_alive s \<Longrightarrow>
    mark_round 1 env (sy_ctx s x) as = Inr c \<Longrightarrow>
    sys_step env s (s\<lparr>sy_ctx := (sy_ctx s)(x := c\<lparr>ctx_sent := []\<rparr>),
      sy_out := (sy_out s)(x := outgoing (ctx_sent c))\<rparr>)"
| Create: "x \<in> sy_alive s \<Longrightarrow> a \<notin> sy_alive s \<Longrightarrow> a \<noteq> 0 \<Longrightarrow> pony_create (sy_ctx s x) a orphaned = (g, c) \<Longrightarrow>
    sys_step env s (s\<lparr>sy_alive := insert a (sy_alive s),
      sy_ctx := (sy_ctx s)(x := c, a := set_gc (sy_ctx s a) g)\<rparr>)"

inductive sys_reach :: "('f, 'h) gc_env \<Rightarrow> nat \<Rightarrow> ('f, 'h) sys \<Rightarrow> bool" for env where
  Start: "main \<noteq> 0 \<Longrightarrow> sys_reach env 0 (sys_init noblock h main)"
| Step: "sys_reach env n s \<Longrightarrow> sys_step env s s' \<Longrightarrow> sys_reach env (Suc n) s'"

section \<open>Counting references\<close>

fun acqs :: "'f pmsg list \<Rightarrow> nat" where
  "acqs [] = 0"
| "acqs (Gcm k r # ms) = (if k = ACTORMSG_ACQUIRE then unat (ar_rc r) else 0) + acqs ms"
| "acqs (App as # ms) = acqs ms"

fun rels :: "'f pmsg list \<Rightarrow> nat" where
  "rels [] = 0"
| "rels (Gcm k r # ms) = (if k = ACTORMSG_RELEASE then unat (ar_rc r) else 0) + rels ms"
| "rels (App as # ms) = rels ms"

fun apps :: "uint64_t \<Rightarrow> 'f pmsg list \<Rightarrow> nat" where
  "apps b [] = 0"
| "apps b (Gcm k r # ms) = apps b ms"
| "apps b (App as # ms) = (if b \<in> set as then 1 else 0) + apps b ms"

text \<open>Whether a count covers the messages of a queue when they are handled in order.\<close>

fun covered :: "uint64_t \<Rightarrow> nat \<Rightarrow> 'f pmsg list \<Rightarrow> bool" where
  "covered b n [] \<longleftrightarrow> True"
| "covered b n (Gcm k r # ms) \<longleftrightarrow>
     (if k = ACTORMSG_ACQUIRE then covered b (n + unat (ar_rc r)) ms
      else unat (ar_rc r) \<le> n \<and> covered b (n - unat (ar_rc r)) ms)"
| "covered b n (App as # ms) \<longleftrightarrow>
     (if b \<in> set as then 0 < n \<and> covered b (n - 1) ms else covered b n ms)"

lemma sums_append [simp]:
  "acqs (ms @ ms') = acqs ms + acqs ms'" "rels (ms @ ms') = rels ms + rels ms'" "apps b (ms @ ms') = apps b ms + apps b ms'"
  by (induction ms rule: acqs.induct; simp)+

lemma covered_mono: "covered b n ms \<Longrightarrow> n \<le> n' \<Longrightarrow> covered b n' ms"
  by (induction b n ms arbitrary: n' rule: covered.induct) (auto split: if_splits)

lemma msg_id_cases: "k \<noteq> ACTORMSG_ACQUIRE \<longleftrightarrow> k = ACTORMSG_RELEASE"
  by (cases k) simp_all

lemma covered_snoc:
  "covered b n (ms @ [m]) \<longleftrightarrow> covered b n ms \<and> rels (ms @ [m]) + apps b (ms @ [m]) \<le> n + acqs ms"
proof (induction b n ms rule: covered.induct)
  case (1 b n)
  then show ?case by (cases m) (auto simp: msg_id_cases split: if_splits)
next
  case (2 b n k r ms)
  then show ?case by (auto simp: msg_id_cases split: if_splits)
next
  case (3 b n as ms)
  then show ?case by (auto split: if_splits)
qed

definition addressed :: "uint64_t \<Rightarrow> (uint64_t \<times> 'f pmsg) list \<Rightarrow> 'f pmsg list" where
  "addressed b out = map snd (filter (\<lambda>x. fst x = b) out)"

lemma addressed_simps [simp]:
  "addressed b [] = []" "addressed b (x # out) = (if fst x = b then [snd x] else []) @ addressed b out"
  "addressed b (xs @ ys) = addressed b xs @ addressed b ys"
  by (simp_all add: addressed_def)

lemma outgoing_sums:
  "acqs (addressed b (outgoing msgs)) = carried ACTORMSG_ACQUIRE b msgs"
  "rels (addressed b (outgoing msgs)) = carried ACTORMSG_RELEASE b msgs"
  "apps b (map snd (outgoing msgs)) = 0"
  by (induction msgs) (auto simp: outgoing_def)

text \<open>Acquires leave an actor before what they pay for.\<close>

fun acquires_first :: "(uint64_t \<times> 'f pmsg) list \<Rightarrow> bool" where
  "acquires_first [] \<longleftrightarrow> True"
| "acquires_first ((to, Gcm k r) # ms) \<longleftrightarrow> (if k = ACTORMSG_ACQUIRE then acquires_first ms else acqs (map snd ms) = 0 \<and> acquires_first ms)"
| "acquires_first ((to, App as) # ms) \<longleftrightarrow> acqs (map snd ms) = 0 \<and> acquires_first ms"

section \<open>The invariant\<close>

text \<open>
  The references to \<open>b\<close> that actor \<open>x\<close> answers for: those it claims and those in messages it has not
  handed over yet.
\<close>

definition claim :: "('f, 'h) sys \<Rightarrow> uint64_t \<Rightarrow> uint64_t \<Rightarrow> nat" where
  "claim s x b = unat (rc_of (foreign (sy_ctx s x)) b)"

definition held :: "('f, 'h) sys \<Rightarrow> uint64_t \<Rightarrow> uint64_t \<Rightarrow> nat" where
  "held s x b = claim s x b + apps b (map snd (sy_out s x)) + rels (addressed b (sy_out s x))"

definition own_rc :: "('f, 'h) sys \<Rightarrow> uint64_t \<Rightarrow> nat" where
  "own_rc s b = unat (gc_rc (ctx_gc (sy_ctx s b)))"

definition references :: "('f, 'h) sys \<Rightarrow> uint64_t \<Rightarrow> nat" where
  "references s b = (\<Sum>x \<in> UNIV. held s x b) + (\<Sum>x \<in> UNIV. apps b (sy_box s x)) + rels (sy_box s b)"

definition recorded :: "('f, 'h) sys \<Rightarrow> uint64_t \<Rightarrow> nat" where
  "recorded s b = own_rc s b + acqs (sy_box s b) + (\<Sum>x \<in> UNIV. acqs (addressed b (sy_out s x)))"

fun plain_msgs :: "'f pmsg list \<Rightarrow> bool" where
  "plain_msgs [] \<longleftrightarrow> True"
| "plain_msgs (Gcm k r # ms) \<longleftrightarrow> ar_map r = [] \<and> plain_msgs ms"
| "plain_msgs (App as # ms) \<longleftrightarrow> plain_msgs ms"

lemma plain_msgs_append [simp]: "plain_msgs (ms @ ms') \<longleftrightarrow> plain_msgs ms \<and> plain_msgs ms'"
  by (induction ms rule: plain_msgs.induct) auto

definition actors_ok :: "nat \<Rightarrow> ('f, 'h) sys \<Rightarrow> bool" where
  "actors_ok n s \<longleftrightarrow> 0 \<notin> sy_alive s \<and> (\<forall>x. x \<noteq> 0 \<longrightarrow> ctx_idle (sy_ctx s x) \<and> ctx_current (sy_ctx s x) = x
     \<and> unat (gc_mark (ctx_gc (sy_ctx s x))) \<le> Suc n) \<and> (\<forall>x. claim s x x = 0)
     \<and> (\<forall>x. x \<notin> sy_alive s \<longrightarrow> foreign (sy_ctx s x) = [] \<and> sy_out s x = [] \<and> references s x = 0)"

definition messages_ok :: "('f, 'h) sys \<Rightarrow> bool" where
  "messages_ok s \<longleftrightarrow> (\<forall>x. acquires_first (sy_out s x) \<and> plain_msgs (map snd (sy_out s x)) \<and> plain_msgs (sy_box s x))"

definition counts_ok :: "nat \<Rightarrow> ('f, 'h) sys \<Rightarrow> bool" where
  "counts_ok n s \<longleftrightarrow> (\<forall>b. recorded s b = references s b \<and> references s b \<le> 256 * n \<and> covered b (own_rc s b) (sy_box s b)
     \<and> (\<forall>x. acqs (addressed b (sy_out s x)) \<le> held s x b))"

definition sys_inv :: "nat \<Rightarrow> ('f, 'h) sys \<Rightarrow> bool" where
  "sys_inv n s \<longleftrightarrow> actors_ok n s \<and> messages_ok s \<and> counts_ok n s"

lemma sys_invD:
  assumes "sys_inv n s"
  shows "0 \<notin> sy_alive s" "x \<noteq> 0 \<Longrightarrow> ctx_idle (sy_ctx s x)" "x \<noteq> 0 \<Longrightarrow> ctx_current (sy_ctx s x) = x"
    "x \<noteq> 0 \<Longrightarrow> unat (gc_mark (ctx_gc (sy_ctx s x))) \<le> Suc n" "claim s x x = 0"
    "x \<notin> sy_alive s \<Longrightarrow> foreign (sy_ctx s x) = []" "x \<notin> sy_alive s \<Longrightarrow> sy_out s x = []"
    "x \<notin> sy_alive s \<Longrightarrow> references s x = 0"
    "acquires_first (sy_out s x)" "plain_msgs (map snd (sy_out s x))" "plain_msgs (sy_box s x)"
    "recorded s b = references s b" "references s b \<le> 256 * n" "covered b (own_rc s b) (sy_box s b)"
    "acqs (addressed b (sy_out s x)) \<le> held s x b"
  using assms by (auto simp: sys_inv_def actors_ok_def messages_ok_def counts_ok_def)

lemma sum_change:
  fixes F F' :: "uint64_t \<Rightarrow> nat"
  assumes "\<And>y. y \<noteq> x \<Longrightarrow> F' y = F y"
  shows "sum F' UNIV + F x = sum F UNIV + F' x"
proof -
  have "sum F' (UNIV - {x}) = sum F (UNIV - {x})" using assms by (intro sum.cong) auto
  then show ?thesis using sum.remove [of UNIV x F] sum.remove [of UNIV x F'] by simp
qed

lemma sum_part: "F x \<le> sum F (UNIV :: uint64_t set)" for F :: "uint64_t \<Rightarrow> nat"
  by (rule member_le_sum) auto

text \<open>What the queue of an actor asks for is covered, and more can be handed over by \<open>x\<close>.\<close>

lemma queue_covered:
  assumes "sys_inv n s"
  shows "rels (sy_box s b) + apps b (sy_box s b) + (held s x b - acqs (addressed b (sy_out s x)))
    \<le> own_rc s b + acqs (sy_box s b)"
proof -
  let ?H = "\<lambda>x. held s x b" and ?A = "\<lambda>x. acqs (addressed b (sy_out s x))"
  have le: "?A y \<le> ?H y" for y using sys_invD(15) [OF assms] by blast
  have "sum ?H UNIV = sum ?A UNIV + (\<Sum>y \<in> UNIV. ?H y - ?A y)"
    unfolding sum.distrib [symmetric] by (rule sum.cong) (simp_all add: le)
  moreover have "?H x - ?A x \<le> (\<Sum>y \<in> UNIV. ?H y - ?A y)" by (rule sum_part)
  moreover have "apps b (sy_box s b) \<le> (\<Sum>y \<in> UNIV. apps b (sy_box s y))" by (rule sum_part)
  ultimately show ?thesis
    using sys_invD(12) [OF assms, of b] unfolding recorded_def references_def by linarith
qed

section \<open>The steps keep the invariant\<close>

lemma rc_of_Nil [simp]: "rc_of [] b = 0"
  by (simp add: rc_of_def)

lemma init_inv:
  assumes "main \<noteq> 0"
  shows "sys_inv 0 (sys_init noblock h main)"
proof -
  have "claim (sys_init noblock h main :: ('a, 'b) sys) x b = 0" "held (sys_init noblock h main :: ('a, 'b) sys) x b = 0"
    "own_rc (sys_init noblock h main :: ('a, 'b) sys) b = 0" for x b
    by (simp_all add: claim_def held_def own_rc_def sys_init_def ctx_new_def foreign_def ponyint_gc_done_def gc_zero_def)
  then show ?thesis
    using assms
    by (simp add: sys_inv_def actors_ok_def messages_ok_def counts_ok_def references_def recorded_def)
      (simp add: sys_init_def ctx_new_def ctx_idle_def ctx_plain_def foreign_def ponyint_gc_done_def gc_zero_def word_less_nat_alt)
qed

text \<open>A round of actor \<open>x\<close> that leaves \<open>ms\<close> to be handed over.\<close>

lemma round_inv:
  assumes inv: "sys_inv n s" and x: "x \<in> sy_alive s" "sy_out s x = []"
    and c: "ctx_idle c" "ctx_current c = x" "unat (gc_mark (ctx_gc c)) \<le> Suc (Suc n)"
    and rc: "unat (gc_rc (ctx_gc c)) = own_rc s x + k"
    and ms: "acquires_first ms" "plain_msgs (map snd ms)"
    and acc: "\<forall>b. unat (rc_of (foreign c) b) + apps b (map snd ms) + rels (addressed b ms) =
      claim s x b + acqs (addressed b ms) + (if b = x then k else 0)"
    and le: "\<forall>b. acqs (addressed b ms) + (if b = x then k else 0) \<le> (if b \<in> sy_alive s then 256 else 0)"
    and self: "rc_of (foreign c) x = 0"
  shows "sys_inv (Suc n) (s\<lparr>sy_ctx := (sy_ctx s)(x := c), sy_out := (sy_out s)(x := ms)\<rparr>)"
proof -
  let ?s = "s\<lparr>sy_ctx := (sy_ctx s)(x := c), sy_out := (sy_out s)(x := ms)\<rparr>"
  let ?d = "\<lambda>b. acqs (addressed b ms) + (if b = x then k else 0)"
  note D = sys_invD [OF inv]
  have hx: "held ?s x b = held s x b + ?d b" for b
    using acc [rule_format, of b] x(2) by (simp add: held_def claim_def)
  have ho: "held ?s y b = held s y b" if "y \<noteq> x" for y b using that by (simp add: held_def claim_def)
  have H: "(\<Sum>y \<in> UNIV. held ?s y b) = (\<Sum>y \<in> UNIV. held s y b) + ?d b" for b
    using sum_change [of x "\<lambda>y. held ?s y b" "\<lambda>y. held s y b"] ho hx [of b] by simp
  have A: "(\<Sum>y \<in> UNIV. acqs (addressed b (sy_out ?s y))) = (\<Sum>y \<in> UNIV. acqs (addressed b (sy_out s y))) + acqs (addressed b ms)" for b
    using sum_change [of x "\<lambda>y. acqs (addressed b (sy_out ?s y))" "\<lambda>y. acqs (addressed b (sy_out s y))"] x(2) by simp
  have own: "own_rc ?s b = own_rc s b + (if b = x then k else 0)" for b using rc by (simp add: own_rc_def)
  have ref: "references ?s b = references s b + ?d b" for b unfolding references_def H by simp
  have rec: "recorded ?s b = recorded s b + ?d b" for b unfolding recorded_def A own by simp
  have "references ?s b \<le> 256 * Suc n" for b
    using ref [of b] D(13) [of b] le [rule_format, of b] by (simp split: if_splits)
  moreover have "references ?s b = 0" if "b \<notin> sy_alive s" for b
    using that ref [of b] D(8) [OF that] le [rule_format, of b] by simp
  moreover have "covered b (own_rc ?s b) (sy_box ?s b)" for b
    using D(14) [of b] own [of b] by (auto intro: covered_mono)
  moreover have "acqs (addressed b (sy_out ?s y)) \<le> held ?s y b" for y b
    using D(15) [of b y] hx [of b] ho [of y b] by (cases "y = x") auto
  moreover have "claim ?s y y = 0" for y using D(5) [of y] self by (simp add: claim_def)
  moreover have "x \<noteq> 0" using x(1) D(1) by auto
  ultimately show ?thesis
    using D c ms x(1) rec ref
    unfolding sys_inv_def actors_ok_def messages_ok_def counts_ok_def
    by (auto simp: le_SucI)
qed

lemma acquires_first_append:
  assumes "\<forall>x \<in> set xs. fst (snd x) = ACTORMSG_ACQUIRE" "acqs (map snd ys) = 0" "acquires_first ys"
  shows "acquires_first (outgoing xs @ ys)"
  using assms by (induction xs) (auto simp: outgoing_def)

lemma acquires_first_rels:
  assumes "\<forall>x \<in> set xs. fst (snd x) = ACTORMSG_RELEASE"
  shows "acqs (map snd (outgoing xs)) = 0 \<and> acquires_first (outgoing xs)"
  using assms by (induction xs) (auto simp: outgoing_def)

lemma outgoing_append: "outgoing (xs @ ys) = outgoing xs @ outgoing ys"
  by (simp add: outgoing_def)

lemma outgoing_plain: "\<forall>x \<in> set xs. ar_map (snd (snd x)) = [] \<Longrightarrow> plain_msgs (map snd (outgoing xs))"
  by (induction xs) (auto simp: outgoing_def)

lemma own_le_references: "sys_inv n s \<Longrightarrow> own_rc s b + acqs (sy_box s b) \<le> 256 * n"
  using sys_invD(12,13) [of n s b] by (simp add: recorded_def)

lemma send_inv:
  assumes inv: "sys_inv n s" and n: "n < 2 ^ 32 - 2" and x: "x \<in> sy_alive s" "sy_out s x = []"
    and as: "set as \<subseteq> sy_alive s" and c: "send_round 1 env (sy_ctx s x) as = Inr c"
  shows "sys_inv (Suc n) (s\<lparr>sy_ctx := (sy_ctx s)(x := c\<lparr>ctx_sent := []\<rparr>),
      sy_out := (sy_out s)(x := outgoing (ctx_sent c) @ [(y, App as)])\<rparr>)"
proof -
  note D = sys_invD [OF inv]
  have x0: "x \<noteq> 0" using x(1) D(1) by auto
  note cur = D(3) [OF x0]
  have mk: "unat (gc_mark (ctx_gc (sy_ctx s x))) < 2 ^ 32 - 1" using D(4) [OF x0] n by simp
  let ?k = "if x \<in> set as then 1 else 0 :: nat"
  obtain c' where c': "send_round 1 env (sy_ctx s x) as = Inr c'" "ctx_idle (c'\<lparr>ctx_sent := []\<rparr>)" "ctx_current c' = x"
      "unat (gc_mark (ctx_gc c')) = Suc (unat (gc_mark (ctx_gc (sy_ctx s x))))"
      "gc_rc (ctx_gc c') = gc_rc (ctx_gc (sy_ctx s x)) + (if x \<in> set as then 1 else 0)"
      "\<forall>x \<in> set (ctx_sent c'). fst (snd x) = ACTORMSG_ACQUIRE \<and> ar_map (snd (snd x)) = []"
      "\<forall>b. unat (rc_of (foreign c') b) + (if b \<in> set as \<and> b \<noteq> x then 1 else 0)
        = claim s x b + carried ACTORMSG_ACQUIRE b (ctx_sent c')
        \<and> carried ACTORMSG_ACQUIRE b (ctx_sent c') \<le> (if b \<in> set as \<and> b \<noteq> x then 256 else 0)"
    using send_round_result [OF D(2) [OF x0] mk, of 0 env as] unfolding cur claim_def One_nat_def by blast
  have "c' = c" using c c'(1) by simp
  note c' = c'(2-) [unfolded this]
  have car0: "carried ACTORMSG_RELEASE b (ctx_sent c) = 0" for b
    using c'(5) by (auto simp: carried_def sum_list_eq_0_iff)
  have "own_rc s x \<le> 256 * n" using own_le_references [OF inv, of x] by simp
  then have rc: "unat (gc_rc (ctx_gc c)) = own_rc s x + ?k"
    using c'(4) n by (auto simp: own_rc_def unat_word_ariths)
  have f: "foreign (c\<lparr>ctx_sent := []\<rparr>) = foreign c" by (simp add: foreign_def)
  show ?thesis
  proof (rule round_inv [OF inv x(1,2) c'(1), where k = ?k])
    show "acquires_first (outgoing (ctx_sent c) @ [(y, App as)])" using c'(5) by (intro acquires_first_append) auto
    show "plain_msgs (map snd (outgoing (ctx_sent c) @ [(y, App as)]))" using c'(5) outgoing_plain [of "ctx_sent c"] by simp
    show "\<forall>b. unat (rc_of (foreign (c\<lparr>ctx_sent := []\<rparr>)) b) + apps b (map snd (outgoing (ctx_sent c) @ [(y, App as)]))
        + rels (addressed b (outgoing (ctx_sent c) @ [(y, App as)])) =
      claim s x b + acqs (addressed b (outgoing (ctx_sent c) @ [(y, App as)])) + (if b = x then ?k else 0)"
    proof
      fix b
      show "unat (rc_of (foreign (c\<lparr>ctx_sent := []\<rparr>)) b) + apps b (map snd (outgoing (ctx_sent c) @ [(y, App as)]))
          + rels (addressed b (outgoing (ctx_sent c) @ [(y, App as)])) =
        claim s x b + acqs (addressed b (outgoing (ctx_sent c) @ [(y, App as)])) + (if b = x then ?k else 0)"
        using c'(6) [rule_format, of b] by (auto simp: f outgoing_sums car0 split: if_splits)
    qed
    show "\<forall>b. acqs (addressed b (outgoing (ctx_sent c) @ [(y, App as)])) + (if b = x then ?k else 0) \<le>
        (if b \<in> sy_alive s then 256 else 0)"
    proof
      fix b
      show "acqs (addressed b (outgoing (ctx_sent c) @ [(y, App as)])) + (if b = x then ?k else 0) \<le>
          (if b \<in> sy_alive s then 256 else 0)"
        using c'(6) [rule_format, of b] subsetD [OF as, of b] x(1)
        by (cases "b \<in> set as"; cases "b = x") (simp_all add: outgoing_sums)
    qed
    show "rc_of (foreign (c\<lparr>ctx_sent := []\<rparr>)) x = 0"
      using c'(6) [rule_format, of x] D(5) [of x] unfolding f by (simp add: unat_eq_0 [symmetric])
  qed (use c'(2,3) rc D(4) [OF x0] in simp_all)
qed

lemma collect_inv:
  assumes inv: "sys_inv n s" and n: "n < 2 ^ 32 - 2" and x: "x \<in> sy_alive s" "sy_out s x = []"
    and as: "set as \<subseteq> sy_alive s" and c: "mark_round 1 env (sy_ctx s x) as = Inr c"
    and env: "en_pendingdestroy env = (\<lambda>_. False)"
  shows "sys_inv (Suc n) (s\<lparr>sy_ctx := (sy_ctx s)(x := c\<lparr>ctx_sent := []\<rparr>),
      sy_out := (sy_out s)(x := outgoing (ctx_sent c))\<rparr>)"
proof -
  note D = sys_invD [OF inv]
  have x0: "x \<noteq> 0" using x(1) D(1) by auto
  note cur = D(3) [OF x0]
  have mk: "unat (gc_mark (ctx_gc (sy_ctx s x))) < 2 ^ 32 - 1" using D(4) [OF x0] n by simp
  obtain c' xs ys where c': "mark_round 1 env (sy_ctx s x) as = Inr c'" "ctx_idle (c'\<lparr>ctx_sent := []\<rparr>)" "ctx_current c' = x"
      "unat (gc_mark (ctx_gc c')) = Suc (unat (gc_mark (ctx_gc (sy_ctx s x))))"
      "gc_rc (ctx_gc c') = gc_rc (ctx_gc (sy_ctx s x))" "ctx_sent c' = xs @ ys"
      "\<forall>x \<in> set xs. fst (snd x) = ACTORMSG_ACQUIRE" "\<forall>x \<in> set ys. fst (snd x) = ACTORMSG_RELEASE"
      "\<forall>x \<in> set (ctx_sent c'). ar_map (snd (snd x)) = []"
      "\<forall>b. unat (rc_of (foreign c') b) + carried ACTORMSG_RELEASE b (ctx_sent c')
          = claim s x b + carried ACTORMSG_ACQUIRE b (ctx_sent c')
        \<and> carried ACTORMSG_ACQUIRE b (ctx_sent c') \<le> (if b \<in> set as \<and> b \<noteq> x then 256 else 0)"
    using mark_round_result [OF D(2) [OF x0] mk env, of 0 as] unfolding cur claim_def One_nat_def by blast
  have "c' = c" using c c'(1) by simp
  note c' = c'(2-) [unfolded this]
  have f: "foreign (c\<lparr>ctx_sent := []\<rparr>) = foreign c" by (simp add: foreign_def)
  show ?thesis
  proof (rule round_inv [OF inv x(1,2) c'(1), where k = 0])
    show "acquires_first (outgoing (ctx_sent c))"
      unfolding c'(5) outgoing_append using acquires_first_append [OF c'(6)] acquires_first_rels [OF c'(7)] by blast
    show "plain_msgs (map snd (outgoing (ctx_sent c)))" using c'(8) outgoing_plain by blast
    show "\<forall>b. unat (rc_of (foreign (c\<lparr>ctx_sent := []\<rparr>)) b) + apps b (map snd (outgoing (ctx_sent c)))
        + rels (addressed b (outgoing (ctx_sent c))) =
      claim s x b + acqs (addressed b (outgoing (ctx_sent c))) + (if b = x then 0 else 0)"
      using c'(9) by (auto simp: f outgoing_sums)
    show "\<forall>b. acqs (addressed b (outgoing (ctx_sent c))) + (if b = x then 0 else 0) \<le> (if b \<in> sy_alive s then 256 else 0)"
    proof
      fix b
      show "acqs (addressed b (outgoing (ctx_sent c))) + (if b = x then 0 else 0) \<le> (if b \<in> sy_alive s then 256 else 0)"
        using c'(9) [rule_format, of b] subsetD [OF as, of b] x(1)
        by (cases "b \<in> set as"; cases "b = x") (simp_all add: outgoing_sums)
    qed
    show "rc_of (foreign (c\<lparr>ctx_sent := []\<rparr>)) x = 0"
      using c'(9) [rule_format, of x] D(5) [of x] unfolding f by (simp add: unat_eq_0 [symmetric])
  qed (use c'(2,3,4) D(4) [OF x0] in \<open>simp_all add: own_rc_def\<close>)
qed

lemma acqs_addressed: "acqs (map snd ms) = 0 \<Longrightarrow> acqs (addressed b ms) = 0"
proof (induction ms)
  case (Cons a ms)
  then show ?case by (cases a; cases "snd a") (auto split: if_splits)
qed simp

lemma deliver_inv:
  assumes inv: "sys_inv n s" and out: "sy_out s x = (to, m) # rest"
  shows "sys_inv (Suc n) (s\<lparr>sy_out := (sy_out s)(x := rest), sy_box := (sy_box s)(to := sy_box s to @ [m])\<rparr>)"
proof -
  let ?s = "s\<lparr>sy_out := (sy_out s)(x := rest), sy_box := (sy_box s)(to := sy_box s to @ [m])\<rparr>"
  note D = sys_invD [OF inv]
  let ?rl = "\<lambda>b. if to = b then rels [m] else 0" and ?ac = "\<lambda>b. if to = b then acqs [m] else 0"
  have one: "held s x b = held ?s x b + apps b [m] + ?rl b" "acqs (addressed b (sy_out s x)) = acqs (addressed b rest) + ?ac b" for b
    using out by (cases m; auto simp: held_def claim_def)+
  have ho: "held ?s y b = held s y b" if "y \<noteq> x" for y b using that by (simp add: held_def claim_def)
  have H: "(\<Sum>y \<in> UNIV. held ?s y b) + apps b [m] + ?rl b = (\<Sum>y \<in> UNIV. held s y b)" for b
    using sum_change [of x "\<lambda>y. held ?s y b" "\<lambda>y. held s y b"] ho one(1) [of b] by simp
  have A: "(\<Sum>y \<in> UNIV. acqs (addressed b (sy_out ?s y))) + ?ac b = (\<Sum>y \<in> UNIV. acqs (addressed b (sy_out s y)))" for b
    using sum_change [of x "\<lambda>y. acqs (addressed b (sy_out ?s y))" "\<lambda>y. acqs (addressed b (sy_out s y))"] one(2) [of b] by simp
  have Q: "(\<Sum>y \<in> UNIV. apps b (sy_box ?s y)) = (\<Sum>y \<in> UNIV. apps b (sy_box s y)) + apps b [m]" for b
    using sum_change [of to "\<lambda>y. apps b (sy_box ?s y)" "\<lambda>y. apps b (sy_box s y)"] by simp
  have own: "own_rc ?s b = own_rc s b" "claim ?s y b = claim s y b" for y b by (simp_all add: own_rc_def claim_def)
  have ref: "references ?s b = references s b" for b
    using H [of b] Q [of b] by (cases "to = b") (auto simp: references_def)
  have rec: "recorded ?s b = recorded s b" for b
    using A [of b] own(1) [of b] by (cases "to = b") (auto simp: recorded_def)
  have tail: "acquires_first rest" "plain_msgs (map snd rest)" "plain_msgs [m]"
      "acqs [m] = 0 \<longrightarrow> (\<exists>r. m = Gcm ACTORMSG_ACQUIRE r) \<or> acqs (map snd rest) = 0"
    using D(9,10) [of x] out by (cases m; auto split: if_splits)+
  have pays: "acqs (addressed b rest) \<le> held ?s x b" for b
  proof (cases "apps b [m] + ?rl b = 0")
    case True
    then show ?thesis using D(15) [of b x] one [of b] by linarith
  next
    case False
    then have "\<nexists>r. m = Gcm ACTORMSG_ACQUIRE r" "acqs [m] = 0" by (cases m; auto simp: msg_id_cases split: if_splits)+
    then show ?thesis using tail(4) acqs_addressed [of rest b] by simp
  qed
  have cov: "covered b (own_rc s b) (sy_box ?s b)" for b
  proof (cases "b = to")
    case True
    have "rels [m] + apps b [m] \<le> held s x b - acqs (addressed b (sy_out s x))"
    proof (cases "rels [m] + apps b [m] = 0")
      case False
      then have "\<nexists>r. m = Gcm ACTORMSG_ACQUIRE r" "acqs [m] = 0" by (cases m; auto simp: msg_id_cases split: if_splits)+
      then have "acqs (addressed b (sy_out s x)) = 0" using tail(4) acqs_addressed [of rest b] one(2) [of b] by simp
      then show ?thesis using one(1) [of b] True by simp
    qed simp
    then show ?thesis using queue_covered [OF inv, of b x] D(14) [of b] True by (simp add: covered_snoc)
  next
    case False
    then show ?thesis using D(14) [of b] by simp
  qed
  have "acqs (addressed b (sy_out ?s y)) \<le> held ?s y b" for y b
    using D(15) [of b y] pays [of b] ho [of y b] by (cases "y = x") auto
  moreover have "x \<in> sy_alive s" using D(7) [of x] out by auto
  moreover have "references s b \<le> 256 * Suc n" for b using D(13) [of b] by simp
  ultimately show ?thesis
    using D tail cov ref rec own
    unfolding sys_inv_def actors_ok_def messages_ok_def counts_ok_def
    by (auto simp: le_SucI)
qed

text \<open>Handling a message at the head of the queue of \<open>y\<close>: the context and the queue of \<open>y\<close> change.\<close>

lemma handle_inv:
  assumes inv: "sys_inv n s" and y: "y \<in> sy_alive s" "sy_out s y = []" "sy_box s y = m # rest"
    and c: "ctx_idle c" "ctx_current c = y" "unat (gc_mark (ctx_gc c)) \<le> Suc (Suc n)"
    and claims: "\<forall>b. unat (rc_of (foreign c) b) = claim s y b + (if b = y then 0 else apps b [m])"
    and rc: "unat (gc_rc (ctx_gc c)) + apps y [m] + rels [m] = own_rc s y + acqs [m]"
    and cov: "covered y (unat (gc_rc (ctx_gc c))) rest"
  shows "sys_inv (Suc n) (s\<lparr>sy_ctx := (sy_ctx s)(y := c), sy_box := (sy_box s)(y := rest)\<rparr>)"
proof -
  let ?s = "s\<lparr>sy_ctx := (sy_ctx s)(y := c), sy_box := (sy_box s)(y := rest)\<rparr>"
  note D = sys_invD [OF inv]
  have split: "acqs (m # rest) = acqs [m] + acqs rest" "rels (m # rest) = rels [m] + rels rest"
      "apps b (m # rest) = apps b [m] + apps b rest" for b
    by (cases m; simp)+
  have hx: "held ?s y b = held s y b + (if b = y then 0 else apps b [m])" for b
    using claims [rule_format, of b] by (simp add: held_def claim_def)
  have ho: "held ?s z b = held s z b" if "z \<noteq> y" for z b using that by (simp add: held_def claim_def)
  have H: "(\<Sum>z \<in> UNIV. held ?s z b) = (\<Sum>z \<in> UNIV. held s z b) + (if b = y then 0 else apps b [m])" for b
    using sum_change [of y "\<lambda>z. held ?s z b" "\<lambda>z. held s z b"] ho hx [of b] by simp
  have Q: "(\<Sum>z \<in> UNIV. apps b (sy_box ?s z)) + apps b [m] = (\<Sum>z \<in> UNIV. apps b (sy_box s z))" for b
    using sum_change [of y "\<lambda>z. apps b (sy_box ?s z)" "\<lambda>z. apps b (sy_box s z)"] split(3) [of b] y(3) by simp
  have own: "own_rc ?s b = (if b = y then unat (gc_rc (ctx_gc c)) else own_rc s b)" for b by (simp add: own_rc_def)
  have ref: "references ?s b + (if b = y then apps b [m] + rels [m] else 0) = references s b" for b
    using H [of b] Q [of b] split(2) y(3) by (auto simp: references_def)
  have rec: "recorded ?s b + (if b = y then apps b [m] + rels [m] else 0) = recorded s b" for b
    using own [of b] split(1) y(3) rc by (auto simp: recorded_def)
  have eq: "recorded ?s b = references ?s b" "references ?s b \<le> references s b" for b
    using ref [of b] rec [of b] D(12) [of b] by linarith+
  have "references ?s b \<le> 256 * Suc n" for b using eq(2) [of b] D(13) [of b] by simp
  moreover have "references ?s b = 0" if "b \<notin> sy_alive s" for b using eq(2) [of b] D(8) [OF that] by simp
  moreover have "covered b (own_rc ?s b) (sy_box ?s b)" for b using own [of b] D(14) [of b] cov by simp
  moreover have "acqs (addressed b (sy_out ?s z)) \<le> held ?s z b" for z b
    using D(15) [of b z] hx [of b] ho [of z b] by (cases "z = y") auto
  moreover have "claim ?s z z = 0" for z using D(5) [of z] claims by (cases "z = y") (simp_all add: claim_def)
  moreover have "y \<noteq> 0" using y(1) D(1) by auto
  moreover have "plain_msgs rest" using D(11) [of y] y(3) by (cases m) auto
  ultimately show ?thesis
    using D c y(1) eq(1)
    unfolding sys_inv_def actors_ok_def messages_ok_def counts_ok_def
    by (auto simp: le_SucI)
qed

lemma own_le: "sys_inv n s \<Longrightarrow> n < 2 ^ 32 - 2 \<Longrightarrow> own_rc s b + acqs (sy_box s b) < 2 ^ 64"
  using own_le_references [of n s b] by simp

lemma claim_le: "sys_inv n s \<Longrightarrow> claim s x b \<le> 256 * n"
  using sys_invD(13) [of n s b] sum_part [of "\<lambda>x. held s x b" x] by (simp add: references_def held_def)

text \<open>Every message at the head of a queue can be handled.\<close>

lemma recv_returns:
  assumes inv: "sys_inv n s" and n: "n < 2 ^ 32 - 2" and y: "y \<in> sy_alive s" "sy_box s y = App as # rest"
  shows "\<exists>c. recv_round 1 env (sy_ctx s y) as = Inr c \<and> ctx_idle c \<and> ctx_current c = y
    \<and> unat (gc_mark (ctx_gc c)) = Suc (unat (gc_mark (ctx_gc (sy_ctx s y))))
    \<and> unat (gc_rc (ctx_gc c)) + (if y \<in> set as then 1 else 0) = own_rc s y
    \<and> (\<forall>b. unat (rc_of (foreign c) b) = claim s y b + (if b \<in> set as \<and> b \<noteq> y then 1 else 0))"
proof -
  note D = sys_invD [OF inv]
  have y0: "y \<noteq> 0" using y(1) D(1) by auto
  note cur = D(3) [OF y0]
  have mk: "unat (gc_mark (ctx_gc (sy_ctx s y))) < 2 ^ 32 - 1" using D(4) [OF y0] n by simp
  have pos: "0 < own_rc s y" if "y \<in> set as" using that D(14) [of y] y(2) by simp
  then have own: "ctx_current (sy_ctx s y) \<in> set as \<longrightarrow> gc_rc (ctx_gc (sy_ctx s y)) > 0"
    unfolding cur by (simp add: own_rc_def word_less_nat_alt)
  have room: "\<forall>b. unat (rc_of (foreign (sy_ctx s y)) b) < 2 ^ 64 - 1"
  proof
    fix b
    show "unat (rc_of (foreign (sy_ctx s y)) b) < 2 ^ 64 - 1"
      using claim_le [OF inv, of y b] n unfolding claim_def by simp
  qed
  obtain c where c: "recv_round 1 env (sy_ctx s y) as = Inr c" "ctx_idle c" "ctx_current c = y"
      "unat (gc_mark (ctx_gc c)) = Suc (unat (gc_mark (ctx_gc (sy_ctx s y))))"
      "gc_rc (ctx_gc c) = gc_rc (ctx_gc (sy_ctx s y)) - (if y \<in> set as then 1 else 0)"
      "\<forall>b. unat (rc_of (foreign c) b) = claim s y b + (if b \<in> set as \<and> b \<noteq> y then 1 else 0)"
    using recv_round_result [OF D(2) [OF y0] mk own room, of 0 env] unfolding cur claim_def One_nat_def by blast
  have "unat (gc_rc (ctx_gc c)) + (if y \<in> set as then 1 else 0) = own_rc s y"
    using c(5) pos by (auto simp: own_rc_def unat_sub_if')
  then show ?thesis using c by blast
qed

lemma recv_inv:
  assumes inv: "sys_inv n s" and n: "n < 2 ^ 32 - 2"
    and y: "y \<in> sy_alive s" "sy_out s y = []" "sy_box s y = App as # rest" and c: "recv_round 1 env (sy_ctx s y) as = Inr c"
  shows "sys_inv (Suc n) (s\<lparr>sy_ctx := (sy_ctx s)(y := c), sy_box := (sy_box s)(y := rest)\<rparr>)"
proof -
  have r: "ctx_idle c" "ctx_current c = y" "unat (gc_mark (ctx_gc c)) = Suc (unat (gc_mark (ctx_gc (sy_ctx s y))))"
      "unat (gc_rc (ctx_gc c)) + (if y \<in> set as then 1 else 0) = own_rc s y"
      "\<forall>b. unat (rc_of (foreign c) b) = claim s y b + (if b \<in> set as \<and> b \<noteq> y then 1 else 0)"
    using recv_returns [OF inv n y(1,3), of env] c by auto
  have "y \<noteq> 0" using y(1) sys_invD(1) [OF inv] by auto
  have cov: "covered y (unat (gc_rc (ctx_gc c))) rest"
    using sys_invD(14) [OF inv, of y] unfolding y(3) r(4) [symmetric] by (simp split: if_splits)
  show ?thesis
    using r sys_invD(4) [OF inv \<open>y \<noteq> 0\<close>] cov by (intro handle_inv [OF inv y r(1,2)]) auto
qed

lemma idle_gc:
  assumes "ctx_idle c" "gc_foreign g = gc_foreign (ctx_gc c)" "gc_local g = gc_local (ctx_gc c)"
    "gc_mark g = gc_mark (ctx_gc c)" "gc_rc_mark g = gc_rc_mark (ctx_gc c)"
  shows "ctx_idle (set_gc c g)" "foreign (set_gc c g) = foreign c" "ctx_current (set_gc c g) = ctx_current c"
  using assms by (simp_all add: ctx_idle_def set_gc_def foreign_def ctx_plain_def)

lemma acquire_inv:
  assumes inv: "sys_inv n s" and n: "n < 2 ^ 32 - 2"
    and y: "y \<in> sy_alive s" "sy_out s y = []" "sy_box s y = Gcm ACTORMSG_ACQUIRE r # rest"
  shows "sys_inv (Suc n) (s\<lparr>sy_ctx := (sy_ctx s)(y := set_gc (sy_ctx s y) (snd (ponyint_gc_acquire (ctx_gc (sy_ctx s y)) r))),
      sy_box := (sy_box s)(y := rest)\<rparr>)"
proof -
  note D = sys_invD [OF inv]
  have y0: "y \<noteq> 0" using y(1) D(1) by auto
  have plain: "ar_map r = []" using D(11) [of y] y(3) by simp
  let ?g = "snd (ponyint_gc_acquire (ctx_gc (sy_ctx s y)) r)"
  have g: "?g = (ctx_gc (sy_ctx s y))\<lparr>gc_rc := gc_rc (ctx_gc (sy_ctx s y)) + ar_rc r\<rparr>"
    using plain by (simp add: ponyint_gc_acquire_def)
  have rc: "unat (gc_rc ?g) = own_rc s y + unat (ar_rc r)"
    using own_le [OF inv n, of y] y(3) unfolding g by (simp add: own_rc_def unat_add_lem [THEN iffD1])
  note idle = idle_gc [OF D(2) [OF y0], of ?g, unfolded g, simplified]
  show ?thesis
    using D(4) [OF y0] D(3) [OF y0] D(14) [of y] y(3) rc idle
    by (intro handle_inv [OF inv y]) (auto simp: g claim_def set_gc_def)
qed

lemma release_returns:
  assumes inv: "sys_inv n s" and y: "sy_box s y = Gcm ACTORMSG_RELEASE r # rest"
  shows "ponyint_gc_release (ctx_gc (sy_ctx s y)) r =
    Inr (ar_rc r > 0, (ctx_gc (sy_ctx s y))\<lparr>gc_rc := gc_rc (ctx_gc (sy_ctx s y)) - ar_rc r\<rparr>)"
proof -
  have "ar_map r = []" using sys_invD(11) [OF inv, of y] y by simp
  moreover have "ar_rc r \<le> gc_rc (ctx_gc (sy_ctx s y))"
    using sys_invD(14) [OF inv, of y] y by (simp add: own_rc_def word_le_nat_alt)
  ultimately show ?thesis by (simp add: ponyint_gc_release_def pony_assert_def)
qed

lemma release_inv:
  assumes inv: "sys_inv n s" and y: "y \<in> sy_alive s" "sy_out s y = []" "sy_box s y = Gcm ACTORMSG_RELEASE r # rest"
    and g: "ponyint_gc_release (ctx_gc (sy_ctx s y)) r = Inr (u, g)"
  shows "sys_inv (Suc n) (s\<lparr>sy_ctx := (sy_ctx s)(y := set_gc (sy_ctx s y) g), sy_box := (sy_box s)(y := rest)\<rparr>)"
proof -
  note D = sys_invD [OF inv]
  have y0: "y \<noteq> 0" using y(1) D(1) by auto
  have g: "g = (ctx_gc (sy_ctx s y))\<lparr>gc_rc := gc_rc (ctx_gc (sy_ctx s y)) - ar_rc r\<rparr>"
    using release_returns [OF inv y(3)] g by simp
  have cov: "unat (ar_rc r) \<le> own_rc s y" "covered y (own_rc s y - unat (ar_rc r)) rest"
    using D(14) [of y] y(3) by simp_all
  have rc: "unat (gc_rc g) = own_rc s y - unat (ar_rc r)"
    using cov(1) unfolding g by (simp add: own_rc_def unat_sub_if')
  note idle = idle_gc [OF D(2) [OF y0], of g, unfolded g, simplified]
  show ?thesis
    using D(4) [OF y0] D(3) [OF y0] cov y(3) rc idle
    by (intro handle_inv [OF inv y]) (auto simp: g claim_def set_gc_def)
qed

lemma createactor_result:
  assumes "ctx_idle c" "a \<noteq> ctx_current c"
  shows "ctx_idle (ponyint_gc_createactor c a)" "ctx_current (ponyint_gc_createactor c a) = ctx_current c"
    "gc_mark (ctx_gc (ponyint_gc_createactor c a)) = gc_mark (ctx_gc c)"
    "gc_rc (ctx_gc (ponyint_gc_createactor c a)) = gc_rc (ctx_gc c)"
    "rc_of (foreign (ponyint_gc_createactor c a)) b = (if b = a then GC_INC_MORE else rc_of (foreign c) b)"
proof -
  let ?mk = "gc_mark (ctx_gc c)"
  let ?m = "aref_modify (aref_getorput (foreign c) a ?mk) a (\<lambda>r. r\<lparr>ar_rc := GC_INC_MORE\<rparr>)"
  have ok: "ctx_ok c" using idle_ok(1) [OF assms(1)] .
  then have mk: "?mk - 1 < ?mk" unfolding ctx_ok_def by (simp add: word_le_nat_alt word_less_nat_alt unat_sub_if')
  have lt: "\<forall>r \<in> set ?m. ar_mark r < ?mk"
    using assms(1) mk
    by (auto simp: ctx_idle_def aref_modify_def elems_modify_def aref_getorput_def elems_getorput_def split: if_splits)
  have pl: "plain ?m" "distinct (map ar_actor ?m)" using assms(1) by (simp_all add: ctx_idle_def ctx_plain_def)
  note defs = ponyint_gc_createactor_def Let_def touch_actor_def set_foreign_def update_delta_def ponyint_heap_used_def foreign_def
  show "ctx_idle (ponyint_gc_createactor c a)"
    using assms(1) lt pl by (auto simp: defs ctx_idle_def ctx_plain_def)
  show "ctx_current (ponyint_gc_createactor c a) = ctx_current c"
    "gc_mark (ctx_gc (ponyint_gc_createactor c a)) = ?mk" "gc_rc (ctx_gc (ponyint_gc_createactor c a)) = gc_rc (ctx_gc c)"
    by (simp_all add: defs)
  show "rc_of (foreign (ponyint_gc_createactor c a)) b = (if b = a then GC_INC_MORE else rc_of (foreign c) b)"
    by (auto simp: defs rc_of_def)
qed

lemma create_inv:
  assumes inv: "sys_inv n s" and x: "x \<in> sy_alive s" and a: "a \<notin> sy_alive s" "a \<noteq> 0"
    and c: "pony_create (sy_ctx s x) a orphaned = (g, c)"
  shows "sys_inv (Suc n) (s\<lparr>sy_alive := insert a (sy_alive s), sy_ctx := (sy_ctx s)(x := c, a := set_gc (sy_ctx s a) g)\<rparr>)"
proof -
  let ?s = "s\<lparr>sy_alive := insert a (sy_alive s), sy_ctx := (sy_ctx s)(x := c, a := set_gc (sy_ctx s a) g)\<rparr>"
  note D = sys_invD [OF inv]
  have x0: "x \<noteq> 0" "x \<noteq> a" using x D(1) a(1) by auto
  let ?k = "if orphaned then 0 else 256 :: nat"
  have cx: "ctx_idle c" "ctx_current c = x" "gc_mark (ctx_gc c) = gc_mark (ctx_gc (sy_ctx s x))"
      "gc_rc (ctx_gc c) = gc_rc (ctx_gc (sy_ctx s x))"
      "rc_of (foreign c) b = (if b = a \<and> \<not> orphaned then GC_INC_MORE else rc_of (foreign (sy_ctx s x)) b)"
      and g: "g = (ponyint_gc_done gc_zero)\<lparr>gc_rc := (if orphaned then 0 else GC_INC_MORE)\<rparr>" for b
    using c createactor_result [OF D(2) [OF x0(1)], of a] D(3) [OF x0(1)] x0 D(2) [OF x0(1)]
    by (auto simp: pony_create_def Let_def split: if_splits)
  have fa: "foreign (sy_ctx s a) = []" "sy_out s a = []" "references s a = 0" using D(6-8) [OF a(1)] .
  have za: "claim s y a = 0" for y
    using fa(3) sum_part [of "\<lambda>x. held s x a" y] by (simp add: references_def held_def)
  have oa: "own_rc s a = 0" using D(12) [of a] fa(3) by (simp add: recorded_def)
  have ia: "ctx_idle (set_gc (sy_ctx s a) g)" "foreign (set_gc (sy_ctx s a) g) = []" "ctx_current (set_gc (sy_ctx s a) g) = a"
      "unat (gc_mark g) \<le> Suc (Suc n)" "unat (gc_rc g) = ?k"
    using D(2,3) [OF a(2)] g
    by (auto simp: ctx_idle_def set_gc_def foreign_def ctx_plain_def ponyint_gc_done_def gc_zero_def word_less_nat_alt GC_INC_MORE_def)
  let ?d = "\<lambda>b. if b = a then ?k else 0"
  have cl: "claim ?s y b = claim s y b + (if y = x then ?d b else 0)" for y b
    using cx(5) [of b] ia(2) fa(1) za [of x] x0(2) by (auto simp: claim_def GC_INC_MORE_def)
  have hd: "held ?s y b = held s y b + (if y = x then ?d b else 0)" for y b by (simp add: held_def cl)
  have H: "(\<Sum>y \<in> UNIV. held ?s y b) = (\<Sum>y \<in> UNIV. held s y b) + ?d b" for b
    using sum_change [of x "\<lambda>y. held ?s y b" "\<lambda>y. held s y b"] hd by simp
  have own: "own_rc ?s b = own_rc s b + ?d b" for b
    using ia(5) cx(4) oa x0(2) by (auto simp: own_rc_def set_gc_def)
  have ref: "references ?s b = references s b + ?d b" for b unfolding references_def H by simp
  have rec: "recorded ?s b = recorded s b + ?d b" for b unfolding recorded_def own by simp
  have "references ?s b \<le> 256 * Suc n" for b using ref [of b] D(13) [of b] by (auto split: if_splits)
  moreover have "covered b (own_rc ?s b) (sy_box ?s b)" for b using D(14) [of b] own [of b] by (auto intro: covered_mono)
  moreover have "acqs (addressed b (sy_out ?s y)) \<le> held ?s y b" for y b using D(15) [of b y] hd [of y b] by simp
  moreover have "claim ?s y y = 0" for y using D(5) [of y] cl [of y y] x0(2) by auto
  moreover have "references ?s b = 0" if "b \<notin> insert a (sy_alive s)" for b using that ref [of b] D(8) [of b] by simp
  moreover have "recorded ?s b = references ?s b" for b using rec [of b] ref [of b] D(12) [of b] by simp
  moreover have "ctx_gc (set_gc (sy_ctx s a) g) = g" by (simp add: set_gc_def)
  ultimately show ?thesis
    using D cx(1-3) ia(1-4) a(2) x0(2) x
    unfolding sys_inv_def actors_ok_def messages_ok_def counts_ok_def
    by (auto simp: le_SucI)
qed

lemma step_inv:
  assumes "sys_step env s s'" "sys_inv n s" "n < 2 ^ 32 - 2" "en_pendingdestroy env = (\<lambda>_. False)"
  shows "sys_inv (Suc n) s'"
  using assms
  by cases (auto intro: send_inv deliver_inv recv_inv acquire_inv release_inv collect_inv create_inv)

lemma reach_inv:
  assumes "sys_reach env n s" "n < 2 ^ 32 - 1" "en_pendingdestroy env = (\<lambda>_. False)"
  shows "sys_inv n s"
  using assms by (induction rule: sys_reach.induct) (auto intro: init_inv step_inv)

section \<open>Properties\<close>

text \<open>
  C1: In every state reachable in fewer than 2^32 - 1 steps, for every actor, its reference count plus
  the acquires on their way to it equals the references that exist: those the others claim, those in
  messages that have not been received, and the releases on their way.  A count is never more than 256
  per step, so none of the 64-bit counters wraps.
\<close>

theorem gc_protocol_conserves:
  assumes "sys_reach env n s" "n < 2 ^ 32 - 1" "en_pendingdestroy env = (\<lambda>_. False)"
  shows "own_rc s b + acqs (sy_box s b) + (\<Sum>x \<in> UNIV. acqs (addressed b (sy_out s x))) =
      (\<Sum>x \<in> UNIV. held s x b) + (\<Sum>x \<in> UNIV. apps b (sy_box s x)) + rels (sy_box s b)
    \<and> own_rc s b \<le> 256 * n"
  using sys_invD(12) [OF reach_inv [OF assms], of b] own_le_references [OF reach_inv [OF assms], of b]
  by (simp add: recorded_def references_def)

definition demo_env :: "(unit, unit) gc_env" where
  "demo_env = \<lparr>en_pagemap = (\<lambda>_. None), en_type = (\<lambda>_. None), en_heap_mark = (\<lambda>h p. (True, h)),
     en_heap_mark_shallow = (\<lambda>h p. h), en_pendingdestroy = (\<lambda>_. False), en_run = (\<lambda>f c p. Inr c)\<rparr>"

definition demo_sys :: "(unit, unit) sys" where
  "demo_sys = (let s = sys_init False () 8; (g, c) = pony_create (sy_ctx s 8) 16 False
     in s\<lparr>sy_alive := insert 16 (sy_alive s), sy_ctx := (sy_ctx s)(8 := c, 16 := set_gc (sy_ctx s 16) g)\<rparr>)"

lemma demo_reach: "sys_reach demo_env 1 demo_sys"
proof -
  let ?s = "sys_init False () 8 :: (unit, unit) sys"
  obtain g c where gc: "pony_create (sy_ctx ?s 8) 16 False = (g, c)" by fastforce
  have "sys_step demo_env ?s (?s\<lparr>sy_alive := insert 16 (sy_alive ?s), sy_ctx := (sy_ctx ?s)(8 := c, 16 := set_gc (sy_ctx ?s 16) g)\<rparr>)"
    using gc by (intro sys_step.Create) (auto simp: sys_init_def)
  moreover have "sys_reach demo_env 0 ?s" by (rule sys_reach.Start) simp
  ultimately show ?thesis using gc by (auto simp: demo_sys_def Let_def intro: sys_reach.Step)
qed

lemma demo_sys_fields:
  "sy_alive demo_sys = {8, 16}" "sy_out demo_sys x = []" "sy_box demo_sys x = []" "own_rc demo_sys 16 = 256"
  by (auto simp: demo_sys_def sys_init_def Let_def split_def own_rc_def set_gc_def pony_create_def ctx_new_def GC_INC_MORE_def)

theorem gc_protocol_conserves_witness:
  "own_rc demo_sys 16 = (\<Sum>x \<in> UNIV. held demo_sys x 16) \<and> own_rc demo_sys 16 = 256"
  using gc_protocol_conserves [OF demo_reach, of 16] by (simp add: demo_sys_fields demo_env_def)

text \<open>
  C2: No assertion of the collector fails in any reachable state: an actor can always send a message
  with references to live actors and can always collect, and whatever message is at the head of its
  queue, receiving it or applying the release in it succeeds.  In particular no count is ever taken
  below zero, although counts are exchanged only by messages that other messages may overtake.
\<close>

theorem gc_protocol_progress:
  assumes "sys_reach env n s" "n < 2 ^ 32 - 2" "en_pendingdestroy env = (\<lambda>_. False)" "y \<in> sy_alive s"
  shows "(\<exists>c. send_round 1 env (sy_ctx s y) as = Inr c) \<and> (\<exists>c. mark_round 1 env (sy_ctx s y) as = Inr c)
    \<and> (\<forall>refs rest. sy_box s y = App refs # rest \<longrightarrow> (\<exists>c. recv_round 1 env (sy_ctx s y) refs = Inr c))
    \<and> (\<forall>r rest. sy_box s y = Gcm ACTORMSG_RELEASE r # rest \<longrightarrow>
         (\<exists>u g. ponyint_gc_release (ctx_gc (sy_ctx s y)) r = Inr (u, g)))"
proof -
  have inv: "sys_inv n s" using reach_inv [OF assms(1) _ assms(3)] assms(2) by simp
  have y0: "y \<noteq> 0" using assms(4) sys_invD(1) [OF inv] by auto
  note idle = sys_invD(2) [OF inv y0]
  have mk: "unat (gc_mark (ctx_gc (sy_ctx s y))) < 2 ^ 32 - 1" using sys_invD(4) [OF inv y0] assms(2) by simp
  have "\<exists>c. send_round 1 env (sy_ctx s y) as = Inr c" "\<exists>c. mark_round 1 env (sy_ctx s y) as = Inr c"
    using send_round_result [OF idle mk, of 0 env as] mark_round_result [OF idle mk assms(3), of 0 as] by auto
  then show ?thesis
    using recv_returns [OF inv assms(2,4)] release_returns [OF inv] by blast
qed

theorem gc_protocol_progress_witness: "\<exists>c. send_round 1 demo_env (sy_ctx demo_sys 8) [16, 8] = Inr c"
  using gc_protocol_progress [OF demo_reach, of 8 "[16, 8]"] by (simp add: demo_sys_fields demo_env_def)

text \<open>
  C3: When nothing is on its way to an actor, its reference count is exactly the number of references
  to it that the others claim plus the messages still to be received that hold one; if it is zero,
  no other actor and no message refers to it.
\<close>

theorem gc_protocol_quiescent:
  assumes "sys_reach env n s" "n < 2 ^ 32 - 1" "en_pendingdestroy env = (\<lambda>_. False)"
    and "sy_box s b = []" "\<forall>x. sy_out s x = []"
  shows "own_rc s b = (\<Sum>x \<in> UNIV. claim s x b) + (\<Sum>x \<in> UNIV. apps b (sy_box s x))
    \<and> (own_rc s b = 0 \<longrightarrow> (\<forall>x. claim s x b = 0 \<and> apps b (sy_box s x) = 0))"
  using sys_invD(12) [OF reach_inv [OF assms(1-3)], of b] assms(4,5)
  by (simp add: recorded_def references_def held_def)

theorem gc_protocol_quiescent_witness:
  "256 = (\<Sum>x \<in> UNIV. claim demo_sys x 16) + (\<Sum>x \<in> UNIV. apps 16 (sy_box demo_sys x))"
  using gc_protocol_quiescent [OF demo_reach, of 16] by (simp add: demo_sys_fields demo_env_def)

end
