(* ===== verification/Messageq.thy ===== *)
theory Messageq
  imports Prelude
begin

text \<open>
  The message queue of an actor, \<^verbatim>\<open>src/libponyrt/actor/messageq.c\<close>: a linked list with many producers and
  one consumer.  A producer swaps the head of the list and then links its messages behind the old one;
  between the two the list is broken, and the consumer runs concurrently.  The low bit of the head marks
  the queue as empty and tells one producer to schedule the actor again.

  The operations are split where another thread can come in between, at their atomic accesses; memory
  is sequentially consistent.  The theorems are about every interleaving.
\<close>

unbundle bit_operations_syntax

section \<open>Operations\<close>

record messageq_t =
  mq_head :: uint64_t
  mq_tail :: uint64_t

text \<open>The \<open>next\<close> fields of the messages that are allocated; 0 is \<^verbatim>\<open>NULL\<close>.\<close>

type_synonym msgs = "uint64_t \<rightharpoonup> uint64_t"

definition load_next :: "msgs \<Rightarrow> uint64_t \<Rightarrow> uint64_t res" where
  "load_next nx p = (case nx p of None \<Rightarrow> Inl Null_deref | Some n \<Rightarrow> Inr n)"

definition store_next :: "msgs \<Rightarrow> uint64_t \<Rightarrow> uint64_t \<Rightarrow> msgs res" where
  "store_next nx p v = (case nx p of None \<Rightarrow> Inl Null_deref | Some n \<Rightarrow> Inr (nx(p \<mapsto> v)))"

text \<open>\<open>messageq_push\<close> up to and including the exchange of the head, and the store after it.\<close>

definition messageq_push_swap ::
  "messageq_t \<Rightarrow> msgs \<Rightarrow> uint64_t \<Rightarrow> (messageq_t \<times> msgs \<times> uint64_t \<times> bool) res" where
  "messageq_push_swap q nx lst =
     res_bind (store_next nx lst 0) (\<lambda>nx.
       let prev = mq_head q
       in Inr (q\<lparr>mq_head := lst\<rparr>, nx, prev AND NOT 1, prev AND 1 \<noteq> 0))"

definition messageq_push_link :: "msgs \<Rightarrow> uint64_t \<Rightarrow> uint64_t \<Rightarrow> msgs res" where
  "messageq_push_link nx prev first = store_next nx prev first"

definition messageq_push :: "messageq_t \<Rightarrow> msgs \<Rightarrow> uint64_t \<Rightarrow> uint64_t \<Rightarrow> (messageq_t \<times> msgs \<times> bool) res" where
  "messageq_push q nx first lst =
     res_bind (messageq_push_swap q nx lst) (\<lambda>(q, nx, prev, was_empty).
       res_bind (messageq_push_link nx prev first) (\<lambda>nx. Inr (q, nx, was_empty)))"

definition messageq_push_single :: "messageq_t \<Rightarrow> msgs \<Rightarrow> uint64_t \<Rightarrow> uint64_t \<Rightarrow> (messageq_t \<times> msgs \<times> bool) res" where
  "messageq_push_single q nx first lst =
     res_bind (store_next nx lst 0) (\<lambda>nx.
       let prev = mq_head q; q = q\<lparr>mq_head := lst\<rparr>;
           was_empty = (prev AND 1 \<noteq> 0); prev = prev AND NOT 1
       in res_bind (store_next nx prev first) (\<lambda>nx. Inr (q, nx, was_empty)))"

text \<open>The four exported pushes differ in what they trace.\<close>

definition ponyint_actor_messageq_push where "ponyint_actor_messageq_push = messageq_push"
definition ponyint_thread_messageq_push where "ponyint_thread_messageq_push = messageq_push"
definition ponyint_actor_messageq_push_single where "ponyint_actor_messageq_push_single = messageq_push_single"
definition ponyint_thread_messageq_push_single where "ponyint_thread_messageq_push_single = messageq_push_single"

text \<open>\<open>stub\<close> is the message \<^verbatim>\<open>POOL_ALLOC\<close> returns.\<close>

definition ponyint_messageq_init :: "msgs \<Rightarrow> uint64_t \<Rightarrow> messageq_t \<times> msgs" where
  "ponyint_messageq_init nx stub = (\<lparr>mq_head = stub OR 1, mq_tail = stub\<rparr>, nx(stub \<mapsto> 0))"

definition ponyint_messageq_destroy :: "messageq_t \<Rightarrow> msgs \<Rightarrow> bool \<Rightarrow> (messageq_t \<times> msgs) res" where
  "ponyint_messageq_destroy q nx maybe_non_empty =
     pony_assert (maybe_non_empty \<or> mq_head q AND NOT 1 = mq_tail q)
       (Inr (\<lparr>mq_head = 0, mq_tail = 0\<rparr>, nx(mq_tail q := None)))"

definition ponyint_actor_messageq_pop :: "messageq_t \<Rightarrow> msgs \<Rightarrow> (uint64_t \<times> messageq_t \<times> msgs) res" where
  "ponyint_actor_messageq_pop q nx =
     res_bind (load_next nx (mq_tail q)) (\<lambda>n.
       if n \<noteq> 0 then Inr (n, q\<lparr>mq_tail := n\<rparr>, nx(mq_tail q := None)) else Inr (n, q, nx))"

definition ponyint_thread_messageq_pop :: "messageq_t \<Rightarrow> msgs \<Rightarrow> (uint64_t \<times> messageq_t \<times> msgs) res" where
  "ponyint_thread_messageq_pop q nx =
     res_bind (load_next nx (mq_tail q)) (\<lambda>n.
       if n \<noteq> 0 then Inr (n, q\<lparr>mq_tail := n\<rparr>, nx(mq_tail q := None)) else Inr (n, q, nx))"

text \<open>
  \<open>ponyint_messageq_markempty\<close>: the load of the head answers at once or goes on to the compare and
  exchange, which swaps only if the head is still the tail without the mark.
\<close>

definition markempty_load :: "messageq_t \<Rightarrow> bool option" where
  "markempty_load q =
     (if mq_head q AND 1 \<noteq> 0 then Some True else if mq_head q \<noteq> mq_tail q then Some False else None)"

definition markempty_cas :: "messageq_t \<Rightarrow> uint64_t \<Rightarrow> uint64_t \<Rightarrow> bool \<times> messageq_t" where
  "markempty_cas q tail head = (if mq_head q = tail then (True, q\<lparr>mq_head := head\<rparr>) else (False, q))"

definition ponyint_messageq_markempty :: "messageq_t \<Rightarrow> bool \<times> messageq_t" where
  "ponyint_messageq_markempty q =
     (case markempty_load q of Some b \<Rightarrow> (b, q) | None \<Rightarrow> markempty_cas q (mq_tail q) (mq_head q OR 1))"

definition ponyint_messageq_isempty :: "messageq_t \<Rightarrow> bool" where
  "ponyint_messageq_isempty q \<longleftrightarrow> (if mq_head q AND 1 \<noteq> 0 then True else mq_head q = mq_tail q)"

section \<open>Producers and consumer\<close>

text \<open>
  The queue with the pushes that have swapped but not linked yet (the old head and the first message),
  and the consumer, which may be inside \<open>ponyint_messageq_markempty\<close> with the head it loaded.  Ghosts:
  the messages in the order of the swaps, the messages popped, the answer of the last complete
  \<open>ponyint_messageq_markempty\<close>, how often the queue was marked and how often a producer was told so.
\<close>

record mstate =
  ms_q :: messageq_t
  ms_nx :: msgs
  ms_pending :: "(uint64_t \<times> uint64_t) list"
  ms_cas :: "uint64_t option"
  ms_pushed :: "uint64_t list"
  ms_popped :: "uint64_t list"
  ms_marks :: nat
  ms_told :: nat

text \<open>A producer links its messages among themselves before it pushes them.\<close>

fun link_all :: "uint64_t list \<Rightarrow> msgs \<Rightarrow> msgs" where
  "link_all [] nx = nx"
| "link_all [a] nx = nx(a \<mapsto> 0)"
| "link_all (a # b # cs) nx = (link_all (b # cs) nx)(a \<mapsto> b)"

definition good_msg :: "uint64_t \<Rightarrow> bool" where
  "good_msg a \<longleftrightarrow> a \<noteq> 0 \<and> a AND 1 = 0"

definition mstart :: "uint64_t \<Rightarrow> mstate" where
  "mstart stub = (let (q, nx) = ponyint_messageq_init (\<lambda>_. None) stub
     in \<lparr>ms_q = q, ms_nx = nx, ms_pending = [], ms_cas = None, ms_pushed = [], ms_popped = [], ms_marks = 1, ms_told = 0\<rparr>)"

inductive mstep :: "mstate \<Rightarrow> mstate \<Rightarrow> bool" where
  Swap: "cs \<noteq> [] \<Longrightarrow> distinct cs \<Longrightarrow> \<forall>c \<in> set cs. good_msg c \<and> ms_nx s c = None \<Longrightarrow>
    messageq_push_swap (ms_q s) (link_all cs (ms_nx s)) (last cs) = Inr (q, nx, prev, was_empty) \<Longrightarrow>
    mstep s (s\<lparr>ms_q := q, ms_nx := nx, ms_pending := (prev, hd cs) # ms_pending s, ms_pushed := ms_pushed s @ cs,
      ms_told := ms_told s + (if was_empty then 1 else 0)\<rparr>)"
| Link: "p \<in> set (ms_pending s) \<Longrightarrow> messageq_push_link (ms_nx s) (fst p) (snd p) = Inr nx \<Longrightarrow>
    mstep s (s\<lparr>ms_nx := nx, ms_pending := remove1 p (ms_pending s)\<rparr>)"
| Pop: "ms_cas s = None \<Longrightarrow> ponyint_actor_messageq_pop (ms_q s) (ms_nx s) = Inr (m, q, nx) \<Longrightarrow>
    mstep s (s\<lparr>ms_q := q, ms_nx := nx, ms_popped := ms_popped s @ (if m = 0 then [] else [m])\<rparr>)"
| Mark_load: "ms_cas s = None \<Longrightarrow> markempty_load (ms_q s) = None \<Longrightarrow>
    mstep s (s\<lparr>ms_cas := Some (mq_head (ms_q s))\<rparr>)"
| Mark_cas: "ms_cas s = Some h \<Longrightarrow> markempty_cas (ms_q s) (mq_tail (ms_q s)) (h OR 1) = (ok, q) \<Longrightarrow>
    mstep s (s\<lparr>ms_q := q, ms_cas := None, ms_marks := ms_marks s + (if ok then 1 else 0)\<rparr>)"

inductive mreach :: "mstate \<Rightarrow> bool" where
  Start: "good_msg stub \<Longrightarrow> mreach (mstart stub)"
| Step: "mreach s \<Longrightarrow> mstep s s' \<Longrightarrow> mreach s'"

section \<open>The invariant\<close>

text \<open>
  \<open>live\<close> lists the allocated messages from the tail: each is linked to the next one, or waits for the
  link of the push that swapped it out of the head.
\<close>

fun linked :: "msgs \<Rightarrow> (uint64_t \<times> uint64_t) list \<Rightarrow> uint64_t list \<Rightarrow> bool" where
  "linked nx pending [] \<longleftrightarrow> False"
| "linked nx pending [a] \<longleftrightarrow> nx a = Some 0 \<and> a \<notin> fst ` set pending"
| "linked nx pending (a # b # ls) \<longleftrightarrow>
     (nx a = Some b \<and> a \<notin> fst ` set pending \<or> nx a = Some 0 \<and> (a, b) \<in> set pending) \<and> linked nx pending (b # ls)"

definition mlive :: "mstate \<Rightarrow> uint64_t list \<Rightarrow> bool" where
  "mlive s live \<longleftrightarrow> linked (ms_nx s) (ms_pending s) live \<and> distinct live \<and> dom (ms_nx s) = set live
     \<and> (\<forall>a \<in> set live. good_msg a) \<and> distinct (map fst (ms_pending s)) \<and> fst ` set (ms_pending s) \<subseteq> set live
     \<and> hd live = mq_tail (ms_q s)
     \<and> (mq_head (ms_q s) = last live \<or> mq_head (ms_q s) = last live OR 1 \<and> tl live = [])
     \<and> ms_pushed s = ms_popped s @ tl live
     \<and> (\<forall>h. ms_cas s = Some h \<longrightarrow> h = mq_tail (ms_q s))
     \<and> ms_marks s = ms_told s + (if mq_head (ms_q s) AND 1 \<noteq> 0 then 1 else 0)"


lemma linked_cong:
  "(\<And>a. a \<in> set ls \<Longrightarrow> nx a = nx' a) \<Longrightarrow> (\<And>a b. a \<in> set ls \<Longrightarrow> (a, b) \<in> set P \<longleftrightarrow> (a, b) \<in> set P') \<Longrightarrow>
   linked nx P ls = linked nx' P' ls"
proof (induction nx P ls rule: linked.induct)
  case (2 nx P a)
  then show ?case by (force simp: image_iff)
next
  case (3 nx P a b ls)
  have "a \<in> fst ` set P \<longleftrightarrow> a \<in> fst ` set P'"
    using 3(3) [of a] by (force simp: image_iff)
  moreover have "linked nx P (b # ls) = linked nx' P' (b # ls)"
    using 3 by simp
  ultimately show ?case
    using 3(2) [of a] 3(3) [of a b] by simp
qed simp

lemma linked_swap:
  "linked nx P (xs @ [a]) \<Longrightarrow> linked nx' P' (b # bs) \<Longrightarrow> (\<And>c. c \<in> set xs \<or> c = a \<Longrightarrow> nx' c = nx c) \<Longrightarrow>
   (\<And>c d. c \<in> set xs \<Longrightarrow> (c, d) \<in> set P' \<longleftrightarrow> (c, d) \<in> set P) \<Longrightarrow> (a, b) \<in> set P' \<Longrightarrow>
   linked nx' P' (xs @ a # b # bs)"
proof (induction xs)
  case Nil
  then show ?case by auto
next
  case (Cons x xs)
  have x: "x \<in> fst ` set P' \<longleftrightarrow> x \<in> fst ` set P"
    using Cons.prems(4) [of x] by (force simp: image_iff)
  show ?case
  proof (cases xs)
    case Nil
    with Cons x show ?thesis by simp
  next
    case (Cons y ys)
    with Cons.IH Cons.prems x show ?thesis by simp
  qed
qed

lemma linked_last: "linked nx P ls \<Longrightarrow> nx (last ls) = Some 0 \<and> last ls \<notin> fst ` set P"
  by (induction nx P ls rule: linked.induct) auto

lemma linked_link:
  "linked nx P ls \<Longrightarrow> distinct ls \<Longrightarrow> distinct (map fst P) \<Longrightarrow> (a, b) \<in> set P \<Longrightarrow>
   linked (nx(a \<mapsto> b)) (remove1 (a, b) P) ls"
proof (induction nx P ls rule: linked.induct)
  case (2 nx P c)
  then show ?case by (auto simp: image_iff dest: notin_set_remove1)
next
  case (3 nx P c d ls)
  have dP: "distinct P" and "inj_on fst (set P)"
    using 3(4) by (auto simp: distinct_map)
  then have uniq: "\<And>e. (a, e) \<in> set P \<Longrightarrow> e = b"
    using 3(5) by (metis fst_conv inj_onD snd_conv)
  have rest: "linked (nx(a \<mapsto> b)) (remove1 (a, b) P) (d # ls)"
    by (rule 3(1)) (use 3 in simp_all)
  show ?case
  proof (cases "c = a")
    case True
    moreover have "a \<notin> fst ` set (remove1 (a, b) P)"
      using uniq dP by (auto simp: set_remove1_eq)
    moreover have "a \<in> fst ` set P"
      using 3(5) by force
    then have "(a, d) \<in> set P"
      using True 3(2) by simp
    then have "d = b"
      by (rule uniq)
    ultimately show ?thesis
      using rest by (simp add: fun_upd_def)
  next
    case False
    then show ?thesis
      using rest 3(2) dP by (auto simp: set_remove1_eq fun_upd_def)
  qed
qed simp

lemma link_all_other [simp]: "a \<notin> set cs \<Longrightarrow> link_all cs nx a = nx a"
  by (induction cs nx rule: link_all.induct) auto

lemma dom_link_all [simp]: "dom (link_all cs nx) = dom nx \<union> set cs"
  by (induction cs nx rule: link_all.induct) (simp_all flip: fun_upd_def)

lemma linked_link_all:
  "cs \<noteq> [] \<Longrightarrow> distinct cs \<Longrightarrow> set cs \<inter> fst ` set P = {} \<Longrightarrow> linked (link_all cs nx) P cs"
proof (induction cs nx rule: link_all.induct)
  case (3 a b cs nx)
  have "linked (link_all (b # cs) nx) P (b # cs)"
    using 3 by simp
  then have "linked ((link_all (b # cs) nx)(a \<mapsto> b)) P (b # cs)"
    by (rule linked_cong [THEN iffD1, rotated 2]) (use 3 in auto)
  then show ?case
    using 3 by (simp add: fun_upd_def)
qed simp_all

lemma link_all_last: "cs \<noteq> [] \<Longrightarrow> distinct cs \<Longrightarrow> link_all cs nx (last cs) = Some 0"
  by (induction cs nx rule: link_all.induct) auto


lemma good_msg_tag:
  assumes "good_msg a"
  shows "a AND NOT 1 = a" "a AND 1 = 0" "(a OR 1) AND NOT 1 = a" "(a OR 1) AND 1 = 1" "a \<noteq> 0"
proof -
  have e: "even a" and nz: "a \<noteq> 0"
    using assms by (simp_all add: good_msg_def and_one_eq even_iff_mod_2_eq_zero)
  show "a AND NOT 1 = a" "(a OR 1) AND NOT 1 = a"
    using e by (auto simp: bit_eq_iff bit_simps bit_0 gr0_conv_Suc intro: gr0I)
  show "a AND 1 = 0" "(a OR 1) AND 1 = 1" "a \<noteq> 0"
    using e nz by (simp_all add: and_one_eq even_or_iff mod_2_eq_odd)
qed


section \<open>Every step keeps the invariant\<close>

lemma mlive_swap:
  assumes I: "mlive s live" and cs: "cs \<noteq> []" "distinct cs" "\<forall>c \<in> set cs. good_msg c \<and> ms_nx s c = None"
    and sw: "messageq_push_swap (ms_q s) (link_all cs (ms_nx s)) (last cs) = Inr (q, nx, prev, was_empty)"
  shows "mlive (s\<lparr>ms_q := q, ms_nx := nx, ms_pending := (prev, hd cs) # ms_pending s, ms_pushed := ms_pushed s @ cs,
      ms_told := ms_told s + (if was_empty then 1 else 0)\<rparr>) (live @ cs)"
proof -
  let ?nx = "link_all cs (ms_nx s)" and ?P = "ms_pending s"
  have ne: "live \<noteq> []"
    using I by (cases live) (auto simp: mlive_def)
  then obtain xs a where live: "live = xs @ [a]"
    by (cases live rule: rev_cases) auto
  obtain c ds where cd: "cs = c # ds"
    using cs(1) by (cases cs) auto
  have lastnx: "?nx (last cs) = Some 0"
    using cs by (simp add: link_all_last)
  then have nx: "nx = ?nx" and q: "q = (ms_q s)\<lparr>mq_head := last cs\<rparr>"
    and prev: "prev = mq_head (ms_q s) AND NOT 1" and we: "was_empty \<longleftrightarrow> mq_head (ms_q s) AND 1 \<noteq> 0"
    using sw by (auto simp: messageq_push_swap_def store_next_def Let_def map_upd_triv)
  have ga: "good_msg a"
    using I by (simp add: mlive_def live)
  then have pa: "prev = a"
    using I good_msg_tag [OF ga] by (auto simp: mlive_def live prev)
  have L: "linked (ms_nx s) ?P (xs @ [a])" and fresh: "set cs \<inter> set live = {}" and dP: "fst ` set ?P \<subseteq> set live"
    using I cs(3) by (auto simp: mlive_def live)
  have aP: "a \<notin> fst ` set ?P"
    using linked_last [OF L] by simp
  have tag: "(last cs) AND 1 = 0"
    using cs good_msg_tag by (auto simp: last_in_set)
  have "linked ?nx ((a, c) # ?P) (xs @ a # c # ds)"
  proof (rule linked_swap [OF L])
    show "linked ?nx ((a, c) # ?P) (c # ds)"
      using linked_link_all [OF cs(1,2), of "(a, c) # ?P" "ms_nx s"] fresh dP by (auto simp: cd live)
    show "\<And>e. e \<in> set xs \<or> e = a \<Longrightarrow> ?nx e = ms_nx s e"
      using fresh by (subst link_all_other) (auto simp: live)
    show "\<And>e d. e \<in> set xs \<Longrightarrow> (e, d) \<in> set ((a, c) # ?P) \<longleftrightarrow> (e, d) \<in> set ?P"
      using I by (auto simp: mlive_def live)
  qed simp
  moreover have "dom ?nx = set (live @ cs)" "distinct (live @ cs)" "\<forall>b \<in> set (live @ cs). good_msg b"
    "hd live = mq_tail (ms_q s)" "distinct (map fst ((a, c) # ?P))" "ms_pushed s = ms_popped s @ tl live"
    "\<forall>h. ms_cas s = Some h \<longrightarrow> h = mq_tail (ms_q s)"
    "ms_marks s = ms_told s + (if mq_head (ms_q s) AND 1 \<noteq> 0 then 1 else 0)"
    using I cs fresh aP by (auto simp: mlive_def)
  moreover have "fst ` set ((a, c) # ?P) \<subseteq> set (live @ cs)"
    using dP by (auto simp: live)
  ultimately show ?thesis
    using tag by (simp add: mlive_def nx q pa cd we live hd_append split: if_splits)
qed


lemma mlive_pending:
  assumes "mlive s live" "p \<in> set (ms_pending s)"
  shows "\<exists>n. ms_nx s (fst p) = Some n"
proof -
  have "fst ` set (ms_pending s) \<subseteq> dom (ms_nx s)"
    using assms(1) by (simp add: mlive_def)
  then have "fst p \<in> dom (ms_nx s)"
    using assms(2) by blast
  then show ?thesis by auto
qed

lemma mlive_link:
  assumes I: "mlive s live" and p: "p \<in> set (ms_pending s)" and st: "messageq_push_link (ms_nx s) (fst p) (snd p) = Inr nx"
  shows "mlive (s\<lparr>ms_nx := nx, ms_pending := remove1 p (ms_pending s)\<rparr>) live"
proof -
  have nx: "nx = (ms_nx s)(fst p \<mapsto> snd p)" and al: "fst p \<in> dom (ms_nx s)"
    using st by (auto simp: messageq_push_link_def store_next_def split: option.splits)
  have dP: "distinct (map fst (ms_pending s))"
    using I by (simp add: mlive_def)
  have "linked nx (remove1 p (ms_pending s)) live"
    using I p linked_link [of "ms_nx s" "ms_pending s" live "fst p" "snd p"] by (simp add: mlive_def nx)
  moreover have "fst ` set (ms_pending s) \<subseteq> set live"
    using I by (simp add: mlive_def)
  then have "fst ` set (remove1 p (ms_pending s)) \<subseteq> set live"
    using image_mono [OF set_remove1_subset, of fst p "ms_pending s"] by (rule order_trans [rotated])
  moreover have "distinct (map fst (remove1 p (ms_pending s)))"
    using dP by (induction "ms_pending s") (auto simp: distinct_map inj_on_def set_remove1_eq)
  ultimately show ?thesis
    using I al by (simp add: mlive_def nx insert_absorb)
qed

lemma mlive_pop_cases:
  assumes "mlive s live"
  obtains
    (waits) "ponyint_actor_messageq_pop (ms_q s) (ms_nx s) = Inr (0, ms_q s, ms_nx s)"
      "tl live \<noteq> [] \<Longrightarrow> ms_pending s \<noteq> []"
  | (pops) a b ls where "live = a # b # ls" "ms_nx s a = Some b" "a \<notin> fst ` set (ms_pending s)" "b \<noteq> 0"
      "ponyint_actor_messageq_pop (ms_q s) (ms_nx s) = Inr (b, (ms_q s)\<lparr>mq_tail := b\<rparr>, (ms_nx s)(a := None))"
proof (cases "(ms_nx s, ms_pending s, live)" rule: linked.cases)
  case 1
  then show ?thesis
    using assms by (simp add: mlive_def)
next
  case (2 nx P a)
  then show ?thesis
    using assms by (intro waits) (auto simp: mlive_def ponyint_actor_messageq_pop_def load_next_def)
next
  case (3 nx P a b ls)
  have t: "mq_tail (ms_q s) = a" "b \<noteq> 0"
    and or: "ms_nx s a = Some b \<and> a \<notin> fst ` set (ms_pending s) \<or> ms_nx s a = Some 0 \<and> (a, b) \<in> set (ms_pending s)"
    using assms 3 by (auto simp: mlive_def good_msg_def)
  from or show ?thesis
  proof
    assume "ms_nx s a = Some b \<and> a \<notin> fst ` set (ms_pending s)"
    then show ?thesis
      using t 3 by (intro pops [of a b ls]) (simp_all add: ponyint_actor_messageq_pop_def load_next_def)
  next
    assume "ms_nx s a = Some 0 \<and> (a, b) \<in> set (ms_pending s)"
    then show ?thesis
      using t 3 by (intro waits) (auto simp: ponyint_actor_messageq_pop_def load_next_def)
  qed
qed

lemma mlive_pop:
  assumes I: "mlive s live" and idle: "ms_cas s = None" and pop: "ponyint_actor_messageq_pop (ms_q s) (ms_nx s) = Inr (m, q, nx)"
  shows "\<exists>live. mlive (s\<lparr>ms_q := q, ms_nx := nx, ms_popped := ms_popped s @ (if m = 0 then [] else [m])\<rparr>) live"
  using I
proof (cases rule: mlive_pop_cases)
  case waits
  then have "s\<lparr>ms_q := q, ms_nx := nx, ms_popped := ms_popped s @ (if m = 0 then [] else [m])\<rparr> = s"
    using pop by simp
  then show ?thesis
    using I by auto
next
  case (pops a b ls)
  have "linked (ms_nx s) (ms_pending s) (b # ls)"
    using I pops by (simp add: mlive_def)
  then have "linked ((ms_nx s)(a := None)) (ms_pending s) (b # ls)"
    by (rule linked_cong [THEN iffD1, rotated 2]) (use I pops in \<open>auto simp: mlive_def\<close>)
  moreover have "dom (ms_nx s) = set live" "distinct live" "fst ` set (ms_pending s) \<subseteq> set live"
    using I by (simp_all add: mlive_def)
  then have "dom ((ms_nx s)(a := None)) = set (b # ls)" "fst ` set (ms_pending s) \<subseteq> set (b # ls)"
    using pops(3) by (auto simp: pops(1) subset_insert)
  ultimately have "mlive (s\<lparr>ms_q := q, ms_nx := nx, ms_popped := ms_popped s @ (if m = 0 then [] else [m])\<rparr>) (b # ls)"
    using I pops pop idle by (simp add: mlive_def)
  then show ?thesis ..
qed

lemma mlive_tagged:
  assumes "mlive s live" "mq_head (ms_q s) AND 1 \<noteq> 0"
  shows "tl live = []"
proof -
  have "live \<noteq> []"
    using assms by (cases live) (auto simp: mlive_def)
  then have "last live AND 1 = 0"
    using assms good_msg_tag(2) [of "last live"] by (auto simp: mlive_def)
  then show ?thesis
    using assms by (auto simp: mlive_def)
qed

lemma mlive_head_tail:
  assumes I: "mlive s live" and h: "mq_head (ms_q s) = mq_tail (ms_q s)"
  shows "live = [mq_tail (ms_q s)]"
proof -
  obtain a ls where live: "live = a # ls" and d: "distinct live" and t: "a = mq_tail (ms_q s)" and g: "good_msg a"
    using I by (cases live) (auto simp: mlive_def)
  have "last live = a"
  proof (rule ccontr)
    assume "last live \<noteq> a"
    then have "ls = []" "a = last live OR 1"
      using I h t live by (auto simp: mlive_def)
    then show False
      using good_msg_tag [OF g] live by simp
  qed
  then show ?thesis
    using d t live by (cases ls rule: rev_cases) auto
qed

lemma mlive_cas:
  assumes I: "mlive s live" and c: "ms_cas s = Some h" and cas: "markempty_cas (ms_q s) (mq_tail (ms_q s)) (h OR 1) = (ok, q)"
  shows "mlive (s\<lparr>ms_q := q, ms_cas := None, ms_marks := ms_marks s + (if ok then 1 else 0)\<rparr>) live"
proof (cases "mq_head (ms_q s) = mq_tail (ms_q s)")
  case True
  have live: "live = [mq_tail (ms_q s)]" and h: "h = mq_tail (ms_q s)"
    using mlive_head_tail [OF I True] I c by (simp_all add: mlive_def)
  then have g: "good_msg h"
    using I by (simp add: mlive_def)
  then show ?thesis
    using I cas True good_msg_tag(2,4) [OF g] by (auto simp: mlive_def markempty_cas_def live h)
next
  case False
  then show ?thesis
    using I cas by (simp add: mlive_def markempty_cas_def)
qed

lemma mlive_start: "good_msg stub \<Longrightarrow> mlive (mstart stub) [stub]"
  using good_msg_tag by (auto simp: mlive_def mstart_def ponyint_messageq_init_def)

lemma mstep_mlive: "mstep s s' \<Longrightarrow> mlive s live \<Longrightarrow> \<exists>live. mlive s' live"
proof (induction rule: mstep.induct)
  case (Mark_load s)
  then have "mq_head (ms_q s) = mq_tail (ms_q s)"
    by (simp add: markempty_load_def split: if_splits)
  with Mark_load show ?case
    by (auto simp: mlive_def intro: exI [of _ live])
qed (blast intro: mlive_swap mlive_link mlive_cas mlive_pop)+

lemma mreach_mlive: "mreach s \<Longrightarrow> \<exists>live. mlive s live"
  by (induction rule: mreach.induct) (blast intro: mlive_start mstep_mlive)+


section \<open>Theorems\<close>

lemma thread_pop_eq: "ponyint_thread_messageq_pop = ponyint_actor_messageq_pop"
  by (simp add: fun_eq_iff ponyint_thread_messageq_pop_def ponyint_actor_messageq_pop_def)

lemma push_single_eq: "messageq_push_single = messageq_push"
proof (intro ext)
  fix q nx first lst
  show "messageq_push_single q nx first lst = messageq_push q nx first lst"
    by (cases "store_next nx lst 0") (simp_all add: messageq_push_single_def messageq_push_def messageq_push_swap_def
        messageq_push_link_def Let_def)
qed

lemma mlive_done:
  assumes I: "mlive s live"
  shows "tl live = [] \<longleftrightarrow> ms_pushed s = ms_popped s" "tl live = [] \<Longrightarrow> ms_pending s = []"
    "tl live = [] \<longleftrightarrow> mq_head (ms_q s) AND 1 \<noteq> 0 \<or> mq_head (ms_q s) = mq_tail (ms_q s)"
proof -
  obtain a ls where live: "live = a # ls"
    using I by (cases live) (auto simp: mlive_def)
  have a: "good_msg a" "a = mq_tail (ms_q s)"
    using I by (auto simp: mlive_def live)
  show "tl live = [] \<longleftrightarrow> ms_pushed s = ms_popped s"
    using I by (auto simp: mlive_def)
  show "tl live = [] \<Longrightarrow> ms_pending s = []"
    using I by (cases "ms_pending s") (auto simp: mlive_def live)
  show "tl live = [] \<longleftrightarrow> mq_head (ms_q s) AND 1 \<noteq> 0 \<or> mq_head (ms_q s) = mq_tail (ms_q s)" (is "?l \<longleftrightarrow> ?r")
  proof
    assume ?l
    then have "mq_head (ms_q s) = a \<or> mq_head (ms_q s) = a OR 1"
      using I by (auto simp: mlive_def live)
    then show ?r
      using good_msg_tag(4) [OF a(1)] a(2) by auto
  next
    assume ?r
    then show ?l
      using mlive_tagged [OF I] mlive_head_tail [OF I] by auto
  qed
qed

text \<open>
  C12: Messages are delivered once and in the order in which their pushes exchanged the head: in every
  interleaving of producers and consumer the popped messages are an initial segment of the pushed ones.  Popping
  never reads a freed message; it returns the next undelivered message or \<^verbatim>\<open>NULL\<close>, and \<^verbatim>\<open>NULL\<close> only when a push is
  still between its two stores or every message has been delivered.  No pending push writes into a freed message.
\<close>

theorem messageq_fifo:
  assumes "mreach s"
  shows "\<exists>waiting m q nx. ms_pushed s = ms_popped s @ waiting
    \<and> ponyint_actor_messageq_pop (ms_q s) (ms_nx s) = Inr (m, q, nx)
    \<and> (if m = 0 then waiting = [] \<or> ms_pending s \<noteq> [] else waiting \<noteq> [] \<and> m = hd waiting)
    \<and> (\<forall>p \<in> set (ms_pending s). \<exists>nx. messageq_push_link (ms_nx s) (fst p) (snd p) = Inr nx)"
proof -
  obtain live where I: "mlive s live"
    using mreach_mlive [OF assms] ..
  have links: "\<forall>p \<in> set (ms_pending s). \<exists>nx. messageq_push_link (ms_nx s) (fst p) (snd p) = Inr nx"
    using mlive_pending [OF I] by (fastforce simp: messageq_push_link_def store_next_def)
  have pushed: "ms_pushed s = ms_popped s @ tl live"
    using I by (simp add: mlive_def)
  from I show ?thesis
  proof (cases rule: mlive_pop_cases)
    case waits
    then show ?thesis
      using links pushed by (intro exI [of _ "tl live"] exI conjI) auto
  next
    case (pops a b ls)
    then show ?thesis
      using links pushed by (intro exI [of _ "tl live"] exI conjI) auto
  qed
qed

text \<open>
  C13: The empty mark loses no wake-up.  When \<open>ponyint_messageq_markempty\<close> answers true, every pushed message has been
  popped and no push is under way; of the pushes after a mark exactly one is told that the queue was empty, so every
  mark has been followed by one such answer or is still set on the head.
\<close>

theorem messageq_mark_told:
  assumes "mreach s"
  shows "ms_marks s = ms_told s + (if mq_head (ms_q s) AND 1 \<noteq> 0 then 1 else 0)
    \<and> (fst (ponyint_messageq_markempty (ms_q s)) \<longrightarrow> ms_pushed s = ms_popped s \<and> ms_pending s = [])
    \<and> (ponyint_messageq_isempty (ms_q s) \<longleftrightarrow> ms_pushed s = ms_popped s)"
proof -
  obtain live where I: "mlive s live"
    using mreach_mlive [OF assms] ..
  note dn = mlive_done [OF I]
  have "fst (ponyint_messageq_markempty (ms_q s)) \<Longrightarrow> tl live = []"
    unfolding dn(3)
    by (auto simp: ponyint_messageq_markempty_def markempty_load_def markempty_cas_def split: if_splits)
  moreover have "ponyint_messageq_isempty (ms_q s) \<longleftrightarrow> tl live = []"
    unfolding dn(3) by (simp add: ponyint_messageq_isempty_def)
  moreover have "ms_marks s = ms_told s + (if mq_head (ms_q s) AND 1 \<noteq> 0 then 1 else 0)"
    using I by (simp add: mlive_def)
  ultimately show ?thesis
    using dn(1,2) by blast
qed

text \<open>A run: two messages are pushed to an empty queue at once, one of them is delivered.\<close>

definition mrun_swapped :: mstate where
  "mrun_swapped = \<lparr>ms_q = \<lparr>mq_head = 48, mq_tail = 16\<rparr>, ms_nx = [16 \<mapsto> 0, 48 \<mapsto> 0, 32 \<mapsto> 48], ms_pending = [(16, 32)],
     ms_cas = None, ms_pushed = [32, 48], ms_popped = [], ms_marks = 1, ms_told = 1\<rparr>"

lemma mrun_swapped_reach: "mreach mrun_swapped"
proof (rule mreach.Step [OF mreach.Start])
  show "good_msg 16" by (simp add: good_msg_def)
  have "mstep (mstart 16) ((mstart 16)\<lparr>ms_q := \<lparr>mq_head = 48, mq_tail = 16\<rparr>, ms_nx := [16 \<mapsto> 0, 48 \<mapsto> 0, 32 \<mapsto> 48],
      ms_pending := (16, hd [32, 48]) # ms_pending (mstart 16), ms_pushed := ms_pushed (mstart 16) @ [32, 48],
      ms_told := ms_told (mstart 16) + (if True then 1 else 0)\<rparr>)"
    by (rule mstep.Swap)
      (simp_all add: good_msg_def mstart_def ponyint_messageq_init_def messageq_push_swap_def store_next_def Let_def
        fun_upd_twist map_upd_triv)
  then show "mstep (mstart 16) mrun_swapped"
    by (simp add: mrun_swapped_def mstart_def ponyint_messageq_init_def)
qed

theorem messageq_fifo_witness:
  "\<exists>waiting m q nx. ms_pushed mrun_swapped = ms_popped mrun_swapped @ waiting \<and> waiting = [32, 48]
    \<and> ponyint_actor_messageq_pop (ms_q mrun_swapped) (ms_nx mrun_swapped) = Inr (m, q, nx) \<and> m = 0
    \<and> (\<exists>nx. messageq_push_link (ms_nx mrun_swapped) 16 32 = Inr nx)"
  using messageq_fifo [OF mrun_swapped_reach]
  by (simp add: mrun_swapped_def ponyint_actor_messageq_pop_def load_next_def)

theorem messageq_mark_told_witness:
  "ms_marks mrun_swapped = ms_told mrun_swapped \<and> \<not> fst (ponyint_messageq_markempty (ms_q mrun_swapped))
    \<and> \<not> ponyint_messageq_isempty (ms_q mrun_swapped)"
  using messageq_mark_told [OF mrun_swapped_reach] by (simp add: mrun_swapped_def)

end
