(* ===== verification/Pagemap.thy ===== *)
theory Pagemap
  imports Prelude
begin

text \<open>
  The page map, \<^verbatim>\<open>src/libponyrt/mem/pagemap.c\<close>, on a platform with 64-bit pointers: a prefix tree over 48 bits of
  an address that gives the chunk and the owning actor of every page of 1024 bytes.  Nodes are never
  shared and never freed, so the tree is a datatype; one thread updates it.  The theorems show that it is a
  map from page numbers and that the bulk operation sets exactly the pages of its range.
\<close>

section \<open>Operations\<close>

definition POOL_ALIGN_BITS :: nat where "POOL_ALIGN_BITS = 10"

definition POOL_ALIGN :: uint64_t where "POOL_ALIGN = 1024"

definition PAGEMAP_ADDRESSBITS :: nat where "PAGEMAP_ADDRESSBITS = 48"

definition PAGEMAP_LEVELS :: nat where "PAGEMAP_LEVELS = 3"

definition PAGEMAP_BITS :: nat where "PAGEMAP_BITS = (PAGEMAP_ADDRESSBITS - POOL_ALIGN_BITS) div PAGEMAP_LEVELS"

definition PAGEMAP_EXCESS :: nat where "PAGEMAP_EXCESS = (PAGEMAP_ADDRESSBITS - POOL_ALIGN_BITS) mod PAGEMAP_LEVELS"

definition L1_MASK :: nat where "L1_MASK = PAGEMAP_BITS"

definition L2_MASK :: nat where "L2_MASK = PAGEMAP_BITS + (if PAGEMAP_EXCESS > 1 then 1 else 0)"

definition L3_MASK :: nat where "L3_MASK = PAGEMAP_BITS + (if PAGEMAP_EXCESS > 0 then 1 else 0)"

definition L1_SHIFT :: nat where "L1_SHIFT = POOL_ALIGN_BITS"

definition L2_SHIFT :: nat where "L2_SHIFT = L1_SHIFT + L1_MASK"

definition L3_SHIFT :: nat where "L3_SHIFT = L2_SHIFT + L2_MASK"

record pagemap_level_t =
  pl_shift :: nat
  pl_mask :: uint64_t
  pl_size :: uint64_t

definition pm_level :: "pagemap_level_t list" where
  "pm_level =
     [\<lparr>pl_shift = L3_SHIFT, pl_mask = push_bit L3_MASK 1 - 1, pl_size = push_bit L3_MASK 1 * 8\<rparr>,
      \<lparr>pl_shift = L2_SHIFT, pl_mask = push_bit L2_MASK 1 - 1, pl_size = push_bit L2_MASK 1 * 8\<rparr>,
      \<lparr>pl_shift = L1_SHIFT, pl_mask = push_bit L1_MASK 1 - 1, pl_size = push_bit L1_MASK 1 * 8 * 2\<rparr>]"

text \<open>
  A node of the lowest level holds two words for each page, the chunk and the actor; the others hold
  pointers to nodes, \<open>None\<close> for \<^verbatim>\<open>NULL\<close>.
\<close>

datatype pnode = Inner "uint64_t \<Rightarrow> pnode option" | Leaf "uint64_t \<Rightarrow> uint64_t"

definition level_ix :: "pagemap_level_t \<Rightarrow> uint64_t \<Rightarrow> uint64_t" where
  "level_ix l addr = drop_bit (pl_shift l) addr AND pl_mask l"

text \<open>The walk of the two lookups: the lowest node and the index in it, or \<open>None\<close> when a node is missing.\<close>

fun pagemap_walk ::
  "pagemap_level_t list \<Rightarrow> pnode option \<Rightarrow> uint64_t \<Rightarrow> ((uint64_t \<Rightarrow> uint64_t) \<times> uint64_t) option res" where
  "pagemap_walk ls None addr = Inr None"
| "pagemap_walk [l] (Some (Leaf f)) addr =
     (let ix = level_ix l addr * 2
      in pony_assert (ix \<le> pl_size l) (pony_assert (ix div 2 \<le> pl_mask l) (Inr (Some (f, ix)))))"
| "pagemap_walk (l # l' # ls) (Some (Inner f)) addr =
     (let ix = level_ix l addr
      in pony_assert (ix \<le> pl_size l) (pony_assert (ix \<le> pl_mask l) (pagemap_walk (l' # ls) (f ix) addr)))"
| "pagemap_walk _ _ addr = Inl Null_deref"

definition ponyint_pagemap_get_chunk :: "pnode option \<Rightarrow> uint64_t \<Rightarrow> uint64_t res" where
  "ponyint_pagemap_get_chunk root addr =
     res_bind (pagemap_walk pm_level root addr) (\<lambda>r. Inr (case r of None \<Rightarrow> 0 | Some (f, ix) \<Rightarrow> f ix))"

text \<open>The second component is what is stored in \<open>*actor\<close>, \<open>None\<close> when nothing is.\<close>

definition ponyint_pagemap_get :: "pnode option \<Rightarrow> uint64_t \<Rightarrow> (uint64_t \<times> uint64_t option) res" where
  "ponyint_pagemap_get root addr =
     res_bind (pagemap_walk pm_level root addr) (\<lambda>r.
       case r of
         None \<Rightarrow> Inr (0, None)
       | Some (f, ix) \<Rightarrow>
           let chunk = f ix; ix = ix + 1; l = last pm_level
           in pony_assert (ix \<le> pl_size l) (pony_assert (ix div 2 \<le> pl_mask l) (Inr (chunk, Some (f ix)))))"

text \<open>
  The walk of the two updates: missing nodes are allocated and zeroed on the way, and \<open>g\<close> is what is
  done to the lowest node at the index of the address; it also returns a value.
\<close>

fun pagemap_ensure ::
  "pagemap_level_t list \<Rightarrow> pnode option \<Rightarrow> uint64_t \<Rightarrow>
   ((uint64_t \<Rightarrow> uint64_t) \<Rightarrow> uint64_t \<Rightarrow> ((uint64_t \<Rightarrow> uint64_t) \<times> 'a) res) \<Rightarrow> (pnode option \<times> 'a) res" where
  "pagemap_ensure [l] node addr g =
     (case (case node of None \<Rightarrow> Leaf (\<lambda>_. 0) | Some n \<Rightarrow> n) of
        Leaf f \<Rightarrow>
          let ix = level_ix l addr
          in pony_assert (ix \<le> pl_size l) (pony_assert (ix \<le> pl_mask l)
               (res_bind (g f (ix * 2)) (\<lambda>(f, a). Inr (Some (Leaf f), a))))
      | Inner f \<Rightarrow> Inl Null_deref)"
| "pagemap_ensure (l # l' # ls) node addr g =
     (case (case node of None \<Rightarrow> Inner (\<lambda>_. None) | Some n \<Rightarrow> n) of
        Inner f \<Rightarrow>
          let ix = level_ix l addr
          in pony_assert (ix \<le> pl_size l) (pony_assert (ix \<le> pl_mask l)
               (res_bind (pagemap_ensure (l' # ls) (f ix) addr g) (\<lambda>(n, a). Inr (Some (Inner (f(ix := n))), a))))
      | Leaf f \<Rightarrow> Inl Null_deref)"
| "pagemap_ensure [] node addr g = Inl Null_deref"

definition pagemap_store ::
  "uint64_t \<Rightarrow> uint64_t \<Rightarrow> (uint64_t \<Rightarrow> uint64_t) \<Rightarrow> uint64_t \<Rightarrow> ((uint64_t \<Rightarrow> uint64_t) \<times> unit) res" where
  "pagemap_store chunk actor f ix =
     (let l = last pm_level
      in pony_assert (ix \<le> pl_size l) (pony_assert (ix div 2 \<le> pl_mask l)
           (let f = f(ix := chunk); ix = ix + 1
            in pony_assert (ix \<le> pl_size l) (pony_assert (ix div 2 \<le> pl_mask l) (Inr (f(ix := actor), ()))))))"

definition ponyint_pagemap_set :: "pnode option \<Rightarrow> uint64_t \<Rightarrow> uint64_t \<Rightarrow> uint64_t \<Rightarrow> pnode option res" where
  "ponyint_pagemap_set root addr chunk actor =
     res_bind (pagemap_ensure pm_level root addr (pagemap_store chunk actor)) (\<lambda>(root, _). Inr root)"

text \<open>The inner loop of the bulk update fills the entries of one node; it returns the address it stopped at.\<close>

function pagemap_fill ::
  "uint64_t \<Rightarrow> uint64_t \<Rightarrow> uint64_t \<Rightarrow> uint64_t \<Rightarrow> (uint64_t \<Rightarrow> uint64_t) \<Rightarrow> uint64_t \<Rightarrow> ((uint64_t \<Rightarrow> uint64_t) \<times> uint64_t) res" where
  "pagemap_fill chunk actor addr_end addr_ptr f ix =
     (let l = last pm_level; f = f(ix := chunk); addr_ptr = addr_ptr + POOL_ALIGN; ix = ix + 1
      in pony_assert (ix \<le> pl_size l) (pony_assert (ix div 2 \<le> pl_mask l)
           (let f = f(ix := actor); ix = ix + 1
            in if addr_ptr < addr_end \<and> ix div 2 \<le> pl_mask l
               then pagemap_fill chunk actor addr_end addr_ptr f ix
               else Inr (f, addr_ptr))))"
  by auto

text \<open>The outer loop; each round fills at least one page.\<close>

fun pagemap_bulk_loop ::
  "nat \<Rightarrow> uint64_t \<Rightarrow> uint64_t \<Rightarrow> uint64_t \<Rightarrow> uint64_t \<Rightarrow> pnode option \<Rightarrow> pnode option res" where
  "pagemap_bulk_loop n chunk actor addr_end addr_ptr root =
     (if addr_ptr < addr_end
      then case n of
             0 \<Rightarrow> Inl Out_of_fuel
           | Suc n \<Rightarrow>
               res_bind (pagemap_ensure pm_level root addr_ptr (pagemap_fill chunk actor addr_end addr_ptr))
                 (\<lambda>(root, addr_ptr). pagemap_bulk_loop n chunk actor addr_end addr_ptr root)
      else Inr root)"

definition ponyint_pagemap_set_bulk ::
  "nat \<Rightarrow> pnode option \<Rightarrow> uint64_t \<Rightarrow> uint64_t \<Rightarrow> uint64_t \<Rightarrow> uint64_t \<Rightarrow> pnode option res" where
  "ponyint_pagemap_set_bulk n root addr chunk actor sz =
     pagemap_bulk_loop n chunk actor (addr + sz) addr root"

lemma pm_level_simp: "pm_level =
   [\<lparr>pl_shift = 35, pl_mask = 8191, pl_size = 65536\<rparr>, \<lparr>pl_shift = 22, pl_mask = 8191, pl_size = 65536\<rparr>,
    \<lparr>pl_shift = 10, pl_mask = 4095, pl_size = 65536\<rparr>]"
  by (simp add: pm_level_def L1_MASK_def L2_MASK_def L3_MASK_def L1_SHIFT_def L2_SHIFT_def L3_SHIFT_def
      PAGEMAP_BITS_def PAGEMAP_EXCESS_def PAGEMAP_ADDRESSBITS_def PAGEMAP_LEVELS_def POOL_ALIGN_BITS_def
      push_bit_eq_mult)

lemma unat_div_2_u64: "unat (w div 2 :: uint64_t) = unat w div 2"
  by (simp add: unat_div)

termination pagemap_fill
proof (relation "measure (\<lambda>(_, _, _, _, _, ix). if ix \<le> 8191 then 8192 - unat ix else 8193)", goal_cases)
  case 1
  then show ?case by simp
next
  case (2 chunk actor addr_end addr_ptr f ix l fa ap ix1 fb ix2)
  then have "unat ix2 div 2 \<le> 4095" and ix2: "ix2 = ix + 2"
    by (simp_all add: pm_level_simp word_le_nat_alt unat_div_2_u64)
  then have le: "unat ix2 \<le> 8191"
    by simp
  moreover have "unat ix2 = unat ix + 2" if "unat ix \<le> 8191"
    using that by (simp add: ix2 unat_word_ariths)
  ultimately show ?case
    by (auto simp: word_le_nat_alt)
qed

lemma level_ix_le: "level_ix l addr \<le> pl_mask l"
  by (simp add: level_ix_def word_and_le1)

declare pagemap_fill.simps [simp del] pagemap_bulk_loop.simps [simp del]

section \<open>Pages\<close>

text \<open>The page of an address: what the indices of the three levels make of it.\<close>

definition page_of :: "uint64_t \<Rightarrow> nat" where
  "page_of addr = unat addr div 1024 mod 2 ^ 38"

lemma level_ix_unat:
  assumes "pl_mask l = 2 ^ k - 1" "k < 64"
  shows "unat (level_ix l addr) = unat addr div 2 ^ pl_shift l mod 2 ^ k"
proof -
  have "(2 ^ k - 1 :: uint64_t) = mask k"
    by (simp add: mask_eq_exp_minus_1)
  then have "level_ix l addr = take_bit k (drop_bit (pl_shift l) addr)"
    using assms(1) by (simp add: level_ix_def take_bit_eq_mask)
  then show ?thesis
    by (simp add: unsigned_take_bit_eq take_bit_eq_mod [of k "_ :: nat"] unat_drop_bit_u64)
qed

lemma page_split: "x mod 2 ^ 38 = 2 ^ 12 * (2 ^ 13 * (x div 2 ^ 25 mod 2 ^ 13) + x div 2 ^ 12 mod 2 ^ 13) + x mod (2 ^ 12 :: nat)"
  using mod_mult2_eq [of x "2 ^ 12" "2 ^ 26"] mod_mult2_eq [of "x div 2 ^ 12" "2 ^ 13" "2 ^ 13"]
  by (simp add: div_mult2_eq [symmetric])

lemma div_mod_page: "k + j \<le> 38 \<Longrightarrow> x mod 2 ^ 38 div 2 ^ k mod 2 ^ j = x div 2 ^ k mod (2 ^ j :: nat)"
proof -
  assume "k + j \<le> 38"
  then have "take_bit j (drop_bit k (take_bit 38 x)) = take_bit j (drop_bit k x)"
    by (simp add: drop_bit_take_bit min_absorb1)
  then show ?thesis
    by (simp add: take_bit_eq_mod drop_bit_eq_div)
qed

definition L3 :: pagemap_level_t where "L3 = \<lparr>pl_shift = 35, pl_mask = 8191, pl_size = 65536\<rparr>"

definition L2 :: pagemap_level_t where "L2 = \<lparr>pl_shift = 22, pl_mask = 8191, pl_size = 65536\<rparr>"

definition L1 :: pagemap_level_t where "L1 = \<lparr>pl_shift = 10, pl_mask = 4095, pl_size = 65536\<rparr>"

lemma pm_levels: "pm_level = [L3, L2, L1]"
  by (simp add: pm_level_simp L1_def L2_def L3_def)

lemma unat_level_ix:
  "unat (level_ix L3 a) = page_of a div 2 ^ 25"
  "unat (level_ix L2 a) = page_of a div 2 ^ 12 mod 2 ^ 13"
  "unat (level_ix L1 a) = page_of a mod 2 ^ 12"
proof -
  have *: "unat a div 2 ^ 35 = unat a div 1024 div 2 ^ 25" "unat a div 2 ^ 22 = unat a div 1024 div 2 ^ 12"
    by (simp_all add: div_mult2_eq [symmetric])
  show "unat (level_ix L3 a) = page_of a div 2 ^ 25"
    using level_ix_unat [of L3 13 a] div_mod_page [of 25 13 "unat a div 1024"] *(1)
    by (simp add: L3_def page_of_def)
  show "unat (level_ix L2 a) = page_of a div 2 ^ 12 mod 2 ^ 13"
    using level_ix_unat [of L2 13 a] div_mod_page [of 12 13 "unat a div 1024"] *(2)
    by (simp add: L2_def page_of_def)
  show "unat (level_ix L1 a) = page_of a mod 2 ^ 12"
    using level_ix_unat [of L1 12 a] div_mod_page [of 0 12 "unat a div 1024"]
    by (simp add: L1_def page_of_def)
qed

lemma same_node_iff:
  "level_ix L3 a = level_ix L3 b \<and> level_ix L2 a = level_ix L2 b \<longleftrightarrow> page_of a div 2 ^ 12 = page_of b div 2 ^ 12"
proof -
  have "page_of c div 2 ^ 12 = 2 ^ 13 * (page_of c div 2 ^ 25) + page_of c div 2 ^ 12 mod 2 ^ 13" for c
    using div_mult_mod_eq [of "page_of c div 2 ^ 12" "2 ^ 13"] by (simp add: div_mult2_eq [symmetric])
  moreover have "page_of c div 2 ^ 25 = page_of c div 2 ^ 12 div 2 ^ 13" for c
    by (simp add: div_mult2_eq [symmetric])
  ultimately show ?thesis
    by (metis unat_level_ix(1,2) word_unat_eq_iff)
qed

section \<open>The tree as a map\<close>

fun pm_wf :: "pagemap_level_t list \<Rightarrow> pnode option \<Rightarrow> bool" where
  "pm_wf ls None \<longleftrightarrow> True"
| "pm_wf [l] (Some (Leaf f)) \<longleftrightarrow> True"
| "pm_wf (l # l' # ls) (Some (Inner f)) \<longleftrightarrow> (\<forall>ix. pm_wf (l' # ls) (f ix))"
| "pm_wf _ _ \<longleftrightarrow> False"

text \<open>The words of the lowest node on the way to an address, zeros when there is none.\<close>

fun leaf_of :: "pagemap_level_t list \<Rightarrow> pnode option \<Rightarrow> uint64_t \<Rightarrow> uint64_t \<Rightarrow> uint64_t" where
  "leaf_of [l] (Some (Leaf f)) addr = f"
| "leaf_of (l # l' # ls) (Some (Inner f)) addr = leaf_of (l' # ls) (f (level_ix l addr)) addr"
| "leaf_of _ _ addr = (\<lambda>_. 0)"

definition level_ok :: "pagemap_level_t \<Rightarrow> bool" where
  "level_ok l \<longleftrightarrow> pl_mask l \<le> 8191 \<and> pl_size l = 65536"

lemma level_ok_ix:
  assumes "level_ok l"
  shows "level_ix l a \<le> pl_size l" "level_ix l a * 2 \<le> pl_size l" "level_ix l a * 2 div 2 = level_ix l a"
proof -
  have "level_ix l a \<le> 8191"
    using assms level_ix_le [of l a] by (auto simp: level_ok_def)
  then have le: "unat (level_ix l a) \<le> 8191"
    by (simp add: word_le_nat_alt)
  then have "unat (level_ix l a * 2) = unat (level_ix l a) * 2"
    by (simp add: unat_word_ariths)
  with le assms show "level_ix l a \<le> pl_size l" "level_ix l a * 2 \<le> pl_size l" "level_ix l a * 2 div 2 = level_ix l a"
    by (simp_all add: level_ok_def word_le_nat_alt word_unat_eq_iff unat_div_2_u64)
qed

lemma pagemap_walk_leaf:
  "pm_wf ls root \<Longrightarrow> \<forall>l \<in> set ls. level_ok l \<Longrightarrow> ls \<noteq> [] \<Longrightarrow>
   pagemap_walk ls root addr = Inr (Some (leaf_of ls root addr, level_ix (last ls) addr * 2))
   \<or> pagemap_walk ls root addr = Inr None \<and> leaf_of ls root addr = (\<lambda>_. 0)"
  by (induction ls root addr rule: pagemap_walk.induct) (auto simp: level_ok_ix level_ix_le Let_def)

lemma pagemap_ensure_leaf:
  assumes "pm_wf ls root" "\<forall>l \<in> set ls. level_ok l" "ls \<noteq> []"
    "g (leaf_of ls root addr) (level_ix (last ls) addr * 2) = Inr (f, a)"
  shows "\<exists>root'. pagemap_ensure ls root addr g = Inr (root', a) \<and> pm_wf ls root'
    \<and> (\<forall>b. leaf_of ls root' b = (if \<forall>l \<in> set (butlast ls). level_ix l b = level_ix l addr then f else leaf_of ls root b))"
  using assms
proof (induction ls root addr g rule: pagemap_ensure.induct)
  case (1 l node addr g)
  then show ?case
    by (cases node rule: option.exhaust; cases "the node") (auto simp: level_ok_ix level_ix_le Let_def)
next
  case (2 l l' ls node addr g)
  define h where "h = (case node of Some (Inner f) \<Rightarrow> f | _ \<Rightarrow> (\<lambda>_. None))"
  have node: "(case node of None \<Rightarrow> Inner (\<lambda>_. None) | Some n \<Rightarrow> n) = Inner h"
    and leaf: "leaf_of (l # l' # ls) node b = leaf_of (l' # ls) (h (level_ix l b)) b"
    and wf: "pm_wf (l' # ls) (h ix)" for b ix
    using 2(2) by (auto simp: h_def split: option.splits pnode.splits)
  have lo: "level_ix l addr \<le> pl_size l" "level_ix l addr \<le> pl_mask l"
    using 2(3) by (simp_all add: level_ok_ix level_ix_le)
  obtain n where n: "pagemap_ensure (l' # ls) (h (level_ix l addr)) addr g = Inr (n, a)" "pm_wf (l' # ls) n"
    "\<forall>b. leaf_of (l' # ls) n b = (if \<forall>l \<in> set (butlast (l' # ls)). level_ix l b = level_ix l addr then f
       else leaf_of (l' # ls) (h (level_ix l addr)) b)"
    using 2(1) [OF node refl wf] 2(3-5) leaf by auto
  show ?case
    using n lo wf leaf by (auto simp: node Let_def)
qed simp

definition pm_entry :: "pnode option \<Rightarrow> uint64_t \<Rightarrow> uint64_t \<times> uint64_t" where
  "pm_entry root addr = (let f = leaf_of pm_level root addr; ix = level_ix L1 addr * 2 in (f ix, f (ix + 1)))"

abbreviation pm_ok :: "pnode option \<Rightarrow> bool" where
  "pm_ok root \<equiv> pm_wf pm_level root"

lemma levels_ok: "\<forall>l \<in> set pm_level. level_ok l" "level_ok L1"
  by (simp_all add: pm_levels level_ok_def L1_def L2_def L3_def)

lemma unat_ix1: "unat (level_ix L1 a * 2) = page_of a mod 4096 * 2" "unat (level_ix L1 a * 2 + 1) = page_of a mod 4096 * 2 + 1"
proof -
  have "page_of a mod 4096 < 4096" by simp
  then show "unat (level_ix L1 a * 2) = page_of a mod 4096 * 2" "unat (level_ix L1 a * 2 + 1) = page_of a mod 4096 * 2 + 1"
    using unat_level_ix(3) [of a] by (simp_all add: unat_word_ariths)
qed

lemma double_words_eq:
  fixes u u' v v' :: uint64_t
  assumes "unat u = x * 2" "unat u' = x * 2 + 1" "unat v = y * 2" "unat v' = y * 2 + 1"
  shows "u = v \<longleftrightarrow> x = y" "u' = v' \<longleftrightarrow> x = y" "u \<noteq> v'" "u' \<noteq> v"
  unfolding word_unat_eq_iff assms by (simp, simp, presburger, presburger)

lemma get_entry:
  assumes "pm_ok root"
  shows "ponyint_pagemap_get_chunk root addr = Inr (fst (pm_entry root addr))"
    and "\<exists>act. ponyint_pagemap_get root addr = Inr (fst (pm_entry root addr), act)
      \<and> (act = Some (snd (pm_entry root addr)) \<or> act = None \<and> pm_entry root addr = (0, 0))"
proof -
  have lst: "last pm_level = L1" "pm_level \<noteq> []"
    by (simp_all add: pm_levels)
  have b: "level_ix L1 addr * 2 + 1 \<le> pl_size L1" "(level_ix L1 addr * 2 + 1) div 2 \<le> pl_mask L1"
    using unat_ix1(2) [of addr] by (simp_all add: word_le_nat_alt unat_div_2_u64 L1_def)
  show "ponyint_pagemap_get_chunk root addr = Inr (fst (pm_entry root addr))"
    using pagemap_walk_leaf [OF assms levels_ok(1) lst(2), of addr]
    by (auto simp: ponyint_pagemap_get_chunk_def pm_entry_def lst Let_def)
  show "\<exists>act. ponyint_pagemap_get root addr = Inr (fst (pm_entry root addr), act)
      \<and> (act = Some (snd (pm_entry root addr)) \<or> act = None \<and> pm_entry root addr = (0, 0))"
    using pagemap_walk_leaf [OF assms levels_ok(1) lst(2), of addr] b
    by (auto simp: ponyint_pagemap_get_def pm_entry_def lst Let_def)
qed


section \<open>Setting one page\<close>

lemma leaf_of_same:
  "level_ix L3 b = level_ix L3 a \<Longrightarrow> level_ix L2 b = level_ix L2 a \<Longrightarrow> leaf_of pm_level root b = leaf_of pm_level root a"
proof -
  have "leaf_of [L1] n b = leaf_of [L1] n a" for n
    by (induction "[L1]" n a rule: leaf_of.induct) auto
  then have "level_ix L2 b = level_ix L2 a \<Longrightarrow> leaf_of [L2, L1] n b = leaf_of [L2, L1] n a" for n
    by (cases n; cases "the n") auto
  then show "level_ix L3 b = level_ix L3 a \<Longrightarrow> level_ix L2 b = level_ix L2 a \<Longrightarrow> leaf_of pm_level root b = leaf_of pm_level root a"
    unfolding pm_levels by (cases root; cases "the root") auto
qed

lemma set_entry:
  assumes "pm_ok root"
  shows "\<exists>root'. ponyint_pagemap_set root addr chunk actor = Inr root' \<and> pm_ok root'
    \<and> (\<forall>b. pm_entry root' b = (if page_of b = page_of addr then (chunk, actor) else pm_entry root b))"
proof -
  let ?ix = "level_ix L1 addr * 2"
  let ?f = "(leaf_of pm_level root addr)(?ix := chunk, ?ix + 1 := actor)"
  have b: "?ix \<le> pl_size L1" "?ix div 2 \<le> pl_mask L1" "?ix + 1 \<le> pl_size L1" "(?ix + 1) div 2 \<le> pl_mask L1"
    using unat_ix1 [of addr] by (simp_all add: word_le_nat_alt unat_div_2_u64 L1_def)
  then have "pagemap_store chunk actor (leaf_of pm_level root addr) ?ix = Inr (?f, ())"
    by (simp add: pagemap_store_def pm_levels Let_def)
  then obtain root' where r: "pagemap_ensure pm_level root addr (pagemap_store chunk actor) = Inr (root', ())" "pm_ok root'"
    "\<forall>b. leaf_of pm_level root' b = (if \<forall>l \<in> set (butlast pm_level). level_ix l b = level_ix l addr then ?f
       else leaf_of pm_level root b)"
    using pagemap_ensure_leaf [OF assms levels_ok(1), of "pagemap_store chunk actor" addr ?f "()"]
    by (auto simp: pm_levels)
  have "pm_entry root' b = (if page_of b = page_of addr then (chunk, actor) else pm_entry root b)" for b
  proof -
    have node: "(\<forall>l \<in> set (butlast pm_level). level_ix l b = level_ix l addr) \<longleftrightarrow> page_of b div 4096 = page_of addr div 4096"
      using same_node_iff [of b addr] by (simp add: pm_levels)
    have low: "level_ix L1 b * 2 = ?ix \<longleftrightarrow> page_of b mod 4096 = page_of addr mod 4096"
      "level_ix L1 b * 2 + 1 = ?ix + 1 \<longleftrightarrow> page_of b mod 4096 = page_of addr mod 4096"
      "level_ix L1 b * 2 \<noteq> ?ix + 1" "level_ix L1 b * 2 + 1 \<noteq> ?ix"
      using double_words_eq [OF unat_ix1 [of b] unat_ix1 [of addr]] by auto
    have split: "page_of b = page_of addr \<longleftrightarrow> page_of b div 4096 = page_of addr div 4096 \<and> page_of b mod 4096 = page_of addr mod 4096"
      by (metis div_mult_mod_eq)
    have leaf: "leaf_of pm_level root' b = (if page_of b div 4096 = page_of addr div 4096 then ?f else leaf_of pm_level root b)"
      unfolding r(3) [rule_format] node by (rule refl)
    have same: "leaf_of pm_level root b = leaf_of pm_level root addr" if "page_of b div 4096 = page_of addr div 4096"
      using that same_node_iff [of b addr] leaf_of_same [of b addr root] by simp
    show ?thesis
    proof (cases "page_of b div 4096 = page_of addr div 4096")
      case True
      then have "pm_entry root' b = (?f (level_ix L1 b * 2), ?f (level_ix L1 b * 2 + 1))"
        and "pm_entry root b = (leaf_of pm_level root addr (level_ix L1 b * 2), leaf_of pm_level root addr (level_ix L1 b * 2 + 1))"
        using leaf same by (simp_all only: pm_entry_def Let_def if_P)
      then show ?thesis
        unfolding split using True low by (simp only: fun_upd_apply simp_thms if_True) auto
    next
      case False
      then show ?thesis
        unfolding split using leaf by (simp only: pm_entry_def Let_def if_False simp_thms)
    qed
  qed
  then show ?thesis
    using r by (auto simp: ponyint_pagemap_set_def)
qed

section \<open>Setting a range\<close>

text \<open>The pages of a range of \<open>sz\<close> bytes.\<close>

definition pages :: "nat \<Rightarrow> nat" where
  "pages sz = (sz + 1023) div 1024"

lemma pages_simps: "pages 0 = 0" "0 < n \<Longrightarrow> pages n = Suc (pages (n - 1024))" "0 < n \<Longrightarrow> 0 < pages n"
proof -
  show "pages 0 = 0" by (simp add: pages_def)
  show *: "0 < n \<Longrightarrow> pages n = Suc (pages (n - 1024))"
    by (cases "n \<le> 1024") (auto simp: pages_def le_div_geq)
  show "0 < n \<Longrightarrow> 0 < pages n"
    using * by simp
qed

lemma pagemap_fill_result:
  assumes "unat ix = 2 * i" "i \<le> 4095" "ap < ae" "unat ae \<le> 2 ^ 48"
  shows "\<exists>k f'. pagemap_fill chunk actor ae ap f ix = Inr (f', ap + of_nat k * 1024) \<and> 0 < k \<and> i + k \<le> 4096
     \<and> k \<le> pages (unat ae - unat ap) \<and> (i + k = 4096 \<or> k = pages (unat ae - unat ap))
     \<and> (\<forall>x. f' x = (if 2 * i \<le> unat x \<and> unat x < 2 * (i + k) then if even (unat x) then chunk else actor else f x))"
  using assms
proof (induction "4096 - i" arbitrary: i ix ap f rule: less_induct)
  case less
  have ix1: "unat (ix + 1) = 2 * i + 1" and ix2: "unat (ix + 2) = 2 * i + 2"
    using less.prems by (simp_all add: unat_word_ariths)
  have ap: "unat (ap + 1024) = unat ap + 1024"
    using less.prems by (simp add: unat_word_ariths word_less_nat_alt)
  have chk: "ix + 1 \<le> pl_size L1" "(ix + 1) div 2 \<le> pl_mask L1"
    using less.prems ix1 by (simp_all add: word_le_nat_alt unat_div_2_u64 L1_def)
  have go: "ap + 1024 < ae \<and> (ix + 2) div 2 \<le> pl_mask L1 \<longleftrightarrow> unat ap + 1024 < unat ae \<and> i + 1 \<le> 4095"
    using ap ix2 by (simp add: word_less_nat_alt word_le_nat_alt unat_div_2_u64 L1_def)
  define f2 where "f2 = f(ix := chunk, ix + 1 := actor)"
  have f2: "f2 x = (if unat x = 2 * i then chunk else if unat x = 2 * i + 1 then actor else f x)" for x
    using less.prems(1) ix1 by (auto simp: f2_def word_unat_eq_iff)
  have pg: "pages (unat ae - unat ap) = Suc (pages (unat ae - unat (ap + 1024)))"
    using less.prems(3) ap by (subst pages_simps(2)) (auto simp: word_less_nat_alt)
  show ?case
  proof (cases "ap + 1024 < ae \<and> (ix + 2) div 2 \<le> pl_mask L1")
    case True
    then have *: "unat ap + 1024 < unat ae" "i + 1 \<le> 4095"
      using go by auto
    have fuel: "4096 - (i + 1) < 4096 - i"
      using *(2) by simp
    obtain k f' where k: "pagemap_fill chunk actor ae (ap + 1024) f2 (ix + 2) = Inr (f', ap + 1024 + of_nat k * 1024)"
      "0 < k" "i + 1 + k \<le> 4096" "k \<le> pages (unat ae - unat (ap + 1024))"
      "i + 1 + k = 4096 \<or> k = pages (unat ae - unat (ap + 1024))"
      "\<forall>x. f' x = (if 2 * (i + 1) \<le> unat x \<and> unat x < 2 * (i + 1 + k) then if even (unat x) then chunk else actor else f2 x)"
      using less.hyps [OF fuel, of "ix + 2" "ap + 1024" f2] less.prems(4) ix2 * True by auto
    have "pagemap_fill chunk actor ae ap f ix = Inr (f', ap + of_nat (Suc k) * 1024)"
      using True chk k(1)
      by (subst pagemap_fill.simps) (simp add: pm_levels Let_def f2_def POOL_ALIGN_def algebra_simps)
    moreover have "f' x = (if 2 * i \<le> unat x \<and> unat x < 2 * (i + Suc k) then if even (unat x) then chunk else actor else f x)" for x
      using k(6) f2 by auto
    ultimately show ?thesis
      using k(2-5) pg by (intro exI [of _ "Suc k"] exI [of _ f']) auto
  next
    case False
    then have "pagemap_fill chunk actor ae ap f ix = Inr (f2, ap + of_nat 1 * 1024)"
      using chk by (subst pagemap_fill.simps) (auto simp: pm_levels Let_def f2_def POOL_ALIGN_def add.assoc)
    moreover have "i + 1 = 4096 \<or> 1 = pages (unat ae - unat ap)"
      using False go less.prems(2) pg ap by (auto simp: pages_simps(1))
    moreover have "f2 x = (if 2 * i \<le> unat x \<and> unat x < 2 * (i + 1) then if even (unat x) then chunk else actor else f x)" for x
      using f2 by auto
    ultimately show ?thesis
      using pg less.prems(2) by (intro exI [of _ 1] exI [of _ f2]) auto
  qed
qed


text \<open>A page lies among the \<open>k\<close> pages from \<open>p\<close>, all in one node, when it is in that node and its index is among theirs.\<close>

lemma page_in_node:
  assumes "p mod 4096 + k \<le> (4096 :: nat)"
  shows "p \<le> q \<and> q < p + k \<longleftrightarrow> q div 4096 = p div 4096 \<and> p mod 4096 \<le> q mod 4096 \<and> q mod 4096 < p mod 4096 + k"
  (is "?l \<longleftrightarrow> ?r")
proof -
  define a b c d where "a = p div 4096" and "b = p mod 4096" and "c = q div 4096" and "d = q mod 4096"
  have "p = 4096 * a + b" "q = 4096 * c + d" "d < 4096" "b + k \<le> 4096"
    using assms by (simp_all add: a_def b_def c_def d_def)
  then have "p \<le> q \<and> q < p + k \<longleftrightarrow> c = a \<and> b \<le> d \<and> d < b + k"
    by (cases a c rule: linorder_cases) auto
  then show ?thesis
    unfolding a_def b_def c_def d_def .
qed

lemma bulk_round:
  assumes ok: "pm_ok root" and ap: "ap < ae" and ae: "unat ae \<le> 2 ^ 48"
  shows "\<exists>k root'. pagemap_ensure pm_level root ap (pagemap_fill chunk actor ae ap) = Inr (root', ap + of_nat k * 1024)
    \<and> pm_ok root' \<and> 0 < k \<and> k \<le> pages (unat ae - unat ap)
    \<and> (\<forall>b. pm_entry root' b = (if page_of ap \<le> page_of b \<and> page_of b < page_of ap + k then (chunk, actor) else pm_entry root b))"
proof -
  let ?ix = "level_ix L1 ap * 2" and ?i = "page_of ap mod 4096"
  have "?i \<le> 4095"
    using mod_less_divisor [of 4096 "page_of ap"] by linarith
  moreover have "unat ?ix = 2 * ?i"
    by (simp add: unat_ix1)
  ultimately obtain k f' where f': "pagemap_fill chunk actor ae ap (leaf_of pm_level root ap) ?ix = Inr (f', ap + of_nat k * 1024)"
    and k: "0 < k" "?i + k \<le> 4096" "k \<le> pages (unat ae - unat ap)"
    and val: "\<And>x. f' x = (if 2 * ?i \<le> unat x \<and> unat x < 2 * (?i + k) then if even (unat x) then chunk else actor
      else leaf_of pm_level root ap x)"
    using pagemap_fill_result [of ?ix ?i ap ae chunk actor "leaf_of pm_level root ap"] ap ae by blast
  obtain root' where r: "pagemap_ensure pm_level root ap (pagemap_fill chunk actor ae ap) = Inr (root', ap + of_nat k * 1024)" "pm_ok root'"
    "\<forall>b. leaf_of pm_level root' b = (if \<forall>l \<in> set (butlast pm_level). level_ix l b = level_ix l ap then f' else leaf_of pm_level root b)"
    using pagemap_ensure_leaf [OF ok levels_ok(1), of "pagemap_fill chunk actor ae ap" ap f' "ap + of_nat k * 1024"] f'
    by (auto simp: pm_levels)
  have "pm_entry root' b = (if page_of ap \<le> page_of b \<and> page_of b < page_of ap + k then (chunk, actor) else pm_entry root b)" for b
  proof -
    have node: "(\<forall>l \<in> set (butlast pm_level). level_ix l b = level_ix l ap) \<longleftrightarrow> page_of b div 4096 = page_of ap div 4096"
      using same_node_iff [of b ap] by (simp add: pm_levels)
    note leaf = r(3) [rule_format, of b, unfolded node]
    have same: "leaf_of pm_level root b = leaf_of pm_level root ap" if "page_of b div 4096 = page_of ap div 4096"
      using that same_node_iff [of b ap] leaf_of_same [of b ap root] by simp
    show ?thesis
    proof (cases "page_of b div 4096 = page_of ap div 4096")
      case True
      have "f' (level_ix L1 b * 2) = (if ?i \<le> page_of b mod 4096 \<and> page_of b mod 4096 < ?i + k then chunk else leaf_of pm_level root ap (level_ix L1 b * 2))"
        "f' (level_ix L1 b * 2 + 1) = (if ?i \<le> page_of b mod 4096 \<and> page_of b mod 4096 < ?i + k then actor else leaf_of pm_level root ap (level_ix L1 b * 2 + 1))"
        unfolding val unat_ix1 by auto
      then show ?thesis
        unfolding page_in_node [OF k(2)] using True leaf same
        by (simp only: pm_entry_def Let_def if_P simp_thms) (simp split: if_splits)
    next
      case False
      then show ?thesis
        unfolding page_in_node [OF k(2)] using leaf by (simp only: pm_entry_def Let_def if_False simp_thms)
    qed
  qed
  then show ?thesis
    using r(1,2) k by blast
qed

lemma page_of_add:
  assumes "unat ap + k * 1024 < 2 ^ 48"
  shows "unat (ap + of_nat k * 1024) = unat ap + k * 1024" "page_of (ap + of_nat k * 1024) = page_of ap + k"
proof -
  have "unat (of_nat k * 1024 :: uint64_t) = k * 1024"
    using assms by (simp add: unat_word_ariths unat_of_nat)
  then show u: "unat (ap + of_nat k * 1024) = unat ap + k * 1024"
    using assms by (simp add: unat_word_ariths)
  have "unat ap div 1024 + k < 2 ^ 38"
    using assms by (simp add: less_mult_imp_div_less flip: div_mult_self3)
  then show "page_of (ap + of_nat k * 1024) = page_of ap + k"
    by (simp add: page_of_def u)
qed

lemma bulk_loop_entries:
  assumes "pm_ok root" "unat ae \<le> 2 ^ 48" "pages (unat ae - unat ap) \<le> n"
  shows "\<exists>root'. pagemap_bulk_loop n chunk actor ae ap root = Inr root' \<and> pm_ok root'
    \<and> (\<forall>b. pm_entry root' b = (if page_of ap \<le> page_of b \<and> page_of b < page_of ap + pages (unat ae - unat ap)
         then (chunk, actor) else pm_entry root b))"
  using assms
proof (induction n arbitrary: ap root)
  case 0
  then have "\<not> ap < ae"
    using pages_simps(3) [of "unat ae - unat ap"] by (auto simp: word_less_nat_alt)
  with 0 show ?case
    by (auto simp: pagemap_bulk_loop.simps)
next
  case (Suc n)
  show ?case
  proof (cases "ap < ae")
    case False
    with Suc.prems show ?thesis
      by (auto simp: pagemap_bulk_loop.simps word_less_nat_alt pages_simps(1))
  next
    case True
    obtain k r where k: "pagemap_ensure pm_level root ap (pagemap_fill chunk actor ae ap) = Inr (r, ap + of_nat k * 1024)"
      "pm_ok r" "0 < k" "k \<le> pages (unat ae - unat ap)"
      and e: "\<And>b. pm_entry r b = (if page_of ap \<le> page_of b \<and> page_of b < page_of ap + k then (chunk, actor) else pm_entry root b)"
      using bulk_round [OF Suc.prems(1) True Suc.prems(2)] by blast
    define m where "m = unat ae - unat ap"
    have m: "0 < m" "unat ae = unat ap + m"
      using True by (auto simp: m_def word_less_nat_alt)
    have kp: "k \<le> pages m" "(k - 1) * 1024 < m"
      using k(3,4) m(1) by (auto simp: m_def pages_def)
    have apk: "unat (ap + of_nat k * 1024) = unat ap + k * 1024"
      using kp m Suc.prems(2) k(3) by (simp add: unat_word_ariths unat_of_nat)
    have rest: "pages (unat ae - unat (ap + of_nat k * 1024)) = pages m - k"
      using kp m apk by (auto simp: pages_def)
    have fuel: "pages m - k \<le> n"
      using Suc.prems(3) k(3) by (simp add: m_def)
    obtain root' where r': "pagemap_bulk_loop n chunk actor ae (ap + of_nat k * 1024) r = Inr root'" "pm_ok root'"
      and e': "\<And>b. pm_entry root' b = (if page_of (ap + of_nat k * 1024) \<le> page_of b
        \<and> page_of b < page_of (ap + of_nat k * 1024) + (pages m - k) then (chunk, actor) else pm_entry r b)"
      using Suc.IH [OF k(2) Suc.prems(2), of "ap + of_nat k * 1024", unfolded rest] fuel by blast
    have "pm_entry root' b = (if page_of ap \<le> page_of b \<and> page_of b < page_of ap + pages m then (chunk, actor) else pm_entry root b)" for b
    proof (cases "k = pages m")
      case True
      then show ?thesis using e [of b] e' [of b] by auto
    next
      case False
      then have "unat ap + k * 1024 < 2 ^ 48"
        using kp(1) m Suc.prems(2) by (simp add: pages_def)
      then show ?thesis
        using e [of b] e' [of b] page_of_add(2) [of ap k] kp(1) by auto
    qed
    then show ?thesis
      using True k(1) r' by (simp add: pagemap_bulk_loop.simps m_def)
  qed
qed


section \<open>Theorems\<close>

text \<open>
  The contract the heap relies on: a lookup sees what was last stored for its page, and a bulk update stores
  for the pages of its range and no others.
\<close>

locale page_table =
  fixes ok :: "'m \<Rightarrow> bool" and get :: "'m \<Rightarrow> uint64_t \<Rightarrow> uint64_t res"
    and put :: "'m \<Rightarrow> uint64_t \<Rightarrow> uint64_t \<Rightarrow> uint64_t \<Rightarrow> 'm res"
    and put_bulk :: "nat \<Rightarrow> 'm \<Rightarrow> uint64_t \<Rightarrow> uint64_t \<Rightarrow> uint64_t \<Rightarrow> uint64_t \<Rightarrow> 'm res"
  assumes put_get: "ok m \<Longrightarrow> \<exists>m'. put m a c t = Inr m' \<and> ok m'
      \<and> (\<forall>b. get m' b = (if page_of b = page_of a then Inr c else get m b))"
    and bulk_get: "ok m \<Longrightarrow> unat a + unat s \<le> 2 ^ 48 \<Longrightarrow> \<exists>m'. put_bulk (pages (unat s)) m a c t s = Inr m' \<and> ok m'
      \<and> (\<forall>b. get m' b = (if page_of a \<le> page_of b \<and> page_of b < page_of a + pages (unat s) then Inr c else get m b))"
begin

lemma bulk_same_range:
  assumes "ok m" "unat a + unat s \<le> 2 ^ 48" "put_bulk (pages (unat s)) m a c t s = Inr m1" "put_bulk (pages (unat s)) m1 a d u s = Inr m2"
  shows "get m2 b = (if page_of a \<le> page_of b \<and> page_of b < page_of a + pages (unat s) then Inr d else get m b)"
proof -
  have "ok m1" "get m1 b = (if page_of a \<le> page_of b \<and> page_of b < page_of a + pages (unat s) then Inr c else get m b)"
    using bulk_get [OF assms(1,2), of c t] assms(3) by auto
  then show ?thesis
    using bulk_get [OF \<open>ok m1\<close> assms(2), of d u] assms(4) by auto
qed

end

lemma bulk_entries:
  assumes "pm_ok root" "unat addr + unat sz \<le> 2 ^ 48"
  shows "\<exists>root'. ponyint_pagemap_set_bulk (pages (unat sz)) root addr chunk actor sz = Inr root' \<and> pm_ok root'
    \<and> (\<forall>b. pm_entry root' b = (if page_of addr \<le> page_of b \<and> page_of b < page_of addr + pages (unat sz)
         then (chunk, actor) else pm_entry root b))"
proof -
  have "unat (addr + sz) = unat addr + unat sz"
    using assms(2) by (simp add: unat_word_ariths)
  then show ?thesis
    using bulk_loop_entries [OF assms(1), of "addr + sz" addr "pages (unat sz)" chunk actor] assms(2)
    by (simp add: ponyint_pagemap_set_bulk_def)
qed

interpretation pt: page_table pm_ok ponyint_pagemap_get_chunk ponyint_pagemap_set ponyint_pagemap_set_bulk
proof
  show "pm_ok m \<Longrightarrow> \<exists>m'. ponyint_pagemap_set m a c t = Inr m' \<and> pm_ok m'
      \<and> (\<forall>b. ponyint_pagemap_get_chunk m' b = (if page_of b = page_of a then Inr c else ponyint_pagemap_get_chunk m b))" for m a c t
    using set_entry [of m a c t] get_entry(1) by fastforce
  show "pm_ok m \<Longrightarrow> unat a + unat s \<le> 2 ^ 48 \<Longrightarrow> \<exists>m'. ponyint_pagemap_set_bulk (pages (unat s)) m a c t s = Inr m' \<and> pm_ok m'
      \<and> (\<forall>b. ponyint_pagemap_get_chunk m' b = (if page_of a \<le> page_of b \<and> page_of b < page_of a + pages (unat s)
           then Inr c else ponyint_pagemap_get_chunk m b))" for m a c t s
    using bulk_entries [of m a s c t] get_entry(1) by fastforce
qed

text \<open>
  C24: The page map is a map from the pages of 48-bit addresses to pairs of a chunk and an actor.  From the empty tree
  on, \<open>ponyint_pagemap_set\<close> changes the page of its address only, and \<open>ponyint_pagemap_set_bulk\<close>, which ends after at
  most one round for each page, changes exactly the pages of its range; no assertion fails and the lookups return
  what was stored.
\<close>

theorem pagemap_refines_map:
  assumes "pm_ok root" "unat addr + unat sz \<le> 2 ^ 48"
  shows "pm_ok None
    \<and> (\<exists>one. ponyint_pagemap_set root addr chunk actor = Inr one \<and> pm_ok one
       \<and> (\<forall>b. pm_entry one b = (if page_of b = page_of addr then (chunk, actor) else pm_entry root b)))
    \<and> (\<exists>many. ponyint_pagemap_set_bulk (pages (unat sz)) root addr chunk actor sz = Inr many \<and> pm_ok many
       \<and> (\<forall>b. pm_entry many b = (if page_of addr \<le> page_of b \<and> page_of b < page_of addr + pages (unat sz)
            then (chunk, actor) else pm_entry root b)))
    \<and> ponyint_pagemap_get_chunk root addr = Inr (fst (pm_entry root addr))
    \<and> (\<exists>act. ponyint_pagemap_get root addr = Inr (fst (pm_entry root addr), act)
       \<and> (act = Some (snd (pm_entry root addr)) \<or> act = None \<and> pm_entry root addr = (0, 0)))"
  using set_entry [OF assms(1)] bulk_entries [OF assms] get_entry [OF assms(1)] by simp

theorem pagemap_refines_map_witness:
  "\<exists>many. ponyint_pagemap_set_bulk 3 None 4193280 7 9 3072 = Inr many \<and> pm_entry many 4195000 = (7, 9)
    \<and> pm_entry many 4196352 = (0, 0)"
proof -
  have p: "pages 3072 = 3" "page_of 4193280 = 4095" "page_of 4195000 = 4096" "page_of 4196352 = 4098"
    by (simp_all add: pages_def page_of_def)
  obtain many where "ponyint_pagemap_set_bulk 3 None 4193280 7 9 3072 = Inr many"
    "\<forall>b. pm_entry many b = (if page_of 4193280 \<le> page_of b \<and> page_of b < page_of 4193280 + 3 then (7, 9) else pm_entry None b)"
    using pagemap_refines_map [of None 4193280 3072 7 9] by (auto simp: p(1))
  then show ?thesis
    by (auto simp: p pm_entry_def pm_levels)
qed

end
