(* ===== verification/Heapchunk.thy ===== *)
theory Heapchunk
  imports Pagemap "HOL-Library.Multiset"
begin

text \<open>
  The chunks of an actor's heap, first part of \<^verbatim>\<open>src/libponyrt/mem/heap.c\<close>: the header of a chunk with the flags it
  keeps in the low bits of its pointer, the bit sets of a small chunk, and the sort of
  \<^verbatim>\<open>heap_chunk_sorting.h\<close>.
\<close>

section \<open>Constants\<close>

definition HEAP_MINBITS :: nat where "HEAP_MINBITS = 5"

definition HEAP_MAXBITS :: nat where "HEAP_MAXBITS = POOL_ALIGN_BITS - 1"

definition HEAP_SIZECLASSES :: nat where "HEAP_SIZECLASSES = HEAP_MAXBITS - HEAP_MINBITS + 1"

definition HEAP_MIN :: uint64_t where "HEAP_MIN = push_bit HEAP_MINBITS 1"

definition HEAP_MAX :: uint64_t where "HEAP_MAX = push_bit HEAP_MAXBITS 1"

definition HEAP_RECYCLE_SIZECLASSES :: nat where "HEAP_RECYCLE_SIZECLASSES = 4"

definition HEAP_RECYCLE_MIXED :: nat where "HEAP_RECYCLE_MIXED = 0"

definition HEAP_RECYCLE_MIXED_SIZE :: uint64_t where "HEAP_RECYCLE_MIXED_SIZE = 1024"

definition HEAP_RECYCLE_LARGE_OVERFLOW :: nat where
  "HEAP_RECYCLE_LARGE_OVERFLOW = HEAP_RECYCLE_SIZECLASSES - 1"

definition CHUNK_TYPE_BITMASK :: uint64_t where "CHUNK_TYPE_BITMASK = 0x1"

definition CHUNK_NEEDS_TO_BE_CLEARED_BITMASK :: uint64_t where "CHUNK_NEEDS_TO_BE_CLEARED_BITMASK = 0x2"

definition SMALL_CHUNK_SIZECLASS_BITMASK :: uint64_t where "SMALL_CHUNK_SIZECLASS_BITMASK = 0x1C"

definition SMALL_CHUNK_SIZECLASS_SHIFT :: nat where "SMALL_CHUNK_SIZECLASS_SHIFT = 2"

definition LARGE_CHUNK_SLOT_BITMASK :: uint64_t where "LARGE_CHUNK_SLOT_BITMASK = push_bit 2 1"

definition LARGE_CHUNK_SHALLOW_BITMASK :: uint64_t where "LARGE_CHUNK_SHALLOW_BITMASK = push_bit 3 1"

definition LARGE_CHUNK_FINALISER_BITMASK :: uint64_t where "LARGE_CHUNK_FINALISER_BITMASK = push_bit 4 1"

definition CHUNK_M_BITMASK :: uint64_t where
  "CHUNK_M_BITMASK = NOT (CHUNK_TYPE_BITMASK OR CHUNK_NEEDS_TO_BE_CLEARED_BITMASK OR SMALL_CHUNK_SIZECLASS_BITMASK
     OR LARGE_CHUNK_SLOT_BITMASK OR LARGE_CHUNK_SHALLOW_BITMASK OR LARGE_CHUNK_FINALISER_BITMASK)"

definition FORCE_NO_FINALISERS :: uint32_t where "FORCE_NO_FINALISERS = 0"

definition FORCE_ALL_FINALISERS :: uint32_t where "FORCE_ALL_FINALISERS = 0xFFFFFFFF"

definition TRACK_NO_FINALISERS :: uint32_t where "TRACK_NO_FINALISERS = 0"

definition TRACK_ALL_FINALISERS :: uint32_t where "TRACK_ALL_FINALISERS = 0xFFFFFFFF"

definition SIZECLASS_SIZE :: "nat \<Rightarrow> uint64_t" where "SIZECLASS_SIZE sizeclass = push_bit sizeclass HEAP_MIN"

definition SIZECLASS_MASK :: "nat \<Rightarrow> uint64_t" where "SIZECLASS_MASK sizeclass = NOT (SIZECLASS_SIZE sizeclass - 1)"

definition EXTERNAL_PTR :: "uint64_t \<Rightarrow> nat \<Rightarrow> uint64_t" where
  "EXTERNAL_PTR p sizeclass = p AND SIZECLASS_MASK sizeclass"

definition FIND_SLOT :: "uint64_t \<Rightarrow> uint64_t \<Rightarrow> uint32_t" where
  "FIND_SLOT ext base = push_bit (unat (drop_bit HEAP_MINBITS (ext - base))) 1"

definition sizeclass_empty :: "uint32_t list" where
  "sizeclass_empty = [0xFFFFFFFF, 0x55555555, 0x11111111, 0x01010101, 0x00010001]"

definition sizeclass_init :: "uint32_t list" where
  "sizeclass_init = [0xFFFFFFFE, 0x55555554, 0x11111110, 0x01010100, 0x00010000]"

definition sizeclass_table :: "nat list" where
  "sizeclass_table = [0, 1, 2, 2, 3, 3, 3, 3, 4, 4, 4, 4, 4, 4, 4, 4]"

definition heap_recycle_index :: "uint64_t \<Rightarrow> nat" where
  "heap_recycle_index sz =
     (if sz = HEAP_RECYCLE_MIXED_SIZE then HEAP_RECYCLE_MIXED
      else if sz = push_bit 1 HEAP_RECYCLE_MIXED_SIZE then 1
      else if sz = push_bit 2 HEAP_RECYCLE_MIXED_SIZE then 2
      else if sz = push_bit 3 HEAP_RECYCLE_MIXED_SIZE then 3
      else if sz = push_bit 4 HEAP_RECYCLE_MIXED_SIZE then 4
      else 5)"

definition ponyint_heap_index :: "uint64_t \<Rightarrow> nat res" where
  "ponyint_heap_index sz = arr_get sizeclass_table (unat (drop_bit HEAP_MINBITS (sz - 1)))"

section \<open>The header of a chunk\<close>

text \<open>
  \<open>ck_m\<close> is the tagged pointer.  The union of the two kinds of chunk is the three bit sets and the size side
  by side; which of them count is decided by the tag.  Chunks are linked through their \<open>next\<close> fields into the
  lists of the heap; the lists are HOL lists of the addresses of headers.
\<close>

record chunk_t =
  ck_m :: uint64_t
  ck_slots :: uint32_t
  ck_shallow :: uint32_t
  ck_finalisers :: uint32_t
  ck_size :: uint64_t

definition get_chunk_is_small_chunk :: "chunk_t \<Rightarrow> bool" where
  "get_chunk_is_small_chunk c \<longleftrightarrow> ck_m c AND CHUNK_TYPE_BITMASK = CHUNK_TYPE_BITMASK"

definition set_chunk_is_small_chunk :: "chunk_t \<Rightarrow> chunk_t" where
  "set_chunk_is_small_chunk c = c\<lparr>ck_m := ck_m c OR CHUNK_TYPE_BITMASK\<rparr>"

definition get_large_chunk_slot :: "chunk_t \<Rightarrow> uint32_t res" where
  "get_large_chunk_slot c = pony_assert (\<not> get_chunk_is_small_chunk c)
     (Inr (if ck_m c AND LARGE_CHUNK_SLOT_BITMASK = LARGE_CHUNK_SLOT_BITMASK then 1 else 0))"

text \<open>The argument is normalised and shifted in 32 bits before it is stored.\<close>

definition set_large_chunk_slot :: "chunk_t \<Rightarrow> uint32_t \<Rightarrow> chunk_t res" where
  "set_large_chunk_slot c slot = pony_assert (\<not> get_chunk_is_small_chunk c)
     (let slot = (if slot \<noteq> 0 then 1 else 0); slot = push_bit 2 slot :: uint32_t; s = ucast slot
      in pony_assert (s = LARGE_CHUNK_SLOT_BITMASK \<or> s = 0)
           (Inr (c\<lparr>ck_m := ck_m c AND NOT LARGE_CHUNK_SLOT_BITMASK OR s\<rparr>)))"

definition get_large_chunk_shallow :: "chunk_t \<Rightarrow> uint32_t res" where
  "get_large_chunk_shallow c = pony_assert (\<not> get_chunk_is_small_chunk c)
     (Inr (if ck_m c AND LARGE_CHUNK_SHALLOW_BITMASK = LARGE_CHUNK_SHALLOW_BITMASK then 1 else 0))"

definition set_large_chunk_shallow :: "chunk_t \<Rightarrow> uint32_t \<Rightarrow> chunk_t res" where
  "set_large_chunk_shallow c shallow = pony_assert (\<not> get_chunk_is_small_chunk c)
     (let shallow = (if shallow \<noteq> 0 then 1 else 0); shallow = push_bit 3 shallow :: uint32_t; s = ucast shallow
      in pony_assert (s = LARGE_CHUNK_SHALLOW_BITMASK \<or> s = 0)
           (Inr (c\<lparr>ck_m := ck_m c AND NOT LARGE_CHUNK_SHALLOW_BITMASK OR s\<rparr>)))"

definition get_large_chunk_finaliser :: "chunk_t \<Rightarrow> uint32_t res" where
  "get_large_chunk_finaliser c = pony_assert (\<not> get_chunk_is_small_chunk c)
     (Inr (if ck_m c AND LARGE_CHUNK_FINALISER_BITMASK = LARGE_CHUNK_FINALISER_BITMASK then 1 else 0))"

definition set_large_chunk_finaliser :: "chunk_t \<Rightarrow> uint32_t \<Rightarrow> chunk_t res" where
  "set_large_chunk_finaliser c finaliser = pony_assert (\<not> get_chunk_is_small_chunk c)
     (let finaliser = (if finaliser \<noteq> 0 then 1 else 0); finaliser = push_bit 4 finaliser :: uint32_t; s = ucast finaliser
      in pony_assert (s = LARGE_CHUNK_FINALISER_BITMASK \<or> s = 0)
           (Inr (c\<lparr>ck_m := ck_m c AND NOT LARGE_CHUNK_FINALISER_BITMASK OR s\<rparr>)))"

definition get_small_chunk_size :: "chunk_t \<Rightarrow> nat res" where
  "get_small_chunk_size c = pony_assert (get_chunk_is_small_chunk c)
     (Inr (unat (drop_bit SMALL_CHUNK_SIZECLASS_SHIFT (ck_m c AND SMALL_CHUNK_SIZECLASS_BITMASK))))"

definition set_small_chunk_size :: "chunk_t \<Rightarrow> nat \<Rightarrow> chunk_t res" where
  "set_small_chunk_size c sz = pony_assert (get_chunk_is_small_chunk c) (pony_assert (sz < HEAP_SIZECLASSES)
     (let s = push_bit SMALL_CHUNK_SIZECLASS_SHIFT (of_nat sz)
      in Inr (c\<lparr>ck_m := ck_m c AND NOT SMALL_CHUNK_SIZECLASS_BITMASK OR s AND SMALL_CHUNK_SIZECLASS_BITMASK\<rparr>)))"

definition get_chunk_needs_clearing :: "chunk_t \<Rightarrow> bool" where
  "get_chunk_needs_clearing c \<longleftrightarrow> ck_m c AND CHUNK_NEEDS_TO_BE_CLEARED_BITMASK = CHUNK_NEEDS_TO_BE_CLEARED_BITMASK"

definition set_chunk_needs_clearing :: "chunk_t \<Rightarrow> chunk_t" where
  "set_chunk_needs_clearing c = c\<lparr>ck_m := ck_m c OR CHUNK_NEEDS_TO_BE_CLEARED_BITMASK\<rparr>"

definition unset_chunk_needs_clearing :: "chunk_t \<Rightarrow> chunk_t" where
  "unset_chunk_needs_clearing c = c\<lparr>ck_m := ck_m c AND NOT CHUNK_NEEDS_TO_BE_CLEARED_BITMASK\<rparr>"

definition get_m :: "chunk_t \<Rightarrow> uint64_t" where
  "get_m c = ck_m c AND CHUNK_M_BITMASK"

definition clear_chunk_flags :: "chunk_t \<Rightarrow> chunk_t" where
  "clear_chunk_flags c = c\<lparr>ck_m := ck_m c AND CHUNK_M_BITMASK\<rparr>"

definition maybe_clear_chunk :: "chunk_t \<Rightarrow> chunk_t res" where
  "maybe_clear_chunk c =
     (if get_chunk_needs_clearing c
      then res_bind
        (if get_chunk_is_small_chunk c
         then res_bind (get_small_chunk_size c) (\<lambda>sz.
           res_bind (arr_get sizeclass_empty sz) (\<lambda>empty. Inr (c\<lparr>ck_slots := empty, ck_shallow := empty\<rparr>)))
         else res_bind (set_large_chunk_slot c 1) (\<lambda>c. set_large_chunk_shallow c 1))
        (\<lambda>c. Inr (unset_chunk_needs_clearing c))
      else Inr c)"

definition ponyint_heap_size :: "chunk_t \<Rightarrow> uint64_t res" where
  "ponyint_heap_size c =
     (if get_chunk_is_small_chunk c then res_bind (get_small_chunk_size c) (\<lambda>sz. Inr (SIZECLASS_SIZE sz)) else Inr (ck_size c))"

section \<open>Marking\<close>

definition ponyint_heap_mark :: "chunk_t \<Rightarrow> uint64_t \<Rightarrow> (bool \<times> chunk_t) res" where
  "ponyint_heap_mark c p =
     res_bind (maybe_clear_chunk c) (\<lambda>c.
       if get_chunk_is_small_chunk c
       then res_bind (get_small_chunk_size c) (\<lambda>sz.
         let ext = EXTERNAL_PTR p sz; slot = FIND_SLOT ext (get_m c); marked = (ck_slots c AND slot = 0)
         in Inr (marked,
              if p = ext then c\<lparr>ck_slots := ck_slots c AND NOT slot\<rparr> else c\<lparr>ck_shallow := ck_shallow c AND NOT slot\<rparr>))
       else res_bind (get_large_chunk_slot c) (\<lambda>slot.
         let marked = (slot = 0)
         in res_bind (if p = get_m c then set_large_chunk_slot c 0 else set_large_chunk_shallow c 0)
              (\<lambda>c. Inr (marked, c))))"

definition ponyint_heap_mark_shallow :: "chunk_t \<Rightarrow> uint64_t \<Rightarrow> chunk_t res" where
  "ponyint_heap_mark_shallow c p =
     res_bind (maybe_clear_chunk c) (\<lambda>c.
       if get_chunk_is_small_chunk c
       then res_bind (get_small_chunk_size c) (\<lambda>sz.
         let ext = EXTERNAL_PTR p sz; slot = FIND_SLOT ext (get_m c)
         in Inr (c\<lparr>ck_shallow := ck_shallow c AND NOT slot\<rparr>))
       else set_large_chunk_shallow c 0)"

section \<open>Sorting\<close>

text \<open>
  The bottom-up merge sort of \<^verbatim>\<open>heap_chunk_sorting.h\<close>; \<open>ps\<close> are the \<open>psize\<close> chunks from \<open>p\<close> on that are still to be
  merged, \<open>q\<close> the rest of the list behind them.  Headers are looked up in \<open>cs\<close>.  The counters of the source are
  \<^verbatim>\<open>int32_t\<close>; they stay below twice the length of the list and so in range for lists of up to \<open>2 ^ 30\<close> chunks.
\<close>

definition load_chunk :: "(uint64_t \<rightharpoonup> chunk_t) \<Rightarrow> uint64_t \<Rightarrow> chunk_t res" where
  "load_chunk cs c = (case cs c of None \<Rightarrow> Inl Bad_access | Some h \<Rightarrow> Inr h)"

fun sort_merge ::
  "(uint64_t \<rightharpoonup> chunk_t) \<Rightarrow> uint64_t list \<Rightarrow> nat \<Rightarrow> uint64_t list \<Rightarrow> (uint64_t list \<times> uint64_t list) res" where
  "sort_merge cs [] 0 qs = Inr ([], qs)"
| "sort_merge cs [] (Suc qsize) [] = Inr ([], [])"
| "sort_merge cs [] (Suc qsize) (q # qs) =
     res_bind (load_chunk cs q) (\<lambda>cq.
       pony_assert (\<not> get_chunk_is_small_chunk cq)
         (res_bind (sort_merge cs [] qsize qs) (\<lambda>(es, r). Inr (q # es, r))))"
| "sort_merge cs (p # ps) 0 qs =
     res_bind (load_chunk cs p) (\<lambda>cp.
       pony_assert (\<not> get_chunk_is_small_chunk cp)
         (res_bind (sort_merge cs ps 0 qs) (\<lambda>(es, r). Inr (p # es, r))))"
| "sort_merge cs (p # ps) (Suc qsize) [] =
     res_bind (load_chunk cs p) (\<lambda>cp.
       pony_assert (\<not> get_chunk_is_small_chunk cp)
         (res_bind (sort_merge cs ps (Suc qsize) []) (\<lambda>(es, r). Inr (p # es, r))))"
| "sort_merge cs (p # ps) (Suc qsize) (q # qs) =
     res_bind (load_chunk cs p) (\<lambda>cp. res_bind (load_chunk cs q) (\<lambda>cq.
       if ck_size cp \<le> ck_size cq
       then pony_assert (\<not> get_chunk_is_small_chunk cp) (pony_assert (\<not> get_chunk_is_small_chunk cq)
         (res_bind (sort_merge cs ps (Suc qsize) (q # qs)) (\<lambda>(es, r). Inr (p # es, r))))
       else pony_assert (\<not> get_chunk_is_small_chunk cq)
         (res_bind (sort_merge cs (p # ps) qsize qs) (\<lambda>(es, r). Inr (q # es, r)))))"

lemma sort_merge_length:
  "sort_merge cs ps qsize qs = Inr (es, r) \<Longrightarrow> length es + length r = length ps + length qs \<and> length r \<le> length qs"
  by (induction cs ps qsize qs arbitrary: es r rule: sort_merge.induct)
    (auto simp: res_bind_def pony_assert_def split: sum.splits if_splits, blast intro: le_SucI)

text \<open>One pass; a run length of 0, which the sort never has, would not end.\<close>

function sort_pass :: "(uint64_t \<rightharpoonup> chunk_t) \<Rightarrow> nat \<Rightarrow> uint64_t list \<Rightarrow> (uint64_t list \<times> nat) res" where
  "sort_pass cs insize p =
     (if p = [] then Inr ([], 0)
      else if insize = 0 then Inl Out_of_fuel
      else case sort_merge cs (take insize p) insize (drop insize p) of
             Inl e \<Rightarrow> Inl e
           | Inr (es, q) \<Rightarrow> res_bind (sort_pass cs insize q) (\<lambda>(list, nmerges). Inr (es @ list, Suc nmerges)))"
  by auto
termination
proof (relation "measure (\<lambda>(cs, insize, p). length p)", goal_cases)
  case (2 cs insize p r es q)
  then have "length q \<le> length p - insize" "0 < length p" "0 < insize"
    using sort_merge_length [of cs "take insize p" insize "drop insize p" es q] by auto
  then have "length q < length p"
    by linarith
  then show ?case by simp
qed simp

declare sort_pass.simps [simp del]

lemma sort_pass_length:
  "sort_pass cs insize p = Inr (list, nmerges) \<Longrightarrow> length list = length p \<and> (p \<noteq> [] \<longrightarrow> 0 < nmerges)
   \<and> (nmerges > 1 \<longrightarrow> insize < length p)"
proof (induction cs insize p arbitrary: list nmerges rule: sort_pass.induct)
  case (1 cs insize p)
  show ?case
  proof (cases "p = [] \<or> insize = 0")
    case True
    then show ?thesis
      using 1(2) by (auto simp: sort_pass.simps split: if_splits)
  next
    case False
    then obtain es q l n where m: "sort_merge cs (take insize p) insize (drop insize p) = Inr (es, q)"
      and r: "sort_pass cs insize q = Inr (l, n)" and res: "list = es @ l" "nmerges = Suc n"
      using 1(2) by (auto simp: sort_pass.simps [of cs insize p] res_bind_def split: sum.splits)
    have "length es + length q = length p" "length q \<le> length p - insize"
      using sort_merge_length [OF m] by auto
    moreover have "q = [] \<Longrightarrow> n = 0"
      using r by (simp add: sort_pass.simps)
    moreover have "insize < length p" if "q \<noteq> []"
      using that calculation(2) by (cases q) auto
    ultimately show ?thesis
      using 1(1) [OF _ _ m refl r] False res by (cases "q = []") auto
  qed
qed

function sort_loop :: "(uint64_t \<rightharpoonup> chunk_t) \<Rightarrow> nat \<Rightarrow> uint64_t list \<Rightarrow> uint64_t list res" where
  "sort_loop cs insize list =
     (case sort_pass cs insize list of
        Inl e \<Rightarrow> Inl e
      | Inr (list, nmerges) \<Rightarrow> if nmerges \<le> 1 then Inr list else sort_loop cs (insize * 2) list)"
  by auto
termination
proof (relation "measure (\<lambda>(cs, insize, list). length list - insize)", goal_cases)
  case (2 cs insize list a list' n)
  then have "length list' = length list" "insize < length list"
    using sort_pass_length [of cs insize list list' n] by auto
  moreover have "insize \<noteq> 0"
    using 2 by (cases insize) (auto simp: sort_pass.simps [of cs 0] split: if_splits)
  ultimately show ?case by simp
qed simp

declare sort_loop.simps [simp del]

definition sort_large_chunk_list_by_size :: "(uint64_t \<rightharpoonup> chunk_t) \<Rightarrow> uint64_t list \<Rightarrow> uint64_t list res" where
  "sort_large_chunk_list_by_size cs list = (if list = [] then Inr [] else sort_loop cs 1 list)"


subsection \<open>The sort is the stable sort by size\<close>

definition chunk_size :: "(uint64_t \<rightharpoonup> chunk_t) \<Rightarrow> uint64_t \<Rightarrow> uint64_t" where
  "chunk_size cs c = (case cs c of None \<Rightarrow> 0 | Some h \<Rightarrow> ck_size h)"

definition all_large :: "(uint64_t \<rightharpoonup> chunk_t) \<Rightarrow> uint64_t list \<Rightarrow> bool" where
  "all_large cs xs \<longleftrightarrow> (\<forall>c \<in> set xs. \<exists>h. cs c = Some h \<and> \<not> get_chunk_is_small_chunk h)"

lemma all_large_simps [simp]:
  "all_large cs []"
  "all_large cs (x # xs) \<longleftrightarrow> (\<exists>h. cs x = Some h \<and> \<not> get_chunk_is_small_chunk h) \<and> all_large cs xs"
  "all_large cs (xs @ ys) \<longleftrightarrow> all_large cs xs \<and> all_large cs ys"
  by (auto simp: all_large_def)

text \<open>The runs are merged as if they were lists of their own.\<close>

fun merge_by :: "('a \<Rightarrow> 'b :: linorder) \<Rightarrow> 'a list \<Rightarrow> 'a list \<Rightarrow> 'a list" where
  "merge_by f [] ys = ys"
| "merge_by f xs [] = xs"
| "merge_by f (x # xs) (y # ys) = (if f x \<le> f y then x # merge_by f xs (y # ys) else y # merge_by f (x # xs) ys)"

lemma merge_by_Nil2 [simp]: "merge_by f xs [] = xs"
  by (cases xs) simp_all

lemma mset_merge_by [simp]: "mset (merge_by f xs ys) = mset xs + mset ys"
  by (induction f xs ys rule: merge_by.induct) auto

lemma set_merge_by [simp]: "set (merge_by f xs ys) = set xs \<union> set ys"
  by (induction f xs ys rule: merge_by.induct) auto

lemma sorted_merge_by:
  "sorted (map f xs) \<Longrightarrow> sorted (map f ys) \<Longrightarrow> sorted (map f (merge_by f xs ys))"
  by (induction f xs ys rule: merge_by.induct) auto

lemma filter_merge_by:
  "sorted (map f xs) \<Longrightarrow> sorted (map f ys) \<Longrightarrow>
   filter (\<lambda>z. f z = k) (merge_by f xs ys) = filter (\<lambda>z. f z = k) xs @ filter (\<lambda>z. f z = k) ys"
proof (induction f xs ys rule: merge_by.induct)
  case (3 f x xs y ys)
  show ?case
  proof (cases "f x \<le> f y")
    case True
    then show ?thesis using 3 by simp
  next
    case False
    have "filter (\<lambda>z. f z = f y) (x # xs) = []" if "f y = k"
      using 3(3) False by (auto simp: filter_empty_conv)
    then show ?thesis
      using 3 False by auto
  qed
qed simp_all

lemma sort_merge_spec:
  "all_large cs ps \<Longrightarrow> all_large cs (take qsize qs) \<Longrightarrow>
   sort_merge cs ps qsize qs = Inr (merge_by (chunk_size cs) ps (take qsize qs), drop qsize qs)"
  by (induction cs ps qsize qs rule: sort_merge.induct) (auto simp: load_chunk_def chunk_size_def)

text \<open>A list that is sorted in each of its runs of \<open>n\<close>.\<close>

function runs_sorted :: "('a \<Rightarrow> 'b :: linorder) \<Rightarrow> nat \<Rightarrow> 'a list \<Rightarrow> bool" where
  "runs_sorted f n xs \<longleftrightarrow> (if xs = [] \<or> n = 0 then True else sorted (map f (take n xs)) \<and> runs_sorted f n (drop n xs))"
  by auto
termination
  by (relation "measure (\<lambda>(f, n, xs). length xs)") (auto simp flip: length_greater_0_conv)

declare runs_sorted.simps [simp del]

lemma runs_sorted_append:
  "length xs = n \<Longrightarrow> sorted (map f xs) \<Longrightarrow> runs_sorted f n ys \<Longrightarrow> runs_sorted f n (xs @ ys)"
  by (subst runs_sorted.simps) auto

lemma runs_sorted_1: "runs_sorted f 1 xs"
proof (induction xs)
  case (Cons x xs)
  then show ?case by (subst runs_sorted.simps) simp
qed (simp add: runs_sorted.simps)

lemma runs_sorted_all: "length xs \<le> n \<Longrightarrow> 0 < n \<Longrightarrow> runs_sorted f n xs \<longleftrightarrow> sorted (map f xs)"
  by (subst runs_sorted.simps) (auto simp: runs_sorted.simps [of f n "[]"])

lemma runs_sorted_drop: "runs_sorted f n xs \<Longrightarrow> 0 < n \<Longrightarrow> runs_sorted f n (drop n xs) \<and> sorted (map f (take n xs))"
  by (subst (asm) runs_sorted.simps) (auto simp: runs_sorted.simps [of f n "[]"] split: if_splits)


lemma sort_pass_spec:
  "all_large cs p \<Longrightarrow> 0 < insize \<Longrightarrow> runs_sorted (chunk_size cs) insize p \<Longrightarrow>
   \<exists>list nmerges. sort_pass cs insize p = Inr (list, nmerges) \<and> mset list = mset p
     \<and> (\<forall>k. filter (\<lambda>z. chunk_size cs z = k) list = filter (\<lambda>z. chunk_size cs z = k) p)
     \<and> runs_sorted (chunk_size cs) (insize * 2) list \<and> (nmerges \<le> 1 \<longrightarrow> length p \<le> insize * 2)"
proof (induction cs insize p rule: sort_pass.induct)
  case (1 cs insize p)
  let ?f = "chunk_size cs"
  show ?case
  proof (cases "p = []")
    case True
    then show ?thesis by (simp add: sort_pass.simps runs_sorted.simps)
  next
    case False
    define a b r where "a = take insize p" and "b = take insize (drop insize p)" and "r = drop insize (drop insize p)"
    have p: "p = a @ b @ r"
      by (metis a_def append_take_drop_id b_def r_def)
    have al: "all_large cs a" "all_large cs b"
      using 1(2) unfolding p by simp_all
    have m: "sort_merge cs a insize (drop insize p) = Inr (merge_by ?f a b, r)"
      using sort_merge_spec [of cs a insize "drop insize p"] al unfolding b_def r_def by simp
    have so: "sorted (map ?f a)" "sorted (map ?f b)" "runs_sorted ?f insize r"
      using runs_sorted_drop [OF 1(4,3)] runs_sorted_drop [OF _ 1(3), of ?f "drop insize p"]
      by (auto simp: a_def b_def r_def)
    have "all_large cs r"
      using 1(2) by (simp add: p)
    then obtain list n where rec: "sort_pass cs insize r = Inr (list, n)" "mset list = mset r"
      "\<forall>k. filter (\<lambda>z. ?f z = k) list = filter (\<lambda>z. ?f z = k) r"
      "runs_sorted ?f (insize * 2) list" "n \<le> 1 \<longrightarrow> length r \<le> insize * 2"
      using 1(1) [OF False _ m [unfolded a_def] refl _ 1(3) so(3)] 1(3) by auto
    have pass: "sort_pass cs insize p = Inr (merge_by ?f a b @ list, Suc n)"
      using False 1(3) m rec(1) by (subst sort_pass.simps) (simp add: a_def)
    have empty: "n = 0 \<Longrightarrow> r = []"
      using sort_pass_length [OF rec(1)] by auto
    have runs: "runs_sorted ?f (insize * 2) (merge_by ?f a b @ list)"
    proof (cases "r = []")
      case True
      have "length (merge_by ?f a b) \<le> insize * 2"
        by (metis add_le_mono length_take min.cobounded2 mult_2_right mset_merge_by size_mset size_union a_def b_def)
      then show ?thesis
        using True rec(2) so(1,2) 1(3) by (simp add: runs_sorted_all sorted_merge_by)
    next
      case False
      then have "length a = insize" "length b = insize"
        by (auto simp: a_def b_def r_def)
      then have "length (merge_by ?f a b) = insize * 2"
        by (metis mult_2_right mset_merge_by size_mset size_union)
      then show ?thesis
        using rec(4) so(1,2) by (simp add: runs_sorted_append sorted_merge_by)
    qed
    have fil: "filter (\<lambda>z. ?f z = k) (merge_by ?f a b @ list) = filter (\<lambda>z. ?f z = k) p" for k
      using rec(3) filter_merge_by [OF so(1,2)] by (simp add: p)
    have "length p \<le> insize * 2" if "n = 0"
      using empty [OF that] by (simp add: r_def)
    moreover have "mset (merge_by ?f a b @ list) = mset p"
      using rec(2) unfolding p by simp
    ultimately show ?thesis
      using pass runs fil by (intro exI [of _ "merge_by ?f a b @ list"] exI [of _ "Suc n"]) simp
  qed
qed

lemma sort_loop_spec:
  "all_large cs p \<Longrightarrow> 0 < insize \<Longrightarrow> runs_sorted (chunk_size cs) insize p \<Longrightarrow>
   sort_loop cs insize p = Inr (sort_key (chunk_size cs) p)"
proof (induction cs insize p rule: sort_loop.induct)
  case (1 cs insize p)
  let ?f = "chunk_size cs"
  obtain list n where pass: "sort_pass cs insize p = Inr (list, n)" and ms: "mset list = mset p"
    and fil: "\<And>k. filter (\<lambda>z. ?f z = k) list = filter (\<lambda>z. ?f z = k) p"
    and runs: "runs_sorted ?f (insize * 2) list" and fin: "n \<le> 1 \<longrightarrow> length p \<le> insize * 2"
    using sort_pass_spec [OF 1(2-4)] by blast
  have len: "length list = length p" and st: "set list = set p"
    using ms by (metis size_mset, metis set_mset_mset)
  have key: "sort_key ?f p = sort_key ?f list"
  proof (rule properties_for_sort_key)
    show "filter (\<lambda>x. ?f k = ?f x) (sort_key ?f list) = filter (\<lambda>x. ?f k = ?f x) p" for k
      using sort_key_stable [of ?f "?f k" list] fil [of "?f k"] by (simp add: eq_commute)
  qed (use ms in simp_all)
  show ?case
  proof (cases "n \<le> 1")
    case True
    then have "sorted (map ?f list)"
      using runs fin len 1(3) by (simp add: runs_sorted_all)
    then have "sort_key ?f list = list"
      by (intro properties_for_sort_key) simp_all
    with True show ?thesis
      using pass key by (subst sort_loop.simps) simp
  next
    case False
    have "all_large cs list"
      using 1(2) st by (simp add: all_large_def)
    then have "sort_loop cs (insize * 2) list = Inr (sort_key ?f list)"
      using 1(1) [OF pass refl False] 1(3) runs by simp
    with False show ?thesis
      using pass key by (subst sort_loop.simps) simp
  qed
qed

lemma sort_large_spec:
  "all_large cs list \<Longrightarrow> sort_large_chunk_list_by_size cs list = Inr (sort_key (chunk_size cs) list)"
  using sort_loop_spec [of cs list 1] runs_sorted_1 [of "chunk_size cs" list]
  by (simp add: sort_large_chunk_list_by_size_def)

text \<open>
  C25: The bottom-up merge sort of the overflow list of large chunks ends, fails no assertion, and returns the stable sort of the list
  by the sizes of its chunks: the same chunks, in the order of their sizes, those of equal size in their old order.  The lengths of runs and the
  number of merges, which the code keeps in 32 bits, are natural numbers here, as for a list of at most \<open>2 ^ 30\<close> chunks.
\<close>

theorem sort_large_chunk_list_stable:
  assumes "\<forall>c \<in> set list. \<exists>h. cs c = Some h \<and> \<not> get_chunk_is_small_chunk h"
  shows "\<exists>ys. sort_large_chunk_list_by_size cs list = Inr ys \<and> mset ys = mset list \<and> sorted (map (chunk_size cs) ys) \<and>
    (\<forall>n. filter (\<lambda>c. chunk_size cs c = n) ys = filter (\<lambda>c. chunk_size cs c = n) list)"
  using sort_large_spec [of cs list] assms sort_key_stable [of "chunk_size cs" _ list] by (simp add: all_large_def)

theorem sort_large_chunk_list_stable_witness:
  "\<exists>ys. sort_large_chunk_list_by_size
     (\<lambda>c. Some \<lparr>ck_m = 0, ck_slots = 0, ck_shallow = 0, ck_finalisers = 0, ck_size = c AND 0xF0\<rparr>) [0x42, 0x21, 0x41] = Inr ys \<and>
     mset ys = {# 0x42, 0x21, 0x41 #} \<and> sorted (map (\<lambda>c. c AND 0xF0) ys) \<and> filter (\<lambda>c. c AND 0xF0 = 0x40) ys = [0x42, 0x41]"
proof -
  let ?cs = "\<lambda>c. Some \<lparr>ck_m = 0, ck_slots = 0, ck_shallow = 0, ck_finalisers = 0, ck_size = c AND 0xF0\<rparr>"
  obtain ys where "sort_large_chunk_list_by_size ?cs [0x42, 0x21, 0x41] = Inr ys" "mset ys = mset [0x42, 0x21, 0x41]"
    "sorted (map (\<lambda>c. c AND 0xF0) ys)" "\<forall>n. filter (\<lambda>c. c AND 0xF0 = n) ys = filter (\<lambda>c. c AND 0xF0 = n) [0x42, 0x21, 0x41]"
    using sort_large_chunk_list_stable [of "[0x42, 0x21, 0x41]" ?cs]
    by (auto simp: get_chunk_is_small_chunk_def CHUNK_TYPE_BITMASK_def chunk_size_def [abs_def])
  thus ?thesis by (intro exI [of _ ys]) simp
qed

section \<open>Flags as bits\<close>

lemma and_exp_iff_bit: "n < 64 \<Longrightarrow> (w :: uint64_t) AND push_bit n 1 = push_bit n 1 \<longleftrightarrow> bit w n"
proof
  assume "n < 64" and e: "w AND push_bit n 1 = push_bit n 1"
  then have "bit (w AND push_bit n 1) n"
    by (simp add: bit_simps)
  then show "bit w n"
    by (simp add: bit_and_iff)
next
  assume "bit w n"
  then show "w AND push_bit n 1 = push_bit n 1"
    by (intro bit_word_eqI) (auto simp: bit_simps)
qed

lemma is_small_bit: "get_chunk_is_small_chunk c \<longleftrightarrow> bit (ck_m c) 0"
  using and_exp_iff_bit [of 0 "ck_m c"] by (simp add: get_chunk_is_small_chunk_def CHUNK_TYPE_BITMASK_def)

lemma needs_clearing_bit: "get_chunk_needs_clearing c \<longleftrightarrow> bit (ck_m c) 1"
  using and_exp_iff_bit [of 1 "ck_m c"]
  by (simp add: get_chunk_needs_clearing_def CHUNK_NEEDS_TO_BE_CLEARED_BITMASK_def)

lemma large_get_bits:
  assumes "\<not> bit (ck_m c) 0"
  shows "get_large_chunk_slot c = Inr (of_bool (bit (ck_m c) 2))"
    "get_large_chunk_shallow c = Inr (of_bool (bit (ck_m c) 3))"
    "get_large_chunk_finaliser c = Inr (of_bool (bit (ck_m c) 4))"
  using assms and_exp_iff_bit [of 2 "ck_m c"] and_exp_iff_bit [of 3 "ck_m c"] and_exp_iff_bit [of 4 "ck_m c"]
  by (simp_all add: get_large_chunk_slot_def get_large_chunk_shallow_def get_large_chunk_finaliser_def is_small_bit
      LARGE_CHUNK_SLOT_BITMASK_def LARGE_CHUNK_SHALLOW_BITMASK_def LARGE_CHUNK_FINALISER_BITMASK_def)

definition put_bit :: "nat \<Rightarrow> bool \<Rightarrow> uint64_t \<Rightarrow> uint64_t" where
  "put_bit n v w = (if v then set_bit n w else unset_bit n w)"

lemma bit_put_bit: "n < 64 \<Longrightarrow> bit (put_bit n v w) i \<longleftrightarrow> (if i = n then v else bit w i)"
  by (auto simp: put_bit_def bit_set_bit_iff bit_unset_bit_iff)

lemma put_bit_or: "n < 64 \<Longrightarrow> w AND NOT (push_bit n 1) OR (if v then push_bit n 1 else 0) = put_bit n v w"
  by (intro bit_word_eqI) (auto simp: bit_put_bit bit_simps)

lemma large_set_bits:
  assumes "\<not> bit (ck_m c) 0"
  shows "set_large_chunk_slot c v = Inr (c\<lparr>ck_m := put_bit 2 (v \<noteq> 0) (ck_m c)\<rparr>)"
    "set_large_chunk_shallow c v = Inr (c\<lparr>ck_m := put_bit 3 (v \<noteq> 0) (ck_m c)\<rparr>)"
    "set_large_chunk_finaliser c v = Inr (c\<lparr>ck_m := put_bit 4 (v \<noteq> 0) (ck_m c)\<rparr>)"
  using assms put_bit_or [of 2 "ck_m c" "v \<noteq> 0"] put_bit_or [of 3 "ck_m c" "v \<noteq> 0"] put_bit_or [of 4 "ck_m c" "v \<noteq> 0"]
  by (auto simp: set_large_chunk_slot_def set_large_chunk_shallow_def set_large_chunk_finaliser_def is_small_bit Let_def
      LARGE_CHUNK_SLOT_BITMASK_def LARGE_CHUNK_SHALLOW_BITMASK_def LARGE_CHUNK_FINALISER_BITMASK_def)

lemma clearing_set_bits:
  "set_chunk_needs_clearing c = c\<lparr>ck_m := put_bit 1 True (ck_m c)\<rparr>"
  "unset_chunk_needs_clearing c = c\<lparr>ck_m := put_bit 1 False (ck_m c)\<rparr>"
  "set_chunk_is_small_chunk c = c\<lparr>ck_m := put_bit 0 True (ck_m c)\<rparr>"
proof -
  have "w OR 2 = put_bit 1 True w" "w AND NOT 2 = put_bit 1 False w" "w OR 1 = put_bit 0 True w" for w
    using put_bit_or [of 1 w False]
    by (auto simp: put_bit_def set_bit_eq_or)
  then show "set_chunk_needs_clearing c = c\<lparr>ck_m := put_bit 1 True (ck_m c)\<rparr>"
    "unset_chunk_needs_clearing c = c\<lparr>ck_m := put_bit 1 False (ck_m c)\<rparr>"
    "set_chunk_is_small_chunk c = c\<lparr>ck_m := put_bit 0 True (ck_m c)\<rparr>"
    by (simp_all add: set_chunk_needs_clearing_def unset_chunk_needs_clearing_def set_chunk_is_small_chunk_def
        CHUNK_NEEDS_TO_BE_CLEARED_BITMASK_def CHUNK_TYPE_BITMASK_def)
qed

lemma chunk_m_mask: "CHUNK_M_BITMASK = NOT (mask 5)"
  by (simp add: CHUNK_M_BITMASK_def CHUNK_TYPE_BITMASK_def CHUNK_NEEDS_TO_BE_CLEARED_BITMASK_def SMALL_CHUNK_SIZECLASS_BITMASK_def
      LARGE_CHUNK_SLOT_BITMASK_def LARGE_CHUNK_SHALLOW_BITMASK_def LARGE_CHUNK_FINALISER_BITMASK_def mask_eq_exp_minus_1)

lemma bit_get_m: "bit (get_m c) i \<longleftrightarrow> bit (ck_m c) i \<and> 5 \<le> i"
  by (cases "i < 64") (auto simp: get_m_def chunk_m_mask bit_simps dest: bit_imp_le_length)

lemma get_m_put_bit [simp]: "n < 5 \<Longrightarrow> get_m (c\<lparr>ck_m := put_bit n v w\<rparr>) = get_m (c\<lparr>ck_m := w\<rparr>)"
  by (intro bit_word_eqI) (auto simp: bit_get_m bit_put_bit)

lemma get_m_upd [simp]:
  "get_m (c\<lparr>ck_slots := x\<rparr>) = get_m c" "get_m (c\<lparr>ck_shallow := x\<rparr>) = get_m c" "get_m (c\<lparr>ck_finalisers := x\<rparr>) = get_m c"
  "get_m (c\<lparr>ck_size := y\<rparr>) = get_m c" "get_m (c\<lparr>ck_m := ck_m c\<rparr>) = get_m c"
  by (simp_all add: get_m_def)

text \<open>The size class of a small chunk, in bits 2 to 4.\<close>

definition class_of :: "uint64_t \<Rightarrow> nat" where
  "class_of w = unat w div 4 mod 8"

lemma drop_bit_and_field: "drop_bit j (w AND push_bit j (mask k)) = take_bit k (drop_bit j (w :: uint64_t))"
  by (intro bit_word_eqI) (auto simp: bit_simps dest: bit_imp_le_length)

lemma get_small_size_class: "bit (ck_m c) 0 \<Longrightarrow> get_small_chunk_size c = Inr (class_of (ck_m c))"
proof -
  assume "bit (ck_m c) 0"
  have "push_bit 2 (mask 3) = (0x1C :: uint64_t)"
    by (simp add: mask_eq_exp_minus_1)
  then have "drop_bit 2 (ck_m c AND 0x1C) = take_bit 3 (drop_bit 2 (ck_m c))"
    using drop_bit_and_field [of 2 "ck_m c" 3] by simp
  then have "unat (drop_bit 2 (ck_m c AND 0x1C)) = class_of (ck_m c)"
    by (simp add: class_of_def unsigned_take_bit_eq take_bit_eq_mod [of _ "_ :: nat"] unat_drop_bit_u64)
  then show ?thesis
    using \<open>bit (ck_m c) 0\<close>
    by (simp add: get_small_chunk_size_def is_small_bit SMALL_CHUNK_SIZECLASS_BITMASK_def SMALL_CHUNK_SIZECLASS_SHIFT_def)
qed

lemma class_of_bits: "(\<And>i. i \<in> {2, 3, 4} \<Longrightarrow> bit v i = bit w i) \<Longrightarrow> class_of v = class_of w"
proof -
  assume b: "\<And>i. i \<in> {2, 3, 4} \<Longrightarrow> bit v i = bit w i"
  have "take_bit 3 (drop_bit 2 (unat v)) = take_bit 3 (drop_bit 2 (unat w))"
  proof (rule bit_eqI)
    fix n :: nat
    have "n < 3 \<Longrightarrow> n + 2 \<in> {2, 3, 4}" by auto
    then show "bit (take_bit 3 (drop_bit 2 (unat v))) n = bit (take_bit 3 (drop_bit 2 (unat w))) n"
      using b [of "n + 2"] by (auto simp: bit_simps bit_unsigned_iff add.commute)
  qed
  then show ?thesis
    by (simp add: class_of_def take_bit_eq_mod drop_bit_eq_div)
qed

lemma class_of_put_bit [simp]: "n \<notin> {2, 3, 4} \<Longrightarrow> n < 64 \<Longrightarrow> class_of (put_bit n v w) = class_of w"
  by (intro class_of_bits) (auto simp: bit_put_bit)

lemma set_small_size_class:
  assumes "bit (ck_m c) 0" "sz < 5"
  shows "\<exists>w. set_small_chunk_size c sz = Inr (c\<lparr>ck_m := w\<rparr>) \<and> class_of w = sz
    \<and> (\<forall>i. i \<notin> {2, 3, 4} \<longrightarrow> bit w i = bit (ck_m c) i)"
proof -
  let ?f = "push_bit 2 (mask 3) :: uint64_t"
  define w where "w = ck_m c AND NOT ?f OR push_bit 2 (of_nat sz) AND ?f"
  have f: "?f = 0x1C"
    by (simp add: mask_eq_exp_minus_1)
  have bw: "bit w i = (if i \<in> {2, 3, 4} then bit (of_nat sz :: uint64_t) (i - 2) else bit (ck_m c) i)" for i
  proof (cases "i < 64")
    case True
    have "bit ?f i \<longleftrightarrow> i \<in> {2, 3, 4}"
      using True by (auto simp: bit_push_bit_iff bit_mask_iff)
    then show ?thesis
      using True by (auto simp: w_def bit_or_iff bit_and_iff bit_not_iff bit_push_bit_iff)
  next
    case False
    then show ?thesis
      using bit_imp_le_length by fastforce
  qed
  have "class_of w = class_of (push_bit 2 (of_nat sz))"
    by (rule class_of_bits) (auto simp: bw bit_push_bit_iff)
  also have "\<dots> = sz"
    using assms(2) by (simp add: class_of_def unat_push_bit_u64 unat_of_nat)
  finally have "class_of w = sz" .
  moreover have "set_small_chunk_size c sz = Inr (c\<lparr>ck_m := w\<rparr>)"
    using assms by (simp add: set_small_chunk_size_def is_small_bit w_def f SMALL_CHUNK_SIZECLASS_BITMASK_def
        SMALL_CHUNK_SIZECLASS_SHIFT_def HEAP_SIZECLASSES_def HEAP_MAXBITS_def HEAP_MINBITS_def POOL_ALIGN_BITS_def Let_def)
  ultimately show ?thesis
    using bw by auto
qed

section \<open>Slots\<close>

lemma upto_32: "(\<forall>k < 32. P k) \<longleftrightarrow> list_all P [0..<32]"
  by (auto simp: list_all_iff)

lemma sizeclass_bits:
  "\<forall>k < 32. bit (0xFFFFFFFF :: uint32_t) k" "\<forall>k < 32. bit (0x55555555 :: uint32_t) k \<longleftrightarrow> k mod 2 = 0"
  "\<forall>k < 32. bit (0x11111111 :: uint32_t) k \<longleftrightarrow> k mod 4 = 0" "\<forall>k < 32. bit (0x01010101 :: uint32_t) k \<longleftrightarrow> k mod 8 = 0"
  "\<forall>k < 32. bit (0x00010001 :: uint32_t) k \<longleftrightarrow> k mod 16 = 0"
  unfolding upto_32 by code_simp+

lemma less_5_cases: "(sc :: nat) < 5 \<longleftrightarrow> sc \<in> {0, 1, 2, 3, 4}"
  by auto

text \<open>The slots of a size class are the multiples of its size, in units of 32 bytes.\<close>

lemma bit_sizeclass_empty: "sc < 5 \<Longrightarrow> bit (sizeclass_empty ! sc) k \<longleftrightarrow> k < 32 \<and> k mod 2 ^ sc = 0"
  using sizeclass_bits bit_imp_le_length [of "sizeclass_empty ! sc" k]
  by (cases "k < 32") (auto simp: less_5_cases sizeclass_empty_def)

lemma sizeclass_init_empty: "sc < 5 \<Longrightarrow> sizeclass_init ! sc = sizeclass_empty ! sc AND NOT 1"
  by (auto simp: less_5_cases sizeclass_empty_def sizeclass_init_def)

lemma sizeclass_lengths [simp]: "length sizeclass_empty = 5" "length sizeclass_init = 5" "length sizeclass_table = 16"
  by (simp_all add: sizeclass_empty_def sizeclass_init_def sizeclass_table_def)

lemma sizeclass_size: "sc < 5 \<Longrightarrow> unat (SIZECLASS_SIZE sc) = 32 * 2 ^ sc"
  by (auto simp: less_5_cases SIZECLASS_SIZE_def HEAP_MIN_def HEAP_MINBITS_def push_bit_eq_mult)

lemma external_ptr:
  assumes "sc < 5"
  shows "unat (EXTERNAL_PTR p sc) = unat p div (32 * 2 ^ sc) * (32 * 2 ^ sc)"
proof -
  have "SIZECLASS_MASK sc = NOT (mask (5 + sc))"
    using assms by (auto simp: less_5_cases SIZECLASS_MASK_def SIZECLASS_SIZE_def HEAP_MIN_def HEAP_MINBITS_def
        push_bit_eq_mult mask_eq_exp_minus_1)
  then have "EXTERNAL_PTR p sc = push_bit (5 + sc) (drop_bit (5 + sc) p)"
    unfolding EXTERNAL_PTR_def by (intro bit_word_eqI) (auto simp: bit_simps)
  then have "unat (EXTERNAL_PTR p sc) = unat p div 2 ^ (5 + sc) * 2 ^ (5 + sc) mod 2 ^ 64"
    by (simp only: unat_push_bit_u64 unat_drop_bit_u64)
  also have "\<dots> = unat p div 2 ^ (5 + sc) * 2 ^ (5 + sc)"
    using unat_u64_bound [of p] div_times_less_eq_dividend [of "unat p" "2 ^ (5 + sc)"] by (intro mod_less) linarith
  finally show ?thesis
    by (simp add: power_add)
qed

text \<open>The slot of an address in a block at \<open>m\<close>.\<close>

definition slot_of :: "nat \<Rightarrow> uint64_t \<Rightarrow> uint64_t \<Rightarrow> nat" where
  "slot_of sc m p = (unat p - unat m) div (32 * 2 ^ sc) * 2 ^ sc"

definition in_block :: "uint64_t \<Rightarrow> nat \<Rightarrow> uint64_t \<Rightarrow> bool" where
  "in_block m n p \<longleftrightarrow> unat m \<le> unat p \<and> unat p < unat m + n"

lemma find_slot:
  assumes sc: "sc < 5" and m: "unat m mod 1024 = 0" and p: "in_block m 1024 p"
  shows "slot_of sc m p < 32" "slot_of sc m p mod 2 ^ sc = 0" "FIND_SLOT (EXTERNAL_PTR p sc) m = push_bit (slot_of sc m p) 1"
    "unat (EXTERNAL_PTR p sc) = unat m + 32 * slot_of sc m p"
proof -
  let ?n = "32 * 2 ^ sc :: nat"
  define q where "q = unat p - unat m"
  have q: "q < 1024" "unat p = unat m + q"
    using p by (auto simp: q_def in_block_def)
  have "?n dvd 1024"
    using sc by (auto simp: less_5_cases)
  then have "?n dvd unat m"
    using m by (meson dvd_trans mod_eq_0_iff_dvd)
  then obtain k where k: "unat m = ?n * k" ..
  have ext: "unat (EXTERNAL_PTR p sc) = unat m + q div ?n * ?n"
    unfolding external_ptr [OF sc] q(2) k by (simp add: algebra_simps)
  then show e: "unat (EXTERNAL_PTR p sc) = unat m + 32 * slot_of sc m p"
    by (simp add: slot_of_def q_def)
  show lt: "slot_of sc m p < 32"
    using sc q(1) by (auto simp: slot_of_def q_def [symmetric] less_5_cases)
  show "slot_of sc m p mod 2 ^ sc = 0"
    by (simp add: slot_of_def)
  have "unat (EXTERNAL_PTR p sc - m) = 32 * slot_of sc m p"
    using e by (simp add: unat_sub word_le_nat_alt)
  then show "FIND_SLOT (EXTERNAL_PTR p sc) m = push_bit (slot_of sc m p) 1"
    by (simp add: FIND_SLOT_def HEAP_MINBITS_def unat_drop_bit_u64)
qed

lemma heap_index_least:
  assumes "1 \<le> unat sz" "unat sz \<le> 512"
  shows "\<exists>i < 5. ponyint_heap_index sz = Inr i \<and> unat sz \<le> 32 * 2 ^ i \<and> (i = 0 \<or> 32 * 2 ^ (i - 1) < unat sz)"
proof -
  define k where "k = (unat sz - 1) div 32"
  have k: "unat (drop_bit 5 (sz - 1)) = k"
    using assms(1) by (simp add: k_def unat_drop_bit_u64 unat_sub word_le_nat_alt)
  have "k < 16" and s: "32 * k < unat sz" "unat sz \<le> 32 * k + 32"
    using assms by (auto simp: k_def)
  then have "k \<in> set [0..<16]"
    by simp
  then have "k \<in> {0, 1, 2, 3, 4, 5, 6, 7, 8, 9, 10, 11, 12, 13, 14, 15}"
    by (simp add: upt_rec numeral_eq_Suc del: set_upt)
  moreover have "ponyint_heap_index sz = arr_get sizeclass_table k"
    by (simp add: ponyint_heap_index_def HEAP_MINBITS_def k)
  ultimately show ?thesis
    using s by (auto simp: sizeclass_table_def)
qed

lemma m_put_bit: "n < 5 \<Longrightarrow> put_bit n v w AND CHUNK_M_BITMASK = w AND CHUNK_M_BITMASK"
  by (intro bit_word_eqI) (auto simp: chunk_m_mask bit_simps bit_put_bit)

section \<open>What marking does to a header\<close>

text \<open>
  The places for objects in a chunk, by number; a large chunk has one.  \<open>oaddr\<close> is the address of a place and
  \<open>hslot\<close> the place an address lies in.
\<close>

definition places :: "chunk_t \<Rightarrow> nat set" where
  "places h = (if bit (ck_m h) 0 then {k. bit (sizeclass_empty ! class_of (ck_m h)) k} else {0})"

definition oaddr :: "chunk_t \<Rightarrow> nat \<Rightarrow> uint64_t" where
  "oaddr h k = (if bit (ck_m h) 0 then get_m h + of_nat (32 * k) else get_m h)"

definition hslot :: "chunk_t \<Rightarrow> uint64_t \<Rightarrow> nat" where
  "hslot h p = (if bit (ck_m h) 0 then slot_of (class_of (ck_m h)) (get_m h) p else 0)"

definition bsize :: "chunk_t \<Rightarrow> nat" where
  "bsize h = (if bit (ck_m h) 0 then 1024 else unat (ck_size h))"

definition osize :: "chunk_t \<Rightarrow> nat" where
  "osize h = (if bit (ck_m h) 0 then 32 * 2 ^ class_of (ck_m h) else unat (ck_size h))"

definition has_final :: "chunk_t \<Rightarrow> nat \<Rightarrow> bool" where
  "has_final h k \<longleftrightarrow> (if bit (ck_m h) 0 then bit (ck_finalisers h) k else bit (ck_m h) 4)"

text \<open>A header with a block: aligned, inside the address space and of a known kind.\<close>

definition hdr_ok :: "chunk_t \<Rightarrow> bool" where
  "hdr_ok h \<longleftrightarrow> unat (get_m h) mod 1024 = 0 \<and> get_m h \<noteq> 0 \<and> unat (get_m h) + bsize h \<le> 2 ^ 48
     \<and> (if bit (ck_m h) 0 then class_of (ck_m h) < 5 else 0 < unat (ck_size h) \<and> unat (ck_size h) mod 1024 = 0)"

text \<open>Marks, as a collection under way sees them: a chunk that still has to be cleared has none.\<close>

definition mdeep :: "chunk_t \<Rightarrow> nat \<Rightarrow> bool" where
  "mdeep h k \<longleftrightarrow> \<not> bit (ck_m h) 1 \<and> (if bit (ck_m h) 0 then \<not> bit (ck_slots h) k else \<not> bit (ck_m h) 2)"

definition mshal :: "chunk_t \<Rightarrow> nat \<Rightarrow> bool" where
  "mshal h k \<longleftrightarrow> \<not> bit (ck_m h) 1 \<and> (if bit (ck_m h) 0 then \<not> bit (ck_shallow h) k else \<not> bit (ck_m h) 3)"

text \<open>The parts of a header that marking leaves alone.\<close>

definition same_hdr :: "chunk_t \<Rightarrow> chunk_t \<Rightarrow> bool" where
  "same_hdr h h' \<longleftrightarrow> get_m h' = get_m h \<and> bit (ck_m h') 0 = bit (ck_m h) 0
     \<and> (bit (ck_m h) 0 \<longrightarrow> class_of (ck_m h') = class_of (ck_m h)) \<and> ck_finalisers h' = ck_finalisers h \<and> ck_size h' = ck_size h
     \<and> (\<not> bit (ck_m h) 0 \<longrightarrow> bit (ck_m h') 4 = bit (ck_m h) 4)"

lemma same_hdr_refl [simp]: "same_hdr h h"
  by (simp add: same_hdr_def)

lemma same_hdr_trans: "same_hdr a b \<Longrightarrow> same_hdr b c \<Longrightarrow> same_hdr a c"
  by (simp add: same_hdr_def)

lemma same_hdr_views:
  assumes "same_hdr h h'"
  shows "places h' = places h" "oaddr h' = oaddr h" "hslot h' = hslot h" "bsize h' = bsize h" "osize h' = osize h"
    "has_final h' = has_final h" "hdr_ok h' = hdr_ok h" "get_m h' = get_m h"
proof -
  show b: "bsize h' = bsize h"
    using assms by (simp add: same_hdr_def bsize_def)
  show "places h' = places h" "oaddr h' = oaddr h" "hslot h' = hslot h" "osize h' = osize h"
    "has_final h' = has_final h" "get_m h' = get_m h"
    using assms by (simp_all add: same_hdr_def places_def oaddr_def fun_eq_iff hslot_def osize_def has_final_def)
  show "hdr_ok h' = hdr_ok h"
    using assms b unfolding same_hdr_def hdr_ok_def by presburger
qed

text \<open>The free slots of a chunk whose marks count are places of the chunk.\<close>

definition slots_in :: "chunk_t \<Rightarrow> bool" where
  "slots_in h \<longleftrightarrow> (bit (ck_m h) 0 \<and> \<not> bit (ck_m h) 1 \<longrightarrow> (\<forall>k. bit (ck_slots h) k \<longrightarrow> k \<in> places h))"

lemma maybe_clear:
  assumes "hdr_ok h"
  shows "\<exists>h'. maybe_clear_chunk h = Inr h' \<and> same_hdr h h' \<and> \<not> bit (ck_m h') 1
    \<and> (\<forall>k \<in> places h. mdeep h' k = mdeep h k \<and> mshal h' k = mshal h k) \<and> (slots_in h \<longrightarrow> slots_in h')"
proof (cases "bit (ck_m h) 1")
  case False
  then show ?thesis
    by (auto simp: maybe_clear_chunk_def needs_clearing_bit)
next
  case True
  show ?thesis
  proof (cases "bit (ck_m h) 0")
    case small: True
    let ?e = "sizeclass_empty ! class_of (ck_m h)"
    let ?h = "h\<lparr>ck_slots := ?e, ck_shallow := ?e, ck_m := put_bit 1 False (ck_m h)\<rparr>"
    have "maybe_clear_chunk h = Inr ?h"
      using assms True small
      by (simp add: maybe_clear_chunk_def needs_clearing_bit is_small_bit get_small_size_class hdr_ok_def clearing_set_bits)
    moreover have "same_hdr h ?h"
      using small by (simp add: same_hdr_def bit_put_bit get_m_def m_put_bit)
    ultimately show ?thesis
      using True small by (auto simp: bit_put_bit mdeep_def mshal_def places_def slots_in_def)
  next
    case large: False
    let ?h = "h\<lparr>ck_m := put_bit 1 False (put_bit 3 True (put_bit 2 True (ck_m h)))\<rparr>"
    have "maybe_clear_chunk h = Inr ?h"
      using True large
      by (simp add: maybe_clear_chunk_def needs_clearing_bit is_small_bit large_set_bits clearing_set_bits bit_put_bit)
    moreover have "same_hdr h ?h"
      using large by (simp add: same_hdr_def bit_put_bit)
    ultimately show ?thesis
      using True large by (auto simp: bit_put_bit mdeep_def mshal_def places_def slots_in_def)
  qed
qed


lemma small_place:
  assumes "hdr_ok h" "bit (ck_m h) 0" "in_block (get_m h) (bsize h) p"
  shows "hslot h p \<in> places h" "hslot h p < 32"
    "FIND_SLOT (EXTERNAL_PTR p (class_of (ck_m h))) (get_m h) = 2 ^ hslot h p"
    "EXTERNAL_PTR p (class_of (ck_m h)) = oaddr h (hslot h p)"
proof -
  let ?c = "class_of (ck_m h)"
  have pre: "?c < 5" "unat (get_m h) mod 1024 = 0" "in_block (get_m h) 1024 p" "unat (get_m h) + 1024 \<le> 2 ^ 48"
    using assms by (simp_all add: hdr_ok_def bsize_def)
  note f = find_slot [OF pre(1-3)]
  show "hslot h p \<in> places h" "hslot h p < 32" "FIND_SLOT (EXTERNAL_PTR p ?c) (get_m h) = 2 ^ hslot h p"
    using f assms(2) pre(1) by (simp_all add: hslot_def places_def bit_sizeclass_empty)
  have "unat (get_m h + of_nat (32 * slot_of ?c (get_m h) p)) = unat (get_m h) + 32 * slot_of ?c (get_m h) p"
    using f(1) pre(4) by (simp add: unat_word_ariths unat_of_nat)
  then show "EXTERNAL_PTR p ?c = oaddr h (hslot h p)"
    using f(4) assms(2) by (simp add: word_unat_eq_iff oaddr_def hslot_def)
qed

lemma and_push_bit_zero: "k < 32 \<Longrightarrow> (w :: uint32_t) AND 2 ^ k = 0 \<longleftrightarrow> \<not> bit w k"
proof
  assume "k < 32" "w AND 2 ^ k = 0"
  then have "\<not> bit (w AND 2 ^ k) k" by simp
  then show "\<not> bit w k" using \<open>k < 32\<close> by (simp add: bit_simps)
next
  assume "\<not> bit w k"
  then show "w AND 2 ^ k = 0"
    by (intro bit_word_eqI) (auto simp: bit_simps)
qed

lemma bit_clear_slot: "k < 32 \<Longrightarrow> bit ((w :: uint32_t) AND NOT (2 ^ k)) j \<longleftrightarrow> bit w j \<and> j \<noteq> k"
  by (cases "j < 32") (auto simp: bit_simps dest: bit_imp_le_length)

lemma heap_mark_spec:
  assumes ok: "hdr_ok h" and p: "in_block (get_m h) (bsize h) p"
  shows "\<exists>h'. ponyint_heap_mark h p = Inr (mdeep h (hslot h p), h') \<and> same_hdr h h' \<and> (slots_in h \<longrightarrow> slots_in h')
    \<and> (\<forall>k \<in> places h. mdeep h' k = (mdeep h k \<or> k = hslot h p \<and> p = oaddr h k)
         \<and> mshal h' k = (mshal h k \<or> k = hslot h p \<and> p \<noteq> oaddr h k))"
proof -
  obtain h0 where h0: "maybe_clear_chunk h = Inr h0" "same_hdr h h0" "\<not> bit (ck_m h0) 1"
    "\<forall>k \<in> places h. mdeep h0 k = mdeep h k \<and> mshal h0 k = mshal h k" "slots_in h \<longrightarrow> slots_in h0"
    using maybe_clear [OF ok] by blast
  note v = same_hdr_views [OF h0(2)]
  show ?thesis
  proof (cases "bit (ck_m h) 0")
    case True
    then have b0: "bit (ck_m h0) 0" and cl: "class_of (ck_m h0) = class_of (ck_m h)"
      using h0(2) by (simp_all add: same_hdr_def)
    note pl = small_place [OF ok True p]
    let ?k = "hslot h p"
    let ?h = "if p = oaddr h ?k then h0\<lparr>ck_slots := ck_slots h0 AND NOT (2 ^ ?k)\<rparr>
      else h0\<lparr>ck_shallow := ck_shallow h0 AND NOT (2 ^ ?k)\<rparr>"
    have "ck_slots h0 AND 2 ^ ?k = 0 \<longleftrightarrow> mdeep h ?k"
      using h0(3,4) pl(1,2) b0 and_push_bit_zero [of ?k "ck_slots h0"] by (auto simp: mdeep_def)
    moreover obtain e where e: "EXTERNAL_PTR p (class_of (ck_m h)) = e" "FIND_SLOT e (get_m h) = 2 ^ ?k" "oaddr h ?k = e"
      using pl(3,4) by metis
    ultimately have "ponyint_heap_mark h p = Inr (mdeep h ?k, ?h)"
      using h0(1) b0 cl v(8)
      by (auto simp: ponyint_heap_mark_def is_small_bit get_small_size_class Let_def)
    moreover have "same_hdr h ?h"
      using h0(2) by (auto simp: same_hdr_def)
    moreover have "slots_in h \<longrightarrow> slots_in ?h"
      using h0(3,5) b0 pl(2) v(1) by (auto simp: slots_in_def bit_clear_slot places_def)
    moreover have "mdeep ?h k = (mdeep h k \<or> k = ?k \<and> p = oaddr h k) \<and> mshal ?h k = (mshal h k \<or> k = ?k \<and> p \<noteq> oaddr h k)"
      if "k \<in> places h" for k
      using h0(3,4) b0 that pl(2) by (auto simp: mdeep_def mshal_def bit_clear_slot)
    ultimately show ?thesis by blast
  next
    case False
    then have b0: "\<not> bit (ck_m h0) 0" and z: "hslot h p = 0" "places h = {0}" "oaddr h 0 = get_m h"
      using h0(2) by (simp_all add: same_hdr_def hslot_def places_def oaddr_def)
    let ?h = "if p = get_m h then h0\<lparr>ck_m := put_bit 2 False (ck_m h0)\<rparr> else h0\<lparr>ck_m := put_bit 3 False (ck_m h0)\<rparr>"
    have "\<not> bit (ck_m h0) 2 \<longleftrightarrow> mdeep h 0"
      using h0(3,4) z b0 by (auto simp: mdeep_def)
    then have "ponyint_heap_mark h p = Inr (mdeep h 0, ?h)"
      using h0(1) b0 v(8) by (simp add: ponyint_heap_mark_def is_small_bit large_get_bits large_set_bits Let_def)
    moreover have "same_hdr h ?h" "slots_in ?h"
      using h0(2) False b0 by (auto simp: same_hdr_def bit_put_bit get_m_def m_put_bit slots_in_def)
    moreover have "mdeep ?h 0 = (mdeep h 0 \<or> p = get_m h) \<and> mshal ?h 0 = (mshal h 0 \<or> p \<noteq> get_m h)"
      using h0(3,4) z b0 by (auto simp: mdeep_def mshal_def bit_put_bit)
    ultimately show ?thesis
      using z by auto
  qed
qed

lemma heap_mark_shallow_spec:
  assumes ok: "hdr_ok h" and p: "in_block (get_m h) (bsize h) p"
  shows "\<exists>h'. ponyint_heap_mark_shallow h p = Inr h' \<and> same_hdr h h' \<and> (slots_in h \<longrightarrow> slots_in h')
    \<and> (\<forall>k \<in> places h. mdeep h' k = mdeep h k \<and> mshal h' k = (mshal h k \<or> k = hslot h p))"
proof -
  obtain h0 where h0: "maybe_clear_chunk h = Inr h0" "same_hdr h h0" "\<not> bit (ck_m h0) 1"
    "\<forall>k \<in> places h. mdeep h0 k = mdeep h k \<and> mshal h0 k = mshal h k" "slots_in h \<longrightarrow> slots_in h0"
    using maybe_clear [OF ok] by blast
  note v = same_hdr_views [OF h0(2)]
  show ?thesis
  proof (cases "bit (ck_m h) 0")
    case True
    then have b0: "bit (ck_m h0) 0" and cl: "class_of (ck_m h0) = class_of (ck_m h)"
      using h0(2) by (simp_all add: same_hdr_def)
    note pl = small_place [OF ok True p]
    let ?h = "h0\<lparr>ck_shallow := ck_shallow h0 AND NOT (2 ^ hslot h p)\<rparr>"
    have "ponyint_heap_mark_shallow h p = Inr ?h"
      using h0(1) b0 cl pl(3) v(8)
      by (simp add: ponyint_heap_mark_shallow_def is_small_bit get_small_size_class Let_def)
    moreover have "same_hdr h ?h"
      using h0(2) by (simp add: same_hdr_def)
    moreover have "mdeep ?h k = mdeep h k \<and> mshal ?h k = (mshal h k \<or> k = hslot h p)" if "k \<in> places h" for k
      using h0(3,4) b0 that pl(2) by (auto simp: mdeep_def mshal_def bit_clear_slot)
    moreover have "slots_in h \<longrightarrow> slots_in ?h"
      using h0(5) by (auto simp: slots_in_def places_def)
    ultimately show ?thesis by blast
  next
    case False
    then have b0: "\<not> bit (ck_m h0) 0" and z: "hslot h p = 0" "places h = {0}"
      using h0(2) by (simp_all add: same_hdr_def hslot_def places_def)
    let ?h = "h0\<lparr>ck_m := put_bit 3 False (ck_m h0)\<rparr>"
    have "ponyint_heap_mark_shallow h p = Inr ?h"
      using h0(1) b0 by (simp add: ponyint_heap_mark_shallow_def is_small_bit large_set_bits)
    moreover have "same_hdr h ?h"
      using h0(2) False by (simp add: same_hdr_def bit_put_bit get_m_def m_put_bit)
    ultimately show ?thesis
      using h0(3,4) b0 z by (auto simp: mdeep_def mshal_def bit_put_bit slots_in_def)
  qed
qed

end
