(* ===== verification/Heap.thy ===== *)
theory Heap
  imports Heapchunk
begin

text \<open>
  The heap of an actor, \<^verbatim>\<open>src/libponyrt/mem/heap.c\<close>: allocation from small and large chunks, the sweep after a
  collection, finalisers and the recycling of chunks, with assertions on, without the runtime statistics
  and the address sanitizer.

  What the pool allocator answers is an argument of the operations that ask it.  A finaliser is compiled
  code; what it does to the heap is the sequence of its allocations.
\<close>

section \<open>State\<close>

record heap_t =
  hp_small_free :: "uint64_t list list"
  hp_small_full :: "uint64_t list list"
  hp_large :: "uint64_t list"
  hp_recyclable :: "uint64_t list list"
  hp_used :: uint64_t
  hp_next_gc :: uint64_t

text \<open>
  The heap with the memory it works on: the headers of its chunks, the blocks it has from the pool with their
  sizes, the page map, and the objects finalised so far.
\<close>

record hstate =
  hs_heap :: heap_t
  hs_chunks :: "uint64_t \<rightharpoonup> chunk_t"
  hs_blocks :: "uint64_t \<rightharpoonup> uint64_t"
  hs_pagemap :: "pnode option"
  hs_finalised :: "uint64_t list"

text \<open>
  The answers of the pool to a request for a header, whose memory is not initialised, and for a block.
\<close>

record pool_answer =
  pa_chunk :: uint64_t
  pa_junk :: chunk_t
  pa_block :: uint64_t

text \<open>An allocation of a finaliser: the size, the mask and the answers of the pool if it is asked.\<close>

type_synonym request = "uint64_t \<times> uint32_t \<times> pool_answer"

text \<open>
  The finaliser of the object at an address, \<open>None\<close> if its type has none; the thresholds of the collector, with
  the product of a size and \<open>heap_nextgc_factor\<close> in floating point; and the actor.
\<close>

record henv =
  he_final :: "uint64_t \<Rightarrow> request list option"
  he_initialgc :: uint64_t
  he_nextgc :: "uint64_t \<Rightarrow> uint64_t"
  he_actor :: uint64_t

definition load :: "hstate \<Rightarrow> uint64_t \<Rightarrow> chunk_t res" where
  "load s c = load_chunk (hs_chunks s) c"

definition put_chunk :: "hstate \<Rightarrow> uint64_t \<Rightarrow> chunk_t \<Rightarrow> hstate" where
  "put_chunk s c h = s\<lparr>hs_chunks := (hs_chunks s)(c \<mapsto> h)\<rparr>"

definition upd_heap :: "(heap_t \<Rightarrow> heap_t) \<Rightarrow> hstate \<Rightarrow> hstate" where
  "upd_heap f s = s\<lparr>hs_heap := f (hs_heap s)\<rparr>"

text \<open>Blocks and headers go back to the pool once.\<close>

definition free_block :: "hstate \<Rightarrow> uint64_t \<Rightarrow> uint64_t \<Rightarrow> hstate res" where
  "free_block s b sz =
     (if hs_blocks s b = Some sz then Inr (s\<lparr>hs_blocks := (hs_blocks s)(b := None)\<rparr>) else Inl Bad_access)"

definition free_chunk :: "hstate \<Rightarrow> uint64_t \<Rightarrow> hstate res" where
  "free_chunk s c =
     (if hs_chunks s c \<noteq> None then Inr (s\<lparr>hs_chunks := (hs_chunks s)(c := None)\<rparr>) else Inl Bad_access)"

definition pagemap_set :: "hstate \<Rightarrow> uint64_t \<Rightarrow> uint64_t \<Rightarrow> uint64_t \<Rightarrow> hstate res" where
  "pagemap_set s m c a =
     res_bind (ponyint_pagemap_set (hs_pagemap s) m c a) (\<lambda>pm. Inr (s\<lparr>hs_pagemap := pm\<rparr>))"

definition large_pagemap :: "hstate \<Rightarrow> uint64_t \<Rightarrow> uint64_t \<Rightarrow> uint64_t \<Rightarrow> uint64_t \<Rightarrow> hstate res" where
  "large_pagemap s m sz c a =
     res_bind (ponyint_pagemap_set_bulk (pages (unat sz)) (hs_pagemap s) m c a sz) (\<lambda>pm. Inr (s\<lparr>hs_pagemap := pm\<rparr>))"

definition ponyint_pool_adjust_size :: "uint64_t \<Rightarrow> uint64_t" where
  "ponyint_pool_adjust_size sz =
     (let sz = (if sz AND (POOL_ALIGN - 1) \<noteq> 0 then (sz AND NOT (POOL_ALIGN - 1)) + POOL_ALIGN else sz)
      in if sz = 0 then sz - 1 else sz)"

section \<open>Allocation\<close>

text \<open>
  The thresholds as the options of the runtime set them, before any heap exists.  Shifting by the width or more is
  undefined.  Floating point numbers are a type parameter, with the comparison and the product the code uses.
\<close>

definition ponyint_heap_setinitialgc :: "uint64_t \<Rightarrow> henv \<Rightarrow> henv res" where
  "ponyint_heap_setinitialgc sz env =
     (if sz < 64 then Inr (env\<lparr>he_initialgc := push_bit (unat sz) 1\<rparr>) else Inl Bad_access)"

definition ponyint_heap_setnextgcfactor ::
  "('d \<Rightarrow> 'd \<Rightarrow> bool) \<Rightarrow> 'd \<Rightarrow> ('d \<Rightarrow> uint64_t \<Rightarrow> uint64_t) \<Rightarrow> 'd \<Rightarrow> henv \<Rightarrow> henv" where
  "ponyint_heap_setnextgcfactor lt unit_d scale factor env =
     (let factor = (if lt factor unit_d then unit_d else factor) in env\<lparr>he_nextgc := scale factor\<rparr>)"

definition ponyint_heap_init :: "henv \<Rightarrow> heap_t" where
  "ponyint_heap_init env =
     \<lparr>hp_small_free = replicate HEAP_SIZECLASSES [], hp_small_full = replicate HEAP_SIZECLASSES [], hp_large = [],
      hp_recyclable = replicate HEAP_RECYCLE_SIZECLASSES [], hp_used = 0, hp_next_gc = he_initialgc env\<rparr>"

text \<open>Number of zero bits below the lowest bit that is set.\<close>

definition ctz32 :: "uint32_t \<Rightarrow> nat" where
  "ctz32 w = length (takeWhile (\<lambda>i. \<not> bit w i) [0..<32])"

definition popcount32 :: "uint32_t \<Rightarrow> nat" where
  "popcount32 w = length (filter (bit w) [0..<32])"

definition slot_addr :: "uint64_t \<Rightarrow> nat \<Rightarrow> uint64_t" where
  "slot_addr m b = m + push_bit HEAP_MINBITS (of_nat b)"

text \<open>A slot of the first free chunk of the size class.\<close>

definition alloc_small_slot :: "hstate \<Rightarrow> nat \<Rightarrow> uint32_t \<Rightarrow> uint64_t \<Rightarrow> uint64_t list \<Rightarrow> (uint64_t \<times> hstate) res" where
  "alloc_small_slot s sizeclass track c cs =
     res_bind (load s c) (\<lambda>h.
       let slots = ck_slots h; b = ctz32 slots; slots = slots AND NOT (push_bit b 1); m = slot_addr (get_m h) b;
           h = h\<lparr>ck_slots := slots, ck_finalisers := ck_finalisers h OR track AND push_bit b 1\<rparr>;
           s = put_chunk s c h;
           s = (if slots = 0
                then upd_heap (\<lambda>hp. hp\<lparr>hp_small_free := (hp_small_free hp)[sizeclass := cs],
                       hp_small_full := (hp_small_full hp)[sizeclass := c # hp_small_full hp ! sizeclass]\<rparr>) s
                else s)
       in Inr (m, s))"

text \<open>A chunk for a size class that has none free: a recycled one or a new one.\<close>

definition fresh_small_chunk :: "henv \<Rightarrow> hstate \<Rightarrow> pool_answer \<Rightarrow> (uint64_t \<times> hstate) res" where
  "fresh_small_chunk env s pa =
     (case hp_recyclable (hs_heap s) ! HEAP_RECYCLE_MIXED of
        n # ns \<Rightarrow>
          let s = upd_heap (\<lambda>hp. hp\<lparr>hp_recyclable := (hp_recyclable hp)[HEAP_RECYCLE_MIXED := ns]\<rparr>) s
          in res_bind (load s n) (\<lambda>h. Inr (n, put_chunk s n (clear_chunk_flags h)))
      | [] \<Rightarrow>
          let n = pa_chunk pa; h = (pa_junk pa)\<lparr>ck_m := pa_block pa\<rparr>;
              s = put_chunk s n h; s = s\<lparr>hs_blocks := (hs_blocks s)(pa_block pa \<mapsto> POOL_ALIGN)\<rparr>
          in res_bind (pagemap_set s (get_m h) n (he_actor env)) (\<lambda>s. Inr (n, s)))"

definition alloc_small_chunk :: "henv \<Rightarrow> hstate \<Rightarrow> nat \<Rightarrow> uint32_t \<Rightarrow> pool_answer \<Rightarrow> (uint64_t \<times> hstate) res" where
  "alloc_small_chunk env s sizeclass track pa =
     res_bind (fresh_small_chunk env s pa) (\<lambda>(n, s).
       res_bind (load s n) (\<lambda>h.
         pony_assert (n \<noteq> 0) (pony_assert (ck_m h \<noteq> 0)
           (res_bind (set_small_chunk_size (set_chunk_is_small_chunk h) sizeclass) (\<lambda>h.
             res_bind (arr_get sizeclass_init sizeclass) (\<lambda>init.
               let h = set_chunk_needs_clearing (h\<lparr>ck_finalisers := track AND 1, ck_slots := init\<rparr>);
                   s = upd_heap (\<lambda>hp. hp\<lparr>hp_small_free := (hp_small_free hp)[sizeclass := [n]]\<rparr>) (put_chunk s n h)
               in Inr (get_m h, s)))))))"

definition ponyint_heap_alloc_small ::
  "henv \<Rightarrow> hstate \<Rightarrow> nat \<Rightarrow> uint32_t \<Rightarrow> pool_answer \<Rightarrow> (uint64_t \<times> hstate) res" where
  "ponyint_heap_alloc_small env s sizeclass track pa =
     pony_assert (track = TRACK_NO_FINALISERS \<or> track = TRACK_ALL_FINALISERS)
       (res_bind (arr_get (hp_small_free (hs_heap s)) sizeclass) (\<lambda>free.
         res_bind
           (case free of
              c # cs \<Rightarrow> alloc_small_slot s sizeclass track c cs
            | [] \<Rightarrow> alloc_small_chunk env s sizeclass track pa)
           (\<lambda>(m, s). Inr (m, upd_heap (\<lambda>hp. hp\<lparr>hp_used := hp_used hp + SIZECLASS_SIZE sizeclass\<rparr>) s))))"

text \<open>The search of the sorted overflow list for a chunk of exactly the size: the chunk and the list without it.\<close>

fun overflow_take ::
  "(uint64_t \<rightharpoonup> chunk_t) \<Rightarrow> uint64_t \<Rightarrow> uint64_t list \<Rightarrow> (uint64_t \<times> uint64_t list) option res" where
  "overflow_take cs sz [] = Inr None"
| "overflow_take cs sz (r # rs) =
     res_bind (load_chunk cs r) (\<lambda>h.
       if ck_size h \<le> sz
       then if ck_size h = sz then Inr (Some (r, rs))
            else res_bind (overflow_take cs sz rs) (\<lambda>x. Inr (case x of None \<Rightarrow> None | Some (c, l) \<Rightarrow> Some (c, r # l)))
       else Inr None)"

definition recycle_large :: "hstate \<Rightarrow> uint64_t \<Rightarrow> (uint64_t option \<times> hstate) res" where
  "recycle_large s sz =
     (let recycle_index = heap_recycle_index sz; rec = hp_recyclable (hs_heap s)
      in if HEAP_RECYCLE_LARGE_OVERFLOW \<le> recycle_index
         then if rec ! HEAP_RECYCLE_LARGE_OVERFLOW \<noteq> []
              then pony_assert (sz > HEAP_RECYCLE_MIXED_SIZE)
                (res_bind (overflow_take (hs_chunks s) sz (rec ! HEAP_RECYCLE_LARGE_OVERFLOW)) (\<lambda>x.
                  case x of
                    None \<Rightarrow> Inr (None, s)
                  | Some (c, l) \<Rightarrow>
                      Inr (Some c, upd_heap (\<lambda>hp. hp\<lparr>hp_recyclable := (hp_recyclable hp)[HEAP_RECYCLE_LARGE_OVERFLOW := l]\<rparr>) s)))
              else Inr (None, s)
         else pony_assert (recycle_index < HEAP_RECYCLE_LARGE_OVERFLOW)
           (pony_assert ((HEAP_RECYCLE_MIXED \<noteq> recycle_index \<and> sz > HEAP_RECYCLE_MIXED_SIZE)
               \<or> (HEAP_RECYCLE_MIXED = recycle_index \<and> HEAP_RECYCLE_MIXED_SIZE = sz))
             (case rec ! recycle_index of
                c # cs \<Rightarrow>
                  let s = upd_heap (\<lambda>hp. hp\<lparr>hp_recyclable := (hp_recyclable hp)[recycle_index := cs]\<rparr>) s
                  in res_bind (load s c) (\<lambda>h. Inr (Some c, put_chunk s c ((clear_chunk_flags h)\<lparr>ck_size := sz\<rparr>)))
              | [] \<Rightarrow> Inr (None, s))))"

definition fresh_large_chunk :: "henv \<Rightarrow> hstate \<Rightarrow> uint64_t \<Rightarrow> pool_answer \<Rightarrow> (uint64_t \<times> hstate) res" where
  "fresh_large_chunk env s sz pa =
     (let c = pa_chunk pa; h = (pa_junk pa)\<lparr>ck_size := sz, ck_m := pa_block pa\<rparr>;
          s = put_chunk s c h; s = s\<lparr>hs_blocks := (hs_blocks s)(pa_block pa \<mapsto> sz)\<rparr>
      in res_bind (large_pagemap s (get_m h) sz c (he_actor env)) (\<lambda>s. Inr (c, s)))"

definition ponyint_heap_alloc_large ::
  "henv \<Rightarrow> hstate \<Rightarrow> uint64_t \<Rightarrow> uint32_t \<Rightarrow> pool_answer \<Rightarrow> (uint64_t \<times> hstate) res" where
  "ponyint_heap_alloc_large env s sz track pa =
     pony_assert (track = TRACK_NO_FINALISERS \<or> track = TRACK_ALL_FINALISERS)
       (let sz = ponyint_pool_adjust_size sz
        in res_bind (recycle_large s sz) (\<lambda>(chunk, s).
          res_bind (case chunk of None \<Rightarrow> fresh_large_chunk env s sz pa | Some c \<Rightarrow> Inr (c, s)) (\<lambda>(c, s).
            res_bind (load s c) (\<lambda>h.
              pony_assert (c \<noteq> 0) (pony_assert (ck_m h \<noteq> 0) (pony_assert (ck_size h = sz)
                (res_bind (set_large_chunk_slot h 0) (\<lambda>h.
                  res_bind (set_large_chunk_finaliser (set_chunk_needs_clearing h) (track AND 1)) (\<lambda>h.
                    Inr (get_m h, upd_heap (\<lambda>hp. hp\<lparr>hp_large := c # hp_large hp, hp_used := hp_used hp + ck_size h\<rparr>)
                      (put_chunk s c h)))))))))))"

definition ponyint_heap_alloc ::
  "henv \<Rightarrow> hstate \<Rightarrow> uint64_t \<Rightarrow> uint32_t \<Rightarrow> pool_answer \<Rightarrow> (uint64_t \<times> hstate) res" where
  "ponyint_heap_alloc env s sz track pa =
     pony_assert (track = TRACK_NO_FINALISERS \<or> track = TRACK_ALL_FINALISERS)
       (if sz = 0 then Inr (0, s)
        else if sz \<le> HEAP_MAX
        then res_bind (ponyint_heap_index sz) (\<lambda>i. ponyint_heap_alloc_small env s i track pa)
        else ponyint_heap_alloc_large env s sz track pa)"

text \<open>The third component is the number of bytes copied from the old place.\<close>

definition ponyint_heap_realloc ::
  "henv \<Rightarrow> hstate \<Rightarrow> uint64_t \<Rightarrow> uint64_t \<Rightarrow> uint64_t \<Rightarrow> pool_answer \<Rightarrow> (uint64_t \<times> hstate \<times> uint64_t) res" where
  "ponyint_heap_realloc env s p sz copy pa =
     (if p = 0
      then res_bind (ponyint_heap_alloc env s sz TRACK_NO_FINALISERS pa) (\<lambda>(q, s). Inr (q, s, 0))
      else res_bind (ponyint_pagemap_get_chunk (hs_pagemap s) p) (\<lambda>c.
        pony_assert (c \<noteq> 0) (res_bind (load s c) (\<lambda>h.
          res_bind
            (if get_chunk_is_small_chunk h
             then res_bind (get_small_chunk_size h) (\<lambda>sc. Inr (SIZECLASS_SIZE sc - (p - EXTERNAL_PTR p sc)))
             else Inr (ck_size h - (p - get_m h)))
            (\<lambda>oldsize.
              pony_assert (copy \<le> sz)
                (let copy = (if copy > sz then sz else copy); oldsize = (if oldsize > copy then copy else oldsize)
                 in res_bind (ponyint_heap_alloc env s sz TRACK_NO_FINALISERS pa) (\<lambda>(q, s). Inr (q, s, oldsize))))))))"

definition heap_used_add :: "hstate \<Rightarrow> uint64_t \<Rightarrow> hstate" where
  "heap_used_add s sz = upd_heap (\<lambda>hp. hp\<lparr>hp_used := hp_used hp + sz\<rparr>) s"

definition ponyint_heap_startgc :: "hstate \<Rightarrow> bool \<times> hstate" where
  "ponyint_heap_startgc s =
     (if hp_used (hs_heap s) \<le> hp_next_gc (hs_heap s) then (False, s) else (True, upd_heap (\<lambda>hp. hp\<lparr>hp_used := 0\<rparr>) s))"

section \<open>Finalisers\<close>

text \<open>The allocations a finaliser makes, in order.\<close>

fun run_requests :: "henv \<Rightarrow> hstate \<Rightarrow> request list \<Rightarrow> hstate res" where
  "run_requests env s [] = Inr s"
| "run_requests env s ((sz, track, pa) # rs) =
     res_bind (ponyint_heap_alloc env s sz track pa) (\<lambda>(q, s). run_requests env s rs)"

definition call_final :: "henv \<Rightarrow> hstate \<Rightarrow> uint64_t \<Rightarrow> hstate res" where
  "call_final env s p =
     (case he_final env p of
        None \<Rightarrow> Inl Assert_fail
      | Some rs \<Rightarrow> run_requests env (s\<lparr>hs_finalised := hs_finalised s @ [p]\<rparr>) rs)"

lemma and_minus_one_less: "(w :: uint32_t) \<noteq> 0 \<Longrightarrow> unat (w AND (w - 1)) < unat w"
proof -
  assume "w \<noteq> 0"
  then have "w - 1 < w"
    using unat_gt_0 [of w] by (simp add: word_less_nat_alt unat_minus_one)
  moreover have "w AND (w - 1) \<le> w - 1"
    by (simp add: word_and_le1)
  ultimately show ?thesis
    by (simp add: word_less_nat_alt word_le_nat_alt)
qed

function run_finalisers :: "henv \<Rightarrow> hstate \<Rightarrow> uint64_t \<Rightarrow> uint32_t \<Rightarrow> hstate res" where
  "run_finalisers env s m finalisers =
     (if finalisers = 0 then Inr s
      else case call_final env s (slot_addr m (ctz32 finalisers)) of
             Inl e \<Rightarrow> Inl e
           | Inr s \<Rightarrow> run_finalisers env s m (finalisers AND (finalisers - 1)))"
  by auto
termination
  by (relation "measure (\<lambda>(env, s, m, finalisers). unat finalisers)") (auto simp: and_minus_one_less)

declare run_finalisers.simps [simp del]

definition final_small :: "henv \<Rightarrow> hstate \<Rightarrow> uint64_t \<Rightarrow> uint32_t \<Rightarrow> hstate res" where
  "final_small env s c force =
     res_bind (load s c) (\<lambda>h.
       pony_assert (get_chunk_is_small_chunk h)
         (pony_assert (force = FORCE_NO_FINALISERS \<or> force = FORCE_ALL_FINALISERS)
           (let finalisers = ck_finalisers h AND (ck_slots h OR force)
            in if finalisers = 0 then Inr s
               else run_finalisers env
                 (put_chunk s c (h\<lparr>ck_finalisers := ck_finalisers h AND NOT (ck_slots h OR force)\<rparr>)) (get_m h) finalisers)))"

definition final_large :: "henv \<Rightarrow> hstate \<Rightarrow> uint64_t \<Rightarrow> hstate res" where
  "final_large env s c =
     res_bind (load s c) (\<lambda>h.
       pony_assert (\<not> get_chunk_is_small_chunk h)
         (res_bind (get_large_chunk_finaliser h) (\<lambda>fin.
           if fin = 1
           then res_bind (call_final env s (get_m h)) (\<lambda>s.
             res_bind (load s c) (\<lambda>h. res_bind (set_large_chunk_finaliser h 0) (\<lambda>h. Inr (put_chunk s c h))))
           else Inr s)))"

definition destroy_small :: "henv \<Rightarrow> hstate \<Rightarrow> uint64_t \<Rightarrow> hstate res" where
  "destroy_small env s c =
     res_bind (load s c) (\<lambda>h.
       pony_assert (get_chunk_is_small_chunk h)
         (res_bind (final_small env s c FORCE_ALL_FINALISERS) (\<lambda>s.
           res_bind (load s c) (\<lambda>h.
             res_bind (pagemap_set s (get_m h) 0 0) (\<lambda>s.
               res_bind (free_block s (get_m h) POOL_ALIGN) (\<lambda>s. free_chunk s c))))))"

definition destroy_large :: "henv \<Rightarrow> hstate \<Rightarrow> uint64_t \<Rightarrow> hstate res" where
  "destroy_large env s c =
     res_bind (load s c) (\<lambda>h.
       pony_assert (\<not> get_chunk_is_small_chunk h)
         (res_bind (final_large env s c) (\<lambda>s.
           res_bind (load s c) (\<lambda>h.
             res_bind (large_pagemap s (get_m h) (ck_size h) 0 0) (\<lambda>s.
               res_bind (if get_m h \<noteq> 0 then free_block s (get_m h) (ck_size h) else Inr s) (\<lambda>s. free_chunk s c))))))"

definition destroy_mixed :: "henv \<Rightarrow> hstate \<Rightarrow> uint64_t \<Rightarrow> hstate res" where
  "destroy_mixed env s c =
     res_bind (load s c) (\<lambda>h. if get_chunk_is_small_chunk h then destroy_small env s c else destroy_large env s c)"

text \<open>
  The \<open>next\<close> field of a chunk in the lists of the heap: the chunk behind it.  \<open>chunk_list\<close> reads it before it calls
  its function, which may change the lists.
\<close>

fun succ_in :: "uint64_t \<Rightarrow> uint64_t list \<Rightarrow> uint64_t option" where
  "succ_in c [] = None"
| "succ_in c [d] = (if c = d then Some 0 else None)"
| "succ_in c (d # e # ds) = (if c = d then Some e else succ_in c (e # ds))"

fun first_succ :: "uint64_t \<Rightarrow> uint64_t list list \<Rightarrow> uint64_t" where
  "first_succ c [] = 0"
| "first_succ c (l # ls) = (case succ_in c l of None \<Rightarrow> first_succ c ls | Some n \<Rightarrow> n)"

definition heap_lists :: "heap_t \<Rightarrow> uint64_t list list" where
  "heap_lists hp = hp_small_free hp @ hp_small_full hp @ [hp_large hp] @ hp_recyclable hp"

definition chunk_next :: "hstate \<Rightarrow> uint64_t \<Rightarrow> uint64_t" where
  "chunk_next s c = first_succ c (heap_lists (hs_heap s))"

fun chunk_list :: "nat \<Rightarrow> (hstate \<Rightarrow> uint64_t \<Rightarrow> hstate res) \<Rightarrow> hstate \<Rightarrow> uint64_t \<Rightarrow> hstate res" where
  "chunk_list n f s current =
     (if current = 0 then Inr s
      else case n of
             0 \<Rightarrow> Inl Out_of_fuel
           | Suc n \<Rightarrow> let nxt = chunk_next s current in res_bind (f s current) (\<lambda>s. chunk_list n f s nxt))"

declare chunk_list.simps [simp del]

definition list_head :: "uint64_t list \<Rightarrow> uint64_t" where
  "list_head l = (case l of [] \<Rightarrow> 0 | c # cs \<Rightarrow> c)"

text \<open>A counting loop whose body may fail.\<close>

fun for_each :: "'a list \<Rightarrow> ('a \<Rightarrow> 's \<Rightarrow> 's res) \<Rightarrow> 's \<Rightarrow> 's res" where
  "for_each [] f s = Inr s"
| "for_each (i # is) f s = res_bind (f i s) (for_each is f)"

definition destroy_recyclable :: "nat \<Rightarrow> henv \<Rightarrow> hstate \<Rightarrow> hstate res" where
  "destroy_recyclable n env s =
     for_each [0..<HEAP_RECYCLE_SIZECLASSES] (\<lambda>i s.
       chunk_list n (if HEAP_RECYCLE_MIXED = i then destroy_mixed env else destroy_large env) s
         (list_head (hp_recyclable (hs_heap s) ! i))) s"

definition ponyint_heap_destroy :: "nat \<Rightarrow> henv \<Rightarrow> hstate \<Rightarrow> hstate res" where
  "ponyint_heap_destroy n env s =
     res_bind (chunk_list n (destroy_large env) s (list_head (hp_large (hs_heap s)))) (\<lambda>s.
       res_bind (destroy_recyclable n env s)
         (for_each [0..<HEAP_SIZECLASSES] (\<lambda>i s.
            res_bind (chunk_list n (destroy_small env) s (list_head (hp_small_free (hs_heap s) ! i))) (\<lambda>s.
              chunk_list n (destroy_small env) s (list_head (hp_small_full (hs_heap s) ! i))))))"

definition ponyint_heap_final :: "nat \<Rightarrow> henv \<Rightarrow> hstate \<Rightarrow> hstate res" where
  "ponyint_heap_final n env s =
     res_bind (chunk_list n (final_large env) s (list_head (hp_large (hs_heap s))))
       (for_each [0..<HEAP_SIZECLASSES] (\<lambda>i s.
          res_bind (chunk_list n (\<lambda>s c. final_small env s c FORCE_ALL_FINALISERS) s (list_head (hp_small_free (hs_heap s) ! i))) (\<lambda>s.
            chunk_list n (\<lambda>s c. final_small env s c FORCE_ALL_FINALISERS) s (list_head (hp_small_full (hs_heap s) ! i)))))"

definition ponyint_heap_free :: "henv \<Rightarrow> hstate \<Rightarrow> uint64_t \<Rightarrow> uint64_t \<Rightarrow> hstate res" where
  "ponyint_heap_free env s c p =
     res_bind (load s c) (\<lambda>h.
       if \<not> get_chunk_is_small_chunk h
       then if p = get_m h
            then res_bind (final_large env s c) (\<lambda>s.
              res_bind (load s c) (\<lambda>h.
                res_bind (free_block s (get_m h) (ck_size h)) (\<lambda>s.
                  res_bind (set_large_chunk_slot (h\<lparr>ck_m := 0\<rparr>) 1) (\<lambda>h. Inr (put_chunk s c h)))))
            else Inr s
       else res_bind (get_small_chunk_size h) (\<lambda>sc.
         let ext = EXTERNAL_PTR p sc
         in if p = ext
            then let slot = FIND_SLOT ext (get_m h)
                 in res_bind (if ck_finalisers h AND slot \<noteq> 0
                              then res_bind (call_final env s p) (\<lambda>s.
                                res_bind (load s c) (\<lambda>h. Inr (put_chunk s c (h\<lparr>ck_finalisers := ck_finalisers h AND NOT slot\<rparr>))))
                              else Inr s) (\<lambda>s.
                      res_bind (load s c) (\<lambda>h. Inr (put_chunk s c (h\<lparr>ck_slots := ck_slots h OR slot\<rparr>))))
            else Inr s))"

section \<open>The end of a collection\<close>

text \<open>
  The lists of the temporary heap that the sweep builds, with the memory in use.
\<close>

record swept =
  sw_free :: "uint64_t list"
  sw_full :: "uint64_t list"
  sw_destroy :: "uint64_t list"
  sw_used :: uint64_t

fun sweep_small :: "henv \<Rightarrow> uint32_t \<Rightarrow> uint64_t \<Rightarrow> uint64_t list \<Rightarrow> hstate \<times> swept \<Rightarrow> (hstate \<times> swept) res" where
  "sweep_small env emp sz [] (s, w) = Inr (s, w)"
| "sweep_small env emp sz (c # cs) (s, w) =
     res_bind (load s c) (\<lambda>h.
       pony_assert (get_chunk_is_small_chunk h)
         (res_bind (maybe_clear_chunk h) (\<lambda>h.
           let h = set_chunk_needs_clearing (h\<lparr>ck_slots := ck_slots h AND ck_shallow h\<rparr>); s = put_chunk s c h
           in res_bind
             (if ck_slots h = 0
              then Inr (s, w\<lparr>sw_full := c # sw_full w, sw_used := sw_used w + POOL_ALIGN\<rparr>)
              else if ck_slots h = emp
              then res_bind (final_small env s c FORCE_ALL_FINALISERS) (\<lambda>s. Inr (s, w\<lparr>sw_destroy := c # sw_destroy w\<rparr>))
              else res_bind (final_small env s c FORCE_NO_FINALISERS) (\<lambda>s.
                Inr (s, w\<lparr>sw_free := c # sw_free w,
                  sw_used := sw_used w + (POOL_ALIGN - of_nat (popcount32 (ck_slots h)) * sz)\<rparr>)))
             (sweep_small env emp sz cs))))"

fun sweep_large ::
  "henv \<Rightarrow> uint64_t list \<Rightarrow> hstate \<times> uint64_t list \<times> uint64_t list list \<times> uint64_t \<Rightarrow>
   (hstate \<times> uint64_t list \<times> uint64_t list list \<times> uint64_t) res" where
  "sweep_large env [] (s, list, rec, used) = Inr (s, list, rec, used)"
| "sweep_large env (c # cs) (s, list, rec, used) =
     res_bind (load s c) (\<lambda>h.
       pony_assert (\<not> get_chunk_is_small_chunk h)
         (res_bind (maybe_clear_chunk h) (\<lambda>h.
           res_bind (get_large_chunk_slot h) (\<lambda>sl. res_bind (get_large_chunk_shallow h) (\<lambda>sh.
             res_bind (set_large_chunk_slot h (sl AND sh)) (\<lambda>h.
               let h = set_chunk_needs_clearing h; s = put_chunk s c h
               in res_bind (get_large_chunk_slot h) (\<lambda>sl.
                 res_bind
                   (if sl = 0 then Inr (s, c # list, rec, used + ck_size h)
                    else res_bind (final_large env s c) (\<lambda>s.
                      let i = heap_recycle_index (ck_size h);
                          i = (if HEAP_RECYCLE_LARGE_OVERFLOW \<le> i then HEAP_RECYCLE_LARGE_OVERFLOW else i)
                      in Inr (s, list, rec[i := c # rec ! i], used)))
                   (sweep_large env cs))))))))"

text \<open>
  What finalisers allocated during the sweep: chunks without a finaliser are recycled at once, the others stay.
\<close>

fun reclaim_small :: "hstate \<Rightarrow> uint64_t list \<Rightarrow> uint64_t list \<Rightarrow> (uint64_t list \<times> uint64_t list) res" where
  "reclaim_small s [] rec = Inr ([], rec)"
| "reclaim_small s (c # cs) rec =
     res_bind (load s c) (\<lambda>h.
       if ck_finalisers h = 0 then reclaim_small s cs (c # rec)
       else res_bind (reclaim_small s cs rec) (\<lambda>(keep, rec). Inr (c # keep, rec)))"

fun reclaim_large :: "hstate \<Rightarrow> uint64_t list \<Rightarrow> uint64_t list list \<Rightarrow> (uint64_t list \<times> uint64_t list list) res" where
  "reclaim_large s [] rec = Inr ([], rec)"
| "reclaim_large s (c # cs) rec =
     res_bind (load s c) (\<lambda>h.
       res_bind (get_large_chunk_finaliser h) (\<lambda>fin.
         if fin = 0
         then let i = heap_recycle_index (ck_size h);
                  i = (if HEAP_RECYCLE_LARGE_OVERFLOW \<le> i then HEAP_RECYCLE_LARGE_OVERFLOW else i)
              in reclaim_large s cs (rec[i := c # rec ! i])
         else res_bind (reclaim_large s cs rec) (\<lambda>(keep, rec). Inr (c # keep, rec))))"

text \<open>The sweep of one size class of the temporary heap \<open>t\<close>.\<close>

definition sweep_class :: "henv \<Rightarrow> nat \<Rightarrow> hstate \<times> heap_t \<times> uint64_t \<Rightarrow> (hstate \<times> heap_t \<times> uint64_t) res" where
  "sweep_class env i = (\<lambda>(s, t, used).
     res_bind (arr_get sizeclass_empty i) (\<lambda>emp.
       let list1 = hp_small_free t ! i; list2 = hp_small_full t ! i; sz = SIZECLASS_SIZE i;
           w = \<lparr>sw_free = [], sw_full = [], sw_destroy = hp_recyclable t ! HEAP_RECYCLE_MIXED, sw_used = used\<rparr>
       in res_bind (sweep_small env emp sz list1 (s, w)) (\<lambda>(s, w).
            res_bind (sweep_small env emp sz list2 (s, w)) (\<lambda>(s, w).
              Inr (s, t\<lparr>hp_small_free := (hp_small_free t)[i := sw_free w], hp_small_full := (hp_small_full t)[i := sw_full w],
                       hp_recyclable := (hp_recyclable t)[HEAP_RECYCLE_MIXED := sw_destroy w]\<rparr>, sw_used w)))))"

text \<open>One size class of the temporary heap is put behind what is left of the real one.\<close>

definition combine_class :: "nat \<Rightarrow> hstate \<times> heap_t \<Rightarrow> (hstate \<times> heap_t) res" where
  "combine_class i = (\<lambda>(s, t).
     let hp = hs_heap s; rec = hp_recyclable t ! HEAP_RECYCLE_MIXED
     in res_bind (reclaim_small s (hp_small_free hp ! i) rec) (\<lambda>(free, rec).
          res_bind (reclaim_small s (hp_small_full hp ! i) rec) (\<lambda>(full, rec).
            Inr (upd_heap (\<lambda>hp. hp\<lparr>hp_small_free := (hp_small_free hp)[i := free @ hp_small_free t ! i],
                                  hp_small_full := (hp_small_full hp)[i := full @ hp_small_full t ! i]\<rparr>) s,
                 t\<lparr>hp_recyclable := (hp_recyclable t)[HEAP_RECYCLE_MIXED := rec]\<rparr>))))"

definition ACTOR_REFERENCES_DELETED_THRESHOLD :: uint64_t where "ACTOR_REFERENCES_DELETED_THRESHOLD = 100"

definition endgc_sweep :: "henv \<Rightarrow> hstate \<Rightarrow> (hstate \<times> heap_t \<times> uint64_t) res" where
  "endgc_sweep env s =
     (let t = (hs_heap s)\<lparr>hp_recyclable := replicate HEAP_RECYCLE_SIZECLASSES []\<rparr>;
          s = upd_heap (\<lambda>hp. hp\<lparr>hp_small_free := replicate HEAP_SIZECLASSES [], hp_small_full := replicate HEAP_SIZECLASSES [],
                                 hp_large := []\<rparr>) s
      in res_bind (for_each [0..<HEAP_SIZECLASSES] (sweep_class env) (s, t, 0)) (\<lambda>(s, t, used).
           res_bind (sweep_large env (hp_large t) (s, [], hp_recyclable t, used)) (\<lambda>(s, list, rec, used).
             Inr (s, t\<lparr>hp_large := list, hp_recyclable := rec\<rparr>, used))))"

definition endgc_combine :: "hstate \<Rightarrow> heap_t \<Rightarrow> (hstate \<times> heap_t) res" where
  "endgc_combine s t =
     res_bind (for_each [0..<HEAP_SIZECLASSES] combine_class (s, t)) (\<lambda>(s, t).
       res_bind (reclaim_large s (hp_large (hs_heap s)) (hp_recyclable t)) (\<lambda>(keep, rec).
         Inr (upd_heap (\<lambda>hp. hp\<lparr>hp_large := keep @ hp_large t\<rparr>) s, t\<lparr>hp_recyclable := rec\<rparr>)))"

definition endgc_next :: "henv \<Rightarrow> uint64_t \<Rightarrow> heap_t \<Rightarrow> heap_t" where
  "endgc_next env num_actor_references_deleted hp =
     (let next_gc = he_nextgc env (hp_used hp);
          next_gc = (if next_gc < he_initialgc env then he_initialgc env else next_gc);
          next_gc = (if num_actor_references_deleted > ACTOR_REFERENCES_DELETED_THRESHOLD \<and> next_gc > hp_next_gc hp
                     then hp_next_gc hp else next_gc)
      in hp\<lparr>hp_next_gc := next_gc\<rparr>)"

definition ponyint_heap_endgc :: "nat \<Rightarrow> henv \<Rightarrow> hstate \<Rightarrow> uint64_t \<Rightarrow> hstate res" where
  "ponyint_heap_endgc n env s num_actor_references_deleted =
     res_bind (endgc_sweep env s) (\<lambda>(s, t, used).
       res_bind (endgc_combine s t) (\<lambda>(s, t).
         res_bind (destroy_recyclable n env s) (\<lambda>s.
           res_bind (sort_large_chunk_list_by_size (hs_chunks s) (hp_recyclable t ! HEAP_RECYCLE_LARGE_OVERFLOW)) (\<lambda>sorted.
             Inr (upd_heap (\<lambda>hp. endgc_next env num_actor_references_deleted
                    (hp\<lparr>hp_recyclable := (hp_recyclable t)[HEAP_RECYCLE_LARGE_OVERFLOW := sorted], hp_used := hp_used hp + used\<rparr>)) s)))))"

end
