(* ===== verification/Heap_Inv.thy ===== *)
theory Heap_Inv imports Heap begin

text \<open>
  The invariant of the heap of an actor: where the chunks of each list are in memory, what their headers
  look like, that the page map leads to them, and what this means for the objects.
\<close>

section \<open>Lists and headers\<close>

text \<open>
  \<^verbatim>\<open>heap_lists\<close> is the five free lists, the five full lists, the large chunks and the four recycling
  lists; \<open>list_kind\<close> says what the headers in each are, in a collection and outside, \<open>mutator_kind\<close> what holds
  outside a collection in addition.
\<close>

definition no_final :: "chunk_t \<Rightarrow> bool" where
  "no_final h \<longleftrightarrow> (if bit (ck_m h) 0 then ck_finalisers h = 0 else \<not> bit (ck_m h) 4)"

definition recycle_slot :: "uint64_t \<Rightarrow> nat" where
  "recycle_slot sz = (if HEAP_RECYCLE_LARGE_OVERFLOW \<le> heap_recycle_index sz then HEAP_RECYCLE_LARGE_OVERFLOW
     else heap_recycle_index sz)"

definition list_kind :: "nat \<Rightarrow> chunk_t \<Rightarrow> bool" where
  "list_kind j h \<longleftrightarrow>
     (if j < 10 then bit (ck_m h) 0 \<and> class_of (ck_m h) = j mod 5 \<and> (\<forall>k. bit (ck_finalisers h) k \<longrightarrow> k \<in> places h) \<and> slots_in h
      else if j = 10 then \<not> bit (ck_m h) 0
      else no_final h \<and> (if j = 11 then bsize h = 1024 else \<not> bit (ck_m h) 0 \<and> recycle_slot (ck_size h) = j - 11))"

definition mutator_kind :: "nat \<Rightarrow> chunk_t \<Rightarrow> bool" where
  "mutator_kind j h \<longleftrightarrow> list_kind j h
     \<and> (if j < 5 then bit (ck_m h) 1 \<and> ck_slots h \<noteq> 0 \<and> (\<forall>k. bit (ck_slots h) k \<longrightarrow> k \<in> places h \<and> \<not> bit (ck_finalisers h) k)
        else if j < 10 then bit (ck_m h) 1 \<and> ck_slots h = 0
        else if j = 10 then bit (ck_m h) 1 \<and> \<not> bit (ck_m h) 2
        else True)"

text \<open>A header is in memory with its block, and the page map leads from each of its pages to it.\<close>

definition chunk_at :: "hstate \<Rightarrow> uint64_t \<Rightarrow> chunk_t \<Rightarrow> bool" where
  "chunk_at s c h \<longleftrightarrow> hs_chunks s c = Some h \<and> hdr_ok h \<and> hs_blocks s (get_m h) = Some (of_nat (bsize h))
     \<and> (\<forall>a. in_block (get_m h) (bsize h) a \<longrightarrow> ponyint_pagemap_get_chunk (hs_pagemap s) a = Inr c)"

definition lists_ok :: "(nat \<Rightarrow> chunk_t \<Rightarrow> bool) \<Rightarrow> hstate \<Rightarrow> uint64_t list list \<Rightarrow> bool" where
  "lists_ok P s ls \<longleftrightarrow> (\<forall>j < 15. \<forall>c \<in> set (ls ! j). c \<noteq> 0 \<and> (\<exists>h. chunk_at s c h \<and> P j h))"

definition shape_ok :: "heap_t \<Rightarrow> bool" where
  "shape_ok hp \<longleftrightarrow> length (hp_small_free hp) = 5 \<and> length (hp_small_full hp) = 5 \<and> length (hp_recyclable hp) = 4"

definition heap_inv :: "(nat \<Rightarrow> chunk_t \<Rightarrow> bool) \<Rightarrow> hstate \<Rightarrow> bool" where
  "heap_inv P s \<longleftrightarrow> shape_ok (hs_heap s) \<and> distinct (concat (heap_lists (hs_heap s))) \<and> pm_ok (hs_pagemap s)
     \<and> lists_ok P s (heap_lists (hs_heap s))
     \<and> sorted (map (chunk_size (hs_chunks s)) (hp_recyclable (hs_heap s) ! 3))"

lemma length_heap_lists [simp]: "shape_ok hp \<Longrightarrow> length (heap_lists hp) = 15"
  by (simp add: shape_ok_def heap_lists_def)

lemma heap_lists_nth:
  assumes "shape_ok hp"
  shows "i < 5 \<Longrightarrow> heap_lists hp ! i = hp_small_free hp ! i" "i < 5 \<Longrightarrow> heap_lists hp ! (5 + i) = hp_small_full hp ! i"
    "heap_lists hp ! 10 = hp_large hp" "i < 4 \<Longrightarrow> heap_lists hp ! (11 + i) = hp_recyclable hp ! i"
  using assms by (simp_all add: shape_ok_def heap_lists_def nth_append)

lemma heap_lists_upd:
  assumes "shape_ok hp"
  shows "i < 5 \<Longrightarrow> heap_lists (hp\<lparr>hp_small_free := (hp_small_free hp)[i := x]\<rparr>) = (heap_lists hp)[i := x]"
    "i < 5 \<Longrightarrow> heap_lists (hp\<lparr>hp_small_full := (hp_small_full hp)[i := x]\<rparr>) = (heap_lists hp)[5 + i := x]"
    "heap_lists (hp\<lparr>hp_large := x\<rparr>) = (heap_lists hp)[10 := x]"
    "i < 4 \<Longrightarrow> heap_lists (hp\<lparr>hp_recyclable := (hp_recyclable hp)[i := x]\<rparr>) = (heap_lists hp)[11 + i := x]"
    "heap_lists (hp\<lparr>hp_used := u\<rparr>) = heap_lists hp" "heap_lists (hp\<lparr>hp_next_gc := u\<rparr>) = heap_lists hp"
  using assms by (simp_all add: shape_ok_def heap_lists_def list_update_append)

lemma shape_ok_upd [simp]:
  "shape_ok (hp\<lparr>hp_small_free := (hp_small_free hp)[i := x]\<rparr>) = shape_ok hp"
  "shape_ok (hp\<lparr>hp_small_full := (hp_small_full hp)[i := x]\<rparr>) = shape_ok hp"
  "shape_ok (hp\<lparr>hp_large := x\<rparr>) = shape_ok hp"
  "shape_ok (hp\<lparr>hp_recyclable := (hp_recyclable hp)[i := x]\<rparr>) = shape_ok hp"
  "shape_ok (hp\<lparr>hp_used := u\<rparr>) = shape_ok hp" "shape_ok (hp\<lparr>hp_next_gc := u\<rparr>) = shape_ok hp"
  by (simp_all add: shape_ok_def)

text \<open>Replacing one list changes the chunks of the heap by the difference.\<close>

lemma mset_concat_update:
  "j < length ls \<Longrightarrow> mset (concat (ls[j := xs])) + mset (ls ! j) = mset (concat ls) + mset xs"
proof (induction ls arbitrary: j)
  case (Cons l ls)
  then show ?case by (cases j) (simp_all add: union_ac)
qed simp

lemma distinct_concat_update:
  assumes "distinct (concat ls)" "j < length ls" "distinct xs" "set xs \<inter> set (concat ls) \<subseteq> set (ls ! j)"
  shows "distinct (concat (ls[j := xs]))"
proof -
  have "distinct (A @ b @ C) \<Longrightarrow> set xs \<inter> (set A \<union> set b \<union> set C) \<subseteq> set b \<Longrightarrow> distinct (A @ xs @ C)" for A b C
    using assms(3) by auto
  moreover have "ls = take j ls @ ls ! j # drop (Suc j) ls"
    using assms(2) by (simp add: id_take_nth_drop)
  then have "concat ls = concat (take j ls) @ ls ! j @ concat (drop (Suc j) ls)"
    by (metis concat.simps(2) concat_append)
  moreover have "concat (ls[j := xs]) = concat (take j ls) @ xs @ concat (drop (Suc j) ls)"
    using assms(2) by (simp add: upd_conv_take_nth_drop)
  ultimately show ?thesis
    using assms(1,4) by (simp add: Un_assoc del: set_concat distinct_append)
qed

lemma in_lists_distinct:
  "distinct (concat ls) \<Longrightarrow> i < length ls \<Longrightarrow> j < length ls \<Longrightarrow> c \<in> set (ls ! i) \<Longrightarrow> c \<in> set (ls ! j) \<Longrightarrow> i = j"
proof (induction ls arbitrary: i j)
  case (Cons l ls)
  have "c \<in> set (ls ! n) \<Longrightarrow> n < length ls \<Longrightarrow> c \<notin> set l" for n
  proof
    assume "c \<in> set (ls ! n)" "n < length ls" "c \<in> set l"
    then have "c \<in> set l \<inter> set (concat ls)"
      by (auto intro!: bexI [of _ "ls ! n"])
    moreover have "set l \<inter> set (concat ls) = {}"
      using Cons.prems(1) by simp
    ultimately show False by blast
  qed
  with Cons show ?case
    by (cases i; cases j) auto
qed simp

section \<open>Objects\<close>

definition in_use :: "chunk_t \<Rightarrow> nat \<Rightarrow> bool" where
  "in_use h k \<longleftrightarrow> (if bit (ck_m h) 0 then \<not> bit (ck_slots h) k else \<not> bit (ck_m h) 2)"

definition chunk_objs :: "chunk_t \<Rightarrow> (uint64_t \<times> nat) set" where
  "chunk_objs h = (\<lambda>k. (oaddr h k, osize h)) ` {k \<in> places h. in_use h k}"

definition active :: "heap_t \<Rightarrow> uint64_t set" where
  "active hp = (\<Union>j < 11. set (heap_lists hp ! j))"

definition heap_objs :: "hstate \<Rightarrow> (uint64_t \<times> nat) set" where
  "heap_objs s = (\<Union>c \<in> active (hs_heap s). case hs_chunks s c of None \<Rightarrow> {} | Some h \<Rightarrow> chunk_objs h)"

lemma oaddr_block:
  assumes "hdr_ok h" "k \<in> places h"
  shows "unat (oaddr h k) = unat (get_m h) + (if bit (ck_m h) 0 then 32 * k else 0)"
    "unat (oaddr h k) + osize h \<le> unat (get_m h) + bsize h" "0 < osize h"
proof -
  have small: "k < 32 \<and> k mod 2 ^ class_of (ck_m h) = 0 \<and> class_of (ck_m h) < 5 \<and> unat (get_m h) + 1024 \<le> 2 ^ 48"
    if "bit (ck_m h) 0"
    using assms that by (simp add: places_def hdr_ok_def bsize_def bit_sizeclass_empty)
  show u: "unat (oaddr h k) = unat (get_m h) + (if bit (ck_m h) 0 then 32 * k else 0)"
    using small by (auto simp: oaddr_def unat_word_ariths unat_of_nat)
  show "0 < osize h"
    using assms by (auto simp: osize_def hdr_ok_def)
  have "32 * k + 32 * 2 ^ class_of (ck_m h) \<le> 1024" if "bit (ck_m h) 0"
  proof -
    have "k < 32" "k mod 2 ^ class_of (ck_m h) = 0" "class_of (ck_m h) \<in> {0, 1, 2, 3, 4}"
      using small [OF that] by auto
    then have "k + 2 ^ class_of (ck_m h) \<le> 32"
      by auto
    then show ?thesis by simp
  qed
  then show "unat (oaddr h k) + osize h \<le> unat (get_m h) + bsize h"
    using assms u by (auto simp: osize_def bsize_def places_def)
qed


lemma places_apart:
  assumes "hdr_ok h" "j \<in> places h" "k \<in> places h" "j < k"
  shows "unat (oaddr h j) + osize h \<le> unat (oaddr h k)"
proof -
  have b: "bit (ck_m h) 0"
    using assms(2-4) by (auto simp: places_def split: if_splits)
  then have "j mod 2 ^ class_of (ck_m h) = 0" "k mod 2 ^ class_of (ck_m h) = 0"
    using assms by (auto simp: places_def hdr_ok_def bit_sizeclass_empty)
  then obtain a c where "j = 2 ^ class_of (ck_m h) * a" "k = 2 ^ class_of (ck_m h) * c"
    by (metis mod_eq_0_iff_dvd dvd_def)
  moreover have "2 ^ class_of (ck_m h) * a + 2 ^ class_of (ck_m h) \<le> 2 ^ class_of (ck_m h) * c"
    if "2 ^ class_of (ck_m h) * a < 2 ^ class_of (ck_m h) * c"
    using that mult_le_mono2 [of "Suc a" c "2 ^ class_of (ck_m h)"] by simp
  ultimately have "j + 2 ^ class_of (ck_m h) \<le> k"
    using assms(4) by simp
  then show ?thesis
    using b oaddr_block(1) [OF assms(1,2)] oaddr_block(1) [OF assms(1,3)] by (simp add: osize_def)
qed

lemma hslot_iff:
  assumes "hdr_ok h" "in_block (get_m h) (bsize h) p" "k \<in> places h"
  shows "hslot h p = k \<longleftrightarrow> in_block (oaddr h k) (osize h) p"
proof (cases "bit (ck_m h) 0")
  case False
  then show ?thesis
    using assms by (simp add: hslot_def places_def oaddr_def osize_def bsize_def)
next
  case True
  let ?n = "2 ^ class_of (ck_m h) :: nat"
  have c: "class_of (ck_m h) < 5" "k mod ?n = 0"
    using assms True by (auto simp: hdr_ok_def places_def bit_sizeclass_empty)
  then obtain a where a: "k = ?n * a"
    by (metis mod_eq_0_iff_dvd dvd_def)
  define q where "q = unat p - unat (get_m h)"
  have p: "unat p = unat (get_m h) + q"
    using assms(2) by (simp add: q_def in_block_def)
  have "hslot h p = q div (32 * ?n) * ?n"
    using True by (simp add: hslot_def slot_of_def q_def)
  moreover have "in_block (oaddr h k) (osize h) p \<longleftrightarrow> a * (32 * ?n) \<le> q \<and> q < (a + 1) * (32 * ?n)"
    using True oaddr_block(1) [OF assms(1,3)] p by (auto simp: in_block_def osize_def a algebra_simps)
  moreover have "a * (32 * ?n) \<le> q \<and> q < (a + 1) * (32 * ?n) \<longleftrightarrow> q div (32 * ?n) = a"
    by (metis Suc_eq_plus1 div_nat_eqI div_less_iff_less_mult dividend_less_times_div div_times_less_eq_dividend lessI
        mult.commute zero_less_numeral zero_less_power nat_0_less_mult_iff)
  ultimately show ?thesis
    by (simp add: a)
qed

text \<open>Objects of the heap do not overlap.\<close>

lemma active_chunk:
  assumes "heap_inv P s" "c \<in> active (hs_heap s)"
  shows "\<exists>h. chunk_at s c h"
proof -
  obtain j where "j < 11" "c \<in> set (heap_lists (hs_heap s) ! j)"
    using assms(2) by (auto simp: active_def)
  moreover from this(1) have "j < 15" by simp
  ultimately show ?thesis
    using assms(1) unfolding heap_inv_def lists_ok_def by blast
qed

lemma chunk_of_obj:
  assumes "heap_inv P s" "(a, n) \<in> heap_objs s"
  obtains c h k where "c \<in> active (hs_heap s)" "chunk_at s c h" "k \<in> places h" "in_use h k" "a = oaddr h k" "n = osize h"
proof -
  obtain c h where c: "c \<in> active (hs_heap s)" "hs_chunks s c = Some h" "(a, n) \<in> chunk_objs h"
    using assms(2) by (auto simp: heap_objs_def split: option.splits)
  moreover have "chunk_at s c h"
    using active_chunk [OF assms(1) c(1)] c(2) by (auto simp: chunk_at_def)
  ultimately show ?thesis
    using that by (auto simp: chunk_objs_def)
qed

lemma heap_objs_apart:
  assumes "heap_inv P s" "(a, n) \<in> heap_objs s" "(b, m) \<in> heap_objs s" "(a, n) \<noteq> (b, m)"
  shows "unat a + n \<le> unat b \<or> unat b + m \<le> unat a"
proof -
  obtain c h k where a: "chunk_at s c h" "k \<in> places h" "a = oaddr h k" "n = osize h"
    using chunk_of_obj [OF assms(1,2)] by metis
  obtain d g l where b: "chunk_at s d g" "l \<in> places g" "b = oaddr g l" "m = osize g"
    using chunk_of_obj [OF assms(1,3)] by metis
  have ok: "hdr_ok h" "hdr_ok g"
    using a b by (simp_all add: chunk_at_def)
  show ?thesis
  proof (cases "c = d")
    case True
    then have hg: "h = g"
      using a(1) b(1) by (simp add: chunk_at_def)
    then have "k \<noteq> l"
      using a b assms(4) by auto
    then show ?thesis
      using places_apart [OF ok(1) a(2)] places_apart [OF ok(2) b(2)] a(2-4) b(2-4) hg by (metis linorder_neqE_nat)
  next
    case False
    show ?thesis
    proof (rule ccontr)
      assume "\<not> ?thesis"
      then have ov: "unat b < unat a + n" "unat a < unat b + m" by auto
      define x where "x = (if unat a \<le> unat b then b else a)"
      have "in_block a n x" "in_block b m x"
        using ov oaddr_block(3) [OF ok(1) a(2)] oaddr_block(3) [OF ok(2) b(2)] a(4) b(4) by (auto simp: x_def in_block_def)
      then have "in_block (get_m h) (bsize h) x" "in_block (get_m g) (bsize g) x"
        using oaddr_block(1,2) [OF ok(1) a(2)] oaddr_block(1,2) [OF ok(2) b(2)] a(3,4) b(3,4) by (auto simp: in_block_def)
      then show False
        using a(1) b(1) False by (auto simp: chunk_at_def)
    qed
  qed
qed

section \<open>Moving a chunk between lists\<close>

text \<open>A step that replaces the header of one chunk, keeps its block, and changes the lists.\<close>

definition relist :: "hstate \<Rightarrow> uint64_t \<Rightarrow> chunk_t \<Rightarrow> heap_t \<Rightarrow> hstate" where
  "relist s c h hp = s\<lparr>hs_chunks := (hs_chunks s)(c \<mapsto> h), hs_heap := hp\<rparr>"

lemma chunk_at_relist:
  "chunk_at s d g \<Longrightarrow> d \<noteq> c \<Longrightarrow> chunk_at (relist s c h hp) d g"
  "chunk_at s c h0 \<Longrightarrow> hdr_ok h \<Longrightarrow> get_m h = get_m h0 \<Longrightarrow> bsize h = bsize h0 \<Longrightarrow> chunk_at (relist s c h hp) c h"
  by (simp_all add: chunk_at_def relist_def)

lemma heap_inv_relist:
  assumes inv: "heap_inv P s" and c: "chunk_at s c h0" "c \<noteq> 0" and h: "hdr_ok h" "get_m h = get_m h0" "bsize h = bsize h0"
    and hp: "shape_ok hp" "distinct (concat (heap_lists hp))"
    and others: "\<And>j d. j < 15 \<Longrightarrow> d \<in> set (heap_lists hp ! j) \<Longrightarrow> d \<noteq> c \<Longrightarrow> d \<in> set (heap_lists (hs_heap s) ! j)"
    and this_one: "\<And>j. j < 15 \<Longrightarrow> c \<in> set (heap_lists hp ! j) \<Longrightarrow> P j h"
    and srt: "c \<notin> set (hp_recyclable hp ! 3)" "sorted (map (chunk_size (hs_chunks s)) (hp_recyclable hp ! 3))"
  shows "heap_inv P (relist s c h hp)"
proof -
  have "lists_ok P (relist s c h hp) (heap_lists hp)"
    unfolding lists_ok_def
  proof (intro allI impI ballI)
    fix j d assume j: "j < 15" "d \<in> set (heap_lists hp ! j)"
    show "d \<noteq> 0 \<and> (\<exists>h'. chunk_at (relist s c h hp) d h' \<and> P j h')"
    proof (cases "d = c")
      case True
      then show ?thesis
        using c chunk_at_relist(2) [OF c(1) h] this_one j by blast
    next
      case False
      then have "d \<noteq> 0 \<and> (\<exists>h'. chunk_at s d h' \<and> P j h')"
        using inv others [OF j False] j(1) unfolding heap_inv_def lists_ok_def by blast
      then show ?thesis
        using chunk_at_relist(1) False by blast
    qed
  qed
  moreover have "map (chunk_size (hs_chunks (relist s c h hp))) (hp_recyclable hp ! 3) = map (chunk_size (hs_chunks s)) (hp_recyclable hp ! 3)"
    using srt(1) by (auto simp: relist_def chunk_size_def)
  then have "sorted (map (chunk_size (hs_chunks (relist s c h hp))) (hp_recyclable hp ! 3))"
    using srt(2) by metis
  ultimately show ?thesis
    using inv hp by (simp add: heap_inv_def relist_def)
qed

lemma heap_objs_relist:
  "heap_objs (relist s c h hp) =
     (\<Union>d \<in> active hp - {c}. case hs_chunks s d of None \<Rightarrow> {} | Some g \<Rightarrow> chunk_objs g) \<union> (if c \<in> active hp then chunk_objs h else {})"
proof -
  have "(\<Union>d \<in> active hp. case ((hs_chunks s)(c \<mapsto> h)) d of None \<Rightarrow> {} | Some g \<Rightarrow> chunk_objs g)
      = (\<Union>d \<in> active hp. if d = c then chunk_objs h else case hs_chunks s d of None \<Rightarrow> {} | Some g \<Rightarrow> chunk_objs g)"
    by (rule SUP_cong) auto
  also have "\<dots> = (\<Union>d \<in> active hp - {c}. case hs_chunks s d of None \<Rightarrow> {} | Some g \<Rightarrow> chunk_objs g) \<union> (if c \<in> active hp then chunk_objs h else {})"
    by (auto split: if_splits)
  finally show ?thesis
    by (simp add: heap_objs_def relist_def)
qed

lemma heap_objs_split:
  "hs_chunks s c = Some h \<Longrightarrow> c \<in> active (hs_heap s) \<Longrightarrow> heap_objs s =
     (\<Union>d \<in> active (hs_heap s) - {c}. case hs_chunks s d of None \<Rightarrow> {} | Some g \<Rightarrow> chunk_objs g) \<union> chunk_objs h"
  by (force simp: heap_objs_def)

lemma heap_objs_other:
  "c \<notin> active (hs_heap s) \<Longrightarrow> heap_objs s = (\<Union>d \<in> active (hs_heap s) - {c}. case hs_chunks s d of None \<Rightarrow> {} | Some g \<Rightarrow> chunk_objs g)"
  by (simp add: heap_objs_def)

lemma distinct_concat_nth: "distinct (concat ls) \<Longrightarrow> j < length ls \<Longrightarrow> distinct (ls ! j)"
  by (induction ls arbitrary: j) (auto simp: nth_Cons split: nat.splits)

lemma inv_place:
  assumes "heap_inv P s" "j < 15" "c \<in> set (heap_lists (hs_heap s) ! j)"
  obtains h where "chunk_at s c h" "P j h" "hs_chunks s c = Some h" "c \<noteq> 0" "hdr_ok h"
  using assms unfolding heap_inv_def lists_ok_def chunk_at_def by metis

lemma active_cong: "(\<And>j. j < 11 \<Longrightarrow> heap_lists hp' ! j = heap_lists hp ! j) \<Longrightarrow> active hp' = active hp"
  by (simp add: active_def)

lemma only_in:
  assumes "heap_inv P s" "j < 15" "c \<in> set (heap_lists (hs_heap s) ! j)"
  shows "i < 15 \<Longrightarrow> c \<in> set (heap_lists (hs_heap s) ! i) \<longleftrightarrow> i = j" "c \<in> active (hs_heap s) \<longleftrightarrow> j < 11"
proof -
  have d: "distinct (concat (heap_lists (hs_heap s)))" "length (heap_lists (hs_heap s)) = 15"
    using assms(1) by (simp_all add: heap_inv_def)
  show *: "i < 15 \<Longrightarrow> c \<in> set (heap_lists (hs_heap s) ! i) \<longleftrightarrow> i = j" for i
    using in_lists_distinct [OF d(1), of i j c] assms(2,3) d(2) by auto
  show "c \<in> active (hs_heap s) \<longleftrightarrow> j < 11"
    using * assms by (force simp: active_def)
qed

section \<open>Allocating a slot\<close>

lemma views_upd [simp]:
  "bsize (h\<lparr>ck_slots := x\<rparr>) = bsize h" "bsize (h\<lparr>ck_finalisers := x\<rparr>) = bsize h" "bsize (h\<lparr>ck_shallow := x\<rparr>) = bsize h"
  "hdr_ok (h\<lparr>ck_slots := x\<rparr>) = hdr_ok h" "hdr_ok (h\<lparr>ck_finalisers := x\<rparr>) = hdr_ok h" "hdr_ok (h\<lparr>ck_shallow := x\<rparr>) = hdr_ok h"
  "places (h\<lparr>ck_slots := x\<rparr>) = places h" "places (h\<lparr>ck_finalisers := x\<rparr>) = places h" "places (h\<lparr>ck_shallow := x\<rparr>) = places h"
  "oaddr (h\<lparr>ck_slots := x\<rparr>) = oaddr h" "oaddr (h\<lparr>ck_finalisers := x\<rparr>) = oaddr h" "oaddr (h\<lparr>ck_shallow := x\<rparr>) = oaddr h"
  "osize (h\<lparr>ck_slots := x\<rparr>) = osize h" "osize (h\<lparr>ck_finalisers := x\<rparr>) = osize h" "osize (h\<lparr>ck_shallow := x\<rparr>) = osize h"
  by (simp_all add: bsize_def hdr_ok_def places_def oaddr_def osize_def fun_eq_iff)

lemma ctz32_bit:
  assumes "w \<noteq> 0"
  shows "ctz32 w < 32" "bit w (ctz32 w)" "j < ctz32 w \<Longrightarrow> \<not> bit w j"
proof -
  have ex: "\<exists>k < 32. bit w k"
  proof (rule ccontr)
    assume "\<not> ?thesis"
    then have "w = 0"
      by (intro bit_word_eqI) auto
    with assms show False by simp
  qed
  let ?l = "takeWhile (\<lambda>i. \<not> bit w i) [0..<32]"
  have len: "length ?l < 32"
  proof (rule ccontr)
    assume "\<not> ?thesis"
    then have "?l = [0..<32]"
      using takeWhile_eq_take [of "\<lambda>i. \<not> bit w i" "[0..<32]"] by simp
    then show False
      using ex by (metis (no_types, lifting) takeWhile_eq_all_conv atLeastLessThan_iff set_upt zero_le)
  qed
  then show "ctz32 w < 32" by (simp add: ctz32_def)
  show "bit w (ctz32 w)"
    using nth_length_takeWhile [of "\<lambda>i. \<not> bit w i" "[0..<32]"] len by (simp add: ctz32_def)
  show "j < ctz32 w \<Longrightarrow> \<not> bit w j"
    using takeWhile_nth [of j "\<lambda>i. \<not> bit w i" "[0..<32]"] len set_takeWhileD [of "?l ! j" "\<lambda>i. \<not> bit w i" "[0..<32]"]
      nth_mem [of j ?l]
    by (auto simp: ctz32_def)
qed

lemma slot_addr_oaddr: "bit (ck_m h) 0 \<Longrightarrow> slot_addr (get_m h) k = oaddr h k"
  by (simp add: slot_addr_def oaddr_def HEAP_MINBITS_def push_bit_eq_mult)

lemma oaddr_inj:
  assumes "hdr_ok h" "j \<in> places h" "k \<in> places h" "oaddr h j = oaddr h k"
  shows "j = k"
  using places_apart [OF assms(1,2,3)] places_apart [OF assms(1,3,2)] oaddr_block(3) [OF assms(1,2)] assms(4)
  by (cases j k rule: linorder_cases) auto

lemma chunk_objs_insert:
  assumes "hdr_ok h" "same_hdr h h' \<or> places h' = places h \<and> oaddr h' = oaddr h \<and> osize h' = osize h" "k \<in> places h" "\<not> in_use h k"
    "\<And>j. j \<in> places h \<Longrightarrow> in_use h' j \<longleftrightarrow> in_use h j \<or> j = k"
  shows "chunk_objs h' = insert (oaddr h k, osize h) (chunk_objs h)" "(oaddr h k, n) \<notin> chunk_objs h"
proof -
  have v: "places h' = places h" "oaddr h' = oaddr h" "osize h' = osize h"
    using assms(2) same_hdr_views [of h h'] by auto
  show "chunk_objs h' = insert (oaddr h k, osize h) (chunk_objs h)"
    using assms(3,5) by (auto simp: chunk_objs_def v)
  show "(oaddr h k, n) \<notin> chunk_objs h"
    using assms(1,3,4) by (auto simp: chunk_objs_def dest: oaddr_inj)
qed


lemma bit_or_track:
  assumes "track = TRACK_NO_FINALISERS \<or> track = TRACK_ALL_FINALISERS" "k < 32"
  shows "bit (f OR track AND 2 ^ k) j \<longleftrightarrow> bit f j \<or> j = k \<and> track = TRACK_ALL_FINALISERS"
proof -
  have "(0xFFFFFFFF :: uint32_t) = - 1" by simp
  then have "track = 0 \<or> track = - 1"
    using assms(1) unfolding TRACK_NO_FINALISERS_def TRACK_ALL_FINALISERS_def by metis
  then show ?thesis
    using assms(2) by (cases "j < 32") (auto simp: bit_simps TRACK_ALL_FINALISERS_def dest: bit_imp_le_length)
qed

text \<open>What an allocation does to the objects: one more, nowhere near the others, and its finaliser noted.\<close>

definition allocates :: "hstate \<Rightarrow> nat \<Rightarrow> bool \<Rightarrow> uint64_t \<Rightarrow> hstate \<Rightarrow> bool" where
  "allocates s n fin m s' \<longleftrightarrow> heap_objs s' = insert (m, n) (heap_objs s) \<and> (\<forall>k. (m, k) \<notin> heap_objs s) \<and> m \<noteq> 0
     \<and> (\<exists>c h k. c \<in> active (hs_heap s') \<and> chunk_at s' c h \<and> k \<in> places h \<and> oaddr h k = m \<and> has_final h k = fin)"

lemma not_in_other_chunk:
  assumes "heap_inv P s" "chunk_at s c h" "k \<in> places h" "(oaddr h k, n) \<in> heap_objs s"
  shows "c \<in> active (hs_heap s) \<and> (oaddr h k, n) \<in> chunk_objs h"
proof -
  obtain d g l where d: "d \<in> active (hs_heap s)" "chunk_at s d g" "l \<in> places g" "in_use g l" "oaddr h k = oaddr g l" "n = osize g"
    using chunk_of_obj [OF assms(1,4)] by metis
  have "hdr_ok h" "hdr_ok g"
    using assms(2) d(2) by (simp_all add: chunk_at_def)
  then have "in_block (get_m h) (bsize h) (oaddr h k)" "in_block (get_m g) (bsize g) (oaddr h k)"
    using oaddr_block [of h k] oaddr_block [of g l] assms(3) d(3,5) by (auto simp: in_block_def)
  then have "c = d"
    using assms(2) d(2) by (auto simp: chunk_at_def)
  then show ?thesis
    using d assms(2) by (auto simp: chunk_at_def chunk_objs_def)
qed

lemma alloc_small_slot_spec:
  assumes inv: "heap_inv mutator_kind s" and i: "i < 5" and free: "hp_small_free (hs_heap s) ! i = c # cs"
    and track: "track = TRACK_NO_FINALISERS \<or> track = TRACK_ALL_FINALISERS"
  shows "\<exists>m s'. alloc_small_slot s i track c cs = Inr (m, s') \<and> heap_inv mutator_kind s'
    \<and> allocates s (32 * 2 ^ i) (track = TRACK_ALL_FINALISERS) m s'"
proof -
  let ?hp = "hs_heap s"
  have sh: "shape_ok ?hp" and dist: "distinct (concat (heap_lists ?hp))"
    using inv by (simp_all add: heap_inv_def)
  have li: "heap_lists ?hp ! i = c # cs"
    using heap_lists_nth(1) [OF sh i] free by simp
  then have ci: "c \<in> set (heap_lists ?hp ! i)" by simp
  obtain h where h: "chunk_at s c h" "mutator_kind i h" "hs_chunks s c = Some h" "c \<noteq> 0" "hdr_ok h"
    using inv_place [OF inv _ ci] i by auto
  define k where "k = ctz32 (ck_slots h)"
  define h' where "h' = h\<lparr>ck_slots := ck_slots h AND NOT (2 ^ k), ck_finalisers := ck_finalisers h OR track AND 2 ^ k\<rparr>"
  have hk: "bit (ck_m h) 0" "class_of (ck_m h) = i" "bit (ck_m h) 1" "ck_slots h \<noteq> 0"
    "\<And>j. bit (ck_slots h) j \<Longrightarrow> j \<in> places h \<and> \<not> bit (ck_finalisers h) j" "\<And>j. bit (ck_finalisers h) j \<Longrightarrow> j \<in> places h"
    using h(2) i by (auto simp: mutator_kind_def list_kind_def)
  note k = ctz32_bit [OF hk(4), folded k_def]
  have kp: "k \<in> places h" and free_k: "\<not> in_use h k"
    using hk(1,5) k(2) by (auto simp: in_use_def)
  have v: "places h' = places h" "oaddr h' = oaddr h" "osize h' = osize h" "hdr_ok h'" "get_m h' = get_m h" "bsize h' = bsize h"
    using h(5) by (simp_all add: h'_def)
  have use: "in_use h' j \<longleftrightarrow> in_use h j \<or> j = k" for j
    using hk(1) k(1) by (auto simp: in_use_def h'_def bit_clear_slot)
  have fin: "bit (ck_finalisers h') j \<longleftrightarrow> bit (ck_finalisers h) j \<or> j = k \<and> track = TRACK_ALL_FINALISERS" for j
    using bit_or_track [OF track k(1)] by (simp add: h'_def)
  have lk: "list_kind j h'" if "j mod 5 = i" "j < 10" for j
    using that hk fin kp by (auto simp: list_kind_def h'_def places_def slots_in_def)
  have mk: "if ck_slots h' = 0 then mutator_kind (5 + i) h' else mutator_kind i h'"
    using i hk lk [of i] lk [of "5 + i"] fin k(1) v(1) by (auto simp: mutator_kind_def h'_def bit_clear_slot)
  define hp where "hp = (if ck_slots h' = 0 then ?hp\<lparr>hp_small_free := (hp_small_free ?hp)[i := cs],
      hp_small_full := (hp_small_full ?hp)[i := c # hp_small_full ?hp ! i]\<rparr> else ?hp)"
  have ls: "heap_lists hp = (if ck_slots h' = 0 then (heap_lists ?hp)[i := cs, 5 + i := c # heap_lists ?hp ! (5 + i)] else heap_lists ?hp)"
    using i sh heap_lists_upd(2) [of "?hp\<lparr>hp_small_free := (hp_small_free ?hp)[i := cs]\<rparr>" i "c # hp_small_full ?hp ! i"]
      heap_lists_upd(1) [OF sh i] heap_lists_nth(2) [OF sh i] by (simp add: hp_def)
  have call: "alloc_small_slot s i track c cs = Inr (oaddr h k, relist s c h' hp)"
    using h(3) by (auto simp: alloc_small_slot_def load_def load_chunk_def Let_def slot_addr_oaddr [OF hk(1)] relist_def hp_def
        put_chunk_def upd_heap_def k_def h'_def)
  have len: "length (heap_lists ?hp) = 15"
    using sh by simp
  have only: "\<And>j. j < 15 \<Longrightarrow> c \<in> set (heap_lists ?hp ! j) \<longleftrightarrow> j = i"
    using only_in(1) [OF inv _ ci] i by simp
  have ms: "mset (concat (heap_lists hp)) = mset (concat (heap_lists ?hp))"
    using mset_concat_update [of i "heap_lists ?hp" cs] i len li
      mset_concat_update [of "5 + i" "(heap_lists ?hp)[i := cs]" "c # heap_lists ?hp ! (5 + i)"]
    by (auto simp: ls)
  have inv': "heap_inv mutator_kind (relist s c h' hp)"
  proof (rule heap_inv_relist [OF inv h(1,4) v(4-6)])
    show "shape_ok hp" using sh by (simp add: hp_def shape_ok_def)
    show "distinct (concat (heap_lists hp))"
      using dist ms mset_eq_imp_distinct_iff by blast
    show "d \<in> set (heap_lists ?hp ! j)" if "j < 15" "d \<in> set (heap_lists hp ! j)" "d \<noteq> c" for j d
      using that i len li by (auto simp: ls nth_list_update split: if_splits)
    have "c \<notin> set cs"
      using distinct_concat_nth [OF dist, of i] i len li by simp
    then show "mutator_kind j h'" if "j < 15" "c \<in> set (heap_lists hp ! j)" for j
      using that mk only [OF that(1)] i len li by (auto simp: ls nth_list_update split: if_splits)
    have r: "hp_recyclable hp = hp_recyclable ?hp"
      by (simp add: hp_def)
    show "c \<notin> set (hp_recyclable hp ! 3)"
      using only [of 14] i heap_lists_nth(4) [OF sh, of 3] by (simp add: r)
    show "sorted (map (chunk_size (hs_chunks s)) (hp_recyclable hp ! 3))"
      using inv by (simp add: r heap_inv_def)
  qed
  have act: "active hp = active ?hp"
  proof -
    have "set (heap_lists hp ! i) \<union> set (heap_lists hp ! (5 + i)) = set (heap_lists ?hp ! i) \<union> set (heap_lists ?hp ! (5 + i))"
      using i len li by (auto simp: ls nth_list_update)
    moreover have "heap_lists hp ! j = heap_lists ?hp ! j" if "j \<noteq> i" "j \<noteq> 5 + i" for j
      using that by (simp add: ls)
    moreover have "{..<11} = insert i (insert (5 + i) ({..<11} - {i, 5 + i}))"
      using i by auto
    then have "(\<Union>j < 11. f j) = (f i \<union> f (5 + i)) \<union> (\<Union>j \<in> {..<11} - {i, 5 + i}. f j)" for f :: "nat \<Rightarrow> uint64_t set"
      by (metis UN_insert Un_assoc)
    ultimately show ?thesis
      unfolding active_def by simp
  qed
  have ca: "c \<in> active ?hp"
    using only_in(2) [OF inv _ ci] i by simp
  have co: "chunk_objs h' = insert (oaddr h k, osize h) (chunk_objs h)" "\<And>n. (oaddr h k, n) \<notin> chunk_objs h"
    using chunk_objs_insert [OF h(5), of h' k] v kp free_k use by simp_all
  have "heap_objs (relist s c h' hp) = insert (oaddr h k, osize h) (heap_objs s)"
    using heap_objs_split [OF h(3) ca] ca co(1) by (simp add: heap_objs_relist act)
  moreover have "\<forall>n. (oaddr h k, n) \<notin> heap_objs s"
    using not_in_other_chunk [OF inv h(1) kp] co(2) by blast
  moreover have "oaddr h k \<noteq> 0"
    using oaddr_block(1) [OF h(5) kp] h(5) by (auto simp: hdr_ok_def word_unat_eq_iff)
  moreover have "chunk_at (relist s c h' hp) c h'"
    using chunk_at_relist(2) [OF h(1) v(4-6)] .
  moreover have "has_final h' k = (track = TRACK_ALL_FINALISERS)"
    using fin [of k] hk(1,5) k(2) by (auto simp: has_final_def h'_def)
  moreover have "osize h = 32 * 2 ^ i"
    using hk by (simp add: osize_def)
  ultimately have "allocates s (32 * 2 ^ i) (track = TRACK_ALL_FINALISERS) (oaddr h k) (relist s c h' hp)"
    using ca kp v by (auto simp: allocates_def relist_def act intro!: exI [of _ c] exI [of _ h'] exI [of _ k])
  then show ?thesis
    using call inv' by blast
qed

section \<open>Taking a chunk into use\<close>

definition block_at :: "hstate \<Rightarrow> uint64_t \<Rightarrow> uint64_t \<Rightarrow> nat \<Rightarrow> bool" where
  "block_at s c m n \<longleftrightarrow> unat m mod 1024 = 0 \<and> m \<noteq> 0 \<and> unat m + n \<le> 2 ^ 48 \<and> hs_blocks s m = Some (of_nat n)
     \<and> (\<forall>a. in_block m n a \<longrightarrow> ponyint_pagemap_get_chunk (hs_pagemap s) a = Inr c)"

lemma chunk_at_block: "chunk_at s c h \<longleftrightarrow> hs_chunks s c = Some h \<and> hdr_ok h \<and> block_at s c (get_m h) (bsize h)"
  by (auto simp: chunk_at_def block_at_def hdr_ok_def)

lemma not_in_concat: "length ls = 15 \<Longrightarrow> n \<notin> set (concat ls) \<longleftrightarrow> (\<forall>j < 15. n \<notin> set (ls ! j))"
  by (metis (no_types, lifting) UN_iff in_set_conv_nth set_concat)

lemma heap_inv_weaken:
  assumes "heap_inv P s" "shape_ok hp" "distinct (concat (heap_lists hp))"
    "\<And>j d. j < 15 \<Longrightarrow> d \<in> set (heap_lists hp ! j) \<Longrightarrow> d \<in> set (heap_lists (hs_heap s) ! j)"
    "sorted (map (chunk_size (hs_chunks s)) (hp_recyclable hp ! 3))"
  shows "heap_inv P (s\<lparr>hs_heap := hp\<rparr>)"
proof -
  have "lists_ok P (s\<lparr>hs_heap := hp\<rparr>) (heap_lists hp)"
    using assms(1,4) unfolding heap_inv_def lists_ok_def chunk_at_def by auto
  then show ?thesis
    using assms by (simp add: heap_inv_def)
qed

lemma heap_inv_add:
  assumes inv: "heap_inv P s" and n: "n \<noteq> 0" "n \<notin> set (concat (heap_lists (hs_heap s)))"
    and h: "block_at s n (get_m h) (bsize h)" "hdr_ok h" and j: "j < 11" "P j h"
    and hp: "shape_ok hp" "heap_lists hp = (heap_lists (hs_heap s))[j := n # heap_lists (hs_heap s) ! j]"
      "hp_recyclable hp = hp_recyclable (hs_heap s)"
  shows "heap_inv P (relist s n h hp)" "heap_objs (relist s n h hp) = heap_objs s \<union> chunk_objs h" "chunk_at (relist s n h hp) n h"
    "n \<in> active hp"
proof -
  let ?ls = "heap_lists (hs_heap s)"
  have len: "length ?ls = 15" and dist: "distinct (concat ?ls)"
    using inv by (simp_all add: heap_inv_def)
  have notin: "n \<notin> set (?ls ! i)" if "i < 15" for i
    using n(2) len that nth_mem [of i ?ls] by auto
  show at: "chunk_at (relist s n h hp) n h"
    using h by (simp add: chunk_at_block relist_def block_at_def)
  have "lists_ok P (relist s n h hp) (heap_lists hp)"
    unfolding lists_ok_def
  proof (intro allI impI ballI)
    fix i d assume i: "i < 15" "d \<in> set (heap_lists hp ! i)"
    show "d \<noteq> 0 \<and> (\<exists>h'. chunk_at (relist s n h hp) d h' \<and> P i h')"
    proof (cases "d = n")
      case True
      then have "i = j"
        using i notin [OF i(1)] by (cases "i = j") (auto simp: hp(2))
      then show ?thesis
        using True n(1) at j(2) by blast
    next
      case False
      then have "d \<in> set (?ls ! i)"
        using i len j(1) by (auto simp: hp(2) nth_list_update split: if_splits)
      then have "d \<noteq> 0 \<and> (\<exists>h'. chunk_at s d h' \<and> P i h')"
        using inv i(1) unfolding heap_inv_def lists_ok_def by blast
      then show ?thesis
        using chunk_at_relist(1) False by blast
    qed
  qed
  moreover have "distinct (concat (heap_lists hp))"
  proof -
    have "mset (concat (heap_lists hp)) = mset (n # concat ?ls)"
      using mset_concat_update [of j ?ls "n # ?ls ! j"] j(1) len by (simp add: hp(2))
    moreover have "distinct (n # concat ?ls)"
      using dist n(2) by simp
    ultimately show ?thesis
      using mset_eq_imp_distinct_iff by blast
  qed
  moreover have "sorted (map (chunk_size (hs_chunks (relist s n h hp))) (hp_recyclable hp ! 3))"
  proof -
    have "n \<notin> set (hp_recyclable (hs_heap s) ! 3)"
      using notin [of 14] heap_lists_nth(4) [of "hs_heap s" 3] inv by (simp add: heap_inv_def)
    then have "map (chunk_size (hs_chunks (relist s n h hp))) (hp_recyclable hp ! 3) = map (chunk_size (hs_chunks s)) (hp_recyclable (hs_heap s) ! 3)"
      by (auto simp: hp(3) relist_def chunk_size_def)
    then show ?thesis
      using inv unfolding heap_inv_def by metis
  qed
  ultimately show "heap_inv P (relist s n h hp)"
    using inv hp(1) by (simp add: heap_inv_def relist_def)
  have act: "active hp = insert n (active (hs_heap s))"
  proof -
    have "set (heap_lists hp ! i) = (if i = j then insert n (set (?ls ! i)) else set (?ls ! i))" for i
      using j(1) len by (simp add: hp(2) nth_list_update)
    then show ?thesis
      using j(1) by (auto simp: active_def split: if_splits)
  qed
  moreover have "n \<notin> active (hs_heap s)"
    using notin by (auto simp: active_def)
  ultimately show "heap_objs (relist s n h hp) = heap_objs s \<union> chunk_objs h" "n \<in> active hp"
    using heap_objs_other [of n s] by (simp_all add: heap_objs_relist)
qed

text \<open>What the pool may answer: memory that no chunk of the heap has.\<close>

definition pool_ok :: "hstate \<Rightarrow> pool_answer \<Rightarrow> nat \<Rightarrow> bool" where
  "pool_ok s pa n \<longleftrightarrow> pa_chunk pa \<noteq> 0 \<and> hs_chunks s (pa_chunk pa) = None \<and> pa_block pa \<noteq> 0 \<and> unat (pa_block pa) mod 1024 = 0
     \<and> unat (pa_block pa) + n \<le> 2 ^ 48
     \<and> (\<forall>c h a. chunk_at s c h \<longrightarrow> in_block (get_m h) (bsize h) a \<longrightarrow> \<not> in_block (pa_block pa) n a)"

lemma aligned_page:
  assumes "unat b mod 1024 = 0" "n mod 1024 = 0" "unat b + n \<le> 2 ^ 48" "unat a < 2 ^ 48"
  shows "in_block b n a \<longleftrightarrow> page_of b \<le> page_of a \<and> page_of a < page_of b + n div 1024"
proof -
  obtain x y where xy: "unat b = 1024 * x" "n = 1024 * y"
    using assms(1,2) by (metis mod_eq_0_iff_dvd dvd_def)
  show ?thesis
  proof (cases "n = 0")
    case True
    then show ?thesis by (auto simp: in_block_def)
  next
    case False
    have "x + y \<le> 2 ^ 38"
      using assms(3) xy by simp
    then have "x < 2 ^ 38" "unat a div 1024 < 2 ^ 38"
      using False xy assms(4) by auto
    then have "page_of b = x" "page_of a = unat a div 1024"
      by (simp_all add: page_of_def xy)
    moreover have "1024 * x \<le> unat a \<longleftrightarrow> x \<le> unat a div 1024"
      by (simp add: less_eq_div_iff_mult_less_eq mult.commute)
    moreover have "unat a < 1024 * x + 1024 * y \<longleftrightarrow> unat a div 1024 < x + y"
      using div_less_iff_less_mult [of 1024 "unat a" "x + y"] by (simp add: algebra_simps)
    ultimately show ?thesis
      by (simp add: in_block_def xy)
  qed
qed

lemma pages_exact: "n mod 1024 = 0 \<Longrightarrow> pages n = n div 1024"
  by (auto simp: pages_def)

text \<open>A step that takes a header and a block from the pool and enters the block in the page map.\<close>

lemma heap_inv_new_block:
  assumes inv: "heap_inv P s" and pa: "pool_ok s pa n" and n: "n mod 1024 = 0" "0 < n"
    and pm: "pm_ok pm" "\<And>a. ponyint_pagemap_get_chunk pm a =
      (if page_of (pa_block pa) \<le> page_of a \<and> page_of a < page_of (pa_block pa) + n div 1024 then Inr (pa_chunk pa)
       else ponyint_pagemap_get_chunk (hs_pagemap s) a)"
    and s': "s' = s\<lparr>hs_chunks := (hs_chunks s)(pa_chunk pa \<mapsto> h), hs_blocks := (hs_blocks s)(pa_block pa \<mapsto> of_nat n), hs_pagemap := pm\<rparr>"
  shows "heap_inv P s'" "block_at s' (pa_chunk pa) (pa_block pa) n" "pa_chunk pa \<notin> set (concat (heap_lists (hs_heap s)))"
    "heap_objs s' = heap_objs s"
proof -
  let ?c = "pa_chunk pa" and ?b = "pa_block pa"
  have pk: "?c \<noteq> 0" "hs_chunks s ?c = None" "?b \<noteq> 0" "unat ?b mod 1024 = 0" "unat ?b + n \<le> 2 ^ 48"
    "\<And>c h a. chunk_at s c h \<Longrightarrow> in_block (get_m h) (bsize h) a \<Longrightarrow> \<not> in_block ?b n a"
    using pa unfolding pool_ok_def by blast+
  have at: "chunk_at s' d g" if "chunk_at s d g" for d g
  proof -
    have ok: "hdr_ok g" and d: "d \<noteq> ?c"
      using that pk(2) by (auto simp: chunk_at_def)
    then have "in_block (get_m g) (bsize g) (get_m g)"
      by (auto simp: in_block_def hdr_ok_def bsize_def)
    then have m: "get_m g \<noteq> ?b"
      using pk(6) [OF that, of "get_m g"] n(2) by (auto simp: in_block_def)
    have "ponyint_pagemap_get_chunk pm a = ponyint_pagemap_get_chunk (hs_pagemap s) a" if a: "in_block (get_m g) (bsize g) a" for a
    proof -
      have "unat a < 2 ^ 48"
        using ok a by (simp add: in_block_def hdr_ok_def)
      then show ?thesis
        using pk(6) [OF \<open>chunk_at s d g\<close> a] aligned_page [OF pk(4) n(1) pk(5), of a] by (auto simp: pm(2))
    qed
    then show ?thesis
      using that d m by (simp add: chunk_at_def s')
  qed
  then have "lists_ok P s' (heap_lists (hs_heap s))"
    using inv unfolding heap_inv_def lists_ok_def by blast
  moreover have notin: "?c \<notin> set (heap_lists (hs_heap s) ! j)" if "j < 15" for j
    using inv_place [OF inv that, of ?c] pk(2) by force
  have "?c \<notin> set (hp_recyclable (hs_heap s) ! 3)"
    using notin [of 14] heap_lists_nth(4) [of "hs_heap s" 3] inv by (simp add: heap_inv_def)
  then have "map (chunk_size (hs_chunks s')) (hp_recyclable (hs_heap s) ! 3) = map (chunk_size (hs_chunks s)) (hp_recyclable (hs_heap s) ! 3)"
    by (auto simp: s' chunk_size_def)
  moreover have "hs_heap s' = hs_heap s" "hs_pagemap s' = pm"
    by (simp_all add: s')
  ultimately show "heap_inv P s'"
    using inv pm(1) unfolding heap_inv_def by metis
  show "block_at s' ?c ?b n"
  proof -
    have "ponyint_pagemap_get_chunk pm a = Inr ?c" if "in_block ?b n a" for a
      using that aligned_page [OF pk(4) n(1) pk(5), of a] pk(5) by (simp add: pm(2) in_block_def)
    then show ?thesis
      using pk(3-5) by (simp add: block_at_def s')
  qed
  show "?c \<notin> set (concat (heap_lists (hs_heap s)))"
    using notin inv by (auto simp: heap_inv_def in_set_conv_nth [of _ "heap_lists (hs_heap s)"])
  have "?c \<notin> active (hs_heap s)"
    using notin by (auto simp: active_def)
  then show "heap_objs s' = heap_objs s"
    using heap_objs_relist [of s ?c h "hs_heap s"] heap_objs_other [of ?c s]
    by (simp add: relist_def s' heap_objs_def)
qed


lemma aligned_get_m: "unat b mod 1024 = 0 \<Longrightarrow> b AND CHUNK_M_BITMASK = b"
proof -
  assume "unat b mod 1024 = 0"
  then have "unat b mod 32 = 0"
    using mod_mod_cancel [of 32 1024 "unat b"] by simp
  then have "unat (take_bit 5 b) = 0"
    by (simp add: unsigned_take_bit_eq take_bit_eq_mod [of _ "_ :: nat"])
  then have z: "take_bit 5 b = 0"
    by (simp add: word_unat_eq_iff)
  have "\<not> bit b i" if "i < 5" for i
    using that z bit_take_bit_iff [of 5 b i] by simp
  then show ?thesis
    by (intro bit_word_eqI) (auto simp: chunk_m_mask bit_simps not_le)
qed

lemma get_m_bits: "get_m h = ck_m h \<Longrightarrow> i < 5 \<Longrightarrow> \<not> bit (ck_m h) i"
  using bit_get_m [of h i] by simp

text \<open>A header without flags, for a block of the heap that is in no list.\<close>

definition spare :: "hstate \<Rightarrow> uint64_t \<Rightarrow> chunk_t \<Rightarrow> nat \<Rightarrow> bool" where
  "spare s n h sz \<longleftrightarrow> n \<noteq> 0 \<and> n \<notin> set (concat (heap_lists (hs_heap s))) \<and> hs_chunks s n = Some h \<and> block_at s n (get_m h) sz
     \<and> get_m h = ck_m h"

lemma relist_same_heap: "put_chunk s c h = relist s c h (hs_heap s)"
  by (simp add: put_chunk_def relist_def)

lemma heap_inv_put_spare:
  assumes "heap_inv P s" "n \<notin> set (concat (heap_lists (hs_heap s)))"
  shows "heap_inv P (put_chunk s n h)" "heap_objs (put_chunk s n h) = heap_objs s"
proof -
  let ?ls = "heap_lists (hs_heap s)"
  have notin: "n \<notin> set (?ls ! i)" if "i < 15" for i
    using assms that nth_mem [of i ?ls] by (auto simp: heap_inv_def)
  have "lists_ok P (put_chunk s n h) ?ls"
    using assms(1) notin unfolding heap_inv_def lists_ok_def relist_same_heap
    by (metis chunk_at_relist(1))
  moreover have "n \<notin> set (hp_recyclable (hs_heap s) ! 3)"
    using notin [of 14] heap_lists_nth(4) [of "hs_heap s" 3] assms(1) by (simp add: heap_inv_def)
  then have "map (chunk_size (hs_chunks (put_chunk s n h))) (hp_recyclable (hs_heap s) ! 3) = map (chunk_size (hs_chunks s)) (hp_recyclable (hs_heap s) ! 3)"
    by (auto simp: put_chunk_def chunk_size_def)
  then have "sorted (map (chunk_size (hs_chunks (put_chunk s n h))) (hp_recyclable (hs_heap s) ! 3))"
    using assms(1) unfolding heap_inv_def by metis
  ultimately show "heap_inv P (put_chunk s n h)"
    using assms(1) by (simp add: heap_inv_def put_chunk_def)
  have "n \<notin> active (hs_heap s)"
    using notin by (auto simp: active_def)
  then show "heap_objs (put_chunk s n h) = heap_objs s"
    using heap_objs_relist [of s n h "hs_heap s"] heap_objs_other [of n s] by (simp add: relist_same_heap)
qed

text \<open>A chunk leaves the recycling lists.\<close>

lemma unlist_recyclable:
  assumes inv: "heap_inv mutator_kind s" and r: "r < 4" and l: "distinct l" "set l \<subseteq> set (hp_recyclable (hs_heap s) ! r)"
    "r = 3 \<Longrightarrow> sorted (map (chunk_size (hs_chunks s)) l)" and n: "n \<in> set (hp_recyclable (hs_heap s) ! r)" "n \<notin> set l"
    and s': "s' = upd_heap (\<lambda>hp. hp\<lparr>hp_recyclable := (hp_recyclable hp)[r := l]\<rparr>) s"
  shows "heap_inv mutator_kind s'" "heap_objs s' = heap_objs s" "n \<notin> set (concat (heap_lists (hs_heap s')))"
    "active (hs_heap s') = active (hs_heap s)"
proof -
  let ?hp = "(hs_heap s)\<lparr>hp_recyclable := (hp_recyclable (hs_heap s))[r := l]\<rparr>"
  have sh: "shape_ok (hs_heap s)" and dist: "distinct (concat (heap_lists (hs_heap s)))" and len: "length (heap_lists (hs_heap s)) = 15"
    using inv by (simp_all add: heap_inv_def)
  have ls: "heap_lists ?hp = (heap_lists (hs_heap s))[11 + r := l]"
    using heap_lists_upd(4) [OF sh r] by simp
  have lr: "heap_lists (hs_heap s) ! (11 + r) = hp_recyclable (hs_heap s) ! r"
    using heap_lists_nth(4) [OF sh r] .
  have d': "distinct (concat (heap_lists ?hp))"
    unfolding ls using dist l(1,2) r len lr by (intro distinct_concat_update) auto
  have s'': "s' = s\<lparr>hs_heap := ?hp\<rparr>"
    by (simp add: s' upd_heap_def)
  show "heap_inv mutator_kind s'"
    unfolding s''
  proof (rule heap_inv_weaken [OF inv _ d'])
    show "shape_ok ?hp" using sh by simp
    show "d \<in> set (heap_lists (hs_heap s) ! j)" if "j < 15" "d \<in> set (heap_lists ?hp ! j)" for j d
      using that l(2) lr r len by (cases "j = 11 + r") (auto simp: ls)
    show "sorted (map (chunk_size (hs_chunks s)) (hp_recyclable ?hp ! 3))"
      using inv l(3) sh by (cases "r = 3") (auto simp: heap_inv_def shape_ok_def)
  qed
  have act: "active ?hp = active (hs_heap s)"
    by (rule active_cong) (simp add: ls)
  then show "active (hs_heap s') = active (hs_heap s)" "heap_objs s' = heap_objs s"
    by (simp_all add: heap_objs_def s'')
  have "n \<notin> set (heap_lists ?hp ! j)" if "j < 15" for j
    using n only_in(1) [OF inv, of "11 + r" n j] that r len lr by (cases "j = 11 + r") (auto simp: ls)
  moreover have "length (heap_lists ?hp) = 15"
    using len by (simp add: ls)
  ultimately show "n \<notin> set (concat (heap_lists (hs_heap s')))"
    using not_in_concat [of "heap_lists ?hp" n] by (simp add: s'' del: set_concat)
qed

section \<open>Small objects\<close>

lemma get_m_clear [simp]: "get_m (clear_chunk_flags h) = get_m h" "ck_m (clear_chunk_flags h) = get_m h"
  by (simp_all add: get_m_def clear_chunk_flags_def and.assoc)

lemma block_at_cong:
  "hs_blocks s' = hs_blocks s \<Longrightarrow> hs_pagemap s' = hs_pagemap s \<Longrightarrow> block_at s' c m n = block_at s c m n"
  by (simp add: block_at_def)

lemma upd_put_relist: "upd_heap f (put_chunk s c h) = relist s c h (f (hs_heap s))"
  by (simp add: upd_heap_def put_chunk_def relist_def)

lemma fresh_small_chunk_spec:
  assumes inv: "heap_inv mutator_kind s" and pa: "pool_ok s pa 1024"
  shows "\<exists>n h s'. fresh_small_chunk env s pa = Inr (n, s') \<and> heap_inv mutator_kind s' \<and> spare s' n h 1024 \<and> heap_objs s' = heap_objs s
    \<and> hp_small_free (hs_heap s') = hp_small_free (hs_heap s) \<and> active (hs_heap s') = active (hs_heap s)"
proof (cases "hp_recyclable (hs_heap s) ! 0")
  case (Cons n ns)
  define s1 where "s1 = upd_heap (\<lambda>hp. hp\<lparr>hp_recyclable := (hp_recyclable hp)[0 := ns]\<rparr>) s"
  have sh: "shape_ok (hs_heap s)" and l11: "heap_lists (hs_heap s) ! 11 = n # ns"
    using inv heap_lists_nth(4) [of "hs_heap s" 0] Cons by (simp_all add: heap_inv_def)
  obtain h where h: "chunk_at s n h" "mutator_kind 11 h" "hs_chunks s n = Some h" "n \<noteq> 0" "hdr_ok h"
    using inv_place [OF inv, of 11 n] l11 by auto
  have "distinct (n # ns)"
    using distinct_concat_nth [of "heap_lists (hs_heap s)" 11] inv l11 by (simp add: heap_inv_def)
  then have u: "heap_inv mutator_kind s1" "heap_objs s1 = heap_objs s" "n \<notin> set (concat (heap_lists (hs_heap s1)))"
    "active (hs_heap s1) = active (hs_heap s)"
    using unlist_recyclable [OF inv, of 0 ns n s1] Cons by (auto simp: s1_def)
  have b: "bsize h = 1024"
    using h(2) by (simp add: mutator_kind_def list_kind_def)
  let ?s = "put_chunk s1 n (clear_chunk_flags h)"
  have "fresh_small_chunk env s pa = Inr (n, ?s)"
    using Cons h(3) by (simp add: fresh_small_chunk_def HEAP_RECYCLE_MIXED_def s1_def load_def load_chunk_def upd_heap_def Let_def)
  moreover have "heap_inv mutator_kind ?s" "heap_objs ?s = heap_objs s"
    using heap_inv_put_spare [OF u(1,3)] u(2) by simp_all
  moreover have "block_at ?s n (get_m h) 1024"
    using h(1) b block_at_cong [of ?s s] by (simp add: chunk_at_block put_chunk_def s1_def upd_heap_def)
  then have "spare ?s n (clear_chunk_flags h) 1024"
    using h(4) u(3) by (simp add: spare_def put_chunk_def)
  ultimately show ?thesis
    using u(4) by (intro exI [of _ n] exI [of _ "clear_chunk_flags h"] exI [of _ ?s]) (simp add: put_chunk_def s1_def upd_heap_def)
next
  case Nil
  let ?h = "(pa_junk pa)\<lparr>ck_m := pa_block pa\<rparr>"
  have al: "unat (pa_block pa) mod 1024 = 0"
    using pa by (simp add: pool_ok_def)
  then have gm: "get_m ?h = pa_block pa"
    using aligned_get_m by (simp add: get_m_def)
  have pmo: "pm_ok (hs_pagemap s)"
    using inv by (simp add: heap_inv_def)
  obtain pm where pm: "ponyint_pagemap_set (hs_pagemap s) (pa_block pa) (pa_chunk pa) (he_actor env) = Inr pm" "pm_ok pm"
    "\<And>a. ponyint_pagemap_get_chunk pm a = (if page_of a = page_of (pa_block pa) then Inr (pa_chunk pa)
       else ponyint_pagemap_get_chunk (hs_pagemap s) a)"
    using pt.put_get [OF pmo] by metis
  define s' where "s' = s\<lparr>hs_chunks := (hs_chunks s)(pa_chunk pa \<mapsto> ?h), hs_blocks := (hs_blocks s)(pa_block pa \<mapsto> 1024), hs_pagemap := pm\<rparr>"
  have get: "ponyint_pagemap_get_chunk pm a = (if page_of (pa_block pa) \<le> page_of a \<and> page_of a < page_of (pa_block pa) + 1024 div 1024
      then Inr (pa_chunk pa) else ponyint_pagemap_get_chunk (hs_pagemap s) a)" for a
    using pm(3) [of a] by auto
  have res: "fresh_small_chunk env s pa = Inr (pa_chunk pa, s')"
    using Nil pm(1) gm by (simp add: fresh_small_chunk_def HEAP_RECYCLE_MIXED_def pagemap_set_def put_chunk_def s'_def POOL_ALIGN_def Let_def)
  have nb: "heap_inv mutator_kind s'" "block_at s' (pa_chunk pa) (pa_block pa) 1024"
    "pa_chunk pa \<notin> set (concat (heap_lists (hs_heap s)))" "heap_objs s' = heap_objs s"
    using heap_inv_new_block [OF inv pa _ _ pm(2) get, of s' ?h] by (simp_all add: s'_def)
  moreover have "spare s' (pa_chunk pa) ?h 1024"
    using nb(2,3) gm pa by (simp add: spare_def s'_def pool_ok_def)
  ultimately show ?thesis
    using res by (intro exI [of _ "pa_chunk pa"] exI [of _ ?h] exI [of _ s']) (simp add: s'_def)
qed

lemma small_header:
  assumes "get_m h = ck_m h" "i < 5"
  shows "\<exists>w. set_small_chunk_size (set_chunk_is_small_chunk h) i = Inr (h\<lparr>ck_m := w\<rparr>) \<and> bit w 0 \<and> class_of w = i
    \<and> w AND CHUNK_M_BITMASK = get_m h"
proof -
  let ?h = "h\<lparr>ck_m := put_bit 0 True (ck_m h)\<rparr>"
  have b0: "bit (ck_m ?h) 0"
    by (simp add: bit_put_bit)
  obtain w where w: "set_small_chunk_size ?h i = Inr (?h\<lparr>ck_m := w\<rparr>)" "class_of w = i" "\<forall>j. j \<notin> {2, 3, 4} \<longrightarrow> bit w j = bit (ck_m ?h) j"
    using set_small_size_class [OF b0 assms(2)] by blast
  have "w AND CHUNK_M_BITMASK = put_bit 0 True (ck_m h) AND CHUNK_M_BITMASK"
    using w(3) by (intro bit_word_eqI) (auto simp: chunk_m_mask bit_simps)
  then show ?thesis
    using w b0 by (auto simp: clearing_set_bits m_put_bit get_m_def)
qed

lemma new_chunk_allocates:
  assumes inv: "heap_inv P s1" and objs: "heap_objs s1 = heap_objs s" and n: "n \<notin> set (concat (heap_lists (hs_heap s1)))"
    and at: "block_at s1 n (get_m h) b" "0 < b"
    and s': "heap_objs s' = heap_objs s1 \<union> chunk_objs h" "chunk_at s' n h" "n \<in> active (hs_heap s')"
    and h: "chunk_objs h = {(get_m h, sz)}" "has_final h 0 = fin" "0 \<in> places h"
  shows "allocates s sz fin (get_m h) s'"
proof -
  have sh: "shape_ok (hs_heap s1)"
    using inv by (simp add: heap_inv_def)
  have "(get_m h, k) \<notin> heap_objs s" for k
  proof
    assume "(get_m h, k) \<in> heap_objs s"
    then obtain c g l where g: "c \<in> active (hs_heap s1)" "chunk_at s1 c g" "l \<in> places g" "get_m h = oaddr g l"
      using chunk_of_obj [OF inv, of "get_m h" k] objs by metis
    then have "in_block (get_m g) (bsize g) (get_m h)" "in_block (get_m h) b (get_m h)"
      using oaddr_block [of g l] at(2) by (auto simp: in_block_def chunk_at_def)
    then have "c = n"
      using g(2) at(1) by (auto simp: chunk_at_def block_at_def)
    moreover have "n \<notin> active (hs_heap s1)"
      using n sh by (simp add: active_def not_in_concat del: set_concat)
    ultimately show False
      using g(1) by simp
  qed
  moreover have "oaddr h 0 = get_m h"
    by (simp add: oaddr_def)
  moreover have "get_m h \<noteq> 0"
    using at(1) by (simp add: block_at_def)
  ultimately show ?thesis
    using s' h objs unfolding allocates_def by blast
qed

lemma alloc_small_chunk_spec:
  assumes inv: "heap_inv mutator_kind s" and i: "i < 5" and free: "hp_small_free (hs_heap s) ! i = []"
    and track: "track = TRACK_NO_FINALISERS \<or> track = TRACK_ALL_FINALISERS" and pa: "pool_ok s pa 1024"
  shows "\<exists>m s'. alloc_small_chunk env s i track pa = Inr (m, s') \<and> heap_inv mutator_kind s'
    \<and> allocates s (32 * 2 ^ i) (track = TRACK_ALL_FINALISERS) m s'"
proof -
  obtain n h s1 where f: "fresh_small_chunk env s pa = Inr (n, s1)" "heap_inv mutator_kind s1" "spare s1 n h 1024" "heap_objs s1 = heap_objs s"
    "hp_small_free (hs_heap s1) = hp_small_free (hs_heap s)"
    using fresh_small_chunk_spec [OF inv pa] by blast
  have sp: "n \<noteq> 0" "n \<notin> set (concat (heap_lists (hs_heap s1)))" "hs_chunks s1 n = Some h" "block_at s1 n (get_m h) 1024" "get_m h = ck_m h"
    using f(3) unfolding spare_def by blast+
  obtain w where w: "set_small_chunk_size (set_chunk_is_small_chunk h) i = Inr (h\<lparr>ck_m := w\<rparr>)" "bit w 0" "class_of w = i"
    "w AND CHUNK_M_BITMASK = get_m h"
    using small_header [OF sp(5) i] by blast
  define h' where "h' = h\<lparr>ck_finalisers := track AND 1, ck_slots := sizeclass_init ! i, ck_m := put_bit 1 True w\<rparr>"
  have gm: "get_m h' = get_m h"
    using w(4) by (simp add: h'_def get_m_def m_put_bit)
  have bits: "bit (ck_m h') 0" "bit (ck_m h') 1" "class_of (ck_m h') = i"
    using w(2,3) by (simp_all add: h'_def bit_put_bit)
  have bs: "bsize h' = 1024"
    using bits by (simp add: bsize_def)
  have ok: "hdr_ok h'"
    using sp(4) bits bs i gm by (simp add: hdr_ok_def block_at_def)
  have pl: "places h' = {k. bit (sizeclass_empty ! i) k}"
    using bits by (simp add: places_def)
  have z: "0 \<in> places h'"
    using i by (simp add: pl bit_sizeclass_empty)
  have slots: "bit (ck_slots h') k \<longleftrightarrow> k \<in> places h' \<and> k \<noteq> 0" for k
    using sizeclass_init_empty [OF i] bit_clear_slot [of 0 "sizeclass_empty ! i" k] unfolding pl by (simp add: h'_def)
  have fin: "bit (ck_finalisers h') k \<longleftrightarrow> k = 0 \<and> track = TRACK_ALL_FINALISERS" for k
    using bit_or_track [OF track, of 0 0 k] by (simp add: h'_def)
  have "16 \<in> places h'"
    using i by (auto simp: pl bit_sizeclass_empty less_5_cases)
  then have "ck_slots h' \<noteq> 0"
    using slots [of 16] by auto
  then have mk: "mutator_kind i h'"
    using i bits slots fin z by (auto simp: mutator_kind_def list_kind_def slots_in_def)
  let ?hp = "(hs_heap s1)\<lparr>hp_small_free := (hp_small_free (hs_heap s1))[i := [n]]\<rparr>"
  have sh: "shape_ok (hs_heap s1)"
    using f(2) by (simp add: heap_inv_def)
  have ls: "heap_lists ?hp = (heap_lists (hs_heap s1))[i := n # heap_lists (hs_heap s1) ! i]"
    using heap_lists_upd(1) [OF sh i] heap_lists_nth(1) [OF sh i] f(5) free by simp
  have side: "block_at s1 n (get_m h') (bsize h')" "i < 11" "shape_ok ?hp" "hp_recyclable ?hp = hp_recyclable (hs_heap s1)"
    using sp(4) gm bs i sh by simp_all
  note add = heap_inv_add [OF f(2) sp(1,2) side(1) ok side(2) mk side(3) ls side(4)]
  have objs: "chunk_objs h' = {(get_m h, 32 * 2 ^ i)}"
  proof -
    have "{k \<in> places h'. in_use h' k} = {0}"
      using bits(1) slots z by (auto simp: in_use_def)
    then show ?thesis
      using bits gm by (simp add: chunk_objs_def oaddr_def osize_def)
  qed
  have init: "arr_get sizeclass_init i = Inr (sizeclass_init ! i)"
    using i by simp
  have "ck_m h \<noteq> 0"
    using sp(4,5) by (auto simp: block_at_def)
  then have call: "alloc_small_chunk env s i track pa = Inr (get_m h', relist s1 n h' ?hp)"
    using f(1) sp(1,3) w(1) init
    by (simp add: alloc_small_chunk_def load_def load_chunk_def upd_put_relist clearing_set_bits h'_def Let_def get_m_def m_put_bit)
  have "allocates s (32 * 2 ^ i) (track = TRACK_ALL_FINALISERS) (get_m h') (relist s1 n h' ?hp)"
  proof (rule new_chunk_allocates [OF f(2,4) sp(2) side(1) _ add(2,3)])
    show "0 < bsize h'" using bs by simp
    show "n \<in> active (hs_heap (relist s1 n h' ?hp))" using add(4) by (simp add: relist_def)
    show "chunk_objs h' = {(get_m h', 32 * 2 ^ i)}" using objs gm by simp
    show "has_final h' 0 = (track = TRACK_ALL_FINALISERS)" using fin [of 0] bits by (simp add: has_final_def)
  qed (rule z)
  then show ?thesis
    using call add(1) gm by auto
qed


lemma used_irrelevant:
  assumes "s' = upd_heap (\<lambda>hp. hp\<lparr>hp_used := u hp\<rparr>) s"
  shows "heap_inv P s' = heap_inv P s" "heap_objs s' = heap_objs s" "allocates s0 n fin m s' = allocates s0 n fin m s"
proof -
  let ?hp = "(hs_heap s)\<lparr>hp_used := u (hs_heap s)\<rparr>"
  have l: "heap_lists ?hp = heap_lists (hs_heap s)" "active ?hp = active (hs_heap s)"
    by (simp_all add: heap_lists_def active_def)
  have c: "chunk_at s' = chunk_at s"
    by (simp add: chunk_at_def fun_eq_iff assms upd_heap_def)
  show "heap_inv P s' = heap_inv P s"
    using l c by (simp add: heap_inv_def lists_ok_def assms upd_heap_def)
  show o: "heap_objs s' = heap_objs s"
    using l by (simp add: heap_objs_def assms upd_heap_def)
  show "allocates s0 n fin m s' = allocates s0 n fin m s"
    using l o c by (simp add: allocates_def) (simp add: assms upd_heap_def)
qed

lemma heap_alloc_small_spec:
  assumes inv: "heap_inv mutator_kind s" and i: "i < 5"
    and track: "track = TRACK_NO_FINALISERS \<or> track = TRACK_ALL_FINALISERS" and pa: "pool_ok s pa 1024"
  shows "\<exists>m s'. ponyint_heap_alloc_small env s i track pa = Inr (m, s') \<and> heap_inv mutator_kind s'
    \<and> allocates s (32 * 2 ^ i) (track = TRACK_ALL_FINALISERS) m s'"
proof -
  have "i < length (hp_small_free (hs_heap s))"
    using inv i by (simp add: heap_inv_def shape_ok_def)
  then have get: "arr_get (hp_small_free (hs_heap s)) i = Inr (hp_small_free (hs_heap s) ! i)"
    by simp
  obtain m s1 where r: "(case hp_small_free (hs_heap s) ! i of c # cs \<Rightarrow> alloc_small_slot s i track c cs
      | [] \<Rightarrow> alloc_small_chunk env s i track pa) = Inr (m, s1)" "heap_inv mutator_kind s1"
    "allocates s (32 * 2 ^ i) (track = TRACK_ALL_FINALISERS) m s1"
    using alloc_small_chunk_spec [OF inv i _ track pa, of env] alloc_small_slot_spec [OF inv i _ track]
    by (cases "hp_small_free (hs_heap s) ! i") auto
  let ?s = "upd_heap (\<lambda>hp. hp\<lparr>hp_used := hp_used hp + SIZECLASS_SIZE i\<rparr>) s1"
  have "ponyint_heap_alloc_small env s i track pa = Inr (m, ?s)"
    using track get r(1) by (simp add: ponyint_heap_alloc_small_def)
  then show ?thesis
    using used_irrelevant [of ?s "\<lambda>hp. hp_used hp + SIZECLASS_SIZE i" s1] r(2,3) by blast
qed

section \<open>Large objects\<close>

lemma pages_inexact:
  assumes "n mod 1024 \<noteq> 0"
  shows "pages n = n div 1024 + 1"
proof -
  define q r where "q = n div 1024" and "r = n mod 1024"
  have "n = 1024 * q + r" "r < 1024" "0 < r"
    using assms by (simp_all add: q_def r_def)
  then have "(n + 1023) div 1024 = q + 1"
    by (intro div_nat_eqI) auto
  then show ?thesis
    by (simp add: pages_def q_def)
qed

lemma adjust_size:
  assumes "0 < unat sz" "unat sz \<le> 2 ^ 48"
  shows "unat (ponyint_pool_adjust_size sz) = pages (unat sz) * 1024"
proof -
  have m: "(1023 :: uint64_t) = mask 10"
    by (simp add: mask_eq_exp_minus_1)
  have low: "unat (sz AND 1023) = unat sz mod 1024"
    unfolding m by (simp add: take_bit_eq_mask [symmetric] unsigned_take_bit_eq take_bit_eq_mod [of _ "_ :: nat"])
  have "sz AND NOT 1023 = push_bit 10 (drop_bit 10 sz)"
    unfolding m by (intro bit_word_eqI) (auto simp: bit_simps)
  then have "unat (sz AND NOT 1023) = unat sz div 1024 * 1024 mod 2 ^ 64"
    by (simp only: unat_push_bit_u64 unat_drop_bit_u64) simp
  then have high: "unat (sz AND NOT 1023) = unat sz div 1024 * 1024"
    using div_times_less_eq_dividend [of "unat sz" 1024] assms(2) by simp
  show ?thesis
  proof (cases "unat sz mod 1024 = 0")
    case True
    then have "sz AND 1023 = 0"
      using low by (simp add: word_unat_eq_iff)
    then have "ponyint_pool_adjust_size sz = sz"
      using assms(1) by (auto simp: ponyint_pool_adjust_size_def POOL_ALIGN_def Let_def)
    then show ?thesis
      using pages_exact [OF True] div_mult_mod_eq [of "unat sz" 1024] True by simp
  next
    case False
    then have "sz AND 1023 \<noteq> 0"
      using low by (auto simp: word_unat_eq_iff)
    moreover have "unat ((sz AND NOT 1023) + 1024) = unat sz div 1024 * 1024 + 1024"
      using high assms(2) by (simp add: unat_word_ariths)
    moreover from this have "(sz AND NOT 1023) + 1024 \<noteq> 0"
      by (auto simp: word_unat_eq_iff)
    moreover have "pages (unat sz) = unat sz div 1024 + 1"
      using pages_inexact [OF False] .
    ultimately show ?thesis
      by (simp add: ponyint_pool_adjust_size_def POOL_ALIGN_def Let_def)
  qed
qed

lemma recycle_index_cases:
  "heap_recycle_index sz < 3 \<Longrightarrow> sz = 1024 * 2 ^ heap_recycle_index sz"
  by (auto simp: heap_recycle_index_def HEAP_RECYCLE_MIXED_SIZE_def HEAP_RECYCLE_MIXED_def push_bit_eq_mult split: if_splits)

lemma recycle_slot_less: "recycle_slot sz < 4" "recycle_slot sz < 3 \<Longrightarrow> sz = 1024 * 2 ^ recycle_slot sz"
  using recycle_index_cases [of sz]
  by (auto simp: recycle_slot_def HEAP_RECYCLE_LARGE_OVERFLOW_def HEAP_RECYCLE_SIZECLASSES_def split: if_splits)

lemma overflow_take_spec:
  assumes "\<forall>c \<in> set l. \<exists>h. cs c = Some h" "distinct l"
  shows "overflow_take cs sz l = Inr None \<or>
    (\<exists>c l' h. overflow_take cs sz l = Inr (Some (c, l')) \<and> c \<in> set l \<and> l' = remove1 c l \<and> cs c = Some h \<and> ck_size h = sz)"
  using assms
proof (induction l)
  case (Cons r rs)
  then obtain h where h: "cs r = Some h" by auto
  from Cons.IH Cons.prems have IH: "overflow_take cs sz rs = Inr None \<or>
    (\<exists>c l' h. overflow_take cs sz rs = Inr (Some (c, l')) \<and> c \<in> set rs \<and> l' = remove1 c rs \<and> cs c = Some h \<and> ck_size h = sz)"
    by simp
  then show ?case
    using h Cons.prems(2) by (auto simp: load_chunk_def)
qed simp

text \<open>A chunk taken out of the recycling lists for a large object.\<close>

definition spare_large :: "hstate \<Rightarrow> uint64_t \<Rightarrow> chunk_t \<Rightarrow> uint64_t \<Rightarrow> bool" where
  "spare_large s n h sz \<longleftrightarrow> n \<noteq> 0 \<and> n \<notin> set (concat (heap_lists (hs_heap s))) \<and> hs_chunks s n = Some h
     \<and> block_at s n (get_m h) (unat sz) \<and> \<not> bit (ck_m h) 0 \<and> ck_size h = sz"

lemma recycle_large_spec:
  assumes inv: "heap_inv mutator_kind s" and sz: "unat sz mod 1024 = 0" "0 < unat sz"
  shows "\<exists>r s'. recycle_large s sz = Inr (r, s') \<and> heap_inv mutator_kind s' \<and> heap_objs s' = heap_objs s
    \<and> (case r of None \<Rightarrow> s' = s | Some n \<Rightarrow> \<exists>h. spare_large s' n h sz)"
proof -
  have sh: "shape_ok (hs_heap s)"
    using inv by (simp add: heap_inv_def)
  have lr: "heap_lists (hs_heap s) ! (11 + r) = hp_recyclable (hs_heap s) ! r" if "r < 4" for r
    using heap_lists_nth(4) [OF sh that] .
  have dr: "distinct (hp_recyclable (hs_heap s) ! r)" if "r < 4" for r
    using distinct_concat_nth [of "heap_lists (hs_heap s)" "11 + r"] inv lr [OF that] that by (simp add: heap_inv_def)
  note defs = HEAP_RECYCLE_LARGE_OVERFLOW_def HEAP_RECYCLE_SIZECLASSES_def HEAP_RECYCLE_MIXED_def HEAP_RECYCLE_MIXED_SIZE_def
  show ?thesis
  proof (cases "3 \<le> heap_recycle_index sz")
    case True
    let ?l = "hp_recyclable (hs_heap s) ! 3"
    show ?thesis
    proof (cases "?l = []")
      case True
      then show ?thesis
        using \<open>3 \<le> _\<close> inv by (simp add: recycle_large_def defs Let_def)
    next
      case False
      have "unat sz \<noteq> 1024"
        using \<open>3 \<le> _\<close> by (auto simp: heap_recycle_index_def defs word_unat_eq_iff)
      then have "1024 < unat sz"
        using sz by (cases "unat sz < 1024") auto
      then have gt: "1024 < sz"
        by (simp add: word_less_nat_alt)
      have hdrs: "\<exists>h. chunk_at s c h \<and> mutator_kind 14 h \<and> c \<noteq> 0" if "c \<in> set ?l" for c
        using inv_place [OF inv, of 14 c] that lr [of 3] by auto
      then have "\<forall>c \<in> set ?l. \<exists>h. hs_chunks s c = Some h"
        unfolding chunk_at_def by blast
      then consider "overflow_take (hs_chunks s) sz ?l = Inr None"
        | c h where "overflow_take (hs_chunks s) sz ?l = Inr (Some (c, remove1 c ?l))" "c \<in> set ?l" "hs_chunks s c = Some h" "ck_size h = sz"
        using overflow_take_spec [of ?l "hs_chunks s" sz] dr [of 3] by fastforce
      then show ?thesis
      proof cases
        case 1
        then show ?thesis
          using \<open>3 \<le> _\<close> False gt inv by (simp add: recycle_large_def defs Let_def)
      next
        case (2 c h)
        obtain h' where h': "chunk_at s c h'" "mutator_kind 14 h'" "c \<noteq> 0"
          using hdrs [OF 2(2)] by blast
        have h: "h' = h" "\<not> bit (ck_m h) 0"
          using h' 2(3) by (auto simp: chunk_at_def mutator_kind_def list_kind_def)
        define s1 where "s1 = upd_heap (\<lambda>hp. hp\<lparr>hp_recyclable := (hp_recyclable hp)[3 := remove1 c ?l]\<rparr>) s"
        have srt: "sorted (map (chunk_size (hs_chunks s)) (remove1 c ?l))"
          using inv by (auto simp: heap_inv_def intro: sorted_map_remove1)
        have u: "heap_inv mutator_kind s1" "heap_objs s1 = heap_objs s" "c \<notin> set (concat (heap_lists (hs_heap s1)))"
          using unlist_recyclable [OF inv, of 3 "remove1 c ?l" c s1] dr [of 3] srt 2(2) set_remove1_subset [of c ?l]
          by (simp_all add: s1_def set_remove1_eq del: set_concat)
        have "spare_large s1 c h sz"
          using h'(1,3) h u(3) 2(3,4) block_at_cong [of s1 s]
          by (simp add: spare_large_def chunk_at_block s1_def upd_heap_def bsize_def del: set_concat)
        moreover have "recycle_large s sz = Inr (Some c, s1)"
          using \<open>3 \<le> _\<close> False gt 2(1) by (simp add: recycle_large_def defs Let_def s1_def)
        ultimately show ?thesis
          using u by auto
      qed
    qed
  next
    case False
    define r where "r = heap_recycle_index sz"
    have r: "r < 3" "sz = 1024 * 2 ^ r"
      using False recycle_index_cases [of sz] by (simp_all add: r_def)
    have "r = 0 \<or> r = 1 \<or> r = 2"
      using r(1) by auto
    then have asrt: "r \<noteq> 0 \<and> 1024 < sz \<or> r = 0 \<and> 1024 = sz"
      using r(2) by auto
    show ?thesis
    proof (cases "hp_recyclable (hs_heap s) ! r")
      case Nil
      then show ?thesis
        using asrt r(1) inv by (auto simp: recycle_large_def defs Let_def r_def [symmetric])
    next
      case (Cons c cs)
      define s1 where "s1 = upd_heap (\<lambda>hp. hp\<lparr>hp_recyclable := (hp_recyclable hp)[r := cs]\<rparr>) s"
      obtain h where h: "chunk_at s c h" "mutator_kind (11 + r) h" "c \<noteq> 0" "hs_chunks s c = Some h"
        using inv_place [OF inv, of "11 + r" c] r(1) lr [of r] Cons by auto
      have u: "heap_inv mutator_kind s1" "heap_objs s1 = heap_objs s" "c \<notin> set (concat (heap_lists (hs_heap s1)))"
        using unlist_recyclable [OF inv _ _ _ _ _ _ s1_def, of c] dr [of r] r(1) Cons by (simp_all add: subset_insertI del: set_concat)
      have "bsize h = unat sz"
      proof (cases "r = 0")
        case True
        then show ?thesis
          using h(2) r(2) by (simp add: mutator_kind_def list_kind_def)
      next
        case False
        then have "\<not> bit (ck_m h) 0" "recycle_slot (ck_size h) = r"
          using h(2) r(1) by (auto simp: mutator_kind_def list_kind_def)
        then show ?thesis
          using recycle_slot_less(2) [of "ck_size h"] r by (simp add: bsize_def)
      qed
      let ?h = "(clear_chunk_flags h)\<lparr>ck_size := sz\<rparr>"
      let ?s = "put_chunk s1 c ?h"
      have "recycle_large s sz = Inr (Some c, ?s)"
        using asrt r(1) Cons h(4)
        by (auto simp: recycle_large_def defs Let_def r_def [symmetric] s1_def load_def load_chunk_def upd_heap_def)
      moreover have "heap_inv mutator_kind ?s" "heap_objs ?s = heap_objs s"
        using heap_inv_put_spare [OF u(1,3)] u(2) by simp_all
      moreover have "spare_large ?s c ?h sz"
        using h(1,3) u(3) \<open>bsize h = unat sz\<close> block_at_cong [of ?s s] bit_get_m [of h 0]
        by (simp add: spare_large_def chunk_at_block put_chunk_def s1_def upd_heap_def del: set_concat)
      ultimately show ?thesis
        by auto
    qed
  qed
qed

lemma fresh_large_chunk_spec:
  assumes inv: "heap_inv mutator_kind s" and pa: "pool_ok s pa (unat sz)" and sz: "unat sz mod 1024 = 0" "0 < unat sz"
  shows "\<exists>n h s'. fresh_large_chunk env s sz pa = Inr (n, s') \<and> heap_inv mutator_kind s' \<and> heap_objs s' = heap_objs s \<and> spare_large s' n h sz"
proof -
  let ?h = "(pa_junk pa)\<lparr>ck_size := sz, ck_m := pa_block pa\<rparr>"
  have al: "unat (pa_block pa) mod 1024 = 0" "unat (pa_block pa) + unat sz \<le> 2 ^ 48"
    using pa by (simp_all add: pool_ok_def)
  then have gm: "get_m ?h = pa_block pa"
    using aligned_get_m by (simp add: get_m_def)
  have pmo: "pm_ok (hs_pagemap s)"
    using inv by (simp add: heap_inv_def)
  obtain pm where pm: "ponyint_pagemap_set_bulk (pages (unat sz)) (hs_pagemap s) (pa_block pa) (pa_chunk pa) (he_actor env) sz = Inr pm" "pm_ok pm"
    "\<And>a. ponyint_pagemap_get_chunk pm a = (if page_of (pa_block pa) \<le> page_of a \<and> page_of a < page_of (pa_block pa) + pages (unat sz)
       then Inr (pa_chunk pa) else ponyint_pagemap_get_chunk (hs_pagemap s) a)"
    using pt.bulk_get [OF pmo al(2)] by metis
  define s' where "s' = s\<lparr>hs_chunks := (hs_chunks s)(pa_chunk pa \<mapsto> ?h), hs_blocks := (hs_blocks s)(pa_block pa \<mapsto> of_nat (unat sz)), hs_pagemap := pm\<rparr>"
  have res: "fresh_large_chunk env s sz pa = Inr (pa_chunk pa, s')"
    using pm(1) gm by (simp add: fresh_large_chunk_def large_pagemap_def put_chunk_def s'_def Let_def)
  have nb: "heap_inv mutator_kind s'" "block_at s' (pa_chunk pa) (pa_block pa) (unat sz)"
    "pa_chunk pa \<notin> set (concat (heap_lists (hs_heap s)))" "heap_objs s' = heap_objs s"
    using heap_inv_new_block [OF inv pa sz pm(2) pm(3) [unfolded pages_exact [OF sz(1)]] s'_def] .
  moreover have "\<not> bit (pa_block pa) 0"
    using get_m_bits [of ?h 0] gm by simp
  then have "spare_large s' (pa_chunk pa) ?h sz"
    using nb(2,3) gm pa by (simp add: spare_large_def s'_def pool_ok_def del: set_concat)
  ultimately show ?thesis
    using res by blast
qed


lemma heap_alloc_large_spec:
  assumes inv: "heap_inv mutator_kind s" and sz: "0 < unat sz" "unat sz \<le> 2 ^ 47"
    and track: "track = TRACK_NO_FINALISERS \<or> track = TRACK_ALL_FINALISERS" and pa: "pool_ok s pa (pages (unat sz) * 1024)"
  shows "\<exists>m s'. ponyint_heap_alloc_large env s sz track pa = Inr (m, s') \<and> heap_inv mutator_kind s'
    \<and> allocates s (pages (unat sz) * 1024) (track = TRACK_ALL_FINALISERS) m s'"
proof -
  define a where "a = ponyint_pool_adjust_size sz"
  have ua: "unat a = pages (unat sz) * 1024"
    using adjust_size [of sz] sz by (simp add: a_def)
  then have am: "unat a mod 1024 = 0" "0 < unat a"
    using pages_simps(3) [OF sz(1)] by simp_all
  obtain r s1 where r: "recycle_large s a = Inr (r, s1)" "heap_inv mutator_kind s1" "heap_objs s1 = heap_objs s"
    "case r of None \<Rightarrow> s1 = s | Some n \<Rightarrow> \<exists>h. spare_large s1 n h a"
    using recycle_large_spec [OF inv am] by blast
  obtain n h s2 where f: "(case r of None \<Rightarrow> fresh_large_chunk env s1 a pa | Some c \<Rightarrow> Inr (c, s1)) = Inr (n, s2)"
    "heap_inv mutator_kind s2" "heap_objs s2 = heap_objs s" "spare_large s2 n h a"
    using r fresh_large_chunk_spec [OF inv _ am, of pa env] pa ua by (cases r) fastforce+
  have sp: "n \<noteq> 0" "n \<notin> set (concat (heap_lists (hs_heap s2)))" "hs_chunks s2 n = Some h" "block_at s2 n (get_m h) (unat a)"
    "\<not> bit (ck_m h) 0" "ck_size h = a"
    using f(4) unfolding spare_large_def by blast+
  define h' where "h' = h\<lparr>ck_m := put_bit 4 (track AND 1 \<noteq> 0) (put_bit 1 True (put_bit 2 False (ck_m h)))\<rparr>"
  have gm: "get_m h' = get_m h" and bs: "bsize h' = unat a" and sz': "ck_size h' = a"
    using sp(5,6) by (simp_all add: h'_def get_m_def m_put_bit bsize_def bit_put_bit)
  have bits: "\<not> bit (ck_m h') 0" "bit (ck_m h') 1" "\<not> bit (ck_m h') 2" "bit (ck_m h') 4 \<longleftrightarrow> track AND 1 \<noteq> 0"
    using sp(5) by (simp_all add: h'_def bit_put_bit)
  have ok: "hdr_ok h'"
    using sp(4) bits bs sz' gm am by (simp add: hdr_ok_def block_at_def)
  have mk: "mutator_kind 10 h'"
    using bits by (simp add: mutator_kind_def list_kind_def)
  let ?f = "\<lambda>hp. hp\<lparr>hp_large := n # hp_large hp, hp_used := hp_used hp + a\<rparr>"
  let ?hp = "?f (hs_heap s2)"
  have sh: "shape_ok (hs_heap s2)"
    using f(2) by (simp add: heap_inv_def)
  have "heap_lists ?hp = heap_lists ((hs_heap s2)\<lparr>hp_large := n # hp_large (hs_heap s2)\<rparr>)"
    by (simp add: heap_lists_def)
  then have ls: "heap_lists ?hp = (heap_lists (hs_heap s2))[10 := n # heap_lists (hs_heap s2) ! 10]"
    using heap_lists_upd(3) [OF sh] heap_lists_nth(3) [OF sh] by simp
  have side: "block_at s2 n (get_m h') (bsize h')" "10 < (11 :: nat)" "shape_ok ?hp" "hp_recyclable ?hp = hp_recyclable (hs_heap s2)"
    using sp(4) gm bs sh by (simp_all add: shape_ok_def)
  note add = heap_inv_add [OF f(2) sp(1,2) side(1) ok side(2) mk side(3) ls side(4)]
  have "allocates s (unat a) (track = TRACK_ALL_FINALISERS) (get_m h') (relist s2 n h' ?hp)"
  proof (rule new_chunk_allocates [OF f(2,3) sp(2) side(1) _ add(2,3)])
    show "0 < bsize h'" using bs am by simp
    show "n \<in> active (hs_heap (relist s2 n h' ?hp))" using add(4) by (simp add: relist_def)
    show "chunk_objs h' = {(get_m h', unat a)}"
      using bits sz' by (auto simp: chunk_objs_def places_def in_use_def oaddr_def osize_def)
    show "has_final h' 0 = (track = TRACK_ALL_FINALISERS)"
      using bits track by (auto simp: has_final_def TRACK_NO_FINALISERS_def TRACK_ALL_FINALISERS_def)
  qed (simp add: places_def bits)
  moreover have "ck_m h \<noteq> 0"
    using sp(4) by (auto simp: block_at_def get_m_def)
  then have "ponyint_heap_alloc_large env s sz track pa = Inr (get_m h', relist s2 n h' ?hp)"
    using r(1) f(1) sp track
    by (simp add: ponyint_heap_alloc_large_def a_def [symmetric] load_def load_chunk_def large_set_bits clearing_set_bits bit_put_bit
        h'_def Let_def upd_put_relist)
  ultimately show ?thesis
    using add(1) ua by auto
qed

section \<open>Allocation\<close>

text \<open>The memory an object of a size gets: a size class, or whole pages.\<close>

definition object_size :: "nat \<Rightarrow> nat" where
  "object_size n =
     (if n \<le> 32 then 32 else if n \<le> 64 then 64 else if n \<le> 128 then 128 else if n \<le> 256 then 256 else if n \<le> 512 then 512
      else pages n * 1024)"

lemma object_size_enough: "n \<le> object_size n"
proof -
  have "n \<le> (n + 1023) div 1024 * 1024"
    using div_mult_mod_eq [of "n + 1023" 1024] mod_less_divisor [of 1024 "n + 1023"] by linarith
  then show ?thesis
    by (simp add: object_size_def pages_def)
qed

text \<open>Whether an object has a finaliser to run.\<close>

definition tracked :: "hstate \<Rightarrow> uint64_t \<Rightarrow> bool" where
  "tracked s m \<longleftrightarrow> (\<exists>c h k. c \<in> active (hs_heap s) \<and> chunk_at s c h \<and> k \<in> places h \<and> oaddr h k = m \<and> has_final h k)"

lemma place_unique:
  assumes "chunk_at s c h" "k \<in> places h" "chunk_at s d g" "l \<in> places g" "oaddr h k = oaddr g l"
  shows "d = c \<and> g = h \<and> l = k"
proof -
  have ok: "hdr_ok h" "hdr_ok g"
    using assms by (simp_all add: chunk_at_def)
  have "in_block (get_m h) (bsize h) (oaddr h k)" "in_block (get_m g) (bsize g) (oaddr h k)"
    using oaddr_block [OF ok(1) assms(2)] oaddr_block [OF ok(2) assms(4)] assms(5) by (auto simp: in_block_def)
  then have "c = d" "h = g"
    using assms(1,3) by (auto simp: chunk_at_def)
  then show ?thesis
    using oaddr_inj [OF ok(1) assms(2)] assms(4,5) by auto
qed

lemma allocates_tracked: "allocates s n fin m s' \<Longrightarrow> tracked s' m = fin"
  unfolding allocates_def tracked_def by (metis place_unique)

lemma allocates_aligned: "allocates s n fin m s' \<Longrightarrow> unat m mod 32 = 0"
proof -
  assume "allocates s n fin m s'"
  then obtain h k where h: "hdr_ok h" "k \<in> places h" "oaddr h k = m"
    unfolding allocates_def chunk_at_def by blast
  have "unat (get_m h) mod 32 = 0"
    using h(1) mod_mod_cancel [of 32 1024 "unat (get_m h)"] by (simp add: hdr_ok_def)
  then show ?thesis
    using oaddr_block(1) [OF h(1,2)] h(3) by (auto simp: mod_add_left_eq)
qed

lemma heap_alloc_spec:
  assumes inv: "heap_inv mutator_kind s" and sz: "0 < unat sz" "unat sz \<le> 2 ^ 47"
    and track: "track = TRACK_NO_FINALISERS \<or> track = TRACK_ALL_FINALISERS" and pa: "pool_ok s pa (pages (unat sz) * 1024)"
  shows "\<exists>m s'. ponyint_heap_alloc env s sz track pa = Inr (m, s') \<and> heap_inv mutator_kind s'
    \<and> allocates s (object_size (unat sz)) (track = TRACK_ALL_FINALISERS) m s'"
proof (cases "unat sz \<le> 512")
  case True
  obtain i where i: "i < 5" "ponyint_heap_index sz = Inr i" "unat sz \<le> 32 * 2 ^ i" "i = 0 \<or> 32 * 2 ^ (i - 1) < unat sz"
    using heap_index_least [of sz] sz(1) True by auto
  have n: "object_size (unat sz) = 32 * 2 ^ i"
    using i by (auto simp: less_5_cases object_size_def)
  have "pages (unat sz) = 1"
    using True sz(1) by (simp add: pages_def div_nat_eqI)
  then have "pool_ok s pa 1024"
    using pa by simp
  moreover have "sz \<noteq> 0" "sz \<le> HEAP_MAX"
    using sz(1) True by (auto simp: HEAP_MAX_def HEAP_MAXBITS_def POOL_ALIGN_BITS_def word_le_nat_alt push_bit_eq_mult)
  ultimately show ?thesis
    using heap_alloc_small_spec [OF inv i(1) track, of pa env] track i(2) n by (simp add: ponyint_heap_alloc_def)
next
  case False
  then have "sz \<noteq> 0" "\<not> sz \<le> HEAP_MAX" "object_size (unat sz) = pages (unat sz) * 1024"
    by (auto simp: HEAP_MAX_def HEAP_MAXBITS_def POOL_ALIGN_BITS_def word_le_nat_alt push_bit_eq_mult object_size_def)
  then show ?thesis
    using heap_alloc_large_spec [OF inv sz track pa, of env] track by (simp add: ponyint_heap_alloc_def)
qed

definition heap_start :: "henv \<Rightarrow> hstate" where
  "heap_start env =
     \<lparr>hs_heap = ponyint_heap_init env, hs_chunks = (\<lambda>_. None), hs_blocks = (\<lambda>_. None), hs_pagemap = None, hs_finalised = []\<rparr>"

lemma heap_start_lists: "heap_lists (ponyint_heap_init env) = replicate 15 []"
  by (simp add: heap_lists_def ponyint_heap_init_def HEAP_SIZECLASSES_def HEAP_MAXBITS_def HEAP_MINBITS_def POOL_ALIGN_BITS_def
      HEAP_RECYCLE_SIZECLASSES_def numeral_eq_Suc)

lemma heap_start_inv: "heap_inv mutator_kind (heap_start env)" "heap_objs (heap_start env) = {}"
  by (simp_all add: heap_start_def heap_inv_def heap_start_lists lists_ok_def heap_objs_def)
    (simp_all add: shape_ok_def ponyint_heap_init_def HEAP_SIZECLASSES_def HEAP_MAXBITS_def HEAP_MINBITS_def POOL_ALIGN_BITS_def
      HEAP_RECYCLE_SIZECLASSES_def)

text \<open>
  C7: Allocating on the heap of an actor returns, without a failed assertion, a place of at least the size asked for,
  aligned to 32 bytes and apart from every object of the heap.  Exactly this object is added, its finaliser is noted
  as asked, and the invariant is kept; the pool only has to answer with memory no chunk of the heap uses.
\<close>

theorem heap_alloc_apart:
  assumes "heap_inv mutator_kind s" "0 < unat sz" "unat sz \<le> 2 ^ 47"
    "track = TRACK_NO_FINALISERS \<or> track = TRACK_ALL_FINALISERS" "pool_ok s pa (pages (unat sz) * 1024)"
  shows "\<exists>m s'. ponyint_heap_alloc env s sz track pa = Inr (m, s') \<and> heap_inv mutator_kind s' \<and> m \<noteq> 0 \<and> unat m mod 32 = 0
    \<and> unat sz \<le> object_size (unat sz) \<and> heap_objs s' = insert (m, object_size (unat sz)) (heap_objs s)
    \<and> (\<forall>(b, n) \<in> heap_objs s. unat m + object_size (unat sz) \<le> unat b \<or> unat b + n \<le> unat m)
    \<and> tracked s' m = (track = TRACK_ALL_FINALISERS)"
proof -
  obtain m s' where r: "ponyint_heap_alloc env s sz track pa = Inr (m, s')" "heap_inv mutator_kind s'"
    and al: "allocates s (object_size (unat sz)) (track = TRACK_ALL_FINALISERS) m s'"
    using heap_alloc_spec [OF assms] by blast
  have "unat m + object_size (unat sz) \<le> unat b \<or> unat b + n \<le> unat m" if "(b, n) \<in> heap_objs s" for b n
    using that heap_objs_apart [OF r(2), of m "object_size (unat sz)" b n] al by (auto simp: allocates_def)
  then show ?thesis
    using r al allocates_aligned [OF al] allocates_tracked [OF al] object_size_enough [of "unat sz"]
    by (auto simp: allocates_def)
qed

definition wit_env :: henv where
  "wit_env = \<lparr>he_final = (\<lambda>_. Some []), he_initialgc = 16384, he_nextgc = (\<lambda>n. 2 * n), he_actor = 96\<rparr>"

definition wit_answer :: "uint64_t \<Rightarrow> uint64_t \<Rightarrow> pool_answer" where
  "wit_answer c b = \<lparr>pa_chunk = c, pa_junk = \<lparr>ck_m = 0, ck_slots = 0, ck_shallow = 0, ck_finalisers = 0, ck_size = 0\<rparr>, pa_block = b\<rparr>"

lemma pool_ok_start: "c \<noteq> 0 \<Longrightarrow> b \<noteq> 0 \<Longrightarrow> unat b mod 1024 = 0 \<Longrightarrow> unat b + n \<le> 2 ^ 48 \<Longrightarrow> pool_ok (heap_start env) (wit_answer c b) n"
  by (simp add: pool_ok_def wit_answer_def chunk_at_def heap_start_def)

theorem heap_alloc_apart_witness:
  "\<exists>m s'. ponyint_heap_alloc wit_env (heap_start wit_env) 40 TRACK_ALL_FINALISERS (wit_answer 4096 65536) = Inr (m, s')
    \<and> heap_objs s' = {(m, 64)} \<and> tracked s' m"
  using heap_alloc_apart [OF heap_start_inv(1), of 40 TRACK_ALL_FINALISERS wit_env "wit_answer 4096 65536" wit_env]
    pool_ok_start [of 4096 65536 1024 wit_env]
  by (auto simp: pages_def object_size_def heap_start_inv(2))

end
