(* ===== verification/Heap_Sweep.thy ===== *)
theory Heap_Sweep
  imports Heap_Inv
begin

text \<open>
  A collection of the heap, first part: marking the addresses that are reached, and what the sweep of
  \<^verbatim>\<open>ponyint_heap_endgc\<close> does to a chunk and to a list of chunks.
\<close>

section \<open>Marking\<close>

text \<open>
  The collector finds the chunk of an address in the page map and marks it there, deeply or not, as
  \<^verbatim>\<open>mark_local_object\<close> and \<^verbatim>\<open>ponyint_objectmap_sweep\<close> do.
\<close>

definition heap_mark_at :: "hstate \<Rightarrow> uint64_t \<Rightarrow> (bool \<times> hstate) res" where
  "heap_mark_at s p =
     res_bind (ponyint_pagemap_get_chunk (hs_pagemap s) p) (\<lambda>c. res_bind (load s c) (\<lambda>h.
       res_bind (ponyint_heap_mark h p) (\<lambda>(marked, h). Inr (marked, put_chunk s c h))))"

definition heap_mark_shallow_at :: "hstate \<Rightarrow> uint64_t \<Rightarrow> hstate res" where
  "heap_mark_shallow_at s p =
     res_bind (ponyint_pagemap_get_chunk (hs_pagemap s) p) (\<lambda>c. res_bind (load s c) (\<lambda>h.
       res_bind (ponyint_heap_mark_shallow h p) (\<lambda>h. Inr (put_chunk s c h))))"

definition mark_address :: "bool \<times> uint64_t \<Rightarrow> hstate \<Rightarrow> hstate res" where
  "mark_address = (\<lambda>(deep, p) s. if deep then res_bind (heap_mark_at s p) (\<lambda>(marked, s). Inr s) else heap_mark_shallow_at s p)"

definition is_marked :: "chunk_t \<Rightarrow> nat \<Rightarrow> bool" where
  "is_marked h k \<longleftrightarrow> mdeep h k \<or> mshal h k"

definition hdr :: "hstate \<Rightarrow> uint64_t \<Rightarrow> chunk_t" where
  "hdr s c = the (hs_chunks s c)"

text \<open>The objects that were marked deeply, which tells the collector not to trace them again.\<close>

definition deeps :: "hstate \<Rightarrow> hstate \<Rightarrow> uint64_t set" where
  "deeps s t = {oaddr (hdr s c) k | c k. c \<in> active (hs_heap s) \<and> k \<in> places (hdr s c) \<and> mdeep (hdr t c) k}"

text \<open>
  The state \<open>t\<close> in a collection that began in \<open>s\<close>, after the addresses \<open>M\<close> have been marked.
\<close>

definition marking :: "hstate \<Rightarrow> hstate \<Rightarrow> uint64_t set \<Rightarrow> bool" where
  "marking s t M \<longleftrightarrow> heap_inv list_kind t \<and> hs_heap t = hs_heap s \<and> hs_blocks t = hs_blocks s \<and> hs_pagemap t = hs_pagemap s
     \<and> hs_finalised t = hs_finalised s
     \<and> (\<forall>c \<in> active (hs_heap s). \<exists>h h'. hs_chunks s c = Some h \<and> hs_chunks t c = Some h' \<and> same_hdr h h'
          \<and> (\<forall>k \<in> places h. is_marked h' k \<longleftrightarrow> (\<exists>p \<in> M. in_block (oaddr h k) (osize h) p)))"

lemma heap_inv_mono: "heap_inv P s \<Longrightarrow> (\<And>j h. P j h \<Longrightarrow> Q j h) \<Longrightarrow> heap_inv Q s"
  unfolding heap_inv_def lists_ok_def by blast

lemma mutator_list_kind: "mutator_kind j h \<Longrightarrow> list_kind j h"
  by (simp add: mutator_kind_def)

lemma active_kind:
  assumes "heap_inv P s" "c \<in> active (hs_heap s)" "hs_chunks s c = Some h"
  shows "\<exists>j < 11. c \<in> set (heap_lists (hs_heap s) ! j) \<and> chunk_at s c h \<and> P j h"
proof -
  obtain j where j: "j < 11" "c \<in> set (heap_lists (hs_heap s) ! j)"
    using assms(2) by (auto simp: active_def)
  then have "j < 15" by simp
  obtain g where "chunk_at s c g" "P j g" "hs_chunks s c = Some g"
    by (rule inv_place [OF assms(1) \<open>j < 15\<close> j(2)])
  then show ?thesis
    using j assms(3) by auto
qed

lemma marking_start:
  assumes "heap_inv mutator_kind s"
  shows "marking s s {}" "deeps s s = {}"
proof -
  have *: "\<not> is_marked h k" if c: "c \<in> active (hs_heap s)" "hs_chunks s c = Some h" for c h k
  proof -
    obtain j where "j < 11" "mutator_kind j h"
      using active_kind [OF assms c] by blast
    then have "bit (ck_m h) 1"
      by (auto simp: mutator_kind_def split: if_splits)
    then show ?thesis
      by (simp add: is_marked_def mdeep_def mshal_def)
  qed
  have act: "\<exists>h h'. hs_chunks s c = Some h \<and> hs_chunks s c = Some h' \<and> same_hdr h h'
      \<and> (\<forall>k \<in> places h. is_marked h' k \<longleftrightarrow> (\<exists>p \<in> {}. in_block (oaddr h k) (osize h) p))" if c: "c \<in> active (hs_heap s)" for c
  proof -
    obtain h where "hs_chunks s c = Some h"
      using active_chunk [OF assms c] by (auto simp: chunk_at_def)
    then show ?thesis
      using * [OF c] by (intro exI [of _ h]) (simp add: same_hdr_def)
  qed
  have "heap_inv list_kind s"
    by (rule heap_inv_mono [OF assms]) (rule mutator_list_kind)
  then show "marking s s {}"
    unfolding marking_def using act by (intro conjI ballI) simp_all
  have "\<not> mdeep (hdr s c) k" if c: "c \<in> active (hs_heap s)" for c k
  proof -
    obtain h where "hs_chunks s c = Some h"
      using active_chunk [OF assms c] by (auto simp: chunk_at_def)
    then show ?thesis
      using * [OF c] by (simp add: hdr_def is_marked_def)
  qed
  then show "deeps s s = {}"
    by (auto simp: deeps_def)
qed

lemma relist_same: "relist t c h (hs_heap t) = put_chunk t c h"
  by (cases t) (simp add: relist_def put_chunk_def)

lemma deeps_iff:
  assumes inv: "heap_inv P s" and c: "c \<in> active (hs_heap s)" "k \<in> places (hdr s c)"
  shows "oaddr (hdr s c) k \<in> deeps s t \<longleftrightarrow> mdeep (hdr t c) k"
proof
  have at: "chunk_at s d (hdr s d)" if "d \<in> active (hs_heap s)" for d
    using active_chunk [OF inv that] by (auto simp: hdr_def chunk_at_def)
  assume "oaddr (hdr s c) k \<in> deeps s t"
  then obtain d l where d: "d \<in> active (hs_heap s)" "l \<in> places (hdr s d)" "mdeep (hdr t d) l" "oaddr (hdr s c) k = oaddr (hdr s d) l"
    by (auto simp: deeps_def)
  then have "d = c" "l = k"
    using place_unique [OF at [OF c(1)] c(2) at [OF d(1)] d(2,4)] by simp_all
  then show "mdeep (hdr t c) k" using d(3) by simp
next
  assume "mdeep (hdr t c) k"
  then show "oaddr (hdr s c) k \<in> deeps s t"
    using c by (auto simp: deeps_def)
qed

lemma marking_deep:
  assumes m: "marking s t M" and inv: "heap_inv mutator_kind s" and p: "(a, n) \<in> heap_objs s" "in_block a n p"
  shows "\<exists>t'. (if deep then heap_mark_at t p = Inr (a \<in> deeps s t, t') else heap_mark_shallow_at t p = Inr t')
    \<and> marking s t' (insert p M) \<and> deeps s t' = (if deep \<and> p = a then insert a (deeps s t) else deeps s t)"
proof -
  obtain c h k where o: "c \<in> active (hs_heap s)" "chunk_at s c h" "k \<in> places h" "a = oaddr h k" "n = osize h"
    using chunk_of_obj [OF inv p(1)] by metis
  have tinv: "heap_inv list_kind t" and same: "hs_heap t = hs_heap s" "hs_blocks t = hs_blocks s" "hs_pagemap t = hs_pagemap s"
    "hs_finalised t = hs_finalised s"
    using m by (simp_all add: marking_def)
  obtain h' where h': "hs_chunks t c = Some h'" "same_hdr h h'"
    and mk: "\<And>k. k \<in> places h \<Longrightarrow> is_marked h' k \<longleftrightarrow> (\<exists>p \<in> M. in_block (oaddr h k) (osize h) p)"
    using m o(1,2) unfolding marking_def chunk_at_def by force
  note v = same_hdr_views [OF h'(2)]
  have ok: "hdr_ok h" "hdr_ok h'"
    using o(2) v(7) by (simp_all add: chunk_at_def)
  have inb: "in_block (get_m h) (bsize h) p"
    using p(2) oaddr_block(1,2) [OF ok(1) o(3)] o(4,5) by (auto simp: in_block_def)
  then have get: "ponyint_pagemap_get_chunk (hs_pagemap t) p = Inr c"
    using o(2) same(3) by (simp add: chunk_at_def)
  have slot: "j = hslot h p \<longleftrightarrow> in_block (oaddr h j) (osize h) p" if "j \<in> places h" for j
    using hslot_iff [OF ok(1) inb that] by auto
  have hk: "hslot h p = k"
    using slot [OF o(3)] p(2) o(4,5) by auto
  have ch: "hs_chunks s c = Some h" using o(2) by (simp add: chunk_at_def)
  have dk: "a \<in> deeps s t \<longleftrightarrow> mdeep h' k"
    using deeps_iff [OF inv o(1), of k t] o(3,4) ch h'(1) by (simp add: hdr_def)
  obtain h2 where h2: "if deep then heap_mark_at t p = Inr (a \<in> deeps s t, put_chunk t c h2) else heap_mark_shallow_at t p = Inr (put_chunk t c h2)"
    "same_hdr h' h2" "slots_in h' \<longrightarrow> slots_in h2"
    "\<And>j. j \<in> places h \<Longrightarrow> is_marked h2 j \<longleftrightarrow> is_marked h' j \<or> j = hslot h p"
    "\<And>j. j \<in> places h \<Longrightarrow> mdeep h2 j \<longleftrightarrow> mdeep h' j \<or> deep \<and> j = hslot h p \<and> p = oaddr h j"
  proof (cases deep)
    case True
    obtain h2 where "ponyint_heap_mark h' p = Inr (mdeep h' (hslot h p), h2)" "same_hdr h' h2" "slots_in h' \<longrightarrow> slots_in h2"
      "\<forall>k \<in> places h. mdeep h2 k = (mdeep h' k \<or> k = hslot h p \<and> p = oaddr h k) \<and> mshal h2 k = (mshal h' k \<or> k = hslot h p \<and> p \<noteq> oaddr h k)"
      using heap_mark_spec [OF ok(2), of p, unfolded v] inb by blast
    then show ?thesis
      using that True get h'(1) by (auto simp: heap_mark_at_def load_def load_chunk_def is_marked_def dk hk)
  next
    case False
    obtain h2 where "ponyint_heap_mark_shallow h' p = Inr h2" "same_hdr h' h2" "slots_in h' \<longrightarrow> slots_in h2"
      "\<forall>k \<in> places h. mdeep h2 k = mdeep h' k \<and> mshal h2 k = (mshal h' k \<or> k = hslot h p)"
      using heap_mark_shallow_spec [OF ok(2), of p, unfolded v] inb by blast
    then show ?thesis
      using that False get h'(1) by (auto simp: heap_mark_shallow_at_def load_def load_chunk_def is_marked_def)
  qed
  obtain j where j: "j < 11" "c \<in> set (heap_lists (hs_heap t) ! j)" "chunk_at t c h'" "list_kind j h'"
    using active_kind [OF tinv _ h'(1)] o(1) same(1) by auto
  note v2 = same_hdr_views [OF h2(2)]
  have lk: "list_kind j h2"
    using j(1,4) h2(2,3) v2 by (auto simp: list_kind_def same_hdr_def)
  have "heap_inv list_kind (relist t c h2 (hs_heap t))"
  proof (rule heap_inv_relist [OF tinv j(3)])
    show "c \<noteq> 0" using inv_place [OF tinv _ j(2)] j(1) by auto
    show "hdr_ok h2" "get_m h2 = get_m h'" "bsize h2 = bsize h'" using v2 ok by simp_all
    show "shape_ok (hs_heap t)" "distinct (concat (heap_lists (hs_heap t)))"
      "sorted (map (chunk_size (hs_chunks t)) (hp_recyclable (hs_heap t) ! 3))"
      using tinv by (simp_all add: heap_inv_def)
    show "list_kind i h2" if "i < 15" "c \<in> set (heap_lists (hs_heap t) ! i)" for i
      using that lk only_in(1) [OF tinv _ j(2) that(1)] j(1) by simp
    show "c \<notin> set (hp_recyclable (hs_heap t) ! 3)"
      using only_in(1) [OF tinv _ j(2), of 14] j(1) heap_lists_nth(4) [of "hs_heap t" 3] tinv by (simp add: heap_inv_def)
  qed
  moreover have "\<exists>g g'. hs_chunks s d = Some g \<and> ((hs_chunks t)(c \<mapsto> h2)) d = Some g' \<and> same_hdr g g'
      \<and> (\<forall>k \<in> places g. is_marked g' k \<longleftrightarrow> (\<exists>q \<in> insert p M. in_block (oaddr g k) (osize g) q))" if d: "d \<in> active (hs_heap s)" for d
  proof (cases "d = c")
    case True
    have "is_marked h2 k \<longleftrightarrow> (\<exists>q \<in> insert p M. in_block (oaddr h k) (osize h) q)" if "k \<in> places h" for k
      using h2(4) [OF that] mk [OF that] slot [OF that] by blast
    moreover have "hs_chunks s c = Some h" "((hs_chunks t)(c \<mapsto> h2)) c = Some h2"
      using o(2) by (simp_all add: chunk_at_def)
    ultimately show ?thesis
      unfolding True by (intro exI [of _ h] exI [of _ h2] conjI ballI same_hdr_trans [OF h'(2) h2(2)])
  next
    case False
    obtain g g' where g: "hs_chunks s d = Some g" "hs_chunks t d = Some g'" "same_hdr g g'"
      "\<forall>k \<in> places g. is_marked g' k \<longleftrightarrow> (\<exists>q \<in> M. in_block (oaddr g k) (osize g) q)"
      using m d unfolding marking_def by blast
    have gat: "chunk_at s d g"
      using active_chunk [OF inv d] g(1) by (auto simp: chunk_at_def)
    have "\<not> in_block (oaddr g k) (osize g) p" if "k \<in> places g" for k
    proof
      assume "in_block (oaddr g k) (osize g) p"
      then have "in_block (get_m g) (bsize g) p"
        using oaddr_block(1,2) [of g k] that gat by (auto simp: in_block_def chunk_at_def)
      then show False
        using gat get same(3) False by (auto simp: chunk_at_def)
    qed
    then show ?thesis
      using g False by auto
  qed
  ultimately have mk': "marking s (put_chunk t c h2) (insert p M)"
    using same unfolding relist_same by (simp add: marking_def put_chunk_def)
  have hc: "hdr s c = h" "hdr t c = h'" using ch h'(1) by (simp_all add: hdr_def)
  have "deeps s (put_chunk t c h2) = (if deep \<and> p = a then insert a (deeps s t) else deeps s t)"
  proof (intro equalityI subsetI)
    fix x assume "x \<in> deeps s (put_chunk t c h2)"
    then obtain d l where d: "d \<in> active (hs_heap s)" "l \<in> places (hdr s d)" "mdeep (hdr (put_chunk t c h2) d) l" "x = oaddr (hdr s d) l"
      by (auto simp: deeps_def)
    show "x \<in> (if deep \<and> p = a then insert a (deeps s t) else deeps s t)"
    proof (cases "d = c")
      case True
      then have "mdeep h2 l" "l \<in> places h" "x = oaddr h l" using d hc by (simp_all add: hdr_def put_chunk_def)
      then show ?thesis
        using h2(5) [of l] hk o(4) deeps_iff [OF inv o(1), of l t] hc by auto
    next
      case False
      then have "mdeep (hdr t d) l" using d(3) by (simp add: hdr_def put_chunk_def)
      then show ?thesis
        using deeps_iff [OF inv d(1,2), of t] d(4) by auto
    qed
  next
    fix x assume x: "x \<in> (if deep \<and> p = a then insert a (deeps s t) else deeps s t)"
    show "x \<in> deeps s (put_chunk t c h2)"
    proof (cases "x \<in> deeps s t")
      case True
      then obtain d l where d: "d \<in> active (hs_heap s)" "l \<in> places (hdr s d)" "mdeep (hdr t d) l" "x = oaddr (hdr s d) l"
        by (auto simp: deeps_def)
      have "mdeep (hdr (put_chunk t c h2) d) l"
        using d(2,3) h2(5) [of l] hc by (cases "d = c") (simp_all add: hdr_def put_chunk_def)
      then show ?thesis
        using d by (auto simp: deeps_def)
    next
      case False
      then have "deep" "p = a" "x = a" using x by (auto split: if_splits)
      then have "mdeep (hdr (put_chunk t c h2) c) k"
        using h2(5) [OF o(3)] hk o(4) by (simp add: hdr_def put_chunk_def)
      then show ?thesis
        unfolding deeps_def using o(1,3,4) \<open>x = a\<close> hc by (intro CollectI exI [of _ c] exI [of _ k]) simp
    qed
  qed
  then show ?thesis
    using h2(1) mk' by (intro exI [of _ "put_chunk t c h2"]) simp
qed

lemma marking_step:
  assumes "marking s t M" "heap_inv mutator_kind s" "(a, n) \<in> heap_objs s" "in_block a n p"
  shows "\<exists>t'. mark_address (deep, p) t = Inr t' \<and> marking s t' (insert p M)"
  using marking_deep [OF assms, of deep] by (cases deep) (auto simp: mark_address_def)


lemma marking_all:
  assumes "marking s t M" "heap_inv mutator_kind s" "\<forall>(deep, p) \<in> set ms. \<exists>(a, n) \<in> heap_objs s. in_block a n p"
  shows "\<exists>t'. for_each ms mark_address t = Inr t' \<and> marking s t' (M \<union> snd ` set ms)"
  using assms
proof (induction ms arbitrary: t M)
  case (Cons x ms)
  obtain deep p where x: "x = (deep, p)" by (cases x)
  obtain t1 where t1: "mark_address (deep, p) t = Inr t1" "marking s t1 (insert p M)"
    using marking_step [OF Cons.prems(1,2)] Cons.prems(3) x by fastforce
  then obtain t' where "for_each ms mark_address t1 = Inr t'" "marking s t' (insert p M \<union> snd ` set ms)"
    using Cons.IH [OF t1(2) Cons.prems(2)] Cons.prems(3) by auto
  then show ?case
    using t1(1) x by (auto simp: Un_insert_left)
qed simp

section \<open>Sweeping a chunk\<close>

lemma and_minus_one:
  assumes "w \<noteq> (0 :: uint32_t)"
  shows "bit (w AND (w - 1)) j \<longleftrightarrow> bit w j \<and> j \<noteq> ctz32 w"
proof -
  let ?n = "ctz32 w" and ?a = "unset_bit (ctz32 w) w"
  note c = ctz32_bit [OF assms]
  have ab: "bit ?a i \<longleftrightarrow> bit w i \<and> i \<noteq> ?n" for i
    by (auto simp: bit_unset_bit_iff)
  have "?a AND 2 ^ ?n = 0"
    by (intro bit_word_eqI) (auto simp: bit_simps)
  then have "?a + 2 ^ ?n = ?a OR 2 ^ ?n"
    by (rule disjunctive_add_eq_or)
  also have "\<dots> = w"
    using c(1,2) by (intro bit_word_eqI) (auto simp: bit_simps)
  finally have w: "w = ?a + 2 ^ ?n" ..
  have "?a AND mask ?n = 0"
    using c(3) by (intro bit_word_eqI) (auto simp: bit_simps)
  then have "?a + mask ?n = ?a OR mask ?n"
    by (rule disjunctive_add_eq_or)
  moreover have "w - 1 = ?a + mask ?n"
    using w by (simp add: mask_eq_exp_minus_1)
  ultimately have "w - 1 = ?a OR mask ?n"
    by simp
  then have "bit (w AND (w - 1)) j \<longleftrightarrow> bit w j \<and> (bit ?a j \<or> j < ?n \<and> j < 32)"
    by (auto simp: bit_simps)
  then show ?thesis
    using c(3) [of j] ab by auto
qed

definition set_bits32 :: "uint32_t \<Rightarrow> nat list" where
  "set_bits32 w = filter (bit w) [0..<32]"

lemma set_set_bits32 [simp]: "set (set_bits32 w) = {k. bit w k}" "distinct (set_bits32 w)"
  by (auto simp: set_bits32_def dest: bit_imp_le_length)

lemma set_bits32_0 [simp]: "set_bits32 0 = []"
  by (simp add: set_bits32_def)

lemma set_bits32_next:
  assumes "w \<noteq> 0"
  shows "set_bits32 w = ctz32 w # set_bits32 (w AND (w - 1))"
proof -
  let ?n = "ctz32 w"
  note c = ctz32_bit [OF assms]
  have u: "[0..<32] = [0..<?n] @ ?n # [Suc ?n..<32]"
    using c(1) by (metis le_add1 less_imp_le_nat upt_add_eq_append upt_conv_Cons le_add_diff_inverse zero_le_numeral add_0)
  have "filter (bit w) [0..<?n] = []" "filter (bit (w AND (w - 1))) [0..<?n] = []"
    using c(3) and_minus_one [OF assms] by (auto simp: filter_empty_conv simp del: bit_and_iff)
  moreover have "filter (bit (w AND (w - 1))) [Suc ?n..<32] = filter (bit w) [Suc ?n..<32]"
    using and_minus_one [OF assms] by (intro filter_cong) (auto simp del: bit_and_iff)
  ultimately show ?thesis
    unfolding set_bits32_def u using c(2) and_minus_one [OF assms, of ?n] by (simp del: bit_and_iff)
qed

text \<open>A finaliser that allocates nothing.\<close>

definition quiet :: "henv \<Rightarrow> bool" where
  "quiet env \<longleftrightarrow> (\<forall>p. he_final env p = Some [])"

definition note_final :: "hstate \<Rightarrow> uint64_t list \<Rightarrow> hstate" where
  "note_final s ps = s\<lparr>hs_finalised := hs_finalised s @ ps\<rparr>"

lemma note_final_sel [simp]:
  "hs_heap (note_final s ps) = hs_heap s" "hs_chunks (note_final s ps) = hs_chunks s" "hs_blocks (note_final s ps) = hs_blocks s"
  "hs_pagemap (note_final s ps) = hs_pagemap s" "hs_finalised (note_final s ps) = hs_finalised s @ ps"
  by (simp_all add: note_final_def)

lemma note_final_simps [simp]: "note_final s [] = s" "note_final (note_final s ps) qs = note_final s (ps @ qs)"
  "put_chunk (note_final s ps) c h = note_final (put_chunk s c h) ps"
  by (simp_all add: note_final_def put_chunk_def)

lemma call_final_quiet: "quiet env \<Longrightarrow> call_final env s p = Inr (note_final s [p])"
  by (simp add: quiet_def call_final_def note_final_def)

lemma run_finalisers_quiet:
  assumes "quiet env"
  shows "run_finalisers env s m w = Inr (note_final s (map (slot_addr m) (set_bits32 w)))"
proof (induction "unat w" arbitrary: s w rule: less_induct)
  case less
  show ?case
  proof (cases "w = 0")
    case True
    then show ?thesis by (subst run_finalisers.simps) simp
  next
    case False
    then show ?thesis
      using less [OF and_minus_one_less [OF False], of "note_final s [slot_addr m (ctz32 w)]"]
      by (subst run_finalisers.simps) (simp add: call_final_quiet [OF assms] set_bits32_next)
  qed
qed

lemma load_Some [simp]: "hs_chunks s c = Some h \<Longrightarrow> load s c = Inr h"
  by (simp add: load_def load_chunk_def)

lemma final_small_quiet:
  assumes "quiet env" "hs_chunks s c = Some h" "bit (ck_m h) 0" "force = FORCE_NO_FINALISERS \<or> force = FORCE_ALL_FINALISERS"
  shows "final_small env s c force = Inr (note_final (put_chunk s c (h\<lparr>ck_finalisers := ck_finalisers h AND NOT (ck_slots h OR force)\<rparr>))
    (map (oaddr h) (set_bits32 (ck_finalisers h AND (ck_slots h OR force)))))"
proof (cases "ck_finalisers h AND (ck_slots h OR force) = 0")
  case True
  then have "ck_finalisers h AND NOT (ck_slots h OR force) = ck_finalisers h"
    by (intro bit_word_eqI) (metis (no_types, lifting) bit_0_eq bit_and_iff bit_not_iff bot_apply bot_bool_def impossible_bit)
  moreover have "put_chunk s c (h\<lparr>ck_finalisers := ck_finalisers h\<rparr>) = s"
    using assms(2) by (cases s) (auto simp: put_chunk_def)
  ultimately show ?thesis
    using assms True by (simp add: final_small_def is_small_bit pony_assert_def)
next
  case False
  have "slot_addr (get_m h) = oaddr h"
    using slot_addr_oaddr [OF assms(3)] by auto
  then show ?thesis
    using assms False by (simp add: final_small_def is_small_bit pony_assert_def Let_def run_finalisers_quiet)
qed

text \<open>The header a chunk has after the sweep, and the objects whose finalisers ran.\<close>

definition clear_hdr :: "chunk_t \<Rightarrow> chunk_t" where
  "clear_hdr h = (case maybe_clear_chunk h of Inl _ \<Rightarrow> h | Inr h' \<Rightarrow> h')"

definition sweep_hdr :: "chunk_t \<Rightarrow> chunk_t" where
  "sweep_hdr h =
     (let g = clear_hdr h
      in if bit (ck_m g) 0
         then let sl = ck_slots g AND ck_shallow g
              in g\<lparr>ck_slots := sl, ck_m := put_bit 1 True (ck_m g), ck_finalisers := ck_finalisers g AND NOT sl\<rparr>
         else let sl = bit (ck_m g) 2 \<and> bit (ck_m g) 3
              in g\<lparr>ck_m := put_bit 4 (bit (ck_m g) 4 \<and> \<not> sl) (put_bit 1 True (put_bit 2 sl (ck_m g)))\<rparr>)"

definition dead_objs :: "chunk_t \<Rightarrow> uint64_t list" where
  "dead_objs h =
     (if bit (ck_m h) 0 then map (oaddr h) (set_bits32 (ck_finalisers h AND ck_slots (sweep_hdr h)))
      else if bit (ck_m h) 4 \<and> bit (ck_m (sweep_hdr h)) 2 then [get_m h] else [])"

definition sweepable :: "chunk_t \<Rightarrow> bool" where
  "sweepable h \<longleftrightarrow> hdr_ok h \<and> (bit (ck_m h) 0 \<longrightarrow> (\<forall>k. bit (ck_finalisers h) k \<longrightarrow> k \<in> places h) \<and> slots_in h)"

lemma clear_hdr:
  assumes "hdr_ok h"
  shows "maybe_clear_chunk h = Inr (clear_hdr h)" "same_hdr h (clear_hdr h)" "\<not> bit (ck_m (clear_hdr h)) 1"
    "k \<in> places h \<Longrightarrow> is_marked (clear_hdr h) k = is_marked h k" "slots_in h \<Longrightarrow> slots_in (clear_hdr h)"
proof -
  obtain g where g: "maybe_clear_chunk h = Inr g" "same_hdr h g" "\<not> bit (ck_m g) 1"
    "\<forall>k \<in> places h. mdeep g k = mdeep h k \<and> mshal g k = mshal h k" "slots_in h \<longrightarrow> slots_in g"
    using maybe_clear [OF assms] by blast
  then have "clear_hdr h = g"
    by (simp add: clear_hdr_def)
  with g show "maybe_clear_chunk h = Inr (clear_hdr h)" "same_hdr h (clear_hdr h)" "\<not> bit (ck_m (clear_hdr h)) 1"
    "k \<in> places h \<Longrightarrow> is_marked (clear_hdr h) k = is_marked h k" "slots_in h \<Longrightarrow> slots_in (clear_hdr h)"
    by (simp_all add: is_marked_def)
qed

lemma sweep_hdr_views:
  assumes "hdr_ok h"
  shows "places (sweep_hdr h) = places h" "oaddr (sweep_hdr h) = oaddr h" "bsize (sweep_hdr h) = bsize h"
    "osize (sweep_hdr h) = osize h" "hdr_ok (sweep_hdr h)" "get_m (sweep_hdr h) = get_m h" "bit (ck_m (sweep_hdr h)) 0 = bit (ck_m h) 0"
    "bit (ck_m h) 0 \<Longrightarrow> class_of (ck_m (sweep_hdr h)) = class_of (ck_m h)" "bit (ck_m (sweep_hdr h)) 1" "ck_size (sweep_hdr h) = ck_size h"
proof -
  note c = clear_hdr [OF assms]
  note v = same_hdr_views [OF c(2)]
  show b: "bit (ck_m (sweep_hdr h)) 0 = bit (ck_m h) 0" "bit (ck_m (sweep_hdr h)) 1" "get_m (sweep_hdr h) = get_m h"
    "ck_size (sweep_hdr h) = ck_size h" "bit (ck_m h) 0 \<Longrightarrow> class_of (ck_m (sweep_hdr h)) = class_of (ck_m h)"
    using c(2) by (auto simp: sweep_hdr_def Let_def same_hdr_def bit_put_bit get_m_def m_put_bit)
  then show "places (sweep_hdr h) = places h" "oaddr (sweep_hdr h) = oaddr h" "bsize (sweep_hdr h) = bsize h"
    "osize (sweep_hdr h) = osize h"
    by (auto simp: places_def oaddr_def bsize_def osize_def fun_eq_iff)
  then show "hdr_ok (sweep_hdr h)"
    using assms b unfolding hdr_ok_def by auto
qed

lemma sweep_hdr_marks:
  assumes "sweepable h"
  shows "k \<in> places h \<Longrightarrow> in_use (sweep_hdr h) k \<longleftrightarrow> is_marked h k"
    "k \<in> places h \<Longrightarrow> has_final (sweep_hdr h) k \<longleftrightarrow> has_final h k \<and> is_marked h k"
    "bit (ck_m h) 0 \<Longrightarrow> bit (ck_slots (sweep_hdr h)) k \<Longrightarrow> k \<in> places h"
    "bit (ck_m h) 0 \<Longrightarrow> bit (ck_finalisers (sweep_hdr h)) k \<longleftrightarrow> bit (ck_finalisers h) k \<and> \<not> bit (ck_slots (sweep_hdr h)) k"
    "set (dead_objs h) = {oaddr h k | k. k \<in> places h \<and> has_final h k \<and> \<not> is_marked h k}" "distinct (dead_objs h)"
proof -
  have ok: "hdr_ok h" using assms by (simp add: sweepable_def)
  note c = clear_hdr [OF ok]
  have cm: "bit (ck_m (clear_hdr h)) 0 = bit (ck_m h) 0" "ck_finalisers (clear_hdr h) = ck_finalisers h"
    "\<not> bit (ck_m h) 0 \<Longrightarrow> bit (ck_m (clear_hdr h)) 4 = bit (ck_m h) 4"
    using c(2) by (simp_all add: same_hdr_def)
  show s: "in_use (sweep_hdr h) k \<longleftrightarrow> is_marked h k" if "k \<in> places h" for k
    using c(3) c(4) [OF that] cm that
    by (auto simp: sweep_hdr_def Let_def in_use_def is_marked_def mdeep_def mshal_def bit_put_bit bit_and_iff)
  show sp: "bit (ck_m h) 0 \<Longrightarrow> bit (ck_slots (sweep_hdr h)) k \<Longrightarrow> k \<in> places h" for k
    using c(3,5) cm assms same_hdr_views(1) [OF c(2)] by (auto simp: sweep_hdr_def Let_def sweepable_def slots_in_def bit_and_iff)
  show sf: "bit (ck_m h) 0 \<Longrightarrow> bit (ck_finalisers (sweep_hdr h)) k \<longleftrightarrow> bit (ck_finalisers h) k \<and> \<not> bit (ck_slots (sweep_hdr h)) k" for k
    using cm by (auto simp: sweep_hdr_def Let_def bit_simps dest: bit_imp_le_length)
  show "has_final (sweep_hdr h) k \<longleftrightarrow> has_final h k \<and> is_marked h k" if "k \<in> places h" for k
  proof (cases "bit (ck_m h) 0")
    case True
    then show ?thesis
      using sf s [OF that] sweep_hdr_views(7) [OF ok] by (auto simp: has_final_def in_use_def)
  next
    case False
    then show ?thesis
      using cm s [OF that] by (auto simp: has_final_def in_use_def sweep_hdr_def Let_def bit_put_bit)
  qed
  show "set (dead_objs h) = {oaddr h k | k. k \<in> places h \<and> has_final h k \<and> \<not> is_marked h k}"
  proof (cases "bit (ck_m h) 0")
    case True
    have "bit (ck_finalisers h AND ck_slots (sweep_hdr h)) k \<longleftrightarrow> k \<in> places h \<and> has_final h k \<and> \<not> is_marked h k" for k
      using True s [of k] sp [OF True, of k] assms sweep_hdr_views(7) [OF ok]
      by (auto simp: bit_and_iff has_final_def in_use_def sweepable_def)
    then show ?thesis
      using True by (auto simp: dead_objs_def simp del: bit_and_iff)
  next
    case False
    then have "places h = {0}" "oaddr h 0 = get_m h" "in_use (sweep_hdr h) 0 = is_marked h 0"
      using s [of 0] by (simp_all add: places_def oaddr_def)
    then show ?thesis
      using False sweep_hdr_views(7) [OF ok] by (auto simp: dead_objs_def has_final_def in_use_def)
  qed
  have "inj_on (oaddr h) (places h)"
    using oaddr_inj [OF ok] by (auto intro: inj_onI)
  moreover have "bit (ck_m h) 0 \<Longrightarrow> {k. bit (ck_finalisers h AND ck_slots (sweep_hdr h)) k} \<subseteq> places h"
    using sp by (auto simp: bit_and_iff)
  ultimately show "distinct (dead_objs h)"
    by (auto simp: dead_objs_def distinct_map simp del: bit_and_iff intro: inj_on_subset)
qed

section \<open>Sweeping a list\<close>

text \<open>The state after the chunks of a list have been swept.\<close>

fun swept_list :: "uint64_t list \<Rightarrow> hstate \<Rightarrow> hstate" where
  "swept_list [] s = s"
| "swept_list (c # cs) s = swept_list cs (note_final (put_chunk s c (sweep_hdr (hdr s c))) (dead_objs (hdr s c)))"

definition can_sweep :: "hstate \<Rightarrow> uint64_t \<Rightarrow> bool" where
  "can_sweep s c \<longleftrightarrow> hs_chunks s c \<noteq> None \<and> sweepable (hdr s c)"

text \<open>Where a small chunk goes.\<close>

definition stays_full :: "hstate \<Rightarrow> uint64_t \<Rightarrow> bool" where
  "stays_full s c \<longleftrightarrow> (\<forall>k \<in> places (hdr s c). is_marked (hdr s c) k)"

definition all_dead :: "hstate \<Rightarrow> uint64_t \<Rightarrow> bool" where
  "all_dead s c \<longleftrightarrow> (\<forall>k \<in> places (hdr s c). \<not> is_marked (hdr s c) k)"

definition put_swept :: "hstate \<Rightarrow> uint64_t \<Rightarrow> swept \<Rightarrow> swept" where
  "put_swept s c w =
     (if stays_full s c then w\<lparr>sw_full := c # sw_full w, sw_used := sw_used w + POOL_ALIGN\<rparr>
      else if all_dead s c then w\<lparr>sw_destroy := c # sw_destroy w\<rparr>
      else w\<lparr>sw_free := c # sw_free w, sw_used := sw_used w +
        (POOL_ALIGN - of_nat (popcount32 (ck_slots (sweep_hdr (hdr s c)))) * SIZECLASS_SIZE (class_of (ck_m (hdr s c))))\<rparr>)"

lemma word_bits_eq: "v = w \<longleftrightarrow> (\<forall>k. bit v k \<longleftrightarrow> bit w k)" for v w :: uint32_t
  by (auto intro: bit_word_eqI)

lemma put_put_chunk [simp]: "put_chunk (put_chunk s c g) c h = put_chunk s c h"
  by (simp add: put_chunk_def)

lemma put_chunk_sel [simp]: "hs_chunks (put_chunk s c h) = (hs_chunks s)(c \<mapsto> h)" "hs_heap (put_chunk s c h) = hs_heap s"
  "hs_blocks (put_chunk s c h) = hs_blocks s" "hs_pagemap (put_chunk s c h) = hs_pagemap s" "hs_finalised (put_chunk s c h) = hs_finalised s"
  by (simp_all add: put_chunk_def)

lemma slots_zero_iff:
  assumes "sweepable h" "bit (ck_m h) 0"
  shows "ck_slots (sweep_hdr h) = 0 \<longleftrightarrow> (\<forall>k \<in> places h. is_marked h k)"
    "ck_slots (sweep_hdr h) = sizeclass_empty ! class_of (ck_m h) \<longleftrightarrow> (\<forall>k \<in> places h. \<not> is_marked h k)"
proof -
  have b: "bit (ck_slots (sweep_hdr h)) k \<longleftrightarrow> k \<in> places h \<and> \<not> is_marked h k" for k
    using sweep_hdr_marks(1,3) [OF assms(1), of k] assms(2) sweep_hdr_views(7) [of h] assms(1)
    by (auto simp: in_use_def sweepable_def)
  show "ck_slots (sweep_hdr h) = 0 \<longleftrightarrow> (\<forall>k \<in> places h. is_marked h k)"
    unfolding word_bits_eq using b by auto
  show "ck_slots (sweep_hdr h) = sizeclass_empty ! class_of (ck_m h) \<longleftrightarrow> (\<forall>k \<in> places h. \<not> is_marked h k)"
    unfolding word_bits_eq b using assms(2) by (auto simp: places_def)
qed

lemma places_nonempty: "hdr_ok h \<Longrightarrow> 0 \<in> places h"
  by (simp add: hdr_ok_def places_def bit_sizeclass_empty)

lemma sweep_small_step:
  assumes env: "quiet env" and h: "hs_chunks s c = Some h" "sweepable h" "bit (ck_m h) 0" and sc: "class_of (ck_m h) = sc"
  shows "sweep_small env (sizeclass_empty ! sc) (SIZECLASS_SIZE sc) (c # cs) (s, w) =
    sweep_small env (sizeclass_empty ! sc) (SIZECLASS_SIZE sc) cs
      (note_final (put_chunk s c (sweep_hdr h)) (dead_objs h), put_swept s c w)"
proof -
  let ?g = "clear_hdr h" and ?h = "sweep_hdr h"
  define sl where "sl = ck_slots ?g AND ck_shallow ?g"
  have ok: "hdr_ok h" using h(2) by (simp add: sweepable_def)
  note c = clear_hdr [OF ok]
  have b0: "bit (ck_m ?g) 0" and fin: "ck_finalisers ?g = ck_finalisers h" and m: "get_m ?g = get_m h"
    using c(2) h(3) by (simp_all add: same_hdr_def)
  let ?f = "?g\<lparr>ck_slots := sl, ck_m := put_bit 1 True (ck_m ?g)\<rparr>"
  have sh: "?h = ?f\<lparr>ck_finalisers := ck_finalisers h AND NOT sl\<rparr>" and sl: "ck_slots ?h = sl"
    using b0 fin by (simp_all add: sweep_hdr_def Let_def sl_def)
  have fb: "bit (ck_m ?f) 0" "oaddr ?f = oaddr h"
    using b0 m h(3) by (auto simp: bit_put_bit oaddr_def fun_eq_iff get_m_def m_put_bit)
  have dead: "dead_objs h = map (oaddr h) (set_bits32 (ck_finalisers h AND sl))"
    using h(3) by (simp add: dead_objs_def sl)
  have frc: "final_small env (put_chunk s c ?f) c force = Inr (note_final (put_chunk s c ?h) (dead_objs h))"
    if f: "force = FORCE_NO_FINALISERS \<or> force = FORCE_ALL_FINALISERS \<and> (\<forall>k. bit (ck_finalisers h) k \<longrightarrow> bit sl k)" for force
  proof -
    have bits: "bit (FORCE_ALL_FINALISERS) k \<longleftrightarrow> k < 32" for k
      using sizeclass_bits(1) bit_imp_le_length [of "0xFFFFFFFF :: uint32_t" k] by (auto simp: FORCE_ALL_FINALISERS_def)
    have "ck_finalisers h AND NOT (sl OR force) = ck_finalisers h AND NOT sl"
      "ck_finalisers h AND (sl OR force) = ck_finalisers h AND sl"
      using f bits by (auto simp: FORCE_NO_FINALISERS_def bit_eq_iff bit_simps)
    then have "?f\<lparr>ck_finalisers := ck_finalisers ?f AND NOT (ck_slots ?f OR force)\<rparr> = ?h"
      "map (oaddr ?f) (set_bits32 (ck_finalisers ?f AND (ck_slots ?f OR force))) = dead_objs h"
      unfolding sh dead fb(2) by (simp_all add: fin)
    moreover have "final_small env (put_chunk s c ?f) c force = Inr (note_final (put_chunk (put_chunk s c ?f) c
        (?f\<lparr>ck_finalisers := ck_finalisers ?f AND NOT (ck_slots ?f OR force)\<rparr>))
        (map (oaddr ?f) (set_bits32 (ck_finalisers ?f AND (ck_slots ?f OR force)))))"
      using f fb(1) by (intro final_small_quiet [OF env]) auto
    ultimately show ?thesis by simp
  qed
  have finp: "\<forall>k. bit (ck_finalisers h) k \<longrightarrow> bit sl k" if "sl = sizeclass_empty ! sc"
    using that h(2,3) sc by (auto simp: sweepable_def places_def)
  have z: "sl = 0 \<Longrightarrow> ?h = ?f \<and> dead_objs h = []"
    by (simp add: dead sh fin)
  have e0: "sizeclass_empty ! sc \<noteq> 0"
    using places_nonempty [OF ok] h(3) sc by (auto simp: places_def)
  have hd: "hdr s c = h" using h(1) by (simp add: hdr_def)
  have su: "stays_full s c \<longleftrightarrow> sl = 0" "all_dead s c \<longleftrightarrow> sl = sizeclass_empty ! sc"
    using slots_zero_iff [OF h(2,3)] sc by (simp_all add: stays_full_def all_dead_def hd sl)
  have step: "sweep_small env (sizeclass_empty ! sc) (SIZECLASS_SIZE sc) (c # cs) (s, w) = res_bind
     (if sl = 0 then Inr (put_chunk s c ?f, w\<lparr>sw_full := c # sw_full w, sw_used := sw_used w + POOL_ALIGN\<rparr>)
      else if sl = sizeclass_empty ! sc
      then res_bind (final_small env (put_chunk s c ?f) c FORCE_ALL_FINALISERS) (\<lambda>s. Inr (s, w\<lparr>sw_destroy := c # sw_destroy w\<rparr>))
      else res_bind (final_small env (put_chunk s c ?f) c FORCE_NO_FINALISERS) (\<lambda>s.
                Inr (s, w\<lparr>sw_free := c # sw_free w,
                  sw_used := sw_used w + (POOL_ALIGN - of_nat (popcount32 sl) * SIZECLASS_SIZE sc)\<rparr>)))
     (sweep_small env (sizeclass_empty ! sc) (SIZECLASS_SIZE sc) cs)"
    using h(1,3) c(1) by (simp add: is_small_bit pony_assert_def clearing_set_bits sl_def Let_def)
  show ?thesis
    unfolding step using z frc finp by (auto simp: put_swept_def su hd sc e0 sl)
qed

lemma hdr_other [simp]: "d \<noteq> c \<Longrightarrow> hdr (note_final (put_chunk s c h) ps) d = hdr s d"
  by (simp add: hdr_def)

lemma can_sweep_other: "d \<noteq> c \<Longrightarrow> can_sweep (note_final (put_chunk s c h) ps) d = can_sweep s d"
  by (simp add: can_sweep_def)

lemma put_swept_cong: "hdr s d = hdr t d \<Longrightarrow> put_swept s d = put_swept t d"
  by (auto simp: fun_eq_iff put_swept_def stays_full_def all_dead_def)

lemma sweep_small_list:
  assumes "quiet env" "distinct cs" "\<forall>c \<in> set cs. can_sweep s c \<and> bit (ck_m (hdr s c)) 0 \<and> class_of (ck_m (hdr s c)) = sc"
  shows "sweep_small env (sizeclass_empty ! sc) (SIZECLASS_SIZE sc) cs (s, w) = Inr (swept_list cs s, fold (put_swept s) cs w)"
  using assms(2,3)
proof (induction cs arbitrary: s w)
  case (Cons c cs)
  let ?s = "note_final (put_chunk s c (sweep_hdr (hdr s c))) (dead_objs (hdr s c))"
  have h: "hs_chunks s c = Some (hdr s c)" "sweepable (hdr s c)" "bit (ck_m (hdr s c)) 0" "class_of (ck_m (hdr s c)) = sc"
    using Cons.prems by (auto simp: can_sweep_def hdr_def)
  have ne: "d \<noteq> c" if "d \<in> set cs" for d
    using that Cons.prems(1) by auto
  have "\<forall>d \<in> set cs. can_sweep ?s d \<and> bit (ck_m (hdr ?s d)) 0 \<and> class_of (ck_m (hdr ?s d)) = sc"
    using Cons.prems(2) ne can_sweep_other by simp
  moreover have "fold (put_swept ?s) cs v = fold (put_swept s) cs v" for v
    using ne put_swept_cong [of ?s _ s] by (intro fold_cong) auto
  ultimately show ?case
    using Cons.IH [of ?s "put_swept s c w"] Cons.prems(1) sweep_small_step [OF assms(1) h, of cs w] by simp
qed simp

lemma fold_put_swept:
  "sw_full (fold (put_swept s) cs w) = rev (filter (stays_full s) cs) @ sw_full w"
  "sw_destroy (fold (put_swept s) cs w) = rev (filter (\<lambda>c. \<not> stays_full s c \<and> all_dead s c) cs) @ sw_destroy w"
  "sw_free (fold (put_swept s) cs w) = rev (filter (\<lambda>c. \<not> stays_full s c \<and> \<not> all_dead s c) cs) @ sw_free w"
  by (induction cs arbitrary: w) (auto simp: put_swept_def)

definition put_large :: "hstate \<Rightarrow> uint64_t \<Rightarrow> uint64_t list \<times> uint64_t list list \<times> uint64_t \<Rightarrow> uint64_t list \<times> uint64_t list list \<times> uint64_t" where
  "put_large s c = (\<lambda>(list, rec, used).
     if all_dead s c then (list, let i = recycle_slot (ck_size (hdr s c)) in rec[i := c # rec ! i], used)
     else (c # list, rec, used + ck_size (hdr s c)))"

lemma put_bit_same: "n < 64 \<Longrightarrow> bit w n = v \<Longrightarrow> put_bit n v w = w"
  by (intro bit_word_eqI) (auto simp: bit_put_bit)

lemma put_chunk_same: "hs_chunks s c = Some h \<Longrightarrow> put_chunk s c h = s"
  by (cases s) (auto simp: put_chunk_def)

lemma final_large_quiet:
  assumes "quiet env" "hs_chunks s c = Some h" "\<not> bit (ck_m h) 0"
  shows "final_large env s c = Inr (note_final (put_chunk s c (h\<lparr>ck_m := put_bit 4 False (ck_m h)\<rparr>)) (if bit (ck_m h) 4 then [get_m h] else []))"
proof (cases "bit (ck_m h) 4")
  case True
  have "load (note_final s [get_m h]) c = Inr h"
    using assms(2) by simp
  then show ?thesis
    using assms True by (simp add: final_large_def is_small_bit large_get_bits pony_assert_def call_final_quiet large_set_bits)
next
  case False
  then have "h\<lparr>ck_m := put_bit 4 False (ck_m h)\<rparr> = h"
    by (simp add: put_bit_same)
  then show ?thesis
    using assms False by (simp add: final_large_def is_small_bit large_get_bits pony_assert_def put_chunk_same)
qed

lemma sweep_large_step:
  assumes env: "quiet env" and h: "hs_chunks s c = Some h" "sweepable h" "\<not> bit (ck_m h) 0"
  shows "sweep_large env (c # cs) (s, w) =
    sweep_large env cs (note_final (put_chunk s c (sweep_hdr h)) (dead_objs h), put_large s c w)"
proof -
  obtain list rec used where w: "w = (list, rec, used)" by (cases w)
  let ?g = "clear_hdr h" and ?h = "sweep_hdr h"
  have ok: "hdr_ok h" using h(2) by (simp add: sweepable_def)
  note c = clear_hdr [OF ok]
  have b0: "\<not> bit (ck_m ?g) 0" and b4: "bit (ck_m ?g) 4 = bit (ck_m h) 4" and m: "get_m ?g = get_m h" "ck_size ?g = ck_size h"
    using c(2) h(3) by (simp_all add: same_hdr_def)
  define sl where "sl = (bit (ck_m ?g) 2 \<and> bit (ck_m ?g) 3)"
  let ?f = "?g\<lparr>ck_m := put_bit 1 True (put_bit 2 sl (ck_m ?g))\<rparr>"
  have fb: "\<not> bit (ck_m ?f) 0" "bit (ck_m ?f) 2 = sl" "bit (ck_m ?f) 4 = bit (ck_m h) 4" "get_m ?f = get_m h" "ck_size ?f = ck_size h"
    using b0 b4 m by (simp_all add: bit_put_bit get_m_def m_put_bit)
  have sh: "?h = ?f\<lparr>ck_m := put_bit 4 (bit (ck_m h) 4 \<and> \<not> sl) (ck_m ?f)\<rparr>" and s2: "bit (ck_m ?h) 2 = sl"
    using b0 b4 by (simp_all add: sweep_hdr_def Let_def sl_def bit_put_bit)
  have ad: "all_dead s c \<longleftrightarrow> sl"
    using sweep_hdr_marks(1) [OF h(2), of 0] h(1,3) s2 sweep_hdr_views(7) [OF ok]
    by (auto simp: all_dead_def hdr_def places_def in_use_def)
  have dead: "dead_objs h = (if sl \<and> bit (ck_m h) 4 then [get_m h] else [])"
    using h(3) s2 by (simp add: dead_objs_def)
  have hd: "hdr s c = h" using h(1) by (simp add: hdr_def)
  have alive: "?f = ?h" if "\<not> sl"
    unfolding sh using that fb(3) by (simp add: put_bit_same)
  have fin: "final_large env (put_chunk s c ?f) c = Inr (note_final (put_chunk s c ?h) (dead_objs h))" if sl
    using that final_large_quiet [OF env, of "put_chunk s c ?f" c ?f] fb unfolding sh dead by simp
  have "sweep_large env (c # cs) (s, w) = res_bind
      (if \<not> sl then Inr (put_chunk s c ?f, c # list, rec, used + ck_size h)
       else res_bind (final_large env (put_chunk s c ?f) c) (\<lambda>s.
         Inr (s, list, let i = recycle_slot (ck_size h) in rec[i := c # rec ! i], used))) (sweep_large env cs)"
    using h(1,3) c(1) b0 fb
    by (simp add: w is_small_bit pony_assert_def large_get_bits large_set_bits clearing_set_bits bit_put_bit Let_def recycle_slot_def sl_def m)
  then show ?thesis
    using alive fin by (auto simp: w put_large_def ad hd dead)
qed

end
