(* ===== verification/Heap_Collect.thy ===== *)
theory Heap_Collect
  imports Heap_Sweep
begin

text \<open>
  A collection of the heap, second part: the sweep of all lists, the destruction of the chunks that were not reused,
  and what a whole collection does to the objects; and what goes wrong when finalisers allocate.
\<close>

lemma swept_list_append: "swept_list (cs @ ds) s = swept_list ds (swept_list cs s)"
  by (induction cs arbitrary: s) auto

lemma swept_list_sel [simp]:
  "hs_heap (swept_list cs s) = hs_heap s" "hs_blocks (swept_list cs s) = hs_blocks s" "hs_pagemap (swept_list cs s) = hs_pagemap s"
  by (induction cs arbitrary: s) auto

lemma swept_list_other: "c \<notin> set cs \<Longrightarrow> hs_chunks (swept_list cs s) c = hs_chunks s c"
  by (induction cs arbitrary: s) auto

lemma hdr_swept_other: "c \<notin> set cs \<Longrightarrow> hdr (swept_list cs s) c = hdr s c"
  by (simp add: hdr_def swept_list_other)

lemma swept_list_in: "distinct cs \<Longrightarrow> c \<in> set cs \<Longrightarrow> hs_chunks (swept_list cs s) c = Some (sweep_hdr (hdr s c))"
proof (induction cs arbitrary: s)
  case (Cons d cs)
  show ?case
  proof (cases "c = d")
    case True
    then show ?thesis
      using Cons.prems(1) by (simp add: swept_list_other)
  next
    case False
    then show ?thesis
      using Cons by simp
  qed
qed simp

lemma swept_list_finalised:
  "distinct cs \<Longrightarrow> hs_finalised (swept_list cs s) = hs_finalised s @ concat (map (\<lambda>c. dead_objs (hdr s c)) cs)"
proof (induction cs arbitrary: s)
  case (Cons d cs)
  let ?s = "note_final (put_chunk s d (sweep_hdr (hdr s d))) (dead_objs (hdr s d))"
  have "hs_finalised (swept_list cs ?s) = hs_finalised ?s @ concat (map (\<lambda>c. dead_objs (hdr ?s c)) cs)"
    using Cons by simp
  moreover have "map (\<lambda>c. dead_objs (hdr ?s c)) cs = map (\<lambda>c. dead_objs (hdr s c)) cs"
    using Cons.prems by (intro map_cong refl) (metis distinct.simps(2) hdr_other)
  ultimately show ?case by simp
qed simp

lemma sweep_large_list:
  assumes "quiet env" "distinct cs" "\<forall>c \<in> set cs. can_sweep s c \<and> \<not> bit (ck_m (hdr s c)) 0"
  shows "sweep_large env cs (s, w) = Inr (swept_list cs s, fold (put_large s) cs w)"
  using assms(2,3)
proof (induction cs arbitrary: s w)
  case Nil
  then show ?case by (cases w) simp
next
  case (Cons c cs)
  let ?s = "note_final (put_chunk s c (sweep_hdr (hdr s c))) (dead_objs (hdr s c))"
  have h: "hs_chunks s c = Some (hdr s c)" "sweepable (hdr s c)" "\<not> bit (ck_m (hdr s c)) 0"
    using Cons.prems by (auto simp: can_sweep_def hdr_def)
  have ne: "d \<noteq> c" if "d \<in> set cs" for d
    using that Cons.prems(1) by auto
  have "\<forall>d \<in> set cs. can_sweep ?s d \<and> \<not> bit (ck_m (hdr ?s d)) 0"
    using Cons.prems(2) ne can_sweep_other by simp
  moreover have "fold (put_large ?s) cs v = fold (put_large s) cs v" for v
    using ne by (intro fold_cong) (auto simp: fun_eq_iff put_large_def all_dead_def)
  ultimately show ?case
    using Cons.IH [of ?s "put_large s c w"] Cons.prems(1) sweep_large_step [OF assms(1) h, of cs w] by simp
qed

lemma fold_put_large:
  "length rec = 4 \<Longrightarrow> \<exists>rec' u. fold (put_large s) cs (list, rec, used) = (rev (filter (\<lambda>c. \<not> all_dead s c) cs) @ list, rec', u)
     \<and> length rec' = 4 \<and> (\<forall>i < 4. rec' ! i = rev (filter (\<lambda>c. all_dead s c \<and> recycle_slot (ck_size (hdr s c)) = i) cs) @ rec ! i)"
proof (induction cs arbitrary: list rec used)
  case (Cons c cs)
  show ?case
  proof (cases "all_dead s c")
    case True
    let ?i = "recycle_slot (ck_size (hdr s c))"
    have "length (rec[?i := c # rec ! ?i]) = 4"
      using Cons.prems by simp
    from Cons.IH [OF this, of list used] show ?thesis
      using True Cons.prems recycle_slot_less(1) [of "ck_size (hdr s c)"]
      by (auto simp: put_large_def Let_def nth_list_update)
  next
    case False
    then show ?thesis
      using Cons.IH [OF Cons.prems, of "c # list" "used + ck_size (hdr s c)"] by (auto simp: put_large_def)
  qed
qed simp

section \<open>The sweep of the heap\<close>

lemma sweep_small_append:
  "sweep_small env e z (cs @ ds) w = res_bind (sweep_small env e z cs w) (sweep_small env e z ds)"
proof (induction cs arbitrary: w)
  case Nil
  then show ?case by (cases w) simp
next
  case (Cons c cs)
  obtain s v where "w = (s, v)" by (cases w)
  then show ?case
    using Cons by (simp add: res_bind_def pony_assert_def Let_def split: sum.splits)
qed

lemma for_each_Suc: "for_each [0..<Suc n] f s = res_bind (for_each [0..<n] f s) (f n)"
proof -
  have "for_each (xs @ ys) f s = res_bind (for_each xs f s) (for_each ys f)" for xs ys
    by (induction xs arbitrary: s) (auto simp: res_bind_def split: sum.splits)
  from this [of "[0..<n]" "[n]"] show ?thesis
    by (simp add: res_bind_def split: sum.splits)
qed

definition class_list :: "heap_t \<Rightarrow> nat \<Rightarrow> uint64_t list" where
  "class_list t i = hp_small_free t ! i @ hp_small_full t ! i"

definition small_list :: "heap_t \<Rightarrow> nat \<Rightarrow> uint64_t list" where
  "small_list t n = concat (map (class_list t) [0..<n])"

text \<open>The temporary heap after the first \<open>n\<close> size classes.\<close>

definition swept_classes :: "hstate \<Rightarrow> heap_t \<Rightarrow> nat \<Rightarrow> heap_t \<Rightarrow> bool" where
  "swept_classes s t n t' \<longleftrightarrow> hp_large t' = hp_large t \<and> length (hp_small_free t') = 5 \<and> length (hp_small_full t') = 5
     \<and> (\<forall>i < n. hp_small_free t' ! i = rev (filter (\<lambda>c. \<not> stays_full s c \<and> \<not> all_dead s c) (class_list t i))
          \<and> hp_small_full t' ! i = rev (filter (stays_full s) (class_list t i)))
     \<and> (\<forall>i. n \<le> i \<and> i < 5 \<longrightarrow> class_list t' i = class_list t i)
     \<and> hp_recyclable t' = (hp_recyclable t)[0 := rev (filter (\<lambda>c. \<not> stays_full s c \<and> all_dead s c) (small_list t n)) @ hp_recyclable t ! 0]"

lemma sweep_class_step:
  assumes "quiet env" "i < 5" "distinct (class_list t i)"
    "\<forall>c \<in> set (class_list t i). can_sweep s c \<and> bit (ck_m (hdr s c)) 0 \<and> class_of (ck_m (hdr s c)) = i"
  shows "\<exists>u'. sweep_class env i (s, t, u) = Inr (swept_list (class_list t i) s,
      t\<lparr>hp_small_free := (hp_small_free t)[i := rev (filter (\<lambda>c. \<not> stays_full s c \<and> \<not> all_dead s c) (class_list t i))],
        hp_small_full := (hp_small_full t)[i := rev (filter (stays_full s) (class_list t i))],
        hp_recyclable := (hp_recyclable t)[0 := rev (filter (\<lambda>c. \<not> stays_full s c \<and> all_dead s c) (class_list t i)) @ hp_recyclable t ! 0]\<rparr>, u')"
proof -
  let ?w = "\<lparr>sw_free = [], sw_full = [], sw_destroy = hp_recyclable t ! HEAP_RECYCLE_MIXED, sw_used = u\<rparr>"
  have "arr_get sizeclass_empty i = Inr (sizeclass_empty ! i)"
    using assms(2) by (simp add: arr_get_in)
  moreover have "res_bind (sweep_small env (sizeclass_empty ! i) (SIZECLASS_SIZE i) (hp_small_free t ! i) (s, ?w))
      (sweep_small env (sizeclass_empty ! i) (SIZECLASS_SIZE i) (hp_small_full t ! i)) =
      Inr (swept_list (class_list t i) s, fold (put_swept s) (class_list t i) ?w)"
    using sweep_small_list [OF assms(1,3,4), of ?w] by (simp add: class_list_def sweep_small_append)
  ultimately show ?thesis
    unfolding sweep_class_def
    by (auto simp: Let_def res_bind_def fold_put_swept HEAP_RECYCLE_MIXED_def split: sum.splits)
qed

lemma small_list_Suc: "small_list t (Suc n) = small_list t n @ class_list t n"
  by (simp add: small_list_def)

lemma small_list_le: "i < n \<Longrightarrow> set (class_list t i) \<subseteq> set (small_list t n)"
  by (auto simp: small_list_def)

lemma sweep_classes:
  assumes "quiet env" "n \<le> 5" "length (hp_small_free t) = 5" "length (hp_small_full t) = 5" "0 < length (hp_recyclable t)"
    "distinct (small_list t n)"
    "\<forall>i < n. \<forall>c \<in> set (class_list t i). can_sweep s c \<and> bit (ck_m (hdr s c)) 0 \<and> class_of (ck_m (hdr s c)) = i"
  shows "\<exists>t' u'. for_each [0..<n] (sweep_class env) (s, t, u) = Inr (swept_list (small_list t n) s, t', u') \<and> swept_classes s t n t'"
  using assms(2,6,7)
proof (induction n)
  case 0
  then show ?case
    using assms(3,4) by (simp add: small_list_def swept_classes_def)
next
  case (Suc n)
  let ?s = "swept_list (small_list t n) s"
  have d: "distinct (small_list t n)" "distinct (class_list t n)" "set (small_list t n) \<inter> set (class_list t n) = {}"
    using Suc.prems(2) by (simp_all add: small_list_Suc)
  obtain t' u' where r: "for_each [0..<n] (sweep_class env) (s, t, u) = Inr (?s, t', u')" and t': "swept_classes s t n t'"
  proof -
    have "n \<le> 5" "\<forall>i < n. \<forall>c \<in> set (class_list t i). can_sweep s c \<and> bit (ck_m (hdr s c)) 0 \<and> class_of (ck_m (hdr s c)) = i"
      using Suc.prems(1) Suc.prems(3) [THEN spec, THEN mp, OF less_SucI] by simp_all
    then show ?thesis
      using Suc.IH [OF _ d(1)] that by blast
  qed
  have cl: "class_list t' n = class_list t n"
    using t' Suc.prems(1) by (simp add: swept_classes_def)
  have out: "hs_chunks ?s c = hs_chunks s c" "hdr ?s c = hdr s c" if "c \<in> set (class_list t n)" for c
  proof -
    have "c \<notin> set (small_list t n)"
      using that d(3) by blast
    then show "hs_chunks ?s c = hs_chunks s c" "hdr ?s c = hdr s c"
      by (simp_all add: hdr_def swept_list_other)
  qed
  then have eq: "stays_full ?s c = stays_full s c" "all_dead ?s c = all_dead s c" "can_sweep ?s c = can_sweep s c"
    if "c \<in> set (class_list t n)" for c
    using that by (simp_all add: stays_full_def all_dead_def can_sweep_def)
  have f: "filter (stays_full ?s) (class_list t n) = filter (stays_full s) (class_list t n)"
    "filter (\<lambda>c. \<not> stays_full ?s c \<and> all_dead ?s c) (class_list t n) = filter (\<lambda>c. \<not> stays_full s c \<and> all_dead s c) (class_list t n)"
    "filter (\<lambda>c. \<not> stays_full ?s c \<and> \<not> all_dead ?s c) (class_list t n) = filter (\<lambda>c. \<not> stays_full s c \<and> \<not> all_dead s c) (class_list t n)"
    using eq by (auto intro: filter_cong)
  have "\<forall>c \<in> set (class_list t' n). can_sweep ?s c \<and> bit (ck_m (hdr ?s c)) 0 \<and> class_of (ck_m (hdr ?s c)) = n"
    using Suc.prems(3) [THEN spec, THEN mp, OF lessI] out eq(3) by (simp add: cl)
  then obtain u'' where "sweep_class env n (?s, t', u') = Inr (swept_list (class_list t n) ?s,
      t'\<lparr>hp_small_free := (hp_small_free t')[n := rev (filter (\<lambda>c. \<not> stays_full s c \<and> \<not> all_dead s c) (class_list t n))],
        hp_small_full := (hp_small_full t')[n := rev (filter (stays_full s) (class_list t n))],
        hp_recyclable := (hp_recyclable t')[0 := rev (filter (\<lambda>c. \<not> stays_full s c \<and> all_dead s c) (class_list t n)) @ hp_recyclable t' ! 0]\<rparr>, u'')"
    using sweep_class_step [OF assms(1), of n t' ?s u'] Suc.prems(1) d(2) unfolding cl f by auto
  moreover have "swept_classes s t (Suc n)
      (t'\<lparr>hp_small_free := (hp_small_free t')[n := rev (filter (\<lambda>c. \<not> stays_full s c \<and> \<not> all_dead s c) (class_list t n))],
        hp_small_full := (hp_small_full t')[n := rev (filter (stays_full s) (class_list t n))],
        hp_recyclable := (hp_recyclable t')[0 := rev (filter (\<lambda>c. \<not> stays_full s c \<and> all_dead s c) (class_list t n)) @ hp_recyclable t' ! 0]\<rparr>)"
    using t' Suc.prems(1) assms(5)
    by (auto simp: swept_classes_def nth_list_update small_list_Suc class_list_def less_Suc_eq)
  ultimately show ?case
    by (simp only: for_each_Suc r) (simp add: small_list_Suc swept_list_append)
qed

text \<open>The heap is taken apart, every chunk in use is swept, and the temporary heap has what is left.\<close>

definition heap_parts :: "hstate \<Rightarrow> hstate" where
  "heap_parts s = upd_heap (\<lambda>hp. hp\<lparr>hp_small_free := replicate 5 [], hp_small_full := replicate 5 [], hp_large := []\<rparr>) s"

definition live_list :: "heap_t \<Rightarrow> uint64_t list" where
  "live_list hp = small_list hp 5 @ hp_large hp"

lemma set_live_list: "shape_ok hp \<Longrightarrow> set (live_list hp) = active hp"
proof -
  assume s: "shape_ok hp"
  have "set (small_list hp 5) = (\<Union>i < 5. set (hp_small_free hp ! i) \<union> set (hp_small_full hp ! i))"
    by (auto simp: small_list_def class_list_def)
  also have "\<dots> = (\<Union>j < 10. set (heap_lists hp ! j))"
  proof (intro equalityI subsetI)
    fix c assume "c \<in> (\<Union>i < 5. set (hp_small_free hp ! i) \<union> set (hp_small_full hp ! i))"
    then obtain i where i: "i < 5" "c \<in> set (heap_lists hp ! i) \<union> set (heap_lists hp ! (5 + i))"
      using heap_lists_nth(1,2) [OF s] by auto
    then have "i < 10" "5 + i < 10" by simp_all
    then show "c \<in> (\<Union>j < 10. set (heap_lists hp ! j))"
      using i(2) by blast
  next
    fix c assume "c \<in> (\<Union>j < 10. set (heap_lists hp ! j))"
    then obtain j where j: "j < 10" "c \<in> set (heap_lists hp ! j)" by auto
    show "c \<in> (\<Union>i < 5. set (hp_small_free hp ! i) \<union> set (hp_small_full hp ! i))"
    proof (cases "j < 5")
      case True
      then show ?thesis
        using j heap_lists_nth(1) [OF s] by auto
    next
      case False
      then have "5 + (j - 5) = j" "j - 5 < 5" using j by auto
      then show ?thesis
        using j heap_lists_nth(2) [OF s, of "j - 5"] by (intro UN_I [of "j - 5"]) auto
    qed
  qed
  moreover have "active hp = (\<Union>j < 10. set (heap_lists hp ! j)) \<union> set (hp_large hp)"
    using heap_lists_nth(3) [OF s] by (auto simp: active_def less_Suc_eq eval_nat_numeral)
  ultimately show ?thesis
    by (simp add: live_list_def)
qed

definition after_sweep :: "hstate \<Rightarrow> heap_t \<Rightarrow> bool" where
  "after_sweep s t \<longleftrightarrow> shape_ok t
     \<and> (\<forall>i < 5. hp_small_free t ! i = rev (filter (\<lambda>c. \<not> stays_full s c \<and> \<not> all_dead s c) (class_list (hs_heap s) i))
          \<and> hp_small_full t ! i = rev (filter (stays_full s) (class_list (hs_heap s) i)))
     \<and> hp_large t = rev (filter (\<lambda>c. \<not> all_dead s c) (hp_large (hs_heap s)))
     \<and> (\<forall>i < 4. hp_recyclable t ! i = rev (filter (\<lambda>c. all_dead s c \<and> recycle_slot (ck_size (hdr s c)) = i) (hp_large (hs_heap s)))
          @ (if i = 0 then rev (filter (\<lambda>c. \<not> stays_full s c \<and> all_dead s c) (small_list (hs_heap s) 5)) else []))"

lemma heap_parts_sel [simp]:
  "hs_chunks (heap_parts s) = hs_chunks s" "hs_blocks (heap_parts s) = hs_blocks s" "hs_pagemap (heap_parts s) = hs_pagemap s"
  "hs_finalised (heap_parts s) = hs_finalised s" "hdr (heap_parts s) = hdr s" "can_sweep (heap_parts s) = can_sweep s"
  "stays_full (heap_parts s) = stays_full s" "all_dead (heap_parts s) = all_dead s"
  by (simp_all add: heap_parts_def upd_heap_def hdr_def can_sweep_def stays_full_def all_dead_def fun_eq_iff)

lemma endgc_sweep_result:
  assumes "quiet env" "shape_ok (hs_heap s)" "distinct (live_list (hs_heap s))"
    "\<forall>i < 5. \<forall>c \<in> set (class_list (hs_heap s) i). can_sweep s c \<and> bit (ck_m (hdr s c)) 0 \<and> class_of (ck_m (hdr s c)) = i"
    "\<forall>c \<in> set (hp_large (hs_heap s)). can_sweep s c \<and> \<not> bit (ck_m (hdr s c)) 0"
  shows "\<exists>t u. endgc_sweep env s = Inr (swept_list (live_list (hs_heap s)) (heap_parts s), t, u) \<and> after_sweep s t"
proof -
  let ?hp = "hs_heap s" and ?s = "heap_parts s"
  let ?t = "?hp\<lparr>hp_recyclable := replicate 4 []\<rparr>"
  let ?s1 = "swept_list (small_list ?hp 5) ?s"
  have "class_list ?t = class_list ?hp"
    by (simp add: class_list_def fun_eq_iff)
  then have cl: "class_list ?t = class_list ?hp" "small_list ?t = small_list ?hp"
    by (simp_all add: small_list_def [abs_def])
  have d: "distinct (small_list ?hp 5)" "distinct (hp_large ?hp)" "set (small_list ?hp 5) \<inter> set (hp_large ?hp) = {}"
    using assms(3) by (simp_all add: live_list_def)
  obtain t' u' where r: "for_each [0..<5] (sweep_class env) (?s, ?t, 0) = Inr (?s1, t', u')" and t': "swept_classes ?s ?t 5 t'"
    using sweep_classes [OF assms(1) order_refl, of ?t ?s 0] assms(2,4) d(1) unfolding cl by (auto simp: shape_ok_def cl)
  have out: "hs_chunks ?s1 c = hs_chunks s c" "hdr ?s1 c = hdr s c" if "c \<in> set (hp_large ?hp)" for c
  proof -
    have "c \<notin> set (small_list ?hp 5)"
      using that d(3) by blast
    then show "hs_chunks ?s1 c = hs_chunks s c" "hdr ?s1 c = hdr s c"
      by (simp_all add: swept_list_other hdr_swept_other)
  qed
  then have eq: "all_dead ?s1 c = all_dead s c" "can_sweep ?s1 c = can_sweep s c" if "c \<in> set (hp_large ?hp)" for c
    using that by (simp_all add: all_dead_def can_sweep_def)
  have tl: "hp_large t' = hp_large ?hp" "length (hp_recyclable t') = 4"
    "hp_recyclable t' ! 0 = rev (filter (\<lambda>c. \<not> stays_full s c \<and> all_dead s c) (small_list ?hp 5))" "\<And>i. 0 < i \<Longrightarrow> i < 4 \<Longrightarrow> hp_recyclable t' ! i = []"
    using t' by (simp_all add: swept_classes_def cl)
  obtain rec u where "fold (put_large ?s1) (hp_large ?hp) ([], hp_recyclable t', u') =
        (rev (filter (\<lambda>c. \<not> all_dead ?s1 c) (hp_large ?hp)) @ [], rec, u)"
    and rec: "length rec = 4" "\<forall>i < 4. rec ! i = rev (filter (\<lambda>c. all_dead ?s1 c \<and> recycle_slot (ck_size (hdr ?s1 c)) = i) (hp_large ?hp)) @ hp_recyclable t' ! i"
    using fold_put_large [OF tl(2), of ?s1 "hp_large ?hp" "[]" u'] by blast
  then have "sweep_large env (hp_large ?hp) (?s1, [], hp_recyclable t', u') =
      Inr (swept_list (live_list ?hp) ?s, rev (filter (\<lambda>c. \<not> all_dead s c) (hp_large ?hp)), rec, u)"
    using sweep_large_list [OF assms(1) d(2), of ?s1 "([], hp_recyclable t', u')"] assms(5) out eq
    by (simp add: live_list_def swept_list_append cong: filter_cong)
  then have "endgc_sweep env s = Inr (swept_list (live_list ?hp) ?s,
      t'\<lparr>hp_large := rev (filter (\<lambda>c. \<not> all_dead s c) (hp_large ?hp)), hp_recyclable := rec\<rparr>, u)"
    using r tl(1) by (simp add: endgc_sweep_def HEAP_RECYCLE_SIZECLASSES_def HEAP_SIZECLASSES_def HEAP_MAXBITS_def HEAP_MINBITS_def
        POOL_ALIGN_BITS_def heap_parts_def [symmetric])
  moreover have "after_sweep s (t'\<lparr>hp_large := rev (filter (\<lambda>c. \<not> all_dead s c) (hp_large ?hp)), hp_recyclable := rec\<rparr>)"
    using t' rec tl(3,4) out eq by (auto simp: after_sweep_def swept_classes_def shape_ok_def cl cong: filter_cong)
  ultimately show ?thesis by blast
qed

lemma list_of_5: "length xs = 5 \<Longrightarrow> \<exists>a b c d e. xs = [a, b, c, d, e]"
  by (auto simp: length_Suc_conv eval_nat_numeral)

lemma endgc_combine_empty:
  assumes "hp_small_free (hs_heap s) = replicate 5 []" "hp_small_full (hs_heap s) = replicate 5 []" "hp_large (hs_heap s) = []" "shape_ok t"
  shows "endgc_combine s t = Inr (upd_heap (\<lambda>hp. hp\<lparr>hp_small_free := hp_small_free t, hp_small_full := hp_small_full t, hp_large := hp_large t\<rparr>) s, t)"
proof -
  obtain a b c d e where f: "hp_small_free t = [a, b, c, d, e]"
    using assms(4) list_of_5 [of "hp_small_free t"] by (auto simp: shape_ok_def)
  obtain a' b' c' d' e' where g: "hp_small_full t = [a', b', c', d', e']"
    using assms(4) list_of_5 [of "hp_small_full t"] by (auto simp: shape_ok_def)
  obtain r0 rs where r: "hp_recyclable t = r0 # rs"
    using assms(4) by (cases "hp_recyclable t") (auto simp: shape_ok_def)
  have five: "[0..<HEAP_SIZECLASSES] = [0, 1, 2, 3, 4]"
    by (simp add: HEAP_SIZECLASSES_def HEAP_MAXBITS_def HEAP_MINBITS_def POOL_ALIGN_BITS_def upt_rec)
  have rep: "replicate 5 ([] :: uint64_t list) = [[], [], [], [], []]"
    by (simp add: numeral_eq_Suc)
  have t: "t\<lparr>hp_recyclable := r0 # rs\<rparr> = t"
    using r by (cases t) simp
  show ?thesis
    unfolding endgc_combine_def five
    by (simp add: combine_class_def Let_def upd_heap_def assms(1-3) rep f g r HEAP_RECYCLE_MIXED_def t)
qed

section \<open>Destroying recycled chunks\<close>

text \<open>The chunks of a list are gone, with their blocks; whatever else was in its place still is.\<close>

definition destroyed :: "uint64_t list \<Rightarrow> hstate \<Rightarrow> hstate \<Rightarrow> bool" where
  "destroyed cs s s' \<longleftrightarrow> hs_heap s' = hs_heap s \<and> hs_finalised s' = hs_finalised s \<and> pm_ok (hs_pagemap s')
     \<and> hs_chunks s' = hs_chunks s |` (- set cs) \<and> (\<forall>c g. chunk_at s c g \<longrightarrow> c \<notin> set cs \<longrightarrow> c \<noteq> 0 \<longrightarrow> chunk_at s' c g)"

lemma destroyed_refl: "pm_ok (hs_pagemap s) \<Longrightarrow> destroyed [] s s"
  by (simp add: destroyed_def restrict_map_def)

lemma destroyed_trans: "destroyed cs s t \<Longrightarrow> destroyed ds t u \<Longrightarrow> destroyed (cs @ ds) s u"
  by (auto simp: destroyed_def Int_commute)

lemma chunk_at_drop:
  assumes v: "chunk_at s v h" and c: "chunk_at s c g" "c \<noteq> v" "c \<noteq> 0"
    and pm: "\<And>a. ponyint_pagemap_get_chunk pm a = (if page_of (get_m h) \<le> page_of a \<and> page_of a < page_of (get_m h) + bsize h div 1024
        then Inr 0 else ponyint_pagemap_get_chunk (hs_pagemap s) a)"
    and s': "hs_chunks s' = (hs_chunks s)(v := None)" "hs_blocks s' = (hs_blocks s)(get_m h := None)" "hs_pagemap s' = pm"
  shows "chunk_at s' c g"
proof -
  have ok: "hdr_ok h" "hdr_ok g"
    using v c by (simp_all add: chunk_at_def)
  have al: "unat (get_m h) mod 1024 = 0" "bsize h mod 1024 = 0" "unat (get_m h) + bsize h \<le> 2 ^ 48"
    using ok(1) by (auto simp: hdr_ok_def bsize_def)
  have apart: "\<not> in_block (get_m h) (bsize h) a" if "in_block (get_m g) (bsize g) a" for a
    using that v c by (auto simp: chunk_at_def)
  have "in_block (get_m g) (bsize g) (get_m g)" "in_block (get_m h) (bsize h) (get_m h)"
    using ok by (auto simp: in_block_def hdr_ok_def bsize_def)
  then have "get_m g \<noteq> get_m h"
    using apart by force
  moreover have "ponyint_pagemap_get_chunk pm a = Inr c" if a: "in_block (get_m g) (bsize g) a" for a
  proof -
    have "unat a < 2 ^ 48"
      using a ok(2) by (simp add: in_block_def hdr_ok_def)
    then show ?thesis
      using apart [OF a] aligned_page [OF al, of a] a c(1) by (auto simp: pm chunk_at_def)
  qed
  ultimately show ?thesis
    using c s' by (simp add: chunk_at_def)
qed

lemma bsize_of_nat: "bit (ck_m h) 0 \<Longrightarrow> of_nat (bsize h) = POOL_ALIGN" "\<not> bit (ck_m h) 0 \<Longrightarrow> of_nat (bsize h) = ck_size h"
  by (simp_all add: bsize_def POOL_ALIGN_def)

lemma destroy_step:
  assumes env: "quiet env" and pm: "pm_ok (hs_pagemap s)" and v: "chunk_at s v h" "no_final h"
  shows "bit (ck_m h) 0 \<Longrightarrow> \<exists>s'. destroy_small env s v = Inr s' \<and> destroyed [v] s s'"
    "\<not> bit (ck_m h) 0 \<Longrightarrow> \<exists>s'. destroy_large env s v = Inr s' \<and> destroyed [v] s s'"
proof -
  have ok: "hdr_ok h" and ch: "hs_chunks s v = Some h" and bl: "hs_blocks s (get_m h) = Some (of_nat (bsize h))"
    using v(1) by (simp_all add: chunk_at_def)
  have fin: "destroyed [v] s s'" if "pm_ok pm'"
    "\<And>a. ponyint_pagemap_get_chunk pm' a = (if page_of (get_m h) \<le> page_of a \<and> page_of a < page_of (get_m h) + bsize h div 1024
        then Inr 0 else ponyint_pagemap_get_chunk (hs_pagemap s) a)"
    "s' = s\<lparr>hs_pagemap := pm', hs_blocks := (hs_blocks s)(get_m h := None), hs_chunks := (hs_chunks s)(v := None)\<rparr>" for s' pm'
  proof -
    have "chunk_at s' c g" if "chunk_at s c g" "c \<noteq> v" "c \<noteq> 0" for c g
      using chunk_at_drop [OF v(1) that \<open>\<And>a. ponyint_pagemap_get_chunk pm' a = _ a\<close>, of s'] \<open>s' = _\<close> by simp
    moreover have "(hs_chunks s)(v := None) = hs_chunks s |` (- {v})"
      by (auto simp: restrict_map_def fun_eq_iff)
    ultimately show ?thesis
      using that(1,3) by (auto simp: destroyed_def)
  qed
  show "\<exists>s'. destroy_small env s v = Inr s' \<and> destroyed [v] s s'" if small: "bit (ck_m h) 0"
  proof -
    have "final_small env s v FORCE_ALL_FINALISERS = Inr s"
      using v(2) ch small by (simp add: final_small_def no_final_def is_small_bit pony_assert_def)
    obtain pm' where p: "ponyint_pagemap_set (hs_pagemap s) (get_m h) 0 0 = Inr pm'" "pm_ok pm'"
      "\<forall>b. ponyint_pagemap_get_chunk pm' b = (if page_of b = page_of (get_m h) then Inr 0 else ponyint_pagemap_get_chunk (hs_pagemap s) b)"
      using pt.put_get [OF pm] by blast
    have "destroy_small env s v = Inr (s\<lparr>hs_pagemap := pm', hs_blocks := (hs_blocks s)(get_m h := None), hs_chunks := (hs_chunks s)(v := None)\<rparr>)"
      using p(1) ch bl small \<open>final_small env s v FORCE_ALL_FINALISERS = Inr s\<close>
      by (simp add: destroy_small_def is_small_bit pony_assert_def pagemap_set_def free_block_def free_chunk_def bsize_of_nat)
    moreover have "destroyed [v] s (s\<lparr>hs_pagemap := pm', hs_blocks := (hs_blocks s)(get_m h := None), hs_chunks := (hs_chunks s)(v := None)\<rparr>)"
      using small p(3) by (intro fin [OF p(2) _ refl]) (auto simp: bsize_def)
    ultimately show ?thesis by blast
  qed
  show "\<exists>s'. destroy_large env s v = Inr s' \<and> destroyed [v] s s'" if large: "\<not> bit (ck_m h) 0"
  proof -
    have f: "final_large env s v = Inr s"
      using v(2) ch large by (simp add: final_large_def no_final_def is_small_bit pony_assert_def large_get_bits)
    have sz: "unat (get_m h) + unat (ck_size h) \<le> 2 ^ 48" "unat (ck_size h) mod 1024 = 0" "get_m h \<noteq> 0"
      using ok large by (simp_all add: hdr_ok_def bsize_def)
    obtain pm' where p: "ponyint_pagemap_set_bulk (pages (unat (ck_size h))) (hs_pagemap s) (get_m h) 0 0 (ck_size h) = Inr pm'" "pm_ok pm'"
      "\<forall>b. ponyint_pagemap_get_chunk pm' b = (if page_of (get_m h) \<le> page_of b \<and> page_of b < page_of (get_m h) + pages (unat (ck_size h))
         then Inr 0 else ponyint_pagemap_get_chunk (hs_pagemap s) b)"
      using pt.bulk_get [OF pm sz(1)] by blast
    have "destroy_large env s v = Inr (s\<lparr>hs_pagemap := pm', hs_blocks := (hs_blocks s)(get_m h := None), hs_chunks := (hs_chunks s)(v := None)\<rparr>)"
      using p(1) ch bl large f sz(3)
      by (simp add: destroy_large_def is_small_bit pony_assert_def large_pagemap_def free_block_def free_chunk_def bsize_of_nat)
    moreover have "destroyed [v] s (s\<lparr>hs_pagemap := pm', hs_blocks := (hs_blocks s)(get_m h := None), hs_chunks := (hs_chunks s)(v := None)\<rparr>)"
      using large p(3) by (intro fin [OF p(2) _ refl]) (simp add: bsize_def pages_exact [OF sz(2)])
    ultimately show ?thesis by blast
  qed
qed

lemma succ_in_notin: "c \<notin> set l \<Longrightarrow> succ_in c l = None"
  by (induction c l rule: succ_in.induct) auto

lemma succ_in_split: "distinct (pre @ c # ys) \<Longrightarrow> succ_in c (pre @ c # ys) = Some (list_head ys)"
proof (induction pre)
  case Nil
  then show ?case by (cases ys) (auto simp: list_head_def)
next
  case (Cons d pre)
  have "c \<noteq> d" using Cons.prems by auto
  moreover obtain e es where "pre @ c # ys = e # es"
    by (cases pre) auto
  ultimately show ?case
    using Cons by auto
qed

lemma first_succ_split:
  assumes "distinct (concat ls)" "j < length ls" "ls ! j = pre @ c # ys"
  shows "first_succ c ls = list_head ys"
  using assms
proof (induction ls arbitrary: j)
  case (Cons l ls)
  show ?case
  proof (cases j)
    case 0
    then have "l = pre @ c # ys" "distinct (pre @ c # ys)"
      using Cons.prems by auto
    then show ?thesis
      using succ_in_split [of pre c ys] by simp
  next
    case (Suc i)
    have "c \<in> set (ls ! i)" "i < length ls"
      using Cons.prems Suc by auto
    then have "c \<in> set (concat ls)"
      by (auto intro!: bexI [of _ "ls ! i"])
    then have "c \<notin> set l"
      using Cons.prems(1) unfolding concat.simps distinct_append by blast
    then show ?thesis
      using Cons.IH [of i] Cons.prems Suc succ_in_notin [of c l] by simp
  qed
qed simp

lemma destroyed_keeps: "destroyed cs s s' \<Longrightarrow> chunk_at s c g \<Longrightarrow> c \<notin> set cs \<Longrightarrow> c \<noteq> 0 \<Longrightarrow> chunk_at s' c g"
  by (simp add: destroyed_def)

lemma destroy_list:
  assumes "quiet env" "pm_ok (hs_pagemap s)" "distinct (concat (heap_lists (hs_heap s)))" "j < length (heap_lists (hs_heap s))"
    "heap_lists (hs_heap s) ! j = pre @ ys" "length ys \<le> n"
    "\<forall>c \<in> set ys. c \<noteq> 0 \<and> (\<exists>h. chunk_at s c h \<and> no_final h \<and> (bit (ck_m h) 0 \<longrightarrow> mixed))"
  shows "\<exists>s'. chunk_list n (if mixed then destroy_mixed env else destroy_large env) s (list_head ys) = Inr s' \<and> destroyed ys s s'"
  using assms(2-)
proof (induction ys arbitrary: n s pre)
  case Nil
  then show ?case
    by (subst chunk_list.simps) (simp add: list_head_def destroyed_refl)
next
  case (Cons c ys)
  let ?f = "if mixed then destroy_mixed env else destroy_large env"
  obtain h where h: "c \<noteq> 0" "chunk_at s c h" "no_final h" "bit (ck_m h) 0 \<longrightarrow> mixed"
    using Cons.prems(6) by auto
  obtain m where n: "n = Suc m" "length ys \<le> m"
    using Cons.prems(5) by (cases n) auto
  have ld: "load s c = Inr h"
    using h(2) by (simp add: chunk_at_def)
  obtain s1 where s1: "?f s c = Inr s1" "destroyed [c] s s1"
    using destroy_step [OF assms(1) Cons.prems(1) h(2,3)] h(4) ld
    by (cases "bit (ck_m h) 0") (auto simp: destroy_mixed_def is_small_bit)
  have nx: "chunk_next s c = list_head ys"
    unfolding chunk_next_def using first_succ_split [OF Cons.prems(2,3,4)] .
  have hp: "hs_heap s1 = hs_heap s" "pm_ok (hs_pagemap s1)"
    using s1(2) by (simp_all add: destroyed_def)
  have "c \<notin> set ys"
    using distinct_concat_nth [OF Cons.prems(2,3)] Cons.prems(4) by auto
  then have "\<forall>d \<in> set ys. d \<noteq> 0 \<and> (\<exists>h. chunk_at s1 d h \<and> no_final h \<and> (bit (ck_m h) 0 \<longrightarrow> mixed))"
    using Cons.prems(6) destroyed_keeps [OF s1(2)] by fastforce
  moreover have "heap_lists (hs_heap s1) ! j = (pre @ [c]) @ ys"
    using Cons.prems(4) hp(1) by simp
  ultimately obtain s' where s': "chunk_list m ?f s1 (list_head ys) = Inr s'" "destroyed ys s1 s'"
    using Cons.IH [of s1 "pre @ [c]" m] Cons.prems(2,3) hp n(2) by auto
  have "chunk_list n ?f s (list_head (c # ys)) = Inr s'"
    using s1(1) s'(1) nx h(1) n(1) by (subst chunk_list.simps) (simp add: list_head_def Let_def)
  then show ?case
    using destroyed_trans [OF s1(2) s'(2)] by auto
qed

lemma destroy_recyclable_quiet:
  assumes env: "quiet env" and pm: "pm_ok (hs_pagemap s)" and hp: "shape_ok (hs_heap s)" "distinct (concat (heap_lists (hs_heap s)))"
    and rec: "\<forall>i < 4. \<forall>c \<in> set (hp_recyclable (hs_heap s) ! i). c \<noteq> 0 \<and> (\<exists>h. chunk_at s c h \<and> no_final h \<and> (bit (ck_m h) 0 \<longrightarrow> i = 0))"
    and n: "\<forall>i < 4. length (hp_recyclable (hs_heap s) ! i) \<le> n"
  shows "\<exists>s'. destroy_recyclable n env s = Inr s' \<and> destroyed (concat (hp_recyclable (hs_heap s))) s s'"
proof -
  let ?R = "hp_recyclable (hs_heap s)"
  let ?b = "\<lambda>i s. chunk_list n (if HEAP_RECYCLE_MIXED = i then destroy_mixed env else destroy_large env) s (list_head (hp_recyclable (hs_heap s) ! i))"
  have len: "length ?R = 4" "length (heap_lists (hs_heap s)) = 15"
    using hp(1) by (simp_all add: shape_ok_def)
  have "i \<le> 4 \<Longrightarrow> \<exists>s'. for_each [0..<i] ?b s = Inr s' \<and> destroyed (concat (take i ?R)) s s'" for i
  proof (induction i)
    case 0
    then show ?case using destroyed_refl [OF pm] by simp
  next
    case (Suc i)
    then obtain t where t: "for_each [0..<i] ?b s = Inr t" "destroyed (concat (take i ?R)) s t" by auto
    have th: "hs_heap t = hs_heap s" "pm_ok (hs_pagemap t)"
      using t(2) by (simp_all add: destroyed_def)
    have nth: "heap_lists (hs_heap t) ! (11 + i) = [] @ ?R ! i"
      using heap_lists_nth(4) [OF hp(1), of i] Suc.prems th(1) by simp
    have out: "c \<notin> set (concat (take i ?R))" if "c \<in> set (?R ! i)" for c
    proof
      assume "c \<in> set (concat (take i ?R))"
      then obtain k where "k < i" "c \<in> set (?R ! k)"
        using Suc.prems len(1) by (auto simp: in_set_conv_nth [of _ "take i ?R"])
      then show False
        using in_lists_distinct [OF hp(2), of "11 + i" "11 + k" c] that Suc.prems len(2)
          heap_lists_nth(4) [OF hp(1), of i] heap_lists_nth(4) [OF hp(1), of k] by simp
    qed
    have "\<forall>c \<in> set (?R ! i). c \<noteq> 0 \<and> (\<exists>h. chunk_at t c h \<and> no_final h \<and> (bit (ck_m h) 0 \<longrightarrow> HEAP_RECYCLE_MIXED = i))"
    proof
      fix c assume c: "c \<in> set (?R ! i)"
      have "i < 4" using Suc.prems by simp
      then obtain h where "c \<noteq> 0" "chunk_at s c h" "no_final h" "bit (ck_m h) 0 \<longrightarrow> i = 0"
        using rec c by blast
      then show "c \<noteq> 0 \<and> (\<exists>h. chunk_at t c h \<and> no_final h \<and> (bit (ck_m h) 0 \<longrightarrow> HEAP_RECYCLE_MIXED = i))"
        using destroyed_keeps [OF t(2) _ out [OF c]] by (auto simp: HEAP_RECYCLE_MIXED_def)
    qed
    then obtain u where u: "?b i t = Inr u" "destroyed (?R ! i) t u"
      using destroy_list [OF env th(2), of "11 + i" "[]" "?R ! i" n "HEAP_RECYCLE_MIXED = i"] hp(2) len(2) nth n Suc.prems th(1) by auto
    have "concat (take (Suc i) ?R) = concat (take i ?R) @ ?R ! i"
      using Suc.prems len(1) by (simp add: take_Suc_conv_app_nth)
    then show ?case
      using destroyed_trans [OF t(2) u(2)] u(1) t(1) by (simp only: for_each_Suc) (simp del: upt_Suc)
  qed
  from this [of 4] show ?thesis
    using len(1) by (simp add: destroy_recyclable_def HEAP_RECYCLE_SIZECLASSES_def)
qed

section \<open>A whole collection\<close>

text \<open>The list a chunk is in after the sweep.\<close>

definition place_of :: "hstate \<Rightarrow> uint64_t \<Rightarrow> nat" where
  "place_of t c = (let h = hdr t c in
     if bit (ck_m h) 0
     then if stays_full t c then 5 + class_of (ck_m h) else if all_dead t c then 11 else class_of (ck_m h)
     else if all_dead t c then 11 + recycle_slot (ck_size h) else 10)"

lemma list_of_4: "length xs = 4 \<Longrightarrow> \<exists>a b c d. xs = [a, b, c, d]"
  by (auto simp: length_Suc_conv eval_nat_numeral)

lemma mset_live_list:
  assumes "shape_ok hp"
  shows "mset (live_list hp) + mset (concat (hp_recyclable hp)) = mset (concat (heap_lists hp))"
proof -
  obtain a b c d e where f: "hp_small_free hp = [a, b, c, d, e]"
    using assms list_of_5 [of "hp_small_free hp"] by (auto simp: shape_ok_def)
  obtain a' b' c' d' e' where g: "hp_small_full hp = [a', b', c', d', e']"
    using assms list_of_5 [of "hp_small_full hp"] by (auto simp: shape_ok_def)
  show ?thesis
    by (simp add: live_list_def small_list_def class_list_def heap_lists_def f g upt_rec ac_simps)
qed

lemma distinct_live_list:
  assumes "shape_ok hp" "distinct (concat (heap_lists hp))"
  shows "distinct (live_list hp)"
proof -
  have "mset (live_list hp @ concat (hp_recyclable hp)) = mset (concat (heap_lists hp))"
    using mset_live_list [OF assms(1)] by simp
  then have "distinct (live_list hp @ concat (hp_recyclable hp))"
    using assms(2) mset_eq_imp_distinct_iff by blast
  then show ?thesis by simp
qed

lemma distinct_concatI:
  assumes "\<And>j. j < length ls \<Longrightarrow> distinct (ls ! j)"
    "\<And>i j c. i < length ls \<Longrightarrow> j < length ls \<Longrightarrow> c \<in> set (ls ! i) \<Longrightarrow> c \<in> set (ls ! j) \<Longrightarrow> i = j"
  shows "distinct (concat ls)"
  using assms
proof (induction ls)
  case (Cons l ls)
  have "distinct (concat ls)"
  proof (rule Cons.IH)
    show "distinct (ls ! j)" if "j < length ls" for j
      using Cons.prems(1) [of "Suc j"] that by simp
    show "i = j" if "i < length ls" "j < length ls" "c \<in> set (ls ! i)" "c \<in> set (ls ! j)" for i j c
      using Cons.prems(2) [of "Suc i" "Suc j" c] that by simp
  qed
  moreover have "c \<notin> set l" if c: "c \<in> set (concat ls)" for c
  proof
    assume "c \<in> set l"
    obtain i where "i < length ls" "c \<in> set (ls ! i)"
      using c by (auto simp: in_set_conv_nth [of _ ls])
    then show False
      using Cons.prems(2) [of 0 "Suc i" c] \<open>c \<in> set l\<close> by simp
  qed
  ultimately show ?case
    using Cons.prems(1) [of 0] by auto
qed simp

lemma class_list_live: "i < 5 \<Longrightarrow> set (class_list hp i) \<subseteq> set (live_list hp)"
  using small_list_le [of i 5 hp] by (auto simp: live_list_def)

text \<open>What the sweep needs of the state, and what the lists are then.\<close>

definition ready :: "hstate \<Rightarrow> bool" where
  "ready t \<longleftrightarrow> shape_ok (hs_heap t) \<and> distinct (live_list (hs_heap t))
     \<and> (\<forall>i < 5. \<forall>c \<in> set (class_list (hs_heap t) i). can_sweep t c \<and> bit (ck_m (hdr t c)) 0 \<and> class_of (ck_m (hdr t c)) = i)
     \<and> (\<forall>c \<in> set (hp_large (hs_heap t)). can_sweep t c \<and> \<not> bit (ck_m (hdr t c)) 0)"

lemma full_not_dead: "can_sweep t c \<Longrightarrow> stays_full t c \<Longrightarrow> \<not> all_dead t c"
  using places_nonempty [of "hdr t c"] by (auto simp: can_sweep_def sweepable_def stays_full_def all_dead_def)

lemma readyD:
  assumes "ready t"
  shows "i < 5 \<Longrightarrow> c \<in> set (class_list (hs_heap t) i) \<Longrightarrow> can_sweep t c \<and> bit (ck_m (hdr t c)) 0 \<and> class_of (ck_m (hdr t c)) = i"
    "c \<in> set (hp_large (hs_heap t)) \<Longrightarrow> can_sweep t c \<and> \<not> bit (ck_m (hdr t c)) 0"
    "active (hs_heap t) = set (live_list (hs_heap t))"
  using assms set_live_list [of "hs_heap t"] unfolding ready_def by simp_all

lemma in_live_cases:
  assumes "ready t" "c \<in> active (hs_heap t)"
  shows "(\<exists>i < 5. c \<in> set (class_list (hs_heap t) i)) \<or> c \<in> set (hp_large (hs_heap t))"
  using assms(2) unfolding readyD(3) [OF assms(1)] by (auto simp: live_list_def small_list_def)

lemma in_class_list:
  assumes "ready t" "c \<in> active (hs_heap t)"
  shows "can_sweep t c" "bit (ck_m (hdr t c)) 0 \<Longrightarrow> class_of (ck_m (hdr t c)) < 5 \<and> c \<in> set (class_list (hs_heap t) (class_of (ck_m (hdr t c))))"
    "\<not> bit (ck_m (hdr t c)) 0 \<Longrightarrow> c \<in> set (hp_large (hs_heap t))"
  using in_live_cases [OF assms] readyD(1) [OF assms(1), of _ c] readyD(2) [OF assms(1), of c] by auto

lemma in_class_iff:
  assumes "ready t"
  shows "i < 5 \<Longrightarrow> c \<in> set (class_list (hs_heap t) i) \<longleftrightarrow> c \<in> active (hs_heap t) \<and> bit (ck_m (hdr t c)) 0 \<and> class_of (ck_m (hdr t c)) = i"
    "c \<in> set (hp_large (hs_heap t)) \<longleftrightarrow> c \<in> active (hs_heap t) \<and> \<not> bit (ck_m (hdr t c)) 0"
    "c \<in> set (small_list (hs_heap t) 5) \<longleftrightarrow> c \<in> active (hs_heap t) \<and> bit (ck_m (hdr t c)) 0"
proof -
  have cl: "c \<in> active (hs_heap t)" if "i < 5" "c \<in> set (class_list (hs_heap t) i)" for i
    using that class_list_live [of i "hs_heap t"] readyD(3) [OF assms] by auto
  show "i < 5 \<Longrightarrow> c \<in> set (class_list (hs_heap t) i) \<longleftrightarrow> c \<in> active (hs_heap t) \<and> bit (ck_m (hdr t c)) 0 \<and> class_of (ck_m (hdr t c)) = i"
    using cl readyD(1) [OF assms, of i c] in_class_list(2) [OF assms, of c] by auto
  have "c \<in> set (hp_large (hs_heap t)) \<Longrightarrow> c \<in> active (hs_heap t)"
    using readyD(3) [OF assms] by (simp add: live_list_def)
  then show "c \<in> set (hp_large (hs_heap t)) \<longleftrightarrow> c \<in> active (hs_heap t) \<and> \<not> bit (ck_m (hdr t c)) 0"
    using readyD(2) [OF assms, of c] in_class_list(3) [OF assms, of c] by auto
  have "c \<in> set (small_list (hs_heap t) 5) \<longleftrightarrow> (\<exists>i < 5. c \<in> set (class_list (hs_heap t) i))"
    by (auto simp: small_list_def)
  then show "c \<in> set (small_list (hs_heap t) 5) \<longleftrightarrow> c \<in> active (hs_heap t) \<and> bit (ck_m (hdr t c)) 0"
    using cl readyD(1) [OF assms, of _ c] in_class_list(2) [OF assms, of c] by auto
qed

lemma after_sweep_places:
  assumes r: "ready t" and a: "after_sweep t hp" and j: "j < 15"
  shows "c \<in> set (heap_lists hp ! j) \<longleftrightarrow> c \<in> active (hs_heap t) \<and> place_of t c = j"
proof -
  have sh: "shape_ok hp" using a by (simp add: after_sweep_def)
  note nth = heap_lists_nth [OF sh]
  have excl: "c \<in> active (hs_heap t) \<Longrightarrow> stays_full t c \<Longrightarrow> \<not> all_dead t c"
    using full_not_dead in_class_list(1) [OF r] by auto
  have cl: "c \<in> active (hs_heap t) \<Longrightarrow> bit (ck_m (hdr t c)) 0 \<Longrightarrow> class_of (ck_m (hdr t c)) < 5"
    using in_class_list(2) [OF r] by auto
  note iff = in_class_iff [OF r]
  have "j < 5 \<or> (\<exists>i < 5. j = 5 + i) \<or> j = 10 \<or> (\<exists>i < 4. j = 11 + i)"
    using j by presburger
  then consider "j < 5" | i where "j = 5 + i" "i < 5" | "j = 10" | i where "j = 11 + i" "i < 4"
    by auto
  then show ?thesis
  proof cases
    case 1
    then have "hp_small_free hp ! j = rev (filter (\<lambda>c. \<not> stays_full t c \<and> \<not> all_dead t c) (class_list (hs_heap t) j))"
      using a by (simp add: after_sweep_def)
    then show ?thesis
      using 1 cl by (simp add: nth iff) (auto simp: place_of_def Let_def)
  next
    case 2
    then have "hp_small_full hp ! i = rev (filter (stays_full t) (class_list (hs_heap t) i))"
      using a by (simp add: after_sweep_def)
    then show ?thesis
      using 2 cl by (simp add: nth iff) (auto simp: place_of_def Let_def)
  next
    case 3
    have "hp_large hp = rev (filter (\<lambda>c. \<not> all_dead t c) (hp_large (hs_heap t)))"
      using a by (simp add: after_sweep_def)
    then show ?thesis
      using 3 cl by (simp add: nth iff) (auto simp: place_of_def Let_def)
  next
    case 4
    then have "hp_recyclable hp ! i = rev (filter (\<lambda>c. all_dead t c \<and> recycle_slot (ck_size (hdr t c)) = i) (hp_large (hs_heap t)))
          @ (if i = 0 then rev (filter (\<lambda>c. \<not> stays_full t c \<and> all_dead t c) (small_list (hs_heap t) 5)) else [])"
      using a by (simp add: after_sweep_def)
    then show ?thesis
      using 4 cl excl by (simp add: nth iff) (auto simp: place_of_def Let_def)
  qed
qed

lemma after_sweep_distinct:
  assumes r: "ready t" and a: "after_sweep t hp" and j: "j < 15"
  shows "distinct (heap_lists hp ! j)"
proof -
  have sh: "shape_ok hp" using a by (simp add: after_sweep_def)
  note nth = heap_lists_nth [OF sh]
  have d: "distinct (small_list (hs_heap t) 5)" "distinct (hp_large (hs_heap t))"
    "set (small_list (hs_heap t) 5) \<inter> set (hp_large (hs_heap t)) = {}"
    using r by (simp_all add: ready_def live_list_def)
  have dc: "distinct (class_list (hs_heap t) i)" if "i < 5" for i
    using distinct_concat_nth [of "map (class_list (hs_heap t)) [0..<5]" i] d(1) that by (simp add: small_list_def)
  have "j < 5 \<or> (\<exists>i < 5. j = 5 + i) \<or> j = 10 \<or> (\<exists>i < 4. j = 11 + i)"
    using j by presburger
  then consider "j < 5" | i where "j = 5 + i" "i < 5" | "j = 10" | i where "j = 11 + i" "i < 4"
    by auto
  then show ?thesis
    using a d dc by cases (auto simp: nth after_sweep_def)
qed

lemma marked_ready:
  assumes "heap_inv list_kind t"
  shows "ready t" "c \<in> active (hs_heap t) \<Longrightarrow> chunk_at t c (hdr t c) \<and> c \<noteq> 0"
proof -
  have sh: "shape_ok (hs_heap t)" and d: "distinct (concat (heap_lists (hs_heap t)))"
    using assms by (simp_all add: heap_inv_def)
  note nth = heap_lists_nth [OF sh]
  have at: "chunk_at t c (hdr t c) \<and> list_kind j (hdr t c) \<and> c \<noteq> 0" if j: "j < 15" "c \<in> set (heap_lists (hs_heap t) ! j)" for c j
  proof -
    obtain h where "chunk_at t c h" "list_kind j h" "hs_chunks t c = Some h" "c \<noteq> 0"
      by (rule inv_place [OF assms j])
    then show ?thesis by (simp add: hdr_def)
  qed
  show "chunk_at t c (hdr t c) \<and> c \<noteq> 0" if c: "c \<in> active (hs_heap t)"
  proof -
    obtain j where "j < 11" "c \<in> set (heap_lists (hs_heap t) ! j)"
      using c by (auto simp: active_def)
    then show ?thesis
      using at [of j c] by simp
  qed
  have small: "can_sweep t c \<and> bit (ck_m (hdr t c)) 0 \<and> class_of (ck_m (hdr t c)) = i" if i: "i < 5" "c \<in> set (class_list (hs_heap t) i)" for i c
  proof -
    have "c \<in> set (heap_lists (hs_heap t) ! i) \<or> c \<in> set (heap_lists (hs_heap t) ! (5 + i))"
      using i by (auto simp: class_list_def nth)
    moreover have "i < 10" "5 + i < 10" "i mod 5 = i" "(5 + i) mod 5 = i"
      using i(1) by simp_all
    ultimately obtain j where j: "j < 10" "j mod 5 = i" "c \<in> set (heap_lists (hs_heap t) ! j)"
      by blast
    then show ?thesis
      using at [of j c] by (auto simp: list_kind_def can_sweep_def sweepable_def chunk_at_def)
  qed
  have "can_sweep t c \<and> \<not> bit (ck_m (hdr t c)) 0" if c: "c \<in> set (hp_large (hs_heap t))" for c
    using at [of 10 c] c by (auto simp: list_kind_def can_sweep_def sweepable_def chunk_at_def nth)
  then show "ready t"
    using small sh distinct_live_list [OF sh d] unfolding ready_def by blast
qed

lemma swept_kind:
  assumes "can_sweep t c" "bit (ck_m (hdr t c)) 0 \<Longrightarrow> class_of (ck_m (hdr t c)) < 5"
  shows "mutator_kind (place_of t c) (sweep_hdr (hdr t c))"
proof -
  let ?h = "hdr t c" and ?g = "sweep_hdr (hdr t c)"
  have sw: "sweepable ?h" and ok: "hdr_ok ?h"
    using assms by (simp_all add: can_sweep_def sweepable_def)
  note v = sweep_hdr_views [OF ok]
  note m = sweep_hdr_marks [OF sw]
  show ?thesis
  proof (cases "bit (ck_m ?h) 0")
    case True
    note z = slots_zero_iff [OF sw True]
    have fin: "bit (ck_finalisers ?g) k \<Longrightarrow> k \<in> places ?g \<and> \<not> bit (ck_slots ?g) k" for k
      using m(4) [OF True, of k] sw True by (auto simp: sweepable_def v(1))
    have b: "bit (ck_m ?g) 0" "class_of (ck_m ?g) = class_of (ck_m ?h)" "bsize ?g = 1024" "slots_in ?g"
      using v True by (simp_all add: bsize_def slots_in_def)
    have "ck_finalisers ?g = 0" if "ck_slots ?g = sizeclass_empty ! class_of (ck_m ?h)"
      unfolding word_bits_eq using fin that b(1,2) by (auto simp: places_def)
    moreover have sp: "k \<in> places ?g \<and> \<not> bit (ck_finalisers ?g) k" if "bit (ck_slots ?g) k" for k
      using m(3) [OF True that] fin [of k] that by (auto simp: v(1))
    moreover have "stays_full t c \<longleftrightarrow> ck_slots ?g = 0" "all_dead t c \<longleftrightarrow> ck_slots ?g = sizeclass_empty ! class_of (ck_m ?h)"
      using z by (simp_all add: stays_full_def all_dead_def)
    ultimately show ?thesis
      using True b(1,2,3,4) fin assms(2) v(9)
      by (cases "stays_full t c"; cases "all_dead t c")
        (simp_all add: place_of_def Let_def mutator_kind_def list_kind_def no_final_def)
  next
    case False
    have b: "\<not> bit (ck_m ?g) 0" "bsize ?g = unat (ck_size ?h)" "ck_size ?g = ck_size ?h"
      using v False by (simp_all add: bsize_def)
    have p: "places ?h = {0}"
      using False by (simp add: places_def)
    have i: "in_use ?g 0 \<longleftrightarrow> is_marked ?h 0" "has_final ?g 0 \<longleftrightarrow> has_final ?h 0 \<and> is_marked ?h 0"
      using m(1,2) [of 0] p by simp_all
    have "recycle_slot (ck_size ?h) = 0 \<Longrightarrow> unat (ck_size ?h) = 1024"
      using recycle_slot_less(2) [of "ck_size ?h"] by simp
    then show ?thesis
      using False b i p v(9)
      by (auto simp: place_of_def Let_def all_dead_def mutator_kind_def list_kind_def no_final_def in_use_def has_final_def)
  qed
qed

lemma chunk_at_cong:
  "hs_chunks s' c = Some h' \<Longrightarrow> hs_blocks s' = hs_blocks s \<Longrightarrow> hs_pagemap s' = hs_pagemap s \<Longrightarrow> chunk_at s c h \<Longrightarrow>
   hdr_ok h' \<Longrightarrow> get_m h' = get_m h \<Longrightarrow> bsize h' = bsize h \<Longrightarrow> chunk_at s' c h'"
  by (simp add: chunk_at_def)

lemma place_of_less: "can_sweep t c \<Longrightarrow> (bit (ck_m (hdr t c)) 0 \<Longrightarrow> class_of (ck_m (hdr t c)) < 5) \<Longrightarrow> place_of t c < 15 \<and> (place_of t c < 11 \<longleftrightarrow> \<not> all_dead t c)"
  using full_not_dead [of t c] recycle_slot_less(1) [of "ck_size (hdr t c)"] by (auto simp: place_of_def Let_def)

text \<open>The lists while the old recyclable chunks are destroyed.\<close>

lemma mid_lists:
  assumes r: "ready t" and a: "after_sweep t hp" and d: "distinct (concat (heap_lists (hs_heap t)))"
    and mid: "mid = (hs_heap t)\<lparr>hp_small_free := hp_small_free hp, hp_small_full := hp_small_full hp, hp_large := hp_large hp\<rparr>"
  shows "shape_ok mid" "distinct (concat (heap_lists mid))" "j < 11 \<Longrightarrow> heap_lists mid ! j = heap_lists hp ! j"
proof -
  have sh: "shape_ok hp" "shape_ok (hs_heap t)" using a r by (simp_all add: after_sweep_def ready_def)
  then show shm: "shape_ok mid" by (simp add: shape_ok_def mid)
  have lo: "heap_lists mid ! j = heap_lists hp ! j" if "j < 11" for j
    using that sh by (simp add: heap_lists_def mid shape_ok_def nth_append)
  then show "j < 11 \<Longrightarrow> heap_lists mid ! j = heap_lists hp ! j" .
  have hi: "heap_lists mid ! j = heap_lists (hs_heap t) ! j" if "11 \<le> j" "j < 15" for j
    using that heap_lists_nth(4) [OF shm, of "j - 11"] heap_lists_nth(4) [OF sh(2), of "j - 11"] by (simp add: mid)
  have act: "c \<in> active (hs_heap t)" if "j < 11" "c \<in> set (heap_lists mid ! j)" for c j
    using that lo after_sweep_places [OF r a, of j c] by simp
  have dis: "c \<notin> active (hs_heap t)" if j: "11 \<le> j" "j < 15" "c \<in> set (heap_lists mid ! j)" for c j
  proof
    assume "c \<in> active (hs_heap t)"
    then obtain i where "i < 11" "c \<in> set (heap_lists (hs_heap t) ! i)"
      by (auto simp: active_def)
    then show False
      using in_lists_distinct [OF d, of i j c] j hi sh(2) by simp
  qed
  show "distinct (concat (heap_lists mid))"
  proof (rule distinct_concatI)
    show "distinct (heap_lists mid ! j)" if "j < length (heap_lists mid)" for j
      using that shm lo [of j] hi [of j] after_sweep_distinct [OF r a, of j] distinct_concat_nth [OF d, of j] sh(2)
      by (cases "j < 11") simp_all
    show "i = j" if ij: "i < length (heap_lists mid)" "j < length (heap_lists mid)" "c \<in> set (heap_lists mid ! i)" "c \<in> set (heap_lists mid ! j)" for i j c
    proof -
      have l: "i < 15" "j < 15" using ij shm by simp_all
      show ?thesis
      proof (cases "i < 11")
        case True
        then have "j < 11"
          using act [OF True ij(3)] dis [of j c] ij(4) l by fastforce
        then show ?thesis
          using True ij(3,4) lo after_sweep_places [OF r a, of i c] after_sweep_places [OF r a, of j c] by simp
      next
        case False
        then have "\<not> j < 11"
          using dis [of i c] act [of j c] ij l by fastforce
        then show ?thesis
          using False in_lists_distinct [OF d, of i j c] ij(3,4) hi l sh(2) by simp
      qed
    qed
  qed
qed

text \<open>The lists at the end: what was swept, with the overflow list sorted.\<close>

lemma end_lists:
  assumes r: "ready t" and a: "after_sweep t hp" and srt: "mset sorted_list = mset (hp_recyclable hp ! 3)"
    and fin: "heap_lists fin = (heap_lists hp)[14 := sorted_list]"
  shows "distinct (concat (heap_lists fin))" "j < 15 \<Longrightarrow> set (heap_lists fin ! j) = {c \<in> active (hs_heap t). place_of t c = j}"
proof -
  have sh: "shape_ok hp" using a by (simp add: after_sweep_def)
  have l14: "heap_lists hp ! 14 = hp_recyclable hp ! 3"
    using heap_lists_nth(4) [OF sh, of 3] by simp
  have len: "length (heap_lists fin) = 15" using fin sh by simp
  have s14: "set sorted_list = set (heap_lists hp ! 14)" "distinct sorted_list"
    using srt l14 after_sweep_distinct [OF r a, of 14] mset_eq_setD [OF srt] mset_eq_imp_distinct_iff [OF srt] by simp_all
  show st: "set (heap_lists fin ! j) = {c \<in> active (hs_heap t). place_of t c = j}" if "j < 15" for j
    using that s14(1) sh after_sweep_places [OF r a that] by (cases "j = 14") (auto simp: fin)
  show "distinct (concat (heap_lists fin))"
  proof (rule distinct_concatI)
    show "distinct (heap_lists fin ! j)" if "j < length (heap_lists fin)" for j
      using that s14(2) sh after_sweep_distinct [OF r a, of j] by (cases "j = 14") (auto simp: fin)
  qed (use st len in auto)
qed

lemma upd_heap_sel [simp]:
  "hs_heap (upd_heap f s) = f (hs_heap s)" "hs_chunks (upd_heap f s) = hs_chunks s" "hs_blocks (upd_heap f s) = hs_blocks s"
  "hs_pagemap (upd_heap f s) = hs_pagemap s" "hs_finalised (upd_heap f s) = hs_finalised s" "chunk_at (upd_heap f s) = chunk_at s"
  by (simp_all add: upd_heap_def chunk_at_def fun_eq_iff)

lemma endgc_next_lists: "hp_small_free (endgc_next env k hp) = hp_small_free hp" "hp_small_full (endgc_next env k hp) = hp_small_full hp"
  "hp_large (endgc_next env k hp) = hp_large hp" "hp_recyclable (endgc_next env k hp) = hp_recyclable hp"
  by (simp_all add: endgc_next_def Let_def)

lemma endgc_result:
  assumes env: "quiet env" and inv: "heap_inv list_kind t" and n: "\<forall>i < 4. length (hp_recyclable (hs_heap t) ! i) \<le> n"
  shows "\<exists>s'. ponyint_heap_endgc n env t k = Inr s' \<and> heap_inv mutator_kind s'
    \<and> active (hs_heap s') = {c \<in> active (hs_heap t). \<not> all_dead t c}
    \<and> (\<forall>c \<in> active (hs_heap s'). chunk_at s' c (sweep_hdr (hdr t c)))
    \<and> hs_finalised s' = hs_finalised t @ concat (map (\<lambda>c. dead_objs (hdr t c)) (live_list (hs_heap t)))"
proof -
  let ?hp = "hs_heap t" and ?L = "live_list (hs_heap t)"
  note rdy = marked_ready(1) [OF inv]
  have base: "shape_ok ?hp" "distinct (concat (heap_lists ?hp))" "pm_ok (hs_pagemap t)" "distinct ?L" "set ?L = active ?hp"
    using inv rdy readyD(3) [OF rdy] by (simp_all add: heap_inv_def ready_def)
  define T where "T = swept_list ?L (heap_parts t)"
  obtain hp u where sw: "endgc_sweep env t = Inr (T, hp, u)" and aft: "after_sweep t hp"
    using endgc_sweep_result [OF env, of t] rdy unfolding ready_def T_def by blast
  have sh: "shape_ok hp" using aft by (simp add: after_sweep_def)
  define mid where "mid = ?hp\<lparr>hp_small_free := hp_small_free hp, hp_small_full := hp_small_full hp, hp_large := hp_large hp\<rparr>"
  define T2 where "T2 = T\<lparr>hs_heap := mid\<rparr>"
  have "endgc_combine T hp = Inr (upd_heap (\<lambda>h. h\<lparr>hp_small_free := hp_small_free hp, hp_small_full := hp_small_full hp, hp_large := hp_large hp\<rparr>) T, hp)"
    by (rule endgc_combine_empty) (simp_all add: T_def heap_parts_def sh)
  then have comb: "endgc_combine T hp = Inr (T2, hp)"
    by (simp add: T2_def mid_def upd_heap_def T_def heap_parts_def)
  note ml = mid_lists [OF rdy aft base(2) mid_def]
  have tsel: "hs_blocks T2 = hs_blocks t" "hs_pagemap T2 = hs_pagemap t" "hs_heap T2 = mid" "hs_chunks T2 = hs_chunks T"
    by (simp_all add: T2_def T_def)
  have atT: "chunk_at T2 c (sweep_hdr (hdr t c))" if c: "c \<in> active ?hp" for c
  proof -
    have "hs_chunks T2 c = Some (sweep_hdr (hdr t c))"
      using swept_list_in [OF base(4), of c "heap_parts t"] c base(5) by (simp add: tsel T_def)
    moreover have "chunk_at t c (hdr t c)" using marked_ready(2) [OF inv c] by simp
    moreover from this have "hdr_ok (hdr t c)" by (simp add: chunk_at_def)
    ultimately show ?thesis
      using tsel sweep_hdr_views [of "hdr t c"] by (intro chunk_at_cong [of T2 c _ t "hdr t c"])
  qed
  have rec: "c \<notin> active ?hp \<and> c \<noteq> 0 \<and> (\<exists>h. chunk_at T2 c h \<and> no_final h \<and> (bit (ck_m h) 0 \<longrightarrow> i = 0))"
    if i: "i < 4" "c \<in> set (hp_recyclable ?hp ! i)" for c i
  proof -
    have ci: "c \<in> set (heap_lists ?hp ! (11 + i))" "11 + i < 15"
      using heap_lists_nth(4) [OF base(1) i(1)] i by simp_all
    obtain h where h: "chunk_at t c h" "list_kind (11 + i) h" "hs_chunks t c = Some h" "c \<noteq> 0"
      by (rule inv_place [OF inv ci(2,1)])
    have out: "c \<notin> active ?hp"
      using only_in(2) [OF inv ci(2,1)] by simp
    then have "hs_chunks T2 c = Some h"
      using h(3) base(5) by (simp add: tsel T_def swept_list_other)
    then have "chunk_at T2 c h"
      using h(1) tsel by (simp add: chunk_at_def)
    then show ?thesis
      using out h(2,4) by (auto simp: list_kind_def split: if_splits)
  qed
  have hr: "hp_recyclable mid = hp_recyclable ?hp" by (simp add: mid_def)
  obtain U where U: "destroy_recyclable n env T2 = Inr U" "destroyed (concat (hp_recyclable ?hp)) T2 U"
    using destroy_recyclable_quiet [OF env, of T2 n] ml(1,2) base(3) rec n unfolding tsel hr by blast
  have usel: "hs_heap U = mid" "hs_finalised U = hs_finalised T" "pm_ok (hs_pagemap U)"
    using U(2) by (simp_all add: destroyed_def tsel T2_def)
  have atU: "chunk_at U c (sweep_hdr (hdr t c))" "c \<noteq> 0" if c: "c \<in> active ?hp" for c
  proof -
    show "c \<noteq> 0" using marked_ready(2) [OF inv c] by simp
    have "c \<notin> set (concat (hp_recyclable ?hp))"
    proof
      assume "c \<in> set (concat (hp_recyclable ?hp))"
      then obtain i where "i < 4" "c \<in> set (hp_recyclable ?hp ! i)"
        using base(1) by (auto simp: in_set_conv_nth [of _ "hp_recyclable ?hp"] shape_ok_def)
      then show False using rec c by blast
    qed
    then show "chunk_at U c (sweep_hdr (hdr t c))"
      using destroyed_keeps [OF U(2) atT [OF c]] \<open>c \<noteq> 0\<close> by simp
  qed
  let ?r3 = "hp_recyclable hp ! 3"
  have kind: "mutator_kind (place_of t c) (sweep_hdr (hdr t c))" "place_of t c < 15" "place_of t c < 11 \<longleftrightarrow> \<not> all_dead t c" if "c \<in> active ?hp" for c
    using swept_kind [of t c] place_of_less [of t c] in_class_list(1,2) [OF rdy that] by auto
  have large: "all_large (hs_chunks U) ?r3"
    unfolding all_large_def
  proof
    fix c assume "c \<in> set ?r3"
    then have c: "c \<in> active ?hp" "place_of t c = 14"
      using after_sweep_places [OF rdy aft, of 14 c] heap_lists_nth(4) [OF sh, of 3] by simp_all
    then show "\<exists>h. hs_chunks U c = Some h \<and> \<not> get_chunk_is_small_chunk h"
      using atU(1) [OF c(1)] kind(1) [OF c(1)] by (auto simp: chunk_at_def mutator_kind_def list_kind_def is_small_bit)
  qed
  define srt where "srt = sort_key (chunk_size (hs_chunks U)) ?r3"
  have so: "sort_large_chunk_list_by_size (hs_chunks U) (hp_recyclable hp ! HEAP_RECYCLE_LARGE_OVERFLOW) = Inr srt"
    using sort_large_spec [OF large] by (simp add: srt_def HEAP_RECYCLE_LARGE_OVERFLOW_def HEAP_RECYCLE_SIZECLASSES_def)
  define S where "S = upd_heap (\<lambda>h. endgc_next env k (h\<lparr>hp_recyclable := (hp_recyclable hp)[3 := srt], hp_used := hp_used h + u\<rparr>)) U"
  have res: "ponyint_heap_endgc n env t k = Inr S"
    using sw comb U(1) so by (simp add: ponyint_heap_endgc_def S_def HEAP_RECYCLE_LARGE_OVERFLOW_def HEAP_RECYCLE_SIZECLASSES_def)
  have hl: "heap_lists (hs_heap S) = (heap_lists hp)[14 := srt]" and shS: "shape_ok (hs_heap S)" and r3: "hp_recyclable (hs_heap S) ! 3 = srt"
    using sh by (simp_all add: S_def endgc_next_lists usel mid_def heap_lists_def shape_ok_def list_update_append)
  note el = end_lists [OF rdy aft _ hl]
  have lists: "j < 15 \<Longrightarrow> set (heap_lists (hs_heap S) ! j) = {c \<in> active ?hp. place_of t c = j}" for j
    using el(2) by (simp add: srt_def)
  have atS: "chunk_at S c (sweep_hdr (hdr t c))" if "c \<in> active ?hp" for c
    using atU [OF that] by (simp add: S_def)
  have act: "active (hs_heap S) = {c \<in> active ?hp. \<not> all_dead t c}"
  proof -
    have "active (hs_heap S) = {c \<in> active ?hp. place_of t c < 11}"
      using lists by (auto simp: active_def [of "hs_heap S"])
    then show ?thesis
      using kind(3) by auto
  qed
  have "lists_ok mutator_kind S (heap_lists (hs_heap S))"
    unfolding lists_ok_def
  proof (intro allI impI ballI)
    fix j c assume "j < 15" "c \<in> set (heap_lists (hs_heap S) ! j)"
    then have c: "c \<in> active ?hp" "place_of t c = j"
      using lists by auto
    then show "c \<noteq> 0 \<and> (\<exists>h. chunk_at S c h \<and> mutator_kind j h)"
      using atU(2) [OF c(1)] atS [OF c(1)] kind(1) [OF c(1)] by blast
  qed
  moreover have "sorted (map (chunk_size (hs_chunks S)) (hp_recyclable (hs_heap S) ! 3))"
    unfolding r3 by (simp add: S_def srt_def)
  ultimately have "heap_inv mutator_kind S"
    using shS el(1) usel(3) by (simp add: heap_inv_def srt_def S_def)
  moreover have "hs_finalised S = hs_finalised t @ concat (map (\<lambda>c. dead_objs (hdr t c)) ?L)"
    using usel(2) swept_list_finalised [OF base(4), of "heap_parts t"] by (simp add: S_def T_def)
  ultimately show ?thesis
    using res act atS by auto
qed

lemma same_place:
  assumes "chunk_at s c h" "k \<in> places h" "in_block (oaddr h k) (osize h) p"
    "chunk_at s d g" "l \<in> places g" "in_block (oaddr g l) (osize g) p"
  shows "d = c \<and> g = h \<and> l = k"
proof -
  have ok: "hdr_ok h" "hdr_ok g"
    using assms by (simp_all add: chunk_at_def)
  have b: "in_block (get_m h) (bsize h) p" "in_block (get_m g) (bsize g) p"
    using assms(3,6) oaddr_block(1,2) [OF ok(1) assms(2)] oaddr_block(1,2) [OF ok(2) assms(5)] by (auto simp: in_block_def)
  then have "c = d" "h = g"
    using assms(1,4) by (auto simp: chunk_at_def)
  then show ?thesis
    using hslot_iff [OF ok(1) b(1)] assms by auto
qed

lemma distinct_concat_map:
  "distinct xs \<Longrightarrow> (\<And>x. x \<in> set xs \<Longrightarrow> distinct (f x)) \<Longrightarrow>
   (\<And>x y. x \<in> set xs \<Longrightarrow> y \<in> set xs \<Longrightarrow> x \<noteq> y \<Longrightarrow> set (f x) \<inter> set (f y) = {}) \<Longrightarrow> distinct (concat (map f xs))"
  by (induction xs) fastforce+

text \<open>The address of an object that a mark lies in.\<close>

definition reached :: "hstate \<Rightarrow> uint64_t set \<Rightarrow> uint64_t \<Rightarrow> bool" where
  "reached s M a \<longleftrightarrow> (\<exists>n. (a, n) \<in> heap_objs s \<and> (\<exists>p \<in> M. in_block a n p))"

text \<open>What marking means for the chunks, in terms of the objects at the start.\<close>

lemma marking_place:
  assumes m: "marking s t M" and inv: "heap_inv mutator_kind s" and M: "\<forall>p \<in> M. \<exists>(a, n) \<in> heap_objs s. in_block a n p"
    and c: "c \<in> active (hs_heap s)" "chunk_at s c h" and k: "k \<in> places h"
  shows "same_hdr h (hdr t c)" "is_marked (hdr t c) k \<longleftrightarrow> in_use h k \<and> (\<exists>p \<in> M. in_block (oaddr h k) (osize h) p)"
    "is_marked (hdr t c) k \<longleftrightarrow> reached s M (oaddr h k)"
proof -
  obtain h' where h': "hs_chunks t c = Some h'" "same_hdr h h'"
    "\<forall>k \<in> places h. is_marked h' k \<longleftrightarrow> (\<exists>p \<in> M. in_block (oaddr h k) (osize h) p)"
    using m c unfolding marking_def chunk_at_def by force
  then have hd: "hdr t c = h'" by (simp add: hdr_def)
  show "same_hdr h (hdr t c)" using h'(2) hd by simp
  have use: "in_use h k" if p: "p \<in> M" "in_block (oaddr h k) (osize h) p" for p
  proof -
    obtain a n where a: "(a, n) \<in> heap_objs s" "in_block a n p"
      using M p(1) by blast
    obtain d g l where "chunk_at s d g" "l \<in> places g" "in_use g l" "a = oaddr g l" "n = osize g"
      by (rule chunk_of_obj [OF inv a(1)])
    then show ?thesis
      using same_place [OF c(2) k p(2), of d g l] a(2) by auto
  qed
  then show 1: "is_marked (hdr t c) k \<longleftrightarrow> in_use h k \<and> (\<exists>p \<in> M. in_block (oaddr h k) (osize h) p)"
    using h'(3) k hd by blast
  have ch: "hs_chunks s c = Some h" using c(2) by (simp add: chunk_at_def)
  show "is_marked (hdr t c) k \<longleftrightarrow> reached s M (oaddr h k)"
  proof
    assume "is_marked (hdr t c) k"
    then have "in_use h k" "\<exists>p \<in> M. in_block (oaddr h k) (osize h) p"
      using 1 by simp_all
    moreover have "(oaddr h k, osize h) \<in> heap_objs s"
      using c(1) ch k \<open>in_use h k\<close> by (force simp: heap_objs_def chunk_objs_def)
    ultimately show "reached s M (oaddr h k)"
      unfolding reached_def by blast
  next
    assume "reached s M (oaddr h k)"
    then obtain n p where n: "(oaddr h k, n) \<in> heap_objs s" "p \<in> M" "in_block (oaddr h k) n p"
      unfolding reached_def by blast
    obtain d g l where g: "chunk_at s d g" "l \<in> places g" "in_use g l" "oaddr h k = oaddr g l" "n = osize g"
      by (rule chunk_of_obj [OF inv n(1)])
    then have "g = h" "l = k"
      using place_unique [OF c(2) k g(1,2,4)] by simp_all
    then show "is_marked (hdr t c) k"
      using 1 n(2,3) g(3,5) by auto
  qed
qed

lemma tracked_iff:
  assumes "\<And>c. c \<in> active (hs_heap s) \<Longrightarrow> chunk_at s c (H c)"
  shows "tracked s a \<longleftrightarrow> (\<exists>c \<in> active (hs_heap s). \<exists>k \<in> places (H c). oaddr (H c) k = a \<and> has_final (H c) k)"
proof -
  have "h = H c" if "c \<in> active (hs_heap s)" "chunk_at s c h" for c h
    using assms [OF that(1)] that(2) by (simp add: chunk_at_def)
  then show ?thesis
    unfolding tracked_def using assms by blast
qed

lemma collect_result:
  assumes m: "marking s t M" and inv: "heap_inv mutator_kind s" and M: "\<forall>p \<in> M. \<exists>(a, n) \<in> heap_objs s. in_block a n p"
    and env: "quiet env" and n: "\<forall>i < 4. length (hp_recyclable (hs_heap s) ! i) \<le> n"
  shows "\<exists>s' dead. ponyint_heap_endgc n env t k = Inr s' \<and> heap_inv mutator_kind s'
    \<and> heap_objs s' = {(a, n) \<in> heap_objs s. reached s M a}
    \<and> hs_finalised s' = hs_finalised s @ dead \<and> distinct dead \<and> set dead = {a. tracked s a \<and> \<not> reached s M a}
    \<and> (\<forall>a. tracked s' a \<longleftrightarrow> tracked s a \<and> reached s M a)"
proof -
  have tinv: "heap_inv list_kind t" and hh: "hs_heap t = hs_heap s" "hs_finalised t = hs_finalised s"
    using m by (simp_all add: marking_def)
  let ?A = "active (hs_heap s)" and ?L = "live_list (hs_heap s)"
  obtain s' where res: "ponyint_heap_endgc n env t k = Inr s'" and inv': "heap_inv mutator_kind s'"
    and act: "active (hs_heap s') = {c \<in> ?A. \<not> all_dead t c}"
    and at: "\<And>c. c \<in> active (hs_heap s') \<Longrightarrow> chunk_at s' c (sweep_hdr (hdr t c))"
    and fin: "hs_finalised s' = hs_finalised s @ concat (map (\<lambda>c. dead_objs (hdr t c)) ?L)"
    using endgc_result [OF env tinv, of n k] n unfolding hh by blast
  define H where "H = (\<lambda>c. the (hs_chunks s c))"
  have hc: "chunk_at s c (H c)" if "c \<in> ?A" for c
    using active_chunk [OF inv that] by (auto simp: chunk_at_def H_def)
  have sw: "sweepable (hdr t c)" "hdr_ok (hdr t c)" if "c \<in> ?A" for c
    using in_class_list(1) [OF marked_ready(1) [OF tinv], of c] that hh by (simp_all add: can_sweep_def sweepable_def)
  have L: "distinct ?L" "set ?L = ?A"
    using marked_ready(1) [OF tinv] readyD(3) [OF marked_ready(1) [OF tinv]] hh by (simp_all add: ready_def)
  have pl: "places (hdr t c) = places (H c)" "oaddr (hdr t c) = oaddr (H c)" "osize (hdr t c) = osize (H c)" "has_final (hdr t c) = has_final (H c)"
    if "c \<in> ?A" for c
    using same_hdr_views [of "H c" "hdr t c"] marking_place(1) [OF m inv M that hc [OF that] places_nonempty] hc [OF that]
    by (simp_all add: chunk_at_def)
  have mk: "is_marked (hdr t c) k \<longleftrightarrow> reached s M (oaddr (H c) k)" "is_marked (hdr t c) k \<Longrightarrow> in_use (H c) k" if "c \<in> ?A" "k \<in> places (H c)" for c k
    using marking_place(2,3) [OF m inv M that(1) hc [OF that(1)] that(2)] by blast+
  have dead: "set (dead_objs (hdr t c)) = {oaddr (H c) k | k. k \<in> places (H c) \<and> has_final (H c) k \<and> \<not> reached s M (oaddr (H c) k)}"
    if "c \<in> ?A" for c
    using sweep_hdr_marks(5) [OF sw(1) [OF that]] mk(1) [OF that] unfolding pl [OF that] by blast
  have trk: "tracked s a \<longleftrightarrow> (\<exists>c \<in> ?A. \<exists>k \<in> places (H c). oaddr (H c) k = a \<and> has_final (H c) k)" for a
    using hc by (rule tracked_iff)
  let ?dead = "concat (map (\<lambda>c. dead_objs (hdr t c)) ?L)"
  have "set ?dead = (\<Union>c \<in> ?A. {oaddr (H c) k | k. k \<in> places (H c) \<and> has_final (H c) k \<and> \<not> reached s M (oaddr (H c) k)})"
    using dead L(2) by simp
  then have 1: "set ?dead = {a. tracked s a \<and> \<not> reached s M a}"
    using trk by auto
  have 2: "distinct ?dead"
  proof (rule distinct_concat_map [OF L(1)])
    show "distinct (dead_objs (hdr t c))" if "c \<in> set ?L" for c
      using sweep_hdr_marks(6) [OF sw(1)] that L(2) by simp
    show "set (dead_objs (hdr t c)) \<inter> set (dead_objs (hdr t d)) = {}" if "c \<in> set ?L" "d \<in> set ?L" "c \<noteq> d" for c d
      using dead [of c] dead [of d] that L(2) place_unique [OF hc [of c] _ hc [of d]] by fastforce
  qed
  have objs: "chunk_objs (sweep_hdr (hdr t c)) = {(oaddr (H c) k, osize (H c)) | k. k \<in> places (H c) \<and> reached s M (oaddr (H c) k)}"
    if "c \<in> ?A" for c
    using sweep_hdr_marks(1) [OF sw(1) [OF that]] sweep_hdr_views(1,2,4) [OF sw(2) [OF that]] pl [OF that] mk(1) [OF that]
    by (auto simp: chunk_objs_def)
  have alive: "c \<in> active (hs_heap s')" if "c \<in> ?A" "k \<in> places (H c)" "reached s M (oaddr (H c) k)" for c k
    using that mk(1) [OF that(1,2)] pl(1) [OF that(1)] by (auto simp: act all_dead_def)
  have "heap_objs s' = (\<Union>c \<in> active (hs_heap s'). chunk_objs (sweep_hdr (hdr t c)))"
    unfolding heap_objs_def using at by (intro SUP_cong refl) (simp add: chunk_at_def)
  also have "\<dots> = {(oaddr (H c) k, osize (H c)) | c k. c \<in> ?A \<and> k \<in> places (H c) \<and> reached s M (oaddr (H c) k)}"
    using objs alive act by auto
  also have "\<dots> = {(a, n) \<in> heap_objs s. reached s M a}"
  proof -
    have "(oaddr (H c) k, osize (H c)) \<in> heap_objs s" if "c \<in> ?A" "k \<in> places (H c)" "reached s M (oaddr (H c) k)" for c k
      using that mk [OF that(1,2)] hc [OF that(1)] by (force simp: heap_objs_def chunk_objs_def chunk_at_def)
    moreover have "\<exists>c k. a = oaddr (H c) k \<and> n = osize (H c) \<and> c \<in> ?A \<and> k \<in> places (H c)" if o: "(a, n) \<in> heap_objs s" for a n
    proof -
      obtain c h k where "c \<in> ?A" "chunk_at s c h" "k \<in> places h" "a = oaddr h k" "n = osize h"
        by (rule chunk_of_obj [OF inv o])
      moreover from this(2) have "H c = h" by (simp add: H_def chunk_at_def)
      ultimately show ?thesis by blast
    qed
    ultimately show ?thesis by fast
  qed
  finally have 3: "heap_objs s' = {(a, n) \<in> heap_objs s. reached s M a}" .
  have 4: "tracked s' a \<longleftrightarrow> tracked s a \<and> reached s M a" for a
  proof -
    have "tracked s' a \<longleftrightarrow> (\<exists>c \<in> active (hs_heap s'). \<exists>k \<in> places (sweep_hdr (hdr t c)). oaddr (sweep_hdr (hdr t c)) k = a \<and> has_final (sweep_hdr (hdr t c)) k)"
      using at by (rule tracked_iff)
    also have "\<dots> \<longleftrightarrow> (\<exists>c \<in> active (hs_heap s'). \<exists>k \<in> places (H c). oaddr (H c) k = a \<and> has_final (H c) k \<and> reached s M (oaddr (H c) k))"
      using sweep_hdr_marks(2) [OF sw(1)] sweep_hdr_views(1,2) [OF sw(2)] pl mk(1) act by (intro bex_cong refl) auto
    also have "\<dots> \<longleftrightarrow> tracked s a \<and> reached s M a"
      unfolding trk using alive act by blast
    finally show ?thesis .
  qed
  show ?thesis
    using res inv' fin 1 2 3 4 by blast
qed

text \<open>
  C6: When no finaliser allocates, a collection frees exactly the objects that were not reached.  Marking any addresses inside objects of the
  heap and ending the collection returns, without a failed assertion.  Afterwards the
  heap is well formed, its objects are those that contain a marked address, in their places, and the finalisers that
  ran are those of the other objects that have one, each once; the fuel is the length of the recycling lists.
\<close>

theorem heap_collect:
  assumes "heap_inv mutator_kind s" "\<forall>(deep, p) \<in> set ms. \<exists>(a, n) \<in> heap_objs s. in_block a n p"
    "\<forall>p. he_final env p = Some []" "\<forall>i < 4. length (hp_recyclable (hs_heap s) ! i) \<le> n"
  shows "\<exists>t s' dead. for_each ms mark_address s = Inr t \<and> ponyint_heap_endgc n env t k = Inr s' \<and> heap_inv mutator_kind s'
    \<and> heap_objs s' = {(a, n) \<in> heap_objs s. reached s (snd ` set ms) a}
    \<and> hs_finalised s' = hs_finalised s @ dead \<and> distinct dead
    \<and> set dead = {a. tracked s a \<and> \<not> reached s (snd ` set ms) a}
    \<and> (\<forall>a. tracked s' a \<longleftrightarrow> tracked s a \<and> reached s (snd ` set ms) a)"
proof -
  obtain t where t: "for_each ms mark_address s = Inr t" "marking s t (snd ` set ms)"
    using marking_all [OF marking_start(1) [OF assms(1)] assms(1,2)] by auto
  have "\<forall>p \<in> snd ` set ms. \<exists>(a, n) \<in> heap_objs s. in_block a n p"
    using assms(2) by fastforce
  from collect_result [OF t(2) assms(1) this _ assms(4), of env k] show ?thesis
    using t(1) assms(3) by (auto simp: quiet_def)
qed

theorem heap_collect_witness:
  "\<exists>m s n t s' dead. ponyint_heap_alloc wit_env (heap_start wit_env) 40 TRACK_ALL_FINALISERS (wit_answer 4096 65536) = Inr (m, s)
    \<and> for_each [] mark_address s = Inr t \<and> ponyint_heap_endgc n wit_env t 0 = Inr s' \<and> heap_objs s' = {} \<and> m \<in> set dead
    \<and> hs_finalised s' = hs_finalised s @ dead"
proof -
  obtain m s where a: "ponyint_heap_alloc wit_env (heap_start wit_env) 40 TRACK_ALL_FINALISERS (wit_answer 4096 65536) = Inr (m, s)"
    "heap_inv mutator_kind s" "tracked s m"
    using heap_alloc_spec [OF heap_start_inv(1), of 40 TRACK_ALL_FINALISERS wit_env "wit_answer 4096 65536" wit_env]
      pool_ok_start [of 4096 65536 1024 wit_env] allocates_tracked by (fastforce simp: pages_def)
  define n where "n = Max ((\<lambda>i. length (hp_recyclable (hs_heap s) ! i)) ` {..<4})"
  have n: "\<forall>i < 4. length (hp_recyclable (hs_heap s) ! i) \<le> n"
    by (auto simp: n_def intro: Max_ge)
  have "\<forall>p. he_final wit_env p = Some []" "\<forall>(deep, p) \<in> set []. \<exists>(a, n) \<in> heap_objs s. in_block a n p"
    by (simp_all add: wit_env_def)
  from heap_collect [OF a(2) this(2,1) n, of 0] obtain s' dead where
    "ponyint_heap_endgc n wit_env s 0 = Inr s'" "heap_objs s' = {}" "set dead = Collect (tracked s)"
    "hs_finalised s' = hs_finalised s @ dead"
    by (auto simp: reached_def)
  moreover from this(3) have "m \<in> set dead"
    using a(3) by simp
  moreover have "for_each [] mark_address s = Inr s"
    by simp
  ultimately show ?thesis
    using a(1) by blast
qed

section \<open>Finalisers that allocate\<close>

text \<open>
  Six objects of 512 bytes in three chunks, every other one with a finaliser; the finaliser of the first allocates two
  more objects.
\<close>

definition skip_env :: henv where
  "skip_env = wit_env\<lparr>he_final := (\<lambda>p. if p = 65536 then Some [(512, TRACK_NO_FINALISERS, wit_answer 320 655360),
     (512, TRACK_NO_FINALISERS, wit_answer 352 720896)] else Some [])\<rparr>"

definition skip_allocs :: "request list" where
  "skip_allocs = [(512, TRACK_ALL_FINALISERS, wit_answer 32 65536), (512, TRACK_NO_FINALISERS, wit_answer 64 131072),
     (512, TRACK_ALL_FINALISERS, wit_answer 96 196608), (512, TRACK_NO_FINALISERS, wit_answer 128 262144),
     (512, TRACK_ALL_FINALISERS, wit_answer 160 327680), (512, TRACK_NO_FINALISERS, wit_answer 192 393216)]"

definition skip_run :: "(hstate \<times> hstate) res" where
  "skip_run = res_bind (run_requests skip_env (heap_start skip_env) skip_allocs) (\<lambda>s.
     res_bind (for_each [(True, 65536), (True, 196608), (True, 327680)] mark_address s) (\<lambda>s.
       res_bind (ponyint_heap_endgc 10 skip_env s 0) (\<lambda>s.
         res_bind (ponyint_heap_final 20 skip_env s) (\<lambda>s'. Inr (s, s')))))"

definition final_bits :: "hstate \<Rightarrow> (uint64_t \<times> uint32_t) list" where
  "final_bits s = map (\<lambda>c. case hs_chunks s c of None \<Rightarrow> (0, 0) | Some h \<Rightarrow> (get_m h, ck_finalisers h)) [32, 96, 160]"

text \<open>
  The finalisation of a dying actor's heap skips objects when a finaliser allocates.  The walk of \<open>chunk_list\<close> reads the
  next chunk first, but the allocations of the finaliser move that chunk to the list of full chunks; the chunks behind
  it in the list of free ones are not visited.  In this run three objects have a finaliser before
  \<open>ponyint_heap_final\<close>; it finalises the first two and returns with the third one's still to be run.
\<close>

lemma heap_final_skips:
  "case skip_run of Inl _ \<Rightarrow> False | Inr (s, s') \<Rightarrow>
     final_bits s = [(65536, 1), (196608, 1), (327680, 1)] \<and> hs_finalised s = []
     \<and> hs_finalised s' = [65536, 196608] \<and> final_bits s' = [(65536, 0), (196608, 0), (327680, 1)]"
  by code_simp

end
