(* ===== verification/Gc_Heap.thy ===== *)
theory Gc_Heap
  imports Trace Heap_Collect
begin

text \<open>
  The collector on the heap of the running actor.  \<^verbatim>\<open>try_gc\<close> of \<^verbatim>\<open>actor/actor.c\<close> opens a round of marking, traces the
  fields of the actor, drains the trace stack and ends the collection of the heap.  Here the mark bits the collector
  of \<^verbatim>\<open>gc.c\<close> sets are those of the heap's chunks, and the theorems say which objects a whole collection frees.
\<close>

section \<open>Operations\<close>

text \<open>
  The two marking functions of the heap as the collector calls them, on the chunk the page map gives for the
  address.  Where that faults the heap is unchanged; the theorems are about addresses where it does not.
\<close>

definition heap_mark_fn :: "hstate \<Rightarrow> uint64_t \<Rightarrow> bool \<times> hstate" where
  "heap_mark_fn h p = (case heap_mark_at h p of Inl _ \<Rightarrow> (True, h) | Inr r \<Rightarrow> r)"

definition heap_mark_shallow_fn :: "hstate \<Rightarrow> uint64_t \<Rightarrow> hstate" where
  "heap_mark_shallow_fn h p = (case heap_mark_shallow_at h p of Inl _ \<Rightarrow> h | Inr h' \<Rightarrow> h')"

text \<open>
  The calls a generated trace function makes, one for each field that holds a reference.
\<close>

datatype 'f trace_call =
  Call_trace uint64_t
| Call_traceknown uint64_t "'f pony_type_t" trace_kind
| Call_traceunknown uint64_t trace_kind

fun trace_field :: "('f, 'h) gc_env \<Rightarrow> ('f, 'h) pony_ctx_t \<Rightarrow> 'f trace_call \<Rightarrow> ('f, 'h) pony_ctx_t res" where
  "trace_field env ctx (Call_trace p) = pony_trace env ctx p"
| "trace_field env ctx (Call_traceknown p t m) = pony_traceknown env ctx p (Some t) m"
| "trace_field env ctx (Call_traceunknown p m) = pony_traceunknown env ctx p m"

text \<open>
  \<open>heap->used\<close> is one field, written by the collector's \<^verbatim>\<open>ponyint_heap_used\<close> and by the heap; in the model of the
  former it is \<open>ctx_heap_used\<close>, which is copied here to and from the record of the latter.
\<close>

definition heap_of :: "('f, hstate) pony_ctx_t \<Rightarrow> hstate" where
  "heap_of ctx = upd_heap (\<lambda>hp. hp\<lparr>hp_used := ctx_heap_used ctx\<rparr>) (ctx_heap ctx)"

definition with_heap :: "('f, hstate) pony_ctx_t \<Rightarrow> hstate \<Rightarrow> ('f, hstate) pony_ctx_t" where
  "with_heap ctx h = ctx\<lparr>ctx_heap := h, ctx_heap_used := hp_used (hs_heap h)\<rparr>"

definition try_gc ::
  "nat \<Rightarrow> nat \<Rightarrow> henv \<Rightarrow> ('f, hstate) gc_env \<Rightarrow> ('f, hstate) pony_ctx_t \<Rightarrow> uint64_t \<Rightarrow> ('f, hstate) pony_ctx_t res" where
  "try_gc fuel n henv env ctx actor =
     (let (start, h) = ponyint_heap_startgc (heap_of ctx)
      in if \<not> start then Inr ctx
      else
        let ctx = with_heap ctx h;
            num_actor_references = of_nat (length (foreign ctx))
        in res_bind (ponyint_gc_mark ctx) (\<lambda>ctx.
             res_bind (case en_type env actor of
                 None \<Rightarrow> Inl Null_deref
               | Some t \<Rightarrow> (case ty_trace t of None \<Rightarrow> Inr ctx | Some f \<Rightarrow> en_run env f ctx actor)) (\<lambda>ctx.
               res_bind (ponyint_mark_done fuel env ctx) (\<lambda>ctx.
                 res_bind (ponyint_heap_endgc n henv (heap_of ctx) (num_actor_references - of_nat (length (foreign ctx)))) (\<lambda>h.
                   Inr (with_heap ctx h))))))"

section \<open>What is reachable\<close>

text \<open>The mark a call sets, \<open>True\<close> for one whose target is traced in turn; none for an actor.\<close>

definition object_mark :: "'f pony_type_t \<Rightarrow> uint64_t \<Rightarrow> trace_kind \<Rightarrow> (bool \<times> uint64_t) option" where
  "object_mark t p m = (if ty_dispatch t then None else Some (m \<noteq> PONY_TRACE_OPAQUE, p))"

fun call_mark :: "('f, 'h) gc_env \<Rightarrow> 'f trace_call \<Rightarrow> (bool \<times> uint64_t) option" where
  "call_mark env (Call_trace p) = Some (False, p)"
| "call_mark env (Call_traceknown p t m) = object_mark t p m"
| "call_mark env (Call_traceunknown p m) = (case en_type env p of None \<Rightarrow> None | Some t \<Rightarrow> object_mark t p m)"

definition targets :: "('f, 'h) gc_env \<Rightarrow> bool \<Rightarrow> 'f trace_call list \<Rightarrow> uint64_t set" where
  "targets env deep calls = {p. \<exists>call \<in> set calls. call_mark env call = Some (deep, p)}"

text \<open>\<open>G p\<close> are the calls of the trace function of the object \<open>p\<close>: the graph of the heap.\<close>

inductive traced :: "('f, 'h) gc_env \<Rightarrow> (uint64_t \<Rightarrow> 'f trace_call list) \<Rightarrow> uint64_t set \<Rightarrow> uint64_t \<Rightarrow> bool"
  for env G X where
  traced_root: "p \<in> X \<Longrightarrow> traced env G X p"
| traced_field: "traced env G X q \<Longrightarrow> p \<in> targets env True (G q) \<Longrightarrow> traced env G X p"

text \<open>
  The roots of a collection: the fields of the actor, and the immutable objects that others hold, which may be
  reached through no message of their own.
\<close>

definition deep_local :: "'f object_t \<Rightarrow> bool" where
  "deep_local obj \<longleftrightarrow> ob_immutable obj \<and> ob_rc obj > 0 \<and> \<not> might_reference_actor (ob_type obj)"

definition roots :: "('f, 'h) gc_env \<Rightarrow> ('f, 'h) pony_ctx_t \<Rightarrow> 'f trace_call list \<Rightarrow> uint64_t set" where
  "roots env ctx calls = targets env True calls \<union> ob_address ` {obj \<in> set (gc_local (ctx_gc ctx)). deep_local obj}"

text \<open>
  The addresses that keep their objects: what is traced, what the actor or a traced object refers to without
  tracing it, and the objects held by other actors.
\<close>

definition trace_set :: "('f, 'h) gc_env \<Rightarrow> (uint64_t \<Rightarrow> 'f trace_call list) \<Rightarrow> ('f, 'h) pony_ctx_t \<Rightarrow> uint64_t \<Rightarrow> uint64_t set" where
  "trace_set env G ctx actor = Collect (traced env G (roots env ctx (G actor)))"

definition kept :: "('f, 'h) gc_env \<Rightarrow> (uint64_t \<Rightarrow> 'f trace_call list) \<Rightarrow> ('f, 'h) pony_ctx_t \<Rightarrow> uint64_t \<Rightarrow> uint64_t set" where
  "kept env G ctx actor =
     (let T = trace_set env G ctx actor
      in T \<union> targets env False (G actor) \<union> (\<Union>q \<in> T. targets env False (G q))
         \<union> ob_address ` {obj \<in> set (gc_local (ctx_gc ctx)). ob_rc obj > 0})"

section \<open>What the collector relies on\<close>

text \<open>
  A reference a trace function meets is to an actor, or to the start of an object of the heap; a reference that is not
  traced further may also point into an object.  The page map has the actor as the owner.
\<close>

definition mark_ok :: "('f, 'h) gc_env \<Rightarrow> uint64_t \<Rightarrow> (uint64_t \<times> nat) set \<Rightarrow> bool \<times> uint64_t \<Rightarrow> bool" where
  "mark_ok env actor objs m \<longleftrightarrow>
     (\<exists>sz. en_pagemap env (snd m) = Some (actor, sz)) \<and> (\<exists>(a, n) \<in> objs. in_block a n (snd m) \<and> (fst m \<longrightarrow> snd m = a))"

definition call_ok :: "('f, 'h) gc_env \<Rightarrow> uint64_t \<Rightarrow> (uint64_t \<times> nat) set \<Rightarrow> 'f trace_call \<Rightarrow> bool" where
  "call_ok env actor objs call \<longleftrightarrow>
     (case call of Call_trace p \<Rightarrow> True | Call_traceknown p t m \<Rightarrow> en_type env p = Some t | Call_traceunknown p m \<Rightarrow> en_type env p \<noteq> None)
     \<and> (case call_mark env call of None \<Rightarrow> True | Some m \<Rightarrow> mark_ok env actor objs m \<and> (fst m \<longrightarrow> en_type env (snd m) \<noteq> None))"

text \<open>The trace function of a type makes the calls of the object's fields; a type without one has no such fields.\<close>

definition compiled :: "('f, 'h) gc_env \<Rightarrow> (uint64_t \<Rightarrow> 'f trace_call list) \<Rightarrow> uint64_t \<Rightarrow> bool" where
  "compiled env G p \<longleftrightarrow>
     (\<forall>t. en_type env p = Some t \<longrightarrow>
        (case ty_trace t of None \<Rightarrow> G p = [] | Some f \<Rightarrow> \<forall>ctx. en_run env f ctx p = each (trace_field env) ctx (G p)))"

text \<open>An entry of the table of local objects that others hold.\<close>

definition local_ok :: "('f, 'h) gc_env \<Rightarrow> (uint64_t \<times> nat) set \<Rightarrow> 'f object_t \<Rightarrow> bool" where
  "local_ok env objs obj \<longleftrightarrow>
     (ob_rc obj > 0 \<longrightarrow> (\<exists>(a, n) \<in> objs. in_block a n (ob_address obj) \<and> (deep_local obj \<longrightarrow> ob_address obj = a)))
     \<and> (deep_local obj \<longrightarrow> ob_type obj \<noteq> None \<and> en_type env (ob_address obj) = ob_type obj)"

definition graph_ok ::
  "('f, hstate) gc_env \<Rightarrow> (uint64_t \<Rightarrow> 'f trace_call list) \<Rightarrow> ('f, hstate) pony_ctx_t \<Rightarrow> uint64_t \<Rightarrow> bool" where
  "graph_ok env G ctx actor \<longleftrightarrow>
     en_heap_mark env = heap_mark_fn \<and> en_heap_mark_shallow env = heap_mark_shallow_fn
     \<and> actor = ctx_current ctx \<and> en_type env actor \<noteq> None
     \<and> (\<forall>p \<in> insert actor (trace_set env G ctx actor).
          compiled env G p \<and> (\<forall>call \<in> set (G p). call_ok env actor (heap_objs (ctx_heap ctx)) call))
     \<and> (\<forall>obj \<in> set (gc_local (ctx_gc ctx)). local_ok env (heap_objs (ctx_heap ctx)) obj)"

lemma graph_okD:
  assumes "graph_ok env G ctx actor"
  shows "en_heap_mark env = heap_mark_fn" "en_heap_mark_shallow env = heap_mark_shallow_fn"
    "actor = ctx_current ctx" "en_type env actor \<noteq> None"
    "p \<in> insert actor (trace_set env G ctx actor) \<Longrightarrow> compiled env G p"
    "p \<in> insert actor (trace_set env G ctx actor) \<Longrightarrow> \<forall>call \<in> set (G p). call_ok env actor (heap_objs (ctx_heap ctx)) call"
    "\<forall>obj \<in> set (gc_local (ctx_gc ctx)). local_ok env (heap_objs (ctx_heap ctx)) obj"
  using assms unfolding graph_ok_def by blast+

section \<open>Progress of the marking\<close>

text \<open>
  A state of the marking that began with the heap \<open>s\<close> and the context \<open>ctx0\<close>: \<open>S\<close> are the entries of the trace stack, \<open>D\<close>
  the objects marked for tracing and \<open>M\<close> all addresses marked.  A traced object waits on the stack, is being traced
  (\<open>E\<close>), or its references have been marked.
\<close>

definition stack_items :: "('f \<times> uint64_t) list \<Rightarrow> 'f gcitem list" where
  "stack_items S = concat (map (\<lambda>(f, p). [Fn f, Ptr p]) S)"

definition fields_marked :: "('f, 'h) gc_env \<Rightarrow> (uint64_t \<Rightarrow> 'f trace_call list) \<Rightarrow> uint64_t set \<Rightarrow> uint64_t set \<Rightarrow> uint64_t \<Rightarrow> bool" where
  "fields_marked env G D M q \<longleftrightarrow> targets env True (G q) \<subseteq> D \<and> targets env False (G q) \<subseteq> M"

definition entry_ok :: "('f, 'h) gc_env \<Rightarrow> 'f \<times> uint64_t \<Rightarrow> bool" where
  "entry_ok env e \<longleftrightarrow> (\<exists>t. en_type env (snd e) = Some t \<and> ty_trace t = Some (fst e))"

definition progress ::
  "('f, hstate) gc_env \<Rightarrow> (uint64_t \<Rightarrow> 'f trace_call list) \<Rightarrow> hstate \<Rightarrow> ('f, hstate) pony_ctx_t
   \<Rightarrow> ('f, hstate) pony_ctx_t \<Rightarrow> ('f \<times> uint64_t) list \<Rightarrow> uint64_t set \<Rightarrow> uint64_t set \<Rightarrow> uint64_t set \<Rightarrow> bool" where
  "progress env G s ctx0 ctx S E D M \<longleftrightarrow>
     ctx_current ctx = ctx_current ctx0 \<and> ctx_trace ctx = Trace_mark \<and> gc_local (ctx_gc ctx) = gc_local (ctx_gc ctx0)
     \<and> stack_ok (ctx_stack ctx) \<and> stack_elems (ctx_stack ctx) = stack_items S
     \<and> marking s (ctx_heap ctx) M \<and> deeps s (ctx_heap ctx) = D \<and> D \<subseteq> M
     \<and> (\<forall>e \<in> set S. entry_ok env e \<and> snd e \<in> D)
     \<and> (\<forall>q \<in> D. q \<in> snd ` set S \<or> q \<in> E \<or> fields_marked env G D M q)"

lemma fields_marked_mono: "fields_marked env G D M q \<Longrightarrow> D \<subseteq> D' \<Longrightarrow> M \<subseteq> M' \<Longrightarrow> fields_marked env G D' M' q"
  by (auto simp: fields_marked_def)

lemma progress_frame:
  "progress env G s ctx0 ctx S E D M \<Longrightarrow> same_frame ctx c \<Longrightarrow> progress env G s ctx0 c S E D M"
  by (simp add: progress_def same_frame_def)

lemma mark_actor_frame: "ctx_trace ctx = Trace_mark \<Longrightarrow> \<exists>c. trace_actor ctx a = Inr c \<and> same_frame ctx c"
  using markactor_view(1) [of a ctx] by (cases "a = ctx_current ctx") (auto simp: trace_actor_def ponyint_gc_markactor_def)

text \<open>Marking one object, deeply or not.\<close>

lemma mark_object_progress:
  assumes pr: "progress env G s ctx0 ctx S E D M" and inv: "heap_inv mutator_kind s"
    and fn: "en_heap_mark env = heap_mark_fn" "en_heap_mark_shallow env = heap_mark_shallow_fn"
    and obj: "(a, n) \<in> heap_objs s" "in_block a n p" "deep \<longrightarrow> p = a" "deep = (m \<noteq> PONY_TRACE_OPAQUE)"
    and ty: "deep \<longrightarrow> en_type env p = Some t \<and> ty = Some t \<and> compiled env G p"
  shows "\<exists>c S' D'. mark_local_object (en_heap_mark env) (en_heap_mark_shallow env) ctx p ty m = Inr c
    \<and> progress env G s ctx0 c S' E D' (insert p M)
    \<and> D' = (if deep then insert p D else D) \<and> length S' \<le> length S + (if deep \<and> p \<notin> D then 1 else 0)"
proof -
  have mk: "marking s (ctx_heap ctx) M" "deeps s (ctx_heap ctx) = D"
    using pr by (simp_all add: progress_def)
  obtain h where h: "if deep then heap_mark_at (ctx_heap ctx) p = Inr (a \<in> D, h) else heap_mark_shallow_at (ctx_heap ctx) p = Inr h"
    "marking s h (insert p M)" "deeps s h = (if deep \<and> p = a then insert a D else D)"
    using marking_deep [OF mk(1) inv obj(1,2), of deep] mk(2) by auto
  let ?c = "ctx\<lparr>ctx_heap := h\<rparr>"
  have "\<forall>q \<in> D. q \<in> snd ` set S \<or> q \<in> E \<or> fields_marked env G D M q"
    using pr by (simp add: progress_def)
  then have old: "\<forall>q \<in> D. q \<in> snd ` set S \<or> q \<in> E \<or> fields_marked env G (insert p D) (insert p M) q"
    "\<forall>q \<in> D. q \<in> snd ` set S \<or> q \<in> E \<or> fields_marked env G D (insert p M) q"
    using fields_marked_mono [OF _ subset_insertI subset_insertI] fields_marked_mono [OF _ subset_refl subset_insertI] by blast+
  show ?thesis
  proof (cases "deep \<and> p \<notin> D")
    case False
    then have D': "deeps s h = D" using h(3) obj(3) by auto
    have "mark_local_object (en_heap_mark env) (en_heap_mark_shallow env) ctx p ty m = Inr ?c"
      using h(1) False obj(3,4) by (auto simp: mark_local_object_def fn heap_mark_fn_def heap_mark_shallow_fn_def split: if_splits)
    moreover have "progress env G s ctx0 ?c S E D (insert p M)"
      using pr h(2) D' old(2) unfolding progress_def by auto
    ultimately show ?thesis using False by (intro exI [of _ ?c] exI [of _ S] exI [of _ D]) auto
  next
    case True
    then have t: "en_type env p = Some t" "ty = Some t" "compiled env G p" "p = a" "m \<noteq> PONY_TRACE_OPAQUE"
      using ty obj(3,4) by auto
    have res: "mark_local_object (en_heap_mark env) (en_heap_mark_shallow env) ctx p ty m = Inr (recurse ?c p (ty_trace t))"
      using h(1) True t by (simp add: mark_local_object_def fn heap_mark_fn_def recurse_type_def)
    show ?thesis
    proof (cases "ty_trace t")
      case None
      then have "G p = []" using t(1,3) by (simp add: compiled_def)
      then have "progress env G s ctx0 ?c S E (insert p D) (insert p M)"
        using pr h(2,3) True t(4) old(1) by (auto simp: progress_def fields_marked_def targets_def)
      then show ?thesis
        using res None True by (intro exI [of _ ?c] exI [of _ S] exI [of _ "insert p D"]) (simp add: recurse_def)
    next
      case (Some f)
      let ?d = "recurse ?c p (Some f)"
      have st: "stack_ok (ctx_stack ctx)" "stack_elems (ctx_stack ctx) = stack_items S"
        using pr by (simp_all add: progress_def)
      have "stack_ok (ctx_stack ?d)" "stack_elems (ctx_stack ?d) = stack_items ((f, p) # S)"
        using st by (simp_all add: recurse_def pstack.push_ok pstack.push_elems stack_items_def)
      moreover have "entry_ok env (f, p)" using t(1) Some by (simp add: entry_ok_def)
      ultimately have "progress env G s ctx0 ?d ((f, p) # S) E (insert p D) (insert p M)"
        using pr h(2,3) True t(4) old(1) by (auto simp: progress_def recurse_def)
      then show ?thesis
        using res Some True by (intro exI [of _ ?d] exI [of _ "(f, p) # S"] exI [of _ "insert p D"]) simp
    qed
  qed
qed

text \<open>The marks of a call, and of all calls of a trace function.\<close>

lemma targets_Cons: "targets env b (call # calls) = targets env b [call] \<union> targets env b calls"
  by (auto simp: targets_def)

lemma finite_targets [simp]: "finite (targets env b calls)"
proof -
  have "targets env b calls \<subseteq> (\<lambda>call. snd (the (call_mark env call))) ` set calls"
    by (force simp: targets_def)
  then show ?thesis using finite_subset by blast
qed

lemma trace_call_progress:
  assumes pr: "progress env G s ctx0 ctx S E D M" and inv: "heap_inv mutator_kind s"
    and fn: "en_heap_mark env = heap_mark_fn" "en_heap_mark_shallow env = heap_mark_shallow_fn"
    and ok: "call_ok env (ctx_current ctx0) (heap_objs s) call"
    and comp: "\<And>p. p \<in> targets env True [call] \<Longrightarrow> compiled env G p"
  shows "\<exists>c S'. trace_field env ctx call = Inr c
    \<and> progress env G s ctx0 c S' E (D \<union> targets env True [call]) (M \<union> targets env True [call] \<union> targets env False [call])
    \<and> length S' \<le> length S + card (targets env True [call] - D)"
proof (cases "call_mark env call")
  case None
  then have t: "targets env b [call] = {}" for b by (simp add: targets_def)
  have "ctx_trace ctx = Trace_mark" using pr by (simp add: progress_def)
  moreover have "\<exists>q. trace_field env ctx call = trace_actor ctx q"
    using None ok
    by (cases call) (auto simp: call_ok_def object_mark_def pony_traceknown_def pony_traceunknown_def split: if_splits)
  ultimately obtain c where "trace_field env ctx call = Inr c" "same_frame ctx c"
    using mark_actor_frame [of ctx] by metis
  then show ?thesis
    using progress_frame [OF pr] by (auto simp: t)
next
  case (Some x)
  obtain deep p where x: "x = (deep, p)" by (cases x)
  have t: "targets env b [call] = (if b = deep then {p} else {})" for b
    using Some x by (auto simp: targets_def)
  obtain a n sz where o: "(a, n) \<in> heap_objs s" "in_block a n p" "deep \<longrightarrow> p = a" "en_pagemap env p = Some (ctx_current ctx, sz)"
    using ok Some x pr by (auto simp: call_ok_def mark_ok_def progress_def)
  have tr: "ctx_trace ctx = Trace_mark" using pr by (simp add: progress_def)
  obtain ty m where m: "trace_field env ctx call = mark_local_object (en_heap_mark env) (en_heap_mark_shallow env) ctx p ty m"
    "deep = (m \<noteq> PONY_TRACE_OPAQUE)" "deep \<longrightarrow> en_type env p = ty" "deep \<longrightarrow> ty \<noteq> None"
  proof (cases call)
    case (Call_trace q)
    then show ?thesis
      using that [of None PONY_TRACE_OPAQUE] Some x o(4) tr by (simp add: pony_trace_def trace_object_def ponyint_gc_markobject_def)
  next
    case (Call_traceknown q t m)
    then show ?thesis
      using that [of "Some t" m] Some x o(4) tr ok
      by (simp add: pony_traceknown_def trace_object_def ponyint_gc_markobject_def object_mark_def call_ok_def split: if_splits)
  next
    case (Call_traceunknown q m)
    then obtain t where t: "en_type env q = Some t" using ok by (auto simp: call_ok_def)
    then show ?thesis
      using that [of "Some t" m] Call_traceunknown Some x o(4) tr
      by (simp add: pony_traceunknown_def trace_object_def ponyint_gc_markobject_def object_mark_def split: if_splits)
  qed
  have "deep \<longrightarrow> en_type env p = Some (the ty) \<and> ty = Some (the ty) \<and> compiled env G p"
    using m(3,4) comp [of p] t by auto
  from mark_object_progress [OF pr inv fn o(1-3) m(2) this] show ?thesis
    unfolding m(1) t by (cases deep) (auto simp: insert_Diff_if)
qed

definition all_targets :: "('f, 'h) gc_env \<Rightarrow> 'f trace_call list \<Rightarrow> uint64_t set" where
  "all_targets env calls = targets env True calls \<union> targets env False calls"

lemma trace_calls_progress:
  assumes inv: "heap_inv mutator_kind s"
    and fn: "en_heap_mark env = heap_mark_fn" "en_heap_mark_shallow env = heap_mark_shallow_fn"
    and "progress env G s ctx0 ctx S E D M" "\<forall>call \<in> set calls. call_ok env (ctx_current ctx0) (heap_objs s) call"
    and "\<And>p. p \<in> targets env True calls \<Longrightarrow> compiled env G p"
  shows "\<exists>c S'. each (trace_field env) ctx calls = Inr c
    \<and> progress env G s ctx0 c S' E (D \<union> targets env True calls) (M \<union> all_targets env calls)
    \<and> length S' \<le> length S + card (targets env True calls - D)"
  using assms(4-)
proof (induction calls arbitrary: ctx S D M)
  case Nil
  then show ?case by (auto simp: targets_def all_targets_def)
next
  case (Cons call calls)
  let ?T = "targets env True [call]" and ?U = "targets env True calls"
  obtain c S1 where c: "trace_field env ctx call = Inr c"
    "progress env G s ctx0 c S1 E (D \<union> ?T) (M \<union> ?T \<union> targets env False [call])" "length S1 \<le> length S + card (?T - D)"
    using trace_call_progress [OF Cons.prems(1) inv fn, of call] Cons.prems(2,3) targets_Cons by (metis UnI1 list.set_intros(1))
  obtain d S2 where d: "each (trace_field env) c calls = Inr d"
    "progress env G s ctx0 d S2 E (D \<union> ?T \<union> ?U) (M \<union> ?T \<union> targets env False [call] \<union> all_targets env calls)"
    "length S2 \<le> length S1 + card (?U - (D \<union> ?T))"
    using Cons.IH [OF c(2)] Cons.prems(2,3) targets_Cons [of env True call calls] by (metis UnI2 list.set_intros(2))
  have "card (targets env True (call # calls) - D) = card (?T - D) + card (?U - (D \<union> ?T))"
    unfolding targets_Cons [of env True call calls]
    by (subst card_Un_disjoint [symmetric]) (auto intro: arg_cong [where f = card])
  then have "length S2 \<le> length S + card (targets env True (call # calls) - D)"
    using c(3) d(3) by simp
  moreover have "D \<union> ?T \<union> ?U = D \<union> targets env True (call # calls)"
    "M \<union> ?T \<union> targets env False [call] \<union> all_targets env calls = M \<union> all_targets env (call # calls)"
    using targets_Cons [of env _ call calls] by (auto simp: all_targets_def)
  ultimately show ?case
    using c(1) d(1,2) by auto
qed

lemma pop_pair:
  assumes "stack_ok st" "stack_elems st = stack_items ((f, p) # S)"
  shows "\<exists>s1 s2. st \<noteq> [] \<and> ponyint_stack_pop st = Inr (s1, Fn f) \<and> ponyint_stack_pop s1 = Inr (s2, Ptr p)
    \<and> stack_ok s2 \<and> stack_elems s2 = stack_items S"
proof -
  have e: "stack_elems st = Fn f # Ptr p # stack_items S" using assms(2) by (simp add: stack_items_def)
  obtain s1 where s1: "ponyint_stack_pop st = Inr (s1, Fn f)" "stack_ok s1" "stack_elems s1 = Ptr p # stack_items S"
    using pstack.pop_ok [OF assms(1) e] by blast
  obtain s2 where "ponyint_stack_pop s1 = Inr (s2, Ptr p)" "stack_ok s2" "stack_elems s2 = stack_items S"
    using pstack.pop_ok [OF s1(2,3)] by blast
  moreover have "st \<noteq> []" using pstack.nil_iff [OF assms(1)] e by auto
  ultimately show ?thesis using s1(1) by blast
qed

text \<open>
  Draining the stack ends with every marked object traced: each of the finitely many objects \<open>V\<close> is pushed once.
\<close>

lemma handlestack_progress:
  assumes inv: "heap_inv mutator_kind s"
    and fn: "en_heap_mark env = heap_mark_fn" "en_heap_mark_shallow env = heap_mark_shallow_fn"
    and V: "finite V" "\<And>q. q \<in> V \<Longrightarrow> compiled env G q \<and> targets env True (G q) \<subseteq> V
      \<and> (\<forall>call \<in> set (G q). call_ok env (ctx_current ctx0) (heap_objs s) call)"
    and "progress env G s ctx0 ctx S {} D M" "D \<subseteq> V" "length S + card (V - D) < fuel"
  shows "\<exists>c D' M'. ponyint_gc_handlestack fuel (en_run env) ctx = Inr c \<and> progress env G s ctx0 c [] {} D' M'
    \<and> D \<subseteq> D' \<and> D' \<subseteq> V \<and> M \<subseteq> M' \<and> M' \<subseteq> M \<union> (\<Union>q \<in> D'. all_targets env (G q))"
  using assms(6-)
proof (induction fuel arbitrary: ctx S D M)
  case 0
  then show ?case by simp
next
  case (Suc fuel)
  note pr = Suc.prems(1)
  have st: "stack_ok (ctx_stack ctx)" "stack_elems (ctx_stack ctx) = stack_items S"
    using pr by (simp_all add: progress_def)
  show ?case
  proof (cases S)
    case Nil
    then have "ctx_stack ctx = []" using st pstack.nil_iff [OF st(1)] by (simp add: stack_items_def)
    then show ?thesis using pr Nil Suc.prems(2) by auto
  next
    case (Cons e S0)
    obtain f p where e: "e = (f, p)" by (cases e)
    obtain s1 s2 where pop: "ctx_stack ctx \<noteq> []" "ponyint_stack_pop (ctx_stack ctx) = Inr (s1, Fn f)"
      "ponyint_stack_pop s1 = Inr (s2, Ptr p)" "stack_ok s2" "stack_elems s2 = stack_items S0"
      using pop_pair [OF st(1), of f p S0] st(2) Cons e by auto
    let ?c = "ctx\<lparr>ctx_stack := s2\<rparr>" and ?T = "targets env True (G p)"
    have "entry_ok env (f, p)" "p \<in> D" using pr Cons e by (auto simp: progress_def)
    then obtain t where t: "en_type env p = Some t" "ty_trace t = Some f" by (auto simp: entry_ok_def)
    have pV: "p \<in> V" using \<open>p \<in> D\<close> Suc.prems(2) by blast
    have run: "en_run env f ?c p = each (trace_field env) ?c (G p)"
      using V(2) [OF pV] t by (simp add: compiled_def)
    have "progress env G s ctx0 ?c S0 {p} D M"
      using pr pop(4,5) Cons e unfolding progress_def by auto
    then obtain c S' where c: "each (trace_field env) ?c (G p) = Inr c"
      "progress env G s ctx0 c S' {p} (D \<union> ?T) (M \<union> all_targets env (G p))" "length S' \<le> length S0 + card (?T - D)"
      using trace_calls_progress [OF inv fn, of G ctx0 ?c S0 "{p}" D M "G p"] V(2) [OF pV] V(2) by blast
    have "fields_marked env G (D \<union> ?T) (M \<union> all_targets env (G p)) p"
      by (auto simp: fields_marked_def all_targets_def)
    then have pr': "progress env G s ctx0 c S' {} (D \<union> ?T) (M \<union> all_targets env (G p))"
      using c(2) unfolding progress_def by blast
    have TV: "?T \<subseteq> V" using V(2) [OF pV] by blast
    have "V - D = (?T - D) \<union> (V - (D \<union> ?T))" using TV by blast
    then have "card (V - D) = card (?T - D) + card (V - (D \<union> ?T))"
      using card_Un_disjoint [of "?T - D" "V - (D \<union> ?T)"] V(1) by auto
    then have "length S' + card (V - (D \<union> ?T)) < fuel"
      using c(3) Suc.prems(3) Cons by simp
    then obtain d D' M' where d: "ponyint_gc_handlestack fuel (en_run env) c = Inr d" "progress env G s ctx0 d [] {} D' M'"
      "D \<union> ?T \<subseteq> D'" "D' \<subseteq> V" "M \<union> all_targets env (G p) \<subseteq> M'"
      "M' \<subseteq> M \<union> all_targets env (G p) \<union> (\<Union>q \<in> D'. all_targets env (G q))"
      using Suc.IH [OF pr'] TV Suc.prems(2) by blast
    have "ponyint_gc_handlestack (Suc fuel) (en_run env) ctx = Inr d"
      using pop(1-3) run c(1) d(1) by simp
    moreover have "p \<in> D'" using \<open>p \<in> D\<close> d(3) by blast
    ultimately show ?thesis
      using d(2-6) by (intro exI [of _ d] exI [of _ D'] exI [of _ M']) auto
  qed
qed

text \<open>The immutable objects that others hold are marked like fields of the actor.\<close>

definition local_roots :: "'f objs \<Rightarrow> uint64_t set" where
  "local_roots objs = ob_address ` {obj \<in> set objs. deep_local obj}"

lemma markimmutable_progress:
  assumes inv: "heap_inv mutator_kind s"
    and fn: "en_heap_mark env = heap_mark_fn" "en_heap_mark_shallow env = heap_mark_shallow_fn"
    and "progress env G s ctx0 ctx S E D M" "\<forall>obj \<in> set objs. local_ok env (heap_objs s) obj"
    and "\<And>p. p \<in> local_roots objs \<Longrightarrow> compiled env G p"
  shows "\<exists>c S'. markimmutable_loop (en_heap_mark env) (en_heap_mark_shallow env) objs ctx = Inr c
    \<and> progress env G s ctx0 c S' E (D \<union> local_roots objs) (M \<union> local_roots objs)
    \<and> length S' \<le> length S + card (local_roots objs - D)"
  using assms(4-)
proof (induction objs arbitrary: ctx S D M)
  case Nil
  then show ?case by (auto simp: local_roots_def)
next
  case (Cons obj objs)
  let ?p = "ob_address obj"
  show ?case
  proof (cases "deep_local obj")
    case False
    then have l: "local_roots (obj # objs) = local_roots objs" by (auto simp: local_roots_def)
    have "markimmutable_loop (en_heap_mark env) (en_heap_mark_shallow env) (obj # objs) ctx =
        markimmutable_loop (en_heap_mark env) (en_heap_mark_shallow env) objs ctx"
      using False by (auto simp: deep_local_def)
    then show ?thesis
      using Cons.IH [OF Cons.prems(1)] Cons.prems(2,3) unfolding l by simp
  next
    case True
    then have l: "local_roots (obj # objs) = insert ?p (local_roots objs)" by (auto simp: local_roots_def)
    have rc: "ob_rc obj > 0" using True by (simp add: deep_local_def)
    then obtain a n where o: "(a, n) \<in> heap_objs s" "in_block a n ?p" "?p = a"
      using Cons.prems(2) True by (auto simp: local_ok_def)
    obtain t where t: "ob_type obj = Some t" "en_type env ?p = Some t"
      using Cons.prems(2) True by (auto simp: local_ok_def)
    obtain c S1 where c: "mark_local_object (en_heap_mark env) (en_heap_mark_shallow env) ctx ?p (ob_type obj) PONY_TRACE_IMMUTABLE = Inr c"
      "progress env G s ctx0 c S1 E (insert ?p D) (insert ?p M)" "length S1 \<le> length S + (if ?p \<notin> D then 1 else 0)"
      using mark_object_progress [OF Cons.prems(1) inv fn o(1,2), of True PONY_TRACE_IMMUTABLE t "ob_type obj"] o(3) t Cons.prems(3) [of ?p]
      by (auto simp: l)
    obtain d S2 where d: "markimmutable_loop (en_heap_mark env) (en_heap_mark_shallow env) objs c = Inr d"
      "progress env G s ctx0 d S2 E (insert ?p D \<union> local_roots objs) (insert ?p M \<union> local_roots objs)"
      "length S2 \<le> length S1 + card (local_roots objs - insert ?p D)"
      using Cons.IH [OF c(2)] Cons.prems(2,3) by (auto simp: l)
    have "finite (local_roots objs)" by (simp add: local_roots_def)
    moreover have "insert ?p (local_roots objs) - D = (if ?p \<in> D then {} else {?p}) \<union> (local_roots objs - insert ?p D)" by auto
    ultimately have "card (insert ?p (local_roots objs) - D) = (if ?p \<notin> D then 1 else 0) + card (local_roots objs - insert ?p D)"
      by simp
    then have "length S2 \<le> length S + card (local_roots (obj # objs) - D)"
      using c(3) d(3) by (auto simp: l split: if_splits)
    moreover have "insert ?p D \<union> local_roots objs = D \<union> local_roots (obj # objs)"
      "insert ?p M \<union> local_roots objs = M \<union> local_roots (obj # objs)"
      by (simp_all add: l)
    ultimately show ?thesis
      using c(1) d(1,2) True unfolding deep_local_def by auto
  qed
qed

lemma objectmap_sweep_marks:
  assumes "marking s h M" "heap_inv mutator_kind s" "\<forall>obj \<in> set objs. local_ok env (heap_objs s) obj"
  shows "fst (ponyint_objectmap_sweep heap_mark_shallow_fn objs h) = filter (\<lambda>obj. ob_rc obj > 0) objs
    \<and> marking s (snd (ponyint_objectmap_sweep heap_mark_shallow_fn objs h)) (M \<union> ob_address ` {obj \<in> set objs. ob_rc obj > 0})"
  using assms
proof (induction objs arbitrary: h M)
  case (Cons obj objs)
  show ?case
  proof (cases "ob_rc obj > 0")
    case True
    then obtain a n where o: "(a, n) \<in> heap_objs s" "in_block a n (ob_address obj)"
      using Cons.prems(3) by (auto simp: local_ok_def)
    obtain h' where h': "heap_mark_shallow_at h (ob_address obj) = Inr h'" "marking s h' (insert (ob_address obj) M)"
      using marking_deep [OF Cons.prems(1,2) o, of False] by auto
    moreover have "insert (ob_address obj) M \<union> ob_address ` {obj \<in> set objs. ob_rc obj > 0} = M \<union> ob_address ` {x \<in> set (obj # objs). ob_rc x > 0}"
      using True by auto
    ultimately show ?thesis
      using Cons.IH [OF h'(2) assms(2)] Cons.prems(3) True
      by (simp add: heap_mark_shallow_fn_def split_def Let_def)
  next
    case False
    moreover have "{x \<in> set (obj # objs). ob_rc x > 0} = {x \<in> set objs. ob_rc x > 0}" using False by auto
    ultimately show ?thesis using Cons by simp
  qed
qed simp

lemma finite_heap_objs:
  shows "finite (heap_objs s)"
proof -
  have "finite (places h)" for h
  proof -
    have "{k. bit (w :: uint32_t) k} \<subseteq> {..<32}" for w using bit_imp_le_length [of w] by auto
    then show ?thesis unfolding places_def using finite_subset by auto
  qed
  then have "finite (chunk_objs h)" for h by (simp add: chunk_objs_def)
  then show ?thesis by (auto simp: heap_objs_def active_def split: option.splits)
qed

text \<open>A round of marking, from the end of the actor's own trace function.\<close>

lemma mark_done_result:
  assumes inv: "heap_inv mutator_kind s" and g: "graph_ok env G ctx0 actor" and objs: "heap_objs (ctx_heap ctx0) = heap_objs s"
    and pr: "progress env G s ctx0 ctx S {} (targets env True (G actor)) (all_targets env (G actor))"
    and len: "length S \<le> card (targets env True (G actor))" and fuel: "card (trace_set env G ctx0 actor) < fuel"
  shows "\<exists>c. ponyint_mark_done fuel env ctx = Inr c \<and> marking s (ctx_heap c) (kept env G ctx0 actor)
    \<and> ctx_stack c = [] \<and> gc_local (ctx_gc c) = filter (\<lambda>obj. ob_rc obj > 0) (gc_local (ctx_gc ctx0))"
proof -
  define V where "V = trace_set env G ctx0 actor"
  have V_def': "V = Collect (traced env G (roots env ctx0 (G actor)))" by (simp add: V_def trace_set_def)
  let ?L = "gc_local (ctx_gc ctx0)" and ?T = "targets env True (G actor)"
  have fn: "en_heap_mark env = heap_mark_fn" "en_heap_mark_shallow env = heap_mark_shallow_fn"
    and act: "actor = ctx_current ctx0"
    and loc: "\<forall>obj \<in> set ?L. local_ok env (heap_objs s) obj"
    using g objs by (simp_all add: graph_ok_def)
  have gV: "compiled env G q" "\<forall>call \<in> set (G q). call_ok env (ctx_current ctx0) (heap_objs s) call" if "q \<in> insert actor V" for q
    using g that objs act by (auto simp: graph_ok_def V_def)
  have X: "?T \<union> local_roots ?L \<subseteq> V"
    by (auto simp: V_def' roots_def local_roots_def intro: traced_root)
  have Vcl: "targets env True (G q) \<subseteq> V" if "q \<in> V" for q
    using that by (auto simp: V_def' intro: traced_field)
  have gVs: "compiled env G q \<and> targets env True (G q) \<subseteq> V
      \<and> (\<forall>call \<in> set (G q). call_ok env (ctx_current ctx0) (heap_objs s) call)" if "q \<in> V" for q
    using gV [of q] Vcl [OF that] that by simp
  have start: "p \<in> fst ` heap_objs s" if "p \<in> targets env True (G q)" "q \<in> insert actor V" for p q
    using that(1) gV(2) [OF that(2)] by (force simp: targets_def call_ok_def mark_ok_def)
  have "V \<subseteq> fst ` heap_objs s"
  proof
    fix p assume "p \<in> V"
    then have "traced env G (roots env ctx0 (G actor)) p" by (simp add: V_def')
    then show "p \<in> fst ` heap_objs s"
    proof cases
      case traced_root
      then show ?thesis
        using start [of p actor] loc by (force simp: roots_def local_ok_def deep_local_def)
    next
      case (traced_field q)
      then show ?thesis using start [of p q] by (auto simp: V_def')
    qed
  qed
  then have fin: "finite V" using finite_heap_objs finite_subset by blast
  obtain c S1 where c: "markimmutable_loop (en_heap_mark env) (en_heap_mark_shallow env) ?L ctx = Inr c"
    "progress env G s ctx0 c S1 {} (?T \<union> local_roots ?L) (all_targets env (G actor) \<union> local_roots ?L)"
    "length S1 \<le> length S + card (local_roots ?L - ?T)"
    using markimmutable_progress [OF inv fn pr loc] gV(1) X by blast
  have fX: "finite ?T" "finite (local_roots ?L)" by (simp_all add: local_roots_def)
  have "card ?T + card (local_roots ?L - ?T) = card (?T \<union> local_roots ?L)"
    using card_Un_disjoint [of ?T "local_roots ?L - ?T"] fX by (simp add: Un_Diff_cancel)
  moreover have "card (?T \<union> local_roots ?L) + card (V - (?T \<union> local_roots ?L)) = card V"
    using card_Diff_subset [OF _ X] card_mono [OF fin X] fX by simp
  ultimately have "length S1 + card (V - (?T \<union> local_roots ?L)) < fuel"
    using c(3) len fuel unfolding V_def by simp
  then obtain d D M where d: "ponyint_gc_handlestack fuel (en_run env) c = Inr d" "progress env G s ctx0 d [] {} D M"
    "?T \<union> local_roots ?L \<subseteq> D" "D \<subseteq> V" "all_targets env (G actor) \<union> local_roots ?L \<subseteq> M"
    "M \<subseteq> all_targets env (G actor) \<union> local_roots ?L \<union> (\<Union>q \<in> D. all_targets env (G q))"
    using handlestack_progress [OF inv fn fin gVs c(2) X] by metis
  have cov: "fields_marked env G D M q" if "q \<in> D" for q using d(2) that by (simp add: progress_def)
  have "p \<in> D" if "traced env G (roots env ctx0 (G actor)) p" for p
    using that
  proof induction
    case (traced_root p)
    then show ?case using d(3) by (auto simp: roots_def local_roots_def)
  next
    case (traced_field q p)
    then show ?case using cov by (auto simp: fields_marked_def)
  qed
  then have DV: "D = V" using d(4) by (auto simp: V_def')
  have VM: "V \<subseteq> M" using d(2) DV by (simp add: progress_def)
  let ?N = "V \<union> targets env False (G actor) \<union> (\<Union>q \<in> V. targets env False (G q))"
  have "(\<Union>q \<in> V. all_targets env (G q)) \<subseteq> ?N"
    using Vcl unfolding all_targets_def by fast
  moreover have "all_targets env (G actor) \<union> local_roots ?L \<subseteq> ?N"
    using X unfolding all_targets_def by fast
  ultimately have "M \<subseteq> ?N" using d(6) unfolding DV by (meson Un_least subset_trans)
  moreover have "targets env False (G q) \<subseteq> M" if "q \<in> V" for q
    using cov [of q] that DV by (simp add: fields_marked_def)
  then have "?N \<subseteq> M" using VM d(5) unfolding all_targets_def by (simp add: UN_least)
  ultimately have "M = ?N" by (rule equalityI)
  then have kept: "M \<union> ob_address ` {obj \<in> set ?L. ob_rc obj > 0} = kept env G ctx0 actor"
    by (simp add: kept_def V_def Let_def)
  have fd: "ctx_stack d = []" "gc_local (ctx_gc d) = ?L" "marking s (ctx_heap d) M"
    using d(2) pstack.nil_iff [of "ctx_stack d"] by (simp_all add: progress_def stack_items_def)
  have lc: "gc_local (ctx_gc ctx) = ?L" using pr by (simp add: progress_def)
  let ?sw = "ponyint_objectmap_sweep heap_mark_shallow_fn ?L (ctx_heap d)"
  have sw: "fst ?sw = filter (\<lambda>obj. ob_rc obj > 0) ?L" "marking s (snd ?sw) (kept env G ctx0 actor)"
    using objectmap_sweep_marks [OF fd(3) inv loc] kept by simp_all
  let ?e = "ctx_done (ponyint_gc_sweep (en_pendingdestroy env) heap_mark_shallow_fn (acquires_sent d))"
  have "ponyint_mark_done fuel env ctx = Inr ?e"
    using c(1) d(1) lc fn by (simp add: ponyint_mark_done_def ponyint_gc_markimmutable_def sendacquire_result acquires_sent_def)
  moreover have "ctx_heap ?e = snd ?sw" "ctx_stack ?e = []" "gc_local (ctx_gc ?e) = fst ?sw"
    using fd by (simp_all add: ctx_done_def set_gc_def ponyint_gc_done_def ponyint_gc_sweep_def ponyint_actormap_sweep_def
        sweep_loop split_def Let_def) (simp_all add: acquires_sent_def)
  ultimately show ?thesis using sw by auto
qed

section \<open>A whole collection\<close>

text \<open>The count of bytes in use has no part in what the heap holds.\<close>

lemma used_views:
  fixes u :: "heap_t \<Rightarrow> uint64_t"
  defines "f \<equiv> upd_heap (\<lambda>hp. hp\<lparr>hp_used := u hp\<rparr>)"
  shows "heap_inv P (f s) = heap_inv P s" "heap_objs (f s) = heap_objs s" "tracked (f s) = tracked s" "reached (f s) = reached s"
    "hs_finalised (f s) = hs_finalised s" "hp_recyclable (hs_heap (f s)) = hp_recyclable (hs_heap s)"
proof -
  have a: "active (hs_heap (f s)) = active (hs_heap s)" and c: "chunk_at (f s) = chunk_at s"
    by (simp_all add: f_def active_def heap_lists_def chunk_at_def fun_eq_iff upd_heap_def)
  show inv: "heap_inv P (f s) = heap_inv P s" and o: "heap_objs (f s) = heap_objs s"
    using used_irrelevant(1,2) [of "f s" u s] by (simp_all add: f_def)
  show "tracked (f s) = tracked s" "reached (f s) = reached s"
    by (simp_all add: fun_eq_iff tracked_def reached_def a c o)
  show "hs_finalised (f s) = hs_finalised s" "hp_recyclable (hs_heap (f s)) = hp_recyclable (hs_heap s)"
    by (simp_all add: f_def upd_heap_def)
qed

lemma marking_used:
  assumes "marking s t M"
  shows "marking (upd_heap (\<lambda>hp. hp\<lparr>hp_used := u\<rparr>) s) (upd_heap (\<lambda>hp. hp\<lparr>hp_used := u\<rparr>) t) M"
proof -
  have "active ((hs_heap s)\<lparr>hp_used := u\<rparr>) = active (hs_heap s)" by (simp add: active_def heap_lists_def)
  moreover have "heap_inv list_kind (upd_heap (\<lambda>hp. hp\<lparr>hp_used := u\<rparr>) t)"
    using used_views(1) [of list_kind "\<lambda>_. u" t] assms by (simp add: marking_def)
  ultimately show ?thesis
    using assms unfolding marking_def by (simp add: upd_heap_def)
qed

lemma kept_in_heap:
  assumes g: "graph_ok env G ctx actor" and p: "p \<in> kept env G ctx actor"
  shows "\<exists>(a, n) \<in> heap_objs (ctx_heap ctx). in_block a n p"
proof -
  let ?L = "gc_local (ctx_gc ctx)" and ?T = "trace_set env G ctx actor" and ?O = "heap_objs (ctx_heap ctx)"
  have tgt: "\<exists>(a, n) \<in> ?O. in_block a n p" if t: "p \<in> targets env b (G q)" "q \<in> insert actor ?T" for b q
  proof -
    obtain call where "call \<in> set (G q)" "call_mark env call = Some (b, p)"
      using t(1) by (auto simp: targets_def)
    moreover have "\<forall>call \<in> set (G q). call_ok env actor ?O call"
      using graph_okD(6) [OF g t(2)] .
    ultimately show ?thesis by (force simp: call_ok_def mark_ok_def)
  qed
  have loc: "\<exists>(a, n) \<in> ?O. in_block a n p" if "p \<in> ob_address ` {obj \<in> set ?L. ob_rc obj > 0}"
    using that graph_okD(7) [OF g] by (force simp: local_ok_def)
  have "\<exists>(a, n) \<in> ?O. in_block a n p" if "p \<in> ?T"
  proof -
    have "traced env G (roots env ctx (G actor)) p" using that by (simp add: trace_set_def)
    then show ?thesis
    proof cases
      case traced_root
      then show ?thesis using tgt [of True actor] loc by (auto simp: roots_def deep_local_def)
    next
      case (traced_field q)
      then show ?thesis using tgt [of True q] by (simp add: trace_set_def)
    qed
  qed
  then show ?thesis
    using p tgt loc unfolding kept_def Let_def by blast
qed

text \<open>
  C4: A collection keeps what the actor or another actor can reach and frees everything else, for an actor whose references lead to
  actors and to the starts of objects of its own heap, not to objects of other actors or to embedded ones, and whose finalisers allocate
  nothing.  When the heap has grown past its limit, \<open>try_gc\<close> returns without a failed assertion; the objects it leaves on the heap are exactly those with a kept
  address: traced from the fields of the actor or from immutable objects held by others, referred to by
  something traced, or held by other actors.  The finalisers of all other objects that have one run, each once.
  The fuel for the trace stack is the number of traced objects.  \<open>graph_ok\<close> says what the compiled trace functions and
  the page map do, and that what is traced is the start of an object of this heap, or an actor.
\<close>

theorem try_gc_collects:
  assumes "heap_inv mutator_kind (ctx_heap ctx)" "graph_ok env G ctx actor" "ctx_stack ctx = []"
    "ctx_heap_used ctx > hp_next_gc (hs_heap (ctx_heap ctx))"
    "\<forall>p. he_final henv p = Some []" "card (trace_set env G ctx actor) < fuel"
    "\<forall>i < 4. length (hp_recyclable (hs_heap (ctx_heap ctx)) ! i) \<le> n"
  shows "\<exists>c dead. try_gc fuel n henv env ctx actor = Inr c \<and> heap_inv mutator_kind (ctx_heap c)
    \<and> heap_objs (ctx_heap c) = {(a, n) \<in> heap_objs (ctx_heap ctx). reached (ctx_heap ctx) (kept env G ctx actor) a}
    \<and> hs_finalised (ctx_heap c) = hs_finalised (ctx_heap ctx) @ dead \<and> distinct dead
    \<and> set dead = {a. tracked (ctx_heap ctx) a \<and> \<not> reached (ctx_heap ctx) (kept env G ctx actor) a}
    \<and> gc_local (ctx_gc c) = filter (\<lambda>obj. ob_rc obj > 0) (gc_local (ctx_gc ctx)) \<and> ctx_stack c = []"
proof -
  define s where "s = upd_heap (\<lambda>hp. hp\<lparr>hp_used := 0\<rparr>) (ctx_heap ctx)"
  note sv = used_views [where u = "\<lambda>_. 0" and s = "ctx_heap ctx", folded s_def]
  have inv: "heap_inv mutator_kind s" using assms(1) sv(1) by simp
  let ?ctx = "(with_heap ctx s)\<lparr>ctx_trace := Trace_mark\<rparr>"
  have start: "ponyint_heap_startgc (heap_of ctx) = (True, s)"
    using assms(4) by (simp add: ponyint_heap_startgc_def heap_of_def s_def upd_heap_def not_le)
  have M0: "marking s s {}" "deeps s s = {}" using marking_start [OF inv] by simp_all
  have "progress env G s ctx ?ctx [] {} {} {}"
    using M0 assms(3) by (simp add: progress_def with_heap_def stack_items_def pstack.nil_ok stack_elems_def)
  moreover note fn = graph_okD(1,2) [OF assms(2)] and comp = graph_okD(5) [OF assms(2)]
  moreover have calls: "\<forall>call \<in> set (G actor). call_ok env (ctx_current ctx) (heap_objs s) call"
    using graph_okD(6) [OF assms(2), of actor] graph_okD(3) [OF assms(2)] sv(2) by simp
  moreover have "targets env True (G actor) \<subseteq> trace_set env G ctx actor"
    by (auto simp: trace_set_def roots_def intro: traced_root)
  ultimately obtain c S where c: "each (trace_field env) ?ctx (G actor) = Inr c"
    "progress env G s ctx c S {} (targets env True (G actor)) (all_targets env (G actor))" "length S \<le> card (targets env True (G actor))"
    using trace_calls_progress [OF inv, of env G ctx ?ctx "[]" "{}" "{}" "{}" "G actor"] by (auto simp: subset_iff)
  obtain t where t: "en_type env actor = Some t" using graph_okD(4) [OF assms(2)] by auto
  have run: "(case ty_trace t of None \<Rightarrow> Inr ?ctx | Some f \<Rightarrow> en_run env f ?ctx actor) = Inr c"
    using comp [of actor] t c(1) by (auto simp: compiled_def split: option.splits)
  obtain d where d: "ponyint_mark_done fuel env c = Inr d" "marking s (ctx_heap d) (kept env G ctx actor)"
    "ctx_stack d = []" "gc_local (ctx_gc d) = filter (\<lambda>obj. ob_rc obj > 0) (gc_local (ctx_gc ctx))"
    using mark_done_result [OF inv assms(2) sv(2) [symmetric] c(2,3) assms(6)] by blast
  define r where "r = upd_heap (\<lambda>hp. hp\<lparr>hp_used := ctx_heap_used d\<rparr>) s"
  note rv = used_views [where u = "\<lambda>_. ctx_heap_used d" and s = s, folded r_def]
  have mk: "marking r (heap_of d) (kept env G ctx actor)"
    using marking_used [OF d(2)] by (simp add: r_def heap_of_def)
  have M: "\<forall>p \<in> kept env G ctx actor. \<exists>(a, n) \<in> heap_objs r. in_block a n p"
    using kept_in_heap [OF assms(2)] by (simp add: rv(2) sv(2))
  have "heap_inv mutator_kind r" "quiet henv" "\<forall>i < 4. length (hp_recyclable (hs_heap r) ! i) \<le> n"
    using inv assms(5,7) by (simp_all add: rv(1,6) sv(6) quiet_def)
  from collect_result [OF mk this(1) M this(2,3)] obtain h dead where h:
    "ponyint_heap_endgc n henv (heap_of d) (of_nat (length (foreign (with_heap ctx s))) - of_nat (length (foreign d))) = Inr h"
    "heap_inv mutator_kind h" "heap_objs h = {(a, n) \<in> heap_objs r. reached r (kept env G ctx actor) a}"
    "hs_finalised h = hs_finalised r @ dead" "distinct dead" "set dead = {a. tracked r a \<and> \<not> reached r (kept env G ctx actor) a}"
    by blast
  have "ctx_stack (with_heap ctx s) = []" using assms(3) by (simp add: with_heap_def)
  then have "try_gc fuel n henv env ctx actor = Inr (with_heap d h)"
    using start run d(1) h(1) t
    by (simp add: try_gc_def ponyint_gc_mark_def open_round_def pony_assert_def)
  then show ?thesis
    using h d(3,4) by (intro exI [of _ "with_heap d h"] exI [of _ dead]) (simp add: with_heap_def rv(2-5) sv(2-5))
qed

section \<open>Instances\<close>

text \<open>
  An actor at 96 with one object whose field refers to the object itself; \<open>R\<close> are the calls of the actor's trace function.
\<close>

definition wit_graph :: "nat trace_call list \<Rightarrow> uint64_t \<Rightarrow> nat trace_call list" where
  "wit_graph R p = (if p = 96 then R else [Call_traceunknown p PONY_TRACE_MUTABLE])"

definition wit_types :: "(nat, hstate) gc_env" where
  "wit_types = \<lparr>en_pagemap = (\<lambda>p. if p = 96 then None else Some (96, 1024)),
     en_type = (\<lambda>p. Some \<lparr>ty_trace = Some (if p = 96 then 1 else 0), ty_dispatch = (p = 96), ty_might_reference_actor = True\<rparr>),
     en_heap_mark = heap_mark_fn, en_heap_mark_shallow = heap_mark_shallow_fn, en_pendingdestroy = (\<lambda>_. False),
     en_run = (\<lambda>f ctx p. Inr ctx)\<rparr>"

definition wit_genv :: "nat trace_call list \<Rightarrow> (nat, hstate) gc_env" where
  "wit_genv R = wit_types\<lparr>en_run := (\<lambda>f ctx p. each (trace_field wit_types) ctx (wit_graph R p))\<rparr>"

definition wit_ctx :: "hstate \<Rightarrow> (nat, hstate) pony_ctx_t" where
  "wit_ctx h = \<lparr>ctx_current = 96, ctx_gc = \<lparr>gc_mark = 1, gc_rc_mark = 0, gc_rc = 1, gc_local = [], gc_foreign = [], gc_delta = None\<rparr>,
     ctx_heap_used = 20000, ctx_heap = h, ctx_trace = Trace_null, ctx_acquire = [], ctx_stack = [], ctx_sent = [], ctx_noblock = False\<rparr>"

lemma res_bind_Inr: "res_bind r Inr = r"
  by (cases r) simp_all

lemma trace_field_run: "trace_field (env\<lparr>en_run := r\<rparr>) ctx call = trace_field env ctx call"
  by (cases call) (simp_all add: pony_trace_def pony_traceknown_def pony_traceunknown_def trace_object_def split: option.split trace_fns.split)

lemma wit_sel:
  "en_pagemap (wit_genv R) p = (if p = 96 then None else Some (96, 1024))"
  "en_type (wit_genv R) p = Some \<lparr>ty_trace = Some (if p = 96 then 1 else 0), ty_dispatch = (p = 96), ty_might_reference_actor = True\<rparr>"
  "en_heap_mark (wit_genv R) = heap_mark_fn" "en_heap_mark_shallow (wit_genv R) = heap_mark_shallow_fn"
  "en_run (wit_genv R) f ctx p = each (trace_field (wit_genv R)) ctx (wit_graph R p)"
proof -
  have "trace_field (wit_genv R) = trace_field wit_types"
    by (simp add: wit_genv_def trace_field_run fun_eq_iff)
  then show "en_run (wit_genv R) f ctx p = each (trace_field (wit_genv R)) ctx (wit_graph R p)"
    by (simp only:) (simp add: wit_genv_def)
qed (simp_all add: wit_genv_def wit_types_def)

lemma wit_ctx_sel:
  "ctx_current (wit_ctx h) = 96" "gc_local (ctx_gc (wit_ctx h)) = []" "ctx_heap (wit_ctx h) = h" "ctx_stack (wit_ctx h) = []"
  "ctx_heap_used (wit_ctx h) = 20000"
  by (simp_all add: wit_ctx_def)

lemma wit_targets:
  assumes "R = [] \<or> R = [Call_traceunknown m PONY_TRACE_MUTABLE]" "m \<noteq> 96"
  shows "targets (wit_genv R) b (wit_graph R p) = (if b then if p = 96 then if R = [] then {} else {m} else {p} else {})"
  using assms by (auto simp: targets_def wit_graph_def wit_sel object_mark_def)

lemma wit_traced:
  assumes R: "R = [] \<or> R = [Call_traceunknown m PONY_TRACE_MUTABLE]" "m \<noteq> 96"
  shows "trace_set (wit_genv R) (wit_graph R) (wit_ctx h) 96 = (if R = [] then {} else {m})"
proof -
  have r: "roots (wit_genv R) (wit_ctx h) (wit_graph R 96) = (if R = [] then {} else {m})"
    by (simp add: roots_def wit_targets [OF R] wit_ctx_sel)
  have "p = m \<and> R \<noteq> []" if "traced (wit_genv R) (wit_graph R) (if R = [] then {} else {m}) p" for p
    using that by induction (use R(2) in \<open>auto simp: wit_targets [OF R] split: if_splits\<close>)
  then show ?thesis
    unfolding trace_set_def r by (auto intro: traced_root)
qed

lemma wit_kept:
  assumes "R = [] \<or> R = [Call_traceunknown m PONY_TRACE_MUTABLE]" "m \<noteq> 96"
  shows "kept (wit_genv R) (wit_graph R) (wit_ctx h) 96 = (if R = [] then {} else {m})"
  by (simp add: kept_def Let_def wit_traced [OF assms] wit_targets [OF assms] wit_ctx_sel)

lemma wit_graph_ok:
  assumes "R = [] \<or> R = [Call_traceunknown m PONY_TRACE_MUTABLE]" "m \<noteq> 96" "(m, n) \<in> heap_objs h" "0 < n"
  shows "graph_ok (wit_genv R) (wit_graph R) (wit_ctx h) 96"
proof -
  have "call_ok (wit_genv R) 96 (heap_objs h) (Call_traceunknown m PONY_TRACE_MUTABLE)"
    using assms(2-4) by (auto simp: call_ok_def mark_ok_def wit_sel in_block_def object_mark_def)
  moreover have "compiled (wit_genv R) (wit_graph R) p" for p
    by (simp add: compiled_def wit_sel)
  ultimately show ?thesis
    unfolding graph_ok_def wit_traced [OF assms(1,2)] using assms(1,2)
    by (auto simp: wit_sel wit_ctx_sel) (simp_all add: wit_graph_def)
qed

lemma wit_heap:
  "\<exists>s. ponyint_heap_alloc wit_env (heap_start wit_env) 40 TRACK_ALL_FINALISERS (wit_answer 4096 65536) = Inr (65536, s)
    \<and> heap_inv mutator_kind s \<and> heap_objs s = {(65536, 64)} \<and> tracked s 65536
    \<and> hp_next_gc (hs_heap s) = 16384 \<and> hs_finalised s = [] \<and> hp_recyclable (hs_heap s) = [[], [], [], []]"
proof -
  have "case ponyint_heap_alloc wit_env (heap_start wit_env) 40 TRACK_ALL_FINALISERS (wit_answer 4096 65536) of Inl _ \<Rightarrow> False
    | Inr (m, s) \<Rightarrow> m = 65536 \<and> hp_next_gc (hs_heap s) = 16384 \<and> hs_finalised s = [] \<and> hp_recyclable (hs_heap s) = [[], [], [], []]"
    by code_simp
  moreover obtain m s where a: "ponyint_heap_alloc wit_env (heap_start wit_env) 40 TRACK_ALL_FINALISERS (wit_answer 4096 65536) = Inr (m, s)"
    "heap_inv mutator_kind s" "allocates (heap_start wit_env) 64 True m s"
    using heap_alloc_spec [OF heap_start_inv(1), of 40 TRACK_ALL_FINALISERS wit_env "wit_answer 4096 65536" wit_env]
      pool_ok_start [of 4096 65536 1024 wit_env] by (auto simp: pages_def object_size_def)
  moreover have "heap_objs s = {(m, 64)}"
    using a(3) by (simp add: allocates_def heap_start_inv(2))
  ultimately show ?thesis
    using allocates_tracked [OF a(3)] by auto
qed

theorem try_gc_collects_witness:
  "\<exists>m s n c c'. ponyint_heap_alloc wit_env (heap_start wit_env) 40 TRACK_ALL_FINALISERS (wit_answer 4096 65536) = Inr (m, s)
    \<and> try_gc 2 n wit_env (wit_genv [Call_traceunknown m PONY_TRACE_MUTABLE]) (wit_ctx s) 96 = Inr c
    \<and> heap_objs (ctx_heap c) = {(m, 64)} \<and> m \<notin> set (hs_finalised (ctx_heap c))
    \<and> try_gc 1 n wit_env (wit_genv []) (wit_ctx s) 96 = Inr c' \<and> heap_objs (ctx_heap c') = {} \<and> m \<in> set (hs_finalised (ctx_heap c'))"
proof -
  obtain m s where a: "ponyint_heap_alloc wit_env (heap_start wit_env) 40 TRACK_ALL_FINALISERS (wit_answer 4096 65536) = Inr (m, s)"
    "heap_inv mutator_kind s" "tracked s m" and objs: "heap_objs s = {(m, 64)}"
    and m: "m = 65536" "hp_next_gc (hs_heap s) = 16384" "hs_finalised s = []" "hp_recyclable (hs_heap s) = [[], [], [], []]"
    using wit_heap by blast
  have no_lists: "\<forall>i < 4. ([[], [], [], []] ! i) = ([] :: uint64_t list)"
    by (auto simp: less_Suc_eq numeral_eq_Suc)
  have hyp: "heap_inv mutator_kind (ctx_heap (wit_ctx s))" "ctx_stack (wit_ctx s) = []"
    "ctx_heap_used (wit_ctx s) > hp_next_gc (hs_heap (ctx_heap (wit_ctx s)))" "\<forall>p. he_final wit_env p = Some []"
    "\<forall>i < 4. length (hp_recyclable (hs_heap (ctx_heap (wit_ctx s))) ! i) \<le> 0"
    using a(2) m no_lists by (simp_all add: wit_ctx_sel wit_env_def)
  let ?R = "[Call_traceunknown m PONY_TRACE_MUTABLE]"
  have in_objs: "(m, 64) \<in> heap_objs s" "m \<noteq> 96" using objs m(1) by simp_all
  have ok: "graph_ok (wit_genv ?R) (wit_graph ?R) (wit_ctx s) 96" "graph_ok (wit_genv []) (wit_graph []) (wit_ctx s) 96"
    using wit_graph_ok [OF _ in_objs(2,1)] by simp_all
  have card: "card (trace_set (wit_genv ?R) (wit_graph ?R) (wit_ctx s) 96) < 2" "card (trace_set (wit_genv []) (wit_graph []) (wit_ctx s) 96) < 1"
    using wit_traced [OF _ in_objs(2)] by simp_all
  have self: "reached s {m} m" and none: "\<not> reached s {} p" for p
    using objs by (simp_all add: reached_def in_block_def)
  note k = wit_kept [OF disjI2 [OF refl] in_objs(2)] wit_kept [OF disjI1 [OF refl] in_objs(2)]
  obtain c where c: "try_gc 2 0 wit_env (wit_genv ?R) (wit_ctx s) 96 = Inr c" "heap_objs (ctx_heap c) = {(m, 64)}" "m \<notin> set (hs_finalised (ctx_heap c))"
    using try_gc_collects [OF hyp(1) ok(1) hyp(2-4) card(1) hyp(5)] self m(3) by (auto simp: k wit_ctx_sel objs)
  obtain c' where "try_gc 1 0 wit_env (wit_genv []) (wit_ctx s) 96 = Inr c'" "heap_objs (ctx_heap c') = {}" "m \<in> set (hs_finalised (ctx_heap c'))"
    using try_gc_collects [OF hyp(1) ok(2) hyp(2-4) card(2) hyp(5)] none m(3) a(3) by (auto simp: k wit_ctx_sel objs)
  then show ?thesis using a(1) c by blast
qed

section \<open>Embedded objects\<close>

lemma embedded_step:
  assumes mk: "marking s (ctx_heap ctx) M" "deeps s (ctx_heap ctx) = {}" and inv: "heap_inv mutator_kind s"
    and fn: "en_heap_mark env = heap_mark_fn"
    and p: "(a, n) \<in> heap_objs s" "in_block a n p" "p \<noteq> a" "en_pagemap env p = Some (ctx_current ctx, sz)"
    and ty: "en_type env p = Some t" "\<not> ty_dispatch t" "ty_trace t = Some f"
    and tr: "ctx_trace ctx = Trace_mark"
  shows "\<exists>h. pony_traceunknown env ctx p PONY_TRACE_MUTABLE = Inr (recurse (ctx\<lparr>ctx_heap := h\<rparr>) p (Some f))
    \<and> marking s h (insert p M) \<and> deeps s h = {}"
proof -
  obtain h where "heap_mark_at (ctx_heap ctx) p = Inr (False, h)" "marking s h (insert p M)" "deeps s h = {}"
    using marking_deep [OF mk(1) inv p(1,2), of True] mk(2) p(3) by auto
  then show ?thesis
    using fn p(4) ty tr
    by (auto simp: pony_traceunknown_def trace_object_def ponyint_gc_markobject_def mark_local_object_def heap_mark_fn_def recurse_type_def)
qed

lemma embedded_loops:
  assumes inv: "heap_inv mutator_kind s" and fn: "en_heap_mark env = heap_mark_fn"
    and p: "(a, n) \<in> heap_objs s" "in_block a n p" "p \<noteq> a" "en_pagemap env p = Some (actor, sz)"
    and ty: "en_type env p = Some t" "\<not> ty_dispatch t" "ty_trace t = Some f"
    and run: "\<And>ctx. en_run env f ctx p = pony_traceunknown env ctx p PONY_TRACE_MUTABLE"
    and "marking s (ctx_heap ctx) M" "deeps s (ctx_heap ctx) = {}" "ctx_trace ctx = Trace_mark" "ctx_current ctx = actor"
    "stack_ok (ctx_stack ctx)" "stack_elems (ctx_stack ctx) = stack_items [(f, p)]"
  shows "ponyint_gc_handlestack fuel (en_run env) ctx = Inl Out_of_fuel"
  using assms(11-)
proof (induction fuel arbitrary: ctx M)
  case (Suc fuel)
  obtain s1 s2 where pop: "ctx_stack ctx \<noteq> []" "ponyint_stack_pop (ctx_stack ctx) = Inr (s1, Fn f)"
    "ponyint_stack_pop s1 = Inr (s2, Ptr p)" "stack_ok s2" "stack_elems s2 = stack_items []"
    using pop_pair [OF Suc.prems(5,6)] by blast
  let ?c = "ctx\<lparr>ctx_stack := s2\<rparr>"
  obtain h where h: "en_run env f ?c p = Inr (recurse (?c\<lparr>ctx_heap := h\<rparr>) p (Some f))"
    "marking s h (insert p M)" "deeps s h = {}"
    using embedded_step [OF _ _ inv fn p(1-3) _ ty, of ?c M sz] Suc.prems p(4) run by auto
  let ?d = "recurse (?c\<lparr>ctx_heap := h\<rparr>) p (Some f)"
  have "ponyint_gc_handlestack fuel (en_run env) ?d = Inl Out_of_fuel"
  proof (rule Suc.IH)
    show "marking s (ctx_heap ?d) (insert p M)" "deeps s (ctx_heap ?d) = {}" "ctx_trace ?d = Trace_mark" "ctx_current ?d = actor"
      using h(2,3) Suc.prems by (simp_all add: recurse_def)
    show "stack_ok (ctx_stack ?d)" "stack_elems (ctx_stack ?d) = stack_items [(f, p)]"
      using pop(4,5) by (simp_all add: recurse_def pstack.push_ok pstack.push_elems stack_items_def)
  qed
  then show ?case using pop(1-3) h(1) by simp
qed simp

text \<open>
  C5: A reference to an embedded object can make a collection run forever.  A pointer inside an object gets a shallow mark only, and
  \<open>ponyint_heap_mark\<close> answers from the mark of the object around it; as long as nothing traces that one, the inner object
  counts as unmarked each time it is met.  When the actor holds only an embedded object, and a field of that object
  leads back to it, \<open>try_gc\<close> does not return, however much fuel it has.
\<close>

theorem try_gc_embedded_diverges:
  assumes "heap_inv mutator_kind (ctx_heap ctx)" "(a, k) \<in> heap_objs (ctx_heap ctx)" "in_block a k p" "p \<noteq> a"
    "en_heap_mark env = heap_mark_fn" "en_pagemap env p = Some (ctx_current ctx, sz)"
    "en_type env p = Some t" "\<not> ty_dispatch t" "ty_trace t = Some f"
    "\<And>c. en_run env f c p = trace_field env c (Call_traceunknown p PONY_TRACE_MUTABLE)"
    "en_type env actor = Some u" "ty_trace u = Some g"
    "\<And>c. en_run env g c actor = trace_field env c (Call_traceunknown p PONY_TRACE_MUTABLE)"
    "ctx_stack ctx = []" "gc_local (ctx_gc ctx) = []" "ctx_heap_used ctx > hp_next_gc (hs_heap (ctx_heap ctx))"
  shows "try_gc fuel n henv env ctx actor = Inl Out_of_fuel"
proof -
  define s where "s = upd_heap (\<lambda>hp. hp\<lparr>hp_used := 0\<rparr>) (ctx_heap ctx)"
  note sv = used_views [where u = "\<lambda>_. 0" and s = "ctx_heap ctx", folded s_def]
  have inv: "heap_inv mutator_kind s" and obj: "(a, k) \<in> heap_objs s" using assms(1,2) sv(1,2) by simp_all
  let ?ctx = "(with_heap ctx s)\<lparr>ctx_trace := Trace_mark\<rparr>"
  have start: "ponyint_heap_startgc (heap_of ctx) = (True, s)"
    using assms(16) by (simp add: ponyint_heap_startgc_def heap_of_def s_def upd_heap_def not_le)
  have st: "ctx_stack (with_heap ctx s) = []" "gc_local (ctx_gc (with_heap ctx s)) = []" "ctx_current (with_heap ctx s) = ctx_current ctx"
    using assms(14,15) by (simp_all add: with_heap_def)
  obtain h where h: "en_run env g ?ctx actor = Inr (recurse (?ctx\<lparr>ctx_heap := h\<rparr>) p (Some f))" "marking s h {p}" "deeps s h = {}"
    using embedded_step [OF _ _ inv assms(5) obj assms(3,4) _ assms(7-9), of ?ctx "{}" sz] marking_start [OF inv] assms(6,13)
    by (auto simp: with_heap_def)
  let ?d = "recurse (?ctx\<lparr>ctx_heap := h\<rparr>) p (Some f)"
  have "ponyint_gc_handlestack fuel (en_run env) ?d = Inl Out_of_fuel"
  proof (rule embedded_loops [OF inv assms(5) obj assms(3,4,6,7-9)])
    show "en_run env f c p = pony_traceunknown env c p PONY_TRACE_MUTABLE" for c using assms(10) by simp
    show "marking s (ctx_heap ?d) {p}" "deeps s (ctx_heap ?d) = {}" "ctx_trace ?d = Trace_mark" "ctx_current ?d = ctx_current ctx"
      using h(2,3) st by (simp_all add: recurse_def)
    show "stack_ok (ctx_stack ?d)" "stack_elems (ctx_stack ?d) = stack_items [(f, p)]"
      using st by (simp_all add: recurse_def pstack.nil_ok pstack.push_ok pstack.push_elems stack_items_def stack_elems_def [of "[]"])
  qed
  moreover have "gc_local (ctx_gc ?d) = []" using st by (simp add: recurse_def)
  ultimately show ?thesis
    using start st(1) h(1) assms(11,12)
    by (simp add: try_gc_def ponyint_gc_mark_def open_round_def pony_assert_def ponyint_mark_done_def ponyint_gc_markimmutable_def Let_def)
qed

theorem try_gc_embedded_diverges_witness:
  "\<exists>m s. ponyint_heap_alloc wit_env (heap_start wit_env) 40 TRACK_ALL_FINALISERS (wit_answer 4096 65536) = Inr (m, s)
    \<and> try_gc 1000 0 wit_env (wit_genv [Call_traceunknown (m + 16) PONY_TRACE_MUTABLE]) (wit_ctx s) 96 = Inl Out_of_fuel"
proof -
  obtain s where a: "ponyint_heap_alloc wit_env (heap_start wit_env) 40 TRACK_ALL_FINALISERS (wit_answer 4096 65536) = Inr (65536, s)"
    "heap_inv mutator_kind s" "heap_objs s = {(65536, 64)}" "hp_next_gc (hs_heap s) = 16384"
    using wit_heap by blast
  have "try_gc 1000 0 wit_env (wit_genv [Call_traceunknown 65552 PONY_TRACE_MUTABLE]) (wit_ctx s) 96 = Inl Out_of_fuel"
    by (rule try_gc_embedded_diverges [where a = 65536 and k = 64 and p = 65552 and f = 0 and g = 1, OF _ _ _ _ _ _ wit_sel(2) _ _ _ wit_sel(2)])
      (use a in \<open>simp_all add: wit_ctx_sel wit_sel wit_graph_def in_block_def res_bind_Inr\<close>)
  then show ?thesis using a(1) by auto
qed

end
