(* ===== verification/Pool.thy ===== *)
theory Pool
  imports Hashfun Heap_Inv
begin

text \<open>
  The pool allocator, \<^verbatim>\<open>src/libponyrt/mem/pool.c\<close>: free lists of sixteen size classes for each thread, global lists of
  such lists, and sorted lists of free blocks of whole pages, cut from memory the operating system maps.  A linked
  list through free memory is the list of its addresses.  An operation runs without interference here: the
  compare-and-swap loops on the global lists succeed at the first try, and the flags and the counter that guard the
  global list of blocks are found free and left free.
\<close>

section \<open>State\<close>

definition POOL_MIN_BITS :: nat where "POOL_MIN_BITS = 5"

definition POOL_MAX_BITS :: nat where "POOL_MAX_BITS = 20"

definition POOL_MIN :: uint64_t where "POOL_MIN = 32"

definition POOL_COUNT :: nat where "POOL_COUNT = POOL_MAX_BITS - POOL_MIN_BITS + 1"

definition POOL_SIZE :: "nat \<Rightarrow> uint64_t" where "POOL_SIZE index = push_bit (POOL_MIN_BITS + index) 1"

definition POOL_ALIGN_INDEX :: nat where "POOL_ALIGN_INDEX = POOL_ALIGN_BITS - POOL_MIN_BITS"

text \<open>What is mapped at once on Unix.\<close>

definition POOL_MMAP :: uint64_t where "POOL_MMAP = 128 * 1024 * 1024"

record pool_local_t =
  pl_pool :: "uint64_t list"
  pl_length :: uint64_t
  pl_start :: uint64_t
  pl_end :: uint64_t

text \<open>The record that overlays the first item of a free list on a global list.\<close>

record pool_central_t =
  pc_items :: "uint64_t list"
  pc_length :: uint64_t

record pool_global_t =
  pg_size :: uint64_t
  pg_count :: uint64_t
  pg_central :: "pool_central_t list"

record pool_block_t =
  pb_addr :: uint64_t
  pb_size :: uint64_t

record pool_block_header_t =
  bh_head :: "pool_block_t list"
  bh_total_size :: uint64_t
  bh_largest_size :: uint64_t

text \<open>
  The state a thread works on: its own lists, the global ones, and the calls it made outside: memory mapped, memory
  given back for reuse, and bytes copied.
\<close>

record pool_t =
  po_local :: "pool_local_t list"
  po_block_header :: pool_block_header_t
  po_global :: "pool_global_t list"
  po_block_global :: "pool_block_t list"
  po_mapped :: "(uint64_t \<times> uint64_t) list"
  po_decommitted :: "(uint64_t \<times> uint64_t) list"
  po_copied :: "(uint64_t \<times> uint64_t \<times> uint64_t) list"

definition pool_global_init :: "pool_global_t list" where
  "pool_global_init = map (\<lambda>i. \<lparr>pg_size = POOL_SIZE i, pg_count = push_bit POOL_MAX_BITS 1 div POOL_SIZE i, pg_central = []\<rparr>) [0..<POOL_COUNT]"

definition pool_local_init :: "pool_local_t list" where
  "pool_local_init = replicate POOL_COUNT \<lparr>pl_pool = [], pl_length = 0, pl_start = 0, pl_end = 0\<rparr>"

definition pool_block_header_init :: pool_block_header_t where
  "pool_block_header_init = \<lparr>bh_head = [], bh_total_size = 0, bh_largest_size = 0\<rparr>"

section \<open>Blocks\<close>

text \<open>A block is taken out by joining the blocks before it and the blocks after it.\<close>

definition pool_block_remove :: "pool_block_t list \<Rightarrow> pool_block_t list \<Rightarrow> pool_block_header_t \<Rightarrow> pool_block_header_t" where
  "pool_block_remove prev next h = h\<lparr>bh_head := prev @ next\<rparr>"

fun block_insert :: "pool_block_t \<Rightarrow> pool_block_t list \<Rightarrow> pool_block_t list" where
  "block_insert block [] = [block]"
| "block_insert block (pos # rest) =
     (if pb_size block \<le> pb_size pos then block # pos # rest else pos # block_insert block rest)"

definition pool_block_insert :: "pool_block_t \<Rightarrow> pool_block_header_t \<Rightarrow> pool_block_header_t" where
  "pool_block_insert block h = h\<lparr>bh_head := block_insert block (bh_head h)\<rparr>"

text \<open>The first block that is big enough, with the blocks before and after it.\<close>

fun block_find :: "uint64_t \<Rightarrow> pool_block_t list \<Rightarrow> (pool_block_t list \<times> pool_block_t \<times> pool_block_t list) option" where
  "block_find sz [] = None"
| "block_find sz (block # rest) =
     (if pb_size block \<ge> sz then Some ([], block, rest)
      else case block_find sz rest of None \<Rightarrow> None | Some (prev, b, next) \<Rightarrow> Some (block # prev, b, next))"

definition pool_block_push :: "pool_block_t \<Rightarrow> pool_t \<Rightarrow> pool_t" where
  "pool_block_push block s = s\<lparr>po_block_global := block_insert block (po_block_global s)\<rparr>"

definition pool_block_pull :: "uint64_t \<Rightarrow> pool_t \<Rightarrow> (pool_block_t option \<times> pool_t) res" where
  "pool_block_pull sz s =
     (case block_find sz (po_block_global s) of
        None \<Rightarrow> Inr (None, s)
      | Some (prev, block, next) \<Rightarrow>
          pony_assert (sz \<le> pb_size block) (Inr (Some block, s\<lparr>po_block_global := prev @ next\<rparr>)))"

text \<open>Insertion of a block that is new to the thread, with the two sizes the header keeps.\<close>

definition block_add :: "pool_block_t \<Rightarrow> pool_block_header_t \<Rightarrow> pool_block_header_t" where
  "block_add block h =
     (let h = pool_block_insert block h;
          h = h\<lparr>bh_total_size := bh_total_size h + pb_size block\<rparr>
      in if bh_largest_size h < pb_size block then h\<lparr>bh_largest_size := pb_size block\<rparr> else h)"

text \<open>The part of \<^verbatim>\<open>pool_block_get\<close> on the thread's own blocks; \<open>prev\<close> and \<open>next\<close> are the blocks before and after.\<close>

definition block_take ::
  "uint64_t \<Rightarrow> pool_block_t list \<Rightarrow> pool_block_t \<Rightarrow> pool_block_t list \<Rightarrow> pool_block_header_t \<Rightarrow> uint64_t \<times> pool_block_header_t" where
  "block_take sz prev block next h =
     (if pb_size block > sz then
        let rem = pb_size block - sz;
            block = block\<lparr>pb_size := rem\<rparr>;
            h = h\<lparr>bh_head := prev @ block # next, bh_total_size := bh_total_size h - sz\<rparr>;
            h = (if prev \<noteq> [] \<and> pb_size (last prev) > pb_size block then
                   let h = (if next = [] then h\<lparr>bh_largest_size := pb_size (last prev)\<rparr> else h)
                   in pool_block_insert block (pool_block_remove prev next h)
                 else if next = [] then h\<lparr>bh_largest_size := rem\<rparr> else h)
        in (pb_addr block + rem, h)
      else
        let h = (if next = [] then h\<lparr>bh_largest_size := if prev = [] then 0 else pb_size (last prev)\<rparr> else h);
            h = pool_block_remove prev next h
        in (pb_addr block, h\<lparr>bh_total_size := bh_total_size h - sz\<rparr>))"

text \<open>\<open>0\<close> is \<^verbatim>\<open>NULL\<close>.\<close>

definition pool_block_get :: "uint64_t \<Rightarrow> pool_t \<Rightarrow> (uint64_t \<times> pool_t) res" where
  "pool_block_get sz s =
     (if bh_largest_size (po_block_header s) \<ge> sz then
        (case block_find sz (bh_head (po_block_header s)) of
           None \<Rightarrow> Inl Assert_fail
         | Some (prev, block, next) \<Rightarrow>
             let (p, h) = block_take sz prev block next (po_block_header s)
             in Inr (p, s\<lparr>po_block_header := h\<rparr>))
      else
        res_bind (pool_block_pull sz s) (\<lambda>(block, s).
          case block of
            None \<Rightarrow> Inr (0, s)
          | Some block \<Rightarrow>
              if sz = pb_size block then Inr (pb_addr block, s)
              else
                let rem = pb_size block - sz
                in Inr (pb_addr block + rem, s\<lparr>po_block_header := block_add (block\<lparr>pb_size := rem\<rparr>) (po_block_header s)\<rparr>)))"

text \<open>\<open>va\<close> is the address \<^verbatim>\<open>ponyint_virt_alloc\<close> returns if it is called.\<close>

definition pool_alloc_pages :: "uint64_t \<Rightarrow> uint64_t \<Rightarrow> pool_t \<Rightarrow> (uint64_t \<times> pool_t) res" where
  "pool_alloc_pages va sz s =
     res_bind (pool_block_get sz s) (\<lambda>(p, s).
       if p \<noteq> 0 then Inr (p, s)
       else if sz \<ge> POOL_MMAP then Inr (va, s\<lparr>po_mapped := po_mapped s @ [(va, sz)]\<rparr>)
       else
         let rem = POOL_MMAP - sz;
             s = s\<lparr>po_mapped := po_mapped s @ [(va, POOL_MMAP)]\<rparr>
         in Inr (va + rem, s\<lparr>po_block_header := block_add \<lparr>pb_addr = va, pb_size = rem\<rparr> (po_block_header s)\<rparr>))"

definition pool_free_pages :: "uint64_t \<Rightarrow> uint64_t \<Rightarrow> uint64_t \<Rightarrow> pool_t \<Rightarrow> pool_t" where
  "pool_free_pages pg p sz s =
     (let start = (p + pg - 1) AND NOT (pg - 1);
          stop = (p + sz) AND NOT (pg - 1);
          s = (if stop > start then s\<lparr>po_decommitted := po_decommitted s @ [(start, stop - start)]\<rparr> else s)
      in s\<lparr>po_block_header := block_add \<lparr>pb_addr = p, pb_size = sz\<rparr> (po_block_header s)\<rparr>)"

section \<open>Size classes\<close>

definition upd_local :: "nat \<Rightarrow> (pool_local_t \<Rightarrow> pool_local_t) \<Rightarrow> pool_t \<Rightarrow> pool_t" where
  "upd_local index f s = s\<lparr>po_local := (po_local s)[index := f (po_local s ! index)]\<rparr>"

definition upd_global :: "nat \<Rightarrow> (pool_global_t \<Rightarrow> pool_global_t) \<Rightarrow> pool_t \<Rightarrow> pool_t" where
  "upd_global index f s = s\<lparr>po_global := (po_global s)[index := f (po_global s ! index)]\<rparr>"

definition pool_push :: "nat \<Rightarrow> pool_t \<Rightarrow> pool_t res" where
  "pool_push index s =
     res_bind (arr_get (po_local s) index) (\<lambda>thread. res_bind (arr_get (po_global s) index) (\<lambda>global.
       if pl_pool thread = [] then Inl Null_deref
       else
         let p = \<lparr>pc_items = pl_pool thread, pc_length = pl_length thread\<rparr>;
             s = upd_local index (\<lambda>l. l\<lparr>pl_pool := [], pl_length := 0\<rparr>) s
         in pony_assert (pc_length p > 0 \<and> pc_length p \<le> pg_count global)
              (Inr (upd_global index (\<lambda>g. g\<lparr>pg_central := p # pg_central g\<rparr>) s))))"

definition pool_pull :: "nat \<Rightarrow> pool_t \<Rightarrow> (uint64_t \<times> pool_t) res" where
  "pool_pull index s =
     res_bind (arr_get (po_global s) index) (\<lambda>global.
       case pg_central global of
         [] \<Rightarrow> Inr (0, s)
       | first # others \<Rightarrow>
           let s = upd_global index (\<lambda>g. g\<lparr>pg_central := others\<rparr>) s
           in pony_assert (pc_length first > 0 \<and> pc_length first \<le> pg_count global)
                (case pc_items first of
                   [] \<Rightarrow> Inl Null_deref
                 | p # items \<Rightarrow> Inr (p, upd_local index (\<lambda>l. l\<lparr>pl_pool := items, pl_length := pc_length first - 1\<rparr>) s)))"

text \<open>The first two attempts of \<^verbatim>\<open>pool_get\<close>: the thread's list, then a list of the global ones.\<close>

definition pool_get_item :: "nat \<Rightarrow> pool_t \<Rightarrow> (uint64_t \<times> pool_t) res" where
  "pool_get_item index s =
     res_bind (arr_get (po_local s) index) (\<lambda>thread.
       case pl_pool thread of
         p # rest \<Rightarrow> Inr (p, upd_local index (\<lambda>l. l\<lparr>pl_pool := rest, pl_length := pl_length l - 1\<rparr>) s)
       | [] \<Rightarrow> pool_pull index s)"

text \<open>
  A page for a small class comes from the class of pages, whose own size is not below \<open>POOL_ALIGN\<close>, so fuel 2 is enough for the
  recursion.
\<close>

fun pool_get :: "nat \<Rightarrow> uint64_t \<Rightarrow> nat \<Rightarrow> pool_t \<Rightarrow> (uint64_t \<times> pool_t) res" where
  "pool_get 0 va index s = Inl Out_of_fuel"
| "pool_get (Suc fuel) va index s =
     res_bind (pool_get_item index s) (\<lambda>(p, s).
       if p \<noteq> 0 then Inr (p, s)
       else res_bind (arr_get (po_local s) index) (\<lambda>thread. res_bind (arr_get (po_global s) index) (\<lambda>global.
         if pg_size global < POOL_ALIGN then
           if pl_start thread < pl_end thread then
             Inr (pl_start thread, upd_local index (\<lambda>l. l\<lparr>pl_start := pl_start l + pg_size global\<rparr>) s)
           else
             res_bind (pool_get fuel va POOL_ALIGN_INDEX s) (\<lambda>(mem, s).
               Inr (mem, upd_local index (\<lambda>l. l\<lparr>pl_start := mem + pg_size global, pl_end := mem + POOL_ALIGN\<rparr>) s))
         else pool_alloc_pages va (pg_size global) s)))"

section \<open>Allocation\<close>

definition ponyint_pool_alloc :: "uint64_t \<Rightarrow> nat \<Rightarrow> pool_t \<Rightarrow> (uint64_t \<times> pool_t) res" where
  "ponyint_pool_alloc va index s = pool_get 2 va index s"

definition ponyint_pool_free :: "nat \<Rightarrow> uint64_t \<Rightarrow> pool_t \<Rightarrow> pool_t res" where
  "ponyint_pool_free index p s =
     pony_assert (index < POOL_COUNT)
       (res_bind (arr_get (po_local s) index) (\<lambda>thread. res_bind (arr_get (po_global s) index) (\<lambda>global.
          res_bind (if pl_length thread = pg_count global then pool_push index s else Inr s) (\<lambda>s.
            res_bind (arr_get (po_local s) index) (\<lambda>thread.
              pony_assert (pl_length thread < pg_count global)
                (Inr (upd_local index (\<lambda>l. l\<lparr>pl_pool := p # pl_pool l, pl_length := pl_length l + 1\<rparr>) s)))))))"

definition ponyint_pool_index :: "uint64_t \<Rightarrow> nat" where
  "ponyint_pool_index sz =
     (if sz > POOL_MIN then (64 - POOL_MIN_BITS) - pony_clzzu sz - (if sz AND (sz - 1) = 0 then 1 else 0) else 0)"

definition ponyint_pool_used_size :: "uint64_t \<Rightarrow> uint64_t" where
  "ponyint_pool_used_size sz =
     (let index = ponyint_pool_index sz
      in if index < POOL_COUNT then POOL_SIZE index else ponyint_pool_adjust_size sz)"

definition ponyint_pool_alloc_size :: "uint64_t \<Rightarrow> uint64_t \<Rightarrow> pool_t \<Rightarrow> (uint64_t \<times> pool_t) res" where
  "ponyint_pool_alloc_size va sz s =
     (let index = ponyint_pool_index sz
      in if index < POOL_COUNT then ponyint_pool_alloc va index s
         else pool_alloc_pages va (ponyint_pool_adjust_size sz) s)"

definition ponyint_pool_free_size :: "uint64_t \<Rightarrow> uint64_t \<Rightarrow> uint64_t \<Rightarrow> pool_t \<Rightarrow> pool_t res" where
  "ponyint_pool_free_size pg sz p s =
     (let index = ponyint_pool_index sz
      in if index < POOL_COUNT then ponyint_pool_free index p s
         else Inr (pool_free_pages pg p (ponyint_pool_adjust_size sz) s))"

definition ponyint_pool_realloc_size ::
  "uint64_t \<Rightarrow> uint64_t \<Rightarrow> uint64_t \<Rightarrow> uint64_t \<Rightarrow> uint64_t \<Rightarrow> pool_t \<Rightarrow> (uint64_t \<times> pool_t) res" where
  "ponyint_pool_realloc_size va pg old_size new_size p s =
     (if p = 0 then ponyint_pool_alloc_size va new_size s
      else
        let old_index = ponyint_pool_index old_size;
            new_index = ponyint_pool_index new_size;
            new_adj_size = ponyint_pool_adjust_size new_size;
            old_adj_size = (if new_index < POOL_COUNT then 0
                            else if old_index \<ge> POOL_COUNT then ponyint_pool_adjust_size old_size else 0)
        in if new_index < POOL_COUNT \<and> old_index = new_index then Inr (p, s)
           else if \<not> new_index < POOL_COUNT \<and> old_index \<ge> POOL_COUNT \<and> old_adj_size = new_adj_size then Inr (p, s)
           else
             res_bind (if new_index < POOL_COUNT then ponyint_pool_alloc va new_index s
                       else pool_alloc_pages va new_adj_size s) (\<lambda>(new_p, s).
               let s = s\<lparr>po_copied := po_copied s @ [(new_p, p, if old_size < new_size then old_size else new_size)]\<rparr>
               in if old_index < POOL_COUNT
                  then res_bind (ponyint_pool_free old_index p s) (\<lambda>s. Inr (new_p, s))
                  else Inr (new_p, pool_free_pages pg p old_adj_size s)))"

text \<open>The rest of the thread's current page of a class goes to its list, item by item.\<close>

fun cleanup_items :: "nat \<Rightarrow> nat \<Rightarrow> pool_t \<Rightarrow> pool_t res" where
  "cleanup_items 0 index s = Inl Out_of_fuel"
| "cleanup_items (Suc fuel) index s =
     res_bind (arr_get (po_local s) index) (\<lambda>thread. res_bind (arr_get (po_global s) index) (\<lambda>global.
       if pl_start thread < pl_end thread then
         res_bind (if pl_length thread = pg_count global then pool_push index s else Inr s) (\<lambda>s.
           cleanup_items fuel index
             (upd_local index (\<lambda>l. l\<lparr>pl_start := pl_start l + pg_size global, pl_pool := pl_start l # pl_pool l, pl_length := pl_length l + 1\<rparr>) s))
       else if pl_length thread > 0 then pool_push index s
       else Inr s))"

fun cleanup_classes :: "nat \<Rightarrow> nat list \<Rightarrow> pool_t \<Rightarrow> pool_t res" where
  "cleanup_classes fuel [] s = Inr s"
| "cleanup_classes fuel (index # rest) s = res_bind (cleanup_items fuel index s) (cleanup_classes fuel rest)"

fun cleanup_blocks :: "pool_block_t list \<Rightarrow> pool_t \<Rightarrow> pool_t" where
  "cleanup_blocks [] s = s"
| "cleanup_blocks (block # next) s =
     cleanup_blocks next (pool_block_push block (s\<lparr>po_block_header := pool_block_remove [] next (po_block_header s)\<rparr>))"

definition ponyint_pool_thread_cleanup :: "nat \<Rightarrow> pool_t \<Rightarrow> pool_t res" where
  "ponyint_pool_thread_cleanup fuel s =
     res_bind (cleanup_classes fuel [0..<POOL_COUNT] s) (\<lambda>s.
       let s = cleanup_blocks (bh_head (po_block_header s)) s
       in Inr (s\<lparr>po_block_header := (po_block_header s)\<lparr>bh_total_size := 0, bh_largest_size := 0\<rparr>\<rparr>))"

end
