(* ===== verification/Pool_Inv.thy ===== *)
theory Pool_Inv
  imports Pool
begin

text \<open>
  The invariant of the pool, and the account of its memory: how often an address is covered by free memory, by memory
  handed out and by memory the operating system mapped.
\<close>

section \<open>Accounts\<close>

definition piece :: "uint64_t \<Rightarrow> nat \<Rightarrow> uint64_t \<Rightarrow> nat" where
  "piece a n x = (if in_block a n x then 1 else 0)"

definition class_size :: "nat \<Rightarrow> nat" where
  "class_size i = 32 * 2 ^ i"

definition items_cover :: "nat \<Rightarrow> uint64_t list \<Rightarrow> uint64_t \<Rightarrow> nat" where
  "items_cover n ps x = (\<Sum>p \<leftarrow> ps. piece p n x)"

definition blocks_cover :: "pool_block_t list \<Rightarrow> uint64_t \<Rightarrow> nat" where
  "blocks_cover bs x = (\<Sum>b \<leftarrow> bs. piece (pb_addr b) (unat (pb_size b)) x)"

definition local_cover :: "nat \<Rightarrow> pool_local_t \<Rightarrow> uint64_t \<Rightarrow> nat" where
  "local_cover i l x = items_cover (class_size i) (pl_pool l) x + piece (pl_start l) (unat (pl_end l) - unat (pl_start l)) x"

definition central_cover :: "nat \<Rightarrow> pool_global_t \<Rightarrow> uint64_t \<Rightarrow> nat" where
  "central_cover i g x = (\<Sum>c \<leftarrow> pg_central g. items_cover (class_size i) (pc_items c) x)"

definition thread_cover :: "pool_t \<Rightarrow> uint64_t \<Rightarrow> nat" where
  "thread_cover s x = (\<Sum>i < 16. local_cover i (po_local s ! i) x) + blocks_cover (bh_head (po_block_header s)) x"

definition shared_cover :: "pool_t \<Rightarrow> uint64_t \<Rightarrow> nat" where
  "shared_cover s x = (\<Sum>i < 16. central_cover i (po_global s ! i) x) + blocks_cover (po_block_global s) x"

definition free_cover :: "pool_t \<Rightarrow> uint64_t \<Rightarrow> nat" where
  "free_cover s x = thread_cover s x + shared_cover s x"

definition mapped_cover :: "pool_t \<Rightarrow> uint64_t \<Rightarrow> nat" where
  "mapped_cover s x = (\<Sum>(a, n) \<leftarrow> po_mapped s. piece a (unat n) x)"

section \<open>Invariant\<close>

definition item_ok :: "nat \<Rightarrow> uint64_t \<Rightarrow> bool" where
  "item_ok i p \<longleftrightarrow> p \<noteq> 0 \<and> unat p mod min (class_size i) 1024 = 0 \<and> unat p + class_size i \<le> 2 ^ 48"

definition block_ok :: "pool_block_t \<Rightarrow> bool" where
  "block_ok b \<longleftrightarrow> pb_addr b \<noteq> 0 \<and> unat (pb_addr b) mod 1024 = 0 \<and> unat (pb_size b) mod 1024 = 0 \<and> 0 < unat (pb_size b)
     \<and> unat (pb_addr b) + unat (pb_size b) \<le> 2 ^ 48"

definition blocks_ok :: "pool_block_t list \<Rightarrow> bool" where
  "blocks_ok bs \<longleftrightarrow> (\<forall>b \<in> set bs. block_ok b) \<and> sorted (map pb_size bs)"

definition largest :: "pool_block_t list \<Rightarrow> uint64_t" where
  "largest bs = (if bs = [] then 0 else pb_size (last bs))"

definition header_ok :: "pool_block_header_t \<Rightarrow> bool" where
  "header_ok h \<longleftrightarrow> blocks_ok (bh_head h) \<and> bh_total_size h = sum_list (map pb_size (bh_head h)) \<and> bh_largest_size h = largest (bh_head h)"

definition page_ok :: "nat \<Rightarrow> pool_local_t \<Rightarrow> bool" where
  "page_ok i l \<longleftrightarrow> pl_start l \<le> pl_end l \<and> unat (pl_end l) - unat (pl_start l) \<le> 1024
     \<and> (unat (pl_end l) - unat (pl_start l)) mod class_size i = 0
     \<and> (pl_start l < pl_end l \<longrightarrow> i < 5 \<and> pl_start l \<noteq> 0 \<and> unat (pl_start l) mod class_size i = 0 \<and> unat (pl_end l) \<le> 2 ^ 48)"

definition list_ok :: "nat \<Rightarrow> uint64_t list \<Rightarrow> uint64_t \<Rightarrow> bool" where
  "list_ok i ps n \<longleftrightarrow> (\<forall>p \<in> set ps. item_ok i p) \<and> unat n = length ps \<and> length ps \<le> 2 ^ (15 - i)"

definition free_list_ok :: "nat \<Rightarrow> pool_local_t \<Rightarrow> bool" where
  "free_list_ok i l \<longleftrightarrow> list_ok i (pl_pool l) (pl_length l) \<and> page_ok i l"

definition global_ok :: "nat \<Rightarrow> pool_global_t \<Rightarrow> bool" where
  "global_ok i g \<longleftrightarrow> unat (pg_size g) = class_size i \<and> unat (pg_count g) = 2 ^ (15 - i)
     \<and> (\<forall>c \<in> set (pg_central g). pc_items c \<noteq> [] \<and> list_ok i (pc_items c) (pc_length c))"

definition pool_wf :: "pool_t \<Rightarrow> bool" where
  "pool_wf s \<longleftrightarrow> length (po_local s) = 16 \<and> length (po_global s) = 16
     \<and> (\<forall>i < 16. free_list_ok i (po_local s ! i) \<and> global_ok i (po_global s ! i))
     \<and> header_ok (po_block_header s) \<and> blocks_ok (po_block_global s)"

section \<open>Lists of blocks\<close>

lemma mset_block_insert: "mset (block_insert b bs) = add_mset b (mset bs)"
  by (induction bs) auto

lemma set_block_insert [simp]: "set (block_insert b bs) = insert b (set bs)"
  using arg_cong [OF mset_block_insert, of set_mset] by simp

lemma blocks_cover_simps [simp]:
  "blocks_cover [] x = 0" "blocks_cover (b # bs) x = piece (pb_addr b) (unat (pb_size b)) x + blocks_cover bs x"
  "blocks_cover (bs @ cs) x = blocks_cover bs x + blocks_cover cs x"
  by (simp_all add: blocks_cover_def)

lemma blocks_cover_insert [simp]: "blocks_cover (block_insert b bs) x = piece (pb_addr b) (unat (pb_size b)) x + blocks_cover bs x"
  by (induction bs) auto

lemma sum_block_insert [simp]: "sum_list (map pb_size (block_insert b bs)) = pb_size b + sum_list (map pb_size bs)"
  by (induction bs) (auto simp: algebra_simps)

lemma blocks_ok_insert: "blocks_ok bs \<Longrightarrow> block_ok b \<Longrightarrow> blocks_ok (block_insert b bs)"
proof (induction bs)
  case (Cons c bs)
  then show ?case by (cases "pb_size b \<le> pb_size c") (auto simp: blocks_ok_def)
qed (simp add: blocks_ok_def)

lemma sorted_last: "sorted (map pb_size bs) \<Longrightarrow> c \<in> set bs \<Longrightarrow> pb_size c \<le> pb_size (last bs)"
  by (induction bs) auto

lemma largest_insert: "sorted (map pb_size bs) \<Longrightarrow> largest (block_insert b bs) = max (pb_size b) (largest bs)"
proof (induction bs)
  case (Cons c bs)
  have "pb_size c \<le> pb_size (last (c # bs))" using sorted_last [OF Cons.prems, of c] by simp
  moreover have "block_insert b bs \<noteq> []" by (cases bs) auto
  moreover have "pb_size b \<le> pb_size (last bs)" if "pb_size b \<le> pb_size c" "bs \<noteq> []"
    using calculation(1) that by simp
  ultimately show ?case
    using Cons by (cases "bs = []"; cases "pb_size b \<le> pb_size c") (auto simp: largest_def max_def)
qed (simp add: largest_def)

lemma block_find_Some:
  "block_find n bs = Some (prev, b, nxt) \<Longrightarrow> bs = prev @ b # nxt \<and> n \<le> pb_size b \<and> (\<forall>c \<in> set prev. pb_size c < n)"
  by (induction bs arbitrary: prev) (auto split: if_splits option.splits)

lemma block_find_None: "block_find n bs = None \<Longrightarrow> \<forall>c \<in> set bs. pb_size c < n"
  by (induction bs) (auto split: if_splits option.splits)

lemma blocks_ok_append: "blocks_ok (bs @ cs) \<longleftrightarrow> blocks_ok bs \<and> blocks_ok cs \<and> (\<forall>b \<in> set bs. \<forall>c \<in> set cs. pb_size b \<le> pb_size c)"
  by (auto simp: blocks_ok_def sorted_append)

lemma blocks_ok_Cons: "blocks_ok (b # bs) \<longleftrightarrow> block_ok b \<and> blocks_ok bs \<and> (\<forall>c \<in> set bs. pb_size b \<le> pb_size c)"
  by (auto simp: blocks_ok_def)

lemma header_ok_add:
  assumes "header_ok h" "block_ok b"
  shows "header_ok (block_add b h)"
proof -
  have "blocks_ok (block_insert b (bh_head h))" "largest (block_insert b (bh_head h)) = max (pb_size b) (largest (bh_head h))"
    using assms blocks_ok_insert largest_insert by (auto simp: header_ok_def blocks_ok_def)
  then show ?thesis
    using assms(1) by (auto simp: header_ok_def block_add_def pool_block_insert_def Let_def max_def add.commute not_less)
qed

lemma head_block_add [simp]: "bh_head (block_add b h) = block_insert b (bh_head h)"
  by (simp add: block_add_def pool_block_insert_def Let_def)

text \<open>Cutting the end off a block.\<close>

lemma cut_block:
  assumes "block_ok b" "n < pb_size b" "unat n mod 1024 = 0" "0 < unat n"
  shows "block_ok (b\<lparr>pb_size := pb_size b - n\<rparr>)" "unat (pb_size b - n) = unat (pb_size b) - unat n"
    "unat (pb_addr b + (pb_size b - n)) = unat (pb_addr b) + (unat (pb_size b) - unat n)"
    "piece (pb_addr b) (unat (pb_size b - n)) x + piece (pb_addr b + (pb_size b - n)) (unat n) x = piece (pb_addr b) (unat (pb_size b)) x"
proof -
  have n: "unat n < unat (pb_size b)" using assms(2) by (simp add: word_less_nat_alt)
  show r: "unat (pb_size b - n) = unat (pb_size b) - unat n" using n by (simp add: unat_sub word_le_nat_alt)
  have "unat (pb_addr b) + unat (pb_size b) \<le> 2 ^ 48" using assms(1) by (simp add: block_ok_def)
  then have "unat (pb_addr b) + unat (pb_size b - n) < 2 ^ 64" unfolding r by simp
  then show a: "unat (pb_addr b + (pb_size b - n)) = unat (pb_addr b) + (unat (pb_size b) - unat n)"
    using r by (simp add: unat_word_ariths)
  have "(unat (pb_size b) - unat n) mod 1024 = 0"
    using assms(1,3) n by (simp add: block_ok_def mod_eq_0_iff_dvd)
  moreover have "unat (pb_addr b) + (unat (pb_size b) - unat n) \<le> 2 ^ 48"
    using \<open>unat (pb_addr b) + unat (pb_size b) \<le> 2 ^ 48\<close> by linarith
  ultimately show "block_ok (b\<lparr>pb_size := pb_size b - n\<rparr>)"
    using assms(1) n r unfolding block_ok_def by simp
  show "piece (pb_addr b) (unat (pb_size b - n)) x + piece (pb_addr b + (pb_size b - n)) (unat n) x = piece (pb_addr b) (unat (pb_size b)) x"
    using n by (auto simp: piece_def in_block_def r a)
qed

definition gives :: "uint64_t \<Rightarrow> nat \<Rightarrow> bool" where
  "gives p n \<longleftrightarrow> p \<noteq> 0 \<and> unat p mod 1024 = 0 \<and> unat p + n \<le> 2 ^ 48"

lemma cut_gives:
  assumes "block_ok b" "n < pb_size b" "unat n mod 1024 = 0" "0 < unat n"
  shows "gives (pb_addr b + (pb_size b - n)) (unat n)"
proof -
  have n: "unat n < unat (pb_size b)" using assms(2) by (simp add: word_less_nat_alt)
  have "(unat (pb_addr b) + (unat (pb_size b) - unat n)) mod 1024 = 0"
    using assms(1,3) n by (simp add: block_ok_def mod_eq_0_iff_dvd)
  moreover have "0 < unat (pb_addr b)" using assms(1) by (simp add: block_ok_def unat_gt_0)
  ultimately have "0 < unat (pb_addr b + (pb_size b - n))" "unat (pb_addr b + (pb_size b - n)) mod 1024 = 0"
    "unat (pb_addr b + (pb_size b - n)) + unat n \<le> 2 ^ 48"
    using cut_block(3) [OF assms] assms(1) n by (simp_all add: block_ok_def)
  then show ?thesis by (auto simp: gives_def)
qed

lemma block_gives: "block_ok b \<Longrightarrow> gives (pb_addr b) (unat (pb_size b))"
  by (simp add: block_ok_def gives_def)

text \<open>Taking memory from a block of the thread.\<close>

lemma block_take_spec:
  assumes h: "header_ok h" "bh_head h = prev @ b # nxt" and b: "n \<le> pb_size b" "\<forall>c \<in> set prev. pb_size c < n"
    and n: "unat n mod 1024 = 0" "0 < unat n" and r: "block_take n prev b nxt h = (p, h')"
  shows "header_ok h' \<and> gives p (unat n) \<and> blocks_cover (bh_head h') x + piece p (unat n) x = blocks_cover (bh_head h) x"
proof -
  have ok: "blocks_ok prev" "block_ok b" "blocks_ok nxt" "\<forall>c \<in> set nxt. pb_size b \<le> pb_size c"
    "\<forall>c \<in> set prev. \<forall>d \<in> set nxt. pb_size c \<le> pb_size d"
    and tot: "bh_total_size h = sum_list (map pb_size prev) + pb_size b + sum_list (map pb_size nxt)"
    and lar: "bh_largest_size h = (if nxt = [] then pb_size b else pb_size (last nxt))"
    using h by (auto simp: header_ok_def blocks_ok_append blocks_ok_Cons largest_def)
  show ?thesis
  proof (cases "n < pb_size b")
    case False
    then have e: "pb_size b = n" using b(1) by simp
    have "largest (prev @ nxt) = (if nxt = [] then if prev = [] then 0 else pb_size (last prev) else pb_size (last nxt))"
      by (simp add: largest_def)
    then show ?thesis
      using False r ok tot lar e block_gives [OF ok(2)] h(2)
      by (auto simp: block_take_def Let_def header_ok_def pool_block_remove_def blocks_ok_append)
  next
    case True
    let ?rem = "pb_size b - n"
    let ?b = "b\<lparr>pb_size := ?rem\<rparr>"
    note cut = cut_block [OF ok(2) True n]
    have less: "?rem \<le> pb_size b" using cut(2) by (simp add: word_le_nat_alt)
    have p: "p = pb_addr b + ?rem" using r True by (simp add: block_take_def Let_def)
    show ?thesis
    proof (cases "prev \<noteq> [] \<and> pb_size (last prev) > ?rem")
      case move: True
      then have h': "h' = h\<lparr>bh_head := block_insert ?b (prev @ nxt), bh_total_size := bh_total_size h - n,
          bh_largest_size := if nxt = [] then pb_size (last prev) else bh_largest_size h\<rparr>"
        using r True by (auto simp: block_take_def Let_def pool_block_insert_def pool_block_remove_def)
      have bo: "blocks_ok (prev @ nxt)" using ok by (simp add: blocks_ok_append)
      have "?rem \<le> pb_size (last nxt)" if "nxt \<noteq> []"
        using ok(4) less that order.trans last_in_set by blast
      then have "largest (block_insert ?b (prev @ nxt)) = (if nxt = [] then pb_size (last prev) else pb_size (last nxt))"
        using largest_insert [of "prev @ nxt" ?b] bo move by (auto simp: blocks_ok_def largest_def max_def)
      then show ?thesis
        using blocks_ok_insert [OF bo cut(1)] tot lar cut_gives [OF ok(2) True n] cut(4) [of x] h(2)
        by (simp add: h' header_ok_def p)
    next
      case stay: False
      then have h': "h' = h\<lparr>bh_head := prev @ ?b # nxt, bh_total_size := bh_total_size h - n,
          bh_largest_size := if nxt = [] then ?rem else bh_largest_size h\<rparr>"
        using r True by (auto simp: block_take_def Let_def)
      have "pb_size c \<le> ?rem" if "c \<in> set prev" for c
      proof -
        have "pb_size c \<le> pb_size (last prev)"
          using ok(1) that sorted_last [of prev c] by (simp add: blocks_ok_def)
        moreover have "prev \<noteq> []" using that by auto
        ultimately show ?thesis using stay by auto
      qed
      moreover have "\<forall>c \<in> set nxt. ?rem \<le> pb_size c" using ok(4) less order.trans by blast
      ultimately have "blocks_ok (prev @ ?b # nxt)"
        using ok cut(1) by (auto simp: blocks_ok_append blocks_ok_Cons)
      then show ?thesis
        using tot lar cut_gives [OF ok(2) True n] cut(4) [of x] h(2)
        by (simp add: h' header_ok_def p largest_def)
    qed
  qed
qed

section \<open>Pages\<close>

text \<open>
  Memory \<open>n\<close> at \<open>p\<close> leaves the free memory: the account balances, where mapping more memory adds to both sides.
\<close>

definition takes :: "pool_t \<Rightarrow> uint64_t \<Rightarrow> nat \<Rightarrow> pool_t \<Rightarrow> bool" where
  "takes s p n s' \<longleftrightarrow> pool_wf s' \<and> (\<forall>x. free_cover s' x + piece p n x + mapped_cover s x = free_cover s x + mapped_cover s' x)
     \<and> po_decommitted s' = po_decommitted s \<and> po_copied s' = po_copied s"

text \<open>At most one call for more memory.\<close>

definition maps :: "uint64_t \<Rightarrow> uint64_t \<Rightarrow> pool_t \<Rightarrow> pool_t \<Rightarrow> bool" where
  "maps va n s s' \<longleftrightarrow> po_mapped s' = po_mapped s \<or> po_mapped s' = po_mapped s @ [(va, max n POOL_MMAP)]"

lemma mapped_cover_append: "po_mapped s' = po_mapped s @ [(a, n)] \<Longrightarrow> mapped_cover s' x = mapped_cover s x + piece a (unat n) x"
  by (simp add: mapped_cover_def)

lemma POOL_MMAP_nat: "unat POOL_MMAP = 2 ^ 27"
  by (simp add: POOL_MMAP_def)

lemma pool_wf_upd:
  "pool_wf s \<Longrightarrow> header_ok h \<Longrightarrow> pool_wf (s\<lparr>po_block_header := h\<rparr>)"
  "pool_wf s \<Longrightarrow> blocks_ok bs \<Longrightarrow> pool_wf (s\<lparr>po_block_global := bs\<rparr>)"
  "pool_wf (s\<lparr>po_mapped := m\<rparr>) = pool_wf s" "pool_wf (s\<lparr>po_decommitted := d\<rparr>) = pool_wf s" "pool_wf (s\<lparr>po_copied := cs\<rparr>) = pool_wf s"
  by (simp_all add: pool_wf_def)

lemma cover_upd [simp]:
  "free_cover (s\<lparr>po_mapped := m\<rparr>) x = free_cover s x" "free_cover (s\<lparr>po_decommitted := d\<rparr>) x = free_cover s x"
  "free_cover (s\<lparr>po_copied := cs\<rparr>) x = free_cover s x"
  "mapped_cover (s\<lparr>po_block_header := h\<rparr>) x = mapped_cover s x" "mapped_cover (s\<lparr>po_block_global := bs\<rparr>) x = mapped_cover s x"
  "mapped_cover (s\<lparr>po_decommitted := d\<rparr>) x = mapped_cover s x" "mapped_cover (s\<lparr>po_copied := cs\<rparr>) x = mapped_cover s x"
  by (simp_all add: free_cover_def thread_cover_def shared_cover_def mapped_cover_def)

lemma cover_header:
  "free_cover (s\<lparr>po_block_header := h\<rparr>) x + blocks_cover (bh_head (po_block_header s)) x = free_cover s x + blocks_cover (bh_head h) x"
  by (simp add: free_cover_def thread_cover_def shared_cover_def)

lemma cover_block_global:
  "free_cover (s\<lparr>po_block_global := bs\<rparr>) x + blocks_cover (po_block_global s) x = free_cover s x + blocks_cover bs x"
  by (simp add: free_cover_def thread_cover_def shared_cover_def)

lemma pool_wfD:
  assumes "pool_wf s"
  shows "length (po_local s) = 16" "length (po_global s) = 16" "header_ok (po_block_header s)" "blocks_ok (po_block_global s)"
    "i < 16 \<Longrightarrow> free_list_ok i (po_local s ! i)" "i < 16 \<Longrightarrow> global_ok i (po_global s ! i)"
  using assms by (simp_all add: pool_wf_def)

lemma pool_block_get_spec:
  assumes wf: "pool_wf s" and n: "unat n mod 1024 = 0" "0 < unat n"
  shows "pool_block_get n s = Inr (0, s) \<or> (\<exists>p s'. pool_block_get n s = Inr (p, s') \<and> gives p (unat n) \<and> takes s p (unat n) s'
    \<and> po_mapped s' = po_mapped s \<and> po_local s' = po_local s \<and> po_global s' = po_global s)"
proof -
  let ?h = "po_block_header s"
  note ok = pool_wfD(3,4) [OF wf]
  show ?thesis
  proof (cases "bh_largest_size ?h \<ge> n")
    case True
    have "\<exists>b \<in> set (bh_head ?h). n \<le> pb_size b"
    proof -
      have "largest (bh_head ?h) \<ge> n" "n \<noteq> 0" using ok(1) True n(2) by (auto simp: header_ok_def)
      then show ?thesis by (cases "bh_head ?h = []") (auto simp: largest_def intro: bexI [OF _ last_in_set])
    qed
    then obtain prev b nxt where f: "block_find n (bh_head ?h) = Some (prev, b, nxt)"
      using block_find_None [of n "bh_head ?h"] by (cases "block_find n (bh_head ?h)") (force simp: not_less [symmetric])+
    obtain p h' where t: "block_take n prev b nxt ?h = (p, h')" by fastforce
    have sp: "header_ok h' \<and> gives p (unat n) \<and> blocks_cover (bh_head h') x + piece p (unat n) x = blocks_cover (bh_head ?h) x" for x
      using block_take_spec [OF ok(1) _ _ _ n t] block_find_Some [OF f] by blast
    have "pool_block_get n s = Inr (p, s\<lparr>po_block_header := h'\<rparr>)"
      using True f t by (simp add: pool_block_get_def)
    moreover have "takes s p (unat n) (s\<lparr>po_block_header := h'\<rparr>)"
      unfolding takes_def
    proof (intro conjI allI)
      fix x
      show "free_cover (s\<lparr>po_block_header := h'\<rparr>) x + piece p (unat n) x + mapped_cover s x
          = free_cover s x + mapped_cover (s\<lparr>po_block_header := h'\<rparr>) x"
        using sp [of x] cover_header [where s = s and h = h' and x = x] by simp
    qed (use sp pool_wf_upd(1) [OF wf] in auto)
    ultimately show ?thesis using sp by auto
  next
    case False
    show ?thesis
    proof (cases "block_find n (po_block_global s)")
      case None
      then show ?thesis using False by (simp add: pool_block_get_def pool_block_pull_def)
    next
      case (Some r)
      obtain prev b nxt where f: "block_find n (po_block_global s) = Some (prev, b, nxt)" using Some by (cases r) auto
      note fs = block_find_Some [OF f]
      let ?s = "s\<lparr>po_block_global := prev @ nxt\<rparr>"
      have b: "block_ok b" "blocks_ok (prev @ nxt)"
        using ok(2) fs by (auto simp: blocks_ok_append blocks_ok_Cons)
      have c: "free_cover ?s x + piece (pb_addr b) (unat (pb_size b)) x = free_cover s x" for x
        using cover_block_global [where s = s and bs = "prev @ nxt" and x = x] fs by simp
      show ?thesis
      proof (cases "n = pb_size b")
        case True
        have "pool_block_get n s = Inr (pb_addr b, ?s)"
          using False f fs True by (simp add: pool_block_get_def pool_block_pull_def)
        moreover have "takes s (pb_addr b) (unat n) ?s"
          unfolding takes_def using c pool_wf_upd(2) [OF wf b(2)] True by simp
        ultimately show ?thesis using block_gives [OF b(1)] True by auto
      next
        case ne: False
        then have lt: "n < pb_size b" using fs by (simp add: order_less_le)
        let ?b = "b\<lparr>pb_size := pb_size b - n\<rparr>" and ?p = "pb_addr b + (pb_size b - n)"
        let ?t = "?s\<lparr>po_block_header := block_add ?b ?h\<rparr>"
        have "pool_block_get n s = Inr (?p, ?t)"
          using False f fs ne by (simp add: pool_block_get_def pool_block_pull_def Let_def)
        moreover have "takes s ?p (unat n) ?t"
          unfolding takes_def
        proof (intro conjI allI)
          show "pool_wf ?t"
            using pool_wf_upd(1) [OF pool_wf_upd(2) [OF wf b(2)]] header_ok_add [OF ok(1)] cut_block(1) [OF b(1) lt n] by blast
          fix x
          show "free_cover ?t x + piece ?p (unat n) x + mapped_cover s x = free_cover s x + mapped_cover ?t x"
            using cover_header [where s = ?s and h = "block_add ?b ?h" and x = x] c [of x] cut_block(4) [OF b(1) lt n, of x] by simp
        qed simp_all
        ultimately show ?thesis using cut_gives [OF b(1) lt n] by auto
      qed
    qed
  qed
qed

lemma pool_alloc_pages_spec:
  assumes wf: "pool_wf s" and n: "unat n mod 1024 = 0" "0 < unat n" and va: "gives va (max (unat n) (2 ^ 27))"
  shows "\<exists>p s'. pool_alloc_pages va n s = Inr (p, s') \<and> gives p (unat n) \<and> takes s p (unat n) s' \<and> maps va n s s'
    \<and> po_local s' = po_local s \<and> po_global s' = po_global s"
proof -
  consider "pool_block_get n s = Inr (0, s)" | p s' where "pool_block_get n s = Inr (p, s')" "gives p (unat n)" "takes s p (unat n) s'"
    "po_mapped s' = po_mapped s" "po_local s' = po_local s" "po_global s' = po_global s"
    using pool_block_get_spec [OF wf n] by blast
  then show ?thesis
  proof cases
    case (2 p s')
    moreover have "p \<noteq> 0" using 2(2) by (simp add: gives_def)
    ultimately show ?thesis by (auto simp: pool_alloc_pages_def maps_def)
  next
    case 1
    show ?thesis
    proof (cases "n \<ge> POOL_MMAP")
      case True
      let ?s = "s\<lparr>po_mapped := po_mapped s @ [(va, n)]\<rparr>"
      have "pool_alloc_pages va n s = Inr (va, ?s)" using 1 True by (simp add: pool_alloc_pages_def)
      moreover have "takes s va (unat n) ?s"
        using wf mapped_cover_append [of ?s s va n] by (simp add: takes_def pool_wf_upd)
      moreover have "gives va (unat n)" using va by (auto simp: gives_def)
      ultimately show ?thesis using True by (auto simp: maps_def max_def)
    next
      case False
      let ?s = "s\<lparr>po_mapped := po_mapped s @ [(va, POOL_MMAP)]\<rparr>"
      let ?b = "\<lparr>pb_addr = va, pb_size = POOL_MMAP\<rparr>"
      let ?rem = "POOL_MMAP - n"
      let ?t = "?s\<lparr>po_block_header := block_add \<lparr>pb_addr = va, pb_size = ?rem\<rparr> (po_block_header s)\<rparr>"
      have lt: "n < pb_size ?b" using False by simp
      have "unat n < 2 ^ 27" using lt POOL_MMAP_nat by (simp add: word_less_nat_alt)
      then have b: "block_ok ?b" using va by (simp add: block_ok_def gives_def POOL_MMAP_nat max_def split: if_splits)
      note cut = cut_block [OF b lt n, simplified]
      have "pool_alloc_pages va n s = Inr (va + ?rem, ?t)"
        using 1 False by (simp add: pool_alloc_pages_def Let_def)
      moreover have "takes s (va + ?rem) (unat n) ?t"
        unfolding takes_def
      proof (intro conjI allI)
        have "pool_wf ?s" using wf by (simp add: pool_wf_upd)
        then show "pool_wf ?t"
          using pool_wf_upd(1) header_ok_add [OF pool_wfD(3) [OF wf]] cut(1) by simp
        fix x
        show "free_cover ?t x + piece (va + ?rem) (unat n) x + mapped_cover s x = free_cover s x + mapped_cover ?t x"
          using cover_header [where s = ?s and h = "block_add \<lparr>pb_addr = va, pb_size = ?rem\<rparr> (po_block_header s)" and x = x] cut(4) [of x]
            mapped_cover_append [of ?s s va POOL_MMAP x] by simp
      qed simp_all
      moreover have "gives (va + ?rem) (unat n)" using cut_gives [OF b lt n] by simp
      ultimately show ?thesis using False by (auto simp: maps_def max_def)
    qed
  qed
qed

lemma pool_free_pages_eq:
  "\<exists>d. pool_free_pages pg p n s = s\<lparr>po_decommitted := d, po_block_header := block_add \<lparr>pb_addr = p, pb_size = n\<rparr> (po_block_header s)\<rparr>"
proof (cases "(p + pg - 1) AND NOT (pg - 1) < (p + n) AND NOT (pg - 1)")
  case True
  then show ?thesis by (intro exI) (simp add: pool_free_pages_def Let_def)
next
  case False
  then show ?thesis by (intro exI [of _ "po_decommitted s"]) (simp add: pool_free_pages_def Let_def)
qed

lemma pool_free_pages_spec:
  assumes wf: "pool_wf s" and p: "gives p (unat n)" "unat n mod 1024 = 0" "0 < unat n"
  shows "pool_wf (pool_free_pages pg p n s)" "free_cover (pool_free_pages pg p n s) x = free_cover s x + piece p (unat n) x"
    "po_mapped (pool_free_pages pg p n s) = po_mapped s"
proof -
  let ?b = "\<lparr>pb_addr = p, pb_size = n\<rparr>"
  have b: "block_ok ?b" using p by (simp add: block_ok_def gives_def)
  obtain d where d: "pool_free_pages pg p n s = s\<lparr>po_decommitted := d, po_block_header := block_add ?b (po_block_header s)\<rparr>"
    using pool_free_pages_eq by blast
  have "pool_wf (s\<lparr>po_decommitted := d\<rparr>)" using wf by (simp add: pool_wf_upd)
  then show "pool_wf (pool_free_pages pg p n s)"
    using pool_wf_upd(1) header_ok_add [OF pool_wfD(3) [OF wf] b] by (simp add: d)
  show "free_cover (pool_free_pages pg p n s) x = free_cover s x + piece p (unat n) x"
    using cover_header [where s = "s\<lparr>po_decommitted := d\<rparr>" and h = "block_add ?b (po_block_header s)" and x = x] by (simp add: d)
  show "po_mapped (pool_free_pages pg p n s) = po_mapped s" by (simp add: d)
qed

text \<open>What is given back to the operating system for reuse are whole pages inside the freed block.\<close>

lemma page_down: "k < 64 \<Longrightarrow> unat (w AND NOT (2 ^ k - 1 :: uint64_t)) = unat w div 2 ^ k * 2 ^ k"
proof -
  assume k: "k < 64"
  have "w AND NOT (2 ^ k - 1) = push_bit k (drop_bit k w)"
    unfolding mask_eq_exp_minus_1 [symmetric] by (intro bit_word_eqI) (auto simp: bit_simps)
  moreover have "unat w div 2 ^ k * 2 ^ k < 2 ^ 64"
    using unat_u64_bound [of w] by (meson div_times_less_eq_dividend le_less_trans)
  ultimately show ?thesis
    by (simp add: unat_push_bit_u64 unat_drop_bit_u64)
qed

lemma free_decommits_inside:
  assumes k: "k < 63" and n: "unat p + unat n + 2 ^ k < 2 ^ 64"
  shows "po_decommitted (pool_free_pages (2 ^ k) p n s) = po_decommitted s
    \<or> (\<exists>a m. po_decommitted (pool_free_pages (2 ^ k) p n s) = po_decommitted s @ [(a, m)] \<and> unat p \<le> unat a \<and> unat a + unat m \<le> unat p + unat n)"
proof -
  let ?a = "(p + 2 ^ k - 1) AND NOT (2 ^ k - 1)" and ?e = "(p + n) AND NOT (2 ^ k - 1)"
  have pk: "unat (2 ^ k :: uint64_t) = 2 ^ k" using k by (simp add: unat_exp_u64)
  have "unat (p + 2 ^ k - 1) = unat p + 2 ^ k - 1"
  proof -
    have "unat (p + 2 ^ k) = unat p + 2 ^ k" using n pk by (simp add: unat_word_ariths)
    then show ?thesis by (subst unat_minus_one) auto
  qed
  then have a: "unat ?a = (unat p + 2 ^ k - 1) div 2 ^ k * 2 ^ k" using page_down [of k "p + 2 ^ k - 1"] k by simp
  have "unat (p + n) = unat p + unat n" using n by (simp add: unat_word_ariths)
  then have e: "unat ?e = (unat p + unat n) div 2 ^ k * 2 ^ k" using page_down [of k "p + n"] k by simp
  have "unat p \<le> unat ?a"
  proof -
    have "unat p + 2 ^ k - 1 - (unat p + 2 ^ k - 1) mod 2 ^ k = unat ?a" using a by (simp add: minus_mod_eq_div_mult)
    moreover have "(unat p + 2 ^ k - 1) mod 2 ^ k < 2 ^ k" by (rule mod_less_divisor) simp
    ultimately show ?thesis by linarith
  qed
  moreover have "unat ?e \<le> unat p + unat n" unfolding e by simp
  moreover have "unat (?e - ?a) = unat ?e - unat ?a" if "?a < ?e" using that by (simp add: unat_sub word_le_nat_alt word_less_nat_alt)
  ultimately show ?thesis
    by (cases "?a < ?e") (auto simp: pool_free_pages_def Let_def word_less_nat_alt)
qed

section \<open>Items of a class\<close>

lemma items_cover_simps [simp]:
  "items_cover n [] x = 0" "items_cover n (p # ps) x = piece p n x + items_cover n ps x"
  by (simp_all add: items_cover_def)

lemma class_size_le: "i < 16 \<Longrightarrow> class_size i \<le> 2 ^ 20"
proof -
  assume "i < 16"
  then have "(2 :: nat) ^ i \<le> 2 ^ 15" by (intro power_increasing) simp_all
  then show ?thesis by (simp add: class_size_def)
qed

lemma class_size_pos [simp]: "0 < class_size i"
  by (simp add: class_size_def)

lemma upd_local_sel [simp]:
  "po_global (upd_local i f s) = po_global s" "po_block_header (upd_local i f s) = po_block_header s"
  "po_block_global (upd_local i f s) = po_block_global s" "po_mapped (upd_local i f s) = po_mapped s"
  "po_decommitted (upd_local i f s) = po_decommitted s" "po_copied (upd_local i f s) = po_copied s"
  "length (po_local (upd_local i f s)) = length (po_local s)"
  "i < length (po_local s) \<Longrightarrow> po_local (upd_local i f s) ! i = f (po_local s ! i)" "j \<noteq> i \<Longrightarrow> po_local (upd_local i f s) ! j = po_local s ! j"
  by (simp_all add: upd_local_def)

lemma upd_global_sel [simp]:
  "po_local (upd_global i f s) = po_local s" "po_block_header (upd_global i f s) = po_block_header s"
  "po_block_global (upd_global i f s) = po_block_global s" "po_mapped (upd_global i f s) = po_mapped s"
  "po_decommitted (upd_global i f s) = po_decommitted s" "po_copied (upd_global i f s) = po_copied s"
  "length (po_global (upd_global i f s)) = length (po_global s)"
  "i < length (po_global s) \<Longrightarrow> po_global (upd_global i f s) ! i = f (po_global s ! i)" "j \<noteq> i \<Longrightarrow> po_global (upd_global i f s) ! j = po_global s ! j"
  by (simp_all add: upd_global_def)

lemma wf_upd_local: "pool_wf s \<Longrightarrow> i < 16 \<Longrightarrow> free_list_ok i (f (po_local s ! i)) \<Longrightarrow> pool_wf (upd_local i f s)"
  unfolding pool_wf_def by (metis upd_local_sel)

lemma wf_upd_global: "pool_wf s \<Longrightarrow> i < 16 \<Longrightarrow> global_ok i (f (po_global s ! i)) \<Longrightarrow> pool_wf (upd_global i f s)"
  unfolding pool_wf_def by (metis upd_global_sel)

lemma sum_update:
  fixes g h :: "nat \<Rightarrow> nat"
  assumes "i < 16" "\<And>j. j \<noteq> i \<Longrightarrow> g j = h j"
  shows "(\<Sum>j < 16. g j) + h i = (\<Sum>j < 16. h j) + g i"
proof -
  have "(\<Sum>j < 16. g j) = g i + (\<Sum>j \<in> {..<16} - {i}. g j)" "(\<Sum>j < 16. h j) = h i + (\<Sum>j \<in> {..<16} - {i}. h j)"
    using assms(1) by (simp_all add: sum.remove)
  moreover have "(\<Sum>j \<in> {..<16} - {i}. g j) = (\<Sum>j \<in> {..<16} - {i}. h j)"
    using assms(2) by (intro sum.cong) auto
  ultimately show ?thesis by simp
qed

lemma cover_upd_local:
  assumes "pool_wf s" "i < 16"
  shows "free_cover (upd_local i f s) x + local_cover i (po_local s ! i) x = free_cover s x + local_cover i (f (po_local s ! i)) x"
proof -
  have "(\<Sum>j < 16. local_cover j (po_local (upd_local i f s) ! j) x) + local_cover i (po_local s ! i) x
      = (\<Sum>j < 16. local_cover j (po_local s ! j) x) + local_cover i (po_local (upd_local i f s) ! i) x"
    by (rule sum_update) (simp_all add: assms(2))
  then show ?thesis
    using assms pool_wfD(1) [OF assms(1)] by (simp add: free_cover_def thread_cover_def shared_cover_def)
qed

lemma cover_upd_global:
  assumes "pool_wf s" "i < 16"
  shows "free_cover (upd_global i f s) x + central_cover i (po_global s ! i) x = free_cover s x + central_cover i (f (po_global s ! i)) x"
proof -
  have "(\<Sum>j < 16. central_cover j (po_global (upd_global i f s) ! j) x) + central_cover i (po_global s ! i) x
      = (\<Sum>j < 16. central_cover j (po_global s ! j) x) + central_cover i (po_global (upd_global i f s) ! i) x"
    by (rule sum_update) (simp_all add: assms(2))
  then show ?thesis
    using assms pool_wfD(2) [OF assms(1)] by (simp add: free_cover_def thread_cover_def shared_cover_def)
qed

lemma mapped_upd [simp]: "mapped_cover (upd_local i f s) x = mapped_cover s x" "mapped_cover (upd_global i g s) x = mapped_cover s x"
  by (simp_all add: mapped_cover_def)

lemma list_ok_tl:
  assumes "list_ok i (p # ps) n"
  shows "list_ok i ps (n - 1) \<and> item_ok i p"
proof -
  have "unat n = Suc (length ps)" using assms by (simp add: list_ok_def)
  then have "unat (n - 1) = length ps" by (subst unat_minus_one) auto
  then show ?thesis using assms by (auto simp: list_ok_def)
qed

lemma list_ok_Nil [simp]: "list_ok i [] 0"
  by (simp add: list_ok_def)

text \<open>An item for a class from the lists.\<close>

lemma pool_get_item_spec:
  assumes wf: "pool_wf s" and i: "i < 16"
  shows "pool_get_item i s = Inr (0, s) \<or> (\<exists>p s'. pool_get_item i s = Inr (p, s') \<and> item_ok i p \<and> takes s p (class_size i) s'
    \<and> po_mapped s' = po_mapped s \<and> (\<forall>j. j \<noteq> i \<longrightarrow> po_local s' ! j = po_local s ! j))"
proof -
  let ?l = "po_local s ! i" and ?g = "po_global s ! i"
  have len: "i < length (po_local s)" "i < length (po_global s)" using pool_wfD(1,2) [OF wf] i by simp_all
  have lo: "list_ok i (pl_pool ?l) (pl_length ?l)" "page_ok i ?l" and go: "global_ok i ?g"
    using pool_wfD(5,6) [OF wf i] by (simp_all add: free_list_ok_def)
  show ?thesis
  proof (cases "pl_pool ?l")
    case (Cons p rest)
    let ?f = "\<lambda>l. l\<lparr>pl_pool := rest, pl_length := pl_length l - 1\<rparr>"
    have t: "list_ok i rest (pl_length ?l - 1)" "item_ok i p" using list_ok_tl lo(1) Cons by auto
    then have "pool_wf (upd_local i ?f s)" using wf_upd_local [OF wf i] lo(2) by (simp add: free_list_ok_def page_ok_def)
    moreover have "free_cover (upd_local i ?f s) x + piece p (class_size i) x = free_cover s x" for x
      using cover_upd_local [OF wf i, of ?f x] Cons by (simp add: local_cover_def)
    ultimately show ?thesis using len Cons t(2) by (simp add: pool_get_item_def takes_def)
  next
    case Nil
    then have get: "pool_get_item i s = pool_pull i s" using len by (simp add: pool_get_item_def)
    show ?thesis
    proof (cases "pg_central ?g")
      case cNil: Nil
      then show ?thesis using get len by (simp add: pool_pull_def)
    next
      case (Cons c cs)
      obtain p items where c: "pc_items c = p # items" "list_ok i (p # items) (pc_length c)"
        using go Cons by (cases "pc_items c") (auto simp: global_ok_def)
      have t: "list_ok i items (pc_length c - 1)" "item_ok i p" using list_ok_tl [OF c(2)] by auto
      let ?f = "\<lambda>g. g\<lparr>pg_central := cs\<rparr>" and ?k = "\<lambda>l. l\<lparr>pl_pool := items, pl_length := pc_length c - 1\<rparr>"
      let ?s = "upd_global i ?f s"
      have w: "pool_wf ?s" using wf_upd_global [OF wf i] go Cons by (simp add: global_ok_def)
      have "pool_wf (upd_local i ?k ?s)" using wf_upd_local [OF w i] t lo(2) by (simp add: free_list_ok_def page_ok_def)
      moreover have "free_cover (upd_local i ?k ?s) x + piece p (class_size i) x = free_cover s x" for x
        using cover_upd_local [OF w i, of ?k x] cover_upd_global [OF wf i, of ?f x] Nil Cons c
        by (simp add: local_cover_def central_cover_def)
      moreover have "0 < pc_length c \<and> pc_length c \<le> pg_count ?g"
        using c(2) go by (auto simp: list_ok_def global_ok_def word_le_nat_alt word_less_nat_alt)
      ultimately show ?thesis
        using get len Cons c t(2) by (simp add: pool_pull_def takes_def Let_def)
    qed
  qed
qed

lemma piece_split: "unat (a + k) = unat a + unat k \<Longrightarrow> piece a (unat k + m) x = piece a (unat k) x + piece (a + k) m x"
  by (auto simp: piece_def in_block_def)

lemma split_page:
  "unat (a + k) = unat a + unat k \<Longrightarrow> unat k \<le> unat e - unat a \<Longrightarrow>
   piece a (unat e - unat a) x = piece a (unat k) x + piece (a + k) (unat e - unat (a + k)) x"
  by (auto simp: piece_def in_block_def)

text \<open>Allocation from a class of whole pages, and from a small class.\<close>

lemma item_ok_pages: "5 \<le> i \<Longrightarrow> i < 16 \<Longrightarrow> item_ok i p \<longleftrightarrow> gives p (class_size i)" "class_size 5 = 1024"
proof -
  assume "5 \<le> i"
  then have "(2 :: nat) ^ 5 \<le> 2 ^ i" by (intro power_increasing) simp_all
  then show "item_ok i p \<longleftrightarrow> gives p (class_size i)" by (auto simp: item_ok_def gives_def class_size_def min_def)
qed (simp add: class_size_def)

lemma class_pages: "5 \<le> i \<Longrightarrow> class_size i mod 1024 = 0"
proof -
  assume "5 \<le> i"
  then have "class_size i = 32 * 2 ^ (5 + (i - 5))" by (simp add: class_size_def)
  also have "\<dots> = 1024 * 2 ^ (i - 5)" by (simp add: power_add)
  finally have "class_size i = 1024 * 2 ^ (i - 5)" .
  then show ?thesis by simp
qed

lemma small_class: "i < 16 \<Longrightarrow> class_size i < 1024 \<longleftrightarrow> i < 5"
proof
  assume "class_size i < 1024"
  then have "(2 :: nat) ^ i < 2 ^ 5" by (simp add: class_size_def)
  then show "i < 5" using power_less_imp_less_exp [of "2 :: nat" i 5] by simp
next
  assume "i < 5"
  then have "(2 :: nat) ^ i < 2 ^ 5" by (intro power_strict_increasing) simp_all
  then show "class_size i < 1024" by (simp add: class_size_def)
qed

definition gets :: "uint64_t \<Rightarrow> nat \<Rightarrow> pool_t \<Rightarrow> (uint64_t \<times> pool_t) res \<Rightarrow> bool" where
  "gets va i s r \<longleftrightarrow> (\<exists>p s'. r = Inr (p, s') \<and> item_ok i p \<and> takes s p (class_size i) s' \<and> maps va 0 s s'
     \<and> (\<forall>j. j \<noteq> i \<and> j \<noteq> 5 \<longrightarrow> po_local s' ! j = po_local s ! j))"

lemma maps_small: "n \<le> POOL_MMAP \<Longrightarrow> maps va n s s' = maps va 0 s s'"
  by (simp add: maps_def max_def POOL_MMAP_def)

lemma pool_get_cases:
  assumes wf: "pool_wf s" and i: "i < 16"
    and rest: "pool_get_item i s = Inr (0, s) \<Longrightarrow> gets va i s (pool_get (Suc fuel) va i s)"
  shows "gets va i s (pool_get (Suc fuel) va i s)"
proof -
  consider "pool_get_item i s = Inr (0, s)" | p s' where "pool_get_item i s = Inr (p, s')" "item_ok i p" "takes s p (class_size i) s'"
    "po_mapped s' = po_mapped s" "\<forall>j. j \<noteq> i \<longrightarrow> po_local s' ! j = po_local s ! j"
    using pool_get_item_spec [OF wf i] by blast
  then show ?thesis
  proof cases
    case 1
    then show ?thesis by (rule rest)
  next
    case 2
    moreover have "p \<noteq> 0" using 2(2) by (simp add: item_ok_def)
    ultimately show ?thesis by (simp add: gets_def maps_def)
  qed
qed

lemma pool_get_big:
  assumes wf: "pool_wf s" and i: "5 \<le> i" "i < 16" and va: "gives va (2 ^ 27)"
  shows "gets va i s (pool_get (Suc fuel) va i s)"
proof (rule pool_get_cases [OF wf i(2)])
  assume none: "pool_get_item i s = Inr (0, s)"
  let ?g = "po_global s ! i"
  have len: "i < length (po_local s)" "i < length (po_global s)" using pool_wfD(1,2) [OF wf] i by simp_all
  have n: "unat (pg_size ?g) = class_size i" using pool_wfD(6) [OF wf i(2)] by (simp add: global_ok_def)
  have le: "class_size i \<le> 2 ^ 20" using class_size_le [OF i(2)] .
  then have "max (unat (pg_size ?g)) (2 ^ 27) = 2 ^ 27" using n by simp
  then obtain p s' where p: "pool_alloc_pages va (pg_size ?g) s = Inr (p, s')" "gives p (class_size i)" "takes s p (class_size i) s'"
    "maps va (pg_size ?g) s s'" "po_local s' = po_local s"
    using pool_alloc_pages_spec [OF wf, of "pg_size ?g" va] class_pages [OF i(1)] va n by auto
  have nsm: "\<not> pg_size ?g < POOL_ALIGN"
    using n small_class [OF i(2)] i(1) by (simp add: word_less_nat_alt POOL_ALIGN_def)
  have "pg_size ?g \<le> POOL_MMAP" using n le by (simp add: word_le_nat_alt POOL_MMAP_nat)
  then have "maps va 0 s s'" using p(4) maps_small by blast
  moreover have "pool_get (Suc fuel) va i s = Inr (p, s')"
    using none len p(1) nsm by simp
  moreover have "item_ok i p" using p(2) item_ok_pages(1) [OF i] by simp
  ultimately show "gets va i s (pool_get (Suc fuel) va i s)"
    unfolding gets_def using p(3,5) by (intro exI [of _ p] exI [of _ s']) simp
qed

lemma pool_get_small:
  assumes wf: "pool_wf s" and i: "i < 5" and va: "gives va (2 ^ 27)"
  shows "gets va i s (pool_get (Suc (Suc fuel)) va i s)"
proof (rule pool_get_cases [OF wf])
  show i16: "i < 16" using i by simp
  assume none: "pool_get_item i s = Inr (0, s)"
  let ?l = "po_local s ! i" and ?g = "po_global s ! i"
  have len: "i < length (po_local s)" "i < length (po_global s)" using pool_wfD(1,2) [OF wf] i by simp_all
  have n: "unat (pg_size ?g) = class_size i" using pool_wfD(6) [OF wf i16] by (simp add: global_ok_def)
  have small: "class_size i < 1024" using small_class [OF i16] i by simp
  then have sm: "pg_size ?g < POOL_ALIGN" using n by (simp add: word_less_nat_alt POOL_ALIGN_def)
  have lo: "list_ok i (pl_pool ?l) (pl_length ?l)" "page_ok i ?l"
    using pool_wfD(5) [OF wf i16] by (simp_all add: free_list_ok_def)
  have dvd: "class_size i dvd 1024"
  proof -
    have "(1024 :: nat) = class_size i * 2 ^ (5 - i)"
      using i by (simp add: class_size_def power_add [symmetric] mult.assoc)
    then show ?thesis by (rule dvdI)
  qed
  show "gets va i s (pool_get (Suc (Suc fuel)) va i s)"
  proof (cases "pl_start ?l < pl_end ?l")
    case True
    let ?f = "\<lambda>l. l\<lparr>pl_start := pl_start l + pg_size ?g\<rparr>"
    have pg: "pl_start ?l \<noteq> 0" "unat (pl_start ?l) mod class_size i = 0" "unat (pl_end ?l) \<le> 2 ^ 48"
      "unat (pl_end ?l) - unat (pl_start ?l) \<le> 1024" "class_size i dvd unat (pl_end ?l) - unat (pl_start ?l)"
      using lo(2) True by (simp_all add: page_ok_def mod_eq_0_iff_dvd)
    have lt: "unat (pl_start ?l) < unat (pl_end ?l)" using True by (simp add: word_less_nat_alt)
    then have le: "class_size i \<le> unat (pl_end ?l) - unat (pl_start ?l)" using pg(5) by (simp add: dvd_imp_le)
    have "unat (pl_start ?l) + class_size i < 2 ^ 64" using pg(3) le lt by simp
    then have nx: "unat (pl_start ?l + pg_size ?g) = unat (pl_start ?l) + class_size i"
      using n by (simp add: unat_word_ariths)
    have "class_size i dvd (unat (pl_end ?l) - unat (pl_start ?l)) - class_size i"
      by (rule dvd_diff_nat [OF pg(5) dvd_refl])
    then have "page_ok i (?f ?l)"
      using pg lt le nx i by (auto simp: page_ok_def word_le_nat_alt word_less_nat_alt mod_eq_0_iff_dvd simp flip: unat_gt_0)
    then have wf': "pool_wf (upd_local i ?f s)" using wf_upd_local [OF wf i16] lo(1) by (simp add: free_list_ok_def)
    have "piece (pl_start ?l) (unat (pl_end ?l) - unat (pl_start ?l)) x = piece (pl_start ?l) (class_size i) x
        + piece (pl_start ?l + pg_size ?g) (unat (pl_end ?l) - unat (pl_start ?l + pg_size ?g)) x" for x
      using split_page [of "pl_start ?l" "pg_size ?g" "pl_end ?l" x] le nx n by simp
    then have "free_cover (upd_local i ?f s) x + piece (pl_start ?l) (class_size i) x = free_cover s x" for x
      using cover_upd_local [OF wf i16, of ?f x] by (simp add: local_cover_def)
    moreover have "item_ok i (pl_start ?l)"
      using pg lt le small by (simp add: item_ok_def min_def)
    ultimately show ?thesis
      using none len sm True wf' by (simp add: gets_def takes_def maps_def)
  next
    case False
    then have e: "unat (pl_end ?l) = unat (pl_start ?l)" using lo(2) by (simp add: page_ok_def)
    obtain mem s1 where m: "pool_get (Suc fuel) va POOL_ALIGN_INDEX s = Inr (mem, s1)" "item_ok 5 mem" "takes s mem 1024 s1" "maps va 0 s s1"
      "\<forall>j. j \<noteq> 5 \<longrightarrow> po_local s1 ! j = po_local s ! j"
      using pool_get_big [OF wf, of 5 va fuel] va
      by (auto simp: gets_def item_ok_pages(2) POOL_ALIGN_INDEX_def POOL_ALIGN_BITS_def POOL_MIN_BITS_def)
    have wf1: "pool_wf s1" using m(3) by (simp add: takes_def)
    have l1: "po_local s1 ! i = ?l" using m(5) i by simp
    have mem: "mem \<noteq> 0" "unat mem mod 1024 = 0" "unat mem + 1024 \<le> 2 ^ 48" using m(2) by (simp_all add: item_ok_def item_ok_pages(2))
    let ?f = "\<lambda>l. l\<lparr>pl_start := mem + pg_size ?g, pl_end := mem + POOL_ALIGN\<rparr>"
    have u: "unat (mem + pg_size ?g) = unat mem + class_size i" "unat (mem + POOL_ALIGN) = unat mem + 1024"
      using mem(3) n small by (simp_all add: unat_word_ariths POOL_ALIGN_def)
    have "class_size i dvd unat mem" using mem(2) dvd by (metis dvd_trans mod_eq_0_iff_dvd)
    then have al: "unat mem mod class_size i = 0" "(unat mem + class_size i) mod class_size i = 0" "(1024 - class_size i) mod class_size i = 0"
      using dvd by (auto simp: mod_eq_0_iff_dvd)
    have "page_ok i (?f ?l)"
      using u al mem small i by (auto simp: page_ok_def word_le_nat_alt word_less_nat_alt simp flip: unat_gt_0)
    then have wf2: "pool_wf (upd_local i ?f s1)" using wf_upd_local [OF wf1 i16] lo(1) l1 by (simp add: free_list_ok_def)
    have "piece (pl_start ?l) (unat (pl_end ?l) - unat (pl_start ?l)) x = 0" for x using e by (simp add: piece_def in_block_def)
    moreover have "piece mem 1024 x = piece mem (class_size i) x + piece (mem + pg_size ?g) (1024 - class_size i) x" for x
      using piece_split [of mem "pg_size ?g" "1024 - class_size i" x] u small n by simp
    ultimately have "free_cover (upd_local i ?f s1) x + piece mem (class_size i) x = free_cover s1 x + piece mem 1024 x" for x
      using cover_upd_local [OF wf1 i16, of ?f x] u by (simp add: local_cover_def l1)
    then have "takes s mem (class_size i) (upd_local i ?f s1)"
      using m(3) wf2 by (simp add: takes_def)
    moreover have "item_ok i mem" using mem al small by (simp add: item_ok_def min_def)
    moreover have "maps va 0 s (upd_local i ?f s1)" using m(4) by (simp add: maps_def)
    moreover have "po_local (upd_local i ?f s1) ! j = po_local s ! j" if "j \<noteq> i" "j \<noteq> 5" for j
      using m(5) that by simp
    ultimately show ?thesis
      using none len sm False m(1) by (simp add: gets_def)
  qed
qed

end
