(* ===== verification/Pool_System.thy ===== *)
theory Pool_System
  imports Pool_Inv
begin

text \<open>
  The pool as its clients see it: any number of threads allocate, free and resize memory and exit.  Every byte the
  operating system mapped is at any time in exactly one place.
\<close>

section \<open>Size classes of requests\<close>

lemma bit_top: "2 ^ m \<le> unat (w :: uint64_t) \<Longrightarrow> unat w < 2 ^ Suc m \<Longrightarrow> bit w m"
proof -
  assume a: "2 ^ m \<le> unat w" "unat w < 2 ^ Suc m"
  then have "unat w div 2 ^ m = 1" by (simp add: div_nat_eqI)
  then have "bit (unat w) m" by (simp add: bit_iff_odd)
  then show ?thesis by (simp add: bit_unsigned_iff)
qed

lemma and_pred_zero:
  assumes m: "2 ^ m \<le> unat (w :: uint64_t)" "unat w < 2 ^ Suc m"
  shows "w AND (w - 1) = 0 \<longleftrightarrow> unat w = 2 ^ m"
proof
  have "0 < unat w" using m(1) by (meson less_le_trans zero_less_power zero_less_numeral)
  then have p: "unat (w - 1) = unat w - 1" by (simp add: unat_minus_one unat_gt_0)
  assume z: "w AND (w - 1) = 0"
  show "unat w = 2 ^ m"
  proof (rule ccontr)
    assume "unat w \<noteq> 2 ^ m"
    then have "bit (w - 1) m" "bit w m" using m p by (auto intro!: bit_top)
    then have "bit (w AND (w - 1)) m" by (simp add: bit_and_iff)
    then show False using z by simp
  qed
next
  assume e: "unat w = 2 ^ m"
  then have "m < 64" using unat_u64_bound [of w] power_less_imp_less_exp [of "2 :: nat" m 64] by simp
  then have w: "w = 2 ^ m" using e by (intro word_unat_eq_iff [THEN iffD2]) (simp add: unat_exp_u64)
  show "w AND (w - 1) = 0"
    unfolding w mask_eq_exp_minus_1 [symmetric] by (rule bit_word_eqI) (auto simp: bit_simps)
qed

lemma clzzu_value: "2 ^ m \<le> unat w \<Longrightarrow> unat w < 2 ^ Suc m \<Longrightarrow> m < 64 \<Longrightarrow> pony_clzzu w = 63 - m"
proof -
  assume m: "2 ^ m \<le> unat w" "unat w < 2 ^ Suc m" "m < 64"
  have "\<not> bit w i" if "m < i" for i
  proof
    assume "bit w i"
    then have "i < 64" using bit_imp_le_length [of w i] by simp
    with \<open>bit w i\<close> have "bit (unat w) i" by (simp add: bit_unsigned_iff)
    then have "2 ^ i \<le> unat w" by (metis bit_iff_odd div_greater_zero_iff odd_pos)
    moreover have "(2 :: nat) ^ Suc m \<le> 2 ^ i" using that by (intro power_increasing) simp_all
    ultimately show False using m(2) by simp
  qed
  then show ?thesis
    unfolding pony_clzzu_def using leading_zeros_rev [of "bit w" m 64] bit_top [OF m(1,2)] m(3) by simp
qed

text \<open>The class of a request is the least one that is big enough.\<close>

lemma pool_index_least:
  "unat sz \<le> class_size (ponyint_pool_index sz)"
  "ponyint_pool_index sz = 0 \<or> class_size (ponyint_pool_index sz - 1) < unat sz"
proof -
  have "unat sz \<le> class_size (ponyint_pool_index sz)
    \<and> (ponyint_pool_index sz = 0 \<or> class_size (ponyint_pool_index sz - 1) < unat sz)"
  proof (cases "sz > POOL_MIN")
    case False
    then show ?thesis by (simp add: ponyint_pool_index_def class_size_def word_less_nat_alt POOL_MIN_def)
  next
    case True
    then have big: "32 < unat sz" by (simp add: word_less_nat_alt POOL_MIN_def)
    then have "sz \<noteq> 0" by auto
    then obtain m where m: "m < 64" "2 ^ m \<le> unat sz" "unat sz < 2 ^ Suc m" by (rule highest_bit)
    have "(2 :: nat) ^ 5 < 2 ^ Suc m" using big m(3) by (simp del: power_Suc)
    then have "5 \<le> m" using power_less_imp_less_exp [of "2 :: nat" 5 "Suc m"] by simp
    then obtain k where k: "m = 5 + k" using le_Suc_ex by blast
    have c: "pony_clzzu sz = 58 - k" using clzzu_value [OF m(2,3,1)] k by simp
    have k58: "k \<le> 58" using m(1) k by simp
    show ?thesis
    proof (cases "unat sz = 2 ^ m")
      case pow: True
      have "0 < k" using big pow k by (cases k) auto
      then have "ponyint_pool_index sz = k"
        using True c k58 and_pred_zero [OF m(2,3)] pow by (simp add: ponyint_pool_index_def POOL_MIN_BITS_def)
      moreover have "class_size k = 2 ^ m" "class_size (k - 1) < 2 ^ m"
        using k \<open>0 < k\<close> by (cases k; simp add: class_size_def power_add)+
      ultimately show ?thesis using pow by simp
    next
      case False
      then have "ponyint_pool_index sz = Suc k"
        using True c k58 and_pred_zero [OF m(2,3)] by (simp add: ponyint_pool_index_def POOL_MIN_BITS_def)
      moreover have "class_size (Suc k) = 2 ^ Suc m" "class_size k = 2 ^ m"
        using k by (simp_all add: class_size_def power_add)
      ultimately show ?thesis using m(2,3) False by simp
    qed
  qed
  then show "unat sz \<le> class_size (ponyint_pool_index sz)"
    "ponyint_pool_index sz = 0 \<or> class_size (ponyint_pool_index sz - 1) < unat sz" by blast+
qed

lemma POOL_COUNT_16: "POOL_COUNT = 16"
  by (simp add: POOL_COUNT_def POOL_MAX_BITS_def POOL_MIN_BITS_def)

lemma pool_index_class: "ponyint_pool_index sz < 16 \<longleftrightarrow> unat sz \<le> 2 ^ 20"
proof
  assume "ponyint_pool_index sz < 16"
  then show "unat sz \<le> 2 ^ 20" using pool_index_least(1) [of sz] class_size_le le_trans by blast
next
  assume a: "unat sz \<le> 2 ^ 20"
  show "ponyint_pool_index sz < 16"
  proof (rule ccontr)
    assume n: "\<not> ponyint_pool_index sz < 16"
    then have "(2 :: nat) ^ 15 \<le> 2 ^ (ponyint_pool_index sz - 1)" by (intro power_increasing) simp_all
    then show False using pool_index_least(2) [of sz] a n by (auto simp: class_size_def)
  qed
qed

text \<open>The memory a request uses.\<close>

definition used_size :: "uint64_t \<Rightarrow> nat" where
  "used_size sz = unat (ponyint_pool_used_size sz)"

lemma POOL_SIZE_nat: "i < 16 \<Longrightarrow> unat (POOL_SIZE i) = class_size i"
  using unat_exp_u64 [of "5 + i"] by (simp add: POOL_SIZE_def class_size_def POOL_MIN_BITS_def push_bit_eq_mult power_add)

lemma used_size_class: "unat sz \<le> 2 ^ 20 \<Longrightarrow> used_size sz = class_size (ponyint_pool_index sz)"
  using pool_index_class [of sz] by (simp add: used_size_def ponyint_pool_used_size_def POOL_COUNT_16 POOL_SIZE_nat Let_def)

lemma used_size_pages:
  assumes "2 ^ 20 < unat sz" "unat sz \<le> 2 ^ 47"
  shows "ponyint_pool_used_size sz = ponyint_pool_adjust_size sz" "used_size sz = pages (unat sz) * 1024"
    "used_size sz mod 1024 = 0" "unat sz \<le> used_size sz"
proof -
  show "ponyint_pool_used_size sz = ponyint_pool_adjust_size sz"
    using assms(1) pool_index_class [of sz] by (simp add: ponyint_pool_used_size_def POOL_COUNT_16 Let_def)
  then show u: "used_size sz = pages (unat sz) * 1024"
    using adjust_size [of sz] assms by (simp add: used_size_def)
  then show "used_size sz mod 1024 = 0" by simp
  show "unat sz \<le> used_size sz"
    unfolding u by (cases "unat sz mod 1024 = 0") (auto simp: pages_exact pages_inexact)
qed

lemma used_size_enough: "unat sz \<le> 2 ^ 47 \<Longrightarrow> unat sz \<le> used_size sz"
  using used_size_class [of sz] pool_index_least(1) [of sz] used_size_pages(4) [of sz] by (cases "unat sz \<le> 2 ^ 20") auto

section \<open>Operations\<close>

text \<open>A block that was handed out for a request.\<close>

definition mem_ok :: "uint64_t \<Rightarrow> uint64_t \<Rightarrow> bool" where
  "mem_ok sz p \<longleftrightarrow> (if unat sz \<le> 2 ^ 20 then item_ok (ponyint_pool_index sz) p else gives p (used_size sz))"

lemma alloc_spec:
  assumes "pool_wf s" "i < 16" "gives va (2 ^ 27)"
  shows "gets va i s (ponyint_pool_alloc va i s)"
proof (cases "i < 5")
  case True
  then show ?thesis
    using pool_get_small [OF assms(1) True assms(3), of 0] by (simp add: ponyint_pool_alloc_def numeral_2_eq_2)
next
  case False
  then show ?thesis
    using pool_get_big [OF assms(1) _ assms(2,3), of 1] by (simp add: ponyint_pool_alloc_def numeral_2_eq_2)
qed

lemma alloc_size_spec:
  assumes wf: "pool_wf s" and sz: "unat sz \<le> 2 ^ 47" and va: "gives va (max (used_size sz) (2 ^ 27))"
  shows "\<exists>p s'. ponyint_pool_alloc_size va sz s = Inr (p, s') \<and> mem_ok sz p \<and> takes s p (used_size sz) s'
    \<and> maps va (ponyint_pool_used_size sz) s s'"
proof (cases "unat sz \<le> 2 ^ 20")
  case True
  let ?i = "ponyint_pool_index sz"
  have i: "?i < 16" using True pool_index_class by simp
  have u: "used_size sz = class_size ?i" by (rule used_size_class [OF True])
  have "max (used_size sz) (2 ^ 27) = 2 ^ 27" using class_size_le [OF i] u by simp
  then have "gets va ?i s (ponyint_pool_alloc va ?i s)" using alloc_spec [OF wf i] va by simp
  moreover
  have "ponyint_pool_used_size sz \<le> POOL_MMAP"
    using class_size_le [OF i] u by (simp add: word_le_nat_alt POOL_MMAP_nat used_size_def)
  then have "maps va (ponyint_pool_used_size sz) s s' = maps va 0 s s'" for s' by (rule maps_small)
  ultimately show ?thesis
    using i u True by (auto simp: gets_def ponyint_pool_alloc_size_def POOL_COUNT_16 mem_ok_def Let_def)
next
  case False
  then have "2 ^ 20 < unat sz" by simp
  note u = used_size_pages [OF this sz]
  have "0 < used_size sz" using u(4) False by linarith
  then obtain p s' where "pool_alloc_pages va (ponyint_pool_adjust_size sz) s = Inr (p, s')" "gives p (used_size sz)" "takes s p (used_size sz) s'"
    "maps va (ponyint_pool_adjust_size sz) s s'"
    using pool_alloc_pages_spec [OF wf, of "ponyint_pool_adjust_size sz" va] u(1,3) va by (auto simp: used_size_def)
  then show ?thesis
    using False pool_index_class [of sz] u(1) by (simp add: ponyint_pool_alloc_size_def POOL_COUNT_16 mem_ok_def Let_def)
qed

text \<open>Memory \<open>n\<close> at \<open>p\<close> joins the free memory.\<close>

definition returns :: "pool_t \<Rightarrow> uint64_t \<Rightarrow> nat \<Rightarrow> pool_t \<Rightarrow> bool" where
  "returns s p n s' \<longleftrightarrow> pool_wf s' \<and> (\<forall>x. free_cover s' x = free_cover s x + piece p n x) \<and> po_mapped s' = po_mapped s"

lemma pool_push_spec:
  assumes wf: "pool_wf s" and i: "i < 16" and ne: "pl_pool (po_local s ! i) \<noteq> []"
  shows "\<exists>s'. pool_push i s = Inr s' \<and> pool_wf s' \<and> (\<forall>x. free_cover s' x = free_cover s x) \<and> po_mapped s' = po_mapped s
    \<and> po_local s' = (po_local s)[i := (po_local s ! i)\<lparr>pl_pool := [], pl_length := 0\<rparr>] \<and> po_block_header s' = po_block_header s"
proof -
  let ?l = "po_local s ! i" and ?g = "po_global s ! i"
  have len: "i < length (po_local s)" "i < length (po_global s)" using pool_wfD(1,2) [OF wf] i by simp_all
  have lo: "list_ok i (pl_pool ?l) (pl_length ?l)" "page_ok i ?l" and go: "global_ok i ?g"
    using pool_wfD(5,6) [OF wf i] by (simp_all add: free_list_ok_def)
  let ?f = "\<lambda>l. l\<lparr>pl_pool := [], pl_length := 0\<rparr>"
  let ?k = "\<lambda>g. g\<lparr>pg_central := \<lparr>pc_items = pl_pool ?l, pc_length = pl_length ?l\<rparr> # pg_central g\<rparr>"
  let ?s = "upd_local i ?f s"
  have w: "pool_wf ?s" using wf_upd_local [OF wf i, of ?f] lo(2) by (simp add: free_list_ok_def page_ok_def)
  have w2: "pool_wf (upd_global i ?k ?s)"
    using wf_upd_global [OF w i, of ?k] go lo(1) ne by (simp add: global_ok_def)
  have c: "free_cover (upd_global i ?k ?s) x = free_cover s x" for x
    using cover_upd_global [OF w i, of ?k x] cover_upd_local [OF wf i, of ?f x] by (simp add: local_cover_def central_cover_def)
  have "0 < pl_length ?l" "pl_length ?l \<le> pg_count ?g"
    using lo(1) go ne by (auto simp: list_ok_def global_ok_def word_le_nat_alt word_less_nat_alt)
  then have "pool_push i s = Inr (upd_global i ?k ?s)" using len ne by (simp add: pool_push_def Let_def)
  then show ?thesis using w2 c by (simp add: upd_local_def)
qed

text \<open>Putting an item on the thread's list, after making room.\<close>

lemma make_room:
  assumes wf: "pool_wf s" and i: "i < 16"
  shows "\<exists>s'. (if pl_length (po_local s ! i) = pg_count (po_global s ! i) then pool_push i s else Inr s) = Inr s'
    \<and> pool_wf s' \<and> (\<forall>x. free_cover s' x = free_cover s x) \<and> po_mapped s' = po_mapped s \<and> po_block_header s' = po_block_header s
    \<and> pl_length (po_local s' ! i) < pg_count (po_global s ! i)
    \<and> pl_start (po_local s' ! i) = pl_start (po_local s ! i) \<and> pl_end (po_local s' ! i) = pl_end (po_local s ! i)
    \<and> (\<forall>j. j \<noteq> i \<longrightarrow> po_local s' ! j = po_local s ! j)"
proof -
  let ?l = "po_local s ! i" and ?g = "po_global s ! i"
  have len: "i < length (po_local s)" using pool_wfD(1) [OF wf] i by simp
  have lo: "list_ok i (pl_pool ?l) (pl_length ?l)" and go: "global_ok i ?g"
    using pool_wfD(5,6) [OF wf i] by (simp_all add: free_list_ok_def)
  have cnt: "unat (pl_length ?l) \<le> unat (pg_count ?g)" "0 < unat (pg_count ?g)" using lo go by (simp_all add: list_ok_def global_ok_def)
  show ?thesis
  proof (cases "pl_length ?l = pg_count ?g")
    case True
    then have "pl_pool ?l \<noteq> []" using lo cnt(2) by (auto simp: list_ok_def)
    then show ?thesis
      using pool_push_spec [OF wf i] True len cnt(2) by (auto simp: unat_gt_0 word_gt_0)
  next
    case False
    then have "pl_length ?l < pg_count ?g" using cnt(1) by (simp add: word_le_nat_alt order_less_le)
    then show ?thesis using False wf by simp
  qed
qed

lemma list_ok_Cons:
  assumes "list_ok i ps n" "item_ok i p" "unat n < 2 ^ (15 - i)"
  shows "list_ok i (p # ps) (n + 1)"
proof -
  have "(2 :: nat) ^ (15 - i) \<le> 2 ^ 15" by (intro power_increasing) simp_all
  then have "unat n + 1 < 2 ^ 64" using assms(3) by simp
  then have "unat (n + 1) = unat n + 1" by (simp add: unat_word_ariths)
  then show ?thesis using assms by (simp add: list_ok_def)
qed

lemma pool_free_spec:
  assumes wf: "pool_wf s" and i: "i < 16" and p: "item_ok i p"
  shows "\<exists>s'. ponyint_pool_free i p s = Inr s' \<and> returns s p (class_size i) s'"
proof -
  let ?f = "\<lambda>l. l\<lparr>pl_pool := p # pl_pool l, pl_length := pl_length l + 1\<rparr>"
  obtain t where t: "(if pl_length (po_local s ! i) = pg_count (po_global s ! i) then pool_push i s else Inr s) = Inr t"
    "pool_wf t" "\<forall>x. free_cover t x = free_cover s x" "po_mapped t = po_mapped s" "pl_length (po_local t ! i) < pg_count (po_global s ! i)"
    using make_room [OF wf i] by blast
  have len: "i < length (po_local s)" "i < length (po_global s)" "i < length (po_local t)"
    using pool_wfD(1,2) [OF wf] pool_wfD(1) [OF t(2)] i by simp_all
  have lo: "list_ok i (pl_pool (po_local t ! i)) (pl_length (po_local t ! i))" "page_ok i (po_local t ! i)"
    using pool_wfD(5) [OF t(2) i] by (simp_all add: free_list_ok_def)
  have "unat (pg_count (po_global s ! i)) = 2 ^ (15 - i)" using pool_wfD(6) [OF wf i] by (simp add: global_ok_def)
  then have "list_ok i (p # pl_pool (po_local t ! i)) (pl_length (po_local t ! i) + 1)"
    using list_ok_Cons [OF lo(1) p] t(5) by (simp add: word_less_nat_alt)
  then have "pool_wf (upd_local i ?f t)"
    using wf_upd_local [OF t(2) i, of ?f] lo(2) by (simp add: free_list_ok_def page_ok_def)
  moreover have "free_cover (upd_local i ?f t) x = free_cover s x + piece p (class_size i) x" for x
    using cover_upd_local [OF t(2) i, of ?f x] t(3) by (simp add: local_cover_def)
  ultimately have "returns s p (class_size i) (upd_local i ?f t)" using t(4) by (simp add: returns_def)
  then show ?thesis
    using t(1,5) len i by (simp add: ponyint_pool_free_def POOL_COUNT_16)
qed

lemma free_size_spec:
  assumes wf: "pool_wf s" and sz: "unat sz \<le> 2 ^ 47" and p: "mem_ok sz p"
  shows "\<exists>s'. ponyint_pool_free_size pg sz p s = Inr s' \<and> returns s p (used_size sz) s'"
proof (cases "unat sz \<le> 2 ^ 20")
  case True
  then show ?thesis
    using pool_free_spec [OF wf, of "ponyint_pool_index sz" p] p pool_index_class [of sz] used_size_class [OF True]
    by (simp add: mem_ok_def ponyint_pool_free_size_def POOL_COUNT_16 Let_def)
next
  case False
  then have "2 ^ 20 < unat sz" by simp
  note u = used_size_pages [OF this sz]
  have "0 < used_size sz" using u(4) False by linarith
  then show ?thesis
    using pool_free_pages_spec [OF wf, of p "ponyint_pool_adjust_size sz" pg] p u(1,3) False pool_index_class [of sz]
    by (simp add: mem_ok_def ponyint_pool_free_size_def POOL_COUNT_16 Let_def returns_def used_size_def)
qed

text \<open>Resizing hands out the new block and takes the old one back; the two may be the same.\<close>

definition exchanges :: "pool_t \<Rightarrow> uint64_t \<Rightarrow> nat \<Rightarrow> uint64_t \<Rightarrow> nat \<Rightarrow> pool_t \<Rightarrow> bool" where
  "exchanges s p m q n s' \<longleftrightarrow> pool_wf s'
     \<and> (\<forall>x. free_cover s' x + piece q n x + mapped_cover s x = free_cover s x + piece p m x + mapped_cover s' x)"

lemma takes_returns:
  assumes "takes s q n s1" "returns (s1\<lparr>po_copied := cs\<rparr>) p m s2"
  shows "exchanges s p m q n s2"
proof -
  have "mapped_cover s2 x = mapped_cover s1 x" for x using assms(2) by (simp add: returns_def mapped_cover_def)
  moreover have "free_cover s1 x + piece q n x + mapped_cover s x = free_cover s x + mapped_cover s1 x" for x
    using assms(1) by (simp add: takes_def)
  moreover have "free_cover s2 x = free_cover s1 x + piece p m x" for x using assms(2) by (simp add: returns_def)
  ultimately have "free_cover s2 x + piece q n x + mapped_cover s x = free_cover s x + piece p m x + mapped_cover s2 x" for x
    by (metis add.assoc add.commute)
  then show ?thesis using assms(2) by (simp add: exchanges_def returns_def)
qed

lemma realloc_spec:
  assumes wf: "pool_wf s" and old: "unat old \<le> 2 ^ 47" "mem_ok old p" and new: "unat new \<le> 2 ^ 47"
    and va: "gives va (max (used_size new) (2 ^ 27))" and not_bug: "unat new \<le> 2 ^ 20 \<Longrightarrow> unat old \<le> 2 ^ 20"
  shows "\<exists>q s'. ponyint_pool_realloc_size va pg old new p s = Inr (q, s') \<and> mem_ok new q \<and> exchanges s p (used_size old) q (used_size new) s'
    \<and> maps va (ponyint_pool_used_size new) s s'"
proof -
  let ?oi = "ponyint_pool_index old" and ?ni = "ponyint_pool_index new"
  let ?oa = "ponyint_pool_adjust_size old" and ?na = "ponyint_pool_adjust_size new"
  have p0: "p \<noteq> 0" using old(2) by (auto simp: mem_ok_def item_ok_def gives_def split: if_splits)
  have small: "?oi < 16 \<longleftrightarrow> unat old \<le> 2 ^ 20" "?ni < 16 \<longleftrightarrow> unat new \<le> 2 ^ 20" by (simp_all add: pool_index_class)
  have large: "used_size sz = unat (ponyint_pool_adjust_size sz)" if "\<not> unat sz \<le> 2 ^ 20" "unat sz \<le> 2 ^ 47" for sz
    using that used_size_pages(1) [of sz] by (simp add: used_size_def)
  let ?same = "if unat new \<le> 2 ^ 20 then ?oi = ?ni else \<not> unat old \<le> 2 ^ 20 \<and> ?oa = ?na"
  show ?thesis
  proof (cases ?same)
    case True
    then have "ponyint_pool_realloc_size va pg old new p s = Inr (p, s)"
      using p0 small not_bug by (auto simp: ponyint_pool_realloc_size_def POOL_COUNT_16 Let_def split: if_splits)
    moreover have "used_size new = used_size old" "mem_ok new p"
      using True not_bug old large [OF _ new] large [OF _ old(1)] used_size_class [of old] used_size_class [of new]
      by (auto simp: mem_ok_def split: if_splits)
    ultimately show ?thesis using wf by (simp add: exchanges_def maps_def)
  next
    case False
    obtain q s1 where q: "ponyint_pool_alloc_size va new s = Inr (q, s1)" "mem_ok new q" "takes s q (used_size new) s1"
      "maps va (ponyint_pool_used_size new) s s1"
      using alloc_size_spec [OF wf new va] by blast
    let ?s1 = "s1\<lparr>po_copied := po_copied s1 @ [(q, p, if old < new then old else new)]\<rparr>"
    have wf1: "pool_wf ?s1" using q(3) by (simp add: takes_def pool_wf_upd)
    obtain s2 where s2: "ponyint_pool_free_size pg old p ?s1 = Inr s2" "returns ?s1 p (used_size old) s2"
      using free_size_spec [OF wf1 old] by blast
    have "ponyint_pool_realloc_size va pg old new p s = Inr (q, s2)"
      using False p0 small not_bug q(1) s2(1)
      by (auto simp: ponyint_pool_realloc_size_def ponyint_pool_alloc_size_def ponyint_pool_free_size_def POOL_COUNT_16 Let_def split: if_splits)
    moreover have "maps va (ponyint_pool_used_size new) s s2" using q(4) s2(2) by (simp add: maps_def returns_def)
    ultimately show ?thesis using takes_returns [OF q(3) s2(2)] q(2) by blast
  qed
qed

section \<open>Threads that exit\<close>

definition emptied :: "pool_local_t \<Rightarrow> bool" where
  "emptied l \<longleftrightarrow> pl_pool l = [] \<and> \<not> pl_start l < pl_end l"

lemma cleanup_items_spec:
  assumes "pool_wf s" "i < 16" "unat (pl_end (po_local s ! i)) - unat (pl_start (po_local s ! i)) < 32 * fuel"
  shows "\<exists>s'. cleanup_items fuel i s = Inr s' \<and> pool_wf s' \<and> (\<forall>x. free_cover s' x = free_cover s x) \<and> po_mapped s' = po_mapped s
    \<and> po_block_header s' = po_block_header s \<and> emptied (po_local s' ! i) \<and> (\<forall>j. j \<noteq> i \<longrightarrow> po_local s' ! j = po_local s ! j)"
  using assms
proof (induction fuel arbitrary: s)
  case (Suc fuel)
  note wf = Suc.prems(1) and i = Suc.prems(2)
  let ?l = "po_local s ! i" and ?g = "po_global s ! i"
  have len: "i < length (po_local s)" "i < length (po_global s)" using pool_wfD(1,2) [OF wf] i by simp_all
  have lo: "list_ok i (pl_pool ?l) (pl_length ?l)" "page_ok i ?l" and go: "global_ok i ?g"
    using pool_wfD(5,6) [OF wf i] by (simp_all add: free_list_ok_def)
  show ?case
  proof (cases "pl_start ?l < pl_end ?l")
    case False
    show ?thesis
    proof (cases "pl_length ?l > 0")
      case True
      then have "pl_pool ?l \<noteq> []" using lo(1) by (auto simp: list_ok_def word_gt_0 unat_eq_0)
      from pool_push_spec [OF wf i this] obtain s' where s': "pool_push i s = Inr s'" "pool_wf s'" "\<forall>x. free_cover s' x = free_cover s x"
        "po_mapped s' = po_mapped s" "po_local s' = (po_local s)[i := ?l\<lparr>pl_pool := [], pl_length := 0\<rparr>]" "po_block_header s' = po_block_header s"
        by blast
      have "cleanup_items (Suc fuel) i s = Inr s'" using len False True s'(1) by simp
      moreover have "emptied (po_local s' ! i)" using False len s'(5) by (simp add: emptied_def)
      ultimately show ?thesis using s' by auto
    next
      case False
      then have "pl_pool ?l = []" using lo(1) by (auto simp: list_ok_def word_gt_0)
      then show ?thesis
        using wf \<open>\<not> pl_start ?l < pl_end ?l\<close> False len by (simp add: emptied_def)
    qed
  next
    case True
    have pg: "i < 5" "pl_start ?l \<noteq> 0" "unat (pl_start ?l) mod class_size i = 0" "unat (pl_end ?l) \<le> 2 ^ 48"
      "unat (pl_end ?l) - unat (pl_start ?l) \<le> 1024" "class_size i dvd unat (pl_end ?l) - unat (pl_start ?l)"
      using lo(2) True by (simp_all add: page_ok_def mod_eq_0_iff_dvd)
    have n: "unat (pg_size ?g) = class_size i" "unat (pg_count ?g) = 2 ^ (15 - i)" using go by (simp_all add: global_ok_def)
    have lt: "unat (pl_start ?l) < unat (pl_end ?l)" using True by (simp add: word_less_nat_alt)
    then have le: "class_size i \<le> unat (pl_end ?l) - unat (pl_start ?l)" using pg(6) by (simp add: dvd_imp_le)
    have "unat (pl_start ?l) + class_size i < 2 ^ 64" using pg(4) le lt by simp
    then have nx: "unat (pl_start ?l + pg_size ?g) = unat (pl_start ?l) + class_size i" using n by (simp add: unat_word_ariths)
    obtain t where t: "(if pl_length ?l = pg_count ?g then pool_push i s else Inr s) = Inr t" "pool_wf t"
      "\<forall>x. free_cover t x = free_cover s x" "po_mapped t = po_mapped s" "po_block_header t = po_block_header s"
      "pl_length (po_local t ! i) < pg_count ?g" "pl_start (po_local t ! i) = pl_start ?l" "pl_end (po_local t ! i) = pl_end ?l"
      "\<forall>j. j \<noteq> i \<longrightarrow> po_local t ! j = po_local s ! j"
      using make_room [OF wf i] by blast
    let ?f = "\<lambda>l. l\<lparr>pl_start := pl_start l + pg_size ?g, pl_pool := pl_start l # pl_pool l, pl_length := pl_length l + 1\<rparr>"
    let ?m = "po_local t ! i"
    have tl: "i < length (po_local t)" using pool_wfD(1) [OF t(2)] i by simp
    have lt': "list_ok i (pl_pool ?m) (pl_length ?m)" using pool_wfD(5) [OF t(2) i] by (simp add: free_list_ok_def)
    have item: "item_ok i (pl_start ?l)"
      using pg lt le small_class [OF i] by (simp add: item_ok_def min_def)
    have "list_ok i (pl_start ?l # pl_pool ?m) (pl_length ?m + 1)"
      using list_ok_Cons [OF lt' item] t(6) n(2) by (simp add: word_less_nat_alt)
    moreover have "class_size i dvd (unat (pl_end ?l) - unat (pl_start ?l)) - class_size i"
      by (rule dvd_diff_nat [OF pg(6) dvd_refl])
    then have "page_ok i (?f ?m)"
      using pg lt le nx t(7,8) by (auto simp: page_ok_def word_le_nat_alt word_less_nat_alt mod_eq_0_iff_dvd simp flip: unat_gt_0)
    ultimately have wf': "pool_wf (upd_local i ?f t)"
      using wf_upd_local [OF t(2) i, of ?f] t(7) by (simp add: free_list_ok_def)
    have "piece (pl_start ?l) (unat (pl_end ?l) - unat (pl_start ?l)) x = piece (pl_start ?l) (class_size i) x
        + piece (pl_start ?l + pg_size ?g) (unat (pl_end ?l) - unat (pl_start ?l + pg_size ?g)) x" for x
      using split_page [of "pl_start ?l" "pg_size ?g" "pl_end ?l" x] le nx n by simp
    then have cov: "free_cover (upd_local i ?f t) x = free_cover s x" for x
      using cover_upd_local [OF t(2) i, of ?f x] t(3,7,8) by (simp add: local_cover_def)
    have "unat (pl_end (po_local (upd_local i ?f t) ! i)) - unat (pl_start (po_local (upd_local i ?f t) ! i)) < 32 * fuel"
    proof -
      have "32 \<le> class_size i" by (simp add: class_size_def)
      then show ?thesis using Suc.prems(3) tl t(7,8) nx le by simp
    qed
    from Suc.IH [OF wf' i this] obtain s' where s': "cleanup_items fuel i (upd_local i ?f t) = Inr s'" "pool_wf s'"
      "\<forall>x. free_cover s' x = free_cover (upd_local i ?f t) x" "po_mapped s' = po_mapped t" "po_block_header s' = po_block_header t"
      "emptied (po_local s' ! i)" "\<forall>j. j \<noteq> i \<longrightarrow> po_local s' ! j = po_local (upd_local i ?f t) ! j"
      by auto
    have "cleanup_items (Suc fuel) i s = Inr s'" using len True t(1) s'(1) by simp
    then show ?thesis using s' cov t(4,5,9) by auto
  qed
qed simp

lemma cleanup_classes_spec:
  assumes "pool_wf s" "distinct is" "\<forall>i \<in> set is. i < 16"
  shows "\<exists>s'. cleanup_classes 33 is s = Inr s' \<and> pool_wf s' \<and> (\<forall>x. free_cover s' x = free_cover s x) \<and> po_mapped s' = po_mapped s
    \<and> po_block_header s' = po_block_header s \<and> (\<forall>i \<in> set is. emptied (po_local s' ! i))
    \<and> (\<forall>j. j \<notin> set is \<longrightarrow> po_local s' ! j = po_local s ! j)"
  using assms
proof (induction "is" arbitrary: s)
  case (Cons i "is")
  have "page_ok i (po_local s ! i)" using pool_wfD(5) [OF Cons.prems(1)] Cons.prems(3) by (simp add: free_list_ok_def)
  then have "unat (pl_end (po_local s ! i)) - unat (pl_start (po_local s ! i)) < 32 * 33" by (simp add: page_ok_def)
  then obtain t where t: "cleanup_items 33 i s = Inr t" "pool_wf t" "\<forall>x. free_cover t x = free_cover s x" "po_mapped t = po_mapped s"
    "po_block_header t = po_block_header s" "emptied (po_local t ! i)" "\<forall>j. j \<noteq> i \<longrightarrow> po_local t ! j = po_local s ! j"
    using cleanup_items_spec [OF Cons.prems(1), of i 33] Cons.prems(3) by auto
  obtain s' where s': "cleanup_classes 33 is t = Inr s'" "pool_wf s'" "\<forall>x. free_cover s' x = free_cover t x" "po_mapped s' = po_mapped t"
    "po_block_header s' = po_block_header t" "\<forall>i \<in> set is. emptied (po_local s' ! i)" "\<forall>j. j \<notin> set is \<longrightarrow> po_local s' ! j = po_local t ! j"
    using Cons.IH [OF t(2)] Cons.prems(2,3) by auto
  show ?case using t s' Cons.prems(2) by (intro exI [of _ s']) auto
qed simp

lemma cleanup_blocks_spec:
  assumes "blocks_ok (bh_head (po_block_header s))" "blocks_ok (po_block_global s)" "bh_head (po_block_header s) = bs"
  shows "blocks_ok (po_block_global (cleanup_blocks bs s)) \<and> bh_head (po_block_header (cleanup_blocks bs s)) = []
    \<and> free_cover (cleanup_blocks bs s) x = free_cover s x \<and> po_mapped (cleanup_blocks bs s) = po_mapped s
    \<and> po_local (cleanup_blocks bs s) = po_local s \<and> po_global (cleanup_blocks bs s) = po_global s"
  using assms
proof (induction bs arbitrary: s)
  case (Cons b bs)
  let ?h = "pool_block_remove [] bs (po_block_header s)"
  let ?t = "s\<lparr>po_block_header := ?h\<rparr>"
  let ?s = "pool_block_push b ?t"
  have b: "block_ok b" "blocks_ok bs" using Cons.prems(1,3) by (simp_all add: blocks_ok_Cons)
  have "free_cover ?s x = free_cover s x"
    using cover_header [where s = s and h = ?h and x = x] Cons.prems(3)
      cover_block_global [where s = ?t and bs = "block_insert b (po_block_global s)" and x = x]
    by (simp add: pool_block_push_def pool_block_remove_def)
  moreover have "blocks_ok (po_block_global ?s)" "bh_head (po_block_header ?s) = bs" "po_mapped ?s = po_mapped s"
    "po_local ?s = po_local s" "po_global ?s = po_global s"
    using Cons.prems(2) b blocks_ok_insert by (simp_all add: pool_block_push_def pool_block_remove_def)
  ultimately show ?case using Cons.IH [of ?s] b(2) by simp
qed simp

lemma thread_cleanup_spec:
  assumes wf: "pool_wf s"
  shows "\<exists>s'. ponyint_pool_thread_cleanup 33 s = Inr s' \<and> pool_wf s' \<and> (\<forall>x. free_cover s' x = free_cover s x)
    \<and> po_mapped s' = po_mapped s \<and> (\<forall>x. thread_cover s' x = 0)"
proof -
  obtain t where t: "cleanup_classes 33 [0..<16] s = Inr t" "pool_wf t" "\<forall>x. free_cover t x = free_cover s x" "po_mapped t = po_mapped s"
    "\<forall>i \<in> set [0..<16]. emptied (po_local t ! i)"
    using cleanup_classes_spec [OF wf, of "[0..<16]"] by auto
  let ?u = "cleanup_blocks (bh_head (po_block_header t)) t"
  let ?h = "(po_block_header ?u)\<lparr>bh_total_size := 0, bh_largest_size := 0\<rparr>"
  let ?s = "?u\<lparr>po_block_header := ?h\<rparr>"
  have u: "blocks_ok (po_block_global ?u)" "bh_head (po_block_header ?u) = []" "free_cover ?u x = free_cover t x" "po_mapped ?u = po_mapped t"
    "po_local ?u = po_local t" "po_global ?u = po_global t" for x
    using cleanup_blocks_spec [of t "bh_head (po_block_header t)" x] pool_wfD(3,4) [OF t(2)] by (simp_all add: header_ok_def)
  have "header_ok ?h" using u(2) by (simp add: header_ok_def blocks_ok_def largest_def)
  then have "pool_wf ?s" using t(2) u by (simp add: pool_wf_def)
  moreover have "free_cover ?s x = free_cover s x" for x
    using cover_header [where s = ?u and h = ?h and x = x] u(3) [of x] t(3) by simp
  moreover have "thread_cover ?s x = 0" for x
  proof -
    have "local_cover i (po_local t ! i) x = 0" if "i < 16" for i
    proof -
      have "emptied (po_local t ! i)" using t(5) that by simp
      then show ?thesis by (simp add: local_cover_def emptied_def piece_def in_block_def word_less_nat_alt)
    qed
    then show ?thesis using u by (simp add: thread_cover_def)
  qed
  moreover have "ponyint_pool_thread_cleanup 33 s = Inr ?s"
    using t(1) by (simp add: ponyint_pool_thread_cleanup_def POOL_COUNT_16 Let_def)
  ultimately show ?thesis using u(4) t(4) by auto
qed

section \<open>Any number of threads\<close>

text \<open>
  The threads with their own lists, the global lists and the calls made so far, and the blocks that are handed out
  with the sizes asked for.
\<close>

record pool_sys =
  sy_threads :: "(pool_local_t list \<times> pool_block_header_t) list"
  sy_shared :: pool_t
  sy_used :: "(uint64_t \<times> uint64_t) list"

definition enter :: "pool_sys \<Rightarrow> nat \<Rightarrow> pool_t" where
  "enter sy t = (sy_shared sy)\<lparr>po_local := fst (sy_threads sy ! t), po_block_header := snd (sy_threads sy ! t)\<rparr>"

definition leave :: "pool_sys \<Rightarrow> nat \<Rightarrow> pool_t \<Rightarrow> pool_sys" where
  "leave sy t s = sy\<lparr>sy_threads := (sy_threads sy)[t := (po_local s, po_block_header s)], sy_shared := s\<rparr>"

text \<open>Memory the system may map: none of it is mapped already.\<close>

definition fresh :: "pool_sys \<Rightarrow> uint64_t \<Rightarrow> uint64_t \<Rightarrow> bool" where
  "fresh sy va sz \<longleftrightarrow> gives va (max (used_size sz) (2 ^ 27))
     \<and> (\<forall>x. in_block va (max (used_size sz) (2 ^ 27)) x \<longrightarrow> mapped_cover (sy_shared sy) x = 0)"

text \<open>
  What threads do, each operation in one step.  A resize from above 1 MB to at most 1 MB is no step: it loses the old block, as shown below.
\<close>

inductive pool_step :: "pool_sys \<Rightarrow> pool_sys \<Rightarrow> bool" where
  step_spawn: "pool_step sy (sy\<lparr>sy_threads := sy_threads sy @ [(pool_local_init, pool_block_header_init)]\<rparr>)"
| step_alloc: "t < length (sy_threads sy) \<Longrightarrow> unat sz \<le> 2 ^ 47 \<Longrightarrow> fresh sy va sz \<Longrightarrow>
    ponyint_pool_alloc_size va sz (enter sy t) = Inr (p, s) \<Longrightarrow>
    pool_step sy ((leave sy t s)\<lparr>sy_used := (p, sz) # sy_used sy\<rparr>)"
| step_free: "t < length (sy_threads sy) \<Longrightarrow> (p, sz) \<in> set (sy_used sy) \<Longrightarrow>
    ponyint_pool_free_size pg sz p (enter sy t) = Inr s \<Longrightarrow>
    pool_step sy ((leave sy t s)\<lparr>sy_used := remove1 (p, sz) (sy_used sy)\<rparr>)"
| step_realloc: "t < length (sy_threads sy) \<Longrightarrow> (p, old) \<in> set (sy_used sy) \<Longrightarrow> unat new \<le> 2 ^ 47 \<Longrightarrow> fresh sy va new \<Longrightarrow>
    (unat new \<le> 2 ^ 20 \<Longrightarrow> unat old \<le> 2 ^ 20) \<Longrightarrow>
    ponyint_pool_realloc_size va pg old new p (enter sy t) = Inr (q, s) \<Longrightarrow>
    pool_step sy ((leave sy t s)\<lparr>sy_used := (q, new) # remove1 (p, old) (sy_used sy)\<rparr>)"
| step_cleanup: "t < length (sy_threads sy) \<Longrightarrow> ponyint_pool_thread_cleanup 33 (enter sy t) = Inr s \<Longrightarrow>
    pool_step sy (leave sy t s)"

definition pool_start :: pool_sys where
  "pool_start = \<lparr>sy_threads = [], sy_shared = \<lparr>po_local = [], po_block_header = pool_block_header_init, po_global = pool_global_init,
     po_block_global = [], po_mapped = [], po_decommitted = [], po_copied = []\<rparr>, sy_used = []\<rparr>"

inductive pool_reach :: "pool_sys \<Rightarrow> bool" where
  reach_start: "pool_reach pool_start"
| reach_step: "pool_reach sy \<Longrightarrow> pool_step sy sy' \<Longrightarrow> pool_reach sy'"

definition used_cover :: "(uint64_t \<times> uint64_t) list \<Rightarrow> uint64_t \<Rightarrow> nat" where
  "used_cover us x = (\<Sum>(p, sz) \<leftarrow> us. piece p (used_size sz) x)"

definition own_cover :: "pool_local_t list \<times> pool_block_header_t \<Rightarrow> uint64_t \<Rightarrow> nat" where
  "own_cover th x = (\<Sum>i < 16. local_cover i (fst th ! i) x) + blocks_cover (bh_head (snd th)) x"

definition sys_free :: "pool_sys \<Rightarrow> uint64_t \<Rightarrow> nat" where
  "sys_free sy x = (\<Sum>th \<leftarrow> sy_threads sy. own_cover th x) + shared_cover (sy_shared sy) x"

definition thread_wf :: "pool_local_t list \<times> pool_block_header_t \<Rightarrow> bool" where
  "thread_wf th \<longleftrightarrow> length (fst th) = 16 \<and> (\<forall>i < 16. free_list_ok i (fst th ! i)) \<and> header_ok (snd th)"

definition shared_wf :: "pool_t \<Rightarrow> bool" where
  "shared_wf s \<longleftrightarrow> length (po_global s) = 16 \<and> (\<forall>i < 16. global_ok i (po_global s ! i)) \<and> blocks_ok (po_block_global s)"

definition sys_ok :: "pool_sys \<Rightarrow> bool" where
  "sys_ok sy \<longleftrightarrow> (\<forall>th \<in> set (sy_threads sy). thread_wf th) \<and> shared_wf (sy_shared sy)
     \<and> (\<forall>x. sys_free sy x + used_cover (sy_used sy) x = mapped_cover (sy_shared sy) x \<and> mapped_cover (sy_shared sy) x \<le> 1)
     \<and> (\<forall>(p, sz) \<in> set (sy_used sy). unat sz \<le> 2 ^ 47 \<and> mem_ok sz p)"

lemma pool_wf_parts: "pool_wf s \<longleftrightarrow> thread_wf (po_local s, po_block_header s) \<and> shared_wf s"
  by (auto simp: pool_wf_def thread_wf_def shared_wf_def)

lemma free_cover_parts: "free_cover s x = own_cover (po_local s, po_block_header s) x + shared_cover s x"
  by (simp add: free_cover_def thread_cover_def own_cover_def)

lemma enter_sel: "po_local (enter sy t) = fst (sy_threads sy ! t)" "po_block_header (enter sy t) = snd (sy_threads sy ! t)"
  "shared_wf (enter sy t) = shared_wf (sy_shared sy)" "shared_cover (enter sy t) x = shared_cover (sy_shared sy) x"
  "mapped_cover (enter sy t) x = mapped_cover (sy_shared sy) x" "po_mapped (enter sy t) = po_mapped (sy_shared sy)"
  by (simp_all add: enter_def shared_wf_def shared_cover_def mapped_cover_def)

lemma wf_enter: "sys_ok sy \<Longrightarrow> t < length (sy_threads sy) \<Longrightarrow> pool_wf (enter sy t)"
  by (simp add: pool_wf_parts enter_sel sys_ok_def)

lemma sum_list_update: "t < length xs \<Longrightarrow> (\<Sum>y \<leftarrow> xs[t := z]. f y) + f (xs ! t) = (\<Sum>y \<leftarrow> xs. f y) + (f z :: nat)"
proof (induction xs arbitrary: t)
  case (Cons y ys)
  then show ?case by (cases t) auto
qed simp

lemma free_leave:
  assumes "t < length (sy_threads sy)"
  shows "sys_free (leave sy t s) x + free_cover (enter sy t) x = sys_free sy x + free_cover s x"
  using sum_list_update [OF assms, of "\<lambda>th. own_cover th x" "(po_local s, po_block_header s)"]
  by (simp add: sys_free_def leave_def free_cover_parts enter_sel)

lemma used_cover_simps [simp]: "used_cover [] x = 0" "used_cover ((p, sz) # us) x = piece p (used_size sz) x + used_cover us x"
  by (simp_all add: used_cover_def)

lemma used_cover_remove: "(p, sz) \<in> set us \<Longrightarrow> used_cover (remove1 (p, sz) us) x + piece p (used_size sz) x = used_cover us x"
  by (induction us) auto

text \<open>A step of a thread keeps the invariant if it keeps the account.\<close>

lemma leave_ok:
  assumes ok: "sys_ok sy" and t: "t < length (sy_threads sy)" and s: "pool_wf s"
    and us: "\<forall>(p, sz) \<in> set us. unat sz \<le> 2 ^ 47 \<and> mem_ok sz p"
    and cov: "\<And>x. free_cover s x + used_cover us x + mapped_cover (sy_shared sy) x
        = free_cover (enter sy t) x + used_cover (sy_used sy) x + mapped_cover s x"
    and one: "\<And>x. mapped_cover s x \<le> 1"
  shows "sys_ok ((leave sy t s)\<lparr>sy_used := us\<rparr>)"
proof -
  have "thread_wf th" if "th \<in> set ((sy_threads sy)[t := (po_local s, po_block_header s)])" for th
    using set_update_subset_insert [of "sy_threads sy" t] that ok s by (auto simp: sys_ok_def pool_wf_parts)
  moreover have "sys_free ((leave sy t s)\<lparr>sy_used := us\<rparr>) x + used_cover us x = mapped_cover s x" for x
  proof -
    have "sys_free sy x + used_cover (sy_used sy) x = mapped_cover (sy_shared sy) x" using ok by (simp add: sys_ok_def)
    moreover have "sys_free ((leave sy t s)\<lparr>sy_used := us\<rparr>) x = sys_free (leave sy t s) x" by (simp add: sys_free_def)
    ultimately show ?thesis using cov [of x] free_leave [OF t, of s x] by linarith
  qed
  ultimately show ?thesis
    using s us one by (simp add: sys_ok_def leave_def pool_wf_parts)
qed

lemma mapped_once:
  assumes ok: "sys_ok sy" and f: "fresh sy va sz" and m: "maps va (ponyint_pool_used_size sz) (enter sy t) s"
  shows "mapped_cover s x \<le> 1"
proof -
  have one: "mapped_cover (sy_shared sy) x \<le> 1" using ok by (simp add: sys_ok_def)
  have n: "unat (max (ponyint_pool_used_size sz) POOL_MMAP) = max (used_size sz) (2 ^ 27)"
    by (simp add: max_def used_size_def POOL_MMAP_nat word_le_nat_alt)
  consider "po_mapped s = po_mapped (sy_shared sy)"
    | "po_mapped s = po_mapped (sy_shared sy) @ [(va, max (ponyint_pool_used_size sz) POOL_MMAP)]"
    using m by (auto simp: maps_def enter_sel)
  then show ?thesis
  proof cases
    case 1
    then show ?thesis using one by (simp add: mapped_cover_def)
  next
    case 2
    then show ?thesis
      using mapped_cover_append [OF 2, of x] one f by (auto simp: piece_def n fresh_def)
  qed
qed

lemma init_ok:
  "thread_wf (pool_local_init, pool_block_header_init)" "own_cover (pool_local_init, pool_block_header_init) x = 0" "sys_ok pool_start"
proof -
  have l: "pool_local_init ! i = \<lparr>pl_pool = [], pl_length = 0, pl_start = 0, pl_end = 0\<rparr>" if "i < 16" for i
    using that by (simp add: pool_local_init_def POOL_COUNT_16)
  have "free_list_ok i (pool_local_init ! i)" if "i < 16" for i
    by (simp add: l [OF that] free_list_ok_def page_ok_def)
  then show "thread_wf (pool_local_init, pool_block_header_init)"
    by (simp add: thread_wf_def pool_local_init_def pool_block_header_init_def POOL_COUNT_16 header_ok_def blocks_ok_def largest_def)
  have "local_cover i (pool_local_init ! i) x = 0" if "i < 16" for i x
    by (simp add: l [OF that] local_cover_def piece_def in_block_def)
  then show "own_cover (pool_local_init, pool_block_header_init) x = 0"
    by (simp add: own_cover_def pool_block_header_init_def)
  have cnt: "unat (push_bit POOL_MAX_BITS 1 div POOL_SIZE i) = 2 ^ (15 - i)" if "i < 16" for i
  proof -
    have "unat (push_bit POOL_MAX_BITS 1 :: uint64_t) = 2 ^ 20" by (simp add: POOL_MAX_BITS_def push_bit_eq_mult)
    moreover have e: "(2 :: nat) ^ 20 = 2 ^ (15 - i) * class_size i"
      using that by (simp add: class_size_def mult.assoc flip: power_add)
    have "(2 :: nat) ^ 20 div class_size i = 2 ^ (15 - i)" unfolding e by simp
    ultimately show ?thesis by (simp add: unat_div POOL_SIZE_nat [OF that])
  qed
  have g: "global_ok i (pool_global_init ! i)" if "i < 16" for i
    using that cnt [OF that] by (simp add: pool_global_init_def POOL_COUNT_16 global_ok_def POOL_SIZE_nat)
  have "central_cover i (pool_global_init ! i) x = 0" if "i < 16" for i x
    using that by (simp add: pool_global_init_def POOL_COUNT_16 central_cover_def)
  then show "sys_ok pool_start"
    using g by (simp add: sys_ok_def pool_start_def shared_wf_def pool_global_init_def POOL_COUNT_16 blocks_ok_def sys_free_def shared_cover_def mapped_cover_def)
qed

lemma step_ok: "pool_step sy sy' \<Longrightarrow> sys_ok sy \<Longrightarrow> sys_ok sy'"
proof (induction rule: pool_step.induct)
  case (step_spawn sy)
  then show ?case by (auto simp: sys_ok_def init_ok sys_free_def)
next
  case (step_alloc t sy sz va p s)
  have wf: "pool_wf (enter sy t)" using wf_enter step_alloc by blast
  have a: "mem_ok sz p" "takes (enter sy t) p (used_size sz) s" "maps va (ponyint_pool_used_size sz) (enter sy t) s"
    using alloc_size_spec [OF wf step_alloc(2), of va] step_alloc(3,4) by (auto simp: fresh_def)
  show ?case
  proof (rule leave_ok [OF step_alloc(5,1)])
    show "pool_wf s" using a(2) by (simp add: takes_def)
    show "\<forall>(p, sz) \<in> set ((p, sz) # sy_used sy). unat sz \<le> 2 ^ 47 \<and> mem_ok sz p"
      using step_alloc(2,5) a(1) by (simp add: sys_ok_def)
    show "free_cover s x + used_cover ((p, sz) # sy_used sy) x + mapped_cover (sy_shared sy) x
        = free_cover (enter sy t) x + used_cover (sy_used sy) x + mapped_cover s x" for x
    proof -
      have "free_cover s x + piece p (used_size sz) x + mapped_cover (enter sy t) x = free_cover (enter sy t) x + mapped_cover s x"
        using a(2) by (simp add: takes_def)
      then show ?thesis by (simp add: enter_sel)
    qed
    show "mapped_cover s x \<le> 1" for x by (rule mapped_once [OF step_alloc(5,3) a(3)])
  qed
next
  case (step_free t sy p sz pg s)
  have wf: "pool_wf (enter sy t)" using wf_enter step_free by blast
  have u: "unat sz \<le> 2 ^ 47" "mem_ok sz p" using step_free(2,4) by (auto simp: sys_ok_def)
  have a: "returns (enter sy t) p (used_size sz) s" using free_size_spec [OF wf u, of pg] step_free(3) by auto
  have m: "mapped_cover s x = mapped_cover (sy_shared sy) x" for x using a by (simp add: returns_def mapped_cover_def enter_sel)
  show ?case
  proof (rule leave_ok [OF step_free(4,1)])
    show "pool_wf s" using a by (simp add: returns_def)
    show "\<forall>(p, sz) \<in> set (remove1 (p, sz) (sy_used sy)). unat sz \<le> 2 ^ 47 \<and> mem_ok sz p"
      using step_free(4) set_remove1_subset [of "(p, sz)" "sy_used sy"] unfolding sys_ok_def by blast
    show "free_cover s x + used_cover (remove1 (p, sz) (sy_used sy)) x + mapped_cover (sy_shared sy) x
        = free_cover (enter sy t) x + used_cover (sy_used sy) x + mapped_cover s x" for x
      using a used_cover_remove [OF step_free(2), of x] by (simp add: returns_def m)
    show "mapped_cover s x \<le> 1" for x using step_free(4) by (simp add: m sys_ok_def)
  qed
next
  case (step_realloc t sy p old new va pg q s)
  have wf: "pool_wf (enter sy t)" using wf_enter step_realloc by blast
  have u: "unat old \<le> 2 ^ 47" "mem_ok old p" using step_realloc(2,7) by (auto simp: sys_ok_def)
  have a: "mem_ok new q" "exchanges (enter sy t) p (used_size old) q (used_size new) s" "maps va (ponyint_pool_used_size new) (enter sy t) s"
    using realloc_spec [OF wf u step_realloc(3), of va pg] step_realloc(4-6) by (auto simp: fresh_def)
  show ?case
  proof (rule leave_ok [OF step_realloc(7,1)])
    show "pool_wf s" using a(2) by (simp add: exchanges_def)
    show "\<forall>(p, sz) \<in> set ((q, new) # remove1 (p, old) (sy_used sy)). unat sz \<le> 2 ^ 47 \<and> mem_ok sz p"
      using step_realloc(3,7) a(1) set_remove1_subset [of "(p, old)" "sy_used sy"] unfolding sys_ok_def by auto
    show "free_cover s x + used_cover ((q, new) # remove1 (p, old) (sy_used sy)) x + mapped_cover (sy_shared sy) x
        = free_cover (enter sy t) x + used_cover (sy_used sy) x + mapped_cover s x" for x
    proof -
      have "free_cover s x + piece q (used_size new) x + mapped_cover (enter sy t) x
          = free_cover (enter sy t) x + piece p (used_size old) x + mapped_cover s x"
        using a(2) by (simp add: exchanges_def)
      then show ?thesis using used_cover_remove [OF step_realloc(2), of x] by (simp add: enter_sel)
    qed
    show "mapped_cover s x \<le> 1" for x by (rule mapped_once [OF step_realloc(7,4) a(3)])
  qed
next
  case (step_cleanup t sy s)
  have wf: "pool_wf (enter sy t)" using wf_enter step_cleanup by blast
  have a: "pool_wf s" "\<forall>x. free_cover s x = free_cover (enter sy t) x" "po_mapped s = po_mapped (enter sy t)"
    using thread_cleanup_spec [OF wf] step_cleanup(2) by auto
  have m: "mapped_cover s x = mapped_cover (sy_shared sy) x" for x using a(3) by (simp add: mapped_cover_def enter_sel)
  have "sys_ok ((leave sy t s)\<lparr>sy_used := sy_used sy\<rparr>)"
    by (rule leave_ok [OF step_cleanup(3,1) a(1)]) (use step_cleanup(3) a(2) in \<open>simp_all add: sys_ok_def m\<close>)
  moreover have "(leave sy t s)\<lparr>sy_used := sy_used sy\<rparr> = leave sy t s" by (simp add: leave_def)
  ultimately show ?case by simp
qed

lemma pool_reach_ok: "pool_reach sy \<Longrightarrow> sys_ok sy"
  by (induction rule: pool_reach.induct) (simp_all add: init_ok step_ok)

section \<open>Properties\<close>

lemma used_cover_nth: "i < length us \<Longrightarrow> us ! i = (p, sz) \<Longrightarrow> piece p (used_size sz) x \<le> used_cover us x"
proof (induction us arbitrary: i)
  case (Cons u us)
  then show ?case by (cases i; cases u) (auto intro: trans_le_add2)
qed simp

lemma used_cover_two:
  assumes "i < j" "j < length us" "us ! i = (p, m)" "us ! j = (q, n)"
  shows "piece p (used_size m) x + piece q (used_size n) x \<le> used_cover us x"
  using assms
proof (induction us arbitrary: i j)
  case (Cons u us)
  obtain j' where j: "j = Suc j'" "j' < length us" "us ! j' = (q, n)" using Cons.prems by (cases j) auto
  show ?case
  proof (cases i)
    case 0
    then show ?thesis using Cons.prems(3) used_cover_nth [OF j(2,3), of x] by simp
  next
    case (Suc i')
    then show ?thesis using Cons.IH [of i' j'] Cons.prems j by (cases u) auto
  qed
qed simp

lemma apart_nth:
  assumes "\<And>x. used_cover us x \<le> 1" "i < j" "j < length us" "us ! i = (p, m)" "us ! j = (q, n)" "0 < used_size m" "0 < used_size n"
  shows "unat p + used_size m \<le> unat q \<or> unat q + used_size n \<le> unat p"
proof (rule ccontr)
  assume o: "\<not> ?thesis"
  let ?x = "if unat p \<le> unat q then q else p"
  have "piece p (used_size m) ?x + piece q (used_size n) ?x \<le> 1" using used_cover_two [OF assms(2-5), of ?x] assms(1) [of ?x] by simp
  moreover have "in_block p (used_size m) ?x" "in_block q (used_size n) ?x" using o assms(6,7) by (auto simp: in_block_def)
  ultimately show False by (simp add: piece_def)
qed

lemma mem_ok_facts: "mem_ok sz p \<Longrightarrow> unat sz \<le> 2 ^ 47 \<Longrightarrow> p \<noteq> 0 \<and> unat p mod min (used_size sz) 1024 = 0"
proof (cases "unat sz \<le> 2 ^ 20")
  case False
  assume a: "mem_ok sz p" "unat sz \<le> 2 ^ 47"
  then have "1024 \<le> used_size sz" using used_size_enough [of sz] False by simp
  then show ?thesis using a(1) False by (simp add: mem_ok_def gives_def min_def)
qed (simp add: mem_ok_def item_ok_def used_size_class)

lemma used_size_pos: "unat sz \<le> 2 ^ 47 \<Longrightarrow> 0 < used_size sz"
  using used_size_class [of sz] used_size_enough [of sz] by (cases "unat sz \<le> 2 ^ 20") auto

text \<open>
  C8: Every byte of memory is in one place.  However threads allocate, free, resize and exit, one operation at a time and
  as long as no block above 1 MB is resized to at most 1 MB, every address the operating system mapped is either in exactly one of the free lists, pages and blocks of the threads and the global lists, or in exactly one block
  that is handed out, and no other address is in any; blocks that are handed out do not overlap, are at least as big as was asked for and
  are aligned to their size up to a page.
\<close>

theorem pool_memory_account:
  assumes "pool_reach sy"
  shows "(\<forall>x. sys_free sy x + used_cover (sy_used sy) x = mapped_cover (sy_shared sy) x \<and> mapped_cover (sy_shared sy) x \<le> 1)
    \<and> (\<forall>i j p m q n. i < j \<and> j < length (sy_used sy) \<and> sy_used sy ! i = (p, m) \<and> sy_used sy ! j = (q, n) \<longrightarrow>
        unat p + used_size m \<le> unat q \<or> unat q + used_size n \<le> unat p)
    \<and> (\<forall>(p, sz) \<in> set (sy_used sy). p \<noteq> 0 \<and> unat sz \<le> used_size sz \<and> unat p mod min (used_size sz) 1024 = 0)"
proof -
  have ok: "sys_ok sy" by (rule pool_reach_ok [OF assms])
  then have acc: "sys_free sy x + used_cover (sy_used sy) x = mapped_cover (sy_shared sy) x \<and> mapped_cover (sy_shared sy) x \<le> 1" for x
    by (simp add: sys_ok_def)
  then have one: "used_cover (sy_used sy) x \<le> 1" for x by (metis add_leD2)
  have "p \<noteq> 0 \<and> unat sz \<le> used_size sz \<and> unat p mod min (used_size sz) 1024 = 0" if "(p, sz) \<in> set (sy_used sy)" for p sz
    using ok that mem_ok_facts [of sz p] used_size_enough [of sz] by (auto simp: sys_ok_def)
  moreover have "unat p + used_size m \<le> unat q \<or> unat q + used_size n \<le> unat p"
    if u: "i < j" "j < length (sy_used sy)" "sy_used sy ! i = (p, m)" "sy_used sy ! j = (q, n)" for i j p m q n
  proof -
    have "(p, m) \<in> set (sy_used sy)" "(q, n) \<in> set (sy_used sy)" using u by (metis nth_mem less_trans)+
    then have "0 < used_size m" "0 < used_size n" using ok used_size_pos by (auto simp: sys_ok_def)
    then show ?thesis using apart_nth [OF one u] by blast
  qed
  ultimately show ?thesis using acc by blast
qed

text \<open>A thread that allocates 100 bytes.\<close>

definition pool_one :: pool_sys where
  "pool_one = pool_start\<lparr>sy_threads := [(pool_local_init, pool_block_header_init)]\<rparr>"

lemma pool_one_reach: "pool_reach pool_one" "length (sy_threads pool_one) = 1"
proof -
  show "pool_reach pool_one"
    using reach_step [OF reach_start step_spawn [of pool_start]] by (simp add: pool_one_def pool_start_def)
qed (simp add: pool_one_def)

lemma pool_one_fresh: "used_size 100 = 128" "fresh pool_one 4096 100"
proof -
  show u: "used_size 100 = 128" unfolding used_size_def by code_simp
  show "fresh pool_one 4096 100"
    by (simp add: fresh_def u gives_def pool_one_def pool_start_def mapped_cover_def)
qed

lemma pool_one_alloc: "\<exists>p s. ponyint_pool_alloc_size 4096 100 (enter pool_one 0) = Inr (p, s)"
proof -
  have "pool_wf (enter pool_one 0)" using wf_enter [OF pool_reach_ok [OF pool_one_reach(1)], of 0] pool_one_reach(2) by simp
  then show ?thesis using alloc_size_spec [of "enter pool_one 0" 100 4096] pool_one_fresh(2) by (auto simp: fresh_def)
qed

theorem pool_memory_account_witness:
  "\<exists>sy p. pool_reach sy \<and> sy_used sy = [(p, 100)] \<and> p \<noteq> 0 \<and> unat p mod 128 = 0 \<and> used_cover (sy_used sy) p = 1 \<and> sys_free sy p = 0"
proof -
  obtain p s where a: "ponyint_pool_alloc_size 4096 100 (enter pool_one 0) = Inr (p, s)" using pool_one_alloc by blast
  let ?sy = "(leave pool_one 0 s)\<lparr>sy_used := (p, 100) # sy_used pool_one\<rparr>"
  have "pool_reach ?sy"
    using reach_step [OF pool_one_reach(1) step_alloc [OF _ _ pool_one_fresh(2) a]] pool_one_reach(2) by simp
  moreover have u: "sy_used ?sy = [(p, 100)]" by (simp add: pool_one_def pool_start_def)
  moreover have "used_cover [(p, 100)] p = 1" by (simp add: pool_one_fresh piece_def in_block_def)
  ultimately show ?thesis
    using pool_memory_account [of ?sy] by (intro exI [of _ ?sy] exI [of _ p]) (auto simp: pool_one_fresh(1) dest: spec [where x = p])
qed

text \<open>Shrinking a big block to a small one.\<close>

lemma realloc_big_small:
  assumes "pool_wf s" "2 ^ 20 < unat old" "unat new \<le> 2 ^ 20" "p \<noteq> 0" "gives va (2 ^ 27)"
  shows "\<exists>q s'. ponyint_pool_realloc_size va pg old new p s = Inr (q, s')
    \<and> (\<forall>x. free_cover s' x + piece q (used_size new) x + mapped_cover s x = free_cover s x + mapped_cover s' x)
    \<and> \<lparr>pb_addr = p, pb_size = 0\<rparr> \<in> set (bh_head (po_block_header s'))"
proof -
  let ?i = "ponyint_pool_index new"
  have i: "?i < 16" "\<not> ponyint_pool_index old < 16" using assms(2,3) by (simp_all add: pool_index_class)
  obtain q s1 where q: "ponyint_pool_alloc va ?i s = Inr (q, s1)" "takes s q (class_size ?i) s1"
    using alloc_spec [OF assms(1) i(1) assms(5)] by (auto simp: gets_def)
  let ?c = "s1\<lparr>po_copied := po_copied s1 @ [(q, p, if old < new then old else new)]\<rparr>"
  let ?s = "pool_free_pages pg p 0 ?c" and ?b = "\<lparr>pb_addr = p, pb_size = 0\<rparr>"
  have "ponyint_pool_realloc_size va pg old new p s = Inr (q, ?s)"
    using i q(1) assms(4) by (auto simp: ponyint_pool_realloc_size_def POOL_COUNT_16 Let_def)
  moreover have "\<exists>d. ?s = ?c\<lparr>po_decommitted := d, po_block_header := block_add ?b (po_block_header s1)\<rparr>"
    by (rule pool_free_pages_eq [of pg p 0 ?c, simplified])
  then have "free_cover ?s x = free_cover s1 x" "mapped_cover ?s x = mapped_cover s1 x" "?b \<in> set (bh_head (po_block_header ?s))" for x
    using cover_header [where s = "?c\<lparr>po_decommitted := d\<rparr>" and h = "block_add ?b (po_block_header s1)" and x = x for d]
    by (auto simp: piece_def in_block_def)
  ultimately show ?thesis
    using q(2) used_size_class [OF assms(3)] by (auto simp: takes_def)
qed

text \<open>
  C9: The pool never fails.  In every state that is reached without resizing a block above 1 MB to at most 1 MB, a thread can
  allocate any size up to \<open>2 ^ 47\<close>, free any block that is handed out, resize it to any such size, and exit; no assertion fails, no pointer is \<^verbatim>\<open>NULL\<close>, and exiting leaves no memory behind in the thread.  The fuel for a
  page is the number of its items and one more.
\<close>

theorem pool_never_fails:
  assumes "pool_reach sy" "t < length (sy_threads sy)"
  shows "(unat sz \<le> 2 ^ 47 \<and> fresh sy va sz \<longrightarrow> (\<exists>p s. ponyint_pool_alloc_size va sz (enter sy t) = Inr (p, s)))
    \<and> ((p, old) \<in> set (sy_used sy) \<longrightarrow> (\<exists>s. ponyint_pool_free_size pg old p (enter sy t) = Inr s))
    \<and> ((p, old) \<in> set (sy_used sy) \<and> unat sz \<le> 2 ^ 47 \<and> fresh sy va sz \<longrightarrow>
        (\<exists>q s. ponyint_pool_realloc_size va pg old sz p (enter sy t) = Inr (q, s)))
    \<and> (\<exists>s. ponyint_pool_thread_cleanup 33 (enter sy t) = Inr s \<and> (\<forall>x. thread_cover s x = 0))"
proof -
  have ok: "sys_ok sy" by (rule pool_reach_ok [OF assms(1)])
  have wf: "pool_wf (enter sy t)" by (rule wf_enter [OF ok assms(2)])
  have u: "unat old \<le> 2 ^ 47 \<and> mem_ok old p" if "(p, old) \<in> set (sy_used sy)" for p old
    using ok that by (auto simp: sys_ok_def)
  have "\<exists>q s. ponyint_pool_realloc_size va pg old sz p (enter sy t) = Inr (q, s)"
    if b: "(p, old) \<in> set (sy_used sy)" "unat sz \<le> 2 ^ 47" "fresh sy va sz"
  proof (cases "unat sz \<le> 2 ^ 20 \<longrightarrow> unat old \<le> 2 ^ 20")
    case True
    thus ?thesis using realloc_spec [OF wf] u [OF b(1)] b(2,3) unfolding fresh_def by meson
  next
    case False
    have "p \<noteq> 0" using mem_ok_facts [of old p] u [OF b(1)] by blast
    moreover have "gives va (2 ^ 27)" using b(3) unfolding fresh_def gives_def by (simp add: max_def split: if_splits)
    ultimately show ?thesis using realloc_big_small [OF wf, of old sz p va pg] False by auto
  qed
  thus ?thesis
    using alloc_size_spec [OF wf] free_size_spec [OF wf] thread_cleanup_spec [OF wf] u unfolding fresh_def by meson
qed

theorem pool_never_fails_witness:
  "\<exists>p s s'. ponyint_pool_alloc_size 4096 100 (enter pool_one 0) = Inr (p, s)
    \<and> ponyint_pool_thread_cleanup 33 (enter pool_one 0) = Inr s' \<and> thread_cover s' 4096 = 0"
  using pool_never_fails [OF pool_one_reach(1), of 0 100 4096 0 0 0] pool_one_reach(2) pool_one_fresh(2) by auto

text \<open>
  C10: Shrinking a big block to a small one loses the big one.  When the old size has no size class and the new size has one,
  \<open>old_adj_size\<close> is still 0 when the old block is freed: the block goes to the free list with size 0, and its memory is neither free nor handed out.
\<close>

theorem pool_realloc_loses:
  assumes "pool_wf s" "2 ^ 20 < unat old" "unat new \<le> 2 ^ 20" "p \<noteq> 0" "gives va (2 ^ 27)"
  shows "\<exists>q s'. ponyint_pool_realloc_size va pg old new p s = Inr (q, s')
    \<and> (\<forall>x. free_cover s' x + piece q (used_size new) x + mapped_cover s x = free_cover s x + mapped_cover s' x)
    \<and> \<lparr>pb_addr = p, pb_size = 0\<rparr> \<in> set (bh_head (po_block_header s'))"
  by (rule realloc_big_small [OF assms])

theorem pool_realloc_loses_witness:
  "\<exists>q s'. ponyint_pool_realloc_size 4096 4096 2097152 100 1073741824 (enter pool_one 0) = Inr (q, s')
    \<and> \<lparr>pb_addr = 1073741824, pb_size = 0\<rparr> \<in> set (bh_head (po_block_header s'))"
proof -
  have "pool_wf (enter pool_one 0)" using wf_enter [OF pool_reach_ok [OF pool_one_reach(1)], of 0] pool_one_reach(2) by simp
  then show ?thesis
    using pool_realloc_loses [of "enter pool_one 0" 2097152 100 1073741824 4096 4096] by (auto simp: gives_def)
qed

section \<open>What a client may rely on\<close>

text \<open>A block that was just handed out lies apart from all blocks handed out before.\<close>

lemma alloc_apart:
  assumes "pool_reach sy" "t < length (sy_threads sy)" "unat sz \<le> 2 ^ 47" "fresh sy va sz"
    "ponyint_pool_alloc_size va sz (enter sy t) = Inr (p, s)"
  shows "pool_reach ((leave sy t s)\<lparr>sy_used := (p, sz) # sy_used sy\<rparr>)" "mem_ok sz p"
    "(q, n) \<in> set (sy_used sy) \<Longrightarrow> unat p + used_size sz \<le> unat q \<or> unat q + used_size n \<le> unat p"
proof -
  let ?sy = "(leave sy t s)\<lparr>sy_used := (p, sz) # sy_used sy\<rparr>"
  show r: "pool_reach ?sy" by (rule reach_step [OF assms(1) step_alloc [OF assms(2-5)]])
  note ok = pool_reach_ok [OF r]
  then show "mem_ok sz p" by (simp add: sys_ok_def)
  have "sys_free ?sy x + used_cover (sy_used ?sy) x \<le> 1" for x using ok unfolding sys_ok_def by (metis (no_types))
  then have "used_cover (sy_used ?sy) x \<le> 1" for x by (rule add_leD2)
  moreover have "sy_used ?sy = (p, sz) # sy_used sy" by simp
  ultimately have one: "used_cover ((p, sz) # sy_used sy) x \<le> 1" for x by metis
  assume q: "(q, n) \<in> set (sy_used sy)"
  then obtain j where j: "j < length (sy_used sy)" "sy_used sy ! j = (q, n)" by (metis in_set_conv_nth)
  have "unat n \<le> 2 ^ 47" using q pool_reach_ok [OF assms(1)] by (auto simp: sys_ok_def)
  then show "unat p + used_size sz \<le> unat q \<or> unat q + used_size n \<le> unat p"
    using apart_nth [OF one, of 0 "Suc j" p sz q n] j used_size_pos assms(3) by simp
qed

end
