(* ===== verification/Mpmcq.thy ===== *)
theory Mpmcq
  imports Prelude
begin

text \<open>
  The queue of the schedulers, \<^verbatim>\<open>src/libponyrt/sched/mpmcq.c\<close>: a linked list with many producers and
  many consumers.  A producer swaps the head and then links its node behind the old one; a consumer moves
  the tail, which carries a counter against reuse of the same address, with a compare and exchange, and
  then frees the node it left behind once the consumer before it is done with it.

  The operations are split at their accesses to memory other threads can see, and any number of threads
  run them in any interleaving; memory is sequentially consistent.  \<^verbatim>\<open>POOL_ALLOC\<close> may return any address
  that is not in use, in particular one that was just freed, and a read of freed memory may return anything.
\<close>

section \<open>The queue\<close>

record mpmcq_node_t =
  mn_next :: uint64_t
  mn_data :: uint64_t

text \<open>The union behind \<^verbatim>\<open>PONY_ABA_PROTECTED_PTR\<close>.\<close>

record aba_protected =
  ap_object :: uint64_t
  ap_counter :: uint64_t

record mpmcq_t =
  mpq_head :: uint64_t
  mpq_tail :: aba_protected

type_synonym mpnodes = "uint64_t \<rightharpoonup> mpmcq_node_t"

section \<open>The operations, access by access\<close>

definition mp_node_alloc :: "mpnodes \<Rightarrow> uint64_t \<Rightarrow> uint64_t \<Rightarrow> mpnodes" where
  "mp_node_alloc nd node data = nd(node \<mapsto> \<lparr>mn_next = 0, mn_data = data\<rparr>)"

definition mp_node_free :: "mpnodes \<Rightarrow> uint64_t \<Rightarrow> mpnodes res" where
  "mp_node_free nd node = (case nd node of None \<Rightarrow> Inl Bad_access | Some _ \<Rightarrow> Inr (nd(node := None)))"

definition ponyint_mpmcq_init :: "mpnodes \<Rightarrow> uint64_t \<Rightarrow> mpmcq_t \<times> mpnodes" where
  "ponyint_mpmcq_init nd node =
     (let nd = mp_node_alloc nd node 0
      in (\<lparr>mpq_head = node, mpq_tail = \<lparr>ap_object = node, ap_counter = 0\<rparr>\<rparr>, nd))"

definition ponyint_mpmcq_destroy :: "mpmcq_t \<Rightarrow> mpnodes \<Rightarrow> (mpmcq_t \<times> mpnodes) res" where
  "ponyint_mpmcq_destroy q nd =
     (let q = q\<lparr>mpq_head := 0\<rparr>
      in res_bind (mp_node_free nd (ap_object (mpq_tail q))) (\<lambda>nd.
           Inr (q\<lparr>mpq_tail := (mpq_tail q)\<lparr>ap_object := 0\<rparr>\<rparr>, nd)))"

text \<open>\<open>mpmcq_size_debug\<close> counts the nodes behind the tail; \<open>fuel\<close> bounds its loop.\<close>

fun mpmcq_size_loop :: "nat \<Rightarrow> mpnodes \<Rightarrow> uint64_t \<Rightarrow> nat \<Rightarrow> nat res" where
  "mpmcq_size_loop 0 nd tail count = Inl Out_of_fuel"
| "mpmcq_size_loop (Suc fuel) nd tail count =
     (case nd tail of None \<Rightarrow> Inl Bad_access
      | Some n \<Rightarrow> if mn_next n \<noteq> 0 then mpmcq_size_loop fuel nd (mn_next n) (count + 1) else Inr count)"

definition mpmcq_size_debug :: "nat \<Rightarrow> mpmcq_t \<Rightarrow> mpnodes \<Rightarrow> nat res" where
  "mpmcq_size_debug fuel q nd = mpmcq_size_loop fuel nd (ap_object (mpq_tail q)) 0"

text \<open>\<open>ponyint_mpmcq_push\<close> after \<open>node_alloc\<close>: the exchange of the head and the store after it.\<close>

definition mpmcq_push_exchange :: "mpmcq_t \<Rightarrow> uint64_t \<Rightarrow> uint64_t \<times> mpmcq_t" where
  "mpmcq_push_exchange q node = (mpq_head q, q\<lparr>mpq_head := node\<rparr>)"

definition mpmcq_push_link :: "mpnodes \<Rightarrow> uint64_t \<Rightarrow> uint64_t \<Rightarrow> mpnodes res" where
  "mpmcq_push_link nd prev node =
     (case nd prev of None \<Rightarrow> Inl Bad_access | Some n \<Rightarrow> Inr (nd(prev \<mapsto> n\<lparr>mn_next := node\<rparr>)))"

text \<open>
  \<open>ponyint_mpmcq_pop\<close>.  The load of \<open>tail->next\<close> may be of a node that is freed already, which the code
  knows and leaves to the exchange; what such a load returns is \<open>garbage\<close>.
\<close>

definition mpmcq_pop_next :: "mpnodes \<Rightarrow> uint64_t \<Rightarrow> uint64_t \<Rightarrow> uint64_t" where
  "mpmcq_pop_next nd garbage tail = (case nd tail of None \<Rightarrow> garbage | Some n \<Rightarrow> mn_next n)"

definition mpmcq_pop_exchange ::
  "mpmcq_t \<Rightarrow> aba_protected \<Rightarrow> uint64_t \<Rightarrow> bool \<times> aba_protected \<times> mpmcq_t" where
  "mpmcq_pop_exchange q cmp nxt =
     (let xchg = \<lparr>ap_object = nxt, ap_counter = ap_counter cmp + 1\<rparr>
      in if mpq_tail q = cmp then (True, cmp, q\<lparr>mpq_tail := xchg\<rparr>) else (False, mpq_tail q, q))"

definition mpmcq_pop_data :: "mpnodes \<Rightarrow> uint64_t \<Rightarrow> uint64_t res" where
  "mpmcq_pop_data nd nxt = (case nd nxt of None \<Rightarrow> Inl Bad_access | Some n \<Rightarrow> Inr (mn_data n))"

definition mpmcq_pop_clear :: "mpnodes \<Rightarrow> uint64_t \<Rightarrow> mpnodes res" where
  "mpmcq_pop_clear nd nxt =
     (case nd nxt of None \<Rightarrow> Inl Bad_access | Some n \<Rightarrow> Inr (nd(nxt \<mapsto> n\<lparr>mn_data := 0\<rparr>)))"

section \<open>Threads\<close>

text \<open>
  Where a thread is in \<open>ponyint_mpmcq_push\<close> or \<open>ponyint_mpmcq_pop\<close>, with the local variables it still
  uses; \<open>tail\<close> is \<open>cmp.object\<close>.
\<close>

datatype mpc =
    Idle
  | Push_exchange (pc_data: uint64_t) (pc_node: uint64_t)
  | Push_link uint64_t uint64_t
  | Pop_counter uint64_t
  | Pop_next aba_protected
  | Pop_exchange aba_protected uint64_t
  | Pop_data aba_protected uint64_t
  | Pop_clear aba_protected uint64_t uint64_t
  | Pop_wait aba_protected uint64_t
  | Pop_free aba_protected uint64_t

record mpstate =
  mp_q :: mpmcq_t
  mp_nodes :: mpnodes
  mp_pc :: "nat \<Rightarrow> mpc"

text \<open>
  What a thread does next: begin a push of \<open>data\<close> in a node that \<^verbatim>\<open>POOL_ALLOC\<close> gave it, begin a pop, or
  go on.  A step reports what it did: the exchange of a push, the exchange of a pop, a pop that returned
  \<open>data\<close> or \<^verbatim>\<open>NULL\<close>, one more turn of the waiting loop.
\<close>

datatype mpact = Act_push uint64_t uint64_t | Act_pop | Act_go uint64_t

datatype mpevent = Ev_begin nat | Ev_step nat | Ev_push nat uint64_t uint64_t | Ev_linked nat | Ev_take nat
  | Ev_return nat uint64_t | Ev_empty nat | Ev_spin nat

definition ponyint_mpmcq_push :: "nat \<Rightarrow> mpstate \<Rightarrow> (mpevent \<times> mpstate) option res" where
  "ponyint_mpmcq_push t s =
     (case mp_pc s t of
        Push_exchange d node \<Rightarrow>
          (let (prev, q) = mpmcq_push_exchange (mp_q s) node
           in Inr (Some (Ev_push t d node, s\<lparr>mp_q := q, mp_pc := (mp_pc s)(t := Push_link prev node)\<rparr>)))
      | Push_link prev node \<Rightarrow>
          res_bind (mpmcq_push_link (mp_nodes s) prev node) (\<lambda>nd.
            Inr (Some (Ev_linked t, s\<lparr>mp_nodes := nd, mp_pc := (mp_pc s)(t := Idle)\<rparr>)))
      | _ \<Rightarrow> Inr None)"

text \<open>\<open>ponyint_mpmcq_push_single\<close> does the same accesses, with the exchange kept for its ordering.\<close>

definition ponyint_mpmcq_push_single :: "nat \<Rightarrow> mpstate \<Rightarrow> (mpevent \<times> mpstate) option res" where
  "ponyint_mpmcq_push_single = ponyint_mpmcq_push"

definition ponyint_mpmcq_pop :: "nat \<Rightarrow> uint64_t \<Rightarrow> mpstate \<Rightarrow> (mpevent \<times> mpstate) option res" where
  "ponyint_mpmcq_pop t garbage s =
     (let goto = (\<lambda>pc s. s\<lparr>mp_pc := (mp_pc s)(t := pc)\<rparr>)
      in case mp_pc s t of
        Pop_counter object \<Rightarrow>
          Inr (Some (Ev_step t,
            goto (Pop_next \<lparr>ap_object = object, ap_counter = ap_counter (mpq_tail (mp_q s))\<rparr>) s))
      | Pop_next cmp \<Rightarrow>
          (let nxt = mpmcq_pop_next (mp_nodes s) garbage (ap_object cmp)
           in if nxt = 0 then Inr (Some (Ev_empty t, goto Idle s))
              else Inr (Some (Ev_step t, goto (Pop_exchange cmp nxt) s)))
      | Pop_exchange cmp nxt \<Rightarrow>
          (let (ok, cmp, q) = mpmcq_pop_exchange (mp_q s) cmp nxt
           in if ok then Inr (Some (Ev_take t, goto (Pop_data cmp nxt) (s\<lparr>mp_q := q\<rparr>)))
              else Inr (Some (Ev_step t, goto (Pop_next cmp) s)))
      | Pop_data cmp nxt \<Rightarrow>
          res_bind (mpmcq_pop_data (mp_nodes s) nxt) (\<lambda>data.
            Inr (Some (Ev_step t, goto (Pop_clear cmp nxt data) s)))
      | Pop_clear cmp nxt data \<Rightarrow>
          res_bind (mpmcq_pop_clear (mp_nodes s) nxt) (\<lambda>nd.
            Inr (Some (Ev_step t, goto (Pop_wait cmp data) (s\<lparr>mp_nodes := nd\<rparr>))))
      | Pop_wait cmp data \<Rightarrow>
          res_bind (mpmcq_pop_data (mp_nodes s) (ap_object cmp)) (\<lambda>old.
            if old \<noteq> 0 then Inr (Some (Ev_spin t, s))
            else Inr (Some (Ev_step t, goto (Pop_free cmp data) s)))
      | Pop_free cmp data \<Rightarrow>
          res_bind (mp_node_free (mp_nodes s) (ap_object cmp)) (\<lambda>nd.
            Inr (Some (Ev_return t data, goto Idle (s\<lparr>mp_nodes := nd\<rparr>))))
      | _ \<Rightarrow> Inr None)"

fun mpmcq_step :: "nat \<Rightarrow> mpact \<Rightarrow> mpstate \<Rightarrow> (mpevent \<times> mpstate) option res" where
  "mpmcq_step t (Act_push d node) s =
     (if mp_pc s t = Idle \<and> node \<noteq> 0 \<and> mp_nodes s node = None
      then Inr (Some (Ev_begin t, s\<lparr>mp_nodes := mp_node_alloc (mp_nodes s) node d,
             mp_pc := (mp_pc s)(t := Push_exchange d node)\<rparr>))
      else Inr None)"
| "mpmcq_step t Act_pop s =
     (if mp_pc s t = Idle
      then Inr (Some (Ev_begin t, s\<lparr>mp_pc := (mp_pc s)(t := Pop_counter (ap_object (mpq_tail (mp_q s))))\<rparr>))
      else Inr None)"
| "mpmcq_step t (Act_go garbage) s =
     (case mp_pc s t of
        Push_exchange d node \<Rightarrow> ponyint_mpmcq_push t s
      | Push_link prev node \<Rightarrow> ponyint_mpmcq_push t s
      | _ \<Rightarrow> ponyint_mpmcq_pop t garbage s)"

definition mpmcq_start :: "uint64_t \<Rightarrow> mpstate" where
  "mpmcq_start stub =
     (let (q, nd) = ponyint_mpmcq_init Map.empty stub in \<lparr>mp_q = q, mp_nodes = nd, mp_pc = (\<lambda>_. Idle)\<rparr>)"

text \<open>
  The runs of a queue whose first stub is \<open>stub\<close>, with the events in order.  The callers in the
  scheduler push actors, never \<^verbatim>\<open>NULL\<close>, which would look like a node that is already read.
\<close>

fun act_ok :: "mpact \<Rightarrow> bool" where
  "act_ok (Act_push d node) \<longleftrightarrow> d \<noteq> 0"
| "act_ok _ \<longleftrightarrow> True"

inductive mpmcq_run :: "uint64_t \<Rightarrow> mpevent list \<Rightarrow> mpstate \<Rightarrow> bool" for stub where
  mpmcq_begin: "stub \<noteq> 0 \<Longrightarrow> mpmcq_run stub [] (mpmcq_start stub)"
| mpmcq_next: "mpmcq_run stub es s \<Longrightarrow> act_ok act \<Longrightarrow> mpmcq_step t act s = Inr (Some (e, s')) \<Longrightarrow> mpmcq_run stub (es @ [e]) s'"

section \<open>The specification\<close>

text \<open>
  A FIFO queue with the values that were taken out and not returned yet: a push appends at its exchange,
  a pop takes the first element at its exchange and returns that element.
\<close>

type_synonym fifo = "uint64_t list \<times> (nat \<rightharpoonup> uint64_t)"

fun fifo_step :: "mpevent \<Rightarrow> fifo \<Rightarrow> fifo option" where
  "fifo_step (Ev_push t d a) (q, p) = Some (q @ [d], p)"
| "fifo_step (Ev_take t) (q, p) = (case q of [] \<Rightarrow> None | d # q' \<Rightarrow> if p t = None then Some (q', p(t \<mapsto> d)) else None)"
| "fifo_step (Ev_return t d) (q, p) = (if p t = Some d then Some (q, p(t := None)) else None)"
| "fifo_step _ (q, p) = Some (q, p)"

fun fifo_run :: "mpevent list \<Rightarrow> fifo \<Rightarrow> fifo option" where
  "fifo_run [] f = Some f"
| "fifo_run (e # es) f = (case fifo_step e f of None \<Rightarrow> None | Some f' \<Rightarrow> fifo_run es f')"

definition fifo_empty :: fifo where "fifo_empty = ([], Map.empty)"

text \<open>The values pushed, the nodes they came in, and how many elements were taken.\<close>

fun ev_pushes :: "mpevent \<Rightarrow> (uint64_t \<times> uint64_t) list" where
  "ev_pushes (Ev_push t d a) = [(d, a)]"
| "ev_pushes _ = []"

definition run_data :: "mpevent list \<Rightarrow> uint64_t list" where
  "run_data es = map fst (concat (map ev_pushes es))"

definition run_nodes :: "mpevent list \<Rightarrow> uint64_t list" where
  "run_nodes es = map snd (concat (map ev_pushes es))"

fun is_take :: "mpevent \<Rightarrow> bool" where
  "is_take (Ev_take t) = True"
| "is_take _ = False"

definition run_takes :: "mpevent list \<Rightarrow> nat" where
  "run_takes es = length (filter is_take es)"

section \<open>The invariant\<close>

text \<open>
  Node \<open>ns ! i\<close> carries the \<open>i\<close>th element pushed, counting from 1, and \<open>k\<close> elements were taken.  A pop
  that has taken element \<open>c + 1\<close> holds the ticket \<open>c\<close>: it owns node \<open>ns ! c\<close>, and while it has not
  cleared the data of \<open>ns ! (c + 1)\<close> it still reads that node.
\<close>

fun ticket :: "mpc \<Rightarrow> nat option" where
  "ticket (Pop_data cmp nxt) = Some (unat (ap_counter cmp))"
| "ticket (Pop_clear cmp nxt d) = Some (unat (ap_counter cmp))"
| "ticket (Pop_wait cmp d) = Some (unat (ap_counter cmp))"
| "ticket (Pop_free cmp d) = Some (unat (ap_counter cmp))"
| "ticket _ = None"

fun reading :: "mpc \<Rightarrow> nat option" where
  "reading (Pop_data cmp nxt) = Some (unat (ap_counter cmp))"
| "reading (Pop_clear cmp nxt d) = Some (unat (ap_counter cmp))"
| "reading _ = None"

fun fresh_node :: "mpc \<Rightarrow> uint64_t option" where
  "fresh_node (Push_exchange d n) = Some n"
| "fresh_node _ = None"

fun linking :: "mpc \<Rightarrow> (uint64_t \<times> uint64_t) option" where
  "linking (Push_link p n) = Some (p, n)"
| "linking _ = None"

definition view_set :: "(mpc \<Rightarrow> 'a option) \<Rightarrow> (nat \<Rightarrow> mpc) \<Rightarrow> 'a set" where
  "view_set f pc = {x. \<exists>t. f (pc t) = Some x}"

definition unique_view :: "(mpc \<Rightarrow> 'a option) \<Rightarrow> (nat \<Rightarrow> mpc) \<Rightarrow> bool" where
  "unique_view f pc \<longleftrightarrow> (\<forall>t u x. f (pc t) = Some x \<and> f (pc u) = Some x \<longrightarrow> t = u)"

definition mp_active :: "nat \<Rightarrow> nat \<Rightarrow> nat set \<Rightarrow> nat set" where
  "mp_active k m T = {k..m} \<union> T"

definition node_next :: "mpnodes \<Rightarrow> uint64_t \<Rightarrow> uint64_t" where
  "node_next nd a = mn_next (the (nd a))"

definition node_data :: "mpnodes \<Rightarrow> uint64_t \<Rightarrow> uint64_t" where
  "node_data nd a = mn_data (the (nd a))"

text \<open>The list from the tail on: a link is missing exactly where a push is between its two accesses.\<close>

definition mp_links :: "uint64_t list \<Rightarrow> nat \<Rightarrow> nat \<Rightarrow> mpnodes \<Rightarrow> (uint64_t \<times> uint64_t) set \<Rightarrow> bool" where
  "mp_links ns k m nd L \<longleftrightarrow> node_next nd (ns ! m) = 0 \<and>
     (\<forall>i. k \<le> i \<and> i < m \<longrightarrow>
        node_next nd (ns ! i) = (if (ns ! i, ns ! Suc i) \<in> L then 0 else ns ! Suc i)) \<and>
     (\<forall>l \<in> L. \<exists>i. k \<le> i \<and> i < m \<and> l = (ns ! i, ns ! Suc i))"

text \<open>The data: elements not taken are in their node, and a taken one only while its pop still reads it.\<close>

definition mp_data ::
  "uint64_t list \<Rightarrow> uint64_t list \<Rightarrow> nat \<Rightarrow> mpnodes \<Rightarrow> nat set \<Rightarrow> nat set \<Rightarrow> bool" where
  "mp_data ns ps k nd T R \<longleftrightarrow>
     (\<forall>i. k < i \<and> i \<le> length ps \<longrightarrow> node_data nd (ns ! i) = ps ! (i - 1)) \<and>
     (\<forall>i \<in> mp_active k (length ps) T. i \<le> k \<longrightarrow> node_data nd (ns ! i) = 0 \<or> (\<exists>c \<in> R. i = Suc c)) \<and>
     (\<forall>c \<in> R. c < k \<and> Suc c \<in> mp_active k (length ps) T \<and> node_data nd (ns ! Suc c) = ps ! c)"

text \<open>
  The nodes in memory are those of the elements not taken, the tail, the old tails of the pops with the
  tickets \<open>T\<close>, and the nodes \<open>F\<close> of pushes before their exchange, all different.
\<close>

definition mp_shape ::
  "uint64_t list \<Rightarrow> uint64_t list \<Rightarrow> nat \<Rightarrow> mpmcq_t \<Rightarrow> mpnodes \<Rightarrow>
     nat set \<Rightarrow> nat set \<Rightarrow> uint64_t set \<Rightarrow> (uint64_t \<times> uint64_t) set \<Rightarrow> bool" where
  "mp_shape ns ps k q nd T R F L \<longleftrightarrow>
     length ns = Suc (length ps) \<and> k \<le> length ps \<and> k < 2 ^ 64 \<and> 0 \<notin> set ps \<and>
     mpq_head q = ns ! length ps \<and> mpq_tail q = \<lparr>ap_object = ns ! k, ap_counter = of_nat k\<rparr> \<and>
     dom nd = (!) ns ` mp_active k (length ps) T \<union> F \<and> 0 \<notin> dom nd \<and>
     inj_on ((!) ns) (mp_active k (length ps) T) \<and> (!) ns ` mp_active k (length ps) T \<inter> F = {} \<and>
     T \<subseteq> {..<k} \<and> mp_links ns k (length ps) nd L \<and> mp_data ns ps k nd T R"

text \<open>What each point of the program knows.\<close>

fun pc_ok :: "uint64_t list \<Rightarrow> uint64_t list \<Rightarrow> nat \<Rightarrow> mpnodes \<Rightarrow> mpc \<Rightarrow> bool" where
  "pc_ok ns ps k nd (Push_exchange d n) \<longleftrightarrow> node_next nd n = 0 \<and> node_data nd n = d \<and> d \<noteq> 0"
| "pc_ok ns ps k nd (Pop_next cmp) \<longleftrightarrow> unat (ap_counter cmp) \<le> k"
| "pc_ok ns ps k nd (Pop_exchange cmp nxt) \<longleftrightarrow> unat (ap_counter cmp) \<le> k \<and>
     (ap_object cmp = ns ! k \<and> unat (ap_counter cmp) = k \<longrightarrow> node_next nd (ns ! k) = nxt \<and> nxt \<noteq> 0)"
| "pc_ok ns ps k nd (Pop_data cmp nxt) \<longleftrightarrow> (let c = unat (ap_counter cmp)
     in ap_object cmp = ns ! c \<and> nxt = ns ! Suc c)"
| "pc_ok ns ps k nd (Pop_clear cmp nxt d) \<longleftrightarrow> (let c = unat (ap_counter cmp)
     in ap_object cmp = ns ! c \<and> nxt = ns ! Suc c \<and> d = ps ! c)"
| "pc_ok ns ps k nd (Pop_wait cmp d) \<longleftrightarrow> (let c = unat (ap_counter cmp)
     in ap_object cmp = ns ! c \<and> d = ps ! c)"
| "pc_ok ns ps k nd (Pop_free cmp d) \<longleftrightarrow> (let c = unat (ap_counter cmp)
     in ap_object cmp = ns ! c \<and> d = ps ! c \<and> node_data nd (ns ! c) = 0)"
| "pc_ok ns ps k nd _ \<longleftrightarrow> True"

definition mp_inv :: "uint64_t list \<Rightarrow> uint64_t list \<Rightarrow> nat \<Rightarrow> mpstate \<Rightarrow> bool" where
  "mp_inv ns ps k s \<longleftrightarrow>
     mp_shape ns ps k (mp_q s) (mp_nodes s) (view_set ticket (mp_pc s)) (view_set reading (mp_pc s))
       (view_set fresh_node (mp_pc s)) (view_set linking (mp_pc s)) \<and>
     finite {t. mp_pc s t \<noteq> Idle} \<and>
     unique_view ticket (mp_pc s) \<and> unique_view fresh_node (mp_pc s) \<and> unique_view linking (mp_pc s) \<and>
     (\<forall>t. pc_ok ns ps k (mp_nodes s) (mp_pc s t))"

end
