(* ===== verification/Mpmcq_Inv.thy ===== *)
theory Mpmcq_Inv
  imports Mpmcq
begin

text \<open>
  The invariant of the scheduler queue is kept by every access: first what an access does to the memory of
  the queue, then what a step of a thread does to what the others know, and last that every step reports
  an event the specification allows.
\<close>

section \<open>Views of the threads\<close>

lemma view_setI: "f (pc t) = Some x \<Longrightarrow> x \<in> view_set f pc"
  by (auto simp: view_set_def)

lemma view_set_upd: "x \<in> view_set f (pc(t := y)) \<longleftrightarrow> f y = Some x \<or> (\<exists>u. u \<noteq> t \<and> f (pc u) = Some x)"
  by (auto simp: view_set_def)

lemma view_set_other: "x \<in> view_set f pc \<longleftrightarrow> f (pc t) = Some x \<or> (\<exists>u. u \<noteq> t \<and> f (pc u) = Some x)"
  by (auto simp: view_set_def)

lemma unique_view_upd:
  "unique_view f pc \<Longrightarrow> (\<And>x u. f y = Some x \<Longrightarrow> u \<noteq> t \<Longrightarrow> f (pc u) \<noteq> Some x) \<Longrightarrow> unique_view f (pc(t := y))"
  by (simp add: unique_view_def) metis

lemma unique_viewD: "unique_view f pc \<Longrightarrow> f (pc t) = Some x \<Longrightarrow> u \<noteq> t \<Longrightarrow> f (pc u) \<noteq> Some x"
  by (auto simp: unique_view_def)

lemma view_same:
  "f y = f (pc t) \<Longrightarrow> view_set f (pc(t := y)) = view_set f pc"
  "f y = f (pc t) \<Longrightarrow> unique_view f pc \<Longrightarrow> unique_view f (pc(t := y))"
proof -
  show "view_set f (pc(t := y)) = view_set f pc" if "f y = f (pc t)"
    using that by (auto simp: view_set_upd view_set_other [of _ f pc t])
  show "unique_view f (pc(t := y))" if "f y = f (pc t)" and "unique_view f pc"
    using that by (metis unique_view_upd unique_viewD)
qed

lemma view_add:
  "f (pc t) = None \<Longrightarrow> f y = Some c \<Longrightarrow> view_set f (pc(t := y)) = insert c (view_set f pc)"
  "f y = Some c \<Longrightarrow> c \<notin> view_set f pc \<Longrightarrow> unique_view f pc \<Longrightarrow> unique_view f (pc(t := y))"
  by (auto simp: view_set_upd view_set_other [of _ f pc t] intro!: unique_view_upd dest: unique_viewD)

lemma view_del:
  "f (pc t) = Some c \<Longrightarrow> f y = None \<Longrightarrow> unique_view f pc \<Longrightarrow> view_set f (pc(t := y)) = view_set f pc - {c}"
  "f y = None \<Longrightarrow> unique_view f pc \<Longrightarrow> unique_view f (pc(t := y))"
  by (auto simp: view_set_upd view_set_other [of _ f pc t] intro!: unique_view_upd dest: unique_viewD)

lemma finite_busy: "finite {t. pc t \<noteq> Idle} \<Longrightarrow> finite {u. (pc(t := x)) u \<noteq> Idle}"
  by (rule finite_subset [of _ "insert t {t. pc t \<noteq> Idle}"]) auto

lemma reading_ticket: "reading p = Some c \<Longrightarrow> ticket p = Some c"
  by (cases p) auto

lemma reading_in_tickets: "c \<in> view_set reading pc \<Longrightarrow> c \<in> view_set ticket pc"
  by (auto simp: view_set_def dest: reading_ticket)

lemma unique_reading: "unique_view ticket pc \<Longrightarrow> unique_view reading pc"
  by (auto simp: unique_view_def dest: reading_ticket)

section \<open>The memory of the queue\<close>

lemma mp_shapeD:
  assumes "mp_shape ns ps k q nd T R F L"
  shows "length ns = Suc (length ps)" and "k \<le> length ps" and "k < 2 ^ 64" and "0 \<notin> set ps"
    and "mpq_head q = ns ! length ps" and "mpq_tail q = \<lparr>ap_object = ns ! k, ap_counter = of_nat k\<rparr>"
    and "dom nd = (!) ns ` mp_active k (length ps) T \<union> F" and "0 \<notin> dom nd"
    and "inj_on ((!) ns) (mp_active k (length ps) T)" and "(!) ns ` mp_active k (length ps) T \<inter> F = {}"
    and "T \<subseteq> {..<k}" and "mp_links ns k (length ps) nd L" and "mp_data ns ps k nd T R"
  using assms unfolding mp_shape_def by blast+

lemma mp_active_mem: "k \<le> i \<Longrightarrow> i \<le> m \<Longrightarrow> i \<in> mp_active k m T" "i \<in> T \<Longrightarrow> i \<in> mp_active k m T"
  by (auto simp: mp_active_def)

lemma shape_node:
  assumes "mp_shape ns ps k q nd T R F L" and "i \<in> mp_active k (length ps) T"
  shows "ns ! i \<in> dom nd" and "ns ! i \<noteq> 0" and "ns ! i \<notin> F"
proof -
  have im: "ns ! i \<in> (!) ns ` mp_active k (length ps) T" using assms(2) by (rule imageI)
  show dom: "ns ! i \<in> dom nd" unfolding mp_shapeD(7) [OF assms(1)] using im by (rule UnI1)
  show "ns ! i \<noteq> 0" using dom mp_shapeD(8) [OF assms(1)] by metis
  show "ns ! i \<notin> F" using im mp_shapeD(10) [OF assms(1)] by (metis IntI empty_iff)
qed

lemma shape_inj:
  assumes "mp_shape ns ps k q nd T R F L"
    and "i \<in> mp_active k (length ps) T" and "j \<in> mp_active k (length ps) T"
  shows "ns ! i = ns ! j \<longleftrightarrow> i = j"
  using mp_shapeD(9) [OF assms(1)] assms(2,3) by (auto simp: inj_on_def)

lemma shape_bound:
  assumes "mp_shape ns ps k q nd T R F L" and "i \<in> mp_active k (length ps) T"
  shows "i \<le> length ps"
  using assms(2) mp_shapeD(2,11) [OF assms(1)] by (auto simp: mp_active_def)

lemma shape_tail: "mp_shape ns ps k q nd T R F L \<Longrightarrow> k \<in> mp_active k (length ps) T"
  by (intro mp_active_mem) (auto dest: mp_shapeD)

lemma shape_reading:
  assumes sh: "mp_shape ns ps k q nd T R F L" and c: "c \<in> R"
  shows "Suc c \<in> mp_active k (length ps) T" and "c < k" and "node_data nd (ns ! Suc c) = ps ! c"
    and "ps ! c \<noteq> 0"
proof -
  show "Suc c \<in> mp_active k (length ps) T" and less: "c < k" and "node_data nd (ns ! Suc c) = ps ! c"
    using mp_shapeD(13) [OF sh] c by (auto simp: mp_data_def)
  have "ps ! c \<in> set ps" using less mp_shapeD(2) [OF sh] by simp
  thus "ps ! c \<noteq> 0" using mp_shapeD(4) [OF sh] by auto
qed

lemma node_field_other:
  "a \<noteq> b \<Longrightarrow> node_next (nd(b := v)) a = node_next nd a" "a \<noteq> b \<Longrightarrow> node_data (nd(b := v)) a = node_data nd a"
  by (simp_all add: node_next_def node_data_def)

lemma node_field_upd:
  "node_next (nd(b \<mapsto> v)) b = mn_next v" "node_data (nd(b \<mapsto> v)) b = mn_data v"
  by (simp_all add: node_next_def node_data_def)

text \<open>Memory that agrees on the fields the invariant reads.\<close>

lemma mp_links_cong:
  assumes "mp_links ns k m nd L" and "\<And>i. k \<le> i \<Longrightarrow> i \<le> m \<Longrightarrow> node_next nd' (ns ! i) = node_next nd (ns ! i)" and "k \<le> m"
  shows "mp_links ns k m nd' L"
  using assms unfolding mp_links_def by simp

lemma mp_data_cong:
  assumes "mp_data ns ps k nd T R"
    and "\<And>i. i \<in> mp_active k (length ps) T \<Longrightarrow> node_data nd' (ns ! i) = node_data nd (ns ! i)"
  shows "mp_data ns ps k nd' T R"
proof -
  have "i \<in> mp_active k (length ps) T" if "k < i" and "i \<le> length ps" for i
    using that by (intro mp_active_mem) auto
  thus ?thesis using assms unfolding mp_data_def by simp
qed

section \<open>What the accesses do to it\<close>

lemma shape_alloc:
  assumes sh: "mp_shape ns ps k q nd T R F L" and free: "a \<noteq> 0" "nd a = None"
  shows "mp_shape ns ps k q (mp_node_alloc nd a d) T R (insert a F) L"
proof -
  note f = mp_shapeD [OF sh]
  have na: "a \<noteq> ns ! i" if "i \<in> mp_active k (length ps) T" for i
    using shape_node(1) [OF sh that] free by auto
  have "mp_links ns k (length ps) (mp_node_alloc nd a d) L"
    using f(2) na by (intro mp_links_cong [OF f(12)]) (metis mp_active_mem(1) mp_node_alloc_def node_field_other(1))
  moreover have "mp_data ns ps k (mp_node_alloc nd a d) T R"
    using na by (intro mp_data_cong [OF f(13)]) (metis mp_node_alloc_def node_field_other(2))
  moreover have "dom (mp_node_alloc nd a d) = insert a (dom nd)" by (simp add: mp_node_alloc_def)
  ultimately show ?thesis using f(1-11) free na unfolding mp_shape_def by auto
qed

lemma shape_push_exchange:
  assumes sh: "mp_shape ns ps k q nd T R F L" and a: "a \<in> F" and d: "d \<noteq> 0"
    and node: "node_next nd a = 0" "node_data nd a = d"
  shows "mp_shape (ns @ [a]) (ps @ [d]) k (snd (mpmcq_push_exchange q a)) nd T R (F - {a}) (insert (mpq_head q, a) L)"
    and "(mpq_head q, a) \<notin> L"
proof -
  note f = mp_shapeD [OF sh]
  let ?ns = "ns @ [a]" and ?A = "mp_active k (length ps) T" and ?m = "length ps"
  have nth: "?ns ! i = ns ! i" if "i \<le> ?m" for i using that f(1) by (simp add: nth_append)
  have last: "?ns ! Suc ?m = a" using f(1) by (simp add: nth_append)
  have active: "mp_active k (length (ps @ [d])) T = insert (Suc ?m) ?A" using f(2) by (auto simp: mp_active_def)
  have notin: "Suc ?m \<notin> ?A" using shape_bound [OF sh] by fastforce
  have im: "(!) ?ns ` ?A = (!) ns ` ?A" using shape_bound [OF sh] nth by (auto intro!: image_cong)
  have na: "a \<noteq> ns ! i" if "i \<in> ?A" for i using shape_node(3) [OF sh that] a by auto
  show fresh: "(mpq_head q, a) \<notin> L"
  proof
    assume "(mpq_head q, a) \<in> L"
    then obtain i where "k \<le> i" "i < ?m" "a = ns ! Suc i" using f(12) by (auto simp: mp_links_def)
    thus False using na [of "Suc i"] by (simp add: mp_active_mem)
  qed
  have inj: "inj_on ((!) ?ns) (insert (Suc ?m) ?A)"
  proof -
    have "inj_on ((!) ?ns) ?A" using f(9) nth shape_bound [OF sh] by (simp add: inj_on_def)
    moreover have "?ns ! Suc ?m \<notin> (!) ?ns ` ?A" using na by (auto simp: im last)
    ultimately show ?thesis using notin by (simp add: inj_on_insert)
  qed
  have links: "mp_links ?ns k (Suc ?m) nd (insert (mpq_head q, a) L)"
    unfolding mp_links_def
  proof (intro conjI allI ballI impI)
    show "node_next nd (?ns ! Suc ?m) = 0" using node by (simp add: last)
  next
    fix i assume i: "k \<le> i \<and> i < Suc ?m"
    show "node_next nd (?ns ! i) = (if (?ns ! i, ?ns ! Suc i) \<in> insert (mpq_head q, a) L then 0 else ?ns ! Suc i)"
    proof (cases "i = ?m")
      case True
      thus ?thesis using f(5,12) last by (simp add: nth mp_links_def)
    next
      case False
      hence "Suc i \<in> ?A" using i by (intro mp_active_mem) auto
      thus ?thesis using f(12) i False na [of "Suc i"] by (auto simp: nth mp_links_def)
    qed
  next
    fix l assume "l \<in> insert (mpq_head q, a) L"
    thus "\<exists>i. k \<le> i \<and> i < Suc ?m \<and> l = (?ns ! i, ?ns ! Suc i)"
    proof
      assume "l = (mpq_head q, a)"
      thus ?thesis using f(2,5) last by (intro exI [of _ ?m]) (simp add: nth)
    next
      assume "l \<in> L"
      then obtain i where "k \<le> i" "i < ?m" "l = (ns ! i, ns ! Suc i)" using f(12) by (auto simp: mp_links_def)
      thus ?thesis by (intro exI [of _ i]) (simp add: nth)
    qed
  qed
  have data: "mp_data ?ns (ps @ [d]) k nd T R"
    unfolding mp_data_def active
  proof (intro conjI allI ballI impI)
    fix i assume i: "k < i \<and> i \<le> length (ps @ [d])"
    show "node_data nd (?ns ! i) = (ps @ [d]) ! (i - 1)"
    proof (cases "i = Suc ?m")
      case True
      thus ?thesis using node last by simp
    next
      case False
      hence "?ns ! i = ns ! i" using i by (intro nth) simp
      moreover have "i - 1 < ?m" and "i \<le> ?m" using i False by auto
      ultimately show ?thesis using i f(13) by (simp add: mp_data_def nth_append)
    qed
  next
    fix i assume "i \<in> insert (Suc ?m) ?A" and "i \<le> k"
    thus "node_data nd (?ns ! i) = 0 \<or> (\<exists>c\<in>R. i = Suc c)" using f(2,13) by (auto simp: nth mp_data_def)
  next
    fix c assume c: "c \<in> R"
    note r = shape_reading [OF sh c]
    show "c < k" by (rule r)
    show "Suc c \<in> insert (Suc ?m) ?A" using r by simp
    show "node_data nd (?ns ! Suc c) = (ps @ [d]) ! c"
      using r f(2) nth [of "Suc c"] nth_append [of ps "[d]" c] by simp
  qed
  have "dom nd = (!) ?ns ` insert (Suc ?m) ?A \<union> (F - {a})" using f(7) a by (auto simp: im last)
  thus "mp_shape ?ns (ps @ [d]) k (snd (mpmcq_push_exchange q a)) nd T R (F - {a}) (insert (mpq_head q, a) L)"
    unfolding mp_shape_def active
    using f(1-6,8,10,11) d inj links data na
    by (auto simp: mpmcq_push_exchange_def nth last im)
qed


lemma shape_link:
  assumes sh: "mp_shape ns ps k q nd T R F L" and l: "(p, a) \<in> L"
  shows "\<exists>n. nd p = Some n \<and> mpmcq_push_link nd p a = Inr (nd(p \<mapsto> n\<lparr>mn_next := a\<rparr>)) \<and>
    mp_shape ns ps k q (nd(p \<mapsto> n\<lparr>mn_next := a\<rparr>)) T R F (L - {(p, a)})"
    and "\<exists>i \<in> mp_active k (length ps) T. p = ns ! i \<and> node_next nd p = 0"
proof -
  note f = mp_shapeD [OF sh]
  let ?A = "mp_active k (length ps) T" and ?m = "length ps"
  obtain i where i: "k \<le> i" "i < ?m" "p = ns ! i" "a = ns ! Suc i" using f(12) l by (auto simp: mp_links_def)
  have iA: "i \<in> ?A" and sA: "Suc i \<in> ?A" using i by (auto intro: mp_active_mem)
  have p0: "node_next nd p = 0" using f(12) i l by (auto simp: mp_links_def)
  show "\<exists>i \<in> ?A. p = ns ! i \<and> node_next nd p = 0" using iA i(3) p0 by blast
  obtain n where n: "nd p = Some n" using shape_node(1) [OF sh iA] i(3) by auto
  let ?nd = "nd(p \<mapsto> n\<lparr>mn_next := a\<rparr>)"
  have nxt: "node_next ?nd (ns ! j) = (if j = i then a else node_next nd (ns ! j))" if "j \<in> ?A" for j
    using shape_inj [OF sh that iA] i(3) by (auto simp: node_field_upd node_field_other)
  have dat: "node_data ?nd b = node_data nd b" for b using n by (simp add: node_data_def)
  have links: "mp_links ns k ?m ?nd (L - {(p, a)})"
    unfolding mp_links_def
  proof (intro conjI allI ballI impI)
    show "node_next ?nd (ns ! ?m) = 0" using nxt [of ?m] f(2,12) i(2) by (simp add: mp_active_mem mp_links_def)
  next
    fix j assume j: "k \<le> j \<and> j < ?m"
    hence jA: "j \<in> ?A" by (intro mp_active_mem) auto
    have "(ns ! j, ns ! Suc j) \<in> L - {(p, a)} \<longleftrightarrow> j \<noteq> i \<and> (ns ! j, ns ! Suc j) \<in> L"
      using shape_inj [OF sh jA iA] i by auto
    thus "node_next ?nd (ns ! j) = (if (ns ! j, ns ! Suc j) \<in> L - {(p, a)} then 0 else ns ! Suc j)"
      using nxt [OF jA] f(12) j i(4) by (auto simp: mp_links_def)
  next
    fix l assume "l \<in> L - {(p, a)}"
    thus "\<exists>i. k \<le> i \<and> i < ?m \<and> l = (ns ! i, ns ! Suc i)" using f(12) by (auto simp: mp_links_def)
  qed
  have "mp_data ns ps k ?nd T R" by (rule mp_data_cong [OF f(13)]) (rule dat)
  moreover have "dom ?nd = dom nd" using n by auto
  ultimately have "mp_shape ns ps k q ?nd T R F (L - {(p, a)})"
    using f(1-11) links unfolding mp_shape_def by metis
  thus "\<exists>n. nd p = Some n \<and> mpmcq_push_link nd p a = Inr (nd(p \<mapsto> n\<lparr>mn_next := a\<rparr>)) \<and>
    mp_shape ns ps k q (nd(p \<mapsto> n\<lparr>mn_next := a\<rparr>)) T R F (L - {(p, a)})"
    using n by (auto simp: mpmcq_push_link_def)
qed

lemma shape_take:
  assumes sh: "mp_shape ns ps k q nd T R F L" and k: "Suc k < 2 ^ 64"
    and nxt: "node_next nd (ns ! k) = x" "x \<noteq> 0"
  shows "k < length ps" and "x = ns ! Suc k" and "(ns ! k, y) \<notin> L"
    and "mp_shape ns ps (Suc k) (q\<lparr>mpq_tail := \<lparr>ap_object = x, ap_counter = of_nat k + 1\<rparr>\<rparr>) nd
           (insert k T) (insert k R) F L"
proof -
  note f = mp_shapeD [OF sh]
  let ?A = "mp_active k (length ps) T" and ?m = "length ps"
  show less: "k < ?m" using f(2,12) nxt by (cases "k = ?m") (auto simp: mp_links_def)
  have kL: "(ns ! k, ns ! Suc k) \<notin> L" and x: "x = ns ! Suc k"
    using f(12) less nxt by (auto simp: mp_links_def split: if_splits)
  show "x = ns ! Suc k" by (rule x)
  show "(ns ! k, y) \<notin> L"
  proof
    assume l: "(ns ! k, y) \<in> L"
    show False using shape_link(2) [OF sh l] nxt by auto
  qed
  have active: "mp_active (Suc k) ?m (insert k T) = ?A" using less by (auto simp: mp_active_def)
  have links: "mp_links ns (Suc k) ?m nd L"
    unfolding mp_links_def
  proof (intro conjI allI ballI impI)
    fix l assume "l \<in> L"
    then obtain i where i: "k \<le> i" "i < ?m" "l = (ns ! i, ns ! Suc i)" using f(12) by (auto simp: mp_links_def)
    moreover have "i \<noteq> k" using i kL \<open>l \<in> L\<close> by auto
    ultimately show "\<exists>i. Suc k \<le> i \<and> i < ?m \<and> l = (ns ! i, ns ! Suc i)" by (intro exI [of _ i]) simp
  qed (use f(12) in \<open>simp_all add: mp_links_def\<close>)
  have data: "mp_data ns ps (Suc k) nd (insert k T) (insert k R)"
    unfolding mp_data_def active
  proof (intro conjI allI ballI impI)
    fix i assume "Suc k < i \<and> i \<le> ?m"
    thus "node_data nd (ns ! i) = ps ! (i - 1)" using f(13) by (simp add: mp_data_def)
  next
    fix i assume "i \<in> ?A" and "i \<le> Suc k"
    thus "node_data nd (ns ! i) = 0 \<or> (\<exists>c\<in>insert k R. i = Suc c)"
      using f(13) by (cases "i = Suc k") (auto simp: mp_data_def)
  next
    fix c assume c: "c \<in> insert k R"
    have "node_data nd (ns ! Suc k) = ps ! k" using f(13) less by (simp add: mp_data_def)
    moreover have "Suc k \<in> ?A" using less by (intro mp_active_mem) auto
    ultimately show "c < Suc k" and "Suc c \<in> ?A" and "node_data nd (ns ! Suc c) = ps ! c"
      using c shape_reading [OF sh, of c] by auto
  qed
  show "mp_shape ns ps (Suc k) (q\<lparr>mpq_tail := \<lparr>ap_object = x, ap_counter = of_nat k + 1\<rparr>\<rparr>) nd
           (insert k T) (insert k R) F L"
    unfolding mp_shape_def active using f less k x links data by (auto simp: add.commute)
qed

lemma shape_pop_clear:
  assumes sh: "mp_shape ns ps k q nd T R F L" and c: "c \<in> R"
  shows "\<exists>n. nd (ns ! Suc c) = Some n \<and> mpmcq_pop_clear nd (ns ! Suc c) = Inr (nd(ns ! Suc c \<mapsto> n\<lparr>mn_data := 0\<rparr>)) \<and>
    mp_shape ns ps k q (nd(ns ! Suc c \<mapsto> n\<lparr>mn_data := 0\<rparr>)) T (R - {c}) F L"
proof -
  note f = mp_shapeD [OF sh]
  let ?A = "mp_active k (length ps) T" and ?m = "length ps"
  note r = shape_reading [OF sh c]
  obtain n where n: "nd (ns ! Suc c) = Some n" using shape_node(1) [OF sh r(1)] by auto
  let ?nd = "nd(ns ! Suc c \<mapsto> n\<lparr>mn_data := 0\<rparr>)"
  have dat: "node_data ?nd (ns ! j) = (if j = Suc c then 0 else node_data nd (ns ! j))" if "j \<in> ?A" for j
    using shape_inj [OF sh that r(1)] by (auto simp: node_field_upd node_field_other)
  have nxt: "node_next ?nd b = node_next nd b" for b using n by (simp add: node_next_def)
  have links: "mp_links ns k ?m ?nd L" by (rule mp_links_cong [OF f(12)]) (auto simp: nxt f(2))
  have data: "mp_data ns ps k ?nd T (R - {c})"
    unfolding mp_data_def
  proof (intro conjI allI ballI impI)
    fix i assume i: "k < i \<and> i \<le> ?m"
    hence "i \<in> ?A" by (intro mp_active_mem) auto
    thus "node_data ?nd (ns ! i) = ps ! (i - 1)" using i r(2) dat [of i] f(13) by (simp add: mp_data_def)
  next
    fix i assume "i \<in> ?A" and "i \<le> k"
    thus "node_data ?nd (ns ! i) = 0 \<or> (\<exists>c\<in>R - {c}. i = Suc c)"
      using f(13) dat [of i] by (auto simp: mp_data_def)
  next
    fix b assume b: "b \<in> R - {c}"
    note rb = shape_reading [OF sh, of b]
    show "b < k" and "Suc b \<in> ?A" and "node_data ?nd (ns ! Suc b) = ps ! b"
      using b rb dat [of "Suc b"] by auto
  qed
  have "dom ?nd = dom nd" using n by auto
  hence "mp_shape ns ps k q ?nd T (R - {c}) F L"
    using f(1-11) links data unfolding mp_shape_def by metis
  thus ?thesis using n by (auto simp: mpmcq_pop_clear_def)
qed

lemma shape_free:
  assumes sh: "mp_shape ns ps k q nd T R F L" and c: "c \<in> T" "c \<notin> R" and zero: "node_data nd (ns ! c) = 0"
  shows "mp_node_free nd (ns ! c) = Inr (nd(ns ! c := None))"
    and "mp_shape ns ps k q (nd(ns ! c := None)) (T - {c}) R F L"
proof -
  note f = mp_shapeD [OF sh]
  let ?A = "mp_active k (length ps) T" and ?m = "length ps" and ?nd = "nd(ns ! c := None)"
  have cA: "c \<in> ?A" using c(1) by (rule mp_active_mem)
  have ck: "c < k" using f(11) c(1) by auto
  show "mp_node_free nd (ns ! c) = Inr ?nd" using shape_node(1) [OF sh cA] by (auto simp: mp_node_free_def)
  have active: "mp_active k ?m (T - {c}) = ?A - {c}" using ck by (auto simp: mp_active_def)
  have other: "ns ! i \<noteq> ns ! c" if "i \<in> ?A - {c}" for i using shape_inj [OF sh _ cA, of i] that by auto
  have keep: "node_data ?nd (ns ! i) = node_data nd (ns ! i)" "node_next ?nd (ns ! i) = node_next nd (ns ! i)"
    if "i \<in> ?A - {c}" for i using other [OF that] by (simp_all add: node_field_other)
  have tl: "i \<in> ?A - {c}" if "k \<le> i" and "i \<le> ?m" for i using that ck by (auto simp: mp_active_def)
  have links: "mp_links ns k ?m ?nd L" by (rule mp_links_cong [OF f(12)]) (auto intro!: keep(2) dest!: tl simp: f(2) simp del: fun_upd_apply)
  have rc: "Suc b \<noteq> c" if "b \<in> R" for b using shape_reading(3,4) [OF sh that] zero by auto
  have data: "mp_data ns ps k ?nd (T - {c}) R"
    unfolding mp_data_def active
  proof (intro conjI allI ballI impI)
    fix i assume i: "k < i \<and> i \<le> ?m"
    thus "node_data ?nd (ns ! i) = ps ! (i - 1)" using f(13) keep(1) [OF tl, of i] by (simp add: mp_data_def)
  next
    fix i assume "i \<in> ?A - {c}" and "i \<le> k"
    thus "node_data ?nd (ns ! i) = 0 \<or> (\<exists>c\<in>R. i = Suc c)" using f(13) keep(1) by (simp add: mp_data_def)
  next
    fix b assume b: "b \<in> R"
    show "b < k" using shape_reading [OF sh b] by simp
    show m: "Suc b \<in> ?A - {c}" using shape_reading [OF sh b] rc [OF b] by simp
    show "node_data ?nd (ns ! Suc b) = ps ! b" using shape_reading [OF sh b] keep(1) [OF m] by simp
  qed
  have "ns ! c \<notin> (!) ns ` (?A - {c})" using other by (metis imageE)
  moreover have "ns ! c \<notin> F" by (rule shape_node [OF sh cA])
  ultimately have "dom ?nd = (!) ns ` (?A - {c}) \<union> F" using f(7) by auto
  moreover have "inj_on ((!) ns) (?A - {c})" using f(9) by (rule inj_on_subset) auto
  moreover have "(!) ns ` (?A - {c}) \<inter> F = {}" using f(10) by blast
  ultimately show "mp_shape ns ps k q ?nd (T - {c}) R F L"
    unfolding mp_shape_def active using f(1-6,8,11) links data by auto
qed


section \<open>Every step keeps the invariant\<close>

lemma mp_invD:
  assumes "mp_inv ns ps k s"
  shows "mp_shape ns ps k (mp_q s) (mp_nodes s) (view_set ticket (mp_pc s)) (view_set reading (mp_pc s))
      (view_set fresh_node (mp_pc s)) (view_set linking (mp_pc s))"
    and "finite {t. mp_pc s t \<noteq> Idle}"
    and "unique_view ticket (mp_pc s)" and "unique_view fresh_node (mp_pc s)" and "unique_view linking (mp_pc s)"
    and "pc_ok ns ps k (mp_nodes s) (mp_pc s t)"
  using assms unfolding mp_inv_def by blast+

text \<open>A step of thread \<open>t\<close> to \<open>x\<close>, with the queue and memory it leaves.\<close>

lemma mp_inv_step:
  assumes inv: "mp_inv ns ps k s"
    and shape: "mp_shape ns' ps' k' q nd (view_set ticket ((mp_pc s)(t := x))) (view_set reading ((mp_pc s)(t := x)))
      (view_set fresh_node ((mp_pc s)(t := x))) (view_set linking ((mp_pc s)(t := x)))"
    and uniq: "\<And>u c. ticket x = Some c \<Longrightarrow> u \<noteq> t \<Longrightarrow> ticket (mp_pc s u) \<noteq> Some c"
      "\<And>u n. fresh_node x = Some n \<Longrightarrow> u \<noteq> t \<Longrightarrow> fresh_node (mp_pc s u) \<noteq> Some n"
      "\<And>u l. linking x = Some l \<Longrightarrow> u \<noteq> t \<Longrightarrow> linking (mp_pc s u) \<noteq> Some l"
    and ok: "pc_ok ns' ps' k' nd x" "\<And>u. u \<noteq> t \<Longrightarrow> pc_ok ns' ps' k' nd (mp_pc s u)"
  shows "mp_inv ns' ps' k' (s\<lparr>mp_q := q, mp_nodes := nd, mp_pc := (mp_pc s)(t := x)\<rparr>)"
  unfolding mp_inv_def
  using shape finite_busy [OF mp_invD(2) [OF inv]] ok
    unique_view_upd [OF mp_invD(3) [OF inv] uniq(1)] unique_view_upd [OF mp_invD(4) [OF inv] uniq(2)]
    unique_view_upd [OF mp_invD(5) [OF inv] uniq(3)]
  by simp

lemma mp_inv_silent:
  assumes inv: "mp_inv ns ps k s"
    and same: "ticket x = ticket (mp_pc s t)" "reading x = reading (mp_pc s t)"
      "fresh_node x = fresh_node (mp_pc s t)" "linking x = linking (mp_pc s t)"
    and ok: "pc_ok ns ps k (mp_nodes s) x"
  shows "mp_inv ns ps k (s\<lparr>mp_pc := (mp_pc s)(t := x)\<rparr>)"
proof -
  have "mp_inv ns ps k (s\<lparr>mp_q := mp_q s, mp_nodes := mp_nodes s, mp_pc := (mp_pc s)(t := x)\<rparr>)"
  proof (rule mp_inv_step [OF inv])
    show "mp_shape ns ps k (mp_q s) (mp_nodes s) (view_set ticket ((mp_pc s)(t := x)))
        (view_set reading ((mp_pc s)(t := x))) (view_set fresh_node ((mp_pc s)(t := x)))
        (view_set linking ((mp_pc s)(t := x)))"
      using mp_invD(1) [OF inv] by (simp only: view_same same)
    show "ticket x = Some c \<Longrightarrow> u \<noteq> t \<Longrightarrow> ticket (mp_pc s u) \<noteq> Some c" for c u
      using unique_viewD [OF mp_invD(3) [OF inv], of t c u] same(1) by simp
    show "fresh_node x = Some n \<Longrightarrow> u \<noteq> t \<Longrightarrow> fresh_node (mp_pc s u) \<noteq> Some n" for n u
      using unique_viewD [OF mp_invD(4) [OF inv], of t n u] same(3) by simp
    show "linking x = Some l \<Longrightarrow> u \<noteq> t \<Longrightarrow> linking (mp_pc s u) \<noteq> Some l" for l u
      using unique_viewD [OF mp_invD(5) [OF inv], of t l u] same(4) by simp
  qed (use ok mp_invD(6) [OF inv] in simp_all)
  thus ?thesis by simp
qed

text \<open>How the other threads' knowledge survives a write to node \<open>a\<close>.\<close>

lemma pc_ok_write:
  assumes inv: "mp_inv ns ps k s"
    and fresh: "fresh_node (mp_pc s u) \<noteq> Some a"
    and nxt: "a \<noteq> ns ! k \<or> node_next (mp_nodes s) a = 0 \<or> node_next nd a = node_next (mp_nodes s) a"
    and dat: "\<And>c. c \<in> view_set ticket (mp_pc s) - view_set reading (mp_pc s) \<Longrightarrow> ticket (mp_pc s u) = Some c \<Longrightarrow>
      a \<noteq> ns ! c \<or> node_data nd a = node_data (mp_nodes s) a \<or> node_data nd a = 0"
    and nd: "nd = (mp_nodes s)(a := v)"
  shows "pc_ok ns ps k nd (mp_pc s u)"
proof (cases "mp_pc s u")
  case (Push_exchange d n)
  hence "n \<noteq> a" using fresh by simp
  thus ?thesis using mp_invD(6) [OF inv, of u] Push_exchange by (simp add: nd node_field_other)
next
  case (Pop_exchange cmp x)
  have keep: "node_next nd (ns ! k) = node_next (mp_nodes s) (ns ! k)" if "node_next (mp_nodes s) (ns ! k) \<noteq> 0"
    using nxt that by (cases "a = ns ! k") (auto simp: nd node_field_other)
  show ?thesis
  proof (cases "ap_object cmp = ns ! k \<and> unat (ap_counter cmp) = k")
    case True
    thus ?thesis using mp_invD(6) [OF inv, of u] Pop_exchange keep by simp
  next
    case False
    thus ?thesis using mp_invD(6) [OF inv, of u] Pop_exchange by auto
  qed
next
  case (Pop_free cmp d)
  let ?c = "unat (ap_counter cmp)"
  have tick: "ticket (mp_pc s u) = Some ?c" and nr: "reading (mp_pc s u) = None" using Pop_free by simp_all
  have "?c \<notin> view_set reading (mp_pc s)"
  proof
    assume "?c \<in> view_set reading (mp_pc s)"
    then obtain w where w: "reading (mp_pc s w) = Some ?c" by (auto simp: view_set_def)
    hence "w = u" using unique_viewD [OF mp_invD(3) [OF inv] tick, of w] reading_ticket by blast
    thus False using w nr by simp
  qed
  hence "a \<noteq> ns ! ?c \<or> node_data nd a = node_data (mp_nodes s) a \<or> node_data nd a = 0"
    using dat [OF _ tick] view_setI [of ticket "mp_pc s" u, OF tick] by blast
  hence "node_data nd (ns ! ?c) = 0"
    using mp_invD(6) [OF inv, of u] Pop_free by (cases "a = ns ! ?c") (auto simp: Let_def nd node_field_other)
  thus ?thesis using mp_invD(6) [OF inv, of u] Pop_free by (simp add: Let_def)
qed (use mp_invD(6) [OF inv, of u] in simp_all)

lemma mp_inv_alloc:
  assumes inv: "mp_inv ns ps k s" and idle: "mp_pc s t = Idle" and free: "a \<noteq> 0" "mp_nodes s a = None" and d: "d \<noteq> 0"
  shows "mp_inv ns ps k (s\<lparr>mp_nodes := mp_node_alloc (mp_nodes s) a d,
    mp_pc := (mp_pc s)(t := Push_exchange d a)\<rparr>)"
proof -
  let ?x = "Push_exchange d a" and ?nd = "mp_node_alloc (mp_nodes s) a d"
  have nf: "fresh_node (mp_pc s u) \<noteq> Some a" for u
    using mp_shapeD(7) [OF mp_invD(1) [OF inv]] free(2) view_setI [of fresh_node "mp_pc s" u a] by auto
  have na: "a \<noteq> ns ! i" if "i \<in> mp_active k (length ps) (view_set ticket (mp_pc s))" for i
    using shape_node(1) [OF mp_invD(1) [OF inv] that] free by auto
  have "mp_inv ns ps k (s\<lparr>mp_q := mp_q s, mp_nodes := ?nd, mp_pc := (mp_pc s)(t := ?x)\<rparr>)"
  proof (rule mp_inv_step [OF inv])
    show "mp_shape ns ps k (mp_q s) ?nd (view_set ticket ((mp_pc s)(t := ?x)))
        (view_set reading ((mp_pc s)(t := ?x))) (view_set fresh_node ((mp_pc s)(t := ?x)))
        (view_set linking ((mp_pc s)(t := ?x)))"
      using shape_alloc [OF mp_invD(1) [OF inv] free] idle
      by (simp add: view_same view_add(1) [where c = a])
    show "pc_ok ns ps k ?nd (mp_pc s u)" if "u \<noteq> t" for u
      using nf na shape_tail [OF mp_invD(1) [OF inv]]
      by (intro pc_ok_write [OF inv, where a = a]) (auto simp: mp_node_alloc_def mp_active_mem)
  qed (use nf d in \<open>simp_all add: mp_node_alloc_def node_field_upd\<close>)
  thus ?thesis by simp
qed


lemma mp_inv_push_exchange:
  assumes inv: "mp_inv ns ps k s" and pc: "mp_pc s t = Push_exchange d a"
  shows "mp_inv (ns @ [a]) (ps @ [d]) k
    (s\<lparr>mp_q := snd (mpmcq_push_exchange (mp_q s) a), mp_pc := (mp_pc s)(t := Push_link (mpq_head (mp_q s)) a)\<rparr>)"
proof -
  let ?x = "Push_link (mpq_head (mp_q s)) a" and ?q = "snd (mpmcq_push_exchange (mp_q s) a)"
  note sh = mp_invD(1) [OF inv]
  have aF: "a \<in> view_set fresh_node (mp_pc s)" by (rule view_setI [where t = t]) (simp add: pc)
  have node: "node_next (mp_nodes s) a = 0" "node_data (mp_nodes s) a = d" and d: "d \<noteq> 0" using mp_invD(6) [OF inv, of t] pc by simp_all
  note ex = shape_push_exchange [OF sh aF d node]
  have nth: "(ns @ [a]) ! i = ns ! i" if "i \<le> length ps" for i
    using that mp_shapeD(1) [OF sh] by (simp add: nth_append)
  have k: "k \<le> length ps" by (rule mp_shapeD [OF sh])
  have "mp_inv (ns @ [a]) (ps @ [d]) k (s\<lparr>mp_q := ?q, mp_nodes := mp_nodes s, mp_pc := (mp_pc s)(t := ?x)\<rparr>)"
  proof (rule mp_inv_step [OF inv])
    show "mp_shape (ns @ [a]) (ps @ [d]) k ?q (mp_nodes s) (view_set ticket ((mp_pc s)(t := ?x)))
        (view_set reading ((mp_pc s)(t := ?x))) (view_set fresh_node ((mp_pc s)(t := ?x)))
        (view_set linking ((mp_pc s)(t := ?x)))"
      using ex(1) pc mp_invD(4) [OF inv]
      by (simp add: view_same view_add(1) [where c = "(mpq_head (mp_q s), a)"] view_del(1) [where c = a])
    show "linking ?x = Some l \<Longrightarrow> u \<noteq> t \<Longrightarrow> linking (mp_pc s u) \<noteq> Some l" for l u
      using ex(2) view_setI [of linking "mp_pc s" u] by auto
    show "pc_ok (ns @ [a]) (ps @ [d]) k (mp_nodes s) (mp_pc s u)" for u
    proof -
      have "c < k" if "ticket (mp_pc s u) = Some c" for c
        using mp_shapeD(11) [OF sh] view_setI [of ticket "mp_pc s" u, OF that] by auto
      thus ?thesis using mp_invD(6) [OF inv, of u] k
        by (cases "mp_pc s u") (auto simp: Let_def nth nth_append [of ps] less_le_trans Suc_leI)
    qed
  qed simp_all
  thus ?thesis by simp
qed

lemma mp_inv_push_link:
  assumes inv: "mp_inv ns ps k s" and pc: "mp_pc s t = Push_link p a"
  shows "\<exists>nd. mpmcq_push_link (mp_nodes s) p a = Inr nd \<and>
    mp_inv ns ps k (s\<lparr>mp_nodes := nd, mp_pc := (mp_pc s)(t := Idle)\<rparr>)"
proof -
  note sh = mp_invD(1) [OF inv]
  have l: "(p, a) \<in> view_set linking (mp_pc s)" by (rule view_setI [where t = t]) (simp add: pc)
  obtain n where n: "mp_nodes s p = Some n"
    and link: "mpmcq_push_link (mp_nodes s) p a = Inr ((mp_nodes s)(p \<mapsto> n\<lparr>mn_next := a\<rparr>))"
    and sh': "mp_shape ns ps k (mp_q s) ((mp_nodes s)(p \<mapsto> n\<lparr>mn_next := a\<rparr>)) (view_set ticket (mp_pc s))
      (view_set reading (mp_pc s)) (view_set fresh_node (mp_pc s)) (view_set linking (mp_pc s) - {(p, a)})"
    using shape_link(1) [OF sh l] by auto
  obtain i where iA: "i \<in> mp_active k (length ps) (view_set ticket (mp_pc s))" and i: "p = ns ! i"
    and p0: "node_next (mp_nodes s) p = 0" using shape_link(2) [OF sh l] by auto
  let ?nd = "(mp_nodes s)(p \<mapsto> n\<lparr>mn_next := a\<rparr>)"
  have "mp_inv ns ps k (s\<lparr>mp_q := mp_q s, mp_nodes := ?nd, mp_pc := (mp_pc s)(t := Idle)\<rparr>)"
  proof (rule mp_inv_step [OF inv])
    show "mp_shape ns ps k (mp_q s) ?nd (view_set ticket ((mp_pc s)(t := Idle)))
        (view_set reading ((mp_pc s)(t := Idle))) (view_set fresh_node ((mp_pc s)(t := Idle)))
        (view_set linking ((mp_pc s)(t := Idle)))"
      using sh' pc mp_invD(5) [OF inv] by (simp add: view_same view_del(1) [where c = "(p, a)"])
    show "pc_ok ns ps k ?nd (mp_pc s u)" for u
    proof (rule pc_ok_write [OF inv, where a = p])
      show "fresh_node (mp_pc s u) \<noteq> Some p"
        using shape_node(3) [OF sh iA] i view_setI [of fresh_node "mp_pc s" u] by auto
    qed (use p0 n in \<open>auto simp: node_data_def\<close>)
  qed simp_all
  thus ?thesis using link by simp
qed

lemma mp_inv_take:
  assumes inv: "mp_inv ns ps k s" and pc: "mp_pc s t = Pop_exchange cmp x" and same: "mpq_tail (mp_q s) = cmp"
    and k: "Suc k < 2 ^ 64"
  shows "mp_inv ns ps (Suc k) (s\<lparr>mp_q := (mp_q s)\<lparr>mpq_tail := \<lparr>ap_object = x, ap_counter = ap_counter cmp + 1\<rparr>\<rparr>,
      mp_pc := (mp_pc s)(t := Pop_data cmp x)\<rparr>)"
    and "k < length ps"
proof -
  note sh = mp_invD(1) [OF inv]
  have cmp: "cmp = \<lparr>ap_object = ns ! k, ap_counter = of_nat k\<rparr>" using mp_shapeD(6) [OF sh] same by simp
  have ck: "unat (ap_counter cmp) = k" using k by (simp add: cmp unat_of_nat_u64)
  have nxt: "node_next (mp_nodes s) (ns ! k) = x" "x \<noteq> 0" using mp_invD(6) [OF inv, of t] pc ck cmp by simp_all
  note take = shape_take [OF sh k nxt]
  show "k < length ps" by (rule take)
  have kT: "k \<notin> view_set ticket (mp_pc s)" using mp_shapeD(11) [OF sh] by auto
  let ?x = "Pop_data cmp x" and ?q = "(mp_q s)\<lparr>mpq_tail := \<lparr>ap_object = x, ap_counter = ap_counter cmp + 1\<rparr>\<rparr>"
  have "mp_inv ns ps (Suc k) (s\<lparr>mp_q := ?q, mp_nodes := mp_nodes s, mp_pc := (mp_pc s)(t := ?x)\<rparr>)"
  proof (rule mp_inv_step [OF inv])
    show "mp_shape ns ps (Suc k) ?q (mp_nodes s) (view_set ticket ((mp_pc s)(t := ?x)))
        (view_set reading ((mp_pc s)(t := ?x))) (view_set fresh_node ((mp_pc s)(t := ?x)))
        (view_set linking ((mp_pc s)(t := ?x)))"
      using take(4) pc ck cmp by (simp add: view_same view_add(1) [where c = k])
    show "ticket ?x = Some c \<Longrightarrow> u \<noteq> t \<Longrightarrow> ticket (mp_pc s u) \<noteq> Some c" for c u
      using kT ck view_setI [of ticket "mp_pc s" u] by auto
    show "pc_ok ns ps (Suc k) (mp_nodes s) ?x" using ck cmp take(2) by simp
    show "pc_ok ns ps (Suc k) (mp_nodes s) (mp_pc s u)" for u
      using mp_invD(6) [OF inv, of u] by (cases "mp_pc s u") auto
  qed simp_all
  thus "mp_inv ns ps (Suc k) (s\<lparr>mp_q := ?q, mp_pc := (mp_pc s)(t := ?x)\<rparr>)" by simp
qed

lemma mp_inv_clear:
  assumes inv: "mp_inv ns ps k s" and pc: "mp_pc s t = Pop_clear cmp x d"
  shows "\<exists>nd. mpmcq_pop_clear (mp_nodes s) x = Inr nd \<and>
    mp_inv ns ps k (s\<lparr>mp_nodes := nd, mp_pc := (mp_pc s)(t := Pop_wait cmp d)\<rparr>)"
proof -
  note sh = mp_invD(1) [OF inv]
  define c where "c = unat (ap_counter cmp)"
  have cR: "c \<in> view_set reading (mp_pc s)" by (rule view_setI [where t = t]) (simp add: pc c_def)
  have ok: "ap_object cmp = ns ! c" "x = ns ! Suc c" "d = ps ! c"
    using mp_invD(6) [OF inv, of t] pc by (simp_all add: c_def Let_def)
  obtain n where n: "mp_nodes s x = Some n" and clear: "mpmcq_pop_clear (mp_nodes s) x = Inr ((mp_nodes s)(x \<mapsto> n\<lparr>mn_data := 0\<rparr>))"
    and sh': "mp_shape ns ps k (mp_q s) ((mp_nodes s)(x \<mapsto> n\<lparr>mn_data := 0\<rparr>)) (view_set ticket (mp_pc s))
      (view_set reading (mp_pc s) - {c}) (view_set fresh_node (mp_pc s)) (view_set linking (mp_pc s))"
    using shape_pop_clear [OF sh cR] ok(2) by auto
  let ?nd = "(mp_nodes s)(x \<mapsto> n\<lparr>mn_data := 0\<rparr>)" and ?x = "Pop_wait cmp d"
  have "mp_inv ns ps k (s\<lparr>mp_q := mp_q s, mp_nodes := ?nd, mp_pc := (mp_pc s)(t := ?x)\<rparr>)"
  proof (rule mp_inv_step [OF inv])
    show "mp_shape ns ps k (mp_q s) ?nd (view_set ticket ((mp_pc s)(t := ?x)))
        (view_set reading ((mp_pc s)(t := ?x))) (view_set fresh_node ((mp_pc s)(t := ?x)))
        (view_set linking ((mp_pc s)(t := ?x)))"
      using sh' pc unique_reading [OF mp_invD(3) [OF inv]]
      by (simp add: view_same view_del(1) [where c = c] c_def)
    show "ticket ?x = Some b \<Longrightarrow> u \<noteq> t \<Longrightarrow> ticket (mp_pc s u) \<noteq> Some b" for b u
      using unique_viewD [OF mp_invD(3) [OF inv], of t b u] pc by simp
    show "pc_ok ns ps k ?nd (mp_pc s u)" for u
    proof (rule pc_ok_write [OF inv, where a = x])
      show "fresh_node (mp_pc s u) \<noteq> Some x"
        using shape_node(3) [OF sh shape_reading(1) [OF sh cR]] ok(2) view_setI [of fresh_node "mp_pc s" u] by auto
    qed (use n in \<open>auto simp: node_data_def node_next_def\<close>)
  qed (use ok in \<open>simp_all add: c_def Let_def\<close>)
  thus ?thesis using clear by simp
qed

lemma mp_inv_free:
  assumes inv: "mp_inv ns ps k s" and pc: "mp_pc s t = Pop_free cmp d"
  shows "\<exists>nd. mp_node_free (mp_nodes s) (ap_object cmp) = Inr nd \<and>
    mp_inv ns ps k (s\<lparr>mp_nodes := nd, mp_pc := (mp_pc s)(t := Idle)\<rparr>)"
proof -
  note sh = mp_invD(1) [OF inv]
  define c where "c = unat (ap_counter cmp)"
  have tick: "ticket (mp_pc s t) = Some c" by (simp add: pc c_def)
  have cT: "c \<in> view_set ticket (mp_pc s)" by (rule view_setI [of ticket "mp_pc s" t, OF tick])
  have cR: "c \<notin> view_set reading (mp_pc s)"
  proof
    assume "c \<in> view_set reading (mp_pc s)"
    then obtain w where w: "reading (mp_pc s w) = Some c" by (auto simp: view_set_def)
    hence "w = t" using unique_viewD [OF mp_invD(3) [OF inv] tick, of w] reading_ticket by blast
    thus False using w pc by simp
  qed
  have ok: "ap_object cmp = ns ! c" "node_data (mp_nodes s) (ns ! c) = 0"
    using mp_invD(6) [OF inv, of t] pc by (simp_all add: c_def Let_def)
  note free = shape_free [OF sh cT cR ok(2)]
  have cA: "c \<in> mp_active k (length ps) (view_set ticket (mp_pc s))" by (rule mp_active_mem(2) [OF cT])
  have ck: "ns ! c \<noteq> ns ! k"
    using shape_inj [OF sh cA shape_tail [OF sh]] mp_shapeD(11) [OF sh] cT by auto
  let ?nd = "(mp_nodes s)(ns ! c := None)"
  have "mp_inv ns ps k (s\<lparr>mp_q := mp_q s, mp_nodes := ?nd, mp_pc := (mp_pc s)(t := Idle)\<rparr>)"
  proof (rule mp_inv_step [OF inv])
    show "mp_shape ns ps k (mp_q s) ?nd (view_set ticket ((mp_pc s)(t := Idle)))
        (view_set reading ((mp_pc s)(t := Idle))) (view_set fresh_node ((mp_pc s)(t := Idle)))
        (view_set linking ((mp_pc s)(t := Idle)))"
      using free(2) pc mp_invD(3) [OF inv] by (simp add: view_same view_del(1) [where c = c] c_def)
    show "pc_ok ns ps k ?nd (mp_pc s u)" if u: "u \<noteq> t" for u
    proof (rule pc_ok_write [OF inv, where a = "ns ! c"])
      show "fresh_node (mp_pc s u) \<noteq> Some (ns ! c)"
        using shape_node(3) [OF sh cA] view_setI [of fresh_node "mp_pc s" u] by auto
      fix b assume b: "b \<in> view_set ticket (mp_pc s) - view_set reading (mp_pc s)" "ticket (mp_pc s u) = Some b"
      hence "b \<noteq> c" using unique_viewD [OF mp_invD(3) [OF inv] tick u] by auto
      hence "ns ! c \<noteq> ns ! b" using shape_inj [OF sh cA mp_active_mem(2), of b] b(1) by auto
      thus "ns ! c \<noteq> ns ! b \<or> node_data ?nd (ns ! c) = node_data (mp_nodes s) (ns ! c) \<or> node_data ?nd (ns ! c) = 0"
        by simp
    qed (use ck in simp_all)
  qed simp_all
  thus ?thesis using free(1) ok(1) by simp
qed


section \<open>The queue implements its specification\<close>

definition fifo_abs :: "uint64_t list \<Rightarrow> nat \<Rightarrow> mpstate \<Rightarrow> fifo" where
  "fifo_abs ps k s = (drop k ps, \<lambda>t. map_option ((!) ps) (ticket (mp_pc s t)))"

definition step_good :: "uint64_t list \<Rightarrow> uint64_t list \<Rightarrow> nat \<Rightarrow> mpstate \<Rightarrow> mpevent \<times> mpstate \<Rightarrow> bool" where
  "step_good ns ps k s r \<longleftrightarrow> (case r of (e, s') \<Rightarrow>
     k + of_bool (is_take e) < 2 ^ 64 \<longrightarrow>
     (let ns' = ns @ map snd (ev_pushes e); ps' = ps @ map fst (ev_pushes e); k' = k + of_bool (is_take e)
      in mp_inv ns' ps' k' s' \<and> fifo_step e (fifo_abs ps k s) = Some (fifo_abs ps' k' s')))"

lemma ticket_pending: "(\<lambda>u. map_option f (ticket ((pc(t := x)) u))) = (\<lambda>u. map_option f (ticket (pc u)))(t := map_option f (ticket x))"
  by auto

lemma step_good_silent:
  assumes "mp_inv ns ps k s'" and "\<forall>u. ticket (mp_pc s' u) = ticket (mp_pc s u)"
    and "e \<in> {Ev_begin t, Ev_step t, Ev_linked t, Ev_empty t, Ev_spin t}"
  shows "step_good ns ps k s (e, s')"
  using assms by (auto simp: step_good_def fifo_abs_def)

lemma push_step_good:
  assumes inv: "mp_inv ns ps k s"
  shows "\<exists>r. ponyint_mpmcq_push t s = Inr r \<and> (\<forall>x. r = Some x \<longrightarrow> step_good ns ps k s x)"
proof (cases "mp_pc s t")
  case (Push_exchange d a)
  let ?s = "s\<lparr>mp_q := snd (mpmcq_push_exchange (mp_q s) a), mp_pc := (mp_pc s)(t := Push_link (mpq_head (mp_q s)) a)\<rparr>"
  have run: "ponyint_mpmcq_push t s = Inr (Some (Ev_push t d a, ?s))"
    using Push_exchange by (simp add: ponyint_mpmcq_push_def mpmcq_push_exchange_def)
  have less: "c < length ps" if "ticket (mp_pc s u) = Some c" for u c
    using mp_shapeD(2,11) [OF mp_invD(1) [OF inv]] view_setI [of ticket "mp_pc s" u, OF that] by auto
  have "map_option ((!) (ps @ [d])) (ticket (mp_pc ?s u)) = map_option ((!) ps) (ticket (mp_pc s u))" for u
    using Push_exchange less by (cases "ticket (mp_pc s u)") (auto simp: nth_append)
  hence "step_good ns ps k s (Ev_push t d a, ?s)"
    using mp_inv_push_exchange [OF inv Push_exchange] mp_shapeD(2) [OF mp_invD(1) [OF inv]]
    by (simp add: step_good_def fifo_abs_def)
  thus ?thesis using run by simp
next
  case (Push_link p a)
  obtain nd where nd: "mpmcq_push_link (mp_nodes s) p a = Inr nd"
    and inv': "mp_inv ns ps k (s\<lparr>mp_nodes := nd, mp_pc := (mp_pc s)(t := Idle)\<rparr>)"
    using mp_inv_push_link [OF inv Push_link] by auto
  have "step_good ns ps k s (Ev_linked t, s\<lparr>mp_nodes := nd, mp_pc := (mp_pc s)(t := Idle)\<rparr>)"
    by (rule step_good_silent [OF inv', where t = t]) (simp_all add: Push_link)
  thus ?thesis using nd Push_link by (simp add: ponyint_mpmcq_push_def)
qed (simp_all add: ponyint_mpmcq_push_def)

lemma pop_next_good:
  assumes inv: "mp_inv ns ps k s" and pc: "mp_pc s t = Pop_next cmp"
    and nxt: "mpmcq_pop_next (mp_nodes s) garbage (ap_object cmp) = x" "x \<noteq> 0"
  shows "mp_inv ns ps k (s\<lparr>mp_pc := (mp_pc s)(t := Pop_exchange cmp x)\<rparr>)"
proof (rule mp_inv_silent [OF inv])
  have "\<exists>n. mp_nodes s (ns ! k) = Some n"
    using shape_node(1) [OF mp_invD(1) [OF inv] shape_tail [OF mp_invD(1) [OF inv]]] by auto
  thus "pc_ok ns ps k (mp_nodes s) (Pop_exchange cmp x)"
    using mp_invD(6) [OF inv, of t] pc nxt by (auto simp: mpmcq_pop_next_def node_next_def)
qed (simp_all add: pc)

lemma reading_node:
  assumes inv: "mp_inv ns ps k s" and c: "reading (mp_pc s t) = Some c"
  shows "mpmcq_pop_data (mp_nodes s) (ns ! Suc c) = Inr (ps ! c)"
proof -
  note sh = mp_invD(1) [OF inv]
  have cR: "c \<in> view_set reading (mp_pc s)" by (rule view_setI [of reading "mp_pc s" t, OF c])
  show ?thesis using shape_node(1) [OF sh shape_reading(1) [OF sh cR]] shape_reading(3) [OF sh cR]
    by (auto simp: mpmcq_pop_data_def node_data_def)
qed

lemma waiting_node:
  assumes inv: "mp_inv ns ps k s" and c: "ticket (mp_pc s t) = Some c"
  shows "mpmcq_pop_data (mp_nodes s) (ns ! c) = Inr (node_data (mp_nodes s) (ns ! c))"
proof -
  note sh = mp_invD(1) [OF inv]
  have cT: "c \<in> view_set ticket (mp_pc s)" by (rule view_setI [of ticket "mp_pc s" t, OF c])
  show ?thesis using shape_node(1) [OF sh mp_active_mem(2) [OF cT]] by (auto simp: mpmcq_pop_data_def node_data_def)
qed

lemma pop_exchange_good:
  assumes inv: "mp_inv ns ps k s" and pc: "mp_pc s t = Pop_exchange cmp x"
  shows "\<exists>r. ponyint_mpmcq_pop t garbage s = Inr r \<and> (\<forall>x. r = Some x \<longrightarrow> step_good ns ps k s x)"
proof (cases "mpq_tail (mp_q s) = cmp")
  case True
  let ?s = "s\<lparr>mp_q := (mp_q s)\<lparr>mpq_tail := \<lparr>ap_object = x, ap_counter = ap_counter cmp + 1\<rparr>\<rparr>,
      mp_pc := (mp_pc s)(t := Pop_data cmp x)\<rparr>"
  have run: "ponyint_mpmcq_pop t garbage s = Inr (Some (Ev_take t, ?s))"
    using pc True by (simp add: ponyint_mpmcq_pop_def mpmcq_pop_exchange_def)
  have ck: "unat (ap_counter cmp) = k"
    using True mp_shapeD(3,6) [OF mp_invD(1) [OF inv]] by (auto simp: unat_of_nat_u64)
  have "step_good ns ps k s (Ev_take t, ?s)"
    using mp_inv_take [OF inv pc True] ck pc
    by (auto simp: step_good_def fifo_abs_def Cons_nth_drop_Suc [symmetric])
  thus ?thesis using run by simp
next
  case False
  have run: "ponyint_mpmcq_pop t garbage s =
      Inr (Some (Ev_step t, s\<lparr>mp_pc := (mp_pc s)(t := Pop_next (mpq_tail (mp_q s)))\<rparr>))"
    using pc False by (simp add: ponyint_mpmcq_pop_def mpmcq_pop_exchange_def)
  have "mp_inv ns ps k (s\<lparr>mp_pc := (mp_pc s)(t := Pop_next (mpq_tail (mp_q s)))\<rparr>)"
    using mp_shapeD(3,6) [OF mp_invD(1) [OF inv]] pc
    by (intro mp_inv_silent [OF inv]) (simp_all add: unat_of_nat_u64)
  hence "step_good ns ps k s (Ev_step t, s\<lparr>mp_pc := (mp_pc s)(t := Pop_next (mpq_tail (mp_q s)))\<rparr>)"
    by (rule step_good_silent [where t = t]) (simp_all add: pc)
  thus ?thesis using run by simp
qed

lemma pop_step_good:
  assumes inv: "mp_inv ns ps k s"
  shows "\<exists>r. ponyint_mpmcq_pop t garbage s = Inr r \<and> (\<forall>x. r = Some x \<longrightarrow> step_good ns ps k s x)"
proof (cases "mp_pc s t")
  case (Pop_counter object)
  let ?x = "Pop_next \<lparr>ap_object = object, ap_counter = ap_counter (mpq_tail (mp_q s))\<rparr>"
  have "mp_inv ns ps k (s\<lparr>mp_pc := (mp_pc s)(t := ?x)\<rparr>)"
    using mp_shapeD(3,6) [OF mp_invD(1) [OF inv]] Pop_counter
    by (intro mp_inv_silent [OF inv]) (simp_all add: unat_of_nat_u64)
  hence "step_good ns ps k s (Ev_step t, s\<lparr>mp_pc := (mp_pc s)(t := ?x)\<rparr>)"
    by (rule step_good_silent [where t = t]) (simp_all add: Pop_counter)
  thus ?thesis using Pop_counter by (simp add: ponyint_mpmcq_pop_def)
next
  case (Pop_next cmp)
  let ?x = "mpmcq_pop_next (mp_nodes s) garbage (ap_object cmp)"
  have "step_good ns ps k s (Ev_step t, s\<lparr>mp_pc := (mp_pc s)(t := Pop_exchange cmp ?x)\<rparr>)" if "?x \<noteq> 0"
    by (rule step_good_silent [OF pop_next_good [OF inv Pop_next refl that], where t = t]) (simp_all add: Pop_next)
  moreover have "step_good ns ps k s (Ev_empty t, s\<lparr>mp_pc := (mp_pc s)(t := Idle)\<rparr>)"
    by (rule step_good_silent [OF mp_inv_silent [OF inv], where t = t]) (simp_all add: Pop_next)
  ultimately show ?thesis using Pop_next by (simp add: ponyint_mpmcq_pop_def Let_def)
next
  case (Pop_exchange cmp x)
  thus ?thesis by (rule pop_exchange_good [OF inv])
next
  case (Pop_data cmp x)
  let ?c = "unat (ap_counter cmp)"
  have ok: "ap_object cmp = ns ! ?c" "x = ns ! Suc ?c" using mp_invD(6) [OF inv, of t] Pop_data by (simp_all add: Let_def)
  have rd: "mpmcq_pop_data (mp_nodes s) x = Inr (ps ! ?c)" using reading_node [OF inv, of t ?c] Pop_data ok by simp
  have "step_good ns ps k s (Ev_step t, s\<lparr>mp_pc := (mp_pc s)(t := Pop_clear cmp x (ps ! ?c))\<rparr>)"
    by (rule step_good_silent [OF mp_inv_silent [OF inv], where t = t]) (simp_all add: Pop_data ok)
  thus ?thesis using Pop_data rd by (simp add: ponyint_mpmcq_pop_def)
next
  case (Pop_clear cmp x d)
  obtain nd where nd: "mpmcq_pop_clear (mp_nodes s) x = Inr nd"
    and inv': "mp_inv ns ps k (s\<lparr>mp_nodes := nd, mp_pc := (mp_pc s)(t := Pop_wait cmp d)\<rparr>)"
    using mp_inv_clear [OF inv Pop_clear] by auto
  have "step_good ns ps k s (Ev_step t, s\<lparr>mp_nodes := nd, mp_pc := (mp_pc s)(t := Pop_wait cmp d)\<rparr>)"
    by (rule step_good_silent [OF inv', where t = t]) (simp_all add: Pop_clear)
  thus ?thesis using Pop_clear nd by (simp add: ponyint_mpmcq_pop_def)
next
  case (Pop_wait cmp d)
  let ?c = "unat (ap_counter cmp)"
  have ok: "ap_object cmp = ns ! ?c" "d = ps ! ?c" using mp_invD(6) [OF inv, of t] Pop_wait by (simp_all add: Let_def)
  have rd: "mpmcq_pop_data (mp_nodes s) (ap_object cmp) = Inr (node_data (mp_nodes s) (ns ! ?c))"
    using waiting_node [OF inv, of t ?c] Pop_wait ok by simp
  have "step_good ns ps k s (Ev_spin t, s)" by (rule step_good_silent [OF inv, where t = t]) simp_all
  moreover have "step_good ns ps k s (Ev_step t, s\<lparr>mp_pc := (mp_pc s)(t := Pop_free cmp d)\<rparr>)"
    if "node_data (mp_nodes s) (ns ! ?c) = 0"
    by (rule step_good_silent [OF mp_inv_silent [OF inv], where t = t]) (simp_all add: Pop_wait ok that Let_def)
  ultimately show ?thesis using Pop_wait rd by (simp add: ponyint_mpmcq_pop_def)
next
  case (Pop_free cmp d)
  let ?c = "unat (ap_counter cmp)"
  have ok: "d = ps ! ?c" using mp_invD(6) [OF inv, of t] Pop_free by (simp_all add: Let_def)
  obtain nd where nd: "mp_node_free (mp_nodes s) (ap_object cmp) = Inr nd"
    and inv': "mp_inv ns ps k (s\<lparr>mp_nodes := nd, mp_pc := (mp_pc s)(t := Idle)\<rparr>)"
    using mp_inv_free [OF inv Pop_free] by auto
  have "step_good ns ps k s (Ev_return t d, s\<lparr>mp_nodes := nd, mp_pc := (mp_pc s)(t := Idle)\<rparr>)"
    using inv' ok Pop_free by (auto simp: step_good_def fifo_abs_def)
  thus ?thesis using Pop_free nd by (simp add: ponyint_mpmcq_pop_def)
qed (simp_all add: ponyint_mpmcq_pop_def)

lemma mpmcq_step_good:
  assumes inv: "mp_inv ns ps k s" and act: "act_ok act"
  shows "\<exists>r. mpmcq_step t act s = Inr r \<and> (\<forall>x. r = Some x \<longrightarrow> step_good ns ps k s x)"
proof (cases act)
  case (Act_push d a)
  hence d: "d \<noteq> 0" using act by simp
  have "step_good ns ps k s (Ev_begin t, s\<lparr>mp_nodes := mp_node_alloc (mp_nodes s) a d,
      mp_pc := (mp_pc s)(t := Push_exchange d a)\<rparr>)"
    if "mp_pc s t = Idle" "a \<noteq> 0" "mp_nodes s a = None"
    by (rule step_good_silent [OF mp_inv_alloc [OF inv that d], where t = t]) (simp_all add: that)
  thus ?thesis using Act_push by simp
next
  case Act_pop
  have "step_good ns ps k s (Ev_begin t, s\<lparr>mp_pc := (mp_pc s)(t := Pop_counter (ap_object (mpq_tail (mp_q s))))\<rparr>)"
    if "mp_pc s t = Idle"
    by (rule step_good_silent [OF mp_inv_silent [OF inv], where t = t]) (simp_all add: that)
  thus ?thesis using Act_pop by simp
next
  case (Act_go garbage)
  thus ?thesis using push_step_good [OF inv, of t] pop_step_good [OF inv, of t garbage]
    by (cases "mp_pc s t") simp_all
qed

end
