(* ===== verification/Mpmcq_System.thy ===== *)
theory Mpmcq_System
  imports Mpmcq_Inv
begin

text \<open>
  What the runs of the scheduler queue have in common: they are runs of a FIFO queue, they touch no freed
  memory, and every operation ends.  Concrete runs show a pop that misses an element, and why \<^verbatim>\<open>NULL\<close> is
  never pushed.
\<close>

section \<open>Runs\<close>

lemma mp_inv_start: "stub \<noteq> 0 \<Longrightarrow> mp_inv [stub] [] 0 (mpmcq_start stub)"
  by (auto simp: mp_inv_def mp_shape_def mp_links_def mp_data_def mp_active_def mpmcq_start_def ponyint_mpmcq_init_def
      mp_node_alloc_def view_set_def unique_view_def node_next_def node_data_def)

lemma run_snoc:
  "run_data (es @ [e]) = run_data es @ map fst (ev_pushes e)"
  "run_nodes (es @ [e]) = run_nodes es @ map snd (ev_pushes e)"
  "run_takes (es @ [e]) = run_takes es + of_bool (is_take e)"
  by (simp_all add: run_data_def run_nodes_def run_takes_def)

lemma fifo_run_snoc: "fifo_run (es @ [e]) f = (case fifo_run es f of None \<Rightarrow> None | Some g \<Rightarrow> fifo_step e g)"
  by (induction es arbitrary: f) (auto split: option.splits)

lemma mpmcq_run_inv:
  assumes "mpmcq_run stub es s" and "run_takes es < 2 ^ 64"
  shows "mp_inv (stub # run_nodes es) (run_data es) (run_takes es) s \<and>
    fifo_run es fifo_empty = Some (fifo_abs (run_data es) (run_takes es) s)"
  using assms
proof (induction rule: mpmcq_run.induct)
  case mpmcq_begin
  thus ?case using mp_inv_start
    by (simp add: run_data_def run_nodes_def run_takes_def fifo_abs_def fifo_empty_def mpmcq_start_def ponyint_mpmcq_init_def)
next
  case (mpmcq_next es s act t e s')
  have inv: "mp_inv (stub # run_nodes es) (run_data es) (run_takes es) s"
    and fifo: "fifo_run es fifo_empty = Some (fifo_abs (run_data es) (run_takes es) s)"
    using mpmcq_next by (simp_all add: run_snoc)
  have "step_good (stub # run_nodes es) (run_data es) (run_takes es) s (e, s')"
    using mpmcq_step_good [OF inv mpmcq_next(2), of t] mpmcq_next(3) by auto
  thus ?case using mpmcq_next(5) fifo by (simp add: step_good_def run_snoc fifo_run_snoc Let_def)
qed

section \<open>Quiet queues\<close>

definition mp_quiet :: "mpstate \<Rightarrow> bool" where
  "mp_quiet s \<longleftrightarrow> (\<forall>t. mp_pc s t = Idle)"

lemma quiet_views: "mp_quiet s \<Longrightarrow> ticket (mp_pc s t) = None" "mp_quiet s \<Longrightarrow> view_set ticket (mp_pc s) = {}"
  "mp_quiet s \<Longrightarrow> view_set fresh_node (mp_pc s) = {}" "mp_quiet s \<Longrightarrow> view_set linking (mp_pc s) = {}"
  by (simp_all add: mp_quiet_def view_set_def)

lemma size_loop_links:
  assumes sh: "mp_shape ns ps k q nd T R F {}" and "k \<le> i" and "i \<le> length ps" and "length ps - i < fuel"
  shows "mpmcq_size_loop fuel nd (ns ! i) c = Inr (c + (length ps - i))"
  using assms(2-)
proof (induction fuel arbitrary: i c)
  case (Suc fuel)
  have "i \<in> mp_active k (length ps) T" using Suc.prems by (intro mp_active_mem) auto
  then obtain n where n: "nd (ns ! i) = Some n" using shape_node(1) [OF sh] by auto
  show ?case
  proof (cases "i = length ps")
    case True
    thus ?thesis using mp_shapeD(12) [OF sh] n by (simp add: mp_links_def node_next_def)
  next
    case False
    have "Suc i \<in> mp_active k (length ps) T" using Suc.prems False by (intro mp_active_mem) auto
    hence "ns ! Suc i \<noteq> 0" by (rule shape_node(2) [OF sh])
    moreover have "mn_next n = ns ! Suc i"
      using mp_shapeD(12) [OF sh] n Suc.prems False unfolding mp_links_def node_next_def
      by (metis empty_iff nat_less_le option.sel)
    ultimately show ?thesis using n Suc.IH [of "Suc i" "c + 1"] Suc.prems False by simp
  qed
qed simp

lemma quiet_size:
  assumes inv: "mp_inv ns ps k s" and quiet: "mp_quiet s"
  shows "mpmcq_size_debug (Suc (length ps - k)) (mp_q s) (mp_nodes s) = Inr (length ps - k)"
proof -
  have sh: "mp_shape ns ps k (mp_q s) (mp_nodes s) {} (view_set reading (mp_pc s)) {} {}"
    using mp_invD(1) [OF inv] by (simp only: quiet_views [OF quiet])
  show ?thesis using size_loop_links [OF sh, of k "Suc (length ps - k)" 0] mp_shapeD(2,6) [OF sh]
    by (simp add: mpmcq_size_debug_def)
qed

lemma quiet_nodes:
  assumes inv: "mp_inv ns ps k s" and quiet: "mp_quiet s"
  shows "card (dom (mp_nodes s)) = Suc (length ps - k)" and "finite (dom (mp_nodes s))"
    and "ap_object (mpq_tail (mp_q s)) \<in> dom (mp_nodes s)"
proof -
  note sh = mp_invD(1) [OF inv]
  have dom: "dom (mp_nodes s) = (!) ns ` {k..length ps}" and inj: "inj_on ((!) ns) {k..length ps}"
    using mp_shapeD(7,9) [OF sh] by (simp_all only: quiet_views [OF quiet] mp_active_def) simp_all
  show "card (dom (mp_nodes s)) = Suc (length ps - k)" and "finite (dom (mp_nodes s))"
    using mp_shapeD(2) [OF sh] by (simp_all add: dom card_image [OF inj] Suc_diff_le)
  show "ap_object (mpq_tail (mp_q s)) \<in> dom (mp_nodes s)"
    using mp_shapeD(2,6) [OF sh] by (auto simp: dom)
qed

lemma quiet_destroy:
  assumes inv: "mp_inv ns ps k s" and quiet: "mp_quiet s" and k: "k = length ps"
  shows "\<exists>q. ponyint_mpmcq_destroy (mp_q s) (mp_nodes s) = Inr (q, Map.empty)"
proof -
  obtain a where a: "dom (mp_nodes s) = {a}" using quiet_nodes(1) [OF inv quiet] k by (auto simp: card_1_singleton_iff)
  hence tl: "ap_object (mpq_tail (mp_q s)) = a" using quiet_nodes(3) [OF inv quiet] by auto
  obtain n where n: "mp_nodes s a = Some n" using a by blast
  have "(mp_nodes s)(a := None) = Map.empty" using a by (auto simp: fun_eq_iff dom_def)
  thus ?thesis using n tl by (simp add: ponyint_mpmcq_destroy_def mp_node_free_def Let_def)
qed


section \<open>Progress\<close>

text \<open>
  A thread that goes on without spinning.  Such steps bring every operation nearer to its end, except
  that the exchange of one pop makes those of the others fail once more.
\<close>

definition mp_advances :: "mpstate \<Rightarrow> mpevent \<Rightarrow> mpstate \<Rightarrow> bool" where
  "mp_advances s e s' \<longleftrightarrow> (\<exists>t garbage. mpmcq_step t (Act_go garbage) s = Inr (Some (e, s')) \<and> e \<noteq> Ev_spin t)"

inductive mp_advance :: "nat \<Rightarrow> mpstate \<Rightarrow> mpstate \<Rightarrow> bool" where
  advance_none: "mp_advance 0 s s"
| advance_step: "mp_advances s e s' \<Longrightarrow> mp_advance n s' s'' \<Longrightarrow> mp_advance (Suc n) s s''"

fun pc_rank :: "aba_protected \<Rightarrow> mpc \<Rightarrow> nat" where
  "pc_rank tail Idle = 0"
| "pc_rank tail (Push_exchange d n) = 2"
| "pc_rank tail (Push_link p n) = 1"
| "pc_rank tail (Pop_counter object) = 9"
| "pc_rank tail (Pop_next cmp) = (if cmp = tail then 6 else 8)"
| "pc_rank tail (Pop_exchange cmp x) = (if cmp = tail then 5 else 7)"
| "pc_rank tail (Pop_data cmp x) = 4"
| "pc_rank tail (Pop_clear cmp x d) = 3"
| "pc_rank tail (Pop_wait cmp d) = 2"
| "pc_rank tail (Pop_free cmp d) = 1"

fun before_take :: "mpc \<Rightarrow> bool" where
  "before_take (Pop_counter object) = True"
| "before_take (Pop_next cmp) = True"
| "before_take (Pop_exchange cmp x) = True"
| "before_take _ = False"

definition busy :: "mpstate \<Rightarrow> nat set" where
  "busy s = {t. mp_pc s t \<noteq> Idle}"

definition takers :: "mpstate \<Rightarrow> nat set" where
  "takers s = {t. before_take (mp_pc s t)}"

definition mp_work :: "mpstate \<Rightarrow> nat" where
  "mp_work s = (\<Sum>t \<in> busy s. pc_rank (mpq_tail (mp_q s)) (mp_pc s t)) + card (takers s) * card (takers s)"

lemma pc_rank_bound: "pc_rank tail p \<le> 9"
  by (cases p) auto

lemma takers_busy: "takers s \<subseteq> busy s"
  by (auto simp: takers_def busy_def)

lemma mp_work_bound:
  assumes "finite (busy s)"
  shows "mp_work s \<le> 9 * card (busy s) + card (busy s) * card (busy s)"
proof -
  have "(\<Sum>t \<in> busy s. pc_rank (mpq_tail (mp_q s)) (mp_pc s t)) \<le> (\<Sum>t \<in> busy s. 9)"
    by (rule sum_mono) (rule pc_rank_bound)
  moreover have "card (takers s) \<le> card (busy s)" by (rule card_mono [OF assms takers_busy])
  hence "card (takers s) * card (takers s) \<le> card (busy s) * card (busy s)" by (intro mult_le_mono)
  ultimately show ?thesis by (simp add: mp_work_def)
qed

text \<open>The work as a sum over any finite set of threads that contains the busy ones.\<close>

lemma work_on:
  assumes "finite B" and "busy s \<subseteq> B"
  shows "(\<Sum>t \<in> busy s. pc_rank (mpq_tail (mp_q s)) (mp_pc s t)) = (\<Sum>t \<in> B. pc_rank (mpq_tail (mp_q s)) (mp_pc s t))"
  using assms by (intro sum.mono_neutral_left) (auto simp: busy_def)

lemma mp_work_local:
  assumes fin: "finite (busy s)" and pc: "mp_pc s' = (mp_pc s)(t := x)" and tl: "mpq_tail (mp_q s') = mpq_tail (mp_q s)"
    and less: "pc_rank (mpq_tail (mp_q s)) x < pc_rank (mpq_tail (mp_q s)) (mp_pc s t)"
    and before: "before_take x \<longrightarrow> before_take (mp_pc s t)"
  shows "mp_work s' < mp_work s" and "takers s' \<subseteq> takers s"
proof -
  let ?B = "insert t (busy s)" and ?tl = "mpq_tail (mp_q s)"
  have sub: "busy s' \<subseteq> ?B" using pc by (auto simp: busy_def)
  show tak: "takers s' \<subseteq> takers s" using pc before by (auto simp: takers_def)
  have "(\<Sum>u \<in> ?B. pc_rank ?tl (mp_pc s' u)) < (\<Sum>u \<in> ?B. pc_rank ?tl (mp_pc s u))"
    using fin less pc by (intro sum_strict_mono_ex1) auto
  moreover have "card (takers s') \<le> card (takers s)"
    using tak finite_subset [OF takers_busy fin] by (rule card_mono [rotated])
  hence "card (takers s') * card (takers s') \<le> card (takers s) * card (takers s)" by (intro mult_le_mono)
  ultimately show "mp_work s' < mp_work s"
    using work_on [of ?B s] work_on [of ?B s'] fin sub tl by (simp add: mp_work_def subset_insertI)
qed

lemma mp_work_take:
  assumes fin: "finite (busy s)" and pc: "mp_pc s' = (mp_pc s)(t := Pop_data cmp x)"
    and old: "mp_pc s t = Pop_exchange cmp x" and tl: "mpq_tail (mp_q s) = cmp"
  shows "mp_work s' < mp_work s" and "takers s' = takers s - {t}" and "t \<in> takers s"
proof -
  let ?B = "busy s" and ?tl = "mpq_tail (mp_q s)" and ?tl' = "mpq_tail (mp_q s')"
  have tB: "t \<in> ?B" and sub: "busy s' = ?B" using pc old by (auto simp: busy_def)
  show tak: "takers s' = takers s - {t}" and tT: "t \<in> takers s" using pc old by (auto simp: takers_def)
  have finT: "finite (takers s)" by (rule finite_subset [OF takers_busy fin])
  have other: "pc_rank ?tl' (mp_pc s' u) \<le> pc_rank ?tl (mp_pc s u) + 2 * of_bool (u \<in> takers s')" if "u \<noteq> t" for u
    using that pc by (cases "mp_pc s u") (auto simp: takers_def)
  have "(\<Sum>u \<in> ?B - {t}. pc_rank ?tl' (mp_pc s' u))
      \<le> (\<Sum>u \<in> ?B - {t}. pc_rank ?tl (mp_pc s u) + 2 * of_bool (u \<in> takers s'))"
    by (rule sum_mono) (use other in auto)
  also have "\<dots> = (\<Sum>u \<in> ?B - {t}. pc_rank ?tl (mp_pc s u)) + 2 * card (takers s')"
  proof -
    have "(\<Sum>u \<in> ?B - {t}. of_bool (u \<in> takers s') :: nat) = card ((?B - {t}) \<inter> takers s')"
      using fin by (simp add: sum_of_bool_eq Int_def)
    moreover have "(?B - {t}) \<inter> takers s' = takers s'" using tak takers_busy [of s] by auto
    ultimately show ?thesis by (simp add: sum.distrib sum_distrib_left [symmetric])
  qed
  finally have rest: "(\<Sum>u \<in> ?B - {t}. pc_rank ?tl' (mp_pc s' u)) \<le> (\<Sum>u \<in> ?B - {t}. pc_rank ?tl (mp_pc s u)) + 2 * card (takers s')" .
  have split: "(\<Sum>u \<in> ?B. pc_rank ?tl (mp_pc s u)) = 5 + (\<Sum>u \<in> ?B - {t}. pc_rank ?tl (mp_pc s u))"
    "(\<Sum>u \<in> ?B. pc_rank ?tl' (mp_pc s' u)) = 4 + (\<Sum>u \<in> ?B - {t}. pc_rank ?tl' (mp_pc s' u))"
    using fin tB old tl pc by (simp_all add: sum.remove)
  have "card (takers s) = Suc (card (takers s'))" using tak tT finT by (metis card_Suc_Diff1)
  thus "mp_work s' < mp_work s" using rest split sub by (simp add: mp_work_def)
qed


lemma mpmcq_push_moves:
  assumes "ponyint_mpmcq_push t s = Inr (Some (e, s'))"
  shows "\<exists>x. mp_pc s' = (mp_pc s)(t := x) \<and> mpq_tail (mp_q s') = mpq_tail (mp_q s) \<and> \<not> is_take e \<and>
    pc_rank (mpq_tail (mp_q s)) x < pc_rank (mpq_tail (mp_q s)) (mp_pc s t) \<and> \<not> before_take x"
  using assms
  by (cases "mp_pc s t") (auto simp: ponyint_mpmcq_push_def mpmcq_push_exchange_def mpmcq_push_link_def split: option.splits)

lemma mpmcq_pop_moves:
  assumes step: "ponyint_mpmcq_pop t garbage s = Inr (Some (e, s'))" and spin: "e \<noteq> Ev_spin t"
  shows "(\<exists>x. mp_pc s' = (mp_pc s)(t := x) \<and> mpq_tail (mp_q s') = mpq_tail (mp_q s) \<and> \<not> is_take e \<and>
      pc_rank (mpq_tail (mp_q s)) x < pc_rank (mpq_tail (mp_q s)) (mp_pc s t) \<and>
      (before_take x \<longrightarrow> before_take (mp_pc s t))) \<or>
    (\<exists>cmp x. mp_pc s t = Pop_exchange cmp x \<and> mp_pc s' = (mp_pc s)(t := Pop_data cmp x) \<and> mpq_tail (mp_q s) = cmp)"
proof (cases "mp_pc s t")
  case (Pop_exchange cmp x)
  thus ?thesis using step
    by (cases "mpq_tail (mp_q s) = cmp") (auto simp: ponyint_mpmcq_pop_def mpmcq_pop_exchange_def)
next
  case (Pop_wait cmp d)
  thus ?thesis using step spin
    by (auto simp: ponyint_mpmcq_pop_def mpmcq_pop_data_def split: option.splits if_splits)
qed (use step in \<open>auto simp: ponyint_mpmcq_pop_def mpmcq_pop_data_def mpmcq_pop_clear_def mp_node_free_def Let_def
    split: option.splits if_splits\<close>)

lemma mp_advances_good:
  assumes inv: "mp_inv ns ps k s" and k: "k + card (takers s) < 2 ^ 64" and adv: "mp_advances s e s'"
  shows "mp_work s' < mp_work s" and "\<exists>ns' ps' k'. mp_inv ns' ps' k' s' \<and> k' + card (takers s') < 2 ^ 64"
proof -
  obtain t garbage where step: "mpmcq_step t (Act_go garbage) s = Inr (Some (e, s'))" and spin: "e \<noteq> Ev_spin t"
    using adv by (auto simp: mp_advances_def)
  have fin: "finite (busy s)" using mp_invD(2) [OF inv] by (simp add: busy_def)
  have finT: "finite (takers s)" by (rule finite_subset [OF takers_busy fin])
  have moves: "(\<exists>x. mp_pc s' = (mp_pc s)(t := x) \<and> mpq_tail (mp_q s') = mpq_tail (mp_q s) \<and> \<not> is_take e \<and>
      pc_rank (mpq_tail (mp_q s)) x < pc_rank (mpq_tail (mp_q s)) (mp_pc s t) \<and>
      (before_take x \<longrightarrow> before_take (mp_pc s t))) \<or>
    (\<exists>cmp x. mp_pc s t = Pop_exchange cmp x \<and> mp_pc s' = (mp_pc s)(t := Pop_data cmp x) \<and> mpq_tail (mp_q s) = cmp)"
    using step spin mpmcq_push_moves [of t s e s'] mpmcq_pop_moves [of t garbage s e s']
    by (cases "mp_pc s t") auto
  have good: "step_good ns ps k s (e, s')" using mpmcq_step_good [OF inv, of "Act_go garbage" t] step by auto
  show "mp_work s' < mp_work s"
    using moves mp_work_local(1) [OF fin] mp_work_take(1) [OF fin] by blast
  have less: "k + of_bool (is_take e) + card (takers s') \<le> k + card (takers s)"
    using moves
  proof
    assume "\<exists>x. mp_pc s' = (mp_pc s)(t := x) \<and> mpq_tail (mp_q s') = mpq_tail (mp_q s) \<and> \<not> is_take e \<and>
      pc_rank (mpq_tail (mp_q s)) x < pc_rank (mpq_tail (mp_q s)) (mp_pc s t) \<and> (before_take x \<longrightarrow> before_take (mp_pc s t))"
    thus ?thesis using mp_work_local(2) [OF fin] card_mono [OF finT] by fastforce
  next
    assume "\<exists>cmp x. mp_pc s t = Pop_exchange cmp x \<and> mp_pc s' = (mp_pc s)(t := Pop_data cmp x) \<and> mpq_tail (mp_q s) = cmp"
    hence "takers s' = takers s - {t}" and "t \<in> takers s" using mp_work_take(2,3) [OF fin] by blast+
    hence "card (takers s) = Suc (card (takers s'))" using finT by (metis card_Suc_Diff1)
    thus ?thesis by simp
  qed
  hence "mp_inv (ns @ map snd (ev_pushes e)) (ps @ map fst (ev_pushes e)) (k + of_bool (is_take e)) s'"
    using good k by (simp add: step_good_def Let_def)
  thus "\<exists>ns' ps' k'. mp_inv ns' ps' k' s' \<and> k' + card (takers s') < 2 ^ 64"
    using order.strict_trans1 [OF less k] by blast
qed

lemma reader_advances:
  assumes inv: "mp_inv ns ps k s" and c: "reading (mp_pc s t) = Some c"
  shows "\<exists>e s'. mp_advances s e s'"
proof -
  obtain r where r: "mpmcq_step t (Act_go 0) s = Inr r" using mpmcq_step_good [OF inv, of "Act_go 0" t] by auto
  have "\<exists>e s'. r = Some (e, s') \<and> e \<noteq> Ev_spin t"
    using r c by (cases "mp_pc s t")
      (auto simp: ponyint_mpmcq_pop_def mpmcq_pop_data_def mpmcq_pop_clear_def split: option.splits)
  thus ?thesis using r by (auto simp: mp_advances_def)
qed

lemma busy_advances:
  assumes inv: "mp_inv ns ps k s" and t: "mp_pc s t \<noteq> Idle"
  shows "\<exists>e s'. mp_advances s e s'"
proof (cases "\<exists>e s'. mpmcq_step t (Act_go 0) s = Inr (Some (e, s')) \<and> e \<noteq> Ev_spin t")
  case True
  thus ?thesis by (auto simp: mp_advances_def)
next
  case False
  obtain r where r: "mpmcq_step t (Act_go 0) s = Inr r" using mpmcq_step_good [OF inv, of "Act_go 0" t] by auto
  have "\<exists>cmp d. mp_pc s t = Pop_wait cmp d \<and> mpmcq_pop_data (mp_nodes s) (ap_object cmp) \<noteq> Inr 0"
    using False r t
    by (cases "mp_pc s t") (auto simp: ponyint_mpmcq_pop_def ponyint_mpmcq_push_def mpmcq_push_exchange_def
      mpmcq_push_link_def mpmcq_pop_exchange_def mpmcq_pop_data_def mpmcq_pop_clear_def mp_node_free_def Let_def
      split: option.splits if_splits)
  then obtain cmp d where pc: "mp_pc s t = Pop_wait cmp d"
    and spin: "mpmcq_pop_data (mp_nodes s) (ap_object cmp) \<noteq> Inr 0" by blast
  define c where "c = unat (ap_counter cmp)"
  have tick: "ticket (mp_pc s t) = Some c" by (simp add: pc c_def)
  have ob: "ap_object cmp = ns ! c" using mp_invD(6) [OF inv, of t] pc by (simp add: c_def Let_def)
  note sh = mp_invD(1) [OF inv]
  have cT: "c \<in> view_set ticket (mp_pc s)" by (rule view_setI [of ticket "mp_pc s" t, OF tick])
  have "node_data (mp_nodes s) (ns ! c) \<noteq> 0" using spin waiting_node [OF inv tick] ob by simp
  moreover have "c \<in> mp_active k (length ps) (view_set ticket (mp_pc s))" "c \<le> k"
    using mp_active_mem(2) [OF cT] mp_shapeD(11) [OF sh] cT by auto
  ultimately obtain b where "b \<in> view_set reading (mp_pc s)" using mp_shapeD(13) [OF sh] by (auto simp: mp_data_def)
  then obtain u where "reading (mp_pc s u) = Some b" by (auto simp: view_set_def)
  thus ?thesis by (rule reader_advances [OF inv])
qed

lemma mp_advance_good:
  assumes "mp_advance n s s'" and "mp_inv ns ps k s" and "k + card (takers s) < 2 ^ 64"
  shows "n + mp_work s' \<le> mp_work s \<and> (\<exists>ns ps k. mp_inv ns ps k s' \<and> k + card (takers s') < 2 ^ 64)"
  using assms
proof (induction arbitrary: ns ps k rule: mp_advance.induct)
  case (advance_step s e s' n s'')
  obtain ns' ps' k' where "mp_inv ns' ps' k' s'" "k' + card (takers s') < 2 ^ 64"
    using mp_advances_good(2) [OF advance_step(4,5,1)] by blast
  hence "n + mp_work s'' \<le> mp_work s'" and "\<exists>ns ps k. mp_inv ns ps k s'' \<and> k + card (takers s'') < 2 ^ 64"
    using advance_step.IH by blast+
  thus ?case using mp_advances_good(1) [OF advance_step(4,5,1)] by simp
qed auto

lemma mp_finishes:
  assumes "mp_inv ns ps k s" and "k + card (takers s) < 2 ^ 64"
  shows "\<exists>n s'. mp_advance n s s' \<and> mp_quiet s'"
  using assms
proof (induction "mp_work s" arbitrary: s ns ps k rule: less_induct)
  case less
  show ?case
  proof (cases "mp_quiet s")
    case True
    thus ?thesis using advance_none by blast
  next
    case False
    then obtain t where "mp_pc s t \<noteq> Idle" by (auto simp: mp_quiet_def)
    then obtain e s' where adv: "mp_advances s e s'" using busy_advances [OF less.prems(1)] by blast
    then obtain n s'' where "mp_advance n s' s''" "mp_quiet s''"
      using mp_advances_good [OF less.prems adv] less.hyps by blast
    thus ?thesis using advance_step [OF adv] by blast
  qed
qed

section \<open>Properties\<close>

text \<open>
  C20: The queue is a linearizable FIFO queue.  In every interleaving of any number of pushing and popping
  threads, with addresses reused as the allocator likes, the events of a run (with fewer than \<open>2^64\<close> pops,
  the range of the counter) are those of a sequential queue: a push takes effect at its exchange of the
  head, a successful pop at its compare and exchange of the tail, and it returns exactly the element that
  was first then; so no element is lost, duplicated or reordered.  When no thread is inside an operation
  \<open>mpmcq_size_debug\<close> counts the elements of that queue, and if there are none \<open>ponyint_mpmcq_destroy\<close>
  frees the last node in memory.
\<close>

theorem mpmcq_linearizable:
  assumes "mpmcq_run stub es s" and "run_takes es < 2 ^ 64"
  shows "\<exists>contents pending. fifo_run es fifo_empty = Some (contents, pending) \<and>
    (mp_quiet s \<longrightarrow> pending = Map.empty \<and>
       mpmcq_size_debug (Suc (length contents)) (mp_q s) (mp_nodes s) = Inr (length contents)) \<and>
    (mp_quiet s \<and> contents = [] \<longrightarrow>
       (\<exists>q. ponyint_mpmcq_destroy (mp_q s) (mp_nodes s) = Inr (q, Map.empty)))"
proof -
  have inv: "mp_inv (stub # run_nodes es) (run_data es) (run_takes es) s"
    and fifo: "fifo_run es fifo_empty = Some (fifo_abs (run_data es) (run_takes es) s)"
    using mpmcq_run_inv [OF assms] by simp_all
  show ?thesis using fifo quiet_size [OF inv] quiet_destroy [OF inv]
    by (auto simp: fifo_abs_def quiet_views mp_shapeD(2) [OF mp_invD(1) [OF inv]] le_antisym
      intro!: exI [of _ "drop (run_takes es) (run_data es)"])
qed

text \<open>
  C21: No thread touches memory it does not own.  In every run no step writes to, reads the data of, or
  frees a node that is freed: the consumer that frees the old tail waits until the consumer before it has
  read its element, and the counter makes the exchange fail for a consumer whose tail was freed and used
  again in the meantime.  (The load of \<open>tail->next\<close> alone may be stale.)
\<close>

theorem mpmcq_memory_safe:
  assumes "mpmcq_run stub es s" and "run_takes es < 2 ^ 64" and "act_ok act"
  shows "mpmcq_step t act s \<noteq> Inl f"
  using mpmcq_step_good [OF conjunct1 [OF mpmcq_run_inv [OF assms(1,2)]] assms(3), of t] by auto

text \<open>
  C22: No operation is blocked for ever.  While any thread is inside an operation some thread can make a
  step other than one more turn of the waiting loop, and with \<open>b\<close> threads inside operations at most
  \<open>b^2 + 9 b\<close> such steps are left, in whatever order they are made; so the threads that are running bring
  all operations to their end, and nobody waits for a thread that cannot go on.
\<close>

theorem mpmcq_progress:
  assumes "mpmcq_run stub es s" and "run_takes es + card (busy s) < 2 ^ 64"
  shows "finite (busy s) \<and> (\<exists>n s'. mp_advance n s s' \<and> mp_quiet s') \<and>
    (\<forall>n s'. mp_advance n s s' \<longrightarrow> n \<le> card (busy s) * card (busy s) + 9 * card (busy s) \<and>
       (mp_quiet s' \<or> (\<exists>e s''. mp_advances s' e s'')))"
proof -
  have inv: "mp_inv (stub # run_nodes es) (run_data es) (run_takes es) s"
    using mpmcq_run_inv [OF assms(1)] assms(2) by simp
  have fin: "finite (busy s)" using mp_invD(2) [OF inv] by (simp add: busy_def)
  have k: "run_takes es + card (takers s) < 2 ^ 64" using assms(2) card_mono [OF fin takers_busy] by simp
  have "n \<le> card (busy s) * card (busy s) + 9 * card (busy s) \<and> (mp_quiet s' \<or> (\<exists>e s''. mp_advances s' e s''))"
    if "mp_advance n s s'" for n s'
    using mp_advance_good [OF that inv k] mp_work_bound [OF fin] busy_advances by (fastforce simp: mp_quiet_def)
  thus ?thesis using fin mp_finishes [OF inv k] by blast
qed

section \<open>Concrete runs\<close>

fun mp_exec :: "(nat \<times> mpact) list \<Rightarrow> mpevent list \<times> mpstate \<Rightarrow> (mpevent list \<times> mpstate) option" where
  "mp_exec [] r = Some r"
| "mp_exec ((t, act) # acts) (es, s) =
     (case mpmcq_step t act s of Inr (Some (e, s')) \<Rightarrow> mp_exec acts (es @ [e], s') | _ \<Rightarrow> None)"

lemma mp_exec_run:
  "mpmcq_run stub es s \<Longrightarrow> list_all (act_ok \<circ> snd) acts \<Longrightarrow> mp_exec acts (es, s) = Some (es', s') \<Longrightarrow> mpmcq_run stub es' s'"
proof (induction acts arbitrary: es s)
  case (Cons a acts)
  obtain t act where a: "a = (t, act)" by (cases a)
  then obtain e s1 where st: "mpmcq_step t act s = Inr (Some (e, s1))" and rest: "mp_exec acts (es @ [e], s1) = Some (es', s')"
    using Cons.prems(3) by (auto split: sum.splits option.splits)
  show ?case using Cons.IH [OF mpmcq_next [OF Cons.prems(1) _ st] _ rest] Cons.prems(2) a by simp
qed simp

definition mp_push_acts :: "nat \<Rightarrow> uint64_t \<Rightarrow> uint64_t \<Rightarrow> (nat \<times> mpact) list" where
  "mp_push_acts t d node = [(t, Act_push d node), (t, Act_go 0), (t, Act_go 0)]"

definition mp_pop_acts :: "nat \<Rightarrow> (nat \<times> mpact) list" where
  "mp_pop_acts t = (t, Act_pop) # replicate 7 (t, Act_go 0)"

text \<open>
  Thread 1 pushes 10 and 20; thread 0 begins a pop and loads the tail; thread 1 pops 10, which frees the
  first stub, and pushes 30 in a node at the same address; thread 0 goes on.
\<close>

definition mp_demo_before :: "(nat \<times> mpact) list" where
  "mp_demo_before = mp_push_acts 1 10 2 @ mp_push_acts 1 20 3"

definition mp_demo_acts :: "(nat \<times> mpact) list" where
  "mp_demo_acts = mp_demo_before @ [(0, Act_pop)] @ mp_pop_acts 1 @ mp_push_acts 1 30 1"

definition mp_demo_pop :: "mpevent list" where
  "mp_demo_pop = [Ev_begin 1, Ev_step 1, Ev_step 1, Ev_take 1, Ev_step 1, Ev_step 1, Ev_step 1, Ev_return 1 10,
     Ev_begin 1, Ev_push 1 30 1, Ev_linked 1]"

definition mp_demo_pushes :: "mpevent list" where
  "mp_demo_pushes = [Ev_begin 1, Ev_push 1 10 2, Ev_linked 1, Ev_begin 1, Ev_push 1 20 3, Ev_linked 1]"

lemma mp_demo_exec:
  "map_option fst (mp_exec mp_demo_acts ([], mpmcq_start 1)) = Some (mp_demo_pushes @ [Ev_begin 0] @ mp_demo_pop)"
  by code_simp

lemma mp_demo_empty_exec:
  "map_option fst (mp_exec (mp_demo_acts @ [(0, Act_go 0), (0, Act_go 0)]) ([], mpmcq_start 1)) =
     Some (mp_demo_pushes @ [Ev_begin 0] @ (mp_demo_pop @ [Ev_step 0]) @ [Ev_empty 0])"
  by code_simp

lemma mp_demo_runs:
  "\<exists>s. mpmcq_run 1 (mp_demo_pushes @ [Ev_begin 0] @ mp_demo_pop) s"
  "\<exists>s. mpmcq_run 1 (mp_demo_pushes @ [Ev_begin 0] @ (mp_demo_pop @ [Ev_step 0]) @ [Ev_empty 0]) s"
proof -
  have start: "mpmcq_run 1 [] (mpmcq_start 1)" by (rule mpmcq_begin) simp
  have ok: "list_all (act_ok \<circ> snd) mp_demo_acts"
    by code_simp
  show "\<exists>s. mpmcq_run 1 (mp_demo_pushes @ [Ev_begin 0] @ mp_demo_pop) s"
    using mp_demo_exec mp_exec_run [OF start ok] by auto
  have "list_all (act_ok \<circ> snd) (mp_demo_acts @ [(0, Act_go 0), (0, Act_go 0)])" using ok by simp
  thus "\<exists>s. mpmcq_run 1 (mp_demo_pushes @ [Ev_begin 0] @ (mp_demo_pop @ [Ev_step 0]) @ [Ev_empty 0]) s"
    using mp_demo_empty_exec mp_exec_run [OF start] by fastforce
qed

lemma mp_demo_takes: "run_takes (mp_demo_pushes @ [Ev_begin 0] @ mp_demo_pop) < 2 ^ 64"
  by (simp add: run_takes_def mp_demo_pushes_def mp_demo_pop_def)

definition mp_demo_popping :: mpstate where
  "mp_demo_popping = (mpmcq_start 1)\<lparr>mp_pc := (\<lambda>_. Idle)(0 := Pop_counter 1)\<rparr>"

lemma mp_demo_popping_run: "mpmcq_run 1 ([] @ [Ev_begin 0]) mp_demo_popping" and mp_demo_busy: "busy mp_demo_popping = {0}"
proof -
  have "mpmcq_step 0 Act_pop (mpmcq_start 1) = Inr (Some (Ev_begin 0, mp_demo_popping))"
    by (simp add: mp_demo_popping_def mpmcq_start_def ponyint_mpmcq_init_def)
  thus "mpmcq_run 1 ([] @ [Ev_begin 0]) mp_demo_popping"
    by (intro mpmcq_next [where act = Act_pop and t = 0 and s = "mpmcq_start 1"] mpmcq_begin) simp_all
  show "busy mp_demo_popping = {0}" by (auto simp: busy_def mp_demo_popping_def)
qed

theorem mpmcq_linearizable_witness:
  "\<exists>s contents pending. mpmcq_run 1 (mp_demo_pushes @ [Ev_begin 0] @ mp_demo_pop) s \<and>
     fifo_run (mp_demo_pushes @ [Ev_begin 0] @ mp_demo_pop) fifo_empty = Some (contents, pending)"
proof -
  obtain s where s: "mpmcq_run 1 (mp_demo_pushes @ [Ev_begin 0] @ mp_demo_pop) s" using mp_demo_runs(1) by blast
  show ?thesis using mpmcq_linearizable [OF s mp_demo_takes] s by blast
qed

theorem mpmcq_memory_safe_witness:
  "\<exists>s. mpmcq_run 1 (mp_demo_pushes @ [Ev_begin 0] @ mp_demo_pop) s \<and> mpmcq_step 0 (Act_go 7) s \<noteq> Inl Bad_access"
proof -
  obtain s where s: "mpmcq_run 1 (mp_demo_pushes @ [Ev_begin 0] @ mp_demo_pop) s" using mp_demo_runs(1) by blast
  have "mpmcq_step 0 (Act_go 7) s \<noteq> Inl Bad_access" by (rule mpmcq_memory_safe [OF s mp_demo_takes]) simp
  thus ?thesis using s by blast
qed

theorem mpmcq_progress_witness:
  "\<exists>n s'. mp_advance n mp_demo_popping s' \<and> mp_quiet s'"
  using mpmcq_progress [OF mp_demo_popping_run] by (simp add: mp_demo_busy run_takes_def)

text \<open>Whether the specified queue holds an element at every point of a piece of a run.\<close>

fun never_empty :: "mpevent list \<Rightarrow> fifo \<Rightarrow> bool" where
  "never_empty [] f \<longleftrightarrow> fst f \<noteq> []"
| "never_empty (e # es) f \<longleftrightarrow> fst f \<noteq> [] \<and> (case fifo_step e f of None \<Rightarrow> False | Some f' \<Rightarrow> never_empty es f')"

text \<open>
  C23: A pop can answer \<^verbatim>\<open>NULL\<close> although the queue holds an element all the time.  The first load of the
  tail is not atomic and the code relies on a stale one costing only another turn of the exchange loop,
  but when the stale node was freed and pushed again as the newest one its \<open>next\<close> is \<^verbatim>\<open>NULL\<close>, and the
  pop returns before any exchange.  In the run here thread 0 begins a pop, thread 1 pops one of the two
  elements and pushes another in the same node, and thread 0 reports an empty queue.
\<close>

theorem mpmcq_pop_spurious_empty:
  "\<exists>before during s contents pending.
     mpmcq_run 1 (before @ [Ev_begin 0] @ during @ [Ev_empty 0]) s \<and> Ev_begin 0 \<notin> set during \<and>
     fifo_run before fifo_empty = Some (contents, pending) \<and> never_empty during (contents, pending)"
proof -
  obtain s where s: "mpmcq_run 1 (mp_demo_pushes @ [Ev_begin 0] @ (mp_demo_pop @ [Ev_step 0]) @ [Ev_empty 0]) s"
    using mp_demo_runs(2) by blast
  have "fifo_run mp_demo_pushes fifo_empty = Some ([10, 20], Map.empty)"
    by (simp add: mp_demo_pushes_def fifo_empty_def)
  moreover have "never_empty (mp_demo_pop @ [Ev_step 0]) ([10, 20], Map.empty)" by (simp add: mp_demo_pop_def)
  moreover have "Ev_begin 0 \<notin> set (mp_demo_pop @ [Ev_step 0])" by (simp add: mp_demo_pop_def)
  ultimately show ?thesis using s by blast
qed

text \<open>
  Why the callers must not push \<^verbatim>\<open>NULL\<close>: a node whose data is \<^verbatim>\<open>NULL\<close> looks as if its reader were done,
  so that a second consumer frees it before the first has read it.
\<close>

definition mp_null_acts :: "(nat \<times> mpact) list" where
  "mp_null_acts = mp_push_acts 1 0 2 @ mp_push_acts 1 20 3 @ [(0, Act_pop), (0, Act_go 0), (0, Act_go 0), (0, Act_go 0)] @
     mp_pop_acts 1"

lemma mpmcq_null_push_faults:
  "map_option (\<lambda>r. mpmcq_pop_data (mp_nodes (snd r)) 2) (mp_exec mp_null_acts ([], mpmcq_start 1)) = Some (Inl Bad_access)"
  "map_option (\<lambda>r. mp_pc (snd r) 0) (mp_exec mp_null_acts ([], mpmcq_start 1)) =
     Some (Pop_data \<lparr>ap_object = 1, ap_counter = 0\<rparr> 2)"
  by code_simp+

end
