(* ===== verification/Backpressure.thy ===== *)
theory Backpressure
  imports Gcmaps
begin

unbundle bit_operations_syntax

text \<open>
  Backpressure.  An actor that sends to an actor that is overloaded, under pressure or muted is put in the
  mute map of its scheduler (\<^verbatim>\<open>src/libponyrt/sched/mutemap.c\<close>, \<^verbatim>\<open>scheduler.c\<close>), is flagged muted when its
  behaviour ends, and is not scheduled again until all the receivers it waits for are relieved.  A relieved
  actor tells every active scheduler, which takes its senders out of its mute map
  (\<^verbatim>\<open>src/libponyrt/actor/actor.c\<close>).

  The model has any number of actors and scheduler threads, the thread of the pinned actors among them.  A
  command is a piece of the code between two accesses to what other threads can see: the flags of an actor and
  the message queues of the schedulers.  Accesses are sequentially consistent, and which schedulers are active
  is read at one moment.  What actors do is arbitrary: when they send, to whom, when their batch ends, when
  their queue is found empty.  The polling of an actor from C code, the destruction of actors and builds for
  systematic testing are not part of the model: actors are never polled, which the code does not rule out for
  muted ones.
\<close>

section \<open>Flags of an actor\<close>

record pony_actor_t =
  pa_sync_flags :: uint8_t
  pa_muted :: uint64_t

definition ACTOR_SYNC_FLAG_PENDINGDESTROY :: uint8_t where "ACTOR_SYNC_FLAG_PENDINGDESTROY = 1"
definition ACTOR_SYNC_FLAG_OVERLOADED :: uint8_t where "ACTOR_SYNC_FLAG_OVERLOADED = 2"
definition ACTOR_SYNC_FLAG_UNDER_PRESSURE :: uint8_t where "ACTOR_SYNC_FLAG_UNDER_PRESSURE = 4"
definition ACTOR_SYNC_FLAG_MUTED :: uint8_t where "ACTOR_SYNC_FLAG_MUTED = 8"

definition has_sync_flag_any :: "pony_actor_t \<Rightarrow> uint8_t \<Rightarrow> bool" where
  "has_sync_flag_any actor check_flags \<longleftrightarrow> pa_sync_flags actor AND check_flags \<noteq> 0"

definition has_sync_flag :: "pony_actor_t \<Rightarrow> uint8_t \<Rightarrow> bool" where
  "has_sync_flag actor flag = has_sync_flag_any actor flag"

definition set_sync_flag :: "pony_actor_t \<Rightarrow> uint8_t \<Rightarrow> pony_actor_t" where
  "set_sync_flag actor flag = actor\<lparr>pa_sync_flags := pa_sync_flags actor OR flag\<rparr>"

definition unset_sync_flag :: "pony_actor_t \<Rightarrow> uint8_t \<Rightarrow> pony_actor_t" where
  "unset_sync_flag actor flag = actor\<lparr>pa_sync_flags := pa_sync_flags actor AND NOT flag\<rparr>"

definition mute_actor :: "pony_actor_t \<Rightarrow> pony_actor_t" where
  "mute_actor actor = set_sync_flag actor ACTOR_SYNC_FLAG_MUTED"

definition ponyint_unmute_actor :: "pony_actor_t \<Rightarrow> pony_actor_t" where
  "ponyint_unmute_actor actor = unset_sync_flag actor ACTOR_SYNC_FLAG_MUTED"

definition triggers_muting :: "pony_actor_t \<Rightarrow> bool" where
  "triggers_muting actor \<longleftrightarrow> has_sync_flag_any actor
     (ACTOR_SYNC_FLAG_OVERLOADED OR ACTOR_SYNC_FLAG_UNDER_PRESSURE OR ACTOR_SYNC_FLAG_MUTED)"

text \<open>\<open>is_cycle\<close> says whether the actor is the cycle detector.\<close>

definition actor_setoverloaded :: "bool \<Rightarrow> pony_actor_t \<Rightarrow> pony_actor_t res" where
  "actor_setoverloaded is_cycle actor = pony_assert (\<not> is_cycle) (Inr (set_sync_flag actor ACTOR_SYNC_FLAG_OVERLOADED))"

section \<open>The mute map\<close>

text \<open>
  A mute map leads from a receiver to the set of senders that wait for it.  Both are hash tables, here the
  lists of their elements, as for the maps of the collector.
\<close>

record 'm muteref_t =
  mr_key :: uint64_t
  mr_value :: 'm

type_synonym muteset = "uint64_t list"
type_synonym mutemap = "muteset muteref_t list"

definition muteset_hash :: "uint64_t \<Rightarrow> uint64_t" where
  "muteset_hash actor = ponyint_hash_ptr actor"

definition muteset_cmp :: "uint64_t \<Rightarrow> uint64_t \<Rightarrow> bool" where
  "muteset_cmp a b \<longleftrightarrow> a = b"

definition muteref_hash :: "'m muteref_t \<Rightarrow> uint64_t" where
  "muteref_hash mref = ponyint_hash_ptr (mr_key mref)"

definition muteref_cmp :: "'m muteref_t \<Rightarrow> 'm muteref_t \<Rightarrow> bool" where
  "muteref_cmp a b \<longleftrightarrow> mr_key a = mr_key b"

text \<open>A new reference is all zero but for its key; \<open>zero_set\<close> is the table that is all zero.\<close>

definition ponyint_muteref_alloc :: "'m \<Rightarrow> uint64_t \<Rightarrow> 'm muteref_t" where
  "ponyint_muteref_alloc zero_set key = \<lparr>mr_key = key, mr_value = zero_set\<rparr>"

interpretation mutesets: hash_keyed "\<lambda>a. a" muteset_cmp muteset_hash
  by unfold_locales (simp_all add: muteset_cmp_def)

interpretation mutemaps: hash_keyed mr_key muteref_cmp muteref_hash
  by unfold_locales (simp_all add: muteref_cmp_def muteref_hash_def)

type_synonym actors = "uint64_t \<Rightarrow> pony_actor_t"

definition ponyint_sched_mute :: "mutemap \<Rightarrow> actors \<Rightarrow> uint64_t \<Rightarrow> uint64_t \<Rightarrow> (mutemap \<times> actors) res" where
  "ponyint_sched_mute m acts sender recv =
     pony_assert (sender \<noteq> recv)
       (let m = elems_getorput mr_key m (ponyint_muteref_alloc [] recv)
        in case elems_get mr_key m recv of
             None \<Rightarrow> Inl Null_deref
           | Some mref \<Rightarrow>
               (case elems_get (\<lambda>a. a) (mr_value mref) sender of
                  Some r \<Rightarrow> Inr (m, acts)
                | None \<Rightarrow> Inr (elems_modify mr_key m recv (\<lambda>mref. mref\<lparr>mr_value := mr_value mref @ [sender]\<rparr>),
                             acts(sender := (acts sender)\<lparr>pa_muted := pa_muted (acts sender) + 1\<rparr>))))"

text \<open>The first loop of \<open>ponyint_sched_unmute_senders\<close>, which stacks the actors to be rescheduled.\<close>

fun unmute_loop :: "muteset \<Rightarrow> actors \<Rightarrow> uint64_t list \<Rightarrow> (actors \<times> uint64_t list) res" where
  "unmute_loop [] acts needs_unmuting = Inr (acts, needs_unmuting)"
| "unmute_loop (muted # rest) acts needs_unmuting =
     pony_assert (pa_muted (acts muted) > 0)
       (let acts = acts(muted := (acts muted)\<lparr>pa_muted := pa_muted (acts muted) - 1\<rparr>)
        in unmute_loop rest acts (if pa_muted (acts muted) = 0 then muted # needs_unmuting else needs_unmuting))"

text \<open>
  The iteration visits the senders in the order of their buckets; \<open>visit\<close> is that order.  The rescheduling, the
  second loop, is left to the scheduler as work, in the order in which the stack is popped.
\<close>

definition mute_senders :: "mutemap \<Rightarrow> uint64_t \<Rightarrow> muteset" where
  "mute_senders m actor = (case elems_get mr_key m actor of None \<Rightarrow> [] | Some mref \<Rightarrow> mr_value mref)"

definition ponyint_sched_unmute_senders ::
  "uint64_t list \<Rightarrow> mutemap \<Rightarrow> actors \<Rightarrow> uint64_t \<Rightarrow> (mutemap \<times> actors \<times> uint64_t list) res" where
  "ponyint_sched_unmute_senders visit m acts actor =
     (case elems_get mr_key m actor of
        None \<Rightarrow> Inr (m, acts, [])
      | Some mref \<Rightarrow>
          res_bind (unmute_loop visit acts []) (\<lambda>(acts, needs_unmuting).
            Inr (filter (\<lambda>x. mr_key x \<noteq> actor) m, acts, needs_unmuting)))"

section \<open>Schedulers\<close>

text \<open>
  What a scheduler thread still has to do in the call it is in: reschedule an actor it took off the stack,
  or push an unmute message about an actor to the queue of a scheduler.
\<close>

datatype sched_work = Unmute uint64_t | Tell nat uint64_t

text \<open>
  Threads are numbered from 0, and the last one is that of the pinned actors; \<open>sc_index\<close> is what they call themselves.
  \<open>sc_app\<close> is the number of application messages the running actor has handled, the variable \<^verbatim>\<open>app\<close> of \<^verbatim>\<open>ponyint_actor_run\<close>.
\<close>

definition PONY_UNKNOWN_SCHEDULER_INDEX :: int where "PONY_UNKNOWN_SCHEDULER_INDEX = - 1"
definition PONY_PINNED_ACTOR_THREAD_INDEX :: int where "PONY_PINNED_ACTOR_THREAD_INDEX = - 999"
definition PONY_SCHED_BATCH :: nat where "PONY_SCHED_BATCH = 100"

record scheduler_t =
  sc_index :: int
  sc_mute_mapping :: mutemap
  sc_mq :: "uint64_t list"
  sc_work :: "sched_work list"
  sc_current :: "uint64_t option"
  sc_behaviour :: bool
  sc_app :: nat
  sc_active :: bool

text \<open>
  Where an actor is: its queue is marked empty, it is in a run queue, a scheduler runs it, or it was taken
  off the run queues because it is muted.
\<close>

datatype actor_place = Parked | Ready | Running nat | Waiting

text \<open>\<open>bp_cycle\<close> is the cycle detector, 0 when there is none.\<close>

record bp_state =
  bp_actors :: actors
  bp_place :: "uint64_t \<Rightarrow> actor_place"
  bp_scheds :: "nat \<Rightarrow> scheduler_t"
  bp_count :: nat
  bp_cycle :: uint64_t

definition ponyint_is_cycle :: "bp_state \<Rightarrow> uint64_t \<Rightarrow> bool" where
  "ponyint_is_cycle s actor \<longleftrightarrow> actor = bp_cycle s"

definition upd_actor :: "uint64_t \<Rightarrow> (pony_actor_t \<Rightarrow> pony_actor_t) \<Rightarrow> bp_state \<Rightarrow> bp_state" where
  "upd_actor a f s = s\<lparr>bp_actors := (bp_actors s)(a := f (bp_actors s a))\<rparr>"

definition upd_sched :: "nat \<Rightarrow> (scheduler_t \<Rightarrow> scheduler_t) \<Rightarrow> bp_state \<Rightarrow> bp_state" where
  "upd_sched i f s = s\<lparr>bp_scheds := (bp_scheds s)(i := f (bp_scheds s i))\<rparr>"

definition set_place :: "uint64_t \<Rightarrow> actor_place \<Rightarrow> bp_state \<Rightarrow> bp_state" where
  "set_place a p s = s\<lparr>bp_place := (bp_place s)(a := p)\<rparr>"

text \<open>\<open>send_msg_all_active\<close> reads which schedulers are active once and then sends to them one by one.\<close>

definition ponyint_sched_start_global_unmute :: "nat \<Rightarrow> uint64_t \<Rightarrow> bp_state \<Rightarrow> bp_state" where
  "ponyint_sched_start_global_unmute from actor s =
     (let targets = filter (\<lambda>i. sc_active (bp_scheds s i)) [0..<bp_count s]
      in upd_sched from (\<lambda>c. c\<lparr>sc_work := map (\<lambda>i. Tell i actor) targets @ sc_work c\<rparr>) s)"

definition send_msg :: "nat \<Rightarrow> uint64_t \<Rightarrow> bp_state \<Rightarrow> bp_state" where
  "send_msg to arg s = upd_sched to (\<lambda>c. c\<lparr>sc_mq := sc_mq c @ [arg]\<rparr>) s"

definition sched_reschedule_unmuted :: "nat \<Rightarrow> uint64_t \<Rightarrow> bp_state \<Rightarrow> bp_state" where
  "sched_reschedule_unmuted i actor s =
     ponyint_sched_start_global_unmute i actor (set_place actor Ready (upd_actor actor ponyint_unmute_actor s))"

definition actor_unsetoverloaded :: "nat \<Rightarrow> uint64_t \<Rightarrow> bp_state \<Rightarrow> bp_state" where
  "actor_unsetoverloaded i actor s =
     (let s = upd_actor actor (\<lambda>x. unset_sync_flag x ACTOR_SYNC_FLAG_OVERLOADED) s
      in if \<not> has_sync_flag (bp_actors s actor) ACTOR_SYNC_FLAG_UNDER_PRESSURE
         then ponyint_sched_start_global_unmute i actor s else s)"

definition maybe_mark_should_mute :: "nat \<Rightarrow> uint64_t option \<Rightarrow> uint64_t \<Rightarrow> bp_state \<Rightarrow> bp_state res" where
  "maybe_mark_should_mute i current to s =
     (case current of
        None \<Rightarrow> Inr s
      | Some a \<Rightarrow>
          if triggers_muting (bp_actors s to) \<and>
             \<not> has_sync_flag_any (bp_actors s a) (ACTOR_SYNC_FLAG_OVERLOADED OR ACTOR_SYNC_FLAG_UNDER_PRESSURE) \<and>
             a \<noteq> to
          then res_bind (ponyint_sched_mute (sc_mute_mapping (bp_scheds s i)) (bp_actors s) a to) (\<lambda>(m, acts).
                 Inr (upd_sched i (\<lambda>c. c\<lparr>sc_mute_mapping := m\<rparr>) (s\<lparr>bp_actors := acts\<rparr>)))
          else Inr s)"

text \<open>The end of a behaviour: whether a mute occurs, and what the run of the actor makes of it.\<close>

definition maybe_should_mute :: "pony_actor_t \<Rightarrow> bool \<times> pony_actor_t" where
  "maybe_should_mute actor = (if pa_muted actor > 0 then (True, mute_actor actor) else (False, actor))"

definition batch_limit_reached :: "bool \<Rightarrow> pony_actor_t \<Rightarrow> bool \<Rightarrow> (bool \<times> pony_actor_t) res" where
  "batch_limit_reached is_cycle actor polling =
     (if \<not> has_sync_flag actor ACTOR_SYNC_FLAG_OVERLOADED \<and> \<not> polling
      then res_bind (actor_setoverloaded is_cycle actor) (\<lambda>actor. Inr (True, actor)) else Inr (True, actor))"

definition pony_apply_backpressure :: "uint64_t \<Rightarrow> bp_state \<Rightarrow> bp_state" where
  "pony_apply_backpressure current s = upd_actor current (\<lambda>x. set_sync_flag x ACTOR_SYNC_FLAG_UNDER_PRESSURE) s"

definition pony_release_backpressure :: "nat \<Rightarrow> uint64_t \<Rightarrow> bp_state \<Rightarrow> bp_state" where
  "pony_release_backpressure i current s =
     (let s = upd_actor current (\<lambda>x. unset_sync_flag x ACTOR_SYNC_FLAG_UNDER_PRESSURE) s
      in if \<not> has_sync_flag (bp_actors s current) ACTOR_SYNC_FLAG_OVERLOADED
         then ponyint_sched_start_global_unmute i current s else s)"

section \<open>Commands\<close>

text \<open>
  The pieces of \<open>ponyint_actor_run\<close> and \<open>pony_sendv\<close>: an actor is taken from a run queue, begins a
  behaviour, looks at a receiver and pushes messages, applies and releases pressure, ends the behaviour and
  is perhaps muted, reaches the limit of its batch, finds its queue drained and is no longer overloaded, or
  is put away with its queue marked empty or not.  Between actors a scheduler reads a message or suspends.  The
  messages of the cycle detector are not application messages, so it begins no behaviour.
\<close>

datatype bp_cmd = Run nat uint64_t | Begin nat | Look nat uint64_t | Push uint64_t | Apply nat | Release nat
  | End nat | Limit nat | Drained nat | Finish nat bool | Read nat "uint64_t list" | Work nat | Suspend nat | Wake nat

definition bp_free :: "nat \<Rightarrow> bp_state \<Rightarrow> bool" where
  "bp_free i s \<longleftrightarrow> i < bp_count s \<and> sc_active (bp_scheds s i) \<and> sc_current (bp_scheds s i) = None \<and>
     sc_work (bp_scheds s i) = []"

definition actor_run_begin :: "nat \<Rightarrow> uint64_t \<Rightarrow> bp_state \<Rightarrow> bp_state res" where
  "actor_run_begin i a s =
     pony_assert (\<not> has_sync_flag (bp_actors s a) ACTOR_SYNC_FLAG_MUTED)
       (Inr (upd_sched i (\<lambda>c. c\<lparr>sc_current := Some a, sc_behaviour := False, sc_app := 0\<rparr>) (set_place a (Running i) s)))"

definition actor_run_stop :: "nat \<Rightarrow> uint64_t \<Rightarrow> actor_place \<Rightarrow> bp_state \<Rightarrow> bp_state" where
  "actor_run_stop i a p s = upd_sched i (\<lambda>c. c\<lparr>sc_current := None, sc_behaviour := False\<rparr>) (set_place a p s)"

definition actor_behaviour_end :: "nat \<Rightarrow> uint64_t \<Rightarrow> bp_state \<Rightarrow> bp_state" where
  "actor_behaviour_end i a s =
     (let s = upd_sched i (\<lambda>c. c\<lparr>sc_app := sc_app c + 1\<rparr>) s;
          (mute, x) = maybe_should_mute (bp_actors s a); s = upd_actor a (\<lambda>_. x) s
      in if mute then actor_run_stop i a Waiting s else upd_sched i (\<lambda>c. c\<lparr>sc_behaviour := False\<rparr>) s)"

definition actor_run_limit :: "nat \<Rightarrow> uint64_t \<Rightarrow> bp_state \<Rightarrow> bp_state res" where
  "actor_run_limit i a s =
     res_bind (batch_limit_reached (ponyint_is_cycle s a) (bp_actors s a) False) (\<lambda>(reschedule, x).
       Inr (actor_run_stop i a (if reschedule then Ready else Parked) (upd_actor a (\<lambda>_. x) s)))"

definition actor_run_drained :: "nat \<Rightarrow> uint64_t \<Rightarrow> bp_state \<Rightarrow> bp_state res" where
  "actor_run_drained i a s =
     pony_assert (sc_app (bp_scheds s i) < PONY_SCHED_BATCH)
       (pony_assert (\<not> has_sync_flag (bp_actors s a) ACTOR_SYNC_FLAG_MUTED)
         (Inr (if has_sync_flag (bp_actors s a) ACTOR_SYNC_FLAG_OVERLOADED then actor_unsetoverloaded i a s else s)))"

definition read_msg :: "uint64_t list \<Rightarrow> nat \<Rightarrow> uint64_t \<Rightarrow> bp_state \<Rightarrow> bp_state res" where
  "read_msg visit i actor s =
     pony_assert (PONY_UNKNOWN_SCHEDULER_INDEX \<noteq> sc_index (bp_scheds s i))
       (res_bind (ponyint_sched_unmute_senders visit (sc_mute_mapping (bp_scheds s i)) (bp_actors s) actor)
         (\<lambda>(m, acts, needs_unmuting).
           Inr (upd_sched i (\<lambda>c. c\<lparr>sc_mute_mapping := m, sc_mq := tl (sc_mq c), sc_work := map Unmute needs_unmuting\<rparr>)
                  (s\<lparr>bp_actors := acts\<rparr>))))"

definition sched_push :: "uint64_t \<Rightarrow> bp_state \<Rightarrow> bp_state" where
  "sched_push to s =
     (if \<not> has_sync_flag (bp_actors s to) ACTOR_SYNC_FLAG_MUTED then set_place to Ready s else s)"

definition in_run :: "nat \<Rightarrow> bool \<Rightarrow> bp_state \<Rightarrow> (uint64_t \<Rightarrow> bp_state option res) \<Rightarrow> bp_state option res" where
  "in_run i beh s f =
     (case sc_current (bp_scheds s i) of
        Some a \<Rightarrow> if i < bp_count s \<and> sc_behaviour (bp_scheds s i) = beh \<and> sc_work (bp_scheds s i) = [] then f a else Inr None
      | None \<Rightarrow> Inr None)"

text \<open>The loop over the messages of an actor goes on until a full batch is handled.\<close>

definition batch_full :: "nat \<Rightarrow> bp_state \<Rightarrow> bool" where
  "batch_full i s \<longleftrightarrow> sc_app (bp_scheds s i) = PONY_SCHED_BATCH"

definition done_with :: "bp_state res \<Rightarrow> bp_state option res" where
  "done_with r = res_bind r (\<lambda>s. Inr (Some s))"

fun bp_do :: "bp_cmd \<Rightarrow> bp_state \<Rightarrow> bp_state option res" where
  "bp_do (Run i a) s = (if bp_free i s \<and> bp_place s a = Ready then done_with (actor_run_begin i a s) else Inr None)"
| "bp_do (Begin i) s = in_run i False s (\<lambda>a.
     if batch_full i s \<or> ponyint_is_cycle s a then Inr None else Inr (Some (upd_sched i (\<lambda>c. c\<lparr>sc_behaviour := True\<rparr>) s)))"
| "bp_do (Look i to) s = in_run i True s (\<lambda>a. done_with (maybe_mark_should_mute i (Some a) to s))"
| "bp_do (Push to) s = (if bp_place s to = Parked then Inr (Some (sched_push to s)) else Inr None)"
| "bp_do (Apply i) s = in_run i True s (\<lambda>a. Inr (Some (pony_apply_backpressure a s)))"
| "bp_do (Release i) s = in_run i True s (\<lambda>a. Inr (Some (pony_release_backpressure i a s)))"
| "bp_do (End i) s = in_run i True s (\<lambda>a. Inr (Some (actor_behaviour_end i a s)))"
| "bp_do (Limit i) s = in_run i False s (\<lambda>a. if batch_full i s then done_with (actor_run_limit i a s) else Inr None)"
| "bp_do (Drained i) s = in_run i False s (\<lambda>a. if batch_full i s then Inr None else done_with (actor_run_drained i a s))"
| "bp_do (Finish i park) s = in_run i False s (\<lambda>a.
     if batch_full i s \<or> has_sync_flag (bp_actors s a) ACTOR_SYNC_FLAG_OVERLOADED then Inr None
     else Inr (Some (actor_run_stop i a (if park then Parked else Ready) s)))"
| "bp_do (Read i visit) s =
     (if bp_free i s \<and> sc_mq (bp_scheds s i) \<noteq> [] \<and> distinct visit \<and>
         set visit = set (mute_senders (sc_mute_mapping (bp_scheds s i)) (hd (sc_mq (bp_scheds s i))))
      then done_with (read_msg visit i (hd (sc_mq (bp_scheds s i))) s) else Inr None)"
| "bp_do (Work i) s =
     (if i < bp_count s then
        (case sc_work (bp_scheds s i) of
           [] \<Rightarrow> Inr None
         | w # ws \<Rightarrow>
             let s = upd_sched i (\<lambda>c. c\<lparr>sc_work := ws\<rparr>) s
             in Inr (Some (case w of Unmute a \<Rightarrow> sched_reschedule_unmuted i a s | Tell j a \<Rightarrow> send_msg j a s)))
      else Inr None)"
| "bp_do (Suspend i) s =
     (if bp_free i s \<and> sc_mute_mapping (bp_scheds s i) = [] then Inr (Some (upd_sched i (\<lambda>c. c\<lparr>sc_active := False\<rparr>) s))
      else Inr None)"
| "bp_do (Wake i) s =
     (if i < bp_count s then Inr (Some (upd_sched i (\<lambda>c. c\<lparr>sc_active := True\<rparr>) s)) else Inr None)"

definition bp_start :: "nat \<Rightarrow> uint64_t \<Rightarrow> bp_state" where
  "bp_start n cd = \<lparr>bp_actors = (\<lambda>_. \<lparr>pa_sync_flags = 0, pa_muted = 0\<rparr>), bp_place = (\<lambda>_. Parked),
     bp_scheds = (\<lambda>i. \<lparr>sc_index = (if Suc i = n then PONY_PINNED_ACTOR_THREAD_INDEX else int i), sc_mute_mapping = [], sc_mq = [],
       sc_work = [], sc_current = None, sc_behaviour = False, sc_app = 0, sc_active = True\<rparr>),
     bp_count = n, bp_cycle = cd\<rparr>"

inductive bp_reach :: "nat \<Rightarrow> bp_state \<Rightarrow> bool" for n where
  bp_begin: "bp_reach n (bp_start n cd)"
| bp_next: "bp_reach n s \<Longrightarrow> bp_do cmd s = Inr (Some s') \<Longrightarrow> bp_reach n s'"

end
