(* ===== verification/Backpressure_Inv.thy ===== *)
theory Backpressure_Inv
  imports Backpressure
begin

text \<open>
  The flags of an actor as bits, what the operations on the mute map do to the relation of who waits for whom,
  and the invariant of backpressure in terms of that relation: the waits that no message is about to end are
  acyclic, each of them has a cause, and each actor is where its flags say.
\<close>

section \<open>Flags as bits\<close>

abbreviation "overloaded x \<equiv> bit (pa_sync_flags x) (Suc 0)"
abbreviation "pressed x \<equiv> bit (pa_sync_flags x) 2"
abbreviation "muted_flag x \<equiv> bit (pa_sync_flags x) 3"

lemma flag_bit:
  "(w :: uint8_t) AND 2 = 0 \<longleftrightarrow> \<not> bit w (Suc 0)" "w AND 4 = 0 \<longleftrightarrow> \<not> bit w 2" "w AND 8 = 0 \<longleftrightarrow> \<not> bit w 3"
  using and_exp_eq_0_iff_not_bit [of w "Suc 0"] and_exp_eq_0_iff_not_bit [of w 2] and_exp_eq_0_iff_not_bit [of w 3]
  by simp_all

lemma flag_words:
  "bit (2 :: uint8_t) n \<longleftrightarrow> n = Suc 0" "bit (4 :: uint8_t) n \<longleftrightarrow> n = 2" "bit (8 :: uint8_t) n \<longleftrightarrow> n = 3"
  using bit_exp_iff [where 'a = uint8_t, of "Suc 0" n] bit_exp_iff [where 'a = uint8_t, of 2 n] bit_exp_iff [where 'a = uint8_t, of 3 n]
  by (auto simp: possible_bit_def)

lemma flag_union: "(w :: uint8_t) AND (u OR v) = 0 \<longleftrightarrow> w AND u = 0 \<and> w AND v = 0"
  by (auto simp: bit_eq_iff bit_and_iff bit_or_iff)

lemmas flag_defs = has_sync_flag_def has_sync_flag_any_def ACTOR_SYNC_FLAG_OVERLOADED_def
  ACTOR_SYNC_FLAG_UNDER_PRESSURE_def ACTOR_SYNC_FLAG_MUTED_def

lemma flags_read [simp]:
  "has_sync_flag x ACTOR_SYNC_FLAG_OVERLOADED \<longleftrightarrow> overloaded x"
  "has_sync_flag x ACTOR_SYNC_FLAG_UNDER_PRESSURE \<longleftrightarrow> pressed x"
  "has_sync_flag x ACTOR_SYNC_FLAG_MUTED \<longleftrightarrow> muted_flag x"
  "has_sync_flag_any x (ACTOR_SYNC_FLAG_OVERLOADED OR ACTOR_SYNC_FLAG_UNDER_PRESSURE) \<longleftrightarrow> overloaded x \<or> pressed x"
  "triggers_muting x \<longleftrightarrow> overloaded x \<or> pressed x \<or> muted_flag x"
  by (simp_all only: flag_defs triggers_muting_def flag_union flag_bit) auto

lemma flags_written [simp]:
  "overloaded (mute_actor x) = overloaded x" "pressed (mute_actor x) = pressed x" "muted_flag (mute_actor x)"
  "overloaded (ponyint_unmute_actor x) = overloaded x" "pressed (ponyint_unmute_actor x) = pressed x" "\<not> muted_flag (ponyint_unmute_actor x)"
  "overloaded (set_sync_flag x ACTOR_SYNC_FLAG_OVERLOADED)" "pressed (set_sync_flag x ACTOR_SYNC_FLAG_OVERLOADED) = pressed x"
  "muted_flag (set_sync_flag x ACTOR_SYNC_FLAG_OVERLOADED) = muted_flag x"
  "\<not> overloaded (unset_sync_flag x ACTOR_SYNC_FLAG_OVERLOADED)" "pressed (unset_sync_flag x ACTOR_SYNC_FLAG_OVERLOADED) = pressed x"
  "muted_flag (unset_sync_flag x ACTOR_SYNC_FLAG_OVERLOADED) = muted_flag x"
  "overloaded (set_sync_flag x ACTOR_SYNC_FLAG_UNDER_PRESSURE) = overloaded x" "pressed (set_sync_flag x ACTOR_SYNC_FLAG_UNDER_PRESSURE)"
  "muted_flag (set_sync_flag x ACTOR_SYNC_FLAG_UNDER_PRESSURE) = muted_flag x"
  "overloaded (unset_sync_flag x ACTOR_SYNC_FLAG_UNDER_PRESSURE) = overloaded x" "\<not> pressed (unset_sync_flag x ACTOR_SYNC_FLAG_UNDER_PRESSURE)"
  "muted_flag (unset_sync_flag x ACTOR_SYNC_FLAG_UNDER_PRESSURE) = muted_flag x"
  by (simp_all add: mute_actor_def ponyint_unmute_actor_def set_sync_flag_def unset_sync_flag_def
      ACTOR_SYNC_FLAG_OVERLOADED_def ACTOR_SYNC_FLAG_UNDER_PRESSURE_def ACTOR_SYNC_FLAG_MUTED_def
      bit_or_iff bit_and_iff bit_not_iff flag_words possible_bit_def)

lemma muted_written [simp]:
  "pa_muted (mute_actor x) = pa_muted x" "pa_muted (ponyint_unmute_actor x) = pa_muted x"
  "pa_muted (unset_sync_flag x f) = pa_muted x"
  "pa_muted (set_sync_flag x f) = pa_muted x"
  by (simp_all add: mute_actor_def ponyint_unmute_actor_def set_sync_flag_def unset_sync_flag_def)

section \<open>What the mute map operations do\<close>

definition map_waits :: "mutemap \<Rightarrow> (uint64_t \<times> uint64_t) set" where
  "map_waits m = {(r, a). \<exists>x \<in> set m. mr_key x = r \<and> a \<in> set (mr_value x)}"

definition map_ok :: "mutemap \<Rightarrow> bool" where
  "map_ok m \<longleftrightarrow> distinct (map mr_key m) \<and> (\<forall>x \<in> set m. distinct (mr_value x) \<and> mr_key x \<notin> set (mr_value x))"

lemma map_ok_key: "map_ok m \<Longrightarrow> x \<in> set m \<Longrightarrow> y \<in> set m \<Longrightarrow> mr_key y = mr_key x \<Longrightarrow> y = x"
  unfolding map_ok_def distinct_map by (blast dest: inj_onD)

lemma map_ok_entry:
  assumes "map_ok m" and "x \<in> set m"
  shows "(mr_key x, a) \<in> map_waits m \<longleftrightarrow> a \<in> set (mr_value x)"
  using assms(2) map_ok_key [OF assms] unfolding map_waits_def by blast

lemma elems_get_muteset: "distinct xs \<Longrightarrow> elems_get (\<lambda>a. a) xs a = (if a \<in> set xs then Some a else None)"
  by (auto simp: elems_get_def find_None_iff find_Some_iff in_set_conv_nth nth_eq_iff_index_eq
      intro: exI split: option.splits)


lemma map_waits_append: "map_waits (m @ m') = map_waits m \<union> map_waits m'"
  by (auto simp: map_waits_def)

lemma getorput_map:
  "map_ok m \<Longrightarrow> map_ok (elems_getorput mr_key m (ponyint_muteref_alloc [] r))"
  "map_waits (elems_getorput mr_key m (ponyint_muteref_alloc [] r)) = map_waits m"
  "\<exists>x \<in> set (elems_getorput mr_key m (ponyint_muteref_alloc [] r)). mr_key x = r"
proof -
  show "map_ok m \<Longrightarrow> map_ok (elems_getorput mr_key m (ponyint_muteref_alloc [] r))"
    by (auto simp: map_ok_def elems_getorput_def ponyint_muteref_alloc_def elems_get_None_iff)
  show "map_waits (elems_getorput mr_key m (ponyint_muteref_alloc [] r)) = map_waits m"
    by (simp add: elems_getorput_def map_waits_append) (simp add: ponyint_muteref_alloc_def map_waits_def)
  show "\<exists>x \<in> set (elems_getorput mr_key m (ponyint_muteref_alloc [] r)). mr_key x = r"
    by (cases "elems_get mr_key m r") (auto simp: elems_getorput_def ponyint_muteref_alloc_def
      elems_get_None_iff elems_get_def find_Some_iff)
qed

lemma sched_mute_waits:
  assumes ok: "map_ok m" and ne: "a \<noteq> r"
  shows "\<exists>m'. ponyint_sched_mute m acts a r =
      Inr (m', if (r, a) \<in> map_waits m then acts else acts(a := (acts a)\<lparr>pa_muted := pa_muted (acts a) + 1\<rparr>)) \<and>
    map_ok m' \<and> map_waits m' = insert (r, a) (map_waits m)"
proof -
  let ?m = "elems_getorput mr_key m (ponyint_muteref_alloc [] r)"
  have ok': "map_ok ?m" and same: "map_waits ?m = map_waits m"
    by (rule getorput_map(1) [OF ok], rule getorput_map(2))
  obtain x where x: "x \<in> set ?m" "mr_key x = r" using getorput_map(3) by blast
  have get: "elems_get mr_key ?m r = Some x"
    using ok' x by (subst elems_get_Some_iff) (auto simp: map_ok_def)
  have "distinct (mr_value x)" and nr: "r \<notin> set (mr_value x)" using ok' x by (auto simp: map_ok_def)
  hence inner: "elems_get (\<lambda>a. a) (mr_value x) a = (if a \<in> set (mr_value x) then Some a else None)"
    by (simp add: elems_get_muteset)
  have mem: "(r, a) \<in> map_waits m \<longleftrightarrow> a \<in> set (mr_value x)" using map_ok_entry [OF ok' x(1)] same x(2) by simp
  show ?thesis
  proof (cases "a \<in> set (mr_value x)")
    case True
    hence "ponyint_sched_mute m acts a r = Inr (?m, acts)" using get inner ne by (simp add: ponyint_sched_mute_def Let_def)
    thus ?thesis using True mem ok' same by (simp add: insert_absorb)
  next
    case False
    let ?f = "\<lambda>y :: muteset muteref_t. y\<lparr>mr_value := mr_value y @ [a]\<rparr>"
    let ?m' = "elems_modify mr_key ?m r ?f"
    have uniq: "y = x" if "y \<in> set ?m" "mr_key y = r" for y
      using that x map_ok_key [OF ok' x(1)] by simp
    have keys: "map mr_key ?m' = map mr_key ?m" by (auto simp: elems_modify_def)
    have set': "set ?m' = insert (?f x) {y \<in> set ?m. mr_key y \<noteq> r}" (is "?L = ?R")
    proof
      show "?L \<subseteq> ?R"
      proof
        fix z assume "z \<in> ?L"
        then obtain y where y: "y \<in> set ?m" "z = (if mr_key y = r then ?f y else y)" by (auto simp: elems_modify_def)
        thus "z \<in> ?R" using uniq [OF y(1)] by (cases "mr_key y = r") simp_all
      qed
      show "?R \<subseteq> ?L"
      proof
        fix z assume "z \<in> ?R"
        then obtain y where "y \<in> set ?m" "z = (if mr_key y = r then ?f y else y)" using x by auto
        thus "z \<in> ?L" unfolding elems_modify_def set_map by blast
      qed
    qed
    have "map_ok ?m'" using ok' False ne nr x by (auto simp: map_ok_def keys set')
    moreover have "map_waits ?m' = insert (r, a) (map_waits ?m)"
    proof -
      have new: "(k, b) \<in> map_waits ?m' \<longleftrightarrow> (k = r \<and> b \<in> insert a (set (mr_value x))) \<or> (k \<noteq> r \<and> (k, b) \<in> map_waits ?m)" for k b
        unfolding map_waits_def set' using x(2) by (simp add: bex_simps) blast
      have "(r, b) \<in> map_waits ?m \<longleftrightarrow> b \<in> set (mr_value x)" for b using map_ok_entry [OF ok' x(1)] x(2) by simp
      hence "(k, b) \<in> map_waits ?m' \<longleftrightarrow> (k, b) \<in> insert (r, a) (map_waits ?m)" for k b unfolding new by blast
      thus ?thesis by (simp add: set_eq_iff split_paired_All)
    qed
    moreover have "ponyint_sched_mute m acts a r = Inr (?m', acts(a := (acts a)\<lparr>pa_muted := pa_muted (acts a) + 1\<rparr>))"
      using get inner ne False by (simp add: ponyint_sched_mute_def Let_def)
    ultimately show ?thesis using mem False same by simp
  qed
qed

lemma unmute_loop_spec:
  assumes "distinct xs" and "\<And>a. a \<in> set xs \<Longrightarrow> pa_muted (acts a) > 0" and "distinct st" and "set st \<inter> set xs = {}"
  shows "\<exists>acts' st'. unmute_loop xs acts st = Inr (acts', st') \<and>
    (\<forall>a. acts' a = (if a \<in> set xs then (acts a)\<lparr>pa_muted := pa_muted (acts a) - 1\<rparr> else acts a)) \<and>
    set st' = set st \<union> {a \<in> set xs. pa_muted (acts a) = 1} \<and> distinct st'"
  using assms
proof (induction xs arbitrary: acts st)
  case (Cons x xs)
  let ?acts = "acts(x := (acts x)\<lparr>pa_muted := pa_muted (acts x) - 1\<rparr>)"
  let ?st = "if pa_muted (acts x) - 1 = 0 then x # st else st"
  have "\<exists>acts' st'. unmute_loop xs ?acts ?st = Inr (acts', st') \<and>
    (\<forall>a. acts' a = (if a \<in> set xs then (?acts a)\<lparr>pa_muted := pa_muted (?acts a) - 1\<rparr> else ?acts a)) \<and>
    set st' = set ?st \<union> {a \<in> set xs. pa_muted (?acts a) = 1} \<and> distinct st'"
    using Cons.prems by (intro Cons.IH) auto
  then obtain acts' st' where u: "unmute_loop xs ?acts ?st = Inr (acts', st')"
    and acts': "\<And>a. acts' a = (if a \<in> set xs then (?acts a)\<lparr>pa_muted := pa_muted (?acts a) - 1\<rparr> else ?acts a)"
    and st': "set st' = set ?st \<union> {a \<in> set xs. pa_muted (?acts a) = 1}" "distinct st'"
    by blast
  have "unmute_loop (x # xs) acts st = Inr (acts', st')" using u Cons.prems(2) [of x] by (simp add: Let_def)
  moreover have "set st' = set st \<union> {a \<in> set (x # xs). pa_muted (acts a) = 1}"
    using st' Cons.prems(1) by auto
  ultimately show ?case using acts' st' Cons.prems(1) by auto
qed auto

lemma unmute_senders_waits:
  assumes ok: "map_ok m" and pos: "\<And>a. (r, a) \<in> map_waits m \<Longrightarrow> pa_muted (acts a) > 0"
    and visit: "distinct visit" "set visit = set (mute_senders m r)"
  shows "\<exists>m' acts' st. ponyint_sched_unmute_senders visit m acts r = Inr (m', acts', st) \<and> map_ok m' \<and>
    map_waits m' = {e \<in> map_waits m. fst e \<noteq> r} \<and>
    (\<forall>a. acts' a = (if (r, a) \<in> map_waits m then (acts a)\<lparr>pa_muted := pa_muted (acts a) - 1\<rparr> else acts a)) \<and>
    set st = {a. (r, a) \<in> map_waits m \<and> pa_muted (acts a) = 1} \<and> distinct st"
proof (cases "elems_get mr_key m r")
  case None
  hence "(r, a) \<notin> map_waits m" for a by (auto simp: map_waits_def elems_get_None_iff)
  thus ?thesis using None ok by (auto simp: ponyint_sched_unmute_senders_def)
next
  case (Some x)
  hence x: "x \<in> set m" "mr_key x = r" using ok by (auto simp: map_ok_def elems_get_Some_iff)
  have mem: "(r, a) \<in> map_waits m \<longleftrightarrow> a \<in> set (mr_value x)" for a using map_ok_entry [OF ok x(1)] x(2) by simp
  have v: "set visit = set (mr_value x)" using visit(2) Some by (simp add: mute_senders_def)
  obtain acts' st where "unmute_loop visit acts [] = Inr (acts', st)"
    "\<forall>a. acts' a = (if a \<in> set (mr_value x) then (acts a)\<lparr>pa_muted := pa_muted (acts a) - 1\<rparr> else acts a)"
    "set st = {a \<in> set (mr_value x). pa_muted (acts a) = 1}" "distinct st"
    using unmute_loop_spec [OF visit(1), of acts "[]"] pos mem v by auto
  moreover have "map_ok (filter (\<lambda>x. mr_key x \<noteq> r) m)" using ok by (auto simp: map_ok_def distinct_map_filter)
  moreover have "map_waits (filter (\<lambda>x. mr_key x \<noteq> r) m) = {e \<in> map_waits m. fst e \<noteq> r}" by (auto simp: map_waits_def)
  ultimately show ?thesis using Some mem by (auto simp: ponyint_sched_unmute_senders_def)
qed


section \<open>The invariant\<close>

text \<open>
  In terms of who waits for whom: \<open>(i, r, a) \<in> E\<close> when the mute map of scheduler \<open>i\<close> has sender \<open>a\<close> wait for
  receiver \<open>r\<close>, \<open>U i\<close> are the actors scheduler \<open>i\<close> is about to reschedule, and \<open>(i, r) \<in> P\<close> when a message
  that \<open>r\<close> is relieved is on its way to scheduler \<open>i\<close>.
\<close>

type_synonym waits = "(nat \<times> uint64_t \<times> uint64_t) set"

definition waiting_for :: "waits \<Rightarrow> uint64_t \<Rightarrow> uint64_t set" where
  "waiting_for E a = {r. \<exists>i. (i, r, a) \<in> E}"

text \<open>The edges no message is about to remove.\<close>

definition lasting :: "waits \<Rightarrow> (nat \<times> uint64_t) set \<Rightarrow> (uint64_t \<times> uint64_t) set" where
  "lasting E P = {(a, r). \<exists>i. (i, r, a) \<in> E \<and> (i, r) \<notin> P}"

definition edges_ok :: "actors \<Rightarrow> waits \<Rightarrow> (nat \<times> uint64_t) set \<Rightarrow> bool" where
  "edges_ok acts E P \<longleftrightarrow> finite E \<and> (\<forall>i r a. (i, r, a) \<in> E \<longrightarrow> a \<noteq> r) \<and>
     (\<forall>i j r r' a. (i, r, a) \<in> E \<and> (j, r', a) \<in> E \<longrightarrow> i = j) \<and>
     (\<forall>a. pa_muted (acts a) = of_nat (card (waiting_for E a))) \<and>
     (\<forall>i r a. (i, r, a) \<in> E \<longrightarrow> (i, r) \<in> P \<or> triggers_muting (acts r)) \<and>
     (\<forall>a. overloaded (acts a) \<longrightarrow> waiting_for E a = {}) \<and>
     acyclic (lasting E P)"

definition places_ok ::
  "nat \<Rightarrow> actors \<Rightarrow> (uint64_t \<Rightarrow> actor_place) \<Rightarrow> (nat \<Rightarrow> uint64_t option) \<Rightarrow> (nat \<Rightarrow> bool) \<Rightarrow> (nat \<Rightarrow> bool) \<Rightarrow> waits \<Rightarrow>
     (nat \<Rightarrow> uint64_t list) \<Rightarrow> bool" where
  "places_ok n acts pl cur beh act E U \<longleftrightarrow>
     (\<forall>a. muted_flag (acts a) \<longleftrightarrow> pl a = Waiting) \<and>
     (\<forall>a. overloaded (acts a) \<longrightarrow> pl a \<noteq> Parked) \<and>
     (\<forall>i r a. (i, r, a) \<in> E \<longrightarrow> i < n \<and> act i \<and> (pl a = Waiting \<or> pl a = Running i \<and> beh i)) \<and>
     (\<forall>i a. cur i = Some a \<and> i < n \<longleftrightarrow> pl a = Running i) \<and>
     (\<forall>i. i < n \<and> cur i \<noteq> None \<longrightarrow> act i) \<and>
     (\<forall>i. i < n \<longrightarrow> distinct (U i)) \<and>
     (\<forall>i j a. i < n \<and> j < n \<and> a \<in> set (U i) \<and> a \<in> set (U j) \<longrightarrow> i = j) \<and>
     (\<forall>i a. i < n \<and> a \<in> set (U i) \<longrightarrow> pl a = Waiting \<and> waiting_for E a = {}) \<and>
     (\<forall>a. pl a = Waiting \<and> waiting_for E a = {} \<longrightarrow> (\<exists>i < n. a \<in> set (U i)))"

lemma edges_okD:
  assumes "edges_ok acts E P"
  shows "finite E" and "(i, r, a) \<in> E \<Longrightarrow> a \<noteq> r" and "(i, r, a) \<in> E \<Longrightarrow> (j, r', a) \<in> E \<Longrightarrow> i = j"
    and "pa_muted (acts a) = of_nat (card (waiting_for E a))"
    and "(i, r, a) \<in> E \<Longrightarrow> (i, r) \<in> P \<or> overloaded (acts r) \<or> pressed (acts r) \<or> muted_flag (acts r)"
    and "overloaded (acts a) \<Longrightarrow> waiting_for E a = {}" and "acyclic (lasting E P)"
  using assms unfolding edges_ok_def flags_read by blast+

lemma places_okD:
  assumes "places_ok n acts pl cur beh act E U"
  shows "muted_flag (acts a) \<longleftrightarrow> pl a = Waiting" and "overloaded (acts a) \<Longrightarrow> pl a \<noteq> Parked"
    and "(i, r, a) \<in> E \<Longrightarrow> i < n \<and> act i \<and> (pl a = Waiting \<or> pl a = Running i \<and> beh i)"
    and "cur i = Some a \<and> i < n \<longleftrightarrow> pl a = Running i"
    and "i < n \<Longrightarrow> cur i \<noteq> None \<Longrightarrow> act i" and "i < n \<Longrightarrow> distinct (U i)"
    and "i < n \<Longrightarrow> j < n \<Longrightarrow> a \<in> set (U i) \<Longrightarrow> a \<in> set (U j) \<Longrightarrow> i = j"
    and "i < n \<Longrightarrow> a \<in> set (U i) \<Longrightarrow> pl a = Waiting \<and> waiting_for E a = {}"
    and "pl a = Waiting \<Longrightarrow> waiting_for E a = {} \<Longrightarrow> \<exists>i < n. a \<in> set (U i)"
  using assms unfolding places_ok_def by blast+

lemma edges_okI:
  assumes "finite E" and "\<And>i r a. (i, r, a) \<in> E \<Longrightarrow> a \<noteq> r" and "\<And>i j r r' a. (i, r, a) \<in> E \<Longrightarrow> (j, r', a) \<in> E \<Longrightarrow> i = j"
    and "\<And>a. pa_muted (acts a) = of_nat (card (waiting_for E a))"
    and "\<And>i r a. (i, r, a) \<in> E \<Longrightarrow> (i, r) \<in> P \<or> triggers_muting (acts r)"
    and "\<And>a. overloaded (acts a) \<Longrightarrow> waiting_for E a = {}" and "acyclic (lasting E P)"
  shows "edges_ok acts E P"
  unfolding edges_ok_def using assms by blast

lemma places_okI:
  assumes "\<And>a. muted_flag (acts a) \<longleftrightarrow> pl a = Waiting" and "\<And>a. overloaded (acts a) \<Longrightarrow> pl a \<noteq> Parked"
    and "\<And>i r a. (i, r, a) \<in> E \<Longrightarrow> i < n \<and> act i \<and> (pl a = Waiting \<or> pl a = Running i \<and> beh i)"
    and "\<And>i a. cur i = Some a \<and> i < n \<longleftrightarrow> pl a = Running i"
    and "\<And>i. i < n \<Longrightarrow> cur i \<noteq> None \<Longrightarrow> act i" and "\<And>i. i < n \<Longrightarrow> distinct (U i)"
    and "\<And>i j a. i < n \<Longrightarrow> j < n \<Longrightarrow> a \<in> set (U i) \<Longrightarrow> a \<in> set (U j) \<Longrightarrow> i = j"
    and "\<And>i a. i < n \<Longrightarrow> a \<in> set (U i) \<Longrightarrow> pl a = Waiting \<and> waiting_for E a = {}"
    and "\<And>a. pl a = Waiting \<Longrightarrow> waiting_for E a = {} \<Longrightarrow> \<exists>i < n. a \<in> set (U i)"
  shows "places_ok n acts pl cur beh act E U"
  unfolding places_ok_def using assms by blast

lemma waiting_for_finite: "finite E \<Longrightarrow> finite (waiting_for E a)"
proof -
  assume "finite E"
  moreover have "waiting_for E a \<subseteq> (\<lambda>(i, r, b). r) ` E" by (force simp: waiting_for_def)
  ultimately show ?thesis by (meson finite_imageI finite_subset)
qed

lemma waiting_for_card:
  assumes "edges_ok acts E P"
  shows "card (waiting_for E a) < 2 ^ 64"
proof -
  have "a \<notin> waiting_for E a" using edges_okD(2) [OF assms] by (auto simp: waiting_for_def)
  hence "card (waiting_for E a) < card (UNIV :: uint64_t set)" by (intro psubset_card_mono) auto
  thus ?thesis by (simp add: card_word)
qed

text \<open>The count of an actor is zero exactly when it waits for nobody.\<close>

lemma muted_zero:
  assumes "edges_ok acts E P"
  shows "pa_muted (acts a) = 0 \<longleftrightarrow> waiting_for E a = {}"
proof -
  have "unat (pa_muted (acts a)) = card (waiting_for E a)"
    using waiting_for_card [OF assms, of a] by (simp add: edges_okD(4) [OF assms] unat_of_nat_u64)
  thus ?thesis using waiting_for_finite [OF edges_okD(1) [OF assms], of a] by (metis card_0_eq unat_0 unat_eq_zero)
qed

lemma lasting_mono: "P \<subseteq> P' \<Longrightarrow> E' \<subseteq> E \<Longrightarrow> lasting E' P' \<subseteq> lasting E P"
  by (auto simp: lasting_def)

subsection \<open>Muting\<close>

lemma edges_ok_mute:
  assumes ok: "edges_ok acts E P" and ne: "a \<noteq> r" and new: "(i, r, a) \<notin> E"
    and home: "\<And>j r'. (j, r', a) \<in> E \<Longrightarrow> j = i"
    and calm: "\<not> triggers_muting (acts a)" and trig: "triggers_muting (acts r)"
  shows "edges_ok (acts(a := (acts a)\<lparr>pa_muted := pa_muted (acts a) + 1\<rparr>)) (insert (i, r, a) E) P" (is "edges_ok ?acts ?E P")
proof -
  have flags: "pa_sync_flags (?acts b) = pa_sync_flags (acts b)" for b by simp
  have trigs: "triggers_muting (?acts b) \<longleftrightarrow> triggers_muting (acts b)" for b by simp
  have wf: "waiting_for ?E b = (if b = a then insert r (waiting_for E a) else waiting_for E b)" for b
    by (auto simp: waiting_for_def)
  have rn: "r \<notin> waiting_for E a" using new home by (auto simp: waiting_for_def)
  have cnt: "pa_muted (?acts b) = of_nat (card (waiting_for ?E b))" for b
    using rn edges_okD(4) [OF ok, of b] waiting_for_finite [OF edges_okD(1) [OF ok], of a] by (auto simp: wf)
  have noin: "(x, a) \<notin> lasting E P" for x
  proof
    assume "(x, a) \<in> lasting E P"
    then obtain j where "(j, a, x) \<in> E" "(j, a) \<notin> P" by (auto simp: lasting_def)
    thus False using edges_okD(5) [OF ok, of j a x] calm by simp
  qed
  have "acyclic (insert (a, r) (lasting E P))"
    unfolding acyclic_insert
  proof (intro conjI edges_okD(7) [OF ok] notI)
    assume "(r, a) \<in> (lasting E P)\<^sup>*"
    thus False using ne noin by (auto elim: rtranclE)
  qed
  moreover have "lasting ?E P \<subseteq> insert (a, r) (lasting E P)" by (auto simp: lasting_def)
  ultimately have acyc: "acyclic (lasting ?E P)" by (rule acyclic_subset)
  have ov: "waiting_for ?E b = {}" if "overloaded (?acts b)" for b
    using that calm edges_okD(6) [OF ok, of b] by (auto simp: wf split: if_splits)
  show ?thesis unfolding edges_ok_def trigs
    using edges_okD(1-3) [OF ok] edges_okD(5) [OF ok] ne home trig cnt acyc ov
    by (auto simp del: fun_upd_apply)
qed


text \<open>A change of the flags of one actor, with the messages that go with it.\<close>

lemma edges_ok_flags:
  assumes ok: "edges_ok acts E P" and cnt: "pa_muted x = pa_muted (acts a)"
    and ov: "overloaded x \<Longrightarrow> waiting_for E a = {}" and more: "P \<subseteq> P'"
    and told: "\<And>i b. (i, a, b) \<in> E \<Longrightarrow> (i, a) \<in> P' \<or> triggers_muting x"
  shows "edges_ok (acts(a := x)) E P'"
proof -
  have "acyclic (lasting E P')" using edges_okD(7) [OF ok] lasting_mono [OF more] by (rule acyclic_subset) simp
  moreover have "(i, r) \<in> P' \<or> triggers_muting ((acts(a := x)) r)" if "(i, r, b) \<in> E" for i r b
    using that told [of i b] edges_okD(5) [OF ok that] more by (cases "r = a") auto
  moreover have "waiting_for E b = {}" if "overloaded ((acts(a := x)) b)" for b
    using that ov edges_okD(6) [OF ok, of b] by (auto split: if_splits)
  moreover have "pa_muted ((acts(a := x)) b) = of_nat (card (waiting_for E b))" for b
    using cnt edges_okD(4) [OF ok, of b] by (cases "b = a") simp_all
  ultimately show ?thesis unfolding edges_ok_def using edges_okD(1-3) [OF ok] by blast
qed

subsection \<open>Unmuting\<close>

lemma edges_ok_unmute:
  assumes ok: "edges_ok acts E P"
    and acts': "\<And>a. acts' a = (if (i, r, a) \<in> E then (acts a)\<lparr>pa_muted := pa_muted (acts a) - 1\<rparr> else acts a)"
    and E': "E' = {e \<in> E. \<not> (fst e = i \<and> fst (snd e) = r)}" and less: "P - {(i, r)} \<subseteq> P'"
  shows "edges_ok acts' E' P'"
    and "(i, r, a) \<in> E \<Longrightarrow> pa_muted (acts a) = 1 \<longleftrightarrow> waiting_for E' a = {}"
    and "(i, r, a) \<in> E \<Longrightarrow> pa_muted (acts a) > 0"
proof -
  have flags: "pa_sync_flags (acts' a) = pa_sync_flags (acts a)" for a by (simp add: acts')
  have wf: "waiting_for E' a = (if (i, r, a) \<in> E then waiting_for E a - {r} else waiting_for E a)" for a
    using edges_okD(3) [OF ok] by (auto simp: waiting_for_def E')
  have fin: "finite (waiting_for E a)" for a by (rule waiting_for_finite [OF edges_okD(1) [OF ok]])
  have mem: "r \<in> waiting_for E a" if "(i, r, a) \<in> E" for a using that by (auto simp: waiting_for_def)
  have cnt: "pa_muted (acts' a) = of_nat (card (waiting_for E' a))" for a
  proof (cases "(i, r, a) \<in> E")
    case True
    have "0 < card (waiting_for E a)" using fin [of a] mem [OF True] by (auto simp: card_gt_0_iff)
    hence "of_nat (card (waiting_for E a) - 1) = (of_nat (card (waiting_for E a)) - 1 :: uint64_t)" by simp
    thus ?thesis using True mem fin edges_okD(4) [OF ok, of a] by (simp add: acts' wf card_Diff_singleton)
  next
    case False
    thus ?thesis using edges_okD(4) [OF ok, of a] by (simp add: acts' wf)
  qed
  have sub: "E' \<subseteq> E" by (auto simp: E')
  have "lasting E' P' \<subseteq> lasting E P" using less by (auto simp: lasting_def E')
  with edges_okD(7) [OF ok] have acyc: "acyclic (lasting E' P')" by (rule acyclic_subset)
  have told: "(j, r') \<in> P' \<or> triggers_muting (acts' r')" if "(j, r', b) \<in> E'" for j r' b
    using that edges_okD(5) [OF ok, of j r' b] less by (auto simp: E' flags)
  have ov: "waiting_for E' a = {}" if "overloaded (acts' a)" for a
    using that edges_okD(6) [OF ok, of a] by (simp add: flags wf)
  have fin': "finite E'" by (rule finite_subset [OF sub edges_okD(1) [OF ok]])
  have ne: "a \<noteq> k" if "(j, k, a) \<in> E'" for j k a using that sub edges_okD(2) [OF ok] by blast
  have home: "j = j'" if "(j, k, a) \<in> E'" "(j', k', a) \<in> E'" for j j' k k' a
    using that sub edges_okD(3) [OF ok, of j k a j' k'] by blast
  show new: "edges_ok acts' E' P'" by (rule edges_okI [OF fin' ne home cnt told ov acyc])
  show "pa_muted (acts a) = 1 \<longleftrightarrow> waiting_for E' a = {}" if "(i, r, a) \<in> E"
    using muted_zero [OF new, of a] that by (simp add: acts')
  show "pa_muted (acts a) > 0" if "(i, r, a) \<in> E"
    using muted_zero [OF ok, of a] mem [OF that] by (auto simp: word_gt_0)
qed

subsection \<open>Places\<close>

lemma places_run:
  assumes ok: "places_ok n acts pl cur beh act E U" and a: "pl a = Ready" and i: "i < n" "cur i = None" "act i"
  shows "places_ok n acts (pl(a := Running i)) (cur(i := Some a)) (beh(i := False)) act E U"
proof -
  have free: "pl b \<noteq> Running i" for b using places_okD(4) [OF ok, of i b] i by simp
  have none: "(j, r, a) \<notin> E" for j r using places_okD(3) [OF ok, of j r a] a by auto
  have "pl b = Waiting" if "(i, r, b) \<in> E" for r b using places_okD(3) [OF ok that] free by blast
  thus ?thesis using ok a i free none unfolding places_ok_def by (auto simp: fun_upd_def)
qed

lemma places_stop:
  assumes ok: "places_ok n acts pl cur beh act E U" and a: "cur i = Some a" "i < n" "\<not> beh i"
    and p: "p = Ready \<or> p = Parked \<and> \<not> overloaded (acts a)"
  shows "places_ok n acts (pl(a := p)) (cur(i := None)) beh act E U"
proof -
  have pa: "pl a = Running i" using places_okD(4) [OF ok, of i a] a by simp
  have only: "pl b \<noteq> Running i" if "b \<noteq> a" for b using places_okD(4) [OF ok, of i b] a that by auto
  have none: "(j, r, a) \<notin> E" for j r using places_okD(3) [OF ok, of j r a] pa a by auto
  show ?thesis using ok a p pa only none unfolding places_ok_def by auto
qed

lemma places_mute:
  assumes ok: "places_ok n acts pl cur beh act E U" and a: "cur i = Some a" "i < n" and e: "waiting_for E a \<noteq> {}"
    and x: "muted_flag x" "overloaded x = overloaded (acts a)"
  shows "places_ok n (acts(a := x)) (pl(a := Waiting)) (cur(i := None)) (beh(i := False)) act E U"
proof -
  have pa: "pl a = Running i" using places_okD(4) [OF ok, of i a] a by simp
  have only: "pl b \<noteq> Running i" if "b \<noteq> a" for b using places_okD(4) [OF ok, of i b] a that by auto
  have "pl b = Waiting" if "(i, r, b) \<in> E" "b \<noteq> a" for r b using places_okD(3) [OF ok that(1)] only [OF that(2)] by blast
  thus ?thesis using ok a pa only e x unfolding places_ok_def by (auto simp: fun_upd_def)
qed

lemma places_flags:
  assumes ok: "places_ok n acts pl cur beh act E U" and x: "muted_flag x = muted_flag (acts a)" "overloaded x \<longrightarrow> pl a \<noteq> Parked"
  shows "places_ok n (acts(a := x)) pl cur beh act E U"
  using ok x unfolding places_ok_def by simp

lemma places_acts:
  assumes ok: "places_ok n acts pl cur beh act E U" and "\<And>b. pa_sync_flags (acts' b) = pa_sync_flags (acts b)"
  shows "places_ok n acts' pl cur beh act E U"
  using ok unfolding places_ok_def assms(2) by blast

lemma places_look:
  assumes ok: "places_ok n acts pl cur beh act E U" and a: "cur i = Some a" "i < n" "beh i"
  shows "places_ok n acts pl cur beh act (insert (i, r, a) E) U"
proof -
  have pa: "pl a = Running i" and ai: "act i" using places_okD(4) [OF ok, of i a] places_okD(5) [OF ok, of i] a by simp_all
  have wf: "waiting_for (insert (i, r, a) E) b = (if b = a then insert r (waiting_for E a) else waiting_for E b)" for b
    by (auto simp: waiting_for_def)
  show ?thesis using ok a pa ai unfolding places_ok_def wf by auto
qed

lemma places_behaviour:
  assumes ok: "places_ok n acts pl cur beh act E U" and a: "cur i = Some a" "i < n" and e: "b \<or> waiting_for E a = {}"
  shows "places_ok n acts pl cur (beh(i := b)) act E U"
proof -
  have only: "c = a" if "pl c = Running i" for c using places_okD(4) [OF ok, of i c] a that by auto
  have "b" if "(i, r, c) \<in> E" "pl c = Running i" for r c
    using only [OF that(2)] that e by (auto simp: waiting_for_def)
  moreover have "pl c = Waiting \<or> pl c = Running i" if "(i, r, c) \<in> E" for r c using places_okD(3) [OF ok that] by blast
  ultimately show ?thesis using ok unfolding places_ok_def by (auto dest: spec [of _ i])
qed

lemma places_push:
  assumes ok: "places_ok n acts pl cur beh act E U" and a: "pl a = Parked"
  shows "places_ok n acts (pl(a := Ready)) cur beh act E U"
proof -
  have "(i, r, a) \<notin> E" for i r using places_okD(3) [OF ok, of i r a] a by auto
  thus ?thesis using ok a unfolding places_ok_def by auto
qed

lemma places_unmute:
  assumes ok: "places_ok n acts pl cur beh act E U" and i: "i < n" "U i = a # us"
    and x: "\<not> muted_flag x" "overloaded x = overloaded (acts a)"
  shows "places_ok n (acts(a := x)) (pl(a := Ready)) cur beh act E (U(i := us))"
proof -
  have a: "pl a = Waiting" "waiting_for E a = {}" using places_okD(8) [OF ok, of i a] i by auto
  have none: "(j, r, a) \<notin> E" for j r using a(2) by (auto simp: waiting_for_def)
  have au: "a \<notin> set us" using places_okD(6) [OF ok, of i] i by simp
  have ne: "a \<notin> set (U j)" if "j < n" "j \<noteq> i" for j using places_okD(7) [OF ok i(1) that(1), of a] i(2) that by auto
  have U: "b \<in> set ((U(i := us)) j) \<longleftrightarrow> b \<in> set (U j) \<and> b \<noteq> a" if "j < n" for b j using i(2) au ne [OF that] by auto
  show ?thesis
  proof (rule places_okI)
    show "(muted_flag ((acts(a := x)) b)) = ((pl(a := Ready)) b = Waiting)" for b
      using places_okD(1) [OF ok, of b] x by simp
    show "overloaded ((acts(a := x)) b) \<Longrightarrow> (pl(a := Ready)) b \<noteq> Parked" for b
      using places_okD(2) [OF ok, of b] by (cases "b = a") simp_all
    show "(j, r, b) \<in> E \<Longrightarrow> j < n \<and> act j \<and> ((pl(a := Ready)) b = Waiting \<or> (pl(a := Ready)) b = Running j \<and> beh j)" for j r b
      using places_okD(3) [OF ok, of j r b] none by (cases "b = a") auto
    show "(cur j = Some b \<and> j < n) = ((pl(a := Ready)) b = Running j)" for j b
      using places_okD(4) [OF ok, of j b] a by simp
    show "j < n \<Longrightarrow> cur j \<noteq> None \<Longrightarrow> act j" for j by (rule places_okD(5) [OF ok])
    show "j < n \<Longrightarrow> distinct ((U(i := us)) j)" for j using places_okD(6) [OF ok, of j] i by (cases "j = i") simp_all
    show "j < n \<Longrightarrow> k < n \<Longrightarrow> b \<in> set ((U(i := us)) j) \<Longrightarrow> b \<in> set ((U(i := us)) k) \<Longrightarrow> j = k" for j k b
      using places_okD(7) [OF ok, of j k b] U by blast
    show "j < n \<Longrightarrow> b \<in> set ((U(i := us)) j) \<Longrightarrow> (pl(a := Ready)) b = Waiting \<and> waiting_for E b = {}" for j b
      using places_okD(8) [OF ok, of j b] U [of j b] by simp
    show "\<exists>j<n. b \<in> set ((U(i := us)) j)" if "(pl(a := Ready)) b = Waiting" "waiting_for E b = {}" for b
    proof -
      have "b \<noteq> a" using that(1) by auto
      hence "pl b = Waiting" using that(1) by simp
      hence "\<exists>j < n. b \<in> set (U j)" using places_okD(9) [OF ok _ that(2)] by blast
      then obtain j where "j < n" "b \<in> set (U j)" by blast
      thus ?thesis using U [of j b] \<open>b \<noteq> a\<close> by blast
    qed
  qed
qed

lemma places_read:
  assumes ok: "places_ok n acts pl cur beh act E U" and i: "i < n" "U i = []" "cur i = None"
    and flags: "\<And>b. pa_sync_flags (acts' b) = pa_sync_flags (acts b)"
    and E': "E' = {e \<in> E. \<not> (fst e = i \<and> fst (snd e) = r)}"
    and st: "distinct st" "set st = {a. (i, r, a) \<in> E \<and> waiting_for E' a = {}}"
  shows "places_ok n acts' pl cur beh act E' (U(i := st))"
proof -
  have sub: "E' \<subseteq> E" by (auto simp: E')
  have keep: "waiting_for E' a = waiting_for E a" if "(i, r, a) \<notin> E" for a
    using that by (auto simp: waiting_for_def E')
  have wait: "pl a = Waiting" if "(i, r, a) \<in> E" for a
    using places_okD(3) [OF ok that] places_okD(4) [OF ok, of i a] i by auto
  have st_new: "a \<notin> set (U j)" if "a \<in> set st" "j < n" for a j
    using places_okD(8) [OF ok that(2), of a] that(1) st(2) by (auto simp: waiting_for_def)
  have 8: "pl a = Waiting \<and> waiting_for E' a = {}" if "j < n" "a \<in> set ((U(i := st)) j)" for j a
    using that st(2) wait places_okD(8) [OF ok that(1), of a] sub by (auto simp: waiting_for_def split: if_splits)
  have 9: "\<exists>j < n. a \<in> set ((U(i := st)) j)" if "pl a = Waiting" "waiting_for E' a = {}" for a
  proof (cases "(i, r, a) \<in> E")
    case True
    thus ?thesis using that st(2) i(1) by (intro exI [of _ i]) simp
  next
    case False
    have "\<exists>j < n. a \<in> set (U j)" using places_okD(9) [OF ok that(1)] that(2) keep [OF False] by simp
    then obtain j where "j < n" "a \<in> set (U j)" by blast
    thus ?thesis using i(2) by (intro exI [of _ j]) auto
  qed
  have 7: "j = k" if "j < n" "k < n" "a \<in> set ((U(i := st)) j)" "a \<in> set ((U(i := st)) k)" for j k a
    using that st_new places_okD(7) [OF ok that(1,2), of a] by (auto split: if_splits)
  have 6: "distinct ((U(i := st)) j)" if "j < n" for j using places_okD(6) [OF ok that] st(1) by simp
  show ?thesis
  proof (rule places_okI)
    show "(j, k, a) \<in> E' \<Longrightarrow> j < n \<and> act j \<and> (pl a = Waiting \<or> pl a = Running j \<and> beh j)" for j k a
      using places_okD(3) [OF ok, of j k a] sub by blast
    show "overloaded (acts' a) \<Longrightarrow> pl a \<noteq> Parked" for a using places_okD(2) [OF ok, of a] by (simp add: flags)
    show "muted_flag (acts' a) = (pl a = Waiting)" for a using places_okD(1) [OF ok, of a] by (simp add: flags)
  qed (fact places_okD(4,5) [OF ok] 6 7 8 9)+
qed

lemma places_suspend:
  assumes ok: "places_ok n acts pl cur beh act E U" and i: "cur i = None \<or> b" "(\<forall>r a. (i, r, a) \<notin> E) \<or> b"
  shows "places_ok n acts pl cur beh (act(i := b)) E U"
  using ok i unfolding places_ok_def by auto

end
