(* ===== verification/Backpressure_System.thy ===== *)
theory Backpressure_System
  imports Backpressure_Inv
begin

text \<open>
  Every command keeps the invariant, so no assertion fails in any run; every muted actor has a cause; and
  without one the schedulers by themselves bring all muted actors back, by a measure of the muted actors and the
  messages under way.
\<close>

section \<open>Every command keeps the invariant\<close>

abbreviation sched_of :: "bp_state \<Rightarrow> nat \<Rightarrow> scheduler_t" where
  "sched_of s i \<equiv> bp_scheds s i"

definition bp_waits :: "nat \<Rightarrow> (nat \<Rightarrow> scheduler_t) \<Rightarrow> waits" where
  "bp_waits n sc = {(i, r, a). i < n \<and> (r, a) \<in> map_waits (sc_mute_mapping (sc i))}"

fun work_unmutes :: "sched_work list \<Rightarrow> uint64_t list" where
  "work_unmutes [] = []"
| "work_unmutes (Unmute a # ws) = a # work_unmutes ws"
| "work_unmutes (Tell i a # ws) = work_unmutes ws"

definition bp_pending :: "nat \<Rightarrow> (nat \<Rightarrow> scheduler_t) \<Rightarrow> (nat \<times> uint64_t) set" where
  "bp_pending n sc = {(i, r). r \<in> set (sc_mq (sc i)) \<or> (\<exists>j < n. Tell i r \<in> set (sc_work (sc j)))}"

definition bp_inv :: "bp_state \<Rightarrow> bool" where
  "bp_inv s \<longleftrightarrow> (\<forall>i < bp_count s. map_ok (sc_mute_mapping (bp_scheds s i))) \<and>
     edges_ok (bp_actors s) (bp_waits (bp_count s) (bp_scheds s)) (bp_pending (bp_count s) (bp_scheds s)) \<and>
     places_ok (bp_count s) (bp_actors s) (bp_place s) (\<lambda>i. sc_current (bp_scheds s i)) (\<lambda>i. sc_behaviour (bp_scheds s i))
       (\<lambda>i. sc_active (bp_scheds s i)) (bp_waits (bp_count s) (bp_scheds s)) (\<lambda>i. work_unmutes (sc_work (bp_scheds s i)))"

lemma bp_invD:
  assumes "bp_inv s"
  shows "i < bp_count s \<Longrightarrow> map_ok (sc_mute_mapping (bp_scheds s i))"
    and "edges_ok (bp_actors s) (bp_waits (bp_count s) (bp_scheds s)) (bp_pending (bp_count s) (bp_scheds s))"
    and "places_ok (bp_count s) (bp_actors s) (bp_place s) (\<lambda>i. sc_current (bp_scheds s i)) (\<lambda>i. sc_behaviour (bp_scheds s i))
       (\<lambda>i. sc_active (bp_scheds s i)) (bp_waits (bp_count s) (bp_scheds s)) (\<lambda>i. work_unmutes (sc_work (bp_scheds s i)))"
  using assms unfolding bp_inv_def by blast+

lemma work_unmutes_simps [simp]:
  "work_unmutes (ws @ us) = work_unmutes ws @ work_unmutes us" "work_unmutes (map Unmute st) = st"
  "work_unmutes (map (\<lambda>i. Tell i a) is) = []"
proof -
  show "work_unmutes (ws @ us) = work_unmutes ws @ work_unmutes us" by (induction ws rule: work_unmutes.induct) auto
  show "work_unmutes (map Unmute st) = st" by (induction st) auto
  show "work_unmutes (map (\<lambda>i. Tell i a) is) = []" by (induction "is") auto
qed

lemmas bp_upd_defs = upd_actor_def upd_sched_def set_place_def

text \<open>Views of an updated scheduler.\<close>

lemma waits_same:
  assumes "sc_mute_mapping c = sc_mute_mapping (sc i)"
  shows "bp_waits n (sc(i := c)) = bp_waits n sc"
proof -
  have "sc_mute_mapping ((sc(i := c)) j) = sc_mute_mapping (sc j)" for j using assms by simp
  thus ?thesis by (simp add: bp_waits_def del: fun_upd_apply)
qed

lemma pending_same:
  assumes "sc_mq c = sc_mq (sc i)" and "sc_work c = sc_work (sc i)"
  shows "bp_pending n (sc(i := c)) = bp_pending n sc"
proof -
  have "sc_mq ((sc(i := c)) j) = sc_mq (sc j)" "sc_work ((sc(i := c)) j) = sc_work (sc j)" for j using assms by simp_all
  thus ?thesis by (simp add: bp_pending_def del: fun_upd_apply)
qed

lemma field_idem [simp]:
  "sc_current (sc i) = v \<Longrightarrow> (\<lambda>j. sc_current (sc j))(i := v) = (\<lambda>j. sc_current (sc j))"
  "sc_behaviour (sc i) = b \<Longrightarrow> (\<lambda>j. sc_behaviour (sc j))(i := b) = (\<lambda>j. sc_behaviour (sc j))"
  "sc_active (sc i) = b \<Longrightarrow> (\<lambda>j. sc_active (sc j))(i := b) = (\<lambda>j. sc_active (sc j))"
  "work_unmutes (sc_work (sc i)) = us \<Longrightarrow> (\<lambda>j. work_unmutes (sc_work (sc j)))(i := us) = (\<lambda>j. work_unmutes (sc_work (sc j)))"
  by auto

lemma bp_inv_upd:
  assumes inv: "bp_inv s" and ok: "map_ok (sc_mute_mapping c)"
    and E: "bp_waits (bp_count s) ((bp_scheds s)(i := c)) = E" and P: "bp_pending (bp_count s) ((bp_scheds s)(i := c)) = P"
    and edges: "edges_ok acts E P"
    and places: "places_ok (bp_count s) acts pl ((\<lambda>j. sc_current (bp_scheds s j))(i := sc_current c))
      ((\<lambda>j. sc_behaviour (bp_scheds s j))(i := sc_behaviour c)) ((\<lambda>j. sc_active (bp_scheds s j))(i := sc_active c)) E
      ((\<lambda>j. work_unmutes (sc_work (bp_scheds s j)))(i := work_unmutes (sc_work c)))"
  shows "bp_inv (s\<lparr>bp_actors := acts, bp_place := pl, bp_scheds := (bp_scheds s)(i := c)\<rparr>)"
proof -
  have f: "(\<lambda>j. f (((bp_scheds s)(i := c)) j)) = (\<lambda>j. f (bp_scheds s j))(i := f c)" for f :: "scheduler_t \<Rightarrow> 'x" by auto
  show ?thesis unfolding bp_inv_def
    using bp_invD(1) [OF inv] ok edges places f [of sc_current] f [of sc_behaviour] f [of sc_active]
      f [of "\<lambda>c. work_unmutes (sc_work c)"]
    by (simp add: E P del: fun_upd_apply) (simp add: fun_upd_apply)
qed

text \<open>The same when only the scheduler's own control changes.\<close>

lemma bp_inv_control:
  assumes inv: "bp_inv s" and i: "i < bp_count s"
    and c: "sc_mute_mapping c = sc_mute_mapping (bp_scheds s i)" "sc_mq c = sc_mq (bp_scheds s i)" "sc_work c = sc_work (bp_scheds s i)"
    and edges: "edges_ok acts (bp_waits (bp_count s) (bp_scheds s)) (bp_pending (bp_count s) (bp_scheds s))"
    and places: "places_ok (bp_count s) acts pl ((\<lambda>j. sc_current (bp_scheds s j))(i := sc_current c))
      ((\<lambda>j. sc_behaviour (bp_scheds s j))(i := sc_behaviour c)) ((\<lambda>j. sc_active (bp_scheds s j))(i := sc_active c))
      (bp_waits (bp_count s) (bp_scheds s)) (\<lambda>j. work_unmutes (sc_work (bp_scheds s j)))"
  shows "bp_inv (s\<lparr>bp_actors := acts, bp_place := pl, bp_scheds := (bp_scheds s)(i := c)\<rparr>)"
  using c bp_invD(1) [OF inv i] edges places
  by (intro bp_inv_upd [OF inv _ waits_same pending_same]) simp_all

text \<open>And when only actors change.\<close>

lemma bp_inv_actors:
  assumes "bp_inv s" and "edges_ok acts (bp_waits (bp_count s) (bp_scheds s)) (bp_pending (bp_count s) (bp_scheds s))"
    and "places_ok (bp_count s) acts pl (\<lambda>j. sc_current (bp_scheds s j)) (\<lambda>j. sc_behaviour (bp_scheds s j))
      (\<lambda>j. sc_active (bp_scheds s j)) (bp_waits (bp_count s) (bp_scheds s)) (\<lambda>j. work_unmutes (sc_work (bp_scheds s j)))"
  shows "bp_inv (s\<lparr>bp_actors := acts, bp_place := pl\<rparr>)"
  using assms by (simp add: bp_inv_def)

lemma in_run_cases:
  assumes "in_run i beh s f = r"
  obtains "r = Inr None" | a where "sc_current (bp_scheds s i) = Some a" "i < bp_count s" "sc_behaviour (bp_scheds s i) = beh"
    "sc_work (bp_scheds s i) = []" "r = f a"
  using assms by (auto simp: in_run_def split: option.splits if_splits)

definition bp_good :: "bp_state option res \<Rightarrow> bool" where
  "bp_good r \<longleftrightarrow> (\<exists>x. r = Inr x \<and> (\<forall>s'. x = Some s' \<longrightarrow> bp_inv s'))"

lemma bp_good_simps [simp]: "bp_good (Inr None)" "bp_good (Inr (Some s')) \<longleftrightarrow> bp_inv s'" "bp_good (done_with (Inr s')) \<longleftrightarrow> bp_inv s'"
  by (simp_all add: bp_good_def done_with_def)

lemma running_place:
  assumes "bp_inv s" and "sc_current (bp_scheds s i) = Some a" and "i < bp_count s"
  shows "bp_place s a = Running i" and "\<not> muted_flag (bp_actors s a)"
  using places_okD(4) [OF bp_invD(3) [OF assms(1)], of i a] places_okD(1) [OF bp_invD(3) [OF assms(1)], of a] assms(2,3) by auto

text \<open>
  What the control of the threads keeps: their indices are known, a batch is not overrun, and the cycle detector handles no
  application message.
\<close>

definition run_ok :: "bp_state \<Rightarrow> bool" where
  "run_ok s \<longleftrightarrow> (\<forall>i < bp_count s. sc_index (bp_scheds s i) \<noteq> PONY_UNKNOWN_SCHEDULER_INDEX \<and> sc_app (bp_scheds s i) \<le> PONY_SCHED_BATCH \<and>
     (sc_behaviour (bp_scheds s i) \<longrightarrow> sc_app (bp_scheds s i) < PONY_SCHED_BATCH) \<and>
     (sc_current (bp_scheds s i) = Some (bp_cycle s) \<longrightarrow> sc_app (bp_scheds s i) = 0 \<and> \<not> sc_behaviour (bp_scheds s i)))"

lemma run_okD:
  assumes "run_ok s" and "i < bp_count s"
  shows "sc_index (bp_scheds s i) \<noteq> PONY_UNKNOWN_SCHEDULER_INDEX" and "sc_app (bp_scheds s i) \<le> PONY_SCHED_BATCH"
    and "sc_behaviour (bp_scheds s i) \<Longrightarrow> sc_app (bp_scheds s i) < PONY_SCHED_BATCH"
    and "sc_current (bp_scheds s i) = Some (bp_cycle s) \<Longrightarrow> sc_app (bp_scheds s i) = 0 \<and> \<not> sc_behaviour (bp_scheds s i)"
  using assms unfolding run_ok_def by blast+

lemma good_Run: "bp_inv s \<Longrightarrow> bp_good (bp_do (Run i a) s)"
proof -
  assume inv: "bp_inv s"
  have "bp_inv (upd_sched i (\<lambda>c. c\<lparr>sc_current := Some a, sc_behaviour := False, sc_app := 0\<rparr>) (set_place a (Running i) s))"
    and "\<not> muted_flag (bp_actors s a)" if free: "bp_free i s" and r: "bp_place s a = Ready"
  proof -
    let ?c = "(bp_scheds s i)\<lparr>sc_current := Some a, sc_behaviour := False, sc_app := 0\<rparr>"
    have "bp_inv (s\<lparr>bp_actors := bp_actors s, bp_place := (bp_place s)(a := Running i), bp_scheds := (bp_scheds s)(i := ?c)\<rparr>)"
      using free places_run [OF bp_invD(3) [OF inv] r, of i]
      by (intro bp_inv_control [OF inv _ _ _ _ bp_invD(2) [OF inv]]) (simp_all add: bp_free_def)
    thus "bp_inv (upd_sched i (\<lambda>c. c\<lparr>sc_current := Some a, sc_behaviour := False, sc_app := 0\<rparr>) (set_place a (Running i) s))"
      by (simp add: bp_upd_defs)
    show "\<not> muted_flag (bp_actors s a)" using places_okD(1) [OF bp_invD(3) [OF inv], of a] r by simp
  qed
  thus ?thesis by (simp add: actor_run_begin_def)
qed

lemma good_Begin: "bp_inv s \<Longrightarrow> bp_good (bp_do (Begin i) s)"
proof -
  assume inv: "bp_inv s"
  show ?thesis
  proof (rule in_run_cases [OF bp_do.simps(2) [symmetric]])
    fix a assume a: "sc_current (bp_scheds s i) = Some a" "i < bp_count s"
      and r: "bp_do (Begin i) s = (if batch_full i s \<or> ponyint_is_cycle s a then Inr None
        else Inr (Some (upd_sched i (\<lambda>c. c\<lparr>sc_behaviour := True\<rparr>) s)))"
    let ?c = "(bp_scheds s i)\<lparr>sc_behaviour := True\<rparr>"
    have "bp_inv (s\<lparr>bp_actors := bp_actors s, bp_place := bp_place s, bp_scheds := (bp_scheds s)(i := ?c)\<rparr>)"
      using a places_behaviour [OF bp_invD(3) [OF inv] a, of True]
      by (intro bp_inv_control [OF inv _ _ _ _ bp_invD(2) [OF inv]]) simp_all
    thus ?thesis using r by (simp add: bp_upd_defs)
  qed (simp del: bp_do.simps)
qed


text \<open>The running actor changes its flags and perhaps tells the schedulers.\<close>

lemma start_global_unmute_fields:
  "bp_actors (ponyint_sched_start_global_unmute i a s) = bp_actors s"
  "bp_place (ponyint_sched_start_global_unmute i a s) = bp_place s"
  "bp_count (ponyint_sched_start_global_unmute i a s) = bp_count s"
  by (simp_all add: ponyint_sched_start_global_unmute_def upd_sched_def Let_def)

lemma pending_tell:
  assumes i: "i < n" and w: "sc_work c = map (\<lambda>j. Tell j a) (filter p [0..<n]) @ sc_work (sc i)" "sc_mq c = sc_mq (sc i)"
  shows "bp_pending n (sc(i := c)) = bp_pending n sc \<union> {(j, a) |j. j < n \<and> p j}"
proof -
  have mq: "sc_mq ((sc(i := c)) j) = sc_mq (sc j)" for j using w(2) by simp
  have "(\<exists>k<n. Tell j r \<in> set (sc_work ((sc(i := c)) k))) \<longleftrightarrow>
      (\<exists>k<n. Tell j r \<in> set (sc_work (sc k))) \<or> (r = a \<and> j < n \<and> p j)" for j r
  proof -
    have "Tell j r \<in> set (sc_work ((sc(i := c)) k)) \<longleftrightarrow>
        Tell j r \<in> set (sc_work (sc k)) \<or> (k = i \<and> r = a \<and> j < n \<and> p j)" for k
      using w(1) by auto
    thus ?thesis using i by blast
  qed
  thus ?thesis by (auto simp: bp_pending_def mq simp del: fun_upd_apply)
qed

lemma bp_inv_tell:
  assumes inv: "bp_inv s" and i: "i < bp_count s" and cnt: "pa_muted x = pa_muted (bp_actors s a)"
    and ov: "overloaded x \<longrightarrow> overloaded (bp_actors s a)"
    and places: "places_ok (bp_count s) ((bp_actors s)(a := x)) pl (\<lambda>j. sc_current (bp_scheds s j)) (\<lambda>j. sc_behaviour (bp_scheds s j))
      (\<lambda>j. sc_active (bp_scheds s j)) (bp_waits (bp_count s) (bp_scheds s)) (\<lambda>j. work_unmutes (sc_work (bp_scheds s j)))"
  shows "bp_inv (ponyint_sched_start_global_unmute i a (s\<lparr>bp_actors := (bp_actors s)(a := x), bp_place := pl\<rparr>))"
proof -
  let ?act = "\<lambda>j. sc_active (bp_scheds s j)"
  let ?c = "(bp_scheds s i)\<lparr>sc_work := map (\<lambda>j. Tell j a) (filter ?act [0..<bp_count s]) @ sc_work (bp_scheds s i)\<rparr>"
  let ?E = "bp_waits (bp_count s) (bp_scheds s)" and ?P = "bp_pending (bp_count s) (bp_scheds s)"
  have E: "bp_waits (bp_count s) ((bp_scheds s)(i := ?c)) = ?E" by (rule waits_same) simp
  have P: "bp_pending (bp_count s) ((bp_scheds s)(i := ?c)) = ?P \<union> {(j, a) |j. j < bp_count s \<and> ?act j}"
    by (rule pending_tell [OF i]) simp_all
  have "edges_ok ((bp_actors s)(a := x)) ?E (?P \<union> {(j, a) |j. j < bp_count s \<and> ?act j})"
  proof (rule edges_ok_flags [OF bp_invD(2) [OF inv] cnt])
    show "overloaded x \<Longrightarrow> waiting_for ?E a = {}" using ov edges_okD(6) [OF bp_invD(2) [OF inv], of a] by blast
    show "(j, a) \<in> ?P \<union> {(j, a) |j. j < bp_count s \<and> ?act j} \<or> triggers_muting x" if "(j, a, b) \<in> ?E" for j b
      using places_okD(3) [OF bp_invD(3) [OF inv] that] by blast
  qed blast
  moreover have "map_ok (sc_mute_mapping ?c)" using bp_invD(1) [OF inv i] by simp
  ultimately have "bp_inv (s\<lparr>bp_actors := (bp_actors s)(a := x), bp_place := pl, bp_scheds := (bp_scheds s)(i := ?c)\<rparr>)"
    using places by (intro bp_inv_upd [OF inv _ E P]) simp_all
  thus ?thesis by (simp add: ponyint_sched_start_global_unmute_def upd_sched_def)
qed

lemma bp_inv_flags:
  assumes inv: "bp_inv s" and cnt: "pa_muted x = pa_muted (bp_actors s a)"
    and ov: "overloaded x \<longrightarrow> waiting_for (bp_waits (bp_count s) (bp_scheds s)) a = {}"
    and trig: "triggers_muting (bp_actors s a) \<longrightarrow> triggers_muting x"
    and places: "places_ok (bp_count s) ((bp_actors s)(a := x)) pl (\<lambda>j. sc_current (bp_scheds s j)) (\<lambda>j. sc_behaviour (bp_scheds s j))
      (\<lambda>j. sc_active (bp_scheds s j)) (bp_waits (bp_count s) (bp_scheds s)) (\<lambda>j. work_unmutes (sc_work (bp_scheds s j)))"
  shows "bp_inv (s\<lparr>bp_actors := (bp_actors s)(a := x), bp_place := pl\<rparr>)"
proof (rule bp_inv_actors [OF inv _ places])
  show "edges_ok ((bp_actors s)(a := x)) (bp_waits (bp_count s) (bp_scheds s)) (bp_pending (bp_count s) (bp_scheds s))"
    using ov trig edges_okD(5) [OF bp_invD(2) [OF inv], of _ a]
    by (intro edges_ok_flags [OF bp_invD(2) [OF inv] cnt]) auto
qed

lemma upd_actor_place: "upd_actor a f s = s\<lparr>bp_actors := (bp_actors s)(a := f (bp_actors s a)), bp_place := bp_place s\<rparr>"
  by (simp add: upd_actor_def)

lemma good_Apply: "bp_inv s \<Longrightarrow> bp_good (bp_do (Apply i) s)"
proof -
  assume inv: "bp_inv s"
  show ?thesis
  proof (rule in_run_cases [OF bp_do.simps(5) [symmetric]])
    fix a assume a: "sc_current (bp_scheds s i) = Some a" "i < bp_count s"
      and r: "bp_do (Apply i) s = Inr (Some (pony_apply_backpressure a s))"
    have "bp_inv (pony_apply_backpressure a s)"
      unfolding pony_apply_backpressure_def upd_actor_place
      using edges_okD(6) [OF bp_invD(2) [OF inv], of a] places_flags [OF bp_invD(3) [OF inv], of _ a] places_okD(2) [OF bp_invD(3) [OF inv], of a]
      by (intro bp_inv_flags [OF inv]) auto
    thus ?thesis using r by simp
  qed (simp del: bp_do.simps)
qed

lemma good_Release: "bp_inv s \<Longrightarrow> bp_good (bp_do (Release i) s)"
proof -
  assume inv: "bp_inv s"
  show ?thesis
  proof (rule in_run_cases [OF bp_do.simps(6) [symmetric]])
    fix a assume a: "sc_current (bp_scheds s i) = Some a" "i < bp_count s"
      and r: "bp_do (Release i) s = Inr (Some (pony_release_backpressure i a s))"
    let ?x = "unset_sync_flag (bp_actors s a) ACTOR_SYNC_FLAG_UNDER_PRESSURE"
    have places: "places_ok (bp_count s) ((bp_actors s)(a := ?x)) (bp_place s) (\<lambda>j. sc_current (bp_scheds s j)) (\<lambda>j. sc_behaviour (bp_scheds s j))
      (\<lambda>j. sc_active (bp_scheds s j)) (bp_waits (bp_count s) (bp_scheds s)) (\<lambda>j. work_unmutes (sc_work (bp_scheds s j)))"
      using places_okD(2) [OF bp_invD(3) [OF inv], of a] by (intro places_flags [OF bp_invD(3) [OF inv]]) auto
    have "bp_inv (pony_release_backpressure i a s)"
    proof (cases "overloaded (bp_actors s a)")
      case True
      have "bp_inv (upd_actor a (\<lambda>x. unset_sync_flag x ACTOR_SYNC_FLAG_UNDER_PRESSURE) s)"
        unfolding upd_actor_place using True edges_okD(6) [OF bp_invD(2) [OF inv], of a]
        by (intro bp_inv_flags [OF inv _ _ _ places]) auto
      thus ?thesis using True by (simp add: pony_release_backpressure_def upd_actor_def)
    next
      case False
      have "bp_inv (ponyint_sched_start_global_unmute i a (upd_actor a (\<lambda>x. unset_sync_flag x ACTOR_SYNC_FLAG_UNDER_PRESSURE) s))"
        unfolding upd_actor_place by (rule bp_inv_tell [OF inv a(2) _ _ places]) simp_all
      thus ?thesis using False by (simp add: pony_release_backpressure_def upd_actor_def)
    qed
    thus ?thesis using r by simp
  qed (simp del: bp_do.simps)
qed


lemma good_Drained: "bp_inv s \<Longrightarrow> run_ok s \<Longrightarrow> bp_good (bp_do (Drained i) s)"
proof -
  assume inv: "bp_inv s" and ok: "run_ok s"
  show ?thesis
  proof (rule in_run_cases [OF bp_do.simps(9) [symmetric]])
    fix a assume a: "sc_current (bp_scheds s i) = Some a" "i < bp_count s"
      and r: "bp_do (Drained i) s = (if batch_full i s then Inr None else done_with (actor_run_drained i a s))"
    let ?x = "unset_sync_flag (bp_actors s a) ACTOR_SYNC_FLAG_OVERLOADED"
    have places: "places_ok (bp_count s) ((bp_actors s)(a := ?x)) (bp_place s) (\<lambda>j. sc_current (bp_scheds s j)) (\<lambda>j. sc_behaviour (bp_scheds s j))
      (\<lambda>j. sc_active (bp_scheds s j)) (bp_waits (bp_count s) (bp_scheds s)) (\<lambda>j. work_unmutes (sc_work (bp_scheds s j)))"
      by (intro places_flags [OF bp_invD(3) [OF inv]]) auto
    have "bp_inv (actor_unsetoverloaded i a s)"
    proof (cases "pressed (bp_actors s a)")
      case True
      have "bp_inv (upd_actor a (\<lambda>x. unset_sync_flag x ACTOR_SYNC_FLAG_OVERLOADED) s)"
        unfolding upd_actor_place using True by (intro bp_inv_flags [OF inv _ _ _ places]) auto
      thus ?thesis using True by (simp add: actor_unsetoverloaded_def upd_actor_def)
    next
      case False
      have "bp_inv (ponyint_sched_start_global_unmute i a (upd_actor a (\<lambda>x. unset_sync_flag x ACTOR_SYNC_FLAG_OVERLOADED) s))"
        unfolding upd_actor_place by (rule bp_inv_tell [OF inv a(2) _ _ places]) simp_all
      thus ?thesis using False by (simp add: actor_unsetoverloaded_def upd_actor_def)
    qed
    thus ?thesis using r inv running_place(2) [OF inv a] run_okD(2) [OF ok a(2)] by (simp add: actor_run_drained_def batch_full_def)
  qed (simp del: bp_do.simps)
qed

lemma good_Look: "bp_inv s \<Longrightarrow> bp_good (bp_do (Look i to) s)"
proof -
  assume inv: "bp_inv s"
  show ?thesis
  proof (rule in_run_cases [OF bp_do.simps(3) [symmetric]])
    fix a assume a: "sc_current (bp_scheds s i) = Some a" "i < bp_count s" "sc_behaviour (bp_scheds s i) = True"
      and r: "bp_do (Look i to) s = done_with (maybe_mark_should_mute i (Some a) to s)"
    let ?sc = "bp_scheds s" and ?n = "bp_count s" and ?m = "sc_mute_mapping (bp_scheds s i)"
    let ?E = "bp_waits ?n ?sc" and ?P = "bp_pending ?n ?sc"
    show ?thesis
    proof (cases "triggers_muting (bp_actors s to) \<and> \<not> overloaded (bp_actors s a) \<and> \<not> pressed (bp_actors s a) \<and> a \<noteq> to")
      case False
      hence "maybe_mark_should_mute i (Some a) to s = Inr s" by (auto simp: maybe_mark_should_mute_def)
      thus ?thesis using r inv by simp
    next
      case True
      let ?acts = "if (to, a) \<in> map_waits ?m then bp_actors s
        else (bp_actors s)(a := (bp_actors s a)\<lparr>pa_muted := pa_muted (bp_actors s a) + 1\<rparr>)"
      obtain m' where m': "ponyint_sched_mute ?m (bp_actors s) a to = Inr (m', ?acts)" "map_ok m'"
        "map_waits m' = insert (to, a) (map_waits ?m)"
        using sched_mute_waits [OF bp_invD(1) [OF inv a(2)]] True by blast
      let ?c = "(?sc i)\<lparr>sc_mute_mapping := m'\<rparr>"
      have mem: "(i, to, a) \<in> ?E \<longleftrightarrow> (to, a) \<in> map_waits ?m" using a(2) by (simp add: bp_waits_def)
      have E: "bp_waits ?n (?sc(i := ?c)) = insert (i, to, a) ?E"
        using a(2) m'(3) by (auto simp: bp_waits_def split: if_splits)
      have P: "bp_pending ?n (?sc(i := ?c)) = ?P" by (rule pending_same) simp_all
      have home: "j = i" if "(j, r', a) \<in> ?E" for j r'
        using places_okD(3) [OF bp_invD(3) [OF inv] that] running_place [OF inv a(1,2)] by auto
      have calm: "\<not> triggers_muting (bp_actors s a)" using True running_place(2) [OF inv a(1,2)] by simp
      have edges: "edges_ok ?acts (insert (i, to, a) ?E) ?P"
      proof (cases "(to, a) \<in> map_waits ?m")
        case True
        thus ?thesis using bp_invD(2) [OF inv] mem by (simp add: insert_absorb)
      next
        case False
        thus ?thesis using edges_ok_mute [OF bp_invD(2) [OF inv], of a to i] True mem home calm by simp
      qed
      have flags: "pa_sync_flags (?acts b) = pa_sync_flags (bp_actors s b)" for b by simp
      have places: "places_ok ?n ?acts (bp_place s) (\<lambda>j. sc_current (?sc j)) (\<lambda>j. sc_behaviour (?sc j))
          (\<lambda>j. sc_active (?sc j)) (insert (i, to, a) ?E) (\<lambda>j. work_unmutes (sc_work (?sc j)))"
        by (rule places_acts [OF places_look [OF bp_invD(3) [OF inv]]]) (use a flags in simp_all)
      have "bp_inv (s\<lparr>bp_actors := ?acts, bp_place := bp_place s, bp_scheds := ?sc(i := ?c)\<rparr>)"
        using places m'(2) by (intro bp_inv_upd [OF inv _ E P edges]) simp_all
      moreover have "maybe_mark_should_mute i (Some a) to s =
          Inr (s\<lparr>bp_actors := ?acts, bp_place := bp_place s, bp_scheds := ?sc(i := ?c)\<rparr>)"
        using True m'(1) by (simp add: maybe_mark_should_mute_def upd_sched_def)
      ultimately show ?thesis using r by simp
    qed
  qed (simp del: bp_do.simps)
qed

lemma good_Push: "bp_inv s \<Longrightarrow> bp_good (bp_do (Push a) s)"
proof -
  assume inv: "bp_inv s"
  have "bp_inv (sched_push a s)" if p: "bp_place s a = Parked"
  proof -
    have "bp_inv (s\<lparr>bp_actors := bp_actors s, bp_place := (bp_place s)(a := Ready)\<rparr>)"
      by (rule bp_inv_actors [OF inv bp_invD(2) [OF inv] places_push [OF bp_invD(3) [OF inv] p]])
    thus ?thesis using inv by (simp add: sched_push_def set_place_def)
  qed
  thus ?thesis by simp
qed

lemma bp_inv_stop:
  assumes inv: "bp_inv s" and a: "sc_current (bp_scheds s i) = Some a" "i < bp_count s" "\<not> sc_behaviour (bp_scheds s i)"
    and x: "pa_muted x = pa_muted (bp_actors s a)" "muted_flag x = muted_flag (bp_actors s a)"
      "triggers_muting (bp_actors s a) \<longrightarrow> triggers_muting x"
    and p: "p = Ready \<or> p = Parked \<and> \<not> overloaded x"
  shows "bp_inv (actor_run_stop i a p (upd_actor a (\<lambda>_. x) s))"
proof -
  let ?E = "bp_waits (bp_count s) (bp_scheds s)" and ?P = "bp_pending (bp_count s) (bp_scheds s)"
  let ?c = "(bp_scheds s i)\<lparr>sc_current := None, sc_behaviour := False\<rparr>"
  have place: "bp_place s a = Running i" by (rule running_place [OF inv a(1,2)])
  have none: "waiting_for ?E a = {}"
    using places_okD(3) [OF bp_invD(3) [OF inv], of _ _ a] place a(3) by (fastforce simp: waiting_for_def)
  have "edges_ok ((bp_actors s)(a := x)) ?E ?P"
    using none x edges_okD(5) [OF bp_invD(2) [OF inv], of _ a] by (intro edges_ok_flags [OF bp_invD(2) [OF inv] x(1)]) auto
  moreover have "places_ok (bp_count s) ((bp_actors s)(a := x)) (bp_place s) (\<lambda>j. sc_current (bp_scheds s j))
      (\<lambda>j. sc_behaviour (bp_scheds s j)) (\<lambda>j. sc_active (bp_scheds s j)) ?E (\<lambda>j. work_unmutes (sc_work (bp_scheds s j)))"
    using place x(2) by (intro places_flags [OF bp_invD(3) [OF inv]]) simp_all
  note places_stop [OF this, of i a p]
  ultimately have "bp_inv (s\<lparr>bp_actors := (bp_actors s)(a := x), bp_place := (bp_place s)(a := p), bp_scheds := (bp_scheds s)(i := ?c)\<rparr>)"
    using a p by (intro bp_inv_control [OF inv a(2)]) simp_all
  thus ?thesis by (simp add: actor_run_stop_def bp_upd_defs)
qed

lemma good_Limit: "bp_inv s \<Longrightarrow> run_ok s \<Longrightarrow> bp_good (bp_do (Limit i) s)"
proof -
  assume inv: "bp_inv s" and ok: "run_ok s"
  show ?thesis
  proof (rule in_run_cases [OF bp_do.simps(8) [symmetric]])
    fix a assume a: "sc_current (bp_scheds s i) = Some a" "i < bp_count s" "sc_behaviour (bp_scheds s i) = False"
      and r: "bp_do (Limit i) s = (if batch_full i s then done_with (actor_run_limit i a s) else Inr None)"
    have "\<not> ponyint_is_cycle s a" if "batch_full i s"
      using run_okD(4) [OF ok a(2)] a(1) that by (auto simp: batch_full_def ponyint_is_cycle_def PONY_SCHED_BATCH_def)
    hence "\<exists>s'. actor_run_limit i a s = Inr s' \<and> bp_inv s'" if "batch_full i s" unfolding actor_run_limit_def
      using that a by (auto simp: batch_limit_reached_def actor_setoverloaded_def intro!: bp_inv_stop [OF inv])
    thus ?thesis using r by auto
  qed (simp del: bp_do.simps)
qed

lemma upd_actor_id: "upd_actor a (\<lambda>_. bp_actors s a) s = s"
  by (simp add: upd_actor_def)

lemma good_Finish: "bp_inv s \<Longrightarrow> bp_good (bp_do (Finish i park) s)"
proof -
  assume inv: "bp_inv s"
  show ?thesis
  proof (rule in_run_cases [OF bp_do.simps(10) [symmetric]])
    fix a assume a: "sc_current (bp_scheds s i) = Some a" "i < bp_count s" "sc_behaviour (bp_scheds s i) = False"
      and r: "bp_do (Finish i park) s = (if batch_full i s \<or> has_sync_flag (bp_actors s a) ACTOR_SYNC_FLAG_OVERLOADED then Inr None
        else Inr (Some (actor_run_stop i a (if park then Parked else Ready) s)))"
    have "bp_inv (actor_run_stop i a (if park then Parked else Ready) s)" if "\<not> overloaded (bp_actors s a)"
      using bp_inv_stop [OF inv a(1,2), of "bp_actors s a" "if park then Parked else Ready"] a(3) that
      by (simp add: upd_actor_id split: if_splits)
    thus ?thesis using r by simp
  qed (simp del: bp_do.simps)
qed

lemma good_End: "bp_inv s \<Longrightarrow> bp_good (bp_do (End i) s)"
proof -
  assume inv: "bp_inv s"
  show ?thesis
  proof (rule in_run_cases [OF bp_do.simps(7) [symmetric]])
    fix a assume a: "sc_current (bp_scheds s i) = Some a" "i < bp_count s" "sc_behaviour (bp_scheds s i) = True"
      and r: "bp_do (End i) s = Inr (Some (actor_behaviour_end i a s))"
    let ?E = "bp_waits (bp_count s) (bp_scheds s)"
    have zero: "pa_muted (bp_actors s a) = 0 \<longleftrightarrow> waiting_for ?E a = {}" by (rule muted_zero [OF bp_invD(2) [OF inv]])
    have "bp_inv (actor_behaviour_end i a s)"
    proof (cases "pa_muted (bp_actors s a) = 0")
      case True
      let ?c = "(bp_scheds s i)\<lparr>sc_app := sc_app (bp_scheds s i) + 1, sc_behaviour := False\<rparr>"
      have "bp_inv (s\<lparr>bp_actors := bp_actors s, bp_place := bp_place s, bp_scheds := (bp_scheds s)(i := ?c)\<rparr>)"
        using a zero True places_behaviour [OF bp_invD(3) [OF inv] a(1,2), of False]
        by (intro bp_inv_control [OF inv _ _ _ _ bp_invD(2) [OF inv]]) simp_all
      thus ?thesis using True by (simp add: actor_behaviour_end_def maybe_should_mute_def bp_upd_defs)
    next
      case False
      let ?c = "(bp_scheds s i)\<lparr>sc_app := sc_app (bp_scheds s i) + 1, sc_current := None, sc_behaviour := False\<rparr>" and ?x = "mute_actor (bp_actors s a)"
      have none: "waiting_for ?E a \<noteq> {}" using False zero by simp
      have "edges_ok ((bp_actors s)(a := ?x)) ?E (bp_pending (bp_count s) (bp_scheds s))"
        using edges_okD(6) [OF bp_invD(2) [OF inv], of a] by (intro edges_ok_flags [OF bp_invD(2) [OF inv]]) auto
      moreover have "places_ok (bp_count s) ((bp_actors s)(a := ?x)) ((bp_place s)(a := Waiting))
          ((\<lambda>j. sc_current (bp_scheds s j))(i := None)) ((\<lambda>j. sc_behaviour (bp_scheds s j))(i := False))
          (\<lambda>j. sc_active (bp_scheds s j)) ?E (\<lambda>j. work_unmutes (sc_work (bp_scheds s j)))"
        by (rule places_mute [OF bp_invD(3) [OF inv] a(1,2) none]) simp_all
      ultimately have "bp_inv (s\<lparr>bp_actors := (bp_actors s)(a := ?x), bp_place := (bp_place s)(a := Waiting), bp_scheds := (bp_scheds s)(i := ?c)\<rparr>)"
        by (intro bp_inv_control [OF inv a(2)]) simp_all
      thus ?thesis using False by (simp add: actor_behaviour_end_def maybe_should_mute_def actor_run_stop_def bp_upd_defs word_gt_0)
    qed
    thus ?thesis using r by simp
  qed (simp del: bp_do.simps)
qed


lemma good_Suspend: "bp_inv s \<Longrightarrow> bp_good (bp_do (Suspend i) s)"
proof -
  assume inv: "bp_inv s"
  have "bp_inv (upd_sched i (\<lambda>c. c\<lparr>sc_active := False\<rparr>) s)"
    if free: "bp_free i s" and e: "sc_mute_mapping (bp_scheds s i) = []"
  proof -
    let ?c = "(bp_scheds s i)\<lparr>sc_active := False\<rparr>"
    have "(i, r, a) \<notin> bp_waits (bp_count s) (bp_scheds s)" for r a using e by (simp add: bp_waits_def map_waits_def)
    hence "bp_inv (s\<lparr>bp_actors := bp_actors s, bp_place := bp_place s, bp_scheds := (bp_scheds s)(i := ?c)\<rparr>)"
      using free places_suspend [OF bp_invD(3) [OF inv], of i False]
      by (intro bp_inv_control [OF inv _ _ _ _ bp_invD(2) [OF inv]]) (simp_all add: bp_free_def)
    thus ?thesis by (simp add: bp_upd_defs)
  qed
  thus ?thesis by simp
qed

lemma good_Wake: "bp_inv s \<Longrightarrow> bp_good (bp_do (Wake i) s)"
proof -
  assume inv: "bp_inv s"
  have "bp_inv (upd_sched i (\<lambda>c. c\<lparr>sc_active := True\<rparr>) s)" if i: "i < bp_count s"
  proof -
    let ?c = "(bp_scheds s i)\<lparr>sc_active := True\<rparr>"
    have "bp_inv (s\<lparr>bp_actors := bp_actors s, bp_place := bp_place s, bp_scheds := (bp_scheds s)(i := ?c)\<rparr>)"
      using i places_suspend [OF bp_invD(3) [OF inv], of i True]
      by (intro bp_inv_control [OF inv _ _ _ _ bp_invD(2) [OF inv]]) simp_all
    thus ?thesis by (simp add: bp_upd_defs)
  qed
  thus ?thesis by simp
qed

lemma good_Read: "bp_inv s \<Longrightarrow> run_ok s \<Longrightarrow> bp_good (bp_do (Read i visit) s)"
proof -
  assume inv: "bp_inv s" and ok: "run_ok s"
  show ?thesis
  proof (cases "bp_free i s \<and> sc_mq (bp_scheds s i) \<noteq> [] \<and> distinct visit \<and>
      set visit = set (mute_senders (sc_mute_mapping (bp_scheds s i)) (hd (sc_mq (bp_scheds s i))))")
    case True
    let ?sc = "bp_scheds s" and ?n = "bp_count s" and ?m = "sc_mute_mapping (bp_scheds s i)" and ?acts = "bp_actors s"
    let ?E = "bp_waits ?n ?sc" and ?P = "bp_pending ?n ?sc"
    obtain r rest where mq: "sc_mq (?sc i) = r # rest" using True by (cases "sc_mq (?sc i)") auto
    have i: "i < ?n" "sc_current (?sc i) = None" "sc_work (?sc i) = []" using True by (auto simp: bp_free_def)
    have mem: "(i, r, a) \<in> ?E \<longleftrightarrow> (r, a) \<in> map_waits ?m" for a using i(1) by (simp add: bp_waits_def)
    define E' where "E' = {e \<in> ?E. \<not> (fst e = i \<and> fst (snd e) = r)}"
    define acts' where "acts' = (\<lambda>a. if (i, r, a) \<in> ?E then (?acts a)\<lparr>pa_muted := pa_muted (?acts a) - 1\<rparr> else ?acts a)"
    have acts': "acts' a = (if (i, r, a) \<in> ?E then (?acts a)\<lparr>pa_muted := pa_muted (?acts a) - 1\<rparr> else ?acts a)" for a
      by (simp add: acts'_def)
    note un = edges_ok_unmute [OF bp_invD(2) [OF inv] acts' E'_def]
    have v: "distinct visit" "set visit = set (mute_senders ?m r)" using True mq by simp_all
    obtain m' acts2 st where u: "ponyint_sched_unmute_senders visit ?m ?acts r = Inr (m', acts2, st)" "map_ok m'"
      "map_waits m' = {e \<in> map_waits ?m. fst e \<noteq> r}"
      "\<And>a. acts2 a = (if (r, a) \<in> map_waits ?m then (?acts a)\<lparr>pa_muted := pa_muted (?acts a) - 1\<rparr> else ?acts a)"
      "set st = {a. (r, a) \<in> map_waits ?m \<and> pa_muted (?acts a) = 1}" "distinct st"
      using unmute_senders_waits [OF bp_invD(1) [OF inv i(1)], of r ?acts visit] un(3) mem v by blast
    have acts2: "acts2 = acts'" by (rule ext) (simp add: u(4) acts' mem)
    let ?c = "(?sc i)\<lparr>sc_mute_mapping := m', sc_mq := rest, sc_work := map Unmute st\<rparr>"
    have E: "bp_waits ?n (?sc(i := ?c)) = E'"
    proof -
      have mem': "(k, q, a) \<in> bp_waits ?n (?sc(i := ?c)) \<longleftrightarrow> (k, q, a) \<in> E'" for k q a
        using i(1) u(3) by (cases "k = i") (simp_all add: bp_waits_def E'_def)
      thus ?thesis by (simp add: set_eq_iff split_paired_All del: fun_upd_apply)
    qed
    have mqs: "sc_mq ((?sc(i := ?c)) j) = (if j = i then rest else sc_mq (?sc j))" for j by simp
    have works: "Tell j k \<in> set (sc_work ((?sc(i := ?c)) l)) \<longleftrightarrow> Tell j k \<in> set (sc_work (?sc l))" for j k l using i(3) by auto
    have less: "?P - {(i, r)} \<subseteq> bp_pending ?n (?sc(i := ?c))"
      unfolding bp_pending_def mqs works using mq by (auto split: if_splits)
    have st: "set st = {a. (i, r, a) \<in> ?E \<and> waiting_for E' a = {}}" using u(5) un(2) [OF less] mem by auto
    have places: "places_ok ?n acts' (bp_place s) (\<lambda>j. sc_current (?sc j)) (\<lambda>j. sc_behaviour (?sc j))
        (\<lambda>j. sc_active (?sc j)) E' ((\<lambda>j. work_unmutes (sc_work (?sc j)))(i := st))"
      by (rule places_read [OF bp_invD(3) [OF inv] i(1) _ i(2) _ E'_def u(6) st]) (use i(3) in \<open>simp_all add: acts'\<close>)
    have "bp_inv (s\<lparr>bp_actors := acts', bp_place := bp_place s, bp_scheds := ?sc(i := ?c)\<rparr>)"
      using places u(2) by (intro bp_inv_upd [OF inv _ E refl un(1) [OF less]]) simp_all
    moreover have "read_msg visit i r s = Inr (s\<lparr>bp_actors := acts', bp_place := bp_place s, bp_scheds := ?sc(i := ?c)\<rparr>)"
      using u(1) mq run_okD(1) [OF ok i(1)] by (simp add: read_msg_def upd_sched_def acts2)
    ultimately show ?thesis using True mq by simp
  qed (simp only: bp_do.simps bp_good_simps if_False)
qed

lemma bp_inv_send:
  assumes inv: "bp_inv s" and i: "i < bp_count s" and w: "sc_work (bp_scheds s i) = Tell j a # ws"
  shows "bp_inv (send_msg j a (upd_sched i (\<lambda>c. c\<lparr>sc_work := ws\<rparr>) s))"
proof -
  let ?sc = "bp_scheds s" and ?n = "bp_count s"
  let ?sc' = "bp_scheds (send_msg j a (upd_sched i (\<lambda>c. c\<lparr>sc_work := ws\<rparr>) s))"
  have rest: "bp_actors (send_msg j a (upd_sched i (\<lambda>c. c\<lparr>sc_work := ws\<rparr>) s)) = bp_actors s"
    "bp_place (send_msg j a (upd_sched i (\<lambda>c. c\<lparr>sc_work := ws\<rparr>) s)) = bp_place s"
    "bp_count (send_msg j a (upd_sched i (\<lambda>c. c\<lparr>sc_work := ws\<rparr>) s)) = bp_count s"
    by (simp_all add: send_msg_def upd_sched_def)
  have f: "sc_mute_mapping (?sc' k) = sc_mute_mapping (?sc k)" "sc_current (?sc' k) = sc_current (?sc k)"
    "sc_behaviour (?sc' k) = sc_behaviour (?sc k)" "sc_active (?sc' k) = sc_active (?sc k)"
    "work_unmutes (sc_work (?sc' k)) = work_unmutes (sc_work (?sc k))"
    "sc_mq (?sc' k) = (if k = j then sc_mq (?sc j) @ [a] else sc_mq (?sc k))"
    "sc_work (?sc' k) = (if k = i then ws else sc_work (?sc k))" for k
    using w by (auto simp: send_msg_def upd_sched_def)
  have E: "bp_waits ?n ?sc' = bp_waits ?n ?sc" by (simp add: bp_waits_def f)
  have "(k, r) \<in> bp_pending ?n ?sc' \<longleftrightarrow> (k, r) \<in> bp_pending ?n ?sc" for k r
  proof -
    have "(\<exists>l<?n. Tell k r \<in> set (sc_work (?sc l))) \<longleftrightarrow> (k = j \<and> r = a) \<or> (\<exists>l<?n. Tell k r \<in> set (sc_work (?sc' l)))"
    proof -
      have "Tell k r \<in> set (sc_work (?sc l)) \<longleftrightarrow> (l = i \<and> k = j \<and> r = a) \<or> Tell k r \<in> set (sc_work (?sc' l))" for l
        unfolding f using w by (cases "l = i") auto
      thus ?thesis using i by blast
    qed
    thus ?thesis by (auto simp: bp_pending_def f(6))
  qed
  hence P: "bp_pending ?n ?sc' = bp_pending ?n ?sc" by auto
  show ?thesis using inv unfolding bp_inv_def rest E P f(1-5) .
qed

lemma bp_inv_reschedule:
  assumes inv: "bp_inv s" and i: "i < bp_count s" and w: "sc_work (bp_scheds s i) = Unmute a # ws"
  shows "bp_inv (sched_reschedule_unmuted i a (upd_sched i (\<lambda>c. c\<lparr>sc_work := ws\<rparr>) s))"
proof -
  let ?sc = "bp_scheds s" and ?n = "bp_count s" and ?x = "ponyint_unmute_actor (bp_actors s a)" and ?pl = "(bp_place s)(a := Ready)"
  let ?E = "bp_waits ?n ?sc" and ?P = "bp_pending ?n ?sc" and ?act = "\<lambda>j. sc_active (bp_scheds s j)"
  let ?c = "(?sc i)\<lparr>sc_work := map (\<lambda>j. Tell j a) (filter ?act [0..<?n]) @ ws\<rparr>"
  have E: "bp_waits ?n (?sc(i := ?c)) = ?E" by (rule waits_same) simp
  have P: "bp_pending ?n (?sc(i := ?c)) = ?P \<union> {(j, a) |j. j < ?n \<and> ?act j}"
  proof -
    have "bp_pending ?n ((?sc(i := (?sc i)\<lparr>sc_work := ws\<rparr>))(i := ?c)) =
        bp_pending ?n (?sc(i := (?sc i)\<lparr>sc_work := ws\<rparr>)) \<union> {(j, a) |j. j < ?n \<and> ?act j}"
      by (rule pending_tell [OF i]) simp_all
    moreover have "bp_pending ?n (?sc(i := (?sc i)\<lparr>sc_work := ws\<rparr>)) = ?P"
    proof -
      have "Tell j r \<in> set (sc_work ((?sc(i := (?sc i)\<lparr>sc_work := ws\<rparr>)) k)) \<longleftrightarrow> Tell j r \<in> set (sc_work (?sc k))" for j r k
        using w by auto
      moreover have "sc_mq ((?sc(i := (?sc i)\<lparr>sc_work := ws\<rparr>)) k) = sc_mq (?sc k)" for k by simp
      ultimately show ?thesis by (simp add: bp_pending_def del: fun_upd_apply)
    qed
    ultimately show ?thesis by simp
  qed
  have edges: "edges_ok ((bp_actors s)(a := ?x)) ?E (?P \<union> {(j, a) |j. j < ?n \<and> ?act j})"
  proof (rule edges_ok_flags [OF bp_invD(2) [OF inv]])
    show "overloaded ?x \<Longrightarrow> waiting_for ?E a = {}" using edges_okD(6) [OF bp_invD(2) [OF inv], of a] by simp
    show "(j, a) \<in> ?P \<union> {(j, a) |j. j < ?n \<and> ?act j} \<or> triggers_muting ?x" if "(j, a, b) \<in> ?E" for j b
      using places_okD(3) [OF bp_invD(3) [OF inv] that] by blast
  qed auto
  have "places_ok ?n ((bp_actors s)(a := ?x)) ?pl (\<lambda>j. sc_current (?sc j)) (\<lambda>j. sc_behaviour (?sc j)) ?act ?E
      ((\<lambda>j. work_unmutes (sc_work (?sc j)))(i := work_unmutes ws))"
    by (rule places_unmute [OF bp_invD(3) [OF inv] i]) (use w in simp_all)
  hence "bp_inv (s\<lparr>bp_actors := (bp_actors s)(a := ?x), bp_place := ?pl, bp_scheds := ?sc(i := ?c)\<rparr>)"
    using bp_invD(1) [OF inv i] by (intro bp_inv_upd [OF inv _ E P edges]) simp_all
  moreover have "sc_active (if j = i then (?sc i)\<lparr>sc_work := ws\<rparr> else ?sc j) = ?act j" for j by simp
  ultimately show ?thesis
    by (simp add: sched_reschedule_unmuted_def ponyint_sched_start_global_unmute_def bp_upd_defs Let_def)
qed

lemma good_Work: "bp_inv s \<Longrightarrow> bp_good (bp_do (Work i) s)"
  using bp_inv_send [of s i] bp_inv_reschedule [of s i]
  by (auto simp: Let_def split: list.splits sched_work.splits)

lemma bp_do_good: "bp_inv s \<Longrightarrow> run_ok s \<Longrightarrow> bp_good (bp_do cmd s)"
  by (cases cmd) (blast intro: good_Run good_Begin good_Look good_Push good_Apply good_Release good_End good_Limit
    good_Drained good_Finish good_Read good_Work good_Suspend good_Wake)+

lemma bp_inv_start: "bp_inv (bp_start n cd)"
proof -
  have E: "bp_waits n (bp_scheds (bp_start n cd)) = {}" by (simp add: bp_waits_def bp_start_def map_waits_def)
  have "lasting {} P = {}" for P by (simp add: lasting_def)
  hence "edges_ok (bp_actors (bp_start n cd)) {} P" for P
    by (simp add: edges_ok_def bp_start_def waiting_for_def acyclic_def)
  moreover have "places_ok n (bp_actors (bp_start n cd)) (bp_place (bp_start n cd)) (\<lambda>i. sc_current (bp_scheds (bp_start n cd) i))
      (\<lambda>i. sc_behaviour (bp_scheds (bp_start n cd) i)) (\<lambda>i. sc_active (bp_scheds (bp_start n cd) i)) {}
      (\<lambda>i. work_unmutes (sc_work (bp_scheds (bp_start n cd) i)))"
    by (simp add: bp_start_def places_ok_def)
  moreover have "map_ok (sc_mute_mapping (bp_scheds (bp_start n cd) i))" for i by (simp add: bp_start_def map_ok_def)
  moreover have "bp_count (bp_start n cd) = n" by (simp add: bp_start_def)
  ultimately show ?thesis by (simp add: bp_inv_def E)
qed

text \<open>The control of the threads.\<close>

definition control :: "scheduler_t \<Rightarrow> int \<times> nat \<times> bool \<times> uint64_t option" where
  "control c = (sc_index c, sc_app c, sc_behaviour c, sc_current c)"

fun moves :: "bp_cmd \<Rightarrow> bool" where
  "moves (Run i a) = True" | "moves (Begin i) = True" | "moves (End i) = True" | "moves (Limit i) = True" | "moves (Finish i park) = True"
| "moves cmd = False"

lemmas bp_do_defs = done_with_def in_run_def actor_run_begin_def maybe_mark_should_mute_def actor_behaviour_end_def
  actor_run_limit_def actor_run_drained_def actor_run_stop_def actor_unsetoverloaded_def pony_apply_backpressure_def
  pony_release_backpressure_def read_msg_def sched_push_def sched_reschedule_unmuted_def send_msg_def
  ponyint_sched_start_global_unmute_def bp_upd_defs Let_def res_bind_def pony_assert_def

lemma bp_do_fixed: "bp_do cmd s = Inr (Some s') \<Longrightarrow> bp_count s' = bp_count s \<and> bp_cycle s' = bp_cycle s"
  by (cases cmd) (auto simp: bp_do_defs split: if_splits option.splits list.splits sched_work.splits sum.splits prod.splits)

lemma bp_do_control: "bp_do cmd s = Inr (Some s') \<Longrightarrow> \<not> moves cmd \<Longrightarrow> control (bp_scheds s' i) = control (bp_scheds s i)"
  by (cases cmd) (auto simp: bp_do_defs control_def split: if_splits option.splits list.splits sched_work.splits sum.splits prod.splits)

lemma run_ok_upd:
  assumes "run_ok s" and "bp_count s' = bp_count s" "bp_cycle s' = bp_cycle s"
    and "\<And>j. j \<noteq> i \<Longrightarrow> control (bp_scheds s' j) = control (bp_scheds s j)"
    and "i < bp_count s \<Longrightarrow> sc_index (bp_scheds s' i) = sc_index (bp_scheds s i) \<and> sc_app (bp_scheds s' i) \<le> PONY_SCHED_BATCH \<and>
      (sc_behaviour (bp_scheds s' i) \<longrightarrow> sc_app (bp_scheds s' i) < PONY_SCHED_BATCH) \<and>
      (sc_current (bp_scheds s' i) = Some (bp_cycle s) \<longrightarrow> sc_app (bp_scheds s' i) = 0 \<and> \<not> sc_behaviour (bp_scheds s' i))"
  shows "run_ok s'"
  unfolding run_ok_def
proof (intro allI impI)
  fix j assume "j < bp_count s'"
  thus "sc_index (bp_scheds s' j) \<noteq> PONY_UNKNOWN_SCHEDULER_INDEX \<and> sc_app (bp_scheds s' j) \<le> PONY_SCHED_BATCH \<and>
      (sc_behaviour (bp_scheds s' j) \<longrightarrow> sc_app (bp_scheds s' j) < PONY_SCHED_BATCH) \<and>
      (sc_current (bp_scheds s' j) = Some (bp_cycle s') \<longrightarrow> sc_app (bp_scheds s' j) = 0 \<and> \<not> sc_behaviour (bp_scheds s' j))"
    using assms(2,3) assms(4) [of j] assms(5) run_okD [OF assms(1), of j] by (cases "j = i") (auto simp: control_def)
qed

lemma bp_do_moves:
  assumes "bp_do cmd s = Inr (Some s')" and "moves cmd" and ok: "run_ok s"
  shows "run_ok s'"
proof -
  obtain i where "cmd = Begin i \<or> cmd = End i \<or> cmd = Limit i \<or> (\<exists>a. cmd = Run i a) \<or> (\<exists>park. cmd = Finish i park)"
    using assms(2) by (cases cmd) auto
  thus ?thesis using assms(1) bp_do_fixed [OF assms(1)] run_okD(2,3,4) [OF ok, of i]
    by (intro run_ok_upd [OF ok, of s' i])
      (auto simp: bp_do_defs control_def batch_full_def ponyint_is_cycle_def nat_less_le split: if_splits option.splits sum.splits prod.splits)
qed

lemma bp_do_run_ok: "bp_do cmd s = Inr (Some s') \<Longrightarrow> run_ok s \<Longrightarrow> run_ok s'"
proof (cases "moves cmd")
  case False
  assume a: "bp_do cmd s = Inr (Some s')" "run_ok s"
  show ?thesis using bp_do_fixed [OF a(1)] bp_do_control [OF a(1) False] a(2) by (simp add: run_ok_def control_def)
qed (rule bp_do_moves)

lemma bp_reach_inv: "bp_reach n s \<Longrightarrow> bp_inv s \<and> run_ok s"
proof (induction rule: bp_reach.induct)
  case (bp_begin cd)
  show ?case using bp_inv_start by (auto simp: run_ok_def bp_start_def PONY_UNKNOWN_SCHEDULER_INDEX_def PONY_PINNED_ACTOR_THREAD_INDEX_def)
next
  case (bp_next s cmd s')
  thus ?case using bp_do_good [of s cmd] bp_do_run_ok by auto
qed

lemmas bp_reachD = bp_reach_inv [THEN conjunct1] bp_reach_inv [THEN conjunct2]

section \<open>What holds of every run\<close>

lemma bp_reach_count: "bp_reach n s \<Longrightarrow> bp_count s = n"
  by (induction rule: bp_reach.induct) (simp_all add: bp_start_def bp_do_fixed)

definition bp_waits_on :: "bp_state \<Rightarrow> (uint64_t \<times> uint64_t) set" where
  "bp_waits_on s = {(a, r). \<exists>i < bp_count s. \<exists>x \<in> set (sc_mute_mapping (bp_scheds s i)). mr_key x = r \<and> a \<in> set (mr_value x)}"

lemma bp_waits_on_eq: "(a, r) \<in> bp_waits_on s \<longleftrightarrow> (\<exists>i. (i, r, a) \<in> bp_waits (bp_count s) (bp_scheds s))"
  by (auto simp: bp_waits_on_def bp_waits_def map_waits_def)

definition bp_relief :: "bp_state \<Rightarrow> uint64_t \<Rightarrow> bool" where
  "bp_relief s r \<longleftrightarrow> (\<exists>i < bp_count s. sc_active (bp_scheds s i) \<and> r \<in> set (sc_mq (bp_scheds s i)) \<or>
     Unmute r \<in> set (sc_work (bp_scheds s i)) \<or> (\<exists>j. Tell j r \<in> set (sc_work (bp_scheds s i))))"

lemma work_unmutes_set: "a \<in> set (work_unmutes ws) \<longleftrightarrow> Unmute a \<in> set ws"
  by (induction ws rule: work_unmutes.induct) auto

lemma mute_cause:
  assumes inv: "bp_inv s" and m: "muted_flag (bp_actors s a)"
  shows "\<exists>r. (a, r) \<in> (bp_waits_on s)\<^sup>* \<and>
    (bp_relief s r \<or> (overloaded (bp_actors s r) \<or> pressed (bp_actors s r)) \<and> \<not> muted_flag (bp_actors s r))"
proof -
  let ?E = "bp_waits (bp_count s) (bp_scheds s)" and ?P = "bp_pending (bp_count s) (bp_scheds s)"
  let ?L = "lasting ?E ?P"
  note ok = bp_invD(2) [OF inv] and pl = bp_invD(3) [OF inv]
  have "finite ((\<lambda>(i, r, a). (a, r)) ` ?E)" using edges_okD(1) [OF ok] by (rule finite_imageI)
  moreover have "?L \<subseteq> (\<lambda>(i, r, a). (a, r)) ` ?E" by (force simp: lasting_def)
  ultimately have "wf (?L\<inverse>)" using edges_okD(7) [OF ok] by (meson finite_acyclic_wf_converse finite_subset)
  thus ?thesis using m
  proof (induction a rule: wf_induct_rule)
    case (less a)
    show ?case
    proof (cases "waiting_for ?E a = {}")
      case True
      then obtain i where "i < bp_count s" "Unmute a \<in> set (sc_work (bp_scheds s i))"
        using places_okD(1,9) [OF pl, of a] less.prems by (auto simp: work_unmutes_set)
      thus ?thesis by (intro exI [of _ a]) (auto simp: bp_relief_def)
    next
      case False
      then obtain i r where e: "(i, r, a) \<in> ?E" by (auto simp: waiting_for_def)
      hence on: "(a, r) \<in> bp_waits_on s" by (auto simp: bp_waits_on_eq)
      show ?thesis
      proof (cases "(i, r) \<in> ?P")
        case True
        hence "bp_relief s r" using places_okD(3) [OF pl e] by (auto simp: bp_pending_def bp_relief_def)
        thus ?thesis using on by blast
      next
        case nP: False
        hence "(r, a) \<in> ?L\<inverse>" using e by (auto simp: lasting_def)
        hence "\<exists>q. (r, q) \<in> (bp_waits_on s)\<^sup>* \<and> (bp_relief s q \<or>
            (overloaded (bp_actors s q) \<or> pressed (bp_actors s q)) \<and> \<not> muted_flag (bp_actors s q))"
          if "muted_flag (bp_actors s r)" using less.IH that by blast
        thus ?thesis using edges_okD(5) [OF ok e] nP on by (meson converse_rtrancl_into_rtrancl r_into_rtrancl)
      qed
    qed
  qed
qed

section \<open>Relief\<close>

text \<open>
  The messages that are under way, weighted so that handing one over is progress.  With the number of muted
  actors it bounds how long the schedulers can go on relieving actors.
\<close>

fun is_tell :: "sched_work \<Rightarrow> bool" where
  "is_tell (Tell i a) = True"
| "is_tell (Unmute a) = False"

definition sched_weight :: "scheduler_t \<Rightarrow> nat" where
  "sched_weight c = length (sc_mq c) + 2 * length (filter is_tell (sc_work c))"

definition bp_measure :: "bp_state \<Rightarrow> nat" where
  "bp_measure s = card {a. bp_place s a = Waiting} * (2 * bp_count s + 1) + (\<Sum>i < bp_count s. sched_weight (bp_scheds s i))"

text \<open>The commands with which the schedulers relieve actors.\<close>

definition relief_cmds :: "bp_cmd set" where
  "relief_cmds = {Read i visit |i visit. True} \<union> {Work i |i. True}"

text \<open>No actor runs, and none is overloaded or under pressure.\<close>

definition bp_calm :: "bp_state \<Rightarrow> bool" where
  "bp_calm s \<longleftrightarrow> (\<forall>i < bp_count s. sc_current (bp_scheds s i) = None) \<and>
     (\<forall>a. \<not> overloaded (bp_actors s a) \<and> \<not> pressed (bp_actors s a))"

text \<open>What such a command does in a calm state: actors only leave the muted ones, for the run queues.\<close>

definition relieves :: "bp_state \<Rightarrow> bp_state \<Rightarrow> bool" where
  "relieves s s' \<longleftrightarrow> bp_calm s' \<and> bp_measure s' < bp_measure s \<and>
     (\<forall>a. bp_place s' a = bp_place s a \<or> bp_place s a = Waiting \<and> bp_place s' a = Ready)"

lemma sum_upd_less:
  assumes "i < (n :: nat)" and "g i < f i" and "\<And>j. j \<noteq> i \<Longrightarrow> g j = (f j :: nat)"
  shows "(\<Sum>j < n. g j) < (\<Sum>j < n. f j)"
proof (rule sum_strict_mono_ex1)
  show "\<forall>j \<in> {..<n}. g j \<le> f j" using assms(2,3) by (metis less_imp_le order_refl)
qed (use assms in auto)

lemma relief_reschedule:
  assumes inv: "bp_inv s" and calm: "bp_calm s" and i: "i < bp_count s" and w: "sc_work (bp_scheds s i) = Unmute a # ws"
  shows "relieves s (sched_reschedule_unmuted i a (upd_sched i (\<lambda>c. c\<lparr>sc_work := ws\<rparr>) s))"
proof -
  let ?s = "sched_reschedule_unmuted i a (upd_sched i (\<lambda>c. c\<lparr>sc_work := ws\<rparr>) s)" and ?n = "bp_count s"
  have wait: "bp_place s a = Waiting" using places_okD(8) [OF bp_invD(3) [OF inv] i, of a] w by simp
  have pl: "bp_place ?s = (bp_place s)(a := Ready)" by (simp add: sched_reschedule_unmuted_def start_global_unmute_fields bp_upd_defs)
  have "{b. bp_place ?s b = Waiting} \<subset> {b. bp_place s b = Waiting}" unfolding pl using wait by auto
  hence "card {b. bp_place ?s b = Waiting} < card {b. bp_place s b = Waiting}" by (intro psubset_card_mono) simp_all
  hence "(card {b. bp_place ?s b = Waiting} + 1) * (2 * ?n + 1) \<le> card {b. bp_place s b = Waiting} * (2 * ?n + 1)"
    by (intro mult_le_mono1) simp
  moreover have "(\<Sum>k < ?n. sched_weight (bp_scheds ?s k)) \<le> (\<Sum>k < ?n. sched_weight (bp_scheds s k)) + 2 * ?n"
  proof -
    have "length (filter f [0..<?n]) \<le> ?n" for f by (metis length_filter_le length_upt diff_zero)
    hence "sched_weight (bp_scheds ?s k) \<le> sched_weight (bp_scheds s k) + (if k = i then 2 * ?n else 0)" for k
      using w by (simp add: sched_reschedule_unmuted_def ponyint_sched_start_global_unmute_def bp_upd_defs Let_def sched_weight_def filter_map o_def)
    hence "(\<Sum>k < ?n. sched_weight (bp_scheds ?s k)) \<le> (\<Sum>k < ?n. sched_weight (bp_scheds s k) + (if k = i then 2 * ?n else 0))"
      by (intro sum_mono)
    thus ?thesis using i by (simp add: sum.distrib sum.delta)
  qed
  moreover have "bp_count ?s = ?n" by (simp add: sched_reschedule_unmuted_def start_global_unmute_fields bp_upd_defs)
  moreover have "bp_calm ?s" using calm
    by (auto simp: bp_calm_def sched_reschedule_unmuted_def ponyint_sched_start_global_unmute_def bp_upd_defs Let_def)
  ultimately show ?thesis using wait by (simp add: relieves_def bp_measure_def pl)
qed

lemma relief_send:
  assumes calm: "bp_calm s" and i: "i < bp_count s" and w: "sc_work (bp_scheds s i) = Tell j a # ws"
  shows "relieves s (send_msg j a (upd_sched i (\<lambda>c. c\<lparr>sc_work := ws\<rparr>) s))"
proof -
  let ?u = "upd_sched i (\<lambda>c. c\<lparr>sc_work := ws\<rparr>) s" and ?s = "send_msg j a (upd_sched i (\<lambda>c. c\<lparr>sc_work := ws\<rparr>) s)"
  have "sched_weight (bp_scheds ?s k) = sched_weight (bp_scheds ?u k) + (if k = j then 1 else 0)" for k
    by (simp add: send_msg_def upd_sched_def sched_weight_def)
  hence s: "(\<Sum>k < bp_count s. sched_weight (bp_scheds ?s k)) \<le> (\<Sum>k < bp_count s. sched_weight (bp_scheds ?u k)) + 1"
    by (simp add: sum.distrib sum.delta)
  have "sched_weight (bp_scheds s k) = sched_weight (bp_scheds ?u k) + (if k = i then 2 else 0)" for k
    using w by (simp add: upd_sched_def sched_weight_def)
  hence "(\<Sum>k < bp_count s. sched_weight (bp_scheds s k)) = (\<Sum>k < bp_count s. sched_weight (bp_scheds ?u k)) + 2"
    using i by (simp add: sum.distrib sum.delta)
  hence "(\<Sum>k < bp_count s. sched_weight (bp_scheds ?s k)) < (\<Sum>k < bp_count s. sched_weight (bp_scheds s k))" using s by simp
  moreover have "bp_place ?s = bp_place s" "bp_count ?s = bp_count s" by (simp_all add: send_msg_def upd_sched_def)
  moreover have "bp_calm ?s" using calm by (auto simp: bp_calm_def send_msg_def upd_sched_def)
  ultimately show ?thesis by (simp add: relieves_def bp_measure_def)
qed

lemma unmute_loop_flags:
  "unmute_loop xs acts st = Inr (acts', st') \<Longrightarrow> pa_sync_flags (acts' b) = pa_sync_flags (acts b)"
  by (induction xs arbitrary: acts st) (auto simp: pony_assert_def Let_def fun_upd_def split: if_splits)

lemma read_msg_flags:
  assumes "read_msg visit i r s = Inr s'"
  shows "pa_sync_flags (bp_actors s' b) = pa_sync_flags (bp_actors s b)"
  using assms
  by (auto simp: read_msg_def ponyint_sched_unmute_senders_def upd_sched_def res_bind_def unmute_loop_flags pony_assert_def
      split: option.splits sum.splits prod.splits if_splits)

lemma relief_read:
  assumes calm: "bp_calm s" and free: "bp_free i s" and mq: "sc_mq (bp_scheds s i) \<noteq> []" and r: "read_msg visit i a s = Inr s'"
  shows "relieves s s'"
proof -
  obtain m acts st where s': "s' = upd_sched i (\<lambda>c. c\<lparr>sc_mute_mapping := m, sc_mq := tl (sc_mq c), sc_work := map Unmute st\<rparr>)
      (s\<lparr>bp_actors := acts\<rparr>)"
    using r by (auto simp: read_msg_def res_bind_def pony_assert_def split: sum.splits if_splits)
  have w: "sc_work (bp_scheds s i) = []" using free by (simp add: bp_free_def)
  have "(\<Sum>k < bp_count s. sched_weight (bp_scheds s' k)) < (\<Sum>k < bp_count s. sched_weight (bp_scheds s k))"
    using free mq w by (intro sum_upd_less [of i]) (simp_all add: s' upd_sched_def sched_weight_def bp_free_def filter_map o_def)
  moreover have "bp_place s' = bp_place s" "bp_count s' = bp_count s" by (simp_all add: s' upd_sched_def)
  moreover have "bp_calm s'" using calm read_msg_flags [OF r]
    by (auto simp: bp_calm_def s' upd_sched_def)
  ultimately show ?thesis by (simp add: relieves_def bp_measure_def)
qed

lemma relief_down:
  assumes inv: "bp_inv s" and calm: "bp_calm s" and c: "c \<in> relief_cmds" "bp_do c s = Inr (Some s')"
  shows "relieves s s'"
proof (cases "\<exists>i. c = Work i")
  case True
  then obtain i where i: "c = Work i" "i < bp_count s" using c(2) by (auto split: if_splits)
  then obtain w ws where w: "sc_work (bp_scheds s i) = w # ws" using c(2) by (auto split: list.splits)
  show ?thesis
  proof (cases w)
    case (Unmute a)
    thus ?thesis using relief_reschedule [OF inv calm i(2), of a ws] w c(2) i by simp
  next
    case (Tell j a)
    thus ?thesis using relief_send [OF calm i(2), of j a ws] w c(2) i by simp
  qed
next
  case False
  then obtain i visit where i: "c = Read i visit" using c(1) by (auto simp: relief_cmds_def)
  hence "bp_free i s" "sc_mq (bp_scheds s i) \<noteq> []" "read_msg visit i (hd (sc_mq (bp_scheds s i))) s = Inr s'"
    using c(2) by (auto simp: done_with_def res_bind_def split: if_splits sum.splits)
  thus ?thesis by (rule relief_read [OF calm])
qed

text \<open>As long as an actor is muted there is such a command.\<close>

lemma relief_step:
  assumes inv: "bp_inv s" "run_ok s" and calm: "bp_calm s" and m: "muted_flag (bp_actors s a)"
  shows "\<exists>c s'. c \<in> relief_cmds \<and> bp_do c s = Inr (Some s')"
proof (cases "\<exists>i < bp_count s. sc_work (bp_scheds s i) \<noteq> []")
  case True
  then obtain i w ws where i: "i < bp_count s" "sc_work (bp_scheds s i) = w # ws" by (auto simp: neq_Nil_conv)
  hence "\<exists>s'. bp_do (Work i) s = Inr (Some s')" by (simp add: Let_def)
  thus ?thesis unfolding relief_cmds_def by blast
next
  case False
  obtain r where "bp_relief s r" using mute_cause [OF inv(1) m] calm by (auto simp: bp_calm_def)
  then obtain i where i: "i < bp_count s" "sc_active (bp_scheds s i)" "sc_mq (bp_scheds s i) \<noteq> []"
    using False unfolding bp_relief_def by force
  hence free: "bp_free i s" using False calm by (simp add: bp_free_def bp_calm_def)
  let ?v = "remdups (mute_senders (sc_mute_mapping (bp_scheds s i)) (hd (sc_mq (bp_scheds s i))))"
  have "bp_good (bp_do (Read i ?v) s)" by (rule bp_do_good [OF inv])
  hence "\<exists>s'. bp_do (Read i ?v) s = Inr (Some s')"
    using free i(3) by (cases "read_msg ?v i (hd (sc_mq (bp_scheds s i))) s") (auto simp: bp_good_def done_with_def)
  thus ?thesis unfolding relief_cmds_def by blast
qed

fun bp_run :: "bp_cmd list \<Rightarrow> bp_state \<Rightarrow> bp_state option res" where
  "bp_run [] s = Inr (Some s)"
| "bp_run (c # cs) s =
     (case bp_do c s of Inl e \<Rightarrow> Inl e | Inr None \<Rightarrow> Inr None | Inr (Some s') \<Rightarrow> bp_run cs s')"

lemma bp_run_reach: "bp_run cs s = Inr (Some s') \<Longrightarrow> bp_reach n s \<Longrightarrow> bp_reach n s'"
  by (induction cs arbitrary: s) (auto split: sum.splits option.splits intro: bp_next)

text \<open>However the commands are chosen, the measure bounds how many there are.\<close>

lemma relief_run:
  assumes "bp_reach n s" and "bp_calm s" and "set cs \<subseteq> relief_cmds" and "bp_run cs s = Inr (Some s')"
  shows "bp_calm s' \<and> length cs + bp_measure s' \<le> bp_measure s \<and>
    (\<forall>a. bp_place s' a = bp_place s a \<or> bp_place s a = Waiting \<and> bp_place s' a = Ready)"
  using assms
proof (induction cs arbitrary: s)
  case (Cons c cs)
  then obtain u where u: "bp_do c s = Inr (Some u)" "bp_run cs u = Inr (Some s')" by (auto split: sum.splits option.splits)
  have rel: "relieves s u" using Cons.prems(2,3) u(1) by (intro relief_down [OF bp_reachD(1) [OF Cons.prems(1)]]) auto
  have "bp_calm s' \<and> length cs + bp_measure s' \<le> bp_measure u \<and>
      (\<forall>a. bp_place s' a = bp_place u a \<or> bp_place u a = Waiting \<and> bp_place s' a = Ready)"
    using Cons.IH [of u] bp_next [OF Cons.prems(1) u(1)] rel Cons.prems(3) u(2) by (simp add: relieves_def)
  moreover have "bp_place s' a = bp_place s a \<or> bp_place s a = Waiting \<and> bp_place s' a = Ready" for a
    using calculation rel unfolding relieves_def by metis
  ultimately show ?case using rel by (simp add: relieves_def)
qed simp

section \<open>Theorems\<close>

text \<open>A run: actor 5 applies pressure, actor 6 sends to it and is muted, actor 5 releases the pressure.\<close>

definition bp_muting :: "bp_cmd list" where
  "bp_muting = [Push 5, Push 6, Run 0 5, Begin 0, Apply 0, End 0, Finish 0 False, Run 0 6, Begin 0, Look 0 5, End 0]"

definition bp_draining :: "bp_cmd list" where
  "bp_draining = [Run 1 5, Begin 1, Release 1, Work 1, Work 1, End 1, Finish 1 True]"

lemma bp_muting_run:
  "case bp_run bp_muting (bp_start 2 9) of Inr (Some s) \<Rightarrow> has_sync_flag (bp_actors s 6) ACTOR_SYNC_FLAG_MUTED | _ \<Rightarrow> False"
  by code_simp

lemma bp_draining_run:
  "case bp_run (bp_muting @ bp_draining) (bp_start 2 9) of Inr (Some s) \<Rightarrow> has_sync_flag (bp_actors s 6) ACTOR_SYNC_FLAG_MUTED \<and>
     sc_current (bp_scheds s 0) = None \<and> sc_current (bp_scheds s 1) = None \<and> sc_mq (bp_scheds s 0) = [5] | _ \<Rightarrow> False"
  by code_simp

lemma bp_draining_calm:
  "case bp_run (bp_muting @ bp_draining) (bp_start 2 9) of
     Inr (Some s) \<Rightarrow> \<not> has_sync_flag_any (bp_actors s a) (ACTOR_SYNC_FLAG_OVERLOADED OR ACTOR_SYNC_FLAG_UNDER_PRESSURE) | _ \<Rightarrow> False"
  by (simp add: bp_muting_def bp_draining_def bp_start_def bp_free_def bp_do_defs batch_full_def ponyint_is_cycle_def
      maybe_should_mute_def ponyint_sched_mute_def elems_getorput_def elems_get_def elems_modify_def ponyint_muteref_alloc_def
      PONY_SCHED_BATCH_def upt_rec)

lemma bp_run_start: "bp_run cs (bp_start n cd) = Inr (Some s) \<Longrightarrow> bp_reach n s"
  by (rule bp_run_reach [OF _ bp_begin])

text \<open>
  C16: no interleaving of actors and scheduler threads violates an assertion of the modelled backpressure code,
  where actors are run by schedulers and not polled: an actor never waits for itself, a sender that is taken out of
  a mute map had a positive count, a muted actor is neither run nor found to have drained its queue, a drained
  actor has not handled a full batch, the cycle detector is never marked overloaded, and only threads with a known
  index read unmute messages.
\<close>

theorem backpressure_no_fault:
  assumes "bp_reach n s"
  shows "\<exists>r. bp_do cmd s = Inr r"
  using bp_do_good [OF bp_reachD [OF assms], of cmd] by (auto simp: bp_good_def)

theorem backpressure_no_fault_witness:
  "\<exists>s r. bp_run bp_muting (bp_start 2 9) = Inr (Some s) \<and> bp_do (Run 1 5) s = Inr r"
proof -
  obtain s where s: "bp_run bp_muting (bp_start 2 9) = Inr (Some s)"
    using bp_muting_run by (auto split: sum.splits option.splits)
  show ?thesis using backpressure_no_fault [OF bp_run_start [OF s], of "Run 1 5"] s by blast
qed

text \<open>
  C17: in every reachable state an actor is flagged muted exactly when it has been taken off the run queues,
  and its count is the number of receivers it waits for, all of them in the mute map of one scheduler that is
  not suspended.
\<close>

theorem muted_counts:
  assumes "bp_reach n s"
  shows "(has_sync_flag (bp_actors s a) ACTOR_SYNC_FLAG_MUTED \<longleftrightarrow> bp_place s a = Waiting) \<and>
    unat (pa_muted (bp_actors s a)) = card {r. (a, r) \<in> bp_waits_on s} \<and>
    (\<exists>i. {j. j < n \<and> (\<exists>x \<in> set (sc_mute_mapping (bp_scheds s j)). a \<in> set (mr_value x))} \<subseteq> {i} \<inter> {j. sc_active (bp_scheds s j)})"
proof -
  note inv = bp_reachD(1) [OF assms] and n = bp_reach_count [OF assms]
  let ?E = "bp_waits (bp_count s) (bp_scheds s)"
  have "waiting_for ?E a = {r. (a, r) \<in> bp_waits_on s}" by (auto simp: waiting_for_def bp_waits_on_eq)
  hence "unat (pa_muted (bp_actors s a)) = card {r. (a, r) \<in> bp_waits_on s}"
    using waiting_for_card [OF bp_invD(2) [OF inv], of a] by (simp add: edges_okD(4) [OF bp_invD(2) [OF inv]] unat_of_nat_u64)
  moreover have "(j, mr_key x, a) \<in> ?E" if "j < n" "x \<in> set (sc_mute_mapping (bp_scheds s j))" "a \<in> set (mr_value x)" for j x
    using that n by (auto simp: bp_waits_def map_waits_def)
  hence "\<exists>i. {j. j < n \<and> (\<exists>x \<in> set (sc_mute_mapping (bp_scheds s j)). a \<in> set (mr_value x))} \<subseteq> {i} \<inter> {j. sc_active (bp_scheds s j)}"
    using edges_okD(3) [OF bp_invD(2) [OF inv]] places_okD(3) [OF bp_invD(3) [OF inv]] by blast
  ultimately show ?thesis using places_okD(1) [OF bp_invD(3) [OF inv], of a] by simp
qed

theorem muted_counts_witness:
  "\<exists>s. bp_run bp_muting (bp_start 2 9) = Inr (Some s) \<and> bp_place s 6 = Waiting \<and>
     unat (pa_muted (bp_actors s 6)) = card {r. (6, r) \<in> bp_waits_on s}"
proof -
  obtain s where s: "bp_run bp_muting (bp_start 2 9) = Inr (Some s)" "has_sync_flag (bp_actors s 6) ACTOR_SYNC_FLAG_MUTED"
    using bp_muting_run by (auto split: sum.splits option.splits)
  show ?thesis using muted_counts [OF bp_run_start [OF s(1)], of 6] s by blast
qed

text \<open>
  C14: no actor is muted without a cause, and mutual waiting cannot keep itself alive: from a muted actor a
  chain of waits leads to an actor that is not muted but overloaded or under pressure, or to one whose senders
  the schedulers are already being told to release.
\<close>

theorem mute_has_cause:
  assumes "bp_reach n s" and "has_sync_flag (bp_actors s a) ACTOR_SYNC_FLAG_MUTED"
  shows "\<exists>r. (a, r) \<in> (bp_waits_on s)\<^sup>* \<and>
    (bp_relief s r \<or>
     has_sync_flag_any (bp_actors s r) (ACTOR_SYNC_FLAG_OVERLOADED OR ACTOR_SYNC_FLAG_UNDER_PRESSURE) \<and>
       \<not> has_sync_flag (bp_actors s r) ACTOR_SYNC_FLAG_MUTED)"
  using mute_cause [OF bp_reachD(1) [OF assms(1)], of a] assms(2) by simp

theorem mute_has_cause_witness:
  "\<exists>s r. bp_run bp_muting (bp_start 2 9) = Inr (Some s) \<and> (6, r) \<in> (bp_waits_on s)\<^sup>* \<and>
     (bp_relief s r \<or>
      has_sync_flag_any (bp_actors s r) (ACTOR_SYNC_FLAG_OVERLOADED OR ACTOR_SYNC_FLAG_UNDER_PRESSURE) \<and>
        \<not> has_sync_flag (bp_actors s r) ACTOR_SYNC_FLAG_MUTED)"
proof -
  obtain s where s: "bp_run bp_muting (bp_start 2 9) = Inr (Some s)" "has_sync_flag (bp_actors s 6) ACTOR_SYNC_FLAG_MUTED"
    using bp_muting_run by (auto split: sum.splits option.splits)
  show ?thesis using mute_has_cause [OF bp_run_start [OF s(1)] s(2)] s(1) by blast
qed

text \<open>
  C15: when no thread runs an actor and no actor is overloaded or under pressure, then in whatever order the schedulers read their messages and
  do what these ask for, there is a bound on the number of such steps, a further step is possible as long as an actor is muted,
  and every actor that was muted is then in a run queue: no order of the steps of relief leaves an actor muted.
\<close>

theorem backpressure_relieved:
  assumes "bp_reach n s" and "\<forall>i < n. sc_current (bp_scheds s i) = None"
    and "\<forall>a. \<not> has_sync_flag_any (bp_actors s a) (ACTOR_SYNC_FLAG_OVERLOADED OR ACTOR_SYNC_FLAG_UNDER_PRESSURE)"
  shows "\<exists>b. \<forall>cmds s'. set cmds \<subseteq> relief_cmds \<and> bp_run cmds s = Inr (Some s') \<longrightarrow> length cmds \<le> b \<and>
    ((\<exists>c s''. c \<in> relief_cmds \<and> bp_do c s' = Inr (Some s'')) \<or>
     (\<forall>a. \<not> has_sync_flag (bp_actors s' a) ACTOR_SYNC_FLAG_MUTED \<and>
       bp_place s' a = (if has_sync_flag (bp_actors s a) ACTOR_SYNC_FLAG_MUTED then Ready else bp_place s a)))"
proof (intro exI [of _ "bp_measure s"] allI impI, elim conjE)
  fix cmds s' assume run: "set cmds \<subseteq> relief_cmds" "bp_run cmds s = Inr (Some s')"
  have calm: "bp_calm s" using assms(2,3) bp_reach_count [OF assms(1)] by (simp add: bp_calm_def)
  note down = relief_run [OF assms(1) calm run] and r' = bp_run_reach [OF run(2) assms(1)]
  have mute: "muted_flag (bp_actors u a) \<longleftrightarrow> bp_place u a = Waiting" if "bp_reach n u" for u a
    using places_okD(1) [OF bp_invD(3) [OF bp_reachD(1) [OF that]]] by blast
  show "length cmds \<le> bp_measure s \<and> ((\<exists>c s''. c \<in> relief_cmds \<and> bp_do c s' = Inr (Some s'')) \<or>
     (\<forall>a. \<not> has_sync_flag (bp_actors s' a) ACTOR_SYNC_FLAG_MUTED \<and>
       bp_place s' a = (if has_sync_flag (bp_actors s a) ACTOR_SYNC_FLAG_MUTED then Ready else bp_place s a)))"
  proof (cases "\<exists>a. muted_flag (bp_actors s' a)")
    case True
    thus ?thesis using relief_step [OF bp_reachD [OF r']] down by auto
  next
    case False
    have "bp_place s' a = (if muted_flag (bp_actors s a) then Ready else bp_place s a)" for a
      using False down mute [OF r', of a] mute [OF assms(1), of a] by metis
    thus ?thesis using False down by simp
  qed
qed

theorem backpressure_relieved_witness:
  "\<exists>s b. bp_run (bp_muting @ bp_draining) (bp_start 2 9) = Inr (Some s) \<and>
     has_sync_flag (bp_actors s 6) ACTOR_SYNC_FLAG_MUTED \<and> length ([] :: bp_cmd list) \<le> b \<and>
     (\<exists>c s''. c \<in> relief_cmds \<and> bp_do c s = Inr (Some s''))"
proof -
  obtain s where s: "bp_run (bp_muting @ bp_draining) (bp_start 2 9) = Inr (Some s)"
      "has_sync_flag (bp_actors s 6) ACTOR_SYNC_FLAG_MUTED" "sc_current (bp_scheds s 0) = None" "sc_current (bp_scheds s 1) = None"
    using bp_draining_run by (auto split: sum.splits option.splits)
  have "\<forall>i < 2. sc_current (bp_scheds s i) = None" using s(3,4) by (auto simp: less_2_cases_iff)
  moreover have "\<forall>a. \<not> has_sync_flag_any (bp_actors s a) (ACTOR_SYNC_FLAG_OVERLOADED OR ACTOR_SYNC_FLAG_UNDER_PRESSURE)"
    using bp_draining_calm s(1) by simp
  ultimately obtain b where "\<forall>cmds s'. set cmds \<subseteq> relief_cmds \<and> bp_run cmds s = Inr (Some s') \<longrightarrow> length cmds \<le> b \<and>
    ((\<exists>c s''. c \<in> relief_cmds \<and> bp_do c s' = Inr (Some s'')) \<or> (\<forall>a. \<not> has_sync_flag (bp_actors s' a) ACTOR_SYNC_FLAG_MUTED \<and>
       bp_place s' a = (if has_sync_flag (bp_actors s a) ACTOR_SYNC_FLAG_MUTED then Ready else bp_place s a)))"
    using backpressure_relieved [OF bp_run_start [OF s(1)]] by blast
  from this [THEN spec, of "[]", THEN spec, of s] show ?thesis using s(1,2) by auto
qed

end
