(* ===== verification/Cycle.thy ===== *)
theory Cycle
  imports Gcmaps
begin

text \<open>
  The cycle detector, \<^verbatim>\<open>src/libponyrt/gc/cycle.c\<close>: the actor that finds cycles of blocked actors that nothing else
  refers to.  It keeps a view of every actor it has heard of, with the references that actor last reported.
  Trial deletion takes the references among the views reachable from a view off their counts; what is left
  with a count of zero and is not reached from anything else is a perceived cycle, whose actors are asked to
  confirm, and which is collected when all of them have.

  A pointer to a view is its index in \<open>dt_mem\<close>, whose entries are never reused; a freed view is \<open>None\<close>.  A pointer to a
  perceived cycle is its token.  The tables of views, references and perceived cycles are the lists of their
  elements, as for the other maps of the collector.  C's \<^verbatim>\<open>int\<close> counters of views are integers: there are fewer
  than \<open>2 ^ 31\<close> views.  What the detector does to other actors, messages and the steps of their
  destruction, is appended to \<open>dt_out\<close>.  The builds for statistics and systematic testing are left out.
\<close>

section \<open>Views and perceived cycles\<close>

type_synonym view_ptr = nat

record viewref_t =
  vr_view :: view_ptr
  vr_rc :: uint64_t

datatype ponyint_color_t = COLOR_BLACK | COLOR_GREY | COLOR_WHITE

record view_t =
  vw_actor :: uint64_t
  vw_rc :: uint64_t
  vw_view_rc :: uint32_t
  vw_blocked :: bool
  vw_deferred :: bool
  vw_color :: ponyint_color_t
  vw_map :: "viewref_t list"
  vw_perceived :: "uint64_t option"

record perceived_t =
  per_token :: uint64_t
  per_ack :: uint64_t
  per_map :: "view_ptr list"

datatype cycle_out = Conf uint64_t uint64_t | Isblocked uint64_t | Setpendingdestroy uint64_t | Final uint64_t
  | Sendrelease uint64_t | Destroy uint64_t

record detector_t =
  dt_mem :: "view_t option list"
  dt_next_token :: uint64_t
  dt_detect_interval :: uint64_t
  dt_last_checked :: uint64_t
  dt_views :: "view_ptr list"
  dt_deferred :: "view_ptr list"
  dt_perceived :: "perceived_t list"
  dt_attempted :: uint64_t
  dt_detected :: uint64_t
  dt_collected :: uint64_t
  dt_created :: uint64_t
  dt_destroyed :: uint64_t
  dt_out :: "cycle_out list"

definition view_at :: "detector_t \<Rightarrow> view_ptr \<Rightarrow> view_t res" where
  "view_at d p = (if p < length (dt_mem d) then (case dt_mem d ! p of Some v \<Rightarrow> Inr v | None \<Rightarrow> Inl Bad_access) else Inl Bad_access)"

definition set_view :: "detector_t \<Rightarrow> view_ptr \<Rightarrow> view_t \<Rightarrow> detector_t" where
  "set_view d p v = d\<lparr>dt_mem := (dt_mem d)[p := Some v]\<rparr>"

definition emit :: "cycle_out list \<Rightarrow> detector_t \<Rightarrow> detector_t" where
  "emit es d = d\<lparr>dt_out := dt_out d @ es\<rparr>"

text \<open>The key of a view in \<open>views\<close> and \<open>deferred\<close> is its actor.\<close>

definition view_actor :: "detector_t \<Rightarrow> view_ptr \<Rightarrow> uint64_t option" where
  "view_actor d p = (if p < length (dt_mem d) then map_option vw_actor (dt_mem d ! p) else None)"

definition viewmap_get :: "detector_t \<Rightarrow> view_ptr list \<Rightarrow> uint64_t \<Rightarrow> view_ptr option" where
  "viewmap_get d xs actor = find (\<lambda>p. view_actor d p = Some actor) xs"

definition viewmap_remove :: "detector_t \<Rightarrow> view_ptr list \<Rightarrow> uint64_t \<Rightarrow> view_ptr list" where
  "viewmap_remove d xs actor = filter (\<lambda>p. view_actor d p \<noteq> Some actor) xs"

definition viewmap_put :: "detector_t \<Rightarrow> view_ptr list \<Rightarrow> view_ptr \<Rightarrow> uint64_t \<Rightarrow> view_ptr list" where
  "viewmap_put d xs p actor = viewmap_remove d xs actor @ [p]"

definition viewref_cmp :: "viewref_t \<Rightarrow> viewref_t \<Rightarrow> bool" where
  "viewref_cmp a b \<longleftrightarrow> vr_view a = vr_view b"

definition view_cmp :: "view_t \<Rightarrow> view_t \<Rightarrow> bool" where
  "view_cmp a b \<longleftrightarrow> vw_actor a = vw_actor b"

definition view_hash :: "view_t \<Rightarrow> uint64_t" where
  "view_hash view = ponyint_hash_ptr (vw_actor view)"

definition perceived_hash :: "perceived_t \<Rightarrow> uint64_t" where
  "perceived_hash per = ponyint_hash_size (per_token per)"

definition perceived_cmp :: "perceived_t \<Rightarrow> perceived_t \<Rightarrow> bool" where
  "perceived_cmp a b \<longleftrightarrow> per_token a = per_token b"

interpretation viewmaps: hash_keyed vw_actor view_cmp view_hash
  by unfold_locales (simp_all add: view_cmp_def view_hash_def)

interpretation perceivedmaps: hash_keyed per_token perceived_cmp perceived_hash
  by unfold_locales (simp_all add: perceived_cmp_def perceived_hash_def)

definition view_free :: "detector_t \<Rightarrow> view_ptr \<Rightarrow> detector_t res" where
  "view_free d p =
     res_bind (view_at d p) (\<lambda>v.
       let v = v\<lparr>vw_view_rc := vw_view_rc v - 1\<rparr>
       in if vw_view_rc v = 0 then Inr (d\<lparr>dt_mem := (dt_mem d)[p := None]\<rparr>) else Inr (set_view d p v))"

definition get_view :: "detector_t \<Rightarrow> uint64_t \<Rightarrow> bool \<Rightarrow> (view_ptr option \<times> detector_t) res" where
  "get_view d actor create =
     pony_assert (actor \<noteq> 0)
       (case viewmap_get d (dt_views d) actor of
          Some p \<Rightarrow> Inr (Some p, d)
        | None \<Rightarrow>
            if create
            then let p = length (dt_mem d);
                     view = \<lparr>vw_actor = actor, vw_rc = 0, vw_view_rc = 1, vw_blocked = False, vw_deferred = False,
                       vw_color = COLOR_BLACK, vw_map = [], vw_perceived = None\<rparr>
                 in Inr (Some p, d\<lparr>dt_mem := dt_mem d @ [Some view], dt_views := dt_views d @ [p], dt_created := dt_created d + 1\<rparr>)
            else Inr (None, d))"

text \<open>One reported change of references, and all of them.\<close>

definition apply_delta_step :: "view_ptr \<Rightarrow> delta_t \<Rightarrow> detector_t \<Rightarrow> detector_t res" where
  "apply_delta_step view delta d =
     (let actor = de_actor delta; rc = de_rc delta
      in res_bind (get_view d actor (rc > 0)) (\<lambda>(found, d).
        case found of
          None \<Rightarrow> Inr d
        | Some found \<Rightarrow>
            res_bind (view_at d view) (\<lambda>v.
              if rc > 0
              then (case elems_get vr_view (vw_map v) found of
                      None \<Rightarrow>
                        let d = set_view d view (v\<lparr>vw_map := vw_map v @ [\<lparr>vr_view = found, vr_rc = rc\<rparr>]\<rparr>)
                        in res_bind (view_at d found) (\<lambda>f. Inr (set_view d found (f\<lparr>vw_view_rc := vw_view_rc f + 1\<rparr>)))
                    | Some ref \<Rightarrow> Inr (set_view d view (v\<lparr>vw_map := elems_modify vr_view (vw_map v) found (\<lambda>ref. ref\<lparr>vr_rc := rc\<rparr>)\<rparr>)))
              else (case elems_get vr_view (vw_map v) found of
                      None \<Rightarrow> Inr d
                    | Some ref \<Rightarrow> view_free (set_view d view (v\<lparr>vw_map := filter (\<lambda>r. vr_view r \<noteq> found) (vw_map v)\<rparr>)) found))))"

fun apply_delta :: "view_ptr \<Rightarrow> delta_t list \<Rightarrow> detector_t \<Rightarrow> detector_t res" where
  "apply_delta view [] d = Inr d"
| "apply_delta view (delta # deltas) d = res_bind (apply_delta_step view delta d) (apply_delta view deltas)"

section \<open>Trial deletion\<close>

definition mark_grey :: "detector_t \<Rightarrow> view_ptr \<Rightarrow> uint64_t \<Rightarrow> (bool \<times> detector_t) res" where
  "mark_grey d p rc =
     res_bind (view_at d p) (\<lambda>view.
       if \<not> vw_blocked view then Inr (False, d)
       else
         let d = (if vw_deferred view then d\<lparr>dt_deferred := viewmap_remove d (dt_deferred d) (vw_actor view)\<rparr> else d);
             view = view\<lparr>vw_deferred := False, vw_rc := vw_rc view - rc\<rparr>
         in if vw_color view = COLOR_GREY then Inr (False, set_view d p view)
            else pony_assert (vw_color view = COLOR_BLACK) (Inr (True, set_view d p (view\<lparr>vw_color := COLOR_GREY\<rparr>))))"

definition mark_black :: "detector_t \<Rightarrow> view_ptr \<Rightarrow> uint64_t \<Rightarrow> int \<Rightarrow> (bool \<times> detector_t \<times> int) res" where
  "mark_black d p rc count =
     res_bind (view_at d p) (\<lambda>view.
       if \<not> vw_blocked view then pony_assert (vw_color view = COLOR_BLACK) (Inr (False, d, count))
       else
         let view = view\<lparr>vw_rc := vw_rc view + rc\<rparr>
         in if vw_color view = COLOR_BLACK then Inr (False, set_view d p view, count)
            else Inr (True, set_view d p (view\<lparr>vw_color := COLOR_BLACK\<rparr>), if vw_color view = COLOR_WHITE then count + 1 else count))"

definition collect_view :: "uint64_t \<Rightarrow> detector_t \<times> view_ptr list \<Rightarrow> view_ptr \<Rightarrow> uint64_t \<Rightarrow> int \<Rightarrow>
    (bool \<times> (detector_t \<times> view_ptr list) \<times> int) res" where
  "collect_view per s p rc count =
     (case s of (d, members) \<Rightarrow>
       res_bind (view_at d p) (\<lambda>view.
         res_bind (if vw_color view = COLOR_WHITE
                   then pony_assert (\<not> vw_deferred view) (pony_assert (vw_perceived view = None)
                     (Inr (set_view d p (view\<lparr>vw_perceived := Some per\<rparr>), viewmap_put d members p (vw_actor view))))
                   else Inr (d, members)) (\<lambda>(d, members).
           res_bind (mark_black d p rc count) (\<lambda>(go, d, count). Inr (go, (d, members), count)))))"

text \<open>The children of a view are pushed in the order of its table, so that the last one is popped first.\<close>

definition view_children :: "detector_t \<Rightarrow> view_ptr \<Rightarrow> viewref_t list" where
  "view_children d p = (case view_at d p of Inr v \<Rightarrow> rev (vw_map v) | Inl _ \<Rightarrow> [])"

text \<open>How many views there are that are not of a colour: what bounds the loops.\<close>

definition uncoloured :: "ponyint_color_t \<Rightarrow> detector_t \<Rightarrow> nat" where
  "uncoloured c d = length (filter (\<lambda>v. case v of Some v \<Rightarrow> vw_color v \<noteq> c | None \<Rightarrow> False) (dt_mem d))"

lemma filter_update_less:
  assumes "p < length xs" and "P (xs ! p)" and "\<not> P y"
  shows "length (filter P (xs[p := y])) < length (filter P xs)"
proof -
  have "xs = take p xs @ xs ! p # drop (Suc p) xs" by (rule id_take_nth_drop [OF assms(1)])
  moreover have "xs[p := y] = take p xs @ y # drop (Suc p) xs" using assms(1) by (rule upd_conv_take_nth_drop)
  ultimately have "filter P xs = filter P (take p xs) @ xs ! p # filter P (drop (Suc p) xs)"
    "filter P (xs[p := y]) = filter P (take p xs) @ filter P (drop (Suc p) xs)"
    using assms(2,3) by (metis filter.simps(2) filter_append)+
  thus ?thesis by simp
qed

lemma filter_update_le:
  assumes "p < length xs" and "P y \<Longrightarrow> P (xs ! p)"
  shows "length (filter P (xs[p := y])) \<le> length (filter P xs)"
proof -
  have "xs = take p xs @ xs ! p # drop (Suc p) xs" by (rule id_take_nth_drop [OF assms(1)])
  moreover have "xs[p := y] = take p xs @ y # drop (Suc p) xs" using assms(1) by (rule upd_conv_take_nth_drop)
  ultimately have "length (filter P xs) = length (filter P (take p xs)) + length (filter P [xs ! p]) + length (filter P (drop (Suc p) xs))"
    "length (filter P (xs[p := y])) = length (filter P (take p xs)) + length (filter P [y]) + length (filter P (drop (Suc p) xs))"
    by (metis (no_types, lifting) append_Cons append_Nil filter_append length_append add.assoc)+
  thus ?thesis using assms(2) by simp
qed

lemma view_at_Inr: "view_at d p = Inr v \<longleftrightarrow> p < length (dt_mem d) \<and> dt_mem d ! p = Some v"
  by (auto simp: view_at_def split: option.splits)

lemma view_at_frame [simp]:
  "view_at (d\<lparr>dt_out := es\<rparr>) p = view_at d p" "view_at (d\<lparr>dt_views := ps\<rparr>) p = view_at d p"
  "view_at (d\<lparr>dt_deferred := ps\<rparr>) p = view_at d p" "view_at (d\<lparr>dt_perceived := pers\<rparr>) p = view_at d p"
  "view_at (d\<lparr>dt_created := n\<rparr>) p = view_at d p" "view_at (d\<lparr>dt_destroyed := n\<rparr>) p = view_at d p"
  "view_at (d\<lparr>dt_collected := n\<rparr>) p = view_at d p" "view_at (d\<lparr>dt_attempted := n\<rparr>) p = view_at d p"
  "view_at (d\<lparr>dt_detected := n\<rparr>) p = view_at d p" "view_at (d\<lparr>dt_next_token := n\<rparr>) p = view_at d p"
  "view_at (d\<lparr>dt_last_checked := k\<rparr>) p = view_at d p" "view_at (emit es d) p = view_at d p"
  by (simp_all add: view_at_def emit_def cong: if_cong option.case_cong)

lemma mark_grey_less: "mark_grey d p rc = Inr (True, d') \<Longrightarrow> uncoloured COLOR_GREY d' < uncoloured COLOR_GREY d"
  by (auto simp: mark_grey_def uncoloured_def set_view_def view_at_Inr Let_def pony_assert_def res_bind_def
      intro!: filter_update_less split: sum.splits if_splits)

lemma mark_grey_le: "mark_grey d p rc = Inr (False, d') \<Longrightarrow> uncoloured COLOR_GREY d' \<le> uncoloured COLOR_GREY d"
  by (auto simp: mark_grey_def uncoloured_def set_view_def view_at_Inr Let_def pony_assert_def res_bind_def
      intro!: filter_update_le split: sum.splits if_splits)

lemma mark_black_less: "mark_black d p rc n = Inr (True, d', n') \<Longrightarrow> uncoloured COLOR_BLACK d' < uncoloured COLOR_BLACK d"
  by (auto simp: mark_black_def uncoloured_def set_view_def view_at_Inr Let_def pony_assert_def res_bind_def
      intro!: filter_update_less split: sum.splits if_splits)

lemma mark_black_le: "mark_black d p rc n = Inr (False, d', n') \<Longrightarrow> uncoloured COLOR_BLACK d' \<le> uncoloured COLOR_BLACK d"
  by (auto simp: mark_black_def uncoloured_def set_view_def view_at_Inr Let_def pony_assert_def res_bind_def
      intro!: filter_update_le split: sum.splits if_splits)


lemma collect_view_mono:
  assumes "collect_view per s p rc n = Inr (go, s', n')"
  shows "if go then uncoloured COLOR_BLACK (fst s') < uncoloured COLOR_BLACK (fst s)
         else uncoloured COLOR_BLACK (fst s') \<le> uncoloured COLOR_BLACK (fst s)"
proof -
  obtain d ms where s: "s = (d, ms)" by (cases s)
  obtain v where v: "view_at d p = Inr v" using assms by (cases "view_at d p") (simp_all add: collect_view_def s)
  let ?d = "if vw_color v = COLOR_WHITE then set_view d p (v\<lparr>vw_perceived := Some per\<rparr>) else d"
  obtain d' where d': "mark_black ?d p rc n = Inr (go, d', n')" "fst s' = d'"
    using assms v by (auto simp: collect_view_def s pony_assert_def res_bind_def split: if_splits sum.splits)
  have "uncoloured COLOR_BLACK ?d \<le> uncoloured COLOR_BLACK d"
    using v by (auto simp: uncoloured_def set_view_def view_at_Inr intro!: filter_update_le)
  thus ?thesis using d' mark_black_less [of ?d p rc n d' n'] mark_black_le [of ?d p rc n d' n'] s by (cases go) auto
qed

function scan_grey_loop :: "detector_t \<Rightarrow> viewref_t list \<Rightarrow> detector_t res" where
  "scan_grey_loop d [] = Inr d"
| "scan_grey_loop d (ref # stack) =
     (case mark_grey d (vr_view ref) (vr_rc ref) of
        Inl e \<Rightarrow> Inl e
      | Inr (go, d') \<Rightarrow>
          if go then scan_grey_loop d' (view_children d' (vr_view ref) @ stack) else scan_grey_loop d' stack)"
  by pat_completeness auto
termination
  by (relation "inv_image (less_than <*lex*> less_than) (\<lambda>(d, st). (uncoloured COLOR_GREY d, length st))")
    (auto dest: mark_grey_less mark_grey_le simp: le_less)

definition scan_grey :: "detector_t \<Rightarrow> view_ptr \<Rightarrow> uint64_t \<Rightarrow> detector_t res" where
  "scan_grey d view rc = scan_grey_loop d [\<lparr>vr_view = view, vr_rc = rc\<rparr>]"

function scan_black_loop :: "detector_t \<Rightarrow> int \<Rightarrow> viewref_t list \<Rightarrow> (detector_t \<times> int) res" where
  "scan_black_loop d count [] = Inr (d, count)"
| "scan_black_loop d count (ref # stack) =
     (case mark_black d (vr_view ref) (vr_rc ref) count of
        Inl e \<Rightarrow> Inl e
      | Inr (go, d', count') \<Rightarrow>
          if go then scan_black_loop d' count' (view_children d' (vr_view ref) @ stack) else scan_black_loop d' count' stack)"
  by pat_completeness auto
termination
  by (relation "inv_image (less_than <*lex*> less_than) (\<lambda>(d, n, st). (uncoloured COLOR_BLACK d, length st))")
    (auto dest: mark_black_less mark_black_le simp: le_less)

definition scan_black :: "detector_t \<Rightarrow> view_ptr \<Rightarrow> uint64_t \<Rightarrow> (detector_t \<times> int) res" where
  "scan_black d view rc = scan_black_loop d 0 [\<lparr>vr_view = view, vr_rc = rc\<rparr>]"

definition mark_white :: "detector_t \<Rightarrow> view_ptr \<Rightarrow> int \<Rightarrow> (bool \<times> detector_t \<times> int) res" where
  "mark_white d p count =
     res_bind (view_at d p) (\<lambda>view.
       if vw_color view \<noteq> COLOR_GREY then Inr (False, d, count)
       else pony_assert (vw_blocked view)
         (if vw_rc view > 0
          then res_bind (scan_black d p 0) (\<lambda>(d, n). Inr (False, d, count - n))
          else pony_assert (vw_perceived view = None)
            (Inr (True, set_view d p (view\<lparr>vw_color := COLOR_WHITE\<rparr>), count + 1))))"

definition greys :: "detector_t \<Rightarrow> nat" where
  "greys d = length (filter (\<lambda>v. case v of Some v \<Rightarrow> vw_color v = COLOR_GREY | None \<Rightarrow> False) (dt_mem d))"

lemma mark_black_greys: "mark_black d p rc n = Inr (go, d', n') \<Longrightarrow> greys d' \<le> greys d"
  by (auto simp: mark_black_def greys_def set_view_def view_at_Inr Let_def pony_assert_def res_bind_def
      intro!: filter_update_le split: sum.splits if_splits)

lemma scan_black_loop_greys: "scan_black_loop d n st = Inr (d', n') \<Longrightarrow> greys d' \<le> greys d"
proof (induction d n st rule: scan_black_loop.induct)
  case (2 d n ref st)
  then show ?case using mark_black_greys by (fastforce split: sum.splits prod.splits if_splits)
qed simp

lemma scan_black_greys: "scan_black d p rc = Inr (d', n') \<Longrightarrow> greys d' \<le> greys d"
  unfolding scan_black_def by (rule scan_black_loop_greys)

lemma mark_white_mono:
  assumes "mark_white d p n = Inr (go, d', n')"
  shows "if go then greys d' < greys d else greys d' \<le> greys d"
proof -
  obtain v where v: "view_at d p = Inr v" using assms by (cases "view_at d p") (simp_all add: mark_white_def)
  show ?thesis
  proof (cases "vw_rc v > 0")
    case True
    thus ?thesis using assms v scan_black_greys
      by (auto simp: mark_white_def pony_assert_def res_bind_def split: if_splits sum.splits)
  next
    case False
    thus ?thesis using assms v
      by (auto simp: mark_white_def pony_assert_def greys_def set_view_def view_at_Inr intro!: filter_update_less split: if_splits)
  qed
qed

function scan_white_loop :: "detector_t \<Rightarrow> int \<Rightarrow> viewref_t list \<Rightarrow> (detector_t \<times> int) res" where
  "scan_white_loop d count [] = Inr (d, count)"
| "scan_white_loop d count (ref # stack) =
     (case mark_white d (vr_view ref) count of
        Inl e \<Rightarrow> Inl e
      | Inr (go, d', count') \<Rightarrow>
          if go then scan_white_loop d' count' (view_children d' (vr_view ref) @ stack) else scan_white_loop d' count' stack)"
  by pat_completeness auto
termination
  by (relation "inv_image (less_than <*lex*> less_than) (\<lambda>(d, n, st). (greys d, length st))")
    (auto dest!: mark_white_mono simp: le_less)

definition scan_white :: "detector_t \<Rightarrow> view_ptr \<Rightarrow> (detector_t \<times> int) res" where
  "scan_white d view = scan_white_loop d 0 [\<lparr>vr_view = view, vr_rc = 0\<rparr>]"

function collect_white_loop :: "uint64_t \<Rightarrow> detector_t \<times> view_ptr list \<Rightarrow> int \<Rightarrow> viewref_t list \<Rightarrow>
    ((detector_t \<times> view_ptr list) \<times> int) res" where
  "collect_white_loop per s count [] = Inr (s, count)"
| "collect_white_loop per s count (ref # stack) =
     (case collect_view per s (vr_view ref) (vr_rc ref) count of
        Inl e \<Rightarrow> Inl e
      | Inr (go, s', count') \<Rightarrow>
          if go then collect_white_loop per s' count' (view_children (fst s') (vr_view ref) @ stack)
          else collect_white_loop per s' count' stack)"
  by pat_completeness auto
termination
  by (relation "inv_image (less_than <*lex*> less_than) (\<lambda>(t, s, n, st). (uncoloured COLOR_BLACK (fst s), length st))")
    (auto dest!: collect_view_mono simp: le_less)

definition collect_white :: "uint64_t \<Rightarrow> detector_t \<Rightarrow> view_ptr \<Rightarrow> uint64_t \<Rightarrow> ((detector_t \<times> view_ptr list) \<times> int) res" where
  "collect_white per d view rc = collect_white_loop per (d, []) 0 [\<lparr>vr_view = view, vr_rc = rc\<rparr>]"


text \<open>Walks over the views of a table.\<close>

fun each_view :: "(view_ptr \<Rightarrow> view_t \<Rightarrow> detector_t \<Rightarrow> detector_t res) \<Rightarrow> view_ptr list \<Rightarrow> detector_t \<Rightarrow> detector_t res" where
  "each_view f [] d = Inr d"
| "each_view f (p # ps) d = res_bind (view_at d p) (\<lambda>v. res_bind (f p v d) (each_view f ps))"

definition send_conf :: "perceived_t \<Rightarrow> detector_t \<Rightarrow> detector_t res" where
  "send_conf per d = each_view (\<lambda>p v d. Inr (emit [Conf (vw_actor v) (per_token per)] d)) (per_map per) d"

text \<open>The perceived cycle is in the table while its map is filled; here it is put there with its map.\<close>

definition detect :: "detector_t \<Rightarrow> view_ptr \<Rightarrow> (bool \<times> detector_t) res" where
  "detect d view =
     res_bind (view_at d view) (\<lambda>v. pony_assert (vw_perceived v = None)
       (res_bind (scan_grey d view 0) (\<lambda>d. res_bind (scan_white d view) (\<lambda>(d, count).
         pony_assert (count \<ge> 0)
           (if count = 0 then Inr (False, d)
            else
              let token = dt_next_token d;
                  d = d\<lparr>dt_detected := dt_detected d + 1, dt_next_token := token + 1\<rparr>
              in res_bind (collect_white token d view 0) (\<lambda>((d, members), count2).
                   pony_assert (count2 = count) (pony_assert (int (length members) = count)
                     (let per = \<lparr>per_token = token, per_ack = 0, per_map = members\<rparr>;
                          d = d\<lparr>dt_perceived := filter (\<lambda>x. per_token x \<noteq> token) (dt_perceived d) @ [per]\<rparr>
                      in res_bind (send_conf per d) (\<lambda>d. Inr (True, d))))))))))"

text \<open>
  The order in which the deferred views are taken is that of their buckets, \<open>visit\<close>; views that are not in it come last, so that all
  are taken.  A detection takes other views out of the table; those are not visited.
\<close>

fun deferred_loop :: "view_ptr list \<Rightarrow> detector_t \<Rightarrow> detector_t res" where
  "deferred_loop [] d = Inr d"
| "deferred_loop (p # ps) d =
     (if p \<in> set (dt_deferred d)
      then res_bind (view_at d p) (\<lambda>v. pony_assert (vw_deferred v)
        (res_bind (detect (set_view (d\<lparr>dt_deferred := filter (\<lambda>q. q \<noteq> p) (dt_deferred d)\<rparr>) p (v\<lparr>vw_deferred := False\<rparr>)) p)
          (\<lambda>(b, d). deferred_loop ps d)))
      else deferred_loop ps d)"

definition deferred :: "view_ptr list \<Rightarrow> detector_t \<Rightarrow> detector_t res" where
  "deferred visit d = deferred_loop (visit @ dt_deferred d) (d\<lparr>dt_attempted := dt_attempted d + 1\<rparr>)"

section \<open>Messages\<close>

definition set_perceived :: "uint64_t option \<Rightarrow> view_ptr \<Rightarrow> view_t \<Rightarrow> detector_t \<Rightarrow> detector_t res" where
  "set_perceived per p v d = Inr (set_view d p (v\<lparr>vw_perceived := per\<rparr>))"

definition expire :: "detector_t \<Rightarrow> view_ptr \<Rightarrow> detector_t res" where
  "expire d view =
     res_bind (view_at d view) (\<lambda>v.
       case vw_perceived v of
         None \<Rightarrow> Inr d
       | Some token \<Rightarrow>
           (case elems_get per_token (dt_perceived d) token of
              None \<Rightarrow> Inl Bad_access
            | Some per \<Rightarrow>
                res_bind (each_view (set_perceived None) (per_map per) d) (\<lambda>d.
                  each_view (set_perceived None) [view]
                    (d\<lparr>dt_perceived := filter (\<lambda>x. per_token x \<noteq> token) (dt_perceived d)\<rparr>))))"

text \<open>\<open>pending\<close> reads whether an actor is flagged for destruction.\<close>

definition collect :: "(uint64_t \<Rightarrow> bool) \<Rightarrow> detector_t \<Rightarrow> perceived_t \<Rightarrow> detector_t res" where
  "collect pending d per =
     res_bind (each_view (\<lambda>p v d. pony_assert (\<not> pending (vw_actor v)) (pony_assert (vw_perceived v = Some (per_token per))
         (let d = (if vw_deferred v then d\<lparr>dt_deferred := viewmap_remove d (dt_deferred d) (vw_actor v)\<rparr> else d)
          in Inr (emit [Setpendingdestroy (vw_actor v), Final (vw_actor v)] d)))) (per_map per)
         (d\<lparr>dt_perceived := filter (\<lambda>x. per_token x \<noteq> per_token per) (dt_perceived d)\<rparr>)) (\<lambda>d.
     res_bind (each_view (\<lambda>p v d. Inr (emit [Sendrelease (vw_actor v)] d)) (per_map per) d) (\<lambda>d.
     res_bind (each_view (\<lambda>p v d.
         let d = emit [Destroy (vw_actor v)] d
         in view_free (d\<lparr>dt_views := viewmap_remove d (dt_views d) (vw_actor v)\<rparr>) p) (per_map per) d) (\<lambda>d.
     Inr (d\<lparr>dt_destroyed := dt_destroyed d + of_nat (length (per_map per)), dt_collected := dt_collected d + 1\<rparr>))))"

definition CD_MAX_CHECK_BLOCKED :: nat where "CD_MAX_CHECK_BLOCKED = 1000"

text \<open>
  \<open>place\<close> is where a view is in the table, and \<open>last_checked\<close> the bucket of the last view that was checked, as \<^verbatim>\<open>ponyint_viewmap_next\<close>
  leaves it; \<^verbatim>\<open>HASHMAP_BEGIN\<close> is \<open>- 1\<close>.
\<close>

fun check_blocked_loop :: "(view_ptr \<Rightarrow> uint64_t) \<Rightarrow> nat \<Rightarrow> nat \<Rightarrow> view_ptr list \<Rightarrow> detector_t \<Rightarrow> detector_t res" where
  "check_blocked_loop place nviews n [] d = Inr (d\<lparr>dt_last_checked := - 1\<rparr>)"
| "check_blocked_loop place nviews n (p # ps) d =
     res_bind (view_at d p) (\<lambda>view.
       let d = (if \<not> vw_blocked view then emit [Isblocked (vw_actor view)] d else d); n = n + 1
       in if n > (if nviews div 10 > CD_MAX_CHECK_BLOCKED then nviews div 10 else CD_MAX_CHECK_BLOCKED)
          then Inr (d\<lparr>dt_last_checked := place p\<rparr>) else check_blocked_loop place nviews n ps d)"

definition views_from :: "(view_ptr \<Rightarrow> uint64_t) \<Rightarrow> detector_t \<Rightarrow> view_ptr list" where
  "views_from place d = sort_key place (filter (\<lambda>p. dt_last_checked d + 1 \<le> place p) (dt_views d))"

definition check_blocked :: "(view_ptr \<Rightarrow> uint64_t) \<Rightarrow> view_ptr list \<Rightarrow> detector_t \<Rightarrow> detector_t res" where
  "check_blocked place visit d =
     res_bind (check_blocked_loop place (length (dt_views d)) 0 (views_from place d) d) (deferred visit)"

datatype actor_msg = ACTORMSG_CONF | ACTORMSG_ISBLOCKED | ACTORMSG_OTHER

text \<open>\<open>q\<close> are the messages the detector finds in the queue of an actor without references before it destroys it.\<close>

definition block :: "(uint64_t \<Rightarrow> bool) \<Rightarrow> detector_t \<Rightarrow> uint64_t \<Rightarrow> uint64_t \<Rightarrow> uint32_t \<Rightarrow> delta_t list option \<Rightarrow>
    actor_msg list \<Rightarrow> detector_t res" where
  "block pending d actor rc live_asio_events deltas q =
     (if rc = 0 then
        pony_assert (live_asio_events = 0)
          (res_bind (get_view d actor False) (\<lambda>(found, d).
           res_bind (case found of
               None \<Rightarrow> Inr d
             | Some view \<Rightarrow>
                 res_bind (view_at d view) (\<lambda>v.
                 res_bind (expire (if vw_deferred v then d\<lparr>dt_deferred := viewmap_remove d (dt_deferred d) actor\<rparr> else d) view) (\<lambda>d.
                 view_free (d\<lparr>dt_views := viewmap_remove d (dt_views d) actor\<rparr>) view))) (\<lambda>d.
           pony_assert (\<not> pending actor) (pony_assert (list_all (\<lambda>m. m = ACTORMSG_CONF \<or> m = ACTORMSG_ISBLOCKED) q)
             (let d = emit [Setpendingdestroy actor, Final actor, Sendrelease actor, Destroy actor] d
              in Inr (d\<lparr>dt_destroyed := dt_destroyed d + 1\<rparr>))))))
      else
        res_bind (get_view d actor True) (\<lambda>(found, d).
          case found of
            None \<Rightarrow> Inl Null_deref
          | Some view \<Rightarrow>
              res_bind (view_at d view) (\<lambda>v.
              res_bind (apply_delta view (case deltas of None \<Rightarrow> [] | Some ds \<Rightarrow> ds) (set_view d view (v\<lparr>vw_rc := rc\<rparr>))) (\<lambda>d.
              res_bind (view_at d view) (\<lambda>v.
              res_bind (expire (set_view d view (v\<lparr>vw_blocked := True\<rparr>)) view) (\<lambda>d.
              res_bind (view_at d view) (\<lambda>v.
              if vw_deferred v then Inr d
              else Inr (set_view (d\<lparr>dt_deferred := viewmap_put d (dt_deferred d) view (vw_actor v)\<rparr>) view (v\<lparr>vw_deferred := True\<rparr>)))))))))"

definition unblock :: "detector_t \<Rightarrow> uint64_t \<Rightarrow> detector_t res" where
  "unblock d actor =
     (case viewmap_get d (dt_views d) actor of
        None \<Rightarrow> Inl Assert_fail
      | Some view \<Rightarrow>
          res_bind (view_at d view) (\<lambda>v.
            let d = (if vw_deferred v then d\<lparr>dt_deferred := viewmap_remove d (dt_deferred d) actor\<rparr> else d)
            in expire (set_view d view (v\<lparr>vw_blocked := False, vw_deferred := False\<rparr>)) view))"

definition ack :: "(uint64_t \<Rightarrow> bool) \<Rightarrow> detector_t \<Rightarrow> uint64_t \<Rightarrow> detector_t res" where
  "ack pending d token =
     (case elems_get per_token (dt_perceived d) token of
        None \<Rightarrow> Inr d
      | Some per \<Rightarrow>
          let per = per\<lparr>per_ack := per_ack per + 1\<rparr>;
              d = d\<lparr>dt_perceived := elems_modify per_token (dt_perceived d) token (\<lambda>x. per)\<rparr>
          in if per_ack per = of_nat (length (per_map per)) then collect pending d per else Inr d)"

datatype cycle_msg = CHECKBLOCKED "view_ptr \<Rightarrow> uint64_t" "view_ptr list" | BLOCK uint64_t uint64_t uint32_t "delta_t list option" "actor_msg list"
  | UNBLOCK uint64_t | ACK uint64_t

fun cycle_dispatch :: "(uint64_t \<Rightarrow> bool) \<Rightarrow> detector_t \<Rightarrow> cycle_msg \<Rightarrow> detector_t res" where
  "cycle_dispatch pending d (CHECKBLOCKED place visit) = check_blocked place visit d"
| "cycle_dispatch pending d (BLOCK actor rc live deltas q) = block pending d actor rc live deltas q"
| "cycle_dispatch pending d (UNBLOCK actor) = unblock d actor"
| "cycle_dispatch pending d (ACK token) = ack pending d token"

text \<open>The detector at the start, with the interval between checks, and whether it is time for a check.\<close>

definition ponyint_cycle_create :: "uint32_t \<Rightarrow> detector_t" where
  "ponyint_cycle_create detect_interval =
     (let detect_interval = (if detect_interval > 1000 then 1000 else detect_interval);
          detect_interval = (if detect_interval < 10 then 10 else detect_interval)
      in \<lparr>dt_mem = [], dt_next_token = 0, dt_detect_interval = ucast (detect_interval * 2000000), dt_last_checked = - 1,
        dt_views = [], dt_deferred = [], dt_perceived = [], dt_attempted = 0, dt_detected = 0, dt_collected = 0, dt_created = 0,
        dt_destroyed = 0, dt_out = []\<rparr>)"

definition ponyint_cpu_tick_diff :: "uint64_t \<Rightarrow> uint64_t \<Rightarrow> uint64_t" where
  "ponyint_cpu_tick_diff supposedly_earlier supposedly_later =
     (if supposedly_earlier = supposedly_later then 0
      else if supposedly_earlier > supposedly_later then (- 1 - supposedly_earlier) + supposedly_later
      else supposedly_later - supposedly_earlier)"

definition ponyint_cycle_check_blocked :: "detector_t \<Rightarrow> uint64_t \<Rightarrow> uint64_t \<Rightarrow> bool" where
  "ponyint_cycle_check_blocked d tsc tsc2 \<longleftrightarrow> ponyint_cpu_tick_diff tsc tsc2 > dt_detect_interval d"

text \<open>
  The end of the program: the actors of the block messages left in the queue \<open>q\<close> and those of the views are finalised, unless they are
  flagged already, and then destroyed, the last one first.
\<close>

definition final_actor :: "uint64_t \<Rightarrow> (uint64_t \<Rightarrow> bool) \<times> uint64_t list \<Rightarrow> (uint64_t \<Rightarrow> bool) \<times> uint64_t list" where
  "final_actor a s = (case s of (pending, stack) \<Rightarrow> if pending a then s else (pending(a := True), a # stack))"

fun final_views :: "detector_t \<Rightarrow> view_ptr list \<Rightarrow> (uint64_t \<Rightarrow> bool) \<times> uint64_t list \<Rightarrow>
    ((uint64_t \<Rightarrow> bool) \<times> uint64_t list) res" where
  "final_views d [] s = Inr s"
| "final_views d (p # ps) s = res_bind (view_at d p) (\<lambda>v. final_views d ps (final_actor (vw_actor v) s))"

definition final :: "(uint64_t \<Rightarrow> bool) \<Rightarrow> uint64_t list \<Rightarrow> detector_t \<Rightarrow> detector_t res" where
  "final pending q d =
     res_bind (final_views d (dt_views d) (fold final_actor q (pending, []))) (\<lambda>(pending, stack).
       let d = emit (concat (map (\<lambda>a. [Setpendingdestroy a, Final a]) (rev stack))) d;
           d = emit (map Destroy stack) d
       in Inr (d\<lparr>dt_deferred := [], dt_views := [], dt_perceived := []\<rparr>))"

lemma final_actor_pair:
  "final_actor a (pending, stack) = (if pending a then (pending, stack) else (pending(a := True), a # stack))"
  by (simp add: final_actor_def)

lemma final_fold:
  "fold final_actor as (pending, stack) = (pending', stack') \<Longrightarrow> distinct stack \<Longrightarrow> (\<forall>a \<in> set stack. pending a) \<Longrightarrow>
     distinct stack' \<and> set stack' = set stack \<union> {a \<in> set as. \<not> pending a}"
proof (induction as arbitrary: pending stack)
  case (Cons a as)
  show ?case
  proof (cases "pending a")
    case True
    thus ?thesis using Cons by (auto simp: final_actor_pair)
  next
    case False
    have "fold final_actor as (pending(a := True), a # stack) = (pending', stack')" using Cons.prems(1) False by (simp add: final_actor_pair)
    moreover have "distinct (a # stack)" "\<forall>b \<in> set (a # stack). (pending(a := True)) b" using Cons.prems(2,3) False by auto
    ultimately have "distinct stack' \<and> set stack' = set (a # stack) \<union> {b \<in> set as. \<not> (pending(a := True)) b}" by (rule Cons.IH)
    thus ?thesis using False by auto
  qed
qed simp

lemma final_views_fold: "final_views d ps s = Inr s' \<Longrightarrow> s' = fold final_actor (map (\<lambda>p. vw_actor (projr (view_at d p))) ps) s"
proof (induction ps arbitrary: s)
  case (Cons p ps)
  then obtain v where "view_at d p = Inr v" by (cases "view_at d p") simp_all
  thus ?case using Cons by simp
qed simp

text \<open>At the end every actor that is not flagged yet is finalised once and destroyed once.\<close>

lemma final_once:
  assumes "final pending q d = Inr e"
  shows "\<exists>stack. distinct stack \<and> set stack = {a \<in> set q \<union> (\<lambda>p. vw_actor (projr (view_at d p))) ` set (dt_views d). \<not> pending a} \<and>
    dt_out e = dt_out d @ concat (map (\<lambda>a. [Setpendingdestroy a, Final a]) (rev stack)) @ map Destroy stack"
proof -
  obtain pending' stack where s: "final_views d (dt_views d) (fold final_actor q (pending, [])) = Inr (pending', stack)"
    using assms by (cases "final_views d (dt_views d) (fold final_actor q (pending, []))") (auto simp: final_def)
  have "fold final_actor (q @ map (\<lambda>p. vw_actor (projr (view_at d p))) (dt_views d)) (pending, []) = (pending', stack)"
    using final_views_fold [OF s] by simp
  from final_fold [OF this] assms s show ?thesis by (intro exI [of _ stack]) (auto simp: final_def emit_def Let_def)
qed

end
