(* ===== verification/Cycle_Trial.thy ===== *)
theory Cycle_Trial
  imports Cycle
begin

text \<open>
  The loops of trial deletion.  They all mark what can be reached, and take references off the counts or give them back: proved once for a
  locale of marking loops, which the three loops of the cycle detector then instantiate.
\<close>

section \<open>Marking what can be reached\<close>

text \<open>What can be reached from \<open>R\<close> through views of \<open>N\<close>, where \<open>K\<close> gives the views a view refers to.\<close>

inductive_set reach_via :: "(view_ptr \<Rightarrow> view_ptr set) \<Rightarrow> view_ptr set \<Rightarrow> view_ptr set \<Rightarrow> view_ptr set"
  for K :: "view_ptr \<Rightarrow> view_ptr set" and N R :: "view_ptr set" where
  reached_root: "p \<in> R \<Longrightarrow> p \<in> N \<Longrightarrow> p \<in> reach_via K N R"
| reached_step: "x \<in> reach_via K N R \<Longrightarrow> p \<in> K x \<Longrightarrow> p \<in> N \<Longrightarrow> p \<in> reach_via K N R"

lemma reached_sub: "reach_via K N R \<subseteq> N"
  by (auto elim: reach_via.cases)

lemma reached_mono:
  assumes "N \<subseteq> N'" and "\<And>p. p \<in> R \<Longrightarrow> p \<in> N \<Longrightarrow> p \<in> reach_via K N' R'"
  shows "reach_via K N R \<subseteq> reach_via K N' R'"
proof
  fix p assume "p \<in> reach_via K N R"
  thus "p \<in> reach_via K N' R'" by induction (use assms in \<open>auto intro: reach_via.intros\<close>)
qed

lemma reached_old: "p \<notin> N \<Longrightarrow> reach_via K N (insert p R) = reach_via K N R"
  by (intro equalityI reached_mono) (auto intro: reached_root)

lemma reached_new:
  assumes "p \<in> N"
  shows "reach_via K N (insert p R) = insert p (reach_via K (N - {p}) (K p \<union> R))"
proof
  show "reach_via K N (insert p R) \<subseteq> insert p (reach_via K (N - {p}) (K p \<union> R))"
  proof
    fix z assume "z \<in> reach_via K N (insert p R)"
    thus "z \<in> insert p (reach_via K (N - {p}) (K p \<union> R))" by induction (auto intro: reach_via.intros)
  qed
  have p: "p \<in> reach_via K N (insert p R)" using assms by (simp add: reached_root)
  have "q \<in> reach_via K N (insert p R)" if "q \<in> K p \<union> R" "q \<in> N - {p}" for q
    using that reached_step [OF p] by (auto intro: reached_root)
  hence "reach_via K (N - {p}) (K p \<union> R) \<subseteq> reach_via K N (insert p R)" by (intro reached_mono) auto
  thus "insert p (reach_via K (N - {p}) (K p \<union> R)) \<subseteq> reach_via K N (insert p R)" using p by simp
qed

lemma reached_closed: "x \<in> reach_via K N R \<Longrightarrow> K x \<inter> N \<subseteq> reach_via K N R"
  by (auto intro: reached_step)

lemma reached_least:
  assumes "R \<inter> N \<subseteq> S" and "\<And>x. x \<in> S \<Longrightarrow> K x \<inter> N \<subseteq> S"
  shows "reach_via K N R \<subseteq> S"
proof
  fix p assume "p \<in> reach_via K N R"
  thus "p \<in> S" by induction (use assms in auto)
qed

text \<open>What the references on a stack take off, or give back to, the count of a view.\<close>

definition owed :: "viewref_t list \<Rightarrow> view_ptr \<Rightarrow> uint64_t" where
  "owed refs p = (\<Sum>ref \<leftarrow> refs. if vr_view ref = p then vr_rc ref else 0)"

lemma owed_simps [simp]:
  "owed [] p = 0" "owed (ref # refs) p = (if vr_view ref = p then vr_rc ref else 0) + owed refs p"
  "owed (refs @ refs') p = owed refs p + owed refs' p" "owed (rev refs) p = owed refs p"
proof -
  show 3: "owed (refs @ refs') p = owed refs p + owed refs' p" for refs' by (simp add: owed_def)
  show "owed (rev refs) p = owed refs p" by (simp add: owed_def rev_map [symmetric] sum_list_rev)
qed (simp_all add: owed_def)

lemma owed_none: "p \<notin> vr_view ` set refs \<Longrightarrow> owed refs p = 0"
  by (induction refs) auto

text \<open>
  The loops of trial deletion have one shape: a reference is popped, its view is marked, and the references of
  a view that was not marked before are pushed.  \<open>good s N f\<close> says that \<open>s\<close> is the state in which the views of \<open>N\<close>
  are not marked yet and the counts are off by \<open>f\<close>.
\<close>

locale trial_marking =
  fixes run :: "'s \<Rightarrow> viewref_t list \<Rightarrow> 's res" and mark :: "'s \<Rightarrow> viewref_t \<Rightarrow> (bool \<times> 's) res"
    and ok :: "'c \<Rightarrow> bool" and refs :: "'c \<Rightarrow> view_ptr \<Rightarrow> viewref_t list" and live blk :: "'c \<Rightarrow> view_ptr \<Rightarrow> bool"
    and good :: "'c \<Rightarrow> view_ptr set \<Rightarrow> (view_ptr \<Rightarrow> uint64_t) \<Rightarrow> 's \<Rightarrow> bool" and sg :: uint64_t and N0 :: "'c \<Rightarrow> view_ptr set"
  assumes run_Nil: "run s [] = Inr s"
    and run_Cons: "ok c \<Longrightarrow> mark s ref = Inr (go, s') \<Longrightarrow> good c N f s' \<Longrightarrow> live c (vr_view ref) \<Longrightarrow>
      run s (ref # stack) = run s' (if go then rev (refs c (vr_view ref)) @ stack else stack)"
    and mark_free: "ok c \<Longrightarrow> good c N f s \<Longrightarrow> N \<subseteq> N0 c \<Longrightarrow> live c (vr_view ref) \<Longrightarrow> \<not> blk c (vr_view ref) \<Longrightarrow>
      mark s ref = Inr (False, s)"
    and mark_old: "ok c \<Longrightarrow> good c N f s \<Longrightarrow> N \<subseteq> N0 c \<Longrightarrow> blk c (vr_view ref) \<Longrightarrow> vr_view ref \<notin> N \<Longrightarrow>
      \<exists>s'. mark s ref = Inr (False, s') \<and> good c N (f(vr_view ref := f (vr_view ref) - sg * vr_rc ref)) s'"
    and mark_new: "ok c \<Longrightarrow> good c N f s \<Longrightarrow> N \<subseteq> N0 c \<Longrightarrow> vr_view ref \<in> N \<Longrightarrow>
      \<exists>s'. mark s ref = Inr (True, s') \<and> good c (N - {vr_view ref})
        (\<lambda>q. f q - (if q = vr_view ref then sg * vr_rc ref else 0) + sg * owed (refs c (vr_view ref)) q) s'"
    and good_cong: "ok c \<Longrightarrow> good c N f s \<Longrightarrow> (\<And>p. blk c p \<Longrightarrow> f p = g p) \<Longrightarrow> good c N g s"
    and live_refs: "ok c \<Longrightarrow> live c p \<Longrightarrow> ref \<in> set (refs c p) \<Longrightarrow> live c (vr_view ref)"
    and unmarked: "N0 c \<subseteq> {p. blk c p \<and> live c p}" "finite (N0 c)"
begin

lemma run_reaches:
  assumes ok: "ok c" and "good c N (\<lambda>p. sg * owed stack p) s" and "N \<subseteq> N0 c" and "\<forall>ref \<in> set stack. live c (vr_view ref)"
  shows "\<exists>s'. run s stack = Inr s' \<and> good c (N - reach_via (\<lambda>p. vr_view ` set (refs c p)) N (vr_view ` set stack)) (\<lambda>p. 0) s'"
proof -
  have "wf (inv_image (less_than <*lex*> less_than) (\<lambda>(N, stack). (card N, length stack)))"
    by (intro wf_inv_image wf_lex_prod wf_less_than)
  thus ?thesis using assms(2-)
  proof (induction "(N, stack)" arbitrary: N stack s rule: wf_induct_rule)
    case less
    let ?K = "\<lambda>p. vr_view ` set (refs c p)"
    show ?case
    proof (cases stack)
      case Nil
      have "reach_via ?K N {} = {}" using reached_least [of "{}" N "{}" ?K] by simp
      thus ?thesis using less.prems(1) Nil run_Nil by simp
    next
      case (Cons ref rest)
      let ?p = "vr_view ref"
      have live: "live c ?p" "\<forall>r \<in> set rest. live c (vr_view r)" using less.prems(3) Cons by auto
      note g = less.prems(1)
      show ?thesis
      proof (cases "?p \<in> N")
        case new: True
        let ?f = "\<lambda>q. sg * owed stack q - (if q = ?p then sg * vr_rc ref else 0) + sg * owed (refs c ?p) q"
        obtain s' where s': "mark s ref = Inr (True, s')" "good c (N - {?p}) ?f s'"
          using mark_new [OF ok g less.prems(2) new] by blast
        have "?f q = sg * owed (rev (refs c ?p) @ rest) q" for q by (cases "q = ?p") (simp_all add: Cons distrib_left)
        hence "good c (N - {?p}) (\<lambda>q. sg * owed (rev (refs c ?p) @ rest) q) s'" by (intro good_cong [OF ok s'(2)])
        moreover have "finite N" using less.prems(2) unmarked(2) [of c] by (rule finite_subset)
        hence "card (N - {?p}) < card N" using new by (rule card_Diff1_less)
        moreover have "\<forall>r \<in> set (rev (refs c ?p) @ rest). live c (vr_view r)" using live live_refs [OF ok live(1)] by auto
        ultimately obtain s'' where "run s' (rev (refs c ?p) @ rest) = Inr s''"
          "good c (N - {?p} - reach_via ?K (N - {?p}) (?K ?p \<union> vr_view ` set rest)) (\<lambda>p. 0) s''"
          using less.hyps [of "N - {?p}" "rev (refs c ?p) @ rest" s'] less.prems(2) by (auto simp: image_Un)
        moreover have "N - {?p} - reach_via ?K (N - {?p}) (?K ?p \<union> vr_view ` set rest) = N - reach_via ?K N (vr_view ` set stack)"
          using reached_new [OF new, of ?K] Cons by auto
        ultimately show ?thesis using run_Cons [OF ok s' live(1), of rest] Cons by auto
      next
        case old: False
        have "\<exists>s'. mark s ref = Inr (False, s') \<and> good c N (\<lambda>p. sg * owed rest p) s'"
        proof (cases "blk c ?p")
          case True
          obtain s' where "mark s ref = Inr (False, s')" "good c N ((\<lambda>p. sg * owed stack p)(?p := sg * owed stack ?p - sg * vr_rc ref)) s'"
            using mark_old [OF ok g less.prems(2) True old] by blast
          moreover have "((\<lambda>p. sg * owed stack p)(?p := sg * owed stack ?p - sg * vr_rc ref)) = (\<lambda>p. sg * owed rest p)"
            by (rule ext) (simp add: Cons distrib_left)
          ultimately show ?thesis by auto
        next
          case False
          have "sg * owed stack p = sg * owed rest p" if "blk c p" for p using that False by (auto simp: Cons)
          hence "good c N (\<lambda>p. sg * owed rest p) s" by (intro good_cong [OF ok g])
          thus ?thesis using mark_free [OF ok g less.prems(2) live(1) False] by blast
        qed
        then obtain s' where s': "mark s ref = Inr (False, s')" "good c N (\<lambda>p. sg * owed rest p) s'" by blast
        obtain s'' where "run s' rest = Inr s''" "good c (N - reach_via ?K N (vr_view ` set rest)) (\<lambda>p. 0) s''"
          using less.hyps [of N rest s'] s'(2) less.prems(2) live Cons by auto
        thus ?thesis using run_Cons [OF ok s' live(1), of rest] Cons reached_old [OF old, of ?K] by simp
      qed
    qed
  qed
qed

end

section \<open>States of a trial\<close>

definition refs_of :: "detector_t \<Rightarrow> view_ptr \<Rightarrow> viewref_t list" where
  "refs_of d p = (case view_at d p of Inr v \<Rightarrow> vw_map v | Inl _ \<Rightarrow> [])"

definition is_live :: "detector_t \<Rightarrow> view_ptr \<Rightarrow> bool" where
  "is_live d p \<longleftrightarrow> (\<exists>v. view_at d p = Inr v)"

definition is_blocked :: "detector_t \<Rightarrow> view_ptr \<Rightarrow> bool" where
  "is_blocked d p \<longleftrightarrow> (\<exists>v. view_at d p = Inr v \<and> vw_blocked v)"

definition is_deferred :: "detector_t \<Rightarrow> view_ptr \<Rightarrow> bool" where
  "is_deferred d p \<longleftrightarrow> (\<exists>v. view_at d p = Inr v \<and> vw_deferred v)"

text \<open>Before a trial every view is black and refers to views that exist.\<close>

definition at_rest :: "detector_t \<Rightarrow> bool" where
  "at_rest d \<longleftrightarrow> (\<forall>p v. view_at d p = Inr v \<longrightarrow> vw_color v = COLOR_BLACK \<and> (\<forall>ref \<in> set (vw_map v). is_live d (vr_view ref)))"

text \<open>
  The state in which the views have the colours \<open>K\<close>, so that the references of all views that are not black are taken
  off the counts, up to \<open>f\<close>; those of \<open>D\<close> are no longer deferred, and those of \<open>Q\<close> are in the perceived cycle \<open>t\<close>.
\<close>

definition taken :: "detector_t \<Rightarrow> (view_ptr \<Rightarrow> ponyint_color_t) \<Rightarrow> view_ptr \<Rightarrow> uint64_t" where
  "taken d K p = (\<Sum>x | x < length (dt_mem d) \<and> K x \<noteq> COLOR_BLACK. owed (refs_of d x) p)"

definition tint :: "detector_t \<Rightarrow> (view_ptr \<Rightarrow> ponyint_color_t) \<Rightarrow> view_ptr set \<Rightarrow> view_ptr set \<Rightarrow> uint64_t \<Rightarrow>
    (view_ptr \<Rightarrow> uint64_t) \<Rightarrow> view_ptr \<Rightarrow> view_t \<Rightarrow> view_t" where
  "tint d K D Q t f p v = v\<lparr>vw_color := K p, vw_rc := (if vw_blocked v then vw_rc v - taken d K p + f p else vw_rc v),
     vw_deferred := (vw_deferred v \<and> p \<notin> D), vw_perceived := (if p \<in> Q then Some t else vw_perceived v)\<rparr>"

definition painted :: "detector_t \<Rightarrow> (view_ptr \<Rightarrow> ponyint_color_t) \<Rightarrow> view_ptr set \<Rightarrow> view_ptr set \<Rightarrow> uint64_t \<Rightarrow>
    (view_ptr \<Rightarrow> uint64_t) \<Rightarrow> detector_t" where
  "painted d K D Q t f = d\<lparr>dt_mem := map (\<lambda>p. map_option (tint d K D Q t f p) (dt_mem d ! p)) [0..<length (dt_mem d)],
     dt_deferred := filter (\<lambda>q. \<forall>p \<in> D. is_deferred d p \<longrightarrow> view_actor d q \<noteq> view_actor d p) (dt_deferred d)\<rparr>"

lemma tint_sel [simp]:
  "vw_color (tint d K D Q t f p v) = K p" "vw_blocked (tint d K D Q t f p v) = vw_blocked v"
  "vw_actor (tint d K D Q t f p v) = vw_actor v" "vw_map (tint d K D Q t f p v) = vw_map v"
  "vw_deferred (tint d K D Q t f p v) = (vw_deferred v \<and> p \<notin> D)" "vw_view_rc (tint d K D Q t f p v) = vw_view_rc v"
  "vw_perceived (tint d K D Q t f p v) = (if p \<in> Q then Some t else vw_perceived v)"
  "vw_rc (tint d K D Q t f p v) = (if vw_blocked v then vw_rc v - taken d K p + f p else vw_rc v)"
  by (simp_all add: tint_def)

lemma painted_sel:
  "length (dt_mem (painted d K D Q t f)) = length (dt_mem d)"
  "p < length (dt_mem d) \<Longrightarrow> dt_mem (painted d K D Q t f) ! p = map_option (tint d K D Q t f p) (dt_mem d ! p)"
  by (simp_all add: painted_def)

lemma view_at_painted:
  "view_at d p = Inr v \<Longrightarrow> view_at (painted d K D Q t f) p = Inr (tint d K D Q t f p v)"
  by (auto simp: view_at_Inr painted_sel)

lemma view_actor_painted: "view_actor (painted d K D Q t f) p = view_actor d p"
  by (cases "p < length (dt_mem d)") (simp_all add: view_actor_def painted_sel option.map_comp o_def)

lemma deferred_painted:
  "dt_deferred (painted d K D Q t f) = filter (\<lambda>q. \<forall>p \<in> D. is_deferred d p \<longrightarrow> view_actor d q \<noteq> view_actor d p) (dt_deferred d)"
  by (simp add: painted_def)

lemma children_painted: "view_at d p = Inr v \<Longrightarrow> view_children (painted d K D Q t f) p = rev (refs_of d p)"
  by (simp add: view_children_def view_at_painted refs_of_def)

text \<open>Writing one view is a step from one such state to another.\<close>

lemma painted_write:
  assumes v: "view_at d p = Inr v" and x: "x = tint d K' D' Q' t f' p v"
    and other: "\<And>q w. q \<noteq> p \<Longrightarrow> view_at d q = Inr w \<Longrightarrow> tint d K D Q t f q w = tint d K' D' Q' t f' q w"
  shows "(dt_mem (painted d K D Q t f))[p := Some x] = dt_mem (painted d K' D' Q' t f')"
proof (rule nth_equalityI)
  fix q assume q: "q < length ((dt_mem (painted d K D Q t f))[p := Some x])"
  hence q': "q < length (dt_mem d)" by (simp add: painted_sel)
  show "(dt_mem (painted d K D Q t f))[p := Some x] ! q = dt_mem (painted d K' D' Q' t f') ! q"
  proof (cases "q = p")
    case True
    thus ?thesis using v x q' by (simp add: painted_sel view_at_Inr)
  next
    case False
    hence "map_option (tint d K D Q t f q) (dt_mem d ! q) = map_option (tint d K' D' Q' t f' q) (dt_mem d ! q)"
      using other [of q] q' by (cases "dt_mem d ! q") (auto simp: view_at_Inr)
    thus ?thesis using q' False by (simp add: painted_sel)
  qed
qed (simp add: painted_sel)

lemma taken_more:
  assumes "p < length (dt_mem d)" and "K p = COLOR_BLACK" and "c \<noteq> COLOR_BLACK"
  shows "taken d (K(p := c)) q = taken d K q + owed (refs_of d p) q"
proof -
  have "{x. x < length (dt_mem d) \<and> (K(p := c)) x \<noteq> COLOR_BLACK} = insert p {x. x < length (dt_mem d) \<and> K x \<noteq> COLOR_BLACK}"
    using assms by auto
  thus ?thesis using assms(2) by (simp add: taken_def add.commute)
qed

lemma taken_less:
  assumes "p < length (dt_mem d)" and "K p \<noteq> COLOR_BLACK"
  shows "taken d (K(p := COLOR_BLACK)) q = taken d K q - owed (refs_of d p) q"
proof -
  have "taken d ((K(p := COLOR_BLACK))(p := K p)) q = taken d (K(p := COLOR_BLACK)) q + owed (refs_of d p) q"
    using assms by (intro taken_more) simp_all
  thus ?thesis by simp
qed

lemma taken_same: "(K p = COLOR_BLACK) = (c = COLOR_BLACK) \<Longrightarrow> taken d (K(p := c)) q = taken d K q"
  by (auto simp: taken_def intro!: sum.cong)

lemma painted_cong:
  assumes "\<And>p. is_blocked d p \<Longrightarrow> f p = g p"
  shows "painted d K D Q t f = painted d K D Q t g"
proof -
  have "map_option (tint d K D Q t f p) (dt_mem d ! p) = map_option (tint d K D Q t g p) (dt_mem d ! p)" if "p < length (dt_mem d)" for p
    using assms [of p] that by (cases "dt_mem d ! p") (auto simp: is_blocked_def view_at_Inr tint_def)
  thus ?thesis by (simp add: painted_def)
qed

lemma blocked_live: "is_blocked d p \<Longrightarrow> is_live d p"
  by (auto simp: is_blocked_def is_live_def)

lemma blocked_finite: "finite {p. is_blocked d p}"
  by (rule finite_subset [of _ "{..<length (dt_mem d)}"]) (auto simp: is_blocked_def view_at_Inr)

lemma at_rest_refs: "at_rest d \<Longrightarrow> is_live d p \<Longrightarrow> ref \<in> set (refs_of d p) \<Longrightarrow> is_live d (vr_view ref)"
  by (auto simp: at_rest_def is_live_def refs_of_def split: sum.splits)

lemma painted_rest:
  assumes "at_rest d"
  shows "painted d (\<lambda>_. COLOR_BLACK) {} {} t (\<lambda>_. 0) = d"
proof -
  have "tint d (\<lambda>_. COLOR_BLACK) {} {} t (\<lambda>_. 0) p v = v" if "view_at d p = Inr v" for p v
    using assms that by (simp add: tint_def taken_def at_rest_def)
  hence "map_option (tint d (\<lambda>_. COLOR_BLACK) {} {} t (\<lambda>_. 0) p) (dt_mem d ! p) = dt_mem d ! p" if "p < length (dt_mem d)" for p
    using that by (cases "dt_mem d ! p") (auto simp: view_at_Inr)
  hence "map (\<lambda>p. map_option (tint d (\<lambda>_. COLOR_BLACK) {} {} t (\<lambda>_. 0) p) (dt_mem d ! p)) [0..<length (dt_mem d)] = dt_mem d"
    by (intro nth_equalityI) simp_all
  thus ?thesis by (simp add: painted_def)
qed

lemma view_eqI:
  assumes "vw_actor v = vw_actor w" "vw_rc v = vw_rc w" "vw_view_rc v = vw_view_rc w" "vw_blocked v = vw_blocked w"
    "vw_deferred v = vw_deferred w" "vw_color v = vw_color w" "vw_map v = vw_map w" "vw_perceived v = vw_perceived w"
  shows "v = (w :: view_t)"
  using assms by simp

lemma set_painted:
  assumes "view_at d p = Inr v" and "x = tint d K' D' Q' t f' p v"
    and "\<And>q w. q \<noteq> p \<Longrightarrow> view_at d q = Inr w \<Longrightarrow> tint d K D Q t f q w = tint d K' D' Q' t f' q w"
    and "l = dt_deferred (painted d K' D' Q' t f')"
  shows "set_view ((painted d K D Q t f)\<lparr>dt_deferred := l\<rparr>) p x = painted d K' D' Q' t f'"
  using painted_write [OF assms(1-3)] assms(4) by (simp add: set_view_def) (simp add: painted_def)

lemma set_painted_same:
  assumes "view_at d p = Inr v" and "x = tint d K' D Q' t f' p v"
    and "\<And>q w. q \<noteq> p \<Longrightarrow> view_at d q = Inr w \<Longrightarrow> tint d K D Q t f q w = tint d K' D Q' t f' q w"
  shows "set_view (painted d K D Q t f) p x = painted d K' D Q' t f'"
  using set_painted [OF assms, of "dt_deferred (painted d K D Q t f)"] by (simp add: painted_def)

section \<open>Colouring grey\<close>

definition greyed :: "detector_t \<Rightarrow> view_ptr set \<Rightarrow> view_ptr \<Rightarrow> ponyint_color_t" where
  "greyed d N p = (if is_blocked d p \<and> p \<notin> N then COLOR_GREY else COLOR_BLACK)"

definition grey_state :: "detector_t \<Rightarrow> view_ptr set \<Rightarrow> (view_ptr \<Rightarrow> uint64_t) \<Rightarrow> detector_t" where
  "grey_state d N f = painted d (greyed d N) {p. is_blocked d p \<and> p \<notin> N} {} 0 f"

lemma mark_grey_old:
  assumes b: "is_blocked d p" "p \<notin> N"
  shows "mark_grey (grey_state d N f) p rc = Inr (False, grey_state d N (f(p := f p - rc)))"
proof -
  obtain v where v: "view_at d p = Inr v" "vw_blocked v" using b by (auto simp: is_blocked_def)
  let ?D = "{p. is_blocked d p \<and> p \<notin> N}" and ?K = "greyed d N"
  let ?x = "(tint d ?K ?D {} 0 f p v)\<lparr>vw_deferred := False, vw_rc := vw_rc (tint d ?K ?D {} 0 f p v) - rc\<rparr>"
  have "set_view (grey_state d N f) p ?x = grey_state d N (f(p := f p - rc))"
    unfolding grey_state_def using v b by (intro set_painted_same [OF v(1)] view_eqI) simp_all
  thus ?thesis using v b by (simp add: mark_grey_def grey_state_def view_at_painted [OF v(1)] greyed_def)
qed

lemma mark_grey_new:
  assumes N: "N \<subseteq> {p. is_blocked d p}" and p: "p \<in> N"
  shows "mark_grey (grey_state d N f) p rc =
    Inr (True, grey_state d (N - {p}) (\<lambda>q. f q - (if q = p then rc else 0) + owed (refs_of d p) q))"
proof -
  obtain v where v: "view_at d p = Inr v" "vw_blocked v" using N p by (auto simp: is_blocked_def)
  let ?D = "{p. is_blocked d p \<and> p \<notin> N}" and ?K = "greyed d N"
  let ?D' = "{q. is_blocked d q \<and> q \<notin> N - {p}}" and ?K' = "greyed d (N - {p})"
  let ?f = "\<lambda>q. f q - (if q = p then rc else 0) + owed (refs_of d p) q"
  have pl: "p < length (dt_mem d)" using v(1) by (simp add: view_at_Inr)
  have K': "?K' = ?K(p := COLOR_GREY)" using N p by (intro ext) (auto simp: greyed_def)
  have D': "?D' = insert p ?D" using N p by auto
  have tk: "taken d ?K' q = taken d ?K q + owed (refs_of d p) q" for q
    unfolding K' using p pl by (intro taken_more) (simp_all add: greyed_def)
  have va: "view_actor d p = Some (vw_actor v)" using v(1) by (simp add: view_actor_def view_at_Inr)
  let ?l = "if vw_deferred v then viewmap_remove (grey_state d N f) (dt_deferred (grey_state d N f)) (vw_actor v) else dt_deferred (grey_state d N f)"
  have l: "?l = dt_deferred (painted d ?K' ?D' {} 0 ?f)"
    unfolding D' using va v(1)
    by (auto simp: viewmap_remove_def grey_state_def view_actor_painted deferred_painted is_deferred_def intro!: filter_cong)
  have "set_view ((painted d ?K ?D {} 0 f)\<lparr>dt_deferred := ?l\<rparr>) p (tint d ?K' ?D' {} 0 ?f p v) = painted d ?K' ?D' {} 0 ?f"
  proof (rule set_painted [OF v(1) refl _ l])
    fix q w assume "q \<noteq> p" "view_at d q = Inr w"
    thus "tint d ?K ?D {} 0 f q w = tint d ?K' ?D' {} 0 ?f q w" by (intro view_eqI) (simp_all add: tk D' greyed_def)
  qed
  moreover have "tint d ?K' ?D' {} 0 ?f p v =
      (tint d ?K ?D {} 0 f p v)\<lparr>vw_deferred := False, vw_rc := vw_rc (tint d ?K ?D {} 0 f p v) - rc, vw_color := COLOR_GREY\<rparr>"
    using v(2) N p by (intro view_eqI) (auto simp: tk greyed_def)
  moreover have "greyed d N p = COLOR_BLACK" "p \<notin> ?D" using p by (simp_all add: greyed_def)
  moreover have "(grey_state d N f)\<lparr>dt_deferred := dt_deferred (grey_state d N f)\<rparr> = grey_state d N f" by simp
  ultimately show ?thesis using v(2)
    by (cases "vw_deferred v") (simp_all add: mark_grey_def grey_state_def view_at_painted [OF v(1)] Let_def)
qed

interpretation grey: trial_marking scan_grey_loop "\<lambda>d ref. mark_grey d (vr_view ref) (vr_rc ref)" at_rest refs_of is_live is_blocked
  "\<lambda>d N f s. s = grey_state d N f" 1 "\<lambda>d. {p. is_blocked d p}"
proof
  fix d s N f go s' stack and ref :: viewref_t
  assume "mark_grey s (vr_view ref) (vr_rc ref) = Inr (go, s')" "s' = grey_state d N f" "is_live d (vr_view ref)"
  thus "scan_grey_loop s (ref # stack) = scan_grey_loop s' (if go then rev (refs_of d (vr_view ref)) @ stack else stack)"
    by (auto simp: is_live_def grey_state_def children_painted)
next
  fix d N f s and ref :: viewref_t
  assume "s = grey_state d N f" "is_live d (vr_view ref)" "\<not> is_blocked d (vr_view ref)"
  thus "mark_grey s (vr_view ref) (vr_rc ref) = Inr (False, s)"
    by (auto simp: mark_grey_def is_live_def is_blocked_def grey_state_def view_at_painted)
next
  fix d N s and f g :: "view_ptr \<Rightarrow> uint64_t"
  assume "s = grey_state d N f" "\<And>p. is_blocked d p \<Longrightarrow> f p = g p"
  thus "s = grey_state d N g" unfolding grey_state_def by (simp cong: painted_cong)
qed (auto simp: mark_grey_old mark_grey_new blocked_live at_rest_refs blocked_finite cong: if_cong)

section \<open>Colouring black\<close>

definition blackened :: "(view_ptr \<Rightarrow> ponyint_color_t) \<Rightarrow> view_ptr set \<Rightarrow> view_ptr \<Rightarrow> ponyint_color_t" where
  "blackened K N p = (if p \<in> N then K p else COLOR_BLACK)"

type_synonym colouring = "detector_t \<times> (view_ptr \<Rightarrow> ponyint_color_t) \<times> view_ptr set"

definition colouring_ok :: "colouring \<Rightarrow> bool" where
  "colouring_ok c = (case c of (d, K, D) \<Rightarrow> at_rest d)"

definition coloured :: "colouring \<Rightarrow> view_ptr set" where
  "coloured c = (case c of (d, K, D) \<Rightarrow> {p. K p \<noteq> COLOR_BLACK \<and> is_blocked d p})"

definition gone_white :: "colouring \<Rightarrow> view_ptr set \<Rightarrow> view_ptr set" where
  "gone_white c N = (case c of (d, K, D) \<Rightarrow> {p. K p = COLOR_WHITE \<and> is_blocked d p \<and> p \<notin> N})"

definition black_state :: "colouring \<Rightarrow> view_ptr set \<Rightarrow> (view_ptr \<Rightarrow> uint64_t) \<Rightarrow> detector_t \<times> int" where
  "black_state c N f = (case c of (d, K, D) \<Rightarrow> (painted d (blackened K N) D {} 0 f, int (card (gone_white c N))))"

lemma gone_white_finite: "finite (gone_white c N)"
  by (rule finite_subset [OF _ blocked_finite [of "fst c"]]) (auto simp: gone_white_def)

lemma gone_white_less:
  assumes "p \<in> N" and "p \<in> coloured (d, K, D)"
  shows "gone_white (d, K, D) (N - {p}) = (if K p = COLOR_WHITE then insert p (gone_white (d, K, D) N) else gone_white (d, K, D) N)"
    and "p \<notin> gone_white (d, K, D) N"
  using assms by (auto simp: gone_white_def coloured_def)

lemma mark_black_old:
  assumes v: "view_at d p = Inr v" "vw_blocked v" and p: "p \<notin> N"
  shows "mark_black (painted d (blackened K N) D Q t f) p rc n = Inr (False, painted d (blackened K N) D Q t (f(p := f p + rc)), n)"
proof -
  let ?x = "tint d (blackened K N) D Q t f p v"
  have "set_view (painted d (blackened K N) D Q t f) p (?x\<lparr>vw_rc := vw_rc ?x + rc\<rparr>) = painted d (blackened K N) D Q t (f(p := f p + rc))"
    using v(2) by (intro set_painted_same [OF v(1)] view_eqI) simp_all
  thus ?thesis using v p by (simp add: mark_black_def view_at_painted [OF v(1)] blackened_def)
qed

lemma paint_black:
  assumes v: "view_at d p = Inr v" "vw_blocked v" and p: "p \<in> N" "K p \<noteq> COLOR_BLACK" and Q: "Q' - {p} = Q - {p}"
    and x: "vw_actor x = vw_actor v" "vw_rc x = vw_rc v - taken d (blackened K N) p + f p + rc" "vw_view_rc x = vw_view_rc v"
      "vw_blocked x" "vw_deferred x = (vw_deferred v \<and> p \<notin> D)" "vw_color x = COLOR_BLACK" "vw_map x = vw_map v"
      "vw_perceived x = (if p \<in> Q' then Some t else vw_perceived v)"
  shows "set_view (painted d (blackened K N) D Q t f) p x =
    painted d (blackened K (N - {p})) D Q' t (\<lambda>q. f q + (if q = p then rc else 0) - owed (refs_of d p) q)"
proof -
  let ?K = "blackened K N" and ?K' = "blackened K (N - {p})"
  have pl: "p < length (dt_mem d)" using v(1) by (simp add: view_at_Inr)
  have K': "?K' = ?K(p := COLOR_BLACK)" using p by (intro ext) (auto simp: blackened_def)
  have tk: "taken d ?K' q = taken d ?K q - owed (refs_of d p) q" for q
    unfolding K' using p pl by (intro taken_less) (simp_all add: blackened_def)
  have Q': "q \<in> Q' \<longleftrightarrow> q \<in> Q" if "q \<noteq> p" for q using Q that by blast
  show ?thesis
    using v(2) p Q' x by (intro set_painted_same [OF v(1)] view_eqI) (simp_all add: tk blackened_def)
qed

lemma mark_black_new:
  assumes p: "p \<in> N" "p \<in> coloured (d, K, D)"
  shows "mark_black (painted d (blackened K N) D Q t f) p rc n =
    Inr (True, painted d (blackened K (N - {p})) D Q t (\<lambda>q. f q + (if q = p then rc else 0) - owed (refs_of d p) q),
      if K p = COLOR_WHITE then n + 1 else n)"
proof -
  have "is_blocked d p" using p by (simp add: coloured_def)
  then obtain v where v: "view_at d p = Inr v" "vw_blocked v" by (auto simp: is_blocked_def)
  have c: "K p \<noteq> COLOR_BLACK" "blackened K N p = K p" using p by (simp_all add: coloured_def blackened_def)
  let ?x = "tint d (blackened K N) D Q t f p v"
  have "set_view (painted d (blackened K N) D Q t f) p (?x\<lparr>vw_rc := vw_rc ?x + rc, vw_color := COLOR_BLACK\<rparr>) =
      painted d (blackened K (N - {p})) D Q t (\<lambda>q. f q + (if q = p then rc else 0) - owed (refs_of d p) q)"
    using v(2) c(1) by (intro paint_black [OF v p(1)]) simp_all
  thus ?thesis using v c by (simp add: mark_black_def view_at_painted [OF v(1)])
qed

interpretation black: trial_marking "\<lambda>(d, n) stack. scan_black_loop d n stack"
  "\<lambda>(d, n) ref. res_bind (mark_black d (vr_view ref) (vr_rc ref) n) (\<lambda>(go, d, n). Inr (go, (d, n)))" colouring_ok "\<lambda>(d, K, D). refs_of d"
  "\<lambda>(d, K, D). is_live d" "\<lambda>(d, K, D). is_blocked d" "\<lambda>c N f s. s = black_state c N f" "-1" coloured
proof
  fix s :: "detector_t \<times> int"
  show "(case s of (d, n) \<Rightarrow> scan_black_loop d n) [] = Inr s" by (cases s) simp
next
  fix c :: colouring and s :: "detector_t \<times> int" and N f go s' stack and ref :: viewref_t
  obtain d K D where c: "c = (d, K, D)" by (cases c)
  assume m: "(case s of (d, n) \<Rightarrow> \<lambda>ref. res_bind (mark_black d (vr_view ref) (vr_rc ref) n) (\<lambda>(go, d, n). Inr (go, (d, n)))) ref = Inr (go, s')"
    and s': "s' = black_state c N f" and l: "(case c of (d, K, D) \<Rightarrow> is_live d) (vr_view ref)"
  obtain v where "view_at d (vr_view ref) = Inr v" using l c by (auto simp: is_live_def)
  thus "(case s of (d, n) \<Rightarrow> scan_black_loop d n) (ref # stack) = (case s' of (d, n) \<Rightarrow> scan_black_loop d n)
      (if go then rev ((case c of (d, K, D) \<Rightarrow> refs_of d) (vr_view ref)) @ stack else stack)"
    using m s' c by (cases s) (auto simp: res_bind_def black_state_def children_painted split: sum.splits)
next
  fix c :: colouring and N f and s :: "detector_t \<times> int" and ref :: viewref_t
  obtain d K D where c: "c = (d, K, D)" by (cases c)
  assume "s = black_state c N f" "N \<subseteq> coloured c" "(case c of (d, K, D) \<Rightarrow> is_live d) (vr_view ref)"
    "\<not> (case c of (d, K, D) \<Rightarrow> is_blocked d) (vr_view ref)"
  thus "(case s of (d, n) \<Rightarrow> \<lambda>ref. res_bind (mark_black d (vr_view ref) (vr_rc ref) n) (\<lambda>(go, d, n). Inr (go, (d, n)))) ref = Inr (False, s)"
    using c by (auto simp: black_state_def mark_black_def is_live_def is_blocked_def view_at_painted blackened_def coloured_def)
next
  fix c :: colouring and N f and s :: "detector_t \<times> int" and ref :: viewref_t
  obtain d K D where c: "c = (d, K, D)" by (cases c)
  assume a: "s = black_state c N f" "(case c of (d, K, D) \<Rightarrow> is_blocked d) (vr_view ref)" "vr_view ref \<notin> N"
  then obtain v where v: "view_at d (vr_view ref) = Inr v" "vw_blocked v" using c by (auto simp: is_blocked_def)
  show "\<exists>s'. (case s of (d, n) \<Rightarrow> \<lambda>ref. res_bind (mark_black d (vr_view ref) (vr_rc ref) n) (\<lambda>(go, d, n). Inr (go, (d, n)))) ref = Inr (False, s') \<and>
      s' = black_state c N (f(vr_view ref := f (vr_view ref) - - 1 * vr_rc ref))"
    using a c mark_black_old [OF v a(3)] by (simp add: black_state_def)
next
  fix c :: colouring and N f and s :: "detector_t \<times> int" and ref :: viewref_t
  obtain d K D where c: "c = (d, K, D)" by (cases c)
  assume a: "s = black_state c N f" "N \<subseteq> coloured c" "vr_view ref \<in> N"
  hence "vr_view ref \<in> coloured (d, K, D)" using c by auto
  note n = mark_black_new [OF a(3) this] and g = gone_white_less [OF a(3) this]
  have "int (card (gone_white (d, K, D) (N - {vr_view ref}))) =
      (if K (vr_view ref) = COLOR_WHITE then int (card (gone_white (d, K, D) N)) + 1 else int (card (gone_white (d, K, D) N)))"
    using g gone_white_finite by simp
  thus "\<exists>s'. (case s of (d, n) \<Rightarrow> \<lambda>ref. res_bind (mark_black d (vr_view ref) (vr_rc ref) n) (\<lambda>(go, d, n). Inr (go, (d, n)))) ref = Inr (True, s') \<and>
      s' = black_state c (N - {vr_view ref}) (\<lambda>q. f q - (if q = vr_view ref then - 1 * vr_rc ref else 0) +
        - 1 * owed ((case c of (d, K, D) \<Rightarrow> refs_of d) (vr_view ref)) q)"
    using a c n by (auto simp: black_state_def intro!: painted_cong)
next
  fix c :: colouring and N and f g :: "view_ptr \<Rightarrow> uint64_t" and s :: "detector_t \<times> int"
  assume "s = black_state c N f" "\<And>p. (case c of (d, K, D) \<Rightarrow> is_blocked d) p \<Longrightarrow> f p = g p"
  thus "s = black_state c N g" by (cases c) (auto simp: black_state_def intro!: painted_cong)
next
  fix c :: colouring
  show "finite (coloured c)" by (rule finite_subset [OF _ blocked_finite [of "fst c"]]) (auto simp: coloured_def)
qed (auto simp: colouring_ok_def coloured_def at_rest_refs blocked_live)

section \<open>Collecting the white views\<close>

text \<open>The views that are white have no other claim on them: they are not deferred, in no cycle, and of different actors.\<close>

type_synonym collecting = "colouring \<times> uint64_t"

definition collecting_ok :: "collecting \<Rightarrow> bool" where
  "collecting_ok c = (case c of ((d, K, D), t) \<Rightarrow> at_rest d \<and> inj_on (view_actor d) (gone_white (d, K, D) {}) \<and>
     (\<forall>p v. p \<in> gone_white (d, K, D) {} \<and> view_at d p = Inr v \<longrightarrow> p \<in> D \<and> vw_perceived v = None))"

definition collect_state :: "collecting \<Rightarrow> view_ptr set \<Rightarrow> (view_ptr \<Rightarrow> uint64_t) \<Rightarrow> (detector_t \<times> view_ptr list) \<times> int \<Rightarrow> bool" where
  "collect_state c N f s \<longleftrightarrow> (case c of ((d, K, D), t) \<Rightarrow>
     fst (fst s) = painted d (blackened K N) D (gone_white (d, K, D) N) t f \<and> distinct (snd (fst s)) \<and>
     set (snd (fst s)) = gone_white (d, K, D) N \<and> snd s = int (length (snd (fst s))))"

lemma view_at_set: "p < length (dt_mem d) \<Longrightarrow> view_at (set_view d p v) p = Inr v"
  by (simp add: view_at_Inr set_view_def)

lemma set_set: "set_view (set_view d p v) p w = set_view d p w"
  by (simp add: set_view_def)

lemma collect_view_plain:
  assumes v: "view_at d p = Inr v" and nw: "vw_color v \<noteq> COLOR_WHITE"
  shows "collect_view t (d, ms) p rc n = res_bind (mark_black d p rc n) (\<lambda>(go, d, n). Inr (go, (d, ms), n))"
  using nw by (simp add: collect_view_def v)

lemma collect_view_white:
  assumes ok: "collecting_ok ((d, K, D), t)" and p: "p \<in> N" "p \<in> coloured (d, K, D)" "K p = COLOR_WHITE"
    and ms: "distinct ms" "set ms = gone_white (d, K, D) N"
  shows "collect_view t (painted d (blackened K N) D (gone_white (d, K, D) N) t f, ms) p rc n =
    Inr (True, (painted d (blackened K (N - {p})) D (gone_white (d, K, D) (N - {p})) t
        (\<lambda>q. f q + (if q = p then rc else 0) - owed (refs_of d p) q), ms @ [p]), n + 1)"
proof -
  let ?Q = "gone_white (d, K, D) N" and ?W = "gone_white (d, K, D) {}"
  have "is_blocked d p" using p by (simp add: coloured_def)
  then obtain v where v: "view_at d p = Inr v" "vw_blocked v" by (auto simp: is_blocked_def)
  have pW: "p \<in> ?W" "p \<notin> ?Q" "?Q \<subseteq> ?W" using p \<open>is_blocked d p\<close> by (auto simp: gone_white_def)
  hence vp: "p \<in> D" "vw_perceived v = None" using ok v(1) by (auto simp: collecting_ok_def)
  have "view_actor d q \<noteq> view_actor d p" if "q \<in> set ms" for q
    using that ms(2) pW ok by (auto simp: collecting_ok_def inj_on_def)
  moreover have "view_actor d p = Some (vw_actor v)" using v(1) by (simp add: view_actor_def view_at_Inr)
  ultimately have put: "viewmap_put (painted d (blackened K N) D ?Q t f) ms p (vw_actor v) = ms @ [p]"
    by (auto simp: viewmap_put_def viewmap_remove_def view_actor_painted intro!: filter_True)
  let ?s = "painted d (blackened K N) D ?Q t f" and ?x = "tint d (blackened K N) D ?Q t f p v"
  have pl: "p < length (dt_mem ?s)" using v(1) by (simp add: painted_sel view_at_Inr)
  have Q': "gone_white (d, K, D) (N - {p}) = insert p ?Q" using gone_white_less(1) [OF p(1,2)] p(3) by simp
  have "set_view ?s p (?x\<lparr>vw_perceived := Some t, vw_rc := vw_rc ?x + rc, vw_color := COLOR_BLACK\<rparr>) =
      painted d (blackened K (N - {p})) D (insert p ?Q) t (\<lambda>q. f q + (if q = p then rc else 0) - owed (refs_of d p) q)"
    using p(3) v(2) by (intro paint_black [OF v p(1)]) auto
  moreover have "blackened K N p = COLOR_WHITE" using p by (simp add: blackened_def)
  ultimately show ?thesis using v(2) vp pW(2) pl put Q'
    by (simp add: collect_view_def view_at_painted [OF v(1)] mark_black_def view_at_set set_set)
qed

interpretation collecting: trial_marking "\<lambda>s stack. collect_white_loop t (fst s) (snd s) stack"
  "\<lambda>s ref. res_bind (collect_view t (fst s) (vr_view ref) (vr_rc ref) (snd s)) (\<lambda>(go, s, n). Inr (go, (s, n)))"
  "\<lambda>c. collecting_ok c \<and> snd c = t" "\<lambda>c. refs_of (fst (fst c))" "\<lambda>c. is_live (fst (fst c))"
  "\<lambda>c. is_blocked (fst (fst c))" collect_state "-1" "\<lambda>c. coloured (fst c)" for t
proof
  fix s :: "(detector_t \<times> view_ptr list) \<times> int"
  show "collect_white_loop t (fst s) (snd s) [] = Inr s" by simp
next
  fix c :: collecting and s s' :: "(detector_t \<times> view_ptr list) \<times> int" and N f go stack and ref :: viewref_t
  obtain d K D u where c: "c = ((d, K, D), u)" by (metis prod.collapse)
  assume m: "res_bind (collect_view t (fst s) (vr_view ref) (vr_rc ref) (snd s)) (\<lambda>(go, s, n). Inr (go, (s, n))) = Inr (go, s')"
    and s': "collect_state c N f s'" and l: "is_live (fst (fst c)) (vr_view ref)"
  obtain v where v: "view_at d (vr_view ref) = Inr v" using l by (auto simp: is_live_def c)
  have "view_children (fst (fst s')) (vr_view ref) = rev (refs_of (fst (fst c)) (vr_view ref))"
    using s' by (simp add: collect_state_def children_painted [OF v] c)
  thus "collect_white_loop t (fst s) (snd s) (ref # stack) = collect_white_loop t (fst s') (snd s')
      (if go then rev (refs_of (fst (fst c)) (vr_view ref)) @ stack else stack)"
    using m by (auto simp: res_bind_def split: sum.splits)
next
  fix c :: collecting and N f and s :: "(detector_t \<times> view_ptr list) \<times> int" and ref :: viewref_t
  obtain d K D u where c: "c = ((d, K, D), u)" by (metis prod.collapse)
  assume a: "collect_state c N f s" "N \<subseteq> coloured (fst c)" "is_live (fst (fst c)) (vr_view ref)" "\<not> is_blocked (fst (fst c)) (vr_view ref)"
  obtain v where v: "view_at d (vr_view ref) = Inr v" "\<not> vw_blocked v" using a(3,4) by (auto simp: is_live_def is_blocked_def c)
  have "vr_view ref \<notin> N" using a(2) v by (auto simp: coloured_def is_blocked_def c)
  hence "vw_color (tint d (blackened K N) D (gone_white (d, K, D) N) u f (vr_view ref) v) = COLOR_BLACK" by (simp add: blackened_def)
  moreover have "fst (fst s) = painted d (blackened K N) D (gone_white (d, K, D) N) u f" using a(1) by (simp add: collect_state_def c)
  ultimately show "res_bind (collect_view t (fst s) (vr_view ref) (vr_rc ref) (snd s)) (\<lambda>(go, s, n). Inr (go, (s, n))) = Inr (False, s)"
    using v by (cases s, cases "fst s") (simp add: collect_view_plain view_at_painted [OF v(1)] mark_black_def)
next
  fix c :: collecting and N f and s :: "(detector_t \<times> view_ptr list) \<times> int" and ref :: viewref_t
  obtain d K D u where c: "c = ((d, K, D), u)" by (metis prod.collapse)
  assume a: "collect_state c N f s" "is_blocked (fst (fst c)) (vr_view ref)" "vr_view ref \<notin> N"
  then obtain v where v: "view_at d (vr_view ref) = Inr v" "vw_blocked v" by (auto simp: is_blocked_def c)
  have "vw_color (tint d (blackened K N) D (gone_white (d, K, D) N) u f (vr_view ref) v) = COLOR_BLACK" using a(3) by (simp add: blackened_def)
  thus "\<exists>s'. res_bind (collect_view t (fst s) (vr_view ref) (vr_rc ref) (snd s)) (\<lambda>(go, s, n). Inr (go, (s, n))) = Inr (False, s') \<and>
      collect_state c N (f(vr_view ref := f (vr_view ref) - - 1 * vr_rc ref)) s'"
    using a(1) mark_black_old [OF v a(3)]
    by (cases s, cases "fst s") (auto simp: collect_state_def c collect_view_plain view_at_painted [OF v(1)])
next
  fix c :: collecting and N f and s :: "(detector_t \<times> view_ptr list) \<times> int" and ref :: viewref_t
  obtain d K D u where c: "c = ((d, K, D), u)" by (metis prod.collapse)
  let ?p = "vr_view ref" and ?Q = "gone_white (d, K, D) N"
  let ?f = "\<lambda>q. f q - (if q = ?p then - 1 * vr_rc ref else 0) + - 1 * owed (refs_of (fst (fst c)) ?p) q"
  let ?g = "\<lambda>q. f q + (if q = ?p then vr_rc ref else 0) - owed (refs_of d ?p) q"
  assume ok: "collecting_ok c \<and> snd c = t" and a: "collect_state c N f s" "N \<subseteq> coloured (fst c)" "?p \<in> N"
  have p: "?p \<in> coloured (d, K, D)" using a(2,3) c by auto
  obtain ms where s: "s = ((painted d (blackened K N) D ?Q u f, ms), int (length ms))" "distinct ms" "set ms = ?Q"
    using a(1) by (cases s, cases "fst s") (auto simp: collect_state_def c)
  obtain v where v: "view_at d ?p = Inr v" using p by (auto simp: coloured_def is_blocked_def)
  have fg: "painted d (blackened K (N - {?p})) D R u ?f = painted d (blackened K (N - {?p})) D R u ?g" for R
    by (rule painted_cong) (simp add: c)
  show "\<exists>s'. res_bind (collect_view t (fst s) ?p (vr_rc ref) (snd s)) (\<lambda>(go, s, n). Inr (go, (s, n))) = Inr (True, s') \<and>
      collect_state c (N - {?p}) ?f s'"
  proof (cases "K ?p = COLOR_WHITE")
    case True
    have "gone_white (d, K, D) (N - {?p}) = insert ?p ?Q" "?p \<notin> ?Q" using gone_white_less [OF a(3) p] True by simp_all
    thus ?thesis using collect_view_white [of d K D u ?p N ms f "vr_rc ref" "int (length ms)"] ok p a(3) True s fg
      by (auto simp: collect_state_def c)
  next
    case False
    have "gone_white (d, K, D) (N - {?p}) = ?Q" using gone_white_less [OF a(3) p] False by simp
    moreover have "vw_color (tint d (blackened K N) D ?Q u f ?p v) \<noteq> COLOR_WHITE" using False by (simp add: blackened_def)
    ultimately show ?thesis using mark_black_new [OF a(3) p, of ?Q u f "vr_rc ref" "int (length ms)"] False s fg
      by (auto simp: collect_state_def c collect_view_plain view_at_painted [OF v])
  qed
next
  fix c :: collecting and N and f g :: "view_ptr \<Rightarrow> uint64_t" and s :: "(detector_t \<times> view_ptr list) \<times> int"
  obtain d K D u where c: "c = ((d, K, D), u)" by (metis prod.collapse)
  assume "collect_state c N f s" "\<And>p. is_blocked (fst (fst c)) p \<Longrightarrow> f p = g p"
  thus "collect_state c N g s" using painted_cong [of d f g] by (simp add: collect_state_def c)
next
  fix c :: collecting
  show "finite (coloured (fst c))" by (rule finite_subset [OF _ blocked_finite [of "fst (fst c)"]]) (auto simp: coloured_def)
qed (auto simp: collecting_ok_def coloured_def at_rest_refs blocked_live)

end
