(* ===== verification/Cycle_Detect.thy ===== *)
theory Cycle_Detect
  imports Cycle_Trial
begin

text \<open>
  What a trial of the cycle detector finds: the result of \<open>detect\<close> in closed form, and that the cycle it perceives is
  the largest set of views whose counts are made up by references from the set.
\<close>

section \<open>What a trial finds\<close>

definition kids :: "detector_t \<Rightarrow> view_ptr \<Rightarrow> view_ptr set" where
  "kids d p = vr_view ` set (refs_of d p)"

abbreviation blockeds :: "detector_t \<Rightarrow> view_ptr set" where
  "blockeds d \<equiv> {p. is_blocked d p}"

text \<open>The blocked views reached from \<open>p\<close> through blocked views: those the trial is about.\<close>

definition region :: "detector_t \<Rightarrow> view_ptr \<Rightarrow> view_ptr set" where
  "region d p = reach_via (kids d) (blockeds d) {p}"

text \<open>What is left of a count when all references from the region are taken off it.\<close>

definition rest_rc :: "detector_t \<Rightarrow> view_ptr set \<Rightarrow> view_ptr \<Rightarrow> uint64_t" where
  "rest_rc d R p = (case view_at d p of Inr v \<Rightarrow> vw_rc v - (\<Sum>x \<in> R. owed (refs_of d x) p) | Inl _ \<Rightarrow> 0)"

definition held_up :: "detector_t \<Rightarrow> view_ptr set \<Rightarrow> view_ptr set" where
  "held_up d R = {p \<in> R. rest_rc d R p \<noteq> 0}"

definition cycle_of :: "detector_t \<Rightarrow> view_ptr \<Rightarrow> view_ptr set" where
  "cycle_of d p = region d p - reach_via (kids d) (blockeds d) (held_up d (region d p))"

text \<open>The views a trial can colour white: those reached through views that nothing else holds.\<close>

definition candidates :: "detector_t \<Rightarrow> view_ptr \<Rightarrow> view_ptr set" where
  "candidates d p = reach_via (kids d) (region d p - held_up d (region d p)) {p}"

lemma region_blocked: "region d p \<subseteq> blockeds d"
  unfolding region_def by (rule reached_sub)

lemma region_is_blocked: "x \<in> region d p \<Longrightarrow> is_blocked d x"
  using region_blocked by blast

lemma region_finite: "finite (region d p)"
  using region_blocked blocked_finite by (rule finite_subset)

lemma region_closed: "x \<in> region d p \<Longrightarrow> q \<in> kids d x \<Longrightarrow> is_blocked d q \<Longrightarrow> q \<in> region d p"
  unfolding region_def by (rule reached_step) simp_all

lemma region_less: "x \<in> region d p \<Longrightarrow> x < length (dt_mem d)"
  using region_blocked by (force simp: is_blocked_def view_at_Inr)

text \<open>Phase one leaves the region grey.\<close>

definition regional :: "view_ptr set \<Rightarrow> view_ptr \<Rightarrow> ponyint_color_t" where
  "regional R p = (if p \<in> R then COLOR_GREY else COLOR_BLACK)"

lemma scan_grey_region:
  assumes "at_rest d" and "is_live d p"
  shows "scan_grey d p 0 = Inr (painted d (regional (region d p)) (region d p) {} 0 (\<lambda>_. 0))"
proof -
  have "grey_state d (blockeds d) (\<lambda>q. 1 * owed [\<lparr>vr_view = p, vr_rc = 0\<rparr>] q) = painted d (\<lambda>_. COLOR_BLACK) {} {} 0 (\<lambda>_. 0)"
    by (simp add: grey_state_def greyed_def [abs_def] cong: if_cong)
  hence "d = grey_state d (blockeds d) (\<lambda>q. 1 * owed [\<lparr>vr_view = p, vr_rc = 0\<rparr>] q)" using painted_rest [OF assms(1)] by simp
  hence "scan_grey_loop d [\<lparr>vr_view = p, vr_rc = 0\<rparr>] = Inr (grey_state d (blockeds d - region d p) (\<lambda>_. 0))"
    using grey.run_reaches [where c = d and N = "blockeds d" and stack = "[\<lparr>vr_view = p, vr_rc = 0\<rparr>]" and s = d] assms by (simp add: region_def kids_def [abs_def])
  moreover have "greyed d (blockeds d - region d p) = regional (region d p)"
    using region_blocked by (intro ext) (auto simp: greyed_def regional_def)
  moreover have "{q. is_blocked d q \<and> q \<notin> blockeds d - region d p} = region d p" using region_blocked by auto
  ultimately show ?thesis by (simp add: scan_grey_def grey_state_def)
qed

section \<open>Colouring white\<close>

text \<open>The state in the middle of the second phase.\<close>

definition white_inv :: "detector_t \<Rightarrow> view_ptr \<Rightarrow> (view_ptr \<Rightarrow> ponyint_color_t) \<Rightarrow> viewref_t list \<Rightarrow> bool" where
  "white_inv d r K stack \<longleftrightarrow>
     (\<forall>p. K p \<noteq> COLOR_BLACK \<longrightarrow> p \<in> region d r) \<and>
     (\<forall>p q. p \<in> region d r \<and> K p = COLOR_BLACK \<and> q \<in> kids d p \<and> is_blocked d q \<longrightarrow> K q = COLOR_BLACK) \<and>
     (\<forall>p. K p = COLOR_WHITE \<longrightarrow> p \<in> candidates d r) \<and>
     (\<forall>p. p \<in> region d r \<and> K p = COLOR_BLACK \<longrightarrow> p \<in> reach_via (kids d) (blockeds d) (held_up d (region d r))) \<and>
     (\<forall>p q. K p = COLOR_WHITE \<and> q \<in> kids d p \<longrightarrow> K q \<noteq> COLOR_GREY \<or> q \<in> vr_view ` set stack) \<and>
     (K r \<noteq> COLOR_GREY \<or> r \<in> vr_view ` set stack) \<and>
     (\<forall>ref \<in> set stack. is_live d (vr_view ref) \<and> (vr_view ref = r \<or> (\<exists>x \<in> candidates d r. vr_view ref \<in> kids d x)))"

lemma white_invD:
  assumes "white_inv d r K stack"
  shows "K p \<noteq> COLOR_BLACK \<Longrightarrow> p \<in> region d r"
    and "p \<in> region d r \<Longrightarrow> K p = COLOR_BLACK \<Longrightarrow> q \<in> kids d p \<Longrightarrow> is_blocked d q \<Longrightarrow> K q = COLOR_BLACK"
    and "K p = COLOR_WHITE \<Longrightarrow> p \<in> candidates d r"
    and "p \<in> region d r \<Longrightarrow> K p = COLOR_BLACK \<Longrightarrow> p \<in> reach_via (kids d) (blockeds d) (held_up d (region d r))"
    and "K p = COLOR_WHITE \<Longrightarrow> q \<in> kids d p \<Longrightarrow> K q \<noteq> COLOR_GREY \<or> q \<in> vr_view ` set stack"
    and "K r \<noteq> COLOR_GREY \<or> r \<in> vr_view ` set stack"
    and "ref \<in> set stack \<Longrightarrow> is_live d (vr_view ref)"
    and "ref \<in> set stack \<Longrightarrow> vr_view ref = r \<or> (\<exists>x \<in> candidates d r. vr_view ref \<in> kids d x)"
  using assms unfolding white_inv_def by blast+

lemma white_invI:
  assumes "\<And>p. K p \<noteq> COLOR_BLACK \<Longrightarrow> p \<in> region d r"
    and "\<And>p q. p \<in> region d r \<Longrightarrow> K p = COLOR_BLACK \<Longrightarrow> q \<in> kids d p \<Longrightarrow> is_blocked d q \<Longrightarrow> K q = COLOR_BLACK"
    and "\<And>p. K p = COLOR_WHITE \<Longrightarrow> p \<in> candidates d r"
    and "\<And>p. p \<in> region d r \<Longrightarrow> K p = COLOR_BLACK \<Longrightarrow> p \<in> reach_via (kids d) (blockeds d) (held_up d (region d r))"
    and "\<And>p q. K p = COLOR_WHITE \<Longrightarrow> q \<in> kids d p \<Longrightarrow> K q \<noteq> COLOR_GREY \<or> q \<in> vr_view ` set stack"
    and "K r \<noteq> COLOR_GREY \<or> r \<in> vr_view ` set stack"
    and "\<And>ref. ref \<in> set stack \<Longrightarrow> is_live d (vr_view ref) \<and> (vr_view ref = r \<or> (\<exists>x \<in> candidates d r. vr_view ref \<in> kids d x))"
  shows "white_inv d r K stack"
  unfolding white_inv_def using assms by blast

text \<open>A grey view whose turn it is has its count reduced by all references from the region.\<close>

lemma taken_region:
  assumes inv: "white_inv d r K stack" and p: "K p \<noteq> COLOR_BLACK"
  shows "taken d K p = (\<Sum>x \<in> region d r. owed (refs_of d x) p)"
proof -
  have b: "is_blocked d p" using white_invD(1) [OF inv p] region_blocked by blast
  have "owed (refs_of d x) p = 0" if "x \<in> region d r" "K x = COLOR_BLACK" for x
    using white_invD(2) [OF inv that, of p] b p by (intro owed_none) (auto simp: kids_def)
  moreover have "{x. x < length (dt_mem d) \<and> K x \<noteq> COLOR_BLACK} \<subseteq> region d r" using white_invD(1) [OF inv] by auto
  moreover have "x < length (dt_mem d)" if "x \<in> region d r" for x using that by (rule region_less)
  ultimately show ?thesis unfolding taken_def by (intro sum.mono_neutral_left region_finite) auto
qed

lemma scan_black_region:
  assumes rest: "at_rest d" and inv: "white_inv d r K stack" and p: "K p = COLOR_GREY"
  defines "B \<equiv> reach_via (kids d) {q. K q \<noteq> COLOR_BLACK} {p}"
  shows "scan_black (painted d K (region d r) {} 0 (\<lambda>_. 0)) p 0 =
    Inr (painted d (\<lambda>q. if q \<in> B then COLOR_BLACK else K q) (region d r) {} 0 (\<lambda>_. 0), int (card {q \<in> B. K q = COLOR_WHITE}))"
proof -
  let ?c = "(d, K, region d r)" and ?st = "[\<lparr>vr_view = p, vr_rc = 0\<rparr>]"
  have col: "coloured ?c = {q. K q \<noteq> COLOR_BLACK}" using white_invD(1) [OF inv] region_blocked by (auto simp: coloured_def)
  have live: "is_live d p" using white_invD(1) [OF inv, of p] p region_blocked blocked_live by fastforce
  have "blackened K (coloured ?c) = K" by (intro ext) (simp add: blackened_def col)
  moreover have "gone_white ?c (coloured ?c) = {}" by (auto simp: gone_white_def coloured_def)
  ultimately have s: "(painted d K (region d r) {} 0 (\<lambda>_. 0), 0) = black_state ?c (coloured ?c) (\<lambda>q. - 1 * owed ?st q)"
    by (simp add: black_state_def cong: if_cong)
  obtain s' where "scan_black_loop (painted d K (region d r) {} 0 (\<lambda>_. 0)) 0 ?st = Inr s'"
    "s' = black_state ?c (coloured ?c - B) (\<lambda>_. 0)"
    using black.run_reaches [where c = ?c and N = "coloured ?c" and stack = ?st, OF _ s] rest live
    by (auto simp: colouring_ok_def B_def col kids_def [abs_def])
  moreover have "blackened K (coloured ?c - B) = (\<lambda>q. if q \<in> B then COLOR_BLACK else K q)"
    by (intro ext) (simp add: blackened_def col)
  moreover have "is_blocked d q" if "K q = COLOR_WHITE" for q using white_invD(1) [OF inv, of q] that region_blocked by auto
  hence "gone_white ?c (coloured ?c - B) = {q \<in> B. K q = COLOR_WHITE}" by (auto simp: gone_white_def coloured_def)
  ultimately show ?thesis by (simp add: scan_black_def black_state_def)
qed

lemma white_inv_skip:
  assumes inv: "white_inv d r K (ref # stack)" and p: "K (vr_view ref) \<noteq> COLOR_GREY"
  shows "white_inv d r K stack"
proof (rule white_invI)
  show "K q \<noteq> COLOR_GREY \<or> q \<in> vr_view ` set stack" if "K x = COLOR_WHITE" "q \<in> kids d x" for x q
    using white_invD(5) [OF inv that] p by auto
  show "K r \<noteq> COLOR_GREY \<or> r \<in> vr_view ` set stack" using white_invD(6) [OF inv] p by auto
  show "is_live d (vr_view ref') \<and> (vr_view ref' = r \<or> (\<exists>x \<in> candidates d r. vr_view ref' \<in> kids d x))" if "ref' \<in> set stack" for ref'
    using white_invD(7,8) [OF inv, of ref'] that by simp
qed (fact white_invD(1-4) [OF inv])+

lemma white_inv_black:
  assumes inv: "white_inv d r K (ref # stack)" and p: "K (vr_view ref) = COLOR_GREY" and h: "vr_view ref \<in> held_up d (region d r)"
  defines "B \<equiv> reach_via (kids d) {q. K q \<noteq> COLOR_BLACK} {vr_view ref}"
  shows "white_inv d r (\<lambda>q. if q \<in> B then COLOR_BLACK else K q) stack"
proof -
  have pB: "vr_view ref \<in> B" unfolding B_def using p by (intro reached_root) simp_all
  have "is_blocked d (vr_view ref)" using h region_blocked by (auto simp: held_up_def)
  hence "vr_view ref \<in> reach_via (kids d) (blockeds d) (held_up d (region d r))" using h by (intro reached_root) simp_all
  moreover have "{q. K q \<noteq> COLOR_BLACK} \<subseteq> blockeds d" using white_invD(1) [OF inv] region_blocked by blast
  ultimately have Bsub: "B \<subseteq> reach_via (kids d) (blockeds d) (held_up d (region d r))"
    unfolding B_def by (intro reached_mono) simp_all
  have Bcl: "q \<in> B" if "x \<in> B" "q \<in> kids d x" "K q \<noteq> COLOR_BLACK" for x q
    using that unfolding B_def by (blast intro: reached_step)
  show ?thesis
  proof (rule white_invI)
    fix x q assume "x \<in> region d r" "(if x \<in> B then COLOR_BLACK else K x) = COLOR_BLACK" "q \<in> kids d x" "is_blocked d q"
    thus "(if q \<in> B then COLOR_BLACK else K q) = COLOR_BLACK"
      using white_invD(2) [OF inv, of x q] Bcl [of x q] by (auto split: if_splits)
  next
    fix x q assume "(if x \<in> B then COLOR_BLACK else K x) = COLOR_WHITE" "q \<in> kids d x"
    thus "(if q \<in> B then COLOR_BLACK else K q) \<noteq> COLOR_GREY \<or> q \<in> vr_view ` set stack"
      using white_invD(5) [OF inv, of x q] pB by (auto split: if_splits)
  next
    show "(if r \<in> B then COLOR_BLACK else K r) \<noteq> COLOR_GREY \<or> r \<in> vr_view ` set stack"
      using white_invD(6) [OF inv] pB by auto
  next
    fix x assume "x \<in> region d r" "(if x \<in> B then COLOR_BLACK else K x) = COLOR_BLACK"
    thus "x \<in> reach_via (kids d) (blockeds d) (held_up d (region d r))"
      using white_invD(4) [OF inv, of x] Bsub by (auto split: if_splits)
  qed (use white_invD(1,3,7,8) [OF inv] in \<open>auto split: if_splits\<close>)
qed

lemma white_inv_white:
  assumes rest: "at_rest d" and inv: "white_inv d r K (ref # stack)" and p: "K (vr_view ref) = COLOR_GREY" and h: "vr_view ref \<in> candidates d r"
  shows "white_inv d r (K(vr_view ref := COLOR_WHITE)) (rev (refs_of d (vr_view ref)) @ stack)"
proof -
  let ?p = "vr_view ref"
  have R: "?p \<in> region d r" using white_invD(1) [OF inv, of ?p] p by simp
  have live: "is_live d ?p" using white_invD(7) [OF inv, of ref] by simp
  have pushed: "kids d ?p \<subseteq> vr_view ` set (rev (refs_of d ?p) @ stack)" by (auto simp: kids_def)
  show ?thesis
  proof (rule white_invI)
    fix x q assume "(K(?p := COLOR_WHITE)) x = COLOR_WHITE" "q \<in> kids d x"
    thus "(K(?p := COLOR_WHITE)) q \<noteq> COLOR_GREY \<or> q \<in> vr_view ` set (rev (refs_of d ?p) @ stack)"
      using white_invD(5) [OF inv, of x q] pushed by (cases "x = ?p") auto
  next
    fix x q assume "x \<in> region d r" "(K(?p := COLOR_WHITE)) x = COLOR_BLACK" "q \<in> kids d x" "is_blocked d q"
    thus "(K(?p := COLOR_WHITE)) q = COLOR_BLACK"
      using white_invD(2) [OF inv, of x q] p by (auto split: if_splits)
  next
    fix ref' assume "ref' \<in> set (rev (refs_of d ?p) @ stack)"
    thus "is_live d (vr_view ref') \<and> (vr_view ref' = r \<or> (\<exists>x \<in> candidates d r. vr_view ref' \<in> kids d x))"
      using h at_rest_refs [OF rest live] white_invD(7,8) [OF inv, of ref'] by (auto simp: kids_def)
  qed (use R h p white_invD(1,3,4,6) [OF inv] in \<open>auto split: if_splits\<close>)
qed

definition whites :: "(view_ptr \<Rightarrow> ponyint_color_t) \<Rightarrow> view_ptr set" where
  "whites K = {p. K p = COLOR_WHITE}"

lemma card_diff_part:
  assumes "finite A"
  shows "int (card A) - int (card {q \<in> B. q \<in> A}) = int (card (A - B))"
proof -
  have "{q \<in> B. q \<in> A} = A \<inter> B" by auto
  moreover have "card (A \<inter> B) \<le> card A" using assms by (intro card_mono) auto
  moreover have "card (A - B) = card A - card (A \<inter> B)" using assms by (intro card_Diff_subset_Int) simp
  ultimately show ?thesis by simp
qed

text \<open>The views of a set that are in no perceived cycle, and whether a trial can come to one that is.\<close>

definition free_of :: "detector_t \<Rightarrow> view_ptr set \<Rightarrow> bool" where
  "free_of d S \<longleftrightarrow> (\<forall>p v. p \<in> S \<and> view_at d p = Inr v \<longrightarrow> vw_perceived v = None)"

lemma scan_white_loop_spec:
  assumes rest: "at_rest d" and inv: "white_inv d r K stack" and free: "free_of d (whites K)"
  defines "run \<equiv> \<lambda>K. scan_white_loop (painted d K (region d r) {} 0 (\<lambda>_. 0)) (int (card (whites K)))"
  shows "(\<exists>K'. run K stack = Inr (painted d K' (region d r) {} 0 (\<lambda>_. 0), int (card (whites K'))) \<and> white_inv d r K' [] \<and>
      free_of d (whites K')) \<or>
    run K stack = Inl Assert_fail \<and> \<not> free_of d (candidates d r)"
proof -
  have "wf (inv_image (less_than <*lex*> less_than) (\<lambda>(K, stack). (card {p. K p = COLOR_GREY}, length stack)))"
    by (intro wf_inv_image wf_lex_prod wf_less_than)
  thus ?thesis using inv free
  proof (induction "(K, stack)" arbitrary: K stack rule: wf_induct_rule)
    case less
    note inv = less.prems(1) and free = less.prems(2)
    have fin: "finite {p. K p \<noteq> COLOR_BLACK}" 
      by (rule finite_subset [OF _ region_finite [of d r]]) (use white_invD(1) [OF inv] in auto)
    show ?case
    proof (cases stack)
      case Nil
      thus ?thesis using inv free by (auto simp: run_def)
    next
      case (Cons ref rest')
      let ?p = "vr_view ref" and ?s = "painted d K (region d r) {} 0 (\<lambda>_. 0)"
      obtain v where v: "view_at d ?p = Inr v" using white_invD(7) [OF inv, of ref] Cons by (auto simp: is_live_def)
      note at = view_at_painted [OF v, of K "region d r" "{}" 0 "\<lambda>_. 0"]
      show ?thesis
      proof (cases "K ?p = COLOR_GREY")
        case False
        have "white_inv d r K rest'" using white_inv_skip [of d r K ref rest'] inv False Cons by simp
        moreover have "mark_white ?s ?p (int (card (whites K))) = Inr (False, ?s, int (card (whites K)))" using False by (simp add: mark_white_def at)
        hence "run K stack = run K rest'" by (simp add: run_def Cons)
        ultimately show ?thesis using less.hyps [of K rest'] free Cons by simp
      next
        case grey: True
        have R: "?p \<in> region d r" using white_invD(1) [OF inv, of ?p] grey by simp
        hence blk: "vw_blocked v" using region_is_blocked [OF R] v by (auto simp: is_blocked_def)
        have rc: "vw_rc (tint d K (region d r) {} 0 (\<lambda>_. 0) ?p v) = rest_rc d (region d r) ?p"
          using taken_region [OF inv, of ?p] grey v blk by (simp add: rest_rc_def)
        show ?thesis
        proof (cases "?p \<in> held_up d (region d r)")
          case True
          define B where "B = reach_via (kids d) {q. K q \<noteq> COLOR_BLACK} {?p}"
          define K1 where "K1 = (\<lambda>q. if q \<in> B then COLOR_BLACK else K q)"
          have pB: "?p \<in> B" unfolding B_def using grey by (intro reached_root) simp_all
          have inv1: "white_inv d r K1 rest'"
            unfolding K1_def B_def using white_inv_black [of d r K ref rest'] inv grey True Cons by simp
          have "scan_black ?s ?p 0 = Inr (painted d K1 (region d r) {} 0 (\<lambda>_. 0), int (card {q \<in> B. K q = COLOR_WHITE}))"
            unfolding K1_def B_def by (rule scan_black_region [OF rest inv grey])
          moreover have "finite (whites K)" by (rule finite_subset [OF _ fin]) (auto simp: whites_def)
          hence "int (card (whites K)) - int (card {q \<in> B. K q = COLOR_WHITE}) = int (card (whites K - B))"
            using card_diff_part [of "whites K" B] by (simp add: whites_def)
          moreover have "whites K1 = whites K - B" by (auto simp: whites_def K1_def)
          moreover have "rest_rc d (region d r) ?p > 0" using True by (simp add: held_up_def word_gt_0)
          ultimately have "mark_white ?s ?p (int (card (whites K))) = Inr (False, painted d K1 (region d r) {} 0 (\<lambda>_. 0), int (card (whites K1)))"
            using grey blk rc by (simp add: mark_white_def at del: tint_sel(8))
          moreover have "{q. K1 q = COLOR_GREY} \<subset> {q. K q = COLOR_GREY}" using grey pB by (auto simp: K1_def split: if_splits)
          hence "card {q. K1 q = COLOR_GREY} < card {q. K q = COLOR_GREY}"
            by (intro psubset_card_mono finite_subset [OF _ fin]) auto
          moreover have "free_of d (whites K1)" using free by (auto simp: free_of_def whites_def K1_def split: if_splits)
          ultimately show ?thesis using less.hyps [of K1 rest'] inv1 by (simp add: Cons run_def)
        next
          case False
          let ?K = "K(?p := COLOR_WHITE)"
          have cand: "?p \<in> candidates d r"
            using white_invD(8) [OF inv, of ref] Cons R False unfolding candidates_def by (auto intro: reach_via.intros)
          have inv1: "white_inv d r ?K (rev (refs_of d ?p) @ rest')" using white_inv_white [of d r K ref rest'] rest inv grey cand Cons by simp
          have "set_view ?s ?p ((tint d K (region d r) {} 0 (\<lambda>_. 0) ?p v)\<lparr>vw_color := COLOR_WHITE\<rparr>) = painted d ?K (region d r) {} 0 (\<lambda>_. 0)"
            using grey by (intro set_painted_same [OF v] view_eqI) (simp_all add: taken_same)
          moreover have "rest_rc d (region d r) ?p = 0" using False R by (simp add: held_up_def)
          moreover have "whites ?K = insert ?p (whites K)" "?p \<notin> whites K" using grey by (auto simp: whites_def)
          moreover have "finite (whites K)" by (rule finite_subset [OF _ fin]) (auto simp: whites_def)
          ultimately have m: "mark_white ?s ?p (int (card (whites K))) = (if vw_perceived v = None
              then Inr (True, painted d ?K (region d r) {} 0 (\<lambda>_. 0), int (card (whites ?K))) else Inl Assert_fail)"
            using grey blk rc by (simp add: mark_white_def at pony_assert_def del: tint_sel(8))
          have "{q. ?K q = COLOR_GREY} \<subset> {q. K q = COLOR_GREY}" using grey by auto
          hence c: "card {q. ?K q = COLOR_GREY} < card {q. K q = COLOR_GREY}"
            by (intro psubset_card_mono finite_subset [OF _ fin]) auto
          show ?thesis
          proof (cases "vw_perceived v = None")
            case True
            have "free_of d (whites ?K)" using free True v by (auto simp: free_of_def whites_def split: if_splits)
            moreover have "run K stack = run ?K (rev (refs_of d ?p) @ rest')"
              using m True children_painted [OF v] by (simp add: run_def Cons)
            ultimately show ?thesis using less.hyps [of ?K "rev (refs_of d ?p) @ rest'"] inv1 c by simp
          next
            case False
            have "\<not> free_of d (candidates d r)" using False cand v by (auto simp: free_of_def)
            thus ?thesis using m False by (simp add: run_def Cons)
          qed
        qed
      qed
    qed
  qed
qed

text \<open>At the end of the second phase exactly the cycle is white.\<close>

lemma white_inv_done:
  assumes inv: "white_inv d r K []" and r: "is_blocked d r"
  shows "K p = (if p \<in> cycle_of d r then COLOR_WHITE else COLOR_BLACK)"
proof -
  let ?R = "region d r" and ?X = "reach_via (kids d) (blockeds d) (held_up d (region d r))"
  have "region d r \<subseteq> {p \<in> ?R. K p \<noteq> COLOR_GREY}" (is "_ \<subseteq> ?S")
  proof -
    have "r \<in> ?R" unfolding region_def using r by (intro reached_root) simp_all
    hence "{r} \<inter> blockeds d \<subseteq> ?S" using white_invD(6) [OF inv] by auto
    moreover have "kids d x \<inter> blockeds d \<subseteq> ?S" if x: "x \<in> ?S" for x
    proof
      fix q assume q: "q \<in> kids d x \<inter> blockeds d"
      hence "q \<in> ?R" using x region_closed by auto
      moreover have "K q \<noteq> COLOR_GREY"
        using white_invD(5) [OF inv, of x q] white_invD(2) [OF inv, of x q] x q by (cases "K x") auto
      ultimately show "q \<in> ?S" by simp
    qed
    ultimately show ?thesis unfolding region_def by (intro reached_least)
  qed
  hence ng: "K p \<noteq> COLOR_GREY" if "p \<in> ?R" for p using that by blast
  have white: "p \<notin> held_up d ?R" if "K p = COLOR_WHITE" for p
    using white_invD(3) [OF inv that] reached_sub unfolding candidates_def by blast
  have "?X \<subseteq> {p \<in> ?R. K p = COLOR_BLACK}" (is "_ \<subseteq> ?S")
  proof (rule reached_least)
    show "held_up d ?R \<inter> blockeds d \<subseteq> ?S"
    proof
      fix p assume p: "p \<in> held_up d ?R \<inter> blockeds d"
      hence "p \<in> ?R" by (simp add: held_up_def)
      moreover have "K p = COLOR_BLACK" using ng [OF \<open>p \<in> ?R\<close>] white [of p] p by (cases "K p") auto
      ultimately show "p \<in> ?S" by simp
    qed
    show "kids d x \<inter> blockeds d \<subseteq> ?S" if "x \<in> ?S" for x
      using that white_invD(2) [OF inv, of x] region_closed [of x d r] by auto
  qed
  thus ?thesis using white_invD(1) [OF inv, of p] white_invD(4) [OF inv, of p] ng [of p]
    by (cases "K p") (auto simp: cycle_of_def)
qed

lemma white_inv_start:
  assumes "is_live d r"
  shows "white_inv d r (regional (region d r)) [\<lparr>vr_view = r, vr_rc = 0\<rparr>]"
  using assms by (intro white_invI) (auto simp: regional_def region_closed split: if_splits)

definition cyclic :: "view_ptr set \<Rightarrow> view_ptr \<Rightarrow> ponyint_color_t" where
  "cyclic W p = (if p \<in> W then COLOR_WHITE else COLOR_BLACK)"

lemma cycle_unblocked: "\<not> is_blocked d r \<Longrightarrow> region d r = {}"
  unfolding region_def using reached_least [of "{r}" "blockeds d" "{}" "kids d"] by simp

lemma scan_white_cycle:
  assumes rest: "at_rest d" and r: "is_live d r"
  defines "s \<equiv> scan_white (painted d (regional (region d r)) (region d r) {} 0 (\<lambda>_. 0)) r"
  shows "s = Inr (painted d (cyclic (cycle_of d r)) (region d r) {} 0 (\<lambda>_. 0), int (card (cycle_of d r))) \<and> free_of d (cycle_of d r) \<or>
    s = Inl Assert_fail \<and> \<not> free_of d (candidates d r)"
proof -
  have w: "whites (regional (region d r)) = {}" by (auto simp: whites_def regional_def split: if_splits)
  hence "free_of d (whites (regional (region d r)))" by (simp add: free_of_def)
  note loop = scan_white_loop_spec [OF rest white_inv_start [OF r] this]
  have eq: "K = cyclic (cycle_of d r)" if "white_inv d r K []" for K
  proof (cases "is_blocked d r")
    case True
    show ?thesis by (rule ext) (simp add: white_inv_done [OF that True] cyclic_def)
  next
    case False
    hence e: "region d r = {}" by (rule cycle_unblocked)
    hence "cycle_of d r = {}" by (simp add: cycle_of_def)
    thus ?thesis using white_invD(1) [OF that] e by (intro ext) (auto simp: cyclic_def)
  qed
  have W: "whites (cyclic W) = W" for W by (auto simp: whites_def cyclic_def split: if_splits)
  have s: "s = scan_white_loop (painted d (regional (region d r)) (region d r) {} 0 (\<lambda>_. 0)) (int (card (whites (regional (region d r)))))
      [\<lparr>vr_view = r, vr_rc = 0\<rparr>]" by (simp add: s_def scan_white_def w del: scan_white_loop.simps)
  show ?thesis using loop unfolding s [symmetric] using eq W by (metis (no_types, lifting))
qed

text \<open>The whole cycle is reached from its first view, through views of the cycle.\<close>

lemma cycle_reached:
  assumes ne: "cycle_of d r \<noteq> {}"
  shows "reach_via (kids d) (cycle_of d r) {r} = cycle_of d r"
proof (rule equalityI [OF reached_sub])
  let ?X = "reach_via (kids d) (blockeds d) (held_up d (region d r))"
  have "p \<in> cycle_of d r \<longrightarrow> p \<in> reach_via (kids d) (cycle_of d r) {r}" if "p \<in> region d r" for p
    using that unfolding region_def
  proof induction
    case (reached_root p)
    thus ?case by (auto intro: reach_via.reached_root)
  next
    case (reached_step x p)
    show ?case
    proof
      assume p: "p \<in> cycle_of d r"
      have "x \<notin> ?X" using p reached_step.hyps(2,3) reach_via.reached_step [of x "kids d" "blockeds d"] by (auto simp: cycle_of_def)
      hence "x \<in> cycle_of d r" using reached_step.hyps(1) by (simp add: cycle_of_def region_def)
      thus "p \<in> reach_via (kids d) (cycle_of d r) {r}" using reached_step p by (blast intro: reach_via.reached_step)
    qed
  qed
  thus "cycle_of d r \<subseteq> reach_via (kids d) (cycle_of d r) {r}" by (auto simp: cycle_of_def)
qed

section \<open>Detection\<close>

lemma mem_only:
  assumes "dt_mem e = dt_mem d"
  shows "view_at e p = view_at d p" "refs_of e p = refs_of d p" "is_live e p = is_live d p" "is_blocked e p = is_blocked d p"
    "is_deferred e p = is_deferred d p" "view_actor e p = view_actor d p" "taken e K p = taken d K p"
proof -
  show v: "view_at e p = view_at d p" for p using assms by (simp add: view_at_def)
  show "refs_of e p = refs_of d p" for p by (simp add: refs_of_def v)
  thus "taken e K p = taken d K p" using assms by (simp add: taken_def)
  show "view_actor e p = view_actor d p" using assms by (simp add: view_actor_def)
qed (simp_all add: is_live_def is_blocked_def is_deferred_def view_at_def assms)

lemma painted_counters:
  "(painted d K D Q t f)\<lparr>dt_detected := a, dt_next_token := b\<rparr> = painted (d\<lparr>dt_detected := a, dt_next_token := b\<rparr>) K D Q t f"
proof -
  let ?e = "d\<lparr>dt_detected := a, dt_next_token := b\<rparr>"
  have "tint ?e K D Q t f = tint d K D Q t f" by (intro ext) (simp add: tint_def mem_only [of ?e d])
  thus ?thesis by (simp add: painted_def mem_only [of ?e d])
qed

lemma coloured_cyclic: "W \<subseteq> blockeds d \<Longrightarrow> coloured (d, cyclic W, D) = W"
  by (auto simp: coloured_def cyclic_def split: if_splits)

lemma gone_cyclic: "W \<subseteq> blockeds d \<Longrightarrow> gone_white (d, cyclic W, D) N = W - N"
  by (auto simp: gone_white_def cyclic_def split: if_splits)

lemma cycle_region: "cycle_of d r \<subseteq> region d r"
  by (auto simp: cycle_of_def)

lemma cycle_candidates:
  assumes "p \<in> cycle_of d r"
  shows "p \<in> candidates d r"
proof -
  let ?R = "region d r"
  have sub: "cycle_of d r \<subseteq> ?R - held_up d ?R"
    using region_is_blocked by (auto simp: cycle_of_def held_up_def intro: reached_root)
  have "reach_via (kids d) (cycle_of d r) {r} \<subseteq> candidates d r"
    unfolding candidates_def using sub by (intro reached_mono) (auto intro: reached_root)
  thus ?thesis using cycle_reached [of d r] assms by blast
qed

lemma collect_white_cycle:
  assumes rest: "at_rest d" and ne: "cycle_of d r \<noteq> {}" and inj: "inj_on (view_actor d) (cycle_of d r)"
    and free: "free_of d (cycle_of d r)"
  shows "\<exists>ms. collect_white t (painted d (cyclic (cycle_of d r)) (region d r) {} 0 (\<lambda>_. 0)) r 0 =
      Inr ((painted d (\<lambda>_. COLOR_BLACK) (region d r) (cycle_of d r) t (\<lambda>_. 0), ms), int (length ms)) \<and>
    distinct ms \<and> set ms = cycle_of d r"
proof -
  let ?W = "cycle_of d r" and ?R = "region d r" and ?st = "[\<lparr>vr_view = r, vr_rc = 0\<rparr>]"
  let ?c = "((d, cyclic ?W, ?R), t)"
  have W: "?W \<subseteq> blockeds d" using cycle_region region_blocked by blast
  have "r \<in> ?W" using cycle_reached [OF ne] ne by (metis reached_least Int_insert_left Int_empty_left empty_iff empty_subsetI subset_empty)
  hence live: "is_live d r" using W blocked_live by blast
  have "p \<in> ?R" "vw_perceived v = None" if "p \<in> ?W" "view_at d p = Inr v" for p v
    using that cycle_region free by (auto simp: free_of_def)
  hence ok: "collecting_ok ?c \<and> snd ?c = t" using rest inj by (auto simp: collecting_ok_def gone_cyclic [OF W])
  have "blackened (cyclic ?W) ?W = cyclic ?W" by (auto simp: blackened_def cyclic_def)
  moreover have "painted d (cyclic ?W) ?R {} t (\<lambda>q. - 1 * owed ?st q) = painted d (cyclic ?W) ?R {} 0 (\<lambda>_. 0)"
    by (simp add: painted_def tint_def [abs_def] cong: if_cong)
  ultimately have st: "collect_state ?c ?W (\<lambda>q. - 1 * owed ?st q) ((painted d (cyclic ?W) ?R {} 0 (\<lambda>_. 0), []), 0)"
    by (simp add: collect_state_def gone_cyclic [OF W])
  obtain s' where s': "collect_white_loop t (painted d (cyclic ?W) ?R {} 0 (\<lambda>_. 0), []) 0 ?st = Inr s'"
    "collect_state ?c (?W - ?W) (\<lambda>_. 0) s'"
    using collecting.run_reaches [where c = ?c and N = ?W and stack = ?st, OF ok st] live cycle_reached [OF ne]
    by (auto simp: coloured_cyclic [OF W] kids_def [abs_def])
  moreover have "blackened (cyclic ?W) {} = (\<lambda>_. COLOR_BLACK)" by (auto simp: blackened_def)
  ultimately show ?thesis
    by (cases s', cases "fst s'") (auto simp: collect_state_def collect_white_def gone_cyclic [OF W])
qed

lemma each_view_emit:
  assumes "\<forall>p \<in> set ps. is_live d p"
  shows "each_view (\<lambda>p v d. Inr (emit (f v) d)) ps d = Inr (d\<lparr>dt_out := dt_out d @ concat (map (\<lambda>p. f (projr (view_at d p))) ps)\<rparr>)"
  using assms
proof (induction ps arbitrary: d)
  case (Cons p ps)
  obtain v where v: "view_at d p = Inr v" using Cons.prems by (auto simp: is_live_def)
  have "\<forall>q \<in> set ps. is_live (emit (f v) d) q" using Cons.prems by (simp add: is_live_def)
  thus ?case using Cons.IH [of "emit (f v) d"] v by (simp add: emit_def)
qed simp

text \<open>The detector after a trial of \<open>r\<close>: the counts and colours are as before.\<close>

definition undeferred :: "detector_t \<Rightarrow> view_ptr set \<Rightarrow> view_ptr set \<Rightarrow> uint64_t \<Rightarrow> detector_t" where
  "undeferred d R W t = painted d (\<lambda>_. COLOR_BLACK) R W t (\<lambda>_. 0)"

lemma undeferred_view:
  assumes "at_rest d" and "view_at d p = Inr v"
  shows "view_at (undeferred d R W t) p =
    Inr (v\<lparr>vw_deferred := vw_deferred v \<and> p \<notin> R, vw_perceived := if p \<in> W then Some t else vw_perceived v\<rparr>)"
  using assms by (simp add: undeferred_def view_at_painted) (auto simp: at_rest_def taken_def intro!: view_eqI)

lemma detect_spec:
  assumes rest: "at_rest d" and v: "view_at d r = Inr v" "vw_perceived v = None"
    and inj: "free_of d (cycle_of d r) \<Longrightarrow> inj_on (view_actor d) (cycle_of d r)"
  defines "t \<equiv> dt_next_token d" and "W \<equiv> cycle_of d r"
  shows "detect d r = Inl Assert_fail \<and> \<not> free_of d (candidates d r) \<or>
    free_of d W \<and> (if W = {} then detect d r = Inr (False, undeferred d (region d r) {} t)
    else \<exists>ms. distinct ms \<and> set ms = W \<and>
      detect d r = Inr (True, (undeferred d (region d r) W t)\<lparr>dt_detected := dt_detected d + 1, dt_next_token := t + 1,
        dt_perceived := filter (\<lambda>x. per_token x \<noteq> t) (dt_perceived d) @ [\<lparr>per_token = t, per_ack = 0, per_map = ms\<rparr>],
        dt_out := dt_out d @ map (\<lambda>p. Conf (vw_actor (projr (view_at d p))) t) ms\<rparr>))"
proof -
  let ?R = "region d r" and ?g = "painted d (regional (region d r)) (region d r) {} 0 (\<lambda>_. 0)"
  let ?w = "painted d (cyclic W) (region d r) {} 0 (\<lambda>_. 0)"
  have live: "is_live d r" using v(1) by (auto simp: is_live_def)
  have fin: "finite W" unfolding W_def by (rule finite_subset [OF cycle_region region_finite])
  note first = v scan_grey_region [OF rest live]
  show ?thesis
  proof (cases "scan_white ?g r = Inl Assert_fail")
    case True
    thus ?thesis using scan_white_cycle [OF rest live] first by (auto simp: detect_def)
  next
    case ran: False
    have free: "free_of d W" and white: "scan_white ?g r = Inr (?w, int (card W))"
      using scan_white_cycle [OF rest live] ran unfolding W_def by auto
    note steps = first white
    have inj: "inj_on (view_actor d) W" using inj free unfolding W_def by simp
  have main: "if W = {} then detect d r = Inr (False, undeferred d (region d r) {} t)
    else \<exists>ms. distinct ms \<and> set ms = W \<and>
      detect d r = Inr (True, (undeferred d (region d r) W t)\<lparr>dt_detected := dt_detected d + 1, dt_next_token := t + 1,
        dt_perceived := filter (\<lambda>x. per_token x \<noteq> t) (dt_perceived d) @ [\<lparr>per_token = t, per_ack = 0, per_map = ms\<rparr>],
        dt_out := dt_out d @ map (\<lambda>p. Conf (vw_actor (projr (view_at d p))) t) ms\<rparr>)"
  proof (cases "W = {}")
    case True
    hence "cyclic W = (\<lambda>_. COLOR_BLACK)" by (auto simp: cyclic_def)
    moreover have "painted d (\<lambda>_. COLOR_BLACK) ?R {} 0 (\<lambda>_. 0) = undeferred d ?R {} t" by (simp add: undeferred_def painted_def tint_def [abs_def])
    ultimately show ?thesis using True by (simp add: detect_def steps)
  next
    case False
    let ?e = "d\<lparr>dt_detected := dt_detected d + 1, dt_next_token := t + 1\<rparr>"
    note m = mem_only [of ?e d, simplified]
    have same: "kids ?e = kids d" by (intro ext) (simp add: kids_def m)
    have blk: "blockeds ?e = blockeds d" by (simp add: m)
    have reg: "region ?e r = region d r" by (simp add: region_def same blk)
    have "rest_rc ?e R p = rest_rc d R p" for R p by (cases "view_at d p") (simp_all add: rest_rc_def m)
    hence held_up: "held_up ?e R = held_up d R" for R by (simp add: held_up_def)
    have cyc: "cycle_of ?e r = W" by (simp add: cycle_of_def W_def same blk reg held_up)
    have "at_rest ?e" using rest by (simp add: at_rest_def m)
    moreover have "inj_on (view_actor ?e) (cycle_of ?e r)" using inj unfolding cyc by (simp add: inj_on_def m)
    moreover have "free_of ?e (cycle_of ?e r)" using free unfolding cyc by (simp add: free_of_def m)
    ultimately obtain ms where ms: "collect_white t (painted ?e (cyclic W) ?R {} 0 (\<lambda>_. 0)) r 0 =
        Inr ((painted ?e (\<lambda>_. COLOR_BLACK) ?R W t (\<lambda>_. 0), ms), int (length ms))" "distinct ms" "set ms = W"
      using collect_white_cycle [of ?e r t] False by (auto simp: cyc reg)
    have card: "int (length ms) = int (card W)" using ms(2,3) by (simp add: distinct_card [symmetric])
    let ?per = "\<lparr>per_token = t, per_ack = 0, per_map = ms\<rparr>"
    let ?f = "(undeferred ?e ?R W t)\<lparr>dt_perceived := filter (\<lambda>x. per_token x \<noteq> t) (dt_perceived d) @ [?per]\<rparr>"
    have u: "undeferred ?e ?R W t = (undeferred d ?R W t)\<lparr>dt_detected := dt_detected d + 1, dt_next_token := t + 1\<rparr>"
      by (simp add: undeferred_def painted_counters)
    have fv: "view_at ?f p = view_at (undeferred d ?R W t) p" for p by (simp add: u view_at_def)
    have act: "\<exists>x. view_at ?f p = Inr x \<and> vw_actor x = vw_actor (projr (view_at d p))" if "p \<in> set ms" for p
    proof -
      have "is_blocked d p" using that ms(3) cycle_region region_is_blocked W_def by blast
      then obtain x where "view_at d p = Inr x" by (auto simp: is_blocked_def)
      thus ?thesis using undeferred_view [OF rest, of p x ?R W t] unfolding fv by simp
    qed
    have "send_conf ?per ?f = Inr (?f\<lparr>dt_out := dt_out ?f @ map (\<lambda>p. Conf (vw_actor (projr (view_at d p))) t) ms\<rparr>)"
    proof -
      have "concat (map (\<lambda>p. [Conf (vw_actor (projr (view_at ?f p))) t]) ms) = map (\<lambda>p. Conf (vw_actor (projr (view_at d p))) t) ms"
        using act by (induction ms) fastforce+
      moreover have "\<forall>p \<in> set ms. is_live ?f p" using act by (auto simp: is_live_def)
      ultimately show ?thesis using each_view_emit [of ms ?f "\<lambda>v. [Conf (vw_actor v) t]"] by (simp add: send_conf_def)
    qed
    moreover have "dt_perceived (painted ?e (\<lambda>_. COLOR_BLACK) ?R W t (\<lambda>_. 0)) = dt_perceived d"
      "dt_next_token ?w = t" "dt_detected ?w = dt_detected d" by (simp_all add: painted_def t_def)
    moreover have "0 < card W" using False fin by (simp add: card_gt_0_iff)
    ultimately have "detect d r = Inr (True, ?f\<lparr>dt_out := dt_out ?f @ map (\<lambda>p. Conf (vw_actor (projr (view_at d p))) t) ms\<rparr>)"
      using ms(1) card by (simp add: detect_def steps painted_counters undeferred_def)
    moreover have "dt_out (undeferred d ?R W t) = dt_out d" by (simp add: undeferred_def painted_def)
    ultimately show ?thesis using False ms(2,3) u by auto
  qed
    thus ?thesis using free by blast
  qed
qed

section \<open>The cycle is the largest closed set\<close>

text \<open>
  A set of views of a region is closed when every count in it is made up of references from the set, and no
  other view of the region refers to it.
\<close>

definition all_counted :: "detector_t \<Rightarrow> view_ptr set \<Rightarrow> view_ptr \<Rightarrow> bool" where
  "all_counted d S p \<longleftrightarrow> (\<exists>v. view_at d p = Inr v \<and> vw_blocked v \<and> vw_rc v = (\<Sum>x \<in> S. owed (refs_of d x) p))"

definition closed_in :: "detector_t \<Rightarrow> view_ptr set \<Rightarrow> view_ptr set \<Rightarrow> bool" where
  "closed_in d R S \<longleftrightarrow> S \<subseteq> R \<and> (\<forall>p \<in> S. all_counted d S p) \<and> (\<forall>x \<in> R - S. kids d x \<inter> S = {})"

lemma closed_sum:
  assumes "finite R" and "S \<subseteq> R" and "\<forall>x \<in> R - S. kids d x \<inter> S = {}" and "p \<in> S"
  shows "(\<Sum>x \<in> R. owed (refs_of d x) p) = (\<Sum>x \<in> S. owed (refs_of d x) p)"
proof -
  have "owed (refs_of d x) p = 0" if "x \<in> R - S" for x using assms(3,4) that by (intro owed_none) (auto simp: kids_def)
  thus ?thesis using assms(1,2) by (intro sum.mono_neutral_right) auto
qed

lemma cycle_closed: "closed_in d (region d r) (cycle_of d r)"
proof -
  let ?R = "region d r" and ?W = "cycle_of d r" and ?X = "reach_via (kids d) (blockeds d) (held_up d (region d r))"
  have out: "kids d x \<inter> ?W = {}" if x: "x \<in> ?R - ?W" for x
  proof -
    have "x \<in> ?X" using x by (simp add: cycle_of_def)
    hence "kids d x \<inter> blockeds d \<subseteq> ?X" by (rule reached_closed)
    thus ?thesis using region_is_blocked by (auto simp: cycle_of_def)
  qed
  have "all_counted d ?W p" if p: "p \<in> ?W" for p
  proof -
    have b: "is_blocked d p" using p cycle_region region_is_blocked by blast
    then obtain v where v: "view_at d p = Inr v" "vw_blocked v" by (auto simp: is_blocked_def)
    have "p \<notin> held_up d ?R" using p b reached_root [of p "held_up d ?R" "blockeds d" "kids d"] by (auto simp: cycle_of_def)
    hence "rest_rc d ?R p = 0" using p cycle_region by (auto simp: held_up_def)
    thus ?thesis using v closed_sum [OF region_finite cycle_region _ p, of d] out by (auto simp: all_counted_def rest_rc_def)
  qed
  thus ?thesis using out cycle_region by (simp add: closed_in_def)
qed

lemma cycle_greatest:
  assumes S: "closed_in d (region d r) S"
  shows "S \<subseteq> cycle_of d r"
proof -
  let ?R = "region d r" and ?X = "reach_via (kids d) (blockeds d) (held_up d (region d r))"
  have sub: "S \<subseteq> ?R" and out: "\<forall>x \<in> ?R - S. kids d x \<inter> S = {}" and cnt: "\<And>p. p \<in> S \<Longrightarrow> all_counted d S p"
    using S by (simp_all add: closed_in_def)
  have "p \<notin> held_up d ?R" if "p \<in> S" for p
    using cnt [OF that] closed_sum [OF region_finite sub out that] by (auto simp: all_counted_def held_up_def rest_rc_def)
  hence "held_up d ?R \<inter> blockeds d \<subseteq> ?R - S" by (auto simp: held_up_def)
  moreover have "kids d x \<inter> blockeds d \<subseteq> ?R - S" if "x \<in> ?R - S" for x using out that region_closed by blast
  ultimately have "?X \<subseteq> ?R - S" by (rule reached_least)
  thus ?thesis using sub by (auto simp: cycle_of_def)
qed

end
