(* ===== verification/Cycle_System.thy ===== *)
theory Cycle_System
  imports Cycle_Detect
begin

text \<open>
  What the cycle detector guarantees: a trial finds the largest closed set of blocked views that can be reached, and leaves
  everything else as it was; and what it does not: a reference that a view keeps to a collected view.
\<close>

section \<open>Trials\<close>

lemma undeferred_fields [simp]:
  "dt_perceived (undeferred d R W t) = dt_perceived d" "dt_out (undeferred d R W t) = dt_out d"
  "dt_next_token (undeferred d R W t) = dt_next_token d" "dt_views (undeferred d R W t) = dt_views d"
  by (simp_all add: undeferred_def painted_def)

text \<open>
  C18: A trial of a view that is in no perceived cycle, in a detector whose views are black, succeeds.  With \<open>W\<close> the
  largest set of the blocked views reachable from it in which every count is made up of references from the set and to
  which no other reachable blocked view refers, the trial reports a cycle iff \<open>W\<close> is not empty; it then adds one perceived cycle, whose
  members are \<open>W\<close>, and asks each of their actors to confirm it once.  Every view keeps its count, its colour and its
  references; only the views of \<open>W\<close> point to the cycle, and the views that were reached are no longer deferred.
\<close>

theorem detect_exact:
  assumes "at_rest d" and "view_at d r = Inr v" and "vw_perceived v = None" and "inj_on (view_actor d) (region d r)"
    and "free_of d (candidates d r)"
  shows "\<exists>W b e. detect d r = Inr (b, e) \<and> closed_in d (region d r) W \<and> (\<forall>S. closed_in d (region d r) S \<longrightarrow> S \<subseteq> W) \<and>
    b = (W \<noteq> {}) \<and>
    (\<forall>p w. view_at d p = Inr w \<longrightarrow> view_at e p = Inr (w\<lparr>vw_deferred := vw_deferred w \<and> p \<notin> region d r,
       vw_perceived := if p \<in> W then Some (dt_next_token d) else vw_perceived w\<rparr>)) \<and>
    (if b then \<exists>ms. distinct ms \<and> set ms = W \<and>
         dt_perceived e = filter (\<lambda>x. per_token x \<noteq> dt_next_token d) (dt_perceived d) @
           [\<lparr>per_token = dt_next_token d, per_ack = 0, per_map = ms\<rparr>] \<and>
         dt_out e = dt_out d @ map (\<lambda>p. Conf (vw_actor (projr (view_at d p))) (dt_next_token d)) ms
     else dt_perceived e = dt_perceived d \<and> dt_out e = dt_out d)"
proof -
  let ?W = "cycle_of d r" and ?t = "dt_next_token d"
  have "inj_on (view_actor d) ?W" using assms(4) cycle_region by (rule inj_on_subset)
  hence spec: "if ?W = {} then detect d r = Inr (False, undeferred d (region d r) {} ?t)
    else \<exists>ms. distinct ms \<and> set ms = ?W \<and>
      detect d r = Inr (True, (undeferred d (region d r) ?W ?t)\<lparr>dt_detected := dt_detected d + 1, dt_next_token := ?t + 1,
        dt_perceived := filter (\<lambda>x. per_token x \<noteq> ?t) (dt_perceived d) @ [\<lparr>per_token = ?t, per_ack = 0, per_map = ms\<rparr>],
        dt_out := dt_out d @ map (\<lambda>p. Conf (vw_actor (projr (view_at d p))) ?t) ms\<rparr>)"
    using detect_spec [OF assms(1-3)] assms(5) by blast
  note view = undeferred_view [OF assms(1)] and W = cycle_closed [of d r] cycle_greatest [of d r]
  show ?thesis
  proof (cases "?W = {}")
    case True
    thus ?thesis using spec W view by (intro exI [of _ ?W] exI [of _ False] exI [of _ "undeferred d (region d r) {} ?t"]) simp
  next
    case False
    then obtain ms e where "distinct ms" "set ms = ?W" and e: "detect d r = Inr (True, e)"
      "e = (undeferred d (region d r) ?W ?t)\<lparr>dt_detected := dt_detected d + 1, dt_next_token := ?t + 1,
        dt_perceived := filter (\<lambda>x. per_token x \<noteq> ?t) (dt_perceived d) @ [\<lparr>per_token = ?t, per_ack = 0, per_map = ms\<rparr>],
        dt_out := dt_out d @ map (\<lambda>p. Conf (vw_actor (projr (view_at d p))) ?t) ms\<rparr>"
      using spec by auto
    moreover have "view_at e p = view_at (undeferred d (region d r) ?W ?t) p" for p unfolding e(2) by simp
    ultimately show ?thesis using W view False by (intro exI [of _ ?W] exI [of _ True] exI [of _ e]) auto
  qed
qed

definition two_views :: detector_t where
  "two_views = (ponyint_cycle_create 100)\<lparr>dt_mem :=
     [Some \<lparr>vw_actor = 1, vw_rc = 5, vw_view_rc = 2, vw_blocked = True, vw_deferred = False, vw_color = COLOR_BLACK,
        vw_map = [\<lparr>vr_view = 1, vr_rc = 7\<rparr>], vw_perceived = None\<rparr>,
      Some \<lparr>vw_actor = 2, vw_rc = 7, vw_view_rc = 2, vw_blocked = True, vw_deferred = True, vw_color = COLOR_BLACK,
        vw_map = [\<lparr>vr_view = 0, vr_rc = 5\<rparr>], vw_perceived = None\<rparr>], dt_views := [0, 1], dt_deferred := [1]\<rparr>"

lemma two_views_at:
  "view_at two_views p = Inr v \<Longrightarrow> (p = 0 \<or> p = 1) \<and> vw_color v = COLOR_BLACK \<and> vw_perceived v = None \<and>
     vw_actor v = of_nat p + 1 \<and> vr_view ` set (vw_map v) = {1 - p}"
  by (auto simp: view_at_Inr two_views_def less_Suc_eq)

theorem detect_exact_witness:
  "\<exists>W b e. detect two_views 0 = Inr (b, e) \<and> closed_in two_views (region two_views 0) W \<and> b = (W \<noteq> {}) \<and> b"
proof -
  have v: "view_at two_views 0 = Inr (the (dt_mem two_views ! 0))" "vw_perceived (the (dt_mem two_views ! 0)) = None"
    "is_live two_views 0" "is_live two_views 1" by (simp_all add: view_at_def two_views_def is_live_def)
  have "is_live two_views (vr_view ref)" if "view_at two_views p = Inr w" "ref \<in> set (vw_map w)" for p w ref
  proof -
    have "vr_view ref = 1 - p" "p = 0 \<or> p = 1" using two_views_at [OF that(1)] that(2) by auto
    thus ?thesis using v(3,4) by auto
  qed
  hence rest: "at_rest two_views" using two_views_at by (simp add: at_rest_def)
  have blk: "blockeds two_views \<subseteq> {0, 1}" using two_views_at by (auto simp: is_blocked_def)
  have inj: "inj_on (view_actor two_views) (region two_views 0)"
    by (rule inj_on_subset [of _ "{0, 1}"]) (use region_blocked blk in \<open>auto simp: two_views_def view_actor_def\<close>)
  have free: "free_of two_views (candidates two_views 0)" using two_views_at by (auto simp: free_of_def)
  have "fst (projr (detect two_views 0))" by code_simp
  thus ?thesis using detect_exact [OF rest v(1,2) inj free] by auto
qed

section \<open>References to collected views\<close>

fun cycle_run :: "(uint64_t \<Rightarrow> bool) \<Rightarrow> cycle_msg list \<Rightarrow> detector_t \<Rightarrow> detector_t res" where
  "cycle_run pending [] d = Inr d"
| "cycle_run pending (msg # msgs) d = res_bind (cycle_dispatch pending d msg) (cycle_run pending msgs)"

definition stale_msgs :: "cycle_msg list" where
  "stale_msgs =
     (let refs = \<lambda>rs. Some (map (\<lambda>(a, rc). \<lparr>de_actor = a, de_rc = rc\<rparr>) rs)
      in [BLOCK 1 11 0 (refs [(2, 13)]) [], BLOCK 2 13 0 (refs [(1, 11), (3, 256)]) [], BLOCK 4 7 0 (refs [(3, 256), (5, 9)]) [],
        BLOCK 5 9 0 (refs [(4, 7)]) [], UNBLOCK 4, BLOCK 3 256 0 None [], CHECKBLOCKED (\<lambda>p. of_nat p) [], ACK 0, ACK 0, ACK 0,
        BLOCK 4 7 0 (refs [(3, 0)]) [], CHECKBLOCKED (\<lambda>p. of_nat p) []])"

text \<open>
  A run.  The actors 1 and 2 refer to each other and 2 refers to 3, to which 4 refers too.  Actor 4 goes on and drops its reference
  to 3, and 3 blocks with the count that is left.  The next check asks 4 whether it is blocked and finds the cycle of
  1, 2 and 3, which is confirmed and collected before 4 answers.  When 4 reports that it no longer refers to 3, the view
  of 3 has left the table, and the reference is kept.  This is the state then.
\<close>

definition stale_state :: detector_t where
  "stale_state = \<lparr>dt_mem =
     [Some \<lparr>vw_actor = 1, vw_rc = 11, vw_view_rc = 1, vw_blocked = True, vw_deferred = False, vw_color = COLOR_BLACK,
        vw_map = [\<lparr>vr_view = 1, vr_rc = 13\<rparr>], vw_perceived = Some 0\<rparr>,
      Some \<lparr>vw_actor = 2, vw_rc = 13, vw_view_rc = 1, vw_blocked = True, vw_deferred = False, vw_color = COLOR_BLACK,
        vw_map = [\<lparr>vr_view = 0, vr_rc = 11\<rparr>, \<lparr>vr_view = 2, vr_rc = 256\<rparr>], vw_perceived = Some 0\<rparr>,
      Some \<lparr>vw_actor = 3, vw_rc = 256, vw_view_rc = 2, vw_blocked = True, vw_deferred = False, vw_color = COLOR_BLACK,
        vw_map = [], vw_perceived = Some 0\<rparr>,
      Some \<lparr>vw_actor = 4, vw_rc = 7, vw_view_rc = 2, vw_blocked = True, vw_deferred = True, vw_color = COLOR_BLACK,
        vw_map = [\<lparr>vr_view = 2, vr_rc = 256\<rparr>, \<lparr>vr_view = 4, vr_rc = 9\<rparr>], vw_perceived = None\<rparr>,
      Some \<lparr>vw_actor = 5, vw_rc = 9, vw_view_rc = 2, vw_blocked = True, vw_deferred = False, vw_color = COLOR_BLACK,
        vw_map = [\<lparr>vr_view = 3, vr_rc = 7\<rparr>], vw_perceived = None\<rparr>],
     dt_next_token = 1, dt_detect_interval = 200000000, dt_last_checked = - 1, dt_views = [3, 4], dt_deferred = [3], dt_perceived = [],
     dt_attempted = 1, dt_detected = 1, dt_collected = 1, dt_created = 5, dt_destroyed = 3,
     dt_out = [Isblocked 4, Conf 1 0, Conf 2 0, Conf 3 0, Setpendingdestroy 1, Final 1, Setpendingdestroy 2, Final 2, Setpendingdestroy 3,
       Final 3, Sendrelease 1, Sendrelease 2, Sendrelease 3, Destroy 1, Destroy 2, Destroy 3]\<rparr>"

lemma stale_run:
  "cycle_run (\<lambda>_. False) (take 11 stale_msgs) (ponyint_cycle_create 100) = Inr stale_state"
  "cycle_run (\<lambda>_. False) (drop 11 stale_msgs) stale_state = Inl Assert_fail"
  by code_simp+

abbreviation stale_view :: "nat \<Rightarrow> view_t" where
  "stale_view p \<equiv> the (dt_mem stale_state ! p)"

lemma stale_view_at:
  "view_at stale_state 0 = Inr (stale_view 0)" "view_at stale_state 1 = Inr (stale_view 1)"
  "view_at stale_state 2 = Inr (stale_view 2)" "view_at stale_state 3 = Inr (stale_view 3)"
  "view_at stale_state 4 = Inr (stale_view 4)"
  by (simp_all add: view_at_def stale_state_def)

lemma stale_views: "view_at stale_state p = Inr v \<Longrightarrow> p \<in> {0, 1, 2, 3, 4} \<and> v = stale_view p"
proof -
  assume v: "view_at stale_state p = Inr v"
  hence "p < length (dt_mem stale_state)" by (simp add: view_at_Inr)
  moreover have "length (dt_mem stale_state) = 5" by (simp add: stale_state_def)
  ultimately have "p \<in> {0, 1, 2, 3, 4}" by auto
  thus ?thesis using v stale_view_at by auto
qed

lemma stale_fields:
  assumes "p \<in> {0, 1, 2, 3, 4}"
  shows "vw_blocked (stale_view p)" and "vw_color (stale_view p) = COLOR_BLACK"
    and "vr_view ` set (vw_map (stale_view p)) \<subseteq> {0, 1, 2, 3, 4}"
  using assms by (auto simp: stale_state_def)

lemma stale_blocked: "blockeds stale_state = {0, 1, 2, 3, 4}"
proof
  show "blockeds stale_state \<subseteq> {0, 1, 2, 3, 4}" using stale_views by (auto simp: is_blocked_def)
  show "{0, 1, 2, 3, 4} \<subseteq> blockeds stale_state" using stale_view_at stale_fields(1) by (auto simp: is_blocked_def)
qed

lemma stale_refs:
  "refs_of stale_state 2 = []" "refs_of stale_state 3 = [\<lparr>vr_view = 2, vr_rc = 256\<rparr>, \<lparr>vr_view = 4, vr_rc = 9\<rparr>]"
  "refs_of stale_state 4 = [\<lparr>vr_view = 3, vr_rc = 7\<rparr>]"
  by (simp_all add: refs_of_def view_at_def stale_state_def)

lemma stale_region: "region stale_state 3 = {2, 3, 4}"
proof
  show "region stale_state 3 \<subseteq> {2, 3, 4}" unfolding region_def
    by (rule reached_least) (auto simp: kids_def stale_refs)
  have 3: "3 \<in> region stale_state 3" unfolding region_def by (rule reached_root) (simp_all add: stale_blocked)
  have "2 \<in> region stale_state 3" "4 \<in> region stale_state 3"
    using reached_step [OF 3 [unfolded region_def]] by (simp_all add: region_def kids_def stale_refs stale_blocked)
  thus "{2, 3, 4} \<subseteq> region stale_state 3" using 3 by simp
qed

text \<open>
  C19: A reference to a collected view makes the detector fail.  When an actor reports that it no longer refers to an actor that has no view
  in the table, as a collected one, nothing is changed, so a reference to a collected view is kept.  And whenever the
  blocked views reachable from a view contain a closed set with a member that points to a perceived cycle, as a collected view
  does, the trial of that view fails: its first walk ends, and the second one, \<open>scan_white\<close>, fails the assertion of
  \<open>mark_white\<close> that a view it colours white is in no perceived cycle.
\<close>

theorem stale_reference_fails:
  assumes "at_rest d" and "view_at d r = Inr v" and "vw_perceived v = None"
    and "closed_in d (region d r) S" and "p \<in> S" and "view_at d p = Inr w" and "vw_perceived w \<noteq> None"
    and "\<forall>q \<in> set (dt_views e). view_actor e q \<noteq> Some a" and "a \<noteq> 0"
  shows "apply_delta_step x \<lparr>de_actor = a, de_rc = 0\<rparr> e = Inr e \<and>
    (\<exists>g. scan_grey d r 0 = Inr g \<and> scan_white g r = Inl Assert_fail) \<and> detect d r = Inl Assert_fail"
proof -
  have "viewmap_get e (dt_views e) a = None" using assms(8) by (simp add: viewmap_get_def find_None_iff)
  hence keep: "apply_delta_step x \<lparr>de_actor = a, de_rc = 0\<rparr> e = Inr e" using assms(9) by (simp add: apply_delta_step_def get_view_def)
  have "p \<in> cycle_of d r" using cycle_greatest [OF assms(4)] assms(5) by blast
  hence "\<not> free_of d (cycle_of d r)" using assms(6,7) by (auto simp: free_of_def)
  moreover have "is_live d r" using assms(2) by (auto simp: is_live_def)
  note grey = scan_grey_region [OF assms(1) this] and scan_white_cycle [OF assms(1) this]
  ultimately have "\<exists>g. scan_grey d r 0 = Inr g \<and> scan_white g r = Inl Assert_fail" by auto
  moreover from this have "detect d r = Inl Assert_fail" using assms(2,3) by (auto simp: detect_def)
  ultimately show ?thesis using keep by blast
qed

theorem stale_reference_fails_witness:
  "cycle_run (\<lambda>_. False) (take 11 stale_msgs) (ponyint_cycle_create 100) = Inr stale_state \<and>
   apply_delta_step 3 \<lparr>de_actor = 3, de_rc = 0\<rparr> stale_state = Inr stale_state \<and> detect stale_state 3 = Inl Assert_fail"
proof -
  have live: "is_live stale_state q" if "q \<in> {0, 1, 2, 3, 4}" for q
    using that stale_view_at by (auto simp: is_live_def)
  have "vw_color v = COLOR_BLACK \<and> (\<forall>ref \<in> set (vw_map v). is_live stale_state (vr_view ref))"
    if "view_at stale_state q = Inr v" for q v
    using stale_views [OF that] stale_fields(2,3) [of q] live by blast
  hence rest: "at_rest stale_state" by (simp add: at_rest_def)
  have "all_counted stale_state {2, 3, 4} q" if "q \<in> {2, 3, 4}" for q
    using that by (auto simp: all_counted_def stale_refs stale_view_at) (auto simp: stale_state_def)
  hence "closed_in stale_state (region stale_state 3) {2, 3, 4}" by (simp add: closed_in_def stale_region)
  moreover have "view_at stale_state 2 = Inr (the (dt_mem stale_state ! 2))" "view_at stale_state 3 = Inr (the (dt_mem stale_state ! 3))"
    "vw_perceived (the (dt_mem stale_state ! 2)) \<noteq> None" "vw_perceived (the (dt_mem stale_state ! 3)) = None"
    by (simp_all add: view_at_def stale_state_def)
  moreover have "\<forall>q \<in> set (dt_views stale_state). view_actor stale_state q \<noteq> Some 3" by (simp add: view_actor_def stale_state_def)
  ultimately show ?thesis using stale_reference_fails [OF rest, of 3 _ "{2, 3, 4}" 2 _ stale_state 3 3] stale_run(1) by simp
qed

end
