(* ===== verification/Spec2Isabelle.thy ===== *)
theory Spec2Isabelle
  imports Cap Lexint Hashmap_Ops Ponylist Gc_Protocol Messageq Gc_Heap Pool_System Mpmcq_System Backpressure_System Cycle_System
begin

text \<open>
  A verification development for SpacePony, a compiler for an actor language (\<^verbatim>\<open>src/libponyc\<close>, \<^verbatim>\<open>src/ponyc\<close>) and the
  runtime its programs are linked with (\<^verbatim>\<open>src/libponyrt\<close>).

  \<^bold>\<open>The program.\<close>  The compiler lexes and parses packages to a syntax tree, runs passes over it that resolve names and
  check types, among them the reference capabilities that make actors free of data races, and generates code through
  LLVM.  The runtime runs actors on scheduler threads.  An actor has a message queue, a heap of its own and the counts
  of a distributed garbage collector: sending a message traces what it contains and moves reference counts, a
  collection traces what the actor reaches, sweeps its heap, and tells the owners of what it no longer reaches by
  acquire and release messages.  Hash tables, lists and stacks carry the collector's data; a page map leads from an
  address to the chunk of memory and the actor it belongs to.

  \<^bold>\<open>The compiler.\<close>
  \<^item> \<^verbatim>\<open>Tokens\<close> has the token identifiers and trees that the type component reads; \<^verbatim>\<open>Cap\<close> models
    \<^verbatim>\<open>libponyc/type/cap.c\<close>, function by function: aliasing, the sub-capability relations, compatibility, viewpoint
    adaptation, dispatch and recovery.  Its reference is a lattice of twelve edges on capabilities with ephemeral forms; a
    generic capability is the set of its instances.  The theorems show that the tables are the relations the lattice
    gives, that a view is the one the lattice and the promises of the origin define, and that dispatch on a type gives the capability that
    least upper bounds of unions and least members of intersections define.  \<^verbatim>\<open>typealias_unfold\<close> is a parameter.
  \<^item> \<^verbatim>\<open>Lexint\<close> models \<^verbatim>\<open>libponyc/ast/lexint.c\<close>, 128-bit integers as two words, against the naturals below \<open>2 ^ 128\<close>: all
    operations, the overflow check of literals, and rounding to the nearest double.

  \<^bold>\<open>Data structures of the runtime\<close>, \<^verbatim>\<open>libponyrt/ds\<close>.
  \<^item> \<^verbatim>\<open>Hashfun\<close> models \<^verbatim>\<open>fun.c\<close>; \<^verbatim>\<open>Hashmap\<close> the table of \<^verbatim>\<open>hash.c\<close> with its invariant; \<^verbatim>\<open>Hashmap_Ops\<close> what the operations
    do.  The locale \<^verbatim>\<open>hash_keyed\<close> is the contract between the table and its users, interpreted for pointers here and
    for the three tables of the collector in \<^verbatim>\<open>Gcmaps\<close>.  Probe sequences, insertion with bumping, growth, backward-shift
    deletion and iteration all return; their fuel is the number of buckets, or the number of growths, and is shown
    to be enough.
  \<^item> \<^verbatim>\<open>Ponylist\<close> models \<^verbatim>\<open>list.c\<close> on a store of cells, \<^verbatim>\<open>Ponystack\<close> the chunked stack of \<^verbatim>\<open>stack.c\<close> (locale \<^verbatim>\<open>stack_adt\<close>).

  \<^bold>\<open>The collector\<close>, \<^verbatim>\<open>libponyrt/gc\<close>.
  \<^item> \<^verbatim>\<open>Gcmaps\<close> models \<^verbatim>\<open>objectmap.c\<close>, \<^verbatim>\<open>actormap.c\<close> and \<^verbatim>\<open>delta.c\<close>, on the hash table and on lists of elements, and shows that
    the first implements the second.
  \<^item> \<^verbatim>\<open>Gc\<close> models the handlers of \<^verbatim>\<open>gc.c\<close>; \<^verbatim>\<open>Gc_Account\<close> shows how each moves references between counters, pending
    acquires and messages, on every branch, failing assertions included.
  \<^item> \<^verbatim>\<open>Trace\<close> models the rounds of \<^verbatim>\<open>trace.c\<close>; the locale \<^verbatim>\<open>counts_actors\<close> is what the three kinds of rounds have in common.
  \<^item> \<^verbatim>\<open>Gc_Protocol\<close> composes them to a step relation of actors that create, send, receive and collect, with pushes as
    steps of their own.  In every reachable state the counts balance, no assertion of the collector fails, and an actor
    whose count is zero with nothing on its way is unreferenced.

  \<^bold>\<open>Messages\<close>, \<^verbatim>\<open>libponyrt/actor\<close>.
  \<^item> \<^verbatim>\<open>Messageq\<close> models \<^verbatim>\<open>messageq.c\<close> split at its atomic accesses; a step relation interleaves any number of producers with the
    consumer.  Messages are delivered once and in order, and marking the queue empty is told to exactly one push.

  \<^bold>\<open>Scheduler queues\<close>, \<^verbatim>\<open>libponyrt/sched\<close>.
  \<^item> \<^verbatim>\<open>Mpmcq\<close> models \<^verbatim>\<open>mpmcq.c\<close>, the queue of runnable actors, access by access, with the two loads of the tail apart, addresses
    reused as the allocator likes, and reads of freed nodes that return anything; \<^verbatim>\<open>Mpmcq_Inv\<close> has its invariant.  \<^verbatim>\<open>Mpmcq_System\<close> shows that
    every interleaving is a run of a sequential FIFO queue, that no freed memory is used while the 64-bit counter
    does not wrap, and that all operations end within a bound quadratic in the number of threads; a pop can miss an
    element, by a run that is given.

  \<^bold>\<open>Backpressure\<close>, \<^verbatim>\<open>libponyrt/actor/actor.c\<close>, \<^verbatim>\<open>libponyrt/sched/scheduler.c\<close> and \<^verbatim>\<open>mutemap.c\<close>.
  \<^item> \<^verbatim>\<open>Backpressure\<close> models the flags of an actor, the mute map of a scheduler, muting and unmuting, and a system of actors and
    scheduler threads in which a command is a piece of code between two accesses that other threads see; \<^verbatim>\<open>Backpressure_Inv\<close> has the
    invariant.  \<^verbatim>\<open>Backpressure_System\<close> shows that no assertion fails, that the count of an actor is the number of receivers it waits for, that
    from every muted actor a chain of waits leads to one that is overloaded or under pressure or already being relieved,
    and that, while no thread runs an actor and without overload and pressure, every order in which the schedulers carry out their messages
    ends after boundedly many steps with all muted actors in run queues.  Polling, which runs actors outside a scheduler's loop, is left out.

  \<^bold>\<open>The cycle detector\<close>, \<^verbatim>\<open>libponyrt/gc/cycle.c\<close>.
  \<^item> \<^verbatim>\<open>Cycle\<close> models the detector: its views of actors, perceived cycles, the four walks of trial deletion, each with a termination proof, and the handlers of
    its messages.  Pointers to views are indices of a store in which freed views are marked, so that a use after a
    free is a value.
  \<^item> \<^verbatim>\<open>Cycle_Trial\<close> proves once, in the locale \<^verbatim>\<open>trial_marking\<close>, what a walk does that marks views and moves counts, and interprets it on the
    grey, black and collecting walks; \<^verbatim>\<open>Cycle_Detect\<close> gives the result of a whole trial in closed form; \<^verbatim>\<open>Cycle_System\<close> shows that a trial
    finds exactly the largest closed set of views, that a reference to a collected view can be kept and that a trial that takes such a
    view for garbage fails an assertion, with a run of messages that gets there.

  \<^bold>\<open>Memory\<close>, \<^verbatim>\<open>libponyrt/mem\<close>.
  \<^item> \<^verbatim>\<open>Pagemap\<close> models \<^verbatim>\<open>pagemap.c\<close>; the locale \<^verbatim>\<open>page_table\<close> is the contract the heap relies on, interpreted on the prefix tree.
  \<^item> \<^verbatim>\<open>Heapchunk\<close> models the chunk headers of \<^verbatim>\<open>heap.c\<close>, whose flags are in the low bits of a pointer, marking, and the
    sort of \<^verbatim>\<open>heap_chunk_sorting.h\<close>; \<^verbatim>\<open>Heap\<close> the operations on the heap of an actor.  \<^verbatim>\<open>Heap_Inv\<close> has the invariant and
    shows that an allocation overlaps nothing; \<^verbatim>\<open>Heap_Sweep\<close> and \<^verbatim>\<open>Heap_Collect\<close> show that a collection keeps exactly the
    objects that were marked and finalises the others once, when finalisers do not allocate, and give a run in which an
    allocating finaliser makes the finalisation of a heap skip objects.  The fuel of the walks over lists of chunks is
    the length of the list.
  \<^item> \<^verbatim>\<open>Pool\<close> models the allocator of \<^verbatim>\<open>pool.c\<close>, \<^verbatim>\<open>Pool_Inv\<close> has its invariant and the account of memory, address by address, and
    \<^verbatim>\<open>Pool_System\<close> a step relation of threads that allocate, free, resize and exit, each operation in one step.  Every byte that was
    mapped is in exactly one place, and no operation fails; one case of resizing, shrinking a big block to a small one, is left out of the steps because
    it loses the old block, which a theorem of its own shows.  Below, the pool gives the heap the memory the
    theorems about the heap ask for.
  \<^item> \<^verbatim>\<open>Gc_Heap\<close> puts the collector on the heap: \<^verbatim>\<open>try_gc\<close> of \<^verbatim>\<open>actor.c\<close> with the marks of \<^verbatim>\<open>heap.c\<close>.  Over any graph of the
    actor's own objects and of actors, a collection leaves exactly what can be reached, with as much fuel as there
    are traced objects.  References to embedded objects are excluded there, and the second theorem shows why: a cycle
    through one, whose container nothing else reaches, is traced forever.

  \<^bold>\<open>Conventions.\<close>  \<^verbatim>\<open>Prelude\<close> has the integer types and the result type: a failed \<^verbatim>\<open>pony_assert\<close>, a \<^verbatim>\<open>NULL\<close> pointer that is followed, an
  access outside of memory and a loop out of fuel are values \<open>Inl\<close>, so a theorem that says that an operation returns
  \<open>Inr\<close> rules them out.  Words have the width of the C type where it matters.  Code is modelled with assertions on, for a
  64-bit little-endian target, without the builds for runtime statistics, address sanitizing, Valgrind and dynamic
  tracing.  Code outside the modelled files is an argument: the memory the operating system maps, the compiled trace and
  finaliser functions, type descriptors; the theories about the heap take the pool's answers as an argument too.

  \<^bold>\<open>Not modelled.\<close>  The lexer, parser, passes, expression and type checking beyond capabilities, reachability and compile-time
  evaluation work on the mutable syntax tree and call each other throughout; code generation calls LLVM.  In the
  runtime the scheduler beyond its queues and mute maps, start-up, asynchronous input and output, the library bindings, options and tracing depend on
  threads, time and the operating system.  Of the cycle detector the debugging output and the sending of its messages are not modelled; of the actor, creation, the
  handling of application, acquire and release messages, and the collection are.
\<close>

section \<open>The pool serves the heap\<close>

text \<open>The headers and blocks of a heap are blocks the pool has handed out.\<close>

definition from_pool :: "pool_sys \<Rightarrow> hstate \<Rightarrow> bool" where
  "from_pool sy h \<longleftrightarrow> (\<forall>c. hs_chunks h c \<noteq> None \<longrightarrow> (\<exists>n. (c, n) \<in> set (sy_used sy)))
     \<and> (\<forall>c g. chunk_at h c g \<longrightarrow> (\<exists>n. (get_m g, n) \<in> set (sy_used sy) \<and> bsize g \<le> used_size n))"

definition handed_out :: "pool_sys \<Rightarrow> nat \<Rightarrow> pool_t \<Rightarrow> uint64_t \<Rightarrow> uint64_t \<Rightarrow> pool_sys" where
  "handed_out sy t s p sz = (leave sy t s)\<lparr>sy_used := (p, sz) # sy_used sy\<rparr>"

lemma handed_out_used: "sy_used (handed_out sy t s p sz) = (p, sz) # sy_used sy" "length (sy_threads (handed_out sy t s p sz)) = length (sy_threads sy)"
  by (simp_all add: handed_out_def leave_def)

lemma pool_answer_ok:
  assumes r: "pool_reach sy" "t < length (sy_threads sy)" and h: "from_pool sy h"
    and c: "unat hsz \<le> 2 ^ 47" "fresh sy va hsz" "ponyint_pool_alloc_size va hsz (enter sy t) = Inr (c, s)"
    and b: "unat bs \<le> 2 ^ 47" "unat bs mod 1024 = 0" "0 < unat bs" "fresh (handed_out sy t s c hsz) va' bs"
      "ponyint_pool_alloc_size va' bs (enter (handed_out sy t s c hsz) t) = Inr (b, s')"
  shows "pool_ok h \<lparr>pa_chunk = c, pa_junk = junk, pa_block = b\<rparr> (unat bs)"
proof -
  let ?sy = "handed_out sy t s c hsz"
  note hc = alloc_apart [OF r c]
  have r': "pool_reach ?sy" using hc(1) by (simp add: handed_out_def)
  note hb = alloc_apart [OF r' _ b(1,4,5)]
  have t': "t < length (sy_threads ?sy)" using r(2) by (simp add: handed_out_used)
  have c0: "c \<noteq> 0" using mem_ok_facts [OF hc(2) c(1)] by simp
  have big: "unat bs \<le> used_size bs" by (rule used_size_enough [OF b(1)])
  have "1024 \<le> unat bs" using b(2,3) by (meson dvd_imp_le mod_eq_0_iff_dvd)
  then have "min (used_size bs) 1024 = 1024" using big by simp
  then have b0: "b \<noteq> 0" "unat b mod 1024 = 0"
    using mem_ok_facts [OF hb(2) [OF t'] b(1)] by simp_all
  have "unat b + used_size bs \<le> 2 ^ 48"
    using hb(2) [OF t'] used_size_class [of bs] by (auto simp: mem_ok_def item_ok_def gives_def split: if_splits)
  moreover have "hs_chunks h c = None"
  proof (rule ccontr)
    assume "hs_chunks h c \<noteq> None"
    then obtain n where n: "(c, n) \<in> set (sy_used sy)" using h by (auto simp: from_pool_def)
    moreover have "0 < used_size n" using n pool_reach_ok [OF r(1)] used_size_pos by (auto simp: sys_ok_def)
    ultimately show False using hc(3) [OF n] used_size_pos [OF c(1)] by simp
  qed
  moreover have "\<not> in_block b (unat bs) a" if g: "chunk_at h d g" "in_block (get_m g) (bsize g) a" for d g a
  proof -
    obtain n where n: "(get_m g, n) \<in> set (sy_used sy)" "bsize g \<le> used_size n" using h g(1) unfolding from_pool_def by blast
    then have "(get_m g, n) \<in> set (sy_used ?sy)" by (simp add: handed_out_used)
    then show ?thesis using hb(3) [OF t'] g(2) n(2) big by (fastforce simp: in_block_def)
  qed
  ultimately show ?thesis using c0 b0 big by (auto simp: pool_ok_def)
qed

text \<open>
  C11: The pool gives the heap what it relies on.  When a heap has its headers and blocks from the pool, and the pool, in any
  state the threads can bring it to, hands out one more header and one more block of the size the heap asks for, the
  allocation on the heap returns, and the object it returns lies apart from all others.
\<close>

theorem pool_serves_heap:
  assumes "pool_reach sy" "t < length (sy_threads sy)" "from_pool sy h" "heap_inv mutator_kind h"
    and "unat hsz \<le> 2 ^ 47" "fresh sy va hsz" "ponyint_pool_alloc_size va hsz (enter sy t) = Inr (c, s)"
    and "unat bs = pages (unat sz) * 1024" "fresh (handed_out sy t s c hsz) va' bs"
      "ponyint_pool_alloc_size va' bs (enter (handed_out sy t s c hsz) t) = Inr (b, s')"
    and "0 < unat sz" "unat sz \<le> 2 ^ 46" "track = TRACK_NO_FINALISERS \<or> track = TRACK_ALL_FINALISERS"
  shows "\<exists>m h'. ponyint_heap_alloc env h sz track \<lparr>pa_chunk = c, pa_junk = junk, pa_block = b\<rparr> = Inr (m, h')
    \<and> heap_inv mutator_kind h' \<and> heap_objs h' = insert (m, object_size (unat sz)) (heap_objs h)
    \<and> (\<forall>(a, n) \<in> heap_objs h. unat m + object_size (unat sz) \<le> unat a \<or> unat a + n \<le> unat m)"
proof -
  have "pages (unat sz) * 1024 \<le> unat sz + 1024"
    by (cases "unat sz mod 1024 = 0") (auto simp: pages_exact pages_inexact)
  then have bs: "unat bs \<le> 2 ^ 47" "unat bs mod 1024 = 0" "0 < unat bs"
    using assms(8,11,12) pages_exact [of "unat sz"] pages_inexact [of "unat sz"]
    by (auto simp: pages_def)
  have "pool_ok h \<lparr>pa_chunk = c, pa_junk = junk, pa_block = b\<rparr> (pages (unat sz) * 1024)"
    using pool_answer_ok [OF assms(1-3,5-7) bs assms(9,10)] assms(8) by simp
  moreover have "unat sz \<le> 2 ^ 47" using assms(12) by simp
  ultimately obtain m h' where r: "ponyint_heap_alloc env h sz track \<lparr>pa_chunk = c, pa_junk = junk, pa_block = b\<rparr> = Inr (m, h')"
    "heap_inv mutator_kind h'" "allocates h (object_size (unat sz)) (track = TRACK_ALL_FINALISERS) m h'"
    using heap_alloc_spec [OF assms(4,11) _ assms(13)] by blast
  have "unat m + object_size (unat sz) \<le> unat a \<or> unat a + n \<le> unat m" if "(a, n) \<in> heap_objs h" for a n
    using that heap_objs_apart [OF r(2), of m "object_size (unat sz)" a n] r(3) by (auto simp: allocates_def)
  then show ?thesis using r by (auto simp: allocates_def)
qed

theorem pool_serves_heap_witness:
  "\<exists>c b s s' m h'. ponyint_pool_alloc_size 4096 100 (enter pool_one 0) = Inr (c, s)
    \<and> ponyint_pool_alloc_size 268435456 1024 (enter (handed_out pool_one 0 s c 100) 0) = Inr (b, s')
    \<and> ponyint_heap_alloc wit_env (heap_start wit_env) 40 TRACK_ALL_FINALISERS \<lparr>pa_chunk = c, pa_junk = pa_junk (wit_answer 0 0), pa_block = b\<rparr> = Inr (m, h')
    \<and> heap_objs h' = {(m, 64)}"
proof -
  have wf: "pool_wf (enter pool_one 0)" using wf_enter [OF pool_reach_ok [OF pool_one_reach(1)], of 0] pool_one_reach(2) by simp
  obtain c s where c: "ponyint_pool_alloc_size 4096 100 (enter pool_one 0) = Inr (c, s)" "maps 4096 (ponyint_pool_used_size 100) (enter pool_one 0) s"
    using alloc_size_spec [OF wf, of 100 4096] pool_one_fresh(2) by (auto simp: fresh_def)
  let ?sy = "handed_out pool_one 0 s c 100"
  have r: "pool_reach ?sy"
    using alloc_apart(1) [OF pool_one_reach(1) _ _ pool_one_fresh(2) c(1)] pool_one_reach(2) by (simp add: handed_out_def)
  have u: "used_size 1024 = 1024" unfolding used_size_def by code_simp
  have "max (ponyint_pool_used_size 100) POOL_MMAP = POOL_MMAP" by code_simp
  then have "po_mapped s = [] \<or> po_mapped s = [(4096, POOL_MMAP)]"
    using c(2) by (simp add: maps_def enter_sel pool_one_def pool_start_def)
  then have f: "fresh ?sy 268435456 1024"
    by (auto simp: fresh_def u gives_def handed_out_def leave_def mapped_cover_def piece_def in_block_def POOL_MMAP_nat)
  have "pool_wf (enter ?sy 0)" using wf_enter [OF pool_reach_ok [OF r], of 0] pool_one_reach(2) by (simp add: handed_out_used)
  then obtain b s' where b: "ponyint_pool_alloc_size 268435456 1024 (enter ?sy 0) = Inr (b, s')"
    using alloc_size_spec [of "enter ?sy 0" 1024 268435456] f by (auto simp: fresh_def)
  have "from_pool pool_one (heap_start wit_env)" by (simp add: from_pool_def heap_start_def chunk_at_def)
  then show ?thesis
    using pool_serves_heap [OF pool_one_reach(1) _ _ heap_start_inv(1) _ pool_one_fresh(2) c(1) _ f b, of wit_env 40 TRACK_ALL_FINALISERS wit_env "pa_junk (wit_answer 0 0)"]
      pool_one_reach(2) c(1) b by (auto simp: pages_def object_size_def heap_start_inv(2))
qed

end
